(* ===== verification/Ax_Prelude.thy ===== *)
theory Ax_Prelude
  imports Main "HOL-Library.Word" "HOL-Library.Multiset"
begin

text \<open>
  What every component shares: the names of the machine integer types, the result codes of
  \<open>pipeline/error.h\<close>, the rule collections that the component theories fill, and the facts on
  lists and counts that several components need.
\<close>

section \<open>Types and collections\<close>

type_synonym u8 = "8 word"
type_synonym u16 = "16 word"
type_synonym u32 = "32 word"
type_synonym u64 = "64 word"

text \<open>A point of \<open>steady_clock\<close>, in nanoseconds.\<close>

type_synonym time_point = int

named_theorems inv_intros \<open>rules that establish a component invariant\<close>
named_theorems op_simps \<open>equations of component operations\<close>

section \<open>C integer operations\<close>

text \<open>Integer division of C++ rounds towards zero.\<close>

definition c_div :: "int \<Rightarrow> int \<Rightarrow> int" where
  "c_div a b = sgn a * sgn b * (\<bar>a\<bar> div \<bar>b\<bar>)"

lemma c_div_nonneg: "0 \<le> a \<Longrightarrow> 0 < b \<Longrightarrow> c_div a b = a div b"
  by (cases "a = 0") (simp_all add: c_div_def)

text \<open>\<open>std::max\<close> and \<open>std::min\<close>, written with the one comparison the library uses, so that
  they mean the same on numbers where the order is partial.\<close>

definition std_max :: "'a::ord \<Rightarrow> 'a \<Rightarrow> 'a" where
  "std_max a b = (if a < b then b else a)"

definition std_min :: "'a::ord \<Rightarrow> 'a \<Rightarrow> 'a" where
  "std_min a b = (if b < a then b else a)"

lemma std_max_linorder [simp]: "std_max (a::'a::linorder) b = max a b"
  by (auto simp: std_max_def max_def)

lemma std_min_linorder [simp]: "std_min (a::'a::linorder) b = min a b"
  by (auto simp: std_min_def min_def)

section \<open>Result codes\<close>

text \<open>\<open>TaskError\<close> and the codes of \<open>pipeline/error.h\<close> that the pipeline returns.\<close>

type_synonym task_error = int

definition kOk :: task_error where "kOk = 0"
definition kGeneralError :: task_error where "kGeneralError = 1"
definition kDestInvalid :: task_error where "kDestInvalid = 10"
definition kInitedAlready :: task_error where "kInitedAlready = 11"
definition kEnqueue :: task_error where "kEnqueue = 12"
definition kThreadAbnormal :: task_error where "kThreadAbnormal = 14"
definition kStartThread :: task_error where "kStartThread = 15"

lemmas task_error_defs =
  kOk_def kGeneralError_def kDestInvalid_def kInitedAlready_def kEnqueue_def
  kThreadAbnormal_def kStartThread_def

section \<open>Lists\<close>

lemma nth_list_update_if:
  "i < length xs \<Longrightarrow> xs[i := x] ! j = (if j = i then x else xs ! j)"
  by simp

lemma set_list_update_cases: "y \<in> set (xs[i := x]) \<Longrightarrow> y = x \<or> y \<in> set xs"
  using set_update_subset_insert by fastforce

lemma list_all_update: "list_all P xs \<Longrightarrow> P x \<Longrightarrow> list_all P (xs[i := x])"
  by (auto simp: list_all_iff dest: set_list_update_cases)

lemma filter_length_update:
  "i < length xs \<Longrightarrow>
   length (filter P (xs[i := x])) + (if P (xs ! i) then 1 else 0) =
   length (filter P xs) + (if P x then 1 else 0)"
proof (induction xs arbitrary: i)
  case Nil
  then show ?case by simp
next
  case (Cons y ys)
  then show ?case by (cases i) auto
qed

lemma find_SomeD: "find P xs = Some x \<Longrightarrow> x \<in> set xs \<and> P x"
  by (induction xs) (auto split: if_splits)

text \<open>Looking an element up by position, with the failure written out.\<close>

definition nth_opt :: "'a list \<Rightarrow> nat \<Rightarrow> 'a option" where
  "nth_opt xs i = (if i < length xs then Some (xs ! i) else None)"

lemma nth_opt_Some_iff: "nth_opt xs i = Some x \<longleftrightarrow> i < length xs \<and> xs ! i = x"
  by (auto simp: nth_opt_def)

lemma nth_opt_update:
  "nth_opt (xs[i := x]) j = (if j = i \<and> i < length xs then Some x else nth_opt xs j)"
  by (auto simp: nth_opt_def)

section \<open>Clearing the lowest bit\<close>

unbundle bit_operations_syntax

lemma and_not_one: "(x :: int) AND NOT 1 = x - x mod 2"
proof -
  have "NOT x AND (x AND 1) = 0" by (simp add: bit_eq_iff bit_simps)
  then have "x - (x AND 1) = x AND NOT (x AND 1)" by (rule disjunctive_diff_eq_and_not)
  also have "\<dots> = x AND NOT 1" by (rule bit_eqI) (auto simp: bit_simps)
  finally show ?thesis by (simp add: and_one_eq)
qed

lemma and_minus_two: "(x :: int) AND - 2 = x - x mod 2"
  using and_not_one [of x] by simp


end
