(* ===== verification/Detection.thy ===== *)
theory Detection
  imports Ax_Prelude
begin

text \<open>
  The data that stages, post-processors and business plugins share: detected objects
  (\<open>common/detection_types.h\<close>) and rectangles as OpenCV has them, over an arbitrary type of numbers with
  the operations of \<open>float\<close>. The pixel mask of an object is OpenCV's and is left out. Decimal numerals
  as the log and error texts print them are here too.
\<close>

section \<open>Objects\<close>

record 'f point2f =
  px :: 'f
  py :: 'f

record 'f rectf =
  rx :: 'f
  ry :: 'f
  rwidth :: 'f
  rheight :: 'f

record 'f object =
  rect :: "'f rectf"
  label :: int
  prob :: 'f
  landmark :: "'f point2f list"
  mask_feat :: "'f list"
  kps_feat :: "'f list"
  angle :: 'f
  model_name :: string
  label_name :: string
  track_id :: int

text \<open>What the scene runtime reports of a frame (\<open>plugin/scene_runtime.h\<close>).\<close>

datatype scene_process_stage = kStageOk | kPostProcessor | kBusinessPlugin

record scene_process_result =
  result_stage :: scene_process_stage
  result_code :: int

section \<open>Numbers as text\<close>

text \<open>\<open>std::to_string\<close> on integers.\<close>

definition digit :: "nat \<Rightarrow> char" where
  "digit n = char_of (48 + n)"

fun nat_to_string :: "nat \<Rightarrow> string" where
  "nat_to_string n = (if n < 10 then [digit n] else nat_to_string (n div 10) @ [digit (n mod 10)])"

declare nat_to_string.simps [simp del]

definition to_string :: "int \<Rightarrow> string" where
  "to_string i = (if i < 0 then CHR ''-'' # nat_to_string (nat (- i)) else nat_to_string (nat i))"

end
