(* ===== verification/Face_Server.thy ===== *)
theory Face_Server
  imports Detection
begin

text \<open>
  The client of the alarm server (\<open>common/face_server_client.cpp\<close>): what is checked before a push, what is
  uploaded, and how the answer is read. libcurl is the function \<open>upload\<close>; nlohmann's JSON is the function
  \<open>dump\<close> that prints the persons, and \<open>parse\<close>, which gives of a body the code and the message, or the text of
  the exception. Texts of the messages that are Chinese in the code are in English.
\<close>

section \<open>Requests\<close>

record face_server_config =
  base_url :: string
  alerts_api_key :: string
  visitors_api_key :: string

record image_blob =
  blob_filename :: string
  blob_content_type :: string
  blob_data :: "u8 list"

record alert_push_request =
  al_msg_id :: string
  al_event_id :: string
  al_org_id :: string
  al_bank_id :: string
  al_event_time :: string
  al_event_name :: string
  al_channel_name :: string
  al_description :: string
  al_files :: "image_blob list"

record visitor_person =
  vp_event_id :: string
  vp_msg_id :: string
  recognized :: bool
  vp_name :: string
  ehr_no :: string

record visitor_push_request =
  vr_event_time :: string
  camera_name :: string
  vr_msg_id :: "string option"
  persons :: "visitor_person list"
  original :: image_blob
  faces :: "image_blob list"

record form_file =
  ff_name :: string
  ff_filename :: string
  ff_content_type :: string
  ff_data :: "u8 list"

record http_response =
  hr_ok :: bool
  hr_status :: int
  hr_body :: string
  hr_error :: string

record api_result =
  ok :: bool
  http_status :: int
  api_code :: int
  api_message :: string
  raw_body :: string
  api_error :: string

definition no_result :: api_result where
  "no_result = \<lparr>ok = False, http_status = 0, api_code = -1, api_message = [], raw_body = [], api_error = []\<rparr>"

text \<open>What reaches libcurl: the address, the text fields, the files and the headers.\<close>

record upload_call =
  up_url :: string
  up_fields :: "(string \<times> string) list"
  up_files :: "form_file list"
  up_headers :: "string list"

section \<open>Files\<close>

definition looks_like_jpeg :: "u8 list \<Rightarrow> bool" where
  "looks_like_jpeg d = (if length d < 3 then False else d ! 0 = 0xFF \<and> d ! 1 = 0xD8 \<and> d ! 2 = 0xFF)"

definition png_signature :: "u8 list" where
  "png_signature = [0x89, 0x50, 0x4E, 0x47, 0x0D, 0x0A, 0x1A, 0x0A]"

definition looks_like_png :: "u8 list \<Rightarrow> bool" where
  "looks_like_png d =
     (if length d < length png_signature then False
      else list_all (\<lambda>i. d ! i = png_signature ! i) [0..<length png_signature])"

definition infer_content_type :: "image_blob \<Rightarrow> string" where
  "infer_content_type img =
     (if blob_content_type img \<noteq> [] then blob_content_type img
      else if looks_like_png (blob_data img) then ''image/png''
      else if looks_like_jpeg (blob_data img) then ''image/jpeg''
      else ''application/octet-stream'')"

definition to_form_file :: "string \<Rightarrow> image_blob \<Rightarrow> form_file" where
  "to_form_file field img =
     \<lparr>ff_name = field, ff_filename = (if blob_filename img = [] then ''upload.bin'' else blob_filename img),
      ff_content_type = infer_content_type img, ff_data = blob_data img\<rparr>"

section \<open>Addresses and answers\<close>

text \<open>The base without the slashes at its end.\<close>

definition strip_slashes :: "string \<Rightarrow> string" where
  "strip_slashes s = rev (dropWhile (\<lambda>c. c = CHR ''/'') (rev s))"

definition join_url :: "face_server_config \<Rightarrow> string \<Rightarrow> string" where
  "join_url cfg path =
     (let base = strip_slashes (base_url cfg)
      in if path \<noteq> [] \<and> hd path = CHR ''/'' then base @ path else base @ ''/'' @ path)"

type_synonym json_envelope = "string \<Rightarrow> string + int option \<times> string option"

definition from_http :: "json_envelope \<Rightarrow> http_response \<Rightarrow> api_result" where
  "from_http parse h =
     (let r = no_result\<lparr>http_status := hr_status h, raw_body := hr_body h\<rparr>
      in if hr_status h = 0 \<and> \<not> hr_ok h then
           r\<lparr>api_error := (if hr_error h = [] then ''HTTP transport failed'' else hr_error h)\<rparr>
         else
           (case (if hr_body h = [] then Inr (None, None) else parse (hr_body h)) of
              Inl exn \<Rightarrow> r\<lparr>api_error := ''response is not JSON: '' @ exn\<rparr>
            | Inr (code, msg) \<Rightarrow>
                (let r1 = r\<lparr>api_code := (case code of None \<Rightarrow> api_code r | Some c \<Rightarrow> c),
                           api_message := (case msg of None \<Rightarrow> api_message r | Some m \<Rightarrow> m)\<rparr>;
                     http_ok = (200 \<le> hr_status h \<and> hr_status h < 300)
                 in if \<not> http_ok then
                      r1\<lparr>api_error := (if api_message r1 = [] then
                                         (if hr_error h = [] then ''HTTP '' @ to_string (hr_status h) else hr_error h)
                                       else api_message r1)\<rparr>
                    else if api_code r1 \<ge> 0 then
                      (let good = (api_code r1 = 0)
                       in r1\<lparr>ok := good, api_error := (if good then api_error r1
                              else if api_message r1 = [] then ''business code='' @ to_string (api_code r1)
                              else api_message r1)\<rparr>)
                    else r1\<lparr>ok := True\<rparr>)))"

section \<open>Pushes\<close>

text \<open>The first empty file, with its position.\<close>

definition first_empty :: "image_blob list \<Rightarrow> nat option" where
  "first_empty fs = find (\<lambda>i. blob_data (fs ! i) = []) [0..<length fs]"

definition numbered_files :: "string \<Rightarrow> string \<Rightarrow> image_blob list \<Rightarrow> form_file list" where
  "numbered_files field prefix fs =
     map (\<lambda>i. let part = to_form_file field (fs ! i)
              in if blob_filename (fs ! i) = [] then part\<lparr>ff_filename := prefix @ to_string (int i) @ ''.jpg''\<rparr> else part)
       [0..<length fs]"

definition push_alert ::
    "json_envelope \<Rightarrow> (upload_call \<Rightarrow> http_response) \<Rightarrow> face_server_config \<Rightarrow> alert_push_request \<Rightarrow>
     api_result \<times> upload_call option" where
  "push_alert parse upload cfg req =
     (if alerts_api_key cfg = [] then (no_result\<lparr>api_error := ''alerts_api_key is not configured''\<rparr>, None)
      else if al_files req = [] then (no_result\<lparr>api_error := ''PushAlert needs at least 1 image''\<rparr>, None)
      else
        (case first_empty (al_files req) of
           Some i \<Rightarrow> (no_result\<lparr>api_error := ''PushAlert files['' @ to_string (int i) @ ''] is empty''\<rparr>, None)
         | None \<Rightarrow>
             (let call = \<lparr>up_url = join_url cfg ''/api/alerts/push'',
                    up_fields = [(''msgId'', al_msg_id req), (''eventId'', al_event_id req), (''orgId'', al_org_id req),
                      (''bankId'', al_bank_id req), (''eventTime'', al_event_time req), (''eventName'', al_event_name req),
                      (''channelName'', al_channel_name req), (''description'', al_description req)],
                    up_files = numbered_files ''files'' ''alert_'' (al_files req),
                    up_headers = [''X-Api-Key: '' @ alerts_api_key cfg]\<rparr>
              in (from_http parse (upload call), Some call))))"

text \<open>A person as a JSON object: the fields in the order they are set.\<close>

datatype json_field = JText string string | JBool string bool

definition person_json :: "visitor_person \<Rightarrow> json_field list" where
  "person_json p =
     [JText ''eventId'' (vp_event_id p), JBool ''recognized'' (recognized p)] @
     (if vp_msg_id p \<noteq> [] then [JText ''msgId'' (vp_msg_id p)] else []) @
     (if recognized p then [JText ''name'' (vp_name p), JText ''ehrNo'' (ehr_no p)] else [])"

definition push_visitor ::
    "(json_field list list \<Rightarrow> string) \<Rightarrow> json_envelope \<Rightarrow> (upload_call \<Rightarrow> http_response) \<Rightarrow> face_server_config \<Rightarrow>
     visitor_push_request \<Rightarrow> api_result \<times> upload_call option" where
  "push_visitor dump parse upload cfg req =
     (if visitors_api_key cfg = [] then (no_result\<lparr>api_error := ''visitors_api_key is not configured''\<rparr>, None)
      else if persons req = [] then (no_result\<lparr>api_error := ''PushVisitor needs at least 1 person''\<rparr>, None)
      else if blob_data (original req) = [] then (no_result\<lparr>api_error := ''PushVisitor original is empty''\<rparr>, None)
      else if length (faces req) \<noteq> length (persons req) then
        (no_result\<lparr>api_error := ''PushVisitor needs as many faces as persons''\<rparr>, None)
      else
        (case first_empty (faces req) of
           Some i \<Rightarrow> (no_result\<lparr>api_error := ''PushVisitor faces['' @ to_string (int i) @ ''] is empty''\<rparr>, None)
         | None \<Rightarrow>
             (let fields = [(''eventTime'', vr_event_time req), (''cameraName'', camera_name req),
                            (''persons'', dump (map person_json (persons req)))] @
                    (case vr_msg_id req of None \<Rightarrow> [] | Some m \<Rightarrow> if m = [] then [] else [(''msgId'', m)]);
                  orig = to_form_file ''original'' (original req);
                  orig = (if blob_filename (original req) = [] then orig\<lparr>ff_filename := ''original.jpg''\<rparr> else orig);
                  call = \<lparr>up_url = join_url cfg ''/api/visitors/push'', up_fields = fields,
                    up_files = orig # numbered_files ''faces'' ''face_'' (faces req),
                    up_headers = [''X-Api-Key: '' @ visitors_api_key cfg]\<rparr>
              in (from_http parse (upload call), Some call))))"

section \<open>Reading an answer\<close>

definition answer_body :: "json_envelope \<Rightarrow> http_response \<Rightarrow> string + int option \<times> string option" where
  "answer_body parse h = (if hr_body h = [] then Inr (None, None) else parse (hr_body h))"

text \<open>An answer counts as success exactly when it was transported (or has a status), the status is 2xx, the body is
  empty or JSON, and the code in it is absent, zero or negative; and it has an error text exactly when it is no
  success, so a caller may look at either.\<close>

theorem from_http_ok_iff:
  "(ok (from_http parse h) \<longleftrightarrow>
      200 \<le> hr_status h \<and> hr_status h < 300 \<and>
      (case answer_body parse h of
         Inl _ \<Rightarrow> False | Inr (None, _) \<Rightarrow> True | Inr (Some c, _) \<Rightarrow> c \<le> 0)) \<and>
   (api_error (from_http parse h) = [] \<longleftrightarrow> ok (from_http parse h)) \<and>
   http_status (from_http parse h) = hr_status h \<and> raw_body (from_http parse h) = hr_body h"
  unfolding from_http_def answer_body_def Let_def no_result_def
  by (auto split: sum.splits prod.splits option.splits if_splits)

end
