(* ===== verification/Http.thy ===== *)
theory Http
  imports Face_Server
begin

text \<open>
  The HTTP client (\<open>common/http_client.cpp\<close>): the pool of curl handles that the threads of the program share, and
  what \<open>Request\<close> and \<open>Upload\<close> set on a handle and make of its answer. A step of the pool is the body of one critical
  section, or one call of curl outside of it; threads sleep on the condition variable until they are notified, or wake
  up for no reason. libcurl is the function \<open>perform\<close>, from a handle and the options set on it since its reset to the
  text of an error or to the status and the pieces of the body. The Chinese texts of errors are in English.
\<close>

section \<open>The pool of handles\<close>

text \<open>\<open>HandlePool\<close>; the free handles with the next to be taken last. \<open>created_\<close> is a \<open>size_t\<close>: it is kept as an
  integer, and the invariant below says that it stays between zero and the size.\<close>

record 'h handle_pool =
  free_handles :: "'h list"
  created :: int
  max_size :: int

definition handle_pool_new :: "nat \<Rightarrow> 'h handle_pool" where
  "handle_pool_new n = \<lparr>free_handles = [], created = 0, max_size = (if n = 0 then 1 else int n)\<rparr>"

text \<open>Where a thread is: not in the client, between the counting of a handle and the end of \<open>curl_easy_init\<close>, between
  \<open>Acquire\<close> and \<open>Release\<close> with what it got, asleep on the condition variable, or woken and about to look again.\<close>

datatype 'h call_phase = Outside | Creating | Holding "'h option" | Asleep | Woken

definition take_free :: "'h handle_pool \<Rightarrow> 'h call_phase \<times> 'h handle_pool" where
  "take_free p = (Holding (Some (last (free_handles p))), p\<lparr>free_handles := butlast (free_handles p)\<rparr>)"

definition acquire :: "'h handle_pool \<Rightarrow> 'h call_phase \<times> 'h handle_pool" where
  "acquire p =
     (if free_handles p \<noteq> [] then take_free p
      else if created p < max_size p then (Creating, p\<lparr>created := created p + 1\<rparr>)
      else (Asleep, p))"

text \<open>The predicate of the wait, looked at again.\<close>

definition look_again :: "'h handle_pool \<Rightarrow> 'h call_phase \<times> 'h handle_pool" where
  "look_again p = (if free_handles p \<noteq> [] then take_free p else (Asleep, p))"

definition release :: "'h option \<Rightarrow> 'h handle_pool \<Rightarrow> bool \<times> 'h handle_pool" where
  "release h p =
     (case h of None \<Rightarrow> (False, p\<lparr>created := created p - 1\<rparr>)
      | Some c \<Rightarrow> (True, p\<lparr>free_handles := free_handles p @ [c]\<rparr>))"

text \<open>The handles that the destructor gives back.\<close>

definition pool_cleanup :: "'h handle_pool \<Rightarrow> 'h list" where
  "pool_cleanup p = free_handles p"

section \<open>Threads on the pool\<close>

record 'h client =
  handles :: "'h handle_pool"
  threads :: "'h call_phase list"

definition client_new :: "nat \<Rightarrow> nat \<Rightarrow> 'h client" where
  "client_new n k = \<lparr>handles = handle_pool_new n, threads = replicate k Outside\<rparr>"

definition put :: "nat \<Rightarrow> 'h call_phase \<times> 'h handle_pool \<Rightarrow> 'h client \<Rightarrow> 'h client" where
  "put i r c = \<lparr>handles = snd r, threads = (threads c)[i := fst r]\<rparr>"

text \<open>What \<open>notify_one\<close> may do: wake one sleeper, or nothing when there is none.\<close>

definition notified :: "'h call_phase list \<Rightarrow> 'h call_phase list \<Rightarrow> bool" where
  "notified ts ts' \<longleftrightarrow>
     (if Asleep \<in> set ts then \<exists>j<length ts. ts ! j = Asleep \<and> ts' = ts[j := Woken] else ts' = ts)"

text \<open>A call begins, a sleeper wakes up unasked, or a call that is under way goes on.\<close>

datatype pool_event = Arrival | Spurious | Progress

inductive pool_step :: "bool \<Rightarrow> pool_event \<Rightarrow> 'h client \<Rightarrow> 'h client \<Rightarrow> bool" for may_fail where
  arrive: "i < length (threads c) \<Longrightarrow> threads c ! i = Outside \<Longrightarrow>
    pool_step may_fail Arrival c (put i (acquire (handles c)) c)"
| spurious: "i < length (threads c) \<Longrightarrow> threads c ! i = Asleep \<Longrightarrow>
    pool_step may_fail Spurious c (put i (Woken, handles c) c)"
| look: "i < length (threads c) \<Longrightarrow> threads c ! i = Woken \<Longrightarrow>
    pool_step may_fail Progress c (put i (look_again (handles c)) c)"
| init_ok: "i < length (threads c) \<Longrightarrow> threads c ! i = Creating \<Longrightarrow>
    h \<notin> set (free_handles (handles c)) \<Longrightarrow> Holding (Some h) \<notin> set (threads c) \<Longrightarrow>
    pool_step may_fail Progress c (put i (Holding (Some h), handles c) c)"
| init_failed: "may_fail \<Longrightarrow> i < length (threads c) \<Longrightarrow> threads c ! i = Creating \<Longrightarrow>
    pool_step may_fail Progress c (put i (Holding None, handles c) c)"
| finish: "i < length (threads c) \<Longrightarrow> threads c ! i = Holding h \<Longrightarrow> release h (handles c) = (wakes, p) \<Longrightarrow>
    (if wakes then notified ((threads c)[i := Outside]) ts else ts = (threads c)[i := Outside]) \<Longrightarrow>
    pool_step may_fail Progress c \<lparr>handles = p, threads = ts\<rparr>"

inductive pool_reach :: "bool \<Rightarrow> nat \<Rightarrow> nat \<Rightarrow> 'h client \<Rightarrow> bool" for may_fail n k where
  start: "pool_reach may_fail n k (client_new n k)"
| step: "pool_reach may_fail n k c \<Longrightarrow> pool_step may_fail ev c c' \<Longrightarrow> pool_reach may_fail n k c'"

section \<open>Requests\<close>

record http_config =
  timeout_ms :: int
  connect_timeout_ms :: int
  pool_size :: nat

text \<open>A part of a form: its name, the name of the file and its type where they are set, and the bytes.\<close>

record mime_part =
  mp_name :: string
  mp_filename :: "string option"
  mp_type :: "string option"
  mp_data :: "u8 list"

datatype curl_opt =
    OptUrl string | OptHttpHeader "string list" | OptWrite | OptTimeoutMs int | OptConnectTimeoutMs int
  | OptNoSignal | OptHttpGet | OptPost | OptCustomRequest string | OptPostFields string | OptPostFieldSize int
  | OptMimePost "mime_part list"

text \<open>What a C function sees of a string: the characters before the first zero.\<close>

definition c_str :: "string \<Rightarrow> string" where
  "c_str s = takeWhile (\<lambda>c. of_char c \<noteq> (0::nat)) s"

definition bytes_of :: "string \<Rightarrow> u8 list" where
  "bytes_of s = map of_char s"

definition method_options :: "string \<Rightarrow> curl_opt list" where
  "method_options m =
     (if m = ''GET'' then [OptHttpGet]
      else if m = ''DELETE'' then [OptCustomRequest ''DELETE'']
      else if m = ''PUT'' then [OptCustomRequest ''PUT'']
      else if m = ''POST'' then [OptPost]
      else [OptCustomRequest (c_str m)])"

definition body_options :: "string \<Rightarrow> string option \<Rightarrow> curl_opt list" where
  "body_options m body =
     (case body of
        Some b \<Rightarrow> [OptPostFields b, OptPostFieldSize (int (length b))]
      | None \<Rightarrow> if m = ''PUT'' \<or> m = ''POST'' then [OptPostFields [], OptPostFieldSize 0] else [])"

definition request_options :: "http_config \<Rightarrow> string \<Rightarrow> string \<Rightarrow> string list \<Rightarrow> string option \<Rightarrow> curl_opt list" where
  "request_options cfg m url headers body =
     [OptUrl (c_str url), OptHttpHeader (map c_str headers), OptWrite, OptTimeoutMs (timeout_ms cfg),
      OptConnectTimeoutMs (connect_timeout_ms cfg), OptNoSignal] @ method_options m @ body_options m body"

type_synonym curl_answer = "string + int \<times> string list"

definition http_no_result :: http_response where
  "http_no_result = \<lparr>hr_ok = False, hr_status = 0, hr_body = [], hr_error = []\<rparr>"

text \<open>The body is what the write callback has appended piece by piece.\<close>

definition read_answer :: "string \<Rightarrow> curl_answer \<Rightarrow> http_response" where
  "read_answer prefix a =
     (case a of
        Inl e \<Rightarrow> http_no_result\<lparr>hr_error := prefix @ e\<rparr>
      | Inr (status, pieces) \<Rightarrow>
          (let good = (200 \<le> status \<and> status < 300)
           in \<lparr>hr_ok = good, hr_status = status, hr_body = fold (\<lambda>p s. s @ p) pieces [],
               hr_error = (if good then [] else ''HTTP '' @ to_string status)\<rparr>))"

definition http_request ::
    "('h \<Rightarrow> curl_opt list \<Rightarrow> curl_answer) \<Rightarrow> http_config \<Rightarrow> 'h option \<Rightarrow> string \<Rightarrow> string \<Rightarrow> string list \<Rightarrow> string option \<Rightarrow>
     http_response" where
  "http_request perform cfg handle m url headers body =
     (case handle of
        None \<Rightarrow> http_no_result\<lparr>hr_error := ''curl_easy_init failed''\<rparr>
      | Some h \<Rightarrow> read_answer ''curl request failed: '' (perform h (request_options cfg m url headers body)))"

section \<open>Uploads\<close>

text \<open>A file of a form as the caller gives it: a pointer, which may be null, and a size.\<close>

record mime_file =
  mf_name :: string
  mf_filename :: string
  mf_content_type :: string
  mf_data :: "u8 list option"
  mf_size :: nat

definition field_part :: "string \<times> string \<Rightarrow> mime_part" where
  "field_part f = \<lparr>mp_name = c_str (fst f), mp_filename = None, mp_type = None, mp_data = bytes_of (c_str (snd f))\<rparr>"

definition text_of :: "string \<Rightarrow> string option" where
  "text_of s = (if s = [] then None else Some (c_str s))"

fun file_parts :: "mime_file list \<Rightarrow> mime_part list option" where
  "file_parts [] = Some []"
| "file_parts (f # fs) =
     (if mf_data f = None \<and> mf_size f \<noteq> 0 then None
      else map_option ((#) \<lparr>mp_name = c_str (mf_name f), mp_filename = text_of (mf_filename f),
               mp_type = text_of (mf_content_type f),
               mp_data = (case mf_data f of None \<Rightarrow> [] | Some d \<Rightarrow> take (mf_size f) d)\<rparr>) (file_parts fs))"

definition upload_options :: "http_config \<Rightarrow> string \<Rightarrow> mime_part list \<Rightarrow> string list \<Rightarrow> curl_opt list" where
  "upload_options cfg url parts headers =
     [OptUrl (c_str url), OptHttpHeader (map c_str headers), OptMimePost parts, OptWrite, OptTimeoutMs (timeout_ms cfg),
      OptConnectTimeoutMs (connect_timeout_ms cfg), OptNoSignal]"

text \<open>\<open>mime_ok\<close> is whether \<open>curl_mime_init\<close> gives a form.\<close>

definition http_upload ::
    "('h \<Rightarrow> curl_opt list \<Rightarrow> curl_answer) \<Rightarrow> ('h \<Rightarrow> bool) \<Rightarrow> http_config \<Rightarrow> 'h option \<Rightarrow> string \<Rightarrow> (string \<times> string) list \<Rightarrow>
     mime_file list \<Rightarrow> string list \<Rightarrow> http_response" where
  "http_upload perform mime_ok cfg handle url fds files headers =
     (case handle of
        None \<Rightarrow> http_no_result\<lparr>hr_error := ''curl_easy_init failed''\<rparr>
      | Some h \<Rightarrow>
          if \<not> mime_ok h then http_no_result\<lparr>hr_error := ''curl_mime_init failed''\<rparr>
          else
            (case file_parts files of
               None \<Rightarrow> http_no_result\<lparr>hr_error := ''FormFile.data is null but size is not 0''\<rparr>
             | Some parts \<Rightarrow>
                 read_answer ''curl upload failed: ''
                   (perform h (upload_options cfg url (map field_part fds @ parts) headers))))"

text \<open>The client behind the alarm client: a file is the vector of the image, whose pointer may be null when it is
  empty.\<close>

definition form_file_part :: "form_file \<Rightarrow> mime_file" where
  "form_file_part f =
     \<lparr>mf_name = ff_name f, mf_filename = ff_filename f, mf_content_type = ff_content_type f,
      mf_data = (if ff_data f = [] then None else Some (ff_data f)), mf_size = length (ff_data f)\<rparr>"

definition upload_with ::
    "('h \<Rightarrow> curl_opt list \<Rightarrow> curl_answer) \<Rightarrow> ('h \<Rightarrow> bool) \<Rightarrow> http_config \<Rightarrow> 'h option \<Rightarrow> upload_call \<Rightarrow> http_response" where
  "upload_with perform mime_ok cfg handle u =
     http_upload perform mime_ok cfg handle (up_url u) (up_fields u) (map form_file_part (up_files u)) (up_headers u)"

section \<open>Handles belong to one thread\<close>

definition tally :: "('h call_phase \<Rightarrow> bool) \<Rightarrow> 'h call_phase list \<Rightarrow> nat" where
  "tally P ts = length (filter P ts)"

lemma tally_update:
  "i < length ts \<Longrightarrow> tally P (ts[i := x]) + (if P (ts ! i) then 1 else 0) = tally P ts + (if P x then 1 else 0)"
  unfolding tally_def by (rule filter_length_update)

lemma tally_zero: "tally P ts = 0 \<longleftrightarrow> (\<forall>x\<in>set ts. \<not> P x)"
  by (auto simp: tally_def filter_empty_conv)

fun busy :: "'h call_phase \<Rightarrow> bool" where
  "busy Creating = True"
| "busy (Holding _) = True"
| "busy _ = False"

text \<open>A handle is with one thread, or free once.\<close>

definition exclusive :: "'h client \<Rightarrow> bool" where
  "exclusive c \<longleftrightarrow>
     distinct (free_handles (handles c)) \<and>
     (\<forall>i j h. i < length (threads c) \<longrightarrow> threads c ! i = Holding (Some h) \<longrightarrow>
        h \<notin> set (free_handles (handles c)) \<and> (j < length (threads c) \<longrightarrow> threads c ! j = Holding (Some h) \<longrightarrow> i = j))"

text \<open>The count is that of the handles made or being made.\<close>

definition counted :: "'h client \<Rightarrow> bool" where
  "counted c \<longleftrightarrow>
     created (handles c) = int (length (free_handles (handles c)) + tally busy (threads c)) \<and>
     created (handles c) \<le> max_size (handles c)"

text \<open>While somebody sleeps, no more handles are free than threads have been woken for; and when no \<open>curl_easy_init\<close>
  fails, the pool is at its size while somebody waits.\<close>

definition wakeful :: "bool \<Rightarrow> 'h client \<Rightarrow> bool" where
  "wakeful may_fail c \<longleftrightarrow>
     (Asleep \<in> set (threads c) \<longrightarrow> length (free_handles (handles c)) \<le> tally (\<lambda>x. x = Woken) (threads c)) \<and>
     (\<not> may_fail \<longrightarrow> Holding None \<notin> set (threads c) \<and>
        (Asleep \<in> set (threads c) \<or> Woken \<in> set (threads c) \<longrightarrow> created (handles c) = max_size (handles c)))"

text \<open>What an update of one thread's phase does to each.\<close>

lemma exclusive_put:
  assumes "exclusive c" "i < length (threads c)"
    "distinct (free_handles p)" "set (free_handles p) \<subseteq> set (free_handles (handles c))"
    "\<And>h. x = Holding (Some h) \<Longrightarrow> h \<notin> set (free_handles p) \<and> (\<forall>j<length (threads c). j \<noteq> i \<longrightarrow> threads c ! j \<noteq> Holding (Some h))"
  shows "exclusive (put i (x, p) c)"
  using assms unfolding exclusive_def put_def
  by (simp add: nth_list_update) (metis subsetD)

lemma acquire_cases:
  obtains (free) "free_handles p \<noteq> []" "acquire p = take_free p"
  | (fresh) "free_handles p = []" "created p < max_size p" "acquire p = (Creating, p\<lparr>created := created p + 1\<rparr>)"
  | (full) "free_handles p = []" "max_size p \<le> created p" "acquire p = (Asleep, p)"
  by (cases "free_handles p = []"; cases "created p < max_size p") (auto simp: acquire_def)

lemma exclusive_take_free:
  assumes "exclusive c" "i < length (threads c)" "free_handles (handles c) \<noteq> []"
  shows "exclusive (put i (take_free (handles c)) c)"
proof -
  obtain hs h where hs: "free_handles (handles c) = hs @ [h]" using assms(3) by (metis rev_exhaust)
  have "h \<in> set (free_handles (handles c))" using hs by simp
  then have "threads c ! j \<noteq> Holding (Some h)" if "j < length (threads c)" for j
    using assms(1) that unfolding exclusive_def by blast
  then show ?thesis using assms(1,2) hs unfolding take_free_def
    by (intro exclusive_put) (auto simp: exclusive_def)
qed

lemma exclusive_same:
  assumes "exclusive c" "i < length (threads c)" "\<And>h. x \<noteq> Holding (Some h)" "free_handles p = free_handles (handles c)"
  shows "exclusive (put i (x, p) c)"
  using assms by (intro exclusive_put) (auto simp: exclusive_def)

lemma notified_phase:
  "notified ts ts' \<Longrightarrow> length ts' = length ts \<and> (\<forall>i<length ts. ts' ! i = ts ! i \<or> ts ! i = Asleep \<and> ts' ! i = Woken)"
  by (auto simp: notified_def nth_list_update split: if_splits)

lemma exclusive_finish:
  assumes ex: "exclusive c" and i: "i < length (threads c)" "threads c ! i = Holding h"
    and r: "release h (handles c) = (wakes, p)"
    and ts: "if wakes then notified ((threads c)[i := Outside]) ts else ts = (threads c)[i := Outside]"
  shows "exclusive \<lparr>handles = p, threads = ts\<rparr>"
proof -
  have ph: "length ts = length (threads c)"
      "\<And>j g. j < length (threads c) \<Longrightarrow> ts ! j = Holding (Some g) \<Longrightarrow> j \<noteq> i \<and> threads c ! j = Holding (Some g)"
    using ts i(1) notified_phase [of "(threads c)[i := Outside]" ts] by (force split: if_splits simp: nth_list_update)+
  have fr: "free_handles p = free_handles (handles c) @ (case h of None \<Rightarrow> [] | Some g \<Rightarrow> [g])"
    using r by (auto simp: release_def split: option.splits)
  have one: "g \<notin> set (free_handles (handles c))" "j = k"
    if "j < length (threads c)" "threads c ! j = Holding (Some g)" "k < length (threads c)" "threads c ! k = Holding (Some g)"
    for j k g using ex that unfolding exclusive_def by blast+
  have "distinct (free_handles p)" using ex one(1) [OF i(1) _ i(1)] i(2) fr by (auto simp: exclusive_def split: option.splits)
  moreover have "g \<notin> set (free_handles p)" if "j < length ts" "ts ! j = Holding (Some g)" for j g
    using ph(2) [of j g] that one(1) [of j g j] one(2) [of j g i] i fr ph(1) by (auto split: option.splits)
  moreover have "j = k" if "j < length ts" "ts ! j = Holding (Some g)" "k < length ts" "ts ! k = Holding (Some g)" for j k g
    using ph(2) [of j g] ph(2) [of k g] one(2) [of j g k] that ph(1) by auto
  ultimately show ?thesis by (auto simp: exclusive_def)
qed

lemma exclusive_step: "pool_step may_fail ev c c' \<Longrightarrow> exclusive c \<Longrightarrow> exclusive c'"
proof (induction rule: pool_step.induct)
  case (arrive i c)
  then show ?case
    by (cases rule: acquire_cases [of "handles c"]) (auto intro: exclusive_take_free exclusive_same)
next
  case (look i c)
  then show ?case by (auto simp: look_again_def intro: exclusive_take_free exclusive_same)
next
  case (init_ok i c h)
  then show ?case by (intro exclusive_put) (auto simp: exclusive_def in_set_conv_nth)
next
  case (finish i c h wakes p ts)
  then show ?case using exclusive_finish by blast
qed (auto intro: exclusive_same)

section \<open>The count and the wake-ups\<close>

lemma take_free_simps [op_simps]:
  "fst (take_free p) = Holding (Some (last (free_handles p)))" "created (snd (take_free p)) = created p"
  "max_size (snd (take_free p)) = max_size p" "free_handles (snd (take_free p)) = butlast (free_handles p)"
  by (simp_all add: take_free_def)

lemma max_size_step: "pool_step may_fail ev c c' \<Longrightarrow> max_size (handles c') = max_size (handles c)"
  by (induction rule: pool_step.induct)
     (auto simp: put_def acquire_def look_again_def release_def op_simps split: option.splits)

text \<open>How the count of a kind of threads changes when one of them is notified.\<close>

lemma notified_tally:
  assumes "notified ts ts'"
  shows "tally P ts' + (if Asleep \<in> set ts \<and> P Asleep then 1 else 0) = tally P ts + (if Asleep \<in> set ts \<and> P Woken then 1 else 0)"
proof (cases "Asleep \<in> set ts")
  case True
  then obtain j where "j < length ts" "ts ! j = Asleep" "ts' = ts[j := Woken]" using assms by (auto simp: notified_def)
  then show ?thesis using True tally_update [of j ts P Woken] by simp
qed (use assms in \<open>simp add: notified_def\<close>)

lemma busy_iff: "busy x \<longleftrightarrow> x = Creating \<or> (\<exists>h. x = Holding h)"
  by (cases x) auto

lemma counted_put:
  assumes "counted c" "i < length (threads c)" "max_size p = max_size (handles c)" "created p \<le> max_size p"
    "created p + (if busy (threads c ! i) then 1 else 0) + int (length (free_handles (handles c))) =
     created (handles c) + (if busy x then 1 else 0) + int (length (free_handles p))"
  shows "counted (put i (x, p) c)"
  using assms tally_update [OF assms(2), of busy x] by (auto simp: counted_def put_def split: if_splits)

lemma counted_le: "counted c \<Longrightarrow> created (handles c) \<le> max_size (handles c)"
  by (simp add: counted_def)

lemma counted_take_free:
  assumes "counted c" "i < length (threads c)" "free_handles (handles c) \<noteq> []" "\<not> busy (threads c ! i)"
  shows "counted (put i (take_free (handles c)) c)"
proof -
  have "int (length (butlast (free_handles (handles c)))) = int (length (free_handles (handles c))) - 1"
    using assms(3) by (simp add: of_nat_diff Suc_leI)
  then show ?thesis unfolding take_free_def
    using assms counted_le [OF assms(1)] by (intro counted_put) auto
qed

lemma counted_same:
  "counted c \<Longrightarrow> i < length (threads c) \<Longrightarrow> busy x = busy (threads c ! i) \<Longrightarrow> counted (put i (x, handles c) c)"
  by (rule counted_put) (auto dest: counted_le)

lemma counted_step: "pool_step may_fail ev c c' \<Longrightarrow> counted c \<Longrightarrow> counted c'"
proof (induction rule: pool_step.induct)
  case (arrive i c)
  show ?case
  proof (cases rule: acquire_cases [of "handles c"])
    case free
    then show ?thesis using arrive by (simp add: counted_take_free)
  next
    case fresh
    then show ?thesis using arrive unfolding fresh(3) by (intro counted_put) simp_all
  next
    case full
    then show ?thesis using arrive by (simp add: counted_same)
  qed
next
  case (look i c)
  then show ?case by (simp add: look_again_def counted_take_free counted_same)
next
  case (finish i c h wakes p ts)
  have "tally busy ts + 1 = tally busy (threads c)"
    using finish(1,2,4) tally_update [OF finish(1), of busy Outside] notified_tally [of "(threads c)[i := Outside]" ts busy]
    by (auto split: if_splits)
  then show ?case using finish(3,5) by (auto simp: counted_def release_def split: option.splits)
qed (simp_all add: counted_same)

lemma wakeful_put:
  assumes "wakeful mf c" "i < length (threads c)"
    "Asleep \<in> set ((threads c)[i := x]) \<Longrightarrow>
       length (free_handles p) + (if threads c ! i = Woken then 1 else 0) \<le> tally (\<lambda>x. x = Woken) (threads c) + (if x = Woken then 1 else 0)"
    "\<not> mf \<Longrightarrow> x \<noteq> Holding None \<and> (x = Asleep \<or> x = Woken \<or> created (handles c) = max_size (handles c) \<longrightarrow> created p = max_size p)"
  shows "wakeful mf (put i (x, p) c)"
proof -
  have "length (free_handles p) \<le> tally (\<lambda>x. x = Woken) ((threads c)[i := x])" if "Asleep \<in> set ((threads c)[i := x])"
    using tally_update [OF assms(2), of "\<lambda>x. x = Woken" x] assms(3) [OF that] by (auto split: if_splits)
  moreover have "Holding None \<notin> set ((threads c)[i := x])" if "\<not> mf"
    using assms(1,4) that set_list_update_cases by (fastforce simp: wakeful_def)
  moreover have "created p = max_size p" if "\<not> mf" "Asleep \<in> set ((threads c)[i := x]) \<or> Woken \<in> set ((threads c)[i := x])"
    using assms(1,4) that set_list_update_cases unfolding wakeful_def by metis
  ultimately show ?thesis by (auto simp: wakeful_def put_def)
qed

lemma asleep_stays: "Asleep \<in> set (ts[i := x]) \<Longrightarrow> x \<noteq> Asleep \<Longrightarrow> Asleep \<in> set ts"
  by (auto dest: set_list_update_cases)

lemma wakeful_same:
  assumes "wakeful mf c" "i < length (threads c)" "threads c ! i \<noteq> Woken" "x \<noteq> Asleep" "mf \<or> x \<noteq> Holding None"
    "x = Woken \<Longrightarrow> threads c ! i = Asleep"
  shows "wakeful mf (put i (x, handles c) c)"
proof (rule wakeful_put [OF assms(1,2)])
  have "threads c ! i = Asleep \<Longrightarrow> Asleep \<in> set (threads c)" using assms(2) by (metis nth_mem)
  then show "\<not> mf \<Longrightarrow> x \<noteq> Holding None \<and>
      (x = Asleep \<or> x = Woken \<or> created (handles c) = max_size (handles c) \<longrightarrow> created (handles c) = max_size (handles c))"
    using assms by (auto simp: wakeful_def)
qed (use assms in \<open>auto simp: wakeful_def dest!: asleep_stays\<close>)

lemma wakeful_step: "pool_step mf ev c c' \<Longrightarrow> counted c \<Longrightarrow> wakeful mf c \<Longrightarrow> wakeful mf c'"
proof (induction rule: pool_step.induct)
  case (arrive i c)
  show ?case
  proof (cases rule: acquire_cases [of "handles c"])
    case free
    then show ?thesis unfolding take_free_def free(2)
      using arrive by (intro wakeful_put) (auto simp: wakeful_def dest!: asleep_stays)
  next
    case fresh
    then show ?thesis unfolding fresh(3) using arrive by (intro wakeful_put) auto
  next
    case full
    then show ?thesis unfolding full(3) using arrive by (intro wakeful_put) (auto simp: counted_def)
  qed
next
  case (look i c)
  then have woken: "Woken \<in> set (threads c)" by (metis nth_mem)
  have pos: "0 < tally (\<lambda>x. x = Woken) (threads c)" using woken tally_zero [of "\<lambda>x. x = Woken" "threads c"] by (auto intro: gr0I)
  have size: "\<not> mf \<Longrightarrow> created (handles c) = max_size (handles c)" using look(4) woken by (auto simp: wakeful_def)
  show ?case
  proof (cases "free_handles (handles c) = []")
    case True
    have "wakeful mf (put i (Asleep, handles c) c)" using look(1,2) True pos size by (intro wakeful_put [OF look(4,1)]) auto
    then show ?thesis using True by (simp add: look_again_def)
  next
    case False
    have "wakeful mf (put i (take_free (handles c)) c)" unfolding take_free_def
      using look(1,2,4) False pos size by (intro wakeful_put [OF look(4,1)]) (auto simp: wakeful_def dest!: asleep_stays)
    then show ?thesis using False by (simp add: look_again_def)
  qed
next
  case (finish i c h wakes p ts)
  let ?mid = "(threads c)[i := Outside]"
  have woken: "tally (\<lambda>x. x = Woken) ?mid = tally (\<lambda>x. x = Woken) (threads c)"
    using tally_update [OF finish(1), of "\<lambda>x. x = Woken" Outside] finish(2) by simp
  have mid: "Asleep \<in> set ?mid \<Longrightarrow> Asleep \<in> set (threads c)" "Woken \<in> set ?mid \<Longrightarrow> Woken \<in> set (threads c)"
    "Holding None \<in> set ?mid \<Longrightarrow> Holding None \<in> set (threads c)" by (auto dest: set_list_update_cases)
  show ?case
  proof (cases h)
    case None
    then have "\<not> mf \<Longrightarrow> Holding None \<in> set (threads c) \<and> wakeful mf c" using finish(1,2,6) by (metis nth_mem)
    then have mf: mf by (auto simp: wakeful_def)
    then show ?thesis using finish(3,4,6) None woken mid by (auto simp: wakeful_def release_def)
  next
    case (Some g)
    then have ts: "notified ?mid ts" and p: "p = (handles c)\<lparr>free_handles := free_handles (handles c) @ [g]\<rparr>"
      using finish(3,4) by (auto simp: release_def)
    have members: "x \<in> set ts \<Longrightarrow> x \<in> set ?mid \<or> x = Woken \<and> Asleep \<in> set ?mid" for x
      using ts by (auto simp: notified_def split: if_splits dest: set_list_update_cases)
    have "length (free_handles p) \<le> tally (\<lambda>x. x = Woken) ts" if "Asleep \<in> set ts"
      using notified_tally [OF ts, of "\<lambda>x. x = Woken"] members [OF that] finish(6) mid woken p by (auto simp: wakeful_def)
    then show ?thesis using finish(6) members mid p by (auto simp: wakeful_def)
  qed
qed (auto intro!: wakeful_same)

section \<open>What the pool promises\<close>

lemma pool_reach_inv:
  assumes "pool_reach mf n k c"
  shows "exclusive c \<and> counted c \<and> wakeful mf c \<and> max_size (handles c) = (if n = 0 then 1 else int n) \<and> length (threads c) = k"
  using assms
proof (induction rule: pool_reach.induct)
  case start
  have "tally busy (replicate k Outside) = 0" by (simp add: tally_zero)
  then show ?case by (auto simp: client_new_def handle_pool_new_def exclusive_def counted_def wakeful_def)
next
  case (step c ev c')
  moreover have "length (threads c') = length (threads c)" using step(2)
    by (induction rule: pool_step.induct) (auto simp: put_def dest: notified_phase split: if_splits)
  ultimately show ?case using exclusive_step counted_step wakeful_step max_size_step by metis
qed

text \<open>C21. Over every interleaving of calls and whatever curl answers, no handle is with two threads, or free and with a
  thread, or free twice; the handles made or being made are at most the size of the pool, and the count of them never
  passes below zero when a failed one is released; and when every call is over, the destructor gives back as many
  handles as are counted, each once.\<close>

theorem handle_pool_exclusive:
  assumes "pool_reach mf n k c"
  shows "distinct (free_handles (handles c)) \<and>
    (\<forall>h. Holding (Some h) \<in> set (threads c) \<longrightarrow> h \<notin> set (free_handles (handles c))) \<and>
    (\<forall>i j h. i < k \<and> j < k \<and> threads c ! i = Holding (Some h) \<and> threads c ! j = Holding (Some h) \<longrightarrow> i = j) \<and>
    0 \<le> created (handles c) \<and> created (handles c) \<le> (if n = 0 then 1 else int n) \<and>
    int (length (free_handles (handles c)) + length (filter (\<lambda>t. t = Creating \<or> (\<exists>h. t = Holding h)) (threads c))) =
      created (handles c) \<and>
    (Holding None \<in> set (threads c) \<longrightarrow> 0 < created (handles c)) \<and>
    (set (threads c) \<subseteq> {Outside} \<longrightarrow> int (length (pool_cleanup (handles c))) = created (handles c))"
proof -
  have inv: "exclusive c" "counted c" "max_size (handles c) = (if n = 0 then 1 else int n)" "length (threads c) = k"
    using pool_reach_inv [OF assms] by auto
  have none: "0 < tally busy (threads c)" if "Holding None \<in> set (threads c)"
    using that tally_zero [of busy "threads c"] by (auto intro: gr0I)
  have out: "tally busy (threads c) = 0" if "set (threads c) \<subseteq> {Outside}" using that by (auto simp: tally_zero)
  have same: "length (filter (\<lambda>t. t = Creating \<or> (\<exists>h. t = Holding h)) (threads c)) = tally busy (threads c)"
    unfolding tally_def by (intro arg_cong [of _ _ length] filter_cong) (auto simp: busy_iff)
  have one: "h \<notin> set (free_handles (handles c))" "j < k \<Longrightarrow> threads c ! j = Holding (Some h) \<Longrightarrow> i = j"
    if "i < k" "threads c ! i = Holding (Some h)" for i j h
    using inv(1,4) that unfolding exclusive_def by blast+
  have "h \<notin> set (free_handles (handles c))" if "Holding (Some h) \<in> set (threads c)" for h
    using that one(1) inv(4) by (metis in_set_conv_nth)
  moreover have "distinct (free_handles (handles c))" using inv(1) by (simp add: exclusive_def)
  moreover have "created (handles c) = int (length (free_handles (handles c)) + tally busy (threads c))"
    "created (handles c) \<le> (if n = 0 then 1 else int n)" using inv(2,3) by (simp_all add: counted_def)
  moreover have "Holding None \<in> set (threads c) \<longrightarrow> 0 < created (handles c)"
    "set (threads c) \<subseteq> {Outside} \<longrightarrow> int (length (free_handles (handles c))) = created (handles c)"
    using inv(2) none out by (auto simp: counted_def)
  ultimately show ?thesis unfolding same pool_cleanup_def using one(2) by (intro conjI) (blast | simp)+
qed

text \<open>One handle and two threads: the first holds it, the second sleeps.\<close>

definition demo_held :: "nat client" where
  "demo_held = \<lparr>handles = \<lparr>free_handles = [], created = 1, max_size = 1\<rparr>, threads = [Holding (Some 7), Asleep]\<rparr>"

lemma demo_held_reached: "pool_reach mf 1 2 demo_held"
proof -
  let ?c = "\<lambda>t u. \<lparr>handles = \<lparr>free_handles = [], created = 1, max_size = 1\<rparr>, threads = [t, u]\<rparr> :: nat client"
  have "pool_step mf Arrival (client_new 1 2) (?c Creating Outside)"
    using pool_step.arrive [of 0 "client_new 1 2 :: nat client" mf]
    by (simp add: client_new_def handle_pool_new_def put_def acquire_def numeral_2_eq_2)
  moreover have "pool_step mf Arrival (?c Creating Outside) (?c Creating Asleep)"
    using pool_step.arrive [of 1 "?c Creating Outside" mf] by (simp add: put_def acquire_def)
  moreover have "pool_step mf Progress (?c Creating Asleep) (?c (Holding (Some 7)) Asleep)"
    using pool_step.init_ok [of 0 "?c Creating Asleep" 7 mf] by (simp add: put_def)
  ultimately show ?thesis unfolding demo_held_def by (meson pool_reach.intros)
qed

theorem handle_pool_exclusive_witness:
  "pool_reach True 1 2 demo_held \<and> created (handles demo_held) \<le> (if (1::nat) = 0 then 1 else int 1)"
  using demo_held_reached handle_pool_exclusive [OF demo_held_reached] by blast

text \<open>How far a call still has to go; a sleeper that is woken for nothing goes back to sleep.\<close>

fun weight :: "'h call_phase \<Rightarrow> nat" where
  "weight Outside = 0"
| "weight (Holding _) = 2"
| "weight Creating = 3"
| "weight Asleep = 3"
| "weight Woken = 4"

definition work_left :: "'h client \<Rightarrow> nat" where
  "work_left c = sum_list (map weight (threads c))"

lemma sum_weight_update:
  "i < length ts \<Longrightarrow> sum_list (map weight (ts[i := x])) + weight (ts ! i) = sum_list (map weight ts) + weight x"
proof (induction ts arbitrary: i)
  case (Cons t ts)
  then show ?case by (cases i) auto
qed simp

lemma work_left_put: "i < length (threads c) \<Longrightarrow> work_left (put i (x, p) c) + weight (threads c ! i) = work_left c + weight x"
  by (simp add: work_left_def put_def sum_weight_update)

lemma progress_decreases: "pool_step mf Progress c c' \<Longrightarrow> work_left c' < work_left c"
proof (induction Progress c c' rule: pool_step.induct)
  case (look i c)
  have "work_left (put i (x, p) c) < work_left c" if "weight x < 4" for x p
    using work_left_put [OF look(1), of x p] look(2) that by simp
  then show ?case by (simp add: look_again_def take_free_def)
next
  case (init_ok i c h)
  then show ?case using work_left_put [of i c "Holding (Some h)" "handles c"] by simp
next
  case (init_failed i c)
  then show ?case using work_left_put [of i c "Holding None" "handles c"] by simp
next
  case (finish i c h wakes p ts)
  let ?mid = "(threads c)[i := Outside]"
  have mid: "sum_list (map weight ?mid) + 2 = work_left c"
    using finish(1,2) sum_weight_update [of i "threads c" Outside] by (simp add: work_left_def)
  have "sum_list (map weight ts) \<le> sum_list (map weight ?mid) + 1"
  proof (cases "wakes \<and> Asleep \<in> set ?mid")
    case True
    then obtain j where "j < length ?mid" "?mid ! j = Asleep" "ts = ?mid[j := Woken]" using finish(4) by (auto simp: notified_def)
    then show ?thesis using sum_weight_update [of j ?mid Woken] by simp
  next
    case False
    then have "ts = ?mid" using finish(4) by (auto simp: notified_def split: if_splits)
    then show ?thesis by simp
  qed
  then show ?case using mid by (simp add: work_left_def)
qed

lemma progress_enabled:
  assumes "pool_reach False n k (c :: nat client)" "\<exists>t\<in>set (threads c). t \<noteq> Outside"
  shows "\<exists>c'. pool_step False Progress c c'"
proof -
  have inv: "counted c" "wakeful False c" "1 \<le> max_size (handles c)" using pool_reach_inv [OF assms(1)] by (auto split: if_splits)
  have step: "\<exists>c'. pool_step False Progress c c'" if t: "t \<in> set (threads c)" "t = Woken \<or> busy t" for t
  proof -
    obtain i where i: "i < length (threads c)" "threads c ! i = t" using t(1) unfolding in_set_conv_nth by blast
    consider "t = Woken" | "t = Creating" | h where "t = Holding h" using t(2) by (auto simp: busy_iff)
    then show ?thesis
    proof cases
      case 1
      then show ?thesis using i pool_step.look by metis
    next
      case 2
      let ?used = "set (free_handles (handles c)) \<union> (\<lambda>t. case t of Holding (Some h) \<Rightarrow> h | _ \<Rightarrow> 0) ` set (threads c)"
      obtain h where "h \<notin> ?used" using ex_new_if_finite [of ?used] by auto
      then have "h \<notin> set (free_handles (handles c))" "Holding (Some h) \<notin> set (threads c)" by force+
      then show ?thesis using i 2 pool_step.init_ok by metis
    next
      case (3 h)
      let ?mid = "(threads c)[i := Outside]"
      have "\<exists>ts. notified ?mid ts" unfolding notified_def by (metis in_set_conv_nth)
      then obtain ts where ts: "notified ?mid ts" by blast
      obtain w p where "release h (handles c) = (w, p)" by (cases "release h (handles c)")
      then have "\<exists>ts. pool_step False Progress c \<lparr>handles = p, threads = ts\<rparr>"
        using pool_step.finish [of i c h w p ts False] pool_step.finish [of i c h w p ?mid False] i 3 ts by (cases w) auto
      then show ?thesis by blast
    qed
  qed
  show ?thesis
  proof (cases "\<exists>t\<in>set (threads c). t = Woken \<or> busy t")
    case False
    then have only: "\<not> busy t" "t \<noteq> Woken" if "t \<in> set (threads c)" for t using that by auto
    then have "Asleep \<in> set (threads c)" using assms(2) by (metis busy.simps(1,2) call_phase.exhaust)
    moreover have "tally busy (threads c) = 0" "tally (\<lambda>x. x = Woken) (threads c) = 0" using only by (auto simp: tally_zero)
    ultimately show ?thesis using inv by (auto simp: counted_def wakeful_def)
  qed (use step in blast)
qed

text \<open>C24. When no \<open>curl_easy_init\<close> fails, no thread is ever left waiting: while a call is under way some call can go
  on, and every step of a call takes the calls nearer to their end, so without new calls and wake-ups for nothing all
  of them return. No wake-up is lost.\<close>

theorem calls_return:
  assumes "pool_reach False n k (c :: nat client)"
  shows "((\<exists>t\<in>set (threads c). t \<noteq> Outside) \<longrightarrow> (\<exists>c'. pool_step False Progress c c')) \<and>
    (\<forall>c'. pool_step False Progress c c' \<longrightarrow> work_left c' < work_left c) \<and>
    (work_left c = 0 \<longleftrightarrow> set (threads c) \<subseteq> {Outside})"
proof -
  have "weight t = 0 \<longleftrightarrow> t = Outside" for t :: "nat call_phase" by (cases t) auto
  then have "work_left c = 0 \<longleftrightarrow> set (threads c) \<subseteq> {Outside}" by (auto simp: work_left_def)
  then show ?thesis using progress_enabled [OF assms] progress_decreases by auto
qed

theorem calls_return_witness:
  "pool_reach False 1 2 demo_held \<and> (\<exists>c'. pool_step False Progress demo_held c')"
  using demo_held_reached [of False] calls_return [OF demo_held_reached [of False]] by (simp add: demo_held_def)

section \<open>A failed initialisation\<close>

definition going_on :: "'h client \<Rightarrow> 'h client \<Rightarrow> bool" where
  "going_on c c' \<longleftrightarrow> (\<exists>ev. ev \<noteq> Arrival \<and> pool_step True ev c c')"

definition stranded :: "'h client \<Rightarrow> bool" where
  "stranded c \<longleftrightarrow> free_handles (handles c) = [] \<and> set (threads c) \<subseteq> {Outside, Asleep, Woken}"

lemma stranded_step:
  assumes "pool_step True ev c c'" "ev \<noteq> Arrival" "stranded c"
  shows "stranded c' \<and> created (handles c') = created (handles c) \<and> length (threads c') = length (threads c) \<and>
    (\<forall>i<length (threads c). threads c' ! i = Outside \<longleftrightarrow> threads c ! i = Outside)"
  using assms
proof (induction rule: pool_step.induct)
  case (spurious i c)
  then show ?case by (auto simp: stranded_def put_def nth_list_update dest!: set_list_update_cases)
next
  case (look i c)
  then show ?case by (auto simp: stranded_def put_def look_again_def nth_list_update dest!: set_list_update_cases)
qed (auto simp: stranded_def dest!: nth_mem)

text \<open>When a handle could not be made and its thread was the last one under way, the threads that wait are stranded:
  \<open>Release\<close> takes the failed handle from the count without a notification, and the predicate of the wait only looks
  at the free handles, so that whatever happens short of a new call - wake-ups for nothing included - each of them
  stays in \<open>Acquire\<close>, although the count would let them make a handle.\<close>

theorem failed_init_strands_waiters:
  assumes "going_on\<^sup>*\<^sup>* c c'" "free_handles (handles c) = []" "set (threads c) \<subseteq> {Outside, Asleep, Woken}"
  shows "free_handles (handles c') = [] \<and> set (threads c') \<subseteq> {Outside, Asleep, Woken} \<and>
    created (handles c') = created (handles c) \<and>
    (\<forall>i<length (threads c). threads c' ! i = Outside \<longleftrightarrow> threads c ! i = Outside)"
proof -
  have "stranded c' \<and> created (handles c') = created (handles c) \<and> length (threads c') = length (threads c) \<and>
      (\<forall>i<length (threads c). threads c' ! i = Outside \<longleftrightarrow> threads c ! i = Outside)"
    using assms(1)
  proof (induction rule: rtranclp_induct)
    case base
    then show ?case using assms(2,3) by (simp add: stranded_def)
  next
    case (step y z)
    then show ?case using stranded_step [of _ y z] unfolding going_on_def by metis
  qed
  then show ?thesis by (auto simp: stranded_def)
qed

definition demo_stranded :: "nat client" where
  "demo_stranded = \<lparr>handles = \<lparr>free_handles = [], created = 0, max_size = 1\<rparr>, threads = [Outside, Asleep]\<rparr>"

lemma demo_stranded_reached: "pool_reach True 1 2 demo_stranded"
proof -
  let ?c = "\<lambda>t u. \<lparr>handles = \<lparr>free_handles = [], created = 1, max_size = 1\<rparr>, threads = [t, u]\<rparr> :: nat client"
  have "pool_step True Arrival (client_new 1 2) (?c Creating Outside)"
    using pool_step.arrive [of 0 "client_new 1 2 :: nat client" True]
    by (simp add: client_new_def handle_pool_new_def put_def acquire_def numeral_2_eq_2)
  moreover have "pool_step True Arrival (?c Creating Outside) (?c Creating Asleep)"
    using pool_step.arrive [of 1 "?c Creating Outside" True] by (simp add: put_def acquire_def)
  moreover have "pool_step True Progress (?c Creating Asleep) (?c (Holding None) Asleep)"
    using pool_step.init_failed [of True 0 "?c Creating Asleep"] by (simp add: put_def)
  moreover have "pool_step True Progress (?c (Holding None) Asleep) demo_stranded"
    using pool_step.finish [of 0 "?c (Holding None) Asleep" None False] by (simp add: release_def demo_stranded_def)
  ultimately show ?thesis by (meson pool_reach.intros)
qed

theorem failed_init_strands_waiters_witness:
  "pool_reach True 1 2 demo_stranded \<and> created (handles demo_stranded) < max_size (handles demo_stranded) \<and>
   threads demo_stranded ! 1 = Asleep \<and> free_handles (handles demo_stranded) = [] \<and> going_on\<^sup>*\<^sup>* demo_stranded demo_stranded"
  using demo_stranded_reached failed_init_strands_waiters [of demo_stranded demo_stranded] by (simp add: demo_stranded_def)

section \<open>Answers\<close>

lemma fold_append_pieces: "fold (\<lambda>p s. s @ p) pieces s = s @ concat pieces"
  by (induction pieces arbitrary: s) simp_all

lemma read_answer_ok:
  "prefix \<noteq> [] \<Longrightarrow>
   (hr_ok (read_answer prefix a) \<longleftrightarrow> 200 \<le> hr_status (read_answer prefix a) \<and> hr_status (read_answer prefix a) < 300) \<and>
   (hr_error (read_answer prefix a) = [] \<longleftrightarrow> hr_ok (read_answer prefix a)) \<and>
   (hr_status (read_answer prefix a) \<noteq> 0 \<longrightarrow> (\<exists>pieces. a = Inr (hr_status (read_answer prefix a), pieces) \<and>
      hr_body (read_answer prefix a) = concat pieces))"
  by (auto simp: read_answer_def http_no_result_def Let_def fold_append_pieces split: sum.splits)

text \<open>A request counts as a success exactly when its status is 2xx, has an error text exactly when it does not, and a
  status other than zero only when curl has given one, with the whole body.\<close>

lemma http_request_answer:
  assumes r: "r = http_request perform cfg handle m url headers body"
  shows "(hr_ok r \<longleftrightarrow> 200 \<le> hr_status r \<and> hr_status r < 300) \<and> (hr_error r = [] \<longleftrightarrow> hr_ok r) \<and>
    (hr_status r \<noteq> 0 \<longrightarrow> (\<exists>h pieces. handle = Some h \<and>
       perform h (request_options cfg m url headers body) = Inr (hr_status r, pieces) \<and> hr_body r = concat pieces))"
proof (cases handle)
  case None
  then show ?thesis by (simp add: r http_request_def http_no_result_def)
next
  case (Some h)
  then have "r = read_answer ''curl request failed: '' (perform h (request_options cfg m url headers body))"
    by (simp add: r http_request_def)
  then show ?thesis using read_answer_ok [of "''curl request failed: ''"] Some by simp
qed

text \<open>Every file of the alarm client makes a part with the bytes of the image.\<close>

lemma form_files_accepted:
  "file_parts (map form_file_part fs) =
     Some (map (\<lambda>f. \<lparr>mp_name = c_str (ff_name f), mp_filename = text_of (ff_filename f), mp_type = text_of (ff_content_type f),
       mp_data = ff_data f\<rparr>) fs)"
  by (induction fs) (simp_all add: form_file_part_def)

end
