(* ===== verification/Qdrant.thy ===== *)
theory Qdrant
  imports Http "HOL-Library.AList"
begin

text \<open>
  The client of the vector store (\<open>common/qdrant_client.cpp\<close>): the requests it makes and how it tries them again, the
  reading of answers, and the ids of points on their way out and in. The HTTP client is a function on a state of the
  outside world, so that a second attempt may get another answer. nlohmann's printer and parser are functions; its
  objects are association lists in the order in which the keys were first set (the library keeps them sorted, which
  only the printer shows). Exceptions that the code does not catch are values of \<open>exn\<close>. The Chinese texts are in
  English.
\<close>

section \<open>JSON\<close>

datatype 'd json =
    JNull
  | JBoolean bool
  | JUnsigned u64
  | JInteger "64 word"
  | JFloat 'd
  | JString string
  | JArray "'d json list"
  | JObject "(string \<times> 'd json) list"

text \<open>An exception of the library or of \<open>std::stoull\<close>.\<close>

datatype exn = InvalidArgument | OutOfRange | TypeError

text \<open>The conversions of numbers between \<open>float\<close>, \<open>double\<close> and the integers, and the printer, which throws on a string
  that is not UTF-8, and the parser, which gives the text of its exception.\<close>

record ('f, 'd) json_lib =
  widen :: "'f \<Rightarrow> 'd"
  narrow :: "'d \<Rightarrow> 'f"
  from_unsigned :: "u64 \<Rightarrow> 'f"
  from_integer :: "64 word \<Rightarrow> 'f"
  dump :: "'d json \<Rightarrow> exn + string"
  parse :: "string \<Rightarrow> string + 'd json"

definition json_set :: "string \<Rightarrow> 'd json \<Rightarrow> (string \<times> 'd json) list \<Rightarrow> (string \<times> 'd json) list" where
  "json_set k v ob = AList.update k v ob"

definition json_get :: "'d json \<Rightarrow> string \<Rightarrow> 'd json option" where
  "json_get j k = (case j of JObject ob \<Rightarrow> map_of ob k | _ \<Rightarrow> None)"

fun is_object :: "'d json \<Rightarrow> bool" where
  "is_object (JObject _) = True"
| "is_object _ = False"

text \<open>\<open>get<std::string>()\<close> and \<open>get<float>()\<close>.\<close>

definition get_string :: "'d json \<Rightarrow> exn + string" where
  "get_string j = (case j of JString s \<Rightarrow> Inr s | _ \<Rightarrow> Inl TypeError)"

definition get_float :: "('f, 'd) json_lib \<Rightarrow> 'd json \<Rightarrow> exn + 'f" where
  "get_float js j =
     (case j of JUnsigned n \<Rightarrow> Inr (from_unsigned js n) | JInteger i \<Rightarrow> Inr (from_integer js i)
      | JFloat d \<Rightarrow> Inr (narrow js d) | JBoolean b \<Rightarrow> Inr (from_unsigned js (of_bool b)) | _ \<Rightarrow> Inl TypeError)"

text \<open>A function over a list, until one element throws.\<close>

fun traverse :: "('a \<Rightarrow> exn + 'b) \<Rightarrow> 'a list \<Rightarrow> exn + 'b list" where
  "traverse f [] = Inr []"
| "traverse f (x # xs) =
     (case f x of Inl e \<Rightarrow> Inl e
      | Inr y \<Rightarrow> (case traverse f xs of Inl e \<Rightarrow> Inl e | Inr ys \<Rightarrow> Inr (y # ys)))"

section \<open>Numbers in strings\<close>

text \<open>\<open>std::stoull\<close> in base ten: white space, a sign, digits; a minus negates modulo \<open>2 ^ 64\<close>. The result has the number
  and how many characters were read.\<close>

definition is_space :: "char \<Rightarrow> bool" where
  "is_space c \<longleftrightarrow> c = CHR '' '' \<or> (9 \<le> (of_char c :: nat) \<and> (of_char c :: nat) \<le> 13)"

definition ascii_digit :: "char \<Rightarrow> bool" where
  "ascii_digit c \<longleftrightarrow> 48 \<le> (of_char c :: nat) \<and> (of_char c :: nat) \<le> 57"

definition digits_value :: "string \<Rightarrow> nat" where
  "digits_value ds = foldl (\<lambda>n c. 10 * n + (of_char c - 48)) 0 ds"

definition stoull :: "string \<Rightarrow> exn + u64 \<times> nat" where
  "stoull s =
     (let body = dropWhile is_space s;
          signed = (body \<noteq> [] \<and> (hd body = CHR ''-'' \<or> hd body = CHR ''+''));
          negative = (body \<noteq> [] \<and> hd body = CHR ''-'');
          ds = takeWhile ascii_digit (if signed then tl body else body);
          v = digits_value ds
      in if ds = [] then Inl InvalidArgument
         else if 2 ^ 64 \<le> v then Inl OutOfRange
         else Inr (if negative then - of_nat v else of_nat v,
                   length (takeWhile is_space s) + (if signed then 1 else 0) + length ds))"

section \<open>Configuration and data\<close>

record qdrant_config =
  qd_host :: string
  qd_port :: int
  use_https :: bool
  api_key :: string
  qd_timeout_ms :: int
  qd_connect_timeout_ms :: int
  qd_pool_size :: nat
  max_retries :: int
  retry_backoff_ms :: int

definition qdrant_base_url :: "qdrant_config \<Rightarrow> string" where
  "qdrant_base_url cfg =
     (if use_https cfg then ''https://'' else ''http://'') @ qd_host cfg @ '':'' @ to_string (qd_port cfg)"

definition http_config_of :: "qdrant_config \<Rightarrow> http_config" where
  "http_config_of cfg =
     \<lparr>timeout_ms = qd_timeout_ms cfg, connect_timeout_ms = qd_connect_timeout_ms cfg, pool_size = qd_pool_size cfg\<rparr>"

record ('f, 'd) point =
  pt_id :: string
  pt_id_is_numeric :: bool
  pt_vector :: "'f list"
  pt_payload :: "'d json"

definition with_numeric_id :: "u64 \<Rightarrow> 'f list \<Rightarrow> 'd json \<Rightarrow> ('f, 'd) point" where
  "with_numeric_id n v payload =
     \<lparr>pt_id = to_string (uint n), pt_id_is_numeric = True, pt_vector = v, pt_payload = payload\<rparr>"

definition with_string_id :: "string \<Rightarrow> 'f list \<Rightarrow> 'd json \<Rightarrow> ('f, 'd) point" where
  "with_string_id s v payload = \<lparr>pt_id = s, pt_id_is_numeric = False, pt_vector = v, pt_payload = payload\<rparr>"

record 'd api_answer =
  q_ok :: bool
  q_status :: int
  q_raw_body :: string
  q_body :: "'d json"
  q_error :: string

definition no_answer :: "'d api_answer" where
  "no_answer = \<lparr>q_ok = False, q_status = 0, q_raw_body = [], q_body = JNull, q_error = []\<rparr>"

record ('f, 'd) scored_point =
  sp_id :: string
  sp_id_is_numeric :: bool
  sp_score :: 'f
  sp_payload :: "'d json"
  sp_vector :: "'f list"

section \<open>One attempt\<close>

record http_call =
  hc_method :: string
  hc_url :: string
  hc_headers :: "string list"
  hc_body :: "string option"

definition build_call :: "('f, 'd) json_lib \<Rightarrow> qdrant_config \<Rightarrow> string \<Rightarrow> string \<Rightarrow> 'd json option \<Rightarrow> exn + http_call" where
  "build_call js cfg m path body =
     (let headers = [''Content-Type: application/json'', ''Accept: application/json''] @
            (if api_key cfg = [] then [] else [''api-key: '' @ api_key cfg]);
          call = (\<lambda>b. \<lparr>hc_method = m, hc_url = qdrant_base_url cfg @ path, hc_headers = headers, hc_body = b\<rparr>)
      in case body of
           None \<Rightarrow> Inr (call None)
         | Some j \<Rightarrow> (case dump js j of Inl e \<Rightarrow> Inl e | Inr t \<Rightarrow> Inr (call (Some t))))"

text \<open>The error text of an answer that is no success; \<open>get\<close> throws on an error that is not a string.\<close>

definition error_text :: "'d json \<Rightarrow> string \<Rightarrow> int \<Rightarrow> exn + string" where
  "error_text body err status =
     (let fallback = Inr (if err = [] then ''HTTP '' @ to_string status else err)
      in case json_get body ''status'' of
           None \<Rightarrow> fallback
         | Some st \<Rightarrow>
             (case json_get st ''error'' of
                Some e \<Rightarrow> get_string e
              | None \<Rightarrow> (case st of JString s \<Rightarrow> Inr s | _ \<Rightarrow> fallback)))"

definition parse_body :: "('f, 'd) json_lib \<Rightarrow> http_response \<Rightarrow> 'd json \<times> string" where
  "parse_body js h =
     (if hr_body h = [] then (JNull, hr_error h)
      else case parse js (hr_body h) of
             Inr j \<Rightarrow> (j, hr_error h)
           | Inl e \<Rightarrow> (JNull, if hr_error h = [] then ''response body JSON: '' @ e else hr_error h))"

definition read_api_answer :: "('f, 'd) json_lib \<Rightarrow> http_response \<Rightarrow> exn + 'd api_answer" where
  "read_api_answer js h =
     (let (body, err) = parse_body js h;
          r = \<lparr>q_ok = False, q_status = hr_status h, q_raw_body = hr_body h, q_body = body, q_error = err\<rparr>
      in if hr_status h = 0 then Inr r
         else if 200 \<le> hr_status h \<and> hr_status h < 300 then Inr (r\<lparr>q_ok := True, q_error := []\<rparr>)
         else case error_text body err (hr_status h) of
                Inl e \<Rightarrow> Inl e
              | Inr t \<Rightarrow> Inr (r\<lparr>q_error := t\<rparr>))"

text \<open>The outside world: what it answers to a call, and what it is after that.\<close>

type_synonym 'w http_world = "'w \<Rightarrow> http_call \<Rightarrow> http_response \<times> 'w"

definition do_request ::
    "('f, 'd) json_lib \<Rightarrow> 'w http_world \<Rightarrow> qdrant_config \<Rightarrow> string \<Rightarrow> string \<Rightarrow> 'd json option \<Rightarrow> 'w \<Rightarrow>
     (exn + 'd api_answer) \<times> 'w" where
  "do_request js http cfg m path body w =
     (case build_call js cfg m path body of
        Inl e \<Rightarrow> (Inl e, w)
      | Inr call \<Rightarrow> (let (h, w') = http w call in (read_api_answer js h, w')))"

section \<open>Trying again\<close>

definition retryable :: "'d api_answer \<Rightarrow> bool" where
  "retryable r \<longleftrightarrow>
     \<not> q_ok r \<and> (q_status r = 0 \<or> q_status r = 429 \<or> q_status r = 500 \<or> q_status r = 502 \<or> q_status r = 503 \<or> q_status r = 504)"

text \<open>The loop of \<open>Request\<close> from an attempt on, with the milliseconds slept between the attempts. The shift of a
  \<open>long\<close> is written as a power: it stays within 63 bits for the numbers of retries in use.\<close>

function attempts ::
    "('f, 'd) json_lib \<Rightarrow> 'w http_world \<Rightarrow> qdrant_config \<Rightarrow> string \<Rightarrow> string \<Rightarrow> 'd json option \<Rightarrow> int \<Rightarrow> 'w \<Rightarrow>
     (exn + 'd api_answer) \<times> int list \<times> 'w" where
  "attempts js http cfg m path body attempt w =
     (case do_request js http cfg m path body w of
        (Inl e, w') \<Rightarrow> (Inl e, [], w')
      | (Inr r, w') \<Rightarrow>
          if q_ok r \<or> \<not> retryable r \<or> max_retries cfg < attempt then (Inr r, [], w')
          else (let (res, sleeps, w'') = attempts js http cfg m path body (attempt + 1) w'
                in (res, retry_backoff_ms cfg * 2 ^ nat (attempt - 1) # sleeps, w'')))"
  by pat_completeness auto
termination attempts
  by (relation "measure (\<lambda>(js, http, cfg, m, path, body, attempt, w). nat (max_retries cfg + 1 - attempt))") auto

declare attempts.simps [simp del]

definition request ::
    "('f, 'd) json_lib \<Rightarrow> 'w http_world \<Rightarrow> qdrant_config \<Rightarrow> string \<Rightarrow> string \<Rightarrow> 'd json option \<Rightarrow> 'w \<Rightarrow>
     (exn + 'd api_answer) \<times> int list \<times> 'w" where
  "request js http cfg m path body w = attempts js http cfg m path body 1 w"

section \<open>Points\<close>

definition build_point :: "('f, 'd) json_lib \<Rightarrow> ('f, 'd) point \<Rightarrow> exn + 'd json" where
  "build_point js p =
     (let point = (\<lambda>i. Inr (JObject [(''id'', i), (''vector'', JArray (map (JFloat \<circ> widen js) (pt_vector p))), (''payload'', pt_payload p)]))
      in if pt_id_is_numeric p then
           (case stoull (pt_id p) of Inl e \<Rightarrow> Inl e | Inr (v, pos) \<Rightarrow> point (JUnsigned v))
         else point (JString (pt_id p)))"

definition build_points_payload :: "('f, 'd) json_lib \<Rightarrow> ('f, 'd) point list \<Rightarrow> exn + 'd json" where
  "build_points_payload js ps = (case traverse (build_point js) ps of Inl e \<Rightarrow> Inl e | Inr items \<Rightarrow> Inr (JArray items))"

text \<open>An id that \<open>stoull\<close> reads to its end is a number, any other a string.\<close>

definition build_id :: "string \<Rightarrow> 'd json" where
  "build_id s = (case stoull s of Inr (v, pos) \<Rightarrow> if pos = length s then JUnsigned v else JString s | Inl _ \<Rightarrow> JString s)"

definition build_id_array :: "string list \<Rightarrow> 'd json" where
  "build_id_array ids = JArray (map build_id ids)"

text \<open>\<open>get<uint64_t>()\<close> of a signed number keeps its bits.\<close>

definition read_id :: "('f, 'd) json_lib \<Rightarrow> 'd json \<Rightarrow> exn + string \<times> bool" where
  "read_id js i =
     (case i of
        JUnsigned v \<Rightarrow> Inr (to_string (uint v), True)
      | JInteger v \<Rightarrow> Inr (to_string (uint v), True)
      | JString s \<Rightarrow> Inr (s, False)
      | _ \<Rightarrow> (case dump js i of Inl e \<Rightarrow> Inl e | Inr t \<Rightarrow> Inr (t, False)))"

definition is_number :: "'d json \<Rightarrow> bool" where
  "is_number j = (case j of JUnsigned _ \<Rightarrow> True | JInteger _ \<Rightarrow> True | JFloat _ \<Rightarrow> True | _ \<Rightarrow> False)"

definition parse_scored_point :: "('f::zero, 'd) json_lib \<Rightarrow> 'd json \<Rightarrow> exn + ('f, 'd) scored_point" where
  "parse_scored_point js pt =
     (case (case json_get pt ''id'' of None \<Rightarrow> Inr ([], True) | Some i \<Rightarrow> read_id js i) of
        Inl e \<Rightarrow> Inl e
      | Inr (pid, numeric) \<Rightarrow>
          (case (case json_get pt ''score'' of
                   Some s \<Rightarrow> if is_number s then get_float js s else Inr 0
                 | None \<Rightarrow> Inr 0) of
             Inl e \<Rightarrow> Inl e
           | Inr score \<Rightarrow>
               (case (case json_get pt ''vector'' of Some (JArray xs) \<Rightarrow> traverse (get_float js) xs | _ \<Rightarrow> Inr []) of
                  Inl e \<Rightarrow> Inl e
                | Inr v \<Rightarrow>
                    Inr \<lparr>sp_id = pid, sp_id_is_numeric = numeric, sp_score = score,
                         sp_payload = (case json_get pt ''payload'' of Some (JObject ob) \<Rightarrow> JObject ob | _ \<Rightarrow> JObject []),
                         sp_vector = v\<rparr>)))"

text \<open>The hits of an answer: the result itself or its points.\<close>

definition result_points :: "'d json \<Rightarrow> 'd json list" where
  "result_points body =
     (case json_get body ''result'' of
        Some (JArray xs) \<Rightarrow> xs
      | Some r \<Rightarrow> (case json_get r ''points'' of Some (JArray xs) \<Rightarrow> xs | _ \<Rightarrow> [])
      | None \<Rightarrow> [])"

definition parse_scored_points :: "('f::zero, 'd) json_lib \<Rightarrow> 'd json \<Rightarrow> exn + ('f, 'd) scored_point list" where
  "parse_scored_points js body = traverse (parse_scored_point js) (filter is_object (result_points body))"

section \<open>Operations\<close>

definition json_bool :: "bool \<Rightarrow> string" where
  "json_bool b = (if b then ''true'' else ''false'')"

definition delete_collection where
  "delete_collection js http cfg coll w = request js http cfg ''DELETE'' (''/collections/'' @ coll) None w"

text \<open>The flag of success; an exception goes through.\<close>

definition request_ok where
  "request_ok js http cfg path w =
     (case request js http cfg ''GET'' path None w of
        (Inl e, sl, w') \<Rightarrow> (Inl e, sl, w')
      | (Inr r, sl, w') \<Rightarrow> (Inr (q_ok r), sl, w'))"

definition collection_exists where
  "collection_exists js http cfg coll w = request_ok js http cfg (''/collections/'' @ coll) w"

definition healthy where
  "healthy js http cfg w = request_ok js http cfg ''/'' w"

definition get_collection_info where
  "get_collection_info js http cfg coll w = request js http cfg ''GET'' (''/collections/'' @ coll) None w"

definition list_collections where
  "list_collections js http cfg w = request js http cfg ''GET'' ''/collections'' None w"

text \<open>The collection is created whatever has become of the deletion.\<close>

definition create_collection where
  "create_collection js http cfg coll dims distance recreate w =
     (let body = JObject [(''vectors'', JObject [(''size'', JUnsigned dims), (''distance'', JString distance)])];
          create = (\<lambda>sl w. let (r, sl', w') = request js http cfg ''PUT'' (''/collections/'' @ coll) (Some body) w in (r, sl @ sl', w'))
      in if \<not> recreate then create [] w
         else case collection_exists js http cfg coll w of
                (Inl e, sl, w') \<Rightarrow> (Inl e, sl, w')
              | (Inr False, sl, w') \<Rightarrow> create sl w'
              | (Inr True, sl, w') \<Rightarrow>
                  (case delete_collection js http cfg coll w' of
                     (Inl e, sl', w'') \<Rightarrow> (Inl e, sl @ sl', w'')
                   | (Inr _, sl', w'') \<Rightarrow> create (sl @ sl') w''))"

definition upsert_points where
  "upsert_points js http cfg coll ps wait w =
     (case build_points_payload js ps of
        Inl e \<Rightarrow> (Inl e, [], w)
      | Inr arr \<Rightarrow>
          request js http cfg ''PUT'' (''/collections/'' @ coll @ ''/points?wait='' @ json_bool wait)
            (Some (JObject [(''points'', arr)])) w)"

definition search_body where
  "search_body js query limit qfilter with_payload with_vector threshold =
     (let ob = [(''vector'', JArray (map (JFloat \<circ> widen js) query)), (''limit'', JUnsigned limit),
                (''with_payload'', JBoolean with_payload), (''with_vector'', JBoolean with_vector)];
          ob = (if qfilter = JNull then ob else json_set ''filter'' qfilter ob)
      in JObject (case threshold of None \<Rightarrow> ob | Some t \<Rightarrow> json_set ''score_threshold'' (JFloat (widen js t)) ob))"

text \<open>The answer and, of a success, its points.\<close>

definition search where
  "search js http cfg coll query limit qfilter with_payload with_vector threshold w =
     (case request js http cfg ''POST'' (''/collections/'' @ coll @ ''/points/search'')
             (Some (search_body js query limit qfilter with_payload with_vector threshold)) w of
        (Inl e, sl, w') \<Rightarrow> (Inl e, sl, w')
      | (Inr r, sl, w') \<Rightarrow>
          if q_ok r then
            (case parse_scored_points js (q_body r) of
               Inl e \<Rightarrow> (Inl e, sl, w')
             | Inr ps \<Rightarrow> (Inr (r, ps), sl, w'))
          else (Inr (r, []), sl, w'))"

definition get_points where
  "get_points js http cfg coll ids with_payload with_vector w =
     request js http cfg ''POST'' (''/collections/'' @ coll @ ''/points'')
       (Some (JObject [(''ids'', build_id_array ids), (''with_payload'', JBoolean with_payload),
                       (''with_vector'', JBoolean with_vector)])) w"

definition delete_path :: "string \<Rightarrow> bool \<Rightarrow> string" where
  "delete_path coll wait = ''/collections/'' @ coll @ ''/points/delete?wait='' @ json_bool wait"

definition delete_points where
  "delete_points js http cfg coll ids wait w =
     request js http cfg ''POST'' (delete_path coll wait) (Some (JObject [(''points'', build_id_array ids)])) w"

definition delete_points_by_filter where
  "delete_points_by_filter js http cfg coll qfilter wait w =
     request js http cfg ''POST'' (delete_path coll wait) (Some (JObject [(''filter'', qfilter)])) w"

definition scroll where
  "scroll js http cfg coll limit qfilter offset with_payload with_vector w =
     (let ob = [(''limit'', JUnsigned limit), (''with_payload'', JBoolean with_payload), (''with_vector'', JBoolean with_vector)];
          ob = (if qfilter = JNull then ob else json_set ''filter'' qfilter ob);
          ob = (if offset = [] then ob else json_set ''offset'' (JString offset) ob)
      in request js http cfg ''POST'' (''/collections/'' @ coll @ ''/points/scroll'') (Some (JObject ob)) w)"

definition count_points where
  "count_points js http cfg coll qfilter w =
     (let ob = (if qfilter = JNull then [] else json_set ''filter'' qfilter [])
      in request js http cfg ''POST'' (''/collections/'' @ coll @ ''/points/count'')
           (Some (JObject (json_set ''exact'' (JBoolean True) ob))) w)"

section \<open>How often a request is tried\<close>

text \<open>A world that gives its \<open>n\<close>th answer to the \<open>n\<close>th call.\<close>

definition scripted :: "(nat \<Rightarrow> http_response) \<Rightarrow> nat http_world" where
  "scripted answers n call = (answers n, Suc n)"

lemma attempts_scripted:
  assumes "build_call js cfg m path body = Inr call"
    "attempts js (scripted answers) cfg m path body (int k + 1) k = (res, sleeps, n)"
  shows "k < n \<and> int n \<le> max (int k) (max_retries cfg) + 1 \<and>
    sleeps = map (\<lambda>j. retry_backoff_ms cfg * 2 ^ j) [k..<n - 1] \<and>
    (\<forall>j. k \<le> j \<and> j < n - 1 \<longrightarrow> (\<exists>r. read_api_answer js (answers j) = Inr r \<and> retryable r)) \<and>
    res = read_api_answer js (answers (n - 1)) \<and>
    ((\<exists>r. res = Inr r \<and> retryable r) \<longrightarrow> max_retries cfg + 1 \<le> int n)"
  using assms(2)
proof (induction "nat (max_retries cfg - int k)" arbitrary: k sleeps rule: less_induct)
  case less
  have one: "do_request js (scripted answers) cfg m path body k = (read_api_answer js (answers k), Suc k)"
    using assms(1) by (simp add: do_request_def scripted_def)
  show ?case
  proof (cases "\<exists>r. read_api_answer js (answers k) = Inr r \<and> retryable r \<and> int k + 1 \<le> max_retries cfg")
    case True
    then obtain r where r: "read_api_answer js (answers k) = Inr r" "retryable r" "int k + 1 \<le> max_retries cfg" by blast
    obtain res' sl n' where rec: "attempts js (scripted answers) cfg m path body (int k + 1 + 1) (Suc k) = (res', sl, n')"
      by (metis prod_cases3)
    have "\<not> q_ok r" using r(2) by (simp add: retryable_def)
    then have "attempts js (scripted answers) cfg m path body (int k + 1) k = (res', retry_backoff_ms cfg * 2 ^ k # sl, n')"
      by (subst attempts.simps) (use one rec r in simp)
    then have now: "res = res'" "n = n'" "sleeps = retry_backoff_ms cfg * 2 ^ k # sl" using less(2) by simp_all
    have ih: "Suc k < n \<and> int n \<le> max (int (Suc k)) (max_retries cfg) + 1 \<and>
        sl = map (\<lambda>j. retry_backoff_ms cfg * 2 ^ j) [Suc k..<n - 1] \<and>
        (\<forall>j. Suc k \<le> j \<and> j < n - 1 \<longrightarrow> (\<exists>r. read_api_answer js (answers j) = Inr r \<and> retryable r)) \<and>
        res = read_api_answer js (answers (n - 1)) \<and> ((\<exists>r. res = Inr r \<and> retryable r) \<longrightarrow> max_retries cfg + 1 \<le> int n)"
      using less(1) [of "Suc k" sl] rec r(3) now by (simp add: algebra_simps)
    have "[k..<n - 1] = k # [Suc k..<n - 1]" using ih by (subst upt_rec) auto
    moreover have "\<exists>r. read_api_answer js (answers j) = Inr r \<and> retryable r" if "k \<le> j" "j < n - 1" for j
      using ih that r by (cases "j = k") auto
    ultimately show ?thesis using ih now(3) r(3) by auto
  next
    case False
    then have "res = read_api_answer js (answers k)" "sleeps = []" "n = Suc k"
      using less(2) one by (subst (asm) attempts.simps, auto split: sum.splits if_splits)+
    then show ?thesis using False by auto
  qed
qed

text \<open>C36. \<open>Request\<close> tries at least once and at most \<open>max_retries\<close> times more (once when that is negative); it goes on only after
  an answer that is a failure of the network, 429 or one of the four passing errors of a server; it sleeps before the
  attempt after the \<open>k\<close>th for \<open>2 ^ k\<close> times the configured time; what it returns is the reading of the last answer; and
  that can be tried again only when no attempt is left.\<close>

theorem request_retries:
  assumes "build_call js cfg m path body = Inr call" "request js (scripted answers) cfg m path body 0 = (res, sleeps, n)"
  shows "1 \<le> n \<and> int n \<le> max 0 (max_retries cfg) + 1 \<and>
    sleeps = map (\<lambda>k. retry_backoff_ms cfg * 2 ^ k) [0..<n - 1] \<and>
    (\<forall>k. k < n - 1 \<longrightarrow> (\<exists>r. read_api_answer js (answers k) = Inr r \<and> \<not> q_ok r \<and> q_status r \<in> {0, 429, 500, 502, 503, 504})) \<and>
    res = read_api_answer js (answers (n - 1)) \<and>
    ((\<exists>r. res = Inr r \<and> retryable r) \<longrightarrow> int n = max 0 (max_retries cfg) + 1)"
  using attempts_scripted [of js cfg m path body call answers 0 res sleeps n] assms
  by (fastforce simp: request_def retryable_def)

definition demo_json :: "(int, int) json_lib" where
  "demo_json = \<lparr>widen = (\<lambda>x. x), narrow = (\<lambda>x. x), from_unsigned = uint, from_integer = sint,
     dump = (\<lambda>j. Inr ''json''), parse = (\<lambda>s. Inr JNull)\<rparr>"

definition demo_qdrant :: qdrant_config where
  "demo_qdrant = \<lparr>qd_host = ''h'', qd_port = 6333, use_https = False, api_key = [], qd_timeout_ms = 10000,
     qd_connect_timeout_ms = 5000, qd_pool_size = 4, max_retries = 2, retry_backoff_ms = 200\<rparr>"

definition demo_answers :: "nat \<Rightarrow> http_response" where
  "demo_answers n = (if n = 0 then \<lparr>hr_ok = False, hr_status = 503, hr_body = [], hr_error = ''HTTP 503''\<rparr>
     else \<lparr>hr_ok = True, hr_status = 200, hr_body = ''{}'', hr_error = []\<rparr>)"

theorem request_retries_witness:
  "request demo_json (scripted demo_answers) demo_qdrant ''GET'' ''/'' None 0 =
     (read_api_answer demo_json (demo_answers 1), [200], 2) \<and> int 2 \<le> max 0 (max_retries demo_qdrant) + 1"
proof -
  obtain call where call: "build_call demo_json demo_qdrant ''GET'' ''/'' None = Inr call" by (simp add: build_call_def)
  have bad: "read_api_answer demo_json (demo_answers 0) =
      Inr \<lparr>q_ok = False, q_status = 503, q_raw_body = [], q_body = JNull, q_error = ''HTTP 503''\<rparr>"
    by (simp add: read_api_answer_def parse_body_def error_text_def json_get_def demo_answers_def)
  have good: "read_api_answer demo_json (demo_answers 1) =
      Inr \<lparr>q_ok = True, q_status = 200, q_raw_body = ''{}'', q_body = JNull, q_error = []\<rparr>"
    by (simp add: read_api_answer_def parse_body_def demo_json_def demo_answers_def)
  have cfg: "max_retries demo_qdrant = 2" "retry_backoff_ms demo_qdrant = 200" by (simp_all add: demo_qdrant_def)
  have run: "request demo_json (scripted demo_answers) demo_qdrant ''GET'' ''/'' None 0 =
      (read_api_answer demo_json (demo_answers 1), [200], 2)"
  proof -
    have d0: "do_request demo_json (scripted demo_answers) demo_qdrant ''GET'' ''/'' None 0 =
        (Inr \<lparr>q_ok = False, q_status = 503, q_raw_body = [], q_body = JNull, q_error = ''HTTP 503''\<rparr>, 1)"
      using call bad by (simp add: do_request_def scripted_def)
    have d1: "do_request demo_json (scripted demo_answers) demo_qdrant ''GET'' ''/'' None 1 = (read_api_answer demo_json (demo_answers 1), 2)"
      using call by (simp add: do_request_def scripted_def)
    have "attempts demo_json (scripted demo_answers) demo_qdrant ''GET'' ''/'' None 2 1 = (read_api_answer demo_json (demo_answers 1), [], 2)"
      by (subst attempts.simps) (simp only: d1 good prod.case sum.case api_answer.simps simp_thms if_True)
    then show ?thesis unfolding request_def
      by (subst attempts.simps) (simp add: d0 retryable_def cfg)
  qed
  show ?thesis using run request_retries [OF call run] by (intro conjI) blast+
qed

section \<open>Ids on their way out and in\<close>

lemma digits_value_snoc: "digits_value (ds @ [c]) = 10 * digits_value ds + (of_char c - 48)"
  by (simp add: digits_value_def)

lemma digit_char: "n < 10 \<Longrightarrow> of_char (digit n) = 48 + n" "n < 10 \<Longrightarrow> ascii_digit (digit n)"
  by (simp_all add: digit_def ascii_digit_def)

lemma nat_to_string_digits:
  "digits_value (nat_to_string n) = n \<and> list_all ascii_digit (nat_to_string n) \<and> nat_to_string n \<noteq> []"
proof (induction n rule: nat_to_string.induct)
  case (1 n)
  show ?case
  proof (cases "n < 10")
    case True
    then show ?thesis using digit_char [of n] by (simp add: nat_to_string.simps [of n] digits_value_def)
  next
    case False
    then show ?thesis using 1 digit_char [of "n mod 10"]
      by (simp add: nat_to_string.simps [of n] digits_value_snoc)
  qed
qed

lemma digit_no_space: "ascii_digit c \<Longrightarrow> \<not> is_space c \<and> c \<noteq> CHR ''-'' \<and> c \<noteq> CHR ''+''"
  by (auto simp: ascii_digit_def is_space_def)

lemma stoull_digits:
  assumes "list_all ascii_digit s" "s \<noteq> []" "digits_value s < 2 ^ 64"
  shows "stoull s = Inr (of_nat (digits_value s), length s)"
proof -
  obtain a b where s: "s = a # b" using assms(2) by (cases s) auto
  have "\<not> is_space a" "a \<noteq> CHR ''-''" "a \<noteq> CHR ''+''" using assms(1) s digit_no_space [of a] by auto
  moreover have "takeWhile ascii_digit (a # b) = a # b" using assms(1) s by (simp add: list_all_iff takeWhile_eq_all_conv)
  ultimately show ?thesis using assms(3) unfolding s stoull_def by (simp add: Let_def)
qed

text \<open>What \<open>std::to_string\<close> prints of a \<open>uint64_t\<close>, \<open>std::stoull\<close> reads back, to the end.\<close>

lemma stoull_to_string:
  fixes v :: u64
  shows "stoull (to_string (uint v)) = Inr (v, length (to_string (uint v)))"
proof -
  have ds: "digits_value (nat_to_string (unat v)) = unat v" "list_all ascii_digit (nat_to_string (unat v))"
    "nat_to_string (unat v) \<noteq> []" using nat_to_string_digits by blast+
  have "unat v < 2 ^ 64" using unsigned_less [of v, where ?'a = nat] by simp
  then show ?thesis using stoull_digits [OF ds(2,3)] ds(1) by (simp add: to_string_def)
qed

text \<open>A string with a minus behind a first character that is no white space, as every UUID is.\<close>

definition dashed :: "string \<Rightarrow> bool" where
  "dashed s \<longleftrightarrow> (case s of [] \<Rightarrow> False | a # b \<Rightarrow> \<not> is_space a \<and> CHR ''-'' \<in> set b)"

lemma takeWhile_short: "x \<in> set xs \<Longrightarrow> \<not> P x \<Longrightarrow> length (takeWhile P xs) < length xs"
  by (metis length_takeWhile_le le_neq_implies_less set_takeWhileD takeWhile_eq_take take_all order_refl)

lemma build_id_dashed: "dashed s \<Longrightarrow> build_id s = JString s"
proof (cases s)
  case (Cons a b)
  assume "dashed s"
  then have ab: "\<not> is_space a" "CHR ''-'' \<in> set b" using Cons by (auto simp: dashed_def)
  have minus: "\<not> ascii_digit (CHR ''-'')" by (simp add: ascii_digit_def)
  have "length (takeWhile ascii_digit b) < length b" "length (takeWhile ascii_digit (a # b)) < length (a # b)"
    using takeWhile_short [of "CHR ''-''" b ascii_digit] takeWhile_short [of "CHR ''-''" "a # b" ascii_digit] ab(2) minus by simp_all
  then show ?thesis using ab(1) Cons by (auto simp: build_id_def stoull_def Let_def split: sum.splits if_splits)
qed (simp add: dashed_def)

lemma build_id_number: "build_id (to_string (uint (v::u64))) = JUnsigned v"
  by (simp add: build_id_def stoull_to_string)

text \<open>A stored point has for id an unsigned number or a UUID.\<close>

definition stored_id :: "'d json \<Rightarrow> bool" where
  "stored_id pt = (case json_get pt ''id'' of Some (JUnsigned v) \<Rightarrow> True | Some (JString s) \<Rightarrow> dashed s | _ \<Rightarrow> False)"

lemma traverse_list_all2: "traverse f xs = Inr ys \<Longrightarrow> list_all2 (\<lambda>x y. f x = Inr y) xs ys"
  by (induction xs arbitrary: ys) (auto split: sum.splits)

lemma hit_id_roundtrip:
  assumes "parse_scored_point js pt = Inr p" "stored_id pt"
  shows "json_get pt ''id'' = Some (build_id (sp_id p))" (is ?same)
    and "\<exists>item. build_point js \<lparr>pt_id = sp_id p, pt_id_is_numeric = sp_id_is_numeric p, pt_vector = v, pt_payload = payload\<rparr> =
      Inr item \<and> json_get item ''id'' = json_get pt ''id''" (is ?put)
proof -
  obtain i where i: "json_get pt ''id'' = Some i" "(\<exists>v. i = JUnsigned v) \<or> (\<exists>s. i = JString s \<and> dashed s)"
    using assms(2) by (auto simp: stored_id_def split: option.splits json.splits)
  have r: "read_id js i = Inr (sp_id p, sp_id_is_numeric p)"
    using assms(1) i by (auto simp: parse_scored_point_def read_id_def split: sum.splits)
  from i(2) have "?same \<and> ?put"
  proof
    assume "\<exists>v. i = JUnsigned v"
    then obtain n where n: "i = JUnsigned n" by blast
    then have "sp_id p = to_string (uint n)" "sp_id_is_numeric p" using r by (simp_all add: read_id_def)
    then show ?thesis using i(1) n by (simp add: build_id_number build_point_def stoull_to_string json_get_def)
  next
    assume "\<exists>s. i = JString s \<and> dashed s"
    then obtain s where s: "i = JString s" "dashed s" by blast
    then have "sp_id p = s" "\<not> sp_id_is_numeric p" using r by (simp_all add: read_id_def)
    then show ?thesis using i(1) s by (simp add: build_id_dashed build_point_def json_get_def)
  qed
  then show ?same ?put by blast+
qed

text \<open>C37. The ids of the hits of a search - unsigned numbers and UUIDs, as the store has them - come through unharmed:
  asking for or deleting these points names the very ids the store has sent, in order, and a point put back under the
  id and the flag of a hit is put under the id of that hit, without an exception.\<close>

theorem point_ids_roundtrip:
  assumes "parse_scored_points js body = Inr ps" "\<forall>pt\<in>set (filter is_object (result_points body)). stored_id pt"
  shows "build_id_array (map sp_id ps) = JArray (map (\<lambda>pt. the (json_get pt ''id'')) (filter is_object (result_points body))) \<and>
    list_all2 (\<lambda>pt p. \<exists>item. build_point js \<lparr>pt_id = sp_id p, pt_id_is_numeric = sp_id_is_numeric p, pt_vector = v, pt_payload = payload\<rparr> =
        Inr item \<and> json_get item ''id'' = json_get pt ''id'') (filter is_object (result_points body)) ps"
proof -
  let ?pts = "filter is_object (result_points body)"
  have all: "list_all2 (\<lambda>pt p. parse_scored_point js pt = Inr p) ?pts ps"
    using traverse_list_all2 assms(1) by (simp add: parse_scored_points_def)
  then have len: "length ps = length ?pts" by (simp add: list_all2_lengthD)
  have one: "parse_scored_point js (?pts ! n) = Inr (ps ! n)" "stored_id (?pts ! n)" if "n < length ?pts" for n
    using all assms(2) that nth_mem [OF that] by (auto simp: list_all2_conv_all_nth)
  have "map build_id (map sp_id ps) = map (\<lambda>pt. the (json_get pt ''id'')) ?pts"
  proof (rule nth_equalityI)
    show "map build_id (map sp_id ps) ! n = map (\<lambda>pt. the (json_get pt ''id'')) ?pts ! n" if "n < length (map build_id (map sp_id ps))" for n
      using that len hit_id_roundtrip(1) [OF one] by simp
  qed (simp add: len)
  moreover have "list_all2 (\<lambda>pt p. \<exists>item. build_point js \<lparr>pt_id = sp_id p, pt_id_is_numeric = sp_id_is_numeric p, pt_vector = v,
      pt_payload = payload\<rparr> = Inr item \<and> json_get item ''id'' = json_get pt ''id'') ?pts ps"
    using len hit_id_roundtrip(2) [OF one] by (simp add: list_all2_conv_all_nth)
  ultimately show ?thesis by (simp add: build_id_array_def)
qed

text \<open>A hit with a number and one with a UUID.\<close>

definition demo_hits :: "int json" where
  "demo_hits = JObject [(''result'', JArray [JObject [(''id'', JUnsigned 42), (''score'', JFloat 1)],
     JObject [(''id'', JString ''5c-1'')]])]"

theorem point_ids_roundtrip_witness:
  "\<exists>ps. parse_scored_points demo_json demo_hits = Inr ps \<and>
     build_id_array (map sp_id ps) = (JArray [JUnsigned 42, JString ''5c-1''] :: int json)"
proof -
  have pts: "filter is_object (result_points demo_hits) = [JObject [(''id'', JUnsigned 42), (''score'', JFloat 1)], JObject [(''id'', JString ''5c-1'')]]"
    by (simp add: result_points_def demo_hits_def json_get_def)
  have stored: "\<forall>pt\<in>set (filter is_object (result_points demo_hits)). stored_id pt"
    unfolding pts by (simp add: stored_id_def json_get_def dashed_def is_space_def)
  obtain ps where ps: "parse_scored_points demo_json demo_hits = Inr ps"
    unfolding parse_scored_points_def pts by (simp add: parse_scored_point_def json_get_def read_id_def is_number_def get_float_def)
  show ?thesis using ps conjunct1 [OF point_ids_roundtrip [OF ps stored, of "[]" JNull]]
    unfolding pts by (simp add: json_get_def)
qed

text \<open>A string id that reads as a number is asked for as that number, whatever id the caller meant.\<close>

lemma numeric_looking_ids_change:
  "build_id ''007'' = (JUnsigned 7 :: 'd json)" "build_id ''-1'' = (JUnsigned (- 1) :: 'd json)"
  by (simp_all add: build_id_def stoull_def Let_def is_space_def ascii_digit_def digits_value_def)

text \<open>An answer whose error is not a string makes \<open>Request\<close> throw.\<close>

lemma error_object_throws:
  assumes "parse js b = Inr (JObject [(''status'', JObject [(''error'', JNull)])])" "b \<noteq> []"
  shows "read_api_answer js \<lparr>hr_ok = False, hr_status = 404, hr_body = b, hr_error = ''HTTP 404''\<rparr> = Inl TypeError"
  using assms by (simp add: read_api_answer_def parse_body_def error_text_def json_get_def get_string_def)

end
