(* ===== verification/Thread_Queue.thy ===== *)
theory Thread_Queue
  imports Ax_Prelude
begin

text \<open>
  \<open>ThreadSafeQueue<T>\<close> of \<open>pipeline/thread_safe_queue.h\<close>. Every member function holds the mutex
  for its whole body, so each is one atomic operation on the queue's state. The interface that
  \<open>TaskNodeMgr\<close> relies on is the locale \<open>bounded_fifo\<close>; its laws give the history property that
  what is popped is, in order, what was accepted.
\<close>

section \<open>The queue\<close>

record 'a tsq =
  queue :: "'a list"
  queue_capacity :: u32
  kMaxQueueCapacity :: u32

definition kMinQueueCapacity :: u32 where "kMinQueueCapacity = 1"
definition kDefaultQueueCapacity :: u32 where "kDefaultQueueCapacity = 10"

definition tsq_new :: "u32 \<Rightarrow> 'a tsq" where
  "tsq_new capacity =
     (if kMinQueueCapacity \<le> capacity \<and> capacity \<le> 10000
      then \<lparr>queue = [], queue_capacity = capacity, kMaxQueueCapacity = 10000\<rparr>
      else \<lparr>queue = [], queue_capacity = kDefaultQueueCapacity, kMaxQueueCapacity = 10000\<rparr>)"

definition tsq_default :: "'a tsq" where
  "tsq_default =
     \<lparr>queue = [], queue_capacity = kDefaultQueueCapacity, kMaxQueueCapacity = 10000\<rparr>"

definition tsq_push :: "'a \<Rightarrow> 'a tsq \<Rightarrow> bool \<times> 'a tsq" where
  "tsq_push v q =
     (if length (queue q) < unat (queue_capacity q)
      then (True, q\<lparr>queue := queue q @ [v]\<rparr>)
      else (False, q))"

text \<open>\<open>Pop\<close> returns a null pointer on an empty queue, here \<open>None\<close>.\<close>

definition tsq_pop :: "'a tsq \<Rightarrow> 'a option \<times> 'a tsq" where
  "tsq_pop q =
     (case queue q of [] \<Rightarrow> (None, q) | v # vs \<Rightarrow> (Some v, q\<lparr>queue := vs\<rparr>))"

definition tsq_empty :: "'a tsq \<Rightarrow> bool" where
  "tsq_empty q = (queue q = [])"

text \<open>\<open>Size\<close> converts \<open>size_t\<close> to \<open>uint32_t\<close>.\<close>

definition tsq_size :: "'a tsq \<Rightarrow> u32" where
  "tsq_size q = of_nat (length (queue q))"

definition tsq_extend_capacity :: "u32 \<Rightarrow> 'a tsq \<Rightarrow> 'a tsq" where
  "tsq_extend_capacity new_size q =
     q\<lparr>queue_capacity := new_size,
       kMaxQueueCapacity :=
         (if kMaxQueueCapacity q < new_size then new_size else kMaxQueueCapacity q)\<rparr>"

section \<open>The interface: a bounded first-in first-out queue\<close>

locale bounded_fifo =
  fixes push :: "'a \<Rightarrow> 'q \<Rightarrow> bool \<times> 'q"
    and pop :: "'q \<Rightarrow> 'a option \<times> 'q"
    and items :: "'q \<Rightarrow> 'a list"
    and cap :: "'q \<Rightarrow> nat"
  assumes push_items:
      "items (snd (push v q)) = (if fst (push v q) then items q @ [v] else items q)"
    and push_iff: "fst (push v q) \<longleftrightarrow> length (items q) < cap q"
    and push_cap: "cap (snd (push v q)) = cap q"
    and pop_Nil: "items q = [] \<Longrightarrow> pop q = (None, q)"
    and pop_Cons: "items q = w # ws \<Longrightarrow> fst (pop q) = Some w \<and> items (snd (pop q)) = ws"
    and pop_cap: "cap (snd (pop q)) = cap q"
begin

text \<open>A run of the queue under any interleaving of producers and consumers: \<open>Inl v\<close> pushes \<open>v\<close>,
  \<open>Inr ()\<close> pops. The run records what was accepted and what was popped.\<close>

fun run :: "('a + unit) list \<Rightarrow> 'q \<Rightarrow> 'a list \<times> 'a list \<times> 'q" where
  "run [] q = ([], [], q)"
| "run (Inl v # ops) q =
     (let (ok, q') = push v q; (acc, out, q'') = run ops q'
      in (if ok then v # acc else acc, out, q''))"
| "run (Inr u # ops) q =
     (let (r, q') = pop q; (acc, out, q'') = run ops q'
      in (acc, (case r of None \<Rightarrow> out | Some w \<Rightarrow> w # out), q''))"

lemma pop_items: "items q = (case fst (pop q) of None \<Rightarrow> [] | Some w \<Rightarrow> [w]) @ items (snd (pop q))"
proof (cases "items q")
  case Nil
  then show ?thesis by (simp add: pop_Nil)
next
  case (Cons w ws)
  then show ?thesis using pop_Cons [OF Cons] by simp
qed

lemma pop_None: "fst (pop q) = None \<Longrightarrow> items q = []"
  using pop_Cons by (cases "items q") fastforce+

lemma run_history:
  "run ops q = (acc, out, q') \<Longrightarrow> items q @ acc = out @ items q'"
proof (induction ops q arbitrary: acc out q' rule: run.induct)
  case (1 q)
  then show ?case by simp
next
  case (2 v ops q)
  then show ?case
    using push_items [of v q] by (cases "push v q") (fastforce split: prod.splits if_splits)
next
  case (3 u ops q)
  then show ?case
    using pop_items [of q] by (cases "pop q") (fastforce split: prod.splits option.splits)
qed

lemma run_bound: "length (items q) \<le> cap q \<Longrightarrow> run ops q = (acc, out, q') \<Longrightarrow>
   length (items q') \<le> cap q' \<and> cap q' = cap q"
proof (induction ops q arbitrary: acc out q' rule: run.induct)
  case (1 q)
  then show ?case by simp
next
  case (2 v ops q)
  have b: "length (items (snd (push v q))) \<le> cap (snd (push v q))"
    using "2.prems"(1) push_iff [of v q] by (simp add: push_items push_cap)
  show ?case
    using "2.prems"(2) "2.IH" [OF prod.collapse refl] b push_cap [of v q]
    by (fastforce simp: Let_def split: prod.splits)
next
  case (3 u ops q)
  have b: "length (items (snd (pop q))) \<le> cap (snd (pop q))"
    using "3.prems"(1) pop_items [of q] by (metis pop_cap length_append le_add2 le_trans)
  show ?case
    using "3.prems"(2) "3.IH" [OF prod.collapse refl] b pop_cap [of q]
    by (fastforce simp: Let_def split: prod.splits)
qed

lemma full_rejects: "cap q \<le> length (items q) \<Longrightarrow> \<not> fst (push v q)"
  by (simp add: push_iff)

end

interpretation tsq: bounded_fifo tsq_push tsq_pop queue "\<lambda>q. unat (queue_capacity q)"
  by unfold_locales (auto simp: tsq_push_def tsq_pop_def split: list.splits)

text \<open>The run of the model's own queue, for statements outside the interface.\<close>

fun tsq_run :: "('a + unit) list \<Rightarrow> 'a tsq \<Rightarrow> 'a list \<times> 'a list \<times> 'a tsq" where
  "tsq_run [] q = ([], [], q)"
| "tsq_run (Inl v # ops) q =
     (let (ok, q') = tsq_push v q; (acc, out, q'') = tsq_run ops q'
      in (if ok then v # acc else acc, out, q''))"
| "tsq_run (Inr u # ops) q =
     (let (r, q') = tsq_pop q; (acc, out, q'') = tsq_run ops q'
      in (acc, (case r of None \<Rightarrow> out | Some w \<Rightarrow> w # out), q''))"

lemma tsq_run_eq: "tsq_run ops q = tsq.run ops q"
  by (induction ops q rule: tsq_run.induct) (simp_all split: prod.splits)

lemma tsq_new_capacity_bounds:
  "1 \<le> unat (queue_capacity (tsq_new c :: 'a tsq)) \<and>
   unat (queue_capacity (tsq_new c :: 'a tsq)) \<le> 10000"
proof (cases "kMinQueueCapacity \<le> c \<and> c \<le> 10000")
  case True
  then show ?thesis
    by (simp add: tsq_new_def kMinQueueCapacity_def word_le_nat_alt)
next
  case False
  then show ?thesis by (auto simp: tsq_new_def kDefaultQueueCapacity_def)
qed

section \<open>Properties\<close>

text \<open>C2. First-in first-out delivery and the bound of the message queue: from a new queue, under
  every interleaving of pushes and pops, the popped values followed by the values still queued are
  exactly the accepted values in the order of acceptance, and the queue never holds more than its
  capacity, which lies between 1 and 10000 whatever capacity was asked for.\<close>

theorem queue_fifo_bounded:
  fixes ops :: "('a + unit) list"
  assumes "tsq_run ops (tsq_new c) = (accepted, popped, q)"
  shows "accepted = popped @ queue q \<and>
    length (queue q) \<le> unat (queue_capacity (tsq_new c :: 'a tsq)) \<and>
    1 \<le> unat (queue_capacity (tsq_new c :: 'a tsq)) \<and>
    unat (queue_capacity (tsq_new c :: 'a tsq)) \<le> 10000"
proof -
  have r: "tsq.run ops (tsq_new c) = (accepted, popped, q)"
    using assms by (simp add: tsq_run_eq)
  have e: "queue (tsq_new c :: 'a tsq) = []" by (simp add: tsq_new_def)
  have b: "length (queue (tsq_new c :: 'a tsq)) \<le> unat (queue_capacity (tsq_new c :: 'a tsq))"
    by (simp add: e)
  show ?thesis
    using tsq.run_history [OF r] tsq.run_bound [OF b r]
      tsq_new_capacity_bounds [of c, where ?'a = 'a]
    by (simp add: e)
qed

theorem queue_fifo_bounded_witness:
  "let (accepted, popped, q) = tsq_run [Inl 5, Inl 6, Inl 7, Inr (), Inl (8::nat)] (tsq_new 2)
   in accepted = [5, 6, 8] \<and> popped = [5] \<and> queue q = [6, 8] \<and> accepted = popped @ queue q"
proof -
  have r: "tsq_run [Inl 5, Inl 6, Inl 7, Inr (), Inl (8::nat)] (tsq_new 2) =
     ([5, 6, 8], [5], \<lparr>queue = [6, 8], queue_capacity = 2, kMaxQueueCapacity = 10000\<rparr>)"
    by (simp add: tsq_new_def tsq_push_def tsq_pop_def kMinQueueCapacity_def)
  show ?thesis unfolding r using queue_fifo_bounded [OF r] by simp
qed

end
