(* ===== verification/Pipeline.thy ===== *)
theory Pipeline
  imports Thread_Queue
begin

text \<open>
  The pipeline runtime: \<open>TaskNode\<close>, \<open>TaskNodeMgr\<close> and \<open>TaskScheduler\<close> of \<open>pipeline/\<close>. A node
  object is shared between its owner and the scheduler, so the objects live in a store and a
  manager holds a node's address. A released slot of \<open>thread_list_\<close> is a null pointer, here
  \<open>None\<close>; an operation that would read through it returns \<open>None\<close>. Each worker thread is its
  position in \<open>ThreadEntry\<close>; workers, external senders and the main thread interleave in the step
  relation \<open>pstep\<close>.
\<close>

section \<open>Nodes\<close>

text \<open>\<open>impl\<close> is the state of the derived class.\<close>

record 'n task_node =
  instance_id :: int
  instance_name :: string
  base_configured :: bool
  impl :: 'n

definition kInvalidInstanceId :: int where "kInvalidInstanceId = -1"

definition task_node_new :: "'n \<Rightarrow> 'n task_node" where
  "task_node_new d =
     \<lparr>instance_id = kInvalidInstanceId, instance_name = [], base_configured = False, impl = d\<rparr>"

text \<open>The name is assigned from a C string, so it ends at the first null character.\<close>

definition base_config :: "int \<Rightarrow> string \<Rightarrow> 'n task_node \<Rightarrow> task_error \<times> 'n task_node" where
  "base_config inst_id node_name n =
     (if base_configured n then (kInitedAlready, n)
      else (kOk, n\<lparr>instance_id := inst_id,
                   instance_name := takeWhile (\<lambda>c. c \<noteq> CHR 0x00) node_name,
                   base_configured := True\<rparr>))"

record task_node_param =
  tp_node :: nat
  tp_name :: string
  tp_id :: int

section \<open>Messages, status, workers\<close>

record 'd task_message =
  dest :: int
  msg_id :: int
  data :: "'d option"

datatype node_status = kReady | kRunning | kExiting | kExited | kError

fun status_code :: "node_status \<Rightarrow> nat" where
  "status_code kReady = 0"
| "status_code kRunning = 1"
| "status_code kExiting = 2"
| "status_code kExited = 3"
| "status_code kError = 4"

lemma status_code_inj [simp]: "status_code a = status_code b \<longleftrightarrow> a = b"
  by (cases a; cases b) simp_all

instantiation node_status :: linorder
begin

definition less_eq_node_status :: "node_status \<Rightarrow> node_status \<Rightarrow> bool" where
  "less_eq_node_status a b = (status_code a \<le> status_code b)"

definition less_node_status :: "node_status \<Rightarrow> node_status \<Rightarrow> bool" where
  "less_node_status a b = (status_code a < status_code b)"

instance
  by standard (auto simp: less_eq_node_status_def less_node_status_def)

end

lemma kRunning_less_iff: "kRunning < s \<longleftrightarrow> s = kExiting \<or> s = kExited \<or> s = kError"
  by (cases s) (simp_all add: less_node_status_def)

text \<open>Where a worker thread stands in \<open>ThreadEntry\<close>. \<open>AtSends\<close> holds the messages that the
  current call of \<open>Process\<close> has still to send.\<close>

datatype 'd worker_pc =
    NoThread
  | AtEntry
  | AfterInit int
  | AtTest
  | AtPop
  | AtProcess "'d task_message"
  | AtSends int "'d task_message list"
  | AtExit
  | Finished

record 'd task_node_mgr =
  name :: string
  status :: node_status
  user_instance :: "nat option"
  msg_queue :: "'d task_message tsq"
  worker :: "'d worker_pc"
  dropped_total :: u64
  dropped_in_window :: u64
  first_drop_reported :: bool
  last_drop_log :: time_point

definition kMsgQueueSize :: u32 where "kMsgQueueSize = 256"
definition kDropLogInterval :: time_point where "kDropLogInterval = 5 * 1000000000"

definition mgr_new :: "nat option \<Rightarrow> string \<Rightarrow> 'd task_node_mgr" where
  "mgr_new inst node_name =
     \<lparr>name = node_name, status = kReady, user_instance = inst, msg_queue = tsq_new kMsgQueueSize,
      worker = NoThread, dropped_total = 0, dropped_in_window = 0, first_drop_reported = False,
      last_drop_log = 0\<rparr>"

definition set_status :: "node_status \<Rightarrow> 'd task_node_mgr \<Rightarrow> 'd task_node_mgr" where
  "set_status st m = m\<lparr>status := st\<rparr>"

section \<open>Accounting for dropped messages\<close>

datatype drop_log = FirstDrop int | DropSummary u64 int u64

definition report_dropped_message ::
    "int \<Rightarrow> time_point \<Rightarrow> 'd task_node_mgr \<Rightarrow> drop_log list \<times> 'd task_node_mgr" where
  "report_dropped_message mid now m =
     (let total = dropped_total m + 1;
          m1 = m\<lparr>dropped_total := total, dropped_in_window := dropped_in_window m + 1\<rparr>
      in if \<not> first_drop_reported m1 then
           ([FirstDrop mid],
            m1\<lparr>first_drop_reported := True, last_drop_log := now, dropped_in_window := 0\<rparr>)
         else if kDropLogInterval \<le> now - last_drop_log m1 then
           ([DropSummary (dropped_in_window m1) (c_div (now - last_drop_log m1) 1000000000) total],
            m1\<lparr>last_drop_log := now, dropped_in_window := 0\<rparr>)
         else ([], m1))"

definition push_message ::
    "'d task_message \<Rightarrow> time_point \<Rightarrow> 'd task_node_mgr \<Rightarrow> task_error \<times> drop_log list \<times> 'd task_node_mgr"
  where
  "push_message msg now m =
     (if status m \<noteq> kRunning then (kThreadAbnormal, [], m)
      else case tsq_push msg (msg_queue m) of
             (True, q) \<Rightarrow> (kOk, [], m\<lparr>msg_queue := q\<rparr>)
           | (False, q) \<Rightarrow>
               (let (logs, m') = report_dropped_message (msg_id msg) now m
                in (kEnqueue, logs, m')))"

definition pop_message :: "'d task_node_mgr \<Rightarrow> 'd task_message option \<times> 'd task_node_mgr" where
  "pop_message m =
     (case tsq_pop (msg_queue m) of (r, q) \<Rightarrow> (r, m\<lparr>msg_queue := q\<rparr>))"

text \<open>\<open>CreateThread\<close> starts nothing when the manager already has a thread.\<close>

definition create_thread :: "'d task_node_mgr \<Rightarrow> 'd task_node_mgr" where
  "create_thread m = (if worker m = NoThread then m\<lparr>worker := AtEntry\<rparr> else m)"

text \<open>One poll of \<open>WaitThreadInitEnd\<close>: \<open>None\<close> is another round of the loop.\<close>

definition wait_thread_init_poll :: "'d task_node_mgr \<Rightarrow> task_error option" where
  "wait_thread_init_poll m =
     (if status m = kRunning then Some kOk
      else if kRunning < status m then Some kStartThread
      else None)"

section \<open>The scheduler\<close>

datatype main_pc =
    MainIdle
  | MainWaiting "nat list"
  | MainStarted task_error
  | MainInWait
  | MainInLoop
  | MainMarking nat
  | MainJoining nat
  | MainReleased

record ('n, 'd) sched =
  nodes :: "'n task_node list"
  thread_list :: "'d task_node_mgr option list"
  is_released :: bool
  wait_end :: bool
  main_at :: main_pc

definition sched_init :: "'n task_node list \<Rightarrow> ('n, 'd) sched" where
  "sched_init ns =
     \<lparr>nodes = ns,
      thread_list = [Some (set_status kRunning (mgr_new None ''main''))],
      is_released = False, wait_end = False, main_at = MainIdle\<rparr>"

fun name_unique_in :: "string \<Rightarrow> 'd task_node_mgr option list \<Rightarrow> bool option" where
  "name_unique_in nm [] = Some True"
| "name_unique_in nm (None # ms) = None"
| "name_unique_in nm (Some m # ms) = (if nm = name m then Some False else name_unique_in nm ms)"

definition is_node_name_unique :: "string \<Rightarrow> ('n, 'd) sched \<Rightarrow> bool option" where
  "is_node_name_unique nm s = (if nm = [] then Some True else name_unique_in nm (thread_list s))"

fun id_by_name_in :: "string \<Rightarrow> nat \<Rightarrow> 'd task_node_mgr option list \<Rightarrow> int option" where
  "id_by_name_in nm i [] = Some kInvalidInstanceId"
| "id_by_name_in nm i (None # ms) = None"
| "id_by_name_in nm i (Some m # ms) =
     (if name m = nm then Some (int i) else id_by_name_in nm (Suc i) ms)"

definition task_node_id_by_name :: "string \<Rightarrow> ('n, 'd) sched \<Rightarrow> int option" where
  "task_node_id_by_name nm s =
     (if nm = [] then Some kInvalidInstanceId else id_by_name_in nm 0 (thread_list s))"

text \<open>\<open>node\<close> is an address in the store; a wild address is undefined behaviour.\<close>

definition create_task_node_mgr ::
    "nat \<Rightarrow> string \<Rightarrow> ('n, 'd) sched \<Rightarrow> (int \<times> ('n, 'd) sched) option" where
  "create_task_node_mgr node nm s =
     (case is_node_name_unique nm s of
        None \<Rightarrow> None
      | Some False \<Rightarrow> Some (kInvalidInstanceId, s)
      | Some True \<Rightarrow>
          (if node < length (nodes s) then
             (let inst_id = int (length (thread_list s));
                  (ret, n') = base_config inst_id nm (nodes s ! node)
              in if ret \<noteq> kOk then Some (kInvalidInstanceId, s)
                 else Some (inst_id,
                        s\<lparr>nodes := (nodes s)[node := n'],
                          thread_list := thread_list s @ [Some (mgr_new (Some node) nm)]\<rparr>))
           else None))"

text \<open>The first loop of \<open>Start\<close>. \<open>Inl\<close> is an early return of \<open>kGeneralError\<close>, after the managers
  created so far were added.\<close>

fun start_create ::
    "task_node_param list \<Rightarrow> ('n, 'd) sched \<Rightarrow>
     ((('n, 'd) sched) + (task_node_param list \<times> ('n, 'd) sched)) option" where
  "start_create [] s = Some (Inr ([], s))"
| "start_create (p # ps) s =
     (case create_task_node_mgr (tp_node p) (tp_name p) s of
        None \<Rightarrow> None
      | Some (inst_id, s1) \<Rightarrow>
          (if inst_id = kInvalidInstanceId then Some (Inl s1)
           else case start_create ps s1 of
                  None \<Rightarrow> None
                | Some (Inl s2) \<Rightarrow> Some (Inl s2)
                | Some (Inr (ps', s2)) \<Rightarrow> Some (Inr (p\<lparr>tp_id := inst_id\<rparr> # ps', s2))))"

definition upd_mgr ::
    "nat \<Rightarrow> ('d task_node_mgr \<Rightarrow> 'd task_node_mgr) \<Rightarrow> ('n, 'd) sched \<Rightarrow> ('n, 'd) sched" where
  "upd_mgr i f s =
     (case nth_opt (thread_list s) i of
        Some (Some m) \<Rightarrow> s\<lparr>thread_list := (thread_list s)[i := Some (f m)]\<rparr>
      | _ \<Rightarrow> s)"

text \<open>The second loop of \<open>Start\<close>, and \<open>Start\<close> up to the loop that waits.\<close>

fun start_threads :: "nat list \<Rightarrow> ('n, 'd) sched \<Rightarrow> ('n, 'd) sched" where
  "start_threads [] s = s"
| "start_threads (i # is) s = start_threads is (upd_mgr i create_thread s)"

definition start :: "task_node_param list \<Rightarrow> ('n, 'd) sched \<Rightarrow> ('n, 'd) sched option" where
  "start ps s =
     (case start_create ps s of
        None \<Rightarrow> None
      | Some (Inl s1) \<Rightarrow> Some (s1\<lparr>main_at := MainStarted kGeneralError\<rparr>)
      | Some (Inr (ps', s1)) \<Rightarrow>
          (let ids = map (\<lambda>p. nat (tp_id p)) ps'
           in Some ((start_threads ids s1)\<lparr>main_at := MainWaiting ids\<rparr>)))"

text \<open>\<open>CreateTaskNode\<close> up to its wait: it creates one manager, starts its thread and waits.\<close>

definition create_task_node :: "nat \<Rightarrow> string \<Rightarrow> ('n, 'd) sched \<Rightarrow> ('n, 'd) sched option" where
  "create_task_node node nm s =
     (case create_task_node_mgr node nm s of
        None \<Rightarrow> None
      | Some (inst_id, s1) \<Rightarrow>
          (if inst_id = kInvalidInstanceId then Some s1
           else Some ((upd_mgr (nat inst_id) create_thread s1)\<lparr>main_at := MainWaiting [nat inst_id]\<rparr>)))"

definition send_message ::
    "int \<Rightarrow> int \<Rightarrow> 'd option \<Rightarrow> time_point \<Rightarrow> ('n, 'd) sched \<Rightarrow>
     task_error \<times> drop_log list \<times> ('n, 'd) sched" where
  "send_message d mid dat now s =
     (if d < 0 \<or> int (length (thread_list s)) \<le> d then (kDestInvalid, [], s)
      else case thread_list s ! nat d of
             None \<Rightarrow> (kDestInvalid, [], s)
           | Some m \<Rightarrow>
               (case push_message \<lparr>dest = d, msg_id = mid, data = dat\<rparr> now m of
                  (ret, logs, m') \<Rightarrow>
                    (ret, logs, s\<lparr>thread_list := (thread_list s)[nat d := Some m']\<rparr>)))"

fun is_thread_abnormal_in :: "'d task_node_mgr option list \<Rightarrow> bool option" where
  "is_thread_abnormal_in [] = Some False"
| "is_thread_abnormal_in (None # ms) = None"
| "is_thread_abnormal_in (Some m # ms) =
     (if status m = kError then Some True else is_thread_abnormal_in ms)"

section \<open>Worker threads\<close>

text \<open>The virtual functions of a node. \<open>Init\<close> may ask the scheduler for ids by name; \<open>Process\<close>
  returns its code and the messages it sends, in order. \<open>on_main\<close> is the callback that the main
  thread hands to \<open>Wait\<close>.\<close>

record ('n, 'd) node_impl =
  on_init :: "(string \<Rightarrow> int option) \<Rightarrow> 'n \<Rightarrow> int \<times> 'n"
  on_process :: "int \<Rightarrow> 'd option \<Rightarrow> 'n \<Rightarrow> int \<times> 'n \<times> 'd task_message list"
  on_main :: "int \<Rightarrow> 'd option \<Rightarrow> int"

definition set_worker :: "nat \<Rightarrow> 'd worker_pc \<Rightarrow> ('n, 'd) sched \<Rightarrow> ('n, 'd) sched" where
  "set_worker i pc s = upd_mgr i (\<lambda>m. m\<lparr>worker := pc\<rparr>) s"

definition set_impl :: "nat \<Rightarrow> 'n \<Rightarrow> ('n, 'd) sched \<Rightarrow> ('n, 'd) sched" where
  "set_impl a d s = s\<lparr>nodes := (nodes s)[a := (nodes s ! a)\<lparr>impl := d\<rparr>]\<rparr>"

text \<open>One step of the worker of slot \<open>i\<close>; \<open>None\<close> when there is no thread that can step.\<close>

definition worker_step ::
    "('n, 'd) node_impl \<Rightarrow> time_point \<Rightarrow> nat \<Rightarrow> ('n, 'd) sched \<Rightarrow> ('n, 'd) sched option" where
  "worker_step b now i s =
     (case nth_opt (thread_list s) i of
        Some (Some m) \<Rightarrow>
          (case worker m of
             NoThread \<Rightarrow> None
           | Finished \<Rightarrow> None
           | AtEntry \<Rightarrow>
               (case user_instance m of
                  None \<Rightarrow> Some (set_worker i Finished s)
                | Some a \<Rightarrow>
                    (let (ret, d) = on_init b (\<lambda>nm. task_node_id_by_name nm s) (impl (nodes s ! a))
                     in Some (set_worker i (AfterInit ret) (set_impl a d s))))
           | AfterInit ret \<Rightarrow>
               (if ret \<noteq> 0 then Some (upd_mgr i (\<lambda>m. (set_status kError m)\<lparr>worker := Finished\<rparr>) s)
                else Some (upd_mgr i (\<lambda>m. (set_status kRunning m)\<lparr>worker := AtTest\<rparr>) s))
           | AtTest \<Rightarrow> Some (set_worker i (if status m = kRunning then AtPop else AtExit) s)
           | AtPop \<Rightarrow>
               (case pop_message m of
                  (None, m') \<Rightarrow> Some (upd_mgr i (\<lambda>_. m'\<lparr>worker := AtTest\<rparr>) s)
                | (Some msg, m') \<Rightarrow> Some (upd_mgr i (\<lambda>_. m'\<lparr>worker := AtProcess msg\<rparr>) s))
           | AtProcess msg \<Rightarrow>
               (case user_instance m of
                  None \<Rightarrow> None
                | Some a \<Rightarrow>
                    (let (ret, d, sends) = on_process b (msg_id msg) (data msg) (impl (nodes s ! a))
                     in Some (set_worker i (AtSends ret sends) (set_impl a d s))))
           | AtSends ret [] \<Rightarrow> Some (set_worker i AtTest s)
           | AtSends ret (x # xs) \<Rightarrow>
               (case send_message (dest x) (msg_id x) (data x) now s of
                  (_, _, s1) \<Rightarrow> Some (set_worker i (AtSends ret xs) s1))
           | AtExit \<Rightarrow> Some (upd_mgr i (\<lambda>m. (set_status kExited m)\<lparr>worker := Finished\<rparr>) s))
      | _ \<Rightarrow> None)"

section \<open>The main thread: waiting for start and releasing\<close>

definition can_join :: "'d task_node_mgr \<Rightarrow> bool" where
  "can_join m = (worker m = NoThread \<or> worker m = Finished)"

text \<open>One step of the main thread; \<open>None\<close> is a blocked or finished main thread. Marking and joining
  go through the slots from 1 on, one slot a step, as the loops of \<open>ReleaseThreads\<close> do.\<close>

definition main_step :: "('n, 'd) node_impl \<Rightarrow> ('n, 'd) sched \<Rightarrow> ('n, 'd) sched option" where
  "main_step b s =
     (case main_at s of
        MainInWait \<Rightarrow>
          (if wait_end s then Some ((upd_mgr 0 (set_status kExited) s)\<lparr>main_at := MainStarted kOk\<rparr>)
           else Some s)
      | MainInLoop \<Rightarrow>
          (if wait_end s then Some ((upd_mgr 0 (set_status kExited) s)\<lparr>main_at := MainStarted kOk\<rparr>)
           else case nth_opt (thread_list s) 0 of
             Some (Some m) \<Rightarrow>
               (case pop_message m of
                  (None, m') \<Rightarrow> Some s
                | (Some msg, m') \<Rightarrow>
                    (let s1 = upd_mgr 0 (\<lambda>_. m') s
                     in if on_main b (msg_id msg) (data msg) \<noteq> 0
                        then Some ((upd_mgr 0 (set_status kExited) s1)\<lparr>main_at := MainStarted kOk\<rparr>)
                        else Some s1))
           | _ \<Rightarrow> None)
      | MainWaiting [] \<Rightarrow> Some (s\<lparr>main_at := MainStarted kOk\<rparr>)
      | MainWaiting (i # is) \<Rightarrow>
          (case nth_opt (thread_list s) i of
             Some (Some m) \<Rightarrow>
               (case wait_thread_init_poll m of
                  None \<Rightarrow> Some s
                | Some ret \<Rightarrow>
                    Some (s\<lparr>main_at := (if ret = kOk then MainWaiting is else MainStarted ret)\<rparr>))
           | _ \<Rightarrow> None)
      | MainMarking i \<Rightarrow>
          (if i < length (thread_list s) then
             (case thread_list s ! i of
                Some m \<Rightarrow>
                  Some ((upd_mgr i (\<lambda>m. if status m = kRunning then set_status kExiting m else m) s)
                          \<lparr>main_at := MainMarking (Suc i)\<rparr>)
              | None \<Rightarrow> Some (s\<lparr>main_at := MainMarking (Suc i)\<rparr>))
           else Some (s\<lparr>main_at := MainJoining 1\<rparr>))
      | MainJoining i \<Rightarrow>
          (if i < length (thread_list s) then
             (case thread_list s ! i of
                None \<Rightarrow> Some (s\<lparr>main_at := MainJoining (Suc i)\<rparr>)
              | Some m \<Rightarrow>
                  (if can_join m
                   then Some (s\<lparr>thread_list := (thread_list s)[i := None],
                                main_at := MainJoining (Suc i)\<rparr>)
                   else None))
           else Some (s\<lparr>thread_list := (thread_list s)[0 := None], is_released := True,
                        main_at := MainReleased\<rparr>))
      | _ \<Rightarrow> None)"

text \<open>The two forms of \<open>Wait\<close>, entered by the main thread, and \<open>SignalWaitEnd\<close>, called by any. The
  form with a callback returns at once when the main manager is gone.\<close>

definition enter_wait :: "bool \<Rightarrow> ('n, 'd) sched \<Rightarrow> ('n, 'd) sched option" where
  "enter_wait with_callback s =
     (case main_at s of
        MainStarted _ \<Rightarrow>
          (if with_callback then
             (case nth_opt (thread_list s) 0 of
                Some (Some m) \<Rightarrow> Some (s\<lparr>main_at := MainInLoop\<rparr>)
              | _ \<Rightarrow> Some s)
           else Some (s\<lparr>main_at := MainInWait\<rparr>))
      | _ \<Rightarrow> None)"

definition signal_wait_end :: "('n, 'd) sched \<Rightarrow> ('n, 'd) sched" where
  "signal_wait_end s = s\<lparr>wait_end := True\<rparr>"

text \<open>\<open>Exit\<close> enters \<open>ReleaseThreads\<close>, which marks the main manager first.\<close>

definition exit_step :: "('n, 'd) sched \<Rightarrow> ('n, 'd) sched option" where
  "exit_step s =
     (if is_released s then Some s
      else case main_at s of
             MainIdle \<Rightarrow> Some ((upd_mgr 0 (set_status kExited) s)\<lparr>main_at := MainMarking 1\<rparr>)
           | MainStarted _ \<Rightarrow> Some ((upd_mgr 0 (set_status kExited) s)\<lparr>main_at := MainMarking 1\<rparr>)
           | _ \<Rightarrow> None)"

text \<open>The whole program: the main thread, every worker and any external thread interleave.\<close>

inductive pstep :: "('n, 'd) node_impl \<Rightarrow> ('n, 'd) sched \<Rightarrow> ('n, 'd) sched \<Rightarrow> bool"
  for b :: "('n, 'd) node_impl" where
  by_start: "main_at s = MainIdle \<Longrightarrow> start ps s = Some s' \<Longrightarrow> pstep b s s'"
| by_create: "main_at s = MainIdle \<or> main_at s = MainStarted kOk \<Longrightarrow>
     create_task_node node nm s = Some s' \<Longrightarrow> pstep b s s'"
| by_main: "main_step b s = Some s' \<Longrightarrow> pstep b s s'"
| by_wait: "enter_wait cb s = Some s' \<Longrightarrow> pstep b s s'"
| by_signal: "pstep b s (signal_wait_end s)"
| by_exit: "exit_step s = Some s' \<Longrightarrow> pstep b s s'"
| by_worker: "worker_step b now i s = Some s' \<Longrightarrow> pstep b s s'"
| by_sender: "send_message d mid dat now s = (ret, logs, s') \<Longrightarrow> pstep b s s'"

inductive reachable :: "('n, 'd) node_impl \<Rightarrow> 'n list \<Rightarrow> ('n, 'd) sched \<Rightarrow> bool"
  for b :: "('n, 'd) node_impl" and ds :: "'n list" where
  init: "reachable b ds (sched_init (map task_node_new ds))"
| step: "reachable b ds s \<Longrightarrow> pstep b s s' \<Longrightarrow> reachable b ds s'"

inductive_cases pstepE: "pstep b s s'"

end
