(* ===== verification/Pipeline_Inv.thy ===== *)
theory Pipeline_Inv
  imports Pipeline
begin

text \<open>
  The invariant of the pipeline runtime over every interleaving of the main thread, the workers and
  external senders, and the properties that rest on it: what a send does, how drops are accounted
  for, and how workers end.
\<close>

section \<open>The invariant\<close>

text \<open>What a worker's position says about the status of its manager.\<close>

fun pc_status_ok :: "'d worker_pc \<Rightarrow> node_status \<Rightarrow> bool" where
  "pc_status_ok NoThread st = (st = kReady)"
| "pc_status_ok AtEntry st = (st = kReady)"
| "pc_status_ok (AfterInit r) st = (st = kReady)"
| "pc_status_ok AtExit st = (st = kExiting)"
| "pc_status_ok Finished st = (st = kExited \<or> st = kError)"
| "pc_status_ok pc st = (st = kRunning \<or> st = kExiting)"

definition queue_ok :: "'d task_node_mgr \<Rightarrow> bool" where
  "queue_ok m = (length (queue (msg_queue m)) \<le> unat kMsgQueueSize \<and>
                 queue_capacity (msg_queue m) = kMsgQueueSize)"

definition owner_ok :: "'n task_node list \<Rightarrow> nat \<Rightarrow> nat option \<Rightarrow> bool" where
  "owner_ok ns i u =
     (case u of None \<Rightarrow> False
      | Some a \<Rightarrow> a < length ns \<and> base_configured (ns ! a) \<and> instance_id (ns ! a) = int i)"

definition slot_ok :: "'n task_node list \<Rightarrow> nat \<Rightarrow> 'd task_node_mgr \<Rightarrow> bool" where
  "slot_ok ns i m =
     (queue_ok m \<and>
      (if i = 0 then user_instance m = None \<and> worker m = NoThread \<and>
                     (status m = kRunning \<or> status m = kExited)
       else owner_ok ns i (user_instance m) \<and> pc_status_ok (worker m) (status m)))"

definition live :: "('n, 'd) sched \<Rightarrow> nat \<Rightarrow> 'd task_node_mgr option" where
  "live s i = (case nth_opt (thread_list s) i of Some (Some m) \<Rightarrow> Some m | _ \<Rightarrow> None)"

definition sched_inv :: "('n, 'd) sched \<Rightarrow> bool" where
  "sched_inv s =
     (thread_list s \<noteq> [] \<and>
      (\<forall>i m. live s i = Some m \<longrightarrow> slot_ok (nodes s) i m) \<and>
      (\<forall>i j m m'. live s i = Some m \<longrightarrow> live s j = Some m' \<longrightarrow> name m = name m' \<longrightarrow>
                  name m \<noteq> [] \<longrightarrow> i = j))"

section \<open>How the state helpers act on live slots\<close>

lemma live_Some_iff:
  "live s i = Some m \<longleftrightarrow> i < length (thread_list s) \<and> thread_list s ! i = Some m"
  by (auto simp: live_def nth_opt_def split: option.splits)

lemma nth_opt_live: "nth_opt (thread_list s) i = Some (Some m) \<longleftrightarrow> live s i = Some m"
  by (auto simp: live_def split: option.splits)

lemma live_upd_mgr [simp]:
  "live (upd_mgr i f s) j = (if j = i then map_option f (live s i) else live s j)"
  by (cases "j = i") (auto simp: live_def upd_mgr_def nth_opt_def split: option.splits)

lemma upd_mgr_frame [simp]:
  "nodes (upd_mgr i f s) = nodes s" "main_at (upd_mgr i f s) = main_at s"
  "is_released (upd_mgr i f s) = is_released s" "wait_end (upd_mgr i f s) = wait_end s"
  "length (thread_list (upd_mgr i f s)) = length (thread_list s)"
  "thread_list (upd_mgr i f s) = [] \<longleftrightarrow> thread_list s = []"
  by (auto simp: upd_mgr_def nth_opt_def split: option.splits)

lemma live_frame [simp]:
  "live (s\<lparr>main_at := x\<rparr>) i = live s i" "live (s\<lparr>wait_end := w\<rparr>) i = live s i"
  "live (s\<lparr>nodes := ns\<rparr>) i = live s i" "live (s\<lparr>is_released := r\<rparr>) i = live s i"
  by (simp_all add: live_def)

lemma live_set_worker [simp]:
  "live (set_worker i pc s) j =
     (if j = i then map_option (\<lambda>m. m\<lparr>worker := pc\<rparr>) (live s i) else live s j)"
  by (simp add: set_worker_def)

lemma set_worker_frame [simp]:
  "nodes (set_worker i pc s) = nodes s" "main_at (set_worker i pc s) = main_at s"
  "is_released (set_worker i pc s) = is_released s" "wait_end (set_worker i pc s) = wait_end s"
  "length (thread_list (set_worker i pc s)) = length (thread_list s)"
  by (simp_all add: set_worker_def)

lemma set_impl_frame [simp]:
  "live (set_impl a d s) i = live s i" "thread_list (set_impl a d s) = thread_list s"
  "main_at (set_impl a d s) = main_at s" "length (nodes (set_impl a d s)) = length (nodes s)"
  "wait_end (set_impl a d s) = wait_end s" "is_released (set_impl a d s) = is_released s"
  by (simp_all add: set_impl_def live_def)

lemma live_release:
  "live (s\<lparr>thread_list := (thread_list s)[i := None]\<rparr>) j = (if j = i then None else live s j)"
  by (cases "j = i") (auto simp: live_def nth_opt_def split: option.splits)

section \<open>Preservation by the helpers\<close>

named_theorems pstep_inv \<open>steps that keep the scheduler invariant\<close>

lemma inv_slot: "sched_inv s \<Longrightarrow> live s i = Some m \<Longrightarrow> slot_ok (nodes s) i m"
  by (simp add: sched_inv_def)

lemma inv_frame [pstep_inv]:
  "sched_inv s \<Longrightarrow> sched_inv (s\<lparr>main_at := x\<rparr>)" "sched_inv s \<Longrightarrow> sched_inv (s\<lparr>wait_end := w\<rparr>)"
  "sched_inv s \<Longrightarrow> sched_inv (s\<lparr>is_released := r\<rparr>)"
  by (simp_all add: sched_inv_def)

lemma inv_upd_mgr:
  assumes "sched_inv s"
    and "\<And>m. live s i = Some m \<Longrightarrow> slot_ok (nodes s) i m \<Longrightarrow>
             slot_ok (nodes s) i (f m) \<and> name (f m) = name m"
  shows "sched_inv (upd_mgr i f s)"
proof -
  have l: "live (upd_mgr i f s) j = Some m' \<Longrightarrow>
     \<exists>m. live s j = Some m \<and> name m' = name m \<and> slot_ok (nodes s) j m'" for j m'
    using assms inv_slot [OF assms(1)] by (auto split: if_splits)
  show ?thesis
    unfolding sched_inv_def
  proof (intro conjI allI impI)
    show "thread_list (upd_mgr i f s) \<noteq> []" using assms(1) by (simp add: sched_inv_def)
    show "slot_ok (nodes (upd_mgr i f s)) j m'" if "live (upd_mgr i f s) j = Some m'" for j m'
      using l [OF that] by auto
    show "j = k" if "live (upd_mgr i f s) j = Some m1" "live (upd_mgr i f s) k = Some m2"
      "name m1 = name m2" "name m1 \<noteq> []" for j k m1 m2
      using l [OF that(1)] l [OF that(2)] that(3,4) assms(1)
      unfolding sched_inv_def by metis
  qed
qed

lemma nodes_set_impl:
  "x < length (nodes s) \<Longrightarrow> base_configured (nodes (set_impl a d s) ! x) = base_configured (nodes s ! x) \<and>
     instance_id (nodes (set_impl a d s) ! x) = instance_id (nodes s ! x)"
  by (cases "x = a") (simp_all add: set_impl_def)

lemma slot_ok_set_impl:
  "slot_ok (nodes (set_impl a d s)) i m = slot_ok (nodes s) i m"
  by (auto simp: slot_ok_def owner_ok_def nodes_set_impl split: option.splits)

lemma inv_set_impl [pstep_inv]: "sched_inv s \<Longrightarrow> sched_inv (set_impl a d s)"
  by (auto simp: sched_inv_def slot_ok_set_impl)

lemma inv_release:
  assumes "sched_inv s"
  shows "sched_inv (s\<lparr>thread_list := (thread_list s)[i := None]\<rparr>)"
  using assms by (auto simp: sched_inv_def live_release)

section \<open>Preservation by the operations\<close>

lemma push_message_frame:
  assumes "push_message msg now m = (ret, logs, m')"
  shows "name m' = name m" "status m' = status m" "worker m' = worker m"
    "user_instance m' = user_instance m"
  using assms
  by (auto simp: push_message_def report_dropped_message_def Let_def
      split: if_splits prod.splits bool.splits)

lemma queue_ok_push: "queue_ok m \<Longrightarrow> push_message msg now m = (ret, logs, m') \<Longrightarrow> queue_ok m'"
  by (auto simp: push_message_def report_dropped_message_def Let_def queue_ok_def tsq_push_def
      split: if_splits prod.splits bool.splits)

lemma pop_message_frame:
  assumes "pop_message m = (r, m')"
  shows "name m' = name m" "status m' = status m" "worker m' = worker m"
    "user_instance m' = user_instance m" "queue_ok m \<Longrightarrow> queue_ok m'"
  using assms by (auto simp: pop_message_def queue_ok_def tsq_pop_def split: list.splits)

lemma slot_ok_push:
  "slot_ok ns i m \<Longrightarrow> push_message msg now m = (ret, logs, m') \<Longrightarrow> slot_ok ns i m'"
  using push_message_frame [of msg now m ret logs m'] queue_ok_push [of m msg now ret logs m']
  by (auto simp: slot_ok_def)

lemma send_message_upd:
  "send_message d mid dat now s = (ret, logs, s') \<Longrightarrow>
   s' = s \<or> s' = upd_mgr (nat d)
     (\<lambda>m. snd (snd (push_message \<lparr>dest = d, msg_id = mid, data = dat\<rparr> now m))) s"
  by (auto simp: send_message_def upd_mgr_def nth_opt_def nat_less_iff
      split: if_splits option.splits prod.splits)

lemma inv_send [pstep_inv]:
  assumes "sched_inv s" "send_message d mid dat now s = (ret, logs, s')"
  shows "sched_inv s'"
  using send_message_upd [OF assms(2)]
  by (auto intro!: inv_upd_mgr assms(1) intro: slot_ok_push push_message_frame
      simp: prod_eq_iff)

lemma inv_set_worker:
  assumes "sched_inv s" "live s i = Some m" "i \<noteq> 0" "pc_status_ok pc (status m)"
  shows "sched_inv (set_worker i pc s)"
  unfolding set_worker_def using assms
  by (intro inv_upd_mgr) (auto simp: slot_ok_def queue_ok_def)

lemma inv_set_worker_status:
  assumes "sched_inv s" "i \<noteq> 0" "pc_status_ok pc st"
  shows "sched_inv (upd_mgr i (\<lambda>m. (set_status st m)\<lparr>worker := pc\<rparr>) s)"
  using assms by (intro inv_upd_mgr) (auto simp: slot_ok_def queue_ok_def set_status_def)

text \<open>A worker that can step is not the main manager's, and it owns a node.\<close>

lemma worker_slot:
  assumes "sched_inv s" "live s i = Some m" "worker m \<noteq> NoThread"
  shows "i \<noteq> 0 \<and> (\<exists>a. user_instance m = Some a) \<and> pc_status_ok (worker m) (status m) \<and> queue_ok m"
  using inv_slot [OF assms(1,2)] assms(3)
  by (auto simp: slot_ok_def owner_ok_def split: if_splits option.splits)

lemma send_message_keeps:
  assumes "send_message d mid dat now s = (ret, logs, s')" "live s i = Some m"
  shows "\<exists>m'. live s' i = Some m' \<and> worker m' = worker m \<and> status m' = status m \<and>
    user_instance m' = user_instance m"
proof -
  obtain r l m'' where p: "push_message \<lparr>dest = d, msg_id = mid, data = dat\<rparr> now m = (r, l, m'')"
    by (metis prod_cases3)
  show ?thesis
    using send_message_upd [OF assms(1)] assms(2) push_message_frame [OF p]
    by (auto simp: p)
qed

lemma inv_worker_step [pstep_inv]:
  assumes "sched_inv s" "worker_step b now i s = Some s'"
  shows "sched_inv s'"
proof -
  obtain m where m: "live s i = Some m"
    using assms(2) by (auto simp: worker_step_def live_def split: option.splits)
  have nw: "worker m \<noteq> NoThread"
    using assms(2) m by (auto simp: worker_step_def nth_opt_live [symmetric] split: option.splits)
  note w = worker_slot [OF assms(1) m nw]
  then obtain a where a: "user_instance m = Some a" by blast
  note st = assms(2) [unfolded worker_step_def, simplified m nth_opt_live [THEN iffD2, OF m], simplified]
  have i: "i \<noteq> 0" and ok: "pc_status_ok (worker m) (status m)" using w by auto
  show ?thesis
  proof (cases "worker m")
    case AtEntry
    then show ?thesis using st a i ok m
      by (auto split: prod.splits intro!: inv_set_worker [where m = m] inv_set_impl assms(1))
  next
    case (AfterInit r)
    then show ?thesis using st i assms(1)
      by (auto split: if_splits intro!: inv_set_worker_status)
  next
    case AtTest
    then show ?thesis using st i ok m assms(1)
      by (auto split: if_splits intro!: inv_set_worker [where m = m])
  next
    case AtPop
    obtain r m' where p: "pop_message m = (r, m')" by (cases "pop_message m")
    have "sched_inv (upd_mgr i (\<lambda>_. m'\<lparr>worker := pc\<rparr>) s)" if "pc_status_ok pc (status m)" for pc
      using pop_message_frame [OF p] that i m ok
      by (intro inv_upd_mgr assms(1)) (auto simp: slot_ok_def queue_ok_def)
    then show ?thesis using st AtPop ok by (auto simp: p split: option.splits)
  next
    case (AtProcess msg)
    then show ?thesis using st a i ok m
      by (auto split: prod.splits intro!: inv_set_worker [where m = m] inv_set_impl assms(1))
  next
    case (AtSends ret xs)
    show ?thesis
    proof (cases xs)
      case Nil
      then show ?thesis using st AtSends i ok m assms(1)
        by (auto intro!: inv_set_worker [where m = m])
    next
      case (Cons x xs')
      obtain r l s1 where sm: "send_message (dest x) (msg_id x) (data x) now s = (r, l, s1)"
        by (metis prod_cases3)
      obtain m' where "live s1 i = Some m'" "status m' = status m"
        using send_message_keeps [OF sm m] by auto
      then show ?thesis using st AtSends Cons i ok inv_send [OF assms(1) sm]
        by (auto simp: sm intro!: inv_set_worker [where m = m'])
    qed
  next
    case AtExit
    then show ?thesis using st i assms(1) by (auto intro!: inv_set_worker_status)
  qed (use st nw in auto)
qed

lemma inv_exit_main: "sched_inv s \<Longrightarrow> sched_inv (upd_mgr 0 (set_status kExited) s)"
  by (intro inv_upd_mgr) (auto simp: slot_ok_def queue_ok_def set_status_def)

lemma inv_main_step [pstep_inv]:
  assumes "sched_inv s" "main_step b s = Some s'" "\<forall>i. main_at s = MainMarking i \<longrightarrow> i \<noteq> 0"
  shows "sched_inv s'"
proof (cases "main_at s")
  case (MainWaiting js)
  then show ?thesis using assms(1,2)
    by (auto simp: main_step_def split: list.splits option.splits intro!: inv_frame)
next
  case MainInWait
  then show ?thesis using assms(1,2)
    by (auto simp: main_step_def split: if_splits intro!: inv_frame inv_exit_main)
next
  case MainInLoop
  have "sched_inv (upd_mgr 0 (\<lambda>_. m') s)"
    if "live s 0 = Some m" "pop_message m = (r, m')" for m m' r
    using pop_message_frame [OF that(2)] that(1)
    by (intro inv_upd_mgr assms(1)) (auto simp: slot_ok_def)
  then show ?thesis using assms(1,2) MainInLoop
    by (auto simp: main_step_def nth_opt_live Let_def
        split: if_splits option.splits prod.splits intro!: inv_frame inv_exit_main)
next
  case (MainMarking i)
  then have "sched_inv (upd_mgr i (\<lambda>m. if status m = kRunning then set_status kExiting m else m) s)"
    using assms(1,3) pc_status_ok.simps
    by (intro inv_upd_mgr) (auto simp: slot_ok_def queue_ok_def set_status_def
        elim!: pc_status_ok.elims)
  then show ?thesis using assms(1,2) MainMarking
    by (auto simp: main_step_def split: if_splits option.splits intro!: inv_frame)
next
  case (MainJoining i)
  then show ?thesis using assms(1,2)
    by (auto simp: main_step_def split: if_splits option.splits intro!: inv_frame inv_release)
qed (use assms in \<open>auto simp: main_step_def\<close>)

text \<open>A new manager: its slot is fresh, its name is unlike every name in use.\<close>

lemma name_unique_in_True:
  "name_unique_in nm ms = Some True \<Longrightarrow> Some m \<in> set ms \<Longrightarrow> name m \<noteq> nm"
  by (induction nm ms rule: name_unique_in.induct) (auto split: if_splits)

lemma create_mgr_cases:
  assumes "create_task_node_mgr node nm s = Some (iid, s')"
  shows "iid = kInvalidInstanceId \<and> s' = s \<or>
    (iid = int (length (thread_list s)) \<and> node < length (nodes s) \<and>
     \<not> base_configured (nodes s ! node) \<and>
     is_node_name_unique nm s = Some True \<and>
     s' = s\<lparr>nodes := (nodes s)[node := snd (base_config iid nm (nodes s ! node))],
            thread_list := thread_list s @ [Some (mgr_new (Some node) nm)]\<rparr>)"
  using assms
  by (auto simp: create_task_node_mgr_def base_config_def task_error_defs Let_def
      split: option.splits bool.splits if_splits prod.splits)

lemma live_append:
  "live (s\<lparr>nodes := ns, thread_list := thread_list s @ [Some m]\<rparr>) j =
     (if j = length (thread_list s) then Some m else live s j)"
  by (auto simp: live_def nth_opt_def nth_append split: option.splits)

lemma slot_ok_new:
  "0 < i \<Longrightarrow> owner_ok ns i (Some a) \<Longrightarrow> slot_ok ns i (mgr_new (Some a) nm)"
  by (simp add: slot_ok_def queue_ok_def mgr_new_def tsq_new_def kMsgQueueSize_def
      kMinQueueCapacity_def word_le_nat_alt)

lemma inv_create_mgr:
  assumes inv: "sched_inv s" and c: "create_task_node_mgr node nm s = Some (iid, s')"
  shows "sched_inv s'"
  using create_mgr_cases [OF c]
proof
  assume "iid = kInvalidInstanceId \<and> s' = s" then show ?thesis using inv by simp
next
  let ?n = "length (thread_list s)"
  assume h: "iid = int ?n \<and> node < length (nodes s) \<and> \<not> base_configured (nodes s ! node) \<and>
     is_node_name_unique nm s = Some True \<and>
     s' = s\<lparr>nodes := (nodes s)[node := snd (base_config iid nm (nodes s ! node))],
            thread_list := thread_list s @ [Some (mgr_new (Some node) nm)]\<rparr>"
  let ?ns = "(nodes s)[node := snd (base_config iid nm (nodes s ! node))]"
  have l: "live s' j = (if j = ?n then Some (mgr_new (Some node) nm) else live s j)" for j
    using h live_append [of s, where ns = ?ns] by simp
  have old: "j < ?n" if "live s j = Some m" for j m using that by (simp add: live_Some_iff)
  have pos: "0 < ?n" using inv by (simp add: sched_inv_def)
  have ok: "slot_ok (nodes s') j m" if "live s j = Some m" for j m
    using inv_slot [OF inv that] h
    by (auto simp: slot_ok_def owner_ok_def nth_list_update split: option.splits if_splits)
  have new: "slot_ok (nodes s') ?n (mgr_new (Some node) nm)"
    using h pos by (intro slot_ok_new) (auto simp: owner_ok_def base_config_def)
  have diff: "name m \<noteq> nm" if "live s j = Some m" "nm \<noteq> []" for j m
    using name_unique_in_True [of nm "thread_list s" m] h that
    by (auto simp: is_node_name_unique_def live_Some_iff in_set_conv_nth)
  show ?thesis
    unfolding sched_inv_def
  proof (intro conjI allI impI)
    show "thread_list s' \<noteq> []" using h by simp
    show "slot_ok (nodes s') j m" if "live s' j = Some m" for j m
      using that ok new by (auto simp: l split: if_splits)
    show "j = k" if "live s' j = Some m1" "live s' k = Some m2" "name m1 = name m2" "name m1 \<noteq> []"
      for j k m1 m2
    proof -
      have inj: "live s j = Some m1 \<Longrightarrow> live s k = Some m2 \<Longrightarrow> j = k"
        using inv that(3,4) unfolding sched_inv_def by blast
      show ?thesis
        using that inj diff [of j m1] diff [of k m2] by (auto simp: l mgr_new_def split: if_splits)
    qed
  qed
qed

lemma inv_create_thread:
  assumes "sched_inv s" "i \<noteq> 0"
  shows "sched_inv (upd_mgr i create_thread s)"
  using assms by (intro inv_upd_mgr) (auto simp: slot_ok_def queue_ok_def create_thread_def)

lemma start_create_ids:
  "start_create ps s = Some (Inr (ps', s')) \<Longrightarrow> sched_inv s \<Longrightarrow>
   sched_inv s' \<and> (\<forall>p \<in> set ps'. 0 < tp_id p)"
proof (induction ps s arbitrary: ps' s' rule: start_create.induct)
  case (2 p ps s)
  obtain iid s1 where c: "create_task_node_mgr (tp_node p) (tp_name p) s = Some (iid, s1)"
    and v: "iid \<noteq> kInvalidInstanceId"
    using "2.prems"(1) by (auto split: option.splits prod.splits if_splits)
  have i1: "sched_inv s1" using inv_create_mgr [OF "2.prems"(2) c] .
  have "0 < iid" using create_mgr_cases [OF c] v "2.prems"(2) by (auto simp: sched_inv_def)
  then show ?case using "2.prems"(1) c v "2.IH" [OF c refl v _ i1]
    by (auto split: option.splits prod.splits sum.splits)
qed simp

lemma start_create_inv:
  "start_create ps s = Some (Inl s') \<Longrightarrow> sched_inv s \<Longrightarrow> sched_inv s'"
proof (induction ps s arbitrary: s' rule: start_create.induct)
  case (2 p ps s)
  obtain iid s1 where c: "create_task_node_mgr (tp_node p) (tp_name p) s = Some (iid, s1)"
    using "2.prems"(1) by (auto split: option.splits)
  have i1: "sched_inv s1" using inv_create_mgr [OF "2.prems"(2) c] .
  show ?case
    using "2.prems"(1) c i1 "2.IH" [OF c refl _ _ i1]
    by (auto split: option.splits prod.splits sum.splits if_splits)
qed simp

lemma start_threads_inv: "sched_inv s \<Longrightarrow> \<forall>i \<in> set js. i \<noteq> 0 \<Longrightarrow> sched_inv (start_threads js s)"
  by (induction js s rule: start_threads.induct) (auto intro: inv_create_thread)

lemma inv_start [pstep_inv]:
  assumes "sched_inv s" "start ps s = Some s'"
  shows "sched_inv s'"
  using assms start_create_inv [OF _ assms(1), of ps] start_create_ids [OF _ assms(1), of ps]
  by (auto simp: start_def Let_def split: option.splits sum.splits prod.splits
      intro!: inv_frame start_threads_inv)

lemma inv_create_node [pstep_inv]:
  assumes "sched_inv s" "create_task_node node nm s = Some s'"
  shows "sched_inv s'"
proof -
  obtain iid s1 where c: "create_task_node_mgr node nm s = Some (iid, s1)"
    using assms(2) by (auto simp: create_task_node_def split: option.splits)
  have i1: "sched_inv s1" using inv_create_mgr [OF assms(1) c] .
  have "iid \<noteq> kInvalidInstanceId \<Longrightarrow> nat iid \<noteq> 0"
    using create_mgr_cases [OF c] assms(1) by (auto simp: sched_inv_def)
  then show ?thesis using assms(2) c i1
    by (auto simp: create_task_node_def Let_def split: if_splits intro!: inv_frame inv_create_thread)
qed

section \<open>Every reachable state\<close>

definition main_ok :: "('n, 'd) sched \<Rightarrow> bool" where
  "main_ok s = (case main_at s of MainMarking i \<Rightarrow> i \<noteq> 0 | _ \<Rightarrow> True)"

lemma send_message_main:
  "send_message d mid dat now s = (ret, logs, s') \<Longrightarrow> main_at s' = main_at s"
  using send_message_upd [of d mid dat now s ret logs s'] by auto

lemma worker_step_shape:
  assumes "worker_step b now i s = Some s'"
  shows "(\<exists>f. s' = upd_mgr i f s) \<or> (\<exists>pc a d. s' = set_worker i pc (set_impl a d s)) \<or>
    (\<exists>pc d mid dat r l s1. send_message d mid dat now s = (r, l, s1) \<and> s' = set_worker i pc s1)"
proof -
  obtain m where m: "nth_opt (thread_list s) i = Some (Some m)"
    using assms by (auto simp: worker_step_def split: option.splits)
  note st = assms [unfolded worker_step_def, simplified m, simplified]
  show ?thesis
  proof (cases "worker m")
    case (AtSends r xs)
    show ?thesis
    proof (cases xs)
      case Nil
      then show ?thesis using st AtSends by (auto simp: set_worker_def)
    next
      case (Cons x xs')
      then show ?thesis using st AtSends by (auto split: prod.splits) blast
    qed
  qed (use st in \<open>auto simp: set_worker_def Let_def split: option.splits prod.splits if_splits\<close>)
qed

lemma worker_step_main: "worker_step b now i s = Some s' \<Longrightarrow> main_at s' = main_at s"
  using worker_step_shape [of b now i s s'] by (auto dest: send_message_main)

lemma main_step_ok: "main_step b s = Some s' \<Longrightarrow> main_ok s'"
  by (auto simp: main_step_def main_ok_def Let_def
      split: main_pc.splits option.splits if_splits list.splits prod.splits)

lemma create_task_node_main:
  assumes "create_task_node node nm s = Some s'"
  shows "main_at s' = main_at s \<or> (\<exists>js. main_at s' = MainWaiting js)"
proof -
  obtain iid s1 where c: "create_task_node_mgr node nm s = Some (iid, s1)"
    using assms by (auto simp: create_task_node_def split: option.splits)
  have "main_at s1 = main_at s" using create_mgr_cases [OF c] by auto
  then show ?thesis using assms c by (auto simp: create_task_node_def Let_def split: if_splits)
qed

lemma inv_pstep:
  assumes "pstep b s s'" "sched_inv s" "main_ok s"
  shows "sched_inv s' \<and> main_ok s'"
  using assms(1)
proof (cases rule: pstep.cases)
  case (by_start ps)
  then show ?thesis using inv_start [OF assms(2) by_start(2)]
    by (auto simp: start_def main_ok_def Let_def split: option.splits sum.splits)
next
  case (by_create node nm)
  then show ?thesis using inv_create_node [OF assms(2) by_create(2)] assms(3)
      create_task_node_main [OF by_create(2)]
    by (auto simp: main_ok_def)
next
  case by_main
  then show ?thesis
    using inv_main_step [OF assms(2) by_main] main_step_ok [OF by_main] assms(3)
    by (cases "main_at s") (auto simp: main_ok_def)
next
  case (by_wait cb)
  then show ?thesis using assms(2,3)
    by (auto simp: enter_wait_def main_ok_def split: main_pc.splits if_splits option.splits
        intro!: inv_frame)
next
  case by_signal
  then show ?thesis using assms(2,3)
    by (auto simp: signal_wait_end_def main_ok_def split: main_pc.splits intro!: inv_frame)
next
  case by_exit
  then show ?thesis using assms(2,3)
    by (auto simp: exit_step_def main_ok_def split: if_splits main_pc.splits
        intro!: inv_frame inv_exit_main)
next
  case (by_worker now i)
  then show ?thesis using inv_worker_step [OF assms(2) by_worker] worker_step_main [OF by_worker]
      assms(3) by (simp add: main_ok_def)
next
  case (by_sender d mid dat now ret logs)
  then show ?thesis using inv_send [OF assms(2) by_sender] send_message_main [OF by_sender] assms(3)
    by (simp add: main_ok_def)
qed

lemma inv_init: "sched_inv (sched_init ns)"
  by (auto simp: sched_inv_def sched_init_def live_def nth_opt_def slot_ok_def queue_ok_def
      set_status_def mgr_new_def tsq_new_def kMsgQueueSize_def kMinQueueCapacity_def
      word_le_nat_alt split: if_splits)

lemma reachable_inv: "reachable b ds s \<Longrightarrow> sched_inv s \<and> main_ok s"
proof (induction rule: reachable.induct)
  case init
  then show ?case using inv_init by (auto simp: main_ok_def sched_init_def)
next
  case (step s s')
  then show ?case using inv_pstep by blast
qed

section \<open>The life cycle of a slot\<close>

text \<open>The abstract life cycle that a worker's manager promises: position and status, nothing else.
  \<open>own_step\<close> holds the steps of the worker itself; the main thread spawns and marks.\<close>

inductive own_step ::
    "'d worker_pc \<times> node_status \<Rightarrow> 'd worker_pc \<times> node_status \<Rightarrow> bool" where
  inited: "own_step (AtEntry, kReady) (AfterInit r, kReady)"
| init_failed: "r \<noteq> 0 \<Longrightarrow> own_step (AfterInit r, kReady) (Finished, kError)"
| running: "own_step (AfterInit 0, kReady) (AtTest, kRunning)"
| loop_on: "own_step (AtTest, kRunning) (AtPop, kRunning)"
| loop_off: "own_step (AtTest, kExiting) (AtExit, kExiting)"
| idle: "own_step (AtPop, st) (AtTest, st)"
| popped: "own_step (AtPop, st) (AtProcess msg, st)"
| processed: "own_step (AtProcess msg, st) (AtSends r xs, st)"
| sent: "own_step (AtSends r (x # xs), st) (AtSends r xs, st)"
| next_round: "own_step (AtSends r [], st) (AtTest, st)"
| exited: "own_step (AtExit, kExiting) (Finished, kExited)"

inductive slot_step ::
    "'d worker_pc \<times> node_status \<Rightarrow> 'd worker_pc \<times> node_status \<Rightarrow> bool" where
  own: "own_step v v' \<Longrightarrow> slot_step v v'"
| spawned: "slot_step (NoThread, kReady) (AtEntry, kReady)"
| marked: "slot_step (pc, kRunning) (pc, kExiting)"

inductive_cases own_stepE: "own_step (pc, st) (pc', st')"
inductive_cases slot_stepE: "slot_step (pc, st) (pc', st')"

abbreviation view :: "'d task_node_mgr \<Rightarrow> 'd worker_pc \<times> node_status" where
  "view m \<equiv> (worker m, status m)"

lemma worker_step_other:
  assumes "worker_step b now i s = Some s'" "live s j = Some m" "j \<noteq> i"
  shows "\<exists>m'. live s' j = Some m' \<and> view m' = view m"
  using worker_step_shape [OF assms(1)] assms(2,3) by (fastforce dest: send_message_keeps)

lemma worker_step_own:
  assumes "sched_inv s" "worker_step b now i s = Some s'" "live s i = Some m"
  shows "\<exists>m'. live s' i = Some m' \<and> own_step (view m) (view m')"
proof -
  have nw: "worker m \<noteq> NoThread"
    using assms(2,3) by (auto simp: worker_step_def nth_opt_live [symmetric] split: option.splits)
  note ws = worker_slot [OF assms(1,3) nw]
  then obtain a where a: "user_instance m = Some a" by blast
  have ok: "pc_status_ok (worker m) (status m)" using ws by auto
  note st = assms(2) [unfolded worker_step_def, simplified nth_opt_live [THEN iffD2, OF assms(3)], simplified]
  show ?thesis
  proof (cases "worker m")
    case AtPop
    obtain r m' where p: "pop_message m = (r, m')" by (cases "pop_message m")
    show ?thesis using st AtPop assms(3) pop_message_frame(2) [OF p]
      by (auto simp: p split: option.splits intro: own_step.intros)
  next
    case (AtSends r xs)
    show ?thesis
    proof (cases xs)
      case Nil
      then show ?thesis using st AtSends assms(3) by (auto intro: own_step.intros)
    next
      case (Cons x xs')
      obtain r' l s1 where sm: "send_message (dest x) (msg_id x) (data x) now s = (r', l, s1)"
        by (metis prod_cases3)
      obtain m' where "live s1 i = Some m'" "status m' = status m"
        using send_message_keeps [OF sm assms(3)] by auto
      then show ?thesis using st AtSends Cons by (auto simp: sm intro: own_step.intros)
    qed
  qed (use st ok assms(3) a in \<open>auto simp: Let_def set_status_def
        split: option.splits prod.splits if_splits intro: own_step.intros\<close>)
qed

text \<open>One step of the whole program on one slot: the slot's manager is freed after a join, or it
  makes a step of its life cycle, or the step leaves its view alone.\<close>

lemma create_mgr_live:
  assumes "create_task_node_mgr node nm s = Some (iid, s')" "live s i = Some m"
  shows "live s' i = Some m"
proof -
  have "i < length (thread_list s)" using assms(2) by (simp add: live_Some_iff)
  then show ?thesis
    using create_mgr_cases [OF assms(1)] assms(2) by (auto simp: live_append)
qed

lemma start_create_live:
  "start_create ps s = Some r \<Longrightarrow> live s i = Some m \<Longrightarrow>
   (\<forall>s'. r = Inl s' \<longrightarrow> live s' i = Some m) \<and> (\<forall>ps' s'. r = Inr (ps', s') \<longrightarrow> live s' i = Some m)"
proof (induction ps s arbitrary: r rule: start_create.induct)
  case (2 p ps s)
  obtain iid s1 where c: "create_task_node_mgr (tp_node p) (tp_name p) s = Some (iid, s1)"
    using "2.prems"(1) by (auto split: option.splits)
  have l: "live s1 i = Some m" using create_mgr_live [OF c "2.prems"(2)] .
  show ?case
  proof (cases "iid = kInvalidInstanceId")
    case True
    then show ?thesis using "2.prems"(1) c l by auto
  next
    case False
    then obtain r2 where r2: "start_create ps s1 = Some r2"
      using "2.prems"(1) c by (auto split: option.splits)
    have "(\<forall>s'. r2 = Inl s' \<longrightarrow> live s' i = Some m) \<and>
          (\<forall>ps' s'. r2 = Inr (ps', s') \<longrightarrow> live s' i = Some m)"
      using "2.IH" [OF c refl False r2 l] .
    then show ?thesis using "2.prems"(1) c False r2 by (auto split: sum.splits prod.splits)
  qed
qed simp

definition moved :: "'d task_node_mgr \<Rightarrow> 'd task_node_mgr \<Rightarrow> bool" where
  "moved m m' = (view m' = view m \<or> slot_step (view m) (view m'))"

lemma moved_refl [simp]: "moved m m" by (simp add: moved_def)

lemma create_thread_view:
  "pc_status_ok (worker m) (status m) \<Longrightarrow> moved m (create_thread m)"
  by (auto simp: moved_def create_thread_def intro: slot_step.intros)

lemma create_thread_fixed: "worker m \<noteq> NoThread \<Longrightarrow> create_thread m = m"
  by (simp add: create_thread_def)

lemma create_thread_idem [simp]: "create_thread (create_thread m) = create_thread m"
  by (simp add: create_thread_def)

lemma start_threads_live:
  "live s i = Some m \<Longrightarrow>
   \<exists>m'. live (start_threads js s) i = Some m' \<and> (m' = m \<or> m' = create_thread m)"
proof (induction js s arbitrary: m rule: start_threads.induct)
  case (2 j js s)
  have "live (upd_mgr j create_thread s) i = Some (if i = j then create_thread m else m)"
    using "2.prems" by auto
  from "2.IH" [OF this] show ?case by (auto split: if_splits)
qed simp

lemma start_threads_main [simp]: "main_at (start_threads js s) = main_at s"
  by (induction js s rule: start_threads.induct) simp_all

lemma live_pc_ok:
  "sched_inv s \<Longrightarrow> live s i = Some m \<Longrightarrow> i \<noteq> 0 \<Longrightarrow> pc_status_ok (worker m) (status m)"
  using inv_slot [of s i m] by (simp add: slot_ok_def)

lemma main_step_slot:
  assumes "sched_inv s" "main_step b s = Some s'" "live s i = Some m" "i \<noteq> 0"
  shows "live s' i = None \<and> can_join m \<and> main_at s = MainJoining i \<or>
    (\<exists>m'. live s' i = Some m' \<and> moved m m')"
proof (cases "main_at s")
  case (MainMarking k)
  have "moved m (if status m = kRunning then set_status kExiting m else m)"
    by (auto simp: moved_def set_status_def intro: slot_step.intros)
  then show ?thesis using assms(2,3) MainMarking
    by (cases "i = k") (auto simp: main_step_def split: if_splits option.splits)
next
  case (MainJoining k)
  have "thread_list s ! i = Some m" using assms(3) by (simp add: live_Some_iff)
  then show ?thesis using assms(2-4) MainJoining
    by (auto simp: main_step_def live_release split: if_splits option.splits)
qed (use assms in \<open>auto simp: main_step_def Let_def split: if_splits option.splits list.splits prod.splits\<close>)

lemma pstep_slot:
  assumes "pstep b s s'" "sched_inv s" "live s i = Some m" "i \<noteq> 0"
  shows "live s' i = None \<and> can_join m \<and> main_at s = MainJoining i \<or>
    (\<exists>m'. live s' i = Some m' \<and> moved m m')"
  using assms(1)
proof (cases rule: pstep.cases)
  case (by_start ps)
  obtain r where r: "start_create ps s = Some r"
    using by_start(2) by (auto simp: start_def split: option.splits)
  note l = start_create_live [OF r assms(3)] and pc = live_pc_ok [OF assms(2,3,4)]
  show ?thesis
  proof (cases r)
    case (Inl s1)
    then show ?thesis using by_start(2) r l by (auto simp: start_def)
  next
    case (Inr q)
    then obtain ps' s1 where q: "r = Inr (ps', s1)" by (cases q) auto
    obtain m' where m': "live (start_threads (map (\<lambda>p. nat (tp_id p)) ps') s1) i = Some m'"
      "m' = m \<or> m' = create_thread m"
      using start_threads_live [of s1 i m "map (\<lambda>p. nat (tp_id p)) ps'"] l q by auto
    have "live s' i = Some m'" using by_start(2) r q m'(1) by (auto simp: start_def Let_def)
    then show ?thesis using m'(2) create_thread_view [OF pc] by auto
  qed
next
  case (by_create node nm)
  obtain iid s1 where c: "create_task_node_mgr node nm s = Some (iid, s1)"
    using by_create(2) by (auto simp: create_task_node_def split: option.splits)
  have l: "live s1 i = Some m" using create_mgr_live [OF c assms(3)] .
  have "live s' i = Some m \<or> live s' i = Some (create_thread m)"
  proof (cases "iid = kInvalidInstanceId")
    case True
    then show ?thesis using by_create(2) c l by (simp add: create_task_node_def)
  next
    case False
    then have "s' = (upd_mgr (nat iid) create_thread s1)\<lparr>main_at := MainWaiting [nat iid]\<rparr>"
      using by_create(2) c by (simp add: create_task_node_def)
    then show ?thesis using l by (cases "i = nat iid") auto
  qed
  then show ?thesis using create_thread_view [OF live_pc_ok [OF assms(2-4)]] by auto
next
  case by_main
  then show ?thesis using main_step_slot [OF assms(2) by_main assms(3,4)] by blast
next
  case (by_wait cb)
  then show ?thesis using assms(3)
    by (auto simp: enter_wait_def split: main_pc.splits if_splits option.splits)
next
  case by_signal
  then show ?thesis using assms(3) by (simp add: signal_wait_end_def)
next
  case by_exit
  then show ?thesis using assms(3,4) by (auto simp: exit_step_def split: if_splits main_pc.splits)
next
  case (by_worker now j)
  then show ?thesis
    using worker_step_own [OF assms(2), of b now i s' m] assms(3)
      worker_step_other [OF by_worker assms(3)]
    by (cases "i = j") (auto simp: moved_def intro: slot_step.own)
next
  case (by_sender d mid dat now ret logs)
  then show ?thesis using send_message_keeps [OF by_sender assms(3)] by (auto simp: moved_def)
qed

section \<open>Consequences of the life cycle\<close>

lemma slot_step_status_mono: "slot_step (pc, st) (pc', st') \<Longrightarrow> st \<le> st'"
  by (auto elim!: slot_stepE own_stepE simp: less_eq_node_status_def)

text \<open>How far a marked worker is from its end: the position in the loop, then the messages that the
  current call has still to send.\<close>

fun drain_rank :: "'d worker_pc \<Rightarrow> nat \<times> nat" where
  "drain_rank AtPop = (4, 0)"
| "drain_rank (AtProcess msg) = (3, 0)"
| "drain_rank (AtSends r xs) = (2, length xs)"
| "drain_rank AtTest = (1, 0)"
| "drain_rank AtExit = (0, 1)"
| "drain_rank pc = (0, 0)"

definition drain_order :: "((nat \<times> nat) \<times> (nat \<times> nat)) set" where
  "drain_order = less_than <*lex*> less_than"

lemma wf_drain_order: "wf drain_order"
  by (simp add: drain_order_def wf_lex_prod)

lemma slot_step_drains:
  "slot_step (pc, kExiting) (pc', st') \<Longrightarrow>
   (drain_rank pc', drain_rank pc) \<in> drain_order \<and> (st' = kExiting \<or> pc' = Finished)"
  by (auto elim!: slot_stepE own_stepE simp: drain_order_def)

lemma worker_step_enabled:
  assumes "sched_inv s" "live s i = Some m" "worker m \<noteq> NoThread" "worker m \<noteq> Finished"
  shows "\<exists>s'. worker_step b now i s = Some s'"
proof -
  obtain a where a: "user_instance m = Some a" using worker_slot [OF assms(1-3)] by blast
  show ?thesis using assms(3,4) a nth_opt_live [THEN iffD2, OF assms(2)]
    by (cases "worker m")
      (auto simp: worker_step_def Let_def split: option.splits prod.splits list.splits)
qed

lemma own_step_running: "own_step (pc, kRunning) (pc', st') \<Longrightarrow> pc_status_ok pc kRunning \<Longrightarrow> st' = kRunning"
  by (auto elim!: own_stepE)

lemma blocked_join_step:
  assumes "pstep b s s'" "sched_inv s" "main_at s = MainJoining k" "main_step b s = None"
    "live s i = Some m" "i \<noteq> 0" "status m = kRunning"
  shows "main_at s' = MainJoining k \<and> (\<exists>m'. live s' i = Some m' \<and> status m' = kRunning)"
  using assms(1)
proof (cases rule: pstep.cases)
  case by_exit
  then show ?thesis using assms by (auto simp: exit_step_def split: if_splits)
next
  case (by_worker now j)
  show ?thesis
  proof (cases "i = j")
    case True
    then obtain m' where "live s' i = Some m'" "own_step (view m) (view m')"
      using worker_step_own [OF assms(2), of b now i s' m] by_worker assms(5) by blast
    then show ?thesis
      using own_step_running [of "worker m" "worker m'" "status m'"] worker_step_main [OF by_worker]
        live_pc_ok [OF assms(2,5,6)] assms(3,7) by auto
  next
    case False
    then show ?thesis
      using worker_step_other [OF by_worker assms(5)] worker_step_main [OF by_worker] assms by auto
  qed
next
  case (by_sender d mid dat now ret logs)
  then show ?thesis
    using send_message_keeps [OF by_sender assms(5)] send_message_main [OF by_sender] assms by auto
qed (use assms in \<open>auto simp: enter_wait_def signal_wait_end_def split: main_pc.splits\<close>)

section \<open>A manager under load\<close>

text \<open>Any sequence of pushes (with the time of each) and pops on one running manager: the results
  of the pushes, the messages accepted and popped, and the log lines with their times.\<close>

record 'd load_result =
  results :: "task_error list"
  accepted :: "'d task_message list"
  popped :: "'d task_message list"
  log_lines :: "(time_point \<times> drop_log) list"

fun under_load ::
    "('d task_message \<times> time_point + unit) list \<Rightarrow> 'd task_node_mgr \<Rightarrow>
     'd load_result \<times> 'd task_node_mgr" where
  "under_load [] m = (\<lparr>results = [], accepted = [], popped = [], log_lines = []\<rparr>, m)"
| "under_load (Inl (msg, now) # evs) m =
     (let (ret, logs, m1) = push_message msg now m; (r, m2) = under_load evs m1
      in (r\<lparr>results := ret # results r,
            accepted := (if ret = kOk then msg # accepted r else accepted r),
            log_lines := map (Pair now) logs @ log_lines r\<rparr>, m2))"
| "under_load (Inr u # evs) m =
     (let (x, m1) = pop_message m; (r, m2) = under_load evs m1
      in (r\<lparr>popped := (case x of None \<Rightarrow> popped r | Some msg \<Rightarrow> msg # popped r)\<rparr>, m2))"

text \<open>The number of drops a log line speaks for.\<close>

fun drops_of :: "time_point \<times> drop_log \<Rightarrow> u64" where
  "drops_of (t, FirstDrop mid) = 1"
| "drops_of (t, DropSummary n secs tot) = n"

definition log_gap :: "time_point \<times> drop_log \<Rightarrow> time_point \<times> drop_log \<Rightarrow> bool" where
  "log_gap x y = (fst x + kDropLogInterval \<le> fst y)"

text \<open>One push on a running manager, case by case.\<close>

lemma push_message_running:
  assumes "status m = kRunning" "push_message msg now m = (ret, logs, m')"
  shows "(ret = kOk \<and> logs = [] \<and> length (queue (msg_queue m)) < unat (queue_capacity (msg_queue m)) \<and>
      m' = m\<lparr>msg_queue := (msg_queue m)\<lparr>queue := queue (msg_queue m) @ [msg]\<rparr>\<rparr>) \<or>
    (ret = kEnqueue \<and> report_dropped_message (msg_id msg) now m = (logs, m') \<and>
      \<not> length (queue (msg_queue m)) < unat (queue_capacity (msg_queue m)))"
  using assms by (auto simp: push_message_def tsq_push_def split: if_splits prod.splits)

lemma report_dropped_cases:
  assumes "report_dropped_message mid now m = (logs, m')"
  shows "dropped_total m' = dropped_total m + 1" "status m' = status m" "msg_queue m' = msg_queue m"
    "first_drop_reported m'"
    "sum_list (map (\<lambda>l. drops_of (now, l)) logs) + dropped_in_window m' =
       (if first_drop_reported m then dropped_in_window m + 1 else 1)"
    "logs = [] \<and> last_drop_log m' = last_drop_log m \<and> first_drop_reported m \<or>
     (\<exists>l. logs = [l]) \<and> last_drop_log m' = now \<and>
       (first_drop_reported m \<longrightarrow> last_drop_log m + kDropLogInterval \<le> now)"
  using assms
  by (auto simp: report_dropped_message_def Let_def split: if_splits)

lemma under_load_status: "under_load evs m = (r, m') \<Longrightarrow> status m' = status m"
proof (induction evs m arbitrary: r m' rule: under_load.induct)
  case (2 msg now evs m)
  then show ?case using push_message_frame(2)
    by (fastforce simp: Let_def split: prod.splits)
next
  case (3 u evs m)
  then show ?case using pop_message_frame(2)
    by (fastforce simp: Let_def split: prod.splits)
qed simp

lemma under_load_history:
  "under_load evs m = (r, m') \<Longrightarrow> status m = kRunning \<Longrightarrow>
   queue (msg_queue m) @ accepted r = popped r @ queue (msg_queue m') \<and>
   dropped_total m' = dropped_total m + of_nat (count_list (results r) kEnqueue) \<and>
   length (results r) = length (accepted r) + count_list (results r) kEnqueue"
proof (induction evs m arbitrary: r m' rule: under_load.induct)
  case (2 msg now evs m)
  obtain ret logs m1 where p: "push_message msg now m = (ret, logs, m1)" by (metis prod_cases3)
  obtain r2 m2 where u: "under_load evs m1 = (r2, m2)" by (cases "under_load evs m1")
  have ih: "queue (msg_queue m1) @ accepted r2 = popped r2 @ queue (msg_queue m2) \<and>
      dropped_total m2 = dropped_total m1 + of_nat (count_list (results r2) kEnqueue) \<and>
      length (results r2) = length (accepted r2) + count_list (results r2) kEnqueue"
    using "2.IH" [OF p [symmetric] refl refl u] push_message_frame(2) [OF p] "2.prems"(2) by simp
  show ?case
    using ih "2.prems" p u push_message_running [OF "2.prems"(2) p]
      report_dropped_cases [of "msg_id msg" now m logs m1]
    by (auto simp: task_error_defs)
next
  case (3 u evs m)
  obtain x m1 where p: "pop_message m = (x, m1)" by (cases "pop_message m")
  obtain r2 m2 where u: "under_load evs m1 = (r2, m2)" by (cases "under_load evs m1")
  have ih: "queue (msg_queue m1) @ accepted r2 = popped r2 @ queue (msg_queue m2) \<and>
      dropped_total m2 = dropped_total m1 + of_nat (count_list (results r2) kEnqueue) \<and>
      length (results r2) = length (accepted r2) + count_list (results r2) kEnqueue"
    using "3.IH" [OF p [symmetric] refl u] pop_message_frame(2) [OF p] "3.prems"(2) by simp
  have "queue (msg_queue m) = (case x of None \<Rightarrow> [] | Some w \<Rightarrow> [w]) @ queue (msg_queue m1)"
    and "dropped_total m1 = dropped_total m"
    using p tsq.pop_items [of "msg_queue m"] by (auto simp: pop_message_def split: prod.splits)
  then show ?case using ih "3.prems"(1) p u by (auto split: option.splits)
qed simp

lemma under_load_logs:
  "under_load evs m = (r, m') \<Longrightarrow> status m = kRunning \<Longrightarrow>
   (first_drop_reported m \<or> dropped_in_window m = 0) \<Longrightarrow>
   sum_list (map drops_of (log_lines r)) + dropped_in_window m' =
     dropped_in_window m + of_nat (count_list (results r) kEnqueue) \<and>
   sorted_wrt log_gap (log_lines r) \<and>
   (first_drop_reported m \<longrightarrow>
      (\<forall>x \<in> set (log_lines r). last_drop_log m + kDropLogInterval \<le> fst x))"
proof (induction evs m arbitrary: r m' rule: under_load.induct)
  case (2 msg now evs m)
  obtain ret logs m1 where p: "push_message msg now m = (ret, logs, m1)" by (metis prod_cases3)
  obtain r2 m2 where u: "under_load evs m1 = (r2, m2)" by (cases "under_load evs m1")
  note ih = "2.IH" [OF p [symmetric] refl refl u]
  have rr: "r = r2\<lparr>results := ret # results r2,
        accepted := (if ret = kOk then msg # accepted r2 else accepted r2),
        log_lines := map (Pair now) logs @ log_lines r2\<rparr>" "m' = m2"
    using "2.prems"(1) p u by auto
  from push_message_running [OF "2.prems"(2) p] show ?case
  proof (elim disjE conjE)
    assume "ret = kOk" "logs = []"
      "m1 = m\<lparr>msg_queue := (msg_queue m)\<lparr>queue := queue (msg_queue m) @ [msg]\<rparr>\<rparr>"
    then show ?thesis using ih "2.prems" rr by (simp add: task_error_defs)
  next
    assume k: "ret = kEnqueue" and rep: "report_dropped_message (msg_id msg) now m = (logs, m1)"
    note c = report_dropped_cases [OF rep]
    have i: "sum_list (map drops_of (log_lines r2)) + dropped_in_window m2 =
        dropped_in_window m1 + of_nat (count_list (results r2) kEnqueue)"
      "sorted_wrt log_gap (log_lines r2)"
      "\<forall>x \<in> set (log_lines r2). last_drop_log m1 + kDropLogInterval \<le> fst x"
      using ih c(2,4) "2.prems"(2) by auto
    have "sum_list (map drops_of (log_lines r)) + dropped_in_window m' =
        dropped_in_window m + of_nat (count_list (results r) kEnqueue)"
    proof -
      let ?L = "sum_list (map (\<lambda>l. drops_of (now, l)) logs)"
      have l: "?L + dropped_in_window m1 = dropped_in_window m + 1"
        using c(5) "2.prems"(3) by (auto split: if_splits)
      have "sum_list (map drops_of (log_lines r)) + dropped_in_window m' =
          ?L + (sum_list (map drops_of (log_lines r2)) + dropped_in_window m2)"
        using rr by (simp add: o_def add.assoc)
      also have "\<dots> = (?L + dropped_in_window m1) + of_nat (count_list (results r2) kEnqueue)"
        using i(1) by (simp add: add.assoc)
      finally show ?thesis using l rr k by (simp add: add.assoc)
    qed
    moreover from c(6) have "sorted_wrt log_gap (log_lines r) \<and>
        (first_drop_reported m \<longrightarrow>
          (\<forall>x \<in> set (log_lines r). last_drop_log m + kDropLogInterval \<le> fst x))"
    proof
      assume "logs = [] \<and> last_drop_log m1 = last_drop_log m \<and> first_drop_reported m"
      then show ?thesis using i(2,3) rr by simp
    next
      assume h: "(\<exists>l. logs = [l]) \<and> last_drop_log m1 = now \<and>
        (first_drop_reported m \<longrightarrow> last_drop_log m + kDropLogInterval \<le> now)"
      then obtain l where l: "log_lines r = (now, l) # log_lines r2" using rr by auto
      have "0 \<le> kDropLogInterval" by (simp add: kDropLogInterval_def)
      then show ?thesis using i(2,3) h by (fastforce simp: l log_gap_def)
    qed
    ultimately show ?thesis by blast
  qed
next
  case (3 u evs m)
  obtain x m1 where p: "pop_message m = (x, m1)" by (cases "pop_message m")
  obtain r2 m2 where u: "under_load evs m1 = (r2, m2)" by (cases "under_load evs m1")
  have "status m1 = status m" "first_drop_reported m1 = first_drop_reported m"
    "dropped_in_window m1 = dropped_in_window m" "last_drop_log m1 = last_drop_log m"
    using p by (auto simp: pop_message_def split: prod.splits)
  then show ?case using "3.IH" [OF p [symmetric] refl u] "3.prems" p u by (auto split: option.splits)
qed simp

section \<open>Executable schedules\<close>

text \<open>A schedule fixes who moves next, so that concrete runs evaluate.\<close>

datatype 'd event =
    DoStart "task_node_param list"
  | DoMain
  | DoExit
  | DoWorker nat time_point
  | DoSend int int "'d option" time_point

fun exec_event :: "('n, 'd) node_impl \<Rightarrow> 'd event \<Rightarrow> ('n, 'd) sched \<Rightarrow> ('n, 'd) sched option" where
  "exec_event b (DoStart ps) s = (if main_at s = MainIdle then start ps s else None)"
| "exec_event b DoMain s = main_step b s"
| "exec_event b DoExit s = exit_step s"
| "exec_event b (DoWorker i now) s = worker_step b now i s"
| "exec_event b (DoSend d mid dat now) s = Some (snd (snd (send_message d mid dat now s)))"

fun exec_all :: "('n, 'd) node_impl \<Rightarrow> 'd event list \<Rightarrow> ('n, 'd) sched \<Rightarrow> ('n, 'd) sched option" where
  "exec_all b [] s = Some s"
| "exec_all b (e # es) s = (case exec_event b e s of None \<Rightarrow> None | Some s' \<Rightarrow> exec_all b es s')"

lemma exec_event_pstep: "exec_event b e s = Some s' \<Longrightarrow> pstep b s s'"
proof (cases e)
  case (DoSend d mid dat now)
  assume "exec_event b e s = Some s'"
  then show ?thesis using DoSend
    by (auto intro!: by_sender [of d mid dat now s "fst (send_message d mid dat now s)"
          "fst (snd (send_message d mid dat now s))"])
qed (auto intro: pstep.intros split: if_splits)

lemma exec_all_reachable: "exec_all b es s = Some s' \<Longrightarrow> reachable b ds s \<Longrightarrow> reachable b ds s'"
  by (induction es arbitrary: s)
    (auto split: option.splits dest: exec_event_pstep intro: reachable.step)

text \<open>A program of two nodes: the state of each is the code its \<open>Init\<close> returns, and \<open>Process\<close> passes a
  message on to the other node. In the first schedule the first node fails, so \<open>Start\<close> gives up
  and the program exits while the second node is still in \<open>Init\<close>; in the second one both start, a
  message is on its way, and the program exits.\<close>

definition demo_impl :: "(int, nat) node_impl" where
  "demo_impl = \<lparr>on_init = \<lambda>ids n. (n, n), on_process = \<lambda>i d n. (0, n, [\<lparr>dest = 2, msg_id = i, data = d\<rparr>]),
                on_main = \<lambda>i d. 0\<rparr>"

definition demo_params :: "task_node_param list" where
  "demo_params = [\<lparr>tp_node = 0, tp_name = ''a'', tp_id = 0\<rparr>, \<lparr>tp_node = 1, tp_name = ''b'', tp_id = 0\<rparr>]"

definition late_events :: "nat event list" where
  "late_events = [DoStart demo_params, DoWorker 2 0, DoWorker 1 0, DoWorker 1 0, DoMain, DoExit,
     DoMain, DoMain, DoMain, DoMain, DoWorker 2 0]"

definition drain_events :: "nat event list" where
  "drain_events = [DoStart demo_params, DoWorker 1 0, DoWorker 1 0, DoWorker 2 0, DoWorker 2 0,
     DoMain, DoMain, DoMain, DoSend 1 7 (Some 5) 0, DoWorker 1 0, DoWorker 1 0, DoExit, DoMain]"

definition demo_init :: "int \<Rightarrow> (int, nat) sched" where
  "demo_init k = sched_init (map task_node_new [k, 0])"

definition demo_mgr :: "nat \<Rightarrow> string \<Rightarrow> node_status \<Rightarrow> nat worker_pc \<Rightarrow> nat task_node_mgr" where
  "demo_mgr a nm st pc = (mgr_new (Some a) nm)\<lparr>status := st, worker := pc\<rparr>"

definition late_state :: "(int, nat) sched" where
  "late_state = the (exec_all demo_impl late_events (demo_init 1))"

definition drain_state :: "(int, nat) sched" where
  "drain_state = the (exec_all demo_impl drain_events (demo_init 0))"

lemma late_run: "exec_all demo_impl late_events (demo_init 1) = Some late_state"
  "main_at late_state = MainJoining 2" "live late_state 2 = Some (demo_mgr 1 ''b'' kRunning AtTest)"
  by code_simp+

lemma drain_run: "exec_all demo_impl drain_events (demo_init 0) = Some drain_state"
  "main_at drain_state = MainMarking 2"
  "live drain_state 1 = Some (demo_mgr 0 ''a'' kExiting (AtProcess \<lparr>dest = 1, msg_id = 7, data = Some 5\<rparr>))"
  by code_simp+

lemma demo_init_reachable: "reachable b [k, 0] (demo_init k)"
  unfolding demo_init_def by (rule reachable.init)

lemma demo_reachable:
  "reachable demo_impl [1, 0] late_state" "reachable demo_impl [0, 0] drain_state"
  using exec_all_reachable [OF late_run(1) demo_init_reachable]
    exec_all_reachable [OF drain_run(1) demo_init_reachable]
  by simp_all

definition load_demo :: "(nat task_message \<times> time_point + unit) list" where
  "load_demo = [Inl (\<lparr>dest = 1, msg_id = 4, data = Some 8\<rparr>, 0), Inr (),
     Inl (\<lparr>dest = 1, msg_id = 5, data = None\<rparr>, 10), Inl (\<lparr>dest = 1, msg_id = 6, data = None\<rparr>, 20)]"

section \<open>Properties\<close>

text \<open>C1. The invariant of the runtime: in every state that any interleaving of \<open>Start\<close>,
  \<open>CreateTaskNode\<close>, workers, senders, \<open>Wait\<close> and \<open>Exit\<close> can reach, every live slot holds a manager
  whose queue is within its 256 places; slot 0 is the main manager without node and thread; every
  other slot's node is configured with exactly that slot's number, and the manager's status agrees
  with the position of its worker; and no two live slots share a non-empty name.\<close>

theorem pipeline_invariant: "reachable b ds s \<Longrightarrow> sched_inv s"
  by (simp add: reachable_inv)

theorem pipeline_invariant_witness: "sched_inv drain_state"
  by (rule pipeline_invariant [OF demo_reachable(2)])

text \<open>C4. Refinement: whatever step the program makes in a reachable state, what it does to a worker
  slot is a step of the life cycle \<open>slot_step\<close> or leaves its view alone, or it is the main thread
  freeing, in its joining loop, a manager whose thread is gone. In particular the status of a slot
  never goes back.\<close>

theorem slot_lifecycle:
  assumes "reachable b ds s" "pstep b s s'" "live s i = Some m" "i \<noteq> 0"
  shows "live s' i = None \<and> can_join m \<and> main_at s = MainJoining i \<or>
    (\<exists>m'. live s' i = Some m' \<and> (view m' = view m \<or> slot_step (view m) (view m')) \<and>
          status m \<le> status m')"
proof -
  have "live s' i = None \<and> can_join m \<and> main_at s = MainJoining i \<or>
    (\<exists>m'. live s' i = Some m' \<and> moved m m')"
    using pstep_slot [OF assms(2) _ assms(3,4)] reachable_inv [OF assms(1)] by blast
  then show ?thesis
    by (auto simp: moved_def dest: slot_step_status_mono)
qed

theorem slot_lifecycle_witness:
  "let s' = the (worker_step demo_impl 0 1 drain_state)
   in live s' 1 = None \<or>
      (\<exists>m'. live s' 1 = Some m' \<and> slot_step
         (AtProcess \<lparr>dest = 1, msg_id = 7, data = Some 5\<rparr>, kExiting) (view m') \<and> kExiting \<le> status m')"
proof -
  have e: "worker_step demo_impl 0 1 drain_state = Some (the (worker_step demo_impl 0 1 drain_state))"
    and l: "map_option worker (live (the (worker_step demo_impl 0 1 drain_state)) 1) =
      Some (AtSends 0 [\<lparr>dest = 2, msg_id = 7, data = Some 5\<rparr>])"
    by code_simp+
  show ?thesis
    using slot_lifecycle [OF demo_reachable(2) by_worker [OF e] drain_run(3)] l
    by (auto simp: Let_def demo_mgr_def)
qed

text \<open>C6. A worker that \<open>ReleaseThreads\<close> has marked ends: in every reachable state a marked worker
  can make its next step, each of its own steps goes down in a well-founded order until it has
  finished, and no step of the program takes it back: it leaves the position and the mark alone, or
  it brings the worker closer to its end.\<close>

theorem marked_worker_drains:
  assumes "reachable b ds s" "live s i = Some m" "i \<noteq> 0" "status m = kExiting"
  shows "wf drain_order \<and>
    (\<exists>s' m'. worker_step b now i s = Some s' \<and> live s' i = Some m' \<and>
       (drain_rank (worker m'), drain_rank (worker m)) \<in> drain_order \<and>
       (status m' = kExiting \<or> worker m' = Finished)) \<and>
    (\<forall>s'. pstep b s s' \<longrightarrow> (\<exists>m'. live s' i = Some m' \<and>
       (view m' = view m \<or> (drain_rank (worker m'), drain_rank (worker m)) \<in> drain_order \<and>
          (status m' = kExiting \<or> worker m' = Finished))))"
proof -
  have inv: "sched_inv s" using assms(1) by (simp add: reachable_inv)
  have ok: "pc_status_ok (worker m) kExiting" using live_pc_ok [OF inv assms(2,3)] assms(4) by simp
  have pc: "worker m \<noteq> NoThread" "worker m \<noteq> Finished" using ok by auto
  obtain s' where s': "worker_step b now i s = Some s'"
    using worker_step_enabled [OF inv assms(2) pc] by blast
  obtain m' where m': "live s' i = Some m'" "own_step (view m) (view m')"
    using worker_step_own [OF inv s' assms(2)] by blast
  have d: "(drain_rank (worker m'), drain_rank (worker m)) \<in> drain_order \<and>
      (status m' = kExiting \<or> worker m' = Finished)" if "slot_step (view m) (view m')" for m'
    using slot_step_drains [of "worker m" "worker m'" "status m'"] that assms(4) by simp
  have "\<not> can_join m" using pc by (simp add: can_join_def)
  then have "\<exists>m'. live s' i = Some m' \<and> moved m m'" if "pstep b s s'" for s'
    using pstep_slot [OF that inv assms(2,3)] by blast
  then show ?thesis
    using s' m' d slot_step.own wf_drain_order unfolding moved_def by meson
qed

theorem marked_worker_drains_witness:
  "\<exists>s' m'. worker_step demo_impl 0 1 drain_state = Some s' \<and> live s' 1 = Some m' \<and>
     (drain_rank (worker m'), (3, 0)) \<in> drain_order"
  using marked_worker_drains [OF demo_reachable(2) drain_run(3), of 0]
  by (auto simp: demo_mgr_def)

text \<open>A node whose \<open>Init\<close> ends after \<open>ReleaseThreads\<close> went over the statuses blocks the exit
  forever: once the main thread is joining slot \<open>i\<close> and that slot's status is \<open>kRunning\<close>, whatever
  happens afterwards the main thread is still joining that slot.\<close>

theorem late_starter_blocks_exit:
  assumes "reachable b ds s" "main_at s = MainJoining i" "live s i = Some m" "i \<noteq> 0"
    "status m = kRunning" "(pstep b)\<^sup>*\<^sup>* s s'"
  shows "main_at s' = MainJoining i"
proof -
  have "sched_inv s' \<and> main_ok s' \<and> main_at s' = MainJoining i \<and>
        (\<exists>m. live s' i = Some m \<and> status m = kRunning)"
    using assms(6)
  proof induction
    case base
    then show ?case using assms reachable_inv by blast
  next
    case (step s1 s2)
    then obtain m1 where m1: "live s1 i = Some m1" "status m1 = kRunning"
      and inv: "sched_inv s1" "main_ok s1" and at: "main_at s1 = MainJoining i" by blast
    have ok: "pc_status_ok (worker m1) kRunning" using live_pc_ok [OF inv(1) m1(1) assms(4)] m1 by simp
    then have nj: "\<not> can_join m1" by (auto simp: can_join_def)
    have stuck: "main_step b s1 = None"
      using at m1(1) nj by (simp add: main_step_def live_Some_iff)
    have "main_at s2 = MainJoining i \<and> (\<exists>m. live s2 i = Some m \<and> status m = kRunning)"
      using blocked_join_step [OF step(2) inv(1) at stuck m1(1) assms(4) m1(2)] .
    then show ?case using inv_pstep [OF step(2) inv] by blast
  qed
  then show ?thesis by blast
qed

theorem late_starter_blocks_exit_witness:
  "{s'. (pstep demo_impl)\<^sup>*\<^sup>* late_state s'} \<subseteq> {s'. main_at s' = MainJoining 2}"
  using late_starter_blocks_exit [OF demo_reachable(1) late_run(2,3)]
  by (auto simp: demo_mgr_def)

text \<open>C11. Delivery under load: whatever pushes and pops hit a running manager from its creation on,
  the messages accepted are, in order, those popped followed by those still queued; each message is
  either accepted or counted in \<open>dropped_total\<close> (a 64-bit counter); the log lines and the open window
  account for every drop; and two log lines are at least five seconds apart.\<close>

theorem delivery_and_drop_accounting:
  assumes "under_load evs (set_status kRunning (mgr_new u nm)) = (r, m)"
  shows "accepted r = popped r @ queue (msg_queue m) \<and>
    length (results r) = length (accepted r) + count_list (results r) kEnqueue \<and>
    dropped_total m = of_nat (count_list (results r) kEnqueue) \<and>
    sum_list (map drops_of (log_lines r)) + dropped_in_window m = dropped_total m \<and>
    sorted_wrt (\<lambda>x y. fst x + 5000000000 \<le> fst y) (log_lines r)"
proof -
  have st: "status (set_status kRunning (mgr_new u nm)) = kRunning"
    "dropped_in_window (set_status kRunning (mgr_new u nm)) = 0"
    by (simp_all add: set_status_def mgr_new_def)
  have q: "queue (msg_queue (set_status kRunning (mgr_new u nm))) = []"
    "dropped_total (set_status kRunning (mgr_new u nm)) = 0"
    by (simp_all add: set_status_def mgr_new_def tsq_new_def)
  have g: "log_gap = (\<lambda>x y. fst x + 5000000000 \<le> fst y)"
    by (simp add: log_gap_def kDropLogInterval_def fun_eq_iff)
  show ?thesis
    using under_load_history [OF assms st(1)] under_load_logs [OF assms st(1) disjI2 [OF st(2)]]
    by (simp add: st q g)
qed

theorem delivery_and_drop_accounting_witness:
  "let (r, m) = under_load load_demo (set_status kRunning (mgr_new (Some 0) ''n''))
   in results r = [kOk, kOk, kOk] \<and> map msg_id (popped r) = [4] \<and>
      accepted r = popped r @ queue (msg_queue m) \<and> dropped_total m = 0"
proof -
  let ?x = "under_load load_demo (set_status kRunning (mgr_new (Some 0) ''n''))"
  have c: "results (fst ?x) = [kOk, kOk, kOk] \<and> map msg_id (popped (fst ?x)) = [4]"
    by code_simp
  show ?thesis
    using delivery_and_drop_accounting [OF prod.collapse [of ?x, symmetric]] c
    by (simp add: Let_def case_prod_beta task_error_defs)
qed

text \<open>What \<open>SendMessage\<close> does, on every branch: a destination outside the table or released is
  refused with \<open>kDestInvalid\<close>, one that is not running with \<open>kThreadAbnormal\<close>, a full queue with
  \<open>kEnqueue\<close>; otherwise the message goes to the end of the destination's queue. No other slot and
  no node changes in any case, and a refusal leaves every queue alone.\<close>

theorem send_message_outcome:
  assumes "send_message d mid dat now s = (ret, logs, s')"
  shows "ret = (if d < 0 \<or> live s (nat d) = None then kDestInvalid
                else if status (the (live s (nat d))) \<noteq> kRunning then kThreadAbnormal
                else if unat (queue_capacity (msg_queue (the (live s (nat d)))))
                          \<le> length (queue (msg_queue (the (live s (nat d))))) then kEnqueue
                else kOk) \<and>
    nodes s' = nodes s \<and> main_at s' = main_at s \<and>
    (\<forall>i. (i \<noteq> nat d \<or> d < 0) \<longrightarrow> live s' i = live s i) \<and>
    (\<forall>i m. live s i = Some m \<longrightarrow> (\<exists>m'. live s' i = Some m' \<and>
       queue (msg_queue m') = queue (msg_queue m) @
         (if ret = kOk \<and> i = nat d then [\<lparr>dest = d, msg_id = mid, data = dat\<rparr>] else [])))"
proof (cases "0 \<le> d \<and> live s (nat d) \<noteq> None")
  case False
  then have "ret = kDestInvalid \<and> s' = s"
    using assms by (auto simp: send_message_def live_def nth_opt_def nat_less_iff
        split: if_splits option.splits prod.splits)
  then show ?thesis using False by (auto simp: task_error_defs)
next
  case True
  then obtain m where m: "live s (nat d) = Some m" and d: "0 \<le> d" by auto
  obtain r l m' where p: "push_message \<lparr>dest = d, msg_id = mid, data = dat\<rparr> now m = (r, l, m')"
    by (metis prod_cases3)
  have s': "ret = r" "s' = upd_mgr (nat d) (\<lambda>_. m') s"
    using assms m d p
    by (auto simp: send_message_def live_Some_iff upd_mgr_def nth_opt_def split: if_splits)
  have pr: "r = (if status m \<noteq> kRunning then kThreadAbnormal
        else if unat (queue_capacity (msg_queue m)) \<le> length (queue (msg_queue m)) then kEnqueue
        else kOk) \<and>
      queue (msg_queue m') = queue (msg_queue m) @
        (if r = kOk then [\<lparr>dest = d, msg_id = mid, data = dat\<rparr>] else [])"
    using p by (auto simp: push_message_def tsq_push_def report_dropped_message_def Let_def
        task_error_defs split: if_splits)
  show ?thesis using s' pr m d by auto
qed

theorem send_message_outcome_witness:
  "fst (send_message 1 9 (Some 3) 0 drain_state) = kThreadAbnormal \<and>
   fst (send_message 2 9 (Some 3) 0 drain_state) = kOk \<and>
   fst (send_message 3 9 (Some 3) 0 drain_state) = kDestInvalid"
proof -
  have e: "send_message d 9 (Some 3) 0 drain_state =
    (fst (send_message d 9 (Some 3) 0 drain_state), fst (snd (send_message d 9 (Some 3) 0 drain_state)),
     snd (snd (send_message d 9 (Some 3) 0 drain_state)))" for d
    by simp
  have l: "live drain_state 1 \<noteq> None \<and> status (the (live drain_state 1)) \<noteq> kRunning"
    "live drain_state 2 \<noteq> None \<and> status (the (live drain_state 2)) = kRunning \<and>
     queue (msg_queue (the (live drain_state 2))) = [] \<and>
     unat (queue_capacity (msg_queue (the (live drain_state 2)))) = 256"
    "live drain_state 3 = None"
    by code_simp+
  show ?thesis
    using send_message_outcome [OF e [of 1], THEN conjunct1] l
      send_message_outcome [OF e [of 2], THEN conjunct1]
      send_message_outcome [OF e [of 3], THEN conjunct1] by auto
qed

end
