(* ===== verification/Worker_Pool.thy ===== *)
theory Worker_Pool
  imports Thread_Queue
begin

text \<open>
  \<open>my_utils::ThreadPool\<close> (\<open>utils/thread_pool.h\<close>) and the per-plugin gates of \<open>HostServices\<close>
  (\<open>plugin/host_services.cpp\<close>): asynchronous jobs are counted on the gate of the plugin that submits
  them, and \<open>WaitQuiesce\<close> waits for the count to fall to zero before the plugin is unloaded. Threads
  interleave at the points where the code releases a mutex or changes a gate. The pool's queue is a
  second instance of the interface \<open>bounded_fifo\<close>.
\<close>

section \<open>The thread pool\<close>

text \<open>A worker waits, runs the submitted function, is between that function and the gate's decrement
  in the wrapper that \<open>SubmitAsync\<close> puts around it, has finished \<open>job()\<close> but still owns \<open>job\<close> (the local
  of \<open>WorkerLoop\<close> with the plugin's function in it, destroyed at the end of the iteration), or has
  returned from \<open>WorkerLoop\<close>.\<close>

datatype 'j wpos = Waiting | InJob 'j | AfterJob 'j | Dropping 'j | Returned

record 'j pool =
  tasks :: "'j list"
  max_queue :: nat
  stop :: bool
  workers :: "'j wpos list"

definition pool_new :: "nat \<Rightarrow> nat \<Rightarrow> 'j pool" where
  "pool_new thread_count mq =
     \<lparr>tasks = [], max_queue = (if mq = 0 then 1 else mq), stop = False,
      workers = replicate (if thread_count = 0 then 1 else thread_count) Waiting\<rparr>"

definition pool_submit :: "'j \<Rightarrow> 'j pool \<Rightarrow> bool \<times> 'j pool" where
  "pool_submit j p =
     (if stop p \<or> max_queue p \<le> length (tasks p) then (False, p)
      else (True, p\<lparr>tasks := tasks p @ [j]\<rparr>))"

definition pool_pop :: "'j pool \<Rightarrow> 'j option \<times> 'j pool" where
  "pool_pop p = (case tasks p of [] \<Rightarrow> (None, p) | j # js \<Rightarrow> (Some j, p\<lparr>tasks := js\<rparr>))"

definition pool_pending :: "'j pool \<Rightarrow> nat" where
  "pool_pending p = length (tasks p)"

definition set_worker :: "nat \<Rightarrow> 'j wpos \<Rightarrow> 'j pool \<Rightarrow> 'j pool" where
  "set_worker i w p = p\<lparr>workers := (workers p)[i := w]\<rparr>"

text \<open>One step of \<open>WorkerLoop\<close>; \<open>None\<close> while the condition variable holds the worker back. \<open>threw\<close>
  says whether the function throws: the packaged task catches the exception, so the worker goes on
  but the rest of the wrapper is skipped.\<close>

definition worker_loop_step :: "nat \<Rightarrow> bool \<Rightarrow> 'j pool \<Rightarrow> 'j pool option" where
  "worker_loop_step i threw p =
     (case nth_opt (workers p) i of
        Some Waiting \<Rightarrow>
          (if stop p \<and> tasks p = [] then Some (set_worker i Returned p)
           else case pool_pop p of
                  (None, _) \<Rightarrow> None
                | (Some j, p') \<Rightarrow> Some (set_worker i (InJob j) p'))
      | Some (InJob j) \<Rightarrow> Some (set_worker i (if threw then Dropping j else AfterJob j) p)
      | Some (AfterJob j) \<Rightarrow> Some (set_worker i (Dropping j) p)
      | Some (Dropping j) \<Rightarrow> Some (set_worker i Waiting p)
      | _ \<Rightarrow> None)"

definition pool_shutdown :: "'j pool \<Rightarrow> 'j pool" where
  "pool_shutdown p = (if stop p then p else p\<lparr>stop := True\<rparr>)"

definition pool_joined :: "'j pool \<Rightarrow> bool" where
  "pool_joined p = (stop p \<and> (\<forall>w \<in> set (workers p). w = Returned))"

interpretation pool: bounded_fifo pool_submit pool_pop tasks "\<lambda>p. if stop p then 0 else max_queue p"
  by unfold_locales (auto simp: pool_submit_def pool_pop_def split: list.splits)

section \<open>Gates and asynchronous submission\<close>

text \<open>A call of \<open>SubmitAsync\<close> under way: it has counted itself on the gate, or the pool has refused
  it and it has still to take the count back. \<open>thrown\<close> is not in the code: it remembers how many
  functions of a plugin have thrown.\<close>

datatype 'j call = Counted string 'j | Refused string

record 'j host =
  push_pool :: "(string \<times> 'j) pool option"
  gates :: "string \<Rightarrow> int option"
  calls :: "'j call list"
  thrown :: "string \<Rightarrow> nat"

definition host_init :: "'j host" where
  "host_init = \<lparr>push_pool = Some (pool_new 2 128), gates = (\<lambda>n. None), calls = [], thrown = (\<lambda>n. 0)\<rparr>"

definition get_or_create_gate :: "string \<Rightarrow> 'j host \<Rightarrow> int \<times> 'j host" where
  "get_or_create_gate n h =
     (case gates h n of
        None \<Rightarrow> (0, h\<lparr>gates := (gates h)(n \<mapsto> 0)\<rparr>)
      | Some c \<Rightarrow> (c, h))"

definition gate_add :: "string \<Rightarrow> int \<Rightarrow> 'j host \<Rightarrow> 'j host" where
  "gate_add n d h =
     (case gates h n of None \<Rightarrow> h | Some c \<Rightarrow> h\<lparr>gates := (gates h)(n \<mapsto> c + d)\<rparr>)"

text \<open>\<open>SubmitAsync\<close> in its three atomic parts; \<open>None\<close> for \<open>fn\<close> is an empty \<open>std::function\<close>.\<close>

definition submit_count :: "string \<Rightarrow> 'j option \<Rightarrow> 'j host \<Rightarrow> bool \<times> 'j host" where
  "submit_count n fn h =
     (case (push_pool h, fn) of
        (Some p, Some j) \<Rightarrow>
          (let (c, h1) = get_or_create_gate n h; h2 = gate_add n 1 h1
           in (True, h2\<lparr>calls := calls h2 @ [Counted n j]\<rparr>))
      | _ \<Rightarrow> (False, h))"

definition drop_nth :: "nat \<Rightarrow> 'a list \<Rightarrow> 'a list" where
  "drop_nth k xs = take k xs @ drop (Suc k) xs"

definition submit_enqueue :: "nat \<Rightarrow> 'j host \<Rightarrow> 'j host option" where
  "submit_enqueue k h =
     (case (nth_opt (calls h) k, push_pool h) of
        (Some (Counted n j), Some p) \<Rightarrow>
          (case pool_submit (n, j) p of
             (True, p') \<Rightarrow> Some (h\<lparr>push_pool := Some p', calls := drop_nth k (calls h)\<rparr>)
           | (False, _) \<Rightarrow> Some (h\<lparr>calls := (calls h)[k := Refused n]\<rparr>))
      | _ \<Rightarrow> None)"

definition submit_retract :: "nat \<Rightarrow> 'j host \<Rightarrow> 'j host option" where
  "submit_retract k h =
     (case nth_opt (calls h) k of
        Some (Refused n) \<Rightarrow> Some ((gate_add n (-1) h)\<lparr>calls := drop_nth k (calls h)\<rparr>)
      | _ \<Rightarrow> None)"

text \<open>A worker's step with the effect of the wrapper on the gate.\<close>

definition host_worker :: "nat \<Rightarrow> bool \<Rightarrow> 'j host \<Rightarrow> 'j host option" where
  "host_worker i threw h =
     (case push_pool h of
        None \<Rightarrow> None
      | Some p \<Rightarrow>
          (case worker_loop_step i threw p of
             None \<Rightarrow> None
           | Some p' \<Rightarrow>
               (let h1 = h\<lparr>push_pool := Some p'\<rparr>
                in case nth_opt (workers p) i of
                     Some (AfterJob (n, j)) \<Rightarrow> Some (gate_add n (-1) h1)
                   | Some (InJob (n, j)) \<Rightarrow>
                       Some (if threw then h1\<lparr>thrown := (thrown h1)(n := thrown h1 n + 1)\<rparr> else h1)
                   | _ \<Rightarrow> Some h1)))"

text \<open>\<open>WaitQuiesce(n, timeout_ms)\<close> looked at \<open>elapsed\<close> milliseconds after the call: what it returns,
  \<open>None\<close> while it waits. With a negative time-out it is \<open>cv.wait\<close>, which ends only when the
  predicate holds; otherwise it is \<open>cv.wait_for\<close>, which gives the predicate's value when the time is
  over.\<close>

definition wait_quiesce_poll :: "int \<Rightarrow> int \<Rightarrow> string \<Rightarrow> 'j host \<Rightarrow> bool option" where
  "wait_quiesce_poll timeout_ms elapsed n h =
     (case gates h n of
        None \<Rightarrow> Some True
      | Some c \<Rightarrow>
          (if c = 0 then Some True
           else if timeout_ms < 0 then None
           else if elapsed < timeout_ms then None
           else Some False))"

text \<open>\<open>HostServices::Shutdown\<close>: the pool's \<open>Shutdown\<close>, its joins, then the pool is reset.\<close>

definition host_shutdown_begin :: "'j host \<Rightarrow> 'j host option" where
  "host_shutdown_begin h =
     (case push_pool h of None \<Rightarrow> None | Some p \<Rightarrow> Some (h\<lparr>push_pool := Some (pool_shutdown p)\<rparr>))"

definition host_shutdown_end :: "'j host \<Rightarrow> 'j host option" where
  "host_shutdown_end h =
     (case push_pool h of
        None \<Rightarrow> None
      | Some p \<Rightarrow> if pool_joined p then Some (h\<lparr>push_pool := None\<rparr>) else None)"

inductive hstep :: "'j host \<Rightarrow> 'j host \<Rightarrow> bool" where
  count: "submit_count n fn h = (ok, h') \<Longrightarrow> hstep h h'"
| enqueue: "submit_enqueue k h = Some h' \<Longrightarrow> hstep h h'"
| retract: "submit_retract k h = Some h' \<Longrightarrow> hstep h h'"
| work: "host_worker i threw h = Some h' \<Longrightarrow> hstep h h'"
| shut: "host_shutdown_begin h = Some h' \<Longrightarrow> hstep h h'"
| reset: "host_shutdown_end h = Some h' \<Longrightarrow> hstep h h'"

inductive hreachable :: "'j host \<Rightarrow> bool" where
  init: "hreachable host_init"
| step: "hreachable h \<Longrightarrow> hstep h h' \<Longrightarrow> hreachable h'"

section \<open>What is in flight\<close>

fun call_of :: "string \<Rightarrow> 'j call \<Rightarrow> bool" where
  "call_of n (Counted m j) = (m = n)"
| "call_of n (Refused m) = (m = n)"

fun pos_of :: "string \<Rightarrow> (string \<times> 'j) wpos \<Rightarrow> bool" where
  "pos_of n (InJob t) = (fst t = n)"
| "pos_of n (AfterJob t) = (fst t = n)"
| "pos_of n w = False"

definition pool_load :: "string \<Rightarrow> (string \<times> 'j) pool \<Rightarrow> nat" where
  "pool_load n p = length (filter (\<lambda>t. fst t = n) (tasks p)) + length (filter (pos_of n) (workers p))"

definition inflight :: "string \<Rightarrow> 'j host \<Rightarrow> nat" where
  "inflight n h =
     length (filter (call_of n) (calls h)) + (case push_pool h of None \<Rightarrow> 0 | Some p \<Rightarrow> pool_load n p)"

definition gate_count :: "string \<Rightarrow> 'j host \<Rightarrow> int" where
  "gate_count n h = (case gates h n of None \<Rightarrow> 0 | Some c \<Rightarrow> c)"

definition pool_ok :: "'j pool \<Rightarrow> bool" where
  "pool_ok p = (workers p \<noteq> [] \<and> length (tasks p) \<le> max_queue p \<and>
     (Returned \<in> set (workers p) \<longrightarrow> stop p \<and> tasks p = []))"

definition host_ok :: "'j host \<Rightarrow> bool" where
  "host_ok h = ((\<forall>n. gate_count n h = int (inflight n h + thrown h n)) \<and>
     (case push_pool h of None \<Rightarrow> True | Some p \<Rightarrow> pool_ok p))"

lemma drop_nth_filter:
  "k < length xs \<Longrightarrow>
   length (filter P xs) = length (filter P (drop_nth k xs)) + (if P (xs ! k) then 1 else 0)"
proof -
  assume "k < length xs"
  then have "xs = take k xs @ xs ! k # drop (Suc k) xs" by (rule id_take_nth_drop)
  then have "length (filter P xs) = length (filter P (take k xs @ xs ! k # drop (Suc k) xs))" by simp
  then show ?thesis by (simp add: drop_nth_def)
qed

lemma gate_count_add:
  "gate_count n h \<noteq> 0 \<or> gates h n \<noteq> None \<Longrightarrow>
   gate_count m (gate_add n d h) = gate_count m h + (if m = n then d else 0)"
  by (auto simp: gate_count_def gate_add_def split: option.splits)

lemma gate_add_frame [simp]:
  "push_pool (gate_add n d h) = push_pool h" "calls (gate_add n d h) = calls h"
  "thrown (gate_add n d h) = thrown h"
  by (auto simp: gate_add_def split: option.splits)

lemma gate_count_frame [simp]:
  "gate_count n (h\<lparr>push_pool := p\<rparr>) = gate_count n h" "gate_count n (h\<lparr>calls := cs\<rparr>) = gate_count n h"
  "gate_count n (h\<lparr>thrown := f\<rparr>) = gate_count n h"
  by (simp_all add: gate_count_def)

lemma pool_load_worker:
  assumes "nth_opt (workers p) i = Some w"
  shows "pool_load n (set_worker i w' p) + (if pos_of n w then 1 else 0) =
    pool_load n p + (if pos_of n w' then 1 else 0)"
  using filter_length_update [of i "workers p" "pos_of n" w'] assms
  by (auto simp: pool_load_def set_worker_def nth_opt_Some_iff)

text \<open>One worker step, by position.\<close>

lemma worker_loop_cases:
  assumes "worker_loop_step i threw p = Some p'"
  obtains (quit) "nth_opt (workers p) i = Some Waiting" "stop p" "tasks p = []"
      "p' = set_worker i Returned p"
  | (take) j js where "nth_opt (workers p) i = Some Waiting" "tasks p = j # js"
      "p' = set_worker i (InJob j) (p\<lparr>tasks := js\<rparr>)"
  | (ran) j where "nth_opt (workers p) i = Some (InJob j)"
      "p' = set_worker i (if threw then Dropping j else AfterJob j) p"
  | (ended) j where "nth_opt (workers p) i = Some (AfterJob j)" "p' = set_worker i (Dropping j) p"
  | (dropped) j where "nth_opt (workers p) i = Some (Dropping j)" "p' = set_worker i Waiting p"
  using assms
  by (auto simp: worker_loop_step_def pool_pop_def
      split: option.splits wpos.splits if_splits list.splits)

lemma set_worker_pool_ok:
  "pool_ok p \<Longrightarrow> w \<noteq> Returned \<or> stop p \<and> tasks p = [] \<Longrightarrow> pool_ok (set_worker i w p)"
  by (auto simp: pool_ok_def set_worker_def dest: set_list_update_cases)

lemma worker_loop_ok: "worker_loop_step i threw p = Some p' \<Longrightarrow> pool_ok p \<Longrightarrow> pool_ok p'"
proof (erule worker_loop_cases)
  fix j js
  assume "pool_ok p" "nth_opt (workers p) i = Some Waiting" "tasks p = j # js"
    "p' = set_worker i (InJob j) (p\<lparr>tasks := js\<rparr>)"
  then show ?thesis by (auto simp: pool_ok_def set_worker_def dest: set_list_update_cases)
qed (auto intro!: set_worker_pool_ok)

lemma submit_ok: "pool_submit j p = (ok, p') \<Longrightarrow> pool_ok p \<Longrightarrow> pool_ok p'"
  by (auto simp: pool_submit_def pool_ok_def split: if_splits)

section \<open>The gate counts what is in flight\<close>

lemma ok_count:
  assumes "host_ok h" "submit_count n fn h = (ok, h')"
  shows "host_ok h'"
proof (cases "push_pool h = None \<or> fn = None")
  case True
  then show ?thesis using assms by (auto simp: submit_count_def split: option.splits)
next
  case False
  then obtain p j where pj: "push_pool h = Some p" "fn = Some j" by auto
  define h1 where "h1 = snd (get_or_create_gate n h)"
  have g1: "gates h1 n \<noteq> None" "gate_count m h1 = gate_count m h" "push_pool h1 = push_pool h"
    "calls h1 = calls h" "thrown h1 = thrown h" for m
    by (auto simp: h1_def get_or_create_gate_def gate_count_def split: option.splits)
  have "h' = (gate_add n 1 h1)\<lparr>calls := calls (gate_add n 1 h1) @ [Counted n j]\<rparr>"
    using assms(2) pj by (auto simp: submit_count_def h1_def split: prod.splits)
  then show ?thesis
    using assms(1) pj g1 by (auto simp: host_ok_def inflight_def gate_count_add)
qed

lemma ok_enqueue:
  assumes "host_ok h" "submit_enqueue k h = Some h'"
  shows "host_ok h'"
proof -
  obtain n j p where c: "k < length (calls h)" "calls h ! k = Counted n j" "push_pool h = Some p"
    using assms(2) by (auto simp: submit_enqueue_def nth_opt_def split: option.splits call.splits if_splits)
  obtain ok p' where s: "pool_submit (n, j) p = (ok, p')" by (cases "pool_submit (n, j) p")
  have p': "pool_ok p'" using submit_ok [OF s] assms(1) c by (simp add: host_ok_def)
  show ?thesis
  proof (cases ok)
    case True
    then have h': "h' = h\<lparr>push_pool := Some p', calls := drop_nth k (calls h)\<rparr>"
      using assms(2) c s by (simp add: submit_enqueue_def nth_opt_def)
    have "p' = p\<lparr>tasks := tasks p @ [(n, j)]\<rparr>" using s True by (auto simp: pool_submit_def split: if_splits)
    then have "inflight m h' = inflight m h" for m
      using drop_nth_filter [OF c(1), of "call_of m"] c
      by (simp add: h' inflight_def pool_load_def)
    then show ?thesis using assms(1) p' by (simp add: host_ok_def h' c)
  next
    case False
    then have h': "h' = h\<lparr>calls := (calls h)[k := Refused n]\<rparr>"
      using assms(2) c s by (simp add: submit_enqueue_def nth_opt_def)
    have "inflight m h' = inflight m h" for m
      using filter_length_update [OF c(1), of "call_of m" "Refused n"] c
      by (simp add: h' inflight_def split: if_splits)
    then show ?thesis using assms(1) by (simp add: host_ok_def h')
  qed
qed

lemma ok_retract:
  assumes "host_ok h" "submit_retract k h = Some h'"
  shows "host_ok h'"
proof -
  obtain n where c: "k < length (calls h)" "calls h ! k = Refused n"
    and h': "h' = (gate_add n (-1) h)\<lparr>calls := drop_nth k (calls h)\<rparr>"
    using assms(2) by (auto simp: submit_retract_def nth_opt_def split: option.splits call.splits if_splits)
  have i: "inflight m h = inflight m h' + (if m = n then 1 else 0)" for m
    using drop_nth_filter [OF c(1), of "call_of m"] c by (simp add: h' inflight_def)
  have "gate_count n h \<noteq> 0" using assms(1) i [of n] by (simp add: host_ok_def)
  then show ?thesis
    using assms(1) by (auto simp: host_ok_def i h' gate_count_add)
qed

lemma ok_worker:
  assumes "host_ok h" "host_worker i threw h = Some h'"
  shows "host_ok h'"
proof -
  obtain p p' where p: "push_pool h = Some p" and w: "worker_loop_step i threw p = Some p'"
    using assms(2) by (auto simp: host_worker_def split: option.splits)
  have okp: "pool_ok p'" using worker_loop_ok [OF w] assms(1) p by (simp add: host_ok_def)
  have step: "(let h1 = h\<lparr>push_pool := Some p'\<rparr>
      in case nth_opt (workers p) i of
           Some (AfterJob (n, j)) \<Rightarrow> Some (gate_add n (-1) h1)
         | Some (InJob (n, j)) \<Rightarrow>
             Some (if threw then h1\<lparr>thrown := (thrown h1)(n := thrown h1 n + 1)\<rparr> else h1)
         | _ \<Rightarrow> Some h1) = Some h'"
    using assms(2) p w by (simp add: host_worker_def)
  have inv: "gate_count m h = int (length (filter (call_of m) (calls h)) + pool_load m p + thrown h m)" for m
    using assms(1) p by (simp add: host_ok_def inflight_def)
  from w show ?thesis
  proof (cases rule: worker_loop_cases)
    case quit
    then have "h' = h\<lparr>push_pool := Some p'\<rparr>" using step by (simp add: Let_def)
    moreover have "pool_load m p' = pool_load m p" for m
      using pool_load_worker [OF quit(1), of m Returned] quit(4) by simp
    ultimately show ?thesis using inv okp by (simp add: host_ok_def inflight_def)
  next
    case (take j js)
    then have "h' = h\<lparr>push_pool := Some p'\<rparr>" using step by (simp add: Let_def)
    moreover have "pool_load m p' = pool_load m p" for m
      using pool_load_worker [of "p\<lparr>tasks := js\<rparr>" i Waiting m "InJob j"] take
      by (simp add: pool_load_def)
    ultimately show ?thesis using inv okp by (simp add: host_ok_def inflight_def)
  next
    case (ran t)
    obtain n j where t: "t = (n, j)" by (cases t)
    have h': "h' = (if threw then h\<lparr>push_pool := Some p', thrown := (thrown h)(n := thrown h n + 1)\<rparr>
               else h\<lparr>push_pool := Some p'\<rparr>)"
      using step ran(1) t by (simp add: Let_def split: if_splits)
    have "pool_load m p' + (if threw \<and> m = n then 1 else 0) = pool_load m p" for m
      using pool_load_worker [OF ran(1), of m "if threw then Dropping t else AfterJob t"] ran(2) t
      by (auto split: if_splits)
    then have "pool_load m p = pool_load m p' + (if threw \<and> m = n then 1 else 0)" for m by metis
    then show ?thesis using inv okp by (auto simp: host_ok_def inflight_def h')
  next
    case (ended t)
    obtain n j where t: "t = (n, j)" by (cases t)
    have h': "h' = gate_add n (-1) (h\<lparr>push_pool := Some p'\<rparr>)" using step ended(1) t by (simp add: Let_def)
    have l: "pool_load m p = pool_load m p' + (if m = n then 1 else 0)" for m
      using pool_load_worker [OF ended(1), of m "Dropping t"] ended(2) t by (auto split: if_splits)
    have "gate_count n (h\<lparr>push_pool := Some p'\<rparr>) \<noteq> 0" using inv [of n] l [of n] by simp
    then show ?thesis using inv okp by (auto simp: host_ok_def inflight_def h' l gate_count_add)
  next
    case (dropped t)
    then have "h' = h\<lparr>push_pool := Some p'\<rparr>" using step by (simp add: Let_def)
    moreover have "pool_load m p' = pool_load m p" for m
      using pool_load_worker [OF dropped(1), of m Waiting] dropped(2) by simp
    ultimately show ?thesis using inv okp by (simp add: host_ok_def inflight_def)
  qed
qed

lemma shutdown_frame [simp]:
  "tasks (pool_shutdown p) = tasks p" "workers (pool_shutdown p) = workers p"
  "max_queue (pool_shutdown p) = max_queue p" "stop (pool_shutdown p)"
  by (simp_all add: pool_shutdown_def)

lemma ok_shut:
  assumes "host_ok h" "host_shutdown_begin h = Some h'"
  shows "host_ok h'"
  using assms
  by (auto simp: host_shutdown_begin_def host_ok_def inflight_def pool_load_def pool_ok_def
      split: option.splits)

lemma joined_empty:
  assumes "pool_ok p" "pool_joined p"
  shows "tasks p = [] \<and> pool_load n p = 0"
proof -
  have r: "\<forall>w \<in> set (workers p). w = Returned"
    using assms(2) by (simp add: pool_joined_def)
  then have "Returned \<in> set (workers p)"
    using assms(1) by (cases "workers p") (auto simp: pool_ok_def)
  then have "tasks p = []" using assms(1) by (simp add: pool_ok_def)
  moreover have "filter (pos_of n) (workers p) = []"
    using r by (auto simp: filter_empty_conv)
  ultimately show ?thesis by (simp add: pool_load_def)
qed

lemma ok_reset:
  assumes "host_ok h" "host_shutdown_end h = Some h'"
  shows "host_ok h'"
proof -
  obtain p where p: "push_pool h = Some p" "pool_joined p" "h' = h\<lparr>push_pool := None\<rparr>"
    using assms(2) by (auto simp: host_shutdown_end_def split: option.splits if_splits)
  have "pool_load n p = 0" for n using joined_empty [of p n] assms(1) p by (simp add: host_ok_def)
  then show ?thesis using assms(1) p by (simp add: host_ok_def inflight_def)
qed

lemma hreachable_ok: "hreachable h \<Longrightarrow> host_ok h"
proof (induction rule: hreachable.induct)
  case init
  show ?case
    by (auto simp: host_ok_def host_init_def gate_count_def inflight_def pool_load_def pool_new_def
        pool_ok_def)
next
  case (step h h')
  show ?case using step(2,3)
    by (cases rule: hstep.cases)
      (auto intro: ok_count ok_enqueue ok_retract ok_worker ok_shut ok_reset)
qed

section \<open>Progress of a pool that is shutting down\<close>

fun wpos_weight :: "'j wpos \<Rightarrow> nat" where
  "wpos_weight Returned = 0"
| "wpos_weight Waiting = 1"
| "wpos_weight (Dropping j) = 2"
| "wpos_weight (AfterJob j) = 3"
| "wpos_weight (InJob j) = 4"

definition pool_measure :: "'j pool \<Rightarrow> nat" where
  "pool_measure p = 5 * length (tasks p) + sum_list (map wpos_weight (workers p))"

lemma sum_list_update_nat:
  "i < length xs \<Longrightarrow> sum_list (xs[i := x]) + xs ! i = sum_list xs + (x::nat)"
proof (induction xs arbitrary: i)
  case (Cons y ys)
  then show ?case by (cases i) auto
qed simp

lemma measure_set_worker:
  "nth_opt (workers p) i = Some w \<Longrightarrow>
   pool_measure (set_worker i w' p) + wpos_weight w = pool_measure p + wpos_weight w'"
  using sum_list_update_nat [of i "map wpos_weight (workers p)" "wpos_weight w'"]
  by (auto simp: pool_measure_def set_worker_def nth_opt_Some_iff map_update)

lemma worker_loop_decreases:
  assumes "worker_loop_step i threw p = Some p'"
  shows "pool_measure p' < pool_measure p"
  using assms
proof (cases rule: worker_loop_cases)
  case quit
  then show ?thesis using measure_set_worker [OF quit(1), of Returned] by simp
next
  case (take j js)
  then show ?thesis
    using measure_set_worker [of "p\<lparr>tasks := js\<rparr>" i Waiting "InJob j"]
    by (simp add: pool_measure_def)
next
  case (ran j)
  then show ?thesis using measure_set_worker [OF ran(1), of "if threw then Dropping j else AfterJob j"]
    by (auto split: if_splits)
next
  case (ended j)
  then show ?thesis using measure_set_worker [OF ended(1), of "Dropping j"] by simp
next
  case (dropped j)
  then show ?thesis using measure_set_worker [OF dropped(1), of Waiting] by simp
qed

lemma worker_loop_enabled:
  assumes "stop p" "w \<in> set (workers p)" "w \<noteq> Returned"
  shows "\<exists>i p'. worker_loop_step i threw p = Some p'"
proof -
  obtain i where "nth_opt (workers p) i = Some w"
    using assms(2) by (metis in_set_conv_nth nth_opt_Some_iff)
  then show ?thesis using assms(1,3)
    by (intro exI [of _ i], cases w)
      (auto simp: worker_loop_step_def pool_pop_def split: list.splits)
qed

lemma thrown_mono:
  assumes "hstep h h'"
  shows "thrown h n \<le> thrown h' n"
  using assms
proof (cases rule: hstep.cases)
  case (work i threw)
  then show ?thesis
    by (auto simp: host_worker_def Let_def split: option.splits wpos.splits if_splits)
qed (auto simp: submit_count_def get_or_create_gate_def submit_enqueue_def submit_retract_def
      host_shutdown_begin_def host_shutdown_end_def Let_def
      split: option.splits prod.splits call.splits if_splits bool.splits)

section \<open>A concrete run\<close>

text \<open>A plugin submits two jobs; the first one throws; the host then begins to shut down.\<close>

definition demo_submit :: "string \<Rightarrow> nat \<Rightarrow> nat host \<Rightarrow> nat host" where
  "demo_submit n j h = the (submit_enqueue 0 (snd (submit_count n (Some j) h)))"

definition demo_busy :: "nat host" where
  "demo_busy = demo_submit ''face'' 2 (demo_submit ''face'' 1 host_init)"

definition demo_thrown :: "nat host" where
  "demo_thrown = the (host_worker 0 True (the (host_worker 0 False demo_busy)))"

definition demo_stopping :: "nat host" where
  "demo_stopping = the (host_shutdown_begin demo_busy)"

lemma demo_submit_reachable:
  assumes "hreachable h" "submit_enqueue 0 (snd (submit_count n (Some j) h)) \<noteq> None"
  shows "hreachable (demo_submit n j h)"
  using assms hreachable.step [OF assms(1) hstep.count [OF prod.collapse [symmetric], of h n "Some j"]]
  unfolding demo_submit_def
  by (metis hreachable.step hstep.enqueue option.collapse)

lemma demo_busy_reachable: "hreachable demo_busy"
  unfolding demo_busy_def
  by (intro demo_submit_reachable hreachable.init) code_simp+

lemma demo_thrown_reachable: "hreachable demo_thrown"
proof -
  have "host_worker 0 False demo_busy \<noteq> None"
    "host_worker 0 True (the (host_worker 0 False demo_busy)) \<noteq> None"
    by code_simp+
  then show ?thesis
    unfolding demo_thrown_def
    by (metis demo_busy_reachable hreachable.step hstep.work option.collapse)
qed

lemma demo_stopping_reachable: "hreachable demo_stopping"
proof -
  have "host_shutdown_begin demo_busy \<noteq> None" by code_simp
  then show ?thesis
    unfolding demo_stopping_def
    by (metis demo_busy_reachable hreachable.step hstep.shut option.collapse)
qed

section \<open>Properties\<close>

text \<open>C18. \<open>WaitQuiesce\<close> is exact: over every interleaving of submitters, workers and shutdown, it
  returns true precisely when no job of the plugin is being submitted, queued or running and none has
  thrown, whatever its time-out; it returns false precisely when it was given a time-out that is not
  negative, that time is over, and a job is left or has thrown. In every other case it goes on
  waiting, so without a time-out (the way the loader calls it) it never returns with a job left.\<close>

theorem quiesce_means_idle:
  assumes "hreachable h"
  shows "(wait_quiesce_poll timeout_ms elapsed n h = Some True) =
      (inflight n h = 0 \<and> thrown h n = 0) \<and>
    (wait_quiesce_poll timeout_ms elapsed n h = Some False) =
      (0 \<le> timeout_ms \<and> timeout_ms \<le> elapsed \<and> 0 < inflight n h + thrown h n)"
proof -
  have "gate_count n h = int (inflight n h + thrown h n)"
    using hreachable_ok [OF assms] by (simp add: host_ok_def)
  then show ?thesis
    by (auto simp: wait_quiesce_poll_def gate_count_def split: option.splits if_splits)
qed

theorem quiesce_means_idle_witness:
  "wait_quiesce_poll (-1) 5000 ''face'' demo_busy = None \<and>
   wait_quiesce_poll 100 100 ''face'' demo_busy = Some False \<and>
   wait_quiesce_poll 100 0 ''other'' demo_busy = Some True"
proof -
  have "inflight ''face'' demo_busy = 2 \<and> inflight ''other'' demo_busy = 0 \<and>
      thrown demo_busy ''other'' = 0"
    by code_simp
  then show ?thesis
    using quiesce_means_idle [OF demo_busy_reachable, of "-1" 5000 "''face''"]
      quiesce_means_idle [OF demo_busy_reachable, of 100 100 "''face''"]
      quiesce_means_idle [OF demo_busy_reachable, of 100 0 "''other''"]
    by (cases "wait_quiesce_poll (-1) 5000 ''face'' demo_busy") auto
qed

text \<open>What it does not promise is that the plugin's code is out of use: the gate is decremented inside
  the job, and the worker destroys the plugin's function object only after that. So there is a run in
  which \<open>WaitQuiesce\<close> has returned true, and the loader goes on to \<open>dlclose\<close>, while a worker has still
  to run the destructor of a function that lives in the plugin.\<close>

definition demo_dropping :: "nat host" where
  "demo_dropping =
     (let w = (\<lambda>i h. the (host_worker i False h)) in w 0 (w 0 (w 0 (demo_submit ''face'' 1 host_init))))"

lemma quiesced_before_destruction:
  "hreachable demo_dropping" "wait_quiesce_poll (-1) 0 ''face'' demo_dropping = Some True"
  "Dropping (''face'', 1) \<in> set (workers (the (push_pool demo_dropping)))"
proof -
  define h0 where "h0 = demo_submit ''face'' 1 host_init"
  have "submit_enqueue 0 (snd (submit_count ''face'' (Some (1::nat)) host_init)) \<noteq> None"
    by code_simp
  then have r0: "hreachable h0"
    unfolding h0_def by (intro demo_submit_reachable hreachable.init)
  have s: "host_worker 0 False h0 \<noteq> None" "host_worker 0 False (the (host_worker 0 False h0)) \<noteq> None"
    "host_worker 0 False (the (host_worker 0 False (the (host_worker 0 False h0)))) \<noteq> None"
    unfolding h0_def by code_simp+
  show "hreachable demo_dropping"
    unfolding demo_dropping_def Let_def h0_def [symmetric]
    by (metis s r0 hreachable.step hstep.work option.collapse)
  show "wait_quiesce_poll (-1) 0 ''face'' demo_dropping = Some True" by code_simp
  show "Dropping (''face'', 1) \<in> set (workers (the (push_pool demo_dropping)))" by code_simp
qed

text \<open>One job that throws blocks \<open>WaitQuiesce\<close> without a timeout for good: the count it leaves on
  the gate is never taken back, whatever the host does afterwards.\<close>

theorem throwing_job_blocks_quiesce:
  assumes "hreachable h" "0 < thrown h n" "hstep\<^sup>*\<^sup>* h h'"
  shows "wait_quiesce_poll (-1) elapsed n h' = None"
proof -
  have r: "hreachable h' \<and> 0 < thrown h' n"
    using assms(3)
  proof induction
    case base
    then show ?case using assms by simp
  next
    case (step h1 h2)
    then show ?case using thrown_mono [OF step(2), of n] by (auto intro: hreachable.step)
  qed
  then have "gate_count n h' \<noteq> 0"
    using hreachable_ok [of h'] by (simp add: host_ok_def)
  then show ?thesis by (auto simp: wait_quiesce_poll_def gate_count_def split: option.splits)
qed

theorem throwing_job_blocks_quiesce_witness:
  "{h. hstep\<^sup>*\<^sup>* demo_thrown h} \<subseteq> {h. wait_quiesce_poll (-1) 0 ''face'' h = None}"
proof -
  have "0 < thrown demo_thrown ''face''" by code_simp
  then show ?thesis using throwing_job_blocks_quiesce [OF demo_thrown_reachable] by blast
qed

text \<open>C23. A pool that shuts down drains and ends: from the moment \<open>Shutdown\<close> set its flag the queue
  takes nothing more, some worker can step until all have returned, every worker step lowers a
  natural number, and when all have returned no accepted job is left behind.\<close>

theorem shutdown_drains_pool:
  assumes "hreachable h" "push_pool h = Some p" "stop p"
  shows "\<not> fst (pool_submit j p) \<and>
    (pool_joined p \<or> (\<exists>i h'. host_worker i threw h = Some h')) \<and>
    (\<forall>i threw p'. worker_loop_step i threw p = Some p' \<longrightarrow>
       stop p' \<and> pool_measure p' < pool_measure p) \<and>
    (pool_joined p \<longrightarrow> tasks p = [])"
proof -
  have ok: "pool_ok p" using hreachable_ok [OF assms(1)] assms(2) by (simp add: host_ok_def)
  have "pool_joined p \<or> (\<exists>i p'. worker_loop_step i threw p = Some p')"
    using worker_loop_enabled [OF assms(3)] assms(3) unfolding pool_joined_def by metis
  then have e: "pool_joined p \<or> (\<exists>i h'. host_worker i threw h = Some h')"
    using assms(2) by (fastforce simp: host_worker_def Let_def split: option.splits wpos.splits)
  have "stop p'" if "worker_loop_step i t p = Some p'" for i t p'
    using that by (cases rule: worker_loop_cases) (simp_all add: set_worker_def assms(3))
  then show ?thesis
    using e worker_loop_decreases joined_empty [OF ok] pool.full_rejects [of p j] assms(3) by auto
qed

theorem shutdown_drains_pool_witness:
  "let p = the (push_pool demo_stopping)
   in stop p \<and> length (tasks p) = 2 \<and> \<not> fst (pool_submit (''face'', 3) p) \<and>
      (\<exists>i h'. host_worker i False demo_stopping = Some h')"
proof -
  have p: "push_pool demo_stopping = Some (the (push_pool demo_stopping)) \<and>
      stop (the (push_pool demo_stopping)) \<and> length (tasks (the (push_pool demo_stopping))) = 2"
    by code_simp
  then show ?thesis
    using shutdown_drains_pool [OF demo_stopping_reachable, of "the (push_pool demo_stopping)"
        "(''face'', 3)" False]
    by (cases "tasks (the (push_pool demo_stopping))") (auto simp: Let_def)
qed

end
