(* ===== verification/Rate_Limiter.thy ===== *)
theory Rate_Limiter
  imports Detection
begin

text \<open>
  How the stages keep their failure logs readable: \<open>FailureRateLimiter\<close>
  (\<open>stages/failure_rate_limiter.h\<close>), used twice by \<open>BusProcess\<close>, and the reporting functions that
  \<open>InfProcess\<close> has of its own. Both keep the contract \<open>episode_log\<close>: the first failure of an episode
  is logged at once, later ones at most once per interval. Counters are 64-bit words.
\<close>

definition seconds :: "int \<Rightarrow> time_point" where "seconds s = s * 1000000000"

definition in_seconds :: "time_point \<Rightarrow> int" where "in_seconds d = c_div d 1000000000"

lemma succ_count:
  assumes "unat (n :: u64) + 1 < 2 ^ 64"
  shows "unat (n + 1) = unat n + 1 \<and> n + 1 \<noteq> 0"
proof -
  have "unat (n + 1) = unat n + 1" using assms by (simp add: unat_word_ariths)
  then show ?thesis by (metis add_is_0 one_neq_zero unat_0)
qed

section \<open>The contract\<close>

locale episode_log =
  fixes fail :: "int \<Rightarrow> time_point \<Rightarrow> 's \<Rightarrow> bool \<times> 's"
    and failures :: "'s \<Rightarrow> u64"
    and last_log :: "'s \<Rightarrow> time_point"
    and gap :: "'s \<Rightarrow> time_point"
  assumes fail_first: "failures s = 0 \<Longrightarrow>
      fst (fail c t s) \<and> last_log (snd (fail c t s)) = t"
    and fail_later: "failures s \<noteq> 0 \<Longrightarrow>
      fst (fail c t s) = (gap s \<le> t - last_log s) \<and>
      last_log (snd (fail c t s)) = (if gap s \<le> t - last_log s then t else last_log s)"
    and fail_count: "failures (snd (fail c t s)) = failures s + 1"
    and fail_gap: "gap (snd (fail c t s)) = gap s"
begin

fun log_times :: "(int \<times> time_point) list \<Rightarrow> 's \<Rightarrow> time_point list \<times> 's" where
  "log_times [] s = ([], s)"
| "log_times ((c, t) # fs) s =
     (let (logged, s1) = fail c t s; (ts, s2) = log_times fs s1
      in (if logged then t # ts else ts, s2))"

lemma log_times_spaced:
  "log_times fs s = (ts, s') \<Longrightarrow> 0 \<le> gap s \<Longrightarrow> unat (failures s) + length fs < 2 ^ 64 \<Longrightarrow>
   sorted_wrt (\<lambda>a b. a + gap s \<le> b) ts \<and>
   (failures s \<noteq> 0 \<longrightarrow> (\<forall>t \<in> set ts. last_log s + gap s \<le> t)) \<and>
   unat (failures s') = unat (failures s) + length fs"
proof (induction fs arbitrary: s ts)
  case Nil
  then show ?case by simp
next
  case (Cons f fs)
  obtain c t where f: "f = (c, t)" by (cases f)
  obtain lg s1 where s1: "fail c t s = (lg, s1)" by (cases "fail c t s")
  obtain ts1 where r: "log_times fs s1 = (ts1, s')" and ts: "ts = (if lg then t # ts1 else ts1)"
    using Cons.prems(1) f s1 by (auto split: prod.splits)
  have n1: "unat (failures s1) = unat (failures s) + 1" "failures s1 \<noteq> 0"
    using succ_count [of "failures s"] fail_count [of c t s] s1 Cons.prems(3) by auto
  have g1: "gap s1 = gap s" using fail_gap [of c t s] s1 by simp
  have ih: "sorted_wrt (\<lambda>a b. a + gap s \<le> b) ts1"
    "\<forall>x \<in> set ts1. last_log s1 + gap s \<le> x"
    "unat (failures s') = unat (failures s) + length (f # fs)"
    using Cons.IH [OF r] Cons.prems(2,3) n1 g1 by auto
  show ?case
  proof (cases "failures s = 0")
    case True
    then have "lg \<and> last_log s1 = t" using fail_first [OF True, of c t] s1 by simp
    then show ?thesis using ih True ts by (auto simp: add.commute)
  next
    case False
    then have l: "lg = (gap s \<le> t - last_log s)" "last_log s1 = (if lg then t else last_log s)"
      using fail_later [OF False, of c t] s1 by auto
    have "\<forall>x \<in> set ts. last_log s + gap s \<le> x"
      using ih(2) l ts Cons.prems(2) by (fastforce split: if_splits)
    then show ?thesis using ih l ts by (auto split: if_splits)
  qed
qed

lemma log_times_first:
  "failures s = 0 \<Longrightarrow> log_times ((c, t) # fs) s = (ts, s') \<Longrightarrow> ts \<noteq> [] \<and> hd ts = t"
  using fail_first [of s c t] by (auto split: prod.splits if_splits)

end

section \<open>FailureRateLimiter\<close>

datatype failure_report_event = kNone | kFirst | kSummary | kRecovery

record failure_report =
  report_event :: failure_report_event
  report_failures :: u64
  report_changes :: u64
  report_code :: int
  report_seconds :: int

record limiter =
  interval :: time_point
  started :: time_point
  last_report :: time_point
  episode_failures :: u64
  code_changes :: u64
  latest_code :: int

definition limiter_new :: "int \<Rightarrow> limiter" where
  "limiter_new secs = \<lparr>interval = seconds secs, started = 0, last_report = 0,
     episode_failures = 0, code_changes = 0, latest_code = 0\<rparr>"

definition snapshot :: "failure_report_event \<Rightarrow> time_point \<Rightarrow> limiter \<Rightarrow> failure_report" where
  "snapshot e now l =
     \<lparr>report_event = e, report_failures = episode_failures l, report_changes = code_changes l,
      report_code = latest_code l, report_seconds = in_seconds (now - started l)\<rparr>"

definition on_failure :: "int \<Rightarrow> time_point \<Rightarrow> limiter \<Rightarrow> failure_report \<times> limiter" where
  "on_failure code now l =
     (if episode_failures l = 0 then
        (let l1 = l\<lparr>started := now, last_report := now, latest_code := code, episode_failures := 1\<rparr>
         in (snapshot kFirst now l1, l1))
      else
        (let l1 = l\<lparr>episode_failures := episode_failures l + 1\<rparr>;
             l2 = (if latest_code l1 \<noteq> code
                   then l1\<lparr>latest_code := code, code_changes := code_changes l1 + 1\<rparr> else l1)
         in if interval l2 \<le> now - last_report l2 then
              (let l3 = l2\<lparr>last_report := now\<rparr> in (snapshot kSummary now l3, l3))
            else (snapshot kNone now l2, l2)))"

definition on_recovery :: "time_point \<Rightarrow> limiter \<Rightarrow> failure_report \<times> limiter" where
  "on_recovery now l =
     (if episode_failures l = 0 then
        (\<lparr>report_event = kNone, report_failures = 0, report_changes = 0, report_code = 0,
          report_seconds = 0\<rparr>, l)
      else (snapshot kRecovery now l,
            l\<lparr>episode_failures := 0, code_changes := 0, latest_code := 0\<rparr>))"

text \<open>\<open>BusProcess::ReportFailure\<close> and \<open>ReportRecovered\<close>: the log line, if any.\<close>

definition bus_report_failure :: "int \<Rightarrow> time_point \<Rightarrow> limiter \<Rightarrow> bool \<times> limiter" where
  "bus_report_failure code now l =
     (case on_failure code now l of
        (r, l') \<Rightarrow> (report_event r = kFirst \<or> report_event r = kSummary, l'))"

definition bus_report_recovered :: "time_point \<Rightarrow> limiter \<Rightarrow> failure_report option \<times> limiter" where
  "bus_report_recovered now l =
     (case on_recovery now l of
        (r, l') \<Rightarrow> (if report_event r \<noteq> kRecovery then None else Some r, l'))"

interpretation limiter: episode_log bus_report_failure episode_failures last_report interval
  by unfold_locales
    (auto simp: bus_report_failure_def on_failure_def snapshot_def Let_def)

section \<open>The reporting of InfProcess\<close>

record inf_report =
  fail_streak :: u64
  fail_total :: u64
  streak_start :: time_point
  last_fail_log :: time_point

definition inf_report_new :: inf_report where
  "inf_report_new = \<lparr>fail_streak = 0, fail_total = 0, streak_start = 0, last_fail_log = 0\<rparr>"

datatype inf_log = InfFailed int | InfStill int u64 u64 | InfRecovered int u64 u64

definition kFailLogInterval :: time_point where "kFailLogInterval = seconds 5"

definition inf_report_failure :: "int \<Rightarrow> time_point \<Rightarrow> inf_report \<Rightarrow> inf_log option \<times> inf_report" where
  "inf_report_failure code now r =
     (let r1 = r\<lparr>fail_total := fail_total r + 1\<rparr>;
          (lg, r2) =
            (if fail_streak r1 = 0 then
               (Some (InfFailed code), r1\<lparr>last_fail_log := now, streak_start := now\<rparr>)
             else if kFailLogInterval \<le> now - last_fail_log r1 then
               (Some (InfStill (in_seconds (now - streak_start r1)) (fail_streak r1) (fail_total r1)),
                r1\<lparr>last_fail_log := now\<rparr>)
             else (None, r1))
      in (lg, r2\<lparr>fail_streak := fail_streak r2 + 1\<rparr>))"

definition inf_report_recovered :: "time_point \<Rightarrow> inf_report \<Rightarrow> inf_log option \<times> inf_report" where
  "inf_report_recovered now r =
     (if fail_streak r = 0 then (None, r)
      else (Some (InfRecovered (in_seconds (now - streak_start r)) (fail_streak r) (fail_total r)),
            r\<lparr>fail_streak := 0\<rparr>))"

definition inf_fail :: "int \<Rightarrow> time_point \<Rightarrow> inf_report \<Rightarrow> bool \<times> inf_report" where
  "inf_fail code now r = (case inf_report_failure code now r of (lg, r') \<Rightarrow> (lg \<noteq> None, r'))"

interpretation inf: episode_log inf_fail fail_streak last_fail_log "\<lambda>r. kFailLogInterval"
  by unfold_locales (auto simp: inf_fail_def inf_report_failure_def Let_def)

section \<open>One episode of failures\<close>

text \<open>What a run of failures leaves in the limiter, as a function of the run.\<close>

fun fail_all :: "(int \<times> time_point) list \<Rightarrow> limiter \<Rightarrow> failure_report list \<times> limiter" where
  "fail_all [] l = ([], l)"
| "fail_all ((c, t) # fs) l =
     (let (r, l1) = on_failure c t l; (rs, l2) = fail_all fs l1 in (r # rs, l2))"

fun changes :: "int \<Rightarrow> int list \<Rightarrow> nat" where
  "changes c [] = 0"
| "changes c (d # ds) = (if c = d then 0 else 1) + changes d ds"

lemma on_failure_later:
  assumes "episode_failures l \<noteq> 0" "on_failure c t l = (r, l')"
  shows "episode_failures l' = episode_failures l + 1" "started l' = started l" "latest_code l' = c"
    "code_changes l' = code_changes l + (if latest_code l = c then 0 else 1)"
    "report_event r = kNone \<or> report_event r = kSummary" "interval l' = interval l"
  using assms by (auto simp: on_failure_def snapshot_def Let_def split: if_splits)

lemma fail_all_later:
  "fail_all fs l = (rs, l') \<Longrightarrow> episode_failures l \<noteq> 0 \<Longrightarrow>
   unat (episode_failures l) + length fs < 2 ^ 64 \<Longrightarrow>
   episode_failures l' = episode_failures l + of_nat (length fs) \<and> episode_failures l' \<noteq> 0 \<and>
   started l' = started l \<and> latest_code l' = last (latest_code l # map fst fs) \<and>
   code_changes l' = code_changes l + of_nat (changes (latest_code l) (map fst fs)) \<and>
   (\<forall>r \<in> set rs. report_event r = kNone \<or> report_event r = kSummary)"
proof (induction fs arbitrary: l rs)
  case Nil
  then show ?case by simp
next
  case (Cons f fs)
  obtain c t where f: "f = (c, t)" by (cases f)
  obtain r l1 where o: "on_failure c t l = (r, l1)" by (cases "on_failure c t l")
  obtain rs1 where rs: "fail_all fs l1 = (rs1, l')" "rs = r # rs1"
    using Cons.prems(1) f o by (auto split: prod.splits)
  note n = on_failure_later [OF Cons.prems(2) o]
  have c1: "unat (episode_failures l1) = unat (episode_failures l) + 1" "episode_failures l1 \<noteq> 0"
    using succ_count [of "episode_failures l"] n(1) Cons.prems(3) by auto
  show ?case
    using Cons.IH [OF rs(1) c1(2)] c1 n Cons.prems(3) rs(2) f by (auto simp: add.assoc)
qed

section \<open>Reporting a scene result\<close>

datatype bus_log = BusFailed string | BusRecovered string failure_report

record bus_limiters =
  postprocessor_failure :: limiter
  business_failure :: limiter

definition bus_limiters_new :: bus_limiters where
  "bus_limiters_new =
     \<lparr>postprocessor_failure = limiter_new 5, business_failure = limiter_new 5\<rparr>"

definition bus_report_result ::
    "scene_process_result \<Rightarrow> time_point \<Rightarrow> bus_limiters \<Rightarrow> bus_log list \<times> bus_limiters" where
  "bus_report_result res now b =
     (if result_stage res = kPostProcessor then
        (let (lg, l) = bus_report_failure (result_code res) now (postprocessor_failure b)
         in (if lg then [BusFailed ''postprocessor''] else [], b\<lparr>postprocessor_failure := l\<rparr>))
      else
        (let (rec1, l1) = bus_report_recovered now (postprocessor_failure b);
             b1 = b\<lparr>postprocessor_failure := l1\<rparr>;
             logs1 = (case rec1 of None \<Rightarrow> [] | Some r \<Rightarrow> [BusRecovered ''postprocessor'' r])
         in if result_stage res = kBusinessPlugin then
              (let (lg, l) = bus_report_failure (result_code res) now (business_failure b1)
               in (logs1 @ (if lg then [BusFailed ''business plugin''] else []),
                   b1\<lparr>business_failure := l\<rparr>))
            else
              (let (rec2, l2) = bus_report_recovered now (business_failure b1)
               in (logs1 @ (case rec2 of None \<Rightarrow> [] | Some r \<Rightarrow> [BusRecovered ''business plugin'' r]),
                   b1\<lparr>business_failure := l2\<rparr>))))"

text \<open>\<open>MakeBusFrameDispatchPlan\<close>.\<close>

record bus_frame_dispatch_plan =
  run_runtime :: bool
  forward_count :: u8

definition make_bus_frame_dispatch_plan :: "bool \<Rightarrow> bool \<Rightarrow> bus_frame_dispatch_plan" where
  "make_bus_frame_dispatch_plan has_valid_input pixels_accessible =
     (if \<not> has_valid_input then \<lparr>run_runtime = False, forward_count = 0\<rparr>
      else \<lparr>run_runtime = pixels_accessible, forward_count = 1\<rparr>)"

section \<open>Properties\<close>

text \<open>Failure logs are rate limited, in both implementations: in one episode the first failure is
  logged at once and any two log lines are at least the interval apart (five seconds for
  \<open>InfProcess\<close>, the constructor's argument for the limiter).\<close>

theorem failure_logs_spaced:
  assumes "limiter.log_times ((c, t) # fs) (limiter_new secs) = (ts, l)"
    "inf.log_times ((c, t) # fs) inf_report_new = (us, r)"
    "0 \<le> secs" "Suc (length fs) < 2 ^ 64"
  shows "ts \<noteq> [] \<and> hd ts = t \<and> sorted_wrt (\<lambda>a b. a + secs * 1000000000 \<le> b) ts \<and>
    us \<noteq> [] \<and> hd us = t \<and> sorted_wrt (\<lambda>a b. a + 5000000000 \<le> b) us"
proof -
  have l0: "episode_failures (limiter_new secs) = 0" "interval (limiter_new secs) = secs * 1000000000"
    by (simp_all add: limiter_new_def seconds_def)
  have r0: "fail_streak inf_report_new = 0" "kFailLogInterval = 5000000000"
    by (simp_all add: inf_report_new_def kFailLogInterval_def seconds_def)
  show ?thesis
    using limiter.log_times_first [OF l0(1) assms(1)] inf.log_times_first [OF r0(1) assms(2)]
      limiter.log_times_spaced [OF assms(1)] inf.log_times_spaced [OF assms(2)] assms(3,4) l0 r0
    by simp
qed

theorem failure_logs_spaced_witness:
  "let fs = [(-2, 0), (-2, 1000000000), (-3, 5000000000), (-2, 6000000000), (-2, 11000000000)];
       ts = fst (limiter.log_times fs (limiter_new 5)); us = fst (inf.log_times fs inf_report_new)
   in hd ts = 0 \<and> sorted_wrt (\<lambda>a b. a + 5 * 1000000000 \<le> b) ts \<and>
      sorted_wrt (\<lambda>a b. a + 5000000000 \<le> b) us"
  unfolding Let_def
  using failure_logs_spaced [OF prod.collapse [symmetric] prod.collapse [symmetric], of 5
      "[(-2, 1000000000), (-3, 5000000000), (-2, 6000000000), (-2, 11000000000)]" "-2" 0]
  by simp

text \<open>The recovery report tells the truth about the episode: after any failures (fewer than
  \<open>2 ^ 64\<close>) since the last recovery, the first report is the only \<open>kFirst\<close>, and the recovery report
  carries the number of failures, the number of changes of the code, the last code and the seconds
  since the first failure; the limiter is then ready for a new episode.\<close>

theorem recovery_report_exact:
  assumes "fail_all ((c, t) # fs) l = (r # rs, l1)" "episode_failures l = 0" "code_changes l = 0"
    "Suc (length fs) < 2 ^ 64" "on_recovery now l1 = (rep, l2)"
  shows "report_event r = kFirst \<and> (\<forall>x \<in> set rs. report_event x \<noteq> kFirst) \<and>
    rep = \<lparr>report_event = kRecovery, report_failures = of_nat (Suc (length fs)),
           report_changes = of_nat (changes c (map fst fs)), report_code = last (c # map fst fs),
           report_seconds = in_seconds (now - t)\<rparr> \<and>
    episode_failures l2 = 0 \<and> code_changes l2 = 0"
proof -
  let ?l = "l\<lparr>started := t, last_report := t, latest_code := c, episode_failures := 1\<rparr>"
  have o: "on_failure c t l = (snapshot kFirst t ?l, ?l)"
    using assms(2) by (simp add: on_failure_def Let_def)
  have f: "fail_all fs ?l = (rs, l1)" "r = snapshot kFirst t ?l"
    using assms(1) o by (auto split: prod.splits)
  have e: "episode_failures l1 = of_nat (Suc (length fs)) \<and>
    started l1 = t \<and> latest_code l1 = last (c # map fst fs) \<and>
    code_changes l1 = of_nat (changes c (map fst fs)) \<and>
    (\<forall>x \<in> set rs. report_event x = kNone \<or> report_event x = kSummary)"
    using fail_all_later [OF f(1)] assms(3,4) by simp
  have l0: "episode_failures ?l \<noteq> 0" "unat (episode_failures ?l) + length fs < 2 ^ 64"
    using assms(4) by simp_all
  have ne: "episode_failures l1 \<noteq> 0" using fail_all_later [OF f(1) l0] by blast
  have "rep = snapshot kRecovery now l1" "l2 = l1\<lparr>episode_failures := 0, code_changes := 0, latest_code := 0\<rparr>"
    using assms(5) ne by (auto simp: on_recovery_def)
  then show ?thesis using e f(2) by (auto simp: snapshot_def)
qed

theorem recovery_report_exact_witness:
  "let l1 = snd (fail_all [(-2, 0), (-3, 1000000000), (-2, 6000000000)] (limiter_new 5))
   in fst (on_recovery 9000000000 l1) =
      \<lparr>report_event = kRecovery, report_failures = 3, report_changes = 2, report_code = -2,
       report_seconds = 9\<rparr>"
proof -
  let ?x = "fail_all [(-2, 0), (-3, 1000000000), (-2, 6000000000)] (limiter_new 5)"
  have e: "?x = (hd (fst ?x) # tl (fst ?x), snd ?x)" by (simp split: prod.splits)
  show ?thesis
    unfolding Let_def
    using recovery_report_exact [OF e _ _ _ prod.collapse [symmetric], of 9000000000]
    by (simp add: limiter_new_def in_seconds_def c_div_def)
qed

text \<open>The two failure sources of \<open>BusProcess\<close> do not mix: a post-processor failure leaves the
  business limiter alone, a business failure closes the post-processor episode and counts on the
  business limiter only, and a good frame closes both episodes.\<close>

theorem bus_report_result_separates:
  "bus_report_result res now b = (logs, b') \<Longrightarrow>
   (case result_stage res of
      kPostProcessor \<Rightarrow> business_failure b' = business_failure b \<and>
        episode_failures (postprocessor_failure b') = episode_failures (postprocessor_failure b) + 1
    | kBusinessPlugin \<Rightarrow> episode_failures (postprocessor_failure b') = 0 \<and>
        episode_failures (business_failure b') = episode_failures (business_failure b) + 1
    | kStageOk \<Rightarrow> episode_failures (postprocessor_failure b') = 0 \<and>
        episode_failures (business_failure b') = 0)"
  using limiter.fail_count
  by (cases "result_stage res")
    (auto simp: bus_report_result_def bus_report_recovered_def on_recovery_def Let_def prod_eq_iff
      split: prod.splits if_splits)

theorem bus_report_result_separates_witness:
  "let (logs, b) = bus_report_result \<lparr>result_stage = kBusinessPlugin, result_code = -7\<rparr> 100 bus_limiters_new
   in episode_failures (postprocessor_failure b) = 0 \<and>
      episode_failures (business_failure b) = episode_failures (business_failure bus_limiters_new) + 1"
  using bus_report_result_separates [OF prod.collapse [symmetric],
      of "\<lparr>result_stage = kBusinessPlugin, result_code = -7\<rparr>" 100 bus_limiters_new]
  by (simp add: case_prod_beta)

end
