(* ===== verification/Hw_Ids.thy ===== *)
theory Hw_Ids
  imports Ax_Prelude
begin

text \<open>
  The system-wide allocator of hardware ids (\<open>hal/ax/hw_id_allocator.cpp\<close>): a table in shared memory
  holds, for every id, the process that owns it; ids of dead processes are taken over. The system
  calls and the process table are part of the state that the steps change; \<open>Acquire\<close> and \<open>Release\<close>
  hold the shared mutex, so each is one step.
\<close>

section \<open>The shared table\<close>

datatype hw_id_kind = kIvps | kVdec | kVenc

definition kMagic :: u32 where "kMagic = 0x41584944"
definition kVersion :: u32 where "kVersion = 1"
definition kIvpsMax :: nat where "kIvpsMax = 256"
definition kVdecMax :: nat where "kVdecMax = 164"
definition kVencMax :: nat where "kVencMax = 64"

record shm_layout =
  magic :: u32
  version :: u32
  ivps_pid :: "u32 list"
  vdec_pid :: "u32 list"
  venc_pid :: "u32 list"

text \<open>A freshly truncated object reads as zeros.\<close>

definition zero_layout :: shm_layout where
  "zero_layout = \<lparr>magic = 0, version = 0, ivps_pid = replicate kIvpsMax 0,
     vdec_pid = replicate kVdecMax 0, venc_pid = replicate kVencMax 0\<rparr>"

fun slots :: "hw_id_kind \<Rightarrow> shm_layout \<Rightarrow> u32 list" where
  "slots kIvps l = ivps_pid l"
| "slots kVdec l = vdec_pid l"
| "slots kVenc l = venc_pid l"

fun set_slot :: "hw_id_kind \<Rightarrow> nat \<Rightarrow> u32 \<Rightarrow> shm_layout \<Rightarrow> shm_layout" where
  "set_slot kIvps i v l = l\<lparr>ivps_pid := (ivps_pid l)[i := v]\<rparr>"
| "set_slot kVdec i v l = l\<lparr>vdec_pid := (vdec_pid l)[i := v]\<rparr>"
| "set_slot kVenc i v l = l\<lparr>venc_pid := (venc_pid l)[i := v]\<rparr>"

fun slot_count :: "hw_id_kind \<Rightarrow> nat" where
  "slot_count kIvps = kIvpsMax"
| "slot_count kVdec = kVdecMax"
| "slot_count kVenc = kVencMax"

definition init_layout :: "int \<Rightarrow> shm_layout \<Rightarrow> bool \<times> shm_layout" where
  "init_layout mutex_init_ret l =
     (if mutex_init_ret \<noteq> 0 then (False, zero_layout)
      else (True, zero_layout\<lparr>version := kVersion, magic := kMagic\<rparr>))"

text \<open>The results of the system calls on the way to the mapping.\<close>

record os_results =
  shm_open_ok :: bool
  flock_ok :: bool
  fstat_ok :: bool
  ftruncate_ok :: bool
  mmap_ok :: bool
  mutex_init :: int

text \<open>The object is absent or empty (\<open>None\<close>), or it holds a layout.\<close>

definition map_and_init :: "os_results \<Rightarrow> shm_layout option \<Rightarrow> bool \<times> shm_layout option" where
  "map_and_init os shm =
     (if \<not> flock_ok os then (False, shm)
      else if \<not> fstat_ok os then (False, shm)
      else if shm = None \<and> \<not> ftruncate_ok os then (False, shm)
      else
        (let l = (case shm of None \<Rightarrow> zero_layout | Some l \<Rightarrow> l)
         in if \<not> mmap_ok os then (False, Some l)
            else if magic l \<noteq> kMagic \<or> version l \<noteq> kVersion then
              (case init_layout (mutex_init os) l of (ok, l') \<Rightarrow> (ok, Some l'))
            else (True, Some l)))"

section \<open>Processes\<close>

text \<open>What a process remembers of \<open>EnsureShm\<close>: not called yet, or called with this outcome.
  \<open>g_shm\<close> is set exactly when the outcome is good.\<close>

type_synonym once = "bool option"

record hw_sys =
  shm :: "shm_layout option"
  procs :: "u32 \<Rightarrow> once option"

definition pid_alive :: "hw_sys \<Rightarrow> u32 \<Rightarrow> bool" where
  "pid_alive s pid = (pid \<noteq> 0 \<and> procs s pid \<noteq> None)"

definition ensure_shm :: "os_results \<Rightarrow> u32 \<Rightarrow> hw_sys \<Rightarrow> bool \<times> hw_sys" where
  "ensure_shm os self s =
     (case procs s self of
        Some (Some ok) \<Rightarrow> (ok, s)
      | _ \<Rightarrow>
          (if \<not> shm_open_ok os then (False, s\<lparr>procs := (procs s)(self \<mapsto> Some False)\<rparr>)
           else case map_and_init os (shm s) of
                  (ok, f) \<Rightarrow> (ok, s\<lparr>shm := f, procs := (procs s)(self \<mapsto> Some ok)\<rparr>)))"

fun first_free :: "(u32 \<Rightarrow> bool) \<Rightarrow> nat \<Rightarrow> u32 list \<Rightarrow> nat option" where
  "first_free alive i [] = None"
| "first_free alive i (p # ps) =
     (if p \<noteq> 0 \<and> alive p then first_free alive (Suc i) ps else Some i)"

text \<open>\<open>lock_ret\<close> is the result of \<open>pthread_mutex_lock\<close>; an owner that died is no failure.\<close>

definition kEOWNERDEAD :: int where "kEOWNERDEAD = 130"

definition lock_mu :: "int \<Rightarrow> int" where
  "lock_mu lock_ret = (if lock_ret = kEOWNERDEAD then 0 else lock_ret)"

definition hw_acquire :: "os_results \<Rightarrow> int \<Rightarrow> u32 \<Rightarrow> hw_id_kind \<Rightarrow> hw_sys \<Rightarrow> int \<times> hw_sys" where
  "hw_acquire os lock_ret self kind s =
     (case ensure_shm os self s of
        (False, s1) \<Rightarrow> (-1, s1)
      | (True, s1) \<Rightarrow>
          (if lock_mu lock_ret \<noteq> 0 then (-1, s1)
           else case shm s1 of
                  None \<Rightarrow> (-1, s1)
                | Some l \<Rightarrow>
                    (case first_free (pid_alive s1) 0 (slots kind l) of
                       None \<Rightarrow> (-1, s1)
                     | Some i \<Rightarrow> (int i, s1\<lparr>shm := Some (set_slot kind i self l)\<rparr>))))"

definition hw_release :: "os_results \<Rightarrow> int \<Rightarrow> u32 \<Rightarrow> hw_id_kind \<Rightarrow> int \<Rightarrow> hw_sys \<Rightarrow> hw_sys" where
  "hw_release os lock_ret self kind hid s =
     (if hid < 0 then s
      else case ensure_shm os self s of
             (False, s1) \<Rightarrow> s1
           | (True, s1) \<Rightarrow>
               (if int (slot_count kind) \<le> hid then s1
                else if lock_mu lock_ret \<noteq> 0 then s1
                else case shm s1 of
                       None \<Rightarrow> s1
                     | Some l \<Rightarrow>
                         (if slots kind l ! nat hid = self
                          then s1\<lparr>shm := Some (set_slot kind (nat hid) 0 l)\<rparr> else s1)))"

section \<open>The system\<close>

text \<open>The ids that live processes have got and not given back, as a ghost beside the state.\<close>

record hw_world =
  sys :: hw_sys
  held :: "(u32 \<times> hw_id_kind \<times> nat) set"

definition hw_init :: hw_world where
  "hw_init = \<lparr>sys = \<lparr>shm = None, procs = (\<lambda>p. None)\<rparr>, held = {}\<rparr>"

definition hw_spawn :: "u32 \<Rightarrow> hw_world \<Rightarrow> hw_world option" where
  "hw_spawn pid w =
     (if pid = 0 \<or> procs (sys w) pid \<noteq> None then None
      else Some (w\<lparr>sys := (sys w)\<lparr>procs := (procs (sys w))(pid \<mapsto> None)\<rparr>\<rparr>))"

definition hw_die :: "u32 \<Rightarrow> hw_world \<Rightarrow> hw_world" where
  "hw_die pid w =
     w\<lparr>sys := (sys w)\<lparr>procs := (procs (sys w))(pid := None)\<rparr>,
       held := {h \<in> held w. fst h \<noteq> pid}\<rparr>"

definition do_acquire :: "os_results \<Rightarrow> int \<Rightarrow> u32 \<Rightarrow> hw_id_kind \<Rightarrow> hw_world \<Rightarrow> hw_world option" where
  "do_acquire os lr self kind w =
     (if \<not> pid_alive (sys w) self then None
      else case hw_acquire os lr self kind (sys w) of
             (hid, s') \<Rightarrow>
               Some (w\<lparr>sys := s',
                       held := (if 0 \<le> hid then insert (self, kind, nat hid) (held w) else held w)\<rparr>))"

definition do_release :: "os_results \<Rightarrow> int \<Rightarrow> u32 \<Rightarrow> hw_id_kind \<Rightarrow> int \<Rightarrow> hw_world \<Rightarrow> hw_world option" where
  "do_release os lr self kind hid w =
     (if \<not> pid_alive (sys w) self then None
      else Some (w\<lparr>sys := hw_release os lr self kind hid (sys w),
                   held := (if 0 \<le> hid then held w - {(self, kind, nat hid)} else held w)\<rparr>))"

inductive hw_step :: "hw_world \<Rightarrow> hw_world \<Rightarrow> bool" where
  spawn: "hw_spawn pid w = Some w' \<Longrightarrow> hw_step w w'"
| die: "hw_step w (hw_die pid w)"
| acquire: "do_acquire os lr self kind w = Some w' \<Longrightarrow> hw_step w w'"
| release: "do_release os lr self kind hid w = Some w' \<Longrightarrow> hw_step w w'"

inductive hw_reachable :: "hw_world \<Rightarrow> bool" where
  init: "hw_reachable hw_init"
| step: "hw_reachable w \<Longrightarrow> hw_step w w' \<Longrightarrow> hw_reachable w'"

section \<open>Slots\<close>

lemma slots_set_slot [simp]:
  "slots k (set_slot k' i v l) = (if k = k' then (slots k l)[i := v] else slots k l)"
  by (cases k; cases k') auto

lemma set_slot_header [simp]:
  "magic (set_slot k i v l) = magic l" "version (set_slot k i v l) = version l"
  by (cases k; simp)+

definition layout_ok :: "shm_layout \<Rightarrow> bool" where
  "layout_ok l = (length (ivps_pid l) = kIvpsMax \<and> length (vdec_pid l) = kVdecMax \<and>
     length (venc_pid l) = kVencMax)"

lemma layout_slots: "layout_ok l \<Longrightarrow> length (slots k l) = slot_count k"
  by (cases k) (simp_all add: layout_ok_def)

lemma layout_set_slot: "layout_ok l \<Longrightarrow> layout_ok (set_slot k i v l)"
  by (cases k) (simp_all add: layout_ok_def)

lemma layout_zero: "layout_ok zero_layout" "layout_ok (zero_layout\<lparr>version := v, magic := m\<rparr>)"
  by (simp_all add: layout_ok_def zero_layout_def)

definition ready :: "shm_layout \<Rightarrow> bool" where
  "ready l = (layout_ok l \<and> magic l = kMagic \<and> version l = kVersion)"

lemma first_free_Some:
  "first_free al i ps = Some n \<Longrightarrow>
   i \<le> n \<and> n < i + length ps \<and> (ps ! (n - i) = 0 \<or> \<not> al (ps ! (n - i))) \<and>
   (\<forall>j < n - i. ps ! j \<noteq> 0 \<and> al (ps ! j))"
proof (induction al i ps rule: first_free.induct)
  case (2 al i p ps)
  show ?case
  proof (cases "p \<noteq> 0 \<and> al p")
    case True
    then have h: "Suc i \<le> n" "n < Suc i + length ps"
      "ps ! (n - Suc i) = 0 \<or> \<not> al (ps ! (n - Suc i))"
      "\<forall>j < n - Suc i. ps ! j \<noteq> 0 \<and> al (ps ! j)"
      using 2 by auto
    have e: "n - i = Suc (n - Suc i)" using h(1) by simp
    then show ?thesis using h True by (auto simp: less_Suc_eq_0_disj)
  next
    case False
    then show ?thesis using 2 by auto
  qed
qed simp

lemma first_free_None: "first_free al i ps = None \<longleftrightarrow> (\<forall>p \<in> set ps. p \<noteq> 0 \<and> al p)"
  by (induction al i ps rule: first_free.induct) auto

section \<open>The invariant\<close>

text \<open>Whoever has mapped the table has found it ready, a ready table stays ready, and every id held by
  a process is marked with that process, which is alive.\<close>

definition hw_ok :: "hw_world \<Rightarrow> bool" where
  "hw_ok w =
     ((\<forall>l. shm (sys w) = Some l \<longrightarrow> layout_ok l) \<and>
      (\<forall>p. procs (sys w) p = Some (Some True) \<longrightarrow> (\<exists>l. shm (sys w) = Some l \<and> ready l)) \<and>
      (\<forall>p k i. (p, k, i) \<in> held w \<longrightarrow> pid_alive (sys w) p \<and>
         (\<exists>l. shm (sys w) = Some l \<and> ready l \<and> i < slot_count k \<and> slots k l ! i = p)))"

lemma map_and_init_ready:
  assumes "map_and_init os f = (ok, f')" "\<forall>l. f = Some l \<longrightarrow> layout_ok l"
  shows "(\<forall>l. f' = Some l \<longrightarrow> layout_ok l) \<and> (ok \<longrightarrow> (\<exists>l. f' = Some l \<and> ready l)) \<and>
    (\<forall>l. f = Some l \<and> ready l \<longrightarrow> f' = f)"
  using assms layout_zero
  by (auto simp: map_and_init_def init_layout_def ready_def Let_def split: if_splits option.splits prod.splits)

lemma hw_ok_ensure:
  assumes "hw_ok w" "pid_alive (sys w) self" "ensure_shm os self (sys w) = (ok, s')"
  shows "hw_ok (w\<lparr>sys := s'\<rparr>)" "ok \<Longrightarrow> \<exists>l. shm s' = Some l \<and> ready l" "pid_alive s' = pid_alive (sys w)"
proof -
  have a: "procs (sys w) self \<noteq> None" using assms(2) by (simp add: pid_alive_def)
  have "hw_ok (w\<lparr>sys := s'\<rparr>) \<and> (ok \<longrightarrow> (\<exists>l. shm s' = Some l \<and> ready l)) \<and> pid_alive s' = pid_alive (sys w)"
  proof (cases "\<exists>r. procs (sys w) self = Some (Some r)")
    case True
    then show ?thesis using assms by (auto simp: ensure_shm_def hw_ok_def)
  next
    case False
    then have n: "procs (sys w) self = Some None" using a by (metis not_None_eq)
    show ?thesis
    proof (cases "shm_open_ok os")
      case False
      then show ?thesis using assms n
        by (auto simp: ensure_shm_def hw_ok_def pid_alive_def fun_eq_iff split: if_splits)
    next
      case True
      obtain ok1 f where m: "map_and_init os (shm (sys w)) = (ok1, f)" by fastforce
      then have e: "ok = ok1" "s' = (sys w)\<lparr>shm := f, procs := (procs (sys w))(self \<mapsto> Some ok1)\<rparr>"
        using assms(3) n True by (auto simp: ensure_shm_def)
      have lay: "\<forall>l. shm (sys w) = Some l \<longrightarrow> layout_ok l"
        and ok: "\<And>p. procs (sys w) p = Some (Some True) \<Longrightarrow> \<exists>l. shm (sys w) = Some l \<and> ready l"
        and hd: "\<And>p k i. (p, k, i) \<in> held w \<Longrightarrow> pid_alive (sys w) p \<and>
          (\<exists>l. shm (sys w) = Some l \<and> ready l \<and> i < slot_count k \<and> slots k l ! i = p)"
        using assms(1) unfolding hw_ok_def by blast+
      note r = map_and_init_ready [OF m lay]
      have al: "pid_alive s' = pid_alive (sys w)" using n e by (auto simp: pid_alive_def fun_eq_iff)
      have sh: "shm s' = f" using e by simp
      have keep: "f = shm (sys w)" if "\<exists>l. shm (sys w) = Some l \<and> ready l" using r that by blast
      have "\<exists>l. f = Some l \<and> ready l" if "procs s' p = Some (Some True)" for p
      proof (cases "p = self")
        case True
        then show ?thesis using that e r by simp
      next
        case False
        then have "\<exists>l. shm (sys w) = Some l \<and> ready l" using that e ok [of p] by simp
        then show ?thesis using keep by simp
      qed
      moreover have "pid_alive s' p \<and> (\<exists>l. f = Some l \<and> ready l \<and> i < slot_count k \<and> slots k l ! i = p)"
        if "(p, k, i) \<in> held w" for p k i
        using hd [OF that] keep al by auto
      ultimately have "hw_ok (w\<lparr>sys := s'\<rparr>)" using r sh by (simp add: hw_ok_def)
      then show ?thesis using r sh al e(1) by simp
    qed
  qed
  then show "hw_ok (w\<lparr>sys := s'\<rparr>)" "ok \<Longrightarrow> \<exists>l. shm s' = Some l \<and> ready l"
    "pid_alive s' = pid_alive (sys w)" by auto
qed

lemma pid_alive_shm [simp]: "pid_alive (s\<lparr>shm := f\<rparr>) = pid_alive s"
  by (simp add: pid_alive_def fun_eq_iff)

lemma hw_ok_set_slot:
  assumes ok: "hw_ok (w\<lparr>sys := s1\<rparr>)" and l: "shm s1 = Some l" "ready l" and i: "i < slot_count kind"
    and h: "\<And>p k j. (p, k, j) \<in> H \<Longrightarrow>
        (p, k, j) \<in> held w \<and> (k, j) \<noteq> (kind, i) \<or> (p, k, j) = (v, kind, i) \<and> pid_alive s1 v"
  shows "hw_ok (w\<lparr>sys := s1\<lparr>shm := Some (set_slot kind i v l)\<rparr>, held := H\<rparr>)"
proof -
  let ?l = "set_slot kind i v l"
  have r: "ready ?l" using l(2) by (simp add: ready_def layout_set_slot)
  have n: "i < length (slots kind l)" using i l(2) layout_slots [of l kind] by (simp add: ready_def)
  have hd: "pid_alive s1 p \<and> j < slot_count k \<and> slots k l ! j = p" if "(p, k, j) \<in> held w" for p k j
    using ok that l(1) by (simp add: hw_ok_def)
  have "pid_alive s1 p \<and> j < slot_count k \<and> slots k ?l ! j = p" if "(p, k, j) \<in> H" for p k j
    using h [OF that]
  proof
    assume "(p, k, j) \<in> held w \<and> (k, j) \<noteq> (kind, i)"
    then show ?thesis using hd [of p k j] by (auto simp: nth_list_update)
  next
    assume "(p, k, j) = (v, kind, i) \<and> pid_alive s1 v"
    then show ?thesis using i n by simp
  qed
  then show ?thesis using r by (simp add: hw_ok_def ready_def)
qed

lemma hw_ok_acquire:
  assumes "hw_ok w" "do_acquire os lr self kind w = Some w'"
  shows "hw_ok w'"
proof -
  have al: "pid_alive (sys w) self" using assms(2) by (auto simp: do_acquire_def split: if_splits)
  obtain ok s1 where e: "ensure_shm os self (sys w) = (ok, s1)" by fastforce
  note k = hw_ok_ensure [OF assms(1) al e]
  have base: "w' = w\<lparr>sys := s1\<rparr> \<or>
    (\<exists>l i. ok \<and> shm s1 = Some l \<and> first_free (pid_alive s1) 0 (slots kind l) = Some i \<and>
      w' = w\<lparr>sys := s1\<lparr>shm := Some (set_slot kind i self l)\<rparr>, held := insert (self, kind, i) (held w)\<rparr>)"
    using assms(2) al e
    by (auto simp: do_acquire_def hw_acquire_def split: bool.splits if_splits option.splits)
  then show ?thesis
  proof
    assume "w' = w\<lparr>sys := s1\<rparr>" then show ?thesis using k(1) by simp
  next
    assume "\<exists>l i. ok \<and> shm s1 = Some l \<and> first_free (pid_alive s1) 0 (slots kind l) = Some i \<and>
      w' = w\<lparr>sys := s1\<lparr>shm := Some (set_slot kind i self l)\<rparr>, held := insert (self, kind, i) (held w)\<rparr>"
    then obtain l i where h: "ok" "shm s1 = Some l" "first_free (pid_alive s1) 0 (slots kind l) = Some i"
      "w' = w\<lparr>sys := s1\<lparr>shm := Some (set_slot kind i self l)\<rparr>, held := insert (self, kind, i) (held w)\<rparr>"
      by blast
    have r: "ready l" using k(2) h by auto
    then have lo: "layout_ok l" by (simp add: ready_def)
    have i: "i < slot_count kind" "slots kind l ! i = 0 \<or> \<not> pid_alive s1 (slots kind l ! i)"
      using first_free_Some [OF h(3)] layout_slots [OF lo, of kind] by auto
    have other: "k' = kind \<Longrightarrow> j \<noteq> i" if "(p, k', j) \<in> held w" for p k' j
    proof
      assume "k' = kind" "j = i"
      then have "pid_alive (sys w) p" "slots kind l ! i = p" "p \<noteq> 0"
        using k(1) that h(2) assms(1) by (auto simp: hw_ok_def pid_alive_def)
      then show False using i(2) k(3) by simp
    qed
    show ?thesis
      unfolding h(4) using k(3) al other
      by (intro hw_ok_set_slot k(1) h(2) r i(1)) auto
  qed
qed

lemma hw_ok_release:
  assumes "hw_ok w" "do_release os lr self kind hid w = Some w'"
  shows "hw_ok w'"
proof -
  have al: "pid_alive (sys w) self" using assms(2) by (auto simp: do_release_def split: if_splits)
  have neg: "w' = w" if "hid < 0" using assms(2) that by (simp add: do_release_def hw_release_def split: if_splits)
  have w': "w' = w\<lparr>sys := hw_release os lr self kind hid (sys w), held := held w - {(self, kind, nat hid)}\<rparr>" if "0 \<le> hid"
    using assms(2) that by (auto simp: do_release_def split: if_splits)
  have drop: "hw_ok (w\<lparr>sys := s, held := held w - X\<rparr>)" if "hw_ok (w\<lparr>sys := s\<rparr>)" for s X
    using that by (auto simp: hw_ok_def)
  obtain ok s1 where e: "ensure_shm os self (sys w) = (ok, s1)" by fastforce
  note k = hw_ok_ensure [OF assms(1) al e]
  have "hw_release os lr self kind hid (sys w) = sys w \<or> hw_release os lr self kind hid (sys w) = s1 \<or>
    (\<exists>l. ok \<and> shm s1 = Some l \<and> slots kind l ! nat hid = self \<and> nat hid < slot_count kind \<and>
      hw_release os lr self kind hid (sys w) = s1\<lparr>shm := Some (set_slot kind (nat hid) 0 l)\<rparr>)"
    using e by (auto simp: hw_release_def split: bool.splits option.splits)
  then consider "hid < 0" | "0 \<le> hid" "hw_release os lr self kind hid (sys w) = sys w" | "0 \<le> hid" "hw_release os lr self kind hid (sys w) = s1"
    | l where "0 \<le> hid" "ok" "shm s1 = Some l" "slots kind l ! nat hid = self" "nat hid < slot_count kind"
      "hw_release os lr self kind hid (sys w) = s1\<lparr>shm := Some (set_slot kind (nat hid) 0 l)\<rparr>"
    using not_less by blast
  then show ?thesis
  proof cases
    case 1
    then show ?thesis using neg assms(1) by simp
  next
    case 2
    then show ?thesis using w' drop [of "sys w"] assms(1) by simp
  next
    case 3
    then show ?thesis using w' drop [of s1] k(1) by simp
  next
    case (4 l)
    have r: "ready l" using k(2) 4 by auto
    then have lo: "layout_ok l" by (simp add: ready_def)
    have own: "p = self" if "(p, kind, nat hid) \<in> held w" for p
      using k(1) that 4(3,4) by (simp add: hw_ok_def)
    show ?thesis
      unfolding w' [OF 4(1)] 4(6) using own by (intro hw_ok_set_slot k(1) 4(3) r 4(5)) auto
  qed
qed

lemma hw_reachable_ok: "hw_reachable w \<Longrightarrow> hw_ok w"
proof (induction rule: hw_reachable.induct)
  case init
  show ?case by (simp add: hw_ok_def hw_init_def)
next
  case (step w w')
  show ?case using step(2)
  proof (cases rule: hw_step.cases)
    case (spawn pid)
    then show ?thesis using step(3)
      by (fastforce simp: hw_spawn_def hw_ok_def pid_alive_def split: if_splits)
  next
    case (die pid)
    then show ?thesis using step(3) by (fastforce simp: hw_die_def hw_ok_def pid_alive_def split: if_splits)
  next
    case (acquire os lr self kind)
    then show ?thesis using hw_ok_acquire step(3) by blast
  next
    case (release os lr self kind hid)
    then show ?thesis using hw_ok_release step(3) by blast
  qed
qed

section \<open>A concrete run\<close>

definition os_fine :: os_results where
  "os_fine = \<lparr>shm_open_ok = True, flock_ok = True, fstat_ok = True, ftruncate_ok = True,
              mmap_ok = True, mutex_init = 0\<rparr>"

text \<open>Process 7 takes ids 0 and 1 of the encoder and dies; process 9 takes over id 0.\<close>

definition demo_seven :: hw_world where
  "demo_seven = the (do_acquire os_fine 0 7 kVenc (the (do_acquire os_fine 0 7 kVenc (the (hw_spawn 7 hw_init)))))"

definition demo_nine :: hw_world where
  "demo_nine = the (do_acquire os_fine kEOWNERDEAD 9 kVenc (the (hw_spawn 9 (hw_die 7 demo_seven))))"

lemma spawn_reachable:
  "hw_reachable w \<Longrightarrow> pid \<noteq> 0 \<and> procs (sys w) pid = None \<Longrightarrow> hw_reachable (the (hw_spawn pid w))"
  by (erule hw_reachable.step, rule hw_step.spawn [of pid]) (simp add: hw_spawn_def)

lemma acquire_reachable:
  assumes "hw_reachable w" "pid_alive (sys w) self"
  shows "hw_reachable (the (do_acquire os lr self k w))"
proof -
  have "do_acquire os lr self k w \<noteq> None" using assms(2) by (auto simp: do_acquire_def split: prod.splits)
  then show ?thesis by (metis assms(1) hw_reachable.step hw_step.acquire option.collapse)
qed

lemma die_reachable: "hw_reachable w \<Longrightarrow> hw_reachable (hw_die pid w)"
  by (rule hw_reachable.step [OF _ hw_step.die])

lemma demo_seven_reachable: "hw_reachable demo_seven"
  unfolding demo_seven_def
  by (intro acquire_reachable spawn_reachable hw_reachable.init) code_simp+

lemma demo_nine_reachable: "hw_reachable demo_nine"
  unfolding demo_nine_def
  by (intro acquire_reachable spawn_reachable die_reachable demo_seven_reachable) code_simp+

section \<open>Properties\<close>

text \<open>C15. Exclusive ownership: however processes start, die (also with ids in hand), acquire and
  release, whatever system calls fail on the way, no id of any kind is held by two live processes, and
  every held id is within the hardware's limit and marked with its owner.\<close>

theorem hw_ids_exclusive:
  assumes "hw_reachable w" "(p, k, i) \<in> held w" "(q, k, i) \<in> held w"
  shows "p = q \<and> i < slot_count k \<and> (\<exists>l. shm (sys w) = Some l \<and> slots k l ! i = p)"
proof -
  have "\<exists>l. shm (sys w) = Some l \<and> i < slot_count k \<and> slots k l ! i = r"
    if "(r, k, i) \<in> held w" for r
    using hw_reachable_ok [OF assms(1)] that unfolding hw_ok_def by blast
  from this [OF assms(2)] this [OF assms(3)] show ?thesis by auto
qed

theorem hw_ids_exclusive_witness:
  "(9, kVenc, 0) \<in> held demo_nine \<and> 0 < slot_count kVenc \<and>
   (\<exists>l. shm (sys demo_nine) = Some l \<and> slots kVenc l ! 0 = 9)"
proof -
  have "(9, kVenc, 0) \<in> held demo_nine" by code_simp
  then show ?thesis using hw_ids_exclusive [OF demo_nine_reachable] by blast
qed

text \<open>What \<open>Acquire\<close> returns once the table is mapped: the lowest id whose slot is empty or
  belongs to a dead process, which it marks with the caller, or -1 exactly when every slot belongs to
  a live process; it changes no other slot.\<close>

theorem hw_acquire_lowest:
  assumes "ensure_shm os self s = (True, s1)" "lock_mu lock_ret = 0" "shm s1 = Some l"
    "hw_acquire os lock_ret self k s = (r, s')"
  shows "(r = -1 \<and> s' = s1 \<and> (\<forall>p \<in> set (slots k l). pid_alive s1 p)) \<or>
    (\<exists>i. r = int i \<and> i < length (slots k l) \<and> \<not> pid_alive s1 (slots k l ! i) \<and>
         (\<forall>j < i. pid_alive s1 (slots k l ! j)) \<and>
         s' = s1\<lparr>shm := Some (set_slot k i self l)\<rparr>)"
proof (cases "first_free (pid_alive s1) 0 (slots k l)")
  case None
  then have "r = -1 \<and> s' = s1" using assms by (simp add: hw_acquire_def)
  then show ?thesis using None by (simp add: first_free_None)
next
  case (Some i)
  then have "r = int i \<and> s' = s1\<lparr>shm := Some (set_slot k i self l)\<rparr>"
    using assms by (simp add: hw_acquire_def)
  then show ?thesis using first_free_Some [OF Some] by (auto simp: pid_alive_def)
qed

theorem hw_acquire_lowest_witness:
  "let s = sys (the (hw_spawn 9 demo_seven)); s1 = snd (ensure_shm os_fine 9 s);
       r = fst (hw_acquire os_fine 0 9 kVenc s)
   in (r = -1 \<and> (\<forall>p \<in> set (slots kVenc (the (shm s1))). pid_alive s1 p)) \<or>
      (\<exists>i. r = int i \<and> (\<forall>j < i. pid_alive s1 (slots kVenc (the (shm s1)) ! j)))"
proof -
  let ?s = "sys (the (hw_spawn 9 demo_seven))"
  have c: "fst (ensure_shm os_fine 9 ?s) \<and> shm (snd (ensure_shm os_fine 9 ?s)) \<noteq> None" by code_simp
  then have e: "ensure_shm os_fine 9 ?s = (True, snd (ensure_shm os_fine 9 ?s))"
    and l: "shm (snd (ensure_shm os_fine 9 ?s)) = Some (the (shm (snd (ensure_shm os_fine 9 ?s))))"
    by (metis prod.collapse, metis option.collapse)
  show ?thesis
    unfolding Let_def
    using hw_acquire_lowest [OF e _ l prod.collapse [symmetric], of 0 kVenc]
    by (auto simp: lock_mu_def kEOWNERDEAD_def)
qed

end
