(* ===== verification/Frames.thy ===== *)
theory Frames
  imports Ax_Prelude
begin

text \<open>
  Frames and their memory: \<open>FrameData::Destroy\<close> (\<open>hal/frame_data.cpp\<close>) and the mapping, copying and
  cloning of \<open>hal/image_data.cpp\<close>. The vendor's memory calls are a parameter \<open>mem_api\<close>; every call the
  code makes is an event of a trace, so that mapping and unmapping can be compared. Addresses are 64-bit
  and sizes 32-bit words.
\<close>

section \<open>Formats, frames, layouts\<close>

datatype img_format =
    YUV420_PLANAR | YUV420_SEMIPLANAR | YUV420_SEMIPLANAR_VU | YUV422_SEMIPLANAR
  | YUV422_SEMIPLANAR_VU | YUV420_SEMIPLANAR_10BIT_P101010 | YUV422_SEMIPLANAR_10BIT_P101010
  | YUV420_SEMIPLANAR_10BIT_P010 | YUV422_SEMIPLANAR_10BIT_P010 | YUV444_PACKED
  | RGB888 | BGR888 | RGB565 | BGR565 | RGBA8888 | ARGB8888 | ARGB4444 | ARGB1555 | ARGB8565
  | RGBA5551 | RGBA4444 | RGBA5658 | ABGR4444 | ABGR1555 | ABGR8888 | ABGR8565 | BGRA8888
  | BGRA5551 | BGRA4444 | BGRA5658 | YUV400 | OtherFormat nat

datatype mem_id = kMemIdMin | kMemIdVdec | kMemIdVenc | kMemIdIvps | kMemIdIves | kMemIdJenc
  | kMemIdJdec | kMemIdNpu | kMemIdSys | kMemIdMax

record video_frame =
  img_fmt :: img_format
  vwidth :: u32
  vheight :: u32
  pic_stride :: u32
  frame_size :: u32
  phy_addr :: "u64 list"
  vir_addr :: "u64 list"

text \<open>\<open>info\<close> is the pointer \<open>frame_data_\<close>.\<close>

record frame_data =
  mem_id_of :: mem_id
  grp :: int
  chn :: int
  info :: "video_frame option"

definition frame_create :: "video_frame option \<Rightarrow> int \<Rightarrow> int \<Rightarrow> mem_id \<Rightarrow> frame_data" where
  "frame_create vf g c m = \<lparr>mem_id_of = m, grp = g, chn = c, info = vf\<rparr>"

definition frame_create_sys :: "video_frame option \<Rightarrow> mem_id \<Rightarrow> frame_data" where
  "frame_create_sys vf m = \<lparr>mem_id_of = m, grp = -1, chn = -1, info = vf\<rparr>"

record image_data =
  width :: u32
  height :: u32
  img_format :: img_format
  end_of_stream :: bool
  data :: "frame_data option"

record plane_layout =
  planar_num :: nat
  size :: "u32 list"

fun planar_num_and_bits :: "img_format \<Rightarrow> (nat \<times> u32) option" where
  "planar_num_and_bits YUV420_PLANAR = Some (2, 8)"
| "planar_num_and_bits YUV420_SEMIPLANAR = Some (2, 8)"
| "planar_num_and_bits YUV420_SEMIPLANAR_VU = Some (2, 8)"
| "planar_num_and_bits YUV422_SEMIPLANAR = Some (2, 8)"
| "planar_num_and_bits YUV422_SEMIPLANAR_VU = Some (2, 8)"
| "planar_num_and_bits YUV420_SEMIPLANAR_10BIT_P101010 = Some (2, 10)"
| "planar_num_and_bits YUV422_SEMIPLANAR_10BIT_P101010 = Some (2, 10)"
| "planar_num_and_bits YUV420_SEMIPLANAR_10BIT_P010 = Some (2, 16)"
| "planar_num_and_bits YUV422_SEMIPLANAR_10BIT_P010 = Some (2, 16)"
| "planar_num_and_bits (OtherFormat n) = None"
| "planar_num_and_bits _ = Some (1, 0)"

definition is_yuv422_semiplanar :: "img_format \<Rightarrow> bool" where
  "is_yuv422_semiplanar f =
     (f = YUV422_SEMIPLANAR \<or> f = YUV422_SEMIPLANAR_VU \<or> f = YUV422_SEMIPLANAR_10BIT_P101010 \<or>
      f = YUV422_SEMIPLANAR_10BIT_P010)"

text \<open>The derived address is computed in 64 bits here, in 32 bits in \<open>Destroy\<close>.\<close>

definition fill_derived_uv_phy_addr :: "video_frame \<Rightarrow> video_frame" where
  "fill_derived_uv_phy_addr v =
     (if phy_addr v ! 1 = 0
      then v\<lparr>phy_addr := (phy_addr v)[1 := phy_addr v ! 0 + ucast (pic_stride v) * ucast (vheight v)]\<rparr>
      else v)"

definition compute_plane_layout :: "video_frame \<Rightarrow> plane_layout option" where
  "compute_plane_layout v =
     (case planar_num_and_bits (img_fmt v) of
        None \<Rightarrow> None
      | Some (pn, bits) \<Rightarrow>
          (let base = pic_stride v * vheight v
           in if pn = 2 then
                (let luma = base * bits div 8
                 in Some \<lparr>planar_num = pn,
                          size = [luma, if is_yuv422_semiplanar (img_fmt v) then luma else luma div 2, 0]\<rparr>)
              else Some \<lparr>planar_num = pn,
                         size = [if frame_size v \<noteq> 0 then frame_size v else base * 3, 0, 0]\<rparr>))"

section \<open>Memory calls\<close>

datatype mem_event =
    Mmap u64 u32 u64
  | Munmap u64 u32
  | MemAlloc u32 u64 u64
  | MemFree u64 u64
  | Free u64
  | ReleaseIvps int int
  | ReleaseVdec int int

text \<open>\<open>mmap\<close> returns 0 for a null pointer; \<open>mem_alloc\<close> is given the plane and the size and returns its
  code, the physical and the virtual address; \<open>memory\<close> is what the bytes read as.\<close>

record mem_api =
  mmap :: "u64 \<Rightarrow> u32 \<Rightarrow> u64"
  munmap_ret :: "u64 \<Rightarrow> u32 \<Rightarrow> int"
  mem_alloc :: "nat \<Rightarrow> u32 \<Rightarrow> int \<times> u64 \<times> u64"
  mem_free_ret :: "u64 \<Rightarrow> u64 \<Rightarrow> int"
  memory :: "u64 \<Rightarrow> u8"

definition set_vir :: "nat \<Rightarrow> u64 \<Rightarrow> video_frame \<Rightarrow> video_frame" where
  "set_vir i a v = v\<lparr>vir_addr := (vir_addr v)[i := a]\<rparr>"

definition set_phy :: "nat \<Rightarrow> u64 \<Rightarrow> video_frame \<Rightarrow> video_frame" where
  "set_phy i a v = v\<lparr>phy_addr := (phy_addr v)[i := a]\<rparr>"

text \<open>The roll-back loop of \<open>EnsureMapped\<close>, planes \<open>k\<close> to \<open>i - 1\<close>.\<close>

fun rollback :: "u32 list \<Rightarrow> nat \<Rightarrow> nat \<Rightarrow> video_frame \<Rightarrow> mem_event list \<times> video_frame" where
  "rollback sz k 0 v = ([], v)"
| "rollback sz k (Suc n) v =
     (let (evs, v') = rollback sz (Suc k) n (set_vir k 0 v)
      in (Munmap (vir_addr v ! k) (sz ! k) # evs, v'))"

text \<open>The mapping loop from plane \<open>i\<close> on, with \<open>n\<close> planes to go.\<close>

fun map_planes ::
    "mem_api \<Rightarrow> u32 list \<Rightarrow> nat \<Rightarrow> nat \<Rightarrow> video_frame \<Rightarrow> int \<times> mem_event list \<times> video_frame" where
  "map_planes api sz i 0 v = (0, [], v)"
| "map_planes api sz i (Suc n) v =
     (let vir = mmap api (phy_addr v ! i) (sz ! i)
      in if vir = 0 then (let (evs, v') = rollback sz 0 i v in (-4, evs, v'))
         else (let (r, evs, v') = map_planes api sz (Suc i) n (set_vir i vir v)
               in (r, Mmap (phy_addr v ! i) (sz ! i) vir # evs, v')))"

definition frame_valid :: "frame_data option \<Rightarrow> bool" where
  "frame_valid d = (case d of None \<Rightarrow> False | Some fd \<Rightarrow> info fd \<noteq> None)"

definition ensure_mapped ::
    "mem_api \<Rightarrow> frame_data option \<Rightarrow> int \<times> mem_event list \<times> frame_data option" where
  "ensure_mapped api d =
     (case d of
        None \<Rightarrow> (-1, [], d)
      | Some fd \<Rightarrow>
          (case info fd of
             None \<Rightarrow> (-1, [], d)
           | Some v \<Rightarrow>
               (case compute_plane_layout v of
                  None \<Rightarrow> (-2, [], d)
                | Some lay \<Rightarrow>
                    (if vir_addr v ! 0 \<noteq> 0 then (0, [], d)
                     else if phy_addr v ! 0 = 0 then (-3, [], d)
                     else if mem_id_of fd = kMemIdSys then (-5, [], d)
                     else
                       (let v1 = (if planar_num lay = 2 then fill_derived_uv_phy_addr v else v);
                            (r, evs, v2) = map_planes api (size lay) 0 (planar_num lay) v1
                        in (r, evs, Some (fd\<lparr>info := Some v2\<rparr>)))))))"

text \<open>The loop of \<open>Unmap\<close> from plane \<open>i\<close> on, with \<open>n\<close> planes to go and the first error so far.\<close>

fun unmap_planes ::
    "mem_api \<Rightarrow> u32 list \<Rightarrow> nat \<Rightarrow> nat \<Rightarrow> int \<Rightarrow> video_frame \<Rightarrow> int \<times> mem_event list \<times> video_frame" where
  "unmap_planes api sz i 0 err v = (err, [], v)"
| "unmap_planes api sz i (Suc n) err v =
     (if vir_addr v ! i = 0 then unmap_planes api sz (Suc i) n err v
      else
        (let ret = munmap_ret api (vir_addr v ! i) (sz ! i);
             err' = (if ret \<noteq> 0 \<and> err = 0 then ret else err);
             (r, evs, v') = unmap_planes api sz (Suc i) n err' (set_vir i 0 v)
         in (r, Munmap (vir_addr v ! i) (sz ! i) # evs, v')))"

definition unmap :: "mem_api \<Rightarrow> frame_data option \<Rightarrow> int \<times> mem_event list \<times> frame_data option" where
  "unmap api d =
     (case d of
        None \<Rightarrow> (-1, [], d)
      | Some fd \<Rightarrow>
          (case info fd of
             None \<Rightarrow> (-1, [], d)
           | Some v \<Rightarrow>
               (case compute_plane_layout v of
                  None \<Rightarrow> (-1, [], d)
                | Some lay \<Rightarrow>
                    (let v1 = (if planar_num lay = 2 then fill_derived_uv_phy_addr v else v);
                         (r, evs, v2) = unmap_planes api (size lay) 0 (planar_num lay) 0 v1
                     in (r, evs, Some (fd\<lparr>info := Some v2\<rparr>))))))"

section \<open>Destroy\<close>

text \<open>The branch for buffers of \<open>AX_SYS_MemAlloc\<close>: one plane, then all three.\<close>

definition destroy_sys_plane ::
    "mem_api \<Rightarrow> nat \<Rightarrow> int \<times> mem_event list \<times> video_frame \<Rightarrow> int \<times> mem_event list \<times> video_frame" where
  "destroy_sys_plane api i st =
     (case st of (s_ret, evs, v) \<Rightarrow>
        (if phy_addr v ! i \<noteq> 0 then
           (mem_free_ret api (phy_addr v ! i) (vir_addr v ! i),
            evs @ [MemFree (phy_addr v ! i) (vir_addr v ! i)], set_vir i 0 (set_phy i 0 v))
         else if vir_addr v ! i \<noteq> 0 then (s_ret, evs @ [Free (vir_addr v ! i)], set_vir i 0 v)
         else (s_ret, evs, v)))"

definition destroy_sys :: "mem_api \<Rightarrow> video_frame \<Rightarrow> int \<times> mem_event list \<times> video_frame" where
  "destroy_sys api v =
     destroy_sys_plane api 2 (destroy_sys_plane api 1 (destroy_sys_plane api 0 (0, [], v)))"

text \<open>\<open>Destroy\<close> has a switch of its own over the format.\<close>

fun destroy_format :: "img_format \<Rightarrow> (nat \<times> u32) option" where
  "destroy_format YUV420_PLANAR = Some (2, 8)"
| "destroy_format YUV420_SEMIPLANAR = Some (2, 8)"
| "destroy_format YUV420_SEMIPLANAR_VU = Some (2, 8)"
| "destroy_format YUV422_SEMIPLANAR = Some (2, 8)"
| "destroy_format YUV422_SEMIPLANAR_VU = Some (2, 8)"
| "destroy_format YUV420_SEMIPLANAR_10BIT_P101010 = Some (2, 10)"
| "destroy_format YUV422_SEMIPLANAR_10BIT_P101010 = Some (2, 10)"
| "destroy_format YUV420_SEMIPLANAR_10BIT_P010 = Some (2, 16)"
| "destroy_format YUV422_SEMIPLANAR_10BIT_P010 = Some (2, 16)"
| "destroy_format (OtherFormat n) = None"
| "destroy_format _ = Some (1, 0)"

text \<open>Unmapping for a number of planes and a bit width.\<close>

definition destroy_planes :: "nat \<Rightarrow> u32 \<Rightarrow> video_frame \<Rightarrow> mem_event list \<times> video_frame" where
  "destroy_planes pn bits v =
     (let n_pixel = pic_stride v * vheight v
      in if pn = 2 then
           (let v1 = (if phy_addr v ! 1 = 0
                      then set_phy 1 (phy_addr v ! 0 + ucast (pic_stride v * vheight v)) v else v);
                n = n_pixel * bits div 8
            in if vir_addr v1 ! 0 \<noteq> 0 \<and> vir_addr v1 ! 1 \<noteq> 0 then
                 ([Munmap (vir_addr v1 ! 0) n,
                   Munmap (vir_addr v1 ! 1) (if is_yuv422_semiplanar (img_fmt v1) then n else n div 2)],
                  set_vir 1 0 (set_vir 0 0 v1))
               else ([], v1))
         else if pn = 3 then
           (if vir_addr v ! 0 \<noteq> 0 \<and> vir_addr v ! 1 \<noteq> 0 \<and> vir_addr v ! 2 \<noteq> 0 then
              ([Munmap (vir_addr v ! 0) n_pixel, Munmap (vir_addr v ! 1) (n_pixel div 2),
                Munmap (vir_addr v ! 2) (n_pixel div 2)],
               set_vir 2 0 (set_vir 1 0 (set_vir 0 0 v)))
            else ([], v))
         else if frame_size v \<noteq> 0 then
           (if vir_addr v ! 0 \<noteq> 0
            then ([Munmap (vir_addr v ! 0) (frame_size v)], set_vir 0 0 v) else ([], v))
         else
           (if vir_addr v ! 0 \<noteq> 0
            then ([Munmap (vir_addr v ! 0) (n_pixel * 3)], set_vir 0 0 v) else ([], v)))"

text \<open>A null \<open>frame_data_\<close> would be dereferenced: \<open>None\<close>.\<close>

definition destroy :: "mem_api \<Rightarrow> frame_data \<Rightarrow> (int \<times> mem_event list \<times> frame_data) option" where
  "destroy api fd =
     (case info fd of
        None \<Rightarrow> None
      | Some v \<Rightarrow>
          (if mem_id_of fd = kMemIdSys then
             (let (r, evs, v') = destroy_sys api v in Some (r, evs, fd\<lparr>info := Some v'\<rparr>))
           else
             (case destroy_format (img_fmt v) of
                None \<Rightarrow> Some (-1, [], fd)
              | Some (pn, bits) \<Rightarrow>
                  (let (evs, v') = destroy_planes pn bits v;
                       rel = (if mem_id_of fd = kMemIdIvps then [ReleaseIvps (grp fd) (chn fd)]
                              else if mem_id_of fd = kMemIdVdec then [ReleaseVdec (grp fd) (chn fd)]
                              else [])
                   in Some (0, evs @ rel, fd\<lparr>info := Some v'\<rparr>)))))"

section \<open>Copies\<close>

definition read_bytes :: "mem_api \<Rightarrow> u64 \<Rightarrow> nat \<Rightarrow> u8 list" where
  "read_bytes api a n = map (\<lambda>i. memory api (a + of_nat i)) [0..<n]"

text \<open>The allocation loop of \<open>Clone\<close> from plane \<open>i\<close> on, with \<open>n\<close> planes to go; the copied bytes are the
  last component.\<close>

fun clone_planes ::
    "mem_api \<Rightarrow> u32 list \<Rightarrow> video_frame \<Rightarrow> nat \<Rightarrow> nat \<Rightarrow> video_frame \<Rightarrow>
     int \<times> mem_event list \<times> video_frame \<times> u8 list list" where
  "clone_planes api sz src i 0 v = (0, [], v, [])"
| "clone_planes api sz src i (Suc n) v =
     (case mem_alloc api i (sz ! i) of
        (ret, phy, vir) \<Rightarrow>
          (if ret \<noteq> 0 then (-3, [], v, [])
           else (let (r, evs, v', bs) = clone_planes api sz src (Suc i) n (set_vir i vir (set_phy i phy v))
                 in (r, MemAlloc (sz ! i) phy vir # evs, v',
                     read_bytes api (vir_addr src ! i) (unat (sz ! i)) # bs))))"

text \<open>\<open>Clone\<close> returns its code, the trace, the destination, the source (which it may map) and the
  contents of the destination's planes.\<close>

definition clone ::
    "mem_api \<Rightarrow> image_data \<Rightarrow> image_data \<Rightarrow>
     int \<times> mem_event list \<times> image_data \<times> image_data \<times> u8 list list" where
  "clone api dest src =
     (case data src of
        None \<Rightarrow> (-1, [], dest, src, [])
      | Some fd \<Rightarrow>
          (case info fd of
             None \<Rightarrow> (-1, [], dest, src, [])
           | Some v \<Rightarrow>
               (case compute_plane_layout v of
                  None \<Rightarrow> (-2, [], dest, src, [])
                | Some lay \<Rightarrow>
                    (case ensure_mapped api (Some fd) of
                       (mret, mevs, d') \<Rightarrow>
                         (let src' = src\<lparr>data := d'\<rparr>
                          in if mret \<noteq> 0 then (-4, mevs, dest, src', [])
                             else case d' of
                               None \<Rightarrow> (-4, mevs, dest, src', [])
                             | Some fd' \<Rightarrow>
                                 (let sv = the (info fd');
                                      v0 = sv\<lparr>phy_addr := [0, 0, 0], vir_addr := [0, 0, 0]\<rparr>;
                                      (r, evs, v', bs) =
                                        clone_planes api (size lay) sv 0 (planar_num lay) v0
                                  in (r, mevs @ evs,
                                      dest\<lparr>width := width src, height := height src,
                                           img_format := img_format src,
                                           end_of_stream := end_of_stream src,
                                           data := Some (frame_create_sys (Some v') kMemIdSys)\<rparr>,
                                      src', bs)))))))"

definition copy2host ::
    "mem_api \<Rightarrow> image_data \<Rightarrow> int \<times> mem_event list \<times> image_data \<times> u8 list option" where
  "copy2host api src =
     (case data src of
        None \<Rightarrow> (-1, [], src, None)
      | Some fd \<Rightarrow>
          (case info fd of
             None \<Rightarrow> (-1, [], src, None)
           | Some v \<Rightarrow>
               (case compute_plane_layout v of
                  None \<Rightarrow> (-2, [], src, None)
                | Some lay \<Rightarrow>
                    (case ensure_mapped api (Some fd) of
                       (mret, evs, d') \<Rightarrow>
                         (if mret \<noteq> 0 then (mret, evs, src\<lparr>data := d'\<rparr>, None)
                          else case d' of
                            None \<Rightarrow> (mret, evs, src\<lparr>data := d'\<rparr>, None)
                          | Some fd' \<Rightarrow>
                              (0, evs, src\<lparr>data := d'\<rparr>,
                               Some (concat (map (\<lambda>i. read_bytes api (vir_addr (the (info fd')) ! i)
                                                        (unat (size lay ! i)))
                                         [0..<planar_num lay]))))))))"

text \<open>\<open>Copy2Mat\<close> reads one row after another; the rows read, as offsets into the mapping, and the
  matrix are the results.\<close>

definition row_offset :: "u32 \<Rightarrow> nat \<Rightarrow> nat" where
  "row_offset stride i = i * (unat stride * 3)"

definition copy2mat ::
    "mem_api \<Rightarrow> image_data \<Rightarrow> int \<times> mem_event list \<times> image_data \<times> u8 list list" where
  "copy2mat api src =
     (case data src of
        None \<Rightarrow> (-1, [], src, [])
      | Some fd \<Rightarrow>
          (case info fd of
             None \<Rightarrow> (-1, [], src, [])
           | Some v \<Rightarrow>
               (if img_fmt v \<noteq> RGB888 then (-1, [], src, [])
                else if phy_addr v ! 0 = 0 \<or> pic_stride v = 0 then (-1, [], src, [])
                else case ensure_mapped api (Some fd) of
                  (mret, evs, d') \<Rightarrow>
                    (if mret \<noteq> 0 then (-1, evs, src\<lparr>data := d'\<rparr>, [])
                     else case d' of
                       None \<Rightarrow> (-1, evs, src\<lparr>data := d'\<rparr>, [])
                     | Some fd' \<Rightarrow>
                         (let v' = the (info fd')
                          in (0, evs, src\<lparr>data := d'\<rparr>,
                              map (\<lambda>i. read_bytes api
                                     (vir_addr v' ! 0 + of_nat (row_offset (pic_stride v') i))
                                     (unat (vwidth v') * 3))
                                [0..<unat (vheight v')]))))))"

section \<open>Mappings in a trace\<close>

fun mapped_by :: "mem_event \<Rightarrow> (u64 \<times> u32) multiset" where
  "mapped_by (Mmap p n v) = {#(v, n)#}"
| "mapped_by e = {#}"

fun unmapped_by :: "mem_event \<Rightarrow> (u64 \<times> u32) multiset" where
  "unmapped_by (Munmap v n) = {#(v, n)#}"
| "unmapped_by e = {#}"

definition mappings :: "mem_event list \<Rightarrow> (u64 \<times> u32) multiset" where
  "mappings evs = sum_list (map mapped_by evs)"

definition unmappings :: "mem_event list \<Rightarrow> (u64 \<times> u32) multiset" where
  "unmappings evs = sum_list (map unmapped_by evs)"

lemma mappings_simps [simp]:
  "mappings [] = {#}" "mappings (e # evs) = mapped_by e + mappings evs"
  "mappings (evs @ evs') = mappings evs + mappings evs'"
  "unmappings [] = {#}" "unmappings (e # evs) = unmapped_by e + unmappings evs"
  "unmappings (evs @ evs') = unmappings evs + unmappings evs'"
  by (simp_all add: mappings_def unmappings_def)

text \<open>The planes that are mapped now.\<close>

definition open_planes :: "u32 list \<Rightarrow> nat \<Rightarrow> video_frame \<Rightarrow> (u64 \<times> u32) multiset" where
  "open_planes sz pn v =
     mset (map (\<lambda>i. (vir_addr v ! i, sz ! i)) (filter (\<lambda>i. vir_addr v ! i \<noteq> 0) [0..<pn]))"

definition frame_ok :: "frame_data \<Rightarrow> bool" where
  "frame_ok fd =
     (case info fd of
        None \<Rightarrow> False
      | Some v \<Rightarrow> length (phy_addr v) = 3 \<and> length (vir_addr v) = 3 \<and> mem_id_of fd \<noteq> kMemIdSys \<and>
          (case compute_plane_layout v of
             None \<Rightarrow> False
           | Some lay \<Rightarrow> planar_num lay = 2 \<longrightarrow> (vir_addr v ! 0 = 0 \<longleftrightarrow> vir_addr v ! 1 = 0)))"

definition open_of :: "frame_data \<Rightarrow> (u64 \<times> u32) multiset" where
  "open_of fd =
     (case info fd of
        None \<Rightarrow> {#}
      | Some v \<Rightarrow> (case compute_plane_layout v of
                    None \<Rightarrow> {#}
                  | Some lay \<Rightarrow> open_planes (size lay) (planar_num lay) v))"

lemma planar_cases: "planar_num_and_bits f = Some (pn, b) \<Longrightarrow> pn = 1 \<or> pn = 2"
  by (cases f) auto

lemma destroy_format_eq: "destroy_format f = planar_num_and_bits f"
  by (cases f) simp_all

lemma layout_cases:
  assumes "compute_plane_layout v = Some lay"
  obtains (two) l u where "planar_num lay = 2" "size lay = [l, u, 0]"
  | (one) n where "planar_num lay = 1" "size lay = [n, 0, 0]"
  using assms planar_cases
  by (fastforce simp: compute_plane_layout_def Let_def split: option.splits if_splits)

lemma layout_frame [simp]:
  "compute_plane_layout (set_vir i a v) = compute_plane_layout v"
  "compute_plane_layout (set_phy i a v) = compute_plane_layout v"
  "compute_plane_layout (fill_derived_uv_phy_addr v) = compute_plane_layout v"
  "compute_plane_layout (v\<lparr>phy_addr := ps, vir_addr := vs\<rparr>) = compute_plane_layout v"
  by (simp_all add: compute_plane_layout_def set_vir_def set_phy_def fill_derived_uv_phy_addr_def
      Let_def split: option.split)

lemma addr_frame [simp]:
  "vir_addr (set_phy i a v) = vir_addr v" "phy_addr (set_vir i a v) = phy_addr v"
  "vir_addr (fill_derived_uv_phy_addr v) = vir_addr v"
  "vir_addr (set_vir i a v) = (vir_addr v)[i := a]" "phy_addr (set_phy i a v) = (phy_addr v)[i := a]"
  "length (phy_addr (fill_derived_uv_phy_addr v)) = length (phy_addr v)"
  by (simp_all add: set_vir_def set_phy_def fill_derived_uv_phy_addr_def)

lemma open_planes_simps:
  "open_planes sz (Suc 0) v = (if vir_addr v ! 0 \<noteq> 0 then {#(vir_addr v ! 0, sz ! 0)#} else {#})"
  "open_planes sz 2 v = (if vir_addr v ! 0 \<noteq> 0 then {#(vir_addr v ! 0, sz ! 0)#} else {#}) +
     (if vir_addr v ! 1 \<noteq> 0 then {#(vir_addr v ! 1, sz ! 1)#} else {#})"
  "open_planes sz (Suc (Suc 0)) v = (if vir_addr v ! 0 \<noteq> 0 then {#(vir_addr v ! 0, sz ! 0)#} else {#}) +
     (if vir_addr v ! 1 \<noteq> 0 then {#(vir_addr v ! 1, sz ! 1)#} else {#})"
  by (simp_all add: open_planes_def numeral_2_eq_2)

lemma frame_okE:
  assumes "frame_ok fd"
  obtains v lay where "info fd = Some v" "compute_plane_layout v = Some lay"
    "length (phy_addr v) = 3" "length (vir_addr v) = 3" "mem_id_of fd \<noteq> kMemIdSys"
    "planar_num lay = 2 \<longrightarrow> (vir_addr v ! 0 = 0 \<longleftrightarrow> vir_addr v ! 1 = 0)"
  using assms by (auto simp: frame_ok_def split: option.splits)

lemma frame_okI:
  "info fd = Some v \<Longrightarrow> compute_plane_layout v = Some lay \<Longrightarrow> length (phy_addr v) = 3 \<Longrightarrow>
   length (vir_addr v) = 3 \<Longrightarrow> mem_id_of fd \<noteq> kMemIdSys \<Longrightarrow>
   (planar_num lay = 2 \<longrightarrow> (vir_addr v ! 0 = 0 \<longleftrightarrow> vir_addr v ! 1 = 0)) \<Longrightarrow> frame_ok fd"
  by (simp add: frame_ok_def)

lemma map_planes_spec:
  assumes "map_planes api sz 0 pn v = (r, evs, v')" "pn = 1 \<or> pn = 2" "length (vir_addr v) = 3"
    "vir_addr v ! 0 = 0" "pn = 2 \<longrightarrow> vir_addr v ! 1 = 0"
  shows "phy_addr v' = phy_addr v \<and> length (vir_addr v') = 3 \<and>
    compute_plane_layout v' = compute_plane_layout v \<and>
    (pn = 2 \<longrightarrow> (vir_addr v' ! 0 = 0 \<longleftrightarrow> vir_addr v' ! 1 = 0)) \<and>
    (r = 0 \<longleftrightarrow> vir_addr v' ! 0 \<noteq> 0) \<and>
    mappings evs = unmappings evs + open_planes sz pn v'"
proof (cases "pn = 1")
  case True
  then show ?thesis using assms
    by (auto simp: open_planes_simps Let_def split: if_splits)
next
  case False
  then have "pn = 2" using assms(2) by simp
  moreover have "(vir_addr v)[0 := a, 0 := 0] ! 0 = 0" for a using assms(3) by simp
  ultimately show ?thesis using assms
    by (auto simp: open_planes_simps numeral_2_eq_2 Let_def split: if_splits)
qed

lemma ensure_mapped_spec:
  assumes "frame_ok fd" "ensure_mapped api (Some fd) = (r, evs, d')"
  shows "\<exists>fd'. d' = Some fd' \<and> frame_ok fd' \<and> mem_id_of fd' = mem_id_of fd \<and> grp fd' = grp fd \<and>
    chn fd' = chn fd \<and> mappings evs + open_of fd = unmappings evs + open_of fd' \<and>
    (r = 0 \<longrightarrow> vir_addr (the (info fd')) ! 0 \<noteq> 0)"
  using assms(1)
proof (cases rule: frame_okE)
  case (1 v lay)
  show ?thesis
  proof (cases "vir_addr v ! 0 \<noteq> 0 \<or> phy_addr v ! 0 = 0")
    case True
    then have "d' = Some fd \<and> evs = [] \<and> (r = 0 \<longrightarrow> vir_addr v ! 0 \<noteq> 0)"
      using assms(2) 1 by (auto simp: ensure_mapped_def split: if_splits)
    then show ?thesis using assms(1) 1(1) by simp
  next
    case False
    define v1 where "v1 = (if planar_num lay = 2 then fill_derived_uv_phy_addr v else v)"
    have v1: "compute_plane_layout v1 = Some lay" "vir_addr v1 = vir_addr v" "length (phy_addr v1) = 3"
      using 1 by (simp_all add: v1_def)
    have pn: "planar_num lay = 1 \<or> planar_num lay = 2" using 1(2) by (rule layout_cases) auto
    obtain r' evs' v2 where m: "map_planes api (size lay) 0 (planar_num lay) v1 = (r', evs', v2)"
      by (metis prod_cases3)
    have e: "r = r'" "evs = evs'" "d' = Some (fd\<lparr>info := Some v2\<rparr>)"
      using assms(2) 1 False m by (auto simp: ensure_mapped_def v1_def Let_def)
    have sp: "phy_addr v2 = phy_addr v1 \<and> length (vir_addr v2) = 3 \<and>
        compute_plane_layout v2 = compute_plane_layout v1 \<and>
        (planar_num lay = 2 \<longrightarrow> (vir_addr v2 ! 0 = 0 \<longleftrightarrow> vir_addr v2 ! 1 = 0)) \<and>
        (r' = 0 \<longleftrightarrow> vir_addr v2 ! 0 \<noteq> 0) \<and>
        mappings evs' = unmappings evs' + open_planes (size lay) (planar_num lay) v2"
      using map_planes_spec [OF m pn] 1 False v1 by auto
    have o1: "open_of fd = {#}"
      using 1 False pn by (auto simp: open_of_def open_planes_simps)
    have o2: "open_of (fd\<lparr>info := Some v2\<rparr>) = open_planes (size lay) (planar_num lay) v2"
      using sp v1 by (simp add: open_of_def)
    have ok: "frame_ok (fd\<lparr>info := Some v2\<rparr>)"
      using sp v1 1 by (intro frame_okI [where v = v2 and lay = lay]) auto
    show ?thesis using sp e o1 o2 ok by simp
  qed
qed

lemma unmap_planes_spec:
  assumes "unmap_planes api sz 0 pn err v = (r, evs, v')" "pn = 1 \<or> pn = 2" "length (vir_addr v) = 3"
  shows "phy_addr v' = phy_addr v \<and> length (vir_addr v') = 3 \<and>
    compute_plane_layout v' = compute_plane_layout v \<and>
    vir_addr v' ! 0 = 0 \<and> (pn = 2 \<longrightarrow> vir_addr v' ! 1 = 0) \<and>
    mappings evs = {#} \<and> unmappings evs = open_planes sz pn v"
proof (cases "pn = 1")
  case True
  then show ?thesis using assms
    by (auto simp: open_planes_simps Let_def split: if_splits)
next
  case False
  then have "pn = 2" using assms(2) by simp
  then show ?thesis using assms
    by (auto simp: open_planes_simps numeral_2_eq_2 Let_def split: if_splits prod.splits)
qed

lemma unmap_spec:
  assumes "frame_ok fd" "unmap api (Some fd) = (r, evs, d')"
  shows "\<exists>fd'. d' = Some fd' \<and> frame_ok fd' \<and> mem_id_of fd' = mem_id_of fd \<and> grp fd' = grp fd \<and>
    chn fd' = chn fd \<and> open_of fd' = {#} \<and> mappings evs = {#} \<and> unmappings evs = open_of fd"
  using assms(1)
proof (cases rule: frame_okE)
  case (1 v lay)
  define v1 where "v1 = (if planar_num lay = 2 then fill_derived_uv_phy_addr v else v)"
  have v1: "compute_plane_layout v1 = Some lay" "vir_addr v1 = vir_addr v" "length (phy_addr v1) = 3"
    using 1 by (simp_all add: v1_def)
  have pn: "planar_num lay = 1 \<or> planar_num lay = 2" using 1(2) by (rule layout_cases) auto
  obtain r' evs' v2 where m: "unmap_planes api (size lay) 0 (planar_num lay) 0 v1 = (r', evs', v2)"
    by (metis prod_cases3)
  have e: "r = r'" "evs = evs'" "d' = Some (fd\<lparr>info := Some v2\<rparr>)"
    using assms(2) 1 m by (auto simp: unmap_def v1_def Let_def)
  note sp = unmap_planes_spec [OF m pn, unfolded v1, OF 1(4)]
  have o1: "open_of fd = open_planes (size lay) (planar_num lay) v" using 1 by (simp add: open_of_def)
  have o2: "open_planes (size lay) (planar_num lay) v1 = open_planes (size lay) (planar_num lay) v"
    by (simp add: open_planes_def v1)
  have o3: "open_of (fd\<lparr>info := Some v2\<rparr>) = {#}"
    using sp v1 pn by (auto simp: open_of_def open_planes_simps)
  have ok: "frame_ok (fd\<lparr>info := Some v2\<rparr>)"
    using sp v1 1 by (intro frame_okI [where v = v2 and lay = lay]) auto
  show ?thesis using sp e o1 o2 o3 ok by simp
qed

text \<open>What \<open>Destroy\<close> unmaps is what the mapping functions had mapped, size for size: its switch and its
  size formulas agree with \<open>ComputePlaneLayout\<close>.\<close>

lemma destroy_planes_spec:
  assumes "compute_plane_layout v = Some lay" "destroy_format (img_fmt v) = Some (pn, bits)"
    "length (vir_addr v) = 3" "planar_num lay = 2 \<longrightarrow> (vir_addr v ! 0 = 0 \<longleftrightarrow> vir_addr v ! 1 = 0)"
    "destroy_planes pn bits v = (evs, v')"
  shows "mappings evs = {#} \<and> unmappings evs = open_planes (size lay) (planar_num lay) v \<and>
    vir_addr v' ! 0 = 0 \<and> (pn = 2 \<longrightarrow> vir_addr v' ! 1 = 0)"
proof -
  have f: "planar_num_and_bits (img_fmt v) = Some (pn, bits)" using assms(2) by (simp add: destroy_format_eq)
  have fm: "img_fmt (set_phy i a v) = img_fmt v" for i a by (simp add: set_phy_def)
  consider "pn = 1" | "pn = 2" using planar_cases [OF f] by blast
  then show ?thesis
  proof cases
    case 1
    then have "planar_num lay = Suc 0"
      "size lay = [if frame_size v \<noteq> 0 then frame_size v else pic_stride v * vheight v * 3, 0, 0]"
      using assms(1) f by (auto simp: compute_plane_layout_def Let_def)
    then show ?thesis using assms(3,5) 1
      by (auto simp: destroy_planes_def Let_def open_planes_simps split: if_splits)
  next
    case 2
    let ?l = "pic_stride v * vheight v * bits div 8"
    have l: "planar_num lay = 2"
      "size lay = [?l, if is_yuv422_semiplanar (img_fmt v) then ?l else ?l div 2, 0]"
      using assms(1) f 2 by (auto simp: compute_plane_layout_def Let_def)
    then show ?thesis using assms(3-5) 2
      by (auto simp: destroy_planes_def Let_def open_planes_simps fm split: if_splits)
  qed
qed

definition releases :: "mem_event list \<Rightarrow> mem_event list" where
  "releases evs = filter (\<lambda>e. case e of ReleaseIvps g c \<Rightarrow> True | ReleaseVdec g c \<Rightarrow> True | _ \<Rightarrow> False) evs"

lemma destroy_spec:
  assumes "frame_ok fd" "destroy api fd = Some (r, evs, fd')"
  shows "r = 0 \<and> mappings evs = {#} \<and> unmappings evs = open_of fd \<and>
    releases evs = (if mem_id_of fd = kMemIdIvps then [ReleaseIvps (grp fd) (chn fd)]
                    else if mem_id_of fd = kMemIdVdec then [ReleaseVdec (grp fd) (chn fd)] else [])"
  using assms(1)
proof (cases rule: frame_okE)
  case (1 v lay)
  obtain pn bits where f: "destroy_format (img_fmt v) = Some (pn, bits)"
    using 1(2) by (auto simp: destroy_format_eq compute_plane_layout_def split: option.splits)
  obtain evs1 v' where d: "destroy_planes pn bits v = (evs1, v')" by fastforce
  have rel: "releases evs1 = []"
    using d by (auto simp: destroy_planes_def releases_def Let_def split: if_splits)
  note sp = destroy_planes_spec [OF 1(2) f 1(4,6) d]
  have o: "open_of fd = open_planes (size lay) (planar_num lay) v" using 1 by (simp add: open_of_def)
  show ?thesis
    using assms(2) 1 f d sp o rel by (auto simp: destroy_def Let_def releases_def split: if_splits)
qed

text \<open>Mapping changes addresses only.\<close>

definition same_dims :: "video_frame \<Rightarrow> video_frame \<Rightarrow> bool" where
  "same_dims v w = (pic_stride w = pic_stride v \<and> vwidth w = vwidth v \<and> vheight w = vheight v)"

lemma same_dims_simps [simp]:
  "same_dims v v" "same_dims v (set_vir i a w) = same_dims v w"
  "same_dims v (fill_derived_uv_phy_addr w) = same_dims v w"
  by (simp_all add: same_dims_def set_vir_def fill_derived_uv_phy_addr_def)

lemma rollback_dims: "rollback sz k n w = (evs, v') \<Longrightarrow> same_dims v w \<Longrightarrow> same_dims v v'"
  by (induction n arbitrary: k w evs) (auto split: prod.splits)

lemma map_planes_dims:
  "map_planes api sz i n w = (r, evs, v') \<Longrightarrow> same_dims v w \<Longrightarrow> same_dims v v'"
  by (induction n arbitrary: i w evs r)
    (auto simp: Let_def dest: rollback_dims split: prod.splits if_splits)

lemma ensure_mapped_dims:
  assumes "ensure_mapped api (Some fd) = (r, evs, d')" "info fd = Some v"
  shows "\<exists>fd' v'. d' = Some fd' \<and> info fd' = Some v' \<and> pic_stride v' = pic_stride v \<and>
    vwidth v' = vwidth v \<and> vheight v' = vheight v"
proof -
  have "\<exists>fd' v'. d' = Some fd' \<and> info fd' = Some v' \<and> same_dims v v'"
    using assms by (auto simp: ensure_mapped_def Let_def dest: map_planes_dims [of _ _ _ _ _ _ _ _ v]
        split: option.splits if_splits prod.splits)
  then show ?thesis by (auto simp: same_dims_def)
qed

section \<open>A frame's life\<close>

datatype frame_op = OpMap | OpUnmap

fun run_frame_ops ::
    "mem_api \<Rightarrow> frame_op list \<Rightarrow> frame_data option \<Rightarrow> mem_event list \<times> frame_data option" where
  "run_frame_ops api [] d = ([], d)"
| "run_frame_ops api (opn # ops) d =
     (let (r, evs, d1) = (case opn of OpMap \<Rightarrow> ensure_mapped api d | OpUnmap \<Rightarrow> unmap api d);
          (evs', d2) = run_frame_ops api ops d1
      in (evs @ evs', d2))"

lemma run_frame_ops_spec:
  "frame_ok fd \<Longrightarrow> run_frame_ops api ops (Some fd) = (evs, d') \<Longrightarrow>
   \<exists>fd'. d' = Some fd' \<and> frame_ok fd' \<and> mem_id_of fd' = mem_id_of fd \<and> grp fd' = grp fd \<and>
     chn fd' = chn fd \<and> mappings evs + open_of fd = unmappings evs + open_of fd'"
proof (induction ops arbitrary: fd evs)
  case Nil
  then show ?case by auto
next
  case (Cons opn ops)
  obtain r evs1 d1 where o: "(case opn of OpMap \<Rightarrow> ensure_mapped api (Some fd)
      | OpUnmap \<Rightarrow> unmap api (Some fd)) = (r, evs1, d1)"
    by (metis prod_cases3)
  obtain evs2 where c: "run_frame_ops api ops d1 = (evs2, d')" "evs = evs1 @ evs2"
    using Cons.prems(2) o by (auto split: prod.splits)
  have "\<exists>fd1. d1 = Some fd1 \<and> frame_ok fd1 \<and> mem_id_of fd1 = mem_id_of fd \<and> grp fd1 = grp fd \<and>
      chn fd1 = chn fd \<and> mappings evs1 + open_of fd = unmappings evs1 + open_of fd1"
  proof (cases opn)
    case OpMap
    then show ?thesis using ensure_mapped_spec [OF Cons.prems(1), of api r evs1 d1] o by auto
  next
    case OpUnmap
    then show ?thesis using unmap_spec [OF Cons.prems(1), of api r evs1 d1] o by auto
  qed
  then obtain fd1 where f1: "d1 = Some fd1" "frame_ok fd1" "mem_id_of fd1 = mem_id_of fd"
    "grp fd1 = grp fd" "chn fd1 = chn fd"
    "mappings evs1 + open_of fd = unmappings evs1 + open_of fd1" by blast
  obtain fd' where f2: "d' = Some fd'" "frame_ok fd'" "mem_id_of fd' = mem_id_of fd1"
    "grp fd' = grp fd1" "chn fd' = chn fd1"
    "mappings evs2 + open_of fd1 = unmappings evs2 + open_of fd'"
    using Cons.IH [OF f1(2)] c(1) f1(1) by blast
  have "mappings evs + open_of fd = unmappings evs1 + (mappings evs2 + open_of fd1)"
    using f1(6) c(2) by (simp add: ac_simps)
  also have "\<dots> = unmappings evs + open_of fd'" using f2(6) c(2) by (simp add: ac_simps)
  finally show ?case using f1 f2 by simp
qed

section \<open>Cloned buffers\<close>

fun alloced_by :: "mem_event \<Rightarrow> (u64 \<times> u64) multiset" where
  "alloced_by (MemAlloc n p v) = {#(p, v)#}"
| "alloced_by e = {#}"

fun freed_by :: "mem_event \<Rightarrow> (u64 \<times> u64) multiset" where
  "freed_by (MemFree p v) = {#(p, v)#}"
| "freed_by e = {#}"

definition allocs :: "mem_event list \<Rightarrow> (u64 \<times> u64) multiset" where
  "allocs evs = sum_list (map alloced_by evs)"

definition frees :: "mem_event list \<Rightarrow> (u64 \<times> u64) multiset" where
  "frees evs = sum_list (map freed_by evs)"

lemma allocs_simps [simp]:
  "allocs [] = {#}" "allocs (e # evs) = alloced_by e + allocs evs"
  "allocs (evs @ evs') = allocs evs + allocs evs'"
  "frees [] = {#}" "frees (e # evs) = freed_by e + frees evs"
  "frees (evs @ evs') = frees evs + frees evs'"
  by (simp_all add: allocs_def frees_def)

lemma rollback_allocs: "rollback sz k n v = (evs, v') \<Longrightarrow> allocs evs = {#} \<and> frees evs = {#}"
  by (induction n arbitrary: k v evs) (auto split: prod.splits)

lemma map_planes_allocs:
  "map_planes api sz i n v = (r, evs, v') \<Longrightarrow> allocs evs = {#} \<and> frees evs = {#}"
  by (induction n arbitrary: i v evs r)
    (auto simp: Let_def dest: rollback_allocs split: prod.splits if_splits)

lemma ensure_mapped_allocs:
  "ensure_mapped api d = (r, evs, d') \<Longrightarrow> allocs evs = {#} \<and> frees evs = {#}"
  by (auto simp: ensure_mapped_def Let_def dest: map_planes_allocs
      split: option.splits if_splits prod.splits)

text \<open>An allocation that succeeds has a physical address.\<close>

definition alloc_sound :: "mem_api \<Rightarrow> bool" where
  "alloc_sound api = (\<forall>i n phy vir. mem_alloc api i n = (0, phy, vir) \<longrightarrow> phy \<noteq> 0)"

lemma destroy_sys_frees:
  assumes "phy_addr v = [p0, p1, 0]" "vir_addr v = [a0, a1, 0]" "p0 = 0 \<longrightarrow> a0 = 0" "p1 = 0 \<longrightarrow> a1 = 0"
    "destroy_sys api v = (dr, devs, v'')"
  shows "frees devs = (if p0 = 0 then {#} else {#(p0, a0)#}) + (if p1 = 0 then {#} else {#(p1, a1)#}) \<and>
    allocs devs = {#}"
proof -
  have sv: "vir_addr (set_vir i x w) = (vir_addr w)[i := x]" "phy_addr (set_vir i x w) = phy_addr w"
    "phy_addr (set_phy i x w) = (phy_addr w)[i := x]" "vir_addr (set_phy i x w) = vir_addr w" for i x w
    by simp_all
  show ?thesis
    using assms
    by (cases "p0 = 0"; cases "p1 = 0")
      (auto simp: destroy_sys_def destroy_sys_plane_def sv numeral_2_eq_2)
qed

lemma clone_planes_spec:
  assumes "clone_planes api sz src 0 pn v = (r, evs, v', bs)" "pn = 1 \<or> pn = 2" "alloc_sound api"
    "phy_addr v = [0, 0, 0]" "vir_addr v = [0, 0, 0]" "destroy_sys api v' = (dr, devs, v'')"
  shows "allocs evs = frees devs \<and> frees evs = {#} \<and> allocs devs = {#} \<and> (r = 0 \<or> r = -3) \<and>
    (r = 0 \<longrightarrow> bs = map (\<lambda>i. read_bytes api (vir_addr src ! i) (unat (sz ! i))) [0..<pn])"
proof -
  let ?rb = "\<lambda>i. read_bytes api (vir_addr src ! i) (unat (sz ! i))"
  obtain ret0 q0 b0 where m0: "mem_alloc api 0 (sz ! 0) = (ret0, q0, b0)" by (metis prod_cases3)
  obtain ret1 q1 b1 where m1: "mem_alloc api 1 (sz ! 1) = (ret1, q1, b1)" by (metis prod_cases3)
  have n0: "ret0 = 0 \<Longrightarrow> q0 \<noteq> 0" and n1: "ret1 = 0 \<Longrightarrow> q1 \<noteq> 0"
    using assms(3) m0 m1 unfolding alloc_sound_def by blast+
  consider (none) "ret0 \<noteq> 0" | (one) "ret0 = 0" "pn = 1" | (half) "ret0 = 0" "pn = 2" "ret1 \<noteq> 0"
    | (two) "ret0 = 0" "pn = 2" "ret1 = 0" using assms(2) by blast
  then show ?thesis
  proof cases
    case none
    then have "r = -3 \<and> evs = [] \<and> v' = v" using assms(1,2) m0 by (auto simp: numeral_2_eq_2)
    then show ?thesis using destroy_sys_frees [OF assms(4,5) _ _ ] assms(6) by simp
  next
    case one
    then have h: "r = 0 \<and> evs = [MemAlloc (sz ! 0) q0 b0] \<and> v' = set_vir 0 b0 (set_phy 0 q0 v) \<and> bs = [?rb 0]"
      using assms(1) m0 by simp
    then have "phy_addr v' = [q0, 0, 0]" "vir_addr v' = [b0, 0, 0]" using assms(4,5) by simp_all
    then show ?thesis using destroy_sys_frees [OF _ _ _ _ assms(6)] n0 h one by simp
  next
    case half
    then have h: "r = -3 \<and> evs = [MemAlloc (sz ! 0) q0 b0] \<and> v' = set_vir 0 b0 (set_phy 0 q0 v)"
      using assms(1) m0 m1 by (simp add: numeral_2_eq_2)
    then have "phy_addr v' = [q0, 0, 0]" "vir_addr v' = [b0, 0, 0]" using assms(4,5) by simp_all
    then show ?thesis using destroy_sys_frees [OF _ _ _ _ assms(6)] n0 h half by simp
  next
    case two
    then have h: "r = 0 \<and> evs = [MemAlloc (sz ! 0) q0 b0, MemAlloc (sz ! 1) q1 b1] \<and>
        v' = set_vir 1 b1 (set_phy 1 q1 (set_vir 0 b0 (set_phy 0 q0 v))) \<and> bs = [?rb 0, ?rb 1]"
      using assms(1) m0 m1 by (simp add: numeral_2_eq_2)
    then have "phy_addr v' = [q0, q1, 0]" "vir_addr v' = [b0, b1, 0]" using assms(4,5) by simp_all
    then show ?thesis using destroy_sys_frees [OF _ _ _ _ assms(6)] n0 n1 h two
      by (simp add: numeral_2_eq_2 ac_simps)
  qed
qed

lemma copy2host_length:
  assumes "data src = Some fd" "info fd = Some v" "compute_plane_layout v = Some lay"
    "copy2host api src = (0, evs, src', Some bytes)"
  shows "length bytes = (\<Sum>i<planar_num lay. unat (size lay ! i))"
proof -
  have "\<exists>w. bytes = concat (map (\<lambda>i. read_bytes api (w ! i) (unat (size lay ! i))) [0..<planar_num lay])"
    using assms by (auto simp: copy2host_def split: if_splits option.splits prod.splits)
  then show ?thesis
    by (auto simp: length_concat read_bytes_def o_def interv_sum_list_conv_sum_set_nat atLeast0LessThan)
qed

text \<open>Mapping gives nothing back to the hardware.\<close>

lemma releases_simps [simp]:
  "releases [] = []" "releases (xs @ ys) = releases xs @ releases ys"
  "releases (Mmap p n a # es) = releases es" "releases (Munmap a n # es) = releases es"
  by (simp_all add: releases_def)

lemma rollback_releases: "rollback sz k n v = (evs, v') \<Longrightarrow> releases evs = []"
  by (induction n arbitrary: k v evs) (auto simp: Let_def split: prod.splits)

lemma map_planes_releases: "map_planes api sz i n v = (r, evs, v') \<Longrightarrow> releases evs = []"
  by (induction n arbitrary: i v evs r) (auto simp: Let_def rollback_releases split: if_splits prod.splits)

lemma ensure_mapped_releases: "ensure_mapped api d = (r, evs, d') \<Longrightarrow> releases evs = []"
  by (auto simp: ensure_mapped_def Let_def map_planes_releases split: if_splits option.splits prod.splits)

section \<open>A concrete frame\<close>

definition demo_api :: mem_api where
  "demo_api = \<lparr>mmap = \<lambda>p n. p + 0x1000, munmap_ret = \<lambda>a n. 0,
     mem_alloc = \<lambda>i n. if i = 0 then (0, 0x9000, 0xA000) else (5, 0, 0),
     mem_free_ret = \<lambda>p a. 0, memory = \<lambda>a. ucast a\<rparr>"

definition demo_vframe :: "img_format \<Rightarrow> video_frame" where
  "demo_vframe f = \<lparr>img_fmt = f, vwidth = 3, vheight = 2, pic_stride = 4, frame_size = 0,
     phy_addr = [0x100, 0, 0], vir_addr = [0, 0, 0]\<rparr>"

definition demo_frame :: "img_format \<Rightarrow> frame_data" where
  "demo_frame f = frame_create (Some (demo_vframe f)) 0 1 kMemIdVdec"

definition demo_run :: "mem_event list \<times> frame_data option" where
  "demo_run = run_frame_ops demo_api [OpMap, OpMap, OpUnmap, OpMap] (Some (demo_frame YUV420_SEMIPLANAR))"

definition demo_end :: "int \<times> mem_event list \<times> frame_data" where
  "demo_end = the (destroy demo_api (the (snd demo_run)))"

definition demo_image :: "img_format \<Rightarrow> image_data" where
  "demo_image f = \<lparr>width = 3, height = 2, img_format = f, end_of_stream = False,
     data = Some (demo_frame f)\<rparr>"

section \<open>Properties\<close>

text \<open>C20. No mapping leaks and none is undone twice or with another size: for a frame of a supported
  format that comes from IVPS, VDEC or anything but \<open>AX_SYS_MemAlloc\<close>, whatever sequence of
  \<open>EnsureMapped\<close> and \<open>Unmap\<close> is run on it and whatever the memory calls return, the mappings made up
  to and including \<open>Destroy\<close> are exactly the unmappings, address and size, and \<open>Destroy\<close> gives the
  hardware frame back exactly once.\<close>

theorem frame_mappings_balanced:
  assumes "info fd = Some v" "compute_plane_layout v \<noteq> None" "length (phy_addr v) = 3"
    "vir_addr v = [0, 0, 0]" "mem_id_of fd \<noteq> kMemIdSys"
    "run_frame_ops api ops (Some fd) = (evs, Some fd')" "destroy api fd' = Some (r, devs, fd'')"
  shows "mappings (evs @ devs) = unmappings (evs @ devs) \<and>
    releases devs = (if mem_id_of fd = kMemIdIvps then [ReleaseIvps (grp fd) (chn fd)]
                     else if mem_id_of fd = kMemIdVdec then [ReleaseVdec (grp fd) (chn fd)] else [])"
proof -
  obtain lay where lay: "compute_plane_layout v = Some lay" using assms(2) by auto
  have ok: "frame_ok fd" using assms(1,3-5) lay by (intro frame_okI) auto
  have pn: "planar_num lay = Suc 0 \<or> planar_num lay = 2" using lay by (rule layout_cases) auto
  have o: "open_of fd = {#}" using assms(1,4) lay pn by (auto simp: open_of_def open_planes_simps)
  show ?thesis
    using run_frame_ops_spec [OF ok assms(6)] destroy_spec [OF _ assms(7)] o by auto
qed

theorem frame_mappings_balanced_witness:
  "length (fst demo_run) = 6 \<and>
   mappings (fst demo_run @ fst (snd demo_end)) = unmappings (fst demo_run @ fst (snd demo_end)) \<and>
   releases (fst (snd demo_end)) = [ReleaseVdec 0 1]"
proof -
  have c: "snd demo_run \<noteq> None" "destroy demo_api (the (snd demo_run)) \<noteq> None" "length (fst demo_run) = 6"
    "compute_plane_layout (demo_vframe YUV420_SEMIPLANAR) \<noteq> None"
    by code_simp+
  have x: "run_frame_ops demo_api [OpMap, OpMap, OpUnmap, OpMap] (Some (demo_frame YUV420_SEMIPLANAR)) =
      (fst demo_run, Some (the (snd demo_run)))"
    using c(1) unfolding demo_run_def by (metis option.collapse prod.collapse)
  have y: "destroy demo_api (the (snd demo_run)) =
      Some (fst demo_end, fst (snd demo_end), snd (snd demo_end))"
    using c(2) unfolding demo_end_def by auto
  show ?thesis
    using frame_mappings_balanced [OF _ c(4) _ _ _ x y] c(3)
    by (simp add: demo_frame_def demo_vframe_def frame_create_def)
qed

text \<open>\<open>Clone\<close> owns what it allocates and nothing else: whatever it returns, destroying the
  destination frees exactly the buffers that \<open>Clone\<close> allocated (also after a failed allocation half
  way), never an address of the source; when it succeeds the planes hold the source's bytes.\<close>

theorem clone_owns_its_buffers:
  assumes "clone api dest src = (r, evs, dest', src', bs)" "alloc_sound api"
    "data dest' = Some fd" "r = 0 \<or> r = -3" "destroy api fd = Some (dr, devs, fd')"
  shows "mem_id_of fd = kMemIdSys \<and> allocs evs = frees devs \<and> frees evs = {#} \<and>
    (r = 0 \<longrightarrow> (\<exists>sfd v lay. data src' = Some sfd \<and> info sfd = Some v \<and>
       compute_plane_layout (the (info (the (data src)))) = Some lay \<and>
       bs = map (\<lambda>i. read_bytes api (vir_addr v ! i) (unat (size lay ! i))) [0..<planar_num lay]))"
proof -
  obtain s v lay where s: "data src = Some s" "info s = Some v" "compute_plane_layout v = Some lay"
    using assms(1,4) by (auto simp: clone_def split: option.splits)
  obtain mret mevs d' where m: "ensure_mapped api (Some s) = (mret, mevs, d')" by (metis prod_cases3)
  obtain s' where s': "mret = 0" "d' = Some s'"
    using assms(1,4) s m by (auto simp: clone_def Let_def split: if_splits option.splits)
  have i: "info s' \<noteq> None"
    using m s s' by (auto simp: ensure_mapped_def Let_def split: if_splits prod.splits)
  define sv where "sv = the (info s')"
  define v0 where "v0 = sv\<lparr>phy_addr := [0, 0, 0], vir_addr := [0, 0, 0]\<rparr>"
  obtain r1 evs1 v' bs1 where c: "clone_planes api (size lay) sv 0 (planar_num lay) v0 = (r1, evs1, v', bs1)"
    by (metis prod_cases4)
  have e: "r = r1" "evs = mevs @ evs1" "bs = bs1" "data src' = Some s'"
    "fd = frame_create_sys (Some v') kMemIdSys"
    using assms(1,3) s m s' c by (auto simp: clone_def Let_def sv_def v0_def split: prod.splits)
  obtain dr2 devs2 v'' where d: "destroy_sys api v' = (dr2, devs2, v'')" by (metis prod_cases3)
  have devs: "devs = devs2" using assms(5) d e(5) by (auto simp: destroy_def frame_create_sys_def)
  have pn: "planar_num lay = 1 \<or> planar_num lay = 2" using s(3) by (rule layout_cases) auto
  have z: "phy_addr v0 = [0, 0, 0]" "vir_addr v0 = [0, 0, 0]" by (simp_all add: v0_def)
  have si: "info s' = Some sv" using i by (simp add: sv_def)
  show ?thesis
    using clone_planes_spec [OF c pn assms(2) z d] ensure_mapped_allocs [OF m] e s devs si
    by (auto simp: frame_create_sys_def)
qed

theorem clone_owns_its_buffers_witness:
  "let (r, evs, dest', src', bs) = clone demo_api (demo_image RGB888) (demo_image YUV420_SEMIPLANAR);
       (dr, devs, fd') = the (destroy demo_api (the (data dest')))
   in r = -3 \<and> mem_id_of (the (data dest')) = kMemIdSys \<and> allocs evs = frees devs \<and> length devs = 1"
proof -
  let ?x = "clone demo_api (demo_image RGB888) (demo_image YUV420_SEMIPLANAR)"
  let ?d = "fst (snd (snd ?x))"
  let ?y = "destroy demo_api (the (data ?d))"
  have c: "fst ?x = -3" "data ?d \<noteq> None" "?y \<noteq> None" "length (fst (snd (the ?y))) = 1"
    by code_simp+
  have a: "alloc_sound demo_api" by (simp add: alloc_sound_def demo_api_def)
  have x: "?x = (fst ?x, fst (snd ?x), ?d, fst (snd (snd (snd ?x))), snd (snd (snd (snd ?x))))" by simp
  have y: "?y = Some (fst (the ?y), fst (snd (the ?y)), snd (snd (the ?y)))" using c(3) by auto
  have d: "data ?d = Some (the (data ?d))" using c(2) by simp
  show ?thesis
    using clone_owns_its_buffers [OF x a d _ y] c(1,4) by (simp add: case_prod_beta Let_def)
qed

text \<open>\<open>Copy2Host\<close> and \<open>Copy2Mat\<close> stay inside the mapping. A successful \<open>Copy2Host\<close> gives as many
  bytes as the layout's planes hold together; a successful \<open>Copy2Mat\<close> gives one row of three bytes a
  pixel for every line, and every byte of every row lies inside the mapped plane when the plane is
  large enough for its stride and height.\<close>

theorem copies_in_bounds:
  assumes "data src = Some fd" "info fd = Some v" "compute_plane_layout v = Some lay"
  shows "(copy2host api src = (0, evs, src', Some bytes) \<longrightarrow>
      length bytes = (\<Sum>i<planar_num lay. unat (size lay ! i))) \<and>
    (copy2mat api src = (0, evs, src', rows) \<longrightarrow>
      vwidth v \<le> pic_stride v \<longrightarrow> unat (pic_stride v) * 3 * unat (vheight v) \<le> unat (size lay ! 0) \<longrightarrow>
      length rows = unat (vheight v) \<and>
      (\<forall>i < unat (vheight v). \<exists>a. rows ! i = read_bytes api (a + of_nat (row_offset (pic_stride v) i)) (unat (vwidth v) * 3) \<and>
         row_offset (pic_stride v) i + unat (vwidth v) * 3 \<le> unat (size lay ! 0)))"
proof (intro conjI impI)
  assume "copy2host api src = (0, evs, src', Some bytes)"
  then show "length bytes = (\<Sum>i<planar_num lay. unat (size lay ! i))"
    using copy2host_length assms by blast
next
  assume c: "copy2mat api src = (0, evs, src', rows)" and w: "vwidth v \<le> pic_stride v"
    and b: "unat (pic_stride v) * 3 * unat (vheight v) \<le> unat (size lay ! 0)"
  obtain mret mevs d' where m: "ensure_mapped api (Some fd) = (mret, mevs, d')" by (metis prod_cases3)
  then obtain fd' v' where fd': "d' = Some fd'" "info fd' = Some v'" "pic_stride v' = pic_stride v"
    "vwidth v' = vwidth v" "vheight v' = vheight v"
    using ensure_mapped_dims [OF m assms(2)] by blast
  let ?r = "\<lambda>i. read_bytes api (vir_addr v' ! 0 + of_nat (row_offset (pic_stride v) i)) (unat (vwidth v) * 3)"
  have rows: "rows = map ?r [0..<unat (vheight v)]"
    using c assms(1,2) m fd' by (auto simp: copy2mat_def split: if_splits)
  then show "length rows = unat (vheight v)" by simp
  have "row_offset (pic_stride v) i + unat (vwidth v) * 3 \<le> unat (size lay ! 0)"
    if "i < unat (vheight v)" for i
  proof -
    have "unat (vwidth v) * 3 \<le> unat (pic_stride v) * 3" using w by (simp add: word_le_nat_alt)
    then have "row_offset (pic_stride v) i + unat (vwidth v) * 3 \<le> Suc i * (unat (pic_stride v) * 3)"
      by (simp add: row_offset_def)
    also have "\<dots> \<le> unat (vheight v) * (unat (pic_stride v) * 3)"
      using that by (intro mult_le_mono1) simp
    also have "\<dots> \<le> unat (size lay ! 0)" using b by (simp add: ac_simps)
    finally show ?thesis .
  qed
  then show "\<forall>i < unat (vheight v). \<exists>a. rows ! i = read_bytes api (a + of_nat (row_offset (pic_stride v) i)) (unat (vwidth v) * 3) \<and>
         row_offset (pic_stride v) i + unat (vwidth v) * 3 \<le> unat (size lay ! 0)"
    using rows by auto
qed

theorem copies_in_bounds_witness:
  "length (the (snd (snd (snd (copy2host demo_api (demo_image RGB888)))))) = 24 \<and>
   length (snd (snd (snd (copy2mat demo_api (demo_image RGB888))))) = 2"
proof -
  let ?h = "copy2host demo_api (demo_image RGB888)"
  let ?m = "copy2mat demo_api (demo_image RGB888)"
  let ?lay = "\<lparr>planar_num = 1, size = [24, 0, 0]\<rparr>"
  have c: "compute_plane_layout (demo_vframe RGB888) = Some ?lay" "fst ?h = 0" "fst ?m = 0"
    "snd (snd (snd ?h)) \<noteq> None"
    by code_simp+
  have h: "?h = (0, fst (snd ?h), fst (snd (snd ?h)), Some (the (snd (snd (snd ?h)))))"
    and m: "?m = (0, fst (snd ?m), fst (snd (snd ?m)), snd (snd (snd ?m)))"
    using c by (metis option.collapse prod.collapse)+
  have i: "data (demo_image RGB888) = Some (demo_frame RGB888)"
    "info (demo_frame RGB888) = Some (demo_vframe RGB888)"
    by (simp_all add: demo_image_def demo_frame_def frame_create_def)
  show ?thesis
    using copies_in_bounds [OF i c(1), THEN conjunct1, THEN mp, OF h]
      copies_in_bounds [OF i c(1), THEN conjunct2, THEN mp, OF m]
    by (simp add: demo_vframe_def lessThan_Suc)
qed

end
