(* ===== verification/Byte_Track.thy ===== *)
theory Byte_Track
  imports Detection
begin

text \<open>
  The tracker of \<open>tracker/bytetrack/\<close>: \<open>STrack\<close>, \<open>BYTETracker\<close> and its helpers in \<open>utils.cpp\<close>. Numbers
  are of any type with the operations of \<open>float\<close>, without laws. The Kalman filter (Eigen code) and the
  solver behind \<open>lapjv\<close> are parameters. The update works through pointers into the two vectors of the
  tracker; here a pointer is a \<open>track_ref\<close>. Comparisons that the code makes between a \<open>float\<close> and a
  \<open>double\<close> literal use the one number type.
\<close>

section \<open>Numbers\<close>

text \<open>Small literals as sums of ones.\<close>

fun lit :: "nat \<Rightarrow> 'f::{zero,one,plus}" where
  "lit 0 = 0"
| "lit (Suc 0) = 1"
| "lit (Suc (Suc n)) = lit (Suc n) + 1"

section \<open>Tracks\<close>

datatype track_state = New | Tracked | Lost | Removed

record ('f, 'c) strack =
  is_activated :: bool
  tid :: int
  state :: track_state
  tlwh0 :: "'f list"
  tlwh :: "'f list"
  tlbr :: "'f list"
  frame_id :: int
  tracklet_len :: int
  start_frame :: int
  mean :: "'f list"
  covariance :: "'c option"
  score :: 'f

record ('f, 'c) kalman =
  initiate :: "'f list \<Rightarrow> 'f list \<times> 'c"
  kf_update :: "'f list \<Rightarrow> 'c option \<Rightarrow> 'f list \<Rightarrow> 'f list \<times> 'c"
  predict :: "'f list \<Rightarrow> 'c option \<Rightarrow> 'f list \<times> 'c option"

definition tlbr_to_tlwh :: "'f::minus list \<Rightarrow> 'f list" where
  "tlbr_to_tlwh b = b[2 := b ! 2 - b ! 0, 3 := b ! 3 - b ! 1]"

definition tlwh_to_xyah :: "'f::{zero,one,plus,inverse} list \<Rightarrow> 'f list" where
  "tlwh_to_xyah t = [t ! 0 + t ! 2 / lit 2, t ! 1 + t ! 3 / lit 2, t ! 2 / t ! 3, t ! 3]"

definition static_tlwh ::
    "('f::{zero,one,plus,minus,times,inverse}, 'c) strack \<Rightarrow> ('f, 'c) strack" where
  "static_tlwh s =
     (if state s = New then
        s\<lparr>tlwh := [tlwh0 s ! 0, tlwh0 s ! 1, tlwh0 s ! 2, tlwh0 s ! 3]\<rparr>
      else
        (let m = mean s; w = m ! 2 * m ! 3
         in s\<lparr>tlwh := [m ! 0 - w / lit 2, m ! 1 - m ! 3 / lit 2, w, m ! 3]\<rparr>))"

definition static_tlbr :: "('f::plus, 'c) strack \<Rightarrow> ('f, 'c) strack" where
  "static_tlbr s =
     (let t = tlwh s in s\<lparr>tlbr := [t ! 0, t ! 1, t ! 2 + t ! 0, t ! 3 + t ! 1]\<rparr>)"

definition strack_new ::
    "'f::{zero,one,plus,minus,times,inverse} list \<Rightarrow> 'f \<Rightarrow> ('f, 'c) strack" where
  "strack_new b sc =
     static_tlbr (static_tlwh
       \<lparr>is_activated = False, tid = 0, state = New, tlwh0 = b, tlwh = replicate 4 0,
        tlbr = replicate 4 0, frame_id = 0, tracklet_len = 0, start_frame = 0, mean = [],
        covariance = None, score = sc\<rparr>)"

definition activate ::
    "('f::{zero,one,plus,minus,times,inverse}, 'c) kalman \<Rightarrow> int \<Rightarrow> int \<Rightarrow> ('f, 'c) strack \<Rightarrow> ('f, 'c) strack" where
  "activate kf fid new_id s =
     (let (m, c) = initiate kf (tlwh_to_xyah [tlwh0 s ! 0, tlwh0 s ! 1, tlwh0 s ! 2, tlwh0 s ! 3]);
          s1 = static_tlbr (static_tlwh (s\<lparr>tid := new_id, mean := m, covariance := Some c\<rparr>))
      in s1\<lparr>tracklet_len := 0, state := Tracked, is_activated := True, frame_id := fid,
            start_frame := fid\<rparr>)"

definition re_activate ::
    "('f::{zero,one,plus,minus,times,inverse}, 'c) kalman \<Rightarrow> ('f, 'c) strack \<Rightarrow> int \<Rightarrow> ('f, 'c) strack \<Rightarrow>
     ('f, 'c) strack" where
  "re_activate kf d fid s =
     (let (m, c) = kf_update kf (mean s) (covariance s) (tlwh_to_xyah (tlwh d));
          s1 = static_tlbr (static_tlwh (s\<lparr>mean := m, covariance := Some c\<rparr>))
      in s1\<lparr>tracklet_len := 0, state := Tracked, is_activated := True, frame_id := fid,
            score := score d\<rparr>)"

definition track_update ::
    "('f::{zero,one,plus,minus,times,inverse}, 'c) kalman \<Rightarrow> ('f, 'c) strack \<Rightarrow> int \<Rightarrow> ('f, 'c) strack \<Rightarrow>
     ('f, 'c) strack" where
  "track_update kf d fid s =
     (let s0 = s\<lparr>frame_id := fid, tracklet_len := tracklet_len s + 1\<rparr>;
          (m, c) = kf_update kf (mean s0) (covariance s0) (tlwh_to_xyah (tlwh d));
          s1 = static_tlbr (static_tlwh (s0\<lparr>mean := m, covariance := Some c\<rparr>))
      in s1\<lparr>state := Tracked, is_activated := True, score := score d\<rparr>)"

definition mark_lost :: "('f, 'c) strack \<Rightarrow> ('f, 'c) strack" where
  "mark_lost s = s\<lparr>state := Lost\<rparr>"

definition mark_removed :: "('f, 'c) strack \<Rightarrow> ('f, 'c) strack" where
  "mark_removed s = s\<lparr>state := Removed\<rparr>"

text \<open>One element of \<open>multi_predict\<close>.\<close>

definition predict_track :: "('f::zero, 'c) kalman \<Rightarrow> ('f, 'c) strack \<Rightarrow> ('f, 'c) strack" where
  "predict_track kf s =
     (let s1 = (if state s \<noteq> Tracked then s\<lparr>mean := (mean s)[7 := 0]\<rparr> else s);
          (m, c) = predict kf (mean s1) (covariance s1)
      in s1\<lparr>mean := m, covariance := c\<rparr>)"

section \<open>Lists of tracks\<close>

text \<open>\<open>joint_stracks\<close> in both overloads: all of the first list, then what has an id not seen yet.\<close>

fun joint_loop :: "('x \<Rightarrow> int) \<Rightarrow> int set \<Rightarrow> 'x list \<Rightarrow> 'x list" where
  "joint_loop key seen [] = []"
| "joint_loop key seen (b # bs) =
     (if key b \<in> seen then joint_loop key seen bs
      else b # joint_loop key (insert (key b) seen) bs)"

definition joint_stracks :: "('x \<Rightarrow> int) \<Rightarrow> 'x list \<Rightarrow> 'x list \<Rightarrow> 'x list" where
  "joint_stracks key as bs = as @ joint_loop key (key ` set as) bs"

text \<open>\<open>sub_stracks\<close>: a map keyed by id keeps the first of each id; what remains comes out by id.\<close>

definition sub_stracks :: "('f, 'c) strack list \<Rightarrow> ('f, 'c) strack list \<Rightarrow> ('f, 'c) strack list" where
  "sub_stracks as bs =
     sort_key tid (filter (\<lambda>a. tid a \<notin> tid ` set bs) (joint_loop tid {} as))"

section \<open>Overlaps\<close>

definition box_iou :: "'f::{zero,one,plus,minus,times,inverse,ord} list \<Rightarrow> 'f list \<Rightarrow> 'f" where
  "box_iou a b =
     (let box_area = (b ! 2 - b ! 0 + 1) * (b ! 3 - b ! 1 + 1);
          iw = std_min (a ! 2) (b ! 2) - std_max (a ! 0) (b ! 0) + 1
      in if 0 < iw then
           (let ih = std_min (a ! 3) (b ! 3) - std_max (a ! 1) (b ! 1) + 1
            in if 0 < ih then
                 iw * ih / ((a ! 2 - a ! 0 + 1) * (a ! 3 - a ! 1 + 1) + box_area - iw * ih)
               else 0)
         else 0)"

definition ious :: "'f::{zero,one,plus,minus,times,inverse,ord} list list \<Rightarrow> 'f list list \<Rightarrow> 'f list list" where
  "ious as bs = (if length as * length bs = 0 then [] else map (\<lambda>a. map (\<lambda>b. box_iou a b) bs) as)"

definition iou_distance ::
    "('f::{zero,one,plus,minus,times,inverse,ord}, 'c) strack list \<Rightarrow> ('f, 'c) strack list \<Rightarrow> 'f list list" where
  "iou_distance as bs = map (map (\<lambda>x. 1 - x)) (ious (map tlbr as) (map tlbr bs))"

definition remove_duplicate_stracks ::
    "('f::{zero,one,plus,minus,times,inverse,ord}, 'c) strack list \<Rightarrow> ('f, 'c) strack list \<Rightarrow>
     ('f, 'c) strack list \<times> ('f, 'c) strack list" where
  "remove_duplicate_stracks as bs =
     (let pdist = iou_distance as bs;
          pairs = concat (map (\<lambda>i. map (\<lambda>j. (i, j))
                    (filter (\<lambda>j. pdist ! i ! j < lit 15 / lit 100) [0..<length (pdist ! i)])) [0..<length pdist]);
          life = (\<lambda>s. frame_id s - start_frame s);
          dupb = map snd (filter (\<lambda>(p, q). life (as ! p) > life (bs ! q)) pairs);
          dupa = map fst (filter (\<lambda>(p, q). \<not> life (as ! p) > life (bs ! q)) pairs)
      in (map (\<lambda>i. as ! i) (filter (\<lambda>i. i \<notin> set dupa) [0..<length as]),
          map (\<lambda>i. bs ! i) (filter (\<lambda>i. i \<notin> set dupb) [0..<length bs])))"

section \<open>Assignment\<close>

text \<open>
  The wrapper around \<open>lapjv_internal\<close>. The solver gets the size and the square matrix and returns its code
  and what it left in \<open>x_c\<close> and \<open>y_c\<close>. \<open>None\<close> is the default limit \<open>LONG_MAX\<close>. The optimum that the
  code adds up is not used by its caller and is left out.
\<close>

type_synonym 'f solver = "nat \<Rightarrow> (nat \<Rightarrow> nat \<Rightarrow> 'f) \<Rightarrow> int \<times> (nat \<Rightarrow> int) \<times> (nat \<Rightarrow> int)"

definition cost_max :: "'f::{zero,one,minus,ord} list list \<Rightarrow> 'f" where
  "cost_max cost = fold (fold (\<lambda>c m. if m < c then c else m)) cost (0 - 1)"

definition extended_cost ::
    "'f::{zero,one,plus,minus,inverse,ord} option \<Rightarrow> 'f list list \<Rightarrow> nat \<Rightarrow> nat \<Rightarrow> 'f" where
  "extended_cost lim cost i j =
     (let n_rows = length cost; n_cols = length (cost ! 0)
      in if i < n_rows \<and> j < n_cols then cost ! i ! j
         else if n_rows \<le> i \<and> n_cols \<le> j then 0
         else (case lim of Some l \<Rightarrow> l / lit 2 | None \<Rightarrow> cost_max cost + 1))"

definition lapjv ::
    "'f::{zero,one,plus,minus,inverse,ord} solver \<Rightarrow> bool \<Rightarrow> 'f option \<Rightarrow> 'f list list \<Rightarrow>
     int list \<times> int list" where
  "lapjv solve extend_cost lim cost =
     (let n_rows = length cost; n_cols = length (cost ! 0);
          none = (replicate n_rows (- 1), replicate n_cols (- 1))
      in if n_rows \<noteq> n_cols \<and> \<not> extend_cost then none
         else
           (let big = (extend_cost \<or> lim \<noteq> None);
                n = (if big then n_rows + n_cols else n_rows);
                (ret, x_c, y_c) =
                  solve n (if big then extended_cost lim cost else (\<lambda>i j. cost ! i ! j))
            in if ret \<noteq> 0 then none
               else if n \<noteq> n_rows then
                 (map (\<lambda>i. if int n_cols \<le> x_c i then - 1 else x_c i) [0..<n_rows],
                  map (\<lambda>j. if int n_rows \<le> y_c j then - 1 else y_c j) [0..<n_cols])
               else (replicate n_rows 0, replicate n_cols 0)))"

definition linear_assignment ::
    "'f::{zero,one,plus,minus,inverse,ord} solver \<Rightarrow> 'f list list \<Rightarrow> nat \<Rightarrow> nat \<Rightarrow> 'f \<Rightarrow>
     (nat \<times> nat) list \<times> nat list \<times> nat list" where
  "linear_assignment solve cost na nb thresh =
     (if cost = [] then ([], [0..<na], [0..<nb])
      else
        (let (rowsol, colsol) = lapjv solve True (Some thresh) cost
         in (map (\<lambda>i. (i, nat (rowsol ! i))) (filter (\<lambda>i. 0 \<le> rowsol ! i) [0..<length rowsol]),
             filter (\<lambda>i. \<not> 0 \<le> rowsol ! i) [0..<length rowsol],
             filter (\<lambda>j. colsol ! j < 0) [0..<length colsol])))"

section \<open>The tracker\<close>

record 'f byte_tracker_config =
  cfg_frame_rate :: int
  cfg_track_buffer :: int
  cfg_track_thresh :: 'f
  cfg_high_thresh :: 'f
  cfg_match_thresh :: 'f

record ('f, 'c) byte_tracker =
  track_thresh :: 'f
  high_thresh :: 'f
  match_thresh :: 'f
  bt_frame :: int
  max_time_lost :: int
  tracked_stracks :: "('f, 'c) strack list"
  lost_stracks :: "('f, 'c) strack list"
  removed_stracks :: "('f, 'c) strack list"

text \<open>Conversions between \<open>int\<close> and \<open>double\<close> are parameters.\<close>

definition byte_tracker_new ::
    "(int \<Rightarrow> 'f::{zero,one,plus,times,inverse}) \<Rightarrow> ('f \<Rightarrow> int) \<Rightarrow> 'f byte_tracker_config \<Rightarrow>
     ('f, 'c) byte_tracker" where
  "byte_tracker_new of_i to_i cfg =
     \<lparr>track_thresh = cfg_track_thresh cfg, high_thresh = cfg_high_thresh cfg,
      match_thresh = cfg_match_thresh cfg, bt_frame = 0,
      max_time_lost = to_i (of_i (cfg_frame_rate cfg) / lit 30 * of_i (cfg_track_buffer cfg)),
      tracked_stracks = [], lost_stracks = [], removed_stracks = []\<rparr>"

text \<open>A pointer into one of the two vectors.\<close>

datatype track_ref = InTracked nat | InLost nat

fun deref :: "('f, 'c) byte_tracker \<Rightarrow> track_ref \<Rightarrow> ('f, 'c) strack" where
  "deref b (InTracked i) = tracked_stracks b ! i"
| "deref b (InLost i) = lost_stracks b ! i"

fun assign :: "('f, 'c) byte_tracker \<Rightarrow> track_ref \<Rightarrow> ('f, 'c) strack \<Rightarrow> ('f, 'c) byte_tracker" where
  "assign b (InTracked i) t = b\<lparr>tracked_stracks := (tracked_stracks b)[i := t]\<rparr>"
| "assign b (InLost i) t = b\<lparr>lost_stracks := (lost_stracks b)[i := t]\<rparr>"

text \<open>Step 1.\<close>

definition detection_of ::
    "'f::{zero,one,plus,minus,times,inverse} object \<Rightarrow> ('f, 'c) strack" where
  "detection_of ob =
     strack_new (tlbr_to_tlwh [rx (rect ob), ry (rect ob), rx (rect ob) + rwidth (rect ob),
                               ry (rect ob) + rheight (rect ob)]) (prob ob)"

definition unconfirmed_refs :: "('f, 'c) byte_tracker \<Rightarrow> track_ref list" where
  "unconfirmed_refs b =
     map InTracked (filter (\<lambda>i. \<not> is_activated (tracked_stracks b ! i)) [0..<length (tracked_stracks b)])"

definition confirmed_refs :: "('f, 'c) byte_tracker \<Rightarrow> track_ref list" where
  "confirmed_refs b =
     map InTracked (filter (\<lambda>i. is_activated (tracked_stracks b ! i)) [0..<length (tracked_stracks b)])"

text \<open>The \<open>joint_stracks\<close> of pointers and vector elements.\<close>

definition strack_pool :: "('f, 'c) byte_tracker \<Rightarrow> track_ref list" where
  "strack_pool b =
     joint_stracks (\<lambda>r. tid (deref b r)) (confirmed_refs b) (map InLost [0..<length (lost_stracks b)])"

fun multi_predict :: "('f::zero, 'c) kalman \<Rightarrow> track_ref list \<Rightarrow> ('f, 'c) byte_tracker \<Rightarrow> ('f, 'c) byte_tracker" where
  "multi_predict kf [] b = b"
| "multi_predict kf (r # rs) b = multi_predict kf rs (assign b r (predict_track kf (deref b r)))"

text \<open>The loop over the matches of steps 2 and 3: the tracker, what was activated, what was found again.\<close>

fun assoc_matches ::
    "('f::{zero,one,plus,minus,times,inverse}, 'c) kalman \<Rightarrow> track_ref list \<Rightarrow> ('f, 'c) strack list \<Rightarrow>
     (nat \<times> nat) list \<Rightarrow> ('f, 'c) byte_tracker \<times> ('f, 'c) strack list \<times> ('f, 'c) strack list \<Rightarrow>
     ('f, 'c) byte_tracker \<times> ('f, 'c) strack list \<times> ('f, 'c) strack list" where
  "assoc_matches kf refs dets [] st = st"
| "assoc_matches kf refs dets ((i, j) # ms) (b, act, refi) =
     (let t = deref b (refs ! i)
      in if state t = Tracked then
           (let t' = track_update kf (dets ! j) (bt_frame b) t
            in assoc_matches kf refs dets ms (assign b (refs ! i) t', act @ [t'], refi))
         else
           (let t' = re_activate kf (dets ! j) (bt_frame b) t
            in assoc_matches kf refs dets ms (assign b (refs ! i) t', act, refi @ [t'])))"

fun lose_unmatched ::
    "track_ref list \<Rightarrow> ('f, 'c) byte_tracker \<times> ('f, 'c) strack list \<Rightarrow>
     ('f, 'c) byte_tracker \<times> ('f, 'c) strack list" where
  "lose_unmatched [] st = st"
| "lose_unmatched (r # rs) (b, lost) =
     (if state (deref b r) \<noteq> Lost then
        lose_unmatched rs (assign b r (mark_lost (deref b r)), lost @ [mark_lost (deref b r)])
      else lose_unmatched rs (b, lost))"

text \<open>Unconfirmed tracks: an update for a match, removal otherwise.\<close>

fun confirm_matches ::
    "('f::{zero,one,plus,minus,times,inverse}, 'c) kalman \<Rightarrow> track_ref list \<Rightarrow> ('f, 'c) strack list \<Rightarrow>
     (nat \<times> nat) list \<Rightarrow> ('f, 'c) byte_tracker \<times> ('f, 'c) strack list \<Rightarrow>
     ('f, 'c) byte_tracker \<times> ('f, 'c) strack list" where
  "confirm_matches kf refs dets [] st = st"
| "confirm_matches kf refs dets ((i, j) # ms) (b, act) =
     (let t' = track_update kf (dets ! j) (bt_frame b) (deref b (refs ! i))
      in confirm_matches kf refs dets ms (assign b (refs ! i) t', act @ [t']))"

fun remove_unconfirmed ::
    "track_ref list \<Rightarrow> ('f, 'c) byte_tracker \<times> ('f, 'c) strack list \<Rightarrow>
     ('f, 'c) byte_tracker \<times> ('f, 'c) strack list" where
  "remove_unconfirmed [] st = st"
| "remove_unconfirmed (r # rs) (b, rem) =
     remove_unconfirmed rs (assign b r (mark_removed (deref b r)), rem @ [mark_removed (deref b r)])"

text \<open>Step 4.\<close>

fun init_stracks ::
    "('f::{zero,one,plus,minus,times,inverse,ord}, 'c) kalman \<Rightarrow> 'f \<Rightarrow> int \<Rightarrow> ('f, 'c) strack list \<Rightarrow>
     ('f, 'c) strack list \<times> int \<Rightarrow> ('f, 'c) strack list \<times> int" where
  "init_stracks kf thr fid [] st = st"
| "init_stracks kf thr fid (d # ds) (act, next_track_id) =
     (if score d < thr then init_stracks kf thr fid ds (act, next_track_id)
      else init_stracks kf thr fid ds (act @ [activate kf fid next_track_id d], next_track_id + 1))"

text \<open>Steps 2 to 4, then step 5 and the output.\<close>

definition first_association ::
    "('f::{zero,one,plus,minus,times,inverse,ord}, 'c) kalman \<Rightarrow> 'f solver \<Rightarrow> ('f, 'c) strack list \<Rightarrow>
     ('f, 'c) byte_tracker \<Rightarrow>
     (('f, 'c) byte_tracker \<times> ('f, 'c) strack list \<times> ('f, 'c) strack list) \<times> track_ref list \<times>
     nat list \<times> nat list" where
  "first_association kf solve detections b =
     (let pool = strack_pool b;
          b1 = multi_predict kf pool b;
          dists = iou_distance (map (deref b1) pool) detections;
          (matches, u_track, u_detection) =
            linear_assignment solve dists (length pool) (length detections) (match_thresh b1)
      in (assoc_matches kf pool detections matches (b1, [], []), pool, u_track, u_detection))"

definition second_association ::
    "('f::{zero,one,plus,minus,times,inverse,ord}, 'c) kalman \<Rightarrow> 'f solver \<Rightarrow> ('f, 'c) strack list \<Rightarrow>
     track_ref list \<Rightarrow> nat list \<Rightarrow> ('f, 'c) byte_tracker \<times> ('f, 'c) strack list \<times> ('f, 'c) strack list \<Rightarrow>
     (('f, 'c) byte_tracker \<times> ('f, 'c) strack list) \<times> ('f, 'c) strack list \<times> ('f, 'c) strack list" where
  "second_association kf solve detections pool u_track st =
     (let b = fst st;
          refs = filter (\<lambda>r. state (deref b r) = Tracked) (map (\<lambda>i. pool ! i) u_track);
          dists = iou_distance (map (deref b) refs) detections;
          (matches, u, _) =
            linear_assignment solve dists (length refs) (length detections) (1 / lit 2);
          (b', act, refi) = assoc_matches kf refs detections matches st
      in (lose_unmatched (map (\<lambda>i. refs ! i) u) (b', []), act, refi))"

definition confirm_association ::
    "('f::{zero,one,plus,minus,times,inverse,ord}, 'c) kalman \<Rightarrow> 'f solver \<Rightarrow> ('f, 'c) strack list \<Rightarrow>
     track_ref list \<Rightarrow> ('f, 'c) byte_tracker \<times> ('f, 'c) strack list \<Rightarrow>
     (('f, 'c) byte_tracker \<times> ('f, 'c) strack list) \<times> ('f, 'c) strack list \<times> nat list" where
  "confirm_association kf solve detections refs st =
     (let dists = iou_distance (map (deref (fst st)) refs) detections;
          (matches, u, u_detection) =
            linear_assignment solve dists (length refs) (length detections) (lit 7 / lit 10);
          (b, act) = confirm_matches kf refs detections matches st
      in (remove_unconfirmed (map (\<lambda>i. refs ! i) u) (b, []), act, u_detection))"

definition update_state ::
    "('f::{zero,one,plus,minus,times,inverse,ord}, 'c) strack list \<Rightarrow> ('f, 'c) strack list \<Rightarrow>
     ('f, 'c) strack list \<Rightarrow> ('f, 'c) strack list \<Rightarrow> ('f, 'c) byte_tracker \<Rightarrow>
     ('f, 'c) byte_tracker \<times> ('f, 'c) strack list" where
  "update_state act refi lost removed b =
     (let aged = (\<lambda>s. bt_frame b - frame_id s > max_time_lost b);
          lost1 = map (\<lambda>s. if aged s then mark_removed s else s) (lost_stracks b);
          removed1 = removed @ map mark_removed (filter aged (lost_stracks b));
          tracked1 = filter (\<lambda>s. state s = Tracked) (tracked_stracks b);
          tracked2 = joint_stracks tid (joint_stracks tid tracked1 act) refi;
          lost2 = sub_stracks (sub_stracks lost1 tracked2 @ lost) (removed_stracks b);
          (resa, resb) = remove_duplicate_stracks tracked2 lost2
      in (b\<lparr>tracked_stracks := resa, lost_stracks := resb, removed_stracks := removed1\<rparr>,
          filter is_activated resa))"

definition update ::
    "('f::{zero,one,plus,minus,times,inverse,ord}, 'c) kalman \<Rightarrow> 'f solver \<Rightarrow> 'f object list \<Rightarrow> int \<Rightarrow>
     ('f, 'c) byte_tracker \<Rightarrow> ('f, 'c) byte_tracker \<times> int \<times> ('f, 'c) strack list" where
  "update kf solve objects next_track_id b0 =
     (let b = b0\<lparr>bt_frame := bt_frame b0 + 1\<rparr>;
          all = map detection_of objects;
          detections = filter (\<lambda>d. track_thresh b \<le> score d) all;
          detections_low = filter (\<lambda>d. \<not> track_thresh b \<le> score d) all;
          unconfirmed = unconfirmed_refs b;
          (st2, pool, u_track, u_detection) = first_association kf solve detections b;
          ((b3, lost), act3, refi) = second_association kf solve detections_low pool u_track st2;
          detections_cp = map (\<lambda>i. detections ! i) u_detection;
          ((b4, removed), act4, u_new) =
            confirm_association kf solve detections_cp unconfirmed (b3, act3);
          (act5, next') =
            init_stracks kf (high_thresh b) (bt_frame b) (map (\<lambda>i. detections_cp ! i) u_new)
              (act4, next_track_id);
          (b5, out) = update_state act5 refi lost removed b4
      in (b5, next', out))"

end
