(* ===== verification/Byte_Track_Inv.thy ===== *)
theory Byte_Track_Inv
  imports Byte_Track
begin

text \<open>
  What the tracker keeps from frame to frame, for every solver and every Kalman filter: ids are unique,
  the tracked list holds exactly tracks seen in the current frame, lost tracks expire, assignments stay
  within their vectors.
\<close>

section \<open>Operations on one track\<close>

lemma static_fields [op_simps]:
  "tid (static_tlwh s) = tid s" "state (static_tlwh s) = state s"
  "is_activated (static_tlwh s) = is_activated s" "frame_id (static_tlwh s) = frame_id s"
  "score (static_tlwh s) = score s" "start_frame (static_tlwh s) = start_frame s"
  "tid (static_tlbr s) = tid s" "state (static_tlbr s) = state s"
  "is_activated (static_tlbr s) = is_activated s" "frame_id (static_tlbr s) = frame_id s"
  "score (static_tlbr s) = score s" "start_frame (static_tlbr s) = start_frame s"
  by (simp_all add: static_tlwh_def static_tlbr_def Let_def)

lemma track_update_fields [op_simps]:
  "tid (track_update kf d fid s) = tid s" "state (track_update kf d fid s) = Tracked"
  "is_activated (track_update kf d fid s)" "frame_id (track_update kf d fid s) = fid"
  by (simp_all add: track_update_def Let_def op_simps split: prod.split)

lemma re_activate_fields [op_simps]:
  "tid (re_activate kf d fid s) = tid s" "state (re_activate kf d fid s) = Tracked"
  "is_activated (re_activate kf d fid s)" "frame_id (re_activate kf d fid s) = fid"
  by (simp_all add: re_activate_def Let_def op_simps split: prod.split)

lemma activate_fields [op_simps]:
  "tid (activate kf fid i s) = i" "state (activate kf fid i s) = Tracked"
  "is_activated (activate kf fid i s)" "frame_id (activate kf fid i s) = fid"
  "start_frame (activate kf fid i s) = fid"
  by (simp_all add: activate_def Let_def op_simps split: prod.split)

lemma predict_track_fields [op_simps]:
  "tid (predict_track kf s) = tid s" "state (predict_track kf s) = state s"
  "is_activated (predict_track kf s) = is_activated s" "frame_id (predict_track kf s) = frame_id s"
  by (simp_all add: predict_track_def Let_def split: prod.split)

lemma mark_fields [op_simps]:
  "tid (mark_lost s) = tid s" "state (mark_lost s) = Lost" "frame_id (mark_lost s) = frame_id s"
  "is_activated (mark_lost s) = is_activated s"
  "tid (mark_removed s) = tid s" "state (mark_removed s) = Removed" "frame_id (mark_removed s) = frame_id s"
  by (simp_all add: mark_lost_def mark_removed_def)

text \<open>Seen in frame \<open>fid\<close>.\<close>

definition current :: "int \<Rightarrow> ('f, 'c) strack \<Rightarrow> bool" where
  "current fid s \<longleftrightarrow> state s = Tracked \<and> is_activated s \<and> frame_id s = fid"

lemma current_ops [op_simps]:
  "current fid (track_update kf d fid s)" "current fid (re_activate kf d fid s)" "current fid (activate kf fid i s)"
  by (simp_all add: current_def op_simps)

section \<open>Lists of tracks\<close>

lemma disjoint_mono: "A \<subseteq> C \<Longrightarrow> B \<subseteq> D \<Longrightarrow> D \<inter> C = {} \<Longrightarrow> A \<inter> B = {}"
  by blast

lemma joint_loop_keys:
  "distinct (map key (joint_loop key seen bs)) \<and> key ` set (joint_loop key seen bs) = key ` set bs - seen \<and>
   set (joint_loop key seen bs) \<subseteq> set bs"
  by (induction key seen bs rule: joint_loop.induct) auto

lemma joint_stracks_distinct:
  "distinct (map key as) \<Longrightarrow> distinct (map key (joint_stracks key as bs))"
  using joint_loop_keys [of key "key ` set as" bs] by (auto simp: joint_stracks_def)

lemma joint_stracks_keys: "key ` set (joint_stracks key as bs) = key ` set as \<union> key ` set bs"
  using joint_loop_keys [of key "key ` set as" bs] by (auto simp: joint_stracks_def image_Un)

lemma joint_stracks_subset: "set (joint_stracks key as bs) \<subseteq> set as \<union> set bs"
  using joint_loop_keys [of key "key ` set as" bs] by (auto simp: joint_stracks_def)

lemma joint_loop_all:
  "distinct (map key bs) \<Longrightarrow> key ` set bs \<inter> seen = {} \<Longrightarrow> joint_loop key seen bs = bs"
  by (induction key seen bs rule: joint_loop.induct) auto

lemma joint_stracks_all:
  "distinct (map key (as @ bs)) \<Longrightarrow> joint_stracks key as bs = as @ bs"
  unfolding joint_stracks_def by (subst joint_loop_all) auto

lemma distinct_map_filter_set: "distinct (map f xs) \<Longrightarrow> distinct (map f (filter P xs))"
  by (simp add: distinct_map inj_on_def)

lemma sub_stracks_distinct: "distinct (map tid (sub_stracks as bs))"
proof -
  have "mset (map tid (sub_stracks as bs)) =
        mset (map tid (filter (\<lambda>a. tid a \<notin> tid ` set bs) (joint_loop tid {} as)))"
    by (simp add: sub_stracks_def)
  then show ?thesis
    using joint_loop_keys [of tid "{}" as] distinct_map_filter_set mset_eq_imp_distinct_iff by metis
qed

lemma sub_stracks_ids: "tid ` set (sub_stracks as bs) = tid ` set as - tid ` set bs"
proof -
  have "tid ` {a \<in> set (joint_loop tid {} as). tid a \<notin> tid ` set bs} =
        tid ` set (joint_loop tid {} as) - tid ` set bs"
    by auto
  then show ?thesis using joint_loop_keys [of tid "{}" as] by (simp add: sub_stracks_def)
qed

lemma sub_stracks_subset: "set (sub_stracks as bs) \<subseteq> set as"
  using joint_loop_keys [of tid "{}" as] by (auto simp: sub_stracks_def)

lemma remove_duplicate_parts:
  assumes "remove_duplicate_stracks as bs = (resa, resb)"
  shows "\<exists>P Q. resa = map (\<lambda>i. as ! i) (filter P [0..<length as]) \<and>
               resb = map (\<lambda>i. bs ! i) (filter Q [0..<length bs])"
  using assms unfolding remove_duplicate_stracks_def Let_def by blast

lemma nth_filter_distinct:
  assumes "distinct (map f xs)"
  shows "distinct (map f (map (\<lambda>i. xs ! i) (filter P [0..<length xs])))"
proof -
  have "map f (map (\<lambda>i. xs ! i) (filter P [0..<length xs])) = map (\<lambda>i. map f xs ! i) (filter P [0..<length xs])"
    by simp
  moreover have "inj_on (\<lambda>i. map f xs ! i) (set (filter P [0..<length xs]))"
    using inj_on_nth [OF assms, of "set (filter P [0..<length xs])"] by auto
  ultimately show ?thesis by (simp only: distinct_map) simp
qed

lemma nth_filter_subset: "set (map (\<lambda>i. xs ! i) (filter P [0..<length xs])) \<subseteq> set xs"
  by auto

lemma remove_duplicate_subset:
  "remove_duplicate_stracks as bs = (resa, resb) \<Longrightarrow> set resa \<subseteq> set as \<and> set resb \<subseteq> set bs"
  by (drule remove_duplicate_parts) auto

lemma remove_duplicate_distinct:
  "remove_duplicate_stracks as bs = (resa, resb) \<Longrightarrow> distinct (map tid as) \<Longrightarrow> distinct (map tid bs) \<Longrightarrow>
   distinct (map tid resa) \<and> distinct (map tid resb)"
  using remove_duplicate_parts nth_filter_distinct by metis

section \<open>Assignment\<close>

lemma lapjv_shape:
  "lapjv solve e lim cost = (rowsol, colsol) \<Longrightarrow>
   length rowsol = length cost \<and> length colsol = length (cost ! 0)"
  by (auto simp: lapjv_def Let_def split: if_splits prod.splits)

lemma lapjv_bounds:
  assumes "lapjv solve True lim cost = (rowsol, colsol)" "cost \<noteq> []" "0 < length (cost ! 0)"
  shows "\<forall>i < length cost. rowsol ! i < int (length (cost ! 0))"
    and "\<forall>j < length (cost ! 0). colsol ! j < int (length cost)"
  using assms by (auto simp: lapjv_def Let_def split: if_splits prod.splits)

text \<open>Without the extended matrix the wrapper drops what the solver found.\<close>

lemma lapjv_square_ignores_solver:
  "length (cost ! 0) = length cost \<Longrightarrow> fst (solve (length cost) (\<lambda>i j. cost ! i ! j)) = 0 \<Longrightarrow>
   lapjv solve False None cost = (replicate (length cost) 0, replicate (length cost) 0)"
  by (auto simp: lapjv_def Let_def split: prod.split)

lemma iou_distance_shape:
  "iou_distance as bs = [] \<longleftrightarrow> length as = 0 \<or> length bs = 0"
  "iou_distance as bs \<noteq> [] \<Longrightarrow> length (iou_distance as bs) = length as \<and>
     (\<forall>i < length as. length (iou_distance as bs ! i) = length bs)"
  by (auto simp: iou_distance_def ious_def)

lemma linear_assignment_bounds:
  assumes "linear_assignment solve (iou_distance as bs) (length as) (length bs) t = (matches, ua, ub)"
  shows "set (map fst matches) \<union> set ua = {0..<length as}"
    and "set (map fst matches) \<inter> set ua = {}"
    and "distinct (map fst matches)" and "distinct ua"
    and "\<forall>m \<in> set matches. snd m < length bs"
    and "set ub \<subseteq> {0..<length bs}" and "distinct ub"
proof -
  let ?c = "iou_distance as bs"
  have all: "set (map fst matches) \<union> set ua = {0..<length as} \<and> set (map fst matches) \<inter> set ua = {} \<and>
    distinct (map fst matches) \<and> distinct ua \<and> (\<forall>m \<in> set matches. snd m < length bs) \<and>
    set ub \<subseteq> {0..<length bs} \<and> distinct ub"
  proof (cases "?c = []")
    case True
    then show ?thesis using assms by (auto simp: linear_assignment_def)
  next
    case False
    obtain rowsol colsol where l: "lapjv solve True (Some t) ?c = (rowsol, colsol)" by fastforce
    have len: "length ?c = length as" "length (?c ! 0) = length bs" "0 < length bs"
      using False iou_distance_shape [of as bs] by (simp_all add: iou_distance_shape)
    have b: "length rowsol = length as" "length colsol = length bs"
      "\<forall>i < length as. rowsol ! i < int (length bs)"
      using lapjv_shape [OF l] lapjv_bounds(1) [OF l False] len by auto
    have "matches = map (\<lambda>i. (i, nat (rowsol ! i))) (filter (\<lambda>i. 0 \<le> rowsol ! i) [0..<length rowsol])"
      "ua = filter (\<lambda>i. \<not> 0 \<le> rowsol ! i) [0..<length rowsol]"
      "ub = filter (\<lambda>j. colsol ! j < 0) [0..<length colsol]"
      using assms False l by (auto simp: linear_assignment_def)
    then show ?thesis using b by (auto simp: comp_def)
  qed
  then show "set (map fst matches) \<union> set ua = {0..<length as}"
    "set (map fst matches) \<inter> set ua = {}" "distinct (map fst matches)" "distinct ua"
    "\<forall>m \<in> set matches. snd m < length bs" "set ub \<subseteq> {0..<length bs}" "distinct ub"
    by blast+
qed

section \<open>The steps of an update\<close>

definition ids :: "('f, 'c) byte_tracker \<Rightarrow> int list" where
  "ids b = map tid (tracked_stracks b) @ map tid (lost_stracks b)"

text \<open>Parts of the tracker that the work on single tracks leaves alone.\<close>

definition same_frame :: "('f, 'c) byte_tracker \<Rightarrow> ('f, 'c) byte_tracker \<Rightarrow> bool" where
  "same_frame b b' \<longleftrightarrow>
     bt_frame b' = bt_frame b \<and> max_time_lost b' = max_time_lost b \<and>
     removed_stracks b' = removed_stracks b \<and>
     track_thresh b' = track_thresh b \<and> high_thresh b' = high_thresh b \<and> match_thresh b' = match_thresh b \<and>
     map tid (tracked_stracks b') = map tid (tracked_stracks b) \<and>
     map tid (lost_stracks b') = map tid (lost_stracks b)"

lemma same_frame_refl [simp]: "same_frame b b"
  by (simp add: same_frame_def)

lemma same_frame_trans: "same_frame a b \<Longrightarrow> same_frame b c \<Longrightarrow> same_frame a c"
  by (simp add: same_frame_def)

lemma same_frame_lengths:
  "same_frame a b \<Longrightarrow> length (tracked_stracks b) = length (tracked_stracks a) \<and>
     length (lost_stracks b) = length (lost_stracks a)"
  by (metis length_map same_frame_def)

lemma map_list_update_same: "f x = f (xs ! i) \<Longrightarrow> map f (xs[i := x]) = map f xs"
  by (cases "i < length xs") (simp_all add: map_update list_update_same_conv list_update_beyond)

lemma same_frame_assign: "tid t = tid (deref b r) \<Longrightarrow> same_frame b (assign b r t)"
  by (cases r) (simp_all add: same_frame_def map_list_update_same)

fun valid_ref :: "('f, 'c) byte_tracker \<Rightarrow> track_ref \<Rightarrow> bool" where
  "valid_ref b (InTracked i) = (i < length (tracked_stracks b))"
| "valid_ref b (InLost i) = (i < length (lost_stracks b))"

lemma deref_assign:
  "valid_ref b r' \<Longrightarrow> deref (assign b r t) r' = (if r' = r then t else deref b r')"
  by (cases r; cases r') auto

lemma valid_ref_same: "same_frame b b' \<Longrightarrow> valid_ref b' r = valid_ref b r"
  by (cases r) (auto dest: same_frame_lengths)

lemma same_frame_ids: "same_frame b b' \<Longrightarrow> ids b' = ids b"
  by (simp add: same_frame_def ids_def)

text \<open>The place of a track among the ids.\<close>

fun pos :: "('f, 'c) byte_tracker \<Rightarrow> track_ref \<Rightarrow> nat" where
  "pos b (InTracked i) = i"
| "pos b (InLost i) = length (tracked_stracks b) + i"

lemma ids_pos: "valid_ref b r \<Longrightarrow> pos b r < length (ids b) \<and> ids b ! pos b r = tid (deref b r)"
  by (cases r) (simp_all add: ids_def nth_append)

lemma pos_inj: "valid_ref b r \<Longrightarrow> valid_ref b r' \<Longrightarrow> pos b r = pos b r' \<Longrightarrow> r = r'"
  by (cases r; cases r') auto

lemma pos_same: "same_frame b b' \<Longrightarrow> pos b' r = pos b r"
  by (cases r) (auto dest: same_frame_lengths)

lemma deref_tid_same: "same_frame b b' \<Longrightarrow> valid_ref b r \<Longrightarrow> tid (deref b' r) = tid (deref b r)"
  using ids_pos [of b r] ids_pos [of b' r] by (simp add: same_frame_ids pos_same valid_ref_same)

lemma deref_in: "valid_ref b r \<Longrightarrow> deref b r \<in> set (tracked_stracks b) \<union> set (lost_stracks b)"
  by (cases r) auto

lemma deref_inj:
  assumes "distinct (ids b)" "valid_ref b r" "valid_ref b r'" "tid (deref b r) = tid (deref b r')"
  shows "r = r'"
  using assms ids_pos [of b r] ids_pos [of b r'] nth_eq_iff_index_eq pos_inj by metis

lemma multi_predict_spec:
  "same_frame b (multi_predict kf rs b) \<and>
   (\<forall>r. valid_ref b r \<longrightarrow> state (deref (multi_predict kf rs b) r) = state (deref b r) \<and>
     is_activated (deref (multi_predict kf rs b) r) = is_activated (deref b r) \<and>
     frame_id (deref (multi_predict kf rs b) r) = frame_id (deref b r))"
proof (induction kf rs b rule: multi_predict.induct)
  case (2 kf r rs b)
  have a: "same_frame b (assign b r (predict_track kf (deref b r)))"
    by (rule same_frame_assign) (simp add: op_simps)
  show ?case using 2 same_frame_trans [OF a] valid_ref_same [OF a]
    by (auto simp: deref_assign op_simps)
qed simp

text \<open>What the match loop does: matched tracks are current, others untouched, every copy is of a matched
  track.\<close>

definition matched :: "track_ref list \<Rightarrow> (nat \<times> nat) list \<Rightarrow> track_ref set" where
  "matched refs ms = (\<lambda>m. refs ! fst m) ` set ms"

lemma matched_simps [simp]:
  "matched refs [] = {}" "matched refs ((i, j) # ms) = insert (refs ! i) (matched refs ms)"
  by (simp_all add: matched_def)

lemma assoc_matches_spec:
  assumes "assoc_matches kf refs dets ms (b, act, refi) = (b', act', refi')"
    and "\<forall>r \<in> matched refs ms. valid_ref b r"
  shows "same_frame b b' \<and>
    (\<forall>r. valid_ref b r \<longrightarrow> r \<notin> matched refs ms \<longrightarrow> deref b' r = deref b r) \<and>
    (\<forall>r \<in> matched refs ms. current (bt_frame b) (deref b' r)) \<and>
    (\<forall>s \<in> set act' \<union> set refi'. s \<in> set act \<union> set refi \<or>
           current (bt_frame b) s \<and> (\<exists>r \<in> matched refs ms. tid s = tid (deref b r))) \<and>
    (\<forall>r \<in> matched refs ms. tid (deref b r) \<in> tid ` (set act' \<union> set refi')) \<and>
    set act \<subseteq> set act' \<and> set refi \<subseteq> set refi'"
  using assms
proof (induction ms arbitrary: b act refi)
  case Nil
  then show ?case by simp
next
  case (Cons m ms)
  obtain i j where m: "m = (i, j)" by (cases m)
  let ?r = "refs ! i" and ?t = "deref b (refs ! i)"
  define t' where "t' = (if state ?t = Tracked then track_update kf (dets ! j) (bt_frame b) ?t
                         else re_activate kf (dets ! j) (bt_frame b) ?t)"
  define b1 where "b1 = assign b ?r t'"
  define act1 where "act1 = (if state ?t = Tracked then act @ [t'] else act)"
  define refi1 where "refi1 = (if state ?t = Tracked then refi else refi @ [t'])"
  have run: "assoc_matches kf refs dets ms (b1, act1, refi1) = (b', act', refi')"
    using Cons.prems(1) by (simp add: m b1_def t'_def act1_def refi1_def Let_def split: if_splits)
  have t': "tid t' = tid ?t" "current (bt_frame b) t'" by (simp_all add: t'_def op_simps)
  have sf: "same_frame b b1" unfolding b1_def by (rule same_frame_assign) (rule t')
  have val: "valid_ref b ?r" "\<forall>r \<in> matched refs ms. valid_ref b1 r"
    using Cons.prems(2) valid_ref_same [OF sf] by (auto simp: m)
  have frame: "bt_frame b1 = bt_frame b" using sf by (simp add: same_frame_def)
  have tids: "\<And>r. valid_ref b r \<Longrightarrow> tid (deref b1 r) = tid (deref b r)" using deref_tid_same [OF sf] .
  have der: "\<And>r. valid_ref b r \<Longrightarrow> deref b1 r = (if r = ?r then t' else deref b r)"
    unfolding b1_def by (rule deref_assign)
  have new: "set act1 \<union> set refi1 = insert t' (set act \<union> set refi)" "set act \<subseteq> set act1" "set refi \<subseteq> set refi1"
    by (auto simp: act1_def refi1_def)
  note IH = Cons.IH [OF run val(2)]
  have vm: "\<forall>r \<in> matched refs ms. valid_ref b r" using Cons.prems(2) by (simp add: m)
  have 1: "same_frame b b'" using IH same_frame_trans [OF sf] by blast
  have 2: "\<forall>r. valid_ref b r \<longrightarrow> r \<notin> matched refs (m # ms) \<longrightarrow> deref b' r = deref b r"
    using IH der valid_ref_same [OF sf] by (simp add: m)
  have 3: "\<forall>r \<in> matched refs (m # ms). current (bt_frame b) (deref b' r)"
    using IH der t'(2) val valid_ref_same [OF sf] frame by (metis insertE m matched_simps(2))
  have 4: "\<forall>s \<in> set act' \<union> set refi'. s \<in> set act \<union> set refi \<or>
           current (bt_frame b) s \<and> (\<exists>r \<in> matched refs (m # ms). tid s = tid (deref b r))"
  proof
    fix s assume s: "s \<in> set act' \<union> set refi'"
    have "s \<in> set act1 \<union> set refi1 \<or>
          current (bt_frame b) s \<and> (\<exists>r \<in> matched refs ms. tid s = tid (deref b1 r))"
      using IH s unfolding frame by blast
    then consider "s = t'" | "s \<in> set act \<union> set refi"
      | r where "current (bt_frame b) s" "r \<in> matched refs ms" "tid s = tid (deref b1 r)"
      unfolding new(1) by blast
    then show "s \<in> set act \<union> set refi \<or>
           current (bt_frame b) s \<and> (\<exists>r \<in> matched refs (m # ms). tid s = tid (deref b r))"
      using t' tids vm by cases (auto simp: m)
  qed
  have 5: "\<forall>r \<in> matched refs (m # ms). tid (deref b r) \<in> tid ` (set act' \<union> set refi')"
  proof
    fix r assume r: "r \<in> matched refs (m # ms)"
    have "t' \<in> set act' \<union> set refi'" using IH new(1) by blast
    then have here: "tid ?t \<in> tid ` (set act' \<union> set refi')" using t'(1) by (metis imageI)
    show "tid (deref b r) \<in> tid ` (set act' \<union> set refi')"
    proof (cases "r = ?r")
      case True
      then show ?thesis using here by simp
    next
      case False
      then have "r \<in> matched refs ms" using r by (simp add: m)
      then show ?thesis using IH tids vm by metis
    qed
  qed
  have 6: "set act \<subseteq> set act'" "set refi \<subseteq> set refi'" using IH new(2,3) by auto
  show ?case by (intro conjI 1 2 3 4 5 6)
qed

lemma lose_unmatched_spec:
  assumes "lose_unmatched rs (b, lost) = (b', lost')"
    and "distinct rs" "\<forall>r \<in> set rs. valid_ref b r \<and> state (deref b r) \<noteq> Lost"
  shows "same_frame b b' \<and>
    (\<forall>r. valid_ref b r \<longrightarrow> deref b' r = (if r \<in> set rs then mark_lost (deref b r) else deref b r)) \<and>
    lost' = lost @ map (\<lambda>r. mark_lost (deref b r)) rs"
  using assms
proof (induction rs arbitrary: b lost)
  case Nil
  then show ?case by simp
next
  case (Cons r rs)
  let ?b1 = "assign b r (mark_lost (deref b r))"
  have sf: "same_frame b ?b1" by (rule same_frame_assign) (simp add: op_simps)
  have vr: "valid_ref b r" "state (deref b r) \<noteq> Lost" using Cons.prems by auto
  have run: "lose_unmatched rs (?b1, lost @ [mark_lost (deref b r)]) = (b', lost')"
    using Cons.prems(1) vr by simp
  have der: "\<And>q. valid_ref b q \<Longrightarrow> deref ?b1 q = (if q = r then mark_lost (deref b r) else deref b q)"
    by (rule deref_assign)
  have ok: "\<forall>q \<in> set rs. valid_ref ?b1 q \<and> state (deref ?b1 q) \<noteq> Lost"
    using Cons.prems der valid_ref_same [OF sf] by auto
  note IH = Cons.IH [OF run _ ok]
  have same: "map (\<lambda>q. mark_lost (deref ?b1 q)) rs = map (\<lambda>q. mark_lost (deref b q)) rs"
    using Cons.prems der by auto
  show ?case using IH Cons.prems same_frame_trans [OF sf] same der valid_ref_same [OF sf] by auto
qed

lemma init_stracks_spec:
  assumes "init_stracks kf thr fid ds (act, nx) = (act', nx')"
  shows "nx \<le> nx' \<and> (\<exists>new. act' = act @ new \<and> map tid new = [nx..nx' - 1] \<and> (\<forall>s \<in> set new. current fid s))"
  using assms
proof (induction ds arbitrary: act nx)
  case Nil
  then show ?case by simp
next
  case (Cons d ds)
  show ?case
  proof (cases "score d < thr")
    case True
    then show ?thesis using Cons by simp
  next
    case False
    then have "init_stracks kf thr fid ds (act @ [activate kf fid nx d], nx + 1) = (act', nx')"
      using Cons.prems by simp
    from Cons.IH [OF this] obtain new where n: "nx + 1 \<le> nx'" "act' = act @ activate kf fid nx d # new"
      "map tid new = [nx + 1..nx' - 1]" "\<forall>s \<in> set new. current fid s" by auto
    then have "map tid (activate kf fid nx d # new) = [nx..nx' - 1]"
      by (simp add: op_simps upto_rec1)
    then show ?thesis using n by (intro conjI exI [of _ "activate kf fid nx d # new"]) (auto simp: op_simps)
  qed
qed

section \<open>Who is matched and who is not\<close>

lemma assignment_refs:
  assumes la: "linear_assignment solve (iou_distance (map f refs) dets) (length refs) (length dets) t = (ms, u, ub)"
    and d: "distinct refs"
  shows "matched refs ms \<union> set (map (\<lambda>i. refs ! i) u) = set refs"
    and "matched refs ms \<inter> set (map (\<lambda>i. refs ! i) u) = {}"
    and "distinct (map (\<lambda>i. refs ! i) u)"
proof -
  have la': "linear_assignment solve (iou_distance (map f refs) dets) (length (map f refs)) (length dets) t = (ms, u, ub)"
    using la by simp
  note b = linear_assignment_bounds [OF la']
  have m: "matched refs ms = (\<lambda>i. refs ! i) ` set (map fst ms)" by (auto simp: matched_def)
  have inj: "inj_on (\<lambda>i. refs ! i) {0..<length refs}" using d by (simp add: inj_on_nth)
  have ran: "set (map fst ms) \<subseteq> {0..<length refs}" "set u \<subseteq> {0..<length refs}" using b(1) by auto
  have "(\<lambda>i. refs ! i) ` {0..<length refs} = set refs" by (auto simp: set_conv_nth image_def)
  then show "matched refs ms \<union> set (map (\<lambda>i. refs ! i) u) = set refs"
    using b(1) unfolding m by (metis image_Un length_map set_map)
  show "matched refs ms \<inter> set (map (\<lambda>i. refs ! i) u) = {}"
    using inj_on_image_Int [OF inj ran] b(2) unfolding m by simp
  show "distinct (map (\<lambda>i. refs ! i) u)"
    using b(4) inj_on_subset [OF inj ran(2)] by (simp add: distinct_map)
qed

definition all_refs :: "('f, 'c) byte_tracker \<Rightarrow> track_ref list" where
  "all_refs b = map InTracked [0..<length (tracked_stracks b)] @ map InLost [0..<length (lost_stracks b)]"

lemma all_refs_facts:
  "distinct (all_refs b)" "set (all_refs b) = {r. valid_ref b r}"
proof -
  show "distinct (all_refs b)" by (auto simp: all_refs_def distinct_map inj_on_def)
  show "set (all_refs b) = {r. valid_ref b r}"
  proof (intro set_eqI)
    fix r
    show "(r \<in> set (all_refs b)) = (r \<in> {r. valid_ref b r})" by (cases r) (auto simp: all_refs_def)
  qed
qed

lemma map_nth_index: "map (\<lambda>i. f (xs ! i)) [0..<length xs] = map f xs"
  by (rule nth_equalityI) simp_all

lemma all_refs_ids: "map (\<lambda>r. tid (deref b r)) (all_refs b) = ids b"
  by (simp add: all_refs_def ids_def comp_def map_nth_index)

lemma strack_pool_all:
  assumes "\<forall>s \<in> set (tracked_stracks b). is_activated s" "distinct (ids b)"
  shows "strack_pool b = all_refs b" and "unconfirmed_refs b = []"
proof -
  have c: "confirmed_refs b = map InTracked [0..<length (tracked_stracks b)]"
    using assms(1) by (simp add: confirmed_refs_def filter_id_conv)
  have "distinct (map (\<lambda>r. tid (deref b r)) (all_refs b))" using assms(2) by (simp only: all_refs_ids)
  then show "strack_pool b = all_refs b"
    unfolding strack_pool_def c by (subst joint_stracks_all) (simp_all only: all_refs_def)
  show "unconfirmed_refs b = []" using assms(1) by (simp add: unconfirmed_refs_def filter_empty_conv)
qed

lemma confirm_association_nil:
  "confirm_association kf solve dets [] (b, act) = ((b, []), act, [0..<length dets])"
  by (simp add: confirm_association_def linear_assignment_def iou_distance_shape)

section \<open>The invariant\<close>

definition lost_age_ok :: "('f, 'c) byte_tracker \<Rightarrow> ('f, 'c) strack \<Rightarrow> bool" where
  "lost_age_ok b s \<longleftrightarrow>
     frame_id s < bt_frame b \<and>
     (bt_frame b - frame_id s \<le> max 1 (max_time_lost b) \<or>
      bt_frame b - frame_id s = max 1 (max_time_lost b) + 1 \<and> tid s \<in> tid ` set (removed_stracks b))"

definition bt_inv :: "int \<Rightarrow> ('f, 'c) byte_tracker \<Rightarrow> bool" where
  "bt_inv next_track_id b \<longleftrightarrow>
     distinct (ids b) \<and> (\<forall>i \<in> set (ids b). i < next_track_id) \<and>
     (\<forall>s \<in> set (tracked_stracks b). current (bt_frame b) s) \<and>
     (\<forall>s \<in> set (lost_stracks b). (state s = Lost \<or> state s = Removed) \<and> lost_age_ok b s) \<and>
     (0 \<le> max_time_lost b \<longrightarrow> tid ` set (tracked_stracks b) \<inter> tid ` set (removed_stracks b) = {})"

text \<open>What is known of the tracker and of the local lists after both associations, in frame \<open>fid\<close>.\<close>

definition associated ::
    "int \<Rightarrow> ('f, 'c) byte_tracker \<Rightarrow> ('f, 'c) byte_tracker \<Rightarrow> ('f, 'c) strack list \<Rightarrow> ('f, 'c) strack list \<Rightarrow>
     ('f, 'c) strack list \<Rightarrow> bool" where
  "associated fid b b' act refi lost \<longleftrightarrow>
     same_frame b b' \<and>
     (\<forall>s \<in> set act \<union> set refi. current fid s \<and> tid s \<in> set (ids b)) \<and>
     (\<forall>s \<in> set (tracked_stracks b'). state s = Tracked \<longrightarrow> current fid s \<and> tid s \<in> tid ` (set act \<union> set refi)) \<and>
     (\<forall>s \<in> set (lost_stracks b'). current fid s \<and> tid s \<in> tid ` (set act \<union> set refi) \<or>
        tid s \<notin> tid ` (set act \<union> set refi) \<and>
        (\<exists>s0 \<in> set (lost_stracks b). tid s = tid s0 \<and> state s = state s0 \<and> frame_id s = frame_id s0)) \<and>
     distinct (map tid lost) \<and>
     (\<forall>s \<in> set lost. state s = Lost \<and> frame_id s = fid - 1 \<and>
        tid s \<in> tid ` set (tracked_stracks b) \<and> tid s \<notin> tid ` (set act \<union> set refi))"

text \<open>The same in terms of references: \<open>M\<close> was matched, \<open>U\<close> lost.\<close>

definition ref_outcome ::
    "int \<Rightarrow> ('f, 'c) byte_tracker \<Rightarrow> ('f, 'c) byte_tracker \<Rightarrow> int set \<Rightarrow> track_ref set \<Rightarrow> track_ref set \<Rightarrow> bool" where
  "ref_outcome fid b b' keys M U \<longleftrightarrow>
     M \<inter> U = {} \<and>
     (\<forall>r \<in> M. valid_ref b r \<and> current fid (deref b' r) \<and> tid (deref b r) \<in> keys) \<and>
     (\<forall>r \<in> U. valid_ref b r \<and> state (deref b r) = Tracked \<and> state (deref b' r) = Lost) \<and>
     (\<forall>r. valid_ref b r \<longrightarrow> r \<notin> M \<longrightarrow> r \<notin> U \<longrightarrow> state (deref b r) \<noteq> Tracked \<and>
        state (deref b' r) = state (deref b r) \<and> frame_id (deref b' r) = frame_id (deref b r))"

lemma associated_from_refs:
  assumes inv: "distinct (ids b)" "\<forall>s \<in> set (tracked_stracks b). current (fid - 1) s"
    "\<forall>s \<in> set (lost_stracks b). state s = Lost \<or> state s = Removed"
    and sf: "same_frame b b'"
    and o: "ref_outcome fid b b' (tid ` (set act \<union> set refi)) M (set U)"
    and keys_from: "\<forall>s \<in> set act \<union> set refi. current fid s \<and> (\<exists>r \<in> M. tid s = tid (deref b r))"
    and lost: "lost = map (\<lambda>r. mark_lost (t r)) U" "distinct U"
      "\<forall>r \<in> set U. tid (t r) = tid (deref b r) \<and> frame_id (t r) = frame_id (deref b r)"
  shows "associated fid b b' act refi lost"
proof -
  let ?keys = "tid ` (set act \<union> set refi)"
  have vM: "\<And>r. r \<in> M \<Longrightarrow> valid_ref b r" and vU: "\<And>r. r \<in> set U \<Longrightarrow> valid_ref b r"
    using o by (simp_all add: ref_outcome_def)
  have key: "\<And>r. valid_ref b r \<Longrightarrow> tid (deref b' r) = tid (deref b r)" using deref_tid_same [OF sf] .
  have from_keys: "\<exists>r \<in> M. k = tid (deref b r)" if k: "k \<in> ?keys" for k
  proof -
    obtain x where x: "x \<in> set act \<union> set refi" "k = tid x" using k by (rule imageE)
    then show ?thesis using keys_from by metis
  qed
  have from_tracked: "\<exists>i < length (tracked_stracks b). r = InTracked i" if r: "r \<in> set U" for r
  proof (cases r)
    case (InLost i)
    then have "lost_stracks b ! i \<in> set (lost_stracks b)" "state (lost_stracks b ! i) = Tracked"
      using r o vU [OF r] by (auto simp: ref_outcome_def)
    then show ?thesis using inv(3) by auto
  qed (use vU [OF r] in auto)
  show ?thesis unfolding associated_def
  proof (intro conjI ballI impI)
    show "same_frame b b'" by (rule sf)
  next
    fix s assume "s \<in> set act \<union> set refi"
    then show "current fid s" "tid s \<in> set (ids b)"
      using keys_from ids_pos vM nth_mem by (metis, metis)
  next
    fix s assume s: "s \<in> set (tracked_stracks b')" "state s = Tracked"
    obtain i where i: "i < length (tracked_stracks b)" "s = deref b' (InTracked i)"
      using s(1) same_frame_lengths [OF sf] by (auto simp: in_set_conv_nth)
    have "state (deref b (InTracked i)) = Tracked" using inv(2) i by (simp add: current_def)
    moreover have "InTracked i \<notin> set U" using s(2) i o by (auto simp: ref_outcome_def)
    moreover have "valid_ref b (InTracked i)" using i by simp
    ultimately have "InTracked i \<in> M" using o unfolding ref_outcome_def by metis
    then show "current fid s" "tid s \<in> ?keys" using o key [of "InTracked i"] i by (auto simp: ref_outcome_def)
  next
    fix s assume s: "s \<in> set (lost_stracks b')"
    obtain i where i: "i < length (lost_stracks b)" "s = deref b' (InLost i)"
      using s(1) same_frame_lengths [OF sf] by (auto simp: in_set_conv_nth)
    have "InLost i \<notin> set U" using from_tracked by blast
    moreover have v: "valid_ref b (InLost i)" using i by simp
    ultimately consider "InLost i \<in> M"
      | "InLost i \<notin> M" "state s = state (deref b (InLost i)) \<and> frame_id s = frame_id (deref b (InLost i))"
      using o i(2) unfolding ref_outcome_def by metis
    then show "current fid s \<and> tid s \<in> ?keys \<or> tid s \<notin> ?keys \<and>
        (\<exists>s0 \<in> set (lost_stracks b). tid s = tid s0 \<and> state s = state s0 \<and> frame_id s = frame_id s0)"
    proof cases
      case 1
      then show ?thesis using o key [of "InLost i"] i by (auto simp: ref_outcome_def)
    next
      case 2
      have "tid s \<notin> ?keys"
      proof
        assume "tid s \<in> ?keys"
        then have "InLost i \<in> M" using from_keys key [OF v] i deref_inj [OF inv(1) _ v] vM by metis
        then show False using 2(1) by blast
      qed
      then show ?thesis
        using 2 key [of "InLost i"] i by (intro disjI2 conjI bexI [of _ "lost_stracks b ! i"]) auto
    qed
  next
    have "map tid lost = map (\<lambda>r. tid (deref b r)) U" by (simp add: lost op_simps)
    moreover have "inj_on (\<lambda>r. tid (deref b r)) (set U)"
      using deref_inj [OF inv(1)] vU by (intro inj_onI) blast
    ultimately show "distinct (map tid lost)" using lost(2) by (simp add: distinct_map)
  next
    fix s assume "s \<in> set lost"
    then obtain r where r: "r \<in> set U" "s = mark_lost (t r)" by (auto simp: lost)
    obtain i where i: "r = InTracked i" "i < length (tracked_stracks b)" using from_tracked [OF r(1)] by blast
    show "state s = Lost" by (simp add: r op_simps)
    show "frame_id s = fid - 1" using inv(2) i lost(3) r by (simp add: op_simps current_def)
    show "tid s \<in> tid ` set (tracked_stracks b)" using i lost(3) r by (simp add: op_simps)
    show "tid s \<notin> ?keys"
    proof
      assume "tid s \<in> ?keys"
      then obtain r' where r': "r' \<in> M" "tid s = tid (deref b r')" using from_keys by metis
      then have "r' = r" using deref_inj [OF inv(1), of r' r] vM vU r lost(3) by (auto simp: op_simps)
      then show False using r' r(1) o by (auto simp: ref_outcome_def)
    qed
  qed
qed

lemma associations_spec:
  assumes inv: "distinct (ids b)" "\<forall>s \<in> set (tracked_stracks b). current (bt_frame b - 1) s"
    "\<forall>s \<in> set (lost_stracks b). state s = Lost \<or> state s = Removed"
    and first: "first_association kf solve dets b = (st2, pool, u_track, u_det)"
    and second: "second_association kf solve dets_low pool u_track st2 = ((b', lost), act, refi)"
  shows "associated (bt_frame b) b b' act refi lost"
proof -
  let ?fid = "bt_frame b"
  have actd: "\<forall>s \<in> set (tracked_stracks b). is_activated s" using inv(2) by (auto simp: current_def)
  define b1 where "b1 = multi_predict kf (all_refs b) b"
  have pool: "pool = all_refs b"
    using first strack_pool_all [OF actd inv(1)]
    by (auto simp: first_association_def Let_def split: prod.splits)
  obtain ms1 u1 ud1 where la1: "linear_assignment solve (iou_distance (map (deref b1) pool) dets)
      (length pool) (length dets) (match_thresh b1) = (ms1, u1, ud1)"
    by (metis prod_cases3)
  have st2: "st2 = assoc_matches kf pool dets ms1 (b1, [], [])" "u_track = u1"
    using first la1 strack_pool_all [OF actd inv(1)] pool
    by (auto simp: first_association_def Let_def b1_def)
  obtain b2 act1 refi1 where r1: "assoc_matches kf pool dets ms1 (b1, [], []) = (b2, act1, refi1)"
    by (metis prod_cases3)
  define refs where "refs = filter (\<lambda>r. state (deref b2 r) = Tracked) (map (\<lambda>i. pool ! i) u1)"
  obtain ms2 u2 ud2 where la2: "linear_assignment solve (iou_distance (map (deref b2) refs) dets_low)
      (length refs) (length dets_low) (1 / lit 2) = (ms2, u2, ud2)"
    by (metis prod_cases3)
  obtain b3 act2 refi2 where r2: "assoc_matches kf refs dets_low ms2 (b2, act1, refi1) = (b3, act2, refi2)"
    by (metis prod_cases3)
  define U where "U = map (\<lambda>i. refs ! i) u2"
  have last: "lose_unmatched U (b3, []) = (b', lost)" "act2 = act" "refi2 = refi"
    using second la2 r1 r2 unfolding second_association_def st2 refs_def [symmetric] U_def
    by (auto simp: Let_def refs_def)
  let ?M1 = "matched pool ms1" and ?N1 = "set (map (\<lambda>i. pool ! i) u1)" and ?M2 = "matched refs ms2"
  let ?keys = "tid ` (set act \<union> set refi)"
  have sf1: "same_frame b b1" using multi_predict_spec [of b kf "all_refs b"] by (simp add: b1_def)
  have pred: "\<And>r. valid_ref b r \<Longrightarrow> state (deref b1 r) = state (deref b r) \<and> frame_id (deref b1 r) = frame_id (deref b r)"
    using multi_predict_spec [of b kf "all_refs b"] by (simp add: b1_def)
  have dp: "distinct pool" "set pool = {r. valid_ref b r}" by (simp_all add: pool all_refs_facts)
  note p1 = assignment_refs [OF la1 dp(1)]
  have v1: "\<forall>r \<in> ?M1. valid_ref b r" "\<forall>r \<in> ?N1. valid_ref b r" using p1(1) dp(2) by auto
  have v1': "\<forall>r \<in> ?M1. valid_ref b1 r" using v1 valid_ref_same [OF sf1] by simp
  note S1 = assoc_matches_spec [OF r1 v1']
  have sf2: "same_frame b b2" using S1 same_frame_trans [OF sf1] by blast
  have fr: "bt_frame b1 = ?fid" "bt_frame b2 = ?fid" using sf1 sf2 by (simp_all add: same_frame_def)
  have keep1: "\<And>r. valid_ref b r \<Longrightarrow> r \<notin> ?M1 \<Longrightarrow> deref b2 r = deref b1 r"
    using S1 valid_ref_same [OF sf1] by blast
  have dr: "distinct refs" "set refs \<subseteq> ?N1" using p1(3) by (auto simp: refs_def)
  note p2 = assignment_refs [OF la2 dr(1)]
  have v2: "\<forall>r \<in> ?M2. valid_ref b r" "\<forall>r \<in> set U. valid_ref b r"
    using p2(1) dr(2) v1(2) unfolding U_def by blast+
  have v2': "\<forall>r \<in> ?M2. valid_ref b2 r" using v2 valid_ref_same [OF sf2] by simp
  note S2 = assoc_matches_spec [OF r2 v2']
  have sf3: "same_frame b b3" using S2 same_frame_trans [OF sf2] by blast
  have keep2: "\<And>r. valid_ref b r \<Longrightarrow> r \<notin> ?M2 \<Longrightarrow> deref b3 r = deref b2 r"
    using S2 valid_ref_same [OF sf2] by blast
  have disj: "?M1 \<inter> ?N1 = {}" "?M2 \<subseteq> ?N1" "set U \<subseteq> ?N1" "?M2 \<inter> set U = {}" "set U \<subseteq> set refs"
    using p1(2) p2(1,2) dr(2) unfolding U_def by blast+
  have st_refs: "\<And>r. r \<in> set refs \<Longrightarrow> state (deref b2 r) = Tracked" by (simp add: refs_def)
  have u_old: "\<And>r. r \<in> set U \<Longrightarrow> deref b3 r = deref b1 r \<and> state (deref b r) = Tracked"
    using keep1 keep2 disj v2(2) st_refs pred by (metis IntI disjoint_iff subsetD)
  have u_ok: "\<forall>r \<in> set U. valid_ref b3 r \<and> state (deref b3 r) \<noteq> Lost"
    using u_old v2(2) valid_ref_same [OF sf3] pred by simp
  have dU: "distinct U" using p2(3) by (simp add: U_def)
  note L = lose_unmatched_spec [OF last(1) dU u_ok]
  have sf: "same_frame b b'" using L same_frame_trans [OF sf3] by blast
  have fin: "\<And>r. valid_ref b r \<Longrightarrow> deref b' r = (if r \<in> set U then mark_lost (deref b3 r) else deref b3 r)"
    using L valid_ref_same [OF sf3] by blast
  have matched_cur: "current ?fid (deref b' r) \<and> tid (deref b r) \<in> ?keys" if r: "r \<in> ?M1 \<union> ?M2" for r
  proof (cases "r \<in> ?M2")
    case True
    then have v: "valid_ref b r" "r \<notin> set U" using v2 disj by auto
    have "current ?fid (deref b3 r)" "tid (deref b2 r) \<in> tid ` (set act2 \<union> set refi2)"
      using S2 True fr by auto
    then show ?thesis using fin v last deref_tid_same [OF sf2] by auto
  next
    case False
    then have v: "r \<in> ?M1" "valid_ref b r" "r \<notin> set U" using r v1 disj by auto
    have "current ?fid (deref b2 r)" "tid (deref b1 r) \<in> tid ` (set act1 \<union> set refi1)"
      using S1 v(1) fr by auto
    moreover have "set act1 \<union> set refi1 \<subseteq> set act \<union> set refi" using S2 last by blast
    ultimately show ?thesis using fin keep2 False v deref_tid_same [OF sf1] by auto
  qed
  have keys_from: "current ?fid s \<and> (\<exists>r \<in> ?M1 \<union> ?M2. tid s = tid (deref b r))" if s: "s \<in> set act \<union> set refi" for s
  proof -
    have "s \<in> set act1 \<union> set refi1 \<or> current ?fid s \<and> (\<exists>r \<in> ?M2. tid s = tid (deref b2 r))"
      using S2 s last fr by metis
    moreover have "s \<in> set act1 \<union> set refi1 \<Longrightarrow> current ?fid s \<and> (\<exists>r \<in> ?M1. tid s = tid (deref b1 r))"
      using S1 fr by auto
    ultimately show ?thesis using deref_tid_same [OF sf1] deref_tid_same [OF sf2] v1 v2 by (metis UnCI)
  qed
  have rest: "r \<in> ?M1 \<union> ?M2 \<or> r \<in> set U \<or>
      state (deref b r) \<noteq> Tracked \<and> state (deref b' r) = state (deref b r) \<and> frame_id (deref b' r) = frame_id (deref b r)"
    if v: "valid_ref b r" for r
  proof (cases "r \<in> ?M1 \<union> ?M2 \<or> r \<in> set U")
    case False
    then have n: "r \<in> ?N1" using v dp(2) p1(1) by blast
    then have "r \<notin> set refs" using False p2(1) by (auto simp: U_def)
    then have "state (deref b2 r) \<noteq> Tracked" using n by (auto simp: refs_def)
    then show ?thesis using False v keep1 keep2 fin pred by simp
  qed blast
  have lost_eq: "lost = map (\<lambda>r. mark_lost (deref b1 r)) U" using L u_old by simp
  have tid1: "\<forall>r \<in> set U. tid (deref b1 r) = tid (deref b r) \<and> frame_id (deref b1 r) = frame_id (deref b r)"
    using deref_tid_same [OF sf1] v2(2) pred by blast
  have "ref_outcome ?fid b b' ?keys (?M1 \<union> ?M2) (set U)"
    unfolding ref_outcome_def
  proof (intro conjI)
    show "(?M1 \<union> ?M2) \<inter> set U = {}" using disj by blast
    show "\<forall>r \<in> ?M1 \<union> ?M2. valid_ref b r \<and> current ?fid (deref b' r) \<and> tid (deref b r) \<in> ?keys"
      using v1(1) v2(1) matched_cur by blast
    show "\<forall>r \<in> set U. valid_ref b r \<and> state (deref b r) = Tracked \<and> state (deref b' r) = Lost"
      using v2(2) u_old fin by (simp add: op_simps)
    show "\<forall>r. valid_ref b r \<longrightarrow> r \<notin> ?M1 \<union> ?M2 \<longrightarrow> r \<notin> set U \<longrightarrow> state (deref b r) \<noteq> Tracked \<and>
        state (deref b' r) = state (deref b r) \<and> frame_id (deref b' r) = frame_id (deref b r)"
      using rest by blast
  qed
  then show ?thesis
    using associated_from_refs [OF inv sf _ _ lost_eq dU tid1] keys_from by blast
qed

section \<open>The end of an update\<close>

lemma lost_age_kept:
  assumes s0: "s0 \<in> set (lost_stracks b0)" "lost_age_ok b0 s0" and t: "tid s = tid s0" "frame_id s = frame_id s0"
    and b: "bt_frame b = bt_frame b0 + 1" "max_time_lost b = max_time_lost b0"
    and gone: "tid s \<notin> tid ` set (removed_stracks b0)"
    and now: "max_time_lost b < bt_frame b - frame_id s \<Longrightarrow> tid s \<in> tid ` set (removed_stracks b)"
  shows "lost_age_ok b s"
  using assms by (auto simp: lost_age_ok_def max_def split: if_splits)

lemma update_state_spec:
  fixes b0 :: "('f::{zero,one,plus,minus,times,inverse,ord}, 'c) byte_tracker"
  assumes inv: "bt_inv nx b0" and b: "b = b0\<lparr>bt_frame := bt_frame b0 + 1\<rparr>"
    and ass: "associated (bt_frame b) b b' act0 refi lost"
    and act: "act = act0 @ new" "map tid new = [nx..nx' - 1]" "\<forall>s \<in> set new. current (bt_frame b) s" "nx \<le> nx'"
    and run: "update_state act refi lost [] b' = (b5, out)"
  shows "bt_inv nx' b5 \<and> bt_frame b5 = bt_frame b \<and> max_time_lost b5 = max_time_lost b \<and>
    out = tracked_stracks b5 \<and> tid ` set (tracked_stracks b5) \<subseteq> set (ids b0) \<union> {nx..<nx'} \<and>
    tid ` set (lost_stracks b5) \<subseteq> set (ids b0)"
proof -
  let ?fid = "bt_frame b"
  define aged where "aged = (\<lambda>s::('f, 'c) strack. bt_frame b' - frame_id s > max_time_lost b')"
  define lost1 where "lost1 = map (\<lambda>s. if aged s then mark_removed s else s) (lost_stracks b')"
  define tracked1 where "tracked1 = filter (\<lambda>s. state s = Tracked) (tracked_stracks b')"
  define tracked2 where "tracked2 = joint_stracks tid (joint_stracks tid tracked1 act) refi"
  define lost2 where "lost2 = sub_stracks (sub_stracks lost1 tracked2 @ lost) (removed_stracks b')"
  obtain resa resb where dup: "remove_duplicate_stracks tracked2 lost2 = (resa, resb)" by fastforce
  have b5: "b5 = b'\<lparr>tracked_stracks := resa, lost_stracks := resb,
      removed_stracks := map mark_removed (filter aged (lost_stracks b'))\<rparr>" "out = filter is_activated resa"
    using run dup unfolding update_state_def Let_def aged_def [symmetric] lost1_def [symmetric]
      tracked1_def [symmetric] tracked2_def [symmetric] lost2_def [symmetric] by auto
  have sf: "same_frame b b'" using ass by (simp add: associated_def)
  have idb: "ids b = ids b0" "set (ids b) = tid ` set (tracked_stracks b0) \<union> tid ` set (lost_stracks b0)"
    by (simp_all add: b ids_def)
  have d: "distinct (map tid (tracked_stracks b'))"
    using inv sf by (simp add: bt_inv_def ids_def same_frame_def b)
  have t2_keys: "tid ` set tracked2 = tid ` set tracked1 \<union> tid ` set act \<union> tid ` set refi"
    by (simp add: tracked2_def joint_stracks_keys)
  have t2_set: "set tracked2 \<subseteq> set tracked1 \<union> set act \<union> set refi"
    using joint_stracks_subset [of tid tracked1 act] joint_stracks_subset [of tid "joint_stracks tid tracked1 act" refi]
    unfolding tracked2_def by blast
  have t2_cur: "\<forall>s \<in> set tracked2. current ?fid s"
    using t2_set ass act(3) by (auto simp: associated_def tracked1_def act(1))
  have t2_d: "distinct (map tid tracked2)"
    unfolding tracked2_def tracked1_def
    by (intro joint_stracks_distinct distinct_map_filter_set d)
  have t1_keys: "tid ` set tracked1 \<subseteq> tid ` (set act0 \<union> set refi)"
    using ass by (auto simp: associated_def tracked1_def)
  have old_lt: "\<forall>i \<in> set (ids b0). i < nx" using inv by (simp add: bt_inv_def)
  have new_ids: "tid ` set new = {nx..<nx'}"
    using arg_cong [OF act(2), of set] by auto
  have keys_old: "tid ` (set act0 \<union> set refi) \<subseteq> set (ids b0)"
    using ass idb(1) by (auto simp: associated_def)
  have t2_ids: "tid ` set tracked2 = tid ` (set act0 \<union> set refi) \<union> {nx..<nx'}"
    using t1_keys new_ids unfolding t2_keys act(1) by auto
  have lost_tid: "tid s \<in> set (ids b0) \<and> tid s \<notin> tid ` (set act0 \<union> set refi)" if s: "s \<in> set lost" for s
  proof -
    have "tid s \<in> tid ` set (tracked_stracks b) \<and> tid s \<notin> tid ` (set act0 \<union> set refi)"
      using ass s unfolding associated_def by blast
    then show ?thesis by (simp add: ids_def b)
  qed
  have "tid s \<notin> tid ` set tracked2" if s: "s \<in> set lost" for s
    using lost_tid [OF s] old_lt unfolding t2_ids by fastforce
  then have lost_out: "tid ` set lost \<inter> tid ` set tracked2 = {}" "tid ` set lost \<subseteq> set (ids b0)"
    using lost_tid by blast+
  have l2_ids: "tid ` set lost2 \<inter> tid ` set tracked2 = {}"
    "tid ` set lost2 \<inter> tid ` set (removed_stracks b') = {}"
    using lost_out(1) by (auto simp: lost2_def sub_stracks_ids image_Un)
  have l2: "(state s = Lost \<or> state s = Removed) \<and> lost_age_ok b5 s \<and> tid s \<in> set (ids b0)"
    if s: "s \<in> set lost2" for s
  proof -
    have gone: "tid s \<notin> tid ` set tracked2" "tid s \<notin> tid ` set (removed_stracks b0)"
      using s l2_ids sf by (auto simp: same_frame_def b)
    have frames: "bt_frame b5 = bt_frame b0 + 1" "max_time_lost b5 = max_time_lost b0"
      "bt_frame b' = bt_frame b5" "max_time_lost b' = max_time_lost b5"
      using sf by (simp_all add: b5 same_frame_def b)
    have "s \<in> set lost \<or> s \<in> set lost1"
      using s sub_stracks_subset [of "sub_stracks lost1 tracked2 @ lost" "removed_stracks b'"]
        sub_stracks_subset [of lost1 tracked2] unfolding lost2_def by auto
    then show ?thesis
    proof
      assume l: "s \<in> set lost"
      then have "state s = Lost" "frame_id s = bt_frame b5 - 1"
        using ass frames by (auto simp: associated_def b)
      then show ?thesis using l lost_out(2) by (auto simp: lost_age_ok_def)
    next
      assume "s \<in> set lost1"
      then obtain s1 where s1: "s1 \<in> set (lost_stracks b')" "s = (if aged s1 then mark_removed s1 else s1)"
        by (auto simp: lost1_def)
      then have eq: "tid s = tid s1" by (simp add: op_simps)
      then have "tid s1 \<notin> tid ` (set act0 \<union> set refi)"
        using gone(1) unfolding t2_ids by simp
      then obtain s0 where s0: "s0 \<in> set (lost_stracks b0)" "tid s1 = tid s0" "state s1 = state s0"
        "frame_id s1 = frame_id s0"
        using ass s1(1) unfolding associated_def by (auto simp: b)
      then have st: "state s0 = Lost \<or> state s0 = Removed" "lost_age_ok b0 s0"
        using inv by (auto simp: bt_inv_def)
      have "lost_age_ok b5 s"
      proof (rule lost_age_kept [OF s0(1) st(2)])
        show "tid s = tid s0" "frame_id s = frame_id s0" using s1 s0 by (auto simp: op_simps)
        show "tid s \<in> tid ` set (removed_stracks b5)" if "max_time_lost b5 < bt_frame b5 - frame_id s"
        proof -
          have "frame_id s = frame_id s1" by (simp add: s1(2) op_simps)
          then have "aged s1" using that frames by (simp add: aged_def)
          then have "mark_removed s1 \<in> set (removed_stracks b5)" using s1(1) by (auto simp: b5)
          then show ?thesis using eq by (metis imageI mark_fields(5))
        qed
      qed (use frames gone in auto)
      moreover have "tid s \<in> set (ids b0)" using s0 eq by (auto simp: ids_def)
      ultimately show ?thesis using st s1(2) s0 by (auto simp: op_simps)
    qed
  qed
  have l2_d: "distinct (map tid lost2)" by (simp add: lost2_def sub_stracks_distinct)
  have sub: "set resa \<subseteq> set tracked2" "set resb \<subseteq> set lost2"
    using remove_duplicate_subset [OF dup] by auto
  have mono: "tid ` set resa \<subseteq> tid ` set tracked2" "tid ` set resb \<subseteq> tid ` set lost2"
    using sub by (simp_all add: image_mono)
  have l2_old: "tid ` set lost2 \<subseteq> set (ids b0)" using l2 by (simp add: image_subset_iff)
  have sub_ids: "tid ` set resa \<subseteq> set (ids b0) \<union> {nx..<nx'}"
    using mono(1) Un_mono [OF keys_old order_refl] unfolding t2_ids by (rule subset_trans)
  have sub_ids': "tid ` set resb \<subseteq> set (ids b0)" using mono(2) l2_old by (rule subset_trans)
  have sub_disj: "tid ` set resa \<inter> tid ` set resb = {}"
    using disjoint_mono [OF mono] l2_ids(1) by blast
  have b5': "tracked_stracks b5 = resa" "lost_stracks b5 = resb" "ids b5 = map tid resa @ map tid resb"
    by (simp_all add: b5(1) ids_def)
  have dist: "distinct (ids b5)"
    using remove_duplicate_distinct [OF dup t2_d l2_d] sub_disj by (simp add: b5')
  have lt: "\<forall>i \<in> set (ids b5). i < nx'"
  proof
    fix i assume "i \<in> set (ids b5)"
    then have "i \<in> set (ids b0) \<union> {nx..<nx'}" using sub_ids sub_ids' unfolding b5'(3) set_append set_map by blast
    then show "i < nx'" using old_lt act(4) by auto
  qed
  have fr: "bt_frame b5 = ?fid" "max_time_lost b5 = max_time_lost b"
    using sf by (simp_all add: b5(1) same_frame_def)
  have cur: "\<forall>s \<in> set resa. current (bt_frame b5) s" using sub(1) t2_cur fr by auto
  have ages: "\<forall>s \<in> set resb. (state s = Lost \<or> state s = Removed) \<and> lost_age_ok b5 s" using sub(2) l2 by blast
  have rem: "tid ` set resa \<inter> tid ` set (removed_stracks b5) = {}" if m: "0 \<le> max_time_lost b5"
  proof -
    have "tid s \<notin> tid ` set tracked2" if s: "s \<in> set (lost_stracks b')" "aged s" for s
    proof -
      have "\<not> current ?fid s" using s(2) m sf fr by (auto simp: aged_def current_def same_frame_def)
      then have "tid s \<notin> tid ` (set act0 \<union> set refi)" "tid s \<in> tid ` set (lost_stracks b0)"
        using ass s(1) unfolding associated_def by (auto simp: b)
      moreover from this(2) have "tid s < nx" using old_lt by (simp add: ids_def)
      ultimately show ?thesis unfolding t2_ids by simp
    qed
    then have "tid ` set (filter aged (lost_stracks b')) \<inter> tid ` set tracked2 = {}" by auto
    moreover have "tid ` set (removed_stracks b5) = tid ` set (filter aged (lost_stracks b'))"
      by (simp add: b5(1) image_image op_simps)
    ultimately show ?thesis using disjoint_mono [OF mono(1) order_refl] by simp
  qed
  have "out = resa" using cur by (simp add: b5(2) filter_id_conv current_def)
  then show ?thesis
    using dist lt cur ages rem sub_ids sub_ids' fr by (simp add: bt_inv_def b5'(1,2))
qed

lemma bt_inv_mono: "bt_inv nx b \<Longrightarrow> nx \<le> nx' \<Longrightarrow> bt_inv nx' b"
  by (auto simp: bt_inv_def)

lemma bt_inv_new: "bt_inv nx (byte_tracker_new of_i to_i cfg)"
  by (simp add: bt_inv_def byte_tracker_new_def ids_def)

lemma update_spec:
  fixes b0 :: "('f::{zero,one,plus,minus,times,inverse,ord}, 'c) byte_tracker"
  assumes inv: "bt_inv nx b0"
    and run: "update kf solve objects nx b0 = (b', nx', out)"
  shows "bt_inv nx' b' \<and> bt_frame b' = bt_frame b0 + 1 \<and> max_time_lost b' = max_time_lost b0 \<and> nx \<le> nx' \<and>
    out = tracked_stracks b' \<and> tid ` set (tracked_stracks b') \<subseteq> set (ids b0) \<union> {nx..<nx'} \<and>
    tid ` set (lost_stracks b') \<subseteq> set (ids b0)"
proof -
  define b where "b = b0\<lparr>bt_frame := bt_frame b0 + 1\<rparr>"
  define dets :: "('f, 'c) strack list" where "dets = filter (\<lambda>d. track_thresh b \<le> score d) (map detection_of objects)"
  define low :: "('f, 'c) strack list" where "low = filter (\<lambda>d. \<not> track_thresh b \<le> score d) (map detection_of objects)"
  have unc: "unconfirmed_refs b = []"
    using inv by (intro strack_pool_all(2)) (auto simp: b_def bt_inv_def current_def ids_def)
  obtain st2 pool u_track u_det where first: "first_association kf solve dets b = (st2, pool, u_track, u_det)"
    by (metis prod_cases4)
  obtain b3 lost act refi where second:
    "second_association kf solve low pool u_track st2 = ((b3, lost), act, refi)"
    by (metis surj_pair)
  define cp where "cp = map (\<lambda>i. dets ! i) u_det"
  obtain act5 nx5 where init: "init_stracks kf (high_thresh b) (bt_frame b)
      (map (\<lambda>i. cp ! i) [0..<length cp]) (act, nx) = (act5, nx5)"
    by fastforce
  obtain b5 out5 where last: "update_state act5 refi lost [] b3 = (b5, out5)" by fastforce
  have eqs: "b' = b5" "nx' = nx5" "out = out5"
    using run first second init last unc confirm_association_nil [of kf solve cp b3 act]
    unfolding update_def Let_def b_def [symmetric] dets_def [symmetric] low_def [symmetric]
    by (simp_all add: cp_def)
  have "associated (bt_frame b) b b3 act refi lost"
    using inv by (intro associations_spec [OF _ _ _ first second]) (simp_all add: b_def bt_inv_def ids_def)
  moreover obtain new where "act5 = act @ new" "map tid new = [nx..nx5 - 1]" "\<forall>s \<in> set new. current (bt_frame b) s"
    and le: "nx \<le> nx5"
    using init_stracks_spec [OF init] by blast
  ultimately have "bt_inv nx5 b5 \<and> bt_frame b5 = bt_frame b \<and> max_time_lost b5 = max_time_lost b \<and>
    out5 = tracked_stracks b5 \<and> tid ` set (tracked_stracks b5) \<subseteq> set (ids b0) \<union> {nx..<nx5} \<and>
    tid ` set (lost_stracks b5) \<subseteq> set (ids b0)"
    using update_state_spec [OF inv b_def _ _ _ _ le last] by blast
  then show ?thesis using le by (simp add: eqs b_def)
qed

lemma update_ids:
  assumes "bt_inv nx b" "update kf solve objects nx b = (b', nx', out)"
  shows "set (ids b') \<subseteq> set (ids b) \<union> {nx..<nx'}"
proof -
  have "tid ` set (tracked_stracks b') \<subseteq> set (ids b) \<union> {nx..<nx'}"
    and "tid ` set (lost_stracks b') \<subseteq> set (ids b) \<union> {nx..<nx'}"
    using update_spec [OF assms] by (simp_all add: le_supI1)
  then show ?thesis unfolding ids_def [of b'] by simp
qed

section \<open>Whole runs\<close>

text \<open>
  Frames of one tracker. Before each frame other trackers of the same counter may have taken ids: the
  number comes with the frame.
\<close>

fun run_frames ::
    "('f::{zero,one,plus,minus,times,inverse,ord}, 'c) kalman \<Rightarrow> 'f solver \<Rightarrow> (nat \<times> 'f object list) list \<Rightarrow>
     ('f, 'c) byte_tracker \<times> int \<Rightarrow> ('f, 'c) byte_tracker \<times> int" where
  "run_frames kf solve [] st = st"
| "run_frames kf solve ((taken, objects) # fs) (b, nx) =
     (let (b', nx', out) = update kf solve objects (nx + int taken) b in run_frames kf solve fs (b', nx'))"

lemma run_frames_inv:
  "bt_inv nx b \<Longrightarrow> run_frames kf solve fs (b, nx) = (b', nx') \<Longrightarrow> bt_inv nx' b' \<and> max_time_lost b' = max_time_lost b"
proof (induction fs arbitrary: b nx)
  case Nil
  then show ?case by simp
next
  case (Cons f fs)
  obtain taken objects where f: "f = (taken, objects)" by (cases f)
  obtain b1 nx1 out where u: "update kf solve objects (nx + int taken) b = (b1, nx1, out)" by (metis prod_cases3)
  have "bt_inv (nx + int taken) b" using Cons.prems(1) bt_inv_mono by fastforce
  note one = update_spec [OF this u]
  show ?case using Cons.IH [of nx1 b1] Cons.prems(2) one by (simp add: f u)
qed

lemma run_new_inv:
  "run_frames kf solve fs (byte_tracker_new of_i to_i cfg, 1) = (b, nx) \<Longrightarrow> bt_inv nx b"
  using run_frames_inv [OF bt_inv_new] by blast

text \<open>C7. Whatever frames a tracker has processed, and whatever the solver and the Kalman filter return,
  the tracks of the next output have different ids, were all seen in that frame, and each id is that of a
  track the tracker held before or a new one from the shared counter, which ids in use never reach: no
  id is given twice.\<close>

theorem track_ids_unique:
  "case run_frames kf solve fs (byte_tracker_new of_i to_i cfg, 1) of (b, nx) \<Rightarrow>
   case update kf solve objects nx b of (b', nx', out) \<Rightarrow>
     distinct (map tid out) \<and>
     list_all (\<lambda>s. state s = Tracked \<and> is_activated s \<and> frame_id s = bt_frame b') out \<and>
     tid ` set out \<subseteq> tid ` set (tracked_stracks b @ lost_stracks b) \<union> {nx..<nx'} \<and>
     list_all (\<lambda>i. i < nx') (map tid (tracked_stracks b' @ lost_stracks b'))"
proof -
  obtain b nx where r: "run_frames kf solve fs (byte_tracker_new of_i to_i cfg, 1) = (b, nx)" by fastforce
  obtain b' nx' out where u: "update kf solve objects nx b = (b', nx', out)" by (metis prod_cases3)
  note spec = update_spec [OF run_new_inv [OF r] u]
  show ?thesis using spec by (simp add: r u bt_inv_def ids_def list_all_iff current_def image_Un)
qed

text \<open>Memory and grace of lost tracks, for every run: the tracked and the lost list share no id, a
  lost track stays at most one frame longer than its limit, and when the limit is not negative no tracked
  id is in the list of removed tracks, so a track that was found again in its last moment gets the whole
  grace period when it is next lost.\<close>

theorem lost_tracks_expire:
  "case run_frames kf solve fs (byte_tracker_new of_i to_i cfg, 1) of (b, nx) \<Rightarrow>
     distinct (map tid (tracked_stracks b @ lost_stracks b)) \<and>
     list_all (\<lambda>s. 0 < bt_frame b - frame_id s \<and> bt_frame b - frame_id s \<le> max 1 (max_time_lost b) + 1)
       (lost_stracks b) \<and>
     (max_time_lost b < 0 \<or> tid ` set (tracked_stracks b) \<inter> tid ` set (removed_stracks b) = {})"
proof -
  obtain b nx where r: "run_frames kf solve fs (byte_tracker_new of_i to_i cfg, 1) = (b, nx)" by fastforce
  note inv = run_new_inv [OF r]
  have "\<forall>s \<in> set (lost_stracks b). lost_age_ok b s" using inv by (simp add: bt_inv_def)
  then have "list_all (\<lambda>s. 0 < bt_frame b - frame_id s \<and> bt_frame b - frame_id s \<le> max 1 (max_time_lost b) + 1)
       (lost_stracks b)"
    by (auto simp: list_all_iff lost_age_ok_def)
  then show ?thesis using inv by (auto simp: r bt_inv_def ids_def)
qed

text \<open>An assignment between tracks and detections stays in bounds for every solver: each row is
  either matched, once, or reported as unmatched, once, and columns are columns of the matrix.\<close>

theorem assignment_in_bounds:
  "case linear_assignment solve (iou_distance as bs) (length as) (length bs) t of (matches, ua, ub) \<Rightarrow>
     distinct (map fst matches @ ua) \<and> set (map fst matches @ ua) = {0..<length as} \<and>
     list_all (\<lambda>m. snd m < length bs) matches \<and> distinct ub \<and> set ub \<subseteq> {0..<length bs}"
proof -
  obtain matches ua ub where
    la: "linear_assignment solve (iou_distance as bs) (length as) (length bs) t = (matches, ua, ub)"
    by (metis prod_cases3)
  show ?thesis using linear_assignment_bounds [OF la] by (simp add: la list_all_iff)
qed

end
