(* ===== verification/Yaml_Lib.thy ===== *)
theory Yaml_Lib
  imports Ax_Prelude
begin

text \<open>
  What yaml-cpp gives to the readers of configurations, as a record of functions over an abstract type of
  nodes, and how results with an error text are passed on.
\<close>

text \<open>
  \<open>YAML::Load\<close>, the kind of a node, its entries and items, the lookup by key, and the conversions.
  \<open>None\<close> is an exception, for the lookup an undefined node.
\<close>

record ('n, 'f) yaml_lib =
  yaml_load :: "string \<Rightarrow> 'n option"
  is_map :: "'n \<Rightarrow> bool"
  is_sequence :: "'n \<Rightarrow> bool"
  entries :: "'n \<Rightarrow> ('n \<times> 'n) list"
  items :: "'n \<Rightarrow> 'n list"
  lookup :: "'n \<Rightarrow> string \<Rightarrow> 'n option"
  as_string :: "'n \<Rightarrow> string option"
  as_int :: "'n \<Rightarrow> int option"
  as_float :: "'n \<Rightarrow> 'f option"

text \<open>
  What the scene configuration uses besides: files, scalars, two more conversions, the text of the
  exception a conversion throws, and the emitter (\<open>Inl\<close> its last error).
\<close>

record ('n, 'f) yaml_reader = "('n, 'f) yaml_lib" +
  load_file :: "string \<Rightarrow> (bool \<times> string) + 'n"
  is_scalar :: "'n \<Rightarrow> bool"
  as_uint32 :: "'n \<Rightarrow> u32 option"
  as_bool :: "'n \<Rightarrow> bool option"
  what :: "'n \<Rightarrow> string"
  emit :: "'n \<Rightarrow> string + string"

definition then_do :: "'e + 'a \<Rightarrow> ('a \<Rightarrow> 'e + 'b) \<Rightarrow> 'e + 'b" where
  "then_do r f = (case r of Inl e \<Rightarrow> Inl e | Inr x \<Rightarrow> f x)"

lemma then_do_Inr_iff: "then_do r f = Inr y \<longleftrightarrow> (\<exists>x. r = Inr x \<and> f x = Inr y)"
  by (cases r) (auto simp: then_do_def)

lemma then_do_Inl_iff: "then_do r f = Inl e \<longleftrightarrow> r = Inl e \<or> (\<exists>x. r = Inr x \<and> f x = Inl e)"
  by (cases r) (auto simp: then_do_def)

lemma then_doE: "then_do r f = Inr y \<Longrightarrow> (\<And>x. r = Inr x \<Longrightarrow> f x = Inr y \<Longrightarrow> P) \<Longrightarrow> P"
  by (auto simp: then_do_Inr_iff)

lemma then_do_simps [simp]: "then_do (Inl e) f = Inl e" "then_do (Inr x) f = f x"
  by (simp_all add: then_do_def)

end
