(* ===== verification/Tracker_Proc.thy ===== *)
theory Tracker_Proc
  imports Byte_Track_Inv Yaml_Lib Complex_Main
begin

text \<open>
  The tracking post-processor of \<open>postprocessors/tracker/\<close>: label names, configuration, one tracker per
  label over a shared id counter, and the way track ids get back to the objects of a frame. What yaml-cpp
  returns is a parameter (\<open>yaml_lib\<close>), and so is the order in which an \<open>unordered_set\<close> is iterated.
  Exceptions that leave an operation are \<open>None\<close>.
\<close>

section \<open>Label names\<close>

definition tolower :: "char \<Rightarrow> char" where
  "tolower c = (let n = of_char c :: nat in if 65 \<le> n \<and> n \<le> 90 then char_of (n + 32) else c)"

definition isspace :: "char \<Rightarrow> bool" where
  "isspace c \<longleftrightarrow> (let n = of_char c :: nat in n = 32 \<or> 9 \<le> n \<and> n \<le> 13)"

definition is_base_digit :: "char \<Rightarrow> nat \<Rightarrow> bool" where
  "is_base_digit c base \<longleftrightarrow>
     (let n = of_char c :: nat; l = of_char (tolower c) :: nat
      in if 48 \<le> n \<and> n \<le> 57 then n - 48 < base else base = 16 \<and> 97 \<le> l \<and> l \<le> 102)"

text \<open>An index into the text is the rest of the text from there on.\<close>

fun is_digit_seq :: "nat \<Rightarrow> bool \<Rightarrow> string \<Rightarrow> bool" where
  "is_digit_seq base has_digit [] = has_digit"
| "is_digit_seq base has_digit (c # cs) =
     (if c = CHR ''_'' then is_digit_seq base has_digit cs
      else if \<not> is_base_digit c base then False else is_digit_seq base True cs)"

definition is_digit_sequence :: "string \<Rightarrow> nat \<Rightarrow> bool" where
  "is_digit_sequence value base = is_digit_seq base False value"

fun mantissa :: "bool \<Rightarrow> string \<Rightarrow> bool \<times> string" where
  "mantissa has [] = (has, [])"
| "mantissa has (c # cs) =
     (if is_base_digit c 10 \<or> c = CHR ''_'' then mantissa (has \<or> c \<noteq> CHR ''_'') cs else (has, c # cs))"

definition skip_sign :: "string \<Rightarrow> string" where
  "skip_sign s = (case s of c # cs \<Rightarrow> if c = CHR ''+'' \<or> c = CHR ''-'' then cs else s | [] \<Rightarrow> [])"

definition is_decimal :: "string \<Rightarrow> bool" where
  "is_decimal s =
     (let (d1, r1) = mantissa False s;
          (d2, r2) = (case r1 of c # cs \<Rightarrow> if c = CHR ''.'' then mantissa d1 cs else (d1, r1) | [] \<Rightarrow> (d1, []))
      in if \<not> d2 then False
         else (case r2 of
                 c # cs \<Rightarrow> if c = CHR ''e'' \<or> c = CHR ''E'' then is_digit_sequence (skip_sign cs) 10 else False
               | [] \<Rightarrow> True))"

definition is_yaml_numeric :: "string \<Rightarrow> bool" where
  "is_yaml_numeric value =
     (if map tolower value \<in> {''.inf'', ''+.inf'', ''-.inf'', ''.nan'', ''+.nan'', ''-.nan''} then True
      else
        (case skip_sign value of
           [] \<Rightarrow> False
         | [c] \<Rightarrow> is_decimal [c]
         | c # q # cs \<Rightarrow>
             if c = CHR ''0'' \<and> tolower q \<in> {CHR ''b'', CHR ''o'', CHR ''x''} then
               is_digit_sequence cs (if tolower q = CHR ''b'' then 2 else if tolower q = CHR ''o'' then 8 else 16)
             else is_decimal (c # q # cs)))"

definition trim :: "string \<Rightarrow> string" where
  "trim s = rev (dropWhile isspace (rev (dropWhile isspace s)))"

definition is_valid_label_name :: "string \<Rightarrow> bool" where
  "is_valid_label_name l \<longleftrightarrow> trim l \<noteq> [] \<and> \<not> is_yaml_numeric (trim l)"

section \<open>Configuration\<close>

definition kInvalidConfig :: int where "kInvalidConfig = -2"

record ('f, 'c) tracker_processor =
  track_labels :: "string set"
  trackers :: "string \<Rightarrow> ('f, 'c) byte_tracker option"
  next_track_id :: int

definition processor_new :: "('f, 'c) tracker_processor" where
  "processor_new = \<lparr>track_labels = {}, trackers = (\<lambda>_. None), next_track_id = 1\<rparr>"

definition processor_shutdown :: "('f, 'c) tracker_processor \<Rightarrow> ('f, 'c) tracker_processor" where
  "processor_shutdown p = p\<lparr>trackers := (\<lambda>_. None), track_labels := {}, next_track_id := 1\<rparr>"

text \<open>The keys of the parameters: a key that is no string or occurs twice is an error. A key that no field
  has is only logged.\<close>

fun keys_ok :: "('n, 'f) yaml_lib \<Rightarrow> string set \<Rightarrow> ('n \<times> 'n) list \<Rightarrow> bool" where
  "keys_ok y seen [] = True"
| "keys_ok y seen ((k, v) # es) =
     (case as_string y k of
        None \<Rightarrow> False
      | Some field \<Rightarrow> if field \<in> seen then False else keys_ok y (insert field seen) es)"

text \<open>The labels are inserted one by one; an error leaves those before it.\<close>

fun read_labels :: "('n, 'f) yaml_lib \<Rightarrow> 'n list \<Rightarrow> string set \<Rightarrow> bool \<times> string set" where
  "read_labels y [] ls = (True, ls)"
| "read_labels y (n # ns) ls =
     (case as_string y n of
        None \<Rightarrow> (False, ls)
      | Some l \<Rightarrow> if \<not> is_valid_label_name l then (False, ls) else read_labels y ns (insert l ls))"

definition read_optional :: "('n \<Rightarrow> 'a option) \<Rightarrow> ('n, 'f) yaml_lib \<Rightarrow> 'n \<Rightarrow> string \<Rightarrow> 'a \<Rightarrow> 'a option" where
  "read_optional conv y params field dflt =
     (case lookup y params field of None \<Rightarrow> Some dflt | Some n \<Rightarrow> conv n)"

definition default_config :: "'f::{zero,one,plus,inverse} byte_tracker_config" where
  "default_config =
     \<lparr>cfg_frame_rate = 30, cfg_track_buffer = 30, cfg_track_thresh = 1 / lit 2,
      cfg_high_thresh = lit 6 / lit 10, cfg_match_thresh = lit 8 / lit 10\<rparr>"

definition read_config ::
    "('n, 'f::{zero,one,plus,inverse}) yaml_lib \<Rightarrow> 'n \<Rightarrow> 'f byte_tracker_config option" where
  "read_config y params =
     Option.bind (read_optional (as_int y) y params ''frame_rate'' (cfg_frame_rate (default_config :: 'f byte_tracker_config))) (\<lambda>fr.
     Option.bind (read_optional (as_int y) y params ''track_buffer'' (cfg_track_buffer (default_config :: 'f byte_tracker_config))) (\<lambda>tb.
     Option.bind (read_optional (as_float y) y params ''track_thresh'' (cfg_track_thresh default_config)) (\<lambda>tt.
     Option.bind (read_optional (as_float y) y params ''high_thresh'' (cfg_high_thresh default_config)) (\<lambda>ht.
     Option.bind (read_optional (as_float y) y params ''match_thresh'' (cfg_match_thresh default_config)) (\<lambda>mt.
       Some \<lparr>cfg_frame_rate = fr, cfg_track_buffer = tb, cfg_track_thresh = tt, cfg_high_thresh = ht,
             cfg_match_thresh = mt\<rparr>)))))"

definition valid_threshold :: "'f::{zero,one,ord} \<Rightarrow> bool" where
  "valid_threshold v \<longleftrightarrow> 0 \<le> v \<and> v \<le> 1"

definition config_ok :: "'f::{zero,one,ord} byte_tracker_config \<Rightarrow> bool" where
  "config_ok c \<longleftrightarrow>
     0 < cfg_frame_rate c \<and> 0 < cfg_track_buffer c \<and> valid_threshold (cfg_track_thresh c) \<and>
     valid_threshold (cfg_high_thresh c) \<and> valid_threshold (cfg_match_thresh c)"

text \<open>The part of \<open>Init\<close> after the parameters were loaded.\<close>

definition init_params ::
    "('n, 'f::{zero,one,plus,minus,times,inverse,ord}) yaml_lib \<Rightarrow> (int \<Rightarrow> 'f) \<Rightarrow> ('f \<Rightarrow> int) \<Rightarrow> 'n \<Rightarrow>
     ('f, 'c) tracker_processor \<Rightarrow> ('f, 'c) tracker_processor \<times> int" where
  "init_params y of_i to_i params p =
     (if \<not> is_map y params then (p, kInvalidConfig)
      else if \<not> keys_ok y {} (entries y params) then (p, kInvalidConfig)
      else if Option.bind (lookup y params ''algorithm'') (as_string y) \<noteq> Some ''bytetrack'' then (p, kInvalidConfig)
      else
        (case lookup y params ''track_labels'' of
           None \<Rightarrow> (p, kInvalidConfig)
         | Some labels \<Rightarrow>
             if \<not> is_sequence y labels \<or> items y labels = [] then (p, kInvalidConfig)
             else
               (let (ok, ls) = read_labels y (items y labels) (track_labels p);
                    p1 = p\<lparr>track_labels := ls\<rparr>
                in if \<not> ok then (p1, kInvalidConfig)
                   else
                     (case read_config y params of
                        None \<Rightarrow> (processor_shutdown p1, kInvalidConfig)
                      | Some cfg \<Rightarrow>
                          if \<not> config_ok cfg then (p1, kInvalidConfig)
                          else
                            (p1\<lparr>trackers := (\<lambda>l. if l \<in> ls then Some (byte_tracker_new of_i to_i cfg)
                                                  else trackers p1 l),
                                next_track_id := 1\<rparr>, 0)))))"

definition processor_init ::
    "('n, 'f::{zero,one,plus,minus,times,inverse,ord}) yaml_lib \<Rightarrow> (int \<Rightarrow> 'f) \<Rightarrow> ('f \<Rightarrow> int) \<Rightarrow> string \<Rightarrow>
     ('f, 'c) tracker_processor \<Rightarrow> ('f, 'c) tracker_processor \<times> int" where
  "processor_init y of_i to_i params_yaml p =
     (let p0 = processor_shutdown p
      in case yaml_load y params_yaml of
           None \<Rightarrow> (processor_shutdown p0, kInvalidConfig)
         | Some params \<Rightarrow> init_params y of_i to_i params p0)"

section \<open>Process\<close>

definition intersection_over_union ::
    "'f::{zero,plus,minus,times,inverse,ord} rectf \<Rightarrow> 'f list \<Rightarrow> 'f" where
  "intersection_over_union d t =
     (if length t \<noteq> 4 then 0
      else
        (let left = std_max (rx d) (t ! 0); top = std_max (ry d) (t ! 1);
             right = std_min (rx d + rwidth d) (t ! 2); bottom = std_min (ry d + rheight d) (t ! 3);
             intersection = std_max 0 (right - left) * std_max 0 (bottom - top);
             track_area = std_max 0 (t ! 2 - t ! 0) * std_max 0 (t ! 3 - t ! 1);
             union_area = rwidth d * rheight d + track_area - intersection
         in if 0 < union_area then intersection / union_area else 0))"

definition kMinimumAssignmentIou :: "'f::{zero,one,plus,inverse}" where
  "kMinimumAssignmentIou = 1 / lit 10"

fun best_detection ::
    "'f::{zero,plus,minus,times,inverse,ord} list \<Rightarrow> (nat \<times> 'f object) list \<Rightarrow> nat set \<Rightarrow> 'f \<Rightarrow> nat option \<Rightarrow>
     nat option" where
  "best_detection t [] assigned best_iou best = best"
| "best_detection t ((k, d) # ds) assigned best_iou best =
     (if k \<in> assigned then best_detection t ds assigned best_iou best
      else
        (let iou = intersection_over_union (rect d) t
         in if best_iou \<le> iou then best_detection t ds assigned iou (Some k)
            else best_detection t ds assigned best_iou best))"

text \<open>The tracks of one label over its detections, given with their indices in the frame. \<open>assigned\<close>
  holds the indices whose flag is set.\<close>

fun assign_tracks ::
    "(nat \<times> 'f object) list \<Rightarrow> ('f::{zero,one,plus,minus,times,inverse,ord}, 'c) strack list \<Rightarrow> nat set \<Rightarrow>
     'f object list \<Rightarrow> 'f object list" where
  "assign_tracks ds [] assigned objs = objs"
| "assign_tracks ds (t # ts) assigned objs =
     (case best_detection (tlbr t) ds assigned kMinimumAssignmentIou None of
        None \<Rightarrow> assign_tracks ds ts assigned objs
      | Some k \<Rightarrow> assign_tracks ds ts (insert k assigned) (objs[k := (objs ! k)\<lparr>track_id := tid t\<rparr>]))"

definition grouped :: "'f object list \<Rightarrow> string \<Rightarrow> (nat \<times> 'f object) list" where
  "grouped objs l = filter (\<lambda>(k, d). label_name d = l) (enumerate 0 objs)"

fun process_labels ::
    "('f::{zero,one,plus,minus,times,inverse,ord}, 'c) kalman \<Rightarrow> 'f solver \<Rightarrow> string list \<Rightarrow>
     ('f, 'c) tracker_processor \<Rightarrow> 'f object list \<Rightarrow> (('f, 'c) tracker_processor \<times> 'f object list) option" where
  "process_labels kf solve [] p objs = Some (p, objs)"
| "process_labels kf solve (l # ls) p objs =
     (case trackers p l of
        None \<Rightarrow> None
      | Some b \<Rightarrow>
          (let ds = grouped objs l;
               (b', nx, tracks) = update kf solve (map snd ds) (next_track_id p) b;
               p' = p\<lparr>trackers := (trackers p)(l := Some b'), next_track_id := nx\<rparr>
           in process_labels kf solve ls p' (assign_tracks ds tracks {} objs)))"

definition processor_process ::
    "(string set \<Rightarrow> string list) \<Rightarrow> ('f::{zero,one,plus,minus,times,inverse,ord}, 'c) kalman \<Rightarrow> 'f solver \<Rightarrow>
     ('f, 'c) tracker_processor \<Rightarrow> 'f object list \<Rightarrow> (('f, 'c) tracker_processor \<times> 'f object list) option" where
  "processor_process iter kf solve p objs =
     process_labels kf solve (iter (track_labels p)) p (map (\<lambda>ob. ob\<lparr>track_id := - 1\<rparr>) objs)"

section \<open>Which objects get which id\<close>

text \<open>What \<open>Process\<close> does to the objects as a whole: \<open>m\<close> says which index gets which id.\<close>

definition apply_ids :: "(nat \<Rightarrow> int option) \<Rightarrow> 'f object list \<Rightarrow> 'f object list" where
  "apply_ids m objs =
     map (\<lambda>k. case m k of None \<Rightarrow> objs ! k | Some i \<Rightarrow> (objs ! k)\<lparr>track_id := i\<rparr>) [0..<length objs]"

lemma apply_ids_length [simp]: "length (apply_ids m objs) = length objs"
  by (simp add: apply_ids_def)

lemma apply_ids_nth:
  "k < length objs \<Longrightarrow>
   apply_ids m objs ! k = (case m k of None \<Rightarrow> objs ! k | Some i \<Rightarrow> (objs ! k)\<lparr>track_id := i\<rparr>)"
  by (simp add: apply_ids_def split: option.split)

lemma apply_ids_fields:
  "k < length objs \<Longrightarrow> label_name (apply_ids m objs ! k) = label_name (objs ! k) \<and>
     rect (apply_ids m objs ! k) = rect (objs ! k)"
  by (simp add: apply_ids_nth split: option.split)

lemma apply_ids_empty [simp]: "apply_ids Map.empty objs = objs"
  by (simp add: apply_ids_def map_nth)

lemma apply_ids_update:
  assumes "m k = None"
  shows "apply_ids m (objs[k := (objs ! k)\<lparr>track_id := i\<rparr>]) = apply_ids (m(k \<mapsto> i)) objs"
  using assms by (intro nth_equalityI) (auto simp: apply_ids_nth nth_list_update split: option.split)

lemma apply_ids_comp:
  assumes "dom m \<inter> dom m' = {}"
  shows "apply_ids m' (apply_ids m objs) = apply_ids (m ++ m') objs"
  using assms by (intro nth_equalityI) (auto simp: apply_ids_nth map_add_def split: option.split)

lemma best_detection_SomeD:
  fixes t :: "'f::{zero,plus,minus,times,inverse,ord} list"
  assumes "best_detection t ds A b0 best = Some k"
  shows "best = Some k \<or> (\<exists>d. k \<notin> A \<and> (k, d) \<in> set ds \<and>
    (transp ((\<le>) :: 'f \<Rightarrow> 'f \<Rightarrow> bool) \<longrightarrow> b0 \<le> intersection_over_union (rect d) t))"
  using assms
proof (induction ds arbitrary: b0 best)
  case Nil
  then show ?case by simp
next
  case (Cons e ds)
  obtain k' d where e: "e = (k', d)" by (cases e)
  let ?i = "intersection_over_union (rect d) t"
  show ?case
  proof (cases "k' \<in> A \<or> \<not> b0 \<le> ?i")
    case True
    then have "best_detection t ds A b0 best = Some k"
      using Cons.prems by (auto simp: e Let_def split: if_splits)
    from Cons.IH [OF this] show ?thesis by auto
  next
    case False
    then have "best_detection t ds A ?i (Some k') = Some k" using Cons.prems by (simp add: e Let_def)
    from Cons.IH [OF this] consider "k' = k" | d' where "k \<notin> A" "(k, d') \<in> set ds"
      "transp ((\<le>) :: 'f \<Rightarrow> 'f \<Rightarrow> bool) \<longrightarrow> ?i \<le> intersection_over_union (rect d') t" by auto
    then show ?thesis
    proof cases
      case 1
      then show ?thesis using False by (auto simp: e)
    next
      case 2
      then have "transp ((\<le>) :: 'f \<Rightarrow> 'f \<Rightarrow> bool) \<longrightarrow> b0 \<le> intersection_over_union (rect d') t"
        using False by (meson transpD)
      then show ?thesis using 2 by (intro disjI2 exI [of _ d']) (simp add: e)
    qed
  qed
qed

text \<open>\<open>good_match\<close>: the overlap that an assignment needs.\<close>

definition good_match :: "'f::{zero,one,plus,minus,times,inverse,ord} object \<Rightarrow> ('f, 'c) strack \<Rightarrow> bool" where
  "good_match ob t \<longleftrightarrow>
     (transp ((\<le>) :: 'f \<Rightarrow> 'f \<Rightarrow> bool) \<longrightarrow>
      kMinimumAssignmentIou \<le> intersection_over_union (rect ob) (tlbr t))"

lemma best_detection_good:
  assumes "best_detection (tlbr t) ds A kMinimumAssignmentIou None = Some k"
  shows "k \<notin> A \<and> (\<exists>d. (k, d) \<in> set ds \<and> good_match d t)"
  using best_detection_SomeD [OF assms] unfolding good_match_def by auto

lemma assign_tracks_spec:
  assumes "distinct (map tid ts)"
  shows "\<exists>m. assign_tracks ds ts A objs = apply_ids m objs \<and> dom m \<subseteq> fst ` set ds - A \<and> inj_on m (dom m) \<and>
    (\<forall>k i. m k = Some i \<longrightarrow> (\<exists>t \<in> set ts. tid t = i \<and> (\<exists>d. (k, d) \<in> set ds \<and> good_match d t)))"
  using assms
proof (induction ts arbitrary: A objs)
  case Nil
  show ?case by (rule exI [of _ Map.empty]) simp
next
  case (Cons t ts)
  show ?case
  proof (cases "best_detection (tlbr t) ds A kMinimumAssignmentIou None")
    case None
    obtain m where "assign_tracks ds ts A objs = apply_ids m objs" "dom m \<subseteq> fst ` set ds - A" "inj_on m (dom m)"
      "\<forall>k i. m k = Some i \<longrightarrow> (\<exists>t \<in> set ts. tid t = i \<and> (\<exists>d. (k, d) \<in> set ds \<and> good_match d t))"
      using Cons.IH [of A objs] Cons.prems by auto
    then show ?thesis using None by (intro exI [of _ m]) auto
  next
    case (Some k)
    note good = best_detection_good [OF Some]
    obtain m where m: "assign_tracks ds ts (insert k A) (objs[k := (objs ! k)\<lparr>track_id := tid t\<rparr>]) =
        apply_ids m (objs[k := (objs ! k)\<lparr>track_id := tid t\<rparr>])"
      "dom m \<subseteq> fst ` set ds - insert k A" "inj_on m (dom m)"
      "\<forall>k i. m k = Some i \<longrightarrow> (\<exists>t \<in> set ts. tid t = i \<and> (\<exists>d. (k, d) \<in> set ds \<and> good_match d t))"
      using Cons.IH [of "insert k A" "objs[k := (objs ! k)\<lparr>track_id := tid t\<rparr>]"] Cons.prems by auto
    have mk: "m k = None" using m(2) by auto
    have new: "m j \<noteq> Some (tid t)" for j
    proof
      assume "m j = Some (tid t)"
      then obtain t' where "t' \<in> set ts" "tid t' = tid t" using m(4) by blast
      then show False using Cons.prems by (metis distinct.simps(2) imageI list.simps(9) set_map)
    qed
    have "inj_on (m(k \<mapsto> tid t)) (dom (m(k \<mapsto> tid t)))"
      using m(3) new mk by (auto simp: inj_on_def dom_def; metis)
    moreover have "dom (m(k \<mapsto> tid t)) \<subseteq> fst ` set ds - A" using m(2) good by (auto intro: rev_image_eqI)
    moreover have "assign_tracks ds (t # ts) A objs = apply_ids (m(k \<mapsto> tid t)) objs"
      using Some m(1) apply_ids_update [of m k objs "tid t", OF mk] by simp
    moreover have "\<exists>t' \<in> set (t # ts). tid t' = i \<and> (\<exists>d. (k', d) \<in> set ds \<and> good_match d t')"
      if "(m(k \<mapsto> tid t)) k' = Some i" for k' i
      using that good m(4) by (cases "k' = k") auto
    ultimately show ?thesis by blast
  qed
qed

lemma in_grouped: "(k, d) \<in> set (grouped objs l) \<longleftrightarrow> k < length objs \<and> d = objs ! k \<and> label_name d = l"
  by (auto simp: grouped_def in_set_enumerate_eq)

section \<open>The invariant of the processor\<close>

definition proc_inv :: "('f, 'c) tracker_processor \<Rightarrow> bool" where
  "proc_inv p \<longleftrightarrow>
     1 \<le> next_track_id p \<and>
     (\<forall>l \<in> track_labels p. \<exists>b. trackers p l = Some b \<and> bt_inv (next_track_id p) b \<and> (\<forall>i \<in> set (ids b). 1 \<le> i)) \<and>
     (\<forall>l \<in> track_labels p. \<forall>l' \<in> track_labels p. l \<noteq> l' \<longrightarrow>
        set (ids (the (trackers p l))) \<inter> set (ids (the (trackers p l'))) = {})"

lemma proc_invD:
  "proc_inv p \<Longrightarrow> l \<in> track_labels p \<Longrightarrow>
   \<exists>b. trackers p l = Some b \<and> bt_inv (next_track_id p) b \<and> (\<forall>i \<in> set (ids b). 1 \<le> i)"
  unfolding proc_inv_def by (elim conjE) (erule bspec)

lemma proc_inv_the:
  "proc_inv p \<Longrightarrow> l \<in> track_labels p \<Longrightarrow> trackers p l = Some b \<Longrightarrow>
   bt_inv (next_track_id p) b \<and> (\<forall>i \<in> set (ids b). 1 \<le> i)"
  using proc_invD by fastforce

lemma proc_inv_disjoint:
  assumes "proc_inv p" "l \<in> track_labels p" "l' \<in> track_labels p" "l \<noteq> l'"
    and "trackers p l = Some b" "trackers p l' = Some c"
  shows "set (ids b) \<inter> set (ids c) = {}"
proof -
  have "set (ids (the (trackers p l))) \<inter> set (ids (the (trackers p l'))) = {}"
    using assms(1-4) unfolding proc_inv_def by (elim conjE) (drule bspec, assumption, drule bspec, assumption, simp)
  then show ?thesis using assms(5,6) by simp
qed

lemma proc_inv_update:
  assumes inv: "proc_inv p" and l: "l \<in> track_labels p" "trackers p l = Some b"
    and u: "update kf solve ds (next_track_id p) b = (b', nx, out)"
  shows "proc_inv (p\<lparr>trackers := (trackers p)(l := Some b'), next_track_id := nx\<rparr>)"
proof -
  have b: "bt_inv (next_track_id p) b" "\<forall>i \<in> set (ids b). 1 \<le> i" using proc_inv_the [OF inv l] by auto
  note spec = update_spec [OF b(1) u]
  note ids' = update_ids [OF b(1) u]
  have other: "\<exists>c. trackers p l' = Some c \<and> bt_inv nx c \<and> (\<forall>i \<in> set (ids c). 1 \<le> i) \<and> set (ids b') \<inter> set (ids c) = {}"
    if l': "l' \<in> track_labels p" "l' \<noteq> l" for l'
  proof -
    obtain c where c: "trackers p l' = Some c" "bt_inv (next_track_id p) c" "\<forall>i \<in> set (ids c). 1 \<le> i"
      using proc_invD [OF inv l'(1)] by blast
    have "set (ids b) \<inter> set (ids c) = {}" using proc_inv_disjoint [OF inv l(1) l'(1) _ l(2) c(1)] l'(2) by blast
    moreover have "\<forall>i \<in> set (ids c). i < next_track_id p" using c(2) by (simp add: bt_inv_def)
    ultimately have "set (ids b') \<inter> set (ids c) = {}" using ids' by fastforce
    moreover have "bt_inv nx c" using bt_inv_mono [OF c(2)] spec by blast
    ultimately show ?thesis using c(1,3) by blast
  qed
  let ?p = "p\<lparr>trackers := (trackers p)(l := Some b'), next_track_id := nx\<rparr>"
  have one: "1 \<le> next_track_id p" using inv by (simp add: proc_inv_def)
  show ?thesis unfolding proc_inv_def
  proof (intro conjI ballI impI)
    show "1 \<le> next_track_id ?p" using one spec by simp
  next
    fix l' assume "l' \<in> track_labels ?p"
    then have l': "l' \<in> track_labels p" by simp
    have "\<forall>i \<in> set (ids b'). 1 \<le> i" using ids' b(2) one by fastforce
    then show "\<exists>c. trackers ?p l' = Some c \<and> bt_inv (next_track_id ?p) c \<and> (\<forall>i \<in> set (ids c). 1 \<le> i)"
      using other [OF l'] spec by (cases "l' = l") auto
  next
    fix l1 l2 assume a: "l1 \<in> track_labels ?p" "l2 \<in> track_labels ?p" "l1 \<noteq> l2"
    show "set (ids (the (trackers ?p l1))) \<inter> set (ids (the (trackers ?p l2))) = {}"
    proof (cases "l1 = l \<or> l2 = l")
      case True
      then show ?thesis using a other [of l1] other [of l2] by (auto simp: disjoint_iff)
    next
      case False
      obtain b1 b2 where "trackers p l1 = Some b1" "trackers p l2 = Some b2"
        using a proc_invD [OF inv, of l1] proc_invD [OF inv, of l2] by auto
      then show ?thesis using False a proc_inv_disjoint [OF inv _ _ a(3)] by simp
    qed
  qed
qed

lemma inj_on_map_add:
  assumes i: "inj_on m1 (dom m1)" "inj_on m2 (dom m2)"
    and d: "\<And>k k' i. m1 k = Some i \<Longrightarrow> m1 k \<noteq> m2 k'"
  shows "inj_on (m1 ++ m2) (dom (m1 ++ m2))"
proof (rule inj_onI)
  fix x y assume a: "x \<in> dom (m1 ++ m2)" "y \<in> dom (m1 ++ m2)" "(m1 ++ m2) x = (m1 ++ m2) y"
  show "x = y"
  proof (cases "m2 x"; cases "m2 y")
    assume "m2 x = None" "m2 y = None"
    then show "x = y" using a inj_onD [OF i(1), of x y] by (auto simp: map_add_def domIff)
  next
    fix j assume "m2 x = None" "m2 y = Some j"
    then show "x = y" using a d [of x _ y] by (auto simp: map_add_def)
  next
    fix j assume "m2 x = Some j" "m2 y = None"
    then show "x = y" using a d [of y _ x] by (auto simp: map_add_def)
  next
    fix j j' assume "m2 x = Some j" "m2 y = Some j'"
    then show "x = y" using a inj_onD [OF i(2), of x y] by (auto simp: map_add_def domIff)
  qed
qed

text \<open>What a pass over the labels \<open>ls\<close> does.\<close>

definition pass_ok ::
    "string list \<Rightarrow> 'f object list \<Rightarrow> ('f::{zero,one,plus,minus,times,inverse,ord}, 'c) tracker_processor \<Rightarrow>
     (nat \<Rightarrow> int option) \<Rightarrow> bool" where
  "pass_ok ls objs p' m \<longleftrightarrow>
     inj_on m (dom m) \<and>
     (\<forall>k i. m k = Some i \<longrightarrow> k < length objs \<and> label_name (objs ! k) \<in> set ls \<and>
        (\<exists>b t. trackers p' (label_name (objs ! k)) = Some b \<and> t \<in> set (tracked_stracks b) \<and> tid t = i \<and>
           good_match (objs ! k) t))"

lemma pass_okD:
  assumes "pass_ok ls objs p' m" "m k = Some i"
  shows "k < length objs" "label_name (objs ! k) \<in> set ls"
    "\<exists>b t. trackers p' (label_name (objs ! k)) = Some b \<and> t \<in> set (tracked_stracks b) \<and> tid t = i \<and>
       good_match (objs ! k) t"
  using assms unfolding pass_ok_def by blast+

lemma good_match_rect: "rect a = rect b \<Longrightarrow> good_match a t = good_match b t"
  by (simp add: good_match_def)

lemma process_labels_spec:
  assumes "proc_inv p" "distinct ls" "set ls \<subseteq> track_labels p"
  shows "\<exists>p' m. process_labels kf solve ls p objs = Some (p', apply_ids m objs) \<and> proc_inv p' \<and>
    track_labels p' = track_labels p \<and> (\<forall>l. l \<notin> set ls \<longrightarrow> trackers p' l = trackers p l) \<and> pass_ok ls objs p' m"
  using assms
proof (induction ls arbitrary: p objs)
  case Nil
  then show ?case by (intro exI [of _ p] exI [of _ Map.empty]) (simp add: pass_ok_def)
next
  case (Cons l ls)
  obtain b where b: "trackers p l = Some b" "bt_inv (next_track_id p) b"
    using Cons.prems(3) proc_invD [OF Cons.prems(1), of l] by auto
  let ?ds = "grouped objs l"
  obtain b' nx out where u: "update kf solve (map snd ?ds) (next_track_id p) b = (b', nx, out)"
    by (metis prod_cases3)
  let ?p = "p\<lparr>trackers := (trackers p)(l := Some b'), next_track_id := nx\<rparr>"
  note spec = update_spec [OF b(2) u]
  have out: "out = tracked_stracks b'" "distinct (map tid out)"
    using spec by (simp_all add: bt_inv_def ids_def)
  obtain m1 where m1: "assign_tracks ?ds out {} objs = apply_ids m1 objs" "dom m1 \<subseteq> fst ` set ?ds"
    "inj_on m1 (dom m1)"
    "\<forall>k i. m1 k = Some i \<longrightarrow> (\<exists>t \<in> set out. tid t = i \<and> (\<exists>d. (k, d) \<in> set ?ds \<and> good_match d t))"
    using assign_tracks_spec [OF out(2), of ?ds "{}" objs] by auto
  have inv1: "proc_inv ?p" using proc_inv_update [OF Cons.prems(1) _ b(1) u] Cons.prems(3) by simp
  obtain p' m2 where r: "process_labels kf solve ls ?p (apply_ids m1 objs) = Some (p', apply_ids m2 (apply_ids m1 objs))"
    "proc_inv p'" "track_labels p' = track_labels p" "\<forall>l'. l' \<notin> set ls \<longrightarrow> trackers p' l' = trackers ?p l'"
    "pass_ok ls (apply_ids m1 objs) p' m2"
    using Cons.IH [OF inv1, of "apply_ids m1 objs"] Cons.prems by auto
  have v1: "k < length objs \<and> label_name (objs ! k) = l \<and>
      (\<exists>t. trackers p' l = Some b' \<and> t \<in> set (tracked_stracks b') \<and> tid t = i \<and> good_match (objs ! k) t)"
    if "m1 k = Some i" for k i
    using m1(4) that r(4) Cons.prems(2) out(1) by (fastforce simp: in_grouped)
  have v2: "k < length objs \<and> label_name (objs ! k) \<in> set ls \<and>
      (\<exists>b t. trackers p' (label_name (objs ! k)) = Some b \<and> t \<in> set (tracked_stracks b) \<and> tid t = i \<and>
         good_match (objs ! k) t)"
    if "m2 k = Some i" for k i
  proof -
    have k: "k < length objs" using pass_okD(1) [OF r(5) that] by simp
    have f: "label_name (apply_ids m1 objs ! k) = label_name (objs ! k)"
      "\<And>t. good_match (apply_ids m1 objs ! k) t = good_match (objs ! k) t"
      using apply_ids_fields [OF k, of m1] good_match_rect [of "apply_ids m1 objs ! k" "objs ! k"] by simp_all
    show ?thesis using pass_okD [OF r(5) that] k unfolding f by blast
  qed
  have dis: "dom m1 \<inter> dom m2 = {}" using v1 v2 Cons.prems(2) by fastforce
  have inj: "inj_on (m1 ++ m2) (dom (m1 ++ m2))"
  proof -
    have "m1 k \<noteq> m2 k'" if k: "m1 k = Some i" for k k' i
    proof
      assume "m1 k = m2 k'"
      then have k': "m2 k' = Some i" using k by simp
      obtain t where t: "trackers p' l = Some b'" "t \<in> set (tracked_stracks b')" "tid t = i"
        using v1 [OF k] by blast
      obtain c t' where t': "label_name (objs ! k') \<in> set ls" "trackers p' (label_name (objs ! k')) = Some c"
        "t' \<in> set (tracked_stracks c)" "tid t' = i"
        using v2 [OF k'] by blast
      have lab: "l \<in> track_labels p'" "label_name (objs ! k') \<in> track_labels p'" "l \<noteq> label_name (objs ! k')"
        using Cons.prems t'(1) r(3) by auto
      have "set (ids b') \<inter> set (ids c) = {}" using proc_inv_disjoint [OF r(2) lab t(1) t'(2)] .
      moreover have "i \<in> set (ids b')" "i \<in> set (ids c)"
        using t t' unfolding ids_def by (auto intro: rev_image_eqI)
      ultimately show False by blast
    qed
    moreover have "inj_on m2 (dom m2)" using r(5) by (simp add: pass_ok_def)
    ultimately show ?thesis using m1(3) by (intro inj_on_map_add) auto
  qed
  have "pass_ok (l # ls) objs p' (m1 ++ m2)"
    unfolding pass_ok_def
  proof (intro conjI allI impI inj)
    fix k i assume "(m1 ++ m2) k = Some i"
    then consider "m2 k = Some i" | "m1 k = Some i" by (auto simp: map_add_Some_iff)
    then show "k < length objs" "label_name (objs ! k) \<in> set (l # ls)"
      "\<exists>b t. trackers p' (label_name (objs ! k)) = Some b \<and> t \<in> set (tracked_stracks b) \<and> tid t = i \<and>
         good_match (objs ! k) t"
      using v1 v2 by (cases; fastforce)+
  qed
  moreover have "process_labels kf solve (l # ls) p objs = Some (p', apply_ids (m1 ++ m2) objs)"
    using r(1) by (simp add: b(1) u m1(1) apply_ids_comp [OF dis])
  ultimately show ?case using r by (intro exI [of _ p'] exI [of _ "m1 ++ m2"]) auto
qed

section \<open>After a successful Init\<close>

lemma read_labels_valid:
  "read_labels y ns ls = (True, ls') \<Longrightarrow>
   ls' = ls \<union> {l. \<exists>n \<in> set ns. as_string y n = Some l} \<and> (\<forall>l \<in> ls' - ls. is_valid_label_name l)"
proof (induction ns arbitrary: ls)
  case Nil
  then show ?case by simp
next
  case (Cons n ns)
  then show ?case by (fastforce split: option.splits if_splits)
qed

lemma read_labels_finite: "finite ls \<Longrightarrow> finite (snd (read_labels y ns ls))"
  by (induction ns arbitrary: ls) (auto split: option.split)

lemma shutdown_fields [op_simps]:
  "trackers (processor_shutdown p) = (\<lambda>_. None)" "track_labels (processor_shutdown p) = {}"
  "next_track_id (processor_shutdown p) = 1"
  by (simp_all add: processor_shutdown_def)

lemma init_success:
  assumes "processor_init y of_i to_i params_yaml p = (p', 0)"
  shows "\<exists>cfg. config_ok cfg \<and> next_track_id p' = 1 \<and> track_labels p' \<noteq> {} \<and> finite (track_labels p') \<and>
    (\<forall>l \<in> track_labels p'. is_valid_label_name l) \<and>
    trackers p' = (\<lambda>l. if l \<in> track_labels p' then Some (byte_tracker_new of_i to_i cfg) else None)"
proof -
  let ?p0 = "processor_shutdown p"
  obtain params where params: "init_params y of_i to_i params ?p0 = (p', 0)"
    using assms by (auto simp: processor_init_def kInvalidConfig_def Let_def split: option.splits)
  obtain labels where labels: "items y labels \<noteq> []"
    "(let (ok, ls) = read_labels y (items y labels) (track_labels ?p0); p1 = ?p0\<lparr>track_labels := ls\<rparr>
      in if \<not> ok then (p1, kInvalidConfig)
         else (case read_config y params of
                 None \<Rightarrow> (processor_shutdown p1, kInvalidConfig)
               | Some cfg \<Rightarrow> if \<not> config_ok cfg then (p1, kInvalidConfig)
                   else (p1\<lparr>trackers := (\<lambda>l. if l \<in> ls then Some (byte_tracker_new of_i to_i cfg) else trackers p1 l),
                            next_track_id := 1\<rparr>, 0))) = (p', 0)"
    using params by (auto simp: init_params_def kInvalidConfig_def split: if_splits option.splits)
  obtain ls cfg where r: "read_labels y (items y labels) {} = (True, ls)" "config_ok cfg"
    "p' = ?p0\<lparr>track_labels := ls, trackers := (\<lambda>l. if l \<in> ls then Some (byte_tracker_new of_i to_i cfg) else None),
            next_track_id := 1\<rparr>"
    using labels(2)
    by (auto simp: kInvalidConfig_def Let_def op_simps cong del: if_weak_cong
        split: prod.splits if_splits option.splits)
  have "ls \<noteq> {}"
    using labels(1) r(1) by (cases "items y labels") (auto dest!: read_labels_valid split: option.splits if_splits)
  moreover have "finite ls" using read_labels_finite [of "{}" y "items y labels"] r(1) by simp
  ultimately show ?thesis using r read_labels_valid [OF r(1)] by (intro exI [of _ cfg]) auto
qed

lemma init_proc_inv: "processor_init y of_i to_i params_yaml p = (p', 0) \<Longrightarrow> proc_inv p'"
  by (drule init_success) (auto simp: proc_inv_def bt_inv_new ids_def byte_tracker_new_def bt_inv_def)

fun process_frames ::
    "(string set \<Rightarrow> string list) \<Rightarrow> ('f::{zero,one,plus,minus,times,inverse,ord}, 'c) kalman \<Rightarrow> 'f solver \<Rightarrow>
     'f object list list \<Rightarrow> ('f, 'c) tracker_processor \<Rightarrow> ('f, 'c) tracker_processor option" where
  "process_frames iter kf solve [] p = Some p"
| "process_frames iter kf solve (objs # fs) p =
     (case processor_process iter kf solve p objs of
        None \<Rightarrow> None
      | Some (p', _) \<Rightarrow> process_frames iter kf solve fs p')"

lemma processor_process_spec:
  assumes "proc_inv p" "distinct (iter (track_labels p))" "set (iter (track_labels p)) = track_labels p"
  shows "\<exists>p' m. processor_process iter kf solve p objs =
      Some (p', apply_ids m (map (\<lambda>ob. ob\<lparr>track_id := - 1\<rparr>) objs)) \<and> proc_inv p' \<and>
    track_labels p' = track_labels p \<and> pass_ok (iter (track_labels p)) (map (\<lambda>ob. ob\<lparr>track_id := - 1\<rparr>) objs) p' m"
  using process_labels_spec [OF assms(1,2), of kf solve] assms(3) unfolding processor_process_def by blast

lemma process_frames_spec:
  assumes "proc_inv p" "distinct (iter (track_labels p))" "set (iter (track_labels p)) = track_labels p"
  shows "\<exists>p'. process_frames iter kf solve fs p = Some p' \<and> proc_inv p' \<and> track_labels p' = track_labels p"
  using assms
proof (induction fs arbitrary: p)
  case Nil
  then show ?case by simp
next
  case (Cons objs fs)
  obtain p1 m where "processor_process iter kf solve p objs =
      Some (p1, apply_ids m (map (\<lambda>ob. ob\<lparr>track_id := - 1\<rparr>) objs))" "proc_inv p1" "track_labels p1 = track_labels p"
    using processor_process_spec [of p iter kf solve objs] Cons.prems by blast
  then show ?case using Cons.IH [of p1] Cons.prems by simp
qed

lemma assigned_ids_distinct:
  assumes "inj_on m (dom m)"
  shows "distinct (filter (\<lambda>i. i \<noteq> - 1) (map (\<lambda>k. case m k of None \<Rightarrow> - 1 | Some i \<Rightarrow> (i::int)) [0..<n]))"
proof -
  let ?f = "\<lambda>k. case m k of None \<Rightarrow> - 1 | Some i \<Rightarrow> i"
  have "filter (\<lambda>i. i \<noteq> - 1) (map ?f [0..<n]) = map ?f (filter (\<lambda>k. ?f k \<noteq> - 1) [0..<n])"
    by (simp add: filter_map comp_def)
  moreover have "inj_on ?f {k. ?f k \<noteq> - 1}"
    using assms by (auto simp: inj_on_def dom_def split: option.splits)
  ultimately show ?thesis by (simp add: distinct_map inj_on_def)
qed

section \<open>Properties\<close>

text \<open>C9. After a successful \<open>Init\<close> the processor never fails on a frame, whatever frames came before: it
  changes nothing but track ids, an object whose label is not tracked gets \<open>-1\<close>, and two objects of the
  frame with the same label or different ones never share an id.\<close>

theorem frame_ids_exclusive:
  fixes objs :: "'f::{zero,one,plus,minus,times,inverse,ord} object list"
  assumes init: "processor_init y of_i to_i params_yaml p = (p0, 0)"
    and iter: "distinct (iter (track_labels p0))" "set (iter (track_labels p0)) = track_labels p0"
  shows "\<exists>p1 p2 objs'. process_frames iter kf solve fs p0 = Some p1 \<and>
    processor_process iter kf solve p1 objs = Some (p2, objs') \<and>
    map (\<lambda>ob. ob\<lparr>track_id := 0\<rparr>) objs' = map (\<lambda>ob. ob\<lparr>track_id := 0\<rparr>) objs \<and>
    (\<forall>ob \<in> set objs'. label_name ob \<notin> track_labels p0 \<longrightarrow> track_id ob = - 1) \<and>
    distinct (filter (\<lambda>i. i \<noteq> - 1) (map track_id objs'))"
proof -
  note inv0 = init_proc_inv [OF init]
  note it = iter
  obtain p1 where p1: "process_frames iter kf solve fs p0 = Some p1" "proc_inv p1" "track_labels p1 = track_labels p0"
    using process_frames_spec [where iter = iter, OF inv0 it] by blast
  let ?objs = "map (\<lambda>ob. ob\<lparr>track_id := - 1\<rparr>) objs"
  obtain p2 m where p2: "processor_process iter kf solve p1 objs = Some (p2, apply_ids m ?objs)" "proc_inv p2"
    "pass_ok (iter (track_labels p1)) ?objs p2 m"
    using processor_process_spec [OF p1(2), of iter kf solve objs] it p1(3) by auto
  have same: "map (\<lambda>ob. ob\<lparr>track_id := 0\<rparr>) (apply_ids m ?objs) = map (\<lambda>ob. ob\<lparr>track_id := 0\<rparr>) objs"
    by (intro nth_equalityI) (auto simp: apply_ids_nth split: option.split)
  have ids: "track_id (apply_ids m ?objs ! k) = (case m k of None \<Rightarrow> - 1 | Some i \<Rightarrow> i)" if "k < length objs" for k
    using that by (simp add: apply_ids_nth split: option.split)
  have untracked: "\<forall>ob \<in> set (apply_ids m ?objs). label_name ob \<notin> track_labels p0 \<longrightarrow> track_id ob = - 1"
  proof (intro ballI impI)
    fix ob assume "ob \<in> set (apply_ids m ?objs)" and l: "label_name ob \<notin> track_labels p0"
    then obtain k where k: "k < length objs" "ob = apply_ids m ?objs ! k" by (auto simp: in_set_conv_nth)
    have "m k = None"
    proof (rule ccontr)
      assume "m k \<noteq> None"
      then obtain i where "m k = Some i" by blast
      from pass_okD(2) [OF p2(3) this] show False
        using l k it p1(3) apply_ids_fields [of k ?objs m] by simp
    qed
    then show "track_id ob = - 1" using ids k by simp
  qed
  have "distinct (filter (\<lambda>i. i \<noteq> - 1) (map (\<lambda>k. case m k of None \<Rightarrow> - 1 | Some i \<Rightarrow> i) [0..<length objs]))"
    using p2(3) by (intro assigned_ids_distinct) (simp add: pass_ok_def)
  moreover have "map track_id (apply_ids m ?objs) = map (\<lambda>k. case m k of None \<Rightarrow> - 1 | Some i \<Rightarrow> i) [0..<length objs]"
    by (intro nth_equalityI) (simp_all add: ids)
  ultimately show ?thesis using p1(1) p2(1) same untracked by auto
qed

text \<open>A library, a filter and a solver to run the definitions with.\<close>

definition demo_yaml :: "int \<Rightarrow> (nat, rat) yaml_lib" where
  "demo_yaml rate =
     \<lparr>yaml_load = (\<lambda>_. Some 0), is_map = (\<lambda>n. n = 0), is_sequence = (\<lambda>n. n = 2),
      entries = (\<lambda>_. [(4, 1), (5, 2), (6, 7)]), items = (\<lambda>_. [3]),
      lookup = (\<lambda>_ k. if k = ''algorithm'' then Some 1 else if k = ''track_labels'' then Some 2
                      else if k = ''frame_rate'' then Some 7 else None),
      as_string = (\<lambda>n. if n = 1 then Some ''bytetrack'' else if n = 3 then Some ''person''
                       else if n = 4 then Some ''algorithm'' else if n = 5 then Some ''track_labels''
                       else if n = 6 then Some ''frame_rate'' else None),
      as_int = (\<lambda>n. if n = 7 then Some rate else None), as_float = (\<lambda>_. None)\<rparr>"

definition demo_kalman :: "(rat, unit) kalman" where
  "demo_kalman =
     \<lparr>initiate = (\<lambda>z. (z @ [0, 0, 0, 0], ())), kf_update = (\<lambda>m c z. (z @ drop 4 m, ())),
      predict = (\<lambda>m c. (m, c))\<rparr>"

definition demo_solver :: "rat solver" where
  "demo_solver n c = (0, int, int)"

definition demo_object :: "rat \<Rightarrow> string \<Rightarrow> rat object" where
  "demo_object x l =
     \<lparr>rect = \<lparr>rx = x, ry = 0, rwidth = 10, rheight = 10\<rparr>, label = 0, prob = 9 / 10, landmark = [],
      mask_feat = [], kps_feat = [], angle = 0, model_name = [], label_name = l, track_id = 0\<rparr>"

lemma demo_init:
  "snd (processor_init (demo_yaml 25) of_int floor [] (processor_new :: (rat, unit) tracker_processor)) = 0"
  "track_labels (fst (processor_init (demo_yaml 25) of_int floor [] (processor_new :: (rat, unit) tracker_processor))) =
   {''person''}"
  by (simp_all add: processor_init_def demo_yaml_def init_params_def read_config_def read_optional_def
      default_config_def config_ok_def valid_threshold_def processor_shutdown_def processor_new_def
      is_valid_label_name_def trim_def isspace_def is_yaml_numeric_def skip_sign_def tolower_def
      is_decimal_def is_base_digit_def kInvalidConfig_def numeral_eq_Suc)

definition demo_processor :: "(rat, unit) tracker_processor" where
  "demo_processor = fst (processor_init (demo_yaml 25) of_int floor [] processor_new)"

lemma demo_processor_init:
  "processor_init (demo_yaml 25) of_int floor [] (processor_new :: (rat, unit) tracker_processor) = (demo_processor, 0)"
  using demo_init(1) by (simp add: demo_processor_def prod_eq_iff)

lemma frame_ids_exclusive_witness:
  "\<exists>p1 p2 objs'. process_frames (\<lambda>_. [''person'']) demo_kalman demo_solver [[demo_object 0 ''person'']] demo_processor = Some p1 \<and>
    processor_process (\<lambda>_. [''person'']) demo_kalman demo_solver p1 [demo_object 1 ''person'', demo_object 50 ''car''] =
      Some (p2, objs') \<and>
    map (\<lambda>ob. ob\<lparr>track_id := 0\<rparr>) objs' =
      map (\<lambda>ob. ob\<lparr>track_id := 0\<rparr>) [demo_object 1 ''person'', demo_object 50 ''car''] \<and>
    (\<forall>ob \<in> set objs'. label_name ob \<notin> track_labels demo_processor \<longrightarrow> track_id ob = - 1) \<and>
    distinct (filter (\<lambda>i. i \<noteq> - 1) (map track_id objs'))"
  by (rule frame_ids_exclusive [OF demo_processor_init]) (simp_all add: demo_processor_def demo_init(2))

lemma demo_run:
  "map_option (\<lambda>r. map track_id (snd r))
     (processor_process (\<lambda>_. [''person'']) demo_kalman demo_solver demo_processor
        [demo_object 0 ''person'', demo_object 50 ''car'', demo_object 99 ''person'']) = Some [1, - 1, 2]"
  by code_simp

text \<open>An object gets an id only from a current track of its own label that it overlaps: the
  intersection over union of its box and the track's is at least \<open>kMinimumAssignmentIou\<close>. The one law
  used is that comparison is transitive, which IEEE comparison is.\<close>

theorem assigned_ids_overlap:
  fixes objs :: "'f::{zero,one,plus,minus,times,inverse,ord} object list"
  assumes init: "processor_init y of_i to_i params_yaml p = (p0, 0)"
    and iter: "distinct (iter (track_labels p0))" "set (iter (track_labels p0)) = track_labels p0"
    and trans: "transp ((\<le>) :: 'f \<Rightarrow> 'f \<Rightarrow> bool)"
    and run: "process_frames iter kf solve fs p0 = Some p1"
      "processor_process iter kf solve p1 objs = Some (p2, objs')"
    and ob: "ob \<in> set objs'" "track_id ob \<noteq> - 1"
  shows "\<exists>b t. trackers p2 (label_name ob) = Some b \<and> t \<in> set (tracked_stracks b) \<and> tid t = track_id ob \<and>
    kMinimumAssignmentIou \<le> intersection_over_union (rect ob) (tlbr t)"
proof -
  have p1: "proc_inv p1" "track_labels p1 = track_labels p0"
    using process_frames_spec [where iter = iter, OF init_proc_inv [OF init] iter, of kf solve fs] run(1) by auto
  let ?objs = "map (\<lambda>ob. ob\<lparr>track_id := - 1\<rparr>) objs"
  obtain m where m: "objs' = apply_ids m ?objs" "pass_ok (iter (track_labels p1)) ?objs p2 m"
    using processor_process_spec [of p1 iter kf solve objs] iter p1 run(2) by auto
  obtain k where k: "k < length objs" "ob = apply_ids m ?objs ! k" using ob(1) m(1) by (auto simp: in_set_conv_nth)
  obtain i where i: "m k = Some i" "track_id ob = i"
    using ob(2) k by (auto simp: apply_ids_nth split: option.splits)
  have f: "label_name ob = label_name (?objs ! k)" "rect ob = rect (?objs ! k)"
    using apply_ids_fields [of k ?objs m] k by simp_all
  show ?thesis using pass_okD(3) [OF m(2) i(1)] trans i(2) unfolding good_match_def f by metis
qed

lemma assigned_ids_overlap_witness:
  "\<exists>p2 objs' b t. processor_process (\<lambda>_. [''person'']) demo_kalman demo_solver demo_processor
      [demo_object 0 ''person''] = Some (p2, objs') \<and>
    trackers p2 (label_name (hd objs')) = Some b \<and> t \<in> set (tracked_stracks b) \<and> tid t = 1 \<and>
    kMinimumAssignmentIou \<le> intersection_over_union (rect (hd objs')) (tlbr t)"
proof -
  have run: "map_option (\<lambda>r. map track_id (snd r))
     (processor_process (\<lambda>_. [''person'']) demo_kalman demo_solver demo_processor [demo_object 0 ''person'']) = Some [1]"
    by code_simp
  then obtain p2 objs' where r: "processor_process (\<lambda>_. [''person'']) demo_kalman demo_solver demo_processor
      [demo_object 0 ''person''] = Some (p2, objs')" "map track_id objs' = [1]"
    by auto
  then have hd: "hd objs' \<in> set objs'" "track_id (hd objs') = 1" by (cases objs'; simp)+
  have "\<exists>b t. trackers p2 (label_name (hd objs')) = Some b \<and> t \<in> set (tracked_stracks b) \<and>
      tid t = track_id (hd objs') \<and> kMinimumAssignmentIou \<le> intersection_over_union (rect (hd objs')) (tlbr t)"
    by (rule assigned_ids_overlap [OF demo_processor_init, where iter = "\<lambda>_. [''person'']" and fs = "[]" and
        kf = demo_kalman and solve = demo_solver])
      (use r hd in \<open>auto simp: demo_processor_def demo_init(2) intro: transpI\<close>)
  then show ?thesis using r hd by auto
qed

text \<open>\<open>Init\<close> either succeeds with a nonempty set of valid label names, each with a fresh tracker over
  thresholds in range, or returns \<open>kInvalidConfig\<close>.\<close>

theorem init_complete_or_invalid:
  "case processor_init y of_i to_i params_yaml p of (p', r) \<Rightarrow>
     r = kInvalidConfig \<or>
     r = 0 \<and> next_track_id p' = 1 \<and> track_labels p' \<noteq> {} \<and> Set.filter is_valid_label_name (track_labels p') = track_labels p' \<and>
     (\<exists>cfg. config_ok cfg \<and>
        trackers p' = (\<lambda>l. if l \<in> track_labels p' then Some (byte_tracker_new of_i to_i cfg) else None))"
proof -
  obtain p' r where pr: "processor_init y of_i to_i params_yaml p = (p', r)" by fastforce
  have "r = 0 \<or> r = kInvalidConfig"
    using pr by (auto simp: processor_init_def init_params_def Let_def split: option.splits if_splits prod.splits)
  then show ?thesis using init_success [of y of_i to_i params_yaml p p'] pr by auto
qed

text \<open>What a failed \<open>Init\<close> leaves behind: when every label is read and a number is out of range, the
  labels stay without trackers, and the next \<open>Process\<close> ends in the exception of \<open>trackers_.at\<close>.\<close>

theorem failed_init_breaks_process:
  assumes "yaml_load y params_yaml = Some params" "is_map y params" "keys_ok y {} (entries y params)"
    and "Option.bind (lookup y params ''algorithm'') (as_string y) = Some ''bytetrack''"
    and "lookup y params ''track_labels'' = Some labels" "is_sequence y labels" "items y labels \<noteq> []"
    and "read_labels y (items y labels) {} = (True, ls)"
    and "read_config y params = Some (cfg :: 'f::{zero,one,plus,minus,times,inverse,ord} byte_tracker_config)"
    and "\<not> config_ok cfg" and iter: "iter ls \<noteq> []"
  shows "case processor_init y of_i to_i params_yaml p of (p', r) \<Rightarrow>
     r = kInvalidConfig \<and> track_labels p' = ls \<and> processor_process iter kf solve p' objs = None"
proof -
  have "processor_init y of_i to_i params_yaml p = ((processor_shutdown p)\<lparr>track_labels := ls\<rparr>, kInvalidConfig)"
    using assms(1-10) by (simp add: processor_init_def init_params_def op_simps)
  moreover obtain l rest where "iter ls = l # rest" using iter by (cases "iter ls") auto
  ultimately show ?thesis by (simp add: processor_process_def op_simps)
qed

lemma failed_init_breaks_process_witness:
  "case processor_init (demo_yaml 0) of_int floor [] (processor_new :: (rat, unit) tracker_processor) of (p', r) \<Rightarrow>
     r = kInvalidConfig \<and> track_labels p' = {''person''} \<and>
     processor_process (\<lambda>_. [''person'']) demo_kalman demo_solver p' [demo_object 0 ''person''] = None"
  by (rule failed_init_breaks_process [where y = "demo_yaml 0" and params = 0 and labels = 2 and ls = "{''person''}" and
      cfg = "the (read_config (demo_yaml 0) 0)"])
    (simp_all add: demo_yaml_def read_config_def read_optional_def
      default_config_def config_ok_def valid_threshold_def
      is_valid_label_name_def trim_def isspace_def is_yaml_numeric_def skip_sign_def tolower_def
      is_decimal_def is_base_digit_def)

section \<open>Which names are labels\<close>

lemma trim_padded:
  assumes "list_all isspace pre" "list_all isspace post" "w \<noteq> []" "\<not> isspace (hd w)" "\<not> isspace (last w)"
  shows "trim (pre @ w @ post) = w"
proof -
  have "dropWhile isspace (pre @ w @ post) = w @ post"
    using assms by (cases w) (auto simp: list_all_iff dropWhile_append3)
  moreover have "dropWhile isspace (rev post @ rev w) = rev w"
    using assms by (cases w rule: rev_cases) (auto simp: list_all_iff dropWhile_append3)
  ultimately show ?thesis by (simp add: trim_def)
qed

definition is_digit :: "char \<Rightarrow> bool" where
  "is_digit c \<longleftrightarrow> (let n = of_char c :: nat in 48 \<le> n \<and> n \<le> 57)"

lemma digit_base10: "is_digit c \<Longrightarrow> is_base_digit c 10"
  by (auto simp: is_digit_def is_base_digit_def Let_def)

lemma mantissa_digits: "list_all is_digit s \<Longrightarrow> mantissa b s = (b \<or> s \<noteq> [], [])"
proof (induction s arbitrary: b)
  case (Cons c s)
  then have "c \<noteq> CHR ''_''" by (auto simp: is_digit_def)
  then show ?case using Cons digit_base10 [of c] by simp
qed simp

lemma digits_decimal: "list_all is_digit s \<Longrightarrow> s \<noteq> [] \<Longrightarrow> is_decimal s"
  by (simp add: is_decimal_def mantissa_digits)

text \<open>Lower case leaves characters below the letters alone and yields none of them.\<close>

lemma tolower_low:
  assumes "(of_char (tolower c) :: nat) < 65"
  shows "tolower c = c"
proof (rule ccontr)
  assume "tolower c \<noteq> c"
  then have u: "65 \<le> (of_char c :: nat)" "(of_char c :: nat) \<le> 90" "tolower c = char_of (of_char c + 32 :: nat)"
    by (auto simp: tolower_def Let_def split: if_splits)
  then have "(of_char (tolower c) :: nat) = (of_char c + 32) mod 256" by (simp only: of_char_of)
  then show False using assms u by simp
qed

text \<open>Which names \<open>Init\<close> takes, blanks around them aside: a decimal number, signed or not, never; a
  text that starts with anything but a digit, a sign, a point or an underscore, always.\<close>

theorem label_name_rule:
  assumes pad: "list_all isspace pre" "list_all isspace post"
  shows "(list_all is_digit (c # s) \<and> sign \<in> {[], ''+'', ''-''} \<longrightarrow>
      \<not> is_valid_label_name (pre @ (sign @ c # s) @ post)) \<and>
    (\<not> is_digit c \<and> c \<notin> {CHR ''+'', CHR ''-'', CHR ''.'', CHR ''_''} \<and> \<not> isspace c \<and> \<not> isspace (last (c # s)) \<longrightarrow>
      is_valid_label_name (pre @ (c # s) @ post))"
proof (intro conjI impI)
  assume d: "list_all is_digit (c # s) \<and> sign \<in> {[], ''+'', ''-''}"
  let ?w = "sign @ c # s"
  have sp: "\<And>e. is_digit e \<Longrightarrow> \<not> isspace e" by (auto simp: is_digit_def isspace_def Let_def)
  have "is_digit (last (c # s))" using d by (metis last_in_set list.distinct(1) list_all_iff)
  then have ends: "\<not> isspace (hd ?w)" "\<not> isspace (last ?w)" using d sp by (auto simp: isspace_def)
  have t: "trim (pre @ ?w @ post) = ?w" using trim_padded [OF pad _ ends] by simp
  have skip: "skip_sign ?w = c # s" using d by (auto simp: skip_sign_def is_digit_def)
  have "is_yaml_numeric ?w"
  proof (cases s)
    case Nil
    then show ?thesis using d skip digits_decimal [of "[c]"] by (simp add: is_yaml_numeric_def)
  next
    case (Cons q cs)
    have "tolower q \<notin> {CHR ''b'', CHR ''o'', CHR ''x''}"
      using d Cons by (auto simp: tolower_def is_digit_def Let_def)
    then show ?thesis using d skip digits_decimal [of "c # s"] Cons by (simp add: is_yaml_numeric_def)
  qed
  then show "\<not> is_valid_label_name (pre @ ?w @ post)" unfolding is_valid_label_name_def t by simp
next
  assume a: "\<not> is_digit c \<and> c \<notin> {CHR ''+'', CHR ''-'', CHR ''.'', CHR ''_''} \<and> \<not> isspace c \<and> \<not> isspace (last (c # s))"
  then have t: "trim (pre @ (c # s) @ post) = c # s" using trim_padded [OF pad, of "c # s"] by simp
  have low: "tolower c \<noteq> CHR ''.''" "tolower c \<noteq> CHR ''+''" "tolower c \<noteq> CHR ''-''"
    using a tolower_low [of c] by auto
  have skip: "skip_sign (c # s) = c # s" using a by (simp add: skip_sign_def)
  have "\<not> is_base_digit c 10" using a by (auto simp: is_base_digit_def is_digit_def Let_def)
  then have "\<not> is_decimal (c # s)" using a by (simp add: is_decimal_def)
  moreover have "c \<noteq> CHR ''0''" using a by (auto simp: is_digit_def)
  ultimately have "\<not> is_yaml_numeric (c # s)"
    using low skip by (cases s) (simp_all add: is_yaml_numeric_def)
  then show "is_valid_label_name (pre @ (c # s) @ post)" unfolding is_valid_label_name_def t by simp
qed

lemma label_name_rule_witness:
  "\<not> is_valid_label_name ''  -42 '' \<and> is_valid_label_name '' person''"
  using label_name_rule [of "''  ''" "'' ''" "CHR ''4''" "''2''" "''-''"]
    label_name_rule [of "'' ''" "[]" "CHR ''p''" "''erson''" "[]"]
  by (simp add: isspace_def is_digit_def)

end
