(* ===== verification/Plugins.thy ===== *)
theory Plugins
  imports Detection
begin

text \<open>
  Loading and unloading of plugins: \<open>PostProcessorChain\<close>, \<open>PluginManager\<close> and \<open>SceneRuntime\<close> of
  \<open>plugin/\<close>. What a dynamic library does is a parameter: a function from its path to a \<open>plugin_lib\<close>.
  Every call into the dynamic linker or into a plugin is an event; instances are numbered in the order
  of creation, and a handle is known by its library's path. The specification is the monitor \<open>mon_step\<close>,
  which says in which order the calls may come.
\<close>

section \<open>Configuration and libraries\<close>

record component_config =
  cc_name :: string
  library_path :: string
  config_dir :: string
  params_yaml :: string
  api_version :: u32
  enabled :: bool

definition kPostProcessorApiVersion :: u32 where "kPostProcessorApiVersion = 1"
definition kBusinessPluginApiVersion :: u32 where "kBusinessPluginApiVersion = 1"

record plugin_lib =
  opens :: bool
  dlopen_error :: "string option"
  create_error :: "string option"
  destroy_error :: "string option"
  has_create :: bool
  has_destroy :: bool
  creates :: bool
  instance_name :: "string option"
  instance_version :: u32
  init_result :: int

datatype plug_event =
    DlOpen string
  | DlClose string
  | Created nat string bool
  | InitCalled nat int
  | Called nat
  | Quiesced nat string
  | ShutdownCalled nat
  | Destroyed nat

text \<open>A pointer to a C string, read as a \<open>std::string\<close> with a default for null.\<close>

definition text_or :: "string \<Rightarrow> string option \<Rightarrow> string" where
  "text_or d s = (case s of None \<Rightarrow> d | Some t \<Rightarrow> t)"

section \<open>The post-processor chain\<close>

record loaded =
  ld_name :: string
  ld_path :: string
  so_handle :: "string option"
  processor :: "nat option"

record chain =
  loaded_list :: "loaded list"
  last_error :: string

definition chain_new :: chain where "chain_new = \<lparr>loaded_list = [], last_error = []\<rparr>"

definition failure_message :: "string \<Rightarrow> string \<Rightarrow> string \<Rightarrow> string \<Rightarrow> string" where
  "failure_message nm path stage detail =
     ''PostProcessorChain: component='' @ [CHR 0x27] @ nm @ [CHR 0x27] @ '' path='' @ [CHR 0x27] @ path @
     [CHR 0x27] @ '' stage='' @ [CHR 0x27] @ stage @ [CHR 0x27] @ '' failed'' @
     (if detail \<noteq> [] then '': '' @ detail else [])"

text \<open>\<open>DestroyUnloaded\<close>, for an instance whose factory functions are known.\<close>

definition destroy_unloaded :: "nat \<Rightarrow> string \<Rightarrow> bool \<Rightarrow> plug_event list" where
  "destroy_unloaded inst path init_invoked =
     (if init_invoked then [ShutdownCalled inst] else []) @ [Destroyed inst, DlClose path]"

definition expected_got :: "u32 \<Rightarrow> u32 \<Rightarrow> string" where
  "expected_got e g = ''expected '' @ to_string (uint e) @ '', got '' @ to_string (uint g)"

text \<open>The body of the loading loop for an enabled component: the calls made, then either the return
  code with stage and detail of the failure, or the entry to append. \<open>fresh\<close> is the next instance.\<close>

definition load_component ::
    "(string \<Rightarrow> plugin_lib) \<Rightarrow> nat \<Rightarrow> component_config \<Rightarrow>
     plug_event list \<times> (int \<times> string \<times> string + loaded)" where
  "load_component env fresh c =
     (let path = library_path c; l = env path
      in if \<not> opens l then ([], Inl (-1, ''dlopen'', text_or ''unknown'' (dlopen_error l)))
         else
           (let ce = text_or [] (create_error l); de = text_or [] (destroy_error l)
            in if ce \<noteq> [] \<or> de \<noteq> [] \<or> \<not> has_create l \<or> \<not> has_destroy l then
                 ([DlOpen path, DlClose path],
                  Inl (-1, ''dlsym'', if ce \<noteq> [] then ce else if de \<noteq> [] then de
                                      else ''factory symbol resolved to null''))
               else if \<not> creates l then
                 ([DlOpen path, DlClose path], Inl (-1, ''create'', ''factory returned null''))
               else if api_version c \<noteq> kPostProcessorApiVersion then
                 ([DlOpen path, Created fresh path False] @ destroy_unloaded fresh path False,
                  Inl (-1, ''config-api-version'', expected_got kPostProcessorApiVersion (api_version c)))
               else if instance_version l \<noteq> kPostProcessorApiVersion then
                 ([DlOpen path, Created fresh path False] @ destroy_unloaded fresh path False,
                  Inl (-1, ''instance-api-version'',
                       expected_got kPostProcessorApiVersion (instance_version l)))
               else if init_result l \<noteq> 0 then
                 ([DlOpen path, Created fresh path False, InitCalled fresh (init_result l)] @
                    destroy_unloaded fresh path True,
                  Inl (init_result l, ''init'', ''status '' @ to_string (init_result l)))
               else
                 ([DlOpen path, Created fresh path False, InitCalled fresh 0],
                  Inr \<lparr>ld_name = cc_name c, ld_path = path, so_handle = Some path,
                       processor = Some fresh\<rparr>)))"

text \<open>\<open>Unload\<close> goes through the entries from the last to the first.\<close>

definition unload_entry :: "loaded \<Rightarrow> plug_event list" where
  "unload_entry l =
     (case processor l of None \<Rightarrow> [] | Some i \<Rightarrow> [ShutdownCalled i, Destroyed i]) @
     (case so_handle l of None \<Rightarrow> [] | Some h \<Rightarrow> [DlClose h])"

definition chain_unload :: "chain \<Rightarrow> plug_event list \<times> chain" where
  "chain_unload ch =
     (concat (map unload_entry (rev (loaded_list ch))), ch\<lparr>loaded_list := []\<rparr>)"

text \<open>The loop of \<open>Load\<close>; every failure unloads what was loaded so far.\<close>

fun chain_load_loop ::
    "(string \<Rightarrow> plugin_lib) \<Rightarrow> nat \<Rightarrow> component_config list \<Rightarrow> chain \<Rightarrow>
     int \<times> plug_event list \<times> nat \<times> chain" where
  "chain_load_loop env fresh [] ch = (0, [], fresh, ch)"
| "chain_load_loop env fresh (c # cs) ch =
     (if \<not> enabled c then chain_load_loop env fresh cs ch
      else case load_component env fresh c of
             (evs, Inl (code, stage, detail)) \<Rightarrow>
               (let (uevs, ch') = chain_unload (ch\<lparr>last_error :=
                      failure_message (cc_name c) (library_path c) stage detail\<rparr>)
                in (code, evs @ uevs, Suc fresh, ch'))
           | (evs, Inr l) \<Rightarrow>
               (let (r, evs', fresh', ch') =
                      chain_load_loop env (Suc fresh) cs (ch\<lparr>loaded_list := loaded_list ch @ [l]\<rparr>)
                in (r, evs @ evs', fresh', ch')))"

definition chain_load ::
    "(string \<Rightarrow> plugin_lib) \<Rightarrow> nat \<Rightarrow> component_config list \<Rightarrow> chain \<Rightarrow>
     int \<times> plug_event list \<times> nat \<times> chain" where
  "chain_load env fresh configs ch =
     (let (uevs, ch1) = chain_unload ch;
          (r, evs, fresh', ch2) = chain_load_loop env fresh configs (ch1\<lparr>last_error := []\<rparr>)
      in (r, uevs @ evs, fresh', ch2))"

text \<open>\<open>Process\<close> runs the processors in order on the objects and stops at the first failure.
  \<open>run\<close> is what the processor instances do; a null processor would be dereferenced.\<close>

fun chain_process_loop ::
    "(nat \<Rightarrow> 'o \<Rightarrow> int \<times> 'o) \<Rightarrow> loaded list \<Rightarrow> 'o \<Rightarrow>
     (int \<times> (string \<times> string) option \<times> plug_event list \<times> 'o) option" where
  "chain_process_loop run [] objs = Some (0, None, [], objs)"
| "chain_process_loop run (l # ls) objs =
     (case processor l of
        None \<Rightarrow> None
      | Some i \<Rightarrow>
          (case run i objs of
             (r, objs') \<Rightarrow>
               (if r \<noteq> 0 then Some (r, Some (ld_name l, ld_path l), [Called i], objs')
                else case chain_process_loop run ls objs' of
                       None \<Rightarrow> None
                     | Some (r', w, evs, objs'') \<Rightarrow> Some (r', w, Called i # evs, objs''))))"

definition chain_process ::
    "(nat \<Rightarrow> 'o \<Rightarrow> int \<times> 'o) \<Rightarrow> 'o \<Rightarrow> chain \<Rightarrow> (int \<times> plug_event list \<times> 'o \<times> chain) option" where
  "chain_process run objs ch =
     (case chain_process_loop run (loaded_list ch) objs of
        None \<Rightarrow> None
      | Some (r, w, evs, objs') \<Rightarrow>
          Some (r, evs, objs',
                ch\<lparr>last_error := (case w of None \<Rightarrow> []
                     | Some (nm, path) \<Rightarrow> failure_message nm path ''process'' (''status '' @ to_string r))\<rparr>))"

definition chain_size :: "chain \<Rightarrow> nat" where "chain_size ch = length (loaded_list ch)"

section \<open>The business plugin\<close>

record manager =
  has_host :: bool
  mg_name :: string
  plugin :: "nat option"
  mg_handle :: "string option"

definition manager_new :: manager where
  "manager_new = \<lparr>has_host = False, mg_name = [], plugin = None, mg_handle = None\<rparr>"

definition manager_unload :: "manager \<Rightarrow> plug_event list \<times> manager" where
  "manager_unload m =
     ((case plugin m of
         None \<Rightarrow> []
       | Some i \<Rightarrow> (if has_host m then [Quiesced i (mg_name m)] else []) @ [ShutdownCalled i, Destroyed i]) @
      (case mg_handle m of None \<Rightarrow> [] | Some h \<Rightarrow> [DlClose h]), manager_new)"

text \<open>The loader's own \<open>DestroyUnloaded\<close> waits for the plugin's asynchronous work first.\<close>

definition destroy_unloaded_plugin :: "nat \<Rightarrow> string \<Rightarrow> string option \<Rightarrow> plug_event list" where
  "destroy_unloaded_plugin inst path init_invoked =
     (case init_invoked of None \<Rightarrow> [] | Some nm \<Rightarrow> [Quiesced inst nm, ShutdownCalled inst]) @
     [Destroyed inst, DlClose path]"

definition manager_load ::
    "(string \<Rightarrow> plugin_lib) \<Rightarrow> nat \<Rightarrow> bool \<Rightarrow> component_config \<Rightarrow> manager \<Rightarrow>
     int \<times> plug_event list \<times> manager" where
  "manager_load env fresh host c m0 =
     (let (uevs, m) = manager_unload m0; path = library_path c; l = env path;
          ce = text_or [] (create_error l); de = text_or [] (destroy_error l);
          actual_name = text_or [] (instance_name l)
      in if \<not> host then (-1, uevs, m)
         else if \<not> opens l then (-1, uevs, m)
         else if \<not> has_create l \<or> \<not> has_destroy l \<or> ce \<noteq> [] \<or> de \<noteq> [] then
           (-1, uevs @ [DlOpen path, DlClose path], m)
         else if \<not> creates l then (-1, uevs @ [DlOpen path, DlClose path], m)
         else if actual_name = [] \<or> actual_name \<noteq> cc_name c then
           (-1, uevs @ [DlOpen path, Created fresh path True] @ destroy_unloaded_plugin fresh path None, m)
         else if api_version c \<noteq> kBusinessPluginApiVersion then
           (-1, uevs @ [DlOpen path, Created fresh path True] @ destroy_unloaded_plugin fresh path None, m)
         else if instance_version l \<noteq> kBusinessPluginApiVersion then
           (-1, uevs @ [DlOpen path, Created fresh path True] @ destroy_unloaded_plugin fresh path None, m)
         else if init_result l \<noteq> 0 then
           (init_result l,
            uevs @ [DlOpen path, Created fresh path True, InitCalled fresh (init_result l)] @
              destroy_unloaded_plugin fresh path (Some (cc_name c)), m)
         else
           (0, uevs @ [DlOpen path, Created fresh path True, InitCalled fresh 0],
            \<lparr>has_host = True, mg_name = cc_name c, plugin = Some fresh, mg_handle = Some path\<rparr>))"

definition manager_on_frame :: "(nat \<Rightarrow> 'o \<Rightarrow> int) \<Rightarrow> 'o \<Rightarrow> manager \<Rightarrow> int \<times> plug_event list" where
  "manager_on_frame on_frame objs m =
     (case plugin m of None \<Rightarrow> (-1, []) | Some i \<Rightarrow> (on_frame i objs, [Called i]))"

section \<open>The scene runtime\<close>

record scene_config =
  scene :: component_config
  postprocessors :: "component_config list"

record runtime =
  rt_chain :: chain
  business :: manager

definition runtime_new :: runtime where
  "runtime_new = \<lparr>rt_chain = chain_new, business = manager_new\<rparr>"

definition runtime_shutdown :: "runtime \<Rightarrow> plug_event list \<times> runtime" where
  "runtime_shutdown rt =
     (let (bevs, b) = manager_unload (business rt); (cevs, c) = chain_unload (rt_chain rt)
      in (bevs @ cevs, \<lparr>rt_chain = c, business = b\<rparr>))"

definition runtime_init ::
    "(string \<Rightarrow> plugin_lib) \<Rightarrow> nat \<Rightarrow> bool \<Rightarrow> scene_config \<Rightarrow> runtime \<Rightarrow>
     int \<times> plug_event list \<times> nat \<times> runtime" where
  "runtime_init env fresh host cfg rt0 =
     (let (sevs, rt) = runtime_shutdown rt0;
          (pr, pevs, fresh1, ch) = chain_load env fresh (postprocessors cfg) (rt_chain rt);
          rt1 = rt\<lparr>rt_chain := ch\<rparr>
      in if pr \<noteq> 0 then
           (let (xevs, rt2) = runtime_shutdown rt1 in (pr, sevs @ pevs @ xevs, fresh1, rt2))
         else
           (let (br, bevs, b) = manager_load env fresh1 host (scene cfg) (business rt1);
                rt2 = rt1\<lparr>business := b\<rparr>
            in if br \<noteq> 0 then
                 (let (xevs, rt3) = runtime_shutdown rt2 in (br, sevs @ pevs @ bevs @ xevs, Suc fresh1, rt3))
               else (0, sevs @ pevs @ bevs, Suc fresh1, rt2)))"

definition runtime_process ::
    "(nat \<Rightarrow> 'f object list \<Rightarrow> int \<times> 'f object list) \<Rightarrow> (nat \<Rightarrow> 'f object list \<Rightarrow> int) \<Rightarrow>
     'f object list \<Rightarrow> runtime \<Rightarrow>
     (scene_process_result \<times> plug_event list \<times> 'f object list \<times> runtime) option" where
  "runtime_process run on_frame objs rt =
     (let objs0 = map (\<lambda>ob. ob\<lparr>track_id := -1\<rparr>) objs
      in case chain_process run objs0 (rt_chain rt) of
           None \<Rightarrow> None
         | Some (r, evs, objs', ch) \<Rightarrow>
             (let rt' = rt\<lparr>rt_chain := ch\<rparr>
              in if r \<noteq> 0 then Some (\<lparr>result_stage = kPostProcessor, result_code = r\<rparr>, evs, objs', rt')
                 else case manager_on_frame on_frame objs' (business rt') of
                        (br, bevs) \<Rightarrow>
                          Some (if br \<noteq> 0 then \<lparr>result_stage = kBusinessPlugin, result_code = br\<rparr>
                                else \<lparr>result_stage = kStageOk, result_code = 0\<rparr>, evs @ bevs, objs', rt')))"

section \<open>The specification: a monitor of the calls\<close>

text \<open>A live instance: its number, its library, whether it is a business plugin, and its phase. The
  monitor counts, for every library, how often it is open. A library is closed only while no live
  instance needs it; an instance is shut down exactly if \<open>Init\<close> was called, a business plugin only after
  its asynchronous work has come to rest; only initialised instances are called.\<close>

datatype phase = IsCreated | IsInited bool | IsQuiet | IsShut

record mon =
  opened :: "string \<Rightarrow> nat"
  alive :: "(nat \<times> string \<times> bool \<times> phase) list"

definition mon_init :: mon where "mon_init = \<lparr>opened = (\<lambda>p. 0), alive = []\<rparr>"

definition phase_of :: "nat \<Rightarrow> mon \<Rightarrow> (bool \<times> phase) option" where
  "phase_of i m = map_option (\<lambda>(j, p, b, ph). (b, ph)) (find (\<lambda>x. fst x = i) (alive m))"

definition set_phase :: "nat \<Rightarrow> phase \<Rightarrow> mon \<Rightarrow> mon" where
  "set_phase i ph m =
     m\<lparr>alive := map (\<lambda>(j, p, b, ph'). (j, p, b, if j = i then ph else ph')) (alive m)\<rparr>"

definition live_in :: "string \<Rightarrow> mon \<Rightarrow> nat" where
  "live_in p m = length (filter (\<lambda>x. fst (snd x) = p) (alive m))"

fun mon_step :: "plug_event \<Rightarrow> mon \<Rightarrow> mon option" where
  "mon_step (DlOpen p) m = Some (m\<lparr>opened := (opened m)(p := opened m p + 1)\<rparr>)"
| "mon_step (DlClose p) m =
     (if live_in p m < opened m p then Some (m\<lparr>opened := (opened m)(p := opened m p - 1)\<rparr>) else None)"
| "mon_step (Created i p b) m =
     (if phase_of i m = None \<and> live_in p m < opened m p
      then Some (m\<lparr>alive := alive m @ [(i, p, b, IsCreated)]\<rparr>) else None)"
| "mon_step (InitCalled i r) m =
     (case phase_of i m of Some (b, IsCreated) \<Rightarrow> Some (set_phase i (IsInited (r = 0)) m) | _ \<Rightarrow> None)"
| "mon_step (Called i) m =
     (case phase_of i m of Some (b, IsInited True) \<Rightarrow> Some m | _ \<Rightarrow> None)"
| "mon_step (Quiesced i nm) m =
     (case phase_of i m of Some (True, IsInited ok) \<Rightarrow> Some (set_phase i IsQuiet m) | _ \<Rightarrow> None)"
| "mon_step (ShutdownCalled i) m =
     (case phase_of i m of
        Some (b, IsInited ok) \<Rightarrow> if b then None else Some (set_phase i IsShut m)
      | Some (b, IsQuiet) \<Rightarrow> Some (set_phase i IsShut m)
      | _ \<Rightarrow> None)"
| "mon_step (Destroyed i) m =
     (case phase_of i m of
        Some (b, IsCreated) \<Rightarrow> Some (m\<lparr>alive := filter (\<lambda>x. fst x \<noteq> i) (alive m)\<rparr>)
      | Some (b, IsShut) \<Rightarrow> Some (m\<lparr>alive := filter (\<lambda>x. fst x \<noteq> i) (alive m)\<rparr>)
      | _ \<Rightarrow> None)"

fun mon_run :: "plug_event list \<Rightarrow> mon \<Rightarrow> mon option" where
  "mon_run [] m = Some m"
| "mon_run (e # es) m = (case mon_step e m of None \<Rightarrow> None | Some m' \<Rightarrow> mon_run es m')"

section \<open>The monitor on the model's states\<close>

type_synonym inst = "nat \<times> string \<times> bool \<times> phase"

definition opens_of :: "inst list \<Rightarrow> string \<Rightarrow> nat" where
  "opens_of xs p = length (filter (\<lambda>x. fst (snd x) = p) xs)"

definition mon_of :: "inst list \<Rightarrow> mon" where
  "mon_of xs = \<lparr>opened = opens_of xs, alive = xs\<rparr>"

lemma mon_run_append:
  "mon_run (as @ bs) m = (case mon_run as m of None \<Rightarrow> None | Some m' \<Rightarrow> mon_run bs m')"
  by (induction as arbitrary: m) (auto split: option.splits)

lemma opens_of_append [simp]:
  "opens_of (xs @ ys) p = opens_of xs p + opens_of ys p" "opens_of [] p = 0"
  "opens_of [(i, q, b, ph)] p = (if q = p then 1 else 0)"
  by (simp_all add: opens_of_def)

lemma find_last:
  "i \<notin> fst ` set xs \<Longrightarrow> find (\<lambda>x. fst x = i) (xs @ [(i, p, b, ph)]) = Some (i, p, b, ph)"
  by (induction xs) auto

lemma find_absent: "i \<notin> fst ` set xs \<Longrightarrow> find (\<lambda>x. fst x = i) xs = None"
  by (induction xs) auto

lemma map_absent:
  "i \<notin> fst ` set xs \<Longrightarrow> map (\<lambda>(j, p, b, ph'). (j, p, b, if j = i then ph else ph')) xs = xs"
  by (induction xs) auto

lemma filter_absent: "i \<notin> fst ` set xs \<Longrightarrow> filter (\<lambda>x. fst x \<noteq> i) xs = xs"
  by (induction xs) auto

text \<open>The last instance, under any count of open libraries.\<close>

lemma last_instance:
  assumes "i \<notin> fst ` set xs" "alive m = xs @ [(i, p, b, ph)]"
  shows "phase_of i m = Some (b, ph)"
    "set_phase i ph' m = m\<lparr>alive := xs @ [(i, p, b, ph')]\<rparr>"
    "filter (\<lambda>x. fst x \<noteq> i) (alive m) = xs"
  using assms by (simp_all add: phase_of_def set_phase_def find_last map_absent filter_absent)

lemma phase_absent: "i \<notin> fst ` set (alive m) \<Longrightarrow> phase_of i m = None"
  by (simp add: phase_of_def find_absent)

lemma live_in_opens: "live_in p m = opens_of (alive m) p"
  by (simp add: live_in_def opens_of_def)

lemma mon_eqI: "opened m = opens_of xs \<Longrightarrow> alive m = xs \<Longrightarrow> m = mon_of xs"
  by (simp add: mon_of_def)

lemma run_open:
  "mon_run (DlOpen p # es) (mon_of xs) =
   mon_run es \<lparr>opened = (opens_of xs)(p := Suc (opens_of xs p)), alive = xs\<rparr>"
  by (simp add: mon_of_def)

lemma run_close:
  "mon_run (DlClose p # es) \<lparr>opened = (opens_of xs)(p := Suc (opens_of xs p)), alive = xs\<rparr> =
   mon_run es (mon_of xs)"
  by (simp add: mon_of_def live_in_opens)

lemma run_create:
  assumes "i \<notin> fst ` set xs"
  shows "mon_run (Created i p b # es) \<lparr>opened = (opens_of xs)(p := Suc (opens_of xs p)), alive = xs\<rparr> =
    mon_run es (mon_of (xs @ [(i, p, b, IsCreated)]))"
proof -
  have "(opens_of xs)(p := Suc (opens_of xs p)) = opens_of (xs @ [(i, p, b, IsCreated)])"
    by (simp add: fun_eq_iff)
  then show ?thesis using assms by (simp add: mon_of_def phase_absent live_in_opens)
qed

lemma opens_of_phase: "opens_of (xs @ [(i, p, b, ph)]) = (opens_of xs)(p := Suc (opens_of xs p))"
  by (simp add: fun_eq_iff)

lemma mon_of_last:
  assumes "i \<notin> fst ` set xs"
  shows "phase_of i (mon_of (xs @ [(i, p, b, ph)])) = Some (b, ph)"
    "set_phase i ph' (mon_of (xs @ [(i, p, b, ph)])) = mon_of (xs @ [(i, p, b, ph')])"
    "(mon_of (xs @ [(i, p, b, ph)]))\<lparr>alive := filter (\<lambda>x. fst x \<noteq> i) (alive (mon_of (xs @ [(i, p, b, ph)])))\<rparr> =
      \<lparr>opened = (opens_of xs)(p := Suc (opens_of xs p)), alive = xs\<rparr>"
  using last_instance [OF assms, of "mon_of (xs @ [(i, p, b, ph)])" p b ph]
  by (auto simp: mon_of_def fun_eq_iff)

lemma run_last:
  assumes "i \<notin> fst ` set xs"
  shows "mon_run (InitCalled i r # es) (mon_of (xs @ [(i, p, b, IsCreated)])) =
      mon_run es (mon_of (xs @ [(i, p, b, IsInited (r = 0))]))"
    "mon_run (Quiesced i nm # es) (mon_of (xs @ [(i, p, True, IsInited ok)])) =
      mon_run es (mon_of (xs @ [(i, p, True, IsQuiet)]))"
    "mon_run (ShutdownCalled i # es) (mon_of (xs @ [(i, p, False, IsInited ok)])) =
      mon_run es (mon_of (xs @ [(i, p, False, IsShut)]))"
    "mon_run (ShutdownCalled i # es) (mon_of (xs @ [(i, p, b, IsQuiet)])) =
      mon_run es (mon_of (xs @ [(i, p, b, IsShut)]))"
    "ph = IsCreated \<or> ph = IsShut \<Longrightarrow> mon_run (Destroyed i # es) (mon_of (xs @ [(i, p, b, ph)])) =
      mon_run es \<lparr>opened = (opens_of xs)(p := Suc (opens_of xs p)), alive = xs\<rparr>"
  by (auto simp: mon_of_last [OF assms] simp del: filter_append)

text \<open>From here on the monitor runs by these equations.\<close>

declare mon_run.simps(2) [simp del]

section \<open>The runtime against the monitor\<close>

definition entry_ok :: "loaded \<Rightarrow> bool" where
  "entry_ok l = (processor l \<noteq> None \<and> so_handle l = Some (ld_path l))"

definition entry_inst :: "loaded \<Rightarrow> inst" where
  "entry_inst l = (the (processor l), ld_path l, False, IsInited True)"

definition chain_insts :: "chain \<Rightarrow> inst list" where
  "chain_insts ch = map entry_inst (loaded_list ch)"

definition manager_insts :: "manager \<Rightarrow> inst list" where
  "manager_insts m =
     (case plugin m of None \<Rightarrow> [] | Some i \<Rightarrow> [(i, the (mg_handle m), True, IsInited True)])"

definition numbered :: "nat \<Rightarrow> inst list \<Rightarrow> bool" where
  "numbered fresh xs = (distinct (map fst xs) \<and> (\<forall>x \<in> set xs. fst x < fresh))"

definition chain_ok :: "nat \<Rightarrow> chain \<Rightarrow> bool" where
  "chain_ok fresh ch = ((\<forall>l \<in> set (loaded_list ch). entry_ok l) \<and> numbered fresh (chain_insts ch))"

definition manager_ok :: "manager \<Rightarrow> bool" where
  "manager_ok m = (case plugin m of None \<Rightarrow> mg_handle m = None | Some i \<Rightarrow> mg_handle m \<noteq> None \<and> has_host m)"

definition runtime_ok :: "nat \<Rightarrow> runtime \<Rightarrow> bool" where
  "runtime_ok fresh rt = (chain_ok fresh (rt_chain rt) \<and> manager_ok (business rt) \<and>
     numbered fresh (chain_insts (rt_chain rt) @ manager_insts (business rt)))"

lemma numbered_mono: "numbered fresh xs \<Longrightarrow> fresh \<le> fresh' \<Longrightarrow> numbered fresh' xs"
  by (auto simp: numbered_def)

lemma numbered_Suc: "numbered fresh xs \<Longrightarrow> numbered (Suc fresh) (xs @ [(fresh, p, b, ph)])"
  by (auto simp: numbered_def)

lemma numbered_fresh: "numbered fresh xs \<Longrightarrow> fresh \<notin> fst ` set xs"
  by (auto simp: numbered_def)

lemma numbered_last: "numbered fresh (xs @ [(i, p, b, ph)]) \<Longrightarrow> i \<notin> fst ` set xs \<and> numbered fresh xs"
  by (auto simp: numbered_def)

lemma run_unload_entry:
  assumes "entry_ok l" "numbered fresh (xs @ [entry_inst l])"
  shows "mon_run (unload_entry l @ es) (mon_of (xs @ [entry_inst l])) = mon_run es (mon_of xs)"
proof -
  obtain i where i: "processor l = Some i" "so_handle l = Some (ld_path l)"
    using assms(1) by (auto simp: entry_ok_def)
  then have n: "i \<notin> fst ` set xs" using assms(2) numbered_last by (fastforce simp: entry_inst_def)
  show ?thesis using i run_last(3,5) [OF n] run_close
    by (simp add: unload_entry_def entry_inst_def)
qed

lemma run_unload_list:
  "\<forall>l \<in> set ls. entry_ok l \<Longrightarrow> numbered fresh (map entry_inst ls) \<Longrightarrow>
   mon_run (concat (map unload_entry (rev ls)) @ es) (mon_of (map entry_inst ls)) = mon_run es (mon_of [])"
proof (induction ls rule: rev_induct)
  case (snoc l ls)
  have n: "numbered fresh (map entry_inst ls)"
    using snoc.prems(2) numbered_last [of fresh "map entry_inst ls"] by (cases "entry_inst l") auto
  show ?case
    using snoc run_unload_entry [of l fresh "map entry_inst ls"] n by simp
qed simp

lemma run_chain_unload:
  assumes "chain_ok fresh ch" "chain_unload ch = (evs, ch')"
  shows "mon_run (evs @ es) (mon_of (chain_insts ch)) = mon_run es (mon_of [])" "loaded_list ch' = []"
  using assms run_unload_list [of "loaded_list ch" fresh es]
  by (auto simp: chain_unload_def chain_ok_def chain_insts_def)

lemma run_manager_unload:
  assumes "manager_ok m" "numbered fresh (xs @ manager_insts m)" "manager_unload m = (evs, m')"
  shows "mon_run (evs @ es) (mon_of (xs @ manager_insts m)) = mon_run es (mon_of xs)" "m' = manager_new"
proof -
  show "m' = manager_new" using assms(3) by (simp add: manager_unload_def)
  show "mon_run (evs @ es) (mon_of (xs @ manager_insts m)) = mon_run es (mon_of xs)"
  proof (cases "plugin m")
    case None
    then show ?thesis using assms by (auto simp: manager_ok_def manager_insts_def manager_unload_def)
  next
    case (Some i)
    then obtain p where p: "mg_handle m = Some p" "has_host m" using assms(1) by (auto simp: manager_ok_def)
    have n: "i \<notin> fst ` set xs"
      using assms(2) Some p numbered_last by (fastforce simp: manager_insts_def)
    show ?thesis
      using assms(3) Some p run_last(2,4,5) [OF n] run_close
      by (auto simp: manager_unload_def manager_insts_def)
  qed
qed

lemma run_destroy_unloaded:
  assumes "i \<notin> fst ` set xs"
  shows "mon_run (destroy_unloaded i p False @ es) (mon_of (xs @ [(i, p, False, IsCreated)])) = mon_run es (mon_of xs)"
    "mon_run (destroy_unloaded i p True @ es) (mon_of (xs @ [(i, p, False, IsInited ok)])) = mon_run es (mon_of xs)"
    "mon_run (destroy_unloaded_plugin i p None @ es) (mon_of (xs @ [(i, p, True, IsCreated)])) = mon_run es (mon_of xs)"
    "mon_run (destroy_unloaded_plugin i p (Some nm) @ es) (mon_of (xs @ [(i, p, True, IsInited ok)])) =
      mon_run es (mon_of xs)"
  using run_last [OF assms] run_close
  by (simp_all add: destroy_unloaded_def destroy_unloaded_plugin_def)

text \<open>Loading one component: a failure leaves the monitor where it was, a success adds the instance.\<close>

lemma run_load_component:
  assumes "load_component env fresh c = (evs, res)" "numbered fresh xs"
  shows "case res of Inl f \<Rightarrow> mon_run (evs @ es) (mon_of xs) = mon_run es (mon_of xs) \<and> fst f \<noteq> 0
    | Inr l \<Rightarrow> entry_ok l \<and> entry_inst l = (fresh, library_path c, False, IsInited True) \<and>
        mon_run (evs @ es) (mon_of xs) = mon_run es (mon_of (xs @ [entry_inst l]))"
proof -
  have n: "fresh \<notin> fst ` set xs" using assms(2) by (rule numbered_fresh)
  note runs = run_open run_create [OF n] run_last [OF n] run_close run_destroy_unloaded [OF n]
  show ?thesis
    using assms(1)
    by (auto simp: load_component_def Let_def runs entry_ok_def entry_inst_def split: if_splits sum.splits)
qed

lemma run_chain_loop:
  "chain_load_loop env fresh cs ch = (r, evs, fresh', ch') \<Longrightarrow> chain_ok fresh ch \<Longrightarrow>
   fresh \<le> fresh' \<and> chain_ok fresh' ch' \<and> (r \<noteq> 0 \<longrightarrow> loaded_list ch' = []) \<and>
   mon_run evs (mon_of (chain_insts ch)) = Some (mon_of (chain_insts ch'))"
proof (induction env fresh cs ch arbitrary: r evs fresh' ch' rule: chain_load_loop.induct)
  case (1 env fresh ch)
  then show ?case by auto
next
  case (2 env fresh c cs ch)
  show ?case
  proof (cases "enabled c")
    case False
    then show ?thesis using "2.IH"(1) "2.prems" by simp
  next
    case True
    obtain evs1 res where lc: "load_component env fresh c = (evs1, res)" by fastforce
    have nb: "numbered fresh (chain_insts ch)" using "2.prems"(2) by (simp add: chain_ok_def)
    note rl = run_load_component [OF lc nb]
    show ?thesis
    proof (cases res)
      case (Inl f)
      obtain code stage detail where f: "f = (code, stage, detail)" by (metis prod_cases3)
      let ?ch1 = "ch\<lparr>last_error := failure_message (cc_name c) (library_path c) stage detail\<rparr>"
      obtain uevs ch2 where u: "chain_unload ?ch1 = (uevs, ch2)" by fastforce
      have e: "r = code" "evs = evs1 @ uevs" "fresh' = Suc fresh" "ch' = ch2"
        using "2.prems"(1) True lc Inl f u by simp_all
      have c1: "chain_ok fresh ?ch1" "chain_insts ?ch1 = chain_insts ch"
        using "2.prems"(2) by (simp_all add: chain_ok_def chain_insts_def)
      have emp: "loaded_list ch2 = []" using run_chain_unload(2) [OF c1(1) u] .
      have "mon_run evs (mon_of (chain_insts ch)) = mon_run uevs (mon_of (chain_insts ch))"
        using rl [of uevs] Inl e(2) by simp
      also have "\<dots> = Some (mon_of [])" using run_chain_unload(1) [OF c1(1) u, of "[]"] c1(2) by simp
      finally show ?thesis using e emp by (simp add: chain_ok_def chain_insts_def numbered_def)
    next
      case (Inr l)
      let ?ch1 = "ch\<lparr>loaded_list := loaded_list ch @ [l]\<rparr>"
      obtain evs2 where e: "chain_load_loop env (Suc fresh) cs ?ch1 = (r, evs2, fresh', ch')" "evs = evs1 @ evs2"
        using "2.prems"(1) True lc Inr by (auto split: prod.splits)
      have el: "entry_ok l" "entry_inst l = (fresh, library_path c, False, IsInited True)"
        "mon_run (evs1 @ evs2) (mon_of (chain_insts ch)) = mon_run evs2 (mon_of (chain_insts ch @ [entry_inst l]))"
        using rl [of evs2] Inr by auto
      have c1: "chain_ok (Suc fresh) ?ch1"
        using "2.prems"(2) el(1,2) numbered_Suc [OF nb] by (simp add: chain_ok_def chain_insts_def)
      have t: "\<not> \<not> enabled c" using True by simp
      show ?thesis
        using "2.IH"(2) [OF t lc [symmetric] Inr e(1) c1] el(3) e(2) by (simp add: chain_insts_def)
    qed
  qed
qed

lemma run_manager_load:
  assumes "manager_load env fresh host c m = (r, evs, m')" "manager_ok m" "plugin m = None" "numbered fresh xs"
  shows "manager_ok m' \<and> (r \<noteq> 0 \<longrightarrow> manager_insts m' = []) \<and>
    (manager_insts m' = [] \<or> (\<exists>p. manager_insts m' = [(fresh, p, True, IsInited True)])) \<and>
    mon_run evs (mon_of xs) = Some (mon_of (xs @ manager_insts m'))"
proof -
  have n: "fresh \<notin> fst ` set xs" using assms(4) by (rule numbered_fresh)
  have u: "manager_unload m = ([], manager_new)"
    using assms(2,3) by (simp add: manager_unload_def manager_ok_def)
  note runs = run_open run_create [OF n] run_last [OF n] run_close
    run_destroy_unloaded(3,4) [OF n, where es = "[]", simplified]
  show ?thesis
    using assms(1)
    by (auto simp: manager_load_def u Let_def runs manager_ok_def manager_insts_def manager_new_def
        split: if_splits)
qed

lemma chain_unload_insts: "chain_unload ch = (evs, ch') \<Longrightarrow> chain_insts ch' = [] \<and> chain_ok fresh ch'"
  by (auto simp: chain_unload_def chain_insts_def chain_ok_def numbered_def)

lemma manager_new_ok [simp]: "manager_ok manager_new" "manager_insts manager_new = []" "plugin manager_new = None"
  by (simp_all add: manager_ok_def manager_new_def manager_insts_def)

definition runtime_insts :: "runtime \<Rightarrow> inst list" where
  "runtime_insts rt = chain_insts (rt_chain rt) @ manager_insts (business rt)"

lemma run_shutdown:
  assumes "runtime_ok fresh rt" "runtime_shutdown rt = (evs, rt')"
  shows "mon_run (evs @ es) (mon_of (runtime_insts rt)) = mon_run es (mon_of [])"
    "runtime_insts rt' = []" "runtime_ok fresh rt'" "business rt' = manager_new"
proof -
  obtain bevs b where b: "manager_unload (business rt) = (bevs, b)" by fastforce
  obtain cevs c where c: "chain_unload (rt_chain rt) = (cevs, c)" by fastforce
  have e: "evs = bevs @ cevs" "rt' = \<lparr>rt_chain = c, business = b\<rparr>"
    using assms(2) b c by (auto simp: runtime_shutdown_def)
  have ok: "manager_ok (business rt)" "chain_ok fresh (rt_chain rt)"
    "numbered fresh (chain_insts (rt_chain rt) @ manager_insts (business rt))"
    using assms(1) by (auto simp: runtime_ok_def)
  show "mon_run (evs @ es) (mon_of (runtime_insts rt)) = mon_run es (mon_of [])"
    using run_manager_unload(1) [OF ok(1,3) b, of "cevs @ es"] run_chain_unload(1) [OF ok(2) c, of es]
    by (simp add: e runtime_insts_def)
  show "business rt' = manager_new" using run_manager_unload(2) [OF ok(1,3) b] e by simp
  then show "runtime_insts rt' = []" "runtime_ok fresh rt'"
    using chain_unload_insts [OF c, of fresh] e
    by (auto simp: runtime_insts_def runtime_ok_def numbered_def)
qed

lemma chain_unload_empty:
  "loaded_list ch = [] \<Longrightarrow> chain_unload ch = ([], ch)"
  by (simp add: chain_unload_def)

lemma run_init:
  assumes "runtime_ok fresh rt0" "runtime_init env fresh host cfg rt0 = (r, evs, fresh', rt')"
  shows "runtime_ok fresh' rt' \<and> (r \<noteq> 0 \<longrightarrow> runtime_insts rt' = []) \<and>
    mon_run evs (mon_of (runtime_insts rt0)) = Some (mon_of (runtime_insts rt'))"
proof -
  obtain sevs rt where s: "runtime_shutdown rt0 = (sevs, rt)" by fastforce
  note sh = run_shutdown [OF assms(1) s]
  have l0: "loaded_list (rt_chain rt) = []"
    using sh(2) by (simp add: runtime_insts_def chain_insts_def)
  obtain pr pevs fresh1 ch where l: "chain_load env fresh (postprocessors cfg) (rt_chain rt) = (pr, pevs, fresh1, ch)"
    by (metis prod_cases4)
  have loop: "chain_load_loop env fresh (postprocessors cfg) ((rt_chain rt)\<lparr>last_error := []\<rparr>) = (pr, pevs, fresh1, ch)"
    using l by (simp add: chain_load_def chain_unload_empty [OF l0] split: prod.splits)
  have c0: "chain_ok fresh ((rt_chain rt)\<lparr>last_error := []\<rparr>)" "chain_insts ((rt_chain rt)\<lparr>last_error := []\<rparr>) = []"
    using l0 by (simp_all add: chain_ok_def chain_insts_def numbered_def)
  note cl = run_chain_loop [OF loop c0(1), unfolded c0(2)]
  let ?rt1 = "rt\<lparr>rt_chain := ch\<rparr>"
  have ok1: "runtime_ok fresh1 ?rt1" "runtime_insts ?rt1 = chain_insts ch"
    using cl sh(4) by (auto simp: runtime_ok_def runtime_insts_def chain_ok_def)
  have upto1: "mon_run (sevs @ pevs @ es) (mon_of (runtime_insts rt0)) = mon_run es (mon_of (chain_insts ch))" for es
    using sh(1) [of "pevs @ es"] cl by (simp add: mon_run_append)
  show ?thesis
  proof (cases "pr = 0")
    case False
    obtain xevs rt2 where x: "runtime_shutdown ?rt1 = (xevs, rt2)" by fastforce
    have e: "evs = sevs @ pevs @ xevs" "fresh' = fresh1" "rt' = rt2" "r = pr"
      using assms(2) s l x False by (auto simp: runtime_init_def)
    show ?thesis
      using upto1 [of xevs] run_shutdown [OF ok1(1) x] run_shutdown(1) [OF ok1(1) x, of "[]"] ok1(2) e by simp
  next
    case True
    obtain br bevs b where bl: "manager_load env fresh1 host (scene cfg) (business ?rt1) = (br, bevs, b)"
      by (metis prod_cases3)
    have nb: "numbered fresh1 (chain_insts ch)" using cl by (simp add: chain_ok_def)
    have bok: "manager_ok (business ?rt1)" "plugin (business ?rt1) = None" using sh(4) by simp_all
    note ml = run_manager_load [OF bl bok nb]
    let ?rt2 = "?rt1\<lparr>business := b\<rparr>"
    have ok2: "runtime_ok (Suc fresh1) ?rt2" "runtime_insts ?rt2 = chain_insts ch @ manager_insts b"
      using ml cl numbered_Suc [OF nb] numbered_mono [OF nb, of "Suc fresh1"]
      by (auto simp: runtime_ok_def runtime_insts_def chain_ok_def)
    have upto2: "mon_run (sevs @ pevs @ bevs @ es) (mon_of (runtime_insts rt0)) = mon_run es (mon_of (runtime_insts ?rt2))" for es
      using upto1 [of "bevs @ es"] ml ok2(2) by (simp add: mon_run_append)
    show ?thesis
    proof (cases "br = 0")
      case True
      then have "evs = sevs @ pevs @ bevs" "fresh' = Suc fresh1" "rt' = ?rt2" "r = 0"
        using assms(2) s l bl \<open>pr = 0\<close> by (auto simp: runtime_init_def)
      then show ?thesis using upto2 [of "[]"] ok2 by simp
    next
      case False
      obtain xevs rt3 where x: "runtime_shutdown ?rt2 = (xevs, rt3)" by fastforce
      have "evs = sevs @ pevs @ bevs @ xevs" "fresh' = Suc fresh1" "rt' = rt3" "r = br"
        using assms(2) s l bl x False \<open>pr = 0\<close> by (auto simp: runtime_init_def)
      then show ?thesis
        using upto2 [of xevs] run_shutdown [OF ok2(1) x] run_shutdown(1) [OF ok2(1) x, of "[]"] by simp
    qed
  qed
qed

lemma find_member:
  "distinct (map fst xs) \<Longrightarrow> (i, q, b, ph) \<in> set xs \<Longrightarrow> find (\<lambda>x. fst x = i) xs = Some (i, q, b, ph)"
  by (induction xs) (auto simp: rev_image_eqI)

lemma run_called:
  "phase_of i m = Some (b, IsInited True) \<Longrightarrow> mon_run (Called i # es) m = mon_run es m"
  by (simp add: mon_run.simps)

lemma run_process_loop:
  "chain_process_loop run ls objs = Some (r, w, evs, objs') \<Longrightarrow>
   \<forall>l \<in> set ls. phase_of (the (processor l)) m = Some (False, IsInited True) \<Longrightarrow>
   mon_run (evs @ es) m = mon_run es m"
  by (induction ls arbitrary: objs r w evs)
    (auto simp: run_called [where b = False] split: option.splits prod.splits if_splits)

lemma run_process:
  assumes "runtime_ok fresh rt" "runtime_process run onf objs rt = Some (res, evs, objs', rt')"
  shows "runtime_ok fresh rt' \<and> runtime_insts rt' = runtime_insts rt \<and>
    mon_run evs (mon_of (runtime_insts rt)) = Some (mon_of (runtime_insts rt))"
proof -
  let ?m = "mon_of (runtime_insts rt)"
  have d: "distinct (map fst (runtime_insts rt))"
    using assms(1) by (simp add: runtime_ok_def numbered_def runtime_insts_def)
  have ph: "phase_of i ?m = Some (b, p)" if "(i, q, b, p) \<in> set (runtime_insts rt)" for i q b p
    using find_member [OF d that] by (simp add: phase_of_def mon_of_def)
  obtain r w cevs objs1 where c:
    "chain_process_loop run (loaded_list (rt_chain rt)) (map (\<lambda>ob. ob\<lparr>track_id := -1\<rparr>) objs) = Some (r, w, cevs, objs1)"
    using assms(2) by (auto simp: runtime_process_def chain_process_def split: option.splits)
  obtain bevs where e: "evs = cevs @ bevs" "bevs = [] \<or> (\<exists>i. plugin (business rt) = Some i \<and> bevs = [Called i])"
    and rt': "rt' = rt\<lparr>rt_chain := rt_chain rt'\<rparr>" "loaded_list (rt_chain rt') = loaded_list (rt_chain rt)"
    using assms(2) c by (auto simp: runtime_process_def chain_process_def manager_on_frame_def Let_def
        split: option.splits if_splits prod.splits)
  have lp: "\<forall>l \<in> set (loaded_list (rt_chain rt)). phase_of (the (processor l)) ?m = Some (False, IsInited True)"
  proof
    fix l assume "l \<in> set (loaded_list (rt_chain rt))"
    then have "entry_inst l \<in> set (runtime_insts rt)" by (simp add: runtime_insts_def chain_insts_def)
    then show "phase_of (the (processor l)) ?m = Some (False, IsInited True)"
      using ph by (simp add: entry_inst_def)
  qed
  have "mon_run bevs ?m = Some ?m"
    using e(2)
  proof
    assume "\<exists>i. plugin (business rt) = Some i \<and> bevs = [Called i]"
    then obtain i where i: "plugin (business rt) = Some i" "bevs = [Called i]" by blast
    then have "(i, the (mg_handle (business rt)), True, IsInited True) \<in> set (runtime_insts rt)"
      by (simp add: runtime_insts_def manager_insts_def)
    from ph [OF this] show ?thesis using i(2) by (simp add: run_called [where b = True])
  qed simp
  then have "mon_run evs ?m = Some ?m" using run_process_loop [OF c lp, of bevs] e(1) by simp
  moreover have "chain_insts (rt_chain rt') = chain_insts (rt_chain rt)"
    using rt'(2) by (simp add: chain_insts_def)
  moreover have "business rt' = business rt" using rt'(1) by (metis runtime.select_convs(2) runtime.surjective runtime.update_convs(1))
  ultimately show ?thesis
    using assms(1) rt'(2) by (simp add: runtime_ok_def runtime_insts_def chain_ok_def)
qed

text \<open>Which processors a frame reaches.\<close>

lemma process_loop_trace:
  "chain_process_loop run ls objs = Some (r, w, evs, objs') \<Longrightarrow>
   (r \<noteq> 0 \<longrightarrow> (\<exists>k < length ls. evs = map (\<lambda>l. Called (the (processor l))) (take (Suc k) ls))) \<and>
   (r = 0 \<longrightarrow> evs = map (\<lambda>l. Called (the (processor l))) ls)"
proof (induction ls arbitrary: objs r w evs)
  case (Cons l ls)
  obtain i where i: "processor l = Some i" using Cons.prems by (auto split: option.splits)
  obtain q objs1 where q: "run i objs = (q, objs1)" by fastforce
  show ?case
  proof (cases "q = 0")
    case False
    then show ?thesis using Cons.prems i q by auto
  next
    case True
    then obtain evs1 where e: "chain_process_loop run ls objs1 = Some (r, w, evs1, objs')" "evs = Called i # evs1"
      using Cons.prems i q by (auto split: option.splits)
    show ?thesis using Cons.IH [OF e(1)] e(2) i by force
  qed
qed simp

section \<open>A runtime's life\<close>

text \<open>What may happen to a runtime: initialisation (any libraries, any configuration, with or without
  a host), frames, shutdown, in any order.\<close>

datatype 'f runtime_op =
    RtInit "string \<Rightarrow> plugin_lib" bool scene_config
  | RtProcess "nat \<Rightarrow> 'f object list \<Rightarrow> int \<times> 'f object list" "nat \<Rightarrow> 'f object list \<Rightarrow> int" "'f object list"
  | RtShutdown

fun runtime_run :: "'f runtime_op list \<Rightarrow> nat \<Rightarrow> runtime \<Rightarrow> (plug_event list \<times> nat \<times> runtime) option" where
  "runtime_run [] fresh rt = Some ([], fresh, rt)"
| "runtime_run (RtInit env host cfg # ops) fresh rt =
     (case runtime_init env fresh host cfg rt of
        (r, evs, fresh1, rt1) \<Rightarrow>
          map_option (\<lambda>(evs', f, rt'). (evs @ evs', f, rt')) (runtime_run ops fresh1 rt1))"
| "runtime_run (RtProcess run onf objs # ops) fresh rt =
     (case runtime_process run onf objs rt of
        None \<Rightarrow> None
      | Some (res, evs, objs', rt1) \<Rightarrow>
          map_option (\<lambda>(evs', f, rt'). (evs @ evs', f, rt')) (runtime_run ops fresh rt1))"
| "runtime_run (RtShutdown # ops) fresh rt =
     (case runtime_shutdown rt of
        (evs, rt1) \<Rightarrow>
          map_option (\<lambda>(evs', f, rt'). (evs @ evs', f, rt')) (runtime_run ops fresh rt1))"

lemma process_defined:
  assumes "runtime_ok fresh rt"
  shows "runtime_process run onf objs rt \<noteq> None"
proof -
  have "\<forall>l \<in> set ls. entry_ok l \<Longrightarrow> \<exists>r. chain_process_loop run ls obs = Some r" for ls obs
  proof (induction ls arbitrary: obs)
    case (Cons l ls)
    obtain i where i: "processor l = Some i" using Cons.prems by (auto simp: entry_ok_def)
    obtain r obs' where "run i obs = (r, obs')" by fastforce
    moreover have "\<exists>q. chain_process_loop run ls obs' = Some q"
      using Cons.prems by (intro Cons.IH) simp
    then obtain q where "chain_process_loop run ls obs' = Some q" ..
    ultimately show ?case using i by (cases q) simp
  qed simp
  then have "chain_process_loop run (loaded_list (rt_chain rt)) obs \<noteq> None" for obs
    using assms by (simp add: runtime_ok_def chain_ok_def)
  then show ?thesis
    by (auto simp: runtime_process_def chain_process_def Let_def split: option.splits prod.splits)
qed

lemma runtime_run_spec:
  "runtime_ok fresh rt \<Longrightarrow>
   \<exists>evs fresh' rt'. runtime_run ops fresh rt = Some (evs, fresh', rt') \<and> runtime_ok fresh' rt' \<and>
     mon_run evs (mon_of (runtime_insts rt)) = Some (mon_of (runtime_insts rt'))"
proof (induction ops arbitrary: fresh rt)
  case Nil
  then show ?case by simp
next
  case (Cons x ops)
  have more: "\<exists>evs' fresh' rt'. map_option (\<lambda>(evs', f, rt'). (evs @ evs', f, rt')) (runtime_run ops fresh1 rt1) =
      Some (evs', fresh', rt') \<and> runtime_ok fresh' rt' \<and>
      mon_run evs' (mon_of (runtime_insts rt)) = Some (mon_of (runtime_insts rt'))"
    if "runtime_ok fresh1 rt1" "mon_run evs (mon_of (runtime_insts rt)) = Some (mon_of (runtime_insts rt1))"
    for evs fresh1 rt1
    using Cons.IH [OF that(1)] that(2) by (auto simp: mon_run_append)
  show ?case
  proof (cases x)
    case (RtInit env host cfg)
    obtain r evs fresh1 rt1 where i: "runtime_init env fresh host cfg rt = (r, evs, fresh1, rt1)"
      by (metis prod_cases4)
    show ?thesis using run_init [OF Cons.prems i] more [of fresh1 rt1 evs] RtInit i by simp
  next
    case (RtProcess run onf objs)
    obtain res evs objs' rt1 where p: "runtime_process run onf objs rt = Some (res, evs, objs', rt1)"
      using process_defined [OF Cons.prems] by (metis not_None_eq prod_cases4)
    show ?thesis using run_process [OF Cons.prems p] more [of fresh rt1 evs] RtProcess p by simp
  next
    case RtShutdown
    obtain evs rt1 where p: "runtime_shutdown rt = (evs, rt1)" by fastforce
    note s = run_shutdown [OF Cons.prems p]
    show ?thesis using s(1) [of "[]"] s(2,3) more [of fresh rt1 evs] RtShutdown p by simp
  qed
qed

section \<open>A concrete life\<close>

definition good_lib :: "string \<Rightarrow> plugin_lib" where
  "good_lib p = \<lparr>opens = True, dlopen_error = None, create_error = None, destroy_error = None,
     has_create = True, has_destroy = True, creates = True, instance_name = Some ''face'',
     instance_version = 1, init_result = (if p = ''bad.so'' then -7 else 0)\<rparr>"

definition demo_config :: "string \<Rightarrow> string \<Rightarrow> component_config" where
  "demo_config nm p = \<lparr>cc_name = nm, library_path = p, config_dir = [], params_yaml = [],
     api_version = 1, enabled = True\<rparr>"

definition demo_scene :: "string \<Rightarrow> scene_config" where
  "demo_scene p = \<lparr>scene = demo_config ''face'' p, postprocessors = [demo_config ''track'' ''track.so'']\<rparr>"

definition demo_ops :: "int runtime_op list" where
  "demo_ops = [RtInit good_lib True (demo_scene ''bad.so''), RtInit good_lib True (demo_scene ''face.so''),
     RtProcess (\<lambda>i obs. (0, obs)) (\<lambda>i obs. 0) []]"

definition demo_trace :: "plug_event list \<times> nat \<times> runtime" where
  "demo_trace = the (runtime_run demo_ops 0 runtime_new)"

section \<open>Properties\<close>

text \<open>C22. Plugin life cycle. Whatever is done with a scene runtime, with whatever libraries (missing
  files or symbols, null factories, wrong versions or names, failing initialisation), once it is shut
  down (the destructor does) the whole trace of calls conforms to the monitor: each library is closed
  as often as it was opened and never while an instance of it lives, every instance is destroyed, shut
  down before if and only if its \<open>Init\<close> was called, a business plugin only after its asynchronous work has
  come to rest, and no processor or plugin is called before it is initialised or after its shutdown.\<close>

theorem plugin_lifecycle_conforms:
  assumes "runtime_run ops 0 runtime_new = Some (evs, fresh, rt)" "runtime_shutdown rt = (sevs, rt')"
  shows "mon_run (evs @ sevs) mon_init = Some mon_init"
proof -
  have ok: "runtime_ok 0 runtime_new" "runtime_insts runtime_new = []"
    by (simp_all add: runtime_ok_def runtime_new_def chain_ok_def chain_new_def chain_insts_def
        numbered_def runtime_insts_def)
  have i: "mon_of [] = mon_init" by (simp add: mon_of_def mon_init_def fun_eq_iff)
  obtain evs1 fresh1 rt1 where r: "runtime_run ops 0 runtime_new = Some (evs1, fresh1, rt1)"
    "runtime_ok fresh1 rt1" "mon_run evs1 (mon_of []) = Some (mon_of (runtime_insts rt1))"
    using runtime_run_spec [OF ok(1), of ops] ok(2) by auto
  then have e: "evs1 = evs" "fresh1 = fresh" "rt1 = rt" using assms(1) by auto
  show ?thesis
    using run_shutdown(1) [OF r(2) [unfolded e] assms(2), of "[]"] r(3)
    by (simp add: mon_run_append e i)
qed

theorem plugin_lifecycle_conforms_witness:
  "fst demo_trace = [DlOpen ''track.so'', Created 0 ''track.so'' False, InitCalled 0 0,
     DlOpen ''bad.so'', Created 1 ''bad.so'' True, InitCalled 1 (-7), Quiesced 1 ''face'', ShutdownCalled 1,
     Destroyed 1, DlClose ''bad.so'', ShutdownCalled 0, Destroyed 0, DlClose ''track.so'',
     DlOpen ''track.so'', Created 2 ''track.so'' False, InitCalled 2 0, DlOpen ''face.so'',
     Created 3 ''face.so'' True, InitCalled 3 0, Called 2, Called 3] \<and>
   mon_run (fst demo_trace @ fst (runtime_shutdown (snd (snd demo_trace)))) mon_init = Some mon_init"
proof -
  have c: "runtime_run demo_ops 0 runtime_new \<noteq> None" by code_simp
  have r: "runtime_run demo_ops 0 runtime_new =
      Some (fst demo_trace, fst (snd demo_trace), snd (snd demo_trace))"
    using c by (auto simp: demo_trace_def)
  have t: "fst demo_trace = [DlOpen ''track.so'', Created 0 ''track.so'' False, InitCalled 0 0,
     DlOpen ''bad.so'', Created 1 ''bad.so'' True, InitCalled 1 (-7), Quiesced 1 ''face'', ShutdownCalled 1,
     Destroyed 1, DlClose ''bad.so'', ShutdownCalled 0, Destroyed 0, DlClose ''track.so'',
     DlOpen ''track.so'', Created 2 ''track.so'' False, InitCalled 2 0, DlOpen ''face.so'',
     Created 3 ''face.so'' True, InitCalled 3 0, Called 2, Called 3]"
    by code_simp
  show ?thesis
    using plugin_lifecycle_conforms [OF r prod.collapse [symmetric]] t by blast
qed

text \<open>A failed start leaves nothing behind, and a good one runs in order: when \<open>SceneRuntime::Init\<close>
  returns a failure nothing is loaded; in every reachable state a frame resets all track ids, then runs
  the processors in configuration order, stops at the first that fails and reports its code, and
  reaches the business plugin only if none failed.\<close>

theorem runtime_init_and_process:
  assumes "runtime_run ops 0 runtime_new = Some (evs0, fresh, rt)"
  shows "(runtime_init env fresh host cfg rt = (r, evs, fresh', rt') \<longrightarrow> r \<noteq> 0 \<longrightarrow>
      loaded_list (rt_chain rt') = [] \<and> plugin (business rt') = None) \<and>
    (\<exists>res evs objs' rt'. runtime_process run onf objs rt = Some (res, evs, objs', rt') \<and>
      (result_stage res = kPostProcessor \<longrightarrow> result_code res \<noteq> 0 \<and>
         (\<exists>k < length (loaded_list (rt_chain rt)).
            evs = map (\<lambda>l. Called (the (processor l))) (take (Suc k) (loaded_list (rt_chain rt))))) \<and>
      (result_stage res \<noteq> kPostProcessor \<longrightarrow>
         evs = map (\<lambda>l. Called (the (processor l))) (loaded_list (rt_chain rt)) @
           (case plugin (business rt) of None \<Rightarrow> [] | Some i \<Rightarrow> [Called i])))"
proof -
  have ok0: "runtime_ok 0 runtime_new"
    by (simp add: runtime_ok_def runtime_new_def chain_ok_def chain_new_def chain_insts_def numbered_def)
  have ok: "runtime_ok fresh rt"
    using runtime_run_spec [OF ok0, of ops] assms by auto
  have "loaded_list (rt_chain rt') = [] \<and> plugin (business rt') = None"
    if "runtime_init env fresh host cfg rt = (r, evs, fresh', rt')" "r \<noteq> 0"
    using run_init [OF ok that(1)] that(2)
    by (auto simp: runtime_insts_def chain_insts_def manager_insts_def split: option.splits)
  moreover have "\<exists>res evs objs' rt'. runtime_process run onf objs rt = Some (res, evs, objs', rt') \<and>
      (result_stage res = kPostProcessor \<longrightarrow> result_code res \<noteq> 0 \<and>
         (\<exists>k < length (loaded_list (rt_chain rt)).
            evs = map (\<lambda>l. Called (the (processor l))) (take (Suc k) (loaded_list (rt_chain rt))))) \<and>
      (result_stage res \<noteq> kPostProcessor \<longrightarrow>
         evs = map (\<lambda>l. Called (the (processor l))) (loaded_list (rt_chain rt)) @
           (case plugin (business rt) of None \<Rightarrow> [] | Some i \<Rightarrow> [Called i]))"
  proof -
    obtain res evs objs' rt' where p: "runtime_process run onf objs rt = Some (res, evs, objs', rt')"
      using process_defined [OF ok] by (metis not_None_eq prod_cases4)
    obtain q w cevs objs1 where c:
      "chain_process_loop run (loaded_list (rt_chain rt)) (map (\<lambda>ob. ob\<lparr>track_id := -1\<rparr>) objs) = Some (q, w, cevs, objs1)"
      using p by (auto simp: runtime_process_def chain_process_def split: option.splits)
    note t = process_loop_trace [OF c]
    show ?thesis
      using p c t
      by (intro exI [of _ res] exI [of _ evs] exI [of _ objs'] exI [of _ rt'])
        (auto simp: runtime_process_def chain_process_def manager_on_frame_def Let_def
          split: if_splits option.splits prod.splits)
  qed
  ultimately show ?thesis by blast
qed

theorem runtime_init_and_process_witness:
  "\<exists>res evs objs' rt'. runtime_process (\<lambda>i obs. (if i = 2 then -3 else 0, obs)) (\<lambda>i obs. 0) []
       (snd (snd demo_trace)) = Some (res, evs, objs', rt') \<and>
     evs = [Called 2] \<and> result_code res = (-3 :: int) \<and> objs' = ([] :: int object list)"
proof -
  have c: "runtime_run demo_ops 0 runtime_new \<noteq> None" by code_simp
  have r: "runtime_run demo_ops 0 runtime_new =
      Some (fst demo_trace, fst (snd demo_trace), snd (snd demo_trace))"
    using c by (auto simp: demo_trace_def)
  let ?run = "\<lambda>i obs. (if i = (2 :: nat) then -3 else 0 :: int, obs :: int object list)"
  let ?p = "runtime_process ?run (\<lambda>i obs. 0) [] (snd (snd demo_trace))"
  have d: "map_option (\<lambda>(res, evs, objs', rt'). (result_stage res, result_code res, objs')) ?p =
      Some (kPostProcessor, -3, [])"
    "map (\<lambda>l. processor l) (loaded_list (rt_chain (snd (snd demo_trace)))) = [Some 2]"
    by code_simp+
  obtain l where l: "loaded_list (rt_chain (snd (snd demo_trace))) = [l]" "processor l = Some 2"
    using d(2) by auto
  show ?thesis
    using runtime_init_and_process [OF r, THEN conjunct2, of ?run "\<lambda>i obs. 0" "[]"] d(1) l
    by (auto simp: less_Suc_eq)
qed

end
