(* ===== verification/Scene_Config.thy ===== *)
theory Scene_Config
  imports Plugins Yaml_Lib
begin

text \<open>
  Reading the scene configuration (\<open>plugin/scene_config.cpp\<close>): paths, fields, components, the scene. An
  error is its text; the warnings about unknown fields on \<open>std::clog\<close> are left out. The current directory
  and the target of \<open>/proc/self/exe\<close> are arguments.
\<close>

section \<open>Paths\<close>

text \<open>What is used of \<open>std::filesystem\<close> on POSIX paths.\<close>

definition path_append :: "string \<Rightarrow> string \<Rightarrow> string" where
  "path_append base p =
     (if p \<noteq> [] \<and> hd p = CHR ''/'' then p
      else if base = [] then p
      else if last base = CHR ''/'' then base @ p
      else base @ CHR ''/'' # p)"

definition path_absolute :: "string \<Rightarrow> string \<Rightarrow> string" where
  "path_absolute cwd p = path_append cwd p"

fun split_path :: "string \<Rightarrow> string \<Rightarrow> string list" where
  "split_path acc [] = [rev acc]"
| "split_path acc (c # cs) =
     (if c = CHR ''/'' then rev acc # split_path [] cs else split_path (c # acc) cs)"

text \<open>Names so far, last first, and whether the path ends in a separator.\<close>

fun normal_names :: "string list \<Rightarrow> string list \<Rightarrow> bool \<Rightarrow> string list \<times> bool" where
  "normal_names [] st sep = (rev st, sep)"
| "normal_names (n # ns) st sep =
     (if n = [] \<or> n = ''.'' then normal_names ns st True
      else if n = ''..'' then normal_names ns (tl st) True
      else normal_names ns (n # st) False)"

fun join_path :: "string list \<Rightarrow> string" where
  "join_path [] = []"
| "join_path [n] = n"
| "join_path (n # ns) = n @ CHR ''/'' # join_path ns"

text \<open>\<open>lexically_normal\<close> on an absolute path.\<close>

definition lexically_normal :: "string \<Rightarrow> string" where
  "lexically_normal p =
     (let (ns, sep) = normal_names (split_path [] (tl p)) [] False
      in CHR ''/'' # (if ns = [] then [] else join_path ns @ (if sep then ''/'' else [])))"

definition resolve_path :: "string \<Rightarrow> string \<Rightarrow> string \<Rightarrow> string" where
  "resolve_path cwd base p = lexically_normal (path_absolute cwd (path_append base p))"

text \<open>\<open>parent_path\<close> of a normal absolute path.\<close>

definition parent_path :: "string \<Rightarrow> string" where
  "parent_path p =
     (let d = rev (dropWhile (\<lambda>c. c \<noteq> CHR ''/'') (rev p))
      in if d = ''/'' then d else butlast d)"

definition default_app_config_path :: "string \<Rightarrow> string option \<Rightarrow> string" where
  "default_app_config_path cwd exe =
     (case exe of
        None \<Rightarrow> lexically_normal (path_absolute cwd ''config.yaml'')
      | Some e \<Rightarrow> path_append (parent_path e) ''config.yaml'')"

section \<open>Fields\<close>

definition fail :: "string \<Rightarrow> string \<Rightarrow> string \<Rightarrow> string + 'a" where
  "fail yaml_path field detail = Inl (yaml_path @ '': field '' @ CHR 0x27 # field @ CHR 0x27 # '' '' @ detail)"

definition read_required_string ::
    "('n, 'f) yaml_reader \<Rightarrow> 'n \<Rightarrow> string \<Rightarrow> string \<Rightarrow> string \<Rightarrow> string + string" where
  "read_required_string y node key field yaml_path =
     (case lookup y node key of
        None \<Rightarrow> fail yaml_path field ''must be a non-empty string''
      | Some item \<Rightarrow>
          if \<not> is_scalar y item then fail yaml_path field ''must be a non-empty string''
          else
            (case as_string y item of
               None \<Rightarrow> fail yaml_path field (''must be a non-empty string ('' @ what y item @ '')'')
             | Some v \<Rightarrow> if v = [] then fail yaml_path field ''must be a non-empty string'' else Inr v))"

definition read_api_version ::
    "('n, 'f) yaml_reader \<Rightarrow> 'n \<Rightarrow> string \<Rightarrow> string \<Rightarrow> string + u32" where
  "read_api_version y node field yaml_path =
     (case lookup y node ''api_version'' of
        None \<Rightarrow> fail yaml_path field ''must be a positive integer''
      | Some item \<Rightarrow>
          if \<not> is_scalar y item then fail yaml_path field ''must be a positive integer''
          else
            (case as_uint32 y item of
               None \<Rightarrow> fail yaml_path field (''must be a positive integer ('' @ what y item @ '')'')
             | Some v \<Rightarrow> if v = 0 then fail yaml_path field ''must be a positive integer'' else Inr v))"

definition emit_params :: "('n, 'f) yaml_reader \<Rightarrow> 'n \<Rightarrow> string \<Rightarrow> string \<Rightarrow> string + string" where
  "emit_params y node field yaml_path =
     (case lookup y node ''params'' of
        None \<Rightarrow> Inr []
      | Some params \<Rightarrow>
          if \<not> is_map y params then fail yaml_path field ''must be a map''
          else
            (case emit y params of
               Inl e \<Rightarrow> fail yaml_path field (''could not be serialized: '' @ e)
             | Inr text \<Rightarrow> Inr text))"

definition read_enabled :: "('n, 'f) yaml_reader \<Rightarrow> 'n \<Rightarrow> string \<Rightarrow> string \<Rightarrow> string + bool" where
  "read_enabled y node field yaml_path =
     (case lookup y node ''enabled'' of
        None \<Rightarrow> Inr True
      | Some e \<Rightarrow>
          if \<not> is_scalar y e then fail yaml_path (field @ ''.enabled'') ''must be a boolean''
          else
            (case as_bool y e of
               None \<Rightarrow> fail yaml_path (field @ ''.enabled'') (''must be a boolean ('' @ what y e @ '')'')
             | Some b \<Rightarrow> Inr b))"

section \<open>Components and the scene\<close>

definition parse_component ::
    "('n, 'f) yaml_reader \<Rightarrow> string \<Rightarrow> 'n \<Rightarrow> string \<Rightarrow> string \<Rightarrow> string \<Rightarrow> bool \<Rightarrow> string + component_config" where
  "parse_component y cwd node dir field yaml_path allow_disabled =
     (if \<not> is_map y node then fail yaml_path field ''must be a map''
      else
        then_do (read_enabled y node field yaml_path) (\<lambda>en.
        let required = (\<not> allow_disabled \<or> en) in
        then_do (if required \<or> lookup y node ''name'' \<noteq> None
                 then read_required_string y node ''name'' (field @ ''.name'') yaml_path else Inr []) (\<lambda>nm.
        then_do (if required \<or> lookup y node ''library'' \<noteq> None
                 then read_required_string y node ''library'' (field @ ''.library'') yaml_path else Inr []) (\<lambda>lb.
        then_do (if required \<or> lookup y node ''api_version'' \<noteq> None
                 then read_api_version y node (field @ ''.api_version'') yaml_path else Inr 0) (\<lambda>v.
        then_do (emit_params y node (field @ ''.params'') yaml_path) (\<lambda>ps.
        Inr \<lparr>cc_name = nm, library_path = (if lb = [] then [] else resolve_path cwd dir lb),
             config_dir = dir, params_yaml = ps, api_version = v, enabled = en\<rparr>))))))"

definition load_yaml :: "('n, 'f) yaml_reader \<Rightarrow> string \<Rightarrow> string + 'n" where
  "load_yaml y yaml_path =
     (case load_file y yaml_path of
        Inl (parse, msg) \<Rightarrow>
          Inl (yaml_path @ (if parse then '': YAML parse failed: '' else '': could not be read: '') @ msg)
      | Inr root \<Rightarrow> if \<not> is_map y root then fail yaml_path ''root'' ''must be a map'' else Inr root)"

definition load_scene_config_path :: "('n, 'f) yaml_reader \<Rightarrow> string \<Rightarrow> string \<Rightarrow> string + string" where
  "load_scene_config_path y cwd app_config_path =
     then_do (load_yaml y app_config_path) (\<lambda>root.
       case lookup y root ''pipeline'' of
         None \<Rightarrow> fail app_config_path ''pipeline'' ''must be a map''
       | Some pl \<Rightarrow>
           if \<not> is_map y pl then fail app_config_path ''pipeline'' ''must be a map''
           else
             then_do (read_required_string y pl ''scene_config'' ''pipeline.scene_config'' app_config_path) (\<lambda>p.
             Inr (resolve_path cwd (parent_path (lexically_normal (path_absolute cwd app_config_path))) p)))"

definition check_version :: "('n, 'f) yaml_reader \<Rightarrow> 'n \<Rightarrow> string \<Rightarrow> string + unit" where
  "check_version y root yaml_path =
     (case lookup y root ''version'' of
        None \<Rightarrow> fail yaml_path ''version'' ''must equal 1''
      | Some v \<Rightarrow>
          if \<not> is_scalar y v then fail yaml_path ''version'' ''must equal 1''
          else
            (case as_uint32 y v of
               None \<Rightarrow> fail yaml_path ''version'' (''must equal 1 ('' @ what y v @ '')'')
             | Some n \<Rightarrow> if n \<noteq> 1 then fail yaml_path ''version'' ''must equal 1'' else Inr ()))"

fun parse_processors ::
    "('n, 'f) yaml_reader \<Rightarrow> string \<Rightarrow> string \<Rightarrow> string \<Rightarrow> nat \<Rightarrow> 'n list \<Rightarrow> string + component_config list" where
  "parse_processors y cwd dir yaml_path k [] = Inr []"
| "parse_processors y cwd dir yaml_path k (n # ns) =
     then_do (parse_component y cwd n dir (''postprocessors['' @ to_string (int k) @ '']'') yaml_path True) (\<lambda>c.
     then_do (parse_processors y cwd dir yaml_path (Suc k) ns) (\<lambda>cs. Inr (c # cs)))"

definition parse_scene :: "('n, 'f) yaml_reader \<Rightarrow> string \<Rightarrow> 'n \<Rightarrow> string \<Rightarrow> string \<Rightarrow> string + scene_config" where
  "parse_scene y cwd root dir yaml_path =
     (case lookup y root ''scene'' of
        None \<Rightarrow> fail yaml_path ''scene'' ''must be a map''
      | Some sc \<Rightarrow>
          then_do (parse_component y cwd sc dir ''scene'' yaml_path False) (\<lambda>c.
          case lookup y root ''postprocessors'' of
            None \<Rightarrow> Inr \<lparr>scene = c, postprocessors = []\<rparr>
          | Some pp \<Rightarrow>
              if \<not> is_sequence y pp then fail yaml_path ''postprocessors'' ''must be a sequence''
              else
                then_do (parse_processors y cwd dir yaml_path 0 (items y pp)) (\<lambda>cs.
                Inr \<lparr>scene = c, postprocessors = cs\<rparr>)))"

text \<open>The second component is what the caller's configuration holds afterwards.\<close>

definition load_scene_config ::
    "('n, 'f) yaml_reader \<Rightarrow> string \<Rightarrow> string \<Rightarrow> scene_config \<Rightarrow> string option \<times> scene_config" where
  "load_scene_config y cwd path cfg =
     (case then_do (load_yaml y path) (\<lambda>root.
           then_do (check_version y root path) (\<lambda>_.
           parse_scene y cwd root (parent_path (lexically_normal (path_absolute cwd path))) path)) of
        Inl e \<Rightarrow> (Some e, cfg)
      | Inr parsed \<Rightarrow> (None, parsed))"

section \<open>Normal paths\<close>

definition name_ok :: "string \<Rightarrow> bool" where
  "name_ok n \<longleftrightarrow> n \<noteq> [] \<and> n \<noteq> ''.'' \<and> n \<noteq> ''..'' \<and> CHR ''/'' \<notin> set n"

lemma split_path_no_sep: "CHR ''/'' \<notin> set acc \<Longrightarrow> n \<in> set (split_path acc p) \<Longrightarrow> CHR ''/'' \<notin> set n"
  by (induction acc p arbitrary: n rule: split_path.induct) (auto split: if_splits)

lemma normal_names_ok:
  "list_all name_ok st \<Longrightarrow> \<forall>n \<in> set ns. CHR ''/'' \<notin> set n \<Longrightarrow> list_all name_ok (fst (normal_names ns st sep))"
proof (induction ns st sep rule: normal_names.induct)
  case (2 n ns st sep)
  then have tl: "list_all name_ok (tl st)" by (cases st) auto
  consider "n = [] \<or> n = ''.''" | "n = ''..''" | "name_ok n" using "2.prems"(2) by (auto simp: name_ok_def)
  then show ?case
  proof cases
    case 1
    then show ?thesis using "2.IH"(1) "2.prems" by simp
  next
    case 2
    then show ?thesis using "2.IH"(2) "2.prems" tl by simp
  next
    case 3
    then show ?thesis using "2.IH"(3) "2.prems" by (simp add: name_ok_def)
  qed
qed simp

lemma split_path_name: "CHR ''/'' \<notin> set n \<Longrightarrow> split_path acc n = [rev acc @ n]"
  by (induction n arbitrary: acc) auto

lemma split_path_name_sep:
  "CHR ''/'' \<notin> set n \<Longrightarrow> split_path acc (n @ CHR ''/'' # p) = (rev acc @ n) # split_path [] p"
  by (induction n arbitrary: acc) auto

lemma split_join:
  "ns \<noteq> [] \<Longrightarrow> list_all name_ok ns \<Longrightarrow>
   split_path [] (join_path ns @ (if sep then ''/'' else [])) = ns @ (if sep then [[]] else [])"
proof (induction ns rule: join_path.induct)
  case (2 n)
  then show ?case by (simp add: name_ok_def split_path_name split_path_name_sep)
next
  case (3 n m ns)
  then show ?case using split_path_name_sep [of n "[]"] by (simp add: name_ok_def)
qed simp

lemma normal_names_names:
  "list_all name_ok ns \<Longrightarrow> normal_names (ns @ rest) st sep = normal_names rest (rev ns @ st) (if ns = [] then sep else False)"
  by (induction ns arbitrary: st sep) (auto simp: name_ok_def)

lemma lexically_normal_names:
  obtains ns sep where "list_all name_ok ns" "lexically_normal p = CHR ''/'' # (if ns = [] then [] else join_path ns @ (if sep then ''/'' else []))"
proof -
  obtain ns sep where n: "normal_names (split_path [] (tl p)) [] False = (ns, sep)" by fastforce
  have "list_all name_ok ns"
    using normal_names_ok [of "[]" "split_path [] (tl p)" False] split_path_no_sep [of "[]"] n by fastforce
  then show ?thesis using that n by (auto simp: lexically_normal_def)
qed

lemma normal_components:
  assumes "list_all name_ok ns" "q = CHR ''/'' # (if ns = [] then [] else join_path ns @ (if sep then ''/'' else []))"
  shows "split_path [] (tl q) = (if ns = [] then [[]] else ns @ (if sep then [[]] else []))"
  using assms split_join by auto

lemma normal_idempotent:
  assumes "list_all name_ok ns" "q = CHR ''/'' # (if ns = [] then [] else join_path ns @ (if sep then ''/'' else []))"
  shows "lexically_normal q = q"
proof -
  have "normal_names (if ns = [] then [[]] else ns @ (if sep then [[]] else [])) [] False = (ns, ns = [] \<or> sep)"
    using normal_names_names [OF assms(1), of "[]" "[]" False] normal_names_names [OF assms(1), of "[[]]" "[]" False] by auto
  then show ?thesis unfolding lexically_normal_def normal_components [OF assms] using assms(2) by auto
qed

text \<open>A resolved path is absolute and normal, and stays as it is when it is normalised again: no
  component is a dot or two dots, and only the last one may be empty.\<close>

theorem resolved_path_normal:
  "let q = resolve_path cwd base p
   in hd q = CHR ''/'' \<and> list_all name_ok (butlast (split_path [] (tl q))) \<and>
      last (split_path [] (tl q)) \<notin> {''.'', ''..''} \<and> lexically_normal q = q"
proof -
  obtain ns sep where n: "list_all name_ok ns"
    "resolve_path cwd base p = CHR ''/'' # (if ns = [] then [] else join_path ns @ (if sep then ''/'' else []))"
    unfolding resolve_path_def by (rule lexically_normal_names)
  have "list_all name_ok (butlast ns)" using n(1) by (auto simp: list_all_iff dest: in_set_butlastD)
  moreover have "ns \<noteq> [] \<Longrightarrow> name_ok (last ns)" using n(1) by (simp add: list_all_iff)
  ultimately show ?thesis
    using normal_components [OF n] normal_idempotent [OF n] n by (auto simp: Let_def butlast_append name_ok_def)
qed

section \<open>What a reader returns\<close>

text \<open>\<open>names_file\<close>: an error text starts with the file it is about.\<close>

definition names_file :: "string \<Rightarrow> string + 'a \<Rightarrow> bool" where
  "names_file yaml_path r \<longleftrightarrow> (case r of Inl e \<Rightarrow> take (length yaml_path) e = yaml_path \<and> length yaml_path < length e | Inr _ \<Rightarrow> True)"

named_theorems readers \<open>readers whose errors name the file\<close>

lemma names_file_Inr [readers]: "names_file p (Inr x)"
  by (simp add: names_file_def)

lemma names_file_fail [readers]: "names_file p (fail p f d)"
  by (simp add: names_file_def fail_def)

lemma names_file_then_do [readers]:
  "names_file p r \<Longrightarrow> (\<And>x. names_file p (f x)) \<Longrightarrow> names_file p (then_do r f)"
  by (cases r) (auto simp: names_file_def)

lemma names_file_string [readers]: "names_file p (read_required_string y node key field p)"
  by (auto simp: read_required_string_def intro: readers split: option.split)

lemma names_file_version [readers]: "names_file p (read_api_version y node field p)"
  by (auto simp: read_api_version_def intro: readers split: option.split)

lemma names_file_emit [readers]: "names_file p (emit_params y node field p)"
  by (auto simp: emit_params_def intro: readers split: option.split sum.split)

lemma names_file_enabled [readers]: "names_file p (read_enabled y node field p)"
  by (auto simp: read_enabled_def intro: readers split: option.split)

lemma names_file_component [readers]: "names_file p (parse_component y cwd node dir field p allow)"
  unfolding parse_component_def Let_def by (auto intro!: readers)

lemma names_file_load [readers]: "names_file p (load_yaml y p)"
  by (auto simp: load_yaml_def names_file_def fail_def split: sum.split prod.split)

lemma names_file_check [readers]: "names_file p (check_version y root p)"
  by (auto simp: check_version_def intro: readers split: option.split)

lemma names_file_processors [readers]: "names_file p (parse_processors y cwd dir p k ns)"
  by (induction y cwd dir p k ns rule: parse_processors.induct) (auto intro!: readers)

lemma names_file_scene [readers]: "names_file p (parse_scene y cwd root dir p)"
  unfolding parse_scene_def by (auto intro!: readers split: option.split)

section \<open>What a scene configuration says\<close>

text \<open>The fields of a node, and where a library given in a file of the absolute directory \<open>dir\<close> is.\<close>

definition says_string :: "('n, 'f) yaml_reader \<Rightarrow> 'n \<Rightarrow> string \<Rightarrow> string \<Rightarrow> bool" where
  "says_string y node key v \<longleftrightarrow>
     (\<exists>x. lookup y node key = Some x \<and> is_scalar y x \<and> as_string y x = Some v \<and> v \<noteq> [])"

definition says_version :: "('n, 'f) yaml_reader \<Rightarrow> 'n \<Rightarrow> string \<Rightarrow> u32 \<Rightarrow> bool" where
  "says_version y node key v \<longleftrightarrow> (\<exists>x. lookup y node key = Some x \<and> is_scalar y x \<and> as_uint32 y x = Some v)"

definition says_enabled :: "('n, 'f) yaml_reader \<Rightarrow> 'n \<Rightarrow> bool \<Rightarrow> bool" where
  "says_enabled y node b \<longleftrightarrow>
     (case lookup y node ''enabled'' of None \<Rightarrow> b | Some x \<Rightarrow> is_scalar y x \<and> as_bool y x = Some b)"

definition says_params :: "('n, 'f) yaml_reader \<Rightarrow> 'n \<Rightarrow> string \<Rightarrow> bool" where
  "says_params y node t \<longleftrightarrow>
     (case lookup y node ''params'' of None \<Rightarrow> t = [] | Some x \<Rightarrow> is_map y x \<and> emit y x = Inr t)"

definition library_at :: "string \<Rightarrow> string \<Rightarrow> string" where
  "library_at dir lb = lexically_normal (if hd lb = CHR ''/'' then lb else dir @ ''/'' @ lb)"

text \<open>\<open>c\<close> is what the node says. Of a component that must be there the name, the library and the version are
  given; of any other each of them is given or missing, and empty when it is missing.\<close>

definition component_read :: "('n, 'f) yaml_reader \<Rightarrow> string \<Rightarrow> bool \<Rightarrow> 'n \<Rightarrow> component_config \<Rightarrow> bool" where
  "component_read y dir must node c \<longleftrightarrow>
     is_map y node \<and> config_dir c = dir \<and> says_enabled y node (enabled c) \<and>
     (says_string y node ''name'' (cc_name c) \<or>
       \<not> must \<and> lookup y node ''name'' = None \<and> cc_name c = []) \<and>
     ((\<exists>lb. says_string y node ''library'' lb \<and> library_path c = library_at dir lb) \<or>
       \<not> must \<and> lookup y node ''library'' = None \<and> library_path c = []) \<and>
     (says_version y node ''api_version'' (api_version c) \<and> api_version c \<noteq> 0 \<or>
       \<not> must \<and> lookup y node ''api_version'' = None \<and> api_version c = 0) \<and>
     says_params y node (params_yaml c)"

definition config_directory :: "string \<Rightarrow> string \<Rightarrow> string" where
  "config_directory cwd path = parent_path (lexically_normal (path_absolute cwd path))"

definition scene_read :: "('n, 'f) yaml_reader \<Rightarrow> string \<Rightarrow> string \<Rightarrow> scene_config \<Rightarrow> bool" where
  "scene_read y cwd path cfg \<longleftrightarrow>
     (\<exists>root sc. load_file y path = Inr root \<and> is_map y root \<and> says_version y root ''version'' 1 \<and>
        lookup y root ''scene'' = Some sc \<and>
        component_read y (config_directory cwd path) True sc (scene cfg) \<and>
        (case lookup y root ''postprocessors'' of
           None \<Rightarrow> postprocessors cfg = []
         | Some pp \<Rightarrow> is_sequence y pp \<and>
             list_all2 (\<lambda>n c. component_read y (config_directory cwd path) (enabled c) n c)
               (items y pp) (postprocessors cfg)))"

text \<open>The directory is absolute, and the library is where the code puts it.\<close>

lemma lexically_normal_absolute: "lexically_normal p \<noteq> [] \<and> hd (lexically_normal p) = CHR ''/''"
  by (simp add: lexically_normal_def split: prod.split)

lemma parent_path_absolute:
  assumes "p \<noteq> []" "hd p = CHR ''/''"
  shows "parent_path p \<noteq> [] \<and> hd (parent_path p) = CHR ''/''"
proof -
  let ?d = "rev (dropWhile (\<lambda>c. c \<noteq> CHR ''/'') (rev p))"
  obtain q where p: "p = CHR ''/'' # q" using assms by (cases p) auto
  have "CHR ''/'' \<in> set (rev p)" by (simp add: p)
  then have ne: "dropWhile (\<lambda>c. c \<noteq> CHR ''/'') (rev p) \<noteq> []" by (auto simp: dropWhile_eq_Nil_conv)
  have "p = ?d @ rev (takeWhile (\<lambda>c. c \<noteq> CHR ''/'') (rev p))"
    by (metis rev_append rev_rev_ident takeWhile_dropWhile_id)
  then have "hd ?d = CHR ''/''" using ne p by (metis hd_append2 list.sel(1) rev_is_Nil_conv)
  moreover have "?d \<noteq> []" using ne by simp
  ultimately show ?thesis
    by (cases ?d rule: rev_cases) (auto simp: parent_path_def Let_def hd_append split: if_splits)
qed

lemma config_directory_absolute: "config_directory cwd path \<noteq> [] \<and> hd (config_directory cwd path) = CHR ''/''"
  unfolding config_directory_def by (rule parent_path_absolute) (simp_all add: lexically_normal_absolute)

lemma normal_names_skip:
  "normal_names (xs @ [] # ys) st sep = normal_names (xs @ ys) st sep" if "ys \<noteq> []"
proof (induction xs arbitrary: st sep)
  case Nil
  then show ?case using that by (cases ys) auto
qed auto

lemma split_path_append:
  "split_path acc (p @ CHR ''/'' # q) = split_path acc p @ split_path [] q"
  by (induction acc p rule: split_path.induct) auto

lemma split_path_not_Nil: "split_path acc p \<noteq> []"
  by (induction acc p rule: split_path.induct) auto

lemma resolve_path_at:
  assumes "dir \<noteq> []" "hd dir = CHR ''/''" "lb \<noteq> []"
  shows "resolve_path cwd dir lb = library_at dir lb"
proof (cases "hd lb = CHR ''/''")
  case True
  then show ?thesis using assms by (simp add: resolve_path_def library_at_def path_absolute_def path_append_def)
next
  case False
  then have r: "resolve_path cwd dir lb = lexically_normal (if last dir = CHR ''/'' then dir @ lb else dir @ ''/'' @ lb)"
    using assms by (simp add: resolve_path_def path_absolute_def path_append_def hd_append)
  have "lexically_normal (dir @ lb) = lexically_normal (dir @ ''/'' @ lb)" if l: "last dir = CHR ''/''"
  proof (cases "tl dir")
    case Nil
    then have "dir = ''/''" using assms by (cases dir) auto
    then show ?thesis using normal_names_skip [of "split_path [] lb" "[]" "[]" False] split_path_not_Nil
      by (simp add: lexically_normal_def)
  next
    case (Cons c cs)
    then have "last (tl dir) = CHR ''/''" using l by (cases dir) auto
    then obtain d where d: "tl dir = d @ ''/''" using Cons by (metis append_butlast_last_id list.discI)
    have "tl (dir @ lb) = d @ CHR ''/'' # lb" "tl (dir @ ''/'' @ lb) = d @ CHR ''/'' # CHR ''/'' # lb"
      using assms(1) d by simp_all
    then have "split_path [] (tl (dir @ lb)) = split_path [] d @ split_path [] lb"
      "split_path [] (tl (dir @ ''/'' @ lb)) = split_path [] d @ [] # split_path [] lb"
      by (simp_all add: split_path_append)
    then show ?thesis using normal_names_skip [of "split_path [] lb" "split_path [] d" "[]" False] split_path_not_Nil
      by (simp add: lexically_normal_def)
  qed
  then show ?thesis using r False by (simp add: library_at_def)
qed

section \<open>The readers read what is said\<close>

named_theorems said \<open>when a reader succeeds\<close>

lemma fail_not_Inr [simp]: "fail p f d \<noteq> Inr x" "Inr x \<noteq> fail p f d"
  by (simp_all add: fail_def)

lemma read_required_string_iff [said]: "read_required_string y node key field p = Inr v \<longleftrightarrow> says_string y node key v"
  by (auto simp: read_required_string_def says_string_def split: option.splits if_splits)

lemma read_api_version_iff [said]:
  "read_api_version y node field p = Inr v \<longleftrightarrow> says_version y node ''api_version'' v \<and> v \<noteq> 0"
  by (auto simp: read_api_version_def says_version_def split: option.splits if_splits)

lemma emit_params_iff [said]: "emit_params y node field p = Inr t \<longleftrightarrow> says_params y node t"
  by (auto simp: emit_params_def says_params_def split: option.splits sum.splits if_splits)

lemma read_enabled_iff [said]: "read_enabled y node field p = Inr b \<longleftrightarrow> says_enabled y node b"
  by (auto simp: read_enabled_def says_enabled_def split: option.splits if_splits)

lemma check_version_iff [said]: "check_version y root p = Inr u \<longleftrightarrow> says_version y root ''version'' 1"
  by (auto simp: check_version_def says_version_def split: option.splits if_splits)

lemma load_yaml_iff [said]: "load_yaml y p = Inr root \<longleftrightarrow> load_file y p = Inr root \<and> is_map y root"
  by (auto simp: load_yaml_def split: sum.splits prod.splits if_splits)

lemma missing_string: "lookup y node key = None \<Longrightarrow> \<not> says_string y node key v"
  by (simp add: says_string_def)

lemma missing_version: "lookup y node key = None \<Longrightarrow> \<not> says_version y node key v"
  by (simp add: says_version_def)

lemma parse_component_iff:
  assumes "dir \<noteq> []" "hd dir = CHR ''/''"
  shows "parse_component y cwd node dir field path allow = Inr c \<longleftrightarrow>
    component_read y dir (\<not> allow \<or> enabled c) node c"
proof (cases "is_map y node")
  case True
  have string: "(if must \<or> lookup y node key \<noteq> None then read_required_string y node key f path else Inr []) = Inr v \<longleftrightarrow>
      says_string y node key v \<or> \<not> must \<and> lookup y node key = None \<and> v = []" for must key f v
    by (auto simp: said missing_string)
  have version: "(if must \<or> lookup y node ''api_version'' \<noteq> None then read_api_version y node f path else Inr 0) = Inr v \<longleftrightarrow>
      says_version y node ''api_version'' v \<and> v \<noteq> 0 \<or> \<not> must \<and> lookup y node ''api_version'' = None \<and> v = 0" for must f v
    by (auto simp: said missing_version)
  have ne: "says_string y node key lb \<Longrightarrow> lb \<noteq> [] \<and> resolve_path cwd dir lb = library_at dir lb" for key lb
    using resolve_path_at [OF assms] by (auto simp: says_string_def)
  have "parse_component y cwd node dir field path allow = Inr c \<longleftrightarrow>
    (\<exists>en nm lb v ps. says_enabled y node en \<and>
       (says_string y node ''name'' nm \<or> \<not> (\<not> allow \<or> en) \<and> lookup y node ''name'' = None \<and> nm = []) \<and>
       (says_string y node ''library'' lb \<or> \<not> (\<not> allow \<or> en) \<and> lookup y node ''library'' = None \<and> lb = []) \<and>
       (says_version y node ''api_version'' v \<and> v \<noteq> 0 \<or> \<not> (\<not> allow \<or> en) \<and> lookup y node ''api_version'' = None \<and> v = 0) \<and>
       says_params y node ps \<and>
       c = \<lparr>cc_name = nm, library_path = (if lb = [] then [] else resolve_path cwd dir lb),
             config_dir = dir, params_yaml = ps, api_version = v, enabled = en\<rparr>)"
    using True unfolding parse_component_def Let_def
    by (simp only: not_True_eq_False if_False then_do_Inr_iff string version said sum.inject eq_commute [of c]) blast
  also have "\<dots> \<longleftrightarrow> component_read y dir (\<not> allow \<or> enabled c) node c"
    unfolding component_read_def using True ne by (cases c) (auto; metis)
  finally show ?thesis .
next
  case False
  then show ?thesis by (simp add: parse_component_def component_read_def)
qed

lemma parse_processors_iff:
  assumes "dir \<noteq> []" "hd dir = CHR ''/''"
  shows "parse_processors y cwd dir path k ns = Inr cs \<longleftrightarrow>
    list_all2 (\<lambda>n c. component_read y dir (enabled c) n c) ns cs"
proof (induction ns arbitrary: k cs)
  case (Cons n ns)
  then show ?case
    by (cases cs) (auto simp: then_do_Inr_iff parse_component_iff [OF assms])
qed auto

lemma parse_scene_iff:
  assumes "dir \<noteq> []" "hd dir = CHR ''/''"
  shows "parse_scene y cwd root dir path = Inr cfg \<longleftrightarrow>
    (\<exists>sc. lookup y root ''scene'' = Some sc \<and> component_read y dir True sc (scene cfg) \<and>
      (case lookup y root ''postprocessors'' of
         None \<Rightarrow> postprocessors cfg = []
       | Some pp \<Rightarrow> is_sequence y pp \<and>
           list_all2 (\<lambda>n c. component_read y dir (enabled c) n c) (items y pp) (postprocessors cfg)))"
  by (cases cfg) (auto simp: parse_scene_def then_do_Inr_iff parse_component_iff [OF assms] parse_processors_iff [OF assms]
      split: option.splits if_splits)

text \<open>C26. Reading a scene configuration succeeds exactly when the file says one, and then the configuration is
  what it says: the version of the file is 1; the scene and the processors, in the order of the file, have
  the names, versions, parameters and switches that stand there; every library given is at its
  normalised path under the directory of the file, or where an absolute path says; and what has to be
  loaded has all three of name, library and version. On failure the caller's configuration is untouched
  and the error starts with the name of the file.\<close>

theorem scene_config_complete_or_untouched:
  "(load_scene_config y cwd path cfg = (None, cfg')) = scene_read y cwd path cfg' \<and>
   (case fst (load_scene_config y cwd path cfg) of
      None \<Rightarrow> True
    | Some e \<Rightarrow> snd (load_scene_config y cwd path cfg) = cfg \<and> take (length path) e = path \<and> length path < length e)"
proof -
  let ?r = "then_do (load_yaml y path) (\<lambda>root.
           then_do (check_version y root path) (\<lambda>_. parse_scene y cwd root (config_directory cwd path) path))"
  have l: "load_scene_config y cwd path cfg = (case ?r of Inl e \<Rightarrow> (Some e, cfg) | Inr parsed \<Rightarrow> (None, parsed))"
    by (simp add: load_scene_config_def config_directory_def)
  have "?r = Inr cfg' \<longleftrightarrow> scene_read y cwd path cfg'"
    using config_directory_absolute [of cwd path]
    by (auto simp: then_do_Inr_iff said parse_scene_iff scene_read_def)
  moreover have "names_file path ?r" by (intro readers)
  ultimately show ?thesis unfolding l by (cases ?r) (auto simp: names_file_def)
qed

end
