(* ===== verification/Stages.thy ===== *)
theory Stages
  imports Frames Rate_Limiter Scene_Config
begin

text \<open>
  The stages of the pipeline (\<open>stages/\<close>) and the start of the host services: what each does with a message,
  composed from the frames, the scene runtime, the scene configuration and the failure reports. The next
  stage, the engine, the codecs and the hardware scaler are arguments: what they return. \<open>None\<close> is an access
  through a null pointer.
\<close>

section \<open>Messages\<close>

definition kMsgAppStart :: int where "kMsgAppStart = 1"
definition kMsgVdecData :: int where "kMsgVdecData = 2"
definition kMsgPreprocData :: int where "kMsgPreprocData = 3"
definition kMsgInfprocData :: int where "kMsgInfprocData = 4"
definition kMsgBusprocData :: int where "kMsgBusprocData = 5"
definition kMsgAppExit :: int where "kMsgAppExit = 10"

lemmas msg_defs = kMsgAppStart_def kMsgVdecData_def kMsgPreprocData_def kMsgInfprocData_def
  kMsgBusprocData_def kMsgAppExit_def

section \<open>Host services\<close>

text \<open>What the parts answer when they start, and the environment variable for the score threshold.\<close>

record host_env =
  arcface_ret :: int
  qdrant_healthy :: bool
  resize_ret :: int
  push_resize_ret :: int
  score_thresh_env :: "string option"

record host_services =
  engine_up :: bool
  client_up :: bool
  face_server_up :: bool
  push_pool_up :: bool
  inited :: bool
  config_kv :: "string \<Rightarrow> string option"

definition host_services_new :: host_services where
  "host_services_new =
     \<lparr>engine_up = False, client_up = False, face_server_up = False, push_pool_up = False, inited = False,
      config_kv = (\<lambda>_. None)\<rparr>"

text \<open>\<open>stof\<close> says whether \<open>std::stof\<close> accepts a text.\<close>

definition host_services_init :: "host_env \<Rightarrow> (string \<Rightarrow> bool) \<Rightarrow> host_services \<Rightarrow> int \<times> host_services" where
  "host_services_init e stof h =
     (if inited h then (0, h)
      else if arcface_ret e \<noteq> 0 then (-1, h\<lparr>engine_up := False\<rparr>)
      else
        (let h1 = h\<lparr>engine_up := True, client_up := True\<rparr>
         in if \<not> qdrant_healthy e then (1, h1)
            else
              (let h2 = h1\<lparr>face_server_up := True, push_pool_up := True\<rparr>
               in if resize_ret e \<noteq> 0 then (-2, h2)
                  else if push_resize_ret e \<noteq> 0 then (-2, h2)
                  else
                    (let thresh = (case score_thresh_env e of
                           Some t \<Rightarrow> if stof t then t else ''0.550000'' | None \<Rightarrow> ''0.550000'')
                     in (0, h2\<lparr>config_kv := (config_kv h2)(''frontal_score_thresh'' \<mapsto> thresh,
                                ''qdrant_collection'' \<mapsto> ''face_embeddings''), inited := True\<rparr>)))))"

definition host_services_shutdown :: "host_services \<Rightarrow> host_services" where
  "host_services_shutdown h =
     h\<lparr>push_pool_up := False, face_server_up := False, client_up := False, engine_up := False, inited := False\<rparr>"

section \<open>BusProcess\<close>

record bus_process =
  bus_host :: host_services
  bus_runtime :: runtime
  bus_next :: int
  frame_seq :: u64
  bus_failures :: bus_limiters
  bus_shut :: bool

definition bus_process_new :: bus_process where
  "bus_process_new =
     \<lparr>bus_host = host_services_new, bus_runtime = runtime_new, bus_next = -1, frame_seq = 0,
      bus_failures = bus_limiters_new, bus_shut = False\<rparr>"

definition bus_shutdown :: "bus_process \<Rightarrow> plug_event list \<times> bus_process" where
  "bus_shutdown b =
     (if bus_shut b then ([], b)
      else
        (let (evs, rt) = runtime_shutdown (bus_runtime b)
         in (evs, b\<lparr>bus_shut := True, bus_runtime := rt, bus_host := host_services_shutdown (bus_host b)\<rparr>)))"

text \<open>\<open>node_id\<close> is what \<open>TaskNodeIdByName\<close> returned, \<open>config\<close> what \<open>LoadSceneConfig\<close> did.\<close>

definition bus_init ::
    "int \<Rightarrow> host_env \<Rightarrow> (string \<Rightarrow> bool) \<Rightarrow> (scene_config \<Rightarrow> string option \<times> scene_config) \<Rightarrow>
     (string \<Rightarrow> plugin_lib) \<Rightarrow> nat \<Rightarrow> bus_process \<Rightarrow> int \<times> plug_event list \<times> nat \<times> bus_process" where
  "bus_init node_id he stof config env fresh b0 =
     (let b = b0\<lparr>bus_next := node_id\<rparr>
      in if node_id < 0 then (-1, [], fresh, b)
         else
           (let (host_ret, h) = host_services_init he stof (bus_host b); b1 = b\<lparr>bus_host := h\<rparr>
            in if host_ret \<noteq> 0 then (let (evs, b2) = bus_shutdown b1 in (host_ret, evs, fresh, b2))
               else
                 (case config \<lparr>scene = \<lparr>cc_name = [], library_path = [], config_dir = [], params_yaml = [],
                                       api_version = 0, enabled = True\<rparr>, postprocessors = []\<rparr> of
                    (Some err, cfg) \<Rightarrow> (let (evs, b2) = bus_shutdown b1 in (-1, evs, fresh, b2))
                  | (None, cfg) \<Rightarrow>
                      (let (load_ret, levs, fresh', rt) = runtime_init env fresh True cfg (bus_runtime b1);
                           b3 = b1\<lparr>bus_runtime := rt\<rparr>
                       in if load_ret \<noteq> 0 then
                            (let (evs, b4) = bus_shutdown b3 in (load_ret, levs @ evs, fresh', b4))
                          else (0, levs, fresh', b3)))))"

text \<open>What handling a message did to the outside: what was sent on (the node, the message id, the image of
  the \<open>BusData\<close>), mappings, plugin calls, log lines.\<close>

record bus_effects =
  sent_on :: "(int \<times> int \<times> image_data) list"
  mem_evs :: "mem_event list"
  plug_evs :: "plug_event list"
  bus_logs :: "bus_log list"

definition no_effects :: bus_effects where
  "no_effects = \<lparr>sent_on = [], mem_evs = [], plug_evs = [], bus_logs = []\<rparr>"

definition pixels_ok :: "image_data \<Rightarrow> bool" where
  "pixels_ok img =
     (case data img of None \<Rightarrow> False
      | Some fd \<Rightarrow> (case info fd of None \<Rightarrow> False | Some v \<Rightarrow> vir_addr v ! 0 \<noteq> 0))"

text \<open>One frame: map, run the scene, unmap, send on. \<open>run\<close> and \<open>on_frame\<close> are what the loaded plugins do,
  \<open>send\<close> is the result of \<open>SendMessage\<close>.\<close>

definition bus_frame ::
    "mem_api \<Rightarrow> (nat \<Rightarrow> 'f object list \<Rightarrow> int \<times> 'f object list) \<Rightarrow> (nat \<Rightarrow> 'f object list \<Rightarrow> int) \<Rightarrow>
     time_point \<Rightarrow> (int \<Rightarrow> int \<Rightarrow> image_data \<Rightarrow> int) \<Rightarrow> image_data \<Rightarrow> 'f object list \<Rightarrow>
     bus_process \<Rightarrow> (int \<times> bus_effects \<times> bus_process) option" where
  "bus_frame api run on_frame now send img objects b =
     (let (map_ret, mevs, d1) = ensure_mapped api (data img);
          img1 = img\<lparr>data := d1\<rparr>;
          mapped = (map_ret = 0);
          dispatch = make_bus_frame_dispatch_plan True (mapped \<and> pixels_ok img1);
          b1 = b\<lparr>frame_seq := frame_seq b + 1\<rparr>
      in case (if run_runtime dispatch then
                 (case runtime_process run on_frame objects (bus_runtime b1) of
                    None \<Rightarrow> None
                  | Some (res, evs, objs, rt) \<Rightarrow>
                      (let (logs, l) = bus_report_result res now (bus_failures b1)
                       in Some (evs, logs, b1\<lparr>bus_runtime := rt, bus_failures := l\<rparr>)))
               else Some ([], [], b1)) of
           None \<Rightarrow> None
         | Some (pevs, logs, b2) \<Rightarrow>
             (let (uevs, img2) = (if mapped then (case unmap api d1 of (r, evs, d) \<Rightarrow> (evs, img1\<lparr>data := d\<rparr>))
                                  else ([], img1));
                  forward = (forward_count dispatch = 1)
              in Some (if forward then send (bus_next b2) kMsgBusprocData img2 else 0,
                       \<lparr>sent_on = (if forward then [(bus_next b2, kMsgBusprocData, img2)] else []), mem_evs = mevs @ uevs,
                        plug_evs = pevs, bus_logs = logs\<rparr>, b2)))"

definition bus_message ::
    "mem_api \<Rightarrow> (nat \<Rightarrow> 'f object list \<Rightarrow> int \<times> 'f object list) \<Rightarrow> (nat \<Rightarrow> 'f object list \<Rightarrow> int) \<Rightarrow>
     time_point \<Rightarrow> (int \<Rightarrow> int \<Rightarrow> image_data \<Rightarrow> int) \<Rightarrow> int \<Rightarrow>
     (image_data \<times> 'f object list) option \<Rightarrow> bus_process \<Rightarrow> (int \<times> bus_effects \<times> bus_process) option" where
  "bus_message api run on_frame now send msg_id msg_data b =
     (if msg_id = kMsgInfprocData then
        (case msg_data of
           None \<Rightarrow> Some (0, no_effects, b)
         | Some (img, objects) \<Rightarrow> bus_frame api run on_frame now send img objects b)
      else if msg_id = kMsgAppExit then
        (let (evs, b') = bus_shutdown b in Some (0, no_effects\<lparr>plug_evs := evs\<rparr>, b'))
      else Some (0, no_effects, b))"

section \<open>InfProcess\<close>

definition kErrEngineNotReady :: int where "kErrEngineNotReady = -1"
definition kErrInfer :: int where "kErrInfer = -2"
definition kErrPostprocess :: int where "kErrPostprocess = -3"

record 'f engine =
  engine_init :: int
  engine_process :: "u8 list \<Rightarrow> int"
  engine_postprocess :: "u8 list \<Rightarrow> int \<times> 'f object list"

record 'f inf_process =
  inf_engine :: "'f engine option"
  inf_next :: int
  inf_failures :: inf_report

text \<open>\<open>made\<close> is what \<open>CreateEngine\<close> returned.\<close>

definition inf_init :: "int \<Rightarrow> 'f engine option \<Rightarrow> 'f inf_process \<Rightarrow> int \<times> 'f inf_process" where
  "inf_init node_id made p0 =
     (let p = p0\<lparr>inf_next := node_id\<rparr>
      in if node_id < 0 then (-1, p)
         else (case made of None \<Rightarrow> (-1, p\<lparr>inf_engine := None\<rparr>)
               | Some e \<Rightarrow> (engine_init e, p\<lparr>inf_engine := Some e\<rparr>)))"

text \<open>The message carries an image and its bytes; what is sent on is the image with the objects.\<close>

definition inf_message ::
    "time_point \<Rightarrow> int \<Rightarrow> (image_data \<times> u8 list) option \<Rightarrow> 'f inf_process \<Rightarrow>
     (int \<times> (image_data \<times> 'f object list) list \<times> inf_log option \<times> 'f inf_process) option" where
  "inf_message now msg_id msg_data p =
     (if msg_id \<noteq> kMsgPreprocData then Some (0, [], None, p)
      else
        (case inf_engine p of
           None \<Rightarrow>
             (let (lg, r) = inf_report_failure kErrEngineNotReady now (inf_failures p)
              in Some (kErrEngineNotReady, [], lg, p\<lparr>inf_failures := r\<rparr>))
         | Some e \<Rightarrow>
             (case msg_data of
                None \<Rightarrow> None
              | Some (img, bytes) \<Rightarrow>
                  if engine_process e bytes \<noteq> 0 then
                    (let (lg, r) = inf_report_failure kErrInfer now (inf_failures p)
                     in Some (kErrInfer, [], lg, p\<lparr>inf_failures := r\<rparr>))
                  else
                    (let (pp_ret, objs) = engine_postprocess e bytes
                     in if pp_ret \<noteq> 0 then
                          (let (lg, r) = inf_report_failure kErrPostprocess now (inf_failures p)
                           in Some (kErrPostprocess, [], lg, p\<lparr>inf_failures := r\<rparr>))
                        else
                          (let (lg, r) = inf_report_recovered now (inf_failures p)
                           in Some (0, [(img, objs)], lg, p\<lparr>inf_failures := r\<rparr>))))))"

section \<open>PreProcess\<close>

text \<open>The threads it starts and stops.\<close>

datatype source_event = VdecDecode | FfmpegThread | StopFfmpeg | StopVdec | JoinFfmpeg

record pre_process =
  ffmpeg_started :: bool
  sources_stopped :: bool
  pre_next :: int

definition pre_process_new :: pre_process where
  "pre_process_new = \<lparr>ffmpeg_started = False, sources_stopped = False, pre_next = -1\<rparr>"

definition pre_stop_sources :: "pre_process \<Rightarrow> source_event list \<times> pre_process" where
  "pre_stop_sources p =
     (if sources_stopped p then ([], p\<lparr>sources_stopped := True\<rparr>)
      else
        (let p1 = p\<lparr>sources_stopped := True\<rparr>
         in if ffmpeg_started p1 then ([StopFfmpeg, StopVdec, JoinFfmpeg], p1\<lparr>ffmpeg_started := False\<rparr>)
            else ([StopFfmpeg, StopVdec], p1\<lparr>ffmpeg_started := False\<rparr>)))"

definition pre_init :: "int \<Rightarrow> int \<Rightarrow> int \<Rightarrow> pre_process \<Rightarrow> int \<times> pre_process" where
  "pre_init vdec_ret scaler_ret node_id p =
     (if vdec_ret \<noteq> 0 then (-1, p)
      else if scaler_ret \<noteq> 0 then (-2, p)
      else if node_id < 0 then (-3, p\<lparr>pre_next := node_id\<rparr>)
      else (0, p\<lparr>pre_next := node_id\<rparr>))"

text \<open>\<open>created\<close> says whether \<open>pthread_create\<close> returned 0.\<close>

definition pre_start :: "int \<Rightarrow> bool \<Rightarrow> pre_process \<Rightarrow> int \<times> source_event list \<times> pre_process" where
  "pre_start vdec_ret created p =
     (if created then (vdec_ret, [VdecDecode, FfmpegThread], p\<lparr>ffmpeg_started := True\<rparr>)
      else (vdec_ret, [VdecDecode], p))"





section \<open>EncProcess\<close>

datatype enc_event = EncoderInit | VencInit | VencEncode | VencWrite image_data

definition enc_start :: "int \<Rightarrow> int \<Rightarrow> int \<Rightarrow> int \<times> enc_event list" where
  "enc_start encoder_ret venc_ret encode_ret =
     (if encoder_ret \<noteq> 0 then (-1, [EncoderInit])
      else if venc_ret \<noteq> 0 then (-2, [EncoderInit, VencInit])
      else (encode_ret, [EncoderInit, VencInit, VencEncode]))"

definition enc_message :: "int \<Rightarrow> int \<Rightarrow> int \<Rightarrow> int \<Rightarrow> image_data option \<Rightarrow> (int \<times> enc_event list) option" where
  "enc_message encoder_ret venc_ret encode_ret msg_id msg_data =
     (if msg_id = kMsgAppStart then Some (0, snd (enc_start encoder_ret venc_ret encode_ret))
      else if msg_id = kMsgBusprocData then
        (case msg_data of None \<Rightarrow> None | Some img \<Rightarrow> Some (0, [VencWrite img]))
      else Some (0, []))"

section \<open>The picture stays the same\<close>

text \<open>The same frame up to the virtual addresses; the physical address of a chroma plane that was missing
  may have been derived from the first one.\<close>

definition same_frame :: "video_frame \<Rightarrow> video_frame \<Rightarrow> bool" where
  "same_frame v v' \<longleftrightarrow>
     v'\<lparr>vir_addr := vir_addr v\<rparr> = v \<or>
     phy_addr v ! 1 = 0 \<and>
     v'\<lparr>vir_addr := vir_addr v\<rparr> =
       v\<lparr>phy_addr := (phy_addr v)[1 := phy_addr v ! 0 + ucast (pic_stride v) * ucast (vheight v)]\<rparr>"

definition same_buffer :: "frame_data \<Rightarrow> frame_data \<Rightarrow> bool" where
  "same_buffer fd fd' \<longleftrightarrow>
     mem_id_of fd' = mem_id_of fd \<and> grp fd' = grp fd \<and> chn fd' = chn fd \<and>
     rel_option same_frame (info fd) (info fd')"

definition same_picture :: "image_data \<Rightarrow> image_data \<Rightarrow> bool" where
  "same_picture img img' \<longleftrightarrow>
     width img' = width img \<and> height img' = height img \<and> img_format img' = img_format img \<and>
     end_of_stream img' = end_of_stream img \<and> rel_option same_buffer (data img) (data img')"

abbreviation bare :: "video_frame \<Rightarrow> video_frame" where
  "bare v \<equiv> v\<lparr>vir_addr := []\<rparr>"

lemma same_frame_bare: "same_frame v v' \<longleftrightarrow> bare v' = bare v \<or> bare v' = bare (fill_derived_uv_phy_addr v)"
  by (cases v; cases v') (auto simp: same_frame_def fill_derived_uv_phy_addr_def)

lemma fill_bare: "bare (fill_derived_uv_phy_addr v) = fill_derived_uv_phy_addr (bare v)"
  by (simp add: fill_derived_uv_phy_addr_def)

lemma fill_idem [simp]: "fill_derived_uv_phy_addr (fill_derived_uv_phy_addr v) = fill_derived_uv_phy_addr v"
  by (simp add: fill_derived_uv_phy_addr_def)

lemma same_frame_self [simp]: "same_frame v v" "same_frame v (fill_derived_uv_phy_addr v)"
  by (simp_all add: same_frame_bare)

lemma same_frame_join: "same_frame u v \<Longrightarrow> same_frame v w \<Longrightarrow> same_frame u w"
  unfolding same_frame_bare fill_bare by auto

lemma same_buffer_refl [simp]: "same_buffer fd fd"
  by (cases "info fd") (simp_all add: same_buffer_def)

lemma same_buffer_trans: "same_buffer a b \<Longrightarrow> same_buffer b c \<Longrightarrow> same_buffer a c"
  by (auto simp: same_buffer_def option_rel_Some1 option_rel_Some2 intro: same_frame_join elim!: option.rel_cases)

lemma same_data_refl [simp]: "rel_option same_buffer d d"
  by (cases d) simp_all

lemma same_data_trans: "rel_option same_buffer a b \<Longrightarrow> rel_option same_buffer b c \<Longrightarrow> rel_option same_buffer a c"
  by (auto intro: same_buffer_trans elim!: option.rel_cases)

lemma rollback_bare: "bare (snd (rollback sz k n v)) = bare v"
  by (induction sz k n v rule: rollback.induct) (auto simp: Let_def set_vir_def split: prod.splits)

lemma map_planes_bare: "bare (snd (snd (map_planes api sz i n v))) = bare v"
proof (induction api sz i n v rule: map_planes.induct)
  case (2 api sz i n v)
  then show ?case using rollback_bare [of sz 0 i v] by (auto simp: Let_def set_vir_def split: prod.splits)
qed simp

lemma unmap_planes_bare: "bare (snd (snd (unmap_planes api sz i n e v))) = bare v"
  by (induction api sz i n e v rule: unmap_planes.induct) (auto simp: Let_def set_vir_def split: prod.splits)

lemma ensure_mapped_same: "ensure_mapped api d = (r, evs, d') \<Longrightarrow> rel_option same_buffer d d'"
  by (auto simp: ensure_mapped_def Let_def same_buffer_def same_frame_bare
      dest!: arg_cong [of _ _ "\<lambda>x. bare (snd (snd x))"] simp: map_planes_bare split: option.splits if_splits prod.splits)

lemma unmap_same: "unmap api d = (r, evs, d') \<Longrightarrow> rel_option same_buffer d d'"
  by (auto simp: unmap_def Let_def same_buffer_def same_frame_bare
      dest!: arg_cong [of _ _ "\<lambda>x. bare (snd (snd x))"] simp: unmap_planes_bare split: option.splits if_splits prod.splits)

section \<open>What a frame goes through\<close>

text \<open>The scene part of a frame, run or skipped.\<close>

lemma scene_part:
  assumes "runtime_ok fresh (bus_runtime b)"
  shows "\<exists>pevs logs b2. (if c then
                 (case runtime_process run onf objs (bus_runtime b) of
                    None \<Rightarrow> None
                  | Some (res, evs, objs', rt) \<Rightarrow>
                      (let (logs, l) = bus_report_result res now (bus_failures b)
                       in Some (evs, logs, b\<lparr>bus_runtime := rt, bus_failures := l\<rparr>)))
               else Some ([], [], b)) = Some (pevs, logs, b2) \<and>
    (\<not> c \<longrightarrow> pevs = []) \<and> frame_seq b2 = frame_seq b \<and> bus_shut b2 = bus_shut b \<and> bus_next b2 = bus_next b \<and>
    bus_host b2 = bus_host b \<and>
    runtime_ok fresh (bus_runtime b2) \<and> runtime_insts (bus_runtime b2) = runtime_insts (bus_runtime b) \<and>
    mon_run pevs (mon_of (runtime_insts (bus_runtime b))) = Some (mon_of (runtime_insts (bus_runtime b)))"
proof (cases c)
  case True
  obtain res evs objs' rt where p: "runtime_process run onf objs (bus_runtime b) = Some (res, evs, objs', rt)"
    using process_defined [OF assms] by (metis not_None_eq prod_cases4)
  obtain logs l where l: "bus_report_result res now (bus_failures b) = (logs, l)" by fastforce
  show ?thesis
    using run_process [OF assms p] True p l by simp
next
  case False
  then show ?thesis using assms by (simp add: mon_run.simps)
qed

lemma bus_frame_spec:
  assumes "frame_ok fd" "runtime_ok fresh (bus_runtime b)" "data img = Some fd"
  shows "\<exists>eff b' fd'. bus_frame api run onf now send img objs b =
      Some (send (bus_next b) kMsgBusprocData (img\<lparr>data := Some fd'\<rparr>), eff, b') \<and>
    sent_on eff = [(bus_next b, kMsgBusprocData, img\<lparr>data := Some fd'\<rparr>)] \<and> frame_ok fd' \<and> mem_id_of fd' = mem_id_of fd \<and>
    mappings (mem_evs eff) + open_of fd = unmappings (mem_evs eff) + open_of fd' \<and>
    (fst (ensure_mapped api (Some fd)) = 0 \<longrightarrow> open_of fd' = {#}) \<and>
    (fst (ensure_mapped api (Some fd)) \<noteq> 0 \<longrightarrow> plug_evs eff = []) \<and>
    frame_seq b' = frame_seq b + 1 \<and> bus_shut b' = bus_shut b \<and> bus_next b' = bus_next b \<and>
    runtime_ok fresh (bus_runtime b') \<and> runtime_insts (bus_runtime b') = runtime_insts (bus_runtime b) \<and>
    mon_run (plug_evs eff) (mon_of (runtime_insts (bus_runtime b))) = Some (mon_of (runtime_insts (bus_runtime b)))"
proof -
  obtain mr mevs d1 where m: "ensure_mapped api (Some fd) = (mr, mevs, d1)" by (metis prod_cases3)
  obtain fd1 where fd1: "d1 = Some fd1" "frame_ok fd1" "mem_id_of fd1 = mem_id_of fd"
    "mappings mevs + open_of fd = unmappings mevs + open_of fd1"
    using ensure_mapped_spec [OF assms(1) m] by blast
  obtain ur uevs d2 where u: "unmap api (Some fd1) = (ur, uevs, d2)" by (metis prod_cases3)
  obtain fd2 where fd2: "d2 = Some fd2" "frame_ok fd2" "mem_id_of fd2 = mem_id_of fd1"
    "open_of fd2 = {#}" "mappings uevs = {#}" "unmappings uevs = open_of fd1"
    using unmap_spec [OF fd1(2) u] by blast
  define c where "c = (mr = 0 \<and> pixels_ok (img\<lparr>data := d1\<rparr>))"
  define b1 where "b1 = b\<lparr>frame_seq := frame_seq b + 1\<rparr>"
  have b1: "bus_runtime b1 = bus_runtime b" "bus_next b1 = bus_next b" "bus_shut b1 = bus_shut b"
    "frame_seq b1 = frame_seq b + 1" by (simp_all add: b1_def)
  obtain pevs logs b2 where sc: "(if c then
                 (case runtime_process run onf objs (bus_runtime b1) of
                    None \<Rightarrow> None
                  | Some (res, evs, objs', rt) \<Rightarrow>
                      (let (logs, l) = bus_report_result res now (bus_failures b1)
                       in Some (evs, logs, b1\<lparr>bus_runtime := rt, bus_failures := l\<rparr>)))
               else Some ([], [], b1)) = Some (pevs, logs, b2)"
    and s: "\<not> c \<longrightarrow> pevs = []" "frame_seq b2 = frame_seq b1" "bus_shut b2 = bus_shut b1" "bus_next b2 = bus_next b1"
      "runtime_ok fresh (bus_runtime b2)" "runtime_insts (bus_runtime b2) = runtime_insts (bus_runtime b1)"
      "mon_run pevs (mon_of (runtime_insts (bus_runtime b1))) = Some (mon_of (runtime_insts (bus_runtime b1)))"
    using scene_part [of fresh b1 c now run onf objs] assms(2) b1(1) by metis
  define fd' where "fd' = (if mr = 0 then fd2 else fd1)"
  define uevs' where "uevs' = (if mr = 0 then uevs else [])"
  have "bus_frame api run onf now send img objs b =
      Some (send (bus_next b) kMsgBusprocData (img\<lparr>data := Some fd'\<rparr>),
        \<lparr>sent_on = [(bus_next b, kMsgBusprocData, img\<lparr>data := Some fd'\<rparr>)], mem_evs = mevs @ uevs', plug_evs = pevs, bus_logs = logs\<rparr>, b2)"
    using sc s(4) u unfolding c_def b1_def
    by (cases "runtime_process run onf objs (bus_runtime b)")
      (auto simp: bus_frame_def assms(3) m make_bus_frame_dispatch_plan_def Let_def fd1(1) fd2(1) fd'_def uevs'_def
        split: if_splits prod.splits)
  moreover have "mappings (mevs @ uevs') + open_of fd = unmappings (mevs @ uevs') + open_of fd'"
    using fd1(4) fd2(4-6) by (simp add: fd'_def uevs'_def ac_simps)
  ultimately show ?thesis
    using fd1(2,3) fd2(2-4) s b1 m by (auto simp: fd'_def c_def)
qed

section \<open>The life of the business stage\<close>

text \<open>One call of \<open>Process\<close> by the worker thread, with all that the outside answers during it.\<close>

datatype 'f bus_call =
  BusCall mem_api "nat \<Rightarrow> 'f object list \<Rightarrow> int \<times> 'f object list" "nat \<Rightarrow> 'f object list \<Rightarrow> int"
    time_point "int \<Rightarrow> int \<Rightarrow> image_data \<Rightarrow> int" int "(image_data \<times> 'f object list) option"

fun call_msg :: "'f bus_call \<Rightarrow> int" where
  "call_msg (BusCall api run onf now send msg_id d) = msg_id"

text \<open>The images of the inference messages, in order.\<close>

fun frames_in :: "'f bus_call list \<Rightarrow> image_data list" where
  "frames_in [] = []"
| "frames_in (BusCall api run onf now send msg_id d # cs) =
     (if msg_id = kMsgInfprocData then (case d of None \<Rightarrow> [] | Some (img, objects) \<Rightarrow> [img]) else []) @ frames_in cs"

text \<open>What is sent on for an image: to the next node, as its message, the same picture.\<close>

definition forwards :: "int \<Rightarrow> image_data \<Rightarrow> int \<times> int \<times> image_data \<Rightarrow> bool" where
  "forwards nxt img out \<longleftrightarrow>
     (case out of (node, msg, img') \<Rightarrow> node = nxt \<and> msg = kMsgBusprocData \<and> same_picture img img')"

fun bus_run ::
    "'f bus_call list \<Rightarrow> bus_process \<Rightarrow> (plug_event list \<times> (int \<times> int \<times> image_data) list \<times> bus_process) option" where
  "bus_run [] b = Some ([], [], b)"
| "bus_run (BusCall api run onf now send msg_id d # cs) b =
     (case bus_message api run onf now send msg_id d b of
        None \<Rightarrow> None
      | Some (r, eff, b1) \<Rightarrow>
          map_option (\<lambda>(evs, out, b2). (plug_evs eff @ evs, sent_on eff @ out, b2)) (bus_run cs b1))"

definition bus_inv :: "nat \<Rightarrow> bus_process \<Rightarrow> bool" where
  "bus_inv fresh b = (runtime_ok fresh (bus_runtime b) \<and> (bus_shut b \<longrightarrow> runtime_insts (bus_runtime b) = []))"

definition bus_mon :: "bus_process \<Rightarrow> mon" where
  "bus_mon b = mon_of (runtime_insts (bus_runtime b))"

lemma bus_frame_plugins:
  assumes "bus_inv fresh b"
  shows "\<exists>r eff b'. bus_frame api run onf now send img objs b = Some (r, eff, b') \<and>
    list_all2 (forwards (bus_next b)) [img] (sent_on eff) \<and> bus_next b' = bus_next b \<and>
    bus_inv fresh b' \<and> bus_shut b' = bus_shut b \<and>
    (runtime_insts (bus_runtime b) = [] \<longrightarrow> runtime_insts (bus_runtime b') = []) \<and>
    mon_run (plug_evs eff) (bus_mon b) = Some (bus_mon b')"
proof -
  obtain mr mevs d1 where m: "ensure_mapped api (data img) = (mr, mevs, d1)" by (metis prod_cases3)
  define c where "c = (mr = 0 \<and> pixels_ok (img\<lparr>data := d1\<rparr>))"
  define b1 where "b1 = b\<lparr>frame_seq := frame_seq b + 1\<rparr>"
  have "runtime_ok fresh (bus_runtime b1)" using assms by (simp add: bus_inv_def b1_def)
  note sc = scene_part [OF this, of c now run onf objs]
  obtain ur uevs d2 where u: "unmap api d1 = (ur, uevs, d2)" by (metis prod_cases3)
  have same: "rel_option same_buffer (data img) d1" "rel_option same_buffer (data img) d2"
    using ensure_mapped_same [OF m] unmap_same [OF u] by (auto intro: same_data_trans)
  show ?thesis
    using sc assms same unfolding c_def b1_def
    by (auto simp: bus_frame_def m u make_bus_frame_dispatch_plan_def Let_def bus_inv_def bus_mon_def forwards_def
        same_picture_def split: option.splits prod.splits)
qed

lemma bus_shutdown_spec:
  assumes "bus_inv fresh b" "bus_shutdown b = (evs, b')"
  shows "bus_inv fresh b' \<and> bus_shut b' \<and> mon_run evs (bus_mon b) = Some (bus_mon b') \<and>
    runtime_insts (bus_runtime b') = []"
proof (cases "bus_shut b")
  case True
  then show ?thesis using assms by (auto simp: bus_shutdown_def bus_inv_def mon_run.simps)
next
  case False
  obtain sevs rt where s: "runtime_shutdown (bus_runtime b) = (sevs, rt)" by fastforce
  have ok: "runtime_ok fresh (bus_runtime b)" using assms(1) by (simp add: bus_inv_def)
  have "evs = sevs" "bus_runtime b' = rt" "bus_shut b'"
    using assms(2) False s by (auto simp: bus_shutdown_def)
  then show ?thesis
    using run_shutdown [OF ok s] run_shutdown(1) [OF ok s, of "[]"] by (simp add: bus_inv_def bus_mon_def mon_run.simps)
qed

lemma bus_shutdown_next: "bus_shutdown b = (evs, b') \<Longrightarrow> bus_next b' = bus_next b"
  by (auto simp: bus_shutdown_def split: if_splits prod.splits)

lemma bus_message_spec:
  assumes "bus_inv fresh b"
  shows "\<exists>r eff b'. bus_message api run onf now send msg_id d b = Some (r, eff, b') \<and>
    list_all2 (forwards (bus_next b)) (frames_in [BusCall api run onf now send msg_id d]) (sent_on eff) \<and>
    bus_next b' = bus_next b \<and> bus_inv fresh b' \<and>
    (bus_shut b \<or> msg_id = kMsgAppExit \<longrightarrow> bus_shut b') \<and>
    (runtime_insts (bus_runtime b) = [] \<longrightarrow> runtime_insts (bus_runtime b') = []) \<and>
    mon_run (plug_evs eff) (bus_mon b) = Some (bus_mon b')"
proof -
  consider (frame) img objs where "msg_id = kMsgInfprocData" "d = Some (img, objs)"
    | (exit) "msg_id = kMsgAppExit"
    | (other) "msg_id \<noteq> kMsgAppExit" "msg_id = kMsgInfprocData \<longrightarrow> d = None"
    by (cases d) auto
  then show ?thesis
  proof cases
    case frame
    then show ?thesis
      using bus_frame_plugins [OF assms, of api run onf now send img objs]
      by (auto simp: bus_message_def msg_defs)
  next
    case exit
    obtain evs b' where s: "bus_shutdown b = (evs, b')" by fastforce
    then show ?thesis
      using bus_shutdown_spec [OF assms s] exit bus_shutdown_next [OF s]
      by (simp add: bus_message_def no_effects_def msg_defs)
  next
    case other
    then show ?thesis using assms by (auto simp: bus_message_def no_effects_def mon_run.simps)
  qed
qed

lemma bus_run_spec:
  assumes "bus_inv fresh b"
  shows "\<exists>evs out b'. bus_run cs b = Some (evs, out, b') \<and> bus_inv fresh b' \<and>
    list_all2 (forwards (bus_next b)) (frames_in cs) out \<and>
    (bus_shut b \<or> kMsgAppExit \<in> call_msg ` set cs \<longrightarrow> bus_shut b') \<and>
    (runtime_insts (bus_runtime b) = [] \<longrightarrow> runtime_insts (bus_runtime b') = []) \<and>
    mon_run evs (bus_mon b) = Some (bus_mon b')"
  using assms
proof (induction cs arbitrary: b)
  case Nil
  then show ?case by (simp add: mon_run.simps)
next
  case (Cons c cs)
  obtain api run onf now send msg_id d where c: "c = BusCall api run onf now send msg_id d" by (cases c)
  obtain r eff b1 where m: "bus_message api run onf now send msg_id d b = Some (r, eff, b1)"
    "list_all2 (forwards (bus_next b)) (frames_in [c]) (sent_on eff)" "bus_next b1 = bus_next b" "bus_inv fresh b1"
    "bus_shut b \<or> msg_id = kMsgAppExit \<longrightarrow> bus_shut b1"
    "runtime_insts (bus_runtime b) = [] \<longrightarrow> runtime_insts (bus_runtime b1) = []" "mon_run (plug_evs eff) (bus_mon b) = Some (bus_mon b1)"
    using bus_message_spec [OF Cons.prems, of api run onf now send msg_id d] c by blast
  obtain evs out b2 where t: "bus_run cs b1 = Some (evs, out, b2)" "bus_inv fresh b2"
    "list_all2 (forwards (bus_next b)) (frames_in cs) out"
    "bus_shut b1 \<or> kMsgAppExit \<in> call_msg ` set cs \<longrightarrow> bus_shut b2"
    "runtime_insts (bus_runtime b1) = [] \<longrightarrow> runtime_insts (bus_runtime b2) = []" "mon_run evs (bus_mon b1) = Some (bus_mon b2)"
    using Cons.IH [OF m(4)] m(3) by auto
  moreover have "frames_in (c # cs) = frames_in [c] @ frames_in cs" by (simp add: c)
  ultimately show ?case using m c by (auto simp: mon_run_append intro: list_all2_appendI)
qed

lemma bus_process_new_inv: "bus_inv 0 bus_process_new" "bus_mon bus_process_new = mon_init" "\<not> bus_shut bus_process_new"
  by (simp_all add: bus_inv_def bus_process_new_def bus_mon_def runtime_ok_def runtime_new_def chain_ok_def chain_new_def
      chain_insts_def numbered_def runtime_insts_def mon_of_def mon_init_def fun_eq_iff)

lemma bus_init_next: "bus_init node_id he stof config env fresh b = (r, evs, fresh', b') \<Longrightarrow> bus_next b' = node_id"
  by (auto simp: bus_init_def Let_def bus_shutdown_def split: if_splits prod.splits option.splits)

lemma bus_init_spec:
  assumes "bus_inv fresh b" "\<not> bus_shut b" "runtime_insts (bus_runtime b) = []"
    "bus_init node_id he stof config env fresh b = (r, evs, fresh', b')"
  shows "bus_inv fresh' b' \<and> (r \<noteq> 0 \<longrightarrow> runtime_insts (bus_runtime b') = []) \<and>
    mon_run evs (bus_mon b) = Some (bus_mon b')"
proof -
  let ?cfg0 = "\<lparr>scene = \<lparr>cc_name = [], library_path = [], config_dir = [], params_yaml = [],
    api_version = 0, enabled = True\<rparr>, postprocessors = []\<rparr>"
  define h where "h = snd (host_services_init he stof (bus_host b))"
  define hr where "hr = fst (host_services_init he stof (bus_host b))"
  define b1 where "b1 = b\<lparr>bus_next := node_id, bus_host := h\<rparr>"
  have hh: "host_services_init he stof (bus_host (b\<lparr>bus_next := node_id\<rparr>)) = (hr, h)"
    by (simp add: h_def hr_def)
  have b1: "bus_inv fresh b1" "bus_mon b1 = bus_mon b" "\<not> bus_shut b1" "bus_runtime b1 = bus_runtime b"
    using assms by (simp_all add: b1_def bus_inv_def bus_mon_def)
  consider (low) "node_id < 0" | (failed) "\<not> node_id < 0" "hr \<noteq> 0 \<or> fst (config ?cfg0) \<noteq> None"
    | (load) cfg where "\<not> node_id < 0" "hr = 0" "config ?cfg0 = (None, cfg)"
    by (cases "config ?cfg0") auto
  then show ?thesis
  proof cases
    case low
    then show ?thesis using assms by (auto simp: bus_init_def bus_inv_def bus_mon_def mon_run.simps)
  next
    case failed
    obtain sevs b2 where s: "bus_shutdown b1 = (sevs, b2)" by fastforce
    have "evs = sevs" "fresh' = fresh" "b' = b2"
      using assms(4) failed hh s
      by (auto simp: bus_init_def Let_def b1_def split: if_splits option.splits prod.splits)
    then show ?thesis using bus_shutdown_spec [OF b1(1) s] b1(2) by simp
  next
    case load
    obtain lr levs fresh1 rt where l: "runtime_init env fresh True cfg (bus_runtime b1) = (lr, levs, fresh1, rt)"
      by (metis prod_cases4)
    have ok: "runtime_ok fresh (bus_runtime b1)" using b1(1) by (simp add: bus_inv_def)
    note ri = run_init [OF ok l]
    define b3 where "b3 = b1\<lparr>bus_runtime := rt\<rparr>"
    have b3: "bus_inv fresh1 b3" "mon_run levs (bus_mon b) = Some (bus_mon b3)"
      using ri b1 by (simp_all add: b3_def bus_inv_def bus_mon_def)
    show ?thesis
    proof (cases "lr = 0")
      case True
      then have "evs = levs" "fresh' = fresh1" "b' = b3" "r = 0"
        using assms(4) load hh l by (auto simp: bus_init_def Let_def b1_def b3_def)
      then show ?thesis using b3 by simp
    next
      case False
      obtain sevs b4 where s: "bus_shutdown b3 = (sevs, b4)" by fastforce
      have "evs = levs @ sevs" "fresh' = fresh1" "b' = b4"
        using assms(4) load hh l s False by (auto simp: bus_init_def Let_def b1_def b3_def)
      then show ?thesis using bus_shutdown_spec [OF b3(1) s] b3(2) by (simp add: mon_run_append)
    qed
  qed
qed

section \<open>The scaled frame and the sources\<close>


text \<open>Starts and stops in any order.\<close>

datatype source_call = CallStart int bool | CallStop

fun source_run :: "source_call list \<Rightarrow> pre_process \<Rightarrow> source_event list \<times> pre_process" where
  "source_run [] p = ([], p)"
| "source_run (c # cs) p =
     (case (case c of CallStart r created \<Rightarrow> snd (pre_start r created p) | CallStop \<Rightarrow> pre_stop_sources p) of
        (evs, p1) \<Rightarrow> (case source_run cs p1 of (evs', p2) \<Rightarrow> (evs @ evs', p2)))"

text \<open>A start that is handled after the stop (both are asynchronous to each other) leaves the decoding
  thread running, and no later stop joins it.\<close>

lemma stop_before_start_unjoined:
  "source_run [CallStop, CallStart 0 True, CallStop] pre_process_new =
     ([StopFfmpeg, StopVdec, VdecDecode, FfmpegThread],
      \<lparr>ffmpeg_started = True, sources_stopped = True, pre_next = -1\<rparr>)"
  by (simp add: pre_process_new_def pre_start_def pre_stop_sources_def)

section \<open>A concrete life\<close>

definition demo_host_env :: host_env where
  "demo_host_env = \<lparr>arcface_ret = 0, qdrant_healthy = True, resize_ret = 0, push_resize_ret = 0,
     score_thresh_env = None\<rparr>"

definition demo_init :: "int \<times> plug_event list \<times> nat \<times> bus_process" where
  "demo_init = bus_init 3 demo_host_env (\<lambda>t. True) (\<lambda>c. (None, demo_scene ''face.so'')) good_lib 0 bus_process_new"

definition demo_calls :: "int bus_call list" where
  "demo_calls = map (\<lambda>(m, d). BusCall demo_api (\<lambda>i obs. (0, obs)) (\<lambda>i obs. 0) 7 (\<lambda>n m d. 0) m d)
     [(kMsgAppStart, None), (kMsgInfprocData, Some (demo_image YUV420_SEMIPLANAR, [])), (kMsgAppExit, None),
      (kMsgInfprocData, Some (demo_image YUV420_SEMIPLANAR, []))]"

section \<open>Properties\<close>

text \<open>C10. The business stage over its whole life. Whatever the host services, the configuration and the
  libraries do, and whatever messages the worker thread then handles: no call of \<open>Process\<close> touches a null
  pointer; what is sent on is, in order and one for one, the pictures of the inference messages, each to the
  node that \<open>Init\<close> looked up and as \<open>kMsgBusprocData\<close>, with the same size, format and buffer up to its virtual
  addresses and a derived chroma address (also while the scene fails, after a failed start and after the
  exit message); the calls of plugins and libraries conform to the monitor; and after a failed \<open>Init\<close> or an
  exit message no instance is alive.\<close>

theorem bus_lifecycle:
  assumes "bus_init node_id he stof config env 0 bus_process_new = (r, ievs, fresh, b)"
  shows "\<exists>evs out b'. bus_run cs b = Some (evs, out, b') \<and> list_all2 (forwards node_id) (frames_in cs) out \<and>
    mon_run (ievs @ evs) mon_init = Some (bus_mon b') \<and>
    (r \<noteq> 0 \<or> kMsgAppExit \<in> call_msg ` set cs \<longrightarrow> mon_run (ievs @ evs) mon_init = Some mon_init)"
proof -
  have "runtime_insts (bus_runtime bus_process_new) = []"
    by (simp add: bus_process_new_def runtime_new_def runtime_insts_def chain_insts_def chain_new_def)
  note i = bus_init_spec [OF bus_process_new_inv(1,3) this assms]
  have dead: "bus_mon x = mon_init" if "runtime_insts (bus_runtime x) = []" for x
    using that by (simp add: bus_mon_def mon_of_def mon_init_def fun_eq_iff)
  obtain evs out b' where s: "bus_run cs b = Some (evs, out, b')" "bus_inv fresh b'"
    "list_all2 (forwards (bus_next b)) (frames_in cs) out"
    "bus_shut b \<or> kMsgAppExit \<in> call_msg ` set cs \<longrightarrow> bus_shut b'"
    "runtime_insts (bus_runtime b) = [] \<longrightarrow> runtime_insts (bus_runtime b') = []" "mon_run evs (bus_mon b) = Some (bus_mon b')"
    using bus_run_spec [of fresh b cs] i by blast
  have m: "mon_run (ievs @ evs) mon_init = Some (bus_mon b')"
    using i s(6) by (simp add: mon_run_append bus_process_new_inv)
  have "bus_mon b' = mon_init" if "kMsgAppExit \<in> call_msg ` set cs"
    using s(2,4) that by (intro dead) (simp add: bus_inv_def)
  moreover have "bus_mon b' = mon_init" if "r \<noteq> 0"
    using i s(5) that by (intro dead) simp
  ultimately show ?thesis using s(1,3) m bus_init_next [OF assms] by auto
qed

theorem bus_lifecycle_witness:
  "fst demo_init = 0 \<and> (\<exists>evs out b'. bus_run demo_calls (snd (snd (snd demo_init))) = Some (evs, out, b') \<and>
     list_all2 (forwards 3) (replicate 2 (demo_image YUV420_SEMIPLANAR)) out \<and> mon_run (fst (snd demo_init) @ evs) mon_init = Some mon_init)"
proof -
  have r0: "fst demo_init = 0" by code_simp
  have n: "frames_in demo_calls = replicate 2 (demo_image YUV420_SEMIPLANAR)" "kMsgAppExit \<in> call_msg ` set demo_calls"
    by (simp_all add: demo_calls_def msg_defs numeral_2_eq_2)
  obtain r ievs fresh b where d: "demo_init = (r, ievs, fresh, b)" by (metis prod_cases4)
  show ?thesis
    using bus_lifecycle [OF d [unfolded demo_init_def], of demo_calls] r0 n unfolding d by simp blast
qed

text \<open>One frame through the business stage. The frame is sent on once, with the id of the next stage,
  whatever the mapping, the post-processors and the plugin return; what was mapped for it is unmapped again,
  address and size, before it is sent, and a frame whose pixels cannot be mapped reaches no plugin.\<close>

theorem bus_frame_forwarded:
  assumes "frame_ok fd" "runtime_ok fresh (bus_runtime b)" "data img = Some fd"
  shows "\<exists>eff b' fd'. bus_message api run onf now send kMsgInfprocData (Some (img, objs)) b =
      Some (send (bus_next b) kMsgBusprocData (img\<lparr>data := Some fd'\<rparr>), eff, b') \<and>
    sent_on eff = [(bus_next b, kMsgBusprocData, img\<lparr>data := Some fd'\<rparr>)] \<and> frame_ok fd' \<and>
    mappings (mem_evs eff) + open_of fd = unmappings (mem_evs eff) + open_of fd' \<and>
    (if fst (ensure_mapped api (Some fd)) = 0 then open_of fd' = {#} else plug_evs eff = []) \<and>
    frame_seq b' = frame_seq b + 1 \<and> runtime_insts (bus_runtime b') = runtime_insts (bus_runtime b)"
proof -
  obtain eff b' fd' where s: "bus_frame api run onf now send img objs b =
      Some (send (bus_next b) kMsgBusprocData (img\<lparr>data := Some fd'\<rparr>), eff, b')"
    "sent_on eff = [(bus_next b, kMsgBusprocData, img\<lparr>data := Some fd'\<rparr>)]" "frame_ok fd'"
    "mappings (mem_evs eff) + open_of fd = unmappings (mem_evs eff) + open_of fd'"
    "fst (ensure_mapped api (Some fd)) = 0 \<longrightarrow> open_of fd' = {#}"
    "fst (ensure_mapped api (Some fd)) \<noteq> 0 \<longrightarrow> plug_evs eff = []"
    "frame_seq b' = frame_seq b + 1" "runtime_insts (bus_runtime b') = runtime_insts (bus_runtime b)"
    using bus_frame_spec [OF assms, of api run onf now send objs] by blast
  then show ?thesis by (intro exI [of _ eff] exI [of _ b'] exI [of _ fd']) (simp add: bus_message_def)
qed

theorem bus_frame_forwarded_witness:
  "\<exists>eff b' fd'. bus_message demo_api (\<lambda>i obs. (0, obs)) (\<lambda>i obs. 0 :: int) 7 (\<lambda>n m d. -5) kMsgInfprocData
       (Some (demo_image YUV420_SEMIPLANAR, [] :: int object list)) bus_process_new = Some (-5, eff, b') \<and>
     mappings (mem_evs eff) = unmappings (mem_evs eff) \<and> open_of fd' = {#}"
proof -
  have ok: "frame_ok (demo_frame YUV420_SEMIPLANAR)" "open_of (demo_frame YUV420_SEMIPLANAR) = {#}"
    "fst (ensure_mapped demo_api (Some (demo_frame YUV420_SEMIPLANAR))) = 0"
    by code_simp+
  have rt: "runtime_ok 0 (bus_runtime bus_process_new)" using bus_process_new_inv by (simp add: bus_inv_def)
  have d: "data (demo_image YUV420_SEMIPLANAR) = Some (demo_frame YUV420_SEMIPLANAR)" by (simp add: demo_image_def)
  show ?thesis
    using bus_frame_forwarded [OF ok(1) rt d, of demo_api "\<lambda>i obs. (0, obs)" "\<lambda>i obs. 0" 7 "\<lambda>n m d. -5"
        "[] :: int object list"] ok(2,3) by fastforce
qed



end
