(* ===== verification/Drawing.thy ===== *)
theory Drawing
  imports Frames
begin

text \<open>
  Drawing on a mapped NV12 frame (\<open>hal/drawing.cpp\<close>). A drawing function is modelled by the list of
  the bytes it writes, in order, as offsets from the two plane pointers, so that a write outside of a plane
  is not hidden. Coordinates are integers: the arithmetic on them does not leave the 32 bits for
  coordinates below \<open>2 ^ 29\<close> and frames of less than \<open>2 ^ 31\<close> bytes. The assertions of a debug build are
  left out: an invalid frame is left alone. \<open>DrawText\<close> goes to the text renderers.
\<close>

unbundle bit_operations_syntax

record yuv_color =
  col_y :: u8
  col_u :: u8
  col_v :: u8

datatype byte_write = WriteY int u8 | WriteUV int u8

record frame_buf =
  fb_stride :: int
  fb_width :: int
  fb_height :: int

definition is_frame_valid :: "video_frame option \<Rightarrow> bool" where
  "is_frame_valid f =
     (case f of
        None \<Rightarrow> False
      | Some v \<Rightarrow> \<not> (vir_addr v ! 0 = 0) \<and> \<not> (vwidth v = 0 \<or> vheight v = 0) \<and> \<not> pic_stride v < vwidth v)"

definition get_frame_buf :: "video_frame \<Rightarrow> frame_buf" where
  "get_frame_buf v =
     \<lparr>fb_stride = sint (pic_stride v), fb_width = sint (vwidth v), fb_height = sint (vheight v)\<rparr>"

text \<open>The pattern of 64 pairs; the function caches it for the last colour.\<close>

definition uv_pattern128 :: "yuv_color \<Rightarrow> u8 list" where
  "uv_pattern128 c = concat (replicate 64 [col_u c, col_v c])"

definition uv_write :: "int \<Rightarrow> u8 list \<Rightarrow> byte_write list" where
  "uv_write off bs = map (\<lambda>i. WriteUV (off + int i) (bs ! i)) [0..<length bs]"

fun uv_pairs :: "yuv_color \<Rightarrow> int \<Rightarrow> nat \<Rightarrow> byte_write list" where
  "uv_pairs c dst n =
     (if n \<ge> 2 then WriteUV dst (col_u c) # WriteUV (dst + 1) (col_v c) # uv_pairs c (dst + 2) (n - 2) else [])"

fun uv_fill :: "yuv_color \<Rightarrow> int \<Rightarrow> nat \<Rightarrow> byte_write list" where
  "uv_fill c dst n =
     (if n \<ge> 128 then uv_write dst (uv_pattern128 c) @ uv_fill c (dst + 128) (n - 128)
      else uv_pairs c dst n)"

declare uv_pairs.simps [simp del] uv_fill.simps [simp del]

definition draw_horiz_line :: "frame_buf \<Rightarrow> int \<Rightarrow> int \<Rightarrow> int \<Rightarrow> yuv_color \<Rightarrow> byte_write list" where
  "draw_horiz_line fb xa xb y c =
     (if y < 0 \<or> y \<ge> fb_height fb then []
      else
        (let (x1, x2) = (if xa > xb then (xb, xa) else (xa, xb));
             x1 = max 0 x1; x2 = min (fb_width fb - 1) x2
         in if x1 > x2 then []
            else
              (let uv_row = y div 2 * fb_stride fb; uv_start = x1 AND NOT 1; uv_bytes = x2 - uv_start + 2
               in map (\<lambda>i. WriteY (y * fb_stride fb + x1 + i) (col_y c)) [0..x2 - x1] @
                  uv_fill c (uv_row + uv_start) (nat uv_bytes))))"

text \<open>The rows from \<open>y\<close> to \<open>y2\<close> with a step of two.\<close>

function every_other :: "int \<Rightarrow> int \<Rightarrow> int list" where
  "every_other y y2 = (if y \<le> y2 then y # every_other (y + 2) y2 else [])"
  by pat_completeness auto

termination every_other
  by (relation "measure (\<lambda>(y, y2). nat (y2 - y + 1))") auto

declare every_other.simps [simp del]

definition draw_vert_line :: "frame_buf \<Rightarrow> int \<Rightarrow> int \<Rightarrow> int \<Rightarrow> yuv_color \<Rightarrow> byte_write list" where
  "draw_vert_line fb x ya yb c =
     (if x < 0 \<or> x \<ge> fb_width fb then []
      else
        (let (y1, y2) = (if ya > yb then (yb, ya) else (ya, yb));
             y1 = max 0 y1; y2 = min (fb_height fb - 1) y2
         in if y1 > y2 then []
            else
              (let uv_x = x AND NOT 1; uv_y1 = y1 OR 1; uv_y1 = (if uv_y1 > y2 then y1 else uv_y1)
               in map (\<lambda>y. WriteY (y * fb_stride fb + x) (col_y c)) [y1..y2] @
                  concat (map (\<lambda>y. let off = y div 2 * fb_stride fb + uv_x
                                   in [WriteUV off (col_u c), WriteUV (off + 1) (col_v c)]) (every_other uv_y1 y2)))))"

definition draw_horiz_band :: "frame_buf \<Rightarrow> int \<Rightarrow> int \<Rightarrow> int \<Rightarrow> int \<Rightarrow> yuv_color \<Rightarrow> byte_write list" where
  "draw_horiz_band fb x1 x2 y line_width c =
     concat (map (\<lambda>i. draw_horiz_line fb x1 x2 (y + i) c) [0..line_width - 1])"

definition draw_vert_band :: "frame_buf \<Rightarrow> int \<Rightarrow> int \<Rightarrow> int \<Rightarrow> int \<Rightarrow> yuv_color \<Rightarrow> byte_write list" where
  "draw_vert_band fb x y1 y2 line_width c =
     concat (map (\<lambda>i. draw_vert_line fb (x + i) y1 y2 c) [0..line_width - 1])"

definition set_pixel :: "video_frame option \<Rightarrow> int \<Rightarrow> int \<Rightarrow> yuv_color \<Rightarrow> byte_write list" where
  "set_pixel f x y c =
     (case f of
        None \<Rightarrow> []
      | Some v \<Rightarrow>
          if \<not> is_frame_valid f then []
          else
            (let w = sint (vwidth v); h = sint (vheight v)
             in if x < 0 \<or> x \<ge> w \<or> y < 0 \<or> y \<ge> h then []
                else
                  (let fb = get_frame_buf v; uv_off = y div 2 * fb_stride fb + (x AND NOT 1)
                   in [WriteY (y * fb_stride fb + x) (col_y c), WriteUV uv_off (col_u c), WriteUV (uv_off + 1) (col_v c)])))"

text \<open>The two Bresenham loops: along \<open>x\<close> and along \<open>y\<close>. \<open>n\<close> is \<open>nstep\<close>.\<close>

function line_along_x ::
    "video_frame option \<Rightarrow> yuv_color \<Rightarrow> int \<Rightarrow> int \<Rightarrow> int \<Rightarrow> int \<Rightarrow> int \<Rightarrow> int \<Rightarrow> int \<Rightarrow> int \<Rightarrow> byte_write list" where
  "line_along_x f c dx dy xstep ystep n eps x0 y0 =
     (if n \<le> dx then
        (let eps1 = eps + dy; (y1, eps2) = (if 2 * eps1 \<ge> dx then (y0 + ystep, eps1 - dx) else (y0, eps1))
         in set_pixel f x0 y0 c @ line_along_x f c dx dy xstep ystep (n + 1) eps2 (x0 + xstep) y1)
      else [])"
  by pat_completeness auto

termination line_along_x
  by (relation "measure (\<lambda>(f, c, dx, dy, xstep, ystep, n, eps, x0, y0). nat (dx + 1 - n))") auto

function line_along_y ::
    "video_frame option \<Rightarrow> yuv_color \<Rightarrow> int \<Rightarrow> int \<Rightarrow> int \<Rightarrow> int \<Rightarrow> int \<Rightarrow> int \<Rightarrow> int \<Rightarrow> int \<Rightarrow> byte_write list" where
  "line_along_y f c dx dy xstep ystep n eps x0 y0 =
     (if n \<le> dy then
        (let eps1 = eps + dx; (x1, eps2) = (if 2 * eps1 \<ge> dy then (x0 + xstep, eps1 - dy) else (x0, eps1))
         in set_pixel f x0 y0 c @ line_along_y f c dx dy xstep ystep (n + 1) eps2 x1 (y0 + ystep))
      else [])"
  by pat_completeness auto

termination line_along_y
  by (relation "measure (\<lambda>(f, c, dx, dy, xstep, ystep, n, eps, x0, y0). nat (dy + 1 - n))") auto

declare line_along_x.simps [simp del] line_along_y.simps [simp del]

definition draw_line ::
    "video_frame option \<Rightarrow> int \<Rightarrow> int \<Rightarrow> int \<Rightarrow> int \<Rightarrow> yuv_color \<Rightarrow> int \<Rightarrow> int \<times> byte_write list" where
  "draw_line f x1 y1 x2 y2 c lw =
     (case f of
        None \<Rightarrow> (-1, [])
      | Some v \<Rightarrow>
          if \<not> is_frame_valid f then (-1, [])
          else
            (let line_width = (if lw < 1 then 1 else lw);
                 w = sint (vwidth v); h = sint (vheight v); fb = get_frame_buf v; half_w = line_width div 2
             in if y1 = y2 then
                  (if y1 < 0 \<or> y1 \<ge> h then (0, [])
                   else
                     (let (x1, x2) = (if x1 > x2 then (x2, x1) else (x1, x2))
                      in (0, concat (map (\<lambda>i.
                           let yy = y1 + i - half_w
                           in if yy \<ge> 0 \<and> yy < h then
                                (let sx = max 0 x1; ex = min (w - 1) x2
                                 in if sx \<le> ex then draw_horiz_line fb sx ex yy c else [])
                              else []) [0..line_width - 1]))))
                else if x1 = x2 then
                  (if x1 < 0 \<or> x1 \<ge> w then (0, [])
                   else
                     (let (y1, y2) = (if y1 > y2 then (y2, y1) else (y1, y2))
                      in (0, concat (map (\<lambda>i.
                           let xx = x1 + i - half_w
                           in if xx \<ge> 0 \<and> xx < w then
                                (let sy = max 0 y1; ey = min (h - 1) y2
                                 in if sy \<le> ey then draw_vert_line fb xx sy ey c else [])
                              else []) [0..line_width - 1]))))
                else
                  (0, concat (map (\<lambda>i.
                     let off = i - half_w; dx = \<bar>x2 - x1\<bar>; dy = \<bar>y2 - y1\<bar>;
                         (x0, x1o, y0, y1o) = (if dx > dy then (x1, x2, y1 + off, y2 + off)
                                               else (x1 + off, x2 + off, y1, y2));
                         xstep = (if x0 < x1o then 1 else -1); ystep = (if y0 < y1o then 1 else -1)
                     in if dx > dy then line_along_x f c dx dy xstep ystep 0 0 x0 y0
                        else line_along_y f c dx dy xstep ystep 0 0 x0 y0) [0..line_width - 1]))))"

definition draw_closed_lines ::
    "video_frame option \<Rightarrow> (int \<times> int) list \<Rightarrow> yuv_color \<Rightarrow> int \<Rightarrow> byte_write list" where
  "draw_closed_lines f points c lw =
     (if length points < 2 then []
      else concat (map (\<lambda>i. let (sx, sy) = points ! i; (ex, ey) = points ! ((i + 1) mod length points)
                            in snd (draw_line f sx sy ex ey c lw)) [0..<length points]))"

definition draw_rect ::
    "video_frame option \<Rightarrow> int \<Rightarrow> int \<Rightarrow> int \<Rightarrow> int \<Rightarrow> yuv_color \<Rightarrow> int \<Rightarrow> byte_write list" where
  "draw_rect f xa ya xb yb c lw0 =
     (case f of
        None \<Rightarrow> []
      | Some v \<Rightarrow>
          if \<not> is_frame_valid f then []
          else
            (let lw = (if lw0 < 1 then 1 else lw0);
                 (x1, x2) = (if xa > xb then (xb, xa) else (xa, xb));
                 (y1, y2) = (if ya > yb then (yb, ya) else (ya, yb));
                 fb = get_frame_buf v
             in draw_horiz_band fb x1 x2 y1 lw c @
                draw_horiz_band fb x1 x2 (y2 - lw + 1) lw c @
                draw_vert_band fb x1 (y1 + lw) (y2 - lw) lw c @
                draw_vert_band fb (x2 - lw + 1) (y1 + lw) (y2 - lw) lw c))"

text \<open>The midpoint loop.\<close>

function circle_loop :: "frame_buf \<Rightarrow> int \<Rightarrow> int \<Rightarrow> yuv_color \<Rightarrow> int \<Rightarrow> int \<Rightarrow> int \<Rightarrow> byte_write list" where
  "circle_loop fb cx cy c x y err =
     (if x \<ge> y then
        draw_horiz_line fb (cx - x) (cx + x) (cy - y) c @
        draw_horiz_line fb (cx - x) (cx + x) (cy + y) c @
        draw_horiz_line fb (cx - y) (cx + y) (cy - x) c @
        draw_horiz_line fb (cx - y) (cx + y) (cy + x) c @
        (let y' = y + 1
         in if err \<le> 0 then circle_loop fb cx cy c x y' (err + (2 * y' + 1))
            else (let x' = x - 1 in circle_loop fb cx cy c x' y' (err + (2 * (y' - x') + 1))))
      else [])"
  by pat_completeness auto

termination circle_loop
  by (relation "measure (\<lambda>(fb, cx, cy, c, x, y, err). nat (x - y + 1))") auto

declare circle_loop.simps [simp del]

definition draw_circle :: "video_frame option \<Rightarrow> int \<Rightarrow> int \<Rightarrow> int \<Rightarrow> yuv_color \<Rightarrow> byte_write list" where
  "draw_circle f cx cy radius c =
     (case f of
        None \<Rightarrow> []
      | Some v \<Rightarrow>
          if \<not> is_frame_valid f then []
          else
            (let w = sint (vwidth v); h = sint (vheight v)
             in if cx < 0 \<or> cx \<ge> w \<or> cy < 0 \<or> cy \<ge> h \<or> radius \<le> 0 then []
                else circle_loop (get_frame_buf v) cx cy c radius 0 (1 - radius)))"

section \<open>Every write is inside its plane\<close>

lemma or_one: "(x :: int) OR 1 = (if even x then x + 1 else x)"
  by (simp add: or_one_eq)

definition fb_ok :: "frame_buf \<Rightarrow> bool" where
  "fb_ok fb = (0 < fb_width fb \<and> fb_width fb \<le> fb_stride fb \<and> 0 < fb_height fb \<and>
     (even (fb_width fb) \<or> fb_width fb < fb_stride fb))"

fun write_ok :: "frame_buf \<Rightarrow> byte_write \<Rightarrow> bool" where
  "write_ok fb (WriteY off b) = (0 \<le> off \<and> off < fb_stride fb * fb_height fb)"
| "write_ok fb (WriteUV off b) = (0 \<le> off \<and> off < fb_stride fb * ((fb_height fb + 1) div 2))"

definition writes_ok :: "frame_buf \<Rightarrow> byte_write list \<Rightarrow> bool" where
  "writes_ok fb ws = (\<forall>w \<in> set ws. write_ok fb w)"

lemma writes_ok_simps [simp]:
  "writes_ok fb []" "writes_ok fb (w # ws) \<longleftrightarrow> write_ok fb w \<and> writes_ok fb ws"
  "writes_ok fb (xs @ ys) \<longleftrightarrow> writes_ok fb xs \<and> writes_ok fb ys"
  "writes_ok fb (concat xss) \<longleftrightarrow> (\<forall>xs \<in> set xss. writes_ok fb xs)"
  by (auto simp: writes_ok_def)

lemma row_in_plane:
  assumes "0 \<le> x" "x < s" "0 \<le> y" "y < (h :: int)"
  shows "0 \<le> y * s + x \<and> y * s + x < s * h"
proof -
  have "y * s + x < (y + 1) * s" using assms by (simp add: distrib_right)
  also have "\<dots> \<le> h * s" using assms by (intro mult_right_mono) auto
  finally show ?thesis using assms by (simp add: mult.commute)
qed

lemma luma_ok: "fb_ok fb \<Longrightarrow> 0 \<le> x \<Longrightarrow> x < fb_width fb \<Longrightarrow> 0 \<le> y \<Longrightarrow> y < fb_height fb \<Longrightarrow>
    write_ok fb (WriteY (y * fb_stride fb + x) b)"
  using row_in_plane [of x "fb_stride fb" y "fb_height fb"] by (simp add: fb_ok_def)

lemma chroma_ok:
  assumes "fb_ok fb" "0 \<le> k" "k \<le> fb_width fb - 1 - (fb_width fb - 1) mod 2 + 1" "0 \<le> y" "y < fb_height fb"
  shows "write_ok fb (WriteUV (y div 2 * fb_stride fb + k) b)"
proof -
  have "k < fb_stride fb" using assms(1,3) by (auto simp: fb_ok_def) presburger+
  moreover have "y div 2 < (fb_height fb + 1) div 2" using assms(5) by linarith
  ultimately show ?thesis
    using row_in_plane [of k "fb_stride fb" "y div 2" "(fb_height fb + 1) div 2"] assms by simp
qed

lemma uv_pairs_range: "w \<in> set (uv_pairs c dst n) \<Longrightarrow>
    \<exists>off b. w = WriteUV off b \<and> dst \<le> off \<and> off < dst + 2 * (int n div 2)"
proof (induction c dst n rule: uv_pairs.induct)
  case (1 c dst n)
  show ?case
  proof (cases "n \<ge> 2")
    case True
    then have n: "int (n - 2) div 2 = int n div 2 - 1" "1 \<le> int n div 2" by (simp_all add: of_nat_diff)
    have "w = WriteUV dst (col_u c) \<or> w = WriteUV (dst + 1) (col_v c) \<or> w \<in> set (uv_pairs c (dst + 2) (n - 2))"
      using 1(2) True by (subst (asm) uv_pairs.simps) auto
    then show ?thesis using 1(1) [OF True] n True by auto
  next
    case False
    then show ?thesis using 1(2) by (simp add: uv_pairs.simps)
  qed
qed

lemma uv_fill_range: "w \<in> set (uv_fill c dst n) \<Longrightarrow>
    \<exists>off b. w = WriteUV off b \<and> dst \<le> off \<and> off < dst + 2 * (int n div 2)"
proof (induction c dst n rule: uv_fill.induct)
  case (1 c dst n)
  show ?case
  proof (cases "n \<ge> 128")
    case True
    then have n: "int (n - 128) div 2 = int n div 2 - 64" "64 \<le> int n div 2" by (simp_all add: of_nat_diff)
    have len: "length (uv_pattern128 c) = 128" by (simp add: uv_pattern128_def length_concat sum_list_replicate)
    have "w \<in> set (uv_write dst (uv_pattern128 c)) \<or> w \<in> set (uv_fill c (dst + 128) (n - 128))"
      using 1(2) True by (subst (asm) uv_fill.simps) auto
    then show ?thesis using 1(1) [OF True] n True by (auto simp: uv_write_def len)
  next
    case False
    then have "w \<in> set (uv_pairs c dst n)" using 1(2) by (simp add: uv_fill.simps [of c dst n])
    then show ?thesis by (rule uv_pairs_range)
  qed
qed

lemma every_other_set: "set (every_other y y2) \<subseteq> {y..y2}"
proof (induction y y2 rule: every_other.induct)
  case (1 y y2)
  then show ?case by (subst every_other.simps) (fastforce simp: subset_iff)
qed

lemma horiz_line_ok: "fb_ok fb \<Longrightarrow> writes_ok fb (draw_horiz_line fb xa xb y c)"
proof -
  assume fb: "fb_ok fb"
  define x1 where "x1 = max 0 (min xa xb)"
  define x2 where "x2 = min (fb_width fb - 1) (max xa xb)"
  have d: "draw_horiz_line fb xa xb y c = (if y < 0 \<or> y \<ge> fb_height fb \<or> x1 > x2 then []
      else map (\<lambda>i. WriteY (y * fb_stride fb + x1 + i) (col_y c)) [0..x2 - x1] @
        uv_fill c (y div 2 * fb_stride fb + (x1 - x1 mod 2)) (nat (x2 - (x1 - x1 mod 2) + 2)))"
    by (auto simp: draw_horiz_line_def Let_def and_minus_two x1_def x2_def)
  show ?thesis
  proof (cases "y < 0 \<or> y \<ge> fb_height fb \<or> x1 > x2")
    case True
    then show ?thesis using d by simp
  next
    case False
    then have y: "0 \<le> y" "y < fb_height fb" and x: "0 \<le> x1" "x1 \<le> x2" "x2 < fb_width fb"
      by (auto simp: x1_def x2_def)
    have l: "write_ok fb (WriteY (y * fb_stride fb + x1 + i) (col_y c))" if "0 \<le> i" "i \<le> x2 - x1" for i
      using luma_ok [OF fb, of "x1 + i" y] y x that by (simp add: ac_simps)
    have u: "write_ok fb w"
      if w: "w \<in> set (uv_fill c (y div 2 * fb_stride fb + (x1 - x1 mod 2)) (nat (x2 - (x1 - x1 mod 2) + 2)))" for w
    proof -
      obtain off b where o: "w = WriteUV off b" "y div 2 * fb_stride fb + (x1 - x1 mod 2) \<le> off"
        "off < y div 2 * fb_stride fb + (x1 - x1 mod 2) + 2 * (int (nat (x2 - (x1 - x1 mod 2) + 2)) div 2)"
        using uv_fill_range [OF w] by blast
      define k where "k = off - y div 2 * fb_stride fb"
      define e where "e = x2 - (x1 - x1 mod 2) + 2"
      have "int (nat e) = e" using x by (simp add: e_def)
      then have k0: "x1 - x1 mod 2 \<le> k" "k < x1 - x1 mod 2 + 2 * (e div 2)"
        using o(2,3) by (simp_all add: k_def e_def)
      then have k: "0 \<le> k" "k \<le> fb_width fb - 1 - (fb_width fb - 1) mod 2 + 1"
        using x unfolding e_def by presburger+
      have "w = WriteUV (y div 2 * fb_stride fb + k) b" using o(1) by (simp add: k_def)
      then show ?thesis using chroma_ok [OF fb k y] by simp
    qed
    show ?thesis using False l u by (subst d) (auto simp: writes_ok_def)
  qed
qed

lemma chroma_pair_ok:
  assumes "fb_ok fb" "0 \<le> x" "x < fb_width fb" "0 \<le> y" "y < fb_height fb"
  shows "write_ok fb (WriteUV (y div 2 * fb_stride fb + (x - x mod 2)) a)"
    "write_ok fb (WriteUV (y div 2 * fb_stride fb + (x - x mod 2) + 1) b)"
proof -
  have k: "0 \<le> x - x mod 2" "x - x mod 2 \<le> fb_width fb - 1 - (fb_width fb - 1) mod 2 + 1"
    "0 \<le> x - x mod 2 + 1" "x - x mod 2 + 1 \<le> fb_width fb - 1 - (fb_width fb - 1) mod 2 + 1"
    using assms(2,3) by presburger+
  show "write_ok fb (WriteUV (y div 2 * fb_stride fb + (x - x mod 2)) a)"
    using chroma_ok [OF assms(1) k(1,2) assms(4,5)] by simp
  show "write_ok fb (WriteUV (y div 2 * fb_stride fb + (x - x mod 2) + 1) b)"
    using chroma_ok [OF assms(1) k(3,4) assms(4,5)] by (simp add: ac_simps)
qed

lemma vert_line_ok: "fb_ok fb \<Longrightarrow> writes_ok fb (draw_vert_line fb x ya yb c)"
proof -
  assume fb: "fb_ok fb"
  define y1 where "y1 = max 0 (min ya yb)"
  define y2 where "y2 = min (fb_height fb - 1) (max ya yb)"
  define s where "s = (let u = y1 OR 1 in if u > y2 then y1 else u)"
  have d: "draw_vert_line fb x ya yb c = (if x < 0 \<or> x \<ge> fb_width fb \<or> y1 > y2 then []
      else map (\<lambda>y. WriteY (y * fb_stride fb + x) (col_y c)) [y1..y2] @
        concat (map (\<lambda>y. let off = y div 2 * fb_stride fb + (x - x mod 2)
                         in [WriteUV off (col_u c), WriteUV (off + 1) (col_v c)]) (every_other s y2)))"
    by (auto simp: draw_vert_line_def Let_def and_minus_two y1_def y2_def s_def)
  show ?thesis
  proof (cases "x < 0 \<or> x \<ge> fb_width fb \<or> y1 > y2")
    case True
    then show ?thesis using d by simp
  next
    case False
    then have x: "0 \<le> x" "x < fb_width fb" and y: "0 \<le> y1" "y1 \<le> y2" "y2 < fb_height fb"
      by (auto simp: y1_def y2_def)
    have s: "y1 \<le> s" by (simp add: s_def or_one Let_def)
    have l: "write_ok fb (WriteY (y * fb_stride fb + x) (col_y c))" if "y1 \<le> y" "y \<le> y2" for y
      using luma_ok [OF fb x, of y] y that by simp
    have u: "write_ok fb (WriteUV (y div 2 * fb_stride fb + (x - x mod 2)) (col_u c)) \<and>
      write_ok fb (WriteUV (y div 2 * fb_stride fb + (x - x mod 2) + 1) (col_v c))"
      if "y \<in> set (every_other s y2)" for y
      using chroma_pair_ok [OF fb x, of y] every_other_set [of s y2] that s y by force
    show ?thesis using False l u by (subst d) (auto simp: writes_ok_def Let_def)
  qed
qed

lemma set_pixel_ok: "fb_ok (get_frame_buf v) \<Longrightarrow> writes_ok (get_frame_buf v) (set_pixel (Some v) x y c)"
  using luma_ok [of "get_frame_buf v" x y] chroma_pair_ok [of "get_frame_buf v" x y]
  by (auto simp: set_pixel_def Let_def get_frame_buf_def and_minus_two)

lemma along_x_ok:
  assumes "fb_ok (get_frame_buf v)"
  shows "writes_ok (get_frame_buf v) (line_along_x (Some v) c dx dy xs ys n eps x0 y0)"
proof (induction "Some v" c dx dy xs ys n eps x0 y0 rule: line_along_x.induct)
  case (1 c dx dy xs ys n eps x0 y0)
  then show ?case using set_pixel_ok [OF assms]
    by (subst line_along_x.simps) (simp add: Let_def split: prod.splits)
qed

lemma along_y_ok:
  assumes "fb_ok (get_frame_buf v)"
  shows "writes_ok (get_frame_buf v) (line_along_y (Some v) c dx dy xs ys n eps x0 y0)"
proof (induction "Some v" c dx dy xs ys n eps x0 y0 rule: line_along_y.induct)
  case (1 c dx dy xs ys n eps x0 y0)
  then show ?case using set_pixel_ok [OF assms]
    by (subst line_along_y.simps) (simp add: Let_def split: prod.splits)
qed

lemma circle_loop_ok: "fb_ok fb \<Longrightarrow> writes_ok fb (circle_loop fb cx cy c x y err)"
proof (induction fb cx cy c x y err rule: circle_loop.induct)
  case (1 fb cx cy c x y err)
  then show ?case
    by (subst circle_loop.simps) (auto simp: Let_def horiz_line_ok)
qed

lemma draw_line_ok:
  assumes "fb_ok (get_frame_buf v)"
  shows "writes_ok (get_frame_buf v) (snd (draw_line (Some v) x1 y1 x2 y2 c lw))"
proof (cases "is_frame_valid (Some v)")
  case True
  consider (h) "y1 = y2" | (v) "y1 \<noteq> y2" "x1 = x2" | (g) "y1 \<noteq> y2" "x1 \<noteq> x2" by blast
  then show ?thesis
  proof cases
    case h
    then show ?thesis using True
      by (cases "x1 > x2") (auto simp: draw_line_def Let_def horiz_line_ok [OF assms])
  next
    case v
    then show ?thesis using True
      by (cases "y1 > y2") (auto simp: draw_line_def Let_def vert_line_ok [OF assms])
  next
    case g
    then show ?thesis using True
      by (cases "\<bar>x2 - x1\<bar> > \<bar>y2 - y1\<bar>")
        (auto simp: draw_line_def Let_def along_x_ok [OF assms] along_y_ok [OF assms])
  qed
qed (simp add: draw_line_def)

lemma draw_rect_ok:
  assumes "fb_ok (get_frame_buf v)"
  shows "writes_ok (get_frame_buf v) (draw_rect (Some v) x1 y1 x2 y2 c lw)"
  by (auto simp: draw_rect_def draw_horiz_band_def draw_vert_band_def Let_def horiz_line_ok vert_line_ok assms
      split: prod.splits)

lemma draw_closed_lines_ok:
  assumes "fb_ok (get_frame_buf v)"
  shows "writes_ok (get_frame_buf v) (draw_closed_lines (Some v) ps c lw)"
  using draw_line_ok [OF assms] by (auto simp: draw_closed_lines_def Let_def split: prod.splits)

lemma draw_circle_ok:
  assumes "fb_ok (get_frame_buf v)"
  shows "writes_ok (get_frame_buf v) (draw_circle (Some v) cx cy r c)"
  by (simp add: draw_circle_def Let_def circle_loop_ok assms)

text \<open>The sizes a frame must have: below \<open>2 ^ 31\<close>, and room for the last chroma pair of a row.\<close>

definition frame_sizes_ok :: "video_frame \<Rightarrow> bool" where
  "frame_sizes_ok v = (pic_stride v < 0x80000000 \<and> vheight v < 0x80000000 \<and>
     (even (vwidth v) \<or> vwidth v < pic_stride v))"

lemma sint_small: "(w :: u32) < 0x80000000 \<Longrightarrow> sint w = uint w"
proof -
  assume "w < 0x80000000"
  then have "uint w < 2 ^ 31" by (simp add: word_less_def)
  moreover have "- (2 ^ 31) \<le> uint w" by (rule order_trans [OF _ uint_ge_0]) simp
  ultimately show ?thesis by (simp add: sint_uint signed_take_bit_int_eq_self_iff)
qed

lemma frame_buf_ok: "is_frame_valid (Some v) \<Longrightarrow> frame_sizes_ok v \<Longrightarrow> fb_ok (get_frame_buf v)"
proof -
  assume v: "is_frame_valid (Some v)" "frame_sizes_ok v"
  then have "vwidth v \<le> pic_stride v" by (simp add: is_frame_valid_def not_less)
  then have w: "vwidth v < 0x80000000" using v(2) by (auto simp: frame_sizes_ok_def intro: le_less_trans)
  have z: "0 < uint x" if "x \<noteq> 0" for x :: u32
    using that by (metis uint_0_iff uint_ge_0 order_le_less)
  have e: "even (uint x)" if "even x" for x :: u32 using that by transfer simp
  show ?thesis
    using v w by (auto simp: fb_ok_def get_frame_buf_def is_frame_valid_def frame_sizes_ok_def sint_small not_less
        word_le_def word_less_def z e)
qed

section \<open>The border of a rectangle\<close>

definition luma_writes :: "byte_write list \<Rightarrow> byte_write set" where
  "luma_writes ws = {w \<in> set ws. \<exists>off b. w = WriteY off b}"

definition luma_at :: "frame_buf \<Rightarrow> yuv_color \<Rightarrow> int \<times> int \<Rightarrow> byte_write" where
  "luma_at fb c p = WriteY (snd p * fb_stride fb + fst p) (col_y c)"

definition in_frame :: "frame_buf \<Rightarrow> (int \<times> int) set" where
  "in_frame fb = {0..<fb_width fb} \<times> {0..<fb_height fb}"

lemma luma_writes_simps [simp]:
  "luma_writes [] = {}" "luma_writes (xs @ ys) = luma_writes xs \<union> luma_writes ys"
  "luma_writes (concat xss) = (\<Union>xs \<in> set xss. luma_writes xs)"
  "luma_writes (WriteUV off b # ws) = luma_writes ws"
  by (auto simp: luma_writes_def)

lemma luma_uv_fill [simp]: "luma_writes (uv_fill c dst n) = {}"
  using uv_fill_range by (fastforce simp: luma_writes_def)

lemma luma_horiz_line:
  "luma_writes (draw_horiz_line fb xa xb y c) = luma_at fb c ` ({min xa xb..max xa xb} \<times> {y} \<inter> in_frame fb)"
proof -
  have m: "luma_writes (map (\<lambda>i. WriteY (y * fb_stride fb + l + i) (col_y c)) [0..u - l]) =
      luma_at fb c ` ({l..u} \<times> {y})" for l u
    by (force simp: luma_writes_def luma_at_def image_iff intro: bexI [of _ "_ - l"])
  show ?thesis
    by (cases "xa > xb") (auto simp: draw_horiz_line_def Let_def m in_frame_def)
qed

lemma luma_vert_line:
  "luma_writes (draw_vert_line fb x ya yb c) = luma_at fb c ` ({x} \<times> {min ya yb..max ya yb} \<inter> in_frame fb)"
proof -
  have m: "luma_writes (map (\<lambda>y. WriteY (y * fb_stride fb + x) (col_y c)) [l..u]) =
      luma_at fb c ` ({x} \<times> {l..u})" for l u
    by (force simp: luma_writes_def luma_at_def)
  show ?thesis
    by (cases "ya > yb") (auto simp: draw_vert_line_def Let_def m in_frame_def)
qed

lemma in_band: "(\<exists>i \<in> {0..lw - 1}. b = y + i) \<longleftrightarrow> y \<le> b \<and> b < y + (lw :: int)"
  by (auto intro: bexI [of _ "b - y"])

lemma luma_horiz_band:
  "luma_writes (draw_horiz_band fb xa xb y lw c) =
     luma_at fb c ` ({min xa xb..max xa xb} \<times> {y..y + lw - 1} \<inter> in_frame fb)"
proof -
  have "(\<Union>i \<in> {0..lw - 1}. {min xa xb..max xa xb} \<times> {y + i} \<inter> in_frame fb) =
      {min xa xb..max xa xb} \<times> {y..y + lw - 1} \<inter> in_frame fb"
    by (auto simp: in_frame_def in_band)
  then show ?thesis by (simp add: draw_horiz_band_def luma_horiz_line image_UN [symmetric])
qed

lemma luma_vert_band:
  "luma_writes (draw_vert_band fb x ya yb lw c) =
     luma_at fb c ` ({x..x + lw - 1} \<times> {min ya yb..max ya yb} \<inter> in_frame fb)"
proof -
  have "(\<Union>i \<in> {0..lw - 1}. {x + i} \<times> {min ya yb..max ya yb} \<inter> in_frame fb) =
      {x..x + lw - 1} \<times> {min ya yb..max ya yb} \<inter> in_frame fb"
    by (auto simp: in_frame_def in_band)
  then show ?thesis by (simp add: draw_vert_band_def luma_vert_line image_UN [symmetric])
qed

text \<open>The pixels at most \<open>lw\<close> from the edge of a rectangle, inside of it.\<close>

definition rect_border :: "int \<Rightarrow> int \<Rightarrow> int \<Rightarrow> int \<Rightarrow> int \<Rightarrow> (int \<times> int) set" where
  "rect_border x1 y1 x2 y2 lw =
     {(x, y). x1 \<le> x \<and> x \<le> x2 \<and> y1 \<le> y \<and> y \<le> y2 \<and>
       (y < y1 + lw \<or> y2 - lw < y \<or> x < x1 + lw \<or> x2 - lw < x)}"

lemma image_pairs: "f ` S = {f (x, y) | x y. (x, y) \<in> S}"
  by force

lemma luma_rect:
  assumes "is_frame_valid (Some v)" "1 \<le> lw" "x1 + lw - 1 \<le> x2" "y1 + 2 * lw - 1 \<le> y2"
  shows "luma_writes (draw_rect (Some v) x1 y1 x2 y2 c lw) =
    luma_at (get_frame_buf v) c ` (rect_border x1 y1 x2 y2 lw \<inter> in_frame (get_frame_buf v))"
proof -
  let ?F = "in_frame (get_frame_buf v)"
  have o: "\<not> x1 > x2" "\<not> y1 > y2" "\<not> lw < 1" using assms by linarith+
  let ?A = "{x1..x2} \<times> {y1..y1 + lw - 1}" and ?B = "{x1..x2} \<times> {y2 - lw + 1..y2 - lw + 1 + lw - 1}"
    and ?V = "{min (y1 + lw) (y2 - lw)..max (y1 + lw) (y2 - lw)}"
  let ?C = "{x1..x1 + lw - 1} \<times> ?V" and ?D = "{x2 - lw + 1..x2 - lw + 1 + lw - 1} \<times> ?V"
  have "rect_border x1 y1 x2 y2 lw = ?A \<union> (?B \<union> (?C \<union> ?D))"
    using assms(2-4) by (auto simp: rect_border_def min_def max_def split: if_splits)
  then have "rect_border x1 y1 x2 y2 lw \<inter> ?F = (?A \<inter> ?F) \<union> ((?B \<inter> ?F) \<union> ((?C \<inter> ?F) \<union> (?D \<inter> ?F)))"
    by (simp add: Int_Un_distrib2)
  then show ?thesis
    using assms(1) o by (simp add: draw_rect_def Let_def luma_horiz_band luma_vert_band image_Un)
qed

text \<open>Below that height the vertical bands are swapped and leave the rectangle: one of a single row gets
  the pixels above and below its two ends.\<close>

lemma flat_rect_leaves_box:
  "WriteY 5 9 \<in> set (draw_rect (Some v) 1 2 3 2 \<lparr>col_y = 9, col_u = 8, col_v = 7\<rparr> 1)"
  if "v = \<lparr>img_fmt = YUV420_SEMIPLANAR, vwidth = 4, vheight = 4, pic_stride = 4, frame_size = 0,
    phy_addr = [1, 1, 0], vir_addr = [1, 1, 0]\<rparr>"
  unfolding that by code_simp

text \<open>A vertical line that ends on an even row does not colour the last chroma row it covers.\<close>

lemma vert_line_misses_chroma:
  "draw_vert_line \<lparr>fb_stride = 4, fb_width = 4, fb_height = 4\<rparr> 0 0 2 \<lparr>col_y = 9, col_u = 8, col_v = 7\<rparr> =
     [WriteY 0 9, WriteY 4 9, WriteY 8 9, WriteUV 0 8, WriteUV 1 7]"
  by code_simp

definition demo_nv12 :: video_frame where
  "demo_nv12 = \<lparr>img_fmt = YUV420_SEMIPLANAR, vwidth = 6, vheight = 5, pic_stride = 8, frame_size = 0,
     phy_addr = [1, 1, 0], vir_addr = [1, 1, 0]\<rparr>"

definition demo_red :: yuv_color where
  "demo_red = \<lparr>col_y = 76, col_u = 85, col_v = 255\<rparr>"

section \<open>Properties\<close>

text \<open>\<open>DrawRect\<close> paints a border: on a valid frame, for a rectangle at least as wide as one line and as
  high as two, the luma bytes written are exactly those of the pixels that lie in the rectangle, in the
  frame, and less than the line width from an edge, all in the luma of the colour.\<close>

theorem draw_rect_paints_border:
  assumes "is_frame_valid (Some v)" "1 \<le> lw" "x1 + lw - 1 \<le> x2" "y1 + 2 * lw - 1 \<le> y2"
  shows "{w \<in> set (draw_rect (Some v) x1 y1 x2 y2 c lw). \<exists>off b. w = WriteY off b} =
    {WriteY (y * sint (pic_stride v) + x) (col_y c) | x y.
       x1 \<le> x \<and> x \<le> x2 \<and> y1 \<le> y \<and> y \<le> y2 \<and> (y < y1 + lw \<or> y2 - lw < y \<or> x < x1 + lw \<or> x2 - lw < x) \<and>
       0 \<le> x \<and> x < sint (vwidth v) \<and> 0 \<le> y \<and> y < sint (vheight v)}"
  unfolding luma_writes_def [symmetric] luma_rect [OF assms] image_pairs
  by (simp add: luma_at_def rect_border_def in_frame_def get_frame_buf_def)

theorem draw_rect_paints_border_witness:
  "WriteY 33 76 \<in> set (draw_rect (Some demo_nv12) 1 1 4 4 demo_red 1) \<and>
   WriteY 18 76 \<notin> set (draw_rect (Some demo_nv12) 1 1 4 4 demo_red 1)"
proof -
  have v: "is_frame_valid (Some demo_nv12)" "sint (pic_stride demo_nv12) = 8" "sint (vwidth demo_nv12) = 6"
    "sint (vheight demo_nv12) = 5" "col_y demo_red = 76" by code_simp+
  note b = draw_rect_paints_border [OF v(1), of 1 1 4 1 4 demo_red, simplified, unfolded v]
  have "WriteY 33 76 \<in> {w \<in> set (draw_rect (Some demo_nv12) 1 1 4 4 demo_red 1). \<exists>off b. w = WriteY off b}"
    unfolding b by (rule CollectI, rule exI [of _ 1], rule exI [of _ 4]) simp
  moreover have "WriteY 18 76 \<notin> {w \<in> set (draw_rect (Some demo_nv12) 1 1 4 4 demo_red 1). \<exists>off b. w = WriteY off b}"
    unfolding b by (auto; presburger)
  ultimately show ?thesis by blast
qed

end
