(* ===== verification/Font_En16.thy ===== *)
theory Font_En16
  imports Ax_Prelude
begin

text \<open>The ASCII font (\<open>hal/osd/FontEn16.h\<close>): sixteen rows of eight pixels for each character, and its index.\<close>

definition g_fontEn16Glyphs :: "u8 list" where
  "g_fontEn16Glyphs = [
     0, 0, 0, 0, 0, 0, 0, 0, 0, 0, 0, 0, 0, 0, 0, 0,
     0, 0x7F, 0x40, 0x40, 0x40, 0x40, 0x40, 0x40, 0x40, 0x40, 0x40, 0x40, 0x40, 0x7F, 0, 0,
     0, 0, 0, 0, 0, 0, 0, 0, 0, 0, 0, 0, 0, 0, 0, 0,
     0, 0x7F, 0x40, 0x40, 0x40, 0x40, 0x40, 0x40, 0x40, 0x40, 0x40, 0x40, 0x40, 0x7F, 0, 0,
     0, 0x7F, 0x40, 0x40, 0x40, 0x40, 0x40, 0x40, 0x40, 0x40, 0x40, 0x40, 0x40, 0x7F, 0, 0,
     0, 0x7F, 0x40, 0x40, 0x40, 0x40, 0x40, 0x40, 0x40, 0x40, 0x40, 0x40, 0x40, 0x7F, 0, 0,
     0, 0x7F, 0x40, 0x40, 0x40, 0x40, 0x40, 0x40, 0x40, 0x40, 0x40, 0x40, 0x40, 0x7F, 0, 0,
     0, 0x7F, 0x40, 0x40, 0x40, 0x40, 0x40, 0x40, 0x40, 0x40, 0x40, 0x40, 0x40, 0x7F, 0, 0,
     0, 0x7F, 0x40, 0x40, 0x40, 0x40, 0x40, 0x40, 0x40, 0x40, 0x40, 0x40, 0x40, 0x7F, 0, 0,
     0, 0x7F, 0x40, 0x40, 0x40, 0x40, 0x40, 0x40, 0x40, 0x40, 0x40, 0x40, 0x40, 0x7F, 0, 0,
     0, 0x7F, 0x40, 0x40, 0x40, 0x40, 0x40, 0x40, 0x40, 0x40, 0x40, 0x40, 0x40, 0x7F, 0, 0,
     0, 0x7F, 0x40, 0x40, 0x40, 0x40, 0x40, 0x40, 0x40, 0x40, 0x40, 0x40, 0x40, 0x7F, 0, 0,
     0, 0, 0, 0, 0, 0, 0x0C, 0x1E, 0x3F, 0x7F, 0x6D, 0x4C, 0x0C, 0x0C, 0, 0,
     0, 0, 0, 0, 0, 0, 0, 0, 0, 0, 0, 0, 0, 0, 0, 0,
     0, 0x7F, 0x40, 0x40, 0x40, 0x40, 0x40, 0x40, 0x40, 0x40, 0x40, 0x40, 0x40, 0x7F, 0, 0,
     0, 0x7F, 0x40, 0x40, 0x40, 0x40, 0x40, 0x40, 0x40, 0x40, 0x40, 0x40, 0x40, 0x7F, 0, 0,
     0, 0x7F, 0x40, 0x40, 0x40, 0x40, 0x40, 0x40, 0x40, 0x40, 0x40, 0x40, 0x40, 0x7F, 0, 0,
     0, 0x7F, 0x40, 0x40, 0x40, 0x40, 0x40, 0x40, 0x40, 0x40, 0x40, 0x40, 0x40, 0x7F, 0, 0,
     0, 0x7F, 0x40, 0x40, 0x40, 0x40, 0x40, 0x40, 0x40, 0x40, 0x40, 0x40, 0x40, 0x7F, 0, 0,
     0, 0x7F, 0x40, 0x40, 0x40, 0x40, 0x40, 0x40, 0x40, 0x40, 0x40, 0x40, 0x40, 0x7F, 0, 0,
     0, 0x7F, 0x40, 0x40, 0x40, 0x40, 0x40, 0x40, 0x40, 0x40, 0x40, 0x40, 0x40, 0x7F, 0, 0,
     0, 0x7F, 0x40, 0x40, 0x40, 0x40, 0x40, 0x40, 0x40, 0x40, 0x40, 0x40, 0x40, 0x7F, 0, 0,
     0, 0x7F, 0x40, 0x40, 0x40, 0x40, 0x40, 0x40, 0x40, 0x40, 0x40, 0x40, 0x40, 0x7F, 0, 0,
     0, 0x7F, 0x40, 0x40, 0x40, 0x40, 0x40, 0x40, 0x40, 0x40, 0x40, 0x40, 0x40, 0x7F, 0, 0,
     0, 0x7F, 0x40, 0x40, 0x40, 0x40, 0x40, 0x40, 0x40, 0x40, 0x40, 0x40, 0x40, 0x7F, 0, 0,
     0, 0x7F, 0x40, 0x40, 0x40, 0x40, 0x40, 0x40, 0x40, 0x40, 0x40, 0x40, 0x40, 0x7F, 0, 0,
     0, 0x7F, 0x40, 0x40, 0x40, 0x40, 0x40, 0x40, 0x40, 0x40, 0x40, 0x40, 0x40, 0x7F, 0, 0,
     0, 0x7F, 0x40, 0x40, 0x40, 0x40, 0x40, 0x40, 0x40, 0x40, 0x40, 0x40, 0x40, 0x7F, 0, 0,
     0, 0x7F, 0x40, 0x40, 0x40, 0x40, 0x40, 0x40, 0x40, 0x40, 0x40, 0x40, 0x40, 0x7F, 0, 0,
     0, 0x7F, 0x40, 0x40, 0x40, 0x40, 0x40, 0x40, 0x40, 0x40, 0x40, 0x40, 0x40, 0x7F, 0, 0,
     0, 0x7F, 0x40, 0x40, 0x40, 0x40, 0x40, 0x40, 0x40, 0x40, 0x40, 0x40, 0x40, 0x7F, 0, 0,
     0, 0x7F, 0x40, 0x40, 0x40, 0x40, 0x40, 0x40, 0x40, 0x40, 0x40, 0x40, 0x40, 0x7F, 0, 0,
     0, 0, 0, 0, 0, 0, 0, 0, 0, 0, 0, 0, 0, 0, 0, 0,
     0, 0, 0, 0x10, 0x10, 0x10, 0x10, 0x10, 0x10, 0x10, 0, 0, 0x10, 0x10, 0, 0,
     0, 0x12, 0x24, 0x24, 0x48, 0, 0, 0, 0, 0, 0, 0, 0, 0, 0, 0,
     0, 0, 0, 0x12, 0x12, 0x12, 0x7E, 0x24, 0x24, 0x24, 0x7E, 0x24, 0x24, 0x24, 0, 0,
     0, 0, 8, 0x3C, 0x4A, 0x4A, 0x48, 0x38, 0x0C, 0x0A, 0x0A, 0x4A, 0x4A, 0x3C, 8, 8,
     0, 0, 0, 0x44, 0xA4, 0xA8, 0xA8, 0xB0, 0x54, 0x1A, 0x2A, 0x2A, 0x4A, 0x44, 0, 0,
     0, 0, 0, 0x30, 0x48, 0x48, 0x48, 0x50, 0x6E, 0xA4, 0x94, 0x98, 0x89, 0x76, 0, 0,
     0, 0x60, 0x20, 0x20, 0x40, 0, 0, 0, 0, 0, 0, 0, 0, 0, 0, 0,
     0, 2, 4, 8, 8, 0x10, 0x10, 0x10, 0x10, 0x10, 0x10, 8, 8, 4, 2, 0,
     0, 0x40, 0x20, 0x10, 0x10, 8, 8, 8, 8, 8, 8, 0x10, 0x10, 0x20, 0x40, 0,
     0, 0, 0, 0, 0x10, 0x10, 0xD6, 0x38, 0x38, 0xD6, 0x10, 0x10, 0, 0, 0, 0,
     0, 0, 0, 0, 0, 8, 8, 8, 0x7F, 8, 8, 8, 0, 0, 0, 0,
     0, 0, 0, 0, 0, 0, 0, 0, 0, 0, 0, 0, 0x60, 0x20, 0x20, 0x40,
     0, 0, 0, 0, 0, 0, 0, 0, 0x7E, 0, 0, 0, 0, 0, 0, 0,
     0, 0, 0, 0, 0, 0, 0, 0, 0, 0, 0, 0, 0x60, 0x60, 0, 0,
     0, 0, 2, 4, 4, 4, 8, 8, 0x10, 0x10, 0x10, 0x20, 0x20, 0x40, 0x40, 0,
     0, 0, 0, 0x18, 0x24, 0x42, 0x42, 0x42, 0x42, 0x42, 0x42, 0x42, 0x24, 0x18, 0, 0,
     0, 0, 0, 8, 0x38, 8, 8, 8, 8, 8, 8, 8, 8, 0x3E, 0, 0,
     0, 0, 0, 0x3C, 0x42, 0x42, 0x42, 2, 4, 8, 0x10, 0x20, 0x42, 0x7E, 0, 0,
     0, 0, 0, 0x3C, 0x42, 0x42, 2, 4, 0x18, 4, 2, 0x42, 0x42, 0x3C, 0, 0,
     0, 0, 0, 4, 0x0C, 0x0C, 0x14, 0x24, 0x24, 0x44, 0x7F, 4, 4, 0x1F, 0, 0,
     0, 0, 0, 0x7E, 0x40, 0x40, 0x40, 0x78, 0x44, 2, 2, 0x42, 0x44, 0x38, 0, 0,
     0, 0, 0, 0x18, 0x24, 0x40, 0x40, 0x5C, 0x62, 0x42, 0x42, 0x42, 0x22, 0x1C, 0, 0,
     0, 0, 0, 0x7E, 0x42, 4, 4, 8, 8, 0x10, 0x10, 0x10, 0x10, 0x10, 0, 0,
     0, 0, 0, 0x3C, 0x42, 0x42, 0x42, 0x24, 0x18, 0x24, 0x42, 0x42, 0x42, 0x3C, 0, 0,
     0, 0, 0, 0x38, 0x44, 0x42, 0x42, 0x42, 0x46, 0x3A, 2, 2, 0x24, 0x18, 0, 0,
     0, 0, 0, 0, 0, 0, 0x18, 0x18, 0, 0, 0, 0, 0x18, 0x18, 0, 0,
     0, 0, 0, 0, 0, 0, 0, 0x10, 0, 0, 0, 0, 0, 0x10, 0x10, 0x10,
     0, 0, 0, 2, 4, 8, 0x10, 0x20, 0x40, 0x20, 0x10, 8, 4, 2, 0, 0,
     0, 0, 0, 0, 0, 0, 0x7E, 0, 0, 0x7E, 0, 0, 0, 0, 0, 0,
     0, 0, 0, 0x40, 0x20, 0x10, 8, 4, 2, 4, 8, 0x10, 0x20, 0x40, 0, 0,
     0, 0, 0, 0x3C, 0x42, 0x42, 0x62, 4, 8, 8, 8, 0, 0x18, 0x18, 0, 0,
     0, 0, 0, 0x38, 0x44, 0x5A, 0xAA, 0xAA, 0xAA, 0xAA, 0xAA, 0x5C, 0x42, 0x3C, 0, 0,
     0, 0, 0, 0x10, 0x10, 0x18, 0x28, 0x28, 0x24, 0x3C, 0x44, 0x42, 0x42, 0xE7, 0, 0,
     0, 0, 0, 0xF8, 0x44, 0x44, 0x44, 0x78, 0x44, 0x42, 0x42, 0x42, 0x44, 0xF8, 0, 0,
     0, 0, 0, 0x3E, 0x42, 0x42, 0x80, 0x80, 0x80, 0x80, 0x80, 0x42, 0x44, 0x38, 0, 0,
     0, 0, 0, 0xF8, 0x44, 0x42, 0x42, 0x42, 0x42, 0x42, 0x42, 0x42, 0x44, 0xF8, 0, 0,
     0, 0, 0, 0xFC, 0x42, 0x48, 0x48, 0x78, 0x48, 0x48, 0x40, 0x42, 0x42, 0xFC, 0, 0,
     0, 0, 0, 0xFC, 0x42, 0x48, 0x48, 0x78, 0x48, 0x48, 0x40, 0x40, 0x40, 0xE0, 0, 0,
     0, 0, 0, 0x3C, 0x44, 0x44, 0x80, 0x80, 0x80, 0x8E, 0x84, 0x44, 0x44, 0x38, 0, 0,
     0, 0, 0, 0xE7, 0x42, 0x42, 0x42, 0x42, 0x7E, 0x42, 0x42, 0x42, 0x42, 0xE7, 0, 0,
     0, 0, 0, 0x7C, 0x10, 0x10, 0x10, 0x10, 0x10, 0x10, 0x10, 0x10, 0x10, 0x7C, 0, 0,
     0, 0, 0, 0x3E, 8, 8, 8, 8, 8, 8, 8, 8, 8, 8, 0x88, 0xF0,
     0, 0, 0, 0xEE, 0x44, 0x48, 0x50, 0x70, 0x50, 0x48, 0x48, 0x44, 0x44, 0xEE, 0, 0,
     0, 0, 0, 0xE0, 0x40, 0x40, 0x40, 0x40, 0x40, 0x40, 0x40, 0x40, 0x42, 0xFE, 0, 0,
     0, 0, 0, 0xEE, 0x6C, 0x6C, 0x6C, 0x6C, 0x6C, 0x54, 0x54, 0x54, 0x54, 0xD6, 0, 0,
     0, 0, 0, 0xC7, 0x62, 0x62, 0x52, 0x52, 0x4A, 0x4A, 0x4A, 0x46, 0x46, 0xE2, 0, 0,
     0, 0, 0, 0x38, 0x44, 0x82, 0x82, 0x82, 0x82, 0x82, 0x82, 0x82, 0x44, 0x38, 0, 0,
     0, 0, 0, 0xFC, 0x42, 0x42, 0x42, 0x42, 0x7C, 0x40, 0x40, 0x40, 0x40, 0xE0, 0, 0,
     0, 0, 0, 0x38, 0x44, 0x82, 0x82, 0x82, 0x82, 0x82, 0x82, 0xB2, 0x4C, 0x38, 6, 0,
     0, 0, 0, 0xFC, 0x42, 0x42, 0x42, 0x7C, 0x48, 0x48, 0x44, 0x44, 0x42, 0xE3, 0, 0,
     0, 0, 0, 0x3E, 0x42, 0x42, 0x40, 0x20, 0x18, 4, 2, 0x42, 0x42, 0x7C, 0, 0,
     0, 0, 0, 0xFE, 0x92, 0x10, 0x10, 0x10, 0x10, 0x10, 0x10, 0x10, 0x10, 0x38, 0, 0,
     0, 0, 0, 0xE7, 0x42, 0x42, 0x42, 0x42, 0x42, 0x42, 0x42, 0x42, 0x42, 0x3C, 0, 0,
     0, 0, 0, 0xE7, 0x42, 0x42, 0x44, 0x24, 0x24, 0x28, 0x28, 0x18, 0x10, 0x10, 0, 0,
     0, 0, 0, 0xD6, 0x54, 0x54, 0x54, 0x54, 0x54, 0x6C, 0x28, 0x28, 0x28, 0x28, 0, 0,
     0, 0, 0, 0xE7, 0x42, 0x24, 0x24, 0x18, 0x18, 0x18, 0x24, 0x24, 0x42, 0xE7, 0, 0,
     0, 0, 0, 0xEE, 0x44, 0x44, 0x28, 0x28, 0x10, 0x10, 0x10, 0x10, 0x10, 0x38, 0, 0,
     0, 0, 0, 0x7E, 0x84, 4, 8, 8, 0x10, 0x20, 0x20, 0x42, 0x42, 0xFC, 0, 0,
     0, 0x1E, 0x10, 0x10, 0x10, 0x10, 0x10, 0x10, 0x10, 0x10, 0x10, 0x10, 0x10, 0x10, 0x1E, 0,
     0, 0, 0x40, 0x20, 0x20, 0x20, 0x10, 0x10, 0x10, 8, 8, 4, 4, 4, 2, 2,
     0, 0x78, 8, 8, 8, 8, 8, 8, 8, 8, 8, 8, 8, 8, 0x78, 0,
     0, 0x18, 0x24, 0, 0, 0, 0, 0, 0, 0, 0, 0, 0, 0, 0, 0,
     0, 0, 0, 0, 0, 0, 0, 0, 0, 0, 0, 0, 0, 0, 0, 0xFF,
     0, 0x60, 0x10, 0, 0, 0, 0, 0, 0, 0, 0, 0, 0, 0, 0, 0,
     0, 0, 0, 0, 0, 0, 0, 0x38, 0x44, 0x0C, 0x34, 0x44, 0x4C, 0x36, 0, 0,
     0, 0, 0, 0, 0xC0, 0x40, 0x40, 0x58, 0x64, 0x42, 0x42, 0x42, 0x64, 0x58, 0, 0,
     0, 0, 0, 0, 0, 0, 0, 0x1C, 0x22, 0x40, 0x40, 0x40, 0x22, 0x1C, 0, 0,
     0, 0, 0, 0, 6, 2, 2, 0x3E, 0x42, 0x42, 0x42, 0x42, 0x46, 0x3B, 0, 0,
     0, 0, 0, 0, 0, 0, 0, 0x3C, 0x42, 0x42, 0x7E, 0x40, 0x42, 0x3C, 0, 0,
     0, 0, 0, 0, 0x0C, 0x12, 0x10, 0x7C, 0x10, 0x10, 0x10, 0x10, 0x10, 0x7C, 0, 0,
     0, 0, 0, 0, 0, 0, 0, 0x3E, 0x44, 0x44, 0x38, 0x40, 0x3C, 0x42, 0x42, 0x3C,
     0, 0, 0, 0, 0xC0, 0x40, 0x40, 0x5C, 0x62, 0x42, 0x42, 0x42, 0x42, 0xE7, 0, 0,
     0, 0, 0, 0x30, 0x30, 0, 0, 0x70, 0x10, 0x10, 0x10, 0x10, 0x10, 0x7C, 0, 0,
     0, 0, 0, 0x0C, 0x0C, 0, 0, 0x1C, 4, 4, 4, 4, 4, 4, 0x44, 0x78,
     0, 0, 0, 0, 0xC0, 0x40, 0x40, 0x4E, 0x48, 0x50, 0x70, 0x48, 0x44, 0xEE, 0, 0,
     0, 0, 0, 0x10, 0x70, 0x10, 0x10, 0x10, 0x10, 0x10, 0x10, 0x10, 0x10, 0x7C, 0, 0,
     0, 0, 0, 0, 0, 0, 0, 0xFE, 0x49, 0x49, 0x49, 0x49, 0x49, 0xED, 0, 0,
     0, 0, 0, 0, 0, 0, 0, 0xDC, 0x62, 0x42, 0x42, 0x42, 0x42, 0xE7, 0, 0,
     0, 0, 0, 0, 0, 0, 0, 0x3C, 0x42, 0x42, 0x42, 0x42, 0x42, 0x3C, 0, 0,
     0, 0, 0, 0, 0, 0, 0, 0xD8, 0x64, 0x42, 0x42, 0x42, 0x64, 0x58, 0x40, 0xE0,
     0, 0, 0, 0, 0, 0, 0, 0x1A, 0x26, 0x42, 0x42, 0x42, 0x26, 0x1A, 2, 7,
     0, 0, 0, 0, 0, 0, 0, 0xEE, 0x32, 0x20, 0x20, 0x20, 0x20, 0xF8, 0, 0,
     0, 0, 0, 0, 0, 0, 0, 0x3E, 0x42, 0x40, 0x3C, 2, 0x42, 0x7C, 0, 0,
     0, 0, 0, 0, 0, 0x10, 0x10, 0x7C, 0x10, 0x10, 0x10, 0x10, 0x12, 0x0C, 0, 0,
     0, 0, 0, 0, 0, 0, 0, 0xC6, 0x42, 0x42, 0x42, 0x42, 0x46, 0x3B, 0, 0,
     0, 0, 0, 0, 0, 0, 0, 0xEE, 0x44, 0x44, 0x28, 0x28, 0x10, 0x10, 0, 0,
     0, 0, 0, 0, 0, 0, 0, 0xDB, 0x89, 0x4A, 0x5A, 0x54, 0x24, 0x24, 0, 0,
     0, 0, 0, 0, 0, 0, 0, 0x76, 0x24, 0x18, 0x18, 0x18, 0x24, 0x6E, 0, 0,
     0, 0, 0, 0, 0, 0, 0, 0xE7, 0x42, 0x24, 0x24, 0x18, 0x18, 0x10, 0x10, 0x60,
     0, 0, 0, 0, 0, 0, 0, 0x7E, 0x44, 8, 0x10, 0x10, 0x22, 0x7E, 0, 0,
     0, 3, 4, 4, 4, 4, 4, 4, 8, 4, 4, 4, 4, 4, 3, 0,
     8, 8, 8, 8, 8, 8, 8, 8, 8, 8, 8, 8, 8, 8, 8, 8,
     0, 0xC0, 0x20, 0x20, 0x20, 0x20, 0x20, 0x20, 0x10, 0x20, 0x20, 0x20, 0x20, 0x20, 0xC0, 0,
     0x20, 0x5A, 4, 0, 0, 0, 0, 0, 0, 0, 0, 0, 0, 0, 0, 0,
     0, 0, 0, 0, 0, 0, 0, 0, 0, 0, 0, 0, 0, 0, 0, 0]"

definition g_fontEn16Index :: "(u16 \<times> u16) list" where
  "g_fontEn16Index = [
     (0, 0), (1, 1), (2, 2), (3, 3), (4, 4), (5, 5), (6, 6), (7, 7),
     (8, 8), (9, 9), (10, 10), (11, 11), (12, 12), (13, 13), (14, 14), (15, 15),
     (16, 16), (17, 17), (18, 18), (19, 19), (20, 20), (21, 21), (22, 22), (23, 23),
     (24, 24), (25, 25), (26, 26), (27, 27), (28, 28), (29, 29), (30, 30), (31, 31),
     (32, 32), (33, 33), (34, 34), (35, 35), (36, 36), (37, 37), (38, 38), (39, 39),
     (40, 40), (41, 41), (42, 42), (43, 43), (44, 44), (45, 45), (46, 46), (47, 47),
     (48, 48), (49, 49), (50, 50), (51, 51), (52, 52), (53, 53), (54, 54), (55, 55),
     (56, 56), (57, 57), (58, 58), (59, 59), (60, 60), (61, 61), (62, 62), (63, 63),
     (64, 64), (65, 65), (66, 66), (67, 67), (68, 68), (69, 69), (70, 70), (71, 71),
     (72, 72), (73, 73), (74, 74), (75, 75), (76, 76), (77, 77), (78, 78), (79, 79),
     (80, 80), (81, 81), (82, 82), (83, 83), (84, 84), (85, 85), (86, 86), (87, 87),
     (88, 88), (89, 89), (90, 90), (91, 91), (92, 92), (93, 93), (94, 94), (95, 95),
     (96, 96), (97, 97), (98, 98), (99, 99), (100, 100), (101, 101), (102, 102), (103, 103),
     (104, 104), (105, 105), (106, 106), (107, 107), (108, 108), (109, 109), (110, 110), (111, 111),
     (112, 112), (113, 113), (114, 114), (115, 115), (116, 116), (117, 117), (118, 118), (119, 119),
     (120, 120), (121, 121), (122, 122), (123, 123), (124, 124), (125, 125), (126, 126), (127, 127)]"

lemma font_sizes: "length g_fontEn16Glyphs = 2048" "length g_fontEn16Index = 128"
  by code_simp+

end
