(* ===== verification/Osd_Text.thy ===== *)
theory Osd_Text
  imports Drawing Font_En16
begin

text \<open>
  Text on a frame (\<open>hal/osd\<close>): the UTF-8 decoder, the fonts, and the renderer behind \<open>DrawText\<close> in the default
  build. A text is its bytes; the glyph of a character is the part of the font table from its pointer on.
\<close>

section \<open>Fonts\<close>









section \<open>The renderer\<close>




text \<open>The number of bytes consumed and the character; with 0 bytes the output is left alone.\<close>

definition utf8_next :: "u8 list \<Rightarrow> nat \<Rightarrow> u16 \<Rightarrow> nat \<times> u16" where
  "utf8_next s i out =
     (if i \<ge> length s then (0, out)
      else
        (let c = s ! i; u = (\<lambda>b. ucast b :: u32)
         in if c < 0x80 then (1, ucast c)
            else if c < 0xE0 then
              (if i + 1 \<ge> length s then (0, out)
               else (2, ucast (push_bit 6 (u c AND 0x1F) OR (u (s ! (i + 1)) AND 0x3F))))
            else if c < 0xF0 then
              (if i + 2 \<ge> length s then (0, out)
               else (3, ucast (push_bit 12 (u c AND 0x0F) OR push_bit 6 (u (s ! (i + 1)) AND 0x3F) OR
                               (u (s ! (i + 2)) AND 0x3F))))
            else if i + 3 \<ge> length s then (0, out)
            else (4, 0)))"



lemma utf8_next_bound: "utf8_next s i out = (n, u) \<Longrightarrow> n \<noteq> 0 \<Longrightarrow> i < length s"
  by (simp add: utf8_next_def split: if_splits)






section \<open>Glyphs are inside their font\<close>





section \<open>UTF-8\<close>

text \<open>The encoding of a character of the basic plane, as the standard has it.\<close>

definition utf8_encode :: "u16 \<Rightarrow> u8 list" where
  "utf8_encode u =
     (if u < 0x80 then [ucast u]
      else if u < 0x800 then [0xC0 OR ucast (drop_bit 6 u), 0x80 OR ucast (u AND 0x3F)]
      else [0xE0 OR ucast (drop_bit 12 u), 0x80 OR ucast (drop_bit 6 u AND 0x3F), 0x80 OR ucast (u AND 0x3F)])"

lemma continuation_byte: "k < 64 \<Longrightarrow> (ucast (0x80 OR of_nat k :: u8) :: u32) AND 0x3F = of_nat k"
proof -
  have "\<forall>k \<in> set [0..<64]. (ucast (0x80 OR of_nat k :: u8) :: u32) AND 0x3F = of_nat k" by code_simp
  then show "k < 64 \<Longrightarrow> ?thesis" by simp
qed

lemma lead_byte2: "k < 32 \<Longrightarrow> \<not> (0xC0 OR of_nat k :: u8) < 0x80 \<and> (0xC0 OR of_nat k :: u8) < 0xE0 \<and>
    (ucast (0xC0 OR of_nat k :: u8) :: u32) AND 0x1F = of_nat k"
proof -
  have "\<forall>k \<in> set [0..<32]. \<not> (0xC0 OR of_nat k :: u8) < 0x80 \<and> (0xC0 OR of_nat k :: u8) < 0xE0 \<and>
    (ucast (0xC0 OR of_nat k :: u8) :: u32) AND 0x1F = of_nat k" by code_simp
  then show "k < 32 \<Longrightarrow> ?thesis" by simp
qed

lemma lead_byte3: "k < 16 \<Longrightarrow> \<not> (0xE0 OR of_nat k :: u8) < 0xE0 \<and> (0xE0 OR of_nat k :: u8) < 0xF0 \<and>
    (ucast (0xE0 OR of_nat k :: u8) :: u32) AND 0x0F = of_nat k"
proof -
  have "\<forall>k \<in> set [0..<16]. \<not> (0xE0 OR of_nat k :: u8) < 0xE0 \<and> (0xE0 OR of_nat k :: u8) < 0xF0 \<and>
    (ucast (0xE0 OR of_nat k :: u8) :: u32) AND 0x0F = of_nat k" by code_simp
  then show "k < 16 \<Longrightarrow> ?thesis" by simp
qed

lemma mask6: "(0x3F :: u16) = mask 6" by (simp add: mask_eq_exp_minus_1)

lemma join2: "u < 0x800 \<Longrightarrow> ucast (push_bit 6 (ucast (drop_bit 6 u) :: u32) OR ucast (u AND 0x3F)) = (u :: u16)"
  unfolding mask6 by (rule bit_word_eqI) (auto simp: bit_simps)
lemma join3: "ucast (push_bit 12 (ucast (drop_bit 12 u) :: u32) OR push_bit 6 (ucast (drop_bit 6 u AND 0x3F)) OR
   ucast (u AND 0x3F)) = (u :: u16)"
proof (unfold mask6, rule bit_word_eqI)
  fix n assume "n < LENGTH(16)"
  then show "bit (ucast (push_bit 12 (ucast (drop_bit 12 u) :: u32) OR push_bit 6 (ucast (drop_bit 6 u AND mask 6)) OR
     ucast (u AND mask 6)) :: u16) n = bit u n"
    by (cases "n < 12") (auto simp: bit_simps)
qed

lemma unat_low6: "unat (x AND 0x3F :: u16) < 64"
  unfolding mask6 take_bit_eq_mask [symmetric] using take_bit_nat_less_exp [of 6 "unat x"]
  by (simp add: unsigned_take_bit_eq)

lemma pieces:
   "unat (drop_bit 12 (u::u16)) < 16"
   "u < 0x800 \<Longrightarrow> unat (drop_bit 6 u :: u16) < 32"
proof -
  have d: "unat (drop_bit k u) = unat u div 2 ^ k" for k
    using unsigned_less [of u, where ?'a = nat]
    by (simp only: unsigned_drop_bit_eq) (simp add: drop_bit_eq_div take_bit_nat_eq_self)
  show "unat (drop_bit 12 u) < 16" using unsigned_less [of u, where ?'a = nat] by (simp only: d) simp
  show "u < 0x800 \<Longrightarrow> unat (drop_bit 6 u :: u16) < 32" by (simp only: d word_less_nat_alt) simp
qed

lemma as_nat: "(ucast (x :: u16) :: 'a::len word) = of_nat (unat x)" by (simp add: of_nat_unat)

lemma short_byte: "k < 128 \<Longrightarrow> (of_nat k :: u8) < 0x80 \<and> (ucast (of_nat k :: u8) :: u16) = of_nat k"
proof -
  have "\<forall>k \<in> set [0..<128]. (of_nat k :: u8) < 0x80 \<and> (ucast (of_nat k :: u8) :: u16) = of_nat k" by code_simp
  then show "k < 128 \<Longrightarrow> ?thesis" by simp
qed

lemma utf8_next_cases:
  "b0 < 0x80 \<Longrightarrow> utf8_next (pre @ [b0] @ post) (length pre) out = (1, ucast b0)"
  "\<not> b0 < 0x80 \<Longrightarrow> b0 < 0xE0 \<Longrightarrow> utf8_next (pre @ [b0, b1] @ post) (length pre) out =
     (2, ucast (push_bit 6 ((ucast b0 :: u32) AND 0x1F) OR ((ucast b1 :: u32) AND 0x3F)))"
  "\<not> b0 < 0xE0 \<Longrightarrow> b0 < 0xF0 \<Longrightarrow> utf8_next (pre @ [b0, b1, b2] @ post) (length pre) out =
     (3, ucast (push_bit 12 ((ucast b0 :: u32) AND 0x0F) OR push_bit 6 ((ucast b1 :: u32) AND 0x3F) OR
        ((ucast b2 :: u32) AND 0x3F)))"
proof -
  have "\<not> b0 < 0x80" if "\<not> b0 < 0xE0"
    using that by (simp add: word_less_nat_alt)
  then show "\<not> b0 < 0xE0 \<Longrightarrow> b0 < 0xF0 \<Longrightarrow> utf8_next (pre @ [b0, b1, b2] @ post) (length pre) out =
     (3, ucast (push_bit 12 ((ucast b0 :: u32) AND 0x0F) OR push_bit 6 ((ucast b1 :: u32) AND 0x3F) OR
        ((ucast b2 :: u32) AND 0x3F)))"
    by (simp add: utf8_next_def nth_append Let_def)
qed (simp_all add: utf8_next_def nth_append Let_def)

lemma utf8_next_encode:
  "utf8_next (pre @ utf8_encode u @ post) (length pre) out = (length (utf8_encode u), u)"
proof -
  consider (one) "u < 0x80" | (two) "\<not> u < 0x80" "u < 0x800" | (three) "\<not> u < 0x80" "\<not> u < 0x800" by blast
  then show ?thesis
  proof cases
    case one
    have "unat u < 128" using one by (simp add: word_less_nat_alt)
    from short_byte [OF this] have s: "(ucast u :: u8) < 0x80" "(ucast (ucast u :: u8) :: u16) = u"
      by (simp_all only: of_nat_unat ucast_id)
    have e: "utf8_encode u = [ucast u]" using one by (simp add: utf8_encode_def)
    show ?thesis unfolding e utf8_next_cases(1) [OF s(1)] s(2) by simp
  next
    case two
    note c = continuation_byte [OF unat_low6 [of u]] and l = lead_byte2 [OF pieces(2) [OF two(2)]]
    have e: "utf8_encode u = [0xC0 OR of_nat (unat (drop_bit 6 u)), 0x80 OR of_nat (unat (u AND 0x3F))]"
      using two by (simp add: utf8_encode_def of_nat_unat)
    show ?thesis
      unfolding e utf8_next_cases(2) [OF conjunct1 [OF l] conjunct1 [OF conjunct2 [OF l]]]
        conjunct2 [OF conjunct2 [OF l]] c join2 [OF two(2), unfolded as_nat] by simp
  next
    case three
    note c = continuation_byte [OF unat_low6 [of u]] continuation_byte [OF unat_low6 [of "drop_bit 6 u"]]
      and l = lead_byte3 [OF pieces(1) [of u]]
    have e: "utf8_encode u = [0xE0 OR of_nat (unat (drop_bit 12 u)), 0x80 OR of_nat (unat (drop_bit 6 u AND 0x3F)),
        0x80 OR of_nat (unat (u AND 0x3F))]"
      using three by (simp add: utf8_encode_def of_nat_unat)
    show ?thesis
      unfolding e utf8_next_cases(3) [OF conjunct1 [OF l] conjunct1 [OF conjunct2 [OF l]]]
        conjunct2 [OF conjunct2 [OF l]] c join3 [of u, unfolded as_nat] by simp
  qed
qed





section \<open>Properties\<close>



text \<open>The decoder of the text renderer reads UTF-8: wherever the encoding of a character of the basic plane
  stands in a text, it consumes exactly the bytes of that encoding and yields the character.\<close>

theorem utf8_roundtrip:
  "utf8_next (pre @ utf8_encode u @ post) (length pre) out = (length (utf8_encode u), u)"
  by (rule utf8_next_encode)

end
