(* ===== verification/Rules.thy ===== *)
theory Rules
  imports Plugins Complex_Main
begin

text \<open>
  The box rules: \<open>RuleEngine\<close> (\<open>common/rule_engine.cpp\<close>), the registry of \<open>common/box_rule.cpp\<close> and the
  sample rule of \<open>rules/\<close>. The engine's calls are the events of the plugin monitor: \<open>Destroy\<close> of a rule is
  \<open>ShutdownCalled\<close>, its deletion \<open>Destroyed\<close>. What a rule library does, and \<open>std::stof\<close>, are parameters.
\<close>

section \<open>Searching in text\<close>

text \<open>\<open>std::string::find\<close> of a text, from the beginning.\<close>

fun str_find :: "string \<Rightarrow> string \<Rightarrow> nat option" where
  "str_find pat [] = (if pat = [] then Some 0 else None)"
| "str_find pat (c # cs) =
     (if take (length pat) (c # cs) = pat then Some 0 else map_option Suc (str_find pat cs))"

lemma str_find_bound: "str_find pat s = Some k \<Longrightarrow> k + length pat \<le> length s"
proof (induction pat s arbitrary: k rule: str_find.induct)
  case (2 pat c cs)
  show ?case
  proof (cases "take (length pat) (c # cs) = pat")
    case True
    then have "length pat \<le> length (c # cs)" by (metis length_take min.cobounded1)
    then show ?thesis using True "2.prems" by simp
  next
    case False
    then show ?thesis using 2 by auto
  qed
qed (simp split: if_splits)

text \<open>\<open>std::getline\<close> over a whole text.\<close>

fun getlines :: "string \<Rightarrow> string \<Rightarrow> string list" where
  "getlines acc [] = (if acc = [] then [] else [rev acc])"
| "getlines acc (c # cs) = (if c = CHR 0x0A then rev acc # getlines [] cs else getlines (c # acc) cs)"

section \<open>The configuration of the engine\<close>

record rule_config =
  rule_name :: string
  so_path :: string
  params :: string

text \<open>
  The parser of \<open>Load\<close>. \<open>current\<close> is a pointer that the \<open>name:\<close> branch sets to a variable of its own block,
  so after the branch it points to nothing alive: \<open>dangling\<close>. Reading or writing through it has no
  defined outcome: \<open>None\<close>. The buffer for parameters is kept as the code keeps it.
\<close>

record parser =
  dangling :: bool
  param_buf :: string
  in_params :: bool
  configs :: "rule_config list"

definition drop_blanks :: "string \<Rightarrow> string" where
  "drop_blanks s = dropWhile (\<lambda>c. c = CHR '' '' \<or> c = CHR 0x09) s"

definition parse_line :: "string \<Rightarrow> parser \<Rightarrow> parser option" where
  "parse_line line p =
     (if line = [] \<or> str_find ''#'' line = Some 0 then Some p
      else if str_find ''name:'' line \<noteq> None then
        (if dangling p then None else Some (p\<lparr>dangling := True, in_params := False\<rparr>))
      else if str_find ''path:'' line \<noteq> None \<and> dangling p then None
      else if str_find ''params:'' line \<noteq> None then
        (let q = p\<lparr>in_params := True, param_buf := []\<rparr>
         in case str_find '':'' line of
              None \<Rightarrow> Some q
            | Some pos \<Rightarrow>
                if pos + 2 < length line then
                  (let val = drop_blanks (drop (pos + 1) line)
                   in if val \<noteq> [] \<and> hd val \<noteq> CHR ''|'' then
                        Some (q\<lparr>param_buf := val @ [CHR 0x0A], in_params := False\<rparr>)
                      else Some q)
                else Some q)
      else if in_params p \<and> dangling p then Some (p\<lparr>param_buf := param_buf p @ line @ [CHR 0x0A]\<rparr>)
      else Some p)"

fun parse_lines :: "string list \<Rightarrow> parser \<Rightarrow> parser option" where
  "parse_lines [] p = Some p"
| "parse_lines (l # ls) p = (case parse_line l p of None \<Rightarrow> None | Some p' \<Rightarrow> parse_lines ls p')"

definition parse_rules :: "string \<Rightarrow> rule_config list option" where
  "parse_rules text =
     (case parse_lines (getlines [] text) \<lparr>dangling = False, param_buf = [], in_params = False, configs = []\<rparr> of
        None \<Rightarrow> None
      | Some p \<Rightarrow> if dangling p then None else Some (configs p))"

section \<open>Loading and unloading\<close>

record loaded_rule =
  rule_handle :: "string option"
  rule_instance :: "nat option"
  rule_conf :: rule_config

record rule_engine =
  rules :: "loaded_rule list"
  is_loaded :: bool

definition safe_path :: "string \<Rightarrow> bool" where
  "safe_path p \<longleftrightarrow>
     \<not> (p = [] \<or> str_find ''..'' p \<noteq> None \<or> length p < 3 \<or> drop (length p - 3) p \<noteq> ''.so'') \<and>
     (take 8 p = ''./rules/'' \<or> take 6 p = ''rules/'' \<or> take 6 p = ''/home/'')"

definition load_rule ::
    "(string \<Rightarrow> plugin_lib) \<Rightarrow> nat \<Rightarrow> rule_config \<Rightarrow> plug_event list \<times> loaded_rule option" where
  "load_rule env fresh cfg =
     (let path = so_path cfg; l = env path
      in if \<not> safe_path path then ([], None)
         else if \<not> opens l then ([], None)
         else if \<not> has_create l then ([DlOpen path, DlClose path], None)
         else if \<not> creates l then ([DlOpen path, DlClose path], None)
         else if init_result l \<noteq> 0 then
           ([DlOpen path, Created fresh path False, InitCalled fresh (init_result l), ShutdownCalled fresh,
             Destroyed fresh, DlClose path], None)
         else
           ([DlOpen path, Created fresh path False, InitCalled fresh 0],
            Some \<lparr>rule_handle = Some path, rule_instance = Some fresh, rule_conf = cfg\<rparr>))"

fun load_rules ::
    "(string \<Rightarrow> plugin_lib) \<Rightarrow> nat \<Rightarrow> rule_config list \<Rightarrow> plug_event list \<times> loaded_rule list \<times> nat" where
  "load_rules env fresh [] = ([], [], fresh)"
| "load_rules env fresh (c # cs) =
     (let (evs, r) = load_rule env fresh c;
          (evs', rs, fresh') = load_rules env (Suc fresh) cs
      in (evs @ evs', (case r of None \<Rightarrow> rs | Some x \<Rightarrow> x # rs), fresh'))"

definition engine_load ::
    "(string \<Rightarrow> plugin_lib) \<Rightarrow> nat \<Rightarrow> string \<Rightarrow> rule_engine \<Rightarrow>
     (int \<times> plug_event list \<times> nat \<times> rule_engine) option" where
  "engine_load env fresh text e =
     (if is_loaded e then Some (-1, [], fresh, e)
      else
        (case parse_rules text of
           None \<Rightarrow> None
         | Some cs \<Rightarrow>
             (let (evs, rs, fresh') = load_rules env fresh cs;
                  all = rules e @ rs
              in Some (if all \<noteq> [] then 0 else -1, evs, fresh', \<lparr>rules = all, is_loaded = (all \<noteq> [])\<rparr>))))"

definition unload_rule :: "loaded_rule \<Rightarrow> plug_event list" where
  "unload_rule r =
     (case rule_instance r of None \<Rightarrow> [] | Some i \<Rightarrow> [ShutdownCalled i, Destroyed i]) @
     (case rule_handle r of None \<Rightarrow> [] | Some h \<Rightarrow> [DlClose h])"

definition engine_unload :: "rule_engine \<Rightarrow> plug_event list \<times> rule_engine" where
  "engine_unload e = (concat (map unload_rule (rules e)), \<lparr>rules = [], is_loaded = False\<rparr>)"

section \<open>Judging boxes\<close>

text \<open>\<open>run i objs init\<close> is what instance \<open>i\<close> does with a result vector that starts as \<open>init\<close>.\<close>

definition rule_results ::
    "(nat \<Rightarrow> 'o list \<Rightarrow> bool list \<Rightarrow> int \<times> bool list) \<Rightarrow> 'o list \<Rightarrow> loaded_rule \<Rightarrow> bool list option" where
  "rule_results run objs r =
     (case rule_instance r of
        None \<Rightarrow> None
      | Some i \<Rightarrow>
          (let (ret, res) = run i objs (replicate (length objs) False)
           in if ret \<noteq> 0 then None else if length res \<noteq> length objs then None else Some res))"

definition process_boxes ::
    "(nat \<Rightarrow> 'o list \<Rightarrow> bool list \<Rightarrow> int \<times> bool list) \<Rightarrow> 'o list \<Rightarrow> rule_engine \<Rightarrow> bool \<times> bool list" where
  "process_boxes run objs e =
     (if \<not> is_loaded e \<or> rules e = [] then (False, [])
      else
        (let all_results = List.map_filter (rule_results run objs) (rules e)
         in (True, map (\<lambda>i. list_ex (\<lambda>rr. i < length rr \<and> rr ! i) all_results) [0..<length objs])))"

section \<open>The registry\<close>

type_synonym 'c registry = "string \<Rightarrow> 'c option"

definition register_rule :: "string \<Rightarrow> 'c \<Rightarrow> 'c registry \<Rightarrow> 'c registry" where
  "register_rule nm create reg = reg(nm \<mapsto> create)"

definition create_rule :: "string \<Rightarrow> 'c registry \<Rightarrow> 'c option" where
  "create_rule nm reg = reg nm"

section \<open>The sample rule\<close>

text \<open>One edge, from corner \<open>i\<close> to the corner before it.\<close>

definition edge_crossed ::
    "'f::{zero,plus,minus,times,inverse,ord} \<times> 'f \<Rightarrow> 'f \<times> 'f \<Rightarrow> 'f \<Rightarrow> 'f \<Rightarrow> bool" where
  "edge_crossed a b x y =
     (let dy = snd b - snd a
      in if dy = 0 then False
         else (y < snd a) \<noteq> (y < snd b) \<and>
              x < (fst b - fst a) * (y - snd a) / dy + fst a)"

definition point_in_polygon ::
    "('f::{zero,plus,minus,times,inverse,ord} \<times> 'f) list \<Rightarrow> 'f \<Rightarrow> 'f \<Rightarrow> bool" where
  "point_in_polygon poly x y =
     fold (\<lambda>i inside. if edge_crossed (poly ! i) (poly ! (if i = 0 then length poly - 1 else i - 1)) x y
                      then \<not> inside else inside) [0..<length poly] False"

lemma sample_init_shorter:
  "str_find ''[['' s = Some k \<Longrightarrow> length (drop (e + 2) (drop (k + 2) s)) < length s"
  using str_find_bound [of "''[[''" s k] by simp

text \<open>\<open>Init\<close> over the rest of the text from the search position; \<open>Inl\<close> is the failure \<open>-1\<close>, with the
  points read so far.\<close>

function sample_init ::
    "(string \<Rightarrow> 'f option) \<Rightarrow> string \<Rightarrow> ('f \<times> 'f) list \<Rightarrow> ('f \<times> 'f) list + ('f \<times> 'f) list" where
  "sample_init stof s region =
     (case str_find ''[['' s of
        None \<Rightarrow> Inr region
      | Some k \<Rightarrow>
          (case str_find '']]'' (drop (k + 2) s) of
             None \<Rightarrow> Inr region
           | Some e \<Rightarrow>
               (let pair = take e (drop (k + 2) s); rest = drop (e + 2) (drop (k + 2) s)
                in case str_find '','' pair of
                     None \<Rightarrow> sample_init stof rest region
                   | Some c \<Rightarrow>
                       (case (stof (take c pair), stof (drop (c + 1) pair)) of
                          (Some x, Some y) \<Rightarrow> sample_init stof rest (region @ [(x, y)])
                        | _ \<Rightarrow> Inl region))))"
  by pat_completeness auto

termination sample_init
  by (relation "measure (\<lambda>(stof, s, region). length s)") (use sample_init_shorter in auto)

declare sample_init.simps [simp del]

definition sample_process ::
    "'f \<Rightarrow> ('f::{zero,plus,minus,times,inverse,ord} \<times> 'f) list \<Rightarrow> 'f object list \<Rightarrow> int \<times> bool list" where
  "sample_process two region objs =
     (0, map (\<lambda>ob. point_in_polygon region (rx (rect ob) + rwidth (rect ob) / two)
                                           (ry (rect ob) + rheight (rect ob) / two)) objs)"

section \<open>The parser\<close>

definition names_rule :: "string \<Rightarrow> bool" where
  "names_rule line \<longleftrightarrow> line \<noteq> [] \<and> str_find ''#'' line \<noteq> Some 0 \<and> str_find ''name:'' line \<noteq> None"

lemma parse_line_spec:
  "(case parse_line line p of
      None \<Rightarrow> dangling p
    | Some p' \<Rightarrow> configs p' = configs p \<and> dangling p' = (dangling p \<or> names_rule line))"
  by (auto simp: parse_line_def names_rule_def Let_def split: option.split)

lemma parse_lines_spec:
  "(case parse_lines ls p of
      None \<Rightarrow> dangling p \<or> list_ex names_rule ls
    | Some p' \<Rightarrow> configs p' = configs p \<and> dangling p' = (dangling p \<or> list_ex names_rule ls))"
proof (induction ls arbitrary: p)
  case (Cons l ls)
  show ?case
  proof (cases "parse_line l p")
    case None
    then show ?thesis using parse_line_spec [where line = l and p = p] by simp
  next
    case (Some q)
    have q: "configs q = configs p" "dangling q = (dangling p \<or> names_rule l)"
      using parse_line_spec [where line = l and p = p] Some by simp_all
    show ?thesis using Cons.IH [where p = q] by (auto simp: Some q split: option.split)
  qed
qed simp

lemma parse_rules_spec:
  "parse_rules text = (if list_ex names_rule (getlines [] text) then None else Some [])"
  using parse_lines_spec [where ls = "getlines [] text" and
      p = "\<lparr>dangling = False, param_buf = [], in_params = False, configs = []\<rparr>"]
  by (auto simp: parse_rules_def split: option.splits)

text \<open>What \<open>Load\<close> can do with an engine that holds no rules: a text that names a rule has no defined
  outcome, because the parser goes on through a pointer to a variable that is gone, and any other text
  gives no rule and the result \<open>-1\<close>. \<open>Load\<close> therefore never returns success.\<close>

theorem engine_load_never_succeeds:
  "engine_load env fresh text \<lparr>rules = [], is_loaded = False\<rparr> =
     (if list_ex names_rule (getlines [] text) then None
      else Some (- 1, [], fresh, \<lparr>rules = [], is_loaded = False\<rparr>))"
  by (simp add: engine_load_def parse_rules_spec)

section \<open>The calls of the engine\<close>

definition rule_ok :: "loaded_rule \<Rightarrow> bool" where
  "rule_ok r \<longleftrightarrow> rule_handle r = Some (so_path (rule_conf r)) \<and> rule_instance r \<noteq> None \<and> safe_path (so_path (rule_conf r))"

definition rule_inst :: "loaded_rule \<Rightarrow> inst" where
  "rule_inst r = (the (rule_instance r), so_path (rule_conf r), False, IsInited True)"

lemma fst_rule_inst: "fst (rule_inst r) = the (rule_instance r)"
  by (simp add: rule_inst_def)

lemma run_first:
  assumes "i \<notin> fst ` set xs"
  shows "mon_run (ShutdownCalled i # Destroyed i # DlClose p # es) (mon_of ((i, p, False, IsInited True) # xs)) =
    mon_run es (mon_of xs)"
proof -
  have "(opens_of ((i, p, False, IsInited True) # xs))(p := opens_of xs p) = opens_of xs"
    by (auto simp: opens_of_def fun_eq_iff)
  then show ?thesis
    using assms
    by (simp add: mon_run.simps(2) mon_of_def phase_of_def set_phase_def map_absent filter_absent live_in_opens
        opens_of_def)
qed

lemma run_unload_rules:
  "list_all rule_ok rs \<Longrightarrow> numbered fresh (map rule_inst rs) \<Longrightarrow>
   mon_run (concat (map unload_rule rs) @ es) (mon_of (map rule_inst rs)) = mon_run es (mon_of [])"
proof (induction rs)
  case (Cons r rs)
  obtain i where i: "rule_instance r = Some i" "rule_handle r = Some (so_path (rule_conf r))"
    using Cons.prems(1) by (auto simp: rule_ok_def)
  have "i \<notin> fst ` set (map rule_inst rs)" "numbered fresh (map rule_inst rs)"
    using Cons.prems(2) arg_cong [OF i(1), of the] by (auto simp: numbered_def fst_rule_inst)
  moreover have "unload_rule r = [ShutdownCalled i, Destroyed i, DlClose (so_path (rule_conf r))]"
    "rule_inst r = (i, so_path (rule_conf r), False, IsInited True)"
    by (simp_all add: unload_rule_def rule_inst_def i)
  ultimately show ?case using Cons run_first [of i "map rule_inst rs"] by simp
qed simp

lemma run_load_rule:
  assumes "load_rule env fresh c = (evs, res)" "numbered fresh xs"
  shows "(case res of None \<Rightarrow> mon_run (evs @ es) (mon_of xs) = mon_run es (mon_of xs)
    | Some r \<Rightarrow> rule_ok r \<and> rule_inst r = (fresh, so_path c, False, IsInited True) \<and>
        mon_run (evs @ es) (mon_of xs) = mon_run es (mon_of (xs @ [rule_inst r])))"
    and "\<forall>p. DlOpen p \<in> set evs \<longrightarrow> safe_path p"
proof -
  have n: "fresh \<notin> fst ` set xs" using assms(2) by (rule numbered_fresh)
  note runs = run_open run_create [OF n] run_last [OF n] run_close
  show "(case res of None \<Rightarrow> mon_run (evs @ es) (mon_of xs) = mon_run es (mon_of xs)
    | Some r \<Rightarrow> rule_ok r \<and> rule_inst r = (fresh, so_path c, False, IsInited True) \<and>
        mon_run (evs @ es) (mon_of xs) = mon_run es (mon_of (xs @ [rule_inst r])))"
    using assms(1) by (auto simp: load_rule_def Let_def runs rule_ok_def rule_inst_def split: if_splits)
  show "\<forall>p. DlOpen p \<in> set evs \<longrightarrow> safe_path p"
    using assms(1) by (auto simp: load_rule_def Let_def split: if_splits)
qed

lemma run_load_rules:
  assumes "load_rules env fresh cs = (evs, rs, fresh')" "numbered fresh xs"
  shows "fresh \<le> fresh' \<and> list_all rule_ok rs \<and> numbered fresh' (xs @ map rule_inst rs) \<and>
    mon_run (evs @ es) (mon_of xs) = mon_run es (mon_of (xs @ map rule_inst rs)) \<and>
    (\<forall>p. DlOpen p \<in> set evs \<longrightarrow> safe_path p)"
  using assms
proof (induction cs arbitrary: fresh xs evs rs)
  case Nil
  then show ?case by simp
next
  case (Cons c cs)
  obtain evs1 res where l: "load_rule env fresh c = (evs1, res)" by fastforce
  obtain evs2 rs2 where r: "load_rules env (Suc fresh) cs = (evs2, rs2, fresh')"
    and out: "evs = evs1 @ evs2" "rs = (case res of None \<Rightarrow> rs2 | Some x \<Rightarrow> x # rs2)"
    using Cons.prems(1) l by (auto split: prod.splits)
  note one = run_load_rule [OF l Cons.prems(2)]
  show ?case
  proof (cases res)
    case None
    have "numbered (Suc fresh) xs" using numbered_mono [OF Cons.prems(2)] by simp
    from Cons.IH [OF r this] show ?thesis using one(1) [where es = "evs2 @ es"] one(2) None out by auto
  next
    case (Some x)
    then have x: "rule_ok x" "rule_inst x = (fresh, so_path c, False, IsInited True)" using one(1) [of "[]"] by auto
    have "numbered (Suc fresh) (xs @ [rule_inst x])" using numbered_Suc [OF Cons.prems(2)] by (simp add: x)
    from Cons.IH [OF r this] show ?thesis using one(1) [where es = "evs2 @ es"] one(2) Some out x by auto
  qed
qed

text \<open>Loading any list of rule configurations and unloading the engine afterwards: the calls conform to
  the plugin monitor and leave nothing open, an instance that failed to initialise included, and only
  libraries under the allowed directories, with no way out of them, are ever opened.\<close>

theorem rule_calls_conform:
  "case load_rules env 0 cs of (evs, rs, fresh) \<Rightarrow>
     mon_run (evs @ fst (engine_unload \<lparr>rules = rs, is_loaded = rs \<noteq> []\<rparr>)) mon_init = Some mon_init \<and>
     list_all (\<lambda>e. case e of DlOpen p \<Rightarrow> safe_path p | _ \<Rightarrow> True) evs"
proof -
  obtain evs rs fresh where l: "load_rules env 0 cs = (evs, rs, fresh)" by (metis prod_cases3)
  have m: "mon_init = mon_of []" by (simp add: mon_init_def mon_of_def opens_of_def fun_eq_iff)
  have "numbered 0 []" by (simp add: numbered_def)
  note r = run_load_rules [OF l this, simplified]
  have "mon_run (evs @ concat (map unload_rule rs)) (mon_of []) = Some (mon_of [])"
    using r run_unload_rules [of rs fresh "[]"] by simp
  moreover have "list_all (\<lambda>e. case e of DlOpen p \<Rightarrow> safe_path p | _ \<Rightarrow> True) evs"
    using r by (auto simp: list_all_iff split: plug_event.split)
  ultimately show ?thesis by (simp add: l m engine_unload_def)
qed

section \<open>Judgements\<close>

lemma map_filter_Some: "y \<in> set (List.map_filter f xs) \<longleftrightarrow> (\<exists>x \<in> set xs. f x = Some y)"
  by (induction xs) (auto simp: List.map_filter_simps split: option.split)

text \<open>\<open>ProcessBoxes\<close> answers for every object, and an object is hit exactly when some rule with an
  instance returned 0 with a vector of the right length that marks it: a rule that fails or answers with
  another length changes nothing.\<close>

theorem boxes_hit_by_some_rule:
  assumes "is_loaded e" "rules e \<noteq> []" "process_boxes run objs e = (ok, res)"
  shows "ok \<and> length res = length objs \<and>
    (\<forall>i < length objs. res ! i \<longleftrightarrow>
      (\<exists>r \<in> set (rules e). \<exists>k out. rule_instance r = Some k \<and>
         run k objs (replicate (length objs) False) = (0, out) \<and> length out = length objs \<and> out ! i))"
proof -
  have res: "res = map (\<lambda>i. list_ex (\<lambda>rr. i < length rr \<and> rr ! i) (List.map_filter (rule_results run objs) (rules e)))
      [0..<length objs]" "ok"
    using assms by (auto simp: process_boxes_def Let_def)
  have one: "rule_results run objs r = Some rr \<longleftrightarrow>
      (\<exists>k. rule_instance r = Some k \<and> run k objs (replicate (length objs) False) = (0, rr) \<and> length rr = length objs)" for r rr
    by (auto simp: rule_results_def Let_def split: option.splits prod.splits)
  have "res ! i \<longleftrightarrow> (\<exists>r \<in> set (rules e). \<exists>k out. rule_instance r = Some k \<and>
         run k objs (replicate (length objs) False) = (0, out) \<and> length out = length objs \<and> out ! i)"
    if "i < length objs" for i
  proof -
    have "res ! i \<longleftrightarrow> (\<exists>rr. (\<exists>r \<in> set (rules e). rule_results run objs r = Some rr) \<and> i < length rr \<and> rr ! i)"
      using that by (simp add: res list_ex_iff Bex_def map_filter_Some)
    then show ?thesis unfolding one using that by metis
  qed
  then show ?thesis using res by auto
qed

definition demo_rules :: rule_engine where
  "demo_rules = \<lparr>rules = map (\<lambda>k. \<lparr>rule_handle = Some ''rules/a.so'', rule_instance = Some k,
       rule_conf = \<lparr>rule_name = ''a'', so_path = ''rules/a.so'', params = []\<rparr>\<rparr>) [0, 1], is_loaded = True\<rparr>"

definition demo_rule_run :: "nat \<Rightarrow> nat list \<Rightarrow> bool list \<Rightarrow> int \<times> bool list" where
  "demo_rule_run k objs res = (if k = 0 then (0, map (\<lambda>n. n = 4) objs) else (- 1, map (\<lambda>_. True) objs))"

lemma boxes_hit_by_some_rule_witness:
  "process_boxes demo_rule_run [3, 4] demo_rules = (True, [False, True]) \<and>
   (\<exists>r \<in> set (rules demo_rules). \<exists>k out. rule_instance r = Some k \<and>
      demo_rule_run k [3, 4] (replicate 2 False) = (0, out) \<and> length out = 2 \<and> out ! 1)"
proof -
  have run: "process_boxes demo_rule_run [3, 4] demo_rules = (True, [False, True])"
    by (simp add: process_boxes_def demo_rules_def rule_results_def demo_rule_run_def List.map_filter_simps
        upt_rec numeral_eq_Suc)
  then show ?thesis
    using boxes_hit_by_some_rule [of demo_rules demo_rule_run "[3, 4]" True "[False, True]"]
    by (auto simp: demo_rules_def numeral_eq_Suc)
qed

section \<open>The polygon\<close>

text \<open>On a rectangle the crossing test is the half-open containment: left and upper edge belong to it,
  right and lower edge do not. Over a linearly ordered field.\<close>

theorem rectangle_containment:
  fixes x0 :: "'f::linordered_field"
  assumes "x0 < x1" "y0 < y1"
  shows "point_in_polygon [(x0, y0), (x1, y0), (x1, y1), (x0, y1)] x y \<longleftrightarrow> x0 \<le> x \<and> x < x1 \<and> y0 \<le> y \<and> y < y1"
  using assms by (auto simp: point_in_polygon_def edge_crossed_def upt_rec numeral_eq_Suc)

lemma rectangle_containment_witness:
  "point_in_polygon [(100, 100), (300, 100), (300, 300), (100, 300)] (200::rat) 100 \<and>
   \<not> point_in_polygon [(100, 100), (300, 100), (300, 300), (100, 300)] (300::rat) 100"
  using rectangle_containment [of "100::rat" 300 100 300 200 100] rectangle_containment [of "100::rat" 300 100 300 300 100]
  by simp

text \<open>The region that the comment of the sample rule and of the engine documents: \<open>Init\<close> accepts it and
  keeps a single point of it, whatever \<open>std::stof\<close> makes of the numerals, and with that region no object
  is ever hit.\<close>

theorem documented_region_rejects_all:
  fixes stof :: "string \<Rightarrow> 'f::linordered_field option"
  assumes "stof ''100'' = Some a" "stof ''100],[300,100],[300,300],[100,300'' = Some b"
  shows "sample_init stof ''[[100,100],[300,100],[300,300],[100,300]]'' [] = Inr [(a, b)] \<and>
    sample_process two [(a, b)] objs = (0, replicate (length objs) False)"
proof -
  have "sample_init stof [] [(a, b)] = Inr [(a, b)]" by (simp add: sample_init.simps)
  then have "sample_init stof ''[[100,100],[300,100],[300,300],[100,300]]'' [] = Inr [(a, b)]"
    using assms by (subst sample_init.simps) simp
  moreover have "\<not> point_in_polygon [(a, b)] x y" for x y
    by (simp add: point_in_polygon_def edge_crossed_def)
  ultimately show ?thesis by (auto simp: sample_process_def map_replicate_const)
qed

definition demo_stof :: "string \<Rightarrow> rat option" where
  "demo_stof s = (if take 3 s = ''100'' then Some 100 else None)"

lemma documented_region_rejects_all_witness:
  "sample_init demo_stof ''[[100,100],[300,100],[300,300],[100,300]]'' [] = Inr [(100, 100)] \<and>
   sample_process 2 [(100::rat, 100)] [] = (0, replicate (length ([] :: rat object list)) False)"
  by (rule documented_region_rejects_all) (simp_all add: demo_stof_def numeral_eq_Suc)

end
