(* ===== verification/Face_Align.thy ===== *)
theory Face_Align
  imports Complex_Main Frames Detection
begin

text \<open>
  The geometry of \<open>models/face_align.cpp\<close>: how frontal a face is, and which region of the frame is cut out
  for it. Numbers are of any type with the operations of \<open>float\<close>; the library functions on them are the
  fields of \<open>float_lib\<close>. The crop by the similarity transform, which theory \<open>Similarity\<close> models, is an argument.
\<close>

unbundle bit_operations_syntax

section \<open>Numbers\<close>

fun small :: "nat \<Rightarrow> 'f::{zero,one,plus}" where
  "small 0 = 0"
| "small (Suc n) = small n + 1"

definition dec :: "nat \<Rightarrow> nat \<Rightarrow> 'f::{zero,one,plus,inverse}" where
  "dec n d = small n / small d"

definition fabs :: "'f::{zero,uminus,ord} \<Rightarrow> 'f" where
  "fabs x = (if x < 0 then - x else x)"

record 'f float_lib =
  fsqrt :: "'f \<Rightarrow> 'f"
  fatan2 :: "'f \<Rightarrow> 'f \<Rightarrow> 'f"
  ffloor :: "'f \<Rightarrow> int"
  fceil :: "'f \<Rightarrow> int"
  of_i :: "int \<Rightarrow> 'f"
  float_pi :: 'f

section \<open>The frontal gate and the frontal score\<close>

record 'f frontal_config =
  min_eye_dist :: 'f
  max_roll_deg :: 'f
  max_yaw_proxy :: 'f
  min_sym :: 'f
  min_pitch_proxy :: 'f
  max_pitch_proxy :: 'f

record 'f frontal_metrics =
  eye_dist :: 'f
  roll_deg :: 'f
  yaw_proxy :: 'f
  pitch_proxy :: 'f
  sym :: 'f
  valid :: bool

definition no_metrics :: "'f::zero frontal_metrics" where
  "no_metrics = \<lparr>eye_dist = 0, roll_deg = 0, yaw_proxy = 0, pitch_proxy = 0, sym = 0, valid = False\<rparr>"

definition frontal_loose :: "'f::{zero,one,plus,inverse} frontal_config" where
  "frontal_loose = \<lparr>min_eye_dist = small 12, max_roll_deg = small 40, max_yaw_proxy = dec 7 10,
     min_sym = dec 3 10, min_pitch_proxy = dec 15 100, max_pitch_proxy = dec 16 10\<rparr>"

definition frontal_recommended :: "'f::{zero,one,plus,inverse} frontal_config" where
  "frontal_recommended = \<lparr>min_eye_dist = small 16, max_roll_deg = small 30, max_yaw_proxy = dec 5 10,
     min_sym = dec 4 10, min_pitch_proxy = dec 25 100, max_pitch_proxy = dec 14 10\<rparr>"

definition frontal_strict :: "'f::{zero,one,plus,inverse} frontal_config" where
  "frontal_strict = \<lparr>min_eye_dist = small 20, max_roll_deg = small 20, max_yaw_proxy = dec 35 100,
     min_sym = dec 55 100, min_pitch_proxy = dec 35 100, max_pitch_proxy = dec 12 10\<rparr>"

text \<open>The five points are: left eye, right eye, nose, left and right corner of the mouth.\<close>

definition compute_frontal_metrics ::
    "'f::{zero,one,plus,minus,uminus,times,inverse,ord} float_lib \<Rightarrow> 'f point2f list \<Rightarrow> bool \<times> 'f frontal_metrics" where
  "compute_frontal_metrics fl lm =
     (let le = lm ! 0; re = lm ! 1; nose = lm ! 2;
          mouth_x = (px (lm ! 3) + px (lm ! 4)) * dec 5 10; mouth_y = (py (lm ! 3) + py (lm ! 4)) * dec 5 10;
          dx = px re - px le; dy = py re - py le; ed = fsqrt fl (dx * dx + dy * dy)
      in if ed < dec 1 1000 then (False, no_metrics)
         else
           (let mid_x = dec 5 10 * (px le + px re); mid_y = dec 5 10 * (py le + py re);
                c = dx / ed; s = dy / ed;
                nx = px nose - mid_x; ny = py nose - mid_y; nose_x_eye = c * nx + s * ny;
                mx = mouth_x - mid_x; my = mouth_y - mid_y; mouth_y_eye = (- s) * mx + c * my;
                left_h = fabs (c * (px le - px nose) + s * (py le - py nose));
                right_h = fabs (c * (px re - px nose) + s * (py re - py nose));
                h_max = std_max left_h right_h;
                sy = (if h_max < dec 1 1000 then 0 else std_min left_h right_h / h_max)
            in (True, \<lparr>eye_dist = ed, roll_deg = fatan2 fl dy dx * (small 180 / float_pi fl),
                       yaw_proxy = nose_x_eye / ed, pitch_proxy = mouth_y_eye / ed, sym = sy, valid = True\<rparr>)))"

definition estimate_yaw_proxy ::
    "'f::{zero,one,plus,minus,uminus,times,inverse,ord} float_lib \<Rightarrow> 'f point2f list \<Rightarrow> 'f" where
  "estimate_yaw_proxy fl lm =
     (case compute_frontal_metrics fl lm of (ok, m) \<Rightarrow> if \<not> ok then 0 else yaw_proxy m)"

text \<open>The pitch gate is compiled out by default.\<close>

definition is_frontal_face ::
    "'f::{zero,one,plus,minus,uminus,times,inverse,ord} float_lib \<Rightarrow> 'f point2f list \<Rightarrow> 'f frontal_config \<Rightarrow>
     bool \<times> 'f frontal_metrics" where
  "is_frontal_face fl lm cfg =
     (case compute_frontal_metrics fl lm of
        (ok, m) \<Rightarrow>
          if \<not> ok then (False, m)
          else if eye_dist m < min_eye_dist cfg then (False, m)
          else if max_roll_deg cfg < fabs (roll_deg m) then (False, m)
          else if max_yaw_proxy cfg < fabs (yaw_proxy m) then (False, m)
          else if sym m < min_sym cfg then (False, m)
          else (True, m))"

record 'f frontal_score_config =
  yaw_ref :: 'f
  roll_ref :: 'f
  eye_ref :: 'f
  pitch_lo :: 'f
  pitch_hi :: 'f
  w_yaw :: 'f
  w_roll :: 'f
  w_sym :: 'f
  w_eye :: 'f
  w_pitch :: 'f

definition frontal_score_recommended :: "'f::{zero,one,plus,inverse} frontal_score_config" where
  "frontal_score_recommended = \<lparr>yaw_ref = dec 7 10, roll_ref = small 40, eye_ref = small 24, pitch_lo = dec 25 100,
     pitch_hi = dec 14 10, w_yaw = dec 35 100, w_roll = dec 15 100, w_sym = dec 25 100, w_eye = dec 25 100,
     w_pitch = 0\<rparr>"

definition frontal_score_loose :: "'f::{zero,one,plus,inverse} frontal_score_config" where
  "frontal_score_loose = frontal_score_recommended\<lparr>w_yaw := dec 3 10, w_roll := dec 15 100, w_sym := dec 25 100,
     w_eye := dec 3 10, w_pitch := 0\<rparr>"

definition frontal_score_strict :: "'f::{zero,one,plus,inverse} frontal_score_config" where
  "frontal_score_strict = frontal_score_recommended\<lparr>w_yaw := dec 4 10, w_roll := dec 1 10, w_sym := dec 3 10,
     w_eye := dec 2 10, w_pitch := 0\<rparr>"

definition clamp01 :: "'f::{zero,one,ord} \<Rightarrow> 'f" where
  "clamp01 x = std_max 0 (std_min 1 x)"

definition pitch_goodness :: "'f::{zero,one,plus,minus,times,inverse,ord} \<Rightarrow> 'f \<Rightarrow> 'f \<Rightarrow> 'f" where
  "pitch_goodness pitch lo hi =
     (if hi \<le> lo then 0
      else if lo \<le> pitch \<and> pitch \<le> hi then 1
      else
        (let half = dec 5 10 * (hi - lo)
         in if half < dec 1 1000000 then 0
            else if pitch < lo then clamp01 (1 - (lo - pitch) / half)
            else clamp01 (1 - (pitch - hi) / half)))"

definition compute_frontal_score ::
    "'f::{zero,one,plus,minus,uminus,times,inverse,ord} float_lib \<Rightarrow> 'f point2f list \<Rightarrow> 'f frontal_score_config \<Rightarrow>
     'f \<times> 'f frontal_metrics" where
  "compute_frontal_score fl lm cfg =
     (case compute_frontal_metrics fl lm of
        (ok, m) \<Rightarrow>
          if \<not> ok then (0, m)
          else
            (let yr = std_max (yaw_ref cfg) (dec 1 1000); rr = std_max (roll_ref cfg) (dec 1 1000);
                 er = std_max (eye_ref cfg) (dec 1 1000);
                 s_yaw = clamp01 (1 - fabs (yaw_proxy m) / yr); s_roll = clamp01 (1 - fabs (roll_deg m) / rr);
                 s_sym = clamp01 (sym m); s_eye = clamp01 (eye_dist m / er);
                 sc = w_yaw cfg * s_yaw + w_roll cfg * s_roll + w_sym cfg * s_sym + w_eye cfg * s_eye;
                 sc = (if 0 < w_pitch cfg then
                         sc + w_pitch cfg * pitch_goodness (pitch_proxy m) (pitch_lo cfg) (pitch_hi cfg) else sc)
             in (clamp01 sc, m)))"

section \<open>The region cut out for a face\<close>

record rect_i =
  ix :: int
  iy :: int
  iw :: int
  ih :: int

definition empty_roi :: rect_i where "empty_roi = \<lparr>ix = 0, iy = 0, iw = 0, ih = 0\<rparr>"

definition roi_empty :: "rect_i \<Rightarrow> bool" where "roi_empty r = (iw r \<le> 0 \<or> ih r \<le> 0)"

definition align_up2 :: "int \<Rightarrow> int" where "align_up2 x = (x + 1) AND NOT 1"

definition align_roi_for_ivps :: "rect_i \<Rightarrow> int \<Rightarrow> int \<Rightarrow> rect_i" where
  "align_roi_for_ivps roi frame_w frame_h =
     (let x = align_up2 (max 0 (ix roi)); y = align_up2 (max 0 (iy roi));
          w = align_up2 (max 2 (iw roi)); h = align_up2 (max 2 (ih roi));
          w = (if x + w > frame_w then (frame_w - x) AND NOT 1 else w);
          h = (if y + h > frame_h then (frame_h - y) AND NOT 1 else h)
      in if w < 2 \<or> h < 2 then empty_roi else \<lparr>ix = x, iy = y, iw = w, ih = h\<rparr>)"

definition compute_expanded_roi ::
    "'f::{zero,one,plus,minus,times,inverse,ord} float_lib \<Rightarrow> 'f rectf \<Rightarrow> 'f \<Rightarrow> int \<Rightarrow> int \<Rightarrow> int \<Rightarrow> rect_i" where
  "compute_expanded_roi fl box expand frame_w frame_h min_side =
     (if frame_w \<le> 0 \<or> frame_h \<le> 0 \<or> expand \<le> 0 then empty_roi
      else if rwidth box \<le> 0 \<or> rheight box \<le> 0 then empty_roi
      else
        (let fw = of_i fl frame_w; fh = of_i fl frame_h;
             cx = rx box + rwidth box * dec 5 10; cy = ry box + rheight box * dec 5 10;
             nw = rwidth box * expand; nh = rheight box * expand;
             nw = (if min_side > 0 then std_max nw (of_i fl (min min_side frame_w)) else nw);
             nh = (if min_side > 0 then std_max nh (of_i fl (min min_side frame_h)) else nh);
             x0 = cx - nw * dec 5 10; y0 = cy - nh * dec 5 10; x1 = cx + nw * dec 5 10; y1 = cy + nh * dec 5 10;
             (x0, x1) = (if x0 < 0 then (0, x1 - x0) else (x0, x1));
             (y0, y1) = (if y0 < 0 then (0, y1 - y0) else (y0, y1));
             (x0, x1) = (if fw < x1 then (x0 - (x1 - fw), fw) else (x0, x1));
             (y0, y1) = (if fh < y1 then (y0 - (y1 - fh), fh) else (y0, y1));
             x0 = std_max 0 x0; y0 = std_max 0 y0; x1 = std_min fw x1; y1 = std_min fh y1;
             left = ffloor fl x0; top = ffloor fl y0; w = fceil fl x1 - left; h = fceil fl y1 - top
         in if w < 1 \<or> h < 1 then empty_roi
            else \<lparr>ix = left, iy = top, iw = (if left + w > frame_w then frame_w - left else w),
                  ih = (if top + h > frame_h then frame_h - top else h)\<rparr>))"

definition remap_landmarks_to_roi :: "'f::minus point2f list \<Rightarrow> 'f \<Rightarrow> 'f \<Rightarrow> 'f point2f list" where
  "remap_landmarks_to_roi src roi_x roi_y = map (\<lambda>p. \<lparr>px = px p - roi_x, py = py p - roi_y\<rparr>) src"

text \<open>\<open>crop\<close> configures the scaler for the region and \<open>process\<close> runs it on the frame; \<open>to_mat\<close> is \<open>Copy2Mat\<close> and
  \<open>norm_crop\<close> the warp. The results are the aligned face, the cut-out image if there is one, and the regions
  the scaler was asked for.\<close>

definition hw_roi_norm_crop ::
    "'f::{zero,one,plus,minus,times,inverse,ord} float_lib \<Rightarrow> (u16 \<Rightarrow> u16 \<Rightarrow> u16 \<Rightarrow> u16 \<Rightarrow> int) \<Rightarrow>
     (image_data \<Rightarrow> int \<times> image_data) \<Rightarrow> (image_data \<Rightarrow> 'm option) \<Rightarrow> ('m \<Rightarrow> 'f point2f list \<Rightarrow> int \<Rightarrow> 'm option) \<Rightarrow>
     image_data \<Rightarrow> 'f object \<Rightarrow> 'f \<Rightarrow> int \<Rightarrow> 'm option \<times> image_data option \<times> (u16 \<times> u16 \<times> u16 \<times> u16) list" where
  "hw_roi_norm_crop fl crop process to_mat norm_crop frame face expand image_size =
     (case data frame of
        None \<Rightarrow> (None, None, [])
      | Some fd \<Rightarrow>
          (case info fd of
             None \<Rightarrow> (None, None, [])
           | Some v \<Rightarrow>
               if image_size \<le> 0 then (None, None, [])
               else
                 (let frame_w = sint (if 0 < width frame then width frame else vwidth v);
                      frame_h = sint (if 0 < height frame then height frame else vheight v)
                  in if frame_w \<le> 0 \<or> frame_h \<le> 0 then (None, None, [])
                     else
                       (let roi = align_roi_for_ivps (compute_expanded_roi fl (rect face) expand frame_w frame_h image_size)
                                    frame_w frame_h;
                            x = word_of_int (ix roi); y = word_of_int (iy roi);
                            w = word_of_int (iw roi); h = word_of_int (ih roi)
                        in if roi_empty roi then (None, None, [])
                           else if crop x y w h \<noteq> 0 then (None, None, [(x, y, w, h)])
                           else
                             (case process frame of
                                (ret, roi_frame) \<Rightarrow>
                                  if ret \<noteq> 0 then (None, None, [(x, y, w, h)])
                                  else
                                    (case to_mat roi_frame of
                                       None \<Rightarrow> (None, Some roi_frame, [(x, y, w, h)])
                                     | Some mat \<Rightarrow>
                                         (norm_crop mat (remap_landmarks_to_roi (landmark face) (of_i fl (ix roi))
                                            (of_i fl (iy roi))) image_size, Some roi_frame, [(x, y, w, h)])))))))"

section \<open>The region is inside of the frame\<close>

lemma align_up2_eq: "align_up2 x = (x + 1) - (x + 1) mod 2"
  by (simp add: align_up2_def and_minus_two)

lemma even_sub_mod: "even (x - x mod 2)" for x :: int
  by presburger

lemma axis_inside:
  assumes "p = align_up2 (max 0 a)" "w0 = align_up2 (max 2 b)"
    "w = (if p + w0 > f then (f - p) AND NOT 1 else w0)" "\<not> w < 2"
  shows "0 \<le> p \<and> even p \<and> 2 \<le> w \<and> even w \<and> p + w \<le> f"
proof -
  have p: "0 \<le> p" "even p" unfolding assms(1) align_up2_eq by presburger+
  have w0: "even w0" unfolding assms(2) align_up2_eq by (rule even_sub_mod)
  have "even w" using w0 by (simp only: assms(3) and_not_one even_sub_mod if_split) simp
  moreover have "p + w \<le> f" unfolding assms(3) and_not_one using pos_mod_sign [of 2 "f - p"] by simp
  ultimately show ?thesis using p assms(4) by simp
qed

lemma align_roi_inside:
  assumes "r = align_roi_for_ivps roi frame_w frame_h" "\<not> roi_empty r"
  shows "0 \<le> ix r \<and> even (ix r) \<and> 2 \<le> iw r \<and> even (iw r) \<and> ix r + iw r \<le> frame_w"
    "0 \<le> iy r \<and> even (iy r) \<and> 2 \<le> ih r \<and> even (ih r) \<and> iy r + ih r \<le> frame_h"
proof -
  define x where "x = align_up2 (max 0 (ix roi))"
  define y where "y = align_up2 (max 0 (iy roi))"
  define w0 where "w0 = align_up2 (max 2 (iw roi))"
  define h0 where "h0 = align_up2 (max 2 (ih roi))"
  define w where "w = (if x + w0 > frame_w then (frame_w - x) AND NOT 1 else w0)"
  define h where "h = (if y + h0 > frame_h then (frame_h - y) AND NOT 1 else h0)"
  have r: "r = (if w < 2 \<or> h < 2 then empty_roi else \<lparr>ix = x, iy = y, iw = w, ih = h\<rparr>)"
    unfolding assms(1) align_roi_for_ivps_def Let_def w_def h_def x_def y_def w0_def h0_def by (rule refl)
  then have n: "\<not> w < 2" "\<not> h < 2" using assms(2) by (auto simp: roi_empty_def empty_roi_def split: if_splits)
  show "0 \<le> ix r \<and> even (ix r) \<and> 2 \<le> iw r \<and> even (iw r) \<and> ix r + iw r \<le> frame_w"
    using axis_inside [OF x_def w0_def w_def n(1)] r n by simp
  show "0 \<le> iy r \<and> even (iy r) \<and> 2 \<le> ih r \<and> even (ih r) \<and> iy r + ih r \<le> frame_h"
    using axis_inside [OF y_def h0_def h_def n(2)] r n by simp
qed

lemma clamp01_range: "0 \<le> clamp01 (x :: 'f::linordered_field) \<and> clamp01 x \<le> 1"
  by (simp add: clamp01_def)

text \<open>On an ordered field the score is between 0 and 1.\<close>

lemma frontal_score_range:
  "0 \<le> fst (compute_frontal_score fl lm cfg) \<and> fst (compute_frontal_score fl lm cfg) \<le> (1 :: 'f::linordered_field)"
  by (simp add: compute_frontal_score_def Let_def clamp01_range split: prod.splits)

definition demo_lib :: "rat float_lib" where
  "demo_lib = \<lparr>fsqrt = \<lambda>x. x, fatan2 = \<lambda>y x. y, ffloor = floor, fceil = ceiling, of_i = of_int, float_pi = 22 / 7\<rparr>"

definition demo_face :: "rat object" where
  "demo_face = \<lparr>rect = \<lparr>rx = -5, ry = 11, rwidth = 20, rheight = 20\<rparr>, label = 0, prob = 1, landmark = [], mask_feat = [],
     kps_feat = [], angle = 0, model_name = [], label_name = ''face'', track_id = 3\<rparr>"

definition demo_scene_image :: image_data where
  "demo_scene_image = \<lparr>width = 64, height = 48, img_format = YUV420_SEMIPLANAR, end_of_stream = False,
     data = Some (demo_frame YUV420_SEMIPLANAR)\<rparr>"

definition demo_cut :: "unit option \<times> image_data option \<times> (u16 \<times> u16 \<times> u16 \<times> u16) list" where
  "demo_cut = hw_roi_norm_crop demo_lib (\<lambda>x y w h. 0) (\<lambda>i. (0, i)) (\<lambda>i. Some ()) (\<lambda>m p n. Some m) demo_scene_image
     demo_face (3 / 2) 24"

section \<open>Property\<close>

text \<open>C28. Whatever the detector gives as the rectangle of a face (negative, outside of the frame, not a number)
  and whatever the library's rounding does, the scaler is asked at most once, and only for a region that
  is at least two by two, has even corner and size, and lies inside of the frame, for frames of up to 65535
  pixels a side.\<close>

theorem cut_out_inside_frame:
  assumes "data frame = Some fd" "info fd = Some v"
    "frame_w = sint (if 0 < width frame then width frame else vwidth v)"
    "frame_h = sint (if 0 < height frame then height frame else vheight v)"
    "frame_w \<le> 65535" "frame_h \<le> 65535"
    "hw_roi_norm_crop fl crop process to_mat norm_crop frame face expand image_size = (aligned, face_img, regions)"
  shows "length regions \<le> 1 \<and> list_all (\<lambda>(x, y, w, h).
      even (uint x) \<and> even (uint y) \<and> 2 \<le> uint w \<and> even (uint w) \<and> 2 \<le> uint h \<and> even (uint h) \<and>
      uint x + uint w \<le> frame_w \<and> uint y + uint h \<le> frame_h) regions"
proof -
  define roi where "roi = align_roi_for_ivps (compute_expanded_roi fl (rect face) expand frame_w frame_h image_size)
    frame_w frame_h"
  define req where "req = (word_of_int (ix roi) :: u16, word_of_int (iy roi) :: u16, word_of_int (iw roi) :: u16,
    word_of_int (ih roi) :: u16)"
  have "regions = [] \<or> \<not> roi_empty roi \<and> regions = [req]"
    using assms(7)
    unfolding hw_roi_norm_crop_def assms(1,2) option.case assms(3,4) [symmetric] Let_def roi_def [symmetric]
      req_def [symmetric]
    by (auto split: if_splits option.splits prod.splits)
  then consider "regions = []" | "\<not> roi_empty roi" "regions = [req]" by blast
  then show ?thesis
  proof cases
    case 2
    note i = align_roi_inside [OF roi_def 2(1)]
    have u: "uint (word_of_int k :: u16) = k" if "0 \<le> k" "k \<le> 65535" for k
      using that by (simp add: uint_word_of_int)
    show ?thesis using i assms(5,6) 2(2) by (simp add: u req_def)
  qed simp
qed

theorem cut_out_inside_frame_witness:
  "snd (snd demo_cut) = [(0, 6, 30, 30)] \<and>
   list_all (\<lambda>(x, y, w, h). even (uint x) \<and> even (uint y) \<and> 2 \<le> uint w \<and> even (uint w) \<and> 2 \<le> uint h \<and>
     even (uint h) \<and> uint x + uint w \<le> 64 \<and> uint y + uint h \<le> 48) (snd (snd demo_cut))"
proof -
  have d: "data demo_scene_image = Some (demo_frame YUV420_SEMIPLANAR)"
    "info (demo_frame YUV420_SEMIPLANAR) = Some (demo_vframe YUV420_SEMIPLANAR)"
    "(64 :: int) = sint (if 0 < width demo_scene_image then width demo_scene_image else vwidth (demo_vframe YUV420_SEMIPLANAR))"
    "(48 :: int) = sint (if 0 < height demo_scene_image then height demo_scene_image else vheight (demo_vframe YUV420_SEMIPLANAR))"
    by code_simp+
  have r: "snd (snd demo_cut) = [(0, 6, 30, 30)]" by code_simp
  obtain a f rs where c: "demo_cut = (a, f, rs)" by (metis prod_cases3)
  show ?thesis
    using cut_out_inside_frame [OF d(1-4) _ _ c [unfolded demo_cut_def]] r c by simp
qed

end
