(* ===== verification/Face_Plugin.thy ===== *)
theory Face_Plugin
  imports Complex_Main Face_Align Face_Server Yaml_Lib
begin

text \<open>
  The face recognition plugin (\<open>plugins/face_recognition/\<close>): its configuration, the per-track bookkeeping of
  \<open>OnFrame\<close>, and the two asynchronous jobs. An image is of any type \<open>'i\<close>, with \<open>None\<close> for an \<open>ImageData\<close> without
  data. \<open>track_pending_\<close> is a map; the order in which the pruning loop meets its entries is an argument, as
  for every unordered container. The frame counter does not leave its 32 bits (2.7 years of 25 frames a second).
\<close>

section \<open>Configuration\<close>

record 'f face_plugin_config =
  frontal_score_thresh :: 'f
  qdrant_collection :: string

definition default_face_config :: "'f::{zero,one,plus,inverse} face_plugin_config" where
  "default_face_config = \<lparr>frontal_score_thresh = dec 55 100, qdrant_collection = ''face_embeddings''\<rparr>"

text \<open>What is used of yaml-cpp besides: the null test, the tag, the conversion to \<open>double\<close> (does it succeed).\<close>

record ('n, 'f) yaml_face = "('n, 'f) yaml_reader" +
  is_null :: "'n \<Rightarrow> bool"
  tag :: "'n \<Rightarrow> string"
  as_double_ok :: "'n \<Rightarrow> bool"
  load_what :: "string \<Rightarrow> string"

definition read_optional_float :: "('n, 'f) yaml_face \<Rightarrow> 'n \<Rightarrow> string \<Rightarrow> 'f \<Rightarrow> string + 'f" where
  "read_optional_float y params field value =
     (case lookup y params field of
        None \<Rightarrow> Inr value
      | Some n \<Rightarrow> (case as_float y n of Some v \<Rightarrow> Inr v | None \<Rightarrow> Inl (field @ '': '' @ what y n)))"

definition read_optional_string :: "('n, 'f) yaml_face \<Rightarrow> 'n \<Rightarrow> string \<Rightarrow> string \<Rightarrow> string + string" where
  "read_optional_string y params field value =
     (case lookup y params field of
        None \<Rightarrow> Inr value
      | Some n \<Rightarrow>
          if \<not> is_scalar y n then Inl (field @ '': expected a string'')
          else
            (let explicitly_string = (tag y n = ''!'' \<or> tag y n = ''tag:yaml.org,2002:str'')
             in if \<not> explicitly_string \<and> (as_bool y n \<noteq> None \<or> as_double_ok y n) then
                  Inl (field @ '': expected a string'')
                else (case as_string y n of Some v \<Rightarrow> Inr v | None \<Rightarrow> Inl (field @ '': '' @ what y n))))"

text \<open>\<open>ParseFacePluginConfig\<close>: the configuration, or the error text. The output also holds what was read
  before an error; the caller then discards it.\<close>

definition parse_face_plugin_config ::
    "('n, 'f::{zero,one,plus,inverse,ord}) yaml_face \<Rightarrow> string \<Rightarrow> string + 'f face_plugin_config" where
  "parse_face_plugin_config y params_yaml =
     (case yaml_load y params_yaml of
        None \<Rightarrow> Inl (''params_yaml: '' @ load_what y params_yaml)
      | Some params \<Rightarrow>
          if is_null y params then Inr default_face_config
          else if \<not> is_map y params then Inl ''params_yaml: expected a map''
          else
            then_do (read_optional_float y params ''frontal_score_thresh''
                       (frontal_score_thresh default_face_config)) (\<lambda>thresh.
              if \<not> (0 \<le> thresh \<and> thresh \<le> 1) then Inl ''frontal_score_thresh: expected a value in [0, 1]''
              else
                then_do (read_optional_string y params ''qdrant_collection''
                           (qdrant_collection (default_face_config :: 'f face_plugin_config))) (\<lambda>coll.
                  if coll = [] then Inl ''qdrant_collection: must not be empty''
                  else Inr \<lparr>frontal_score_thresh = thresh, qdrant_collection = coll\<rparr>)))"

section \<open>The plugin\<close>

record ('f, 'i) track_entry =
  last_face :: "'f object"
  last_frame :: "'i option"
  feat_done :: bool
  identify_inflight :: bool
  last_seen_frame :: int

record ('f, 'i) identify_item =
  item_track_id :: int
  item_face :: "'f object"
  item_feat :: "'f list"
  item_face_img :: "'i option"

record ('f, 'i) face_plugin =
  has_face_host :: bool
  collection :: string
  score_thresh :: 'f
  track_pending :: "int \<Rightarrow> ('f, 'i) track_entry option"
  face_frame_seq :: int
  identify_results :: "(int \<times> bool) list"

definition kTrackPruneFrames :: int where "kTrackPruneFrames = 60"
definition kTrackInflightMaxFrames :: int where "kTrackInflightMaxFrames = 1500"

definition face_plugin_new :: "('f::{zero,one,plus,inverse}, 'i) face_plugin" where
  "face_plugin_new = \<lparr>has_face_host = False, collection = ''face_embeddings'', score_thresh = dec 55 100,
     track_pending = (\<lambda>_. None), face_frame_seq = 0, identify_results = []\<rparr>"

definition face_init ::
    "('n, 'f::{zero,one,plus,inverse,ord}) yaml_face \<Rightarrow> bool \<Rightarrow> string \<Rightarrow> ('f, 'i) face_plugin \<Rightarrow>
     int \<times> ('f, 'i) face_plugin" where
  "face_init y host params_yaml p =
     (if \<not> host then (-1, p)
      else
        (case parse_face_plugin_config y params_yaml of
           Inl err \<Rightarrow> (-1, p)
         | Inr c \<Rightarrow> (0, p\<lparr>has_face_host := True, score_thresh := frontal_score_thresh c,
                          collection := qdrant_collection c\<rparr>)))"

definition face_shutdown :: "('f, 'i) face_plugin \<Rightarrow> ('f, 'i) face_plugin" where
  "face_shutdown p = p\<lparr>track_pending := (\<lambda>_. None), identify_results := []\<rparr>"

definition post_identify_result :: "int \<Rightarrow> bool \<Rightarrow> ('f, 'i) face_plugin \<Rightarrow> ('f, 'i) face_plugin" where
  "post_identify_result tid good p = p\<lparr>identify_results := identify_results p @ [(tid, good)]\<rparr>"

definition update_entry ::
    "int \<Rightarrow> (('f, 'i) track_entry \<Rightarrow> ('f, 'i) track_entry) \<Rightarrow> ('f, 'i) face_plugin \<Rightarrow> ('f, 'i) face_plugin" where
  "update_entry tid f p = p\<lparr>track_pending := (track_pending p)(tid := map_option f (track_pending p tid))\<rparr>"

definition drain_identify_results :: "('f, 'i) face_plugin \<Rightarrow> ('f, 'i) face_plugin" where
  "drain_identify_results p =
     fold (\<lambda>(tid, good). update_entry tid (\<lambda>e.
            if good then e\<lparr>identify_inflight := False, feat_done := True, last_frame := None\<rparr>
            else e\<lparr>identify_inflight := False\<rparr>))
       (identify_results p) (p\<lparr>identify_results := []\<rparr>)"

definition rollback_inflight :: "int list \<Rightarrow> ('f, 'i) face_plugin \<Rightarrow> ('f, 'i) face_plugin" where
  "rollback_inflight ids p = fold (\<lambda>tid. update_entry tid (\<lambda>e. e\<lparr>identify_inflight := False\<rparr>)) ids p"

section \<open>OnFrame\<close>

datatype ('f, 'i) face_job =
  IdentifyJob "('f, 'i) identify_item list" "'i option" string string int
| LostJob string string int "'f object" "'i option"

datatype clone_tag = CloneTrack int | CloneBatch | CloneLost int

text \<open>What the host answers during one frame: \<open>clone_frame\<close> is told which copy it is.\<close>

record ('f, 'i) frame_host =
  clone_frame :: "clone_tag \<Rightarrow> 'i option \<Rightarrow> int \<times> 'i option"
  infer_faces :: "'i option \<Rightarrow> 'f object list \<Rightarrow> 'i option list \<times> 'f list list"
  vectors_ready :: bool
  notify_ready :: bool
  submit_async :: "('f, 'i) face_job \<Rightarrow> bool"
  new_uuid :: "int \<Rightarrow> string"
  cur_time :: string
  created_at :: int
  frontal_score :: "'f object \<Rightarrow> 'f"

text \<open>The first loop. A new entry is value-initialised; its face is set at once.\<close>

definition see_face :: "('f, 'i) frame_host \<Rightarrow> 'i option \<Rightarrow> 'f object \<Rightarrow> ('f, 'i) face_plugin \<Rightarrow> ('f, 'i) face_plugin" where
  "see_face h frame f p =
     (if track_id f < 0 then p
      else
        (let e = (case track_pending p (track_id f) of
                    Some e \<Rightarrow> e
                  | None \<Rightarrow> \<lparr>last_face = f, last_frame = None, feat_done = False, identify_inflight = False,
                             last_seen_frame = 0\<rparr>);
             e1 = e\<lparr>last_seen_frame := face_frame_seq p\<rparr>;
             e2 = (if \<not> feat_done e1 then
                     (case clone_frame h (CloneTrack (track_id f)) frame of
                        (r, img) \<Rightarrow> e1\<lparr>last_face := f, last_frame := (if r \<noteq> 0 then None else img)\<rparr>)
                   else e1)
         in p\<lparr>track_pending := (track_pending p)(track_id f \<mapsto> e2)\<rparr>))"

definition wants_identify :: "('f::ord, 'i) frame_host \<Rightarrow> ('f, 'i) face_plugin \<Rightarrow> 'f object \<Rightarrow> bool" where
  "wants_identify h p f =
     (if track_id f < 0 then False
      else
        (case track_pending p (track_id f) of
           None \<Rightarrow> False
         | Some e \<Rightarrow> \<not> (feat_done e \<or> identify_inflight e) \<and> \<not> frontal_score h f < score_thresh p))"

text \<open>The loop over the features.\<close>

fun collect_batch ::
    "'f object list \<Rightarrow> 'i option list \<Rightarrow> 'f list list \<Rightarrow> nat \<Rightarrow> ('f, 'i) face_plugin \<Rightarrow>
     ('f, 'i) identify_item list \<times> ('f, 'i) face_plugin" where
  "collect_batch todo imgs [] i p = ([], p)"
| "collect_batch todo imgs (ft # fts) i p =
     (if ft = [] then collect_batch todo imgs fts (Suc i) p
      else if i \<ge> length todo \<or> i \<ge> length imgs then collect_batch todo imgs fts (Suc i) p
      else
        (let tid = track_id (todo ! i)
         in case track_pending p tid of
              None \<Rightarrow> collect_batch todo imgs fts (Suc i) p
            | Some e \<Rightarrow>
                (let item = \<lparr>item_track_id = tid, item_face = todo ! i, item_feat = ft, item_face_img = imgs ! i\<rparr>;
                     (items, p') = collect_batch todo imgs fts (Suc i)
                       (update_entry tid (\<lambda>e. e\<lparr>identify_inflight := True\<rparr>) p)
                 in (item # items, p'))))"

definition submit_batch ::
    "('f, 'i) frame_host \<Rightarrow> 'i option \<Rightarrow> string \<Rightarrow> ('f, 'i) identify_item list \<Rightarrow> ('f, 'i) face_plugin \<Rightarrow>
     ('f, 'i) face_job list \<times> ('f, 'i) face_plugin" where
  "submit_batch h frame msg_id batch p =
     (if batch = [] then ([], p)
      else
        (let ids = map item_track_id batch
         in if \<not> vectors_ready h \<or> \<not> notify_ready h then ([], rollback_inflight ids p)
            else
              (case clone_frame h CloneBatch frame of
                 (r, copied) \<Rightarrow>
                   if r \<noteq> 0 \<or> copied = None then ([], rollback_inflight ids p)
                   else
                     (let job = IdentifyJob batch copied msg_id (cur_time h) (created_at h)
                      in if \<not> submit_async h job then ([], rollback_inflight ids p) else ([job], p)))))"

text \<open>The pruning loop, for one entry.\<close>

definition erase_entry :: "int \<Rightarrow> ('f, 'i) face_plugin \<Rightarrow> ('f, 'i) face_plugin" where
  "erase_entry tid p = p\<lparr>track_pending := (track_pending p)(tid := None)\<rparr>"

definition prune_entry ::
    "('f, 'i) frame_host \<Rightarrow> int \<Rightarrow> ('f, 'i) face_plugin \<Rightarrow> ('f, 'i) face_job list \<times> ('f, 'i) face_plugin" where
  "prune_entry h tid p =
     (case track_pending p tid of
        None \<Rightarrow> ([], p)
      | Some e \<Rightarrow>
          if face_frame_seq p - last_seen_frame e \<le> kTrackPruneFrames then ([], p)
          else if feat_done e then ([], erase_entry tid p)
          else if identify_inflight e then
            (if face_frame_seq p - last_seen_frame e > kTrackInflightMaxFrames then ([], erase_entry tid p)
             else ([], p))
          else if last_frame e = None \<or> \<not> notify_ready h then ([], erase_entry tid p)
          else
            (case clone_frame h (CloneLost tid) (last_frame e) of
               (r, copied) \<Rightarrow>
                 if r \<noteq> 0 \<or> copied = None then ([], erase_entry tid p)
                 else
                   (let job = LostJob (new_uuid h tid) (cur_time h) tid (last_face e) copied
                    in if submit_async h job then ([job], erase_entry tid p) else ([], p))))"

fun prune_entries ::
    "('f, 'i) frame_host \<Rightarrow> int list \<Rightarrow> ('f, 'i) face_plugin \<Rightarrow> ('f, 'i) face_job list \<times> ('f, 'i) face_plugin" where
  "prune_entries h [] p = ([], p)"
| "prune_entries h (tid # tids) p =
     (let (jobs, p1) = prune_entry h tid p; (jobs', p2) = prune_entries h tids p1 in (jobs @ jobs', p2))"

text \<open>\<open>order\<close> lists the keys of the map as the pruning loop meets them; the result has the jobs that were
  accepted, in order.\<close>

definition face_on_frame ::
    "('f::ord, 'i) frame_host \<Rightarrow> (('f, 'i) face_plugin \<Rightarrow> int list) \<Rightarrow> 'i option \<Rightarrow> 'f object list \<Rightarrow>
     ('f, 'i) face_plugin \<Rightarrow> int \<times> ('f, 'i) face_job list \<times> ('f, 'i) face_plugin" where
  "face_on_frame h order frame objects p =
     (if \<not> has_face_host p then (-1, [], p)
      else
        (let msg_id = new_uuid h (-1);
             p1 = drain_identify_results p;
             p2 = p1\<lparr>face_frame_seq := face_frame_seq p1 + 1\<rparr>;
             p3 = fold (see_face h frame) objects p2;
             to_process = filter (wants_identify h p3) objects;
             (face_imgs, feats) = infer_faces h frame to_process;
             (batch, p4) = collect_batch to_process face_imgs feats 0 p3;
             (jobs, p5) = submit_batch h frame msg_id batch p4;
             (lost, p6) = prune_entries h (order p5) p5
         in (0, jobs @ lost, p6)))"

section \<open>The jobs\<close>

text \<open>A value in the payload of a point of the vector store, as far as it is told apart.\<close>

datatype payload_value = PText string | PInt int | POther

definition payload_string :: "(string \<Rightarrow> payload_value option) \<Rightarrow> string \<Rightarrow> string \<Rightarrow> string" where
  "payload_string payload key def =
     (case payload key of None \<Rightarrow> def | Some (PText t) \<Rightarrow> t | Some (PInt i) \<Rightarrow> to_string i | Some POther \<Rightarrow> def)"

text \<open>The JSON text of an alert, before it is printed: nothing, one face, or an array of faces.\<close>

datatype 'f description = NoDescription | OneStranger "int option" "'f rectf" | Strangers "(int option \<times> 'f rectf) list"

definition json_track :: "int \<Rightarrow> int option" where
  "json_track tid = (if tid \<ge> 0 then Some tid else None)"

definition stranger_alert_description :: "(int \<times> 'f object) list \<Rightarrow> 'f description" where
  "stranger_alert_description ss =
     (case ss of
        [] \<Rightarrow> NoDescription
      | [(tid, f)] \<Rightarrow> OneStranger (json_track tid) (rect f)
      | _ \<Rightarrow> Strangers (map (\<lambda>(tid, f). (json_track tid, rect f)) ss))"

text \<open>The bytes of the Chinese event name.\<close>

definition stranger_event :: string where
  "stranger_event = map char_of ([0xE9, 0x99, 0x8C, 0xE7, 0x94, 0x9F, 0xE4, 0xBA, 0xBA, 0xE9, 0x97, 0xAF, 0xE5, 0x85, 0xA5] :: nat list)"

record 'f new_point =
  pt_id :: string
  pt_vector :: "'f list"
  pt_created_at :: int
  pt_name :: string
  pt_ehr_no :: string

record ('f, 'i) job_host =
  vectors_up :: bool
  notify_up :: bool
  search :: "string \<Rightarrow> 'f list \<Rightarrow> bool \<times> (string \<Rightarrow> payload_value option) list"
  upsert_points :: "string \<Rightarrow> 'f new_point list \<Rightarrow> bool"
  jpeg_encode :: "'i option \<Rightarrow> int \<times> u8 list"
  push_csc :: "'i option \<Rightarrow> int"
  push_process :: "'i option \<Rightarrow> int \<times> 'i option"
  roi_crop :: "'i option \<Rightarrow> 'f object \<Rightarrow> 'i option"
  point_uuid :: "nat \<Rightarrow> string"
  dump_description :: "'f description \<Rightarrow> string"
  dump_persons :: "json_field list list \<Rightarrow> string"
  parse_envelope :: json_envelope
  upload :: "upload_call \<Rightarrow> http_response"
  server :: face_server_config

text \<open>The two host services the jobs use, with the scaler and the encoder as arguments.\<close>

definition encode_visitor_face :: "('f, 'i) job_host \<Rightarrow> 'i option \<Rightarrow> u8 list option" where
  "encode_visitor_face h face_img =
     (if face_img = None then None
      else if push_csc h face_img \<noteq> 0 then None
      else
        (case push_process h face_img of
           (ret, yuv) \<Rightarrow>
             if ret \<noteq> 0 then None
             else (case jpeg_encode h yuv of (r, jpg) \<Rightarrow> if r = 0 \<and> jpg \<noteq> [] then Some jpg else None)))"

definition crop_face_roi :: "('f, 'i) job_host \<Rightarrow> 'i option \<Rightarrow> 'f object \<Rightarrow> 'i option" where
  "crop_face_roi h frame face = (if frame = None then None else roi_crop h frame face)"

definition jpeg_blob :: "string \<Rightarrow> u8 list \<Rightarrow> image_blob" where
  "jpeg_blob nm d = \<lparr>blob_filename = nm, blob_content_type = ''image/jpeg'', blob_data = d\<rparr>"

text \<open>What a job did to the outside.\<close>

record 'f job_effects =
  posts :: "(int \<times> bool) list"
  upserts :: "(string \<times> 'f new_point list) list"
  alerts :: "(alert_push_request \<times> api_result \<times> upload_call option) list"
  visitors :: "(visitor_push_request \<times> api_result \<times> upload_call option) list"

definition no_job_effects :: "'f job_effects" where
  "no_job_effects = \<lparr>posts = [], upserts = [], alerts = [], visitors = []\<rparr>"

definition make_alert ::
    "('f, 'i) job_host \<Rightarrow> string \<Rightarrow> string \<Rightarrow> (int \<times> 'f object) list \<Rightarrow> image_blob \<Rightarrow> alert_push_request" where
  "make_alert h msg_id time ss img =
     \<lparr>al_msg_id = msg_id, al_event_id = ''stat_id'', al_org_id = ''test_org_id'', al_bank_id = ''test_bank_id'',
      al_event_time = time, al_event_name = stranger_event, al_channel_name = ''test_channel_name'',
      al_description = dump_description h (stranger_alert_description ss), al_files = [img]\<rparr>"

text \<open>The loop over the batch: results posted, points to insert, strangers, persons and their images, in order.
  \<open>n\<close> counts the points.\<close>

fun identify_items ::
    "('f, 'i) job_host \<Rightarrow> string \<Rightarrow> string \<Rightarrow> int \<Rightarrow> nat \<Rightarrow> ('f, 'i) identify_item list \<Rightarrow>
     (int \<times> bool) list \<times> 'f new_point list \<times> (int \<times> 'f object) list \<times> visitor_person list \<times> 'i option list" where
  "identify_items h coll msg_id created n [] = ([], [], [], [], [])"
| "identify_items h coll msg_id created n (it # its) =
     (case search h coll (item_feat it) of
        (found, pts) \<Rightarrow>
          if \<not> found then
            (let (ps, npts, ss, vs, fs) = identify_items h coll msg_id created n its
             in ((item_track_id it, False) # ps, npts, ss, vs, fs))
          else
            (let ehr = (case pts of [] \<Rightarrow> ''NA'' | pt # _ \<Rightarrow> payload_string pt ''ehrNo'' ''NA'');
                 nm = (case pts of [] \<Rightarrow> ''NA'' | pt # _ \<Rightarrow> payload_string pt ''name'' ''NA'');
                 is_stranger = (ehr = ''NA'');
                 person = \<lparr>vp_event_id = (if is_stranger then ''stranger'' else ''visitor''), vp_msg_id = msg_id,
                           recognized = \<not> is_stranger, vp_name = (if is_stranger then ''NA'' else nm),
                           ehr_no = (if is_stranger then ''NA'' else ehr)\<rparr>;
                 (ps, npts, ss, vs, fs) = identify_items h coll msg_id created (if is_stranger then Suc n else n) its
             in ((item_track_id it, True) # ps,
                 (if is_stranger then \<lparr>pt_id = point_uuid h n, pt_vector = item_feat it, pt_created_at = created,
                                       pt_name = ''NA'', pt_ehr_no = ''NA''\<rparr> # npts else npts),
                 (if is_stranger then (item_track_id it, item_face it) # ss else ss),
                 person # vs, item_face_img it # fs)))"

text \<open>The faces of a visitor push: all encoded, or none.\<close>

fun encode_faces :: "('f, 'i) job_host \<Rightarrow> string \<Rightarrow> nat \<Rightarrow> 'i option list \<Rightarrow> image_blob list option" where
  "encode_faces h msg_id j [] = Some []"
| "encode_faces h msg_id j (f # fs) =
     (case encode_visitor_face h f of
        None \<Rightarrow> None
      | Some jpg \<Rightarrow>
          map_option ((#) (jpeg_blob (msg_id @ ''_'' @ to_string (int j) @ ''.jpeg'') jpg)) (encode_faces h msg_id (Suc j) fs))"

definition run_identify_and_push ::
    "('f, 'i) job_host \<Rightarrow> bool \<Rightarrow> string \<Rightarrow> ('f, 'i) identify_item list \<Rightarrow> 'i option \<Rightarrow> string \<Rightarrow> string \<Rightarrow> int \<Rightarrow>
     'f job_effects" where
  "run_identify_and_push h host coll batch frame msg_id time created =
     (if \<not> host then no_job_effects
      else if \<not> vectors_up h \<or> \<not> notify_up h then
        no_job_effects\<lparr>posts := map (\<lambda>it. (item_track_id it, False)) batch\<rparr>
      else
        (case identify_items h coll msg_id created 0 batch of
           (ps, npts, ss, vs, fs) \<Rightarrow>
             (let eff = \<lparr>posts = ps, upserts = (if npts \<noteq> [] then [(coll, npts)] else []), alerts = [], visitors = []\<rparr>;
                  is_send_alert = (ss \<noteq> []);
                  need_visitor = (vs \<noteq> [] \<and> length fs = length vs)
              in if \<not> is_send_alert \<and> \<not> need_visitor then eff
                 else
                   (case jpeg_encode h frame of
                      (r, frame_jpg) \<Rightarrow>
                        if r \<noteq> 0 \<or> frame_jpg = [] then eff
                        else
                          (let ori_img = jpeg_blob (msg_id @ ''.jpeg'') frame_jpg;
                               alert = make_alert h msg_id time ss ori_img;
                               eff1 = (if is_send_alert then
                                   eff\<lparr>alerts := [(alert, push_alert (parse_envelope h) (upload h) (server h) alert)]\<rparr> else eff);
                               blobs = (case encode_faces h msg_id 0 fs of None \<Rightarrow> [] | Some bs \<Rightarrow> bs);
                               req = \<lparr>vr_event_time = time, camera_name = ''test_camera'', vr_msg_id = Some msg_id,
                                      persons = vs, original = ori_img, faces = blobs\<rparr>
                           in if need_visitor \<and> length (faces req) = length (persons req) then
                                eff1\<lparr>visitors := [(req, push_visitor (dump_persons h) (parse_envelope h) (upload h) (server h) req)]\<rparr>
                              else eff1)))))"

text \<open>The job for a track that was lost before it was identified.\<close>

definition push_lost_track ::
    "('f, 'i) job_host \<Rightarrow> string \<Rightarrow> string \<Rightarrow> int \<Rightarrow> 'f object \<Rightarrow> 'i option \<Rightarrow> 'f job_effects" where
  "push_lost_track h msg_id time tid face copied =
     (case crop_face_roi h copied face of
        None \<Rightarrow> no_job_effects
      | Some roi \<Rightarrow>
          (case encode_visitor_face h (Some roi) of
             None \<Rightarrow> no_job_effects
           | Some face_jpg \<Rightarrow>
               (case jpeg_encode h copied of
                  (r, frame_jpg) \<Rightarrow>
                    if r \<noteq> 0 \<or> frame_jpg = [] then no_job_effects
                    else if \<not> notify_up h then no_job_effects
                    else
                      (let ori_img = jpeg_blob (msg_id @ ''.jpeg'') frame_jpg;
                           alert = make_alert h msg_id time [(tid, face)] ori_img;
                           person = \<lparr>vp_event_id = ''stranger'', vp_msg_id = msg_id, recognized = False,
                                     vp_name = ''NA'', ehr_no = ''NA''\<rparr>;
                           req = \<lparr>vr_event_time = time, camera_name = ''test_camera'', vr_msg_id = Some msg_id,
                                  persons = [person], original = ori_img,
                                  faces = [jpeg_blob (msg_id @ ''_0.jpeg'') face_jpg]\<rparr>
                       in no_job_effects
                            \<lparr>alerts := [(alert, push_alert (parse_envelope h) (upload h) (server h) alert)],
                             visitors := [(req, push_visitor (dump_persons h) (parse_envelope h) (upload h) (server h) req)]\<rparr>))))"

definition run_job :: "('f, 'i) job_host \<Rightarrow> bool \<Rightarrow> string \<Rightarrow> ('f, 'i) face_job \<Rightarrow> 'f job_effects" where
  "run_job h host coll j =
     (case j of
        IdentifyJob batch frame msg_id time created \<Rightarrow> run_identify_and_push h host coll batch frame msg_id time created
      | LostJob msg_id time tid face frame \<Rightarrow> push_lost_track h msg_id time tid face frame)"

end
