(* ===== verification/Face_Plugin_Inv.thy ===== *)
theory Face_Plugin_Inv
  imports Face_Plugin
begin

text \<open>
  What the face plugin keeps over any interleaving of frames with the results that the jobs post: each
  track is being identified at most once, and the mark on its entry says so. Then what the jobs themselves
  post and push, and that the alarm client accepts every push.
\<close>

section \<open>The marks\<close>

definition inflight_ids :: "('f, 'i) face_plugin \<Rightarrow> int set" where
  "inflight_ids p = {tid. \<exists>e. track_pending p tid = Some e \<and> identify_inflight e}"

definition done_ids :: "('f, 'i) face_plugin \<Rightarrow> int set" where
  "done_ids p = {tid. \<exists>e. track_pending p tid = Some e \<and> feat_done e}"

definition seen_at :: "('f, 'i) face_plugin \<Rightarrow> int \<Rightarrow> int option" where
  "seen_at p tid = map_option last_seen_frame (track_pending p tid)"

definition steady :: "('f, 'i) face_plugin \<Rightarrow> ('f, 'i) face_plugin \<Rightarrow> bool" where
  "steady p q = (has_face_host q = has_face_host p \<and> score_thresh q = score_thresh p \<and> collection q = collection p)"

lemma steady_refl [simp]: "steady p p" by (simp add: steady_def)

lemma steady_trans: "steady p q \<Longrightarrow> steady q r \<Longrightarrow> steady p r" by (simp add: steady_def)

lemma update_entry_fields [simp]:
  "face_frame_seq (update_entry tid f p) = face_frame_seq p" "identify_results (update_entry tid f p) = identify_results p"
  "steady p (update_entry tid f p)"
  by (simp_all add: update_entry_def steady_def)

lemma update_entry_marks:
  assumes "\<And>e. last_seen_frame (f e) = last_seen_frame e"
  shows "seen_at (update_entry tid f p) = seen_at p"
    "(\<And>e. identify_inflight (f e) = False) \<Longrightarrow> inflight_ids (update_entry tid f p) = inflight_ids p - {tid}"
    "(\<And>e. identify_inflight (f e) = True) \<Longrightarrow> tid \<in> dom (track_pending p) \<Longrightarrow>
       inflight_ids (update_entry tid f p) = insert tid (inflight_ids p)"
    "(\<And>e. feat_done (f e) = feat_done e) \<Longrightarrow> done_ids (update_entry tid f p) = done_ids p"
    "(\<And>e. feat_done (f e) = True) \<Longrightarrow> done_ids (update_entry tid f p) =
       done_ids p \<union> ({tid} \<inter> dom (track_pending p))"
    "dom (track_pending (update_entry tid f p)) = dom (track_pending p)"
proof -
  note d = update_entry_def seen_at_def inflight_ids_def done_ids_def
  show "seen_at (update_entry tid f p) = seen_at p"
    using assms by (simp add: d fun_eq_iff option.map_comp o_def)
  show "inflight_ids (update_entry tid f p) = inflight_ids p - {tid}" if "\<And>e. identify_inflight (f e) = False"
    using that by (auto simp: d)
  show "inflight_ids (update_entry tid f p) = insert tid (inflight_ids p)"
    if "\<And>e. identify_inflight (f e) = True" "tid \<in> dom (track_pending p)"
    using that by (auto simp: d)
  show "done_ids (update_entry tid f p) = done_ids p" if "\<And>e. feat_done (f e) = feat_done e"
    using that by (auto simp: d)
  show "done_ids (update_entry tid f p) = done_ids p \<union> ({tid} \<inter> dom (track_pending p))"
    if "\<And>e. feat_done (f e) = True"
    using that by (auto simp: d)
  show "dom (track_pending (update_entry tid f p)) = dom (track_pending p)"
    by (auto simp: d)
qed

text \<open>Draining clears the mark of every track that has a result.\<close>

definition drain_step :: "int \<times> bool \<Rightarrow> ('f, 'i) face_plugin \<Rightarrow> ('f, 'i) face_plugin" where
  "drain_step = (\<lambda>(tid, good). update_entry tid (\<lambda>e.
     if good then e\<lparr>identify_inflight := False, feat_done := True, last_frame := None\<rparr>
     else e\<lparr>identify_inflight := False\<rparr>))"

lemma drain_step_marks:
  "inflight_ids (drain_step r p) = inflight_ids p - {fst r}" "seen_at (drain_step r p) = seen_at p"
  "done_ids p \<subseteq> done_ids (drain_step r p)" "done_ids (drain_step r p) \<subseteq> done_ids p \<union> {fst r}"
  "snd r \<Longrightarrow> fst r \<in> dom (track_pending p) \<Longrightarrow> fst r \<in> done_ids (drain_step r p)"
  "dom (track_pending (drain_step r p)) = dom (track_pending p)"
  "face_frame_seq (drain_step r p) = face_frame_seq p" "identify_results (drain_step r p) = identify_results p"
  "steady p (drain_step r p)"
proof -
  obtain tid good where r: "r = (tid, good)" by (cases r)
  let ?f = "\<lambda>e :: ('a, 'b) track_entry. if good then e\<lparr>identify_inflight := False, feat_done := True, last_frame := None\<rparr>
     else e\<lparr>identify_inflight := False\<rparr>"
  have d: "drain_step r p = update_entry tid ?f p" by (simp add: r drain_step_def)
  have f: "last_seen_frame (?f e) = last_seen_frame e" "identify_inflight (?f e) = False" for e by simp_all
  note m = update_entry_marks [where f = ?f and tid = tid and p = p, OF f(1)]
  show "inflight_ids (drain_step r p) = inflight_ids p - {fst r}" using m(2) [OF f(2)] unfolding d by (simp add: r)
  show "seen_at (drain_step r p) = seen_at p" unfolding d by (rule m(1))
  show "dom (track_pending (drain_step r p)) = dom (track_pending p)" unfolding d by (rule m(6))
  have g: "done_ids (drain_step r p) = (if good then done_ids p \<union> ({tid} \<inter> dom (track_pending p)) else done_ids p)"
    using m(4,5) unfolding d by (cases good) simp_all
  show "done_ids p \<subseteq> done_ids (drain_step r p)" "done_ids (drain_step r p) \<subseteq> done_ids p \<union> {fst r}"
    unfolding g by (auto simp: r)
  show "fst r \<in> done_ids (drain_step r p)" if "snd r" "fst r \<in> dom (track_pending p)"
    using that unfolding g by (auto simp: r)
  show "face_frame_seq (drain_step r p) = face_frame_seq p" "identify_results (drain_step r p) = identify_results p"
    "steady p (drain_step r p)" unfolding d by simp_all
qed

lemma drain_fold_inflight: "inflight_ids (fold drain_step rs p) = inflight_ids p - fst ` set rs"
  by (induction rs arbitrary: p) (auto simp: drain_step_marks(1))

lemma drain_fold_same:
  "seen_at (fold drain_step rs p) = seen_at p" "dom (track_pending (fold drain_step rs p)) = dom (track_pending p)"
  "face_frame_seq (fold drain_step rs p) = face_frame_seq p"
  "identify_results (fold drain_step rs p) = identify_results p"
  by (induction rs arbitrary: p) (simp_all add: drain_step_marks(2,6-8))

lemma drain_fold_steady: "steady p (fold drain_step rs p)"
proof (induction rs arbitrary: p)
  case (Cons r rs)
  show ?case using steady_trans [OF drain_step_marks(9) Cons.IH] by simp
qed simp

lemma drain_fold_done:
  "done_ids p \<subseteq> done_ids (fold drain_step rs p)"
  "done_ids (fold drain_step rs p) \<subseteq> done_ids p \<union> fst ` set rs"
proof (induction rs arbitrary: p)
  case (Cons r rs)
  case 1
  show ?case using drain_step_marks(3) [of p r] Cons.IH(1) [of "drain_step r p"] by simp
  case 2
  show ?case using drain_step_marks(4) [where p = p and r = r] Cons.IH(2) [of "drain_step r p"] by auto
qed simp_all

lemma drain_fold_good:
  "r \<in> set rs \<Longrightarrow> snd r \<Longrightarrow> fst r \<in> dom (track_pending p) \<Longrightarrow> fst r \<in> done_ids (fold drain_step rs p)"
proof (induction rs arbitrary: p)
  case (Cons x xs)
  show ?case
  proof (cases "r = x")
    case True
    then have "fst r \<in> done_ids (drain_step x p)" using drain_step_marks(5) [where p = p and r = x] Cons.prems by simp
    then show ?thesis using drain_fold_done(1) [of "drain_step x p" xs] by auto
  next
    case False
    then show ?thesis using Cons drain_step_marks(6) [where p = p and r = x] by simp
  qed
qed simp

lemma drain_eq: "drain_identify_results p = fold drain_step (identify_results p) (p\<lparr>identify_results := []\<rparr>)"
  by (simp add: drain_identify_results_def drain_step_def)

lemma drop_results [simp]:
  "inflight_ids (p\<lparr>identify_results := rs\<rparr>) = inflight_ids p" "done_ids (p\<lparr>identify_results := rs\<rparr>) = done_ids p"
  "seen_at (p\<lparr>identify_results := rs\<rparr>) = seen_at p" "steady p (p\<lparr>identify_results := rs\<rparr>)"
  "inflight_ids (p\<lparr>face_frame_seq := n\<rparr>) = inflight_ids p" "done_ids (p\<lparr>face_frame_seq := n\<rparr>) = done_ids p"
  "seen_at (p\<lparr>face_frame_seq := n\<rparr>) = seen_at p" "steady p (p\<lparr>face_frame_seq := n\<rparr>)"
  by (simp_all add: inflight_ids_def done_ids_def seen_at_def steady_def fun_eq_iff)

text \<open>Seeing the faces of a frame keeps the marks.\<close>

lemma see_face_marks:
  "inflight_ids (see_face h fr f p) = inflight_ids p" "done_ids (see_face h fr f p) = done_ids p"
  "seen_at (see_face h fr f p) = (if track_id f < 0 then seen_at p else (seen_at p)(track_id f \<mapsto> face_frame_seq p))"
  "face_frame_seq (see_face h fr f p) = face_frame_seq p" "identify_results (see_face h fr f p) = identify_results p"
  "steady p (see_face h fr f p)"
  by (auto simp: see_face_def Let_def inflight_ids_def done_ids_def seen_at_def steady_def fun_eq_iff
      split: option.splits prod.splits)

lemma see_faces:
  "inflight_ids (fold (see_face h fr) fs p) = inflight_ids p \<and> done_ids (fold (see_face h fr) fs p) = done_ids p \<and>
   (\<forall>tid. seen_at (fold (see_face h fr) fs p) tid =
      (if tid \<in> track_id ` set fs \<and> 0 \<le> tid then Some (face_frame_seq p) else seen_at p tid)) \<and>
   face_frame_seq (fold (see_face h fr) fs p) = face_frame_seq p \<and>
   identify_results (fold (see_face h fr) fs p) = identify_results p \<and> steady p (fold (see_face h fr) fs p)"
proof (induction fs arbitrary: p)
  case (Cons f fs)
  note s = see_face_marks [where h = h and fr = fr and f = f and p = p]
  note i = Cons.IH [where p = "see_face h fr f p"]
  have "steady p (fold (see_face h fr) (f # fs) p)" using s(6) i by (auto intro: steady_trans)
  then show ?case using s i by (auto simp: not_less)
qed simp

section \<open>A frame\<close>

abbreviation mark_inflight :: "('f, 'i) track_entry \<Rightarrow> ('f, 'i) track_entry" where
  "mark_inflight \<equiv> (\<lambda>e. e\<lparr>identify_inflight := True\<rparr>)"

lemma mark_marks:
  assumes "tid \<in> dom (track_pending p)"
  shows "inflight_ids (update_entry tid mark_inflight p) = insert tid (inflight_ids p)"
    "done_ids (update_entry tid mark_inflight p) = done_ids p" "seen_at (update_entry tid mark_inflight p) = seen_at p"
    "dom (track_pending (update_entry tid mark_inflight p)) = dom (track_pending p)"
proof -
  note m = update_entry_marks [where f = mark_inflight and tid = tid and p = p]
  show "inflight_ids (update_entry tid mark_inflight p) = insert tid (inflight_ids p)" using assms by (intro m(3)) simp_all
  show "done_ids (update_entry tid mark_inflight p) = done_ids p" by (intro m(4)) simp_all
  show "seen_at (update_entry tid mark_inflight p) = seen_at p" by (intro m(1)) simp
  show "dom (track_pending (update_entry tid mark_inflight p)) = dom (track_pending p)" by (intro m(6)) simp
qed

lemma collect_batch_marks:
  "collect_batch todo imgs fts i p = (its0, q) \<Longrightarrow>
    inflight_ids q = inflight_ids p \<union> item_track_id ` set its0 \<and> done_ids q = done_ids p \<and> seen_at q = seen_at p \<and>
    face_frame_seq q = face_frame_seq p \<and> identify_results q = identify_results p \<and> steady p q"
proof (induction fts arbitrary: i p its0 q)
  case (Cons ft fts)
  note ih = Cons.IH
  show ?case
  proof (cases "ft = [] \<or> i \<ge> length todo \<or> i \<ge> length imgs \<or> track_pending p (track_id (todo ! i)) = None")
    case True
    then have "collect_batch todo imgs fts (Suc i) p = (its0, q)"
      using Cons.prems by (auto simp: Let_def split: if_splits)
    then show ?thesis by (rule ih)
  next
    case False
    define tid where "tid = track_id (todo ! i)"
    obtain e where e: "track_pending p tid = Some e" using False by (auto simp: tid_def)
    obtain its q1 where c: "collect_batch todo imgs fts (Suc i) (update_entry tid mark_inflight p) = (its, q1)" by fastforce
    have i: "item_track_id ` set its0 = insert tid (item_track_id ` set its)" "q = q1"
      using Cons.prems False e c by (auto simp: Let_def tid_def)
    have d: "tid \<in> dom (track_pending p)" using e by auto
    have "steady p q1" using steady_trans [OF update_entry_fields(3) conjunct2 [OF conjunct2 [OF conjunct2 [OF conjunct2 [OF conjunct2 [OF ih [OF c]]]]]]] .
    then show ?thesis using ih [OF c] i mark_marks [OF d] by auto
  qed
qed simp

text \<open>The ids of a batch are ids of the faces to process, in their order.\<close>

lemma collect_batch_ids:
  "collect_batch todo imgs fts i p = (its0, q) \<Longrightarrow>
    \<exists>ns. map item_track_id its0 = map (\<lambda>k. track_id (todo ! k)) ns \<and> sorted_wrt (<) ns \<and>
      (\<forall>k \<in> set ns. i \<le> k \<and> k < length todo)"
proof (induction fts arbitrary: i p its0 q)
  case (Cons ft fts)
  show ?case
  proof (cases "ft = [] \<or> i \<ge> length todo \<or> i \<ge> length imgs \<or> track_pending p (track_id (todo ! i)) = None")
    case True
    then have "collect_batch todo imgs fts (Suc i) p = (its0, q)"
      using Cons.prems by (auto simp: Let_def split: if_splits)
    from Cons.IH [OF this] show ?thesis by (meson Suc_leD)
  next
    case False
    define tid where "tid = track_id (todo ! i)"
    obtain its q1 where c: "collect_batch todo imgs fts (Suc i) (update_entry tid mark_inflight p) = (its, q1)" by fastforce
    have i: "map item_track_id its0 = tid # map item_track_id its"
      using Cons.prems False c by (auto simp: Let_def tid_def)
    obtain ns where n: "map item_track_id its = map (\<lambda>k. track_id (todo ! k)) ns" "sorted_wrt (<) ns"
      "\<forall>k \<in> set ns. Suc i \<le> k \<and> k < length todo"
      using Cons.IH [OF c] by blast
    show ?thesis using i n False by (intro exI [of _ "i # ns"]) (auto simp: tid_def)
  qed
qed simp

lemma unmark_marks:
  "inflight_ids (update_entry t (\<lambda>e. e\<lparr>identify_inflight := False\<rparr>) p) = inflight_ids p - {t}"
  "done_ids (update_entry t (\<lambda>e. e\<lparr>identify_inflight := False\<rparr>) p) = done_ids p"
  "seen_at (update_entry t (\<lambda>e. e\<lparr>identify_inflight := False\<rparr>) p) = seen_at p"
  by (intro update_entry_marks; simp)+

lemma rollback_Cons:
  "rollback_inflight (t # ts) p = rollback_inflight ts (update_entry t (\<lambda>e. e\<lparr>identify_inflight := False\<rparr>) p)"
  by (simp add: rollback_inflight_def)

lemma rollback_Nil: "rollback_inflight [] p = p"
  by (simp add: rollback_inflight_def)

lemma rollback_marks:
  "inflight_ids (rollback_inflight ids p) = inflight_ids p - set ids" "done_ids (rollback_inflight ids p) = done_ids p"
  "seen_at (rollback_inflight ids p) = seen_at p" "face_frame_seq (rollback_inflight ids p) = face_frame_seq p"
  "identify_results (rollback_inflight ids p) = identify_results p"
  by (induction ids arbitrary: p) (auto simp: rollback_Nil rollback_Cons unmark_marks)

lemma rollback_steady: "steady p (rollback_inflight ids p)"
proof (induction ids arbitrary: p)
  case (Cons t ts)
  have "steady p (rollback_inflight ts (update_entry t (\<lambda>e. e\<lparr>identify_inflight := False\<rparr>) p))"
    by (rule steady_trans [OF update_entry_fields(3) Cons.IH])
  then show ?case by (simp add: rollback_Cons)
qed (simp add: rollback_Nil)

text \<open>The ids of the identify jobs in a list of accepted jobs.\<close>

primrec job_ids :: "('f, 'i) face_job list \<Rightarrow> int list" where
  "job_ids [] = []"
| "job_ids (j # js) =
     (case j of IdentifyJob batch _ _ _ _ \<Rightarrow> map item_track_id batch | LostJob _ _ _ _ _ \<Rightarrow> []) @ job_ids js"

lemma job_ids_append [simp]: "job_ids (js @ ks) = job_ids js @ job_ids ks"
  by (induction js) simp_all

lemma submit_batch_cases:
  assumes "submit_batch h frame msg_id batch p = (jobs, q)"
  obtains (accepted) "job_ids jobs = map item_track_id batch" "q = p"
  | (refused) "job_ids jobs = []" "q = rollback_inflight (map item_track_id batch) p"
  using assms unfolding submit_batch_def Let_def
  by (auto split: if_splits prod.splits)

text \<open>Pruning erases entries, of tracks in flight too when they were not seen for long enough; it changes no other entry, keeps those
  seen in this frame, and submits lost tracks only.\<close>

definition undecided :: "('f, 'i) face_plugin \<Rightarrow> bool" where
  "undecided p = (inflight_ids p \<inter> done_ids p = {})"

definition pruned :: "('f, 'i) face_plugin \<Rightarrow> ('f, 'i) face_plugin \<Rightarrow> bool" where
  "pruned p q = (track_pending q \<subseteq>\<^sub>m track_pending p \<and> face_frame_seq q = face_frame_seq p \<and>
     identify_results q = identify_results p \<and> steady p q \<and>
     {tid. seen_at p tid = Some (face_frame_seq p)} \<subseteq> dom (track_pending q))"

lemma pruned_refl: "pruned p p"
  by (auto simp: pruned_def seen_at_def)

lemma pruned_trans: "pruned p q \<Longrightarrow> pruned q r \<Longrightarrow> pruned p r"
proof -
  assume a: "pruned p q" "pruned q r"
  have "seen_at q tid = Some (face_frame_seq q)" if s: "seen_at p tid = Some (face_frame_seq p)" for tid
  proof -
    obtain e where e: "track_pending q tid = Some e" using a(1) s by (auto simp: pruned_def)
    then have "track_pending p tid = Some e" using a(1) unfolding pruned_def map_le_def by (metis domI)
    then show ?thesis using a(1) s e by (auto simp: pruned_def seen_at_def)
  qed
  then show ?thesis using a by (auto simp: pruned_def intro: steady_trans map_le_trans)
qed

lemma erase_entry_pruned:
  assumes "track_pending p tid = Some e" "last_seen_frame e \<noteq> face_frame_seq p"
  shows "pruned p (erase_entry tid p)"
  using assms by (auto simp: pruned_def erase_entry_def map_le_def steady_def seen_at_def split: if_splits)

lemma prune_entry_pruned:
  assumes "prune_entry h tid p = (jobs, q)"
  shows "pruned p q \<and> job_ids jobs = []"
proof (cases "track_pending p tid")
  case (Some e)
  show ?thesis
  proof (cases "face_frame_seq p - last_seen_frame e \<le> kTrackPruneFrames")
    case False
    then have "last_seen_frame e \<noteq> face_frame_seq p" by (auto simp: kTrackPruneFrames_def)
    note erase = erase_entry_pruned [OF Some this]
    show ?thesis using assms Some erase unfolding prune_entry_def Let_def
      by (auto simp: pruned_refl split: if_splits prod.splits)
  qed (use assms Some in \<open>auto simp: prune_entry_def pruned_refl\<close>)
qed (use assms in \<open>auto simp: prune_entry_def pruned_refl\<close>)

lemma prune_entries_pruned: "prune_entries h tids p = (jobs, q) \<Longrightarrow> pruned p q \<and> job_ids jobs = []"
proof (induction h tids p arbitrary: jobs q rule: prune_entries.induct)
  case (2 h tid tids p)
  obtain js p1 where a: "prune_entry h tid p = (js, p1)" by fastforce
  obtain ks p2 where b: "prune_entries h tids p1 = (ks, p2)" by fastforce
  show ?case using prune_entry_pruned [OF a] "2.IH" [OF a [symmetric] refl b] 2(2) a b by (auto intro: pruned_trans)
qed (simp add: pruned_refl)

lemma pruned_marks:
  assumes "pruned p q"
  shows "inflight_ids q = inflight_ids p \<inter> dom (track_pending q)" "done_ids q = done_ids p \<inter> dom (track_pending q)"
    "dom (track_pending q) \<subseteq> dom (track_pending p)"
proof -
  have m: "track_pending p tid = Some e" if "track_pending q tid = Some e" for tid e
    using assms that unfolding pruned_def map_le_def by (metis domI)
  show "inflight_ids q = inflight_ids p \<inter> dom (track_pending q)" "done_ids q = done_ids p \<inter> dom (track_pending q)"
    "dom (track_pending q) \<subseteq> dom (track_pending p)"
    using m by (fastforce simp: inflight_ids_def done_ids_def)+
qed

text \<open>The faces that are to be processed have entries that are neither in flight nor done.\<close>

lemma wants_identify_open:
  "wants_identify h p f \<Longrightarrow> track_id f \<notin> inflight_ids p \<and> track_id f \<notin> done_ids p \<and> 0 \<le> track_id f"
  by (auto simp: wants_identify_def inflight_ids_def done_ids_def split: if_splits option.splits)

lemma collect_batch_fresh:
  assumes "collect_batch todo imgs fts 0 p = (batch, q)" "distinct (map track_id todo)"
  shows "distinct (map item_track_id batch)" "item_track_id ` set batch \<subseteq> track_id ` set todo"
proof -
  obtain ns where n: "map item_track_id batch = map (\<lambda>k. track_id (todo ! k)) ns" "sorted_wrt (<) ns"
    "\<forall>k \<in> set ns. k < length todo"
    using collect_batch_ids [OF assms(1)] by auto
  have i: "inj_on (\<lambda>k. track_id (todo ! k)) (set ns)"
    using assms(2) n(3) by (auto simp: inj_on_def distinct_conv_nth)
  have "distinct ns" using n(2) by (simp add: strict_sorted_iff)
  then show "distinct (map item_track_id batch)" using i by (simp add: n(1) distinct_map)
  have "set (map item_track_id batch) \<subseteq> track_id ` set todo" using n(3) by (auto simp: n(1))
  then show "item_track_id ` set batch \<subseteq> track_id ` set todo" by simp
qed

section \<open>The plugin with its outstanding jobs\<close>

text \<open>The ids of the tracks of a frame that have one; the tracker gives each to one object.\<close>

definition frame_ids :: "'f object list \<Rightarrow> int list" where
  "frame_ids objects = filter (\<lambda>tid. 0 \<le> tid) (map track_id objects)"

lemma to_process_distinct:
  assumes "distinct (frame_ids objects)"
  shows "distinct (map track_id (filter (wants_identify h p) objects))"
proof -
  have "map track_id (filter (wants_identify h p) objects) =
      map track_id (filter (wants_identify h p) (filter (\<lambda>f. 0 \<le> track_id f) objects))"
    by (auto simp: wants_identify_open intro!: arg_cong [where f = "map track_id"] filter_cong)
  moreover have "distinct (map track_id (filter (\<lambda>f. 0 \<le> track_id f) objects))"
    using assms by (simp add: frame_ids_def filter_map o_def)
  ultimately show ?thesis by (simp only: distinct_map_filter)
qed

text \<open>The tracks with an entry.\<close>

definition known_ids :: "('f, 'i) face_plugin \<Rightarrow> int set" where
  "known_ids p = dom (track_pending p)"

text \<open>Frames, results and shutdowns in any order. \<open>out\<close> lists the tracks of the jobs that have not posted yet; \<open>gone\<close> are the tracks
  whose entries were erased, \<open>ever\<close> those that a job has posted a success for. A frame has no id twice, and none of a track that
  was erased: the tracker never gives an id again, and has long dropped a track that the plugin erases (after more than
  sixty frames unseen; the tracker of the shipped scene drops it after twenty-five).\<close>

inductive face_reach ::
    "('n, 'f::{zero,one,plus,inverse,ord}) yaml_face \<Rightarrow> ('f, 'i) face_plugin \<Rightarrow> int list \<Rightarrow> int set \<Rightarrow> int set \<Rightarrow> bool"
  for y where
  start: "face_init y host params face_plugin_new = (0, p) \<Longrightarrow> face_reach y p [] {} {}"
| frame: "face_reach y p out gone ever \<Longrightarrow> distinct (frame_ids objects) \<Longrightarrow> set (frame_ids objects) \<inter> gone = {} \<Longrightarrow>
    face_on_frame h order frame objects p = (r, jobs, q) \<Longrightarrow>
    face_reach y q (out @ job_ids jobs) (gone \<union> (known_ids p - known_ids q)) ever"
| post: "face_reach y p out gone ever \<Longrightarrow> tid \<in> set out \<Longrightarrow>
    face_reach y (post_identify_result tid good p) (remove1 tid out) gone (if good then insert tid ever else ever)"
| shutdown: "face_reach y p [] gone ever \<Longrightarrow> face_reach y (face_shutdown p) [] (gone \<union> known_ids p) ever"

definition waiting_good :: "('f, 'i) face_plugin \<Rightarrow> int set" where
  "waiting_good p = {tid. (tid, True) \<in> set (identify_results p)}"

definition face_inv :: "('f, 'i) face_plugin \<Rightarrow> int list \<Rightarrow> int set \<Rightarrow> int set \<Rightarrow> bool" where
  "face_inv p out gone ever = (distinct (out @ map fst (identify_results p)) \<and>
     inflight_ids p = (set out \<union> fst ` set (identify_results p)) - gone \<and> undecided p \<and> known_ids p \<inter> gone = {} \<and>
     ever \<subseteq> done_ids p \<union> gone \<union> waiting_good p)"

lemma face_invD:
  assumes "face_inv p out gone ever"
  shows "distinct (out @ map fst (identify_results p))"
    "inflight_ids p = (set out \<union> fst ` set (identify_results p)) - gone" "undecided p" "known_ids p \<inter> gone = {}"
    "ever \<subseteq> done_ids p \<union> gone \<union> waiting_good p"
  using assms by (simp_all only: face_inv_def)

lemma marks_known: "inflight_ids p \<subseteq> known_ids p" "done_ids p \<subseteq> known_ids p"
  by (auto simp: inflight_ids_def done_ids_def known_ids_def)

text \<open>After the results are drained and the faces seen.\<close>

definition face_ready ::
    "('f::ord, 'i) frame_host \<Rightarrow> 'i option \<Rightarrow> 'f object list \<Rightarrow> ('f, 'i) face_plugin \<Rightarrow> ('f, 'i) face_plugin" where
  "face_ready h frame objects p =
     fold (see_face h frame) objects
       ((drain_identify_results p)\<lparr>face_frame_seq := face_frame_seq (drain_identify_results p) + 1\<rparr>)"

lemma see_face_known: "known_ids (see_face h fr f p) = known_ids p \<union> ({track_id f} \<inter> {0..})"
  by (auto simp: see_face_def Let_def known_ids_def split: option.splits prod.splits)

lemma see_faces_known: "known_ids (fold (see_face h fr) fs p) = known_ids p \<union> (track_id ` set fs \<inter> {0..})"
proof (induction fs arbitrary: p)
  case (Cons f fs)
  then show ?case using see_face_known [of h fr f p] by auto
qed simp

lemma frame_ids_set: "set (frame_ids objects) = track_id ` set objects \<inter> {0..}"
  by (auto simp: frame_ids_def)

lemma face_ready_marks:
  assumes "face_inv p out gone ever"
  shows "inflight_ids (face_ready h frame objects p) = set out - gone" "undecided (face_ready h frame objects p)"
    "done_ids p \<subseteq> done_ids (face_ready h frame objects p)"
    "waiting_good p \<subseteq> done_ids (face_ready h frame objects p) \<union> gone"
    "identify_results (face_ready h frame objects p) = []"
    "set (frame_ids objects) \<subseteq>
       {tid. seen_at (face_ready h frame objects p) tid = Some (face_frame_seq (face_ready h frame objects p))}"
    "known_ids (face_ready h frame objects p) = known_ids p \<union> set (frame_ids objects)"
    "steady p (face_ready h frame objects p)"
proof -
  let ?d = "drain_identify_results p"
  let ?e = "?d\<lparr>face_frame_seq := face_frame_seq ?d + 1\<rparr>"
  let ?rs = "identify_results p"
  note s = see_faces [where h = h and fr = frame and fs = objects and p = ?e]
  have inv: "distinct (out @ map fst ?rs)" "inflight_ids p = (set out \<union> fst ` set ?rs) - gone" "inflight_ids p \<inter> done_ids p = {}"
    "known_ids p \<inter> gone = {}"
    using face_invD [OF assms] by (simp_all only: undecided_def)
  have i: "inflight_ids ?d = set out - gone"
    using inv(1,2) unfolding drain_eq by (auto simp: drain_fold_inflight)
  have dn: "done_ids p \<subseteq> done_ids ?d" "done_ids ?d \<subseteq> done_ids p \<union> fst ` set ?rs"
    using drain_fold_done [where p = "p\<lparr>identify_results := []\<rparr>" and rs = ?rs] unfolding drain_eq by simp_all
  have "(set out - gone) \<inter> done_ids p = {}" "set out \<inter> fst ` set ?rs = {}" using inv by auto
  then have u: "(set out - gone) \<inter> done_ids ?d = {}" using dn(2) by blast
  have good: "tid \<in> done_ids ?d \<union> gone" if r: "(tid, True) \<in> set ?rs" for tid
  proof (cases "tid \<in> gone")
    case False
    then have "tid \<in> inflight_ids p" using r inv(2) by force
    then have "tid \<in> dom (track_pending p)" by (auto simp: inflight_ids_def)
    then show ?thesis using drain_fold_good [OF r, where p = "p\<lparr>identify_results := []\<rparr>"] unfolding drain_eq by simp
  qed simp
  have sq: "seen_at ?d = seen_at p" "face_frame_seq ?d = face_frame_seq p" "identify_results ?d = []" "steady p ?d"
    "known_ids ?d = known_ids p"
    unfolding drain_eq known_ids_def by (simp_all add: drain_fold_same steady_trans [OF drop_results(4) drain_fold_steady])
  show "inflight_ids (face_ready h frame objects p) = set out - gone" using s i by (simp add: face_ready_def)
  show "undecided (face_ready h frame objects p)"
    using s i u by (simp add: face_ready_def undecided_def)
  show "done_ids p \<subseteq> done_ids (face_ready h frame objects p)" using s dn(1) by (auto simp: face_ready_def)
  show "waiting_good p \<subseteq> done_ids (face_ready h frame objects p) \<union> gone"
    using s good by (auto simp: face_ready_def waiting_good_def)
  show "identify_results (face_ready h frame objects p) = []" using s sq by (simp add: face_ready_def)
  show "set (frame_ids objects) \<subseteq>
       {tid. seen_at (face_ready h frame objects p) tid = Some (face_frame_seq (face_ready h frame objects p))}"
    using s by (auto simp: face_ready_def frame_ids_def)
  have "known_ids ?e = known_ids p" using sq(5) by (simp add: known_ids_def)
  then show "known_ids (face_ready h frame objects p) = known_ids p \<union> set (frame_ids objects)"
    by (simp add: face_ready_def see_faces_known frame_ids_set)
  show "steady p (face_ready h frame objects p)"
    unfolding face_ready_def using s by (intro steady_trans [OF steady_trans [OF sq(4) drop_results(8)]]) blast
qed

lemma seen_known: "known_ids p = dom (seen_at p)"
  by (auto simp: known_ids_def seen_at_def dom_def)

lemma frame_step:
  assumes inv: "face_inv p out gone ever"
    and d: "distinct (frame_ids objects)" "set (frame_ids objects) \<inter> gone = {}"
    and f: "face_on_frame h order frame objects p = (r, jobs, q)"
  shows "face_inv q (out @ job_ids jobs) (gone \<union> (known_ids p - known_ids q)) ever \<and>
    set (job_ids jobs) \<inter> (set out \<union> done_ids p \<union> waiting_good p \<union> ever) = {} \<and>
    known_ids q \<subseteq> known_ids p \<union> set (frame_ids objects)"
proof (cases "has_face_host p")
  case False
  then show ?thesis using f inv by (simp add: face_on_frame_def)
next
  case True
  let ?p3 = "face_ready h frame objects p"
  note m = face_ready_marks [OF inv, where h = h and frame = frame and objects = objects]
  define todo where "todo = filter (wants_identify h ?p3) objects"
  obtain imgs fts where a: "infer_faces h frame todo = (imgs, fts)" by fastforce
  obtain batch p4 where b: "collect_batch todo imgs fts 0 ?p3 = (batch, p4)" by fastforce
  obtain js p5 where c: "submit_batch h frame (new_uuid h (-1)) batch p4 = (js, p5)" by fastforce
  obtain ks p6 where e: "prune_entries h (order p5) p5 = (ks, p6)" by fastforce
  have jq: "jobs = js @ ks" "q = p6"
    using f True a b c e by (simp_all add: face_on_frame_def Let_def face_ready_def todo_def)
  note cm = collect_batch_marks [OF b]
  have td: "distinct (map track_id todo)" unfolding todo_def by (rule to_process_distinct [OF d(1)])
  note cf = collect_batch_fresh [OF b td]
  have new: "item_track_id ` set batch \<inter> ((set out - gone) \<union> done_ids ?p3) = {}"
    "item_track_id ` set batch \<subseteq> set (frame_ids objects)"
    using cf(2) m(1) by (auto simp: todo_def frame_ids_set dest!: wants_identify_open)
  have p5: "inflight_ids p5 = (set out - gone) \<union> set (job_ids js) \<and> done_ids p5 = done_ids ?p3 \<and> seen_at p5 = seen_at ?p3 \<and>
      face_frame_seq p5 = face_frame_seq ?p3 \<and> identify_results p5 = [] \<and>
      set (job_ids js) \<subseteq> item_track_id ` set batch \<and> distinct (job_ids js)"
    using c
  proof (cases rule: submit_batch_cases)
    case accepted
    then show ?thesis using cm m(1,5) cf(1) by auto
  next
    case refused
    then show ?thesis using cm m(1,5) new(1) by (auto simp: rollback_marks)
  qed
  have k5: "known_ids p5 = known_ids p \<union> set (frame_ids objects)" using p5 m(7) by (simp add: seen_known)
  have u5: "undecided p5" using p5 m(1,2) new(1) by (auto simp: undecided_def)
  have z: "pruned p5 q" "job_ids ks = []" using prune_entries_pruned [OF e] jq by simp_all
  note zm = pruned_marks [OF z(1)]
  have kq: "set (frame_ids objects) \<subseteq> known_ids q" "known_ids q \<subseteq> known_ids p \<union> set (frame_ids objects)"
    using z(1) m(6) p5 zm(3) k5 by (auto simp: pruned_def known_ids_def)
  have fresh: "set (job_ids js) \<inter> (set out \<union> gone) = {}" "set (job_ids js) \<subseteq> set (frame_ids objects)"
    using p5 new d(2) by blast+
  let ?gone = "gone \<union> (known_ids p - known_ids q)"
  have i: "face_inv p out gone ever" by (rule inv)
  note iv = face_invD [OF inv]
  have "inflight_ids q = (set out \<union> set (job_ids js)) - ?gone"
  proof -
    have "inflight_ids q = ((set out - gone) \<union> set (job_ids js)) \<inter> known_ids q" using zm(1) p5 by (simp add: known_ids_def)
    moreover have "set out - gone \<subseteq> known_ids p" using iv(2) marks_known(1) [of p] by blast
    ultimately show ?thesis using fresh kq by blast
  qed
  moreover have "distinct (out @ job_ids js)" using iv(1) fresh p5 by auto
  moreover have "undecided q" using u5 zm by (auto simp: undecided_def)
  moreover have "known_ids q \<inter> ?gone = {}" using kq(2) d(2) iv(4) by blast
  moreover have ev: "ever \<subseteq> done_ids q \<union> ?gone"
  proof -
    have "ever \<subseteq> done_ids ?p3 \<union> gone" using iv(5) m(3,4) by blast
    moreover have "done_ids ?p3 \<inter> known_ids q \<subseteq> done_ids q" using zm(2) p5 by (simp add: known_ids_def)
    moreover have "done_ids ?p3 \<subseteq> known_ids p \<union> set (frame_ids objects)" using marks_known(2) [of ?p3] m(7) by simp
    ultimately show ?thesis using kq(1) by blast
  qed
  moreover have "identify_results q = []" using z(1) p5 by (simp add: pruned_def)
  ultimately have "face_inv q (out @ job_ids jobs) ?gone ever" using z(2) by (auto simp: face_inv_def jq(1))
  moreover have "set (job_ids jobs) \<inter> (set out \<union> done_ids p \<union> waiting_good p \<union> ever) = {}"
  proof -
    have "set (job_ids js) \<inter> done_ids ?p3 = {}" using p5 new(1) by blast
    then have "set (job_ids js) \<inter> (set out \<union> done_ids p \<union> waiting_good p \<union> ever) = {}"
      using fresh m(3,4) iv(5) by blast
    then show ?thesis using z(2) by (simp add: jq(1))
  qed
  ultimately show ?thesis using kq(2) by blast
qed

lemma post_inv:
  assumes "face_inv p out gone ever" "tid \<in> set out"
  shows "face_inv (post_identify_result tid good p) (remove1 tid out) gone (if good then insert tid ever else ever)"
proof -
  let ?q = "post_identify_result tid good p"
  have m: "inflight_ids ?q = inflight_ids p" "undecided ?q = undecided p" "done_ids ?q = done_ids p" "known_ids ?q = known_ids p"
    by (simp_all add: post_identify_result_def undecided_def known_ids_def)
  have w: "waiting_good ?q = waiting_good p \<union> (if good then {tid} else {})"
    by (auto simp: waiting_good_def post_identify_result_def)
  have "distinct out" using face_invD(1) [OF assms(1)] by simp
  then have "distinct (remove1 tid out @ map fst (identify_results ?q))"
    "set (remove1 tid out) \<union> fst ` set (identify_results ?q) = set out \<union> fst ` set (identify_results p)"
    using face_invD(1) [OF assms(1)] assms(2) by (auto simp: post_identify_result_def)
  then show ?thesis using face_invD(2-5) [OF assms(1)] unfolding face_inv_def m w by auto
qed

lemma face_reach_inv: "face_reach y p out gone ever \<Longrightarrow> face_inv p out gone ever"
proof (induction rule: face_reach.induct)
  case (start host params p)
  then show ?case
    by (auto simp: face_init_def face_inv_def undecided_def inflight_ids_def face_plugin_new_def
        split: if_splits sum.splits)
next
  case (frame p out gone ever objects h order frm r jobs q)
  show ?case using frame_step [OF frame.IH frame.hyps(2-4)] by blast
next
  case (post p out gone ever tid good)
  then show ?case by (intro post_inv)
next
  case (shutdown p gone ever)
  have "waiting_good p \<subseteq> gone \<union> known_ids p"
    using face_invD(2) [OF shutdown.IH] marks_known(1) [of p] by (force simp: waiting_good_def)
  then show ?case using face_invD(5) [OF shutdown.IH] marks_known(2) [of p]
    by (auto simp: face_inv_def undecided_def inflight_ids_def face_shutdown_def known_ids_def)
qed

section \<open>What the jobs do\<close>

text \<open>A stranger: the search succeeded, and the best hit has no number of its own.\<close>

definition stranger :: "('f, 'i) job_host \<Rightarrow> string \<Rightarrow> ('f, 'i) identify_item \<Rightarrow> bool" where
  "stranger h coll it = (case search h coll (item_feat it) of
     (found, pts) \<Rightarrow> found \<and> (case pts of [] \<Rightarrow> True | pt # _ \<Rightarrow> payload_string pt ''ehrNo'' ''NA'' = ''NA''))"

definition found_item :: "('f, 'i) job_host \<Rightarrow> string \<Rightarrow> ('f, 'i) identify_item \<Rightarrow> bool" where
  "found_item h coll it = fst (search h coll (item_feat it))"

lemma identify_items_spec:
  "identify_items h coll msg_id created n batch = (ps, npts, ss, vs, fs) \<Longrightarrow>
    ps = map (\<lambda>it. (item_track_id it, found_item h coll it)) batch \<and>
    map pt_vector npts = map item_feat (filter (stranger h coll) batch) \<and>
    ss = map (\<lambda>it. (item_track_id it, item_face it)) (filter (stranger h coll) batch) \<and>
    map (Not \<circ> recognized) vs = map (stranger h coll) (filter (found_item h coll) batch) \<and>
    fs = map item_face_img (filter (found_item h coll) batch)"
proof (induction batch arbitrary: n ps npts ss vs fs)
  case (Cons it its)
  obtain found pts where s: "search h coll (item_feat it) = (found, pts)" by fastforce
  have e: "(case pts of [] \<Rightarrow> ''NA'' | pt # _ \<Rightarrow> payload_string pt ''ehrNo'' ''NA'') = ''NA'' \<longleftrightarrow>
      (case pts of [] \<Rightarrow> True | pt # _ \<Rightarrow> payload_string pt ''ehrNo'' ''NA'' = ''NA'')"
    by (cases pts) simp_all
  define st where "st = (case pts of [] \<Rightarrow> True | pt # _ \<Rightarrow> payload_string pt ''ehrNo'' ''NA'' = ''NA'')"
  have k: "found_item h coll it = found" "stranger h coll it = (found \<and> st)"
    by (simp_all add: found_item_def stranger_def s st_def)
  obtain ps' npts' ss' vs' fs' where r:
    "identify_items h coll msg_id created (if found \<and> st then Suc n else n) its = (ps', npts', ss', vs', fs')"
    using prod_cases5 by blast
  note ih = Cons.IH [OF r]
  show ?case using Cons.prems ih k s r e unfolding st_def [symmetric]
    by (cases found; cases st) (auto simp: Let_def st_def [symmetric] split: prod.splits)
qed simp

text \<open>Each item gets its result, and each stranger's feature is stored once and its face reported once.\<close>

definition services_up :: "('f, 'i) job_host \<Rightarrow> bool" where
  "services_up h = (vectors_up h \<and> notify_up h)"

lemma run_identify_posts:
  "posts (run_identify_and_push h True coll batch frame msg_id time created) =
     map (\<lambda>it. (item_track_id it, services_up h \<and> found_item h coll it)) batch"
proof (cases "services_up h")
  case True
  obtain ps npts ss vs fs where r: "identify_items h coll msg_id created 0 batch = (ps, npts, ss, vs, fs)"
    using prod_cases5 by blast
  have "posts (run_identify_and_push h True coll batch frame msg_id time created) = ps"
    using True r unfolding run_identify_and_push_def services_up_def Let_def
    by (auto split: prod.splits)
  then show ?thesis using identify_items_spec [OF r] True by simp
next
  case False
  then show ?thesis by (auto simp: run_identify_and_push_def services_up_def)
qed

lemma run_identify_upserts:
  "upserts (run_identify_and_push h True coll batch frame msg_id time created) =
     (if services_up h then
        (case identify_items h coll msg_id created 0 batch of
           (ps, npts, rest) \<Rightarrow> if npts \<noteq> [] then [(coll, npts)] else [])
      else [])"
  unfolding run_identify_and_push_def services_up_def Let_def by (auto simp: no_job_effects_def split: prod.splits)

lemma stored_features:
  "map pt_vector (concat (map snd (upserts (run_identify_and_push h True coll batch frame msg_id time created)))) =
     map item_feat (filter (\<lambda>it. services_up h \<and> stranger h coll it) batch)"
proof (cases "services_up h")
  case True
  obtain ps npts ss vs fs where r: "identify_items h coll msg_id created 0 batch = (ps, npts, ss, vs, fs)"
    using prod_cases5 by blast
  show ?thesis using identify_items_spec [OF r] True by (auto simp: run_identify_upserts r)
qed (simp add: run_identify_upserts)

text \<open>A request that the client's checks let through: they end in an upload.\<close>

lemma first_empty_None: "list_all (\<lambda>f. blob_data f \<noteq> []) fs \<Longrightarrow> first_empty fs = None"
  by (auto simp: first_empty_def find_None_iff list_all_length)

lemma push_alert_uploads:
  assumes "alerts_api_key cfg \<noteq> []" "al_files req \<noteq> []" "list_all (\<lambda>f. blob_data f \<noteq> []) (al_files req)"
  shows "snd (push_alert parse up cfg req) \<noteq> None"
  using assms by (simp add: push_alert_def first_empty_None Let_def)

lemma push_visitor_uploads:
  assumes "visitors_api_key cfg \<noteq> []" "persons req \<noteq> []" "blob_data (original req) \<noteq> []"
    "length (faces req) = length (persons req)" "list_all (\<lambda>f. blob_data f \<noteq> []) (faces req)"
  shows "snd (push_visitor dump parse up cfg req) \<noteq> None"
  using assms by (simp add: push_visitor_def first_empty_None Let_def)

lemma encode_visitor_face_nonempty: "encode_visitor_face h f = Some jpg \<Longrightarrow> jpg \<noteq> []"
  unfolding encode_visitor_face_def by (auto split: if_splits prod.splits)

lemma encode_faces_nonempty:
  "encode_faces h msg_id j fs = Some bs \<Longrightarrow> list_all (\<lambda>f. blob_data f \<noteq> []) bs \<and> length bs = length fs"
  by (induction fs arbitrary: j bs)
    (auto simp: jpeg_blob_def dest: encode_visitor_face_nonempty split: option.splits)

definition jobs_served :: "('f, 'i) job_host \<Rightarrow> bool" where
  "jobs_served h = (alerts_api_key (server h) \<noteq> [] \<and> visitors_api_key (server h) \<noteq> [])"

definition all_uploaded :: "'f job_effects \<Rightarrow> bool" where
  "all_uploaded eff = (list_all (\<lambda>e. snd (snd e) \<noteq> None) (alerts eff) \<and>
     list_all (\<lambda>e. snd (snd e) \<noteq> None) (visitors eff) \<and> length (alerts eff) \<le> 1 \<and> length (visitors eff) \<le> 1)"

lemma all_uploadedI:
  assumes "alerts eff = [] \<or> (\<exists>req parse up. alerts eff = [(req, push_alert parse up cfg req)] \<and>
      al_files req \<noteq> [] \<and> list_all (\<lambda>f. blob_data f \<noteq> []) (al_files req))"
    "visitors eff = [] \<or> (\<exists>req dump parse up. visitors eff = [(req, push_visitor dump parse up cfg req)] \<and>
      persons req \<noteq> [] \<and> blob_data (original req) \<noteq> [] \<and> length (faces req) = length (persons req) \<and>
      list_all (\<lambda>f. blob_data f \<noteq> []) (faces req))"
    "alerts_api_key cfg \<noteq> []" "visitors_api_key cfg \<noteq> []"
  shows "all_uploaded eff"
proof -
  have "list_all (\<lambda>e. snd (snd e) \<noteq> None) (alerts eff)" "length (alerts eff) \<le> 1"
    using assms(1) push_alert_uploads [OF assms(3)] by (auto split: prod.splits)
  moreover have "list_all (\<lambda>e. snd (snd e) \<noteq> None) (visitors eff)" "length (visitors eff) \<le> 1"
    using assms(2) push_visitor_uploads [OF assms(4)] by (auto split: prod.splits)
  ultimately show ?thesis by (simp add: all_uploaded_def)
qed

lemma run_identify_uploads:
  assumes "jobs_served h"
  shows "all_uploaded (run_identify_and_push h host coll batch frame msg_id time created)"
proof -
  obtain ps npts ss vs fs where r: "identify_items h coll msg_id created 0 batch = (ps, npts, ss, vs, fs)"
    using prod_cases5 by blast
  obtain rr jpg where j: "jpeg_encode h frame = (rr, jpg)" by fastforce
  define bs where "bs = (case encode_faces h msg_id 0 fs of None \<Rightarrow> [] | Some bs \<Rightarrow> bs)"
  have b: "list_all (\<lambda>f. blob_data f \<noteq> []) bs"
    using encode_faces_nonempty unfolding bs_def by (fastforce split: option.splits)
  show ?thesis
    by (rule all_uploadedI [where cfg = "server h"])
      (use assms b in \<open>auto simp: run_identify_and_push_def r j bs_def [symmetric] no_job_effects_def make_alert_def
         jpeg_blob_def Let_def jobs_served_def\<close>)
qed

lemma lost_track_uploads:
  assumes "jobs_served h"
  shows "all_uploaded (push_lost_track h msg_id time tid face copied)"
proof -
  have e: "encode_visitor_face h roi = Some jpg \<Longrightarrow> jpg \<noteq> []" for roi jpg by (rule encode_visitor_face_nonempty)
  show ?thesis
    by (rule all_uploadedI [where cfg = "server h"])
      (use assms in \<open>auto simp: push_lost_track_def no_job_effects_def make_alert_def jpeg_blob_def Let_def
         jobs_served_def dest: e split: option.split prod.split\<close>)
qed

section \<open>Properties\<close>

text \<open>C12. In every state that frames, results of jobs and shutdowns lead to, in any order, as long as no frame has an id twice or the id of
  a track whose entry was erased: no track has two identifications under way (submitted and not yet posted, or posted and not yet
  taken), and the tracks marked as in flight are exactly those, but for the ones whose entries were erased meanwhile - the
  time-out for jobs that never answer, the pruning and the shutdown included. The jobs that the next such frame submits are for
  different tracks, none of which has a job running or was ever identified before.\<close>

theorem face_tracks_identified_once:
  assumes "face_reach y p out gone ever" "distinct (frame_ids objects)" "set (frame_ids objects) \<inter> gone = {}"
    "face_on_frame h order frame objects p = (r, jobs, q)"
  shows "distinct (out @ map fst (identify_results p)) \<and>
    inflight_ids p = (set out \<union> fst ` set (identify_results p)) - gone \<and> distinct (job_ids jobs) \<and>
    set (job_ids jobs) \<inter> (set out \<union> done_ids p \<union> {tid. (tid, True) \<in> set (identify_results p)} \<union> ever) = {}"
proof -
  note inv = face_reach_inv [OF assms(1)]
  note fs = frame_step [OF inv assms(2-4)]
  have "distinct (job_ids jobs)" using face_invD(1) [OF conjunct1 [OF fs]] by simp
  with face_invD(1,2) [OF inv] fs show ?thesis by (simp add: waiting_good_def)
qed

definition demo_face_host :: "(rat, nat) frame_host" where
  "demo_face_host = \<lparr>clone_frame = (\<lambda>_ f. (0, f)), infer_faces = (\<lambda>f os. (map (\<lambda>_. f) os, map (\<lambda>_. [1]) os)),
     vectors_ready = True, notify_ready = True, submit_async = (\<lambda>_. True), new_uuid = (\<lambda>_. ''m''), cur_time = ''t'',
     created_at = 0, frontal_score = (\<lambda>_. 1)\<rparr>"

definition demo_visitor :: "int \<Rightarrow> rat object" where
  "demo_visitor tid = \<lparr>rect = \<lparr>rx = 0, ry = 0, rwidth = 1, rheight = 1\<rparr>, label = 0, prob = 1, landmark = [], mask_feat = [],
     kps_feat = [], angle = 0, model_name = [], label_name = [], track_id = tid\<rparr>"

definition demo_face_yaml :: "(nat, rat) yaml_face" where
  "demo_face_yaml = \<lparr>yaml_load = (\<lambda>_. Some 0), is_map = (\<lambda>_. False), is_sequence = (\<lambda>_. False), entries = (\<lambda>_. []),
     items = (\<lambda>_. []), lookup = (\<lambda>_ _. None), as_string = (\<lambda>_. None), as_int = (\<lambda>_. None), as_float = (\<lambda>_. None),
     load_file = (\<lambda>_. Inr 0), is_scalar = (\<lambda>_. False), as_uint32 = (\<lambda>_. None), as_bool = (\<lambda>_. None), what = (\<lambda>_. []),
     emit = (\<lambda>_. Inr []), is_null = (\<lambda>_. True), tag = (\<lambda>_. []), as_double_ok = (\<lambda>_. False), load_what = (\<lambda>_. [])\<rparr>"

abbreviation demo_face_start :: "(rat, nat) face_plugin" where
  "demo_face_start \<equiv> snd (face_init demo_face_yaml True [] face_plugin_new)"

abbreviation demo_face_frame :: "int list \<Rightarrow> (rat, nat) face_plugin \<Rightarrow> int \<times> (rat, nat) face_job list \<times> (rat, nat) face_plugin" where
  "demo_face_frame tids p \<equiv> face_on_frame demo_face_host (\<lambda>_. tids) (Some 5) (map demo_visitor tids) p"

definition demo_face_running :: "(rat, nat) face_plugin" where
  "demo_face_running = snd (snd (demo_face_frame [7] demo_face_start))"

lemma demo_face_start_known: "known_ids demo_face_start = {}"
  by (simp add: known_ids_def face_init_def parse_face_plugin_config_def demo_face_yaml_def face_plugin_new_def)

lemma demo_face_start_reach: "face_reach demo_face_yaml demo_face_start [] {} {}"
  by (rule face_reach.start [where host = True and params = "[]"])
    (simp add: face_init_def parse_face_plugin_config_def demo_face_yaml_def)

lemma demo_face_reach: "face_reach demo_face_yaml demo_face_running [7] {} {}"
proof -
  obtain r jobs q where f: "demo_face_frame [7] demo_face_start = (r, jobs, q)" by (metis prod_cases3)
  have j: "job_ids (fst (snd (demo_face_frame [7] demo_face_start))) = [7]" by code_simp
  have d: "distinct (frame_ids (map demo_visitor [7]))" by code_simp
  show ?thesis using face_reach.frame [OF demo_face_start_reach d _ f] j f demo_face_start_known
    by (simp add: demo_face_running_def)
qed

theorem face_tracks_identified_once_witness:
  "distinct (7 # map fst (identify_results demo_face_running)) \<and> inflight_ids demo_face_running = {7} \<and>
   job_ids (fst (snd (demo_face_frame [7, 8] demo_face_running))) = [8] \<and>
   7 \<notin> set (job_ids (fst (snd (demo_face_frame [7, 8] demo_face_running))))"
proof -
  obtain r jobs q where f: "demo_face_frame [7, 8] demo_face_running = (r, jobs, q)" by (metis prod_cases3)
  have rs: "identify_results demo_face_running = []" by code_simp
  have d: "distinct (frame_ids (map demo_visitor [7, 8]))" by code_simp
  note w = face_tracks_identified_once [OF demo_face_reach d _ f]
  have j: "job_ids (fst (snd (demo_face_frame [7, 8] demo_face_running))) = [8]" by code_simp
  show ?thesis using w rs j f by simp
qed

text \<open>The assumption on erased tracks is needed. When a job does not answer and its track is not seen for more than fifteen hundred
  frames, the entry is erased, mark and all; if the id came back then, the track would be identified a second time
  while the first job still runs.\<close>

abbreviation demo_idle :: "nat \<Rightarrow> (rat, nat) face_plugin" where
  "demo_idle n \<equiv> demo_face_running\<lparr>face_frame_seq := 1 + int n\<rparr>"

lemma demo_face_running_known: "known_ids demo_face_running \<subseteq> {7}"
proof -
  obtain r jobs q where f: "demo_face_frame [7] demo_face_start = (r, jobs, q)" by (metis prod_cases3)
  have d: "distinct (frame_ids (map demo_visitor [7]))" "set (frame_ids (map demo_visitor [7])) \<subseteq> {7}" by code_simp+
  have "known_ids q \<subseteq> known_ids demo_face_start \<union> set (frame_ids (map demo_visitor [7]))"
    using frame_step [OF face_reach_inv [OF demo_face_start_reach] d(1) _ f] by blast
  then show ?thesis using d(2) f demo_face_start_known by (auto simp: demo_face_running_def)
qed

lemma demo_face_entry:
  "\<exists>e. track_pending demo_face_running = [7 \<mapsto> e] \<and> identify_inflight e \<and> \<not> feat_done e \<and> last_seen_frame e = 1"
  "identify_results demo_face_running = []" "has_face_host demo_face_running" "face_frame_seq demo_face_running = 1"
proof -
  have "map_option (\<lambda>e. (identify_inflight e, feat_done e, last_seen_frame e)) (track_pending demo_face_running 7) =
      Some (True, False, 1)"
    by code_simp
  then obtain e where e: "track_pending demo_face_running 7 = Some e" "identify_inflight e" "\<not> feat_done e"
      "last_seen_frame e = 1"
    by auto
  have "track_pending demo_face_running = [7 \<mapsto> e]"
  proof
    fix tid
    show "track_pending demo_face_running tid = [7 \<mapsto> e] tid"
      using e(1) demo_face_running_known by (cases "tid = 7") (auto simp: known_ids_def dom_def)
  qed
  then show "\<exists>e. track_pending demo_face_running = [7 \<mapsto> e] \<and> identify_inflight e \<and> \<not> feat_done e \<and> last_seen_frame e = 1"
    using e by blast
  show "identify_results demo_face_running = []" "has_face_host demo_face_running" "face_frame_seq demo_face_running = 1"
    by code_simp+
qed

lemma demo_idle_frame:
  "face_on_frame demo_face_host (\<lambda>_. [7]) None [] (demo_idle n) =
     (0, [], if n < 1500 then demo_idle (Suc n) else (demo_idle (Suc n))\<lparr>track_pending := (\<lambda>_. None)\<rparr>)"
proof -
  obtain e where e: "track_pending demo_face_running = [7 \<mapsto> e]" "identify_inflight e" "\<not> feat_done e" "last_seen_frame e = 1"
    using demo_face_entry(1) by blast
  show ?thesis using e demo_face_entry(2,3)
    by (auto simp: face_on_frame_def drain_identify_results_def demo_face_host_def submit_batch_def prune_entry_def
        kTrackPruneFrames_def kTrackInflightMaxFrames_def erase_entry_def Let_def fun_eq_iff)
qed

lemma demo_idle_reach: "n \<le> 1500 \<Longrightarrow> face_reach demo_face_yaml (demo_idle n) [7] {} {}"
proof (induction n)
  case 0
  have "demo_idle 0 = demo_face_running" using demo_face_entry(4) by simp
  then show ?case using demo_face_reach by simp
next
  case (Suc n)
  have f: "face_on_frame demo_face_host (\<lambda>_. [7]) None [] (demo_idle n) = (0, [], demo_idle (Suc n))"
    using demo_idle_frame [of n] Suc.prems by simp
  show ?case using face_reach.frame [OF Suc.IH _ _ f] Suc.prems by (simp add: frame_ids_def known_ids_def)
qed

lemma returning_track_identified_twice:
  "\<exists>p. face_reach demo_face_yaml p [7] {7} {} \<and> job_ids (fst (snd (demo_face_frame [7] p))) = [7]"
proof (intro exI conjI)
  let ?p = "(demo_idle 1501)\<lparr>track_pending := (\<lambda>_. None)\<rparr>"
  obtain e where e: "track_pending demo_face_running = [7 \<mapsto> e]" using demo_face_entry(1) by blast
  have f: "face_on_frame demo_face_host (\<lambda>_. [7]) None [] (demo_idle 1500) = (0, [], ?p)"
    using demo_idle_frame [of 1500] by simp
  show "face_reach demo_face_yaml ?p [7] {7} {}"
    using face_reach.frame [OF demo_idle_reach [of 1500] _ _ f] e by (simp add: frame_ids_def known_ids_def)
  show "job_ids (fst (snd (demo_face_frame [7] ?p))) = [7]"
    by code_simp
qed

text \<open>A job of identifications posts one result for each face of its batch, in order: success if both services
  are up and the search succeeded. The features it stores are those of the strangers, in order: the faces whose
  search succeeded without a numbered best hit.\<close>

theorem identify_job_results:
  "posts (run_identify_and_push h True coll batch frame msg_id time created) =
     map (\<lambda>it. (item_track_id it, services_up h \<and> found_item h coll it)) batch \<and>
   map pt_vector (concat (map snd (upserts (run_identify_and_push h True coll batch frame msg_id time created)))) =
     map item_feat (filter (\<lambda>it. services_up h \<and> stranger h coll it) batch)"
  by (simp add: run_identify_posts stored_features)

text \<open>C30. With both keys configured, every push that a job makes passes the client's checks and reaches the
  server, whatever the scaler, the encoder and the store answer; a job makes at most one push of each kind.\<close>

theorem pushes_accepted:
  assumes "jobs_served h"
  shows "all_uploaded (run_job h host coll j)"
  using run_identify_uploads [OF assms] lost_track_uploads [OF assms] by (cases j) (simp_all add: run_job_def)

definition demo_job_host :: "(rat, nat) job_host" where
  "demo_job_host = \<lparr>vectors_up = True, notify_up = True, search = (\<lambda>_ _. (True, [])), upsert_points = (\<lambda>_ _. True),
     jpeg_encode = (\<lambda>_. (0, [1])), push_csc = (\<lambda>_. 0), push_process = (\<lambda>f. (0, f)), roi_crop = (\<lambda>f _. f),
     point_uuid = (\<lambda>_. []), dump_description = (\<lambda>_. []), dump_persons = (\<lambda>_. []), parse_envelope = (\<lambda>_. Inl []),
     upload = (\<lambda>_. \<lparr>hr_ok = True, hr_status = 200, hr_body = [], hr_error = []\<rparr>),
     server = \<lparr>base_url = ''http://h/'', alerts_api_key = ''a'', visitors_api_key = ''v''\<rparr>\<rparr>"

abbreviation demo_effects :: "rat job_effects" where
  "demo_effects \<equiv> run_job demo_job_host True ''faces'' (LostJob ''m'' ''t'' 7 (demo_visitor 7) (Some 5))"

theorem pushes_accepted_witness:
  "all_uploaded demo_effects \<and> length (alerts demo_effects) = 1 \<and>
   map (\<lambda>e. ok (fst (snd e))) (visitors demo_effects) = [True]"
proof -
  have "jobs_served demo_job_host" by code_simp
  moreover have "length (alerts demo_effects) = 1" "map (\<lambda>e. ok (fst (snd e))) (visitors demo_effects) = [True]"
    by code_simp+
  ultimately show ?thesis using pushes_accepted by blast
qed

end
