(* ===== verification/Hal_Calls.thy ===== *)
theory Hal_Calls
  imports Ax_Prelude
begin

text \<open>
  Calls on the vendor's libraries, as the hardware wrappers of \<open>hal/ax\<close> make them: a library answers the \<open>n\<close>th call
  as it likes, the calls and their answers are kept in a log, and a monitor runs over the log to say what is open,
  allocated or lent out at its end. What the wrappers share of this is here.
\<close>

section \<open>The log\<close>

type_synonym ('c, 'r) hlog = "('c \<times> 'r) list"

definition ask :: "(nat \<Rightarrow> 'c \<Rightarrow> 'r) \<Rightarrow> 'c \<Rightarrow> ('c, 'r) hlog \<Rightarrow> 'r \<times> ('c, 'r) hlog" where
  "ask lib c tr = (let r = lib (length tr) c in (r, tr @ [(c, r)]))"

text \<open>Calls one after the other until one of them does not answer \<open>good\<close>: the last answer.\<close>

fun ask_all :: "(nat \<Rightarrow> 'c \<Rightarrow> 'r) \<Rightarrow> 'r \<Rightarrow> 'c list \<Rightarrow> ('c, 'r) hlog \<Rightarrow> 'r \<times> ('c, 'r) hlog" where
  "ask_all lib good [] tr = (good, tr)"
| "ask_all lib good (c # cs) tr =
     (case ask lib c tr of (r, tr') \<Rightarrow> if r \<noteq> good then (r, tr') else ask_all lib good cs tr')"

section \<open>Alignment\<close>

text \<open>\<open>AX_COMM_ALIGN\<close> on unsigned numbers, \<open>ALIGN_UP\<close> on signed ones.\<close>

definition comm_align :: "u32 \<Rightarrow> u32 \<Rightarrow> u32" where
  "comm_align x n = (x + n - 1) AND NOT (n - 1)"

definition align_up :: "int \<Rightarrow> int \<Rightarrow> int" where
  "align_up x n = (x + (n - 1)) AND NOT (n - 1)"

section \<open>Monitors\<close>

text \<open>A step of a monitor has no result when the call has no business there.\<close>

fun run_log :: "('c \<times> 'r \<Rightarrow> 's \<Rightarrow> 's option) \<Rightarrow> ('c, 'r) hlog \<Rightarrow> 's \<Rightarrow> 's option" where
  "run_log step [] s = Some s"
| "run_log step (e # es) s = (case step e s of None \<Rightarrow> None | Some s' \<Rightarrow> run_log step es s')"

lemma run_log_append [simp]:
  "run_log step (xs @ ys) s = (case run_log step xs s of None \<Rightarrow> None | Some s' \<Rightarrow> run_log step ys s')"
  by (induction xs arbitrary: s) (auto split: option.split)

lemma run_log_ask:
  "ask lib c tr = (r, tr') \<Longrightarrow> run_log step tr s = Some s1 \<Longrightarrow> run_log step tr' s = step (c, r) s1"
  by (auto simp: ask_def Let_def split: option.split)

text \<open>Calls that a monitor lets pass unchanged.\<close>

lemma run_log_ask_all:
  assumes "ask_all lib good cs tr = (r, tr')" "run_log step tr s = Some s1" "\<And>c r. c \<in> set cs \<Longrightarrow> step (c, r) s1 = Some s1"
  shows "run_log step tr' s = Some s1"
  using assms
proof (induction cs arbitrary: tr)
  case (Cons c cs)
  obtain q tq where q: "ask lib c tr = (q, tq)" by fastforce
  have "run_log step tq s = Some s1" using run_log_ask [OF q Cons.prems(2)] Cons.prems(3) by simp
  then show ?case using Cons.IH [of tq] Cons.prems q by (auto split: if_splits)
qed simp

lemma ask_log: "ask lib c tr = (r, tr') \<Longrightarrow> tr' = tr @ [(c, r)] \<and> r = lib (length tr) c"
  by (auto simp: ask_def Let_def)

end
