(* ===== verification/Vdec.thy ===== *)
theory Vdec
  imports Hal_Calls Frames
begin

text \<open>
  The wrapper of the hardware decoder (\<open>hal/ax/vdec_helper.cpp\<close>): the life of its group and of the buffer the stream is
  written to, the thread that fetches frames, and the end of decoding. The codes of the library are constructors named
  after them; what it answers is a function of the number of calls made so far. The buffer is \<open>None\<close> until \<open>Init\<close>
  sets its addresses: the class does not initialise them. An operation that has no defined outcome, or never ends,
  has the result \<open>None\<close>. Log lines are left out.
\<close>

section \<open>The library\<close>

datatype vdec_ret =
    VOk | VBusy | VQueueEmpty | VQueueFull | VBufEmpty | VUnexist | VFlowEnd | VStrmError | VNotPerm | VNotMatch
  | VNotSupport | VNoMem | VNoBuf | VOther int

record vdec_grp_attr =
  max_pic_width :: u32
  max_pic_height :: u32
  stream_buf_size :: u32

record vdec_chn_attr =
  pic_width :: u32
  pic_height :: u32
  frame_stride :: u32
  height_align :: u32
  frame_buf_cnt :: nat
  fifo_depth :: nat

text \<open>The calls; an allocation with the addresses it gives when it succeeds. A stream packet: its bytes, or the mark of the end.\<close>

datatype stream_pack = EndOfStream | Pack "u8 list"

datatype vdec_call =
    VMemAlloc nat "u64 \<times> u64" | VMemFree "u64 \<times> u64" | VCreateGrp int vdec_grp_attr | VDestroyGrp int
  | VSetChnAttr int vdec_chn_attr | VEnableChn int | VSetGrpParam int int | VSetDisplayMode int
  | VStartRecv int | VStopRecv int | VGetPts | VSendStream int stream_pack
  | VGetFrame int | VReleaseFrame int | VQueryStatus int | VReleaseId int

record vdec_lib =
  v_answer :: "nat \<Rightarrow> vdec_call \<Rightarrow> vdec_ret"
  v_address :: "nat \<Rightarrow> u64 \<times> u64"
  v_left :: "nat \<Rightarrow> nat \<times> nat"

section \<open>The state\<close>

record vdec =
  vd_grp :: int
  id_owned :: bool
  destroyed :: bool
  buf_addr :: "(u64 \<times> u64) option"
  is_stop :: bool
  is_finished :: bool
  recv_started :: bool
  has_callback :: bool
  frame_width :: u32
  frame_height :: u32
  fps :: int
  vlog :: "(vdec_call, vdec_ret) hlog"

definition kBufSize :: nat where
  "kBufSize = 3 * 1024 * 1024"

text \<open>The constructor, with what \<open>HwIdAllocator::Acquire\<close> gives.\<close>

definition vdec_new :: "int \<Rightarrow> u32 \<Rightarrow> u32 \<Rightarrow> int \<Rightarrow> vdec" where
  "vdec_new acquired w h f =
     \<lparr>vd_grp = (if acquired < 0 then - 1 else acquired), id_owned = (\<not> acquired < 0), destroyed = False, buf_addr = None,
      is_stop = False, is_finished = False, recv_started = False, has_callback = False,
      frame_width = w, frame_height = h, fps = f, vlog = []\<rparr>"

definition vask :: "vdec_lib \<Rightarrow> vdec_call \<Rightarrow> vdec \<Rightarrow> vdec_ret \<times> vdec" where
  "vask lib c v = (case ask (v_answer lib) c (vlog v) of (r, tr) \<Rightarrow> (r, v\<lparr>vlog := tr\<rparr>))"

section \<open>Init\<close>

definition grp_attr :: "vdec \<Rightarrow> vdec_grp_attr" where
  "grp_attr v = \<lparr>max_pic_width = comm_align (frame_width v) 16, max_pic_height = comm_align (frame_height v) 16,
     stream_buf_size = of_nat kBufSize\<rparr>"

text \<open>The stride in bytes; the aligned height is computed from the stride, as the code has it.\<close>

definition chn_attr :: "vdec \<Rightarrow> vdec_chn_attr" where
  "chn_attr v =
     (let stride = comm_align (frame_width v * 8) (256 * 8) div 8
      in \<lparr>pic_width = frame_width v, pic_height = frame_height v, frame_stride = stride,
          height_align = comm_align stride 2, frame_buf_cnt = 16, fifo_depth = 34\<rparr>)"

definition vdec_init :: "vdec_lib \<Rightarrow> vdec \<Rightarrow> vdec_ret \<times> vdec" where
  "vdec_init lib v =
     (if vd_grp v < 0 then (VOther (- 1), v)
      else
        (let v0 = v\<lparr>buf_addr := Some (0, 0)\<rparr>; addr = v_address lib (length (vlog v0))
         in case vask lib (VMemAlloc kBufSize addr) v0 of
              (r, v1) \<Rightarrow>
                if r \<noteq> VOk then (r, v1)
                else
                  (case ask_all (v_answer lib) VOk
                          [VCreateGrp (vd_grp v) (grp_attr v), VSetChnAttr (vd_grp v) (chn_attr v), VEnableChn (vd_grp v),
                           VSetGrpParam (vd_grp v) (fps v), VSetDisplayMode (vd_grp v)] (vlog v1) of
                     (r, tr) \<Rightarrow> (r, v1\<lparr>buf_addr := Some addr, vlog := tr\<rparr>))))"

section \<open>The receiving thread\<close>

text \<open>One round: what the flag says, what the library answers, the frame it gives with an answer \<open>VOk\<close>.\<close>

record round =
  r_stop :: bool
  r_ret :: vdec_ret
  r_frame :: video_frame
  r_end_of_stream :: bool

datatype recv_end = StillRunning | Ended vdec_ret

definition received :: "int \<Rightarrow> round \<Rightarrow> image_data" where
  "received g q =
     (let vf = (r_frame q)\<lparr>vir_addr := [0, 0, 0]\<rparr>
      in \<lparr>width = vwidth vf, height = vheight vf, img_format = img_fmt vf, end_of_stream = r_end_of_stream q,
          data = Some (frame_create (Some vf) g 0 kMemIdVdec)\<rparr>)"

fun goes_on :: "vdec_ret \<Rightarrow> bool" where
  "goes_on VOk = True"
| "goes_on VBufEmpty = True"
| "goes_on VQueueEmpty = True"
| "goes_on VUnexist = True"
| "goes_on VStrmError = True"
| "goes_on VNotPerm = True"
| "goes_on _ = False"

text \<open>\<open>RecvStreamFunc\<close> over the rounds to come: the images made, and how it ended. \<open>prev\<close> is the answer before.\<close>

fun recv_stream :: "int \<Rightarrow> vdec_ret \<Rightarrow> round list \<Rightarrow> image_data list \<times> recv_end" where
  "recv_stream g prev [] = ([], StillRunning)"
| "recv_stream g prev (q # qs) =
     (if r_stop q then ([], Ended prev)
      else if r_ret q = VOk then (case recv_stream g VOk qs of (imgs, e) \<Rightarrow> (received g q # imgs, e))
      else if goes_on (r_ret q) then recv_stream g (r_ret q) qs
      else ([], Ended (r_ret q)))"

section \<open>Decoding\<close>

definition vdec_decode :: "vdec_lib \<Rightarrow> bool \<Rightarrow> bool \<Rightarrow> vdec \<Rightarrow> vdec_ret \<times> vdec" where
  "vdec_decode lib callback thread_made v =
     (case vask lib (VStartRecv (vd_grp v)) v of
        (r, v1) \<Rightarrow>
          if r \<noteq> VOk then (r, v1)
          else
            (let v2 = v1\<lparr>has_callback := callback, is_stop := False\<rparr>
             in if \<not> thread_made then (VOther (- 1), v2) else (VOk, v2\<lparr>recv_started := True\<rparr>)))"

definition vdec_write_eof :: "vdec_lib \<Rightarrow> vdec \<Rightarrow> vdec_ret \<times> vdec" where
  "vdec_write_eof lib v = vask lib (VSendStream (vd_grp v) EndOfStream) v"

text \<open>What is left of the stream is fetched and given back, at most \<open>n\<close> times.\<close>

fun drain :: "vdec_lib \<Rightarrow> nat \<Rightarrow> vdec \<Rightarrow> vdec" where
  "drain lib 0 v = v"
| "drain lib (Suc n) v =
     (case vask lib (VGetFrame (vd_grp v)) v of
        (r, v1) \<Rightarrow>
          (let v2 = (if r = VOk then snd (vask lib (VReleaseFrame (vd_grp v)) v1) else v1);
               left = v_left lib (length (vlog v2))
           in case vask lib (VQueryStatus (vd_grp v)) v2 of
                (q, v3) \<Rightarrow>
                  if q = VOk \<and> left = (0, 0) then v3
                  else if r \<noteq> VOk \<and> r \<noteq> VQueueEmpty then v3
                  else drain lib n v3))"

definition kMaxDrainIters :: nat where
  "kMaxDrainIters = 100"

text \<open>\<open>StopDecode\<close>; the join of a thread that was made waits for its end, which the flag brings about.\<close>

definition stop_decode :: "vdec_lib \<Rightarrow> vdec \<Rightarrow> vdec" where
  "stop_decode lib v =
     (let v1 = (snd (vdec_write_eof lib v))\<lparr>is_stop := True\<rparr>;
          v2 = snd (vask lib (VStopRecv (vd_grp v)) v1);
          v3 = v2\<lparr>recv_started := False\<rparr>
      in (drain lib kMaxDrainIters v3)\<lparr>is_finished := True\<rparr>)"

text \<open>\<open>Write\<close>: the packet is copied to the buffer and sent. \<open>None\<close> for a copy to an address that is none.\<close>

definition vdec_write :: "vdec_lib \<Rightarrow> u8 list option \<Rightarrow> nat \<Rightarrow> vdec \<Rightarrow> (vdec_ret \<times> vdec) option" where
  "vdec_write lib packet n v =
     (if packet = None \<or> n = 0 \<or> kBufSize < n then Some (VOther (- 1), v)
      else
        (case buf_addr v of
           None \<Rightarrow> None
         | Some (phys, vir) \<Rightarrow>
             if vir = 0 then None
             else
               (let v1 = snd (vask lib VGetPts v)
                in case vask lib (VSendStream (vd_grp v) (Pack (take n (the packet)))) v1 of
                     (r, v2) \<Rightarrow>
                       Some (if r = VQueueFull \<or> r = VNotPerm \<or> r = VNotMatch then VOk else r, v2))))"

section \<open>Destruction\<close>

text \<open>The group is destroyed as often as the library says that it is busy, which may be for ever.\<close>

partial_function (option) destroy_grp :: "vdec_lib \<Rightarrow> vdec \<Rightarrow> (vdec_ret \<times> vdec) option" where
  "destroy_grp lib v =
     (case vask lib (VDestroyGrp (vd_grp v)) v of
        (r, v1) \<Rightarrow> if r = VBusy then destroy_grp lib v1 else Some (r, v1))"

declare destroy_grp.simps [code]

definition free_buffer :: "vdec_lib \<Rightarrow> vdec_ret \<Rightarrow> vdec \<Rightarrow> (vdec_ret \<times> vdec) option" where
  "free_buffer lib r v =
     (case buf_addr v of
        None \<Rightarrow> None
      | Some (phys, vir) \<Rightarrow>
          if phys \<noteq> 0 then
            (case vask lib (VMemFree (phys, vir)) v of
               (q, v1) \<Rightarrow> Some (q, if q = VOk then v1\<lparr>buf_addr := Some (0, 0)\<rparr> else v1))
          else if vir \<noteq> 0 then None
          else Some (r, v))"

definition vdec_destroy :: "vdec_lib \<Rightarrow> vdec \<Rightarrow> (vdec_ret \<times> vdec) option" where
  "vdec_destroy lib v =
     (if destroyed v then Some (VOk, v)
      else
        (case (if 0 \<le> vd_grp v then destroy_grp lib (v\<lparr>destroyed := True\<rparr>) else Some (VOk, v\<lparr>destroyed := True\<rparr>)) of
           None \<Rightarrow> None
         | Some (r, v1) \<Rightarrow>
             (case free_buffer lib r v1 of
                None \<Rightarrow> None
              | Some (q, v2) \<Rightarrow>
                  Some (q, if id_owned v2 then (snd (vask lib (VReleaseId (vd_grp v)) v2))\<lparr>id_owned := False\<rparr> else v2))))"

section \<open>What the hardware has lent out\<close>

text \<open>The buffers allocated, whether the group is there, the frames fetched by \<open>StopDecode\<close> and not given back, and
  whether the id is held. A buffer may be freed once and only when the group that reads it is gone; a frame is given back
  once; the id is released once. Every answer of \<open>AX_VDEC_DestroyGrp\<close> but busy counts as the end of the group: after another error
  the code tries no more, frees the buffer and releases the id, and what the hardware then has is not known.\<close>

record vdec_mon =
  m_mem :: "(u64 \<times> u64) multiset"
  m_grp :: bool
  m_frames :: nat
  m_id :: bool

fun vdec_mon_step :: "vdec_call \<times> vdec_ret \<Rightarrow> vdec_mon \<Rightarrow> vdec_mon option" where
  "vdec_mon_step (VMemAlloc n a, r) s = Some (if r = VOk then s\<lparr>m_mem := add_mset a (m_mem s)\<rparr> else s)"
| "vdec_mon_step (VMemFree a, r) s = (if m_grp s \<or> a \<notin># m_mem s then None else Some (s\<lparr>m_mem := m_mem s - {#a#}\<rparr>))"
| "vdec_mon_step (VCreateGrp g at, r) s = (if r \<noteq> VOk then Some s else if m_grp s then None else Some (s\<lparr>m_grp := True\<rparr>))"
| "vdec_mon_step (VDestroyGrp g, r) s = Some (if r = VBusy then s else s\<lparr>m_grp := False\<rparr>)"
| "vdec_mon_step (VGetFrame g, r) s = Some (if r = VOk then s\<lparr>m_frames := m_frames s + 1\<rparr> else s)"
| "vdec_mon_step (VReleaseFrame g, r) s = (if m_frames s = 0 then None else Some (s\<lparr>m_frames := m_frames s - 1\<rparr>))"
| "vdec_mon_step (VReleaseId g, r) s = (if m_id s then Some (s\<lparr>m_id := False\<rparr>) else None)"
| "vdec_mon_step (c, r) s = Some s"

definition vdec_mon_start :: "bool \<Rightarrow> vdec_mon" where
  "vdec_mon_start owned = \<lparr>m_mem = {#}, m_grp = False, m_frames = 0, m_id = owned\<rparr>"

text \<open>How the pipeline uses a decoder: \<open>Init\<close> once, the rest as it comes.\<close>

inductive vdec_reach :: "vdec_lib \<Rightarrow> int \<Rightarrow> vdec \<Rightarrow> bool" for lib acquired where
  vr_new: "vdec_reach lib acquired (vdec_new acquired w h f)"
| vr_init: "vdec_reach lib acquired v \<Longrightarrow> buf_addr v = None \<Longrightarrow> vdec_reach lib acquired (snd (vdec_init lib v))"
| vr_decode: "vdec_reach lib acquired v \<Longrightarrow> vdec_reach lib acquired (snd (vdec_decode lib cb made v))"
| vr_write: "vdec_reach lib acquired v \<Longrightarrow> vdec_write lib packet n v = Some (r, v') \<Longrightarrow> vdec_reach lib acquired v'"
| vr_stop: "vdec_reach lib acquired v \<Longrightarrow> vdec_reach lib acquired (stop_decode lib v)"

definition vdec_inv :: "int \<Rightarrow> vdec \<Rightarrow> bool" where
  "vdec_inv acquired v \<longleftrightarrow>
     \<not> destroyed v \<and> id_owned v = (0 \<le> acquired) \<and> (vd_grp v < 0 \<longleftrightarrow> acquired < 0) \<and> (acquired < 0 \<longrightarrow> buf_addr v = None) \<and>
     (case buf_addr v of Some a \<Rightarrow> a = (0, 0) \<or> fst a \<noteq> 0 | None \<Rightarrow> True) \<and>
     (\<exists>live. run_log vdec_mon_step (vlog v) (vdec_mon_start (0 \<le> acquired)) =
        Some \<lparr>m_mem = (case buf_addr v of Some a \<Rightarrow> if a = (0, 0) then {#} else {#a#} | None \<Rightarrow> {#}),
              m_grp = live, m_frames = 0, m_id = (0 \<le> acquired)\<rparr> \<and> (live \<longrightarrow> buf_addr v \<noteq> None))"

lemma vask_log: "vask lib c v = (r, v') \<Longrightarrow> v' = v\<lparr>vlog := vlog v @ [(c, r)]\<rparr>"
  by (auto simp: vask_def ask_def Let_def)

text \<open>A call that the monitor lets pass keeps the invariant.\<close>

lemma vdec_inv_pass:
  assumes "vdec_inv acquired v" "vask lib c v = (r, v')" "\<And>s. vdec_mon_step (c, r) s = Some s"
  shows "vdec_inv acquired v'"
  using assms(1) vask_log [OF assms(2)] assms(3) by (auto simp: vdec_inv_def)

lemma vdec_inv_flags:
  "vdec_inv acquired v \<Longrightarrow> vdec_inv acquired (v\<lparr>is_stop := a\<rparr>)" "vdec_inv acquired v \<Longrightarrow> vdec_inv acquired (v\<lparr>is_finished := a\<rparr>)"
  "vdec_inv acquired v \<Longrightarrow> vdec_inv acquired (v\<lparr>recv_started := a\<rparr>)" "vdec_inv acquired v \<Longrightarrow> vdec_inv acquired (v\<lparr>has_callback := a\<rparr>)"
  by (simp_all add: vdec_inv_def)

lemma vdec_init_inv:
  assumes inv: "vdec_inv acquired v" and new: "buf_addr v = None" and addr: "\<And>k. fst (v_address lib k) \<noteq> 0"
  shows "vdec_inv acquired (snd (vdec_init lib v))"
proof (cases "vd_grp v < 0")
  case False
  define v0 where "v0 = v\<lparr>buf_addr := Some (0, 0)\<rparr>"
  define a where "a = v_address lib (length (vlog v0))"
  obtain r v1 where r: "vask lib (VMemAlloc kBufSize a) v0 = (r, v1)" by fastforce
  note v1 = vask_log [OF r]
  have "fst a \<noteq> 0" by (simp add: a_def addr)
  then have a: "fst a \<noteq> 0" "a \<noteq> (0, 0)" by auto
  let ?st = "vdec_mon_start (0 \<le> acquired)"
  have s0: "run_log vdec_mon_step (vlog v) ?st = Some \<lparr>m_mem = {#}, m_grp = False, m_frames = 0, m_id = (0 \<le> acquired)\<rparr>"
    using inv new by (auto simp: vdec_inv_def)
  show ?thesis
  proof (cases "r = VOk")
    case True
    let ?s1 = "\<lparr>m_mem = {#a#}, m_grp = False, m_frames = 0, m_id = (0 \<le> acquired)\<rparr>"
    have s1: "run_log vdec_mon_step (vlog v1) ?st = Some ?s1" using s0 v1 True by (simp add: v0_def)
    obtain c q1 t1 where c: "ask (v_answer lib) (VCreateGrp (vd_grp v) (grp_attr v)) (vlog v1) = (q1, t1)" by fastforce
    let ?rest = "[VSetChnAttr (vd_grp v) (chn_attr v), VEnableChn (vd_grp v), VSetGrpParam (vd_grp v) (fps v), VSetDisplayMode (vd_grp v)]"
    obtain q tr where q: "ask_all (v_answer lib) VOk (VCreateGrp (vd_grp v) (grp_attr v) # ?rest) (vlog v1) = (q, tr)" by fastforce
    have t1: "run_log vdec_mon_step t1 ?st = Some (?s1\<lparr>m_grp := (q1 = VOk)\<rparr>)" using run_log_ask [OF c s1] by simp
    have "run_log vdec_mon_step tr ?st = Some (?s1\<lparr>m_grp := (q1 = VOk)\<rparr>)"
    proof (cases "q1 = VOk")
      case True
      then have "ask_all (v_answer lib) VOk ?rest t1 = (q, tr)" using q c by simp
      then show ?thesis by (rule run_log_ask_all [OF _ t1]) auto
    qed (use q c t1 in auto)
    then have "vdec_inv acquired (v1\<lparr>buf_addr := Some a, vlog := tr\<rparr>)"
      using inv False a v1 by (auto simp: vdec_inv_def v0_def)
    moreover have "vdec_init lib v = (q, v1\<lparr>buf_addr := Some a, vlog := tr\<rparr>)"
      unfolding vdec_init_def Let_def v0_def [symmetric] a_def [symmetric] r prod.case using False True q by simp
    ultimately show ?thesis by simp
  next
    case failed: False
    then have "vdec_init lib v = (r, v1)"
      unfolding vdec_init_def Let_def v0_def [symmetric] a_def [symmetric] r prod.case using False by simp
    moreover have "vdec_inv acquired v1" using inv failed False s0 v1 by (auto simp: vdec_inv_def v0_def)
    ultimately show ?thesis by simp
  qed
qed (simp add: vdec_init_def inv)

lemma vdec_inv_pass_snd: "vdec_inv acquired v \<Longrightarrow> (\<And>r s. vdec_mon_step (c, r) s = Some s) \<Longrightarrow> vdec_inv acquired (snd (vask lib c v))"
  using vdec_inv_pass [of acquired v lib c "fst (vask lib c v)" "snd (vask lib c v)"] by simp

lemma vdec_decode_inv: "vdec_inv acquired v \<Longrightarrow> vdec_inv acquired (snd (vdec_decode lib cb made v))"
  using vdec_inv_pass_snd [of acquired v "VStartRecv (vd_grp v)" lib]
  by (auto simp: vdec_decode_def Let_def vdec_inv_flags split: prod.splits if_splits)

lemma vdec_write_inv: "vdec_inv acquired v \<Longrightarrow> vdec_write lib packet n v = Some (r, v') \<Longrightarrow> vdec_inv acquired v'"
  using vdec_inv_pass_snd [of acquired v VGetPts lib]
    vdec_inv_pass_snd [of acquired "snd (vask lib VGetPts v)" "VSendStream (vd_grp v) (Pack (take n (the packet)))" lib]
  by (auto simp: vdec_write_def Let_def split: prod.splits if_splits option.splits)

text \<open>A round of the drain: a frame fetched is given back at once.\<close>

lemma fetch_release_inv:
  assumes "vdec_inv acquired v" "vask lib (VGetFrame g) v = (r, v1)"
  shows "vdec_inv acquired (if r = VOk then snd (vask lib (VReleaseFrame g) v1) else v1)"
proof -
  obtain q v2 where q: "vask lib (VReleaseFrame g) v1 = (q, v2)" by fastforce
  note v1 = vask_log [OF assms(2)] and v2 = vask_log [OF q]
  show ?thesis using assms(1) q v1 v2 by (auto simp: vdec_inv_def)
qed

lemma drain_inv: "vdec_inv acquired v \<Longrightarrow> vdec_inv acquired (drain lib n v)"
proof (induction n arbitrary: v)
  case (Suc n)
  obtain r v1 where r: "vask lib (VGetFrame (vd_grp v)) v = (r, v1)" by fastforce
  let ?v2 = "if r = VOk then snd (vask lib (VReleaseFrame (vd_grp v)) v1) else v1"
  have "vdec_inv acquired (snd (vask lib (VQueryStatus (vd_grp v)) ?v2))"
    by (rule vdec_inv_pass_snd [OF fetch_release_inv [OF Suc.prems r]]) simp
  then show ?case using Suc.IH r by (auto simp: Let_def split: prod.splits)
qed simp

lemma stop_decode_inv: "vdec_inv acquired v \<Longrightarrow> vdec_inv acquired (stop_decode lib v)"
  unfolding stop_decode_def Let_def vdec_write_eof_def
  by (intro vdec_inv_flags drain_inv vdec_inv_pass_snd) simp_all

lemma vdec_reach_inv: "vdec_reach lib acquired v \<Longrightarrow> (\<And>k. fst (v_address lib k) \<noteq> 0) \<Longrightarrow> vdec_inv acquired v"
proof (induction rule: vdec_reach.induct)
  case (vr_new w h f)
  then show ?case by (auto simp: vdec_inv_def vdec_new_def vdec_mon_start_def)
qed (auto intro: vdec_init_inv vdec_decode_inv vdec_write_inv stop_decode_inv)

section \<open>Destruction\<close>

text \<open>The loop ends with the first answer that is not \<open>VBusy\<close>, and only then.\<close>

definition ended_after :: "nat \<Rightarrow> vdec \<Rightarrow> vdec_ret \<times> vdec \<Rightarrow> bool" where
  "ended_after j v y \<longleftrightarrow>
     snd y = v\<lparr>vlog := vlog v @ replicate j (VDestroyGrp (vd_grp v), VBusy) @ [(VDestroyGrp (vd_grp v), fst y)]\<rparr> \<and> fst y \<noteq> VBusy"

lemma destroy_grp_log:
  assumes "destroy_grp lib v = Some y"
  shows "\<exists>j. ended_after j v y"
proof (rule destroy_grp.raw_induct [of "\<lambda>lib v y. \<exists>j. ended_after j v y", OF _ assms])
  fix f lib v y
  assume ih: "\<And>lib v y. f lib v = Some y \<Longrightarrow> \<exists>j. ended_after j v y"
    and body: "(case vask lib (VDestroyGrp (vd_grp v)) v of (r, v1) \<Rightarrow> if r = VBusy then f lib v1 else Some (r, v1)) = Some y"
  obtain r v1 where r: "vask lib (VDestroyGrp (vd_grp v)) v = (r, v1)" by fastforce
  note v1 = vask_log [OF r]
  show "\<exists>j. ended_after j v y"
  proof (cases "r = VBusy")
    case True
    then have "f lib v1 = Some y" using body r by simp
    from ih [OF this] obtain j where "ended_after j v1 y" by blast
    then have "ended_after (Suc j) v y" using v1 True by (simp add: ended_after_def)
    then show ?thesis by blast
  next
    case False
    then have "ended_after 0 v y" using body r v1 by (auto simp: ended_after_def)
    then show ?thesis by blast
  qed
qed

lemma destroy_grp_ends:
  "v_answer lib (length (vlog v) + k) (VDestroyGrp (vd_grp v)) \<noteq> VBusy \<Longrightarrow> \<exists>y. destroy_grp lib v = Some y"
proof (induction k arbitrary: v)
  case 0
  then show ?case by (subst destroy_grp.simps) (simp add: vask_def ask_def Let_def)
next
  case (Suc k)
  then show ?case using Suc.IH [of "v\<lparr>vlog := vlog v @ [(VDestroyGrp (vd_grp v), VBusy)]\<rparr>"]
    by (subst destroy_grp.simps) (simp add: vask_def ask_def Let_def)
qed

lemma run_replicate_busy: "run_log vdec_mon_step (replicate j (VDestroyGrp g, VBusy)) s = Some s"
  by (induction j) simp_all

lemma destroy_grp_buffer: "destroy_grp lib v = Some (r, v1) \<Longrightarrow> buf_addr v1 = buf_addr v"
  using destroy_grp_log by (fastforce simp: ended_after_def)

lemma vdec_destroy_undefined: "vdec_inv acquired v \<Longrightarrow> buf_addr v = None \<Longrightarrow> vdec_destroy lib v = None"
  using destroy_grp_buffer [of lib "v\<lparr>destroyed := True\<rparr>"]
  by (auto simp: vdec_destroy_def vdec_inv_def free_buffer_def split: option.splits)

lemma vdec_destroy_clean:
  assumes inv: "vdec_inv acquired v" and d: "vdec_destroy lib v = Some (r, v')"
  shows "run_log vdec_mon_step (vlog v') (vdec_mon_start (0 \<le> acquired)) = Some (vdec_mon_start False)"
proof -
  let ?v = "v\<lparr>destroyed := True\<rparr>"
  let ?st = "vdec_mon_start (0 \<le> acquired)"
  obtain live where live: "run_log vdec_mon_step (vlog v) ?st =
      Some \<lparr>m_mem = (case buf_addr v of Some a \<Rightarrow> if a = (0, 0) then {#} else {#a#} | None \<Rightarrow> {#}), m_grp = live, m_frames = 0,
        m_id = (0 \<le> acquired)\<rparr>" using inv by (auto simp: vdec_inv_def)
  obtain a where a: "buf_addr v = Some a" using vdec_destroy_undefined [OF inv] d by (cases "buf_addr v") auto
  then have ids: "0 \<le> acquired" "0 \<le> vd_grp v" "id_owned v" "\<not> destroyed v" "a = (0, 0) \<or> fst a \<noteq> 0"
    using inv by (auto simp: vdec_inv_def)
  obtain r1 v1 where g: "destroy_grp lib ?v = Some (r1, v1)" using d ids by (auto simp: vdec_destroy_def split: option.splits)
  obtain j where "ended_after j ?v (r1, v1)" using destroy_grp_log [OF g] by blast
  then have v1: "v1 = ?v\<lparr>vlog := vlog v @ replicate j (VDestroyGrp (vd_grp v), VBusy) @ [(VDestroyGrp (vd_grp v), r1)]\<rparr>" "r1 \<noteq> VBusy"
    by (simp_all add: ended_after_def)
  have s1: "run_log vdec_mon_step (vlog v1) ?st = Some \<lparr>m_mem = (if a = (0, 0) then {#} else {#a#}), m_grp = False, m_frames = 0, m_id = True\<rparr>"
    using live a ids(1) v1 by (simp add: run_replicate_busy)
  obtain q v2 where f: "free_buffer lib r1 v1 = Some (q, v2)" using d g ids by (auto simp: vdec_destroy_def split: option.splits)
  have s2: "run_log vdec_mon_step (vlog v2) ?st = Some \<lparr>m_mem = {#}, m_grp = False, m_frames = 0, m_id = True\<rparr> \<and> id_owned v2"
  proof (cases "fst a = 0")
    case True
    then have "v2 = v1" "a = (0, 0)" using f a v1 ids(5) by (auto simp: free_buffer_def split: if_splits)
    then show ?thesis using s1 v1 ids by simp
  next
    case False
    obtain b v3 where b: "vask lib (VMemFree a) v1 = (b, v3)" by fastforce
    have "v2 = (if b = VOk then v3\<lparr>buf_addr := Some (0, 0)\<rparr> else v3)"
      using f a v1 False b by (cases a) (auto simp: free_buffer_def)
    then have "vlog v2 = vlog v1 @ [(VMemFree a, b)]" "id_owned v2 = id_owned v1" using vask_log [OF b] by simp_all
    moreover have "id_owned v1" "a \<noteq> (0, 0)" using v1 ids False by auto
    ultimately show ?thesis using s1 by simp
  qed
  obtain b v3 where b: "vask lib (VReleaseId (vd_grp v)) v2 = (b, v3)" by fastforce
  have "v' = v3\<lparr>id_owned := False\<rparr>" using d g f s2 ids b by (simp add: vdec_destroy_def)
  then show ?thesis using s2 vask_log [OF b] by (simp add: vdec_mon_start_def)
qed

lemma vdec_destroy_ends:
  assumes inv: "vdec_inv acquired v" and set: "buf_addr v \<noteq> None"
    and busy: "v_answer lib (length (vlog v) + k) (VDestroyGrp (vd_grp v)) \<noteq> VBusy"
  shows "vdec_destroy lib v \<noteq> None"
proof -
  let ?v = "v\<lparr>destroyed := True\<rparr>"
  obtain r1 v1 where g: "destroy_grp lib ?v = Some (r1, v1)" using destroy_grp_ends [of lib ?v k] busy by auto
  obtain j where "ended_after j ?v (r1, v1)" using destroy_grp_log [OF g] by blast
  then have "buf_addr v1 = buf_addr v" by (simp add: ended_after_def)
  then have "free_buffer lib r1 v1 \<noteq> None"
    using set inv by (auto simp: free_buffer_def vdec_inv_def split: option.splits prod.splits)
  then show ?thesis using g inv set by (auto simp: vdec_destroy_def vdec_inv_def split: option.splits)
qed

text \<open>C33. A decoder gives back what it has taken: whatever the hardware answers, when it is destroyed after \<open>Init\<close> has
  set the buffer - \<open>Init\<close> may have failed after that - the group is destroyed before the buffer it reads, the buffer
  is freed once, frames drained are given back, the id of the group is released once, and nothing is left; and it does
  end, if the hardware does not stay busy for ever. But a decoder whose \<open>Init\<close> was never called, or found no group, has no
  defined destruction: its buffer addresses were never set.\<close>

theorem decoder_gives_back:
  assumes "vdec_reach lib acquired v" "\<forall>k. fst (v_address lib k) \<noteq> 0"
  shows "(\<forall>r v'. vdec_destroy lib v = Some (r, v') \<longrightarrow>
      run_log vdec_mon_step (vlog v') (vdec_mon_start (0 \<le> acquired)) = Some (vdec_mon_start False)) \<and>
    (buf_addr v \<noteq> None \<and> (\<exists>k. v_answer lib (length (vlog v) + k) (VDestroyGrp (vd_grp v)) \<noteq> VBusy) \<longrightarrow> vdec_destroy lib v \<noteq> None) \<and>
    (buf_addr v = None \<longrightarrow> vdec_destroy lib v = None)"
proof -
  have inv: "vdec_inv acquired v" using vdec_reach_inv assms by blast
  show ?thesis using vdec_destroy_clean [OF inv] vdec_destroy_ends [OF inv] vdec_destroy_undefined [OF inv] by blast
qed

text \<open>Hardware that is busy once, with a decoder that has a failed \<open>Init\<close> behind it.\<close>

definition demo_vdec_lib :: vdec_lib where
  "demo_vdec_lib = \<lparr>v_answer = (\<lambda>k c. case c of VSetChnAttr g a \<Rightarrow> VOther 7 | VDestroyGrp g \<Rightarrow> if k = 3 then VBusy else VOk | _ \<Rightarrow> VOk),
     v_address = (\<lambda>k. (100, 200)), v_left = (\<lambda>k. (0, 0))\<rparr>"

definition demo_vdec :: vdec where
  "demo_vdec = snd (vdec_init demo_vdec_lib (vdec_new 4 1920 1080 25))"

lemma demo_vdec_reach: "vdec_reach demo_vdec_lib 4 demo_vdec"
  unfolding demo_vdec_def by (intro vr_init vr_new) (simp add: vdec_new_def)

lemma demo_vdec_log: "map fst (vlog demo_vdec) = [VMemAlloc kBufSize (100, 200), VCreateGrp 4 (grp_attr (vdec_new 4 1920 1080 25)),
    VSetChnAttr 4 (chn_attr (vdec_new 4 1920 1080 25))]" "buf_addr demo_vdec = Some (100, 200)" "vd_grp demo_vdec = 4"
  "length (vlog demo_vdec) = 3"
  by (simp_all add: demo_vdec_def vdec_init_def vdec_new_def vask_def ask_def demo_vdec_lib_def grp_attr_def chn_attr_def Let_def)

theorem decoder_gives_back_witness:
  "vdec_destroy demo_vdec_lib demo_vdec \<noteq> None \<and>
   vdec_destroy demo_vdec_lib (vdec_new (- 1) 1920 1080 25) = None"
proof -
  have "\<forall>k. fst (v_address demo_vdec_lib k) \<noteq> 0" by (simp add: demo_vdec_lib_def)
  note g = decoder_gives_back [OF demo_vdec_reach this] and n = decoder_gives_back [OF vr_new this, of "- 1" 1920 1080 25]
  have "v_answer demo_vdec_lib (length (vlog demo_vdec) + 1) (VDestroyGrp (vd_grp demo_vdec)) \<noteq> VBusy"
    by (simp add: demo_vdec_lib_def demo_vdec_log)
  moreover have "buf_addr demo_vdec \<noteq> None" by (simp add: demo_vdec_log)
  ultimately have "vdec_destroy demo_vdec_lib demo_vdec \<noteq> None" using g by blast
  moreover have "buf_addr (vdec_new (- 1) 1920 1080 25) = None" by (simp add: vdec_new_def)
  ultimately show ?thesis using n by blast
qed

section \<open>Frames and packets\<close>

text \<open>The thread makes an image of every frame it fetches, in order, until the flag is set or an answer ends it; after the
  flag it fetches nothing.\<close>

lemma recv_stream_fetches:
  "fst (recv_stream g prev qs) =
     map (received g) (filter (\<lambda>q. r_ret q = VOk) (takeWhile (\<lambda>q. \<not> r_stop q \<and> goes_on (r_ret q)) qs)) \<and>
   (snd (recv_stream g prev qs) = StillRunning \<longleftrightarrow> list_all (\<lambda>q. \<not> r_stop q \<and> goes_on (r_ret q)) qs)"
  by (induction g prev qs rule: recv_stream.induct) (auto split: prod.splits)

text \<open>A packet that is sent fits the buffer and comes from the caller; a full queue is reported as success, though the
  packet is lost.\<close>

lemma vdec_write_sends:
  assumes "0 < n" "n \<le> kBufSize" "buf_addr v = Some (phys, vir)" "vir \<noteq> 0"
  shows "\<exists>p q. vdec_write lib (Some bs) n v = Some (if q = VQueueFull \<or> q = VNotPerm \<or> q = VNotMatch then VOk else q,
     v\<lparr>vlog := vlog v @ [(VGetPts, p), (VSendStream (vd_grp v) (Pack (take n bs)), q)]\<rparr>)"
  by (rule exI [of _ "v_answer lib (length (vlog v)) VGetPts"],
      rule exI [of _ "v_answer lib (Suc (length (vlog v))) (VSendStream (vd_grp v) (Pack (take n bs)))"])
     (use assms in \<open>simp add: vdec_write_def vask_def ask_def Let_def\<close>)

lemma vdec_write_refuses:
  "packet = None \<or> n = 0 \<or> kBufSize < n \<Longrightarrow> vdec_write lib packet n v = Some (VOther (- 1), v)"
  by (auto simp: vdec_write_def)

end
