(* ===== verification/Venc.thy ===== *)
theory Venc
  imports Hal_Calls
begin

text \<open>
  The wrapper of the hardware encoder (\<open>hal/ax/venc_helper.cpp\<close>): the life of its channel, the threads that fetch
  encoded streams, and \<open>StopEncode\<close>, whose steps interleave with theirs. The codes of the library are constructors named
  after them. The thread handle and the status of a channel are not initialised by the code: the handle is \<open>Garbage\<close>
  before a thread is made, and a status query that fails leaves what the library's \<open>e_junk\<close> says. A step is \<open>None\<close> while
  its thread waits, has ended, or has no defined next step. One thread calls the operations. Log lines are left out.
\<close>

section \<open>The library\<close>

datatype venc_ret =
    EOk | EQueueEmpty | EQueueFull | EUnexist | EFlowEnd | EBufEmpty | EBufFull | EOther int

record venc_chn_attr =
  pic_width_src :: int
  pic_height_src :: int
  max_pic_width :: int
  max_pic_height :: int
  strm_buf_size :: u32
  src_rate :: int
  dst_rate :: int
  gop :: nat
  bit_rate :: nat

datatype 'f venc_call =
    ECreateChn int venc_chn_attr | EDestroyChn int | EStartRecv int | EStopRecv int | ESendFrame int "'f option"
  | EGetStream int | ECallback int | EReleaseStream int | EQueryStatus int | EReleaseId int

record 'f venc_lib =
  e_answer :: "nat \<Rightarrow> 'f venc_call \<Rightarrow> venc_ret"
  e_left :: "nat \<Rightarrow> nat \<times> nat"
  e_junk :: "nat \<Rightarrow> nat \<times> nat"

section \<open>The state\<close>

text \<open>The handle names one of the threads made so far. A receiving thread is about to look at the flag, about to fetch, has
  fetched a stream, has passed it to the callback, or has ended, with the flag seen or after a failed release. The caller is
  outside of \<open>StopEncode\<close> or about to set the flag, to stop the channel, to join, to fetch, to release, to query.\<close>

datatype thread_handle = Garbage | Made nat | Joined

datatype recv_pos = Looking | Fetching | Holding | Passed | Ended bool

datatype stop_pos = Outside | AtFlag | AtStopRecv | AtJoin | AtGet | AtRelease | AtQuery

record 'f venc =
  e_chn :: int
  e_owned :: bool
  e_destroyed :: bool
  picture_width :: int
  picture_height :: int
  e_src_rate :: int
  e_dst_rate :: int
  e_stop :: bool
  e_thread :: thread_handle
  e_callback :: bool
  e_recvs :: "recv_pos list"
  e_main :: stop_pos
  elog :: "('f venc_call, venc_ret) hlog"

definition venc_new :: "int \<Rightarrow> int \<Rightarrow> int \<Rightarrow> int \<Rightarrow> int \<Rightarrow> 'f venc" where
  "venc_new acquired w h src dst =
     \<lparr>e_chn = (if acquired < 0 then - 1 else acquired), e_owned = (\<not> acquired < 0), e_destroyed = False, picture_width = w,
      picture_height = h, e_src_rate = src, e_dst_rate = dst, e_stop = False, e_thread = Garbage, e_callback = False, e_recvs = [],
      e_main = Outside, elog = []\<rparr>"

definition eask :: "'f venc_lib \<Rightarrow> 'f venc_call \<Rightarrow> 'f venc \<Rightarrow> venc_ret \<times> 'f venc" where
  "eask lib c v = (case ask (e_answer lib) c (elog v) of (r, tr) \<Rightarrow> (r, v\<lparr>elog := tr\<rparr>))"

section \<open>Operations\<close>

text \<open>The size of the stream buffer is computed as an \<open>int\<close>: width times height times three, halved towards zero.\<close>

definition venc_attr :: "'f venc \<Rightarrow> venc_chn_attr" where
  "venc_attr v = \<lparr>pic_width_src = picture_width v, pic_height_src = picture_height v,
     max_pic_width = align_up (picture_width v) 256, max_pic_height = align_up (picture_height v) 256,
     strm_buf_size = of_int (c_div (picture_width v * picture_height v * 3) 2),
     src_rate = e_src_rate v, dst_rate = e_dst_rate v, gop = 25, bit_rate = 8000\<rparr>"

definition venc_init :: "'f venc_lib \<Rightarrow> 'f venc \<Rightarrow> venc_ret \<times> 'f venc" where
  "venc_init lib v = (if e_chn v < 0 then (EOther (- 1), v) else eask lib (ECreateChn (e_chn v) (venc_attr v)) v)"

text \<open>\<open>Encode\<close>, with whether there is a callback and what \<open>pthread_create\<close> answers.\<close>

definition venc_encode :: "'f venc_lib \<Rightarrow> bool \<Rightarrow> int \<Rightarrow> 'f venc \<Rightarrow> venc_ret \<times> 'f venc" where
  "venc_encode lib callback made v =
     (case eask lib (EStartRecv (e_chn v)) (v\<lparr>e_callback := callback\<rparr>) of
        (r, v1) \<Rightarrow>
          if r \<noteq> EOk then (r, v1)
          else if made = 0 then (EOk, v1\<lparr>e_thread := Made (length (e_recvs v1)), e_recvs := e_recvs v1 @ [Looking]\<rparr>)
          else (EOther made, v1))"

definition venc_write :: "'f venc_lib \<Rightarrow> 'f \<Rightarrow> 'f venc \<Rightarrow> venc_ret \<times> 'f venc" where
  "venc_write lib frame v = eask lib (ESendFrame (e_chn v) (Some frame)) v"

definition venc_write_eof :: "'f venc_lib \<Rightarrow> 'f venc \<Rightarrow> venc_ret \<times> 'f venc" where
  "venc_write_eof lib v = eask lib (ESendFrame (e_chn v) None) v"

text \<open>\<open>VencRecvThreadFunc\<close> of the \<open>i\<close>th thread, one step: the look at the flag, the fetch, the callback, the release.\<close>

definition set_recv :: "nat \<Rightarrow> recv_pos \<Rightarrow> 'f venc \<Rightarrow> 'f venc" where
  "set_recv i p v = v\<lparr>e_recvs := (e_recvs v)[i := p]\<rparr>"

definition recv_step :: "'f venc_lib \<Rightarrow> nat \<Rightarrow> 'f venc \<Rightarrow> 'f venc option" where
  "recv_step lib i v =
     (case nth_opt (e_recvs v) i of
        Some Looking \<Rightarrow> Some (set_recv i (if e_stop v then Ended True else Fetching) v)
      | Some Fetching \<Rightarrow>
          (case eask lib (EGetStream (e_chn v)) v of (r, v1) \<Rightarrow> Some (set_recv i (if r = EOk then Holding else Looking) v1))
      | Some Holding \<Rightarrow>
          Some (set_recv i Passed (if e_callback v then snd (eask lib (ECallback (e_chn v)) v) else v))
      | Some Passed \<Rightarrow>
          (case eask lib (EReleaseStream (e_chn v)) v of
             (r, v1) \<Rightarrow> Some (set_recv i (if r \<noteq> EOk then Ended False else Looking) v1))
      | _ \<Rightarrow> None)"

text \<open>\<open>StopEncode\<close>: \<open>WriteEOF\<close>, then the rest in steps. The join goes on when the thread has ended, and has no defined outcome when
  there is no thread to join; the last loop ends when the status says that nothing is left.\<close>

definition stop_begin :: "'f venc_lib \<Rightarrow> 'f venc \<Rightarrow> 'f venc" where
  "stop_begin lib v = (snd (venc_write_eof lib v))\<lparr>e_main := AtFlag\<rparr>"

definition status_read :: "'f venc_lib \<Rightarrow> int \<Rightarrow> nat \<Rightarrow> nat \<times> nat" where
  "status_read lib c p = (if e_answer lib p (EQueryStatus c) = EOk then e_left lib p else e_junk lib p)"

definition stop_step :: "'f venc_lib \<Rightarrow> 'f venc \<Rightarrow> 'f venc option" where
  "stop_step lib v =
     (case e_main v of
        Outside \<Rightarrow> None
      | AtFlag \<Rightarrow> Some (v\<lparr>e_stop := True, e_main := AtStopRecv\<rparr>)
      | AtStopRecv \<Rightarrow> Some ((snd (eask lib (EStopRecv (e_chn v)) v))\<lparr>e_main := AtJoin\<rparr>)
      | AtJoin \<Rightarrow>
          (case e_thread v of
             Made k \<Rightarrow>
               (case nth_opt (e_recvs v) k of
                  Some (Ended ok) \<Rightarrow> Some (v\<lparr>e_thread := Joined, e_main := AtGet\<rparr>)
                | _ \<Rightarrow> None)
           | _ \<Rightarrow> None)
      | AtGet \<Rightarrow>
          (case eask lib (EGetStream (e_chn v)) v of
             (r, v1) \<Rightarrow> Some (v1\<lparr>e_main := (if r = EOk then AtRelease else AtQuery)\<rparr>))
      | AtRelease \<Rightarrow> Some ((snd (eask lib (EReleaseStream (e_chn v)) v))\<lparr>e_main := AtQuery\<rparr>)
      | AtQuery \<Rightarrow>
          Some ((snd (eask lib (EQueryStatus (e_chn v)) v))\<lparr>e_main :=
             (if status_read lib (e_chn v) (length (elog v)) = (0, 0) then Outside else AtGet)\<rparr>))"

definition venc_destroy :: "'f venc_lib \<Rightarrow> 'f venc \<Rightarrow> venc_ret \<times> 'f venc" where
  "venc_destroy lib v =
     (if e_destroyed v then (EOk, v)
      else
        (let v0 = v\<lparr>e_destroyed := True\<rparr>
         in case (if 0 \<le> e_chn v then eask lib (EDestroyChn (e_chn v)) v0 else (EOk, v0)) of
              (r, v1) \<Rightarrow>
                (r, if e_owned v1 then (snd (eask lib (EReleaseId (e_chn v)) v1))\<lparr>e_owned := False\<rparr> else v1)))"

section \<open>Use by one caller\<close>

text \<open>The operations are called outside of \<open>StopEncode\<close>; its steps and those of the threads come in any order.\<close>

inductive venc_reach :: "'f venc_lib \<Rightarrow> int \<Rightarrow> 'f venc \<Rightarrow> bool" for lib acquired where
  er_new: "venc_reach lib acquired (venc_new acquired w h src dst)"
| er_init: "venc_reach lib acquired v \<Longrightarrow> e_main v = Outside \<Longrightarrow> venc_reach lib acquired (snd (venc_init lib v))"
| er_encode: "venc_reach lib acquired v \<Longrightarrow> e_main v = Outside \<Longrightarrow> venc_reach lib acquired (snd (venc_encode lib cb made v))"
| er_write: "venc_reach lib acquired v \<Longrightarrow> e_main v = Outside \<Longrightarrow> venc_reach lib acquired (snd (venc_write lib f v))"
| er_begin: "venc_reach lib acquired v \<Longrightarrow> e_main v = Outside \<Longrightarrow> venc_reach lib acquired (stop_begin lib v)"
| er_stop: "venc_reach lib acquired v \<Longrightarrow> stop_step lib v = Some v' \<Longrightarrow> venc_reach lib acquired v'"
| er_recv: "venc_reach lib acquired v \<Longrightarrow> recv_step lib i v = Some v' \<Longrightarrow> venc_reach lib acquired v'"

text \<open>The monitor: a stream is passed on and released only while one is out.\<close>

record venc_mon =
  em_chn :: bool
  em_streams :: nat
  em_id :: bool

fun venc_mon_step :: "'f venc_call \<times> venc_ret \<Rightarrow> venc_mon \<Rightarrow> venc_mon option" where
  "venc_mon_step (ECreateChn g a, r) s = (if r \<noteq> EOk then Some s else Some (s\<lparr>em_chn := True\<rparr>))"
| "venc_mon_step (EDestroyChn g, r) s = Some (s\<lparr>em_chn := False\<rparr>)"
| "venc_mon_step (EGetStream g, r) s = Some (if r = EOk then s\<lparr>em_streams := em_streams s + 1\<rparr> else s)"
| "venc_mon_step (ECallback g, r) s = (if em_streams s = 0 then None else Some s)"
| "venc_mon_step (EReleaseStream g, r) s = (if em_streams s = 0 then None else Some (s\<lparr>em_streams := em_streams s - 1\<rparr>))"
| "venc_mon_step (EReleaseId g, r) s = (if em_id s then Some (s\<lparr>em_id := False\<rparr>) else None)"
| "venc_mon_step (c, r) s = Some s"

definition venc_log_at :: "int \<Rightarrow> 'f venc \<Rightarrow> bool \<Rightarrow> nat \<Rightarrow> bool" where
  "venc_log_at acquired v live n \<longleftrightarrow>
     run_log venc_mon_step (elog v) \<lparr>em_chn = False, em_streams = 0, em_id = (0 \<le> acquired)\<rparr> =
       Some \<lparr>em_chn = live, em_streams = n, em_id = (0 \<le> acquired)\<rparr>"

text \<open>The streams that threads and the caller have in hand.\<close>

definition has_stream :: "recv_pos \<Rightarrow> bool" where
  "has_stream p \<longleftrightarrow> p = Holding \<or> p = Passed"

definition streams_held :: "'f venc \<Rightarrow> nat" where
  "streams_held v = length (filter has_stream (e_recvs v)) + of_bool (e_main v = AtRelease)"

definition venc_inv :: "int \<Rightarrow> 'f venc \<Rightarrow> bool" where
  "venc_inv acquired v \<longleftrightarrow> \<not> e_destroyed v \<and> e_owned v = (0 \<le> acquired) \<and> (e_chn v < 0 \<longleftrightarrow> acquired < 0) \<and>
     (\<forall>k. e_thread v = Made k \<longrightarrow> k < length (e_recvs v)) \<and>
     (\<exists>live. venc_log_at acquired v live (streams_held v) \<and> (live \<longrightarrow> 0 \<le> acquired))"

lemma eask_log: "eask lib c v = (r, v') \<Longrightarrow> v' = v\<lparr>elog := elog v @ [(c, r)]\<rparr> \<and> r = e_answer lib (length (elog v)) c"
  by (auto simp: eask_def ask_def Let_def)

lemma eask_frame [simp]:
  "e_recvs (snd (eask lib c v)) = e_recvs v" "e_main (snd (eask lib c v)) = e_main v" "e_thread (snd (eask lib c v)) = e_thread v"
  "e_stop (snd (eask lib c v)) = e_stop v" "e_chn (snd (eask lib c v)) = e_chn v" "e_owned (snd (eask lib c v)) = e_owned v"
  "e_destroyed (snd (eask lib c v)) = e_destroyed v" "e_callback (snd (eask lib c v)) = e_callback v"
  "elog (snd (eask lib c v)) = elog v @ [(c, e_answer lib (length (elog v)) c)]"
  "fst (eask lib c v) = e_answer lib (length (elog v)) c"
  by (simp_all add: eask_def ask_def Let_def)

lemma has_stream_simps [simp]:
  "has_stream Holding" "has_stream Passed" "\<not> has_stream Looking" "\<not> has_stream Fetching" "\<not> has_stream (Ended ok)"
  by (simp_all add: has_stream_def)

lemma held_set_recv:
  "nth_opt (e_recvs v) i = Some p \<Longrightarrow>
   streams_held (set_recv i q v) + of_bool (has_stream p) = streams_held v + of_bool (has_stream q)"
  using filter_length_update [of i "e_recvs v" has_stream q]
  by (auto simp: streams_held_def set_recv_def nth_opt_Some_iff)

lemma recv_step_cases:
  assumes "recv_step lib i v = Some v'"
  obtains (look) "nth_opt (e_recvs v) i = Some Looking" "v' = set_recv i (if e_stop v then Ended True else Fetching) v"
  | (fetch) "nth_opt (e_recvs v) i = Some Fetching"
      "v' = set_recv i (if fst (eask lib (EGetStream (e_chn v)) v) = EOk then Holding else Looking) (snd (eask lib (EGetStream (e_chn v)) v))"
  | (pass) "nth_opt (e_recvs v) i = Some Holding"
      "v' = set_recv i Passed (if e_callback v then snd (eask lib (ECallback (e_chn v)) v) else v)"
  | (release) "nth_opt (e_recvs v) i = Some Passed"
      "v' = set_recv i (if fst (eask lib (EReleaseStream (e_chn v)) v) \<noteq> EOk then Ended False else Looking)
         (snd (eask lib (EReleaseStream (e_chn v)) v))"
  using assms by (auto simp: recv_step_def case_prod_beta split: option.splits recv_pos.splits)

lemma held_log_only [simp]: "streams_held (snd (eask lib c v)) = streams_held v"
  by (simp add: streams_held_def)

lemma set_recv_frame [simp]:
  "e_main (set_recv i p v) = e_main v" "e_thread (set_recv i p v) = e_thread v" "e_stop (set_recv i p v) = e_stop v"
  "e_chn (set_recv i p v) = e_chn v" "elog (set_recv i p v) = elog v" "length (e_recvs (set_recv i p v)) = length (e_recvs v)"
  "e_owned (set_recv i p v) = e_owned v" "e_destroyed (set_recv i p v) = e_destroyed v"
  "e_recvs (set_recv i p v) = (e_recvs v)[i := p]"
  by (simp_all add: set_recv_def)

text \<open>What a call does to what the monitor says.\<close>

lemma venc_log_ask:
  assumes "venc_log_at acquired v live n" "elog v' = elog v @ [(c, r)]"
    "venc_mon_step (c, r) \<lparr>em_chn = live, em_streams = n, em_id = (0 \<le> acquired)\<rparr> =
       Some \<lparr>em_chn = live', em_streams = n', em_id = (0 \<le> acquired)\<rparr>"
  shows "venc_log_at acquired v' live' n'"
  using assms by (simp add: venc_log_at_def)

lemma venc_log_same: "venc_log_at acquired v live n \<Longrightarrow> elog v' = elog v \<Longrightarrow> venc_log_at acquired v' live n"
  by (simp add: venc_log_at_def)

lemma venc_inv_step:
  assumes "venc_inv acquired v" "\<And>live. venc_log_at acquired v live (streams_held v) \<Longrightarrow> live \<longrightarrow> 0 \<le> acquired \<Longrightarrow>
      \<exists>live'. venc_log_at acquired v' live' (streams_held v') \<and> (live' \<longrightarrow> 0 \<le> acquired)"
    "e_destroyed v' = e_destroyed v" "e_owned v' = e_owned v" "e_chn v' = e_chn v"
    "\<And>k. e_thread v' = Made k \<Longrightarrow> k < length (e_recvs v') \<or> e_thread v = Made k \<and> length (e_recvs v) \<le> length (e_recvs v')"
  shows "venc_inv acquired v'"
proof -
  obtain live where "venc_log_at acquired v live (streams_held v)" "live \<longrightarrow> 0 \<le> acquired"
    using assms(1) by (auto simp: venc_inv_def)
  then obtain live' where "venc_log_at acquired v' live' (streams_held v')" "live' \<longrightarrow> 0 \<le> acquired" using assms(2) by blast
  moreover have "k < length (e_recvs v')" if "e_thread v' = Made k" for k
    using assms(6) [OF that] assms(1) by (auto simp: venc_inv_def)
  ultimately show ?thesis using assms(1,3-5) by (auto simp: venc_inv_def)
qed

text \<open>A call that the monitor lets pass, and one that takes or gives back a stream.\<close>

lemma pass_inv:
  assumes "venc_inv acquired v" "\<And>s r. em_streams s = streams_held v \<Longrightarrow> venc_mon_step (c, r) s = Some s"
  shows "venc_inv acquired (snd (eask lib c v))"
proof (rule venc_inv_step [OF assms(1)])
  fix live
  assume l: "venc_log_at acquired v live (streams_held v)" "live \<longrightarrow> 0 \<le> acquired"
  have "venc_log_at acquired (snd (eask lib c v)) live (streams_held v)"
    by (rule venc_log_ask [OF l(1)]) (simp, rule assms(2), simp)
  then show "\<exists>live'. venc_log_at acquired (snd (eask lib c v)) live' (streams_held (snd (eask lib c v))) \<and> (live' \<longrightarrow> 0 \<le> acquired)"
    using l(2) by auto
qed simp_all

lemma quiet_inv:
  "venc_inv acquired v \<Longrightarrow> elog v' = elog v \<Longrightarrow> streams_held v' = streams_held v \<Longrightarrow> e_destroyed v' = e_destroyed v \<Longrightarrow>
   e_owned v' = e_owned v \<Longrightarrow> e_chn v' = e_chn v \<Longrightarrow> length (e_recvs v') = length (e_recvs v) \<Longrightarrow>
   e_thread v' = e_thread v \<or> e_thread v' = Joined \<Longrightarrow> venc_inv acquired v'"
  by (rule venc_inv_step [of acquired v]) (auto intro: venc_log_same)

lemma fetched_inv:
  assumes "venc_inv acquired v" "elog v' = elog v @ [(EGetStream g, r)]" "streams_held v' = streams_held v + of_bool (r = EOk)"
    "e_destroyed v' = e_destroyed v" "e_owned v' = e_owned v" "e_chn v' = e_chn v" "e_thread v' = e_thread v"
    "length (e_recvs v') = length (e_recvs v)"
  shows "venc_inv acquired v'"
proof (rule venc_inv_step [OF assms(1) _ assms(4-6)])
  fix live
  assume l: "venc_log_at acquired v live (streams_held v)" "live \<longrightarrow> 0 \<le> acquired"
  have "venc_log_at acquired v' live (streams_held v')"
    by (rule venc_log_ask [OF l(1) assms(2)]) (simp add: assms(3))
  then show "\<exists>live'. venc_log_at acquired v' live' (streams_held v') \<and> (live' \<longrightarrow> 0 \<le> acquired)" using l(2) by blast
qed (use assms(7,8) in simp)

lemma released_inv:
  assumes "venc_inv acquired v" "elog v' = elog v @ [(EReleaseStream g, r)]" "Suc (streams_held v') = streams_held v"
    "e_destroyed v' = e_destroyed v" "e_owned v' = e_owned v" "e_chn v' = e_chn v" "e_thread v' = e_thread v"
    "length (e_recvs v') = length (e_recvs v)"
  shows "venc_inv acquired v'"
proof (rule venc_inv_step [OF assms(1) _ assms(4-6)])
  fix live
  assume l: "venc_log_at acquired v live (streams_held v)" "live \<longrightarrow> 0 \<le> acquired"
  have "venc_log_at acquired v' live (streams_held v')"
    by (rule venc_log_ask [OF l(1) assms(2)]) (simp flip: assms(3))
  then show "\<exists>live'. venc_log_at acquired v' live' (streams_held v') \<and> (live' \<longrightarrow> 0 \<le> acquired)" using l(2) by blast
qed (use assms(7,8) in simp)

lemma recv_step_inv:
  assumes "recv_step lib i v = Some v'" "venc_inv acquired v"
  shows "venc_inv acquired v'"
  using assms(1)
proof (cases rule: recv_step_cases)
  case look
  then show ?thesis using held_set_recv [OF look(1), of "if e_stop v then Ended True else Fetching"]
    by (intro quiet_inv [OF assms(2)]) (auto split: if_splits)
next
  case fetch
  then show ?thesis
    using held_set_recv [of "snd (eask lib (EGetStream (e_chn v)) v)" i Fetching]
    by (intro fetched_inv [OF assms(2), of v' "e_chn v" "fst (eask lib (EGetStream (e_chn v)) v)"]) auto
next
  case pass
  have held: "streams_held v \<noteq> 0"
    using pass(1) by (auto simp: streams_held_def filter_empty_conv nth_opt_Some_iff intro!: bexI [of _ Holding] dest: nth_mem)
  have "venc_inv acquired (if e_callback v then snd (eask lib (ECallback (e_chn v)) v) else v)"
    using held assms(2) by (auto intro: pass_inv)
  then show ?thesis unfolding pass(2)
    using held_set_recv [of "if e_callback v then snd (eask lib (ECallback (e_chn v)) v) else v" i Holding Passed] pass(1)
    by (rule_tac quiet_inv) (auto split: if_splits)
next
  case release
  then show ?thesis
    using held_set_recv [of "snd (eask lib (EReleaseStream (e_chn v)) v)" i Passed]
    by (intro released_inv [OF assms(2), of v' "e_chn v" "fst (eask lib (EReleaseStream (e_chn v)) v)"]) auto
qed

lemma stop_step_cases:
  assumes "stop_step lib v = Some v'"
  obtains (flag) "e_main v = AtFlag" "v' = v\<lparr>e_stop := True, e_main := AtStopRecv\<rparr>"
  | (recv) "e_main v = AtStopRecv" "v' = (snd (eask lib (EStopRecv (e_chn v)) v))\<lparr>e_main := AtJoin\<rparr>"
  | (join) k ok where "e_main v = AtJoin" "e_thread v = Made k" "nth_opt (e_recvs v) k = Some (Ended ok)"
      "v' = v\<lparr>e_thread := Joined, e_main := AtGet\<rparr>"
  | (get) "e_main v = AtGet"
      "v' = (snd (eask lib (EGetStream (e_chn v)) v))\<lparr>e_main := (if fst (eask lib (EGetStream (e_chn v)) v) = EOk then AtRelease else AtQuery)\<rparr>"
  | (release) "e_main v = AtRelease" "v' = (snd (eask lib (EReleaseStream (e_chn v)) v))\<lparr>e_main := AtQuery\<rparr>"
  | (query) "e_main v = AtQuery"
      "v' = (snd (eask lib (EQueryStatus (e_chn v)) v))\<lparr>e_main :=
         (if status_read lib (e_chn v) (length (elog v)) = (0, 0) then Outside else AtGet)\<rparr>"
  using assms unfolding stop_step_def
  by (auto simp: case_prod_beta simp del: eask_frame split: stop_pos.splits thread_handle.splits option.splits recv_pos.splits)

lemma held_main [simp]:
  "streams_held (v\<lparr>e_main := p\<rparr>) + of_bool (e_main v = AtRelease) = streams_held v + of_bool (p = AtRelease)"
  by (simp add: streams_held_def)

lemma stop_step_inv:
  assumes "stop_step lib v = Some v'" "venc_inv acquired v"
  shows "venc_inv acquired v'"
  using assms(1)
proof (cases rule: stop_step_cases)
  case flag
  then show ?thesis by (intro quiet_inv [OF assms(2)]) (simp_all add: streams_held_def)
next
  case recv
  have i: "venc_inv acquired (snd (eask lib (EStopRecv (e_chn v)) v))" by (rule pass_inv [OF assms(2)]) simp
  show ?thesis unfolding recv(2) by (rule quiet_inv [OF i]) (simp_all add: streams_held_def recv(1))
next
  case (join k ok)
  then show ?thesis by (intro quiet_inv [OF assms(2)]) (simp_all add: streams_held_def)
next
  case get
  then show ?thesis
    by (intro fetched_inv [OF assms(2), of v' "e_chn v" "fst (eask lib (EGetStream (e_chn v)) v)"]) (simp_all add: streams_held_def)
next
  case release
  then show ?thesis
    by (intro released_inv [OF assms(2), of v' "e_chn v" "fst (eask lib (EReleaseStream (e_chn v)) v)"]) (simp_all add: streams_held_def)
next
  case query
  have i: "venc_inv acquired (snd (eask lib (EQueryStatus (e_chn v)) v))" by (rule pass_inv [OF assms(2)]) simp
  show ?thesis unfolding query(2) by (rule quiet_inv [OF i]) (simp_all add: streams_held_def query(1))
qed

lemma venc_init_inv:
  assumes "venc_inv acquired v"
  shows "venc_inv acquired (snd (venc_init lib v))"
proof (cases "e_chn v < 0")
  case False
  let ?c = "ECreateChn (e_chn v) (venc_attr v)"
  have "0 \<le> acquired" using assms False by (auto simp: venc_inv_def)
  have "venc_inv acquired (snd (eask lib ?c v))"
  proof (rule venc_inv_step [OF assms])
    fix live
    assume l: "venc_log_at acquired v live (streams_held v)"
    have "\<exists>live'. venc_log_at acquired (snd (eask lib ?c v)) live' (streams_held v)"
      using venc_log_ask [OF l, of "snd (eask lib ?c v)" ?c "fst (eask lib ?c v)"]
      by (cases "fst (eask lib ?c v) = EOk") auto
    then show "\<exists>live'. venc_log_at acquired (snd (eask lib ?c v)) live' (streams_held (snd (eask lib ?c v))) \<and> (live' \<longrightarrow> 0 \<le> acquired)"
      using \<open>0 \<le> acquired\<close> by auto
  qed simp_all
  then show ?thesis using False by (simp add: venc_init_def)
qed (use assms in \<open>simp add: venc_init_def\<close>)

lemma venc_encode_inv:
  assumes "venc_inv acquired v"
  shows "venc_inv acquired (snd (venc_encode lib cb made v))"
proof -
  let ?v1 = "snd (eask lib (EStartRecv (e_chn v)) (v\<lparr>e_callback := cb\<rparr>))"
  have "venc_inv acquired (v\<lparr>e_callback := cb\<rparr>)" by (rule quiet_inv [OF assms]) (simp_all add: streams_held_def)
  then have 1: "venc_inv acquired (snd (eask lib (EStartRecv (e_chn (v\<lparr>e_callback := cb\<rparr>))) (v\<lparr>e_callback := cb\<rparr>)))"
    by (rule pass_inv) simp
  then have 1: "venc_inv acquired ?v1" by simp
  let ?v2 = "?v1\<lparr>e_thread := Made (length (e_recvs ?v1)), e_recvs := e_recvs ?v1 @ [Looking]\<rparr>"
  have "venc_inv acquired ?v2"
  proof (rule venc_inv_step [OF 1])
    fix live
    assume l: "venc_log_at acquired ?v1 live (streams_held ?v1)" "live \<longrightarrow> 0 \<le> acquired"
    have "streams_held ?v2 = streams_held ?v1" by (simp add: streams_held_def)
    then have "venc_log_at acquired ?v2 live (streams_held ?v2)" using venc_log_same [OF l(1), of ?v2] by simp
    then show "\<exists>live'. venc_log_at acquired ?v2 live' (streams_held ?v2) \<and> (live' \<longrightarrow> 0 \<le> acquired)" using l(2) by blast
  qed auto
  then show ?thesis using 1 by (auto simp: venc_encode_def case_prod_beta simp del: eask_frame)
qed

lemma send_inv: "venc_inv acquired v \<Longrightarrow> venc_inv acquired (snd (eask lib (ESendFrame (e_chn v) f) v))"
  by (erule pass_inv) simp

lemma stop_begin_inv: "venc_inv acquired v \<Longrightarrow> e_main v = Outside \<Longrightarrow> venc_inv acquired (stop_begin lib v)"
  unfolding stop_begin_def venc_write_eof_def
  by (rule quiet_inv [OF send_inv [of acquired v lib None]]) (simp_all add: streams_held_def)

lemma venc_reach_inv: "venc_reach lib acquired v \<Longrightarrow> venc_inv acquired v"
proof (induction rule: venc_reach.induct)
  case (er_new w h src dst)
  then show ?case by (auto simp: venc_new_def venc_inv_def venc_log_at_def streams_held_def)
next
  case (er_write v f)
  then show ?case unfolding venc_write_def by (blast intro: send_inv)
qed (blast intro: venc_init_inv venc_encode_inv stop_begin_inv stop_step_inv recv_step_inv)+

text \<open>However an encoder is used, once destroyed its channel is gone and its id is released, once; the streams that are out are those
  that a receiving thread still holds, for the destructor neither stops the threads nor waits for them.\<close>

lemma encoder_gives_back:
  assumes "venc_reach lib acquired v" "e_main v = Outside"
  shows "run_log venc_mon_step (elog (snd (venc_destroy lib v))) \<lparr>em_chn = False, em_streams = 0, em_id = (0 \<le> acquired)\<rparr> =
    Some \<lparr>em_chn = False, em_streams = length (filter has_stream (e_recvs v)), em_id = False\<rparr>"
proof -
  have inv: "venc_inv acquired v" by (rule venc_reach_inv [OF assms(1)])
  show ?thesis
    using inv assms(2) by (auto simp: venc_destroy_def venc_inv_def venc_log_at_def streams_held_def eask_def ask_def Let_def)
qed

lemma encode_never_lowers_stop: "e_stop (snd (venc_encode lib cb made v)) = e_stop v"
  by (simp add: venc_encode_def eask_def ask_def Let_def)

text \<open>So the thread of an \<open>Encode\<close> after a \<open>StopEncode\<close> ends at its first look and fetches nothing.\<close>

lemma second_thread_ends:
  "e_stop v \<Longrightarrow> nth_opt (e_recvs v) i = Some Looking \<Longrightarrow> recv_step lib i v = Some (set_recv i (Ended True) v)"
  by (simp add: recv_step_def)

section \<open>StopEncode under a schedule\<close>

datatype actor = Caller | Receiver nat

definition act :: "'f venc_lib \<Rightarrow> actor \<Rightarrow> 'f venc \<Rightarrow> 'f venc" where
  "act lib a v =
     (case (case a of Caller \<Rightarrow> stop_step lib v | Receiver i \<Rightarrow> recv_step lib i v) of None \<Rightarrow> v | Some v' \<Rightarrow> v')"

fun stop_run :: "'f venc_lib \<Rightarrow> (nat \<Rightarrow> actor) \<Rightarrow> 'f venc \<Rightarrow> nat \<Rightarrow> 'f venc" where
  "stop_run lib sched v 0 = v"
| "stop_run lib sched v (Suc n) = act lib (sched n) (stop_run lib sched v n)"

text \<open>A schedule that never forgets an actor, and a library that from its \<open>N\<close>th call on has nothing left.\<close>

definition always_again :: "(nat \<Rightarrow> actor) \<Rightarrow> actor \<Rightarrow> bool" where
  "always_again sched a \<longleftrightarrow> (\<forall>n. \<exists>m\<ge>n. sched m = a)"

definition nothing_left_from :: "'f venc_lib \<Rightarrow> int \<Rightarrow> nat \<Rightarrow> bool" where
  "nothing_left_from lib c N \<longleftrightarrow> (\<forall>p\<ge>N. status_read lib c p = (0, 0))"

lemma act_reach: "venc_reach lib acquired v \<Longrightarrow> venc_reach lib acquired (act lib a v)"
  by (auto simp: act_def split: option.splits actor.splits intro: er_stop er_recv)

lemma stop_run_reach: "venc_reach lib acquired v \<Longrightarrow> venc_reach lib acquired (stop_run lib sched v n)"
  by (induction n) (auto intro: act_reach)

lemma act_receiver:
  "act lib (Receiver i) v = v \<or> recv_step lib i v = Some (act lib (Receiver i) v)"
  by (auto simp: act_def split: option.splits)

text \<open>What the receiving threads leave alone.\<close>

lemma recv_step_frame:
  assumes "recv_step lib i v = Some v'"
  shows "e_main v' = e_main v" "e_thread v' = e_thread v" "e_stop v' = e_stop v" "e_chn v' = e_chn v"
    "length (e_recvs v') = length (e_recvs v)" "j \<noteq> i \<Longrightarrow> e_recvs v' ! j = e_recvs v ! j"
    "\<exists>es. elog v' = elog v @ es" "e_recvs v ! i \<noteq> Ended ok"
  using assms by (cases rule: recv_step_cases; auto simp: nth_opt_Some_iff split: if_splits)+

lemma act_receiver_frame:
  shows "e_main (act lib (Receiver i) v) = e_main v" "e_thread (act lib (Receiver i) v) = e_thread v"
    "e_stop (act lib (Receiver i) v) = e_stop v" "e_chn (act lib (Receiver i) v) = e_chn v"
    "length (e_recvs (act lib (Receiver i) v)) = length (e_recvs v)"
    "j \<noteq> i \<Longrightarrow> e_recvs (act lib (Receiver i) v) ! j = e_recvs v ! j"
    "\<exists>es. elog (act lib (Receiver i) v) = elog v @ es"
    "e_recvs v ! j = Ended ok \<Longrightarrow> e_recvs (act lib (Receiver i) v) ! j = Ended ok"
  using act_receiver [of lib i v] recv_step_frame [of lib i v "act lib (Receiver i) v"]
  by (metis append_Nil2)+

lemma stop_step_frame:
  assumes "stop_step lib v = Some v'"
  shows "e_chn v' = e_chn v" "e_recvs v' = e_recvs v" "\<exists>es. elog v' = elog v @ es" "e_stop v \<Longrightarrow> e_stop v'"
  using assms by (cases rule: stop_step_cases; auto)+

lemma act_frame:
  shows "e_chn (act lib a v) = e_chn v" "length (e_recvs (act lib a v)) = length (e_recvs v)"
    "\<exists>es. elog (act lib a v) = elog v @ es" "e_stop v \<Longrightarrow> e_stop (act lib a v)"
    "e_recvs v ! k = Ended ok \<Longrightarrow> e_recvs (act lib a v) ! k = Ended ok"
proof -
  consider i where "a = Receiver i" | "a = Caller" "stop_step lib v = None" | v' where "a = Caller" "stop_step lib v = Some v'"
    by (cases a; cases "stop_step lib v") auto
  then have "e_chn (act lib a v) = e_chn v \<and> length (e_recvs (act lib a v)) = length (e_recvs v) \<and>
    (\<exists>es. elog (act lib a v) = elog v @ es) \<and> (e_stop v \<longrightarrow> e_stop (act lib a v)) \<and>
    (e_recvs v ! k = Ended ok \<longrightarrow> e_recvs (act lib a v) ! k = Ended ok)"
  proof cases
    case 1
    then show ?thesis using act_receiver_frame [where lib = lib and v = v] by simp
  next
    case 2
    then show ?thesis by (simp add: act_def)
  next
    case 3
    then show ?thesis using stop_step_frame [OF 3(2)] by (simp add: act_def)
  qed
  then show "e_chn (act lib a v) = e_chn v" "length (e_recvs (act lib a v)) = length (e_recvs v)"
    "\<exists>es. elog (act lib a v) = elog v @ es" "e_stop v \<Longrightarrow> e_stop (act lib a v)"
    "e_recvs v ! k = Ended ok \<Longrightarrow> e_recvs (act lib a v) ! k = Ended ok" by blast+
qed

text \<open>What holds while \<open>StopEncode\<close>, called in state \<open>v\<close>, runs.\<close>

definition stop_inv :: "'f venc_lib \<Rightarrow> 'f venc \<Rightarrow> 'f venc \<Rightarrow> bool" where
  "stop_inv lib v u \<longleftrightarrow>
     e_chn u = e_chn v \<and> length (e_recvs u) = length (e_recvs v) \<and> length (elog v) \<le> length (elog u) \<and>
     (e_main u \<in> {AtFlag, AtStopRecv, AtJoin} \<longrightarrow> e_thread u = e_thread v) \<and>
     (e_main u \<noteq> AtFlag \<longrightarrow> e_stop u) \<and>
     (e_main u \<in> {AtGet, AtRelease, AtQuery, Outside} \<longrightarrow>
        e_thread u = Joined \<and> (\<exists>k ok. e_thread v = Made k \<and> e_recvs u ! k = Ended ok)) \<and>
     (e_main u = Outside \<longrightarrow>
        (\<exists>p. length (elog v) \<le> p \<and> p < length (elog u) \<and> fst (elog u ! p) = EQueryStatus (e_chn v) \<and>
           status_read lib (e_chn v) p = (0, 0)))"

lemma stop_begin_ok: "stop_inv lib v (stop_begin lib v)"
  by (simp add: stop_inv_def stop_begin_def venc_write_eof_def)

lemma stop_inv_outside:
  "stop_inv lib v u \<Longrightarrow> e_main u = Outside \<Longrightarrow>
   \<exists>p. length (elog v) \<le> p \<and> p < length (elog u) \<and> fst (elog u ! p) = EQueryStatus (e_chn v) \<and> status_read lib (e_chn v) p = (0, 0)"
  by (simp add: stop_inv_def)

lemma stop_inv_joined:
  "stop_inv lib v u \<Longrightarrow> e_main u \<in> {AtGet, AtRelease, AtQuery, Outside} \<Longrightarrow>
   e_thread u = Joined \<and> (\<exists>k ok. e_thread v = Made k \<and> e_recvs u ! k = Ended ok)"
  unfolding stop_inv_def by blast

lemma stop_inv_receiver: "stop_inv lib v u \<Longrightarrow> stop_inv lib v (act lib (Receiver i) u)"
proof -
  assume u: "stop_inv lib v u"
  obtain es where es: "elog (act lib (Receiver i) u) = elog u @ es" using act_receiver_frame(7) [of lib i u] by blast
  have grown: "\<exists>p. length (elog v) \<le> p \<and> p < length (elog (act lib (Receiver i) u)) \<and>
      fst (elog (act lib (Receiver i) u) ! p) = EQueryStatus (e_chn v) \<and> status_read lib (e_chn v) p = (0, 0)"
    if out: "e_main u = Outside"
  proof -
    obtain p where "length (elog v) \<le> p" "p < length (elog u)" "fst (elog u ! p) = EQueryStatus (e_chn v)" "status_read lib (e_chn v) p = (0, 0)"
      using stop_inv_outside [OF u out] by blast
    then show ?thesis by (intro exI [of _ p]) (simp add: es nth_append)
  qed
  have ended: "\<exists>k ok. e_thread v = Made k \<and> e_recvs (act lib (Receiver i) u) ! k = Ended ok"
    if late: "e_main u \<in> {AtGet, AtRelease, AtQuery, Outside}"
  proof -
    obtain k ok where "e_thread v = Made k" "e_recvs u ! k = Ended ok" using stop_inv_joined [OF u late] by blast
    then show ?thesis using act_receiver_frame(8) [of u k ok lib i] by blast
  qed
  have "length (elog v) \<le> length (elog (act lib (Receiver i) u))" using u es by (simp add: stop_inv_def)
  moreover have "e_main u \<noteq> AtFlag \<longrightarrow> e_stop u" "e_chn u = e_chn v" "length (e_recvs u) = length (e_recvs v)"
    "e_main u \<in> {AtFlag, AtStopRecv, AtJoin} \<longrightarrow> e_thread u = e_thread v"
    "e_main u \<in> {AtGet, AtRelease, AtQuery, Outside} \<longrightarrow> e_thread u = Joined"
    using u by (simp_all add: stop_inv_def)
  ultimately show ?thesis
    using grown ended unfolding stop_inv_def act_receiver_frame(1-5) [of lib i u] by blast
qed

lemma stop_inv_caller:
  assumes "stop_inv lib v u" "stop_step lib u = Some u'"
  shows "stop_inv lib v u'"
  using assms(2)
proof (cases rule: stop_step_cases)
  case (join k ok)
  have "e_thread v = Made k" using assms(1) join by (simp add: stop_inv_def)
  then show ?thesis using join assms(1) by (auto simp: stop_inv_def nth_opt_Some_iff)
next
  case query
  let ?p = "length (elog u)"
  have c: "e_chn u = e_chn v" "length (elog v) \<le> ?p" using assms(1) by (simp_all add: stop_inv_def)
  show ?thesis
  proof (cases "status_read lib (e_chn u) ?p = (0, 0)")
    case True
    then have "\<exists>p. length (elog v) \<le> p \<and> p < length (elog u') \<and> fst (elog u' ! p) = EQueryStatus (e_chn v) \<and>
        status_read lib (e_chn v) p = (0, 0)"
      using c query by (intro exI [of _ ?p]) simp
    then show ?thesis using assms(1) query True by (simp add: stop_inv_def)
  next
    case False
    then show ?thesis using assms(1) query by (simp add: stop_inv_def)
  qed
qed (use assms(1) in \<open>auto simp: stop_inv_def\<close>)

lemma stop_inv_act: "stop_inv lib v u \<Longrightarrow> stop_inv lib v (act lib a u)"
proof (cases a)
  case Caller
  then show "stop_inv lib v u \<Longrightarrow> ?thesis" using stop_inv_caller [of lib v u]
    by (cases "stop_step lib u") (simp_all add: act_def)
qed (simp add: stop_inv_receiver)

lemma stop_run_inv: "stop_inv lib v (stop_run lib sched (stop_begin lib v) n)"
  by (induction n) (simp_all add: stop_begin_ok stop_inv_act)

text \<open>How far the caller is from the end when nothing is left from the \<open>N\<close>th call on, and how far a thread is from its end
  when the flag is set.\<close>

fun stop_weight :: "stop_pos \<Rightarrow> nat" where
  "stop_weight Outside = 0"
| "stop_weight AtQuery = 1"
| "stop_weight AtRelease = 2"
| "stop_weight AtGet = 3"
| "stop_weight AtJoin = 4"
| "stop_weight AtStopRecv = 5"
| "stop_weight AtFlag = 6"

definition caller_rank :: "nat \<Rightarrow> 'f venc \<Rightarrow> nat" where
  "caller_rank N u = (if e_main u = Outside then 0 else 3 * (N - length (elog u)) + stop_weight (e_main u))"

fun recv_weight :: "recv_pos \<Rightarrow> nat" where
  "recv_weight (Ended ok) = 0"
| "recv_weight Looking = 1"
| "recv_weight Passed = 2"
| "recv_weight Holding = 3"
| "recv_weight Fetching = 4"

lemma recv_weight_0: "recv_weight p = 0 \<longleftrightarrow> (\<exists>ok. p = Ended ok)"
  by (cases p) auto

lemma caller_rank_receiver: "caller_rank N (act lib (Receiver i) u) \<le> caller_rank N u"
proof -
  obtain es where "elog (act lib (Receiver i) u) = elog u @ es" using act_receiver_frame(7) [of lib i u] by blast
  then show ?thesis using act_receiver_frame(1) [of lib i u] by (simp add: caller_rank_def diff_le_mono2)
qed

lemma caller_rank_step:
  assumes "stop_step lib u = Some u'" "nothing_left_from lib (e_chn u) N"
  shows "caller_rank N u' < caller_rank N u"
  using assms(1)
proof (cases rule: stop_step_cases)
  case query
  show ?thesis
  proof (cases "status_read lib (e_chn u) (length (elog u)) = (0, 0)")
    case False
    then have "length (elog u) < N" using assms(2) unfolding nothing_left_from_def by (meson not_le)
    then show ?thesis using query False by (simp add: caller_rank_def)
  qed (use query in \<open>simp add: caller_rank_def\<close>)
qed (auto simp: caller_rank_def)

lemma recv_step_weight:
  "recv_step lib k u = Some u' \<Longrightarrow> e_stop u \<Longrightarrow> recv_weight (e_recvs u' ! k) < recv_weight (e_recvs u ! k)"
  by (erule recv_step_cases) (auto simp: nth_opt_Some_iff)

lemma recv_step_goes_on:
  "k < length (e_recvs u) \<Longrightarrow> recv_weight (e_recvs u ! k) \<noteq> 0 \<Longrightarrow> recv_step lib k u \<noteq> None"
  by (cases "e_recvs u ! k") (auto simp: recv_step_def nth_opt_def split: prod.splits)

text \<open>An actor that is never forgotten acts while what nobody else breaks still holds.\<close>

lemma acts_at_last:
  assumes "always_again sched a" "P (stop_run lib sched v n)"
    "\<And>u b. P u \<Longrightarrow> b \<noteq> a \<Longrightarrow> P (act lib b u)"
  shows "\<exists>m\<ge>n. sched m = a \<and> P (stop_run lib sched v m)"
proof -
  define m where "m = (LEAST m. n \<le> m \<and> sched m = a)"
  have m: "n \<le> m" "sched m = a"
    using LeastI_ex [of "\<lambda>m. n \<le> m \<and> sched m = a"] assms(1) by (auto simp: m_def always_again_def)
  have before: "sched j \<noteq> a" if "n \<le> j" "j < m" for j
    using not_less_Least [of j "\<lambda>m. n \<le> m \<and> sched m = a"] that by (auto simp: m_def)
  have "P (stop_run lib sched v (n + d))" if "n + d \<le> m" for d
    using that
  proof (induction d)
    case (Suc d)
    then show ?case using assms(3) before [of "n + d"] by simp
  qed (simp add: assms(2))
  from this [of "m - n"] show ?thesis using m by auto
qed

text \<open>Each position is left in the end, closer to the return.\<close>

lemma caller_leaves:
  assumes "always_again sched Caller" "nothing_left_from lib c N"
    "u = stop_run lib sched v n" "e_chn u = c" "e_main u \<noteq> Outside"
    "e_main u = AtJoin \<Longrightarrow> e_thread u = Made k \<and> k < length (e_recvs u) \<and> recv_weight (e_recvs u ! k) = 0"
  shows "\<exists>m. caller_rank N (stop_run lib sched v m) < caller_rank N u"
proof -
  let ?P = "\<lambda>w. e_chn w = c \<and> e_main w = e_main u \<and> e_thread w = e_thread u \<and> length (e_recvs w) = length (e_recvs u) \<and>
      (e_main u = AtJoin \<longrightarrow> recv_weight (e_recvs w ! k) = 0) \<and> caller_rank N w \<le> caller_rank N u"
  have keep: "?P (act lib b w)" if w: "?P w" "b \<noteq> Caller" for b w
  proof -
    obtain i where b: "b = Receiver i" using w(2) by (cases b) auto
    have "recv_weight (e_recvs (act lib b w) ! k) = 0" if j: "e_main u = AtJoin"
    proof -
      obtain ok where "e_recvs w ! k = Ended ok" using w(1) j by (auto simp: recv_weight_0)
      then show ?thesis using act_receiver_frame(8) [of w k ok lib i] b by simp
    qed
    then show ?thesis using w(1) act_receiver_frame(1-5) [of lib i w] caller_rank_receiver [of N lib i w] b by auto
  qed
  obtain m where m: "sched m = Caller" "?P (stop_run lib sched v m)"
    using acts_at_last [OF assms(1), of ?P lib v n] keep assms(3-6) by auto
  let ?w = "stop_run lib sched v m"
  have "stop_step lib ?w \<noteq> None"
    using m(2) assms(5,6)
    by (cases "e_main u") (auto simp: stop_step_def nth_opt_def recv_weight_0 split: prod.splits)
  then obtain w' where w': "stop_step lib ?w = Some w'" by blast
  then have "stop_run lib sched v (Suc m) = w'" using m(1) by (simp add: act_def)
  moreover have "caller_rank N w' < caller_rank N ?w" using caller_rank_step [OF w'] assms(2) m(2) by simp
  ultimately show ?thesis using m(2) by (intro exI [of _ "Suc m"]) simp
qed

lemma thread_ends:
  assumes "always_again sched (Receiver k)"
    "u = stop_run lib sched v n" "e_main u = AtJoin" "e_stop u" "e_thread u = Made k" "k < length (e_recvs u)"
  shows "\<exists>m. let w = stop_run lib sched v m in
    e_main w = AtJoin \<and> e_thread w = Made k \<and> e_stop w \<and> length (e_recvs w) = length (e_recvs u) \<and> e_chn w = e_chn u \<and>
    recv_weight (e_recvs w ! k) = 0 \<and> caller_rank N w \<le> caller_rank N u"
  using assms
proof (induction "recv_weight (e_recvs u ! k)" arbitrary: u n rule: less_induct)
  case less
  show ?case
  proof (cases "recv_weight (e_recvs u ! k) = 0")
    case True
    then show ?thesis using less.prems by (intro exI [of _ n]) (simp add: Let_def)
  next
    case False
    let ?P = "\<lambda>w. e_main w = AtJoin \<and> e_thread w = Made k \<and> e_stop w \<and> length (e_recvs w) = length (e_recvs u) \<and>
      e_chn w = e_chn u \<and> e_recvs w ! k = e_recvs u ! k \<and> caller_rank N w \<le> caller_rank N u"
    have keep: "?P (act lib b w)" if w: "?P w" "b \<noteq> Receiver k" for b w
    proof (cases b)
      case Caller
      have "nth_opt (e_recvs w) k = Some (e_recvs u ! k)" using w(1) less.prems(6) by (simp add: nth_opt_Some_iff)
      then have "stop_step lib w = None"
        using w(1) False by (cases "e_recvs u ! k") (simp_all add: stop_step_def)
      then show ?thesis using w(1) Caller by (simp add: act_def)
    next
      case (Receiver i)
      then have "k \<noteq> i" using w(2) by auto
      then show ?thesis
        using w(1) Receiver act_receiver_frame(1-5) [of lib i w] act_receiver_frame(6) [of k i lib w] caller_rank_receiver [of N lib i w]
        by auto
    qed
    obtain m where m: "sched m = Receiver k" "?P (stop_run lib sched v m)"
      using acts_at_last [OF less.prems(1), of ?P lib v n] keep less.prems(2-6) by auto
    let ?w = "stop_run lib sched v m" and ?w' = "stop_run lib sched v (Suc m)"
    have "recv_step lib k ?w \<noteq> None" using recv_step_goes_on [of k ?w lib] m(2) less.prems(6) False by simp
    then have w': "recv_step lib k ?w = Some ?w'" using m(1) by (auto simp: act_def)
    have "recv_weight (e_recvs ?w' ! k) < recv_weight (e_recvs u ! k)" using recv_step_weight [OF w'] m(2) by simp
    moreover have f: "e_main ?w' = AtJoin" "e_thread ?w' = Made k" "e_stop ?w'" "length (e_recvs ?w') = length (e_recvs u)"
        "e_chn ?w' = e_chn u"
      using recv_step_frame(1-5) [OF w'] m(2) by simp_all
    moreover have "caller_rank N ?w' \<le> caller_rank N u"
      using caller_rank_receiver [of N lib k ?w] m by (simp del: split_paired_Ex)
    ultimately obtain m' where "let w = stop_run lib sched v m' in
        e_main w = AtJoin \<and> e_thread w = Made k \<and> e_stop w \<and> length (e_recvs w) = length (e_recvs ?w') \<and> e_chn w = e_chn ?w' \<and>
        recv_weight (e_recvs w ! k) = 0 \<and> caller_rank N w \<le> caller_rank N ?w'"
      using less.hyps [of ?w' "Suc m"] less.prems(1,6) by auto
    then show ?thesis using f \<open>caller_rank N ?w' \<le> caller_rank N u\<close>
      by (intro exI [of _ m']) (simp add: Let_def del: stop_run.simps)
  qed
qed

lemma stop_returns:
  assumes "always_again sched Caller" "always_again sched (Receiver k)" "nothing_left_from lib (e_chn v) N"
    "e_thread v = Made k" "k < length (e_recvs v)"
  shows "\<exists>n. e_main (stop_run lib sched (stop_begin lib v) n) = Outside"
proof -
  let ?run = "stop_run lib sched (stop_begin lib v)"
  have "\<exists>n. e_main (?run n) = Outside" for n0 :: nat
  proof (induction "caller_rank N (?run n0)" arbitrary: n0 rule: less_induct)
    case less
    have i: "stop_inv lib v (?run m)" for m by (rule stop_run_inv)
    have c: "e_chn (?run m) = e_chn v" "length (e_recvs (?run m)) = length (e_recvs v)" for m
      using i [of m] by (simp_all add: stop_inv_def)
    show ?case
    proof (cases "e_main (?run n0) = Outside")
      case False
      have "\<exists>m. caller_rank N (?run m) < caller_rank N (?run n0)"
      proof (cases "e_main (?run n0) = AtJoin")
        case True
        have "e_stop (?run n0)" "e_thread (?run n0) = Made k" using i [of n0] True assms(4) by (simp_all add: stop_inv_def)
        then obtain m1 where m1: "e_main (?run m1) = AtJoin" "e_thread (?run m1) = Made k" "recv_weight (e_recvs (?run m1) ! k) = 0"
            "caller_rank N (?run m1) \<le> caller_rank N (?run n0)"
          using thread_ends [OF assms(2) refl True, of N] assms(5) c by (auto simp: Let_def)
        obtain m where "caller_rank N (?run m) < caller_rank N (?run m1)"
          using caller_leaves [OF assms(1,3) refl c(1), where n = m1 and k = k] m1(1-3) assms(5) c(2) by auto
        then show ?thesis using m1(4) by (blast intro: less_le_trans)
      qed (use caller_leaves [OF assms(1,3) refl c(1) False] in blast)
      then show ?thesis using less by blast
    qed blast
  qed
  then show ?thesis by blast
qed

text \<open>What it comes to: hardware that always reports something left, or a query that keeps failing over a status that was never
  set, keeps the caller in the loop for ever; and without a thread to join there is no return that is defined.\<close>

lemma stop_encode_can_hang:
  assumes "\<And>p. status_read lib (e_chn v) p \<noteq> (0, 0)"
  shows "e_main (stop_run lib sched (stop_begin lib v) n) \<noteq> Outside"
  using stop_inv_outside [OF stop_run_inv] assms by blast

lemma stop_without_thread:
  assumes "e_thread v = Garbage \<or> e_thread v = Joined"
  shows "e_main (stop_run lib sched (stop_begin lib v) n) \<noteq> Outside"
  using stop_inv_joined [OF stop_run_inv, of lib sched v n] assms by auto

text \<open>C40. \<open>StopEncode\<close>, called on an encoder however used before and run in any interleaving with the receiving threads. It returns
  whenever a thread was made and not yet joined, neither the caller nor that thread is forgotten by the scheduler, and the
  hardware has nothing left from some call on: the flag it sets makes the thread end, so that the join goes on. It returns only
  so: when it does, the flag is set, the thread that the handle named has ended and the handle is joined, and a status query
  made after the call read that nothing is left - there is no other way out of its last loop, and no bound on it. At every
  moment the calls made so far are in order, and the streams fetched but not yet given back are those that a thread or the
  drain has in hand.\<close>

theorem stop_encode_ends:
  assumes "venc_reach lib acquired v" "e_main v = Outside"
  shows "(e_thread v = Made k \<and> always_again sched Caller \<and> always_again sched (Receiver k) \<and> nothing_left_from lib (e_chn v) N \<longrightarrow>
      (\<exists>n. e_main (stop_run lib sched (stop_begin lib v) n) = Outside)) \<and>
    (let u = stop_run lib sched (stop_begin lib v) n in
      (e_main u = Outside \<longrightarrow> e_stop u \<and> e_thread u = Joined \<and> (\<exists>k ok. e_thread v = Made k \<and> e_recvs u ! k = Ended ok) \<and>
        (\<exists>p. length (elog v) \<le> p \<and> p < length (elog u) \<and> fst (elog u ! p) = EQueryStatus (e_chn v) \<and>
           status_read lib (e_chn v) p = (0, 0))) \<and>
      (\<exists>live. run_log venc_mon_step (elog u) \<lparr>em_chn = False, em_streams = 0, em_id = (0 \<le> acquired)\<rparr> =
         Some \<lparr>em_chn = live, em_streams = streams_held u, em_id = (0 \<le> acquired)\<rparr>))"
proof -
  let ?u = "stop_run lib sched (stop_begin lib v) n"
  have v: "venc_inv acquired v" by (rule venc_reach_inv [OF assms(1)])
  have "venc_inv acquired ?u" by (rule venc_reach_inv [OF stop_run_reach [OF er_begin [OF assms]]])
  moreover have "stop_inv lib v ?u" by (rule stop_run_inv)
  moreover have "e_thread v = Made k \<Longrightarrow> k < length (e_recvs v)" using v by (simp add: venc_inv_def)
  moreover have "\<exists>live. venc_log_at acquired w live (streams_held w)" if "venc_inv acquired w" for w :: "'a venc"
    using that unfolding venc_inv_def by blast
  moreover have "e_stop w" if "stop_inv lib v w" "e_main w = Outside" for w using that by (simp add: stop_inv_def)
  ultimately show ?thesis
    unfolding Let_def venc_log_at_def [symmetric]
    using stop_returns [of sched k lib v N] stop_inv_outside [of lib v ?u] stop_inv_joined [of lib v ?u] by blast
qed

text \<open>An encoder whose thread has a stream in hand when the caller stops it, under a schedule that alternates.\<close>

definition demo_venc_lib :: "nat venc_lib" where
  "demo_venc_lib = \<lparr>e_answer = (\<lambda>k c. case c of EGetStream g \<Rightarrow> if k < 4 then EOk else EQueueEmpty | _ \<Rightarrow> EOk),
     e_left = (\<lambda>k. if k < 12 then (1, 0) else (0, 0)), e_junk = (\<lambda>k. (1, 1))\<rparr>"

definition demo_encoding :: "nat venc" where
  "demo_encoding =
     (let w = (\<lambda>v. the (recv_step demo_venc_lib 0 v))
      in w (w (snd (venc_encode demo_venc_lib True 0 (snd (venc_init demo_venc_lib (venc_new 3 640 480 25 25)))))))"

definition demo_sched :: "nat \<Rightarrow> actor" where
  "demo_sched n = (if even n then Caller else Receiver 0)"

lemmas demo_venc_simps = recv_step_def venc_encode_def venc_init_def venc_new_def demo_venc_lib_def eask_def ask_def Let_def
  set_recv_def nth_opt_def

lemma demo_encoding_reach: "venc_reach demo_venc_lib 3 demo_encoding"
proof -
  define v where "v = snd (venc_encode demo_venc_lib True 0 (snd (venc_init demo_venc_lib (venc_new 3 640 480 25 25))))"
  have v: "venc_reach demo_venc_lib 3 v"
    unfolding v_def by (intro er_encode er_init er_new) (simp_all add: venc_new_def venc_init_def)
  have "recv_step demo_venc_lib 0 v \<noteq> None" "recv_step demo_venc_lib 0 (the (recv_step demo_venc_lib 0 v)) \<noteq> None"
    unfolding v_def by (simp_all add: demo_venc_simps)
  then show ?thesis unfolding demo_encoding_def Let_def v_def [symmetric] by (metis v er_recv option.collapse)
qed

theorem stop_encode_ends_witness:
  "\<exists>n. e_main (stop_run demo_venc_lib demo_sched (stop_begin demo_venc_lib demo_encoding) n) = Outside"
proof -
  have s: "e_main demo_encoding = Outside" "e_thread demo_encoding = Made 0" "e_chn demo_encoding = 3"
    by (simp_all add: demo_encoding_def demo_venc_simps)
  have "always_again demo_sched Caller"
    unfolding always_again_def demo_sched_def by (metis dvd_triv_left le_add2 mult_2)
  moreover have "always_again demo_sched (Receiver 0)"
    unfolding always_again_def demo_sched_def
    by (metis actor.distinct(1) even_Suc even_mult_iff dvd_triv_left le_Suc_eq le_add2 mult_2)
  moreover have "nothing_left_from demo_venc_lib 3 12"
    by (simp add: nothing_left_from_def status_read_def demo_venc_lib_def)
  ultimately show ?thesis
    using stop_encode_ends [OF demo_encoding_reach s(1), of 0 demo_sched 12 0] s(2,3) by simp
qed

end
