(* ===== verification/Ivps.thy ===== *)
theory Ivps
  imports Hal_Calls Frames
begin

text \<open>
  The wrapper of the hardware scaler (\<open>hal/ax/ivps_helper.cpp\<close>): its memory pool, its group with one channel, the four
  settings and the processing of a frame. The answer of a library call is a number, zero for success; a pool or a block
  that cannot be had is \<open>None\<close>. The attributes of the pipeline are \<open>None\<close> until the first setting: the class does not
  initialise them. Log lines are left out.
\<close>

section \<open>The library\<close>

datatype aspect_ratio = RatioUnset | RatioStretch | RatioManual | RatioAuto

text \<open>What the settings fill in of the one filter: all else is zero or a constant.\<close>

record filter_attr =
  crop_rect :: "(int \<times> int \<times> int \<times> int) option"
  dst_width :: int
  dst_height :: int
  dst_stride :: int
  dst_format :: img_format
  aspect :: aspect_ratio

datatype ivps_call =
    ICreatePool "nat option" | IDestroyPool nat | IGetBlock nat "int option" | IReleaseBlock int
  | ICreateGrp int | IDestroyGrp int | ISetPipeline int filter_attr | ISetPool int nat nat
  | IEnableChn int nat | IDisableChn int nat | IStartGrp int | IStopGrp int
  | ISendFrame int | IGetFrame int nat | IReleaseId int

record ivps_lib =
  i_answer :: "nat \<Rightarrow> ivps_call \<Rightarrow> int"
  i_pool :: "nat \<Rightarrow> nat option"
  i_block :: "nat \<Rightarrow> int option"
  i_frame :: "nat \<Rightarrow> video_frame"
  i_end_of_stream :: "nat \<Rightarrow> bool"

section \<open>The state\<close>

record ivps =
  ivps_grp :: int
  i_owned :: bool
  blk_cnt :: nat
  pipeline :: "filter_attr option"
  pool_id :: "nat option"
  is_initialized :: bool
  i_released :: bool
  ilog :: "(ivps_call, int) hlog"

definition ivps_new :: "int \<Rightarrow> nat \<Rightarrow> ivps" where
  "ivps_new acquired n =
     \<lparr>ivps_grp = (if acquired < 0 then - 1 else acquired), i_owned = (\<not> acquired < 0), blk_cnt = n, pipeline = None,
      pool_id = None, is_initialized = False, i_released = False, ilog = []\<rparr>"

definition iask :: "ivps_lib \<Rightarrow> ivps_call \<Rightarrow> ivps \<Rightarrow> int \<times> ivps" where
  "iask lib c v = (case ask (i_answer lib) c (ilog v) of (r, tr) \<Rightarrow> (r, v\<lparr>ilog := tr\<rparr>))"

section \<open>The pool\<close>

text \<open>Blocks are taken one by one; the ids taken, and whether all could be had.\<close>

fun take_blocks :: "ivps_lib \<Rightarrow> nat \<Rightarrow> nat \<Rightarrow> int list \<Rightarrow> ivps \<Rightarrow> bool \<times> int list \<times> ivps" where
  "take_blocks lib p 0 blks v = (True, blks, v)"
| "take_blocks lib p (Suc n) blks v =
     (let b = i_block lib (length (ilog v)); v1 = snd (iask lib (IGetBlock p b) v)
      in case b of None \<Rightarrow> (False, blks, v1) | Some k \<Rightarrow> take_blocks lib p n (blks @ [k]) v1)"

fun release_blocks :: "ivps_lib \<Rightarrow> int list \<Rightarrow> ivps \<Rightarrow> ivps" where
  "release_blocks lib [] v = v"
| "release_blocks lib (b # bs) v = release_blocks lib bs (snd (iask lib (IReleaseBlock b) v))"

definition create_pool :: "ivps_lib \<Rightarrow> ivps \<Rightarrow> int \<times> ivps" where
  "create_pool lib v =
     (if pool_id v \<noteq> None then (0, v)
      else
        (let p = i_pool lib (length (ilog v)); v1 = (snd (iask lib (ICreatePool p) v))\<lparr>pool_id := p\<rparr>
         in case p of
              None \<Rightarrow> (- 1, v1)
            | Some k \<Rightarrow>
                (case take_blocks lib k (blk_cnt v) [] v1 of
                   (True, blks, v2) \<Rightarrow> (0, release_blocks lib blks v2)
                 | (False, blks, v2) \<Rightarrow> (- 1, (snd (iask lib (IDestroyPool k) v2))\<lparr>pool_id := None\<rparr>))))"

section \<open>The group\<close>

text \<open>The one channel that every setting asks for.\<close>

definition roll_back :: "ivps_lib \<Rightarrow> nat \<Rightarrow> ivps \<Rightarrow> ivps" where
  "roll_back lib m v =
     (let v1 = fold (\<lambda>c v. snd (iask lib (IDisableChn (ivps_grp v) c) v)) [0..<m] v
      in snd (iask lib (IDestroyGrp (ivps_grp v1)) v1))"

fun enable_channels :: "ivps_lib \<Rightarrow> nat \<Rightarrow> nat \<Rightarrow> ivps \<Rightarrow> int \<times> ivps" where
  "enable_channels lib c 0 v = (0, v)"
| "enable_channels lib c (Suc n) v =
     (case iask lib (ISetPool (ivps_grp v) c (the (pool_id v))) v of
        (r, v1) \<Rightarrow>
          if r \<noteq> 0 then (- 3, roll_back lib c v1)
          else
            (case iask lib (IEnableChn (ivps_grp v) c) v1 of
               (r, v2) \<Rightarrow> if r \<noteq> 0 then (- 1, roll_back lib c v2) else enable_channels lib (Suc c) n v2))"

definition kOutChnNum :: nat where
  "kOutChnNum = 1"

definition create_grp :: "ivps_lib \<Rightarrow> filter_attr \<Rightarrow> ivps \<Rightarrow> int \<times> ivps" where
  "create_grp lib at v =
     (if ivps_grp v < 0 then (- 1, v)
      else
        (case iask lib (ICreateGrp (ivps_grp v)) v of
           (r, v1) \<Rightarrow>
             if r \<noteq> 0 then (- 1, v1)
             else
               (case iask lib (ISetPipeline (ivps_grp v) at) v1 of
                  (r, v2) \<Rightarrow>
                    if r \<noteq> 0 then (- 1, snd (iask lib (IDestroyGrp (ivps_grp v)) v2))
                    else
                      (case enable_channels lib 0 kOutChnNum v2 of
                         (r, v3) \<Rightarrow>
                           if r \<noteq> 0 then (r, v3)
                           else
                             (case iask lib (IStartGrp (ivps_grp v)) v3 of
                                (r, v4) \<Rightarrow> if r \<noteq> 0 then (- 1, roll_back lib kOutChnNum v4) else (0, v4))))))"

definition ivps_init :: "ivps_lib \<Rightarrow> filter_attr \<Rightarrow> ivps \<Rightarrow> int \<times> ivps" where
  "ivps_init lib at v =
     (if is_initialized v then
        (case ask_all (i_answer lib) 0
                [ISetPipeline (ivps_grp v) at, IDisableChn (ivps_grp v) 0, IEnableChn (ivps_grp v) 0] (ilog v) of
           (r, tr) \<Rightarrow> (if r \<noteq> 0 then - 1 else 0, v\<lparr>ilog := tr\<rparr>))
      else
        (case create_pool lib v of
           (r, v1) \<Rightarrow>
             if r \<noteq> 0 then (- 1, v1)
             else
               (case create_grp lib at v1 of
                  (r, v2) \<Rightarrow> if r \<noteq> 0 then (- 1, v2) else (0, v2\<lparr>is_initialized := True\<rparr>))))"

section \<open>Settings\<close>

text \<open>\<open>ALIGN_UP\<close> on the unsigned arguments of the settings, read as a signed number.\<close>

definition align_up_to :: "u32 \<Rightarrow> u32 \<Rightarrow> int" where
  "align_up_to x n = sint ((x + (n - 1)) AND NOT (n - 1))"

definition set_pipeline :: "ivps_lib \<Rightarrow> filter_attr \<Rightarrow> ivps \<Rightarrow> int \<times> ivps" where
  "set_pipeline lib at v = ivps_init lib at (v\<lparr>pipeline := Some at\<rparr>)"

definition resize_to :: "ivps_lib \<Rightarrow> aspect_ratio \<Rightarrow> img_format \<Rightarrow> u32 \<Rightarrow> u32 \<Rightarrow> ivps \<Rightarrow> int \<times> ivps" where
  "resize_to lib mode fmt w h v =
     set_pipeline lib \<lparr>crop_rect = None, dst_width = align_up_to w 2, dst_height = align_up_to h 2, dst_stride = align_up_to w 16,
       dst_format = fmt, aspect = mode\<rparr> v"

definition resize :: "ivps_lib \<Rightarrow> aspect_ratio \<Rightarrow> u32 \<Rightarrow> u32 \<Rightarrow> ivps \<Rightarrow> int \<times> ivps" where
  "resize lib mode w h v =
     set_pipeline lib \<lparr>crop_rect = None, dst_width = align_up_to w 2, dst_height = align_up_to h 2, dst_stride = align_up_to w 16,
       dst_format = YUV420_SEMIPLANAR, aspect = mode\<rparr> v"

definition resize_and_csc :: "ivps_lib \<Rightarrow> img_format \<Rightarrow> u32 \<Rightarrow> u32 \<Rightarrow> ivps \<Rightarrow> int \<times> ivps" where
  "resize_and_csc lib fmt w h v =
     set_pipeline lib \<lparr>crop_rect = None, dst_width = align_up_to w 2, dst_height = align_up_to h 2, dst_stride = align_up_to w 16,
       dst_format = fmt, aspect = RatioStretch\<rparr> v"

text \<open>The cut is aligned upwards, position and size alike; its 16-bit arguments are widened first.\<close>

definition crop_align :: "u16 \<Rightarrow> u32 \<Rightarrow> int" where
  "crop_align x n = align_up_to (ucast x) n"

definition crop_and_csc :: "ivps_lib \<Rightarrow> img_format \<Rightarrow> u16 \<Rightarrow> u16 \<Rightarrow> u16 \<Rightarrow> u16 \<Rightarrow> ivps \<Rightarrow> int \<times> ivps" where
  "crop_and_csc lib fmt x y w h v =
     set_pipeline lib \<lparr>crop_rect = Some (crop_align x 2, crop_align y 2, crop_align w 2, crop_align h 2),
       dst_width = crop_align w 2, dst_height = crop_align h 2, dst_stride = crop_align w 16, dst_format = fmt,
       aspect = RatioUnset\<rparr> v"

section \<open>Processing\<close>

text \<open>\<open>None\<close> before the first setting: the number of channels is not set then.\<close>

definition ivps_process :: "ivps_lib \<Rightarrow> image_data \<Rightarrow> ivps \<Rightarrow> (int \<times> image_data option \<times> ivps) option" where
  "ivps_process lib src v =
     (case pipeline v of
        None \<Rightarrow> None
      | Some at \<Rightarrow>
          (case data src of
             None \<Rightarrow> None
           | Some d \<Rightarrow>
               if info d = None then None
               else
                 (case iask lib (ISendFrame (ivps_grp v)) v of
                    (r, v1) \<Rightarrow>
                      if r \<noteq> 0 then Some (- 1, None, v1)
                      else
                        (let n = length (ilog v1)
                         in case iask lib (IGetFrame (ivps_grp v) 0) v1 of
                              (r, v2) \<Rightarrow>
                                if r \<noteq> 0 then Some (- 1, None, v2)
                                else
                                  (let vf = i_frame lib n
                                   in Some (0, Some \<lparr>width = vwidth vf, height = vheight vf, img_format = img_fmt vf,
                                        end_of_stream = i_end_of_stream lib n,
                                        data = Some (frame_create (Some vf) (ivps_grp v) 0 kMemIdIvps)\<rparr>, v2))))))"

section \<open>Destruction\<close>

definition release_owned_id :: "ivps_lib \<Rightarrow> ivps \<Rightarrow> ivps" where
  "release_owned_id lib v = (if \<not> i_owned v then v else (snd (iask lib (IReleaseId (ivps_grp v)) v))\<lparr>i_owned := False\<rparr>)"

text \<open>The channels are disabled, the code of the last failure is kept.\<close>

fun disable_channels :: "ivps_lib \<Rightarrow> nat \<Rightarrow> nat \<Rightarrow> int \<Rightarrow> ivps \<Rightarrow> int \<times> ivps" where
  "disable_channels lib c 0 ret v = (ret, v)"
| "disable_channels lib c (Suc n) ret v =
     (case iask lib (IDisableChn (ivps_grp v) c) v of
        (r, v1) \<Rightarrow> disable_channels lib (Suc c) n (if r \<noteq> 0 then r else ret) v1)"

definition stop_group :: "ivps_lib \<Rightarrow> ivps \<Rightarrow> int \<times> ivps" where
  "stop_group lib v =
     (if 0 \<le> ivps_grp v \<and> is_initialized v then
        (case iask lib (IStopGrp (ivps_grp v)) v of
           (r, v1) \<Rightarrow>
             (case disable_channels lib 0 kOutChnNum r v1 of
                (r, v2) \<Rightarrow>
                  (case iask lib (IDestroyGrp (ivps_grp v)) v2 of
                     (q, v3) \<Rightarrow> (if q \<noteq> 0 then q else r, v3))))
      else (0, v))"

definition drop_pool :: "ivps_lib \<Rightarrow> int \<Rightarrow> ivps \<Rightarrow> int \<times> ivps" where
  "drop_pool lib ret v =
     (case pool_id v of
        None \<Rightarrow> (ret, v)
      | Some p \<Rightarrow> (case iask lib (IDestroyPool p) v of (q, v1) \<Rightarrow> (if q \<noteq> 0 then q else ret, v1\<lparr>pool_id := None\<rparr>)))"

definition destroy_resource :: "ivps_lib \<Rightarrow> ivps \<Rightarrow> int \<times> ivps" where
  "destroy_resource lib v =
     (if i_released v then (0, v)
      else
        (case stop_group lib (v\<lparr>i_released := True\<rparr>) of
           (r, v1) \<Rightarrow>
             (case drop_pool lib r v1 of
                (q, v2) \<Rightarrow> (if q = 0 then 0 else - 1, release_owned_id lib v2))))"

section \<open>What the hardware has lent out\<close>

text \<open>The pool, the blocks taken from it, how many blocks were out when a pool was destroyed, whether the group is there and
  the id is held. Blocks come from the pool that is there; a group is created once, set up and started with that pool,
  and destroyed once, before the pool; the id is released once.\<close>

record ivps_mon =
  im_pool :: "nat option"
  im_blocks :: "int multiset"
  im_lost :: nat
  im_grp :: bool
  im_id :: bool

fun ivps_mon_step :: "ivps_call \<times> int \<Rightarrow> ivps_mon \<Rightarrow> ivps_mon option" where
  "ivps_mon_step (ICreatePool p, r) s = (if im_pool s \<noteq> None then None else Some (s\<lparr>im_pool := p\<rparr>))"
| "ivps_mon_step (IDestroyPool k, r) s =
     (if im_pool s \<noteq> Some k \<or> im_grp s then None
      else Some (s\<lparr>im_pool := None, im_blocks := {#}, im_lost := im_lost s + size_class.size (im_blocks s)\<rparr>))"
| "ivps_mon_step (IGetBlock k b, r) s =
     (if im_pool s \<noteq> Some k then None
      else Some (case b of None \<Rightarrow> s | Some x \<Rightarrow> s\<lparr>im_blocks := add_mset x (im_blocks s)\<rparr>))"
| "ivps_mon_step (IReleaseBlock x, r) s = (if x \<in># im_blocks s then Some (s\<lparr>im_blocks := im_blocks s - {#x#}\<rparr>) else None)"
| "ivps_mon_step (ICreateGrp g, r) s = (if r \<noteq> 0 then Some s else if im_grp s then None else Some (s\<lparr>im_grp := True\<rparr>))"
| "ivps_mon_step (IDestroyGrp g, r) s = (if im_grp s then Some (s\<lparr>im_grp := False\<rparr>) else None)"
| "ivps_mon_step (ISetPipeline g at, r) s = (if im_grp s then Some s else None)"
| "ivps_mon_step (ISetPool g c k, r) s = (if im_grp s \<and> im_pool s = Some k then Some s else None)"
| "ivps_mon_step (IEnableChn g c, r) s = (if im_grp s then Some s else None)"
| "ivps_mon_step (IDisableChn g c, r) s = (if im_grp s then Some s else None)"
| "ivps_mon_step (IStartGrp g, r) s = (if im_grp s then Some s else None)"
| "ivps_mon_step (IStopGrp g, r) s = (if im_grp s then Some s else None)"
| "ivps_mon_step (IReleaseId g, r) s = (if im_id s then Some (s\<lparr>im_id := False\<rparr>) else None)"
| "ivps_mon_step (c, r) s = Some s"

definition ivps_mon_start :: "bool \<Rightarrow> ivps_mon" where
  "ivps_mon_start owned = \<lparr>im_pool = None, im_blocks = {#}, im_lost = 0, im_grp = False, im_id = owned\<rparr>"

text \<open>The log of a scaler leads to a state of the monitor.\<close>

definition at_state :: "bool \<Rightarrow> ivps \<Rightarrow> ivps_mon \<Rightarrow> bool" where
  "at_state owned v s \<longleftrightarrow> run_log ivps_mon_step (ilog v) (ivps_mon_start owned) = Some s"

lemma iask_log: "iask lib c v = (r, v') \<Longrightarrow> v' = v\<lparr>ilog := ilog v @ [(c, r)]\<rparr>"
  by (auto simp: iask_def ask_def Let_def)

lemma at_state_iask:
  "at_state owned v s \<Longrightarrow> ivps_mon_step (c, fst (iask lib c v)) s = Some s' \<Longrightarrow> at_state owned (snd (iask lib c v)) s'"
  using iask_log [of lib c v "fst (iask lib c v)" "snd (iask lib c v)"] by (simp add: at_state_def)

text \<open>What no call changes.\<close>

definition same_fields :: "ivps \<Rightarrow> ivps \<Rightarrow> bool" where
  "same_fields v v' \<longleftrightarrow> v' = v\<lparr>ilog := ilog v'\<rparr>"

lemma same_fields_iask: "same_fields v (snd (iask lib c v))"
  using iask_log [of lib c v "fst (iask lib c v)" "snd (iask lib c v)"] by (simp add: same_fields_def)

lemma same_fields_trans: "same_fields u v \<Longrightarrow> same_fields v w \<Longrightarrow> same_fields u w"
  unfolding same_fields_def by (metis ivps.surjective ivps.update_convs(8))

lemma same_fields_refl [simp]: "same_fields v v"
  by (simp add: same_fields_def)

lemma same_fieldsD:
  "same_fields v v' \<Longrightarrow> ivps_grp v' = ivps_grp v \<and> i_owned v' = i_owned v \<and> pool_id v' = pool_id v \<and> pipeline v' = pipeline v \<and>
     is_initialized v' = is_initialized v \<and> i_released v' = i_released v \<and> blk_cnt v' = blk_cnt v"
  unfolding same_fields_def by (metis ivps.select_convs ivps.surjective ivps.update_convs(8))

text \<open>Setting a field to what it is.\<close>

lemma unchanged_simps:
  "im_blocks s = b \<Longrightarrow> s\<lparr>im_blocks := b\<rparr> = s" "im_pool s = q \<Longrightarrow> s\<lparr>im_pool := q\<rparr> = s" "im_grp s = g \<Longrightarrow> s\<lparr>im_grp := g\<rparr> = s"
  "pool_id v = q \<Longrightarrow> v\<lparr>pool_id := q\<rparr> = v"
  for s :: ivps_mon and v :: ivps
  by (cases s; cases v; simp)+

section \<open>The pool is balanced\<close>

lemma take_blocks_run:
  assumes "take_blocks lib p n blks v = (ok, blks', v')" "at_state owned v s" "im_pool s = Some p" "im_blocks s = mset blks"
  shows "same_fields v v' \<and> at_state owned v' (s\<lparr>im_blocks := mset blks'\<rparr>)"
  using assms
proof (induction n arbitrary: blks v s)
  case 0
  then show ?case by (simp add: unchanged_simps(1))
next
  case (Suc n)
  let ?b = "i_block lib (length (ilog v))"
  let ?v1 = "snd (iask lib (IGetBlock p ?b) v)"
  show ?case
  proof (cases ?b)
    case None
    then have "at_state owned ?v1 s" using Suc.prems(3) by (intro at_state_iask [OF Suc.prems(2)]) simp
    then show ?thesis using Suc.prems None same_fields_iask by (auto simp: Let_def unchanged_simps(1))
  next
    case (Some k)
    let ?s1 = "s\<lparr>im_blocks := mset (blks @ [k])\<rparr>"
    have "at_state owned ?v1 ?s1" using Suc.prems(3,4) Some by (intro at_state_iask [OF Suc.prems(2)]) simp
    from Suc.IH [OF _ this] have "same_fields ?v1 v' \<and> at_state owned v' (?s1\<lparr>im_blocks := mset blks'\<rparr>)"
      using Suc.prems(1,3) Some by (simp add: Let_def)
    then show ?thesis using same_fields_trans [OF same_fields_iask] by auto
  qed
qed

lemma release_blocks_run:
  assumes "at_state owned v s" "im_blocks s = mset blks"
  shows "same_fields v (release_blocks lib blks v) \<and> at_state owned (release_blocks lib blks v) (s\<lparr>im_blocks := {#}\<rparr>)"
  using assms
proof (induction blks arbitrary: v s)
  case Nil
  then show ?case by (simp add: unchanged_simps(1))
next
  case (Cons b bs)
  let ?v1 = "snd (iask lib (IReleaseBlock b) v)"
  have "at_state owned ?v1 (s\<lparr>im_blocks := mset bs\<rparr>)" using Cons.prems(2) by (intro at_state_iask [OF Cons.prems(1)]) simp
  from Cons.IH [OF this] have "same_fields ?v1 (release_blocks lib bs ?v1)"
    "at_state owned (release_blocks lib bs ?v1) (s\<lparr>im_blocks := {#}\<rparr>)" by simp_all
  then show ?case using same_fields_trans [OF same_fields_iask] by auto
qed

lemma take_blocks_all: "\<forall>k. i_block lib k \<noteq> None \<Longrightarrow> fst (take_blocks lib p n blks v)"
  by (induction n arbitrary: blks v) (auto simp: Let_def split: option.splits)

text \<open>The pool is there or not; no block is out; blocks are lost only when one could not be had.\<close>

lemma create_pool_run:
  assumes "create_pool lib v = (r, v')" "at_state owned v s" "im_pool s = pool_id v" "im_blocks s = {#}" "\<not> im_grp s"
  shows "\<exists>n. at_state owned v' (s\<lparr>im_pool := pool_id v', im_lost := n\<rparr>) \<and> same_fields (v\<lparr>pool_id := pool_id v'\<rparr>) v' \<and>
    (r = 0 \<longrightarrow> pool_id v' \<noteq> None) \<and> ((\<forall>k. i_block lib k \<noteq> None) \<longrightarrow> n = im_lost s)"
proof (cases "pool_id v")
  case (Some p)
  then have "r = 0" "v' = v" using assms(1) by (simp_all add: create_pool_def)
  then show ?thesis using assms(2,3) Some by (intro exI [of _ "im_lost s"]) (simp add: unchanged_simps(2,4))
next
  case None
  let ?p = "i_pool lib (length (ilog v))"
  define v1 where "v1 = (snd (iask lib (ICreatePool ?p) v))\<lparr>pool_id := ?p\<rparr>"
  have f1: "same_fields (v\<lparr>pool_id := ?p\<rparr>) v1"
    using same_fields_iask [of v lib "ICreatePool ?p"] by (simp add: v1_def same_fields_def) (metis ivps.update_convs(5,8) ivps.surjective)
  have s1: "at_state owned v1 (s\<lparr>im_pool := ?p\<rparr>)"
    using at_state_iask [OF assms(2), of "ICreatePool ?p" lib "s\<lparr>im_pool := ?p\<rparr>"] assms(3) None by (simp add: v1_def at_state_def)
  have run: "create_pool lib v = (case ?p of None \<Rightarrow> (- 1, v1) | Some k \<Rightarrow>
      (case take_blocks lib k (blk_cnt v) [] v1 of (True, blks, v2) \<Rightarrow> (0, release_blocks lib blks v2)
       | (False, blks, v2) \<Rightarrow> (- 1, (snd (iask lib (IDestroyPool k) v2))\<lparr>pool_id := None\<rparr>)))"
    unfolding create_pool_def Let_def v1_def using None by simp
  show ?thesis
  proof (cases ?p)
    case no: None
    then have "r = - 1" "v' = v1" using run assms(1) by simp_all
    moreover have "pool_id v1 = ?p" by (simp add: v1_def)
    ultimately show ?thesis using s1 f1 no by (intro exI [of _ "im_lost s"]) simp
  next
    case (Some k)
    obtain ok blks v2 where t: "take_blocks lib k (blk_cnt v) [] v1 = (ok, blks, v2)" using prod_cases3 by blast
    have t2: "same_fields v1 v2" "at_state owned v2 (s\<lparr>im_pool := ?p, im_blocks := mset blks\<rparr>)"
      using take_blocks_run [OF t s1] Some assms(4) by simp_all
    have f2: "same_fields (v\<lparr>pool_id := ?p\<rparr>) v2" using same_fields_trans [OF f1 t2(1)] .
    have eq: "s\<lparr>im_pool := q, im_blocks := {#}, im_lost := n\<rparr> = s\<lparr>im_pool := q, im_lost := n\<rparr>" for q n
      using assms(4) by (metis ivps_mon.surjective ivps_mon.update_convs)
    show ?thesis
    proof (cases ok)
      case True
      then have v': "r = 0" "v' = release_blocks lib blks v2" using run t Some assms(1) by simp_all
      then have g: "same_fields v2 v'" "at_state owned v' (s\<lparr>im_pool := ?p, im_blocks := {#}\<rparr>)"
        using release_blocks_run [OF t2(2), of blks lib] by simp_all
      have "pool_id v' = ?p" using same_fieldsD [OF same_fields_trans [OF f2 g(1)]] by simp
      then show ?thesis using g same_fields_trans [OF f2 g(1)] v'(1) Some eq [where q = "Some k" and n = "im_lost s"] by (intro exI [of _ "im_lost s"]) simp
    next
      case False
      then have v': "r = - 1" "v' = (snd (iask lib (IDestroyPool k) v2))\<lparr>pool_id := None\<rparr>" using run t Some assms(1) by simp_all
      have "at_state owned (snd (iask lib (IDestroyPool k) v2)) (s\<lparr>im_pool := None, im_blocks := {#}, im_lost := im_lost s + size_class.size (mset blks)\<rparr>)"
        using Some assms(5) by (intro at_state_iask [OF t2(2)]) simp
      then have a: "at_state owned v' (s\<lparr>im_pool := None, im_lost := im_lost s + size_class.size (mset blks)\<rparr>)"
        unfolding v' eq by (simp add: at_state_def)
      have b: "same_fields (v\<lparr>pool_id := None\<rparr>) v'"
        using same_fields_trans [OF f2 same_fields_iask [of v2 lib "IDestroyPool k"]] unfolding v'
        by (simp add: same_fields_def) (metis ivps.update_convs(5,8) ivps.surjective)
      have "\<not> (\<forall>k. i_block lib k \<noteq> None)" using take_blocks_all [of lib k "blk_cnt v" "[]" v1] t False by (metis fst_conv)
      then show ?thesis using a b v' by (intro exI [of _ "im_lost s + size_class.size (mset blks)"] conjI) (blast | simp)+
    qed
  qed
qed

section \<open>The group is balanced\<close>

text \<open>A call on the group that the monitor lets pass.\<close>

lemma at_state_pass:
  "at_state owned v s \<Longrightarrow> (\<And>r. ivps_mon_step (c, r) s = Some s) \<Longrightarrow> at_state owned (snd (iask lib c v)) s"
  by (rule at_state_iask)

lemma fold_disable_run:
  "at_state owned v s \<Longrightarrow> im_grp s \<Longrightarrow>
   same_fields v (fold (\<lambda>c v. snd (iask lib (IDisableChn (ivps_grp v) c) v)) cs v) \<and>
   at_state owned (fold (\<lambda>c v. snd (iask lib (IDisableChn (ivps_grp v) c) v)) cs v) s"
proof (induction cs arbitrary: v)
  case (Cons c cs)
  let ?v1 = "snd (iask lib (IDisableChn (ivps_grp v) c) v)"
  have "at_state owned ?v1 s" using Cons.prems by (intro at_state_pass) simp_all
  then show ?case using Cons.IH [of ?v1] Cons.prems(2) same_fields_trans [OF same_fields_iask] by auto
qed simp

lemma roll_back_run:
  assumes "at_state owned v s" "im_grp s"
  shows "same_fields v (roll_back lib m v) \<and> at_state owned (roll_back lib m v) (s\<lparr>im_grp := False\<rparr>)"
proof -
  let ?v1 = "fold (\<lambda>c v. snd (iask lib (IDisableChn (ivps_grp v) c) v)) [0..<m] v"
  have f: "same_fields v ?v1" "at_state owned ?v1 s" using fold_disable_run [OF assms] by blast+
  have "at_state owned (snd (iask lib (IDestroyGrp (ivps_grp ?v1)) ?v1)) (s\<lparr>im_grp := False\<rparr>)"
    using assms(2) by (intro at_state_iask [OF f(2)]) simp
  then show ?thesis using same_fields_trans [OF f(1) same_fields_iask] by (simp add: roll_back_def Let_def)
qed

text \<open>The group is there after a success, and gone after a failure.\<close>

lemma enable_channels_run:
  assumes "enable_channels lib c n v = (r, v')" "at_state owned v s" "im_grp s" "im_pool s = pool_id v" "pool_id v \<noteq> None"
  shows "same_fields v v' \<and> at_state owned v' (s\<lparr>im_grp := (r = 0)\<rparr>)"
  using assms
proof (induction n arbitrary: c v)
  case 0
  then show ?case by (simp add: unchanged_simps(3))
next
  case (Suc n)
  obtain r1 v1 where p: "iask lib (ISetPool (ivps_grp v) c (the (pool_id v))) v = (r1, v1)" by fastforce
  obtain r2 v2 where e: "iask lib (IEnableChn (ivps_grp v) c) v1 = (r2, v2)" by fastforce
  have s1: "at_state owned v1 s" using at_state_pass [OF Suc.prems(2), of "ISetPool (ivps_grp v) c (the (pool_id v))" lib] Suc.prems(3-5) p
    by auto
  have s2: "at_state owned v2 s" using at_state_pass [OF s1, of "IEnableChn (ivps_grp v) c" lib] Suc.prems(3) e by simp
  have f1: "same_fields v v1" using same_fields_iask [of v lib "ISetPool (ivps_grp v) c (the (pool_id v))"] p by simp
  have f2: "same_fields v v2" using same_fields_trans [OF f1 same_fields_iask [of v1 lib "IEnableChn (ivps_grp v) c"]] e by simp
  consider "r1 \<noteq> 0" | "r1 = 0" "r2 \<noteq> 0" | "r1 = 0" "r2 = 0" by blast
  then show ?case
  proof cases
    case 1
    then show ?thesis using Suc.prems(1,3) p roll_back_run [OF s1, of lib c] same_fields_trans [OF f1] by auto
  next
    case 2
    then show ?thesis using Suc.prems(1,3) p e roll_back_run [OF s2, of lib c] same_fields_trans [OF f2] by auto
  next
    case 3
    then have "same_fields v2 v' \<and> at_state owned v' (s\<lparr>im_grp := (r = 0)\<rparr>)"
      using Suc.prems p e s2 same_fieldsD [OF f2] by (intro Suc.IH) simp_all
    then show ?thesis using same_fields_trans [OF f2] by blast
  qed
qed

lemma create_grp_run:
  assumes "create_grp lib at v = (r, v')" "at_state owned v s" "\<not> im_grp s" "im_pool s = pool_id v" "pool_id v \<noteq> None"
  shows "same_fields v v' \<and> at_state owned v' (s\<lparr>im_grp := (r = 0)\<rparr>)"
proof (cases "ivps_grp v < 0")
  case True
  then show ?thesis using assms by (auto simp: create_grp_def unchanged_simps(3))
next
  case False
  let ?on = "s\<lparr>im_grp := True\<rparr>"
  obtain r1 v1 where c1: "iask lib (ICreateGrp (ivps_grp v)) v = (r1, v1)" by fastforce
  obtain r2 v2 where c2: "iask lib (ISetPipeline (ivps_grp v) at) v1 = (r2, v2)" by fastforce
  obtain r3 v3 where c3: "enable_channels lib 0 kOutChnNum v2 = (r3, v3)" by fastforce
  obtain r4 v4 where c4: "iask lib (IStartGrp (ivps_grp v)) v3 = (r4, v4)" by fastforce
  have f1: "same_fields v v1" using same_fields_iask [of v lib "ICreateGrp (ivps_grp v)"] c1 by simp
  have f2: "same_fields v v2" using same_fields_trans [OF f1 same_fields_iask [of v1 lib "ISetPipeline (ivps_grp v) at"]] c2 by simp
  have bad: "at_state owned v1 s" if "r1 \<noteq> 0" using at_state_iask [OF assms(2), of "ICreateGrp (ivps_grp v)" lib s] c1 that by simp
  have s1: "at_state owned v1 ?on" if "r1 = 0" using at_state_iask [OF assms(2), of "ICreateGrp (ivps_grp v)" lib ?on] c1 that assms(3) by simp
  have s2: "at_state owned v2 ?on" if "r1 = 0" using at_state_pass [OF s1 [OF that], of "ISetPipeline (ivps_grp v) at" lib] c2 by simp
  have s3: "same_fields v2 v3 \<and> at_state owned v3 (s\<lparr>im_grp := (r3 = 0)\<rparr>)" if "r1 = 0"
    using enable_channels_run [OF c3 s2 [OF that]] same_fieldsD [OF f2] assms(4,5) by simp
  have s4: "at_state owned v4 ?on" if "r1 = 0" "r3 = 0"
    using at_state_pass [of owned v3 ?on "IStartGrp (ivps_grp v)" lib] s3 [OF that(1)] that(2) c4 by simp
  have f4: "same_fields v v4" if "r1 = 0"
    using same_fields_trans [OF same_fields_trans [OF f2 conjunct1 [OF s3 [OF that]]] same_fields_iask [of v3 lib "IStartGrp (ivps_grp v)"]] c4 by simp
  note run = assms(1) [unfolded create_grp_def, simplified False if_False c1 c2 c3 c4 prod.case]
  consider (a) "r1 \<noteq> 0" | (b) "r1 = 0" "r2 \<noteq> 0" | (c) "r1 = 0" "r2 = 0" "r3 \<noteq> 0" | (d) "r1 = 0" "r2 = 0" "r3 = 0" "r4 \<noteq> 0"
    | (e) "r1 = 0" "r2 = 0" "r3 = 0" "r4 = 0" by blast
  then show ?thesis
  proof cases
    case a
    then show ?thesis using run f1 bad assms(3) by (auto simp: unchanged_simps(3))
  next
    case b
    have "at_state owned (snd (iask lib (IDestroyGrp (ivps_grp v)) v2)) (s\<lparr>im_grp := False\<rparr>)"
      by (rule at_state_iask [OF s2 [OF b(1)]]) simp
    then show ?thesis using run b same_fields_trans [OF f2 same_fields_iask] by auto
  next
    case c
    then show ?thesis using run s3 same_fields_trans [OF f2] by auto
  next
    case d
    then show ?thesis using run roll_back_run [OF s4, of lib kOutChnNum] same_fields_trans [OF f4] by auto
  next
    case e
    then show ?thesis using run s4 f4 by auto
  qed
qed

section \<open>How a scaler is used\<close>

inductive ivps_reach :: "ivps_lib \<Rightarrow> int \<Rightarrow> ivps \<Rightarrow> bool" for lib acquired where
  ir_new: "ivps_reach lib acquired (ivps_new acquired n)"
| ir_resize: "ivps_reach lib acquired v \<Longrightarrow> ivps_reach lib acquired (snd (resize lib mode w h v))"
| ir_resize_to: "ivps_reach lib acquired v \<Longrightarrow> ivps_reach lib acquired (snd (resize_to lib mode fmt w h v))"
| ir_resize_csc: "ivps_reach lib acquired v \<Longrightarrow> ivps_reach lib acquired (snd (resize_and_csc lib fmt w h v))"
| ir_crop: "ivps_reach lib acquired v \<Longrightarrow> ivps_reach lib acquired (snd (crop_and_csc lib fmt x y w h v))"
| ir_process: "ivps_reach lib acquired v \<Longrightarrow> ivps_process lib src v = Some (r, out, v') \<Longrightarrow> ivps_reach lib acquired v'"

definition ivps_inv :: "ivps_lib \<Rightarrow> int \<Rightarrow> ivps \<Rightarrow> bool" where
  "ivps_inv lib acquired v \<longleftrightarrow>
     \<not> i_released v \<and> i_owned v = (0 \<le> acquired) \<and> (ivps_grp v < 0 \<longleftrightarrow> acquired < 0) \<and>
     (is_initialized v \<longrightarrow> 0 \<le> acquired \<and> pool_id v \<noteq> None) \<and>
     (\<exists>n. at_state (0 \<le> acquired) v \<lparr>im_pool = pool_id v, im_blocks = {#}, im_lost = n, im_grp = is_initialized v, im_id = (0 \<le> acquired)\<rparr> \<and>
        ((\<forall>k. i_block lib k \<noteq> None) \<longrightarrow> n = 0))"

lemma ivps_inv_log:
  assumes "ivps_inv lib acquired v" "same_fields v v'" "\<And>s. at_state (0 \<le> acquired) v s \<Longrightarrow> im_grp s = is_initialized v \<Longrightarrow> at_state (0 \<le> acquired) v' s"
  shows "ivps_inv lib acquired v'"
  using assms(1) same_fieldsD [OF assms(2)] assms(3) by (fastforce simp: ivps_inv_def)

lemma create_grp_needs_grp: "create_grp lib at v = (0, v') \<Longrightarrow> 0 \<le> ivps_grp v"
  by (auto simp: create_grp_def split: if_splits)

lemma ivps_init_inv:
  assumes "ivps_inv lib acquired v"
  shows "ivps_inv lib acquired (snd (ivps_init lib at v))"
proof (cases "is_initialized v")
  case True
  obtain r tr where a: "ask_all (i_answer lib) 0 [ISetPipeline (ivps_grp v) at, IDisableChn (ivps_grp v) 0, IEnableChn (ivps_grp v) 0] (ilog v) = (r, tr)"
    by fastforce
  have "ivps_inv lib acquired (v\<lparr>ilog := tr\<rparr>)"
  proof (rule ivps_inv_log [OF assms])
    show "at_state (0 \<le> acquired) (v\<lparr>ilog := tr\<rparr>) s" if "at_state (0 \<le> acquired) v s" "im_grp s = is_initialized v" for s
    proof -
      have "run_log ivps_mon_step tr (ivps_mon_start (0 \<le> acquired)) = Some s"
        by (rule run_log_ask_all [OF a that(1) [unfolded at_state_def]]) (use that(2) True in auto)
      then show ?thesis by (simp add: at_state_def)
    qed
  qed (simp add: same_fields_def)
  then show ?thesis using True a by (simp add: ivps_init_def)
next
  case False
  obtain r1 v1 where p: "create_pool lib v = (r1, v1)" by fastforce
  obtain r2 v2 where g: "create_grp lib at v1 = (r2, v2)" by fastforce
  obtain m where s0: "at_state (0 \<le> acquired) v \<lparr>im_pool = pool_id v, im_blocks = {#}, im_lost = m, im_grp = False, im_id = (0 \<le> acquired)\<rparr>"
      "(\<forall>k. i_block lib k \<noteq> None) \<longrightarrow> m = 0" using assms False by (auto simp: ivps_inv_def)
  let ?s = "\<lambda>n on. \<lparr>im_pool = pool_id v1, im_blocks = {#}, im_lost = n, im_grp = on, im_id = (0 \<le> acquired)\<rparr>"
  obtain n where n: "at_state (0 \<le> acquired) v1 (?s n False)" "same_fields (v\<lparr>pool_id := pool_id v1\<rparr>) v1" "r1 = 0 \<longrightarrow> pool_id v1 \<noteq> None"
      "(\<forall>k. i_block lib k \<noteq> None) \<longrightarrow> n = 0" using create_pool_run [OF p s0(1)] s0(2) by auto
  have i1: "ivps_inv lib acquired v1" using assms n False same_fieldsD [OF n(2)] by (auto simp: ivps_inv_def)
  show ?thesis
  proof (cases "r1 = 0")
    case True
    have f: "same_fields v1 v2" "at_state (0 \<le> acquired) v2 (?s n (r2 = 0))" using create_grp_run [OF g n(1)] n(3) True by simp_all
    have i2: "ivps_inv lib acquired (v2\<lparr>is_initialized := (r2 = 0)\<rparr>)"
      using i1 n(3,4) True f(2) same_fieldsD [OF f(1)] create_grp_needs_grp [of lib at v1 v2] g by (auto simp: ivps_inv_def at_state_def)
    have "\<not> is_initialized v2" using same_fieldsD [OF f(1)] same_fieldsD [OF n(2)] False by simp
    then have "v2\<lparr>is_initialized := False\<rparr> = v2" by (cases v2) simp
    then show ?thesis using False True p g i2 by (cases "r2 = 0") (simp_all add: ivps_init_def)
  qed (use False p i1 in \<open>simp add: ivps_init_def\<close>)
qed

lemma set_pipeline_inv: "ivps_inv lib acquired v \<Longrightarrow> ivps_inv lib acquired (snd (set_pipeline lib at v))"
  unfolding set_pipeline_def by (rule ivps_init_inv) (simp add: ivps_inv_def at_state_def)

lemma ivps_process_inv:
  assumes "ivps_inv lib acquired v" "ivps_process lib src v = Some (r, out, v')"
  shows "ivps_inv lib acquired v'"
proof -
  have pass: "ivps_inv lib acquired (snd (iask lib c u))" if "ivps_inv lib acquired u" "\<And>r s. ivps_mon_step (c, r) s = Some s" for c u
    using that(2) by (intro ivps_inv_log [OF that(1) same_fields_iask] at_state_pass)
  show ?thesis using assms pass [OF assms(1), of "ISendFrame (ivps_grp v)"]
      pass [OF pass [OF assms(1), of "ISendFrame (ivps_grp v)"], of "IGetFrame (ivps_grp v) 0"]
    by (auto simp: ivps_process_def Let_def split: option.splits if_splits prod.splits)
qed

lemma ivps_reach_inv: "ivps_reach lib acquired v \<Longrightarrow> ivps_inv lib acquired v"
proof (induction rule: ivps_reach.induct)
  case (ir_new n)
  then show ?case by (auto simp: ivps_inv_def ivps_new_def at_state_def ivps_mon_start_def)
qed (auto intro: ivps_process_inv set_pipeline_inv simp: resize_def resize_to_def resize_and_csc_def crop_and_csc_def)

lemma disable_channels_run:
  assumes "disable_channels lib c n ret v = (r, v')" "at_state owned v s" "im_grp s"
  shows "same_fields v v' \<and> at_state owned v' s"
  using assms
proof (induction n arbitrary: c ret v)
  case (Suc n)
  obtain q v1 where q: "iask lib (IDisableChn (ivps_grp v) c) v = (q, v1)" by fastforce
  have "at_state owned v1 s" using at_state_pass [OF Suc.prems(2), of "IDisableChn (ivps_grp v) c" lib] Suc.prems(3) q by simp
  then have "same_fields v1 v' \<and> at_state owned v' s" using Suc.IH [of "Suc c" "if q \<noteq> 0 then q else ret" v1] Suc.prems q by simp
  then show ?case using same_fields_trans [OF same_fields_iask [of v lib "IDisableChn (ivps_grp v) c"]] q by auto
qed simp

lemma stop_group_run:
  assumes "stop_group lib v = (r, v')" "at_state owned v s" "im_grp s = is_initialized v" "is_initialized v \<longrightarrow> 0 \<le> ivps_grp v"
  shows "same_fields v v' \<and> at_state owned v' (s\<lparr>im_grp := False\<rparr>)"
proof (cases "is_initialized v")
  case True
  obtain r1 v1 where a: "iask lib (IStopGrp (ivps_grp v)) v = (r1, v1)" by fastforce
  obtain r2 v2 where b: "disable_channels lib 0 kOutChnNum r1 v1 = (r2, v2)" by fastforce
  obtain r3 v3 where c: "iask lib (IDestroyGrp (ivps_grp v)) v2 = (r3, v3)" by fastforce
  have s1: "at_state owned v1 s" using at_state_pass [OF assms(2), of "IStopGrp (ivps_grp v)" lib] assms(3) True a by simp
  have s2: "same_fields v1 v2 \<and> at_state owned v2 s" using disable_channels_run [OF b s1] assms(3) True by simp
  have s3: "at_state owned v3 (s\<lparr>im_grp := False\<rparr>)"
    using at_state_iask [of owned v2 s "IDestroyGrp (ivps_grp v)" lib "s\<lparr>im_grp := False\<rparr>"] s2 assms(3) True c by simp
  have "same_fields v v1" "same_fields v2 v3"
    using same_fields_iask [of v lib "IStopGrp (ivps_grp v)"] same_fields_iask [of v2 lib "IDestroyGrp (ivps_grp v)"] a c by simp_all
  then have "same_fields v v3" using s2 same_fields_trans by blast
  then show ?thesis using assms(1,4) True a b c s3 by (simp add: stop_group_def)
qed (use assms in \<open>auto simp: stop_group_def unchanged_simps(3)\<close>)

lemma drop_pool_run:
  assumes "drop_pool lib ret v = (r, v')" "at_state owned v s" "im_pool s = pool_id v" "\<not> im_grp s" "im_blocks s = {#}"
  shows "at_state owned v' (s\<lparr>im_pool := None\<rparr>) \<and> i_owned v' = i_owned v \<and> ivps_grp v' = ivps_grp v"
proof (cases "pool_id v")
  case (Some p)
  obtain q v1 where q: "iask lib (IDestroyPool p) v = (q, v1)" by fastforce
  have "s\<lparr>im_pool := None, im_blocks := {#}, im_lost := im_lost s\<rparr> = s\<lparr>im_pool := None\<rparr>" using assms(5) by (cases s) simp
  then have "at_state owned v1 (s\<lparr>im_pool := None\<rparr>)"
    using at_state_iask [OF assms(2), of "IDestroyPool p" lib "s\<lparr>im_pool := None\<rparr>"] assms(3-5) Some q by simp
  moreover have "same_fields v v1" using same_fields_iask [of v lib "IDestroyPool p"] q by simp
  ultimately show ?thesis using assms(1) Some q same_fieldsD by (auto simp: drop_pool_def at_state_def)
qed (use assms in \<open>auto simp: drop_pool_def unchanged_simps(2)\<close>)

text \<open>C34. A scaler gives back what it has taken: whatever the hardware answers and whichever settings and frames it has been
  given, also when its initialisation has failed at any point, every call is in order - the group is created once, set up
  with the pool that is there and destroyed before it, pool and id are given back once - and once destroyed nothing is
  left, nor was a block out when its pool was destroyed, provided every block could be had.\<close>

theorem scaler_gives_back:
  assumes "ivps_reach lib acquired v"
  shows "\<exists>n. run_log ivps_mon_step (ilog (snd (destroy_resource lib v))) (ivps_mon_start (0 \<le> acquired)) =
      Some \<lparr>im_pool = None, im_blocks = {#}, im_lost = n, im_grp = False, im_id = False\<rparr> \<and>
    ((\<forall>k. i_block lib k \<noteq> None) \<longrightarrow> n = 0)"
proof -
  have inv: "ivps_inv lib acquired v" using ivps_reach_inv [OF assms] .
  let ?v = "v\<lparr>i_released := True\<rparr>"
  let ?st = "\<lambda>p n on held. \<lparr>im_pool = p, im_blocks = {#}, im_lost = n, im_grp = on, im_id = held\<rparr>"
  obtain n where n: "at_state (0 \<le> acquired) ?v (?st (pool_id v) n (is_initialized v) (0 \<le> acquired))"
      "(\<forall>k. i_block lib k \<noteq> None) \<longrightarrow> n = 0" using inv by (auto simp: ivps_inv_def at_state_def)
  obtain r v1 where g: "stop_group lib ?v = (r, v1)" by fastforce
  obtain q v2 where d: "drop_pool lib r v1 = (q, v2)" by fastforce
  have g1: "same_fields ?v v1" "at_state (0 \<le> acquired) v1 (?st (pool_id v) n False (0 \<le> acquired))"
    using stop_group_run [OF g n(1)] inv by (auto simp: ivps_inv_def)
  have d1: "at_state (0 \<le> acquired) v2 (?st None n False (0 \<le> acquired))" "i_owned v2 = (0 \<le> acquired)" "ivps_grp v2 = ivps_grp v"
    using drop_pool_run [OF d g1(2)] same_fieldsD [OF g1(1)] inv by (auto simp: ivps_inv_def)
  have "at_state (0 \<le> acquired) (release_owned_id lib v2) (?st None n False False)"
  proof (cases "0 \<le> acquired")
    case True
    have "at_state (0 \<le> acquired) (snd (iask lib (IReleaseId (ivps_grp v2)) v2)) (?st None n False False)"
      using True by (intro at_state_iask [OF d1(1)]) simp
    then show ?thesis using d1(2) True by (simp add: release_owned_id_def at_state_def)
  qed (use d1 in \<open>simp add: release_owned_id_def\<close>)
  moreover have "snd (destroy_resource lib v) = release_owned_id lib v2" using inv g d by (simp add: destroy_resource_def ivps_inv_def)
  ultimately show ?thesis using n(2) by (auto simp: at_state_def)
qed

text \<open>A scaler whose third block cannot be had, and which is set up again after that.\<close>

definition demo_ivps_lib :: ivps_lib where
  "demo_ivps_lib = \<lparr>i_answer = (\<lambda>k c. 0), i_pool = (\<lambda>k. Some 5), i_block = (\<lambda>k. if k = 3 then None else Some (int k)),
     i_frame = (\<lambda>k. \<lparr>img_fmt = RGB888, vwidth = 0, vheight = 0, pic_stride = 0, frame_size = 0, phy_addr = [], vir_addr = []\<rparr>),
     i_end_of_stream = (\<lambda>k. False)\<rparr>"

definition demo_ivps :: ivps where
  "demo_ivps = snd (resize demo_ivps_lib RatioAuto 640 640 (snd (resize demo_ivps_lib RatioAuto 640 640 (ivps_new 2 3))))"

lemma demo_ivps_reach: "ivps_reach demo_ivps_lib 2 demo_ivps"
  unfolding demo_ivps_def by (intro ivps_reach.intros)

lemma demo_ivps_log: "map fst (ilog demo_ivps) =
    [ICreatePool (Some 5), IGetBlock 5 (Some 1), IGetBlock 5 (Some 2), IGetBlock 5 None, IDestroyPool 5,
     ICreatePool (Some 5), IGetBlock 5 (Some 6), IGetBlock 5 (Some 7), IGetBlock 5 (Some 8), IReleaseBlock 6, IReleaseBlock 7, IReleaseBlock 8,
     ICreateGrp 2, ISetPipeline 2 \<lparr>crop_rect = None, dst_width = 640, dst_height = 640, dst_stride = 640, dst_format = YUV420_SEMIPLANAR,
       aspect = RatioAuto\<rparr>, ISetPool 2 0 5, IEnableChn 2 0, IStartGrp 2]"
  by code_simp

text \<open>The pool is destroyed with the two blocks out.\<close>

lemma failed_pool_keeps_blocks:
  "map_option im_lost (run_log ivps_mon_step (ilog demo_ivps) (ivps_mon_start True)) = Some 2"
  by code_simp

theorem scaler_gives_back_witness:
  "\<exists>n. run_log ivps_mon_step (ilog (snd (destroy_resource demo_ivps_lib demo_ivps))) (ivps_mon_start True) =
      Some \<lparr>im_pool = None, im_blocks = {#}, im_lost = n, im_grp = False, im_id = False\<rparr>"
  using scaler_gives_back [OF demo_ivps_reach] by auto

text \<open>A cut whose corner and size are even is what was asked for; else it grows and moves by at most one in each.\<close>

lemma crop_align_even: "crop_align x 2 = uint x + uint x mod 2"
proof -
  let ?y = "ucast x + 1 :: u32"
  have x: "uint x < 65536" "0 \<le> uint x" using uint_lt2p [of x] by simp_all
  have "uint (ucast x :: u32) = uint x" using x by (simp add: unsigned_ucast_eq take_bit_int_eq_self)
  then have y: "uint ?y = uint x + 1" using x by (simp add: uint_plus_if_size word_size)
  have t: "take_bit 32 (uint ?y) = uint ?y" unfolding y using x by (simp add: take_bit_int_eq_self)
  have "uint (?y AND NOT 1) = take_bit 32 (uint ?y AND NOT 1)"
    unfolding take_bit_and t by (simp add: unsigned_and_eq unsigned_not_eq)
  also have "\<dots> = take_bit 32 (uint ?y - uint ?y mod 2)" by (simp only: and_not_one)
  also have "uint ?y - uint ?y mod 2 = uint x + uint x mod 2" unfolding y by presburger
  also have "take_bit 32 (uint x + uint x mod 2) = uint x + uint x mod 2"
    using x pos_mod_bound [of 2 "uint x"] by (intro take_bit_int_eq_self) auto
  finally have u: "uint (?y AND NOT 1) = uint x + uint x mod 2" .
  have "sint (?y AND NOT 1) = signed_take_bit 31 (uint (?y AND NOT 1))" by (simp add: sint_uint)
  also have "\<dots> = uint (?y AND NOT 1)" unfolding u
  proof (rule signed_take_bit_int_eq_self)
    have "0 \<le> uint x mod 2" "uint x mod 2 < 2" by simp_all
    then have "- 2147483648 \<le> uint x + uint x mod 2" "uint x + uint x mod 2 < 2147483648" using x by linarith+
    then show "- (2 ^ 31) \<le> uint x + uint x mod 2" "uint x + uint x mod 2 < 2 ^ 31" by simp_all
  qed
  finally have "sint (?y AND NOT 1) = uint (?y AND NOT 1)" .
  then show ?thesis using u by (simp add: crop_align_def align_up_to_def)
qed

end
