(* ===== verification/Jpeg.thy ===== *)
theory Jpeg
  imports Hal_Calls Frames
begin

text \<open>
  The JPEG helper (\<open>hal/ax/jpeg_help.cpp\<close>) and its two callers in \<open>hal/image_data.cpp\<close>: the size of a picture read out
  of the markers of a file, the search for the end of the picture, decoding and encoding over the vendor's library. A
  file is the list of its bytes. Bytes that a failed read leaves unset are a parameter. Log lines are left out.
\<close>

section \<open>Bytes\<close>

definition be16 :: "u8 \<Rightarrow> u8 \<Rightarrow> nat" where
  "be16 a b = unat a * 256 + unat b"

text \<open>\<open>fread\<close> of one byte: what is read is left alone at the end of the file.\<close>

definition fread_byte :: "u8 list \<Rightarrow> nat \<Rightarrow> u8 \<Rightarrow> u8 \<times> nat" where
  "fread_byte f p old = (if p < length f then (f ! p, p + 1) else (old, p))"

definition fread_pair :: "u8 list \<Rightarrow> nat \<Rightarrow> u8 \<Rightarrow> u8 \<Rightarrow> u8 \<times> u8 \<times> nat" where
  "fread_pair f p hi lo = (case fread_byte f p hi of (hi, q) \<Rightarrow> (case fread_byte f q lo of (lo, r) \<Rightarrow> (hi, lo, r)))"

section \<open>The size of a picture\<close>

definition seg_rest :: "u8 \<Rightarrow> u8 \<Rightarrow> nat" where
  "seg_rest hi lo = (if 2 \<le> be16 hi lo then be16 hi lo - 2 else 0)"

text \<open>A segment is skipped: the position behind it and the two bytes of its length.\<close>

definition skip_segment :: "u8 list \<Rightarrow> nat \<Rightarrow> u8 \<Rightarrow> u8 \<Rightarrow> nat \<times> u8 \<times> u8" where
  "skip_segment f p hi lo = (case fread_pair f p hi lo of (hi, lo, q) \<Rightarrow> (q + seg_rest hi lo, hi, lo))"

text \<open>The body of the loop of \<open>GetJPEGWidthHeight\<close> for the marker \<open>m\<close> before position \<open>p\<close>: it returns the code, the width and the
  height, or goes on. \<open>hi\<close> and \<open>lo\<close> are the two bytes read last.\<close>

definition size_body :: "u8 list \<Rightarrow> nat \<Rightarrow> u8 \<Rightarrow> u8 \<Rightarrow> u8 \<Rightarrow> (int \<times> nat \<times> nat) + (nat \<times> u8 \<times> u8)" where
  "size_body f p m hi lo =
     (if 0xE0 \<le> m \<and> m \<le> 0xEF then Inr (skip_segment f p hi lo)
      else if m = 0xD8 then Inr (p, hi, lo)
      else if m = 0xC0 then
        (case fread_pair f (p + 3) hi lo of
           (hi, lo, q) \<Rightarrow> (case fread_pair f q hi lo of (hi', lo', _) \<Rightarrow> Inl (0, be16 hi' lo', be16 hi lo)))
      else if m = 0xDA \<or> m = 0xD9 \<or> m = 0x00 then Inl (- 1, 0, 0)
      else Inr (skip_segment f p hi lo))"

lemma skip_segment_moves: "skip_segment f p hi lo = (q, hi', lo') \<Longrightarrow> p \<le> q"
  by (auto simp: skip_segment_def fread_pair_def fread_byte_def split: if_splits)

lemma size_body_moves: "size_body f p m hi lo = Inr (q, hi', lo') \<Longrightarrow> p \<le> q"
  by (auto simp: size_body_def dest: skip_segment_moves split: if_splits prod.splits)

text \<open>\<open>GetJPEGWidthHeight\<close> from position \<open>p\<close> of the file that is open.\<close>

function size_scan :: "u8 list \<Rightarrow> nat \<Rightarrow> u8 \<Rightarrow> u8 \<Rightarrow> int \<times> nat \<times> nat" where
  "size_scan f p hi lo =
     (if length f \<le> p \<or> f ! p \<noteq> 0xFF \<or> length f \<le> p + 1 then (- 1, 0, 0)
      else (case size_body f (p + 2) (f ! (p + 1)) hi lo of Inl r \<Rightarrow> r | Inr (q, hi, lo) \<Rightarrow> size_scan f q hi lo))"
  by pat_completeness auto

termination size_scan
  by (relation "measure (\<lambda>(f, p, _). length f - p)") (auto dest!: size_body_moves)

declare size_scan.simps [simp del]

section \<open>The end of the picture\<close>

text \<open>\<open>imgGetBytes\<close>: zero behind the end.\<close>

definition img_get_byte :: "u8 list \<Rightarrow> nat \<Rightarrow> u8" where
  "img_get_byte f i = (if i < length f then f ! i else 0)"

definition next_is :: "u8 list \<Rightarrow> nat \<Rightarrow> (u8 \<Rightarrow> bool) \<Rightarrow> bool" where
  "next_is f i P \<longleftrightarrow> i + 1 < length f \<and> P (f ! (i + 1))"

text \<open>Markers with a segment that is skipped, and those after which the search goes for the end marker.\<close>

definition skip_marker :: "u8 \<Rightarrow> bool" where
  "skip_marker m \<longleftrightarrow> 0xE1 \<le> m \<and> m \<le> 0xEF"

definition frame_marker :: "u8 \<Rightarrow> bool" where
  "frame_marker m \<longleftrightarrow> m \<in> {0xC1, 0xC2, 0xC3, 0xC5, 0xC6, 0xC7, 0xC8, 0xC9, 0xCA, 0xCB}"

definition thumb_at :: "u8 list \<Rightarrow> nat \<Rightarrow> bool" where
  "thumb_at f i \<longleftrightarrow> next_is f i (\<lambda>m. m = 0xE0) \<and> i + 9 < length f \<and>
     take 6 (drop (i + 4) f) = [0x4A, 0x46, 0x58, 0x58, 0x00, 0x10]"

text \<open>The inner search: the end marker that closes the file, or the place of the last one seen.\<close>

function eoi_search :: "u8 list \<Rightarrow> nat \<Rightarrow> nat \<Rightarrow> nat + nat" where
  "eoi_search f j i =
     (if length f \<le> j then Inr i
      else if f ! j = 0xFF \<and> next_is f j (\<lambda>m. m = 0xD9) then
        (if length f \<le> j + 2 then Inl (j + 2) else eoi_search f (j + 1) j)
      else eoi_search f (j + 1) i)"
  by pat_completeness auto

termination eoi_search
  by (relation "measure (\<lambda>(f, j, _). length f - j)") auto

declare eoi_search.simps [simp del]

text \<open>Where the segment of the marker at \<open>i\<close> ends; \<open>None\<close> if it does not fit.\<close>

definition segment_end :: "u8 list \<Rightarrow> nat \<Rightarrow> nat option" where
  "segment_end f i =
     (let i2 = i + 2; tot = be16 (img_get_byte f i2) (img_get_byte f (i2 + 1))
      in if length f < i2 + 1 \<or> length f < tot + i2 then None else Some (i2 + tot))"

text \<open>What the body of the outer loop does: return (\<open>None\<close> for a broken segment, else the end found), or go on with the
  next place, whether a thumbnail is open, and the last end seen.\<close>

definition check_marks :: "u8 list \<Rightarrow> nat \<Rightarrow> bool \<Rightarrow> nat \<Rightarrow> nat option + nat \<times> bool \<times> nat" where
  "check_marks f i thumb cur =
     (let th = (thumb \<or> thumb_at f i)
      in if next_is f i (\<lambda>m. m = 0xD9) then (if th then Inr (i + 1, False, i + 2) else Inl (Some (i + 2)))
         else Inr (i + 1, th, cur))"

definition scan_body :: "u8 list \<Rightarrow> nat \<Rightarrow> bool \<Rightarrow> nat \<Rightarrow> nat option + nat \<times> bool \<times> nat" where
  "scan_body f i thumb cur =
     (if f ! i \<noteq> 0xFF then Inr (i + 1, thumb, cur)
      else if next_is f i skip_marker then
        (case segment_end f i of None \<Rightarrow> Inl None | Some e \<Rightarrow> Inr (e, thumb, cur))
      else if next_is f i frame_marker then
        (case segment_end f i of
           None \<Rightarrow> Inl None
         | Some e \<Rightarrow>
             (case eoi_search f (e - 1) (e - 1) of
                Inl k \<Rightarrow> Inl (Some k)
              | Inr k \<Rightarrow> check_marks f k thumb cur))
      else check_marks f i thumb cur)"

lemma eoi_search_place: "eoi_search f j i = Inr k \<Longrightarrow> i \<le> j \<Longrightarrow> i \<le> k"
proof (induction f j i rule: eoi_search.induct)
  case (1 f j i)
  then show ?case by (subst (asm) (3) eoi_search.simps) (auto split: if_splits)
qed

lemma check_marks_moves: "check_marks f i thumb cur = Inr (i', th, cur') \<Longrightarrow> i < i'"
  by (auto simp: check_marks_def Let_def split: if_splits)

lemma scan_body_moves: "scan_body f i thumb cur = Inr (i', th, cur') \<Longrightarrow> i < i'"
  using eoi_search_place
  by (fastforce simp: scan_body_def segment_end_def Let_def dest: check_marks_moves split: if_splits option.splits sum.splits)

text \<open>The outer search.\<close>

function frame_scan :: "u8 list \<Rightarrow> nat \<Rightarrow> bool \<Rightarrow> nat \<Rightarrow> nat option" where
  "frame_scan f i thumb cur =
     (if length f \<le> i then Some cur
      else (case scan_body f i thumb cur of Inl r \<Rightarrow> r | Inr (i', th, cur') \<Rightarrow> frame_scan f i' th cur'))"
  by pat_completeness auto

termination frame_scan
  by (relation "measure (\<lambda>(f, i, _). length f - i)") (auto dest!: scan_body_moves)

declare frame_scan.simps [simp del]

text \<open>\<open>StreamParserReadFrameJpeg\<close> on a file at its start, with the linear buffer that decoding uses: the bytes read into a
  buffer of \<open>n\<close>. The length is kept in 32 bits.\<close>

definition read_frame :: "nat \<Rightarrow> u8 list \<Rightarrow> u8 list option" where
  "read_frame n f =
     (case frame_scan f 0 False 0 of
        None \<Rightarrow> None
      | Some cur \<Rightarrow>
          (let len = cur mod 2 ^ 32
           in if n < len then None else if length (take len f) \<noteq> len then None else Some (take len f)))"

section \<open>The library\<close>

text \<open>What the encoder is told: the even sizes, the format, the addresses and the stride of the frame.\<close>

record encode_param =
  enc_width :: u32
  enc_height :: u32
  enc_format :: img_format
  enc_phy :: "u64 list"
  enc_stride :: u32
  enc_quality :: nat

datatype jpeg_call =
    JOpen | JSeekEnd | JClose | JAlloc nat "u64 \<times> u64" | JFree "u64 \<times> u64"
  | JDecodeFrame "u64 \<times> u64" "u8 list" video_frame | JEncodeFrame encode_param "u64 \<times> u64"

text \<open>Zero is the answer of a call that succeeds. What the \<open>n\<close>th call gives: the addresses of an allocation, the picture decoded,
  the bytes encoded; the size of a decoded picture; two bytes of the stack.\<close>

record jpeg_lib =
  j_answer :: "nat \<Rightarrow> jpeg_call \<Rightarrow> int"
  j_address :: "nat \<Rightarrow> u64 \<times> u64"
  j_decoded :: "nat \<Rightarrow> video_frame \<Rightarrow> video_frame"
  j_encoded :: "nat \<Rightarrow> u8 list"
  j_pic_size :: "int \<Rightarrow> int \<Rightarrow> nat"
  j_stack :: "u8 \<times> u8"

type_synonym jpeg_log = "(jpeg_call, int) hlog"

section \<open>Decoding\<close>

definition kStreamMax :: nat where
  "kStreamMax = 3 * 1024 * 1024"

definition zero_frame :: video_frame where
  "zero_frame = \<lparr>img_fmt = OtherFormat 0, vwidth = 0, vheight = 0, pic_stride = 0, frame_size = 0, phy_addr = [0, 0, 0], vir_addr = [0, 0, 0]\<rparr>"

definition jpeg_stride :: "nat \<Rightarrow> int" where
  "jpeg_stride w = uint (comm_align (of_nat w * 8) 512 div 8)"

text \<open>The frame the decoder is to fill: two planes in the output buffer. The product of stride and height is one of 32-bit
  integers, which wraps around on the target.\<close>

definition out_frame :: "u64 \<times> u64 \<Rightarrow> nat \<Rightarrow> nat \<Rightarrow> video_frame" where
  "out_frame b w h =
     (let luma = scast (word_of_int (jpeg_stride w * align_up (int h) 2) :: 32 word) :: u64
      in zero_frame\<lparr>phy_addr := [fst b, fst b + luma, 0], vir_addr := [snd b, snd b + luma, 0]\<rparr>)"

definition free_set :: "jpeg_lib \<Rightarrow> u64 \<times> u64 \<Rightarrow> jpeg_log \<Rightarrow> jpeg_log" where
  "free_set lib a tr = (if snd a \<noteq> 0 then snd (ask (j_answer lib) (JFree a) tr) else tr)"

definition close_in :: "jpeg_lib \<Rightarrow> jpeg_log \<Rightarrow> jpeg_log" where
  "close_in lib tr = snd (ask (j_answer lib) JClose tr)"

text \<open>\<open>JpegDecodeOneFrameInfo\<close>: the code and the frame, from the allocations on and as a whole.\<close>

definition decode_frame :: "jpeg_lib \<Rightarrow> u8 list \<Rightarrow> nat \<Rightarrow> nat \<Rightarrow> u64 \<times> u64 \<Rightarrow> u64 \<times> u64 \<Rightarrow> jpeg_log \<Rightarrow> int \<times> video_frame \<times> jpeg_log" where
  "decode_frame lib f w h a b tr =
     (case (if snd a = 0 then None else read_frame (min (length f) kStreamMax) f) of
        None \<Rightarrow> (1, zero_frame, close_in lib (free_set lib a (free_set lib b tr)))
      | Some bs \<Rightarrow>
          if bs = [] then (1, zero_frame, close_in lib (free_set lib a (free_set lib b tr)))
          else
            (let vf = out_frame b w h
             in case ask (j_answer lib) (JDecodeFrame a bs vf) tr of
                  (r, t1) \<Rightarrow>
                    if r \<noteq> 0 then (1, zero_frame, close_in lib (free_set lib a (free_set lib b t1)))
                    else
                      (case ask (j_answer lib) JClose t1 of
                         (q, t2) \<Rightarrow>
                           (case ask (j_answer lib) (JFree a) t2 of
                              (s, t3) \<Rightarrow> (if s \<noteq> 0 \<or> q \<noteq> 0 then 1 else 0, j_decoded lib (length tr) vf, t3)))))"

definition decode_one :: "jpeg_lib \<Rightarrow> u8 list \<Rightarrow> nat \<Rightarrow> nat \<Rightarrow> jpeg_log \<Rightarrow> int \<times> video_frame \<times> jpeg_log" where
  "decode_one lib f w h tr =
     (case ask (j_answer lib) JOpen tr of
        (r, t1) \<Rightarrow>
          if r \<noteq> 0 then (1, zero_frame, t1)
          else
            (case ask (j_answer lib) JSeekEnd t1 of
               (r, t2) \<Rightarrow>
                 if r \<noteq> 0 then (1, zero_frame, close_in lib t2)
                 else
                   (let a = j_address lib (length t2)
                    in case ask (j_answer lib) (JAlloc (min (length f) kStreamMax) a) t2 of
                         (r, t3) \<Rightarrow>
                           if r \<noteq> 0 then (1, zero_frame, close_in lib t3)
                           else
                             (let b = j_address lib (length t3)
                              in case ask (j_answer lib) (JAlloc (j_pic_size lib (align_up (int h) 2) (jpeg_stride w)) b) t3 of
                                   (r, t4) \<Rightarrow>
                                     if r \<noteq> 0 then (1, zero_frame, close_in lib (free_set lib a t4))
                                     else decode_frame lib f w h a b t4))))"

text \<open>\<open>JpegHelp::JpegDecode\<close>: the size is read from the file, which stays open, and used whatever the code was.\<close>

definition jpeg_decode :: "jpeg_lib \<Rightarrow> u8 list \<Rightarrow> int \<times> video_frame \<times> jpeg_log" where
  "jpeg_decode lib f =
     (case ask (j_answer lib) JOpen [] of
        (r, t1) \<Rightarrow>
          (case (if r \<noteq> 0 then (- 1, 0, 0) else size_scan f 0 (fst (j_stack lib)) (snd (j_stack lib))) of
             (_, w, h) \<Rightarrow> decode_one lib f w h t1))"

text \<open>\<open>JpegDecode\<close> of \<open>hal/image_data.cpp\<close>.\<close>

definition hal_jpeg_decode :: "jpeg_lib \<Rightarrow> u8 list \<Rightarrow> image_data \<Rightarrow> int \<times> image_data \<times> jpeg_log" where
  "hal_jpeg_decode lib f dest =
     (case jpeg_decode lib f of
        (r, vf, tr) \<Rightarrow>
          if r \<noteq> 0 then (r, dest, tr)
          else (r, dest\<lparr>width := vwidth vf, height := vheight vf, img_format := img_fmt vf,
                    data := Some (frame_create_sys (Some vf) kMemIdSys)\<rparr>, tr))"

section \<open>Encoding\<close>

definition encode_param_of :: "video_frame \<Rightarrow> encode_param" where
  "encode_param_of vf =
     \<lparr>enc_width = comm_align (vwidth vf) 2, enc_height = comm_align (vheight vf) 2, enc_format = img_fmt vf,
      enc_phy = phy_addr vf, enc_stride = pic_stride vf, enc_quality = 90\<rparr>"

text \<open>\<open>JpegHelp::JpegEncode\<close>: the code, the bytes of the destination, the log.\<close>

definition jpeg_encode :: "jpeg_lib \<Rightarrow> u8 list \<Rightarrow> video_frame \<Rightarrow> jpeg_log \<Rightarrow> int \<times> u8 list \<times> jpeg_log" where
  "jpeg_encode lib dest vf tr =
     (let a = j_address lib (length tr)
      in case ask (j_answer lib) (JAlloc (unat (frame_size vf)) a) tr of
           (r, t1) \<Rightarrow>
             if r \<noteq> 0 then (r, dest, t1)
             else
               (case ask (j_answer lib) (JEncodeFrame (encode_param_of vf) a) t1 of
                  (r, t2) \<Rightarrow>
                    (r, if r = 0 then j_encoded lib (length t1) else dest,
                     if fst a \<noteq> 0 \<and> snd a \<noteq> 0 then snd (ask (j_answer lib) (JFree a) t2) else t2)))"

text \<open>\<open>JpegEncode\<close> of \<open>hal/image_data.cpp\<close>.\<close>

definition hal_jpeg_encode :: "jpeg_lib \<Rightarrow> u8 list \<Rightarrow> image_data \<Rightarrow> jpeg_log \<Rightarrow> int \<times> u8 list \<times> jpeg_log" where
  "hal_jpeg_encode lib dest src tr =
     (if \<not> frame_valid (data src) then (- 1, dest, tr)
      else jpeg_encode lib dest (the (info (the (data src)))) tr)"

section \<open>Reading a picture\<close>

text \<open>Where no marker is special and no thumbnail begins the outer search walks on byte by byte.\<close>

definition special :: "u8 \<Rightarrow> bool" where
  "special m \<longleftrightarrow> m = 0xD9 \<or> skip_marker m \<or> frame_marker m"

definition plain_at :: "u8 list \<Rightarrow> nat \<Rightarrow> bool" where
  "plain_at f j \<longleftrightarrow> (f ! j = 0xFF \<longrightarrow> \<not> next_is f j special)"

lemma frame_scan_plain:
  assumes "i \<le> k" "k \<le> length f" "\<And>j. i \<le> j \<Longrightarrow> j < k \<Longrightarrow> plain_at f j \<and> \<not> thumb_at f j"
  shows "frame_scan f i False cur = frame_scan f k False cur"
  using assms
proof (induction "k - i" arbitrary: i)
  case (Suc d)
  then have i: "i < length f" "i < k" "plain_at f i" "\<not> thumb_at f i" by auto
  have "frame_scan f i False cur = frame_scan f (i + 1) False cur"
  proof (cases "f ! i = 0xFF")
    case True
    then have "\<not> next_is f i special" using i by (simp add: plain_at_def)
    then have "scan_body f i False cur = Inr (i + 1, False, cur)"
      using i True by (auto simp: next_is_def special_def scan_body_def check_marks_def)
    then show ?thesis using i by (subst frame_scan.simps) simp
  qed (use i in \<open>subst frame_scan.simps, simp add: scan_body_def\<close>)
  moreover have "frame_scan f (i + 1) False cur = frame_scan f k False cur" using Suc.hyps(1) [of "i + 1"] Suc.hyps(2) Suc.prems by simp
  ultimately show ?case by simp
qed simp

lemma frame_scan_segment:
  assumes "f ! i = 0xFF" "next_is f i skip_marker" "be16 (img_get_byte f (i + 2)) (img_get_byte f (i + 3)) = m" "2 \<le> m" "i + 2 + m \<le> length f"
  shows "frame_scan f i thumb cur = frame_scan f (i + 2 + m) thumb cur"
  using assms by (subst frame_scan.simps) (simp add: Let_def numeral_3_eq_3 next_is_def scan_body_def segment_end_def)

lemma frame_scan_end:
  assumes "f ! i = 0xFF" "i + 1 < length f" "f ! (i + 1) = 0xD9"
  shows "frame_scan f i False cur = Some (i + 2)"
  using assms by (subst frame_scan.simps) (simp add: Let_def next_is_def skip_marker_def frame_marker_def scan_body_def check_marks_def thumb_at_def)

text \<open>Bytes that hide no marker, wherever they stand.\<close>

fun tidy :: "u8 list \<Rightarrow> bool" where
  "tidy [] = True"
| "tidy [b] = (b \<noteq> 0xFF)"
| "tidy (b # c # bs) = ((b = 0xFF \<longrightarrow> \<not> special c) \<and> tidy (c # bs))"

lemma tidy_nth: "tidy xs \<Longrightarrow> j < length xs \<Longrightarrow> xs ! j = 0xFF \<Longrightarrow> j + 1 < length xs \<and> \<not> special (xs ! (j + 1))"
proof (induction xs arbitrary: j rule: tidy.induct)
  case (3 b c bs)
  then show ?case by (cases j) auto
qed auto

lemma plain_at_tidy: "tidy xs \<Longrightarrow> length pre \<le> j \<Longrightarrow> j < length pre + length xs \<Longrightarrow> plain_at (pre @ xs @ post) j"
  using tidy_nth [of xs "j - length pre"] by (auto simp: plain_at_def next_is_def nth_append less_diff_conv2 Suc_diff_le)

definition be16_bytes :: "nat \<Rightarrow> u8 list" where
  "be16_bytes n = [of_nat (n div 256), of_nat (n mod 256)]"

lemma be16_of_bytes: "n < 65536 \<Longrightarrow> be16 (of_nat (n div 256)) (of_nat (n mod 256)) = n"
  by (simp add: be16_def unsigned_of_nat take_bit_nat_eq_self)

type_synonym segment = "u8 \<times> u8 list"

fun seg_bytes :: "segment \<Rightarrow> u8 list" where
  "seg_bytes (m, p) = [0xFF, m] @ be16_bytes (length p + 2) @ p"

text \<open>A segment before the frame header: of a size that can be written, with a marker that neither reader takes for something
  else, and skipped by the search or without a marker in it.\<close>

fun seg_ok :: "segment \<Rightarrow> bool" where
  "seg_ok (m, p) \<longleftrightarrow> length p \<le> 65533 \<and> m \<notin> {0xC0, 0xD8, 0xD9, 0xDA, 0x00} \<and> (skip_marker m \<or> tidy (seg_bytes (m, p)))"

lemma seg_bytes_nth [simp]:
  "length (seg_bytes (m, p)) = length p + 4" "seg_bytes (m, p) ! 0 = 0xFF" "seg_bytes (m, p) ! 1 = m" "seg_bytes (m, p) ! Suc 0 = m"
  "seg_bytes (m, p) ! 2 = of_nat ((length p + 2) div 256)" "seg_bytes (m, p) ! 3 = of_nat ((length p + 2) mod 256)"
  by (simp_all add: be16_bytes_def numeral_2_eq_2 numeral_3_eq_3)

declare seg_bytes.simps [simp del]

lemma nth_at: "i = length pre + k \<Longrightarrow> k < length xs \<Longrightarrow> (pre @ xs @ post) ! i = xs ! k"
  by (simp add: nth_append)

lemma frame_scan_seg:
  assumes "seg_ok s" "\<And>j. j < length (pre @ seg_bytes s) \<Longrightarrow> \<not> thumb_at (pre @ seg_bytes s @ post) j"
  shows "frame_scan (pre @ seg_bytes s @ post) (length pre) False cur =
    frame_scan (pre @ seg_bytes s @ post) (length (pre @ seg_bytes s)) False cur"
proof -
  obtain m p where s: "s = (m, p)" by fastforce
  let ?f = "pre @ seg_bytes (m, p) @ post"
  show ?thesis
  proof (cases "skip_marker m")
    case True
    note at = nth_at [of _ pre _ "seg_bytes (m, p)" post]
    have "frame_scan ?f (length pre) False cur = frame_scan ?f (length pre + 2 + (length p + 2)) False cur"
    proof (rule frame_scan_segment)
      show "?f ! length pre = 0xFF" using at [of "length pre" 0] by simp
      show "next_is ?f (length pre) skip_marker" using at [of "length pre + 1" 1] True by (simp add: next_is_def)
      show "be16 (img_get_byte ?f (length pre + 2)) (img_get_byte ?f (length pre + 3)) = length p + 2"
        using at [of "length pre + 2" 2] at [of "length pre + 3" 3] assms(1) s be16_of_bytes [of "length p + 2"] by (simp add: img_get_byte_def)
    qed simp_all
    moreover have "length pre + 2 + (length p + 2) = length (pre @ seg_bytes (m, p))" by simp
    ultimately show ?thesis using s by metis
  next
    case False
    then have "tidy (seg_bytes (m, p))" using assms(1) s by simp
    then show ?thesis unfolding s using assms(2) s by (intro frame_scan_plain) (auto intro: plain_at_tidy)
  qed
qed

lemma frame_scan_segs:
  "(\<forall>s\<in>set segs. seg_ok s) \<Longrightarrow>
   (\<And>j. j < length (pre @ concat (map seg_bytes segs)) \<Longrightarrow> \<not> thumb_at (pre @ concat (map seg_bytes segs) @ post) j) \<Longrightarrow>
   frame_scan (pre @ concat (map seg_bytes segs) @ post) (length pre) False cur =
   frame_scan (pre @ concat (map seg_bytes segs) @ post) (length (pre @ concat (map seg_bytes segs))) False cur"
proof (induction segs arbitrary: pre)
  case (Cons s segs)
  show ?case using frame_scan_seg [of s pre "concat (map seg_bytes segs) @ post" cur] Cons.IH [of "pre @ seg_bytes s"] Cons.prems
    by simp
qed simp

lemma fread_pair_at:
  "p + 1 < length f \<Longrightarrow> fread_pair f p hi lo = (f ! p, f ! (p + 1), p + 2)"
  by (simp add: fread_pair_def fread_byte_def)

lemma size_scan_seg:
  assumes "seg_ok s"
  shows "\<exists>hi' lo'. size_scan (pre @ seg_bytes s @ post) (length pre) hi lo =
    size_scan (pre @ seg_bytes s @ post) (length (pre @ seg_bytes s)) hi' lo'"
proof -
  obtain m p where s: "s = (m, p)" by fastforce
  let ?f = "pre @ seg_bytes (m, p) @ post"
  note at = nth_at [of _ pre _ "seg_bytes (m, p)" post]
  have f: "?f ! length pre = 0xFF" "?f ! (length pre + 1) = m"
    "fread_pair ?f (length pre + 2) hi lo = (of_nat ((length p + 2) div 256), of_nat ((length p + 2) mod 256), length pre + 4)"
    using at [of "length pre" 0] at [of "length pre + 1" 1] at [of "length pre + 2" 2] at [of "Suc (Suc (Suc (length pre)))" 3] by (simp_all add: fread_pair_at)
  have rest: "seg_rest (of_nat ((length p + 2) div 256)) (of_nat ((length p + 2) mod 256)) = length p"
    using assms s be16_of_bytes [of "length p + 2"] by (simp add: seg_rest_def)
  have "size_scan ?f (length pre) hi lo =
      size_scan ?f (length pre + 4 + length p) (of_nat ((length p + 2) div 256)) (of_nat ((length p + 2) mod 256))"
    by (subst size_scan.simps) (use f rest assms s in \<open>simp add: size_body_def skip_segment_def\<close>)
  moreover have "length pre + 4 + length p = length (pre @ seg_bytes (m, p))" by simp
  ultimately show ?thesis unfolding s by metis
qed

lemma size_scan_segs:
  "(\<forall>s\<in>set segs. seg_ok s) \<Longrightarrow> \<exists>hi' lo'. size_scan (pre @ concat (map seg_bytes segs) @ post) (length pre) hi lo =
    size_scan (pre @ concat (map seg_bytes segs) @ post) (length (pre @ concat (map seg_bytes segs))) hi' lo'"
proof (induction segs arbitrary: pre hi lo)
  case (Cons s segs)
  obtain hi1 lo1 where "size_scan (pre @ seg_bytes s @ concat (map seg_bytes segs) @ post) (length pre) hi lo =
      size_scan (pre @ seg_bytes s @ concat (map seg_bytes segs) @ post) (length (pre @ seg_bytes s)) hi1 lo1"
    using size_scan_seg [of s pre "concat (map seg_bytes segs) @ post" hi lo] Cons.prems by auto
  moreover obtain hi2 lo2 where "size_scan ((pre @ seg_bytes s) @ concat (map seg_bytes segs) @ post) (length (pre @ seg_bytes s)) hi1 lo1 =
      size_scan ((pre @ seg_bytes s) @ concat (map seg_bytes segs) @ post) (length ((pre @ seg_bytes s) @ concat (map seg_bytes segs))) hi2 lo2"
    using Cons.IH [of "pre @ seg_bytes s" hi1 lo1] Cons.prems by auto
  ultimately show ?case by (intro exI [of _ hi2] exI [of _ lo2]) simp
qed auto

text \<open>The frame header of a baseline picture, and a whole picture: the start, segments, the header, the rest, the end.\<close>

definition sof_bytes :: "u8 \<times> u8 \<times> u8 \<Rightarrow> nat \<Rightarrow> nat \<Rightarrow> u8 list" where
  "sof_bytes l h w = [0xFF, 0xC0, fst l, fst (snd l), snd (snd l)] @ be16_bytes h @ be16_bytes w"

definition picture :: "segment list \<Rightarrow> u8 \<times> u8 \<times> u8 \<Rightarrow> nat \<Rightarrow> nat \<Rightarrow> u8 list \<Rightarrow> u8 list" where
  "picture segs l h w body = [0xFF, 0xD8] @ concat (map seg_bytes segs) @ (sof_bytes l h w @ body) @ [0xFF, 0xD9]"

lemma size_scan_sof:
  assumes "w < 65536" "h < 65536"
  shows "size_scan (pre @ sof_bytes l h w @ post) (length pre) hi lo = (0, w, h)"
  using assms by (subst size_scan.simps) (simp add: size_body_def sof_bytes_def be16_bytes_def fread_pair_def fread_byte_def be16_of_bytes nth_append)

lemma size_scan_picture:
  assumes "\<forall>s\<in>set segs. seg_ok s" "w < 65536" "h < 65536"
  shows "size_scan (picture segs l h w body @ rest) 0 hi lo = (0, w, h)"
proof -
  let ?pre = "[0xFF, 0xD8] :: u8 list" and ?post = "sof_bytes l h w @ body @ [0xFF, 0xD9] @ rest"
  have f: "picture segs l h w body @ rest = ?pre @ concat (map seg_bytes segs) @ ?post" by (simp add: picture_def)
  have "size_scan (?pre @ concat (map seg_bytes segs) @ ?post) 0 hi lo =
      size_scan (?pre @ concat (map seg_bytes segs) @ ?post) (length ?pre) hi lo"
    by (subst size_scan.simps) (simp add: size_body_def)
  moreover obtain hi' lo' where "size_scan (?pre @ concat (map seg_bytes segs) @ ?post) (length ?pre) hi lo =
      size_scan (?pre @ concat (map seg_bytes segs) @ ?post) (length (?pre @ concat (map seg_bytes segs))) hi' lo'"
    using size_scan_segs [OF assms(1), of ?pre ?post hi lo] by auto
  moreover have "size_scan ((?pre @ concat (map seg_bytes segs)) @ ?post) (length (?pre @ concat (map seg_bytes segs))) hi' lo' = (0, w, h)"
    by (rule size_scan_sof [OF assms(2,3)])
  ultimately show ?thesis unfolding f by simp
qed

lemma frame_scan_picture:
  assumes "\<forall>s\<in>set segs. seg_ok s" "tidy (sof_bytes l h w @ body)"
    "\<And>j. j < length (picture segs l h w body) \<Longrightarrow> \<not> thumb_at (picture segs l h w body @ rest) j"
  shows "frame_scan (picture segs l h w body @ rest) 0 False 0 = Some (length (picture segs l h w body))"
proof -
  let ?pre = "[0xFF, 0xD8] :: u8 list" and ?segs = "concat (map seg_bytes segs)" and ?xs = "sof_bytes l h w @ body"
  let ?f = "?pre @ ?segs @ ?xs @ [0xFF, 0xD9] @ rest"
  have f: "picture segs l h w body @ rest = ?f" by (simp add: picture_def)
  have n: "\<not> thumb_at ?f j" if "j < length (?pre @ ?segs @ ?xs)" for j
    using assms(3) [of j] that by (simp add: f) (simp add: picture_def)
  have p: "plain_at ?f j" if "j < 2" for j
    using that by (auto simp: plain_at_def next_is_def special_def skip_marker_def frame_marker_def less_2_cases_iff)
  have "frame_scan ?f 0 False 0 = frame_scan ?f (length ?pre) False 0"
    by (rule frame_scan_plain) (use n p in auto)
  also have "\<dots> = frame_scan ?f (length (?pre @ ?segs)) False 0"
    using frame_scan_segs [OF assms(1), of ?pre "?xs @ [0xFF, 0xD9] @ rest" 0] n by auto
  also have "\<dots> = frame_scan ?f (length (?pre @ ?segs @ ?xs)) False 0"
  proof (rule frame_scan_plain)
    show "plain_at ?f j \<and> \<not> thumb_at ?f j" if "length (?pre @ ?segs) \<le> j" "j < length (?pre @ ?segs @ ?xs)" for j
      using plain_at_tidy [OF assms(2), of "?pre @ ?segs" j "[0xFF, 0xD9] @ rest"] that n by simp
  qed simp_all
  also have "\<dots> = Some (length (?pre @ ?segs @ ?xs) + 2)"
    by (rule frame_scan_end) (simp_all add: nth_append)
  finally show ?thesis unfolding f by (simp add: picture_def)
qed

lemma no_thumb: "list_all (\<lambda>j. \<not> thumb_at f j) [0..<n] \<Longrightarrow> j < n \<Longrightarrow> \<not> thumb_at f j"
  by (auto simp: list_all_iff)

text \<open>C38. A baseline picture of the following kind is read as it is, whatever comes behind it in the file: it is the start
  marker, segments with lengths of their own, the baseline frame header, the rest of the picture and the end marker, where
  no end marker, application marker 1 to 15 or other frame header appears in the rest or in a segment that is not itself
  one of the application segments 1 to 15; no JFXX thumbnail begins in it; and it fits the buffer and 32 bits. Then the size
  read is that of the frame header, and the stream handed to the decoder is the picture, no byte more or less.\<close>

theorem jpeg_picture_read:
  assumes "\<forall>s\<in>set segs. seg_ok s" "w < 65536" "h < 65536" "tidy (sof_bytes l h w @ body)"
    "list_all (\<lambda>j. \<not> thumb_at (picture segs l h w body @ rest) j) [0..<length (picture segs l h w body)]"
    "length (picture segs l h w body) \<le> n" "length (picture segs l h w body) < 2 ^ 32"
  shows "size_scan (picture segs l h w body @ rest) 0 hi lo = (0, w, h) \<and>
    read_frame n (picture segs l h w body @ rest) = Some (picture segs l h w body)"
proof
  have "frame_scan (picture segs l h w body @ rest) 0 False 0 = Some (length (picture segs l h w body))"
    by (rule frame_scan_picture [OF assms(1,4)]) (rule no_thumb [OF assms(5)])
  then show "read_frame n (picture segs l h w body @ rest) = Some (picture segs l h w body)"
    using assms(6,7) by (simp add: read_frame_def)
qed (rule size_scan_picture [OF assms(1-3)])

text \<open>A picture with two segments, the bytes \<open>FF D9\<close> in the one that is skipped, and a second end behind it.\<close>

definition demo_segs :: "segment list" where
  "demo_segs = [(0xE1, [0xFF, 0xD9, 1]), (0xDB, [1, 2, 3])]"

theorem jpeg_picture_read_witness:
  "size_scan (picture demo_segs (0, 11, 8) 1080 1920 [1, 0xFF, 0, 7] @ [0xFF, 0xD9]) 0 5 6 = (0, 1920, 1080) \<and>
   read_frame 100 (picture demo_segs (0, 11, 8) 1080 1920 [1, 0xFF, 0, 7] @ [0xFF, 0xD9]) =
     Some (picture demo_segs (0, 11, 8) 1080 1920 [1, 0xFF, 0, 7])"
proof (rule jpeg_picture_read)
  have l: "length (picture demo_segs (0, 11, 8) 1080 1920 [1, 0xFF, 0, 7]) = 31"
    by (simp add: picture_def demo_segs_def sof_bytes_def be16_bytes_def)
  then show "length (picture demo_segs (0, 11, 8) 1080 1920 [1, 0xFF, 0, 7]) \<le> 100"
    "length (picture demo_segs (0, 11, 8) 1080 1920 [1, 0xFF, 0, 7]) < 2 ^ 32" by simp_all
  show "\<forall>s\<in>set demo_segs. seg_ok s"
    by (simp add: demo_segs_def skip_marker_def seg_bytes.simps be16_bytes_def special_def frame_marker_def)
  show "tidy (sof_bytes (0, 11, 8) 1080 1920 @ [1, 0xFF, 0, 7])"
    by (simp add: sof_bytes_def be16_bytes_def special_def skip_marker_def frame_marker_def)
  show "list_all (\<lambda>j. \<not> thumb_at (picture demo_segs (0, 11, 8) 1080 1920 [1, 0xFF, 0, 7] @ [0xFF, 0xD9]) j)
      [0..<length (picture demo_segs (0, 11, 8) 1080 1920 [1, 0xFF, 0, 7])]"
    by code_simp
qed simp_all

text \<open>The condition on the segments is needed: only the application segments 1 to 15 are skipped by their length. A comment with the
  bytes of an end marker in it, which a decoder has to skip, makes the search end inside the comment, and the hardware is
  handed a picture without its frame header.\<close>

lemma comment_cuts_picture:
  "read_frame 100 (picture [(0xFE, [0xFF, 0xD9])] (0, 11, 8) 1080 1920 [1, 7]) = Some [0xFF, 0xD8, 0xFF, 0xFE, 0, 4, 0xFF, 0xD9]"
  "size_scan (picture [(0xFE, [0xFF, 0xD9])] (0, 11, 8) 1080 1920 [1, 7]) 0 hi lo = (0, 1920, 1080)"
proof -
  have "frame_scan (picture [(0xFE, [0xFF, 0xD9])] (0, 11, 8) 1080 1920 [1, 7]) 0 False 0 = Some 8" by code_simp
  then show "read_frame 100 (picture [(0xFE, [0xFF, 0xD9])] (0, 11, 8) 1080 1920 [1, 7]) = Some [0xFF, 0xD8, 0xFF, 0xFE, 0, 4, 0xFF, 0xD9]"
    by (simp add: read_frame_def picture_def seg_bytes.simps be16_bytes_def)
  have "picture [(0xFE, [0xFF, 0xD9])] (0, 11, 8) 1080 1920 [1, 7] =
      [0xFF, 0xD8, 0xFF, 0xFE, 0, 4, 0xFF, 0xD9, 0xFF, 0xC0, 0, 11, 8, 4, 56, 7, 128, 1, 7, 0xFF, 0xD9]"
    by (simp add: picture_def seg_bytes.simps be16_bytes_def sof_bytes_def)
  then show "size_scan (picture [(0xFE, [0xFF, 0xD9])] (0, 11, 8) 1080 1920 [1, 7]) 0 hi lo = (0, 1920, 1080)"
    by (simp add: size_scan.simps size_body_def skip_segment_def fread_pair_def fread_byte_def seg_rest_def be16_def)
qed

text \<open>For any file: what is read is a beginning of it that fits the buffer, and it ends with an end marker.\<close>

lemma eoi_search_found: "eoi_search f j i = Inl e \<Longrightarrow> 2 \<le> e \<and> e \<le> length f \<and> f ! (e - 1) = 0xD9"
proof (induction f j i rule: eoi_search.induct)
  case (1 f j i)
  then show ?case by (subst (asm) (3) eoi_search.simps) (auto simp: next_is_def split: if_splits)
qed

definition end_ok :: "u8 list \<Rightarrow> nat \<Rightarrow> bool" where
  "end_ok f e \<longleftrightarrow> e = 0 \<or> (2 \<le> e \<and> e \<le> length f \<and> f ! (e - 1) = 0xD9)"

lemma scan_body_end:
  "end_ok f cur \<Longrightarrow> (case scan_body f i thumb cur of Inl None \<Rightarrow> True | Inl (Some e) \<Rightarrow> end_ok f e | Inr (_, _, e) \<Rightarrow> end_ok f e)"
  by (auto simp: scan_body_def check_marks_def next_is_def end_ok_def Let_def dest: eoi_search_found split: if_splits option.splits sum.splits)

lemma frame_scan_end_ok: "frame_scan f i thumb cur = Some e \<Longrightarrow> end_ok f cur \<Longrightarrow> end_ok f e"
proof (induction f i thumb cur rule: frame_scan.induct)
  case (1 f i thumb cur)
  show ?case
  proof (cases "length f \<le> i")
    case True
    then show ?thesis using 1 by (simp add: frame_scan.simps [of f i])
  next
    case False
    note s = scan_body_end [OF 1(3), of i thumb]
    show ?thesis
    proof (cases "scan_body f i thumb cur")
      case (Inl r)
      then show ?thesis using 1(2) s False by (simp add: frame_scan.simps [of f i])
    next
      case (Inr y)
      then show ?thesis using 1 s False by (cases y) (simp add: frame_scan.simps [of f i])
    qed
  qed
qed

lemma read_frame_prefix:
  assumes "read_frame n f = Some bs"
  shows "length bs \<le> n \<and> bs = take (length bs) f \<and> (bs \<noteq> [] \<and> length f < 2 ^ 32 \<longrightarrow> last bs = 0xD9)"
proof -
  obtain e where e: "frame_scan f 0 False 0 = Some e" "e mod 2 ^ 32 \<le> n" "bs = take (e mod 2 ^ 32) f" "length bs = e mod 2 ^ 32"
    using assms by (auto simp: read_frame_def Let_def split: option.splits if_splits)
  have "end_ok f e" by (rule frame_scan_end_ok [OF e(1)]) (simp add: end_ok_def)
  then have "bs \<noteq> [] \<Longrightarrow> length f < 2 ^ 32 \<Longrightarrow> last bs = 0xD9"
    using e(3,4) by (auto simp: end_ok_def last_conv_nth)
  then show ?thesis using e by simp
qed

section \<open>What decoding and encoding leave behind\<close>

text \<open>The files open, the buffers that nobody has tried to give back, and those that the library refused to take. The decoder
  is given a stream that begins the file and fits the stream buffer, and planes in a buffer that is there. A file is gone
  after \<open>fclose\<close>, whatever it answers.\<close>

record jpeg_mon =
  jm_files :: nat
  jm_mem :: "(u64 \<times> u64) multiset"
  jm_stuck :: "(u64 \<times> u64) multiset"

fun jpeg_mon_step :: "u8 list \<Rightarrow> jpeg_call \<times> int \<Rightarrow> jpeg_mon \<Rightarrow> jpeg_mon option" where
  "jpeg_mon_step f (JOpen, r) s = Some (if r = 0 then s\<lparr>jm_files := jm_files s + 1\<rparr> else s)"
| "jpeg_mon_step f (JSeekEnd, r) s = (if jm_files s = 0 then None else Some s)"
| "jpeg_mon_step f (JClose, r) s = (if jm_files s = 0 then None else Some (s\<lparr>jm_files := jm_files s - 1\<rparr>))"
| "jpeg_mon_step f (JAlloc n a, r) s = Some (if r = 0 then s\<lparr>jm_mem := add_mset a (jm_mem s)\<rparr> else s)"
| "jpeg_mon_step f (JFree a, r) s =
     (if a \<in># jm_mem s
      then Some (s\<lparr>jm_mem := jm_mem s - {#a#}, jm_stuck := (if r = 0 then jm_stuck s else add_mset a (jm_stuck s))\<rparr>)
      else None)"
| "jpeg_mon_step f (JDecodeFrame a bs vf, r) s =
     (if a \<in># jm_mem s \<and> (phy_addr vf ! 0, vir_addr vf ! 0) \<in># jm_mem s \<and> bs \<noteq> [] \<and> bs = take (length bs) f \<and>
         length bs \<le> kStreamMax then Some s else None)"
| "jpeg_mon_step f (JEncodeFrame p a, r) s = (if a \<in># jm_mem s then Some s else None)"

definition jpeg_mon_start :: jpeg_mon where
  "jpeg_mon_start = \<lparr>jm_files = 0, jm_mem = {#}, jm_stuck = {#}\<rparr>"

definition jpeg_after :: "u8 list \<Rightarrow> jpeg_log \<Rightarrow> jpeg_mon \<Rightarrow> bool" where
  "jpeg_after f tr s \<longleftrightarrow> run_log (jpeg_mon_step f) tr jpeg_mon_start = Some s"

lemma jpeg_after_ask:
  "jpeg_after f tr s \<Longrightarrow> jpeg_mon_step f (c, fst (ask A c tr)) s = Some s' \<Longrightarrow> jpeg_after f (snd (ask A c tr)) s'"
  by (simp add: jpeg_after_def ask_def Let_def)

text \<open>Whether the hardware has decoded a picture, and what is open and held while it has not.\<close>

definition hardware_decoded :: "jpeg_log \<Rightarrow> bool" where
  "hardware_decoded tr \<longleftrightarrow> (\<exists>a bs v. (JDecodeFrame a bs v, 0) \<in> set tr)"

definition jpeg_holds :: "u8 list \<Rightarrow> jpeg_log \<Rightarrow> nat \<Rightarrow> (u64 \<times> u64) multiset \<Rightarrow> bool" where
  "jpeg_holds f tr n m \<longleftrightarrow> \<not> hardware_decoded tr \<and> (\<exists>k. jpeg_after f tr \<lparr>jm_files = n, jm_mem = m, jm_stuck = k\<rparr>)"

lemma jpeg_holds_ask:
  assumes "jpeg_holds f tr n m" "ask A c tr = (r, tr')" "\<nexists>a bs v. c = JDecodeFrame a bs v \<and> r = 0"
    "\<And>k. \<exists>k'. jpeg_mon_step f (c, r) \<lparr>jm_files = n, jm_mem = m, jm_stuck = k\<rparr> = Some \<lparr>jm_files = n', jm_mem = m', jm_stuck = k'\<rparr>"
  shows "jpeg_holds f tr' n' m'"
proof -
  obtain k where k: "jpeg_after f tr \<lparr>jm_files = n, jm_mem = m, jm_stuck = k\<rparr>" using assms(1) by (auto simp: jpeg_holds_def)
  obtain k' where "jpeg_mon_step f (c, fst (ask A c tr)) \<lparr>jm_files = n, jm_mem = m, jm_stuck = k\<rparr> =
      Some \<lparr>jm_files = n', jm_mem = m', jm_stuck = k'\<rparr>"
    using assms(2) assms(4) [of k] by auto
  then have "jpeg_after f tr' \<lparr>jm_files = n', jm_mem = m', jm_stuck = k'\<rparr>" using jpeg_after_ask [OF k] assms(2) by (metis snd_conv)
  moreover have "\<not> hardware_decoded tr'"
    using assms(1,3) ask_log [OF assms(2)] unfolding jpeg_holds_def hardware_decoded_def by auto
  ultimately show ?thesis by (auto simp: jpeg_holds_def)
qed

text \<open>The ways out, from a state with the two buffers and the file open.\<close>

lemma close_in_holds: "jpeg_holds f tr (Suc n) m \<Longrightarrow> jpeg_holds f (close_in lib tr) n m"
  unfolding close_in_def by (erule jpeg_holds_ask [OF _ prod.collapse [symmetric]]) simp_all

lemma free_set_holds:
  "jpeg_holds f tr n m \<Longrightarrow> snd a \<noteq> 0 \<Longrightarrow> a \<in># m \<Longrightarrow> jpeg_holds f (free_set lib a tr) n (m - {#a#})"
  by (simp add: free_set_def) (erule jpeg_holds_ask [OF _ prod.collapse [symmetric]], simp_all)

lemma give_up_holds:
  assumes "jpeg_holds f tr (Suc n) {#a, b#}" "snd a \<noteq> 0" "snd b \<noteq> 0"
  shows "jpeg_holds f (close_in lib (free_set lib a (free_set lib b tr))) n {#}"
  using close_in_holds [OF free_set_holds [OF free_set_holds [OF assms(1,3)] assms(2)], of lib lib lib] by simp

text \<open>How decoding ends. When the hardware has decoded, the last three calls are its call, the closing of the file and the
  giving back of the stream buffer, the frame is the decoded one and its buffer is what is left; the code is zero exactly when
  the last two calls have succeeded. When it has not, the code is not zero, the frame is empty and nothing is left.\<close>

definition decode_ended :: "jpeg_lib \<Rightarrow> int \<Rightarrow> video_frame \<Rightarrow> jpeg_log \<Rightarrow> (u64 \<times> u64) multiset \<Rightarrow> bool" where
  "decode_ended lib r vf tr m \<longleftrightarrow>
     (if hardware_decoded tr
      then \<exists>pre a bs v q s. tr = pre @ [(JDecodeFrame a bs v, 0), (JClose, q), (JFree a, s)] \<and>
        vf = j_decoded lib (length pre) v \<and> m = {#(phy_addr v ! 0, vir_addr v ! 0)#} \<and> (r = 0) = (q = 0 \<and> s = 0)
      else r \<noteq> 0 \<and> vf = zero_frame \<and> m = {#})"

definition decode_leaves :: "u8 list \<Rightarrow> jpeg_lib \<Rightarrow> int \<Rightarrow> video_frame \<Rightarrow> jpeg_log \<Rightarrow> nat \<Rightarrow> bool" where
  "decode_leaves f lib r vf tr n \<longleftrightarrow>
     (\<exists>m k. jpeg_after f tr \<lparr>jm_files = n, jm_mem = m, jm_stuck = k\<rparr> \<and> decode_ended lib r vf tr m)"

lemma holds_leaves: "jpeg_holds f tr n {#} \<Longrightarrow> decode_leaves f lib 1 zero_frame tr n"
  by (auto simp: jpeg_holds_def decode_leaves_def decode_ended_def)

lemma decode_frame_leaves:
  assumes "decode_frame lib f w h a b tr = (r, vf, tr')" "jpeg_holds f tr (Suc n) {#a, b#}" "snd a \<noteq> 0" "snd b \<noteq> 0"
  shows "decode_leaves f lib r vf tr' n"
proof -
  note quit = holds_leaves [OF give_up_holds [OF _ assms(3,4)], of f _ n lib lib]
  show ?thesis
  proof (cases "\<exists>bs. read_frame (min (length f) kStreamMax) f = Some bs \<and> bs \<noteq> []")
    case True
    then obtain bs where bs: "read_frame (min (length f) kStreamMax) f = Some bs" "bs \<noteq> []" by blast
    let ?v = "out_frame b w h"
    obtain q1 t1 where d: "ask (j_answer lib) (JDecodeFrame a bs ?v) tr = (q1, t1)" by fastforce
    obtain q2 t2 where c: "ask (j_answer lib) JClose t1 = (q2, t2)" by fastforce
    obtain q3 t3 where e: "ask (j_answer lib) (JFree a) t2 = (q3, t3)" by fastforce
    have v: "phy_addr ?v ! 0 = fst b" "vir_addr ?v ! 0 = snd b" by (simp_all add: out_frame_def Let_def)
    have fits: "jpeg_mon_step f (JDecodeFrame a bs ?v, q1) \<lparr>jm_files = Suc n, jm_mem = {#a, b#}, jm_stuck = k\<rparr> =
        Some \<lparr>jm_files = Suc n, jm_mem = {#a, b#}, jm_stuck = k\<rparr>" for k
      using read_frame_prefix [OF bs(1)] bs(2) v by simp
    show ?thesis
    proof (cases "q1 = 0")
      case False
      then have "jpeg_holds f t1 (Suc n) {#a, b#}" using fits by (intro jpeg_holds_ask [OF assms(2) d]) auto
      then show ?thesis using assms(1,3) bs d False quit by (auto simp: decode_frame_def Let_def)
    next
      case True
      obtain k where k: "jpeg_after f tr \<lparr>jm_files = Suc n, jm_mem = {#a, b#}, jm_stuck = k\<rparr>"
        using assms(2) by (auto simp: jpeg_holds_def)
      have "jpeg_after f t3 \<lparr>jm_files = n, jm_mem = {#b#}, jm_stuck = (if q3 = 0 then k else add_mset a k)\<rparr>"
        using k fits [of k] True ask_log [OF d] ask_log [OF c] ask_log [OF e] by (simp add: jpeg_after_def)
      moreover have t3: "t3 = tr @ [(JDecodeFrame a bs ?v, 0), (JClose, q2), (JFree a, q3)]"
        using ask_log [OF d] ask_log [OF c] ask_log [OF e] True by simp
      moreover have "hardware_decoded t3"
        unfolding t3 hardware_decoded_def by (intro exI [of _ a] exI [of _ bs] exI [of _ ?v]) simp
      moreover have "r = (if q3 \<noteq> 0 \<or> q2 \<noteq> 0 then 1 else 0)" "vf = j_decoded lib (length tr) ?v" "tr' = t3"
        using assms(1,3) bs d c e True by (auto simp: decode_frame_def Let_def)
      ultimately show ?thesis using v by (auto simp: decode_leaves_def decode_ended_def)
    qed
  next
    case False
    then have "decode_frame lib f w h a b tr = (1, zero_frame, close_in lib (free_set lib a (free_set lib b tr)))"
      using assms(3) by (cases "read_frame (min (length f) kStreamMax) f") (auto simp: decode_frame_def)
    then show ?thesis using assms(1) quit [OF assms(2)] by auto
  qed
qed

lemma decode_one_leaves:
  assumes "decode_one lib f w h tr = (r, vf, tr')" "jpeg_holds f tr n {#}" "\<forall>k. snd (j_address lib k) \<noteq> 0"
  shows "decode_leaves f lib r vf tr' n"
proof -
  obtain q1 t1 where o: "ask (j_answer lib) JOpen tr = (q1, t1)" by fastforce
  obtain q2 t2 where k: "ask (j_answer lib) JSeekEnd t1 = (q2, t2)" by fastforce
  let ?a = "j_address lib (length t2)"
  obtain q3 t3 where a: "ask (j_answer lib) (JAlloc (min (length f) kStreamMax) ?a) t2 = (q3, t3)" by fastforce
  let ?b = "j_address lib (length t3)"
  obtain q4 t4 where b: "ask (j_answer lib) (JAlloc (j_pic_size lib (align_up (int h) 2) (jpeg_stride w)) ?b) t3 = (q4, t4)" by fastforce
  have t1: "jpeg_holds f t1 (if q1 = 0 then Suc n else n) {#}" by (rule jpeg_holds_ask [OF assms(2) o]) auto
  have t2: "jpeg_holds f t2 (Suc n) {#}" if "q1 = 0" using t1 that by (intro jpeg_holds_ask [OF _ k, of f "Suc n" "{#}"]) auto
  have t3: "jpeg_holds f t3 (Suc n) (if q3 = 0 then {#?a#} else {#})" if "q1 = 0"
    by (rule jpeg_holds_ask [OF t2 [OF that] a]) auto
  have t4: "jpeg_holds f t4 (Suc n) (if q4 = 0 then {#?a, ?b#} else {#?a#})" if "q1 = 0" "q3 = 0"
    using t3 that by (intro jpeg_holds_ask [OF _ b, of f "Suc n" "{#?a#}"]) (auto simp: add_mset_commute)
  note closed = holds_leaves [OF close_in_holds]
  consider "q1 \<noteq> 0" | "q1 = 0" "q2 \<noteq> 0" | "q1 = 0" "q2 = 0" "q3 \<noteq> 0" | "q1 = 0" "q2 = 0" "q3 = 0" "q4 \<noteq> 0"
    | "q1 = 0" "q2 = 0" "q3 = 0" "q4 = 0" by blast
  then show ?thesis
  proof cases
    case 1
    then show ?thesis using assms(1) o t1 holds_leaves by (auto simp: decode_one_def)
  next
    case 2
    then show ?thesis using assms(1) o k closed [OF t2] by (auto simp: decode_one_def)
  next
    case 3
    then have "jpeg_holds f t3 (Suc n) {#}" using t3 by simp
    then show ?thesis using 3 assms(1) o k a closed by (auto simp: decode_one_def Let_def)
  next
    case 4
    then have "jpeg_holds f (free_set lib ?a t4) (Suc n) {#}"
      using free_set_holds [OF t4, of ?a lib] assms(3) by simp
    then show ?thesis using 4 assms(1) o k a b closed by (auto simp: decode_one_def Let_def)
  next
    case 5
    then have "decode_frame lib f w h ?a ?b t4 = (r, vf, tr')" using assms(1) o k a b by (simp add: decode_one_def Let_def)
    then show ?thesis using decode_frame_leaves t4 5 assms(3) by simp
  qed
qed

text \<open>C39. Decoding a file gives back what it takes, whatever the library answers: every call is in order, the hardware is given
  a non-empty beginning of the file that fits the stream buffer and planes in a buffer of its own, each buffer is given to
  \<open>AX_SYS_MemFree\<close> at most once, and at the end the stream buffer has been and the file it was read from is closed. If the hardware
  has decoded the picture, the frame returned is the decoded one and the output buffer that its planes are in is left, also when
  the code is not zero, which is then exactly when the closing of the file or the giving back of the stream buffer, the last two
  calls, has failed. If it has not, the code is not zero, the frame is empty and no buffer is left. The file that the size was read
  from stays open in any case.\<close>

theorem jpeg_decode_gives_back:
  assumes "\<forall>k. snd (j_address lib k) \<noteq> 0" "jpeg_decode lib f = (r, vf, tr)"
  shows "\<exists>m stuck. run_log (jpeg_mon_step f) tr jpeg_mon_start =
      Some \<lparr>jm_files = if j_answer lib 0 JOpen = 0 then 1 else 0, jm_mem = m, jm_stuck = stuck\<rparr> \<and>
    (if hardware_decoded tr
     then \<exists>pre a bs v q s. tr = pre @ [(JDecodeFrame a bs v, 0), (JClose, q), (JFree a, s)] \<and>
       vf = j_decoded lib (length pre) v \<and> m = {#(phy_addr v ! 0, vir_addr v ! 0)#} \<and> (r = 0) = (q = 0 \<and> s = 0)
     else r \<noteq> 0 \<and> vf = zero_frame \<and> m = {#})"
proof -
  obtain q t1 where o: "ask (j_answer lib) JOpen [] = (q, t1)" by fastforce
  obtain c w h where d: "(if q \<noteq> 0 then (- 1, 0, 0) else size_scan f 0 (fst (j_stack lib)) (snd (j_stack lib))) = (c, w, h)"
    by (metis prod_cases3)
  have one: "decode_one lib f w h t1 = (r, vf, tr)" using assms(2) o d by (simp add: jpeg_decode_def)
  have "jpeg_holds f t1 (if j_answer lib 0 JOpen = 0 then 1 else 0) {#}"
    using o by (auto simp: ask_def Let_def jpeg_after_def jpeg_holds_def hardware_decoded_def jpeg_mon_start_def)
  from decode_one_leaves [OF one this assms(1)] show ?thesis unfolding decode_leaves_def decode_ended_def jpeg_after_def .
qed

text \<open>A library whose allocation at the given place fails.\<close>

definition demo_jpeg_lib :: "nat \<Rightarrow> jpeg_lib" where
  "demo_jpeg_lib bad = \<lparr>j_answer = (\<lambda>k c. case c of JAlloc n a \<Rightarrow> if k = bad then 7 else 0 | _ \<Rightarrow> 0), j_address = (\<lambda>k. (of_nat k, 1)),
     j_decoded = (\<lambda>k v. v\<lparr>vwidth := 4\<rparr>), j_encoded = (\<lambda>k. []), j_pic_size = (\<lambda>h s. nat (h * s)), j_stack = (1, 2)\<rparr>"

definition demo_jpeg :: "u8 list" where
  "demo_jpeg = picture demo_segs (0, 11, 8) 2 4 [1, 0xFF, 0, 7] @ [0xFF, 0xD9]"

lemma demo_jpeg_read:
  "size_scan demo_jpeg 0 hi lo = (0, 4, 2)" "read_frame (min 33 kStreamMax) demo_jpeg = Some (take 31 demo_jpeg)"
  "length demo_jpeg = 33" "demo_jpeg \<noteq> []" "31 \<le> kStreamMax"
proof -
  have segs: "\<forall>s\<in>set demo_segs. seg_ok s"
    by (simp add: demo_segs_def skip_marker_def seg_bytes.simps be16_bytes_def special_def frame_marker_def)
  have t: "tidy (sof_bytes (0, 11, 8) 2 4 @ [1, 0xFF, 0, 7])"
    by (simp add: sof_bytes_def be16_bytes_def special_def skip_marker_def frame_marker_def)
  have l: "length (picture demo_segs (0, 11, 8) 2 4 [1, 0xFF, 0, 7]) = 31"
    by (simp add: picture_def demo_segs_def sof_bytes_def be16_bytes_def)
  have n: "list_all (\<lambda>j. \<not> thumb_at (picture demo_segs (0, 11, 8) 2 4 [1, 0xFF, 0, 7] @ [0xFF, 0xD9]) j)
      [0..<length (picture demo_segs (0, 11, 8) 2 4 [1, 0xFF, 0, 7])]" by code_simp
  have "frame_scan demo_jpeg 0 False 0 = Some 31"
    using frame_scan_picture [OF segs t no_thumb [OF n]] by (simp only: demo_jpeg_def l)
  moreover show n: "length demo_jpeg = 33" using l by (simp add: demo_jpeg_def)
  ultimately show "read_frame (min 33 kStreamMax) demo_jpeg = Some (take 31 demo_jpeg)"
    by (simp add: read_frame_def kStreamMax_def)
  show "31 \<le> kStreamMax" by (simp add: kStreamMax_def)
  show "demo_jpeg \<noteq> []" using n by auto
  show "size_scan demo_jpeg 0 hi lo = (0, 4, 2)" unfolding demo_jpeg_def by (rule size_scan_picture [OF segs]) simp_all
qed

lemmas demo_decode_simps = jpeg_decode_def decode_one_def decode_frame_def ask_def Let_def free_set_def close_in_def demo_jpeg_lib_def demo_jpeg_read

lemma demo_jpeg_decoded:
  "fst (jpeg_decode (demo_jpeg_lib 4) demo_jpeg) = 1"
  "fst (jpeg_decode (demo_jpeg_lib 9) demo_jpeg) = 0"
  by (simp_all add: demo_decode_simps)

theorem jpeg_decode_gives_back_witness:
  "map_option jm_mem (run_log (jpeg_mon_step demo_jpeg) (snd (snd (jpeg_decode (demo_jpeg_lib 4) demo_jpeg))) jpeg_mon_start) = Some {#} \<and>
   map_option jm_mem (run_log (jpeg_mon_step demo_jpeg) (snd (snd (jpeg_decode (demo_jpeg_lib 9) demo_jpeg))) jpeg_mon_start) = Some {#(4, 1)#}"
proof -
  have a: "\<forall>k. snd (j_address (demo_jpeg_lib n) k) \<noteq> 0" for n by (simp add: demo_jpeg_lib_def)
  obtain r1 v1 t1 where d1: "jpeg_decode (demo_jpeg_lib 4) demo_jpeg = (r1, v1, t1)" by (metis prod_cases3)
  obtain r2 v2 t2 where d2: "jpeg_decode (demo_jpeg_lib 9) demo_jpeg = (r2, v2, t2)" by (metis prod_cases3)
  have n1: "\<not> hardware_decoded t1" using d1 by (auto simp: demo_decode_simps hardware_decoded_def)
  have t2: "t2 = butlast (butlast (butlast t2)) @ [(JDecodeFrame (3, 1) (take 31 demo_jpeg) (out_frame (4, 1) 4 2), 0), (JClose, 0), (JFree (3, 1), 0)]"
    using d2 by (auto simp: demo_decode_simps)
  have "\<exists>m. map_option jm_mem (run_log (jpeg_mon_step demo_jpeg) t1 jpeg_mon_start) = Some m \<and> m = {#}"
    using jpeg_decode_gives_back [OF a d1] n1 by auto
  moreover have "map_option jm_mem (run_log (jpeg_mon_step demo_jpeg) t2 jpeg_mon_start) = Some {#(4, 1)#}"
  proof -
    have h: "hardware_decoded t2" using t2 unfolding hardware_decoded_def by (metis in_set_conv_decomp)
    obtain m k pre x bs v q s where g: "run_log (jpeg_mon_step demo_jpeg) t2 jpeg_mon_start =
        Some \<lparr>jm_files = if j_answer (demo_jpeg_lib 9) 0 JOpen = 0 then 1 else 0, jm_mem = m, jm_stuck = k\<rparr>"
      "t2 = pre @ [(JDecodeFrame x bs v, 0), (JClose, q), (JFree x, s)]" "m = {#(phy_addr v ! 0, vir_addr v ! 0)#}"
      using jpeg_decode_gives_back [OF a d2] unfolding if_P [OF h] by blast
    have "rev t2 ! 2 = (JDecodeFrame (3, 1) (take 31 demo_jpeg) (out_frame (4, 1) 4 2), 0)"
      by (subst t2) (simp add: numeral_2_eq_2)
    moreover have "rev t2 ! 2 = (JDecodeFrame x bs v, 0)" unfolding g(2) by (simp add: numeral_2_eq_2)
    ultimately have "v = out_frame (4, 1) 4 2" by simp
    then show ?thesis using g by (simp add: out_frame_def Let_def)
  qed
  ultimately show ?thesis using d1 d2 by simp
qed

text \<open>A frame header that the file breaks off in is read with success, out of bytes that nothing has set; and the failure of
  the last free leaves the output buffer behind, with a code that makes the caller drop the frame.\<close>

lemma broken_header_read:
  "size_scan [0xFF, 0xD8, 0xFF, 0xC0] 0 hi lo = (0, be16 hi lo, be16 hi lo)"
  by (simp add: size_scan.simps size_body_def fread_pair_def fread_byte_def)

definition stuck_jpeg_lib :: jpeg_lib where
  "stuck_jpeg_lib = (demo_jpeg_lib 9)\<lparr>j_answer := (\<lambda>k c. case c of JFree a \<Rightarrow> 7 | _ \<Rightarrow> 0)\<rparr>"

lemma failed_free_keeps_output:
  "fst (jpeg_decode stuck_jpeg_lib demo_jpeg) = 1 \<and>
   map_option jm_mem (run_log (jpeg_mon_step demo_jpeg) (snd (snd (jpeg_decode stuck_jpeg_lib demo_jpeg))) jpeg_mon_start) =
     Some {#(4, 1)#}"
  by (simp add: demo_decode_simps jpeg_mon_start_def stuck_jpeg_lib_def out_frame_def Let_def)

text \<open>Encoding leaves nothing, and the destination alone unless it succeeds.\<close>

lemma jpeg_encode_gives_back:
  assumes "\<forall>k. fst (j_address lib k) \<noteq> 0 \<and> snd (j_address lib k) \<noteq> 0" "jpeg_encode lib dest vf [] = (r, out, tr)"
  shows "map_option jm_mem (run_log (jpeg_mon_step f) tr jpeg_mon_start) = Some {#} \<and>
    out = (if r = 0 then j_encoded lib 1 else dest)"
  using assms by (auto simp: jpeg_encode_def ask_def Let_def jpeg_mon_start_def split: if_splits)

end
