(* ===== verification/Stream_In.thy ===== *)
theory Stream_In
  imports Hal_Calls
begin

text \<open>
  The reader of the camera stream (\<open>hal/ffmpeg_decoder.cpp\<close>): what it asks of FFmpeg, in which order, and which packets
  reach the callback. The library answers the \<open>n\<close>th call as it likes; the flag that another thread sets is read as a function
  of the number of calls made so far. A loop that never ends has the result \<open>None\<close>. Log lines are left out.
\<close>

section \<open>The library\<close>

record stream_info =
  is_video :: bool
  si_width :: int
  si_height :: int
  si_rate :: "int \<times> int"
  si_codec :: int
  si_profile :: int

datatype av_call =
    AAllocContext | AOpenInput "(string \<times> string) list" string | AFindInfo | ACloseInput | AFilter string | ABsfAlloc | AParamsCopy int
  | ABsfInit | ABsfFree | AReadFrame | ABsfSend | ABsfReceive | APacketUnref | ACallback "u8 list"

record av_lib =
  a_answer :: "nat \<Rightarrow> av_call \<Rightarrow> int"
  a_streams :: "stream_info list"
  a_index :: "nat \<Rightarrow> int"
  a_bytes :: "nat \<Rightarrow> u8 list"
  a_stop :: "nat \<Rightarrow> bool"
  a_h264 :: int

type_synonym av_log = "(av_call, int) hlog"

section \<open>The state\<close>

record ff_decoder =
  stream_name :: string
  rtsp_transport :: string
  ff_finished :: bool
  ff_width :: int
  ff_height :: int
  video_type :: int
  ff_profile :: int
  ff_fps :: int


definition set_transport :: "string \<Rightarrow> ff_decoder \<Rightarrow> ff_decoder" where
  "set_transport t d = d\<lparr>rtsp_transport := t\<rparr>"

section \<open>Opening\<close>

text \<open>The first video stream, or -1.\<close>

fun video_index_from :: "int \<Rightarrow> stream_info list \<Rightarrow> int" where
  "video_index_from i [] = - 1"
| "video_index_from i (s # ss) = (if is_video s then i else video_index_from (i + 1) ss)"

definition get_video_index :: "av_lib \<Rightarrow> int" where
  "get_video_index lib = video_index_from 0 (a_streams lib)"

definition dict_for_rtsp :: "ff_decoder \<Rightarrow> (string \<times> string) list" where
  "dict_for_rtsp d =
     [(''rtsp_transport'', rtsp_transport d), (''buffer_size'', ''10485760''), (''max_delay'', ''100000000''),
      (''stimeout'', ''5000000''), (''reorder_queue_size'', ''0''), (''pkt_size'', ''10485760'')]"

definition open_video :: "av_lib \<Rightarrow> ff_decoder \<Rightarrow> av_log \<Rightarrow> bool \<times> av_log" where
  "open_video lib d tr =
     (case ask (a_answer lib) (AOpenInput (dict_for_rtsp d) (stream_name d)) tr of (r, t1) \<Rightarrow> (\<not> r < 0, t1))"

definition close_video :: "av_lib \<Rightarrow> av_log \<Rightarrow> av_log" where
  "close_video lib tr = snd (ask (a_answer lib) ACloseInput tr)"



section \<open>The information\<close>

definition kDefaultStreamFps :: int where
  "kDefaultStreamFps = 5"

definition get_video_info :: "av_lib \<Rightarrow> ff_decoder \<Rightarrow> av_log \<Rightarrow> int \<times> ff_decoder \<times> av_log" where
  "get_video_info lib d tr =
     (case open_video lib d (snd (ask (a_answer lib) AAllocContext tr)) of
        (opened, t1) \<Rightarrow>
          if \<not> opened then (- 1, d, close_video lib t1)
          else
            (case ask (a_answer lib) AFindInfo t1 of
               (r, t2) \<Rightarrow>
                 if r < 0 then (- 1, d, close_video lib t2)
                 else
                   (let i = get_video_index lib
                    in if i = - 1 then (- 1, d, close_video lib t2)
                       else
                         (let s = a_streams lib ! nat i
                          in (0, d\<lparr>ff_width := si_width s, ff_height := si_height s,
                                ff_fps := (if snd (si_rate s) \<noteq> 0 then c_div (fst (si_rate s)) (snd (si_rate s)) else kDefaultStreamFps),
                                video_type := si_codec s, ff_profile := si_profile s\<rparr>, close_video lib t2)))))"

section \<open>Decoding\<close>







section \<open>What the reader holds\<close>

text \<open>Whether the input and the filter are open, what the packet in hand is, how many packets were overwritten while held, and
  whether the callback has failed. A packet in hand is one that the input gave, with the index of its stream; one that the
  filter did not take; one that the filter gave, with its bytes; or one that the callback has had.\<close>

datatype av_held = NoPacket | FromInput int | NotTaken | FromFilter "u8 list" | HandedOut

record av_mon =
  am_input :: bool
  am_filter :: bool
  am_packet :: av_held
  am_lost :: nat
  am_failed :: bool

definition take_packet :: "av_held \<Rightarrow> av_mon \<Rightarrow> av_mon" where
  "take_packet h s = s\<lparr>am_packet := h, am_lost := am_lost s + of_bool (am_packet s \<noteq> NoPacket)\<rparr>"

text \<open>When a packet in hand may be dropped at the \<open>n\<close>th call: not one of the video stream that the filter was not offered, and one
  that the filter gave only when the flag says to stop.\<close>

fun may_drop :: "av_lib \<Rightarrow> nat \<Rightarrow> av_held \<Rightarrow> bool" where
  "may_drop lib n (FromInput i) = (i \<noteq> get_video_index lib)"
| "may_drop lib n (FromFilter bs) = a_stop lib n"
| "may_drop lib n h = True"

text \<open>The \<open>n\<close>th call. The input is gone when opening it fails. Only packets of the video stream are sent to the filter, and one
  that is taken belongs to it. The callback is called with the bytes that the filter has just given and nothing else,
  once, and not again after it has failed.\<close>

fun av_call_step :: "av_lib \<Rightarrow> nat \<Rightarrow> av_call \<times> int \<Rightarrow> av_mon \<Rightarrow> av_mon option" where
  "av_call_step lib n (AAllocContext, r) s = (if am_input s then None else Some (s\<lparr>am_input := True\<rparr>))"
| "av_call_step lib n (AOpenInput dict name, r) s = (if am_input s then Some (if r < 0 then s\<lparr>am_input := False\<rparr> else s) else None)"
| "av_call_step lib n (AFindInfo, r) s = (if am_input s then Some s else None)"
| "av_call_step lib n (ACloseInput, r) s = Some (s\<lparr>am_input := False\<rparr>)"
| "av_call_step lib n (AFilter name, r) s = Some s"
| "av_call_step lib n (ABsfAlloc, r) s = (if am_filter s then None else Some (if r < 0 then s else s\<lparr>am_filter := True\<rparr>))"
| "av_call_step lib n (AParamsCopy i, r) s = (if am_filter s \<and> am_input s \<and> i = get_video_index lib then Some s else None)"
| "av_call_step lib n (ABsfInit, r) s = (if am_filter s then Some s else None)"
| "av_call_step lib n (ABsfFree, r) s = (if am_filter s then Some (s\<lparr>am_filter := False\<rparr>) else None)"
| "av_call_step lib n (AReadFrame, r) s =
     (if am_input s then Some (if r = 0 then take_packet (FromInput (a_index lib n)) s else s) else None)"
| "av_call_step lib n (ABsfSend, r) s =
     (if am_filter s \<and> am_packet s = FromInput (get_video_index lib)
      then Some (s\<lparr>am_packet := (if r = 0 then NoPacket else NotTaken)\<rparr>) else None)"
| "av_call_step lib n (ABsfReceive, r) s =
     (if am_filter s then Some (if r = 0 then take_packet (FromFilter (a_bytes lib n)) s else s) else None)"
| "av_call_step lib n (APacketUnref, r) s = (if may_drop lib n (am_packet s) then Some (s\<lparr>am_packet := NoPacket\<rparr>) else None)"
| "av_call_step lib n (ACallback bs, r) s =
     (if am_packet s = FromFilter bs \<and> \<not> am_failed s
      then Some (s\<lparr>am_packet := HandedOut, am_failed := (r \<noteq> 0)\<rparr>) else None)"

text \<open>The monitor counts the calls.\<close>

definition av_mon_step :: "av_lib \<Rightarrow> av_call \<times> int \<Rightarrow> nat \<times> av_mon \<Rightarrow> (nat \<times> av_mon) option" where
  "av_mon_step lib e s = map_option (Pair (Suc (fst s))) (av_call_step lib (fst s) e (snd s))"

definition av_start :: av_mon where
  "av_start = \<lparr>am_input = False, am_filter = False, am_packet = NoPacket, am_lost = 0, am_failed = False\<rparr>"

text \<open>What the monitor says after a log.\<close>

definition av_after :: "av_lib \<Rightarrow> av_log \<Rightarrow> av_mon option" where
  "av_after lib tr = map_option snd (run_log (av_mon_step lib) tr (0, av_start))"

definition av_at :: "av_lib \<Rightarrow> av_log \<Rightarrow> av_mon \<Rightarrow> bool" where
  "av_at lib tr s \<longleftrightarrow> run_log (av_mon_step lib) tr (0, av_start) = Some (length tr, s)"


lemma av_at_ask:
  "ask f c tr = (r, tr') \<Longrightarrow> av_at lib tr s \<Longrightarrow> av_call_step lib (length tr) (c, r) s = Some s' \<Longrightarrow> av_at lib tr' s'"
  using run_log_ask [of f c tr r tr' "av_mon_step lib" "(0, av_start)" "(length tr, s)"] ask_log [of f c tr r tr']
  by (simp add: av_at_def av_mon_step_def)

lemma av_at_snd:
  "av_at lib tr s \<Longrightarrow> av_call_step lib (length tr) (c, fst (ask f c tr)) s = Some s' \<Longrightarrow> av_at lib (snd (ask f c tr)) s'"
  by (rule av_at_ask [of f c tr "fst (ask f c tr)"]) simp_all


abbreviation av_mon_at :: "bool \<Rightarrow> bool \<Rightarrow> av_held \<Rightarrow> nat \<Rightarrow> bool \<Rightarrow> av_mon" where
  "av_mon_at i f p l e \<equiv> \<lparr>am_input = i, am_filter = f, am_packet = p, am_lost = l, am_failed = e\<rparr>"

lemma take_packet_simp [simp]: "take_packet h (av_mon_at i f p l e) = av_mon_at i f h (l + of_bool (p \<noteq> NoPacket)) e"
  by (simp add: take_packet_def)










lemma close_video_at: "av_at lib tr (av_mon_at i f p l e) \<Longrightarrow> av_at lib (close_video lib tr) (av_mon_at False f p l e)"
  unfolding close_video_def by (erule av_at_snd) simp

lemma open_video_at:
  assumes "open_video lib d (snd (ask (a_answer lib) AAllocContext [])) = (opened, t1)"
  shows "av_at lib t1 (av_mon_at opened False NoPacket 0 False)"
proof -
  have "av_at lib (snd (ask (a_answer lib) AAllocContext [])) (av_mon_at True False NoPacket 0 False)"
    by (simp add: av_at_def ask_def Let_def av_start_def av_mon_step_def)
  moreover obtain r where "ask (a_answer lib) (AOpenInput (dict_for_rtsp d) (stream_name d)) (snd (ask (a_answer lib) AAllocContext [])) = (r, t1)" "opened = (\<not> r < 0)"
    using assms by (auto simp: open_video_def split: prod.splits)
  ultimately show ?thesis by (auto intro: av_at_ask)
qed












text \<open>The information closes the input on every path, and never divides by zero.\<close>

lemma get_video_info_closes:
  assumes "get_video_info lib d [] = (r, d', tr)"
  shows "av_after lib tr = Some av_start \<and> (r = 0 \<or> r = - 1) \<and> (r \<noteq> 0 \<longrightarrow> d' = d)"
proof -
  obtain opened t1 where o: "open_video lib d (snd (ask (a_answer lib) AAllocContext [])) = (opened, t1)" by fastforce
  obtain q t2 where f: "ask (a_answer lib) AFindInfo t1 = (q, t2)" by fastforce
  note t1 = open_video_at [OF o]
  have t2: "av_at lib t2 (av_mon_at True False NoPacket 0 False)" if opened
    using t1 that by (intro av_at_ask [OF f, of lib "av_mon_at True False NoPacket 0 False"]) simp_all
  show ?thesis using assms o f close_video_at [OF t1] close_video_at [OF t2]
    by (auto simp: get_video_info_def Let_def av_at_def av_after_def av_start_def split: if_splits)
qed

end
