(* ===== verification/Stream_Out.thy ===== *)
theory Stream_Out
  imports Hal_Calls
begin

text \<open>
  The writer of the output stream (\<open>hal/ffmpeg_encoder.cpp\<close>): how it opens the stream, which packets it hands to FFmpeg
  with which time stamps, and what it releases at the end. The library answers the \<open>n\<close>th call as it likes; for a call
  that returns a pointer an answer that is not zero stands for the null pointer. A null pointer that the code follows has
  the result \<open>None\<close>. Log lines are left out.
\<close>

section \<open>The library\<close>

record codec_settings =
  cs_gop :: int
  cs_height :: nat
  cs_width :: nat
  cs_format :: int
  cs_time_base :: "int \<times> int"
  cs_global :: bool

text \<open>\<open>OShare\<close> is not a call but the assignment that makes the parameters of the stream share the extra data of the codec, with
  whether there are any.\<close>

datatype out_call =
    OAllocOutput "string option" string | OAvioOpen string | OFindEncoder | OAllocCodec | ONewStream | OParamsFrom codec_settings
  | OOpenCodec "(string \<times> string) list" | OShare bool | OWriteHeader | OAllocFrame
  | OTrailer | OCloseInput | OFreeFrame | OFreeCodec
  | OFill "u8 list" | OSendFrame int | OReceive | OInterleaved | OUnref
  | OAllocPacket | ONewPacket int | OWritePacket int "u8 list" | OFreePacket

record out_lib =
  o_answer :: "nat \<Rightarrow> out_call \<Rightarrow> int"
  o_nofile :: bool
  o_global :: bool
  o_extradata :: bool
  o_step :: int

type_synonym out_log = "(out_call, int) hlog"

section \<open>The state\<close>

text \<open>The four pointers are present or not; of the frame the code uses its time stamp.\<close>

record ff_encoder =
  push_name :: string
  frame_rate :: int
  enc_width :: nat
  enc_height :: nat
  pix_fmt :: int
  gop_size :: nat
  enc_profile :: string
  encoder_avfc :: bool
  video_avcc :: bool
  avs :: bool
  enc_frame :: "int option"

definition ff_encoder_new :: "string \<Rightarrow> int \<Rightarrow> nat \<Rightarrow> nat \<Rightarrow> int \<Rightarrow> nat \<Rightarrow> string \<Rightarrow> ff_encoder" where
  "ff_encoder_new name rate w h fmt gop profile =
     \<lparr>push_name = name, frame_rate = rate, enc_width = w, enc_height = h, pix_fmt = fmt, gop_size = gop, enc_profile = profile,
      encoder_avfc = False, video_avcc = False, avs = False, enc_frame = None\<rparr>"

definition guess_format_from_name :: "string \<Rightarrow> string" where
  "guess_format_from_name name =
     (if take 5 name = ''rtmp:'' then ''flv'' else if take 5 name = ''rtsp:'' then ''rtsp'' else '''')"

section \<open>Opening\<close>

definition open_output :: "out_lib \<Rightarrow> ff_encoder \<Rightarrow> out_log \<Rightarrow> int \<times> ff_encoder \<times> out_log" where
  "open_output lib w tr =
     (let f = guess_format_from_name (push_name w)
      in case ask (o_answer lib) (OAllocOutput (if f = [] then None else Some f) (push_name w)) tr of
           (r, t1) \<Rightarrow>
             if r < 0 then (r, w\<lparr>encoder_avfc := False\<rparr>, t1)
             else if \<not> o_nofile lib then
               (case ask (o_answer lib) (OAvioOpen (push_name w)) t1 of
                  (r, t2) \<Rightarrow> (if r < 0 then r else 0, w\<lparr>encoder_avfc := True\<rparr>, t2))
             else (0, w\<lparr>encoder_avfc := True\<rparr>, t1))"

definition codec_settings_of :: "out_lib \<Rightarrow> ff_encoder \<Rightarrow> codec_settings" where
  "codec_settings_of lib w =
     \<lparr>cs_gop = c_div (frame_rate w) 2, cs_height = enc_height w, cs_width = enc_width w, cs_format = pix_fmt w,
      cs_time_base = (1, frame_rate w), cs_global = o_global lib\<rparr>"

definition codec_options :: "ff_encoder \<Rightarrow> (string \<times> string) list" where
  "codec_options w = [(''profile'', enc_profile w), (''preset'', ''superfast''), (''tune'', ''zerolatency'')]"

text \<open>The dictionary of options goes into the call that opens the codec. What the library leaves in it is never freed; it is not
  among the resources of the monitor.\<close>

definition open_codec :: "out_lib \<Rightarrow> ff_encoder \<Rightarrow> out_log \<Rightarrow> (int \<times> ff_encoder \<times> out_log) option" where
  "open_codec lib w tr =
     (case ask (o_answer lib) OAllocCodec (snd (ask (o_answer lib) OFindEncoder tr)) of
        (r, t1) \<Rightarrow>
          if r \<noteq> 0 then None
          else
            (case ask (o_answer lib) ONewStream t1 of
               (r, t2) \<Rightarrow>
                 if r \<noteq> 0 then None
                 else
                   (let w1 = w\<lparr>video_avcc := True, avs := True\<rparr>
                    in case ask (o_answer lib) (OParamsFrom (codec_settings_of lib w)) t2 of
                         (r, t3) \<Rightarrow>
                           if r < 0 then Some (r, w1, t3)
                           else
                             (case ask (o_answer lib) (OOpenCodec (codec_options w)) t3 of
                                (r, t4) \<Rightarrow> Some (if r < 0 then r else 0, w1, t4)))))"

definition start_stream :: "out_lib \<Rightarrow> ff_encoder \<Rightarrow> out_log \<Rightarrow> (int \<times> ff_encoder \<times> out_log) option" where
  "start_stream lib w tr =
     (case ask (o_answer lib) OWriteHeader (snd (ask (o_answer lib) (OShare (o_extradata lib)) tr)) of
        (r, t1) \<Rightarrow>
          if r < 0 then Some (r, w, t1)
          else
            (case ask (o_answer lib) OAllocFrame t1 of
               (r, t2) \<Rightarrow> if r \<noteq> 0 then None else Some (0, w\<lparr>enc_frame := Some 1\<rparr>, t2)))"

definition ff_encoder_init :: "out_lib \<Rightarrow> ff_encoder \<Rightarrow> out_log \<Rightarrow> (int \<times> ff_encoder \<times> out_log) option" where
  "ff_encoder_init lib w tr =
     (case open_output lib w tr of
        (r, w1, t1) \<Rightarrow>
          if r < 0 then Some (r, w1, t1)
          else
            (case open_codec lib w1 t1 of
               None \<Rightarrow> None
             | Some (r, w2, t2) \<Rightarrow> if r < 0 then Some (r, w2, t2) else start_stream lib w2 t2))"

section \<open>Releasing\<close>

definition release_format :: "out_lib \<Rightarrow> ff_encoder \<Rightarrow> out_log \<Rightarrow> out_log" where
  "release_format lib w tr =
     (if encoder_avfc w then snd (ask (o_answer lib) OCloseInput (snd (ask (o_answer lib) OTrailer tr))) else tr)"

definition release_frame :: "out_lib \<Rightarrow> ff_encoder \<Rightarrow> out_log \<Rightarrow> out_log" where
  "release_frame lib w tr = (if enc_frame w \<noteq> None then snd (ask (o_answer lib) OFreeFrame tr) else tr)"

definition release_codec :: "out_lib \<Rightarrow> ff_encoder \<Rightarrow> out_log \<Rightarrow> out_log" where
  "release_codec lib w tr = (if video_avcc w then snd (ask (o_answer lib) OFreeCodec tr) else tr)"

definition ff_encoder_release :: "out_lib \<Rightarrow> ff_encoder \<Rightarrow> out_log \<Rightarrow> ff_encoder \<times> out_log" where
  "ff_encoder_release lib w tr =
     (w\<lparr>encoder_avfc := False, enc_frame := None, video_avcc := False\<rparr>,
      release_codec lib w (release_frame lib w (release_format lib w tr)))"

section \<open>Writing\<close>

text \<open>The size of a packet is narrowed to an \<open>int\<close>; where this changes it, the copy goes past the end of the packet.\<close>

definition packet_size :: "u8 list \<Rightarrow> int" where
  "packet_size bs = sint (of_nat (length bs) :: 32 word)"

definition write_packet :: "out_lib \<Rightarrow> ff_encoder \<Rightarrow> u8 list \<Rightarrow> out_log \<Rightarrow> (int \<times> ff_encoder \<times> out_log) option" where
  "write_packet lib w bs tr =
     (case ask (o_answer lib) OAllocPacket tr of
        (r, t1) \<Rightarrow>
          if r \<noteq> 0 then Some (- 1, w, t1)
          else
            (case ask (o_answer lib) (ONewPacket (packet_size bs)) t1 of
               (r, t2) \<Rightarrow>
                 if r < 0 then Some (- 1, w, snd (ask (o_answer lib) OFreePacket t2))
                 else if packet_size bs \<noteq> int (length bs) then None
                 else
                   (case enc_frame w of
                      None \<Rightarrow> None
                    | Some pts \<Rightarrow>
                        (case ask (o_answer lib) (OWritePacket pts bs) t2 of
                           (r, t3) \<Rightarrow>
                             if r < 0 then Some (- 1, w, snd (ask (o_answer lib) OFreePacket t3))
                             else Some (0, w\<lparr>enc_frame := Some (pts + o_step lib)\<rparr>, snd (ask (o_answer lib) OFreePacket t3))))))"

definition kAverrorEagain :: int where
  "kAverrorEagain = - 11"

definition kAverrorEof :: int where
  "kAverrorEof = - 541478725"

text \<open>What the codec has ready goes to the stream; a codec that never says that it has no more keeps the loop going.\<close>

partial_function (option) write_ready :: "out_lib \<Rightarrow> int \<Rightarrow> out_log \<Rightarrow> (int \<times> int \<times> out_log) option" where
  "write_ready lib pts tr =
     (case ask (o_answer lib) OReceive tr of
        (r, t1) \<Rightarrow>
          if r = kAverrorEagain \<or> r = kAverrorEof then Some (0, pts, snd (ask (o_answer lib) OUnref t1))
          else if r < 0 then Some (- 1, pts, snd (ask (o_answer lib) OUnref t1))
          else
            (case ask (o_answer lib) OInterleaved t1 of
               (r, t2) \<Rightarrow>
                 if r < 0 then Some (- 1, pts, snd (ask (o_answer lib) OUnref t2))
                 else write_ready lib (pts + o_step lib) (snd (ask (o_answer lib) OUnref t2))))"

declare write_ready.simps [code]

definition write_frame :: "out_lib \<Rightarrow> ff_encoder \<Rightarrow> u8 list \<Rightarrow> out_log \<Rightarrow> (int \<times> ff_encoder \<times> out_log) option" where
  "write_frame lib w bs tr =
     (case enc_frame w of
        None \<Rightarrow> None
      | Some pts \<Rightarrow>
          (case ask (o_answer lib) (OSendFrame pts) (snd (ask (o_answer lib) (OFill bs) tr)) of
             (r, t1) \<Rightarrow>
               if r < 0 then Some (- 1, w, t1)
               else
                 (case write_ready lib pts t1 of
                    None \<Rightarrow> None
                  | Some (r, p, t2) \<Rightarrow> Some (r, w\<lparr>enc_frame := Some p\<rparr>, t2))))"

text \<open>The callback of the hardware encoder writes one packet after the other, whatever became of the last.\<close>

fun write_packets :: "out_lib \<Rightarrow> ff_encoder \<Rightarrow> u8 list list \<Rightarrow> out_log \<Rightarrow> (int list \<times> ff_encoder \<times> out_log) option" where
  "write_packets lib w [] tr = Some ([], w, tr)"
| "write_packets lib w (bs # bss) tr =
     (case write_packet lib w bs tr of
        None \<Rightarrow> None
      | Some (r, w1, t1) \<Rightarrow>
          (case write_packets lib w1 bss t1 of
             None \<Rightarrow> None
           | Some (rs, w2, t2) \<Rightarrow> Some (r # rs, w2, t2)))"

section \<open>What the writer holds\<close>

text \<open>Whether the output, its header, the codec context, the frame, the data of a packet and a packet are out; whether the stream
  shares the extra data of the codec, and whether they were freed with it. The trailer needs the header; closing the output frees
  the parameters of its streams with their extra data, and freeing the codec frees its extra data.\<close>

record mux_mon =
  mm_output :: bool
  mm_header :: bool
  mm_codec :: bool
  mm_shared :: bool
  mm_gone :: bool
  mm_frame :: bool
  mm_data :: bool
  mm_packet :: bool

abbreviation mux_at :: "bool \<Rightarrow> bool \<Rightarrow> bool \<Rightarrow> bool \<Rightarrow> bool \<Rightarrow> bool \<Rightarrow> bool \<Rightarrow> bool \<Rightarrow> mux_mon" where
  "mux_at o' h c s g f d p \<equiv> \<lparr>mm_output = o', mm_header = h, mm_codec = c, mm_shared = s, mm_gone = g, mm_frame = f, mm_data = d, mm_packet = p\<rparr>"

fun mux_step :: "out_call \<times> int \<Rightarrow> mux_mon \<Rightarrow> mux_mon option" where
  "mux_step (OAllocOutput f n, r) s = (if mm_output s then None else Some (if r < 0 then s else s\<lparr>mm_output := True\<rparr>))"
| "mux_step (OAvioOpen n, r) s = (if mm_output s then Some s else None)"
| "mux_step (OFindEncoder, r) s = Some s"
| "mux_step (OAllocCodec, r) s = (if mm_codec s then None else Some (if r = 0 then s\<lparr>mm_codec := True\<rparr> else s))"
| "mux_step (ONewStream, r) s = (if mm_output s then Some s else None)"
| "mux_step (OParamsFrom cs, r) s = (if mm_output s \<and> mm_codec s then Some s else None)"
| "mux_step (OOpenCodec opts, r) s = (if mm_codec s then Some s else None)"
| "mux_step (OShare b, r) s = (if mm_output s \<and> mm_codec s then Some (s\<lparr>mm_shared := b\<rparr>) else None)"
| "mux_step (OWriteHeader, r) s = (if mm_output s \<and> \<not> mm_header s then Some (if r < 0 then s else s\<lparr>mm_header := True\<rparr>) else None)"
| "mux_step (OAllocFrame, r) s = (if mm_frame s then None else Some (if r = 0 then s\<lparr>mm_frame := True\<rparr> else s))"
| "mux_step (OTrailer, r) s = (if mm_output s \<and> mm_header s then Some s else None)"
| "mux_step (OCloseInput, r) s =
     (if mm_output s then Some (s\<lparr>mm_output := False, mm_header := False, mm_shared := False, mm_gone := mm_shared s\<rparr>) else None)"
| "mux_step (OFreeFrame, r) s = (if mm_frame s then Some (s\<lparr>mm_frame := False\<rparr>) else None)"
| "mux_step (OFreeCodec, r) s = (if mm_codec s \<and> \<not> mm_gone s then Some (s\<lparr>mm_codec := False\<rparr>) else None)"
| "mux_step (OFill bs, r) s = (if mm_frame s \<and> mm_codec s then Some s else None)"
| "mux_step (OSendFrame pts, r) s = (if mm_frame s \<and> mm_codec s then Some s else None)"
| "mux_step (OReceive, r) s = (if mm_codec s \<and> \<not> mm_data s then Some (if r < 0 then s else s\<lparr>mm_data := True\<rparr>) else None)"
| "mux_step (OInterleaved, r) s = (if mm_header s \<and> mm_data s then Some (s\<lparr>mm_data := False\<rparr>) else None)"
| "mux_step (OUnref, r) s = Some (s\<lparr>mm_data := False\<rparr>)"
| "mux_step (OAllocPacket, r) s = (if mm_packet s then None else Some (if r = 0 then s\<lparr>mm_packet := True\<rparr> else s))"
| "mux_step (ONewPacket n, r) s = (if mm_packet s then Some s else None)"
| "mux_step (OWritePacket pts bs, r) s = (if mm_packet s \<and> mm_header s then Some s else None)"
| "mux_step (OFreePacket, r) s = (if mm_packet s then Some (s\<lparr>mm_packet := False\<rparr>) else None)"

definition mux_idle :: mux_mon where
  "mux_idle = mux_at False False False False False False False False"

text \<open>In order from the first call to the last, and nothing is left.\<close>

definition all_released :: "out_log \<Rightarrow> bool" where
  "all_released tr \<longleftrightarrow> run_log mux_step tr mux_idle = Some mux_idle"

definition mux_in :: "out_log \<Rightarrow> mux_mon \<Rightarrow> bool" where
  "mux_in tr s \<longleftrightarrow> run_log mux_step tr mux_idle = Some s"

lemma mux_in_start: "mux_in [] mux_idle"
  by (simp add: mux_in_def)

lemma mux_in_ask: "ask f c tr = (r, tr') \<Longrightarrow> mux_in tr s \<Longrightarrow> mux_step (c, r) s = Some s' \<Longrightarrow> mux_in tr' s'"
  unfolding mux_in_def using run_log_ask by metis

lemma mux_in_snd: "mux_in tr s \<Longrightarrow> mux_step (c, fst (ask f c tr)) s = Some s' \<Longrightarrow> mux_in (snd (ask f c tr)) s'"
  by (rule mux_in_ask [of f c tr "fst (ask f c tr)"]) simp_all

lemma mux_out_snd: "mux_in tr s \<Longrightarrow> mux_step (c, fst (ask f c tr)) s = None \<Longrightarrow> run_log mux_step (snd (ask f c tr)) mux_idle = None"
  using run_log_ask [of f c tr "fst (ask f c tr)" "snd (ask f c tr)" mux_step mux_idle s] by (simp add: mux_in_def)

lemma mux_out_stays: "run_log mux_step tr s = None \<Longrightarrow> run_log mux_step (snd (ask f c tr)) s = None"
  by (simp add: ask_def Let_def)

section \<open>The packets that the stream has taken\<close>

definition stream_got :: "out_log \<Rightarrow> (int \<times> u8 list) list" where
  "stream_got tr = concat (map (\<lambda>(c, r). case c of OWritePacket pts bs \<Rightarrow> if r < 0 then [] else [(pts, bs)] | _ \<Rightarrow> []) tr)"

lemma stream_got_ask:
  "stream_got (snd (ask f c tr)) =
     stream_got tr @ (case c of OWritePacket pts bs \<Rightarrow> if fst (ask f c tr) < 0 then [] else [(pts, bs)] | _ \<Rightarrow> [])"
  by (cases c) (simp_all add: stream_got_def ask_def Let_def)

lemma stream_got_asked:
  "ask f c tr = (r, tr') \<Longrightarrow> stream_got tr' = stream_got tr @ (case c of OWritePacket pts bs \<Rightarrow> if r < 0 then [] else [(pts, bs)] | _ \<Rightarrow> [])"
  using stream_got_ask [of f c tr] by (cases c) simp_all

definition stamped :: "int \<Rightarrow> int \<Rightarrow> u8 list list \<Rightarrow> (int \<times> u8 list) list" where
  "stamped step p bss = zip (map (\<lambda>k. p + int k * step) [0..<length bss]) bss"

lemma stamped_simps [simp]:
  "stamped step p [] = []"
  "stamped step p (bs # bss) = (p, bs) # stamped step (p + step) bss"
proof -
  have "[0..<Suc (length bss)] = 0 # map Suc [0..<length bss]" by (simp add: map_Suc_upt upt_conv_Cons del: upt_Suc)
  then show "stamped step p (bs # bss) = (p, bs) # stamped step (p + step) bss"
    by (simp add: stamped_def o_def algebra_simps del: upt_Suc)
qed (simp add: stamped_def)

definition taken :: "int list \<Rightarrow> u8 list list \<Rightarrow> u8 list list" where
  "taken rs bss = map snd (filter (\<lambda>(r, bs). r = 0) (zip rs bss))"

lemma taken_simps [simp]: "taken [] bss = []" "taken (r # rs) (bs # bss) = (if r = 0 then bs # taken rs bss else taken rs bss)"
  by (simp_all add: taken_def)

section \<open>Opening in order\<close>

lemma open_output_in:
  assumes "open_output lib w tr = (r, w', tr')" "mux_in tr mux_idle"
  shows "mux_in tr' (mux_at (encoder_avfc w') False False False False False False False) \<and> r \<le> 0 \<and> (r = 0 \<longrightarrow> encoder_avfc w') \<and>
    video_avcc w' = video_avcc w \<and> enc_frame w' = enc_frame w"
proof -
  define c where "c = OAllocOutput (if guess_format_from_name (push_name w) = [] then None else Some (guess_format_from_name (push_name w))) (push_name w)"
  obtain q t1 where 1: "ask (o_answer lib) c tr = (q, t1)" by fastforce
  obtain q' t2 where 2: "ask (o_answer lib) (OAvioOpen (push_name w)) t1 = (q', t2)" by fastforce
  have t1: "mux_in t1 (mux_at (\<not> q < 0) False False False False False False False)"
    by (rule mux_in_ask [OF 1 assms(2)]) (simp add: c_def mux_idle_def)
  have t2: "mux_in t2 (mux_at True False False False False False False False)" if "\<not> q < 0"
    by (rule mux_in_ask [OF 2 t1]) (use that in simp)
  show ?thesis using assms(1) 1 2 t1 t2 by (auto simp: open_output_def Let_def c_def [symmetric] split: if_splits)
qed

lemma open_codec_in:
  assumes "open_codec lib w tr = Some (r, w', tr')" "mux_in tr (mux_at True False False False False False False False)"
  shows "mux_in tr' (mux_at True False True False False False False False) \<and> r \<le> 0 \<and>
    encoder_avfc w' = encoder_avfc w \<and> video_avcc w' \<and> enc_frame w' = enc_frame w"
proof -
  let ?t0 = "snd (ask (o_answer lib) OFindEncoder tr)"
  obtain q1 t1 where 1: "ask (o_answer lib) OAllocCodec ?t0 = (q1, t1)" by fastforce
  obtain q2 t2 where 2: "ask (o_answer lib) ONewStream t1 = (q2, t2)" by fastforce
  obtain q3 t3 where 3: "ask (o_answer lib) (OParamsFrom (codec_settings_of lib w)) t2 = (q3, t3)" by fastforce
  obtain q4 t4 where 4: "ask (o_answer lib) (OOpenCodec (codec_options w)) t3 = (q4, t4)" by fastforce
  have ok: "q1 = 0" "q2 = 0" using assms(1) 1 2 by (auto simp: open_codec_def split: if_splits)
  have t0: "mux_in ?t0 (mux_at True False False False False False False False)" by (rule mux_in_snd [OF assms(2)]) simp
  have t1: "mux_in t1 (mux_at True False True False False False False False)" by (rule mux_in_ask [OF 1 t0]) (simp add: ok)
  have t2: "mux_in t2 (mux_at True False True False False False False False)" by (rule mux_in_ask [OF 2 t1]) simp
  have t3: "mux_in t3 (mux_at True False True False False False False False)" by (rule mux_in_ask [OF 3 t2]) simp
  have t4: "mux_in t4 (mux_at True False True False False False False False)" by (rule mux_in_ask [OF 4 t3]) simp
  show ?thesis using assms(1) ok 1 2 3 4 t3 t4 by (auto simp: open_codec_def Let_def split: if_splits)
qed

lemma start_stream_in:
  assumes "start_stream lib w tr = Some (r, w', tr')" "mux_in tr (mux_at True False True False False False False False)"
  shows "mux_in tr' (mux_at True (r = 0) True (o_extradata lib) False (r = 0) False False) \<and> r \<le> 0 \<and>
    encoder_avfc w' = encoder_avfc w \<and> video_avcc w' = video_avcc w \<and> enc_frame w' = (if r = 0 then Some 1 else enc_frame w)"
proof -
  let ?t0 = "snd (ask (o_answer lib) (OShare (o_extradata lib)) tr)"
  obtain q1 t1 where 1: "ask (o_answer lib) OWriteHeader ?t0 = (q1, t1)" by fastforce
  obtain q2 t2 where 2: "ask (o_answer lib) OAllocFrame t1 = (q2, t2)" by fastforce
  have t0: "mux_in ?t0 (mux_at True False True (o_extradata lib) False False False False)" by (rule mux_in_snd [OF assms(2)]) simp
  have t1: "mux_in t1 (mux_at True (\<not> q1 < 0) True (o_extradata lib) False False False False)" by (rule mux_in_ask [OF 1 t0]) simp
  have t2: "mux_in t2 (mux_at True (\<not> q1 < 0) True (o_extradata lib) False (q2 = 0) False False)"
    by (rule mux_in_ask [OF 2 t1]) simp
  show ?thesis using assms(1) 1 2 t1 t2 by (auto simp: start_stream_def split: if_splits)
qed

definition closed_encoder :: "ff_encoder \<Rightarrow> bool" where
  "closed_encoder w \<longleftrightarrow> \<not> encoder_avfc w \<and> \<not> video_avcc w \<and> enc_frame w = None"

lemma ff_encoder_init_in:
  assumes "ff_encoder_init lib w [] = Some (r, w', tr')" "closed_encoder w"
  shows "\<exists>s. mux_in tr' (mux_at (encoder_avfc w') (r = 0) (video_avcc w') s False (enc_frame w' \<noteq> None) False False) \<and> r \<le> 0 \<and>
    (encoder_avfc w' \<or> mux_in tr' mux_idle \<and> closed_encoder w') \<and>
    (r = 0 \<longrightarrow> encoder_avfc w' \<and> video_avcc w' \<and> enc_frame w' = Some 1 \<and> s = o_extradata lib)"
proof -
  obtain r1 w1 t1 where 1: "open_output lib w [] = (r1, w1, t1)" by (metis prod_cases3)
  note o = open_output_in [OF 1 mux_in_start]
  have w: "video_avcc w = False" "enc_frame w = None" using assms(2) by (simp_all add: closed_encoder_def)
  show ?thesis
  proof (cases "r1 < 0")
    case True
    then have "r = r1" "w' = w1" "tr' = t1" using assms(1) 1 by (auto simp: ff_encoder_init_def)
    then show ?thesis using o w True by (cases "encoder_avfc w1") (auto simp: mux_idle_def closed_encoder_def)
  next
    case False
    then have e: "r1 = 0" "encoder_avfc w1" "mux_in t1 (mux_at True False False False False False False False)" using o by auto
    obtain r2 w2 t2 where 2: "open_codec lib w1 t1 = Some (r2, w2, t2)"
      using assms(1) 1 e by (auto simp: ff_encoder_init_def split: option.splits)
    note c = open_codec_in [OF 2 e(3)]
    show ?thesis
    proof (cases "r2 < 0")
      case True
      then have "r = r2" "w' = w2" "tr' = t2" using assms(1) 1 2 e by (auto simp: ff_encoder_init_def)
      then show ?thesis using c o w True e by auto
    next
      case False
      then have 3: "start_stream lib w2 t2 = Some (r, w', tr')" using assms(1) 1 2 e by (simp add: ff_encoder_init_def)
      have "mux_in t2 (mux_at True False True False False False False False)" using c by simp
      from start_stream_in [OF 3 this] show ?thesis using c o w e by auto
    qed
  qed
qed

lemma init_writes_nothing:
  assumes "ff_encoder_init lib w [] = Some (r, w', tr)"
  shows "stream_got tr = []"
proof -
  have e: "stream_got [] = []" by (simp add: stream_got_def)
  have o: "stream_got (snd (snd (open_output lib w []))) = []"
    by (simp add: open_output_def Let_def case_prod_beta stream_got_ask e)
  have c: "stream_got t' = []" if "stream_got t = []" "open_codec lib v t = Some (q, v', t')" for v t q v' t'
    using that by (auto simp: open_codec_def Let_def case_prod_beta stream_got_ask split: if_splits)
  have s: "stream_got t' = []" if "stream_got t = []" "start_stream lib v t = Some (q, v', t')" for v t q v' t'
    using that by (auto simp: start_stream_def case_prod_beta stream_got_ask split: if_splits)
  obtain r1 w1 t1 where 1: "open_output lib w [] = (r1, w1, t1)" by (metis prod_cases3)
  show ?thesis
  proof (cases "r1 < 0")
    case True
    then show ?thesis using assms 1 o by (simp add: ff_encoder_init_def)
  next
    case False
    then obtain r2 w2 t2 where 2: "open_codec lib w1 t1 = Some (r2, w2, t2)"
      using assms 1 by (auto simp: ff_encoder_init_def split: option.splits)
    then have "stream_got t2 = []" using c [of t1] o 1 by simp
    then show ?thesis using assms 1 2 False s [of t2 w2] by (auto simp: ff_encoder_init_def split: if_splits)
  qed
qed

section \<open>Writing in order\<close>

text \<open>Between two operations on an open writer.\<close>

definition open_encoder :: "out_lib \<Rightarrow> ff_encoder \<Rightarrow> int \<Rightarrow> out_log \<Rightarrow> bool" where
  "open_encoder lib w p tr \<longleftrightarrow> mux_in tr (mux_at True True True (o_extradata lib) False True False False) \<and>
     encoder_avfc w \<and> video_avcc w \<and> enc_frame w = Some p"

lemma write_packet_in:
  assumes o: "open_encoder lib w p tr" and small: "packet_size bs = int (length bs)"
  obtains r w' tr' where "write_packet lib w bs tr = Some (r, w', tr')" "r = 0 \<or> r = - 1"
    "open_encoder lib w' (if r = 0 then p + o_step lib else p) tr'" "stream_got tr' = stream_got tr @ (if r = 0 then [(p, bs)] else [])"
proof -
  let ?s = "\<lambda>k. mux_at True True True (o_extradata lib) False True False k"
  obtain q1 t1 where 1: "ask (o_answer lib) OAllocPacket tr = (q1, t1)" by fastforce
  obtain q2 t2 where 2: "ask (o_answer lib) (ONewPacket (packet_size bs)) t1 = (q2, t2)" by fastforce
  obtain q3 t3 where 3: "ask (o_answer lib) (OWritePacket p bs) t2 = (q3, t3)" by fastforce
  let ?f = "\<lambda>t. snd (ask (o_answer lib) OFreePacket t)"
  have t0: "mux_in tr (?s False)" and w: "encoder_avfc w" "video_avcc w" "enc_frame w = Some p"
    using o by (simp_all add: open_encoder_def)
  have t1: "mux_in t1 (?s (q1 = 0))" by (rule mux_in_ask [OF 1 t0]) simp
  have t2: "mux_in t2 (?s True)" if "q1 = 0" by (rule mux_in_ask [OF 2 t1]) (simp add: that)
  have t3: "mux_in t3 (?s True)" if "q1 = 0" by (rule mux_in_ask [OF 3 t2]) (simp_all add: that)
  have f: "mux_in (?f t) (?s False)" if "mux_in t (?s True)" for t by (rule mux_in_snd [OF that]) simp
  have a: "stream_got t1 = stream_got tr" "stream_got t2 = stream_got tr" "stream_got t3 = stream_got tr @ (if q3 < 0 then [] else [(p, bs)])"
    "\<And>t. stream_got (?f t) = stream_got t"
    using stream_got_asked [OF 1] stream_got_asked [OF 2] stream_got_asked [OF 3] stream_got_ask by auto
  show thesis
  proof (cases "q1 \<noteq> 0")
    case True
    then show thesis using that [of "- 1" w t1] 1 t1 a w by (simp add: write_packet_def open_encoder_def)
  next
    case alloc: False
    show thesis
    proof (cases "q2 < 0")
      case True
      then show thesis using that [of "- 1" w "?f t2"] alloc 1 2 f [OF t2] a w by (simp add: write_packet_def open_encoder_def)
    next
      case data: False
      show thesis
      proof (cases "q3 < 0")
        case True
        then show thesis using that [of "- 1" w "?f t3"] alloc data small 1 2 3 f [OF t3] a w
          by (simp add: write_packet_def open_encoder_def)
      next
        case False
        then show thesis using that [of 0 "w\<lparr>enc_frame := Some (p + o_step lib)\<rparr>" "?f t3"] alloc data small 1 2 3 f [OF t3] a w
          by (simp add: write_packet_def open_encoder_def)
      qed
    qed
  qed
qed

lemma write_packets_in:
  assumes "open_encoder lib w p tr" "\<forall>bs\<in>set bss. packet_size bs = int (length bs)"
  shows "\<exists>rs w' tr'. write_packets lib w bss tr = Some (rs, w', tr') \<and> length rs = length bss \<and> set rs \<subseteq> {0, - 1} \<and>
    open_encoder lib w' (p + int (length (taken rs bss)) * o_step lib) tr' \<and>
    stream_got tr' = stream_got tr @ stamped (o_step lib) p (taken rs bss)"
  using assms
proof (induction bss arbitrary: w p tr)
  case Nil
  then show ?case by simp
next
  case (Cons bs bss)
  from Cons.prems obtain r w1 t1 where 1: "write_packet lib w bs tr = Some (r, w1, t1)" "r = 0 \<or> r = - 1"
    "open_encoder lib w1 (if r = 0 then p + o_step lib else p) t1" "stream_got t1 = stream_got tr @ (if r = 0 then [(p, bs)] else [])"
    by (auto elim: write_packet_in)
  from Cons.IH [OF 1(3)] Cons.prems(2) obtain rs w2 t2 where
    2: "write_packets lib w1 bss t1 = Some (rs, w2, t2)" "length rs = length bss" "set rs \<subseteq> {0, - 1}"
      "open_encoder lib w2 ((if r = 0 then p + o_step lib else p) + int (length (taken rs bss)) * o_step lib) t2"
      "stream_got t2 = stream_got t1 @ stamped (o_step lib) (if r = 0 then p + o_step lib else p) (taken rs bss)"
    by auto
  show ?case using 1(1,2,4) 2 by (cases "r = 0") (auto simp: algebra_simps)
qed

text \<open>The loop over what the codec has ready, when it ends, has nothing in hand.\<close>

definition ready_written :: "out_lib \<Rightarrow> int \<Rightarrow> out_log \<Rightarrow> int \<times> int \<times> out_log \<Rightarrow> bool" where
  "ready_written lib p tr y \<longleftrightarrow> (\<forall>s. mux_in tr (mux_at True True True s False True False False) \<longrightarrow>
     mux_in (snd (snd y)) (mux_at True True True s False True False False) \<and> (fst y = 0 \<or> fst y = - 1))"

lemma write_ready_in:
  assumes "write_ready lib p tr = Some y"
  shows "ready_written lib p tr y"
proof (rule write_ready.raw_induct [of ready_written, OF _ assms])
  fix f lib p tr y
  assume ih: "\<And>lib p tr y. f lib p tr = Some y \<Longrightarrow> ready_written lib p tr y"
    and body: "(case ask (o_answer lib) OReceive tr of
        (r, t1) \<Rightarrow>
          if r = kAverrorEagain \<or> r = kAverrorEof then Some (0, p, snd (ask (o_answer lib) OUnref t1))
          else if r < 0 then Some (- 1, p, snd (ask (o_answer lib) OUnref t1))
          else
            (case ask (o_answer lib) OInterleaved t1 of
               (r, t2) \<Rightarrow>
                 if r < 0 then Some (- 1, p, snd (ask (o_answer lib) OUnref t2))
                 else f lib (p + o_step lib) (snd (ask (o_answer lib) OUnref t2)))) = Some y"
  obtain q t1 where q: "ask (o_answer lib) OReceive tr = (q, t1)" by fastforce
  obtain q' t2 where q': "ask (o_answer lib) OInterleaved t1 = (q', t2)" by fastforce
  have "mux_in (snd (snd y)) (mux_at True True True s False True False False) \<and> (fst y = 0 \<or> fst y = - 1)"
    if m: "mux_in tr (mux_at True True True s False True False False)" for s
  proof -
    let ?s = "\<lambda>d. mux_at True True True s False True d False"
    have u: "mux_in (snd (ask (o_answer lib) OUnref t)) (?s False)" if "mux_in t (?s d)" for t d by (rule mux_in_snd [OF that]) simp
    have t1: "mux_in t1 (?s (\<not> q < 0))" by (rule mux_in_ask [OF q m]) simp
    have t2: "mux_in t2 (?s False)" if "\<not> q < 0" by (rule mux_in_ask [OF q' t1]) (simp add: that)
    show ?thesis
    proof (cases "q < 0 \<or> q' < 0")
      case True
      then show ?thesis using body q q' u [OF t1] u [OF t2] by (auto simp: kAverrorEagain_def kAverrorEof_def split: if_splits)
    next
      case False
      then have "f lib (p + o_step lib) (snd (ask (o_answer lib) OUnref t2)) = Some y"
        using body q q' by (auto simp: kAverrorEagain_def kAverrorEof_def)
      from ih [OF this] show ?thesis using u [OF t2] False by (simp add: ready_written_def)
    qed
  qed
  then show "ready_written lib p tr y" by (simp add: ready_written_def)
qed

lemma write_frame_in:
  assumes "open_encoder lib w p tr" "write_frame lib w bs tr = Some (r, w', tr')"
  shows "\<exists>p'. open_encoder lib w' p' tr' \<and> (r = 0 \<or> r = - 1)"
proof -
  let ?s = "mux_at True True True (o_extradata lib) False True False False"
  let ?t0 = "snd (ask (o_answer lib) (OFill bs) tr)"
  obtain q t1 where 1: "ask (o_answer lib) (OSendFrame p) ?t0 = (q, t1)" by fastforce
  have t0: "mux_in ?t0 ?s" by (rule mux_in_snd [of tr ?s]) (use assms(1) in \<open>simp_all add: open_encoder_def\<close>)
  have t1: "mux_in t1 ?s" by (rule mux_in_ask [OF 1 t0]) simp
  show ?thesis using assms 1 t1 write_ready_in [of lib p t1]
    by (fastforce simp: write_frame_def open_encoder_def ready_written_def split: if_splits option.splits prod.splits)
qed

section \<open>The end\<close>

lemma released_of:
  assumes "mux_in tr s" "s = mux_idle"
  shows "all_released tr"
  using assms by (simp add: all_released_def mux_in_def)

lemma stuck_stays: "run_log mux_step tr mux_idle = None \<Longrightarrow> \<not> all_released (release_codec lib w (release_frame lib w tr))"
  by (simp add: all_released_def release_codec_def release_frame_def mux_out_stays)

text \<open>Without the header the trailer is out of place.\<close>

lemma release_without_header:
  assumes "mux_in tr (mux_at True False c s g f False False)" "encoder_avfc w"
  shows "\<not> all_released (snd (ff_encoder_release lib w tr))"
proof -
  have "run_log mux_step (snd (ask (o_answer lib) OTrailer tr)) mux_idle = None" by (rule mux_out_snd [OF assms(1)]) simp
  then show ?thesis using assms(2) by (simp add: ff_encoder_release_def release_format_def mux_out_stays stuck_stays)
qed

text \<open>With it everything goes, and the codec can be freed when its extra data have not gone with the stream.\<close>

lemma release_open:
  assumes "open_encoder lib w p tr"
  shows "all_released (snd (ff_encoder_release lib w tr)) \<longleftrightarrow> \<not> o_extradata lib"
proof -
  let ?x = "o_extradata lib"
  let ?t1 = "snd (ask (o_answer lib) OTrailer tr)"
  let ?t2 = "snd (ask (o_answer lib) OCloseInput ?t1)"
  let ?t3 = "snd (ask (o_answer lib) OFreeFrame ?t2)"
  let ?t4 = "snd (ask (o_answer lib) OFreeCodec ?t3)"
  have t0: "mux_in tr (mux_at True True True ?x False True False False)" using assms by (simp add: open_encoder_def)
  have t1: "mux_in ?t1 (mux_at True True True ?x False True False False)" by (rule mux_in_snd [OF t0]) simp
  have t2: "mux_in ?t2 (mux_at False False True False ?x True False False)" by (rule mux_in_snd [OF t1]) simp
  have t3: "mux_in ?t3 (mux_at False False True False ?x False False False)" by (rule mux_in_snd [OF t2]) simp
  have log: "snd (ff_encoder_release lib w tr) = ?t4"
    using assms by (simp add: ff_encoder_release_def release_format_def release_frame_def release_codec_def open_encoder_def)
  show ?thesis
  proof (cases ?x)
    case True
    then have "run_log mux_step ?t4 mux_idle = None" by (intro mux_out_snd [OF t3]) simp
    then show ?thesis using True by (simp add: all_released_def log)
  next
    case False
    then have "mux_in ?t4 (mux_at False False False False False False False False)" by (intro mux_in_snd [OF t3]) simp
    then show ?thesis using False unfolding log by (auto intro: released_of simp: mux_idle_def)
  qed
qed

lemma release_closed: "closed_encoder w \<Longrightarrow> ff_encoder_release lib w tr = (w, tr)"
  by (simp add: ff_encoder_release_def closed_encoder_def release_format_def release_frame_def release_codec_def)

text \<open>The destructor releases once more, which does nothing.\<close>

lemma release_twice: "ff_encoder_release lib (fst (ff_encoder_release lib w tr)) t = (fst (ff_encoder_release lib w tr), t)"
  by (rule release_closed) (simp add: ff_encoder_release_def closed_encoder_def)

text \<open>C35. The output stream gets the packets of the encoder in order, and the writer gives everything back. Once it is open, whatever
  FFmpeg answers and however many packets it refuses, every call of \<open>WritePacket\<close> returns 0 or -1, and the stream has taken exactly
  the packets for which it returned 0, in their order, the \<open>k\<close>th with the time stamp \<open>1 + k * step\<close>. \<open>Release\<close> then makes its
  calls in order and leaves nothing exactly when the codec has no extra data: the stream shares them, and closing the
  output frees them before the codec does. When opening has failed, releasing is in order exactly when not even the
  output could be made, for the trailer is written without a header. Packets are taken to be shorter than 2 GB.\<close>

theorem stream_writer_in_order:
  assumes "ff_encoder_init lib (ff_encoder_new name rate wd h fmt gop profile) [] = Some (r, w, tr)"
  shows "r \<le> 0 \<and>
    (r = 0 \<longrightarrow> (\<forall>bss. (\<forall>bs\<in>set bss. length bs < 2 ^ 31) \<longrightarrow>
      (\<exists>rs w' tr'. write_packets lib w bss tr = Some (rs, w', tr') \<and> length rs = length bss \<and> set rs \<subseteq> {0, - 1} \<and>
         stream_got tr' = stamped (o_step lib) 1 (taken rs bss) \<and>
         all_released (snd (ff_encoder_release lib w' tr')) = (\<not> o_extradata lib)))) \<and>
    (r \<noteq> 0 \<longrightarrow> all_released (snd (ff_encoder_release lib w tr)) = (\<not> encoder_avfc w))"
proof -
  have new: "closed_encoder (ff_encoder_new name rate wd h fmt gop profile)" by (simp add: ff_encoder_new_def closed_encoder_def)
  obtain s where i: "mux_in tr (mux_at (encoder_avfc w) (r = 0) (video_avcc w) s False (enc_frame w \<noteq> None) False False)" "r \<le> 0"
    "encoder_avfc w \<or> mux_in tr mux_idle \<and> closed_encoder w"
    "r = 0 \<longrightarrow> encoder_avfc w \<and> video_avcc w \<and> enc_frame w = Some 1 \<and> s = o_extradata lib"
    using ff_encoder_init_in [OF assms new] by blast
  have small: "packet_size bs = int (length bs)" if "length bs < 2 ^ 31" for bs :: "u8 list"
    using that by (simp add: packet_size_def signed_of_nat signed_take_bit_int_eq_self)
  have "\<exists>rs w' tr'. write_packets lib w bss tr = Some (rs, w', tr') \<and> length rs = length bss \<and> set rs \<subseteq> {0, - 1} \<and>
         stream_got tr' = stamped (o_step lib) 1 (taken rs bss) \<and>
         all_released (snd (ff_encoder_release lib w' tr')) = (\<not> o_extradata lib)"
    if "r = 0" "\<forall>bs\<in>set bss. length bs < 2 ^ 31" for bss
  proof -
    have "open_encoder lib w 1 tr" using i that(1) by (auto simp: open_encoder_def)
    then show ?thesis using write_packets_in [of lib w 1 tr bss] small that(2) init_writes_nothing [OF assms] release_open by fastforce
  qed
  moreover have "all_released (snd (ff_encoder_release lib w tr)) = (\<not> encoder_avfc w)" if "r \<noteq> 0"
    using i that release_without_header [of tr "video_avcc w" s False "enc_frame w \<noteq> None" w lib]
    by (cases "encoder_avfc w") (auto simp: release_closed intro: released_of)
  ultimately show ?thesis using i(2) by blast
qed

text \<open>A stream that opens and takes every packet but the second.\<close>

definition demo_out_lib :: out_lib where
  "demo_out_lib = \<lparr>o_answer = (\<lambda>k c. case c of OWritePacket p bs \<Rightarrow> if bs = [2] then - 5 else 0 | _ \<Rightarrow> 0), o_nofile = False,
     o_global = True, o_extradata = False, o_step = 40\<rparr>"

definition demo_writer :: ff_encoder where
  "demo_writer = ff_encoder_new ''rtmp://host/live'' 25 1920 1080 23 25 ''main''"

definition demo_opened :: "int \<times> ff_encoder \<times> out_log" where
  "demo_opened = the (ff_encoder_init demo_out_lib demo_writer [])"

lemma demo_writer_opened:
  "ff_encoder_init demo_out_lib (ff_encoder_new ''rtmp://host/live'' 25 1920 1080 23 25 ''main'') [] =
     Some (0, fst (snd demo_opened), snd (snd demo_opened))"
  by (simp add: demo_opened_def demo_writer_def ff_encoder_init_def open_output_def open_codec_def start_stream_def ask_def Let_def
      guess_format_from_name_def ff_encoder_new_def demo_out_lib_def)

theorem stream_writer_in_order_witness:
  "\<exists>rs w' tr'. write_packets demo_out_lib (fst (snd demo_opened)) [[1], [2], [3]] (snd (snd demo_opened)) = Some (rs, w', tr') \<and>
     length rs = 3 \<and> stream_got tr' = stamped 40 1 (taken rs [[1], [2], [3]]) \<and>
     all_released (snd (ff_encoder_release demo_out_lib w' tr'))"
proof -
  have demo: "o_step demo_out_lib = 40" "\<not> o_extradata demo_out_lib" by (simp_all add: demo_out_lib_def)
  have "\<forall>bs\<in>set [[1], [2], [3 :: u8]]. length bs < 2 ^ 31" by auto
  then obtain rs w' tr' where "write_packets demo_out_lib (fst (snd demo_opened)) [[1], [2], [3]] (snd (snd demo_opened)) = Some (rs, w', tr')"
      "length rs = length [[1], [2], [3 :: u8]]" "stream_got tr' = stamped 40 1 (taken rs [[1], [2], [3]])"
      "all_released (snd (ff_encoder_release demo_out_lib w' tr'))"
    using stream_writer_in_order [OF demo_writer_opened] unfolding demo(1) using demo(2) by blast
  then show ?thesis by (intro exI [of _ rs] exI [of _ w'] exI [of _ tr'] conjI) simp_all
qed

end
