(* ===== verification/Files.thy ===== *)
theory Files
  imports Ax_Prelude
begin

text \<open>
  Files as \<open>models/file.cpp\<close> reads and writes them. A disk holds the bytes of the files that can be read and says which paths
  can be opened for writing; how much \<open>fread\<close> delivers is an argument. Failures of a stream that is open are left out.
\<close>

record disk =
  disk_files :: "string \<Rightarrow> u8 list option"
  disk_writable :: "string \<Rightarrow> bool"

definition file_exist :: "disk \<Rightarrow> string \<Rightarrow> bool" where
  "file_exist d path \<longleftrightarrow> disk_files d path \<noteq> None"

text \<open>The bytes are added to those that are there already.\<close>

definition read_file :: "disk \<Rightarrow> string \<Rightarrow> u8 list \<Rightarrow> bool \<times> u8 list" where
  "read_file d path bs = (case disk_files d path of None \<Rightarrow> (False, bs) | Some fs \<Rightarrow> (True, bs @ fs))"

definition open_for_writing :: "disk \<Rightarrow> string \<Rightarrow> u8 list \<Rightarrow> disk" where
  "open_for_writing d path bs = (if disk_writable d path then d\<lparr>disk_files := (disk_files d)(path \<mapsto> bs)\<rparr> else d)"

text \<open>A file that cannot be opened is logged; the result is the same.\<close>

definition dump_file :: "disk \<Rightarrow> string \<Rightarrow> u8 list \<Rightarrow> bool \<times> disk" where
  "dump_file d path bs = (True, open_for_writing d path bs)"

text \<open>A size that is negative writes nothing; one beyond the buffer is not defined.\<close>

definition dump_buffer :: "disk \<Rightarrow> string \<Rightarrow> u8 list \<Rightarrow> int \<Rightarrow> (bool \<times> disk) option" where
  "dump_buffer d path buf n = (if int (length buf) < n then None else Some (True, open_for_writing d path (take (nat n) buf)))"

text \<open>The variant over \<open>stdio\<close> replaces what is there. Of a file of \<open>n\<close> bytes \<open>got n\<close> are delivered; the rest stays zero.\<close>

definition read_whole :: "(nat \<Rightarrow> nat) \<Rightarrow> disk \<Rightarrow> string \<Rightarrow> u8 list \<Rightarrow> bool \<times> u8 list" where
  "read_whole got d path bs =
     (case disk_files d path of
        None \<Rightarrow> (False, bs)
      | Some fs \<Rightarrow>
          (let n = length fs; k = (if 0 < n then min (got n) n else 0)
           in (k = n, take k fs @ replicate (n - k) 0)))"

text \<open>What was dumped is read back, and reading is told apart from a file that was cut short.\<close>

lemma dump_read_roundtrip:
  assumes "disk_writable d path"
  shows "read_file (snd (dump_file d path bs)) path [] = (True, bs) \<and> read_whole (\<lambda>n. n) (snd (dump_file d path bs)) path junk = (True, bs)"
  using assms by (simp add: dump_file_def open_for_writing_def read_file_def read_whole_def Let_def)

lemma dump_buffer_roundtrip:
  assumes "disk_writable d path" "dump_buffer d path buf n = Some (ok, d')"
  shows "read_file d' path [] = (True, take (nat n) buf)"
  using assms by (auto simp: dump_buffer_def open_for_writing_def read_file_def split: if_splits)

lemma read_whole_complete:
  "fst (read_whole got d path bs) \<longleftrightarrow> (\<exists>fs. disk_files d path = Some fs \<and> (length fs \<le> got (length fs) \<or> fs = []) \<and> snd (read_whole got d path bs) = fs)"
  by (auto simp: read_whole_def Let_def split: option.splits)

lemma read_file_exist: "fst (read_file d path bs) \<longleftrightarrow> file_exist d path"
  by (simp add: read_file_def file_exist_def split: option.splits)

text \<open>A dump that wrote nothing reports success.\<close>

lemma dump_never_fails: "\<not> disk_writable d path \<Longrightarrow> dump_file d path bs = (True, d)"
  by (simp add: dump_file_def open_for_writing_def)

end
