(* ===== verification/Board.thy ===== *)
theory Board
  imports Hal_Calls
begin

text \<open>
  The modules of the board (\<open>pipeline/resource.cpp\<close>): the system, the decoder and the encoder are started in this order and
  stopped in the reverse one. The library answers the \<open>n\<close>th call as it likes; the attributes of the modules and log lines are
  left out.
\<close>

datatype module_call = MSysInit | MSysDeinit | MVdecInit | MVdecDeinit | MVencInit | MVencDeinit

type_synonym module_log = "(module_call, int) hlog"
type_synonym module_lib = "nat \<Rightarrow> module_call \<Rightarrow> int"

record resource =
  res_released :: bool
  res_device_id :: int
  res_config_path :: string

definition resource_new :: "int \<Rightarrow> string \<Rightarrow> resource" where
  "resource_new device path = \<lparr>res_released = False, res_device_id = device, res_config_path = path\<rparr>"

definition resource_default :: resource where
  "resource_default = \<lparr>res_released = False, res_device_id = 0, res_config_path = []\<rparr>"

definition resource_init :: "module_lib \<Rightarrow> module_log \<Rightarrow> int \<times> module_log" where
  "resource_init lib tr =
     (case ask lib MSysInit tr of
        (r, t1) \<Rightarrow>
          if r \<noteq> 0 then (r, t1)
          else
            (case ask lib MVdecInit t1 of
               (r, t2) \<Rightarrow>
                 if r \<noteq> 0 then (r, snd (ask lib MSysDeinit t2))
                 else
                   (case ask lib MVencInit t2 of
                      (r, t3) \<Rightarrow>
                        if r \<noteq> 0 then (r, snd (ask lib MSysDeinit (snd (ask lib MVdecDeinit t3)))) else (0, t3))))"

definition resource_release :: "module_lib \<Rightarrow> resource \<Rightarrow> module_log \<Rightarrow> resource \<times> module_log" where
  "resource_release lib d tr =
     (if res_released d then (d, tr)
      else (d\<lparr>res_released := True\<rparr>, snd (ask lib MSysDeinit (snd (ask lib MVdecDeinit (snd (ask lib MVencDeinit tr)))))))"

text \<open>Which modules are started. One that is not cannot be stopped, and the other two rest on the system.\<close>

fun module_step :: "module_call \<times> int \<Rightarrow> bool \<times> bool \<times> bool \<Rightarrow> (bool \<times> bool \<times> bool) option" where
  "module_step (MSysInit, r) (s, d, e) = (if s then None else Some (r = 0, d, e))"
| "module_step (MVdecInit, r) (s, d, e) = (if \<not> s \<or> d then None else Some (s, r = 0, e))"
| "module_step (MVencInit, r) (s, d, e) = (if \<not> s \<or> e then None else Some (s, d, r = 0))"
| "module_step (MVencDeinit, r) (s, d, e) = (if e then Some (s, d, False) else None)"
| "module_step (MVdecDeinit, r) (s, d, e) = (if d then Some (s, False, e) else None)"
| "module_step (MSysDeinit, r) (s, d, e) = (if s \<and> \<not> d \<and> \<not> e then Some (False, d, e) else None)"

definition modules :: "module_log \<Rightarrow> (bool \<times> bool \<times> bool) option" where
  "modules tr = run_log module_step tr (False, False, False)"

lemma modules_ask: "ask f c tr = (r, tr') \<Longrightarrow> modules tr = Some s \<Longrightarrow> modules tr' = module_step (c, r) s"
  unfolding modules_def by (rule run_log_ask)

lemma modules_snd: "modules tr = Some s \<Longrightarrow> modules (snd (ask f c tr)) = module_step (c, fst (ask f c tr)) s"
  by (rule modules_ask [of f c tr]) simp_all

text \<open>Starting starts all modules or leaves none started.\<close>

lemma resource_init_all_or_none:
  assumes "resource_init lib [] = (r, tr)"
  shows "modules tr = Some (r = 0, r = 0, r = 0)"
proof -
  obtain r1 t1 where 1: "ask lib MSysInit [] = (r1, t1)" by fastforce
  obtain r2 t2 where 2: "ask lib MVdecInit t1 = (r2, t2)" by fastforce
  obtain r3 t3 where 3: "ask lib MVencInit t2 = (r3, t3)" by fastforce
  have t1: "modules t1 = Some (r1 = 0, False, False)" using modules_ask [OF 1] by (simp add: modules_def)
  have t2: "modules t2 = Some (True, r2 = 0, False)" if "r1 = 0" using modules_ask [OF 2 t1] that by simp
  have t3: "modules t3 = Some (True, True, r3 = 0)" if "r1 = 0" "r2 = 0" using modules_ask [OF 3 t2] that by simp
  show ?thesis using assms 1 2 3 t1 t2 t3 by (auto simp: resource_init_def modules_snd split: if_splits)
qed

text \<open>The destructor releases whatever became of the start: in order exactly when it succeeded. A second release does nothing.\<close>

lemma resource_release_in_order:
  assumes "resource_init lib [] = (r, tr)" "\<not> res_released d"
  shows "modules (snd (resource_release lib d tr)) = (if r = 0 then Some (False, False, False) else None)"
proof -
  let ?t1 = "snd (ask lib MVencDeinit tr)"
  let ?t2 = "snd (ask lib MVdecDeinit ?t1)"
  have 1: "modules ?t1 = (if r = 0 then Some (True, True, False) else None)"
    using modules_snd [OF resource_init_all_or_none [OF assms(1)], of lib MVencDeinit] by auto
  have stuck: "modules t = None \<Longrightarrow> modules (snd (ask lib c t)) = None" for c t by (simp add: modules_def ask_def Let_def)
  show ?thesis
  proof (cases "r = 0")
    case True
    then have "modules ?t2 = Some (True, False, False)" using modules_snd [of ?t1 _ lib MVdecDeinit] 1 by simp
    from modules_snd [OF this, of lib MSysDeinit] show ?thesis using True assms(2) by (simp add: resource_release_def)
  next
    case False
    then show ?thesis using 1 stuck assms(2) by (simp add: resource_release_def)
  qed
qed

lemma resource_release_twice:
  "resource_release lib (fst (resource_release lib d tr)) t = (fst (resource_release lib d tr), t)"
  by (auto simp: resource_release_def)

end
