(* ===== verification/Similarity.thy ===== *)
theory Similarity
  imports Face_Align
begin

text \<open>
  The similarity transform that puts a face upright (\<open>EstimateSimilarity\<close>, \<open>EstimateNorm\<close> and \<open>NormCrop\<close> of
  \<open>models/face_align.cpp\<close>). The singular value decomposition and the warp are OpenCV's and arguments; numbers are of any
  type with the operations of \<open>double\<close> (the code scales the reference points in \<open>float\<close> before), and the theorem is about
  real ones.
\<close>

section \<open>Small matrices\<close>

datatype 'f mat2 = Mat2 (m00: 'f) (m01: 'f) (m10: 'f) (m11: 'f)

fun mmul :: "'f::{plus,times} mat2 \<Rightarrow> 'f mat2 \<Rightarrow> 'f mat2" where
  "mmul (Mat2 a b c d) (Mat2 e f g h) = Mat2 (a * e + b * g) (a * f + b * h) (c * e + d * g) (c * f + d * h)"

fun mtr :: "'f mat2 \<Rightarrow> 'f mat2" where
  "mtr (Mat2 a b c d) = Mat2 a c b d"

fun mdet :: "'f::{minus,times} mat2 \<Rightarrow> 'f" where
  "mdet (Mat2 a b c d) = a * d - b * c"

text \<open>A matrix of two rows and three columns, and what \<open>cv::SVDecomp\<close> gives: the singular values, \<open>u\<close> and \<open>vt\<close>.\<close>

record 'f affine =
  linear :: "'f mat2"
  shift_x :: 'f
  shift_y :: 'f

type_synonym 'f svd = "'f mat2 \<Rightarrow> ('f \<times> 'f) \<times> 'f mat2 \<times> 'f mat2"

section \<open>The estimate\<close>

definition sum_up :: "'f::{zero,plus} list \<Rightarrow> 'f" where
  "sum_up xs = foldl (+) 0 xs"

definition mean_of :: "('f \<times> 'f) list \<Rightarrow> 'f::{zero,one,plus,inverse} \<times> 'f" where
  "mean_of ps = (sum_up (map fst ps) / small (length ps), sum_up (map snd ps) / small (length ps))"

definition centred :: "('f \<times> 'f) list \<Rightarrow> ('f::{zero,one,plus,minus,inverse} \<times> 'f) list" where
  "centred ps = map (\<lambda>(x, y). (x - fst (mean_of ps), y - snd (mean_of ps))) ps"

text \<open>The variance of the source and its covariance with the target.\<close>

definition variance_of :: "('f \<times> 'f) list \<Rightarrow> 'f::{zero,one,plus,minus,times,inverse}" where
  "variance_of src = sum_up (map (\<lambda>(sx, sy). sx * sx + sy * sy) (centred src)) / small (length src)"

definition covariance :: "('f \<times> 'f) list \<Rightarrow> ('f \<times> 'f) list \<Rightarrow> 'f::{zero,one,plus,minus,times,inverse} mat2" where
  "covariance src dst =
     (let ps = zip (centred src) (centred dst); n = small (length src)
      in Mat2 (sum_up (map (\<lambda>((sx, sy), (dx, dy)). sx * dx) ps) / n) (sum_up (map (\<lambda>((sx, sy), (dx, dy)). sx * dy) ps) / n)
              (sum_up (map (\<lambda>((sx, sy), (dx, dy)). sy * dx) ps) / n) (sum_up (map (\<lambda>((sx, sy), (dx, dy)). sy * dy) ps) / n))"

text \<open>\<open>vt.at(1, 0)\<close> and \<open>vt.at(1, 1)\<close> change sign when the rotation would be a reflection.\<close>

fun flip_second_row :: "'f::uminus mat2 \<Rightarrow> 'f mat2" where
  "flip_second_row (Mat2 a b c d) = Mat2 a b (- c) (- d)"

definition rotation_of :: "'f mat2 \<Rightarrow> 'f mat2 \<Rightarrow> 'f::{zero,plus,minus,uminus,times,ord} mat2" where
  "rotation_of u vt =
     (let r = mmul (mtr vt) (mtr u) in if mdet r < 0 then mmul (mtr (flip_second_row vt)) (mtr u) else r)"

text \<open>\<open>10\<^sup>-\<^sup>1\<^sup>2\<close>.\<close>

definition flat_bound :: "'f::{zero,one,plus,times,inverse}" where
  "flat_bound = (let t = dec 1 1000 in t * t * t * t)"

definition estimate_similarity ::
    "'f svd \<Rightarrow> ('f \<times> 'f) list \<Rightarrow> ('f \<times> 'f) list \<Rightarrow> 'f::{zero,one,plus,minus,uminus,times,inverse,ord} affine option" where
  "estimate_similarity svd src dst =
     (if length src < 2 then None
      else
        (case svd (covariance src dst) of
           (w, u, vt) \<Rightarrow>
             (let r = rotation_of u vt;
                  k = (if flat_bound < variance_of src then (fst w + snd w) / variance_of src else 1);
                  a = k * m00 r; b = k * m01 r; c = k * m10 r; d = k * m11 r;
                  mx = fst (mean_of src); my = snd (mean_of src)
              in Some \<lparr>linear = Mat2 a b c d, shift_x = fst (mean_of dst) - (a * mx + b * my),
                       shift_y = snd (mean_of dst) - (c * mx + d * my)\<rparr>)))"

section \<open>The face\<close>

definition kArcfaceDst112 :: "('f::{zero,one,plus,inverse} \<times> 'f) list" where
  "kArcfaceDst112 =
     [(dec 382946 10000, dec 516963 10000), (dec 735318 10000, dec 515014 10000), (dec 560252 10000, dec 717366 10000),
      (dec 415493 10000, dec 923655 10000), (dec 707299 10000, dec 922041 10000)]"

definition estimate_norm ::
    "'f float_lib \<Rightarrow> 'f svd \<Rightarrow> 'f point2f list \<Rightarrow> int \<Rightarrow> 'f::{zero,one,plus,minus,uminus,times,inverse,ord} affine option" where
  "estimate_norm fl svd lm image_size =
     (if image_size \<le> 0 then None
      else
        (let ratio = of_i fl image_size / small 112
         in estimate_similarity svd (map (\<lambda>p. (px p, py p)) lm) (map (\<lambda>(x, y). (x * ratio, y * ratio)) kArcfaceDst112)))"

text \<open>The image is \<open>None\<close> when it is empty; \<open>warp\<close> is given the matrix and the side of the result.\<close>

definition norm_crop_of ::
    "'f::{zero,one,plus,minus,uminus,times,inverse,ord} float_lib \<Rightarrow> 'f svd \<Rightarrow> ('m \<Rightarrow> 'f affine \<Rightarrow> int \<Rightarrow> 'm) \<Rightarrow>
     'm option \<Rightarrow> 'f point2f list \<Rightarrow> int \<Rightarrow> 'm option" where
  "norm_crop_of fl svd warp img lm image_size =
     (case img of
        None \<Rightarrow> None
      | Some m \<Rightarrow>
          if image_size \<le> 0 then None
          else (case estimate_norm fl svd lm image_size of None \<Rightarrow> None | Some t \<Rightarrow> Some (warp m t image_size)))"

section \<open>Algebra\<close>

definition mid2 :: "real mat2" where
  "mid2 = Mat2 1 0 0 1"

definition mtrace :: "real mat2 \<Rightarrow> real" where
  "mtrace a = m00 a + m11 a"

lemma mmul_assoc: "mmul (mmul a b) c = mmul a (mmul b (c :: real mat2))"
  by (cases a; cases b; cases c) (simp add: algebra_simps)

lemma mtr_mmul: "mtr (mmul a b) = mmul (mtr b) (mtr (a :: real mat2))"
  by (cases a; cases b) (simp add: algebra_simps)

lemma mtr_simps [simp]: "mtr (mtr a) = (a :: real mat2)" "mtr mid2 = mid2"
  by (cases a) (simp_all add: mid2_def)

lemma mmul_id [simp]: "mmul mid2 a = a" "mmul a mid2 = a"
  by (cases a; simp add: mid2_def)+

lemma mdet_mmul: "mdet (mmul a b) = mdet a * mdet (b :: real mat2)"
  by (cases a; cases b) (simp add: algebra_simps)

lemma mdet_mtr [simp]: "mdet (mtr a) = mdet (a :: real mat2)"
  by (cases a) simp

lemma mdet_mid [simp]: "mdet mid2 = 1"
  by (simp add: mid2_def)

lemma mtrace_comm: "mtrace (mmul a b) = mtrace (mmul b a)"
  by (cases a; cases b) (simp add: mtrace_def algebra_simps)

lemma square_trace: "mtrace (mmul a a) = (mtrace a)\<^sup>2 - 2 * mdet a"
  by (cases a) (simp add: mtrace_def power2_eq_square algebra_simps)

lemma square_entries: "mmul a a = Mat2 (mtrace a * m00 a - mdet a) (mtrace a * m01 a) (mtrace a * m10 a) (mtrace a * m11 a - mdet a)"
  by (cases a) (simp add: mtrace_def algebra_simps)

text \<open>A matrix with non-negative determinant and trace is determined by its square, if that of one is positive.\<close>

lemma square_root_unique:
  assumes "mmul p p = mmul s s" "0 \<le> mdet p" "0 < mdet s" "0 \<le> mtrace p" "0 < mtrace s"
  shows "p = s"
proof -
  have "(mdet p)\<^sup>2 = (mdet s)\<^sup>2" using arg_cong [OF assms(1), of mdet] by (simp add: mdet_mmul power2_eq_square)
  then have d: "mdet p = mdet s" using assms(2,3) by (simp add: power2_eq_iff_nonneg)
  have "(mtrace p)\<^sup>2 = (mtrace s)\<^sup>2" using arg_cong [OF assms(1), of mtrace] d by (simp add: square_trace)
  then have t: "mtrace p = mtrace s" using assms(4,5) by (simp add: power2_eq_iff_nonneg)
  show ?thesis using assms(1,5) unfolding square_entries d t by (cases p; cases s) simp
qed

lemma inverse_exists:
  fixes a :: "real mat2"
  assumes "mdet a \<noteq> 0"
  shows "\<exists>i. mmul i a = mid2 \<and> mmul a i = mid2"
proof -
  obtain p q r t where a: "a = Mat2 p q r t" by (cases a)
  define d where "d = mdet a"
  have d: "d \<noteq> 0" "d = p * t - q * r" using assms a by (simp_all add: d_def)
  have "mmul (Mat2 (t / d) (- q / d) (- r / d) (p / d)) a = Mat2 ((p * t - q * r) / d) 0 0 ((p * t - q * r) / d)"
    "mmul a (Mat2 (t / d) (- q / d) (- r / d) (p / d)) = Mat2 ((p * t - q * r) / d) 0 0 ((p * t - q * r) / d)"
    by (simp_all add: a diff_divide_distrib mult.commute)
  then show ?thesis using d by (auto simp: mid2_def)
qed

lemma inverse_comm: "mmul a b = mid2 \<Longrightarrow> mmul b a = mid2"
proof -
  assume ab: "mmul a b = mid2"
  then have "mdet a * mdet b = 1" by (metis mdet_mmul mdet_mid)
  then have "mdet a \<noteq> 0" by auto
  then obtain i where i: "mmul i a = mid2" "mmul a i = mid2" using inverse_exists by blast
  have "b = mmul (mmul i a) b" using i by simp
  also have "\<dots> = i" by (simp add: mmul_assoc ab)
  finally show ?thesis using i by simp
qed

lemma cancel_left: "mmul s q = s \<Longrightarrow> mdet s \<noteq> 0 \<Longrightarrow> q = mid2"
  using inverse_exists [of s] by (metis mmul_assoc mmul_id(1))

section \<open>The singular value decomposition\<close>

text \<open>What the library documents of its result.\<close>

definition is_svd :: "real mat2 \<Rightarrow> (real \<times> real) \<times> real mat2 \<times> real mat2 \<Rightarrow> bool" where
  "is_svd m y \<longleftrightarrow> (case y of (w, u, vt) \<Rightarrow> 0 \<le> fst w \<and> 0 \<le> snd w \<and> mmul u (mtr u) = mid2 \<and> mmul vt (mtr vt) = mid2 \<and>
     mmul (mmul u (Mat2 (fst w) 0 0 (snd w))) vt = m)"

text \<open>The rotation and the sum of the singular values, out of the product of a positive definite matrix and a rotation.\<close>

lemma svd_of_polar:
  assumes svd: "is_svd (mmul s (mtr r)) (w, u, vt)" and s: "mtr s = s" "0 < mdet s" "0 < mtrace s"
    and r: "mmul r (mtr r) = mid2" "mdet r = 1"
  shows "rotation_of u vt = r \<and> fst w + snd w = mtrace s"
proof -
  let ?d = "Mat2 (fst w) 0 0 (snd w)"
  let ?p = "mmul (mmul u ?d) (mtr u)" and ?q = "mmul (mmul u vt) r"
  have u: "mmul u (mtr u) = mid2" "mmul (mtr u) u = mid2" and v: "mmul vt (mtr vt) = mid2"
    and w: "0 \<le> fst w" "0 \<le> snd w" and m: "mmul (mmul u ?d) vt = mmul s (mtr r)" and r': "mmul (mtr r) r = mid2"
    using svd r(1) inverse_comm by (auto simp: is_svd_def)
  have one: "mmul (mtr u) (mmul u x) = x" "mmul vt (mmul (mtr vt) x) = x" "mmul r (mmul (mtr r) x) = x" for x
    by (simp_all add: u v r mmul_assoc [symmetric])
  have pq: "mmul ?p ?q = s"
  proof -
    have "mmul ?p ?q = mmul (mmul (mmul u ?d) vt) r" by (simp add: mmul_assoc one)
    also have "\<dots> = mmul (mmul s (mtr r)) r" by (simp only: m)
    also have "\<dots> = s" by (simp add: mmul_assoc r')
    finally show ?thesis .
  qed
  have qq: "mmul ?q (mtr ?q) = mid2" by (simp add: mtr_mmul mmul_assoc one u)
  have pt: "mtr ?p = ?p" by (simp add: mtr_mmul mmul_assoc)
  have "mmul s s = mmul (mmul ?p ?q) (mtr (mmul ?p ?q))" using pq s(1) by simp
  also have "\<dots> = mmul ?p (mmul (mmul ?q (mtr ?q)) (mtr ?p))" by (simp only: mtr_mmul mmul_assoc)
  also have "\<dots> = mmul ?p ?p" unfolding qq pt by simp
  finally have sq: "mmul ?p ?p = mmul s s" by simp
  have "mdet ?p = fst w * snd w * (mdet u * mdet u)" by (simp add: mdet_mmul)
  then have dp: "0 \<le> mdet ?p" using w by simp
  have tp: "mtrace ?p = fst w + snd w"
    using mtrace_comm [of "mmul u ?d" "mtr u"] by (simp add: mmul_assoc [symmetric] u) (simp add: mtrace_def)
  have ps: "?p = s" by (rule square_root_unique [OF sq dp s(2) _ s(3)]) (use tp w in simp)
  then have "mmul s ?q = s" using pq by simp
  then have "?q = mid2" using s(2) by (intro cancel_left) auto
  then have "mmul u vt = mtr r" by (metis mmul_assoc mmul_id r(1))
  then have "mmul (mtr vt) (mtr u) = r" by (metis mtr_mmul mtr_simps(1))
  then show ?thesis using ps tp r(2) by (simp add: rotation_of_def)
qed

section \<open>A similar copy\<close>

text \<open>The points turned by the rotation \<open>r\<close>, scaled by \<open>k\<close> and moved.\<close>

definition similar :: "real \<Rightarrow> real mat2 \<Rightarrow> real \<Rightarrow> real \<Rightarrow> real \<times> real \<Rightarrow> real \<times> real" where
  "similar k r tx ty p = (k * (m00 r * fst p + m01 r * snd p) + tx, k * (m10 r * fst p + m11 r * snd p) + ty)"

lemma small_real: "small n = (of_nat n :: real)"
  by (induction n) simp_all

lemma sum_up_real: "sum_up xs = sum_list (xs :: real list)"
  by (induction xs rule: rev_induct) (simp_all add: sum_up_def)

lemma mean_similar:
  assumes "src \<noteq> []"
  shows "mean_of (map (similar k r tx ty) src) = similar k r tx ty (mean_of src)"
proof -
  have sum: "(\<Sum>p\<leftarrow>src. k * (a * fst p + b * snd p) + t) = k * (a * (\<Sum>p\<leftarrow>src. fst p) + b * (\<Sum>p\<leftarrow>src. snd p)) + of_nat (length src) * t"
    for a b t :: real by (induction src) (simp_all add: algebra_simps)
  have "real (length src) \<noteq> 0" using assms by simp
  then show ?thesis
    unfolding mean_of_def sum_up_real small_real similar_def prod.sel map_map comp_def sum length_map
    by (simp add: field_simps)
qed

lemma centred_similar:
  assumes "src \<noteq> []"
  shows "centred (map (similar k r tx ty) src) = map (\<lambda>p. (k * (m00 r * fst p + m01 r * snd p), k * (m10 r * fst p + m11 r * snd p))) (centred src)"
  unfolding centred_def mean_similar [OF assms] by (auto simp: similar_def algebra_simps)

definition scaled :: "real \<Rightarrow> real mat2 \<Rightarrow> real mat2" where
  "scaled k a = Mat2 (k * m00 a) (k * m01 a) (k * m10 a) (k * m11 a)"

lemma covariance_of:
  assumes "centred dst = map g (centred src)"
  shows "covariance src dst =
    Mat2 ((\<Sum>p\<leftarrow>centred src. fst p * fst (g p)) / real (length src)) ((\<Sum>p\<leftarrow>centred src. fst p * snd (g p)) / real (length src))
         ((\<Sum>p\<leftarrow>centred src. snd p * fst (g p)) / real (length src)) ((\<Sum>p\<leftarrow>centred src. snd p * snd (g p)) / real (length src))"
proof -
  have "zip (centred src) (centred dst) = map (\<lambda>p. (p, g p)) (centred src)" using assms by (simp add: zip_map2 zip_same_conv_map)
  then show ?thesis by (simp add: covariance_def Let_def sum_up_real small_real comp_def case_prod_unfold)
qed

lemmas covariance_self = covariance_of [of src "\<lambda>p. p" src for src, simplified]

lemma covariance_similar:
  assumes "src \<noteq> []"
  shows "covariance src (map (similar k r tx ty) src) = mmul (scaled k (covariance src src)) (mtr r)"
proof -
  obtain a b c d where r: "r = Mat2 a b c d" by (cases r)
  have lin: "(\<Sum>p\<leftarrow>xs. u p * (k * (x * fst p + y * snd p))) / n =
      k * ((\<Sum>p\<leftarrow>xs. u p * fst p) / n) * x + k * ((\<Sum>p\<leftarrow>xs. u p * snd p) / n) * y" for u x y n and xs :: "(real \<times> real) list"
  proof -
    have "(\<Sum>p\<leftarrow>xs. u p * (k * (x * fst p + y * snd p))) = k * (\<Sum>p\<leftarrow>xs. u p * fst p) * x + k * (\<Sum>p\<leftarrow>xs. u p * snd p) * y"
      by (induction xs) (simp_all add: algebra_simps)
    then show ?thesis by (simp add: add_divide_distrib)
  qed
  show ?thesis unfolding covariance_of [OF centred_similar [OF assms]] covariance_self r scaled_def by (simp add: lin)
qed

lemma variance_trace: "variance_of src = mtrace (covariance src src)"
proof -
  have "(\<Sum>p\<leftarrow>xs. fst p * fst p + snd p * snd p) = (\<Sum>p\<leftarrow>xs. fst p * fst p) + (\<Sum>p\<leftarrow>xs. snd p * snd p)" for xs :: "(real \<times> real) list"
    by (induction xs) simp_all
  then show ?thesis
    by (simp add: variance_of_def covariance_self sum_up_real small_real mtrace_def case_prod_unfold add_divide_distrib)
qed

lemma covariance_symmetric: "m01 (covariance src src) = m10 (covariance src (src :: (real \<times> real) list))"
  by (simp add: covariance_self mult.commute)

lemma covariance_nonneg: "0 \<le> m00 (covariance src src) \<and> 0 \<le> m11 (covariance src (src :: (real \<times> real) list))"
proof -
  have "0 \<le> (\<Sum>p\<leftarrow>xs. f p * f p)" for f :: "real \<times> real \<Rightarrow> real" and xs by (induction xs) simp_all
  then show ?thesis by (simp add: covariance_self)
qed

lemma trace_of_spread:
  assumes "0 < mdet (covariance src src)"
  shows "0 < mtrace (covariance src (src :: (real \<times> real) list))"
proof -
  obtain a b c d where c: "covariance src src = Mat2 a b c d" by (cases "covariance src src")
  have n: "0 \<le> a" "0 \<le> d" "b = c" using covariance_nonneg [of src] covariance_symmetric [of src] c by simp_all
  have "0 < a * d - b * b" using assms c n by simp
  moreover have "0 \<le> b * b" by simp
  ultimately have "0 < a * d" by linarith
  then have "a \<noteq> 0" "d \<noteq> 0" by auto
  then show ?thesis using n c by (simp add: mtrace_def)
qed

lemma flat_bound_real: "flat_bound = (1 / 1000000000000 :: real)"
  by (simp add: flat_bound_def dec_def small_real)

text \<open>C29. The transform is the right one: when the target points are the source points turned, scaled by a positive factor and
  moved, and the source points neither lie on one line nor have a variance below the bound at which the code gives up, the estimate gives back exactly this rotation, factor and
  displacement, whatever singular value decomposition the library finds.\<close>

theorem similarity_recovered:
  assumes "2 \<le> length src" "0 < k" "mmul r (mtr r) = mid2" "mdet r = 1" "0 < mdet (covariance src src)" "flat_bound < variance_of src"
    "is_svd (covariance src (map (similar k r tx ty) src)) (svd (covariance src (map (similar k r tx ty) src)))"
  shows "estimate_similarity svd src (map (similar k r tx ty) src) = Some \<lparr>linear = scaled k r, shift_x = tx, shift_y = ty\<rparr>"
proof -
  have ne: "src \<noteq> []" using assms(1) by auto
  let ?s = "scaled k (covariance src src)"
  obtain w u vt where svd: "svd (covariance src (map (similar k r tx ty) src)) = (w, u, vt)" by (metis prod_cases3)
  have t: "mtrace ?s = k * variance_of src" by (simp add: variance_trace mtrace_def scaled_def algebra_simps)
  have d: "mdet ?s = k * k * mdet (covariance src src)" by (cases "covariance src src") (simp add: scaled_def algebra_simps)
  have v: "0 < variance_of src" using trace_of_spread [OF assms(5)] by (simp add: variance_trace)
  have "rotation_of u vt = r \<and> fst w + snd w = mtrace ?s"
  proof (rule svd_of_polar [OF _ _ _ _ assms(3,4)])
    show "is_svd (mmul ?s (mtr r)) (w, u, vt)" using assms(7) svd covariance_similar [OF ne] by simp
    show "mtr ?s = ?s" using covariance_symmetric [of src] by (cases "covariance src src") (simp add: scaled_def)
    show "0 < mdet ?s" "0 < mtrace ?s" using d t v assms(2,5) by simp_all
  qed
  then have rw: "rotation_of u vt = r" "(fst w + snd w) / variance_of src = k" using t v by simp_all
  have short: "\<not> length src < 2" using assms(1) by simp
  show ?thesis
    unfolding estimate_similarity_def svd prod.case Let_def rw mean_similar [OF ne] if_P [OF assms(6)] if_not_P [OF short]
    by (simp add: similar_def scaled_def algebra_simps)
qed

text \<open>Four points on the axes, turned by a right angle, doubled and moved.\<close>

definition demo_points :: "(real \<times> real) list" where
  "demo_points = [(1, 0), (- 1, 0), (0, 1), (0, - 1)]"

definition quarter_turn :: "real mat2" where
  "quarter_turn = Mat2 0 (- 1) 1 0"

lemma demo_points_covariance:
  "covariance demo_points demo_points = Mat2 (1 / 2) 0 0 (1 / 2)" "variance_of demo_points = 1"
  "covariance demo_points (map (similar 2 quarter_turn 3 4) demo_points) = mtr quarter_turn"
proof -
  show c: "covariance demo_points demo_points = Mat2 (1 / 2) 0 0 (1 / 2)"
    by (simp add: covariance_def centred_def mean_of_def demo_points_def sum_up_real small_real)
  show "variance_of demo_points = 1" by (simp add: variance_trace c mtrace_def)
  have "demo_points \<noteq> []" by (simp add: demo_points_def)
  then show "covariance demo_points (map (similar 2 quarter_turn 3 4) demo_points) = mtr quarter_turn"
    by (simp add: covariance_similar c scaled_def quarter_turn_def)
qed

theorem similarity_recovered_witness:
  "estimate_similarity (\<lambda>m. ((1, 1), mid2, mtr quarter_turn)) demo_points (map (similar 2 quarter_turn 3 4) demo_points) =
     Some \<lparr>linear = Mat2 0 (- 2) 2 0, shift_x = 3, shift_y = 4\<rparr>"
proof -
  have r: "mmul quarter_turn (mtr quarter_turn) = mid2" "mdet quarter_turn = 1" by (simp_all add: quarter_turn_def mid2_def)
  have "is_svd (covariance demo_points (map (similar 2 quarter_turn 3 4) demo_points)) ((1, 1), mid2, mtr quarter_turn)"
    unfolding demo_points_covariance by (simp add: is_svd_def quarter_turn_def mid2_def)
  then have "estimate_similarity (\<lambda>m. ((1, 1), mid2, mtr quarter_turn)) demo_points (map (similar 2 quarter_turn 3 4) demo_points) =
      Some \<lparr>linear = scaled 2 quarter_turn, shift_x = 3, shift_y = 4\<rparr>"
    using r by (intro similarity_recovered) (simp_all add: demo_points_covariance flat_bound_real, simp_all add: demo_points_def)
  then show ?thesis by (simp add: scaled_def quarter_turn_def)
qed

end
