(* ===== verification/Lapjv.thy ===== *)
theory Lapjv
  imports Complex_Main Ax_Prelude
begin

text \<open>
  The solver of the linear assignment problem (\<open>tracker/bytetrack/lapjv.cpp\<close>, after Jonker and Volgenant): column
  reduction, augmenting row reduction, and shortest augmenting paths. Costs are of any type with the operations
  of \<open>double\<close>. Rows and columns are naturals, the entries of \<open>x\<close> and \<open>y\<close> are -1 or a column or row. \<open>malloc\<close>
  succeeds, and the counters fit their 32 bits. These definitions do not check their indices, but for the loops that could run
  out of an array or for ever, which are \<open>None\<close> then; \<open>Lapjv_Checked\<close> has the code with every access checked, and
  shows that the two agree.
\<close>

section \<open>Column reduction\<close>

definition large :: "'f::{one,plus,times}" where
  "large = (let t = 1 + 1 + 1 + 1 + 1 + 1 + 1 + 1 + 1 + 1 in t * t * t * t * t * t)"

definition lower_column :: "(nat \<Rightarrow> nat \<Rightarrow> 'f::ord) \<Rightarrow> nat \<Rightarrow> nat \<Rightarrow> int list \<times> 'f list \<Rightarrow> int list \<times> 'f list" where
  "lower_column c i j = (\<lambda>(y, v). if c i j < v ! j then (y[j := int i], v[j := c i j]) else (y, v))"

definition column_minima ::
    "nat \<Rightarrow> (nat \<Rightarrow> nat \<Rightarrow> 'f::{one,plus,times,ord}) \<Rightarrow> int list \<times> 'f list" where
  "column_minima n c = fold (\<lambda>i. fold (lower_column c i) [0..<n]) [0..<n] (replicate n 0, replicate n large)"

text \<open>The columns from the last to the first: each claims its row, unless another has done so.\<close>

definition claim_column :: "nat \<Rightarrow> int list \<times> int list \<times> bool list \<Rightarrow> int list \<times> int list \<times> bool list" where
  "claim_column j = (\<lambda>(x, y, unique).
     let i = nat (y ! j)
     in if x ! i < 0 then (x[i := int j], y, unique) else (x, y[j := - 1], unique[i := False]))"

definition claim_columns :: "nat \<Rightarrow> int list \<Rightarrow> int list \<times> int list \<times> bool list" where
  "claim_columns n y = fold claim_column (rev [0..<n]) (replicate n (- 1), y, replicate n True)"

definition min_except ::
    "nat \<Rightarrow> (nat \<Rightarrow> nat \<Rightarrow> 'f::{one,plus,minus,times,ord}) \<Rightarrow> 'f list \<Rightarrow> nat \<Rightarrow> nat \<Rightarrow> 'f" where
  "min_except n c v i j =
     fold (\<lambda>j2 m. if j2 = j then m else if c i j2 - v ! j2 < m then c i j2 - v ! j2 else m) [0..<n] large"

definition reduce_row ::
    "nat \<Rightarrow> (nat \<Rightarrow> nat \<Rightarrow> 'f::{one,plus,minus,times,ord}) \<Rightarrow> int list \<Rightarrow> bool list \<Rightarrow> nat \<Rightarrow>
     nat list \<times> 'f list \<Rightarrow> nat list \<times> 'f list" where
  "reduce_row n c x unique i = (\<lambda>(free, v).
     if x ! i < 0 then (free @ [i], v)
     else if unique ! i then
       (let j = nat (x ! i) in (free, v[j := v ! j - min_except n c v i j]))
     else (free, v))"

definition ccrrt_dense ::
    "nat \<Rightarrow> (nat \<Rightarrow> nat \<Rightarrow> 'f::{one,plus,minus,times,ord}) \<Rightarrow> nat list \<times> int list \<times> int list \<times> 'f list" where
  "ccrrt_dense n c =
     (let (y, v) = column_minima n c;
          (x, y, unique) = claim_columns n y;
          (free, v) = fold (reduce_row n c x unique) [0..<n] ([], v)
      in (free, x, y, v))"

section \<open>Augmenting row reduction\<close>

text \<open>The smallest and the second smallest reduced cost of a row, with their columns.\<close>

definition two_minima ::
    "nat \<Rightarrow> (nat \<Rightarrow> nat \<Rightarrow> 'f::{one,plus,minus,times,ord}) \<Rightarrow> 'f list \<Rightarrow> nat \<Rightarrow> nat \<times> 'f \<times> int \<times> 'f" where
  "two_minima n c v i =
     fold (\<lambda>j (j1, v1, j2, v2).
         let r = c i j - v ! j
         in if r < v2 then (if v1 \<le> r then (j1, v1, int j, r) else (j, r, int j1, v1)) else (j1, v1, j2, v2))
       [1..<n] (0, c i 0 - v ! 0, - 1, large)"

text \<open>The array of free rows holds the new ones at its front and those to process from \<open>current\<close> on.\<close>

record 'f reduction =
  current :: nat
  new_free :: nat
  rr_cnt :: nat
  free_rows :: "nat list"
  rowsol :: "int list"
  colsol :: "int list"
  prices :: "'f list"

definition assign :: "nat \<Rightarrow> nat \<Rightarrow> 'f reduction \<Rightarrow> 'f reduction" where
  "assign i j s = s\<lparr>rowsol := (rowsol s)[i := int j], colsol := (colsol s)[j := int i]\<rparr>"

definition put_back :: "int \<Rightarrow> 'f reduction \<Rightarrow> 'f reduction" where
  "put_back i0 s = s\<lparr>current := current s - 1, free_rows := (free_rows s)[current s - 1 := nat i0]\<rparr>"

definition keep_free :: "int \<Rightarrow> 'f reduction \<Rightarrow> 'f reduction" where
  "keep_free i0 s = s\<lparr>free_rows := (free_rows s)[new_free s := nat i0], new_free := new_free s + 1\<rparr>"

definition carr_step ::
    "nat \<Rightarrow> (nat \<Rightarrow> nat \<Rightarrow> 'f::{one,plus,minus,times,ord}) \<Rightarrow> 'f reduction \<Rightarrow> 'f reduction" where
  "carr_step n c s =
     (let free_i = free_rows s ! current s;
          s = s\<lparr>rr_cnt := rr_cnt s + 1, current := current s + 1\<rparr>;
          (j1, v1, j2, v2) = two_minima n c (prices s) free_i;
          i0 = colsol s ! j1;
          v1_new = prices s ! j1 - (v2 - v1);
          v1_lowers = (v1_new < prices s ! j1)
      in if rr_cnt s < current s * n then
           (let (j, i0) = (if \<not> v1_lowers \<and> 0 \<le> i0 \<and> 0 \<le> j2 then (nat j2, colsol s ! nat j2) else (j1, i0));
                s = (if v1_lowers then s\<lparr>prices := (prices s)[j1 := v1_new]\<rparr> else s);
                s = (if 0 \<le> i0 then (if v1_lowers then put_back i0 s else keep_free i0 s) else s)
            in assign free_i j s)
         else assign free_i j1 (if 0 \<le> i0 then keep_free i0 s else s))"

lemma carr_step_counters:
  "rr_cnt (carr_step n c s) = rr_cnt s + 1"
  "current (carr_step n c s) \<le> current s + 1"
  "\<not> rr_cnt s + 1 < (current s + 1) * n \<Longrightarrow> current (carr_step n c s) = current s + 1"
  by (auto simp: carr_step_def assign_def put_back_def keep_free_def Let_def split: prod.split)

function carr_loop ::
    "nat \<Rightarrow> (nat \<Rightarrow> nat \<Rightarrow> 'f::{one,plus,minus,times,ord}) \<Rightarrow> nat \<Rightarrow> 'f reduction \<Rightarrow> 'f reduction" where
  "carr_loop n c n_free s = (if current s < n_free then carr_loop n c n_free (carr_step n c s) else s)"
  by auto

termination carr_loop
proof (relation "measures [\<lambda>(n, c, m, s). m * n - rr_cnt s, \<lambda>(n, c, m, s). m - current s]", goal_cases)
  case (2 n c m s)
  note k = carr_step_counters [where n = n and c = c and s = s]
  show ?case
  proof (cases "rr_cnt s < m * n")
    case True
    then have "m * n - rr_cnt (carr_step n c s) < m * n - rr_cnt s" unfolding k(1) by (intro diff_less_mono2) simp_all
    then show ?thesis by simp
  next
    case False
    then have "\<not> rr_cnt s + 1 < (current s + 1) * n" using 2 mult_le_mono1 [of "current s + 1" m n] by simp
    from k(3) [OF this] show ?thesis using 2 k(1) False by simp
  qed
qed simp

declare carr_loop.simps [simp del]

definition carr_dense ::
    "nat \<Rightarrow> (nat \<Rightarrow> nat \<Rightarrow> 'f::{one,plus,minus,times,ord}) \<Rightarrow> nat \<Rightarrow> nat list \<times> int list \<times> int list \<times> 'f list \<Rightarrow>
     nat \<times> nat list \<times> int list \<times> int list \<times> 'f list" where
  "carr_dense n c n_free = (\<lambda>(free, x, y, v).
     let s = carr_loop n c n_free \<lparr>current = 0, new_free = 0, rr_cnt = 0, free_rows = free, rowsol = x, colsol = y,
               prices = v\<rparr>
     in (new_free s, free_rows s, rowsol s, colsol s, prices s))"

section \<open>Shortest augmenting paths\<close>

text \<open>\<open>cols\<close> holds the columns: the ready ones, from \<open>lo\<close> on those to scan, from \<open>hi\<close> on those to do.\<close>

definition find_dense ::
    "nat \<Rightarrow> nat \<Rightarrow> 'f::ord list \<Rightarrow> nat list \<Rightarrow> nat \<times> nat list" where
  "find_dense n lo d cols =
     (case fold (\<lambda>k (hi, mind, cols).
          let j = cols ! k
          in if d ! j \<le> mind then
               (let (hi, mind) = (if d ! j < mind then (lo, d ! j) else (hi, mind))
                in (Suc hi, mind, cols[k := cols ! hi, hi := j]))
             else (hi, mind, cols))
        [Suc lo..<n] (Suc lo, d ! (cols ! lo), cols) of
      (hi, mind, cols) \<Rightarrow> (hi, cols))"

text \<open>One row of the scan; the first component is the free column that ends it.\<close>

fun scan_row ::
    "(nat \<Rightarrow> nat \<Rightarrow> 'f::{minus,ord}) \<Rightarrow> int list \<Rightarrow> 'f list \<Rightarrow> nat \<Rightarrow> 'f \<Rightarrow> 'f \<Rightarrow> nat list \<Rightarrow>
     nat \<times> 'f list \<times> nat list \<times> nat list \<Rightarrow> nat option \<times> nat \<times> 'f list \<times> nat list \<times> nat list" where
  "scan_row c y v i h mind [] s = (None, s)"
| "scan_row c y v i h mind (k # ks) (hi, d, cols, pred) =
     (let j = cols ! k; cred = c i j - v ! j - h
      in if cred < d ! j then
           (let d = d[j := cred]; pred = pred[j := i]
            in if cred = mind then
                 (if y ! j < 0 then (Some j, hi, d, cols, pred)
                  else scan_row c y v i h mind ks (Suc hi, d, cols[k := cols ! hi, hi := j], pred))
               else scan_row c y v i h mind ks (hi, d, cols, pred))
         else scan_row c y v i h mind ks (hi, d, cols, pred))"

function scan_dense ::
    "nat \<Rightarrow> (nat \<Rightarrow> nat \<Rightarrow> 'f::{minus,ord}) \<Rightarrow> int list \<Rightarrow> 'f list \<Rightarrow> nat \<Rightarrow>
     nat \<times> 'f list \<times> nat list \<times> nat list \<Rightarrow> (nat option \<times> nat \<times> nat \<times> 'f list \<times> nat list \<times> nat list) option" where
  "scan_dense n c y v lo (hi, d, cols, pred) =
     (if lo = hi then Some (None, lo, hi, d, cols, pred)
      else if n \<le> lo then None
      else
        (let j = cols ! lo; i = nat (y ! j); mind = d ! j; h = c i j - v ! j - mind
         in case scan_row c y v i h mind [hi..<n] (hi, d, cols, pred) of
              (Some j, hi, d, cols, pred) \<Rightarrow> Some (Some j, Suc lo, hi, d, cols, pred)
            | (None, s) \<Rightarrow> scan_dense n c y v (Suc lo) s))"
  by pat_completeness auto

termination scan_dense
  by (relation "measure (\<lambda>(n, c, y, v, lo, s). n - lo)") auto

declare scan_dense.simps [simp del]

definition last_free :: "int list \<Rightarrow> nat list \<Rightarrow> nat list \<Rightarrow> nat option" where
  "last_free y cols ks = fold (\<lambda>k f. if y ! (cols ! k) < 0 then Some (cols ! k) else f) ks None"

text \<open>The loop of \<open>find_path_dense\<close>. A scan that ends at a free column leaves the caller's \<open>lo\<close> as it was. The
  result: the column, \<open>lo\<close>, the number of ready columns, and the arrays.\<close>

partial_function (option) find_loop ::
    "nat \<Rightarrow> (nat \<Rightarrow> nat \<Rightarrow> 'f::{minus,ord}) \<Rightarrow> int list \<Rightarrow> 'f list \<Rightarrow> nat \<Rightarrow> nat \<Rightarrow> nat \<Rightarrow>
     'f list \<Rightarrow> nat list \<Rightarrow> nat list \<Rightarrow> (nat \<times> nat \<times> nat \<times> 'f list \<times> nat list \<times> nat list) option" where
  "find_loop n c y v lo hi n_ready d cols pred =
     (if lo = hi \<and> n \<le> lo then None
      else
        (let empty = (lo = hi);
             (hi, cols, n_ready) = (if empty then (case find_dense n lo d cols of (h, cs) \<Rightarrow> (h, cs, lo))
               else (hi, cols, n_ready));
             final = (if empty then last_free y cols [lo..<hi] else None)
         in case final of
              Some j \<Rightarrow> Some (j, lo, n_ready, d, cols, pred)
            | None \<Rightarrow>
                (case scan_dense n c y v lo (hi, d, cols, pred) of
                   None \<Rightarrow> None
                 | Some r \<Rightarrow>
                     (case r of (f, lo', hi', d, cols, pred) \<Rightarrow>
                        (case f of
                           Some j \<Rightarrow> Some (j, lo, n_ready, d, cols, pred)
                         | None \<Rightarrow> find_loop n c y v lo' hi' n_ready d cols pred)))))"

definition find_path_dense ::
    "nat \<Rightarrow> (nat \<Rightarrow> nat \<Rightarrow> 'f::{plus,minus,ord}) \<Rightarrow> nat \<Rightarrow> int list \<Rightarrow> 'f list \<Rightarrow> (nat \<times> 'f list \<times> nat list) option" where
  "find_path_dense n c start y v =
     (case find_loop n c y v 0 0 0 (map (\<lambda>i. c start i - v ! i) [0..<n]) [0..<n] (replicate n start) of
        None \<Rightarrow> None
      | Some (j, lo, n_ready, d, cols, pred) \<Rightarrow>
          (let mind = d ! (cols ! lo)
           in Some (j, fold (\<lambda>k v. v[cols ! k := v ! (cols ! k) + (d ! (cols ! k) - mind)]) [0..<n_ready] v, pred)))"

text \<open>The path is followed back from its last column to the row that starts it.\<close>

partial_function (option) augment ::
    "nat \<Rightarrow> nat list \<Rightarrow> nat \<Rightarrow> int list \<Rightarrow> int list \<Rightarrow> (int list \<times> int list) option" where
  "augment start pred j x y =
     (let i = pred ! j; y = y[j := int i]; j' = x ! i; x = x[i := int j]
      in if i = start then Some (x, y) else if j' < 0 then None else augment start pred (nat j') x y)"

fun ca_dense ::
    "nat \<Rightarrow> (nat \<Rightarrow> nat \<Rightarrow> 'f::{plus,minus,ord}) \<Rightarrow> nat list \<Rightarrow> int list \<Rightarrow> int list \<Rightarrow> 'f list \<Rightarrow>
     (int list \<times> int list \<times> 'f list) option" where
  "ca_dense n c [] x y v = Some (x, y, v)"
| "ca_dense n c (start # rest) x y v =
     (case find_path_dense n c start y v of
        None \<Rightarrow> None
      | Some (j, v, pred) \<Rightarrow>
          (case augment start pred j x y of
             None \<Rightarrow> None
           | Some (x, y) \<Rightarrow> ca_dense n c rest x y v))"

declare find_loop.simps [code] augment.simps [code]

section \<open>The solver\<close>

definition carr_twice ::
    "nat \<Rightarrow> (nat \<Rightarrow> nat \<Rightarrow> 'f::{one,plus,minus,times,ord}) \<Rightarrow> nat \<times> nat list \<times> int list \<times> int list \<times> 'f list \<Rightarrow>
     nat \<times> nat list \<times> int list \<times> int list \<times> 'f list" where
  "carr_twice n c = (\<lambda>r0.
     let r1 = (if fst r0 > 0 then carr_dense n c (fst r0) (snd r0) else r0)
     in if fst r1 > 0 then carr_dense n c (fst r1) (snd r1) else r1)"

definition lapjv_internal ::
    "nat \<Rightarrow> (nat \<Rightarrow> nat \<Rightarrow> 'f::{one,plus,minus,times,ord}) \<Rightarrow> (int list \<times> int list) option" where
  "lapjv_internal n c =
     (case ccrrt_dense n c of
        (free, x, y, v) \<Rightarrow>
          (case carr_twice n c (length free, free, x, y, v) of
             (ret, free, x, y, v) \<Rightarrow>
               if ret > 0 then map_option (\<lambda>(x, y, v). (x, y)) (ca_dense n c (take ret free) x y v)
               else Some (x, y)))"

text \<open>As the wrapper calls it. The solver's code is 0 (it only fails for want of memory).\<close>

definition lapjv_solver ::
    "nat \<Rightarrow> (nat \<Rightarrow> nat \<Rightarrow> 'f::{one,plus,minus,times,ord}) \<Rightarrow> int \<times> (nat \<Rightarrow> int) \<times> (nat \<Rightarrow> int)" where
  "lapjv_solver n c =
     (case lapjv_internal n c of
        None \<Rightarrow> (- 1, \<lambda>i. - 1, \<lambda>j. - 1)
      | Some (x, y) \<Rightarrow> (0, \<lambda>i. x ! i, \<lambda>j. y ! j))"

end
