(* ===== verification/Lapjv_Inv.thy ===== *)
theory Lapjv_Inv
  imports Lapjv
begin

text \<open>
  The solver always returns and leaves a perfect matching, whatever the costs are: nothing here uses a law of the
  numbers. The invariants are also what keeps its accesses inside of its arrays (\<open>Lapjv_Checked\<close>).
\<close>

section \<open>Matchings\<close>

text \<open>\<open>free\<close> are the rows without a column. Their entries in \<open>x\<close> may be stale, as in the code.\<close>

definition matching :: "nat \<Rightarrow> nat set \<Rightarrow> int list \<Rightarrow> int list \<Rightarrow> bool" where
  "matching n free x y = (length x = n \<and> length y = n \<and> free \<subseteq> {..<n} \<and>
     (\<forall>i<n. i \<notin> free \<longrightarrow> 0 \<le> x ! i \<and> nat (x ! i) < n \<and> y ! nat (x ! i) = int i) \<and>
     (\<forall>j<n. 0 \<le> y ! j \<longrightarrow> nat (y ! j) < n \<and> nat (y ! j) \<notin> free \<and> x ! nat (y ! j) = int j))"

lemma matching_lengths: "matching n free x y \<Longrightarrow> length x = n \<and> length y = n \<and> free \<subseteq> {..<n}"
  by (simp add: matching_def)

lemma matching_row: "matching n free x y \<Longrightarrow> i < n \<Longrightarrow> i \<notin> free \<Longrightarrow>
    0 \<le> x ! i \<and> nat (x ! i) < n \<and> y ! nat (x ! i) = int i"
  by (simp add: matching_def)

lemma matching_col: "matching n free x y \<Longrightarrow> j < n \<Longrightarrow> 0 \<le> y ! j \<Longrightarrow>
    nat (y ! j) < n \<and> nat (y ! j) \<notin> free \<and> x ! nat (y ! j) = int j"
  by (simp add: matching_def)

text \<open>The row that a column holds.\<close>

definition holder :: "int list \<Rightarrow> nat \<Rightarrow> nat set" where
  "holder y j = (if 0 \<le> y ! j then {nat (y ! j)} else {})"

lemma matching_take:
  assumes m: "matching n free x y" and i: "i \<in> free" "j < n"
  shows "matching n (free - {i} \<union> holder y j) (x[i := int j]) (y[j := int i])"
  unfolding matching_def
proof (intro conjI allI impI)
  note l = matching_lengths [OF m]
  show "length (x[i := int j]) = n" "length (y[j := int i]) = n" using l by simp_all
  show "free - {i} \<union> holder y j \<subseteq> {..<n}" using l i matching_col [OF m i(2)] by (auto simp: holder_def)
  fix r assume r: "r < n" "r \<notin> free - {i} \<union> holder y j"
  have o: "x[i := int j] ! r = x ! r" "y[j := int i] ! nat (x ! r) = y ! nat (x ! r)" "r \<notin> free" if "r \<noteq> i"
    using that r i l matching_row [OF m r(1)] by (auto simp: holder_def nth_list_update)
  show "0 \<le> x[i := int j] ! r" "nat (x[i := int j] ! r) < n" "y[j := int i] ! nat (x[i := int j] ! r) = int r"
    using r i l o matching_row [OF m r(1)] by (cases "r = i"; simp)+
next
  note l = matching_lengths [OF m]
  fix k assume k: "k < n" "0 \<le> y[j := int i] ! k"
  have e: "k \<noteq> j \<Longrightarrow> 0 \<le> y ! k" using k l by simp
  show "nat (y[j := int i] ! k) < n" using k i l matching_col [OF m k(1)] e by (auto simp: nth_list_update)
  have ni: "nat (y ! k) \<noteq> i" if "k \<noteq> j" using matching_col [OF m k(1) e [OF that]] i(1) by auto
  have nj: "nat (y ! k) \<notin> holder y j" if "k \<noteq> j"
    using matching_col [OF m k(1) e [OF that]] matching_col [OF m i(2)] that by (auto simp: holder_def)
  have ij: "i \<notin> holder y j" using matching_col [OF m i(2)] i(1) by (auto simp: holder_def)
  show "nat (y[j := int i] ! k) \<notin> free - {i} \<union> holder y j"
    using ij nj matching_col [OF m k(1)] e l k(1) by (cases "k = j") auto
  show "x[i := int j] ! nat (y[j := int i] ! k) = int k"
    using ni matching_col [OF m k(1)] e l k(1) i by (cases "k = j") auto
qed

text \<open>While a row is free there is a free column.\<close>

lemma free_column:
  assumes m: "matching n free x y" and f: "free \<noteq> {}"
  shows "\<exists>j<n. y ! j < 0"
proof (rule ccontr)
  assume "\<not> (\<exists>j<n. y ! j < 0)"
  then have y: "0 \<le> y ! j" if "j < n" for j using that by force
  have "(\<lambda>j. nat (y ! j)) ` {..<n} \<subseteq> {..<n} - free" using matching_col [OF m _ y] by auto
  moreover have "inj_on (\<lambda>j. nat (y ! j)) {..<n}"
  proof (rule inj_onI)
    fix j k assume "j \<in> {..<n}" "k \<in> {..<n}" "nat (y ! j) = nat (y ! k)"
    then have "int j = int k" using matching_col [OF m _ y] by (metis lessThan_iff)
    then show "j = k" by simp
  qed
  ultimately have "card {..<n} \<le> card ({..<n} - free)" by (metis card_inj_on_le finite_Diff finite_lessThan)
  moreover have "card ({..<n} - free) < card {..<n}"
    using matching_lengths [OF m] f by (intro psubset_card_mono) auto
  ultimately show False by simp
qed

section \<open>Column reduction\<close>

definition start_cols :: "nat \<Rightarrow> int list \<times> 'a list \<Rightarrow> bool" where
  "start_cols n s = (length (fst s) = n \<and> length (snd s) = n \<and> list_all (\<lambda>r. 0 \<le> r \<and> nat r < n) (fst s))"

lemma start_cols_step:
  assumes "start_cols n s" "i < n"
  shows "start_cols n (lower_column c i j s)"
proof -
  obtain y v where s: "s = (y, v)" by fastforce
  have "list_all (\<lambda>r. 0 \<le> r \<and> nat r < n) (y[j := int i])"
    using assms by (intro list_all_update) (simp_all add: start_cols_def s)
  then show ?thesis using assms(1) by (simp add: start_cols_def s lower_column_def)
qed

lemma start_cols_row: "start_cols n s \<Longrightarrow> i < n \<Longrightarrow> start_cols n (fold (lower_column c i) js s)"
  by (induction js arbitrary: s) (simp_all add: start_cols_step)

lemma column_minima_ok:
  assumes "column_minima n c = (y, v)" "0 < n"
  shows "length y = n \<and> length v = n \<and> (\<forall>j<n. 0 \<le> y ! j \<and> nat (y ! j) < n)"
proof -
  have "start_cols n (column_minima n c)" unfolding column_minima_def
  proof (rule fold_invariant [where P = "start_cols n" and Q = "\<lambda>i. i < n"])
    show "start_cols n (replicate n 0, replicate n large)" using assms(2) by (simp add: start_cols_def list_all_iff)
  qed (auto intro: start_cols_row)
  then show ?thesis using assms(1) by (simp add: start_cols_def list_all_length)
qed

text \<open>After the columns from \<open>k\<close> on were looked at.\<close>

definition claimed :: "nat \<Rightarrow> nat \<Rightarrow> int list \<Rightarrow> int list \<Rightarrow> bool" where
  "claimed n k x y = (length x = n \<and> length y = n \<and>
     (\<forall>i<n. 0 \<le> x ! i \<longrightarrow> k \<le> nat (x ! i) \<and> nat (x ! i) < n \<and> y ! nat (x ! i) = int i) \<and>
     (\<forall>j<n. k \<le> j \<longrightarrow> 0 \<le> y ! j \<longrightarrow> nat (y ! j) < n \<and> x ! nat (y ! j) = int j) \<and>
     (\<forall>j<k. 0 \<le> y ! j \<and> nat (y ! j) < n))"

lemma claim_column_ok:
  assumes "claimed n (Suc k) x y" "Suc k \<le> n" "claim_column k (x, y, u) = (x', y', u')"
  shows "claimed n k x' y'"
proof -
  have y: "0 \<le> y ! k" "nat (y ! k) < n" and l: "length x = n" "length y = n"
    and xs: "\<And>i. i < n \<Longrightarrow> 0 \<le> x ! i \<Longrightarrow> Suc k \<le> nat (x ! i) \<and> nat (x ! i) < n \<and> y ! nat (x ! i) = int i"
    and ys: "\<And>j. j < n \<Longrightarrow> Suc k \<le> j \<Longrightarrow> 0 \<le> y ! j \<Longrightarrow> nat (y ! j) < n \<and> x ! nat (y ! j) = int j"
    and rest: "\<And>j. j < k \<Longrightarrow> 0 \<le> y ! j \<and> nat (y ! j) < n"
    using assms(1) by (auto simp: claimed_def)
  show ?thesis
  proof (cases "x ! nat (y ! k) < 0")
    case True
    then have e: "x' = x[nat (y ! k) := int k]" "y' = y" using assms(3) by (auto simp: claim_column_def Let_def)
    show ?thesis unfolding claimed_def e
    proof (intro conjI allI impI)
      fix i assume i: "i < n" "0 \<le> x[nat (y ! k) := int k] ! i"
      show "k \<le> nat (x[nat (y ! k) := int k] ! i)" "nat (x[nat (y ! k) := int k] ! i) < n"
        "y ! nat (x[nat (y ! k) := int k] ! i) = int i"
        using i xs [of i] y l assms(2) by (auto simp: nth_list_update split: if_splits)
    next
      fix j assume j: "j < n" "k \<le> j" "0 \<le> y ! j"
      show "nat (y ! j) < n" using j ys [of j] y by (cases "j = k") auto
      have "nat (y ! j) \<noteq> nat (y ! k)" if "j \<noteq> k" using ys [of j] j that True by auto
      then show "x[nat (y ! k) := int k] ! nat (y ! j) = int j" using j ys [of j] y l by (cases "j = k") auto
    qed (use l rest in auto)
  next
    case False
    then have e: "x' = x" "y' = y[k := - 1]" using assms(3) by (auto simp: claim_column_def Let_def)
    show ?thesis unfolding claimed_def e
    proof (intro conjI allI impI)
      fix i assume i: "i < n" "0 \<le> x ! i"
      show "k \<le> nat (x ! i)" "nat (x ! i) < n" "y[k := - 1] ! nat (x ! i) = int i" using xs [OF i] l by auto
    next
      fix j assume j: "j < n" "k \<le> j" "0 \<le> y[k := - 1] ! j"
      then have "j \<noteq> k" using l by (intro notI) simp
      with j have "0 \<le> y ! j" by simp
      note j = j this \<open>j \<noteq> k\<close>
      then show "nat (y[k := - 1] ! j) < n" "x ! nat (y[k := - 1] ! j) = int j" using ys [of j] j by auto
    qed (use l rest in auto)
  qed
qed

lemma claim_columns_ok:
  assumes "length y = n" "\<forall>j<n. 0 \<le> y ! j \<and> nat (y ! j) < n" "claim_columns n y = (x', y', u')"
  shows "matching n {i. i < n \<and> x' ! i < 0} x' y'"
proof -
  have "claimed n 0 (fst r) (fst (snd r))"
    if "r = fold claim_column (rev [0..<k]) (x, y, u)" "claimed n k x y" "k \<le> n" for k x y u r
    using that
  proof (induction k arbitrary: x y u)
    case (Suc k)
    obtain x1 y1 u1 where c: "claim_column k (x, y, u) = (x1, y1, u1)" by (cases "claim_column k (x, y, u)") auto
    show ?case using Suc.IH [of x1 y1 u1] claim_column_ok [OF Suc.prems(2,3) c] Suc.prems c by simp
  qed simp
  from this [OF refl, where k = n and x = "replicate n (- 1)" and y = y and u = "replicate n True"]
  have "claimed n 0 x' y'" using assms by (simp add: claimed_def claim_columns_def)
  then show ?thesis by (auto simp: claimed_def matching_def not_less)
qed

lemma reduce_rows_free:
  "fst (fold (reduce_row n c x u) is (free, v)) = free @ filter (\<lambda>i. x ! i < 0) is"
  by (induction "is" arbitrary: free v) (auto simp: reduce_row_def Let_def)

lemma ccrrt_dense_ok:
  assumes "ccrrt_dense n c = (free, x, y, v)" "0 < n"
  shows "distinct free \<and> matching n (set free) x y"
proof -
  obtain y0 v0 where c: "column_minima n c = (y0, v0)" by fastforce
  obtain x1 y1 u1 where k: "claim_columns n y0 = (x1, y1, u1)" by (cases "claim_columns n y0") auto
  have "free = filter (\<lambda>i. x1 ! i < 0) [0..<n]" "x = x1" "y = y1"
    using assms(1) reduce_rows_free [of n c x1 u1 "[0..<n]" "[]" v0]
    by (auto simp: ccrrt_dense_def c k split: prod.splits)
  moreover have "set (filter (\<lambda>i. x1 ! i < 0) [0..<n]) = {i. i < n \<and> x1 ! i < 0}" by auto
  ultimately show ?thesis using claim_columns_ok [OF _ _ k] column_minima_ok [OF c assms(2)] by simp
qed

section \<open>Augmenting row reduction\<close>

lemma two_minima_ok:
  assumes "two_minima n c v i = (j1, v1, j2, v2)" "0 < n"
  shows "j1 < n \<and> (0 \<le> j2 \<longrightarrow> nat j2 < n)"
proof -
  define good where "good = (\<lambda>(j1, v1 :: 'a, j2, v2 :: 'a). j1 < n \<and> (0 \<le> j2 \<longrightarrow> nat j2 < n))"
  have "good (two_minima n c v i)" unfolding two_minima_def
    by (rule fold_invariant [where P = good and Q = "\<lambda>j. j < n"])
      (use assms(2) in \<open>auto simp: good_def Let_def split: prod.splits\<close>)
  then show ?thesis using assms(1) by (simp add: good_def)
qed

text \<open>The free rows: those set aside, then those to process.\<close>

definition pending :: "nat \<Rightarrow> 'f reduction \<Rightarrow> nat list" where
  "pending m s = take (new_free s) (free_rows s) @ drop (current s) (take m (free_rows s))"

definition rows_of :: "int \<Rightarrow> nat list" where
  "rows_of r = (if 0 \<le> r then [nat r] else [])"

definition counters_ok :: "nat \<Rightarrow> 'f reduction \<Rightarrow> bool" where
  "counters_ok m s = (new_free s \<le> current s \<and> current s \<le> m \<and> m \<le> length (free_rows s))"

lemma advanced:
  assumes "counters_ok m s" "current s < m"
  shows "pending m s = take (new_free s) (free_rows s) @ free_rows s ! current s # drop (Suc (current s)) (take m (free_rows s))"
  using assms by (simp add: pending_def counters_ok_def Cons_nth_drop_Suc [symmetric])

lemma put_back_pending:
  assumes "counters_ok m s" "current s < m" "0 \<le> i0" "s' = s\<lparr>rr_cnt := r, current := current s + 1, prices := v\<rparr>"
  shows "pending m (put_back i0 s') =
      take (new_free s) (free_rows s) @ nat i0 # drop (Suc (current s)) (take m (free_rows s))"
    "counters_ok m (put_back i0 s')"
  using assms
  by (auto simp: pending_def counters_ok_def put_back_def take_update_swap drop_update_swap list_update_beyond
      Cons_nth_drop_Suc [symmetric])

lemma keep_free_pending:
  assumes "counters_ok m s" "current s < m" "0 \<le> i0" "s' = s\<lparr>rr_cnt := r, current := current s + 1, prices := v\<rparr>"
  shows "pending m (keep_free i0 s') =
      take (new_free s) (free_rows s) @ nat i0 # drop (Suc (current s)) (take m (free_rows s))"
    "counters_ok m (keep_free i0 s')"
  using assms
  by (auto simp: pending_def counters_ok_def keep_free_def take_Suc_conv_app_nth take_update_swap drop_update_swap
      list_update_append)

lemma assign_fields [simp]:
  "pending m (assign i j s) = pending m s" "counters_ok m (assign i j s) = counters_ok m s"
  "rowsol (assign i j s) = (rowsol s)[i := int j]" "colsol (assign i j s) = (colsol s)[j := int i]"
  "prices (assign i j s) = prices s"
  by (simp_all add: assign_def pending_def counters_ok_def)

lemma moved_sols [simp]:
  "rowsol (put_back i s) = rowsol s" "colsol (put_back i s) = colsol s" "prices (put_back i s) = prices s"
  "rowsol (keep_free i s) = rowsol s" "colsol (keep_free i s) = colsol s" "prices (keep_free i s) = prices s"
  by (simp_all add: put_back_def keep_free_def)

text \<open>The column that the step gives to the row, and the prices it leaves.\<close>

definition carr_choice ::
    "nat \<Rightarrow> (nat \<Rightarrow> nat \<Rightarrow> 'f::{one,plus,minus,times,ord}) \<Rightarrow> 'f reduction \<Rightarrow> nat \<times> 'f list" where
  "carr_choice n c s =
     (case two_minima n c (prices s) (free_rows s ! current s) of
        (j1, v1, j2, v2) \<Rightarrow>
          if rr_cnt s + 1 < (current s + 1) * n then
            (if prices s ! j1 - (v2 - v1) < prices s ! j1 then (j1, (prices s)[j1 := prices s ! j1 - (v2 - v1)])
             else (if 0 \<le> colsol s ! j1 \<and> 0 \<le> j2 then nat j2 else j1, prices s))
          else (j1, prices s))"

lemma carr_step_shape:
  fixes s :: "'f::{one,plus,minus,times,ord} reduction"
  assumes "counters_ok m s" "current s < m" "0 < n" "carr_choice n c s = (j, v')"
  shows "j < n \<and> rowsol (carr_step n c s) = (rowsol s)[free_rows s ! current s := int j] \<and>
    colsol (carr_step n c s) = (colsol s)[j := int (free_rows s ! current s)] \<and>
    pending m (carr_step n c s) = take (new_free s) (free_rows s) @ rows_of (colsol s ! j) @
      drop (Suc (current s)) (take m (free_rows s)) \<and>
    counters_ok m (carr_step n c s) \<and> prices (carr_step n c s) = v'"
proof -
  obtain j1 v1 j2 v2 where t: "two_minima n c (prices s) (free_rows s ! current s) = (j1, v1, j2, v2)"
    using prod_cases4 by blast
  note tm = two_minima_ok [OF t assms(3)]
  have z: "pending m (s\<lparr>rr_cnt := r, current := current s + 1, prices := v\<rparr>) =
      take (new_free s) (free_rows s) @ drop (Suc (current s)) (take m (free_rows s))"
    "counters_ok m (s\<lparr>rr_cnt := r, current := current s + 1, prices := v\<rparr>)" for r v
    using assms(1,2) by (simp_all add: pending_def counters_ok_def)
  note pb = put_back_pending [OF assms(1,2) _ refl]
  note kf = keep_free_pending [OF assms(1,2) _ refl]
  define ans where "ans = (\<lambda>j v (s' :: 'f reduction). rowsol s' = (rowsol s)[free_rows s ! current s := int j] \<and>
    colsol s' = (colsol s)[j := int (free_rows s ! current s)] \<and>
    pending m s' = take (new_free s) (free_rows s) @ rows_of (colsol s ! j) @
      drop (Suc (current s)) (take m (free_rows s)) \<and> counters_ok m s' \<and> prices s' = v)"
  let ?i = "free_rows s ! current s"
  let ?s = "\<lambda>v. s\<lparr>rr_cnt := rr_cnt s + 1, current := current s + 1, prices := v\<rparr>"
  have a: "ans j v (assign ?i j (if 0 \<le> colsol s ! j then put_back (colsol s ! j) (?s v) else ?s v))"
    "ans j v (assign ?i j (if 0 \<le> colsol s ! j then keep_free (colsol s ! j) (?s v) else ?s v))" for j v
    using pb kf z by (simp_all add: ans_def rows_of_def)
  have "j < n" using assms(4) tm by (auto simp: carr_choice_def t split: if_splits)
  moreover have "ans j v' (carr_step n c s)"
  proof (cases "rr_cnt s + 1 < (current s + 1) * n")
    case True
    have "carr_step n c s = assign ?i j (if 0 \<le> colsol s ! j then
          (if prices s ! j1 - (v2 - v1) < prices s ! j1 then put_back (colsol s ! j) (?s v') else keep_free (colsol s ! j) (?s v'))
        else ?s v')"
      using True assms(4) by (auto simp: carr_step_def carr_choice_def t Let_def split: if_splits)
    then show ?thesis using a [of j v'] by (cases "0 \<le> colsol s ! j") (simp_all split: if_split)
  next
    case False
    then have "j = j1" "v' = prices s" using assms(4) by (auto simp: carr_choice_def t)
    then show ?thesis using False a(2) [of j1 "prices s"] by (auto simp: carr_step_def t Let_def)
  qed
  ultimately show ?thesis unfolding ans_def by blast
qed

definition carr_ok :: "nat \<Rightarrow> nat \<Rightarrow> 'f reduction \<Rightarrow> bool" where
  "carr_ok n m s = (counters_ok m s \<and> distinct (pending m s) \<and> matching n (set (pending m s)) (rowsol s) (colsol s))"

lemma carr_step_ok:
  assumes "carr_ok n m s" "current s < m"
  shows "carr_ok n m (carr_step n c s)"
proof -
  let ?i = "free_rows s ! current s"
  let ?A = "take (new_free s) (free_rows s)" and ?B = "drop (Suc (current s)) (take m (free_rows s))"
  have c: "counters_ok m s" and m: "matching n (set (pending m s)) (rowsol s) (colsol s)" and d: "distinct (pending m s)"
    using assms(1) by (simp_all add: carr_ok_def)
  note p = advanced [OF c assms(2)]
  have "?i \<in> set (pending m s)" unfolding p by simp
  then have n: "0 < n" using matching_lengths [OF m] by auto
  obtain j v' where ch: "carr_choice n c s = (j, v')" by fastforce
  have j: "j < n" and s': "rowsol (carr_step n c s) = (rowsol s)[?i := int j]"
    "colsol (carr_step n c s) = (colsol s)[j := int ?i]" "pending m (carr_step n c s) = ?A @ rows_of (colsol s ! j) @ ?B"
    "counters_ok m (carr_step n c s)"
    using carr_step_shape [OF c assms(2) n ch] by blast+
  have h: "0 \<le> colsol s ! j \<Longrightarrow> nat (colsol s ! j) \<notin> set (pending m s)" using matching_col [OF m j] by blast
  have ds: "distinct (?A @ rows_of (colsol s ! j) @ ?B)" using d h unfolding p by (auto simp: rows_of_def)
  have "set (?A @ rows_of (colsol s ! j) @ ?B) = set (pending m s) - {?i} \<union> holder (colsol s) j"
    using d unfolding p by (auto simp: rows_of_def holder_def)
  then show ?thesis using s' ds matching_take [OF m _ j, where i = ?i] p by (simp add: carr_ok_def)
qed

lemma carr_loop_ok: "carr_ok n m s \<Longrightarrow> carr_ok n m (carr_loop n c m s) \<and> current (carr_loop n c m s) = m"
proof (induction n c m s rule: carr_loop.induct)
  case (1 n c m s)
  show ?case
  proof (cases "current s < m")
    case True
    then show ?thesis using 1 carr_step_ok [OF 1(2) True] by (subst (1 2) carr_loop.simps) simp
  next
    case False
    then show ?thesis using 1(2) by (subst (1 2) carr_loop.simps) (simp add: carr_ok_def counters_ok_def)
  qed
qed

lemma carr_dense_ok:
  assumes "carr_dense n c m (free, x, y, v) = (m', free', x', y', v')" "m \<le> length free" "distinct (take m free)"
    "matching n (set (take m free)) x y"
  shows "m' \<le> length free' \<and> distinct (take m' free') \<and> matching n (set (take m' free')) x' y'"
proof -
  define s where "s = \<lparr>current = 0, new_free = 0, rr_cnt = 0, free_rows = free, rowsol = x, colsol = y, prices = v\<rparr>"
  have "carr_ok n m s" using assms by (simp add: carr_ok_def counters_ok_def pending_def s_def)
  then have k: "carr_ok n m (carr_loop n c m s)" "current (carr_loop n c m s) = m"
    using carr_loop_ok by blast+
  have r: "m' = new_free (carr_loop n c m s)" "free' = free_rows (carr_loop n c m s)" "x' = rowsol (carr_loop n c m s)"
    "y' = colsol (carr_loop n c m s)" using assms(1) by (simp_all add: carr_dense_def s_def Let_def)
  then show ?thesis using k by (simp add: carr_ok_def counters_ok_def pending_def)
qed

section \<open>Shortest augmenting paths\<close>

lemma fold_upt_inv:
  assumes "P a s" "a \<le> b" "\<And>k s. a \<le> k \<Longrightarrow> k < b \<Longrightarrow> P k s \<Longrightarrow> P (Suc k) (f k s)"
  shows "P b (fold f [a..<b] s)"
  using assms(2,1,3)
proof (induction b rule: dec_induct)
  case (step m)
  then show ?case by (simp add: upt_Suc_append)
qed simp

definition column_order :: "nat \<Rightarrow> nat list \<Rightarrow> bool" where
  "column_order n cols = (length cols = n \<and> distinct cols \<and> set cols = {..<n})"

lemma column_order_nth: "column_order n cols \<Longrightarrow> k < n \<Longrightarrow> cols ! k < n"
  unfolding column_order_def using nth_mem by fastforce

lemma column_order_eq: "column_order n cols \<Longrightarrow> k < n \<Longrightarrow> m < n \<Longrightarrow> cols ! k = cols ! m \<longleftrightarrow> k = m"
  by (auto simp: column_order_def nth_eq_iff_index_eq)

lemma column_order_pos: "column_order n cols \<Longrightarrow> j < n \<Longrightarrow> \<exists>k<n. cols ! k = j"
  by (metis column_order_def in_set_conv_nth lessThan_iff)

lemma column_order_swap:
  "column_order n cols \<Longrightarrow> k < n \<Longrightarrow> h < n \<Longrightarrow> column_order n (cols[k := cols ! h, h := cols ! k])"
  by (simp add: column_order_def)

lemma nth_swap:
  "k < length cols \<Longrightarrow> h < length cols \<Longrightarrow>
   cols[k := cols ! h, h := cols ! k] ! p = (if p = h then cols ! k else if p = k then cols ! h else cols ! p)"
  by (auto simp: nth_list_update)

text \<open>Each entry of \<open>pred\<close> is the start or the row of a scanned column that comes earlier in the order.\<close>

definition chained :: "nat \<Rightarrow> int list \<Rightarrow> nat \<Rightarrow> nat \<Rightarrow> nat list \<Rightarrow> nat list \<Rightarrow> bool" where
  "chained n y start q cols pred = (\<forall>k<n. pred ! (cols ! k) = start \<or>
     (\<exists>m<k. m < q \<and> 0 \<le> y ! (cols ! m) \<and> pred ! (cols ! k) = nat (y ! (cols ! m))))"

definition search_ok ::
    "nat \<Rightarrow> int list \<Rightarrow> nat \<Rightarrow> nat \<Rightarrow> nat \<Rightarrow> 'f list \<Rightarrow> nat list \<Rightarrow> nat list \<Rightarrow> bool" where
  "search_ok n y start q hi d cols pred = (column_order n cols \<and> length d = n \<and> length pred = n \<and>
     q \<le> hi \<and> hi \<le> n \<and> (\<forall>k<hi. 0 \<le> y ! (cols ! k)) \<and> chained n y start q cols pred)"

text \<open>The general form, for a relation between columns. It survives the two ways in which columns are moved.\<close>

definition linked :: "nat \<Rightarrow> nat \<Rightarrow> nat list \<Rightarrow> (nat \<Rightarrow> bool) \<Rightarrow> (nat \<Rightarrow> nat \<Rightarrow> bool) \<Rightarrow> bool" where
  "linked n q cols S L = (\<forall>k<n. S (cols ! k) \<or> (\<exists>m<k. m < q \<and> L (cols ! m) (cols ! k)))"

lemma chained_linked:
  "chained n y start q cols pred =
    linked n q cols (\<lambda>c. pred ! c = start) (\<lambda>a c. 0 \<le> y ! a \<and> pred ! c = nat (y ! a))"
  by (simp add: chained_def linked_def)

lemma linked_swap:
  assumes "linked n q cols S L" "q \<le> h" "h \<le> k" "k < n" "length cols = n"
  shows "linked n q (cols[k := cols ! h, h := cols ! k]) S L"
proof -
  let ?cs = "cols[k := cols ! h, h := cols ! k]"
  have same: "?cs ! m = cols ! m" if "m < q" for m using that assms nth_swap [of k cols h m] by simp
  have "S (?cs ! p) \<or> (\<exists>m<p. m < q \<and> L (?cs ! m) (?cs ! p))" if p: "p < n" for p
  proof -
    define p' where "p' = (if p = h then k else if p = k then h else p)"
    have e: "?cs ! p = cols ! p'" "p' < n" using nth_swap [of k cols h p] assms p by (auto simp: p'_def)
    have c: "S (cols ! p') \<or> (\<exists>m<p'. m < q \<and> L (cols ! m) (cols ! p'))"
      using assms(1) e(2) unfolding linked_def by blast
    show ?thesis
    proof (cases "S (cols ! p')")
      case False
      then obtain m where m: "m < p'" "m < q" "L (cols ! m) (cols ! p')" using c by blast
      have "m < p" using m(1,2) assms(2,3) by (auto simp: p'_def split: if_splits)
      then show ?thesis using m same [of m] e by auto
    qed (simp add: e)
  qed
  then show ?thesis by (simp add: linked_def)
qed

lemma linked_prefix:
  assumes "linked n q cols S L" "column_order n cols" "column_order n cols'" "\<And>p. p < q \<Longrightarrow> cols' ! p = cols ! p" "q \<le> n"
  shows "linked n q cols' S L"
  unfolding linked_def
proof (intro allI impI)
  fix k assume k: "k < n"
  obtain p where p: "p < n" "cols ! p = cols' ! k"
    using column_order_pos [OF assms(2) column_order_nth [OF assms(3) k]] by blast
  have "S (cols ! p) \<or> (\<exists>m<p. m < q \<and> L (cols ! m) (cols ! p))" using assms(1) p(1) unfolding linked_def by blast
  then consider "S (cols' ! k)" | m where "m < p" "m < q" "L (cols ! m) (cols' ! k)" unfolding p(2) by blast
  then show "S (cols' ! k) \<or> (\<exists>m<k. m < q \<and> L (cols' ! m) (cols' ! k))"
  proof cases
    case 2
    have "m < k"
    proof (cases "k < q")
      case True
      then have "p = k" using assms(4) [OF True] p column_order_eq [OF assms(2) p(1) k] by simp
      then show ?thesis using 2(1) by simp
    qed (use 2(2) in simp)
    then show ?thesis using 2 assms(4) [OF 2(2)] by (intro disjI2 exI [of _ m]) simp
  qed simp
qed

lemma chained_swap:
  assumes "chained n y start q cols pred" "q \<le> h" "h \<le> k" "k < n" "length cols = n"
  shows "chained n y start q (cols[k := cols ! h, h := cols ! k]) pred"
  using linked_swap [OF assms(1) [unfolded chained_linked] assms(2-5)] by (simp add: chained_linked)

lemma find_dense_ok:
  assumes "find_dense n lo d cols = (hi, cols')" "column_order n cols" "lo < n"
  shows "lo < hi \<and> hi \<le> n \<and> column_order n cols' \<and> (\<forall>p<lo. cols' ! p = cols ! p)"
proof -
  define good where "good = (\<lambda>k (hi, mind :: 'a, cs). lo < hi \<and> hi \<le> k \<and> column_order n cs \<and> (\<forall>p<lo. cs ! p = cols ! p))"
  define f where "f = (\<lambda>k (hi, mind, cols). let j = cols ! k
      in if d ! j \<le> mind then (let (hi, mind) = (if d ! j < mind then (lo, d ! j) else (hi, mind))
           in (Suc hi, mind, cols[k := cols ! hi, hi := j])) else (hi, mind, cols))"
  have "good n (fold f [Suc lo..<n] (Suc lo, d ! (cols ! lo), cols))"
  proof (rule fold_upt_inv)
    show "good (Suc lo) (Suc lo, d ! (cols ! lo), cols)" using assms(2) by (simp add: good_def)
    show "Suc lo \<le> n" using assms(3) by simp
  next
    fix k s assume k: "Suc lo \<le> k" "k < n" "good k s"
    obtain h mind cs where s: "s = (h, mind, cs)" using prod_cases3 by blast
    have g: "lo < h" "h \<le> k" "column_order n cs" "\<forall>p<lo. cs ! p = cols ! p" using k(3) by (simp_all add: good_def s)
    have sw: "column_order n (cs[k := cs ! h', h' := cs ! k])" "\<forall>p<lo. cs[k := cs ! h', h' := cs ! k] ! p = cols ! p"
      if "lo \<le> h'" "h' \<le> k" for h'
      using that g k column_order_swap [OF g(3), of k h'] by auto
    show "good (Suc k) (f k s)" using g k sw [of h] sw [of lo] by (auto simp: good_def f_def s Let_def)
  qed
  then show ?thesis using assms(1) unfolding find_dense_def f_def [symmetric] by (auto simp: good_def split: prod.splits)
qed

lemma find_dense_search:
  assumes "find_dense n lo d cols = (hi, cols')" "search_ok n y start lo lo d cols pred" "lo < n"
  shows "lo < hi \<and> hi \<le> n \<and> column_order n cols' \<and> length d = n \<and> length pred = n \<and>
    (\<forall>k<lo. 0 \<le> y ! (cols' ! k)) \<and> chained n y start lo cols' pred"
proof -
  have s: "column_order n cols" "\<forall>k<lo. 0 \<le> y ! (cols ! k)" "chained n y start lo cols pred" "length d = n" "length pred = n"
    using assms(2) by (simp_all add: search_ok_def)
  note f = find_dense_ok [OF assms(1) s(1) assms(3)]
  have e: "cols' ! p = cols ! p" if "p < lo" for p using f that by blast
  have "chained n y start lo cols' pred"
    using linked_prefix [OF s(3) [unfolded chained_linked] s(1) _ e] f assms(3) by (simp add: chained_linked)
  moreover have "\<forall>k<lo. 0 \<le> y ! (cols' ! k)" using e s(2) by simp
  ultimately show ?thesis using f s(4,5) by simp
qed

text \<open>The two changes that scanning a row makes: a column that is to do gets a shorter way, or moves to those to scan.\<close>

lemma search_lower:
  assumes "search_ok n y start q hi d cols pred" "hi \<le> k" "k < n" "0 < q" "i = nat (y ! (cols ! (q - 1)))"
  shows "search_ok n y start q hi (d[cols ! k := e]) cols (pred[cols ! k := i])"
proof -
  have so: "column_order n cols" "length pred = n" "q \<le> hi" "\<forall>p<hi. 0 \<le> y ! (cols ! p)" "chained n y start q cols pred"
    using assms(1) by (simp_all add: search_ok_def)
  have "chained n y start q cols (pred[cols ! k := i])" unfolding chained_def
  proof (intro allI impI)
    fix p assume p: "p < n"
    show "pred[cols ! k := i] ! (cols ! p) = start \<or>
        (\<exists>m<p. m < q \<and> 0 \<le> y ! (cols ! m) \<and> pred[cols ! k := i] ! (cols ! p) = nat (y ! (cols ! m)))"
    proof (cases "p = k")
      case True
      have "q - 1 < k" "q - 1 < q" using assms(2,4) so(3) by auto
      moreover have "0 \<le> y ! (cols ! (q - 1))" using so(3,4) assms(4) by simp
      ultimately show ?thesis using True assms(5) so(2) column_order_nth [OF so(1) assms(3)] by auto
    next
      case False
      then have "cols ! p \<noteq> cols ! k" using column_order_eq [OF so(1) p assms(3)] by simp
      then show ?thesis using so(5) p unfolding chained_def by simp
    qed
  qed
  then show ?thesis using assms(1) by (simp add: search_ok_def)
qed

lemma search_swap:
  assumes "search_ok n y start q hi d cols pred" "hi \<le> k" "k < n" "0 \<le> y ! (cols ! k)"
  shows "search_ok n y start q (Suc hi) d (cols[k := cols ! hi, hi := cols ! k]) pred"
proof -
  let ?cs = "cols[k := cols ! hi, hi := cols ! k]"
  have so: "column_order n cols" "length cols = n" "q \<le> hi" "\<forall>p<hi. 0 \<le> y ! (cols ! p)" "chained n y start q cols pred"
    using assms(1) by (simp_all add: search_ok_def column_order_def)
  have h: "hi < n" using assms(2,3) by simp
  have "\<forall>p<Suc hi. 0 \<le> y ! (?cs ! p)"
    using so(2,4) assms(2-4) nth_swap [of k cols hi] by (auto simp: less_Suc_eq)
  then show ?thesis
    using assms(1) h column_order_swap [OF so(1) assms(3) h] chained_swap [OF so(5,3) assms(2,3) so(2)]
    by (simp add: search_ok_def)
qed

lemma swap_below: "p < hi \<Longrightarrow> hi \<le> k \<Longrightarrow> cols[k := cols ! hi, hi := j] ! p = cols ! p"
  by simp

text \<open>Scanning one row. What is kept while it goes on, and what holds when it ends at a free column.\<close>

lemma scan_row_ok:
  assumes "scan_row c y v i h mind [k..<n] (hi, d, cols, pred) = (f, hi', d', cols', pred')"
    "search_ok n y start q hi d cols pred" "hi \<le> k" "k \<le> n" "0 < q" "i = nat (y ! (cols ! (q - 1)))"
  shows "length d' = n \<and> length pred' = n \<and> column_order n cols' \<and> chained n y start q cols' pred' \<and> hi \<le> hi' \<and>
    (\<forall>p<hi. cols' ! p = cols ! p) \<and>
    (case f of None \<Rightarrow> search_ok n y start q hi' d' cols' pred' | Some j \<Rightarrow> j < n \<and> y ! j < 0 \<and> hi' \<le> n)"
  using assms
proof (induction "n - k" arbitrary: k hi d cols pred)
  case 0
  then show ?case by (simp add: search_ok_def)
next
  case (Suc l)
  let ?j = "cols ! k"
  let ?cred = "c i ?j - v ! ?j - h"
  have k: "k < n" "[k..<n] = k # [Suc k..<n]" "l = n - Suc k" using Suc.hyps(2) by (auto simp: upt_conv_Cons)
  note hk = \<open>hi \<le> k\<close> and q = \<open>0 < q\<close> and i = \<open>i = nat (y ! (cols ! (q - 1)))\<close>
  have so: "column_order n cols" "q \<le> hi" "hi \<le> n" using Suc.prems(2) by (simp_all add: search_ok_def)
  have s1: "search_ok n y start q hi (d[?j := ?cred]) cols (pred[?j := i])"
    by (rule search_lower [OF Suc.prems(2) hk k(1) q i])
  note IH = Suc.hyps(1) [OF k(3)]
  consider (far) "\<not> ?cred < d ! ?j" | (nearer) "?cred < d ! ?j" "?cred \<noteq> mind"
    | (found) "?cred < d ! ?j" "?cred = mind" "y ! ?j < 0" | (move) "?cred < d ! ?j" "?cred = mind" "\<not> y ! ?j < 0" by blast
  then show ?case
  proof cases
    case far
    then show ?thesis using IH [of hi d cols pred] Suc.prems k by (simp add: Let_def)
  next
    case nearer
    then show ?thesis using IH [of hi "d[?j := ?cred]" cols "pred[?j := i]"] Suc.prems k s1 by (simp add: Let_def)
  next
    case found
    then have "scan_row c y v i h mind [k..<n] (hi, d, cols, pred) = (Some ?j, hi, d[?j := ?cred], cols, pred[?j := i])"
      using k(2) by (simp add: Let_def)
    then have "f = Some ?j" "hi' = hi" "d' = d[?j := ?cred]" "cols' = cols" "pred' = pred[?j := i]"
      unfolding Suc.prems(1) by simp_all
    then show ?thesis using found s1 so column_order_nth [OF so(1) k(1)] by (simp add: search_ok_def)
  next
    case move
    let ?cs = "cols[k := cols ! hi, hi := ?j]"
    have s2: "search_ok n y start q (Suc hi) (d[?j := ?cred]) ?cs (pred[?j := i])"
      by (rule search_swap [OF s1 hk k(1)]) (use move in simp)
    have "?cs ! (q - 1) = cols ! (q - 1)" using q so(2) by (intro swap_below [OF _ hk]) simp
    then have i': "i = nat (y ! (?cs ! (q - 1)))" using i by simp
    have e: "scan_row c y v i h mind [Suc k..<n] (Suc hi, d[?j := ?cred], ?cs, pred[?j := i]) =
        (f, hi', d', cols', pred')"
      using Suc.prems(1) move k(2) by (simp add: Let_def)
    have r: "length d' = n \<and> length pred' = n \<and> column_order n cols' \<and> chained n y start q cols' pred' \<and> Suc hi \<le> hi' \<and>
        (\<forall>p<Suc hi. cols' ! p = ?cs ! p) \<and>
        (case f of None \<Rightarrow> search_ok n y start q hi' d' cols' pred' | Some j \<Rightarrow> j < n \<and> y ! j < 0 \<and> hi' \<le> n)"
      by (rule IH [OF e s2 _ _ q i']) (use hk k(1) in simp_all)
    moreover have "cols' ! p = cols ! p" if "p < hi" for p using r that swap_below [OF that hk, of cols ?j] by simp
    ultimately show ?thesis by simp
  qed
qed

text \<open>What a search that ended at the free column \<open>j\<close> has found.\<close>

definition path_found :: "nat \<Rightarrow> int list \<Rightarrow> nat \<Rightarrow> nat \<Rightarrow> nat list \<Rightarrow> nat list \<Rightarrow> bool" where
  "path_found n y start j cols pred = (j < n \<and> y ! j < 0 \<and> column_order n cols \<and> length pred = n \<and>
     (\<exists>q. chained n y start q cols pred))"

lemma scan_dense_ok:
  assumes "search_ok n y start lo hi d cols pred"
  shows "\<exists>f lo' hi' d' cols' pred'. scan_dense n c y v lo (hi, d, cols, pred) = Some (f, lo', hi', d', cols', pred') \<and>
    (case f of
       None \<Rightarrow> lo' = hi' \<and> hi \<le> hi' \<and> search_ok n y start lo' hi' d' cols' pred'
     | Some j \<Rightarrow> path_found n y start j cols' pred' \<and> length d' = n)"
  using assms
proof (induction "n - lo" arbitrary: lo hi d cols pred rule: less_induct)
  case less
  have so: "column_order n cols" "lo \<le> hi" "hi \<le> n" "\<forall>p<hi. 0 \<le> y ! (cols ! p)" "chained n y start lo cols pred"
    using less.prems by (simp_all add: search_ok_def)
  show ?case
  proof (cases "lo = hi")
    case True
    then show ?thesis using less.prems by (simp add: scan_dense.simps)
  next
    case False
    then have lt: "lo < hi" "lo < n" using so by simp_all
    let ?j = "cols ! lo"
    define i where "i = nat (y ! ?j)"
    define h where "h = c i ?j - v ! ?j - d ! ?j"
    obtain f hi' d' cols' pred' where
      r: "scan_row c y v i h (d ! ?j) [hi..<n] (hi, d, cols, pred) = (f, hi', d', cols', pred')" using prod_cases5 by blast
    have "chained n y start (Suc lo) cols pred" using so(5) unfolding chained_def by (metis less_SucI)
    then have "search_ok n y start (Suc lo) hi d cols pred" using less.prems lt by (simp add: search_ok_def)
    then have s: "length d' = n" "length pred' = n" "column_order n cols'" "chained n y start (Suc lo) cols' pred'"
      "hi \<le> hi'" "case f of None \<Rightarrow> search_ok n y start (Suc lo) hi' d' cols' pred' | Some j \<Rightarrow> j < n \<and> y ! j < 0 \<and> hi' \<le> n"
      using scan_row_ok [OF r _ order_refl so(3)] by (simp_all add: i_def)
    show ?thesis
    proof (cases f)
      case None
      have e: "scan_dense n c y v lo (hi, d, cols, pred) = scan_dense n c y v (Suc lo) (hi', d', cols', pred')"
        using r None lt by (subst scan_dense.simps) (simp add: i_def h_def Let_def)
      have "search_ok n y start (Suc lo) hi' d' cols' pred'" using s(6) None by simp
      from less.hyps [OF _ this] lt(2) s(5) show ?thesis unfolding e by (fastforce split: option.splits)
    next
      case (Some j)
      then have "scan_dense n c y v lo (hi, d, cols, pred) = Some (Some j, Suc lo, hi', d', cols', pred')"
        using r lt by (subst scan_dense.simps) (simp add: i_def h_def Let_def)
      then show ?thesis using s Some by (auto simp: path_found_def)
    qed
  qed
qed

lemma last_free_cases:
  "case last_free y cols ks of None \<Rightarrow> (\<forall>k \<in> set ks. 0 \<le> y ! (cols ! k))
    | Some j \<Rightarrow> (\<exists>k \<in> set ks. j = cols ! k \<and> y ! j < 0)"
proof (induction ks rule: rev_induct)
  case (snoc k ks)
  then show ?case by (auto simp: last_free_def split: option.splits)
qed (simp add: last_free_def)

lemma find_loop_ok:
  assumes "search_ok n y start lo hi d cols pred" "\<exists>j<n. y ! j < 0" "lo = hi"
  shows "\<exists>j lo' nr d' cols' pred'. find_loop n c y v lo hi n_ready d cols pred = Some (j, lo', nr, d', cols', pred') \<and>
    path_found n y start j cols' pred'"
  using assms(1,3)
proof (induction "n - lo" arbitrary: lo hi d cols pred n_ready rule: less_induct)
  case less
  have so: "column_order n cols" "hi \<le> n" "\<forall>p<hi. 0 \<le> y ! (cols ! p)" "chained n y start lo cols pred"
    using less.prems by (simp_all add: search_ok_def)
  obtain jf kf where f: "jf < n" "y ! jf < 0" "kf < n" "cols ! kf = jf"
    using assms(2) column_order_pos [OF so(1)] by blast
  then have "\<not> kf < hi" using so(3) by auto
  then have lo: "lo < n" using f(3) less.prems(2) by simp
  obtain h cs where fd: "find_dense n lo d cols = (h, cs)" by fastforce
  note fs = find_dense_search [OF fd _ lo, of y start pred] less.prems
  have g: "lo < h" "h \<le> n" "column_order n cs" "length d = n" "length pred = n" "\<forall>k<lo. 0 \<le> y ! (cs ! k)"
    "chained n y start lo cs pred" using fs by simp_all
  define fin where "fin = last_free y cs [lo..<h]"
  note lf = last_free_cases [where y = y and cols = cs and ks = "[lo..<h]", folded fin_def]
  show ?case
  proof (cases fin)
    case (Some j)
    then have e: "find_loop n c y v lo hi n_ready d cols pred = Some (j, lo, lo, d, cs, pred)"
      using less.prems(2) [symmetric] lo fd by (subst find_loop.simps) (simp add: Let_def fin_def [symmetric])
    have "j < n \<and> y ! j < 0" using lf Some g column_order_nth [OF g(3)] by auto
    then show ?thesis using e g by (auto simp: path_found_def)
  next
    case None
    then have "\<forall>k<h. 0 \<le> y ! (cs ! k)" using lf g(6) by (auto simp: not_less)
    then have so': "search_ok n y start lo h d cs pred" using g by (simp add: search_ok_def)
    obtain f' lo' hi' d' cols' pred' where
      sd: "scan_dense n c y v lo (h, d, cs, pred) = Some (f', lo', hi', d', cols', pred')" and
      sp: "case f' of None \<Rightarrow> lo' = hi' \<and> h \<le> hi' \<and> search_ok n y start lo' hi' d' cols' pred'
        | Some j \<Rightarrow> path_found n y start j cols' pred' \<and> length d' = n"
      using scan_dense_ok [OF so'] by blast
    have e: "find_loop n c y v lo hi n_ready d cols pred = (case f' of
        Some j \<Rightarrow> Some (j, lo, lo, d', cols', pred') | None \<Rightarrow> find_loop n c y v lo' hi' lo d' cols' pred')"
      using less.prems(2) [symmetric] lo fd None sd by (subst find_loop.simps) (simp add: Let_def fin_def [symmetric])
    show ?thesis
    proof (cases f')
      case None
      then have "lo' = hi'" "lo < lo'" "search_ok n y start lo' hi' d' cols' pred'" using sp g(1) by auto
      then show ?thesis using less.hyps [of lo' hi' d' cols' pred' lo] lo e None by simp
    next
      case (Some j)
      then show ?thesis using sp e by auto
    qed
  qed
qed

section \<open>Augmenting along the path\<close>

text \<open>While a path is followed: \<open>j\<close> is the column that is to get a new row.\<close>

definition hole :: "nat \<Rightarrow> nat set \<Rightarrow> nat \<Rightarrow> int list \<Rightarrow> int list \<Rightarrow> bool" where
  "hole n free j x y = (length x = n \<and> length y = n \<and> free \<subseteq> {..<n} \<and> j < n \<and>
     (\<forall>i<n. i \<notin> free \<longrightarrow> 0 \<le> x ! i \<and> nat (x ! i) < n \<and> nat (x ! i) \<noteq> j \<and> y ! nat (x ! i) = int i) \<and>
     (\<forall>k<n. k \<noteq> j \<longrightarrow> 0 \<le> y ! k \<longrightarrow> nat (y ! k) < n \<and> nat (y ! k) \<notin> free \<and> x ! nat (y ! k) = int k))"

lemma hole_start: "matching n free x y \<Longrightarrow> j < n \<Longrightarrow> y ! j < 0 \<Longrightarrow> hole n free j x y"
  by (fastforce simp: matching_def hole_def)

text \<open>Besides the matching: a row keeps its column or gets one of the path, whose predecessor it is.\<close>

definition path_row :: "nat \<Rightarrow> nat list \<Rightarrow> nat list \<Rightarrow> nat \<Rightarrow> nat \<Rightarrow> int list \<Rightarrow> nat \<Rightarrow> bool" where
  "path_row n cols pred q k x' i = (\<exists>p<n. (p < q \<or> p = k) \<and> x' ! i = int (cols ! p) \<and> i = pred ! (cols ! p))"

lemma augment_ok:
  assumes "hole n free (cols ! k) x y" "start \<in> free" "column_order n cols" "length pred = n" "k < n"
    "chained n y0 start q cols pred" "\<forall>m<k. y ! (cols ! m) = y0 ! (cols ! m)" "k < q \<or> k = last_pos"
  shows "\<exists>x' y'. augment start pred (cols ! k) x y = Some (x', y') \<and> matching n (free - {start}) x' y' \<and>
    (\<forall>i<n. x' ! i = x ! i \<or> path_row n cols pred q last_pos x' i) \<and> path_row n cols pred q last_pos x' start"
  using assms(1,5,7,8)
proof (induction k arbitrary: x y rule: less_induct)
  case (less k)
  let ?j = "cols ! k"
  define i where "i = pred ! ?j"
  have h: "length x = n" "length y = n" "free \<subseteq> {..<n}" "?j < n"
    and hr: "\<And>i. i < n \<Longrightarrow> i \<notin> free \<Longrightarrow> 0 \<le> x ! i \<and> nat (x ! i) < n \<and> nat (x ! i) \<noteq> ?j \<and> y ! nat (x ! i) = int i"
    and hc: "\<And>k. k < n \<Longrightarrow> k \<noteq> ?j \<Longrightarrow> 0 \<le> y ! k \<Longrightarrow> nat (y ! k) < n \<and> nat (y ! k) \<notin> free \<and> x ! nat (y ! k) = int k"
    using less.prems(1) by (auto simp: hole_def)
  have st: "start < n" using h(3) assms(2) by auto
  have pr: "path_row n cols pred q last_pos x'' i" if "x'' ! i = int ?j" for x''
    using less.prems(2,4) that unfolding path_row_def i_def by blast
  show ?case
  proof (cases "i = start")
    case True
    have "matching n (free - {start}) (x[i := int ?j]) (y[?j := int i])" unfolding matching_def
    proof (intro conjI allI impI)
      fix r assume r: "r < n" "r \<notin> free - {start}"
      show "0 \<le> x[i := int ?j] ! r" "nat (x[i := int ?j] ! r) < n" "y[?j := int i] ! nat (x[i := int ?j] ! r) = int r"
        using hr [OF r(1)] r h st True by (cases "r = start"; simp)+
    next
      fix c assume c: "c < n" "0 \<le> y[?j := int i] ! c"
      have o: "nat (y ! c) \<noteq> start" "0 \<le> y ! c" if "c \<noteq> ?j" using hc [OF c(1) that] c(2) h assms(2) that by auto
      show "nat (y[?j := int i] ! c) < n" "nat (y[?j := int i] ! c) \<notin> free - {start}"
        "x[i := int ?j] ! nat (y[?j := int i] ! c) = int c"
        using hc [OF c(1)] o c h st True by (cases "c = ?j"; simp)+
    qed (use h in auto)
    moreover have "augment start pred ?j x y = Some (x[i := int ?j], y[?j := int i])"
      using True by (subst augment.simps) (simp add: Let_def i_def)
    moreover have "x[i := int ?j] ! r = x ! r \<or> path_row n cols pred q last_pos (x[i := int ?j]) r" if "r < n" for r
      using pr [of "x[i := int ?j]"] that h st True by (cases "r = i") auto
    moreover have "path_row n cols pred q last_pos (x[i := int ?j]) start"
      using pr [of "x[i := int ?j]"] h st True by simp
    ultimately show ?thesis by blast
  next
    case False
    then obtain m where m: "m < k" "m < q" "0 \<le> y0 ! (cols ! m)" "i = nat (y0 ! (cols ! m))"
      using assms(6) less.prems(2) unfolding chained_def i_def by blast
    let ?m = "cols ! m"
    have ym: "y ! ?m = int i" "0 \<le> y ! ?m" using m less.prems(3) by simp_all
    have mn: "m < n" "?m < n" "?m \<noteq> ?j"
      using m(1) less.prems(2) column_order_nth [OF assms(3)] column_order_eq [OF assms(3), of m k] by auto
    have i: "i < n" "i \<notin> free" "x ! i = int ?m" using hc [OF mn(2,3) ym(2)] ym(1) by simp_all
    have "hole n free ?m (x[i := int ?j]) (y[?j := int i])" unfolding hole_def
    proof (intro conjI allI impI)
      fix r assume r: "r < n" "r \<notin> free"
      have "nat (x ! r) \<noteq> ?m" if "r \<noteq> i" using hr [OF r] ym(1) that by auto
      then show "0 \<le> x[i := int ?j] ! r" "nat (x[i := int ?j] ! r) < n" "nat (x[i := int ?j] ! r) \<noteq> ?m"
        "y[?j := int i] ! nat (x[i := int ?j] ! r) = int r"
        using hr [OF r] h i mn by (cases "r = i"; simp)+
    next
      fix c assume c: "c < n" "c \<noteq> ?m" "0 \<le> y[?j := int i] ! c"
      have o: "nat (y ! c) \<noteq> i" "0 \<le> y ! c" if "c \<noteq> ?j" using hc [OF c(1) that] c(2,3) i(3) that by auto
      show "nat (y[?j := int i] ! c) < n" "nat (y[?j := int i] ! c) \<notin> free"
        "x[i := int ?j] ! nat (y[?j := int i] ! c) = int c"
        using hc [OF c(1)] o c h i by (cases "c = ?j"; simp)+
    qed (use h mn in auto)
    moreover have "\<forall>p<m. y[?j := int i] ! (cols ! p) = y0 ! (cols ! p)"
      using less.prems(2,3) m(1) column_order_eq [OF assms(3)] by simp
    ultimately obtain x' y' where r: "augment start pred ?m (x[i := int ?j]) (y[?j := int i]) = Some (x', y')"
      "matching n (free - {start}) x' y'"
      "\<forall>r<n. x' ! r = x[i := int ?j] ! r \<or> path_row n cols pred q last_pos x' r"
      "path_row n cols pred q last_pos x' start"
      using less.IH [OF m(1) _ mn(1)] m(2) by blast
    have "augment start pred ?j x y = Some (x', y')"
      using r(1) False i by (subst augment.simps) (simp add: Let_def i_def [symmetric])
    moreover have "x' ! r = x ! r \<or> path_row n cols pred q last_pos x' r" if "r < n" for r
      using r(3) that pr [of x'] h i(1) by (cases "r = i") auto
    ultimately show ?thesis using r(2,4) by blast
  qed
qed

lemma find_path_ok:
  assumes "matching n free x y" "start \<in> free"
  shows "\<exists>j v' pred lo nr d cols. find_path_dense n c start y v = Some (j, v', pred) \<and>
    find_loop n c y v 0 0 0 (map (\<lambda>i. c start i - v ! i) [0..<n]) [0..<n] (replicate n start) =
      Some (j, lo, nr, d, cols, pred) \<and> path_found n y start j cols pred"
proof -
  have f: "\<exists>j<n. y ! j < 0" using free_column [OF assms(1)] assms(2) by blast
  have "chained n y start 0 [0..<n] (replicate n start)" by (simp add: chained_def)
  moreover have "column_order n [0..<n]" by (auto simp: column_order_def)
  ultimately have "search_ok n y start 0 0 (map (\<lambda>i. c start i - v ! i) [0..<n]) [0..<n] (replicate n start)"
    by (simp add: search_ok_def)
  from find_loop_ok [OF this f refl] obtain j lo nr d cols pred where
    "find_loop n c y v 0 0 0 (map (\<lambda>i. c start i - v ! i) [0..<n]) [0..<n] (replicate n start) =
      Some (j, lo, nr, d, cols, pred)" "path_found n y start j cols pred" by blast
  then show ?thesis by (simp add: find_path_dense_def Let_def)
qed

lemma ca_dense_ok:
  "distinct free \<Longrightarrow> matching n (set free) x y \<Longrightarrow> \<exists>x' y' v'. ca_dense n c free x y v = Some (x', y', v') \<and> matching n {} x' y'"
proof (induction free arbitrary: x y v)
  case (Cons start rest)
  obtain j v' pred cols where p: "find_path_dense n c start y v = Some (j, v', pred)" "path_found n y start j cols pred"
    using find_path_ok [OF Cons.prems(2)] by (meson list.set_intros(1))
  then have j: "j < n" "y ! j < 0" "column_order n cols" "length pred = n" by (simp_all add: path_found_def)
  obtain q where q: "chained n y start q cols pred" using p(2) by (auto simp: path_found_def)
  obtain k where k: "k < n" "cols ! k = j" using column_order_pos [OF j(3,1)] by blast
  have h: "hole n (set (start # rest)) (cols ! k) x y" unfolding k(2) by (rule hole_start [OF Cons.prems(2) j(1,2)])
  have "\<exists>x' y'. augment start pred (cols ! k) x y = Some (x', y') \<and> matching n (set (start # rest) - {start}) x' y' \<and>
      (\<forall>i<n. x' ! i = x ! i \<or> path_row n cols pred q k x' i) \<and> path_row n cols pred q k x' start"
    by (rule augment_ok [OF h _ j(3,4) k(1) q]) simp_all
  then obtain x' y' where a: "augment start pred j x y = Some (x', y')" "matching n (set (start # rest) - {start}) x' y'"
    unfolding k(2) by blast
  have "set (start # rest) - {start} = set rest" using Cons.prems(1) by auto
  then show ?case using Cons.IH [of x' y' v'] a Cons.prems(1) p(1) by simp
qed simp

section \<open>The solver\<close>

definition perfect :: "nat \<Rightarrow> int list \<Rightarrow> int list \<Rightarrow> bool" where
  "perfect n x y = (length x = n \<and> length y = n \<and>
     (\<forall>i<n. 0 \<le> x ! i \<and> nat (x ! i) < n \<and> y ! nat (x ! i) = int i) \<and>
     (\<forall>j<n. 0 \<le> y ! j \<and> nat (y ! j) < n \<and> x ! nat (y ! j) = int j))"

lemma matching_perfect:
  assumes "matching n {} x y"
  shows "perfect n x y"
proof -
  have x: "0 \<le> x ! i \<and> nat (x ! i) < n \<and> y ! nat (x ! i) = int i" if "i < n" for i
    using matching_row [OF assms that] by simp
  have "inj_on (\<lambda>i. nat (x ! i)) {..<n}"
    using x by (intro inj_onI) (metis lessThan_iff of_nat_eq_iff)
  then have "(\<lambda>i. nat (x ! i)) ` {..<n} = {..<n}" using x by (intro endo_inj_surj) auto
  then have "\<exists>i<n. nat (x ! i) = j" if "j < n" for j using that by (metis (mono_tags) imageE lessThan_iff)
  then have "0 \<le> y ! j" if "j < n" for j using x that by (metis of_nat_0_le_iff)
  then show ?thesis using x matching_col [OF assms] matching_lengths [OF assms] by (simp add: perfect_def)
qed

lemma lapjv_internal_ok:
  assumes "0 < n"
  shows "\<exists>x y. lapjv_internal n c = Some (x, y) \<and> perfect n x y"
proof -
  obtain free x y v where a: "ccrrt_dense n c = (free, x, y, v)" using prod_cases4 by blast
  define good where "good = (\<lambda>(m, fr, x, y, v :: 'a list). m \<le> length fr \<and> distinct (take m fr) \<and> matching n (set (take m fr)) x y)"
  have g0: "good (length free, free, x, y, v)" using ccrrt_dense_ok [OF a assms] by (simp add: good_def)
  have step: "good (carr_dense n c (fst r) (snd r))" if g: "good r" for r
  proof -
    obtain m fr x y v where r: "r = (m, fr, x, y, v)" using prod_cases5 by blast
    obtain m' fr' x' y' v' where r': "carr_dense n c m (fr, x, y, v) = (m', fr', x', y', v')" using prod_cases5 by blast
    show ?thesis using carr_dense_ok [OF r'] g by (simp add: good_def r r')
  qed
  obtain m fr x1 y1 v1 where t: "carr_twice n c (length free, free, x, y, v) = (m, fr, x1, y1, v1)"
    using prod_cases5 by blast
  have g1: "good (if fst r > 0 then carr_dense n c (fst r) (snd r) else r)" if "good r" for r using that step by simp
  have g: "good (m, fr, x1, y1, v1)" unfolding t [symmetric] carr_twice_def Let_def by (intro g1 g0)
  show ?thesis
  proof (cases "m > 0")
    case True
    obtain x' y' v' where "ca_dense n c (take m fr) x1 y1 v1 = Some (x', y', v')" "matching n {} x' y'"
      using ca_dense_ok [of "take m fr" n x1 y1 c v1] g by (auto simp: good_def)
    then show ?thesis using True a t matching_perfect by (auto simp: lapjv_internal_def)
  next
    case False
    then show ?thesis using g a t matching_perfect [of n x1 y1] by (auto simp: lapjv_internal_def good_def)
  qed
qed

end
