(* ===== verification/Lapjv_Opt.thy ===== *)
theory Lapjv_Opt
  imports Lapjv_Inv
begin

text \<open>
  On an ordered ring the matching that the solver leaves has the least cost of all. The proof is that of Jonker
  and Volgenant: every row that has a column has it at its smallest reduced cost. The sentinel \<open>LARGE\<close> must be out
  of reach of the reduced costs, which holds for costs from 0 up to less than half of it.
\<close>

section \<open>Reduced costs\<close>

abbreviation rc :: "(nat \<Rightarrow> nat \<Rightarrow> 'f::minus) \<Rightarrow> 'f list \<Rightarrow> nat \<Rightarrow> nat \<Rightarrow> 'f" where
  "rc c v i j \<equiv> c i j - v ! j"

definition tight :: "nat \<Rightarrow> (nat \<Rightarrow> nat \<Rightarrow> 'f::linordered_idom) \<Rightarrow> nat set \<Rightarrow> int list \<Rightarrow> 'f list \<Rightarrow> bool" where
  "tight n c free x v = (length v = n \<and> (\<forall>i<n. i \<notin> free \<longrightarrow> (\<forall>j<n. rc c v i (nat (x ! i)) \<le> rc c v i j)))"

lemma tightD: "tight n c free x v \<Longrightarrow> i < n \<Longrightarrow> i \<notin> free \<Longrightarrow> j < n \<Longrightarrow> rc c v i (nat (x ! i)) \<le> rc c v i j"
  by (simp add: tight_def)

definition costs_upto :: "nat \<Rightarrow> (nat \<Rightarrow> nat \<Rightarrow> 'f::linordered_idom) \<Rightarrow> 'f \<Rightarrow> bool" where
  "costs_upto n c C = (C + C < large \<and> (\<forall>i<n. \<forall>j<n. 0 \<le> c i j \<and> c i j \<le> C))"

text \<open>While a row is free, prices are not below \<open>- C\<close>, and those of the free columns not below 0.\<close>

definition priced :: "nat \<Rightarrow> 'f::linordered_idom \<Rightarrow> nat set \<Rightarrow> int list \<Rightarrow> 'f list \<Rightarrow> bool" where
  "priced n C free y v = (free \<noteq> {} \<longrightarrow> (\<forall>j<n. - C \<le> v ! j) \<and> (\<forall>j<n. y ! j < 0 \<longrightarrow> 0 \<le> v ! j))"

lemma large_eq: "large = (1000000 :: 'f::linordered_idom)"
  by (simp add: large_def Let_def)

lemma cost_small: "costs_upto n c C \<Longrightarrow> i < n \<Longrightarrow> j < n \<Longrightarrow> c i j < large"
proof -
  assume a: "costs_upto n c C" "i < n" "j < n"
  then have "0 \<le> c i j" "c i j \<le> C" "C + C < large" by (auto simp: costs_upto_def)
  then show ?thesis by linarith
qed

text \<open>A tight perfect matching has the least cost.\<close>

lemma tight_least:
  assumes "tight n c {} x v" "perfect n x y" "bij_betw p {..<n} {..<n}"
  shows "(\<Sum>i<n. c i (nat (x ! i))) \<le> (\<Sum>i<n. c i (p i))"
proof -
  have "bij_betw (\<lambda>i. nat (x ! i)) {..<n} {..<n}"
  proof (rule bij_betw_byWitness [where f' = "\<lambda>j. nat (y ! j)"])
  qed (use assms(2) in \<open>auto simp: perfect_def\<close>)
  then have x: "(\<Sum>i<n. v ! nat (x ! i)) = (\<Sum>j<n. v ! j)" by (rule sum.reindex_bij_betw)
  have p: "(\<Sum>i<n. v ! p i) = (\<Sum>j<n. v ! j)" by (rule sum.reindex_bij_betw [OF assms(3)])
  have "p i < n" if "i < n" for i using assms(3) that by (auto simp: bij_betw_def)
  then have "(\<Sum>i<n. rc c v i (nat (x ! i))) \<le> (\<Sum>i<n. rc c v i (p i))"
    using tightD [OF assms(1)] by (intro sum_mono) simp
  then show ?thesis by (simp add: sum_subtractf x p)
qed

section \<open>Column reduction\<close>

definition lowered :: "nat \<Rightarrow> (nat \<Rightarrow> nat \<Rightarrow> 'f::linordered_idom) \<Rightarrow> (nat \<times> nat) set \<Rightarrow> int list \<times> 'f list \<Rightarrow> bool" where
  "lowered n c D s = (length (fst s) = n \<and> length (snd s) = n \<and> (\<forall>(i, j) \<in> D. snd s ! j \<le> c i j) \<and>
     (\<forall>j<n. snd s ! j = large \<or> snd s ! j = c (nat (fst s ! j)) j))"

lemma lowered_step:
  assumes "lowered n c D s" "j < n"
  shows "lowered n c (insert (i, j) D) (lower_column c i j s)"
proof -
  obtain y v where s: "s = (y, v)" by fastforce
  have l: "length y = n" "length v = n" and d: "\<And>i' j'. (i', j') \<in> D \<Longrightarrow> v ! j' \<le> c i' j'"
    and e: "\<And>j'. j' < n \<Longrightarrow> v ! j' = large \<or> v ! j' = c (nat (y ! j')) j'"
    using assms(1) by (auto simp: lowered_def s)
  show ?thesis
  proof (cases "c i j < v ! j")
    case True
    have "v[j := c i j] ! j' \<le> c i' j'" if "(i', j') \<in> insert (i, j) D" for i' j'
      using that d [of i' j'] True l assms(2) by (cases "j' = j") auto
    moreover have "v[j := c i j] ! j' = large \<or> v[j := c i j] ! j' = c (nat (y[j := int i] ! j')) j'" if "j' < n" for j'
      using e [OF that] l assms(2) by (cases "j' = j") auto
    ultimately show ?thesis using True l by (auto simp: lowered_def s lower_column_def)
  next
    case False
    then show ?thesis using l d e by (auto simp: lowered_def s lower_column_def)
  qed
qed

lemma lowered_row: "lowered n c D s \<Longrightarrow> set js \<subseteq> {..<n} \<Longrightarrow> lowered n c ({i} \<times> set js \<union> D) (fold (lower_column c i) js s)"
proof (induction js arbitrary: D s)
  case (Cons j js)
  have "{i} \<times> set js \<union> insert (i, j) D = {i} \<times> set (j # js) \<union> D" by auto
  then show ?case using Cons.IH [OF lowered_step [OF Cons.prems(1), of j i]] Cons.prems(2) by simp
qed simp

lemma column_minima_least:
  assumes "column_minima n c = (y, v)" "0 < n" "costs_upto n c C"
  shows "\<forall>i<n. \<forall>j<n. v ! j \<le> c i j" "\<forall>j<n. v ! j = c (nat (y ! j)) j"
proof -
  have "lowered n c ({..<n} \<times> {..<n}) (y, v)" unfolding assms(1) [symmetric] column_minima_def
  proof (rule fold_upt_inv [where P = "\<lambda>k. lowered n c ({..<k} \<times> {..<n})"])
    fix k s assume k: "k < n" "lowered n c ({..<k} \<times> {..<n}) s"
    have "{k} \<times> set [0..<n] \<union> {..<k} \<times> {..<n} = {..<Suc k} \<times> {..<n}" by auto
    then show "lowered n c ({..<Suc k} \<times> {..<n}) (fold (lower_column c k) [0..<n] s)"
      using lowered_row [OF k(2), of "[0..<n]" k] by (simp add: subset_eq)
  qed (simp_all add: lowered_def)
  then have l: "\<And>i j. i < n \<Longrightarrow> j < n \<Longrightarrow> v ! j \<le> c i j" and e: "\<And>j. j < n \<Longrightarrow> v ! j = large \<or> v ! j = c (nat (y ! j)) j"
    by (auto simp: lowered_def)
  show "\<forall>i<n. \<forall>j<n. v ! j \<le> c i j" using l by blast
  have "v ! j \<noteq> large" if "j < n" for j using l [OF assms(2) that] cost_small [OF assms(3,2) that] by simp
  then show "\<forall>j<n. v ! j = c (nat (y ! j)) j" using e by blast
qed

lemma claim_columns_keeps:
  assumes "claim_columns n y = (x', y', u')"
  shows "y' ! j < 0 \<or> y' ! j = y ! j"
proof -
  define good where "good = (\<lambda>(x :: int list, z :: int list, u :: bool list). z ! j < 0 \<or> z ! j = y ! j)"
  have "good (claim_columns n y)" unfolding claim_columns_def
  proof (rule fold_invariant [where P = good and Q = "\<lambda>_. True"])
    fix k s assume g: "good s"
    obtain x z u where s: "s = (x, z, u)" using prod_cases3 by blast
    show "good (claim_column k s)" using g
      by (cases "k < length z"; cases "k = j") (auto simp: good_def s claim_column_def Let_def list_update_beyond)
  qed (simp_all add: good_def)
  then show ?thesis using assms by (simp add: good_def)
qed

lemma min_except_spec:
  fixes v :: "'f::linordered_idom list"
  assumes "\<forall>j2<n. j2 \<noteq> j \<longrightarrow> 0 \<le> rc c v i j2"
  shows "0 \<le> min_except n c v i j \<and> (\<forall>j2<n. j2 \<noteq> j \<longrightarrow> min_except n c v i j \<le> rc c v i j2)"
proof -
  define good where "good = (\<lambda>k (m :: 'f). 0 \<le> m \<and> (\<forall>j2<k. j2 \<noteq> j \<longrightarrow> m \<le> rc c v i j2))"
  have "good n (min_except n c v i j)" unfolding min_except_def
  proof (rule fold_upt_inv)
    show "good 0 large" by (simp add: good_def large_eq)
  next
    fix k m assume "k < n" "good k m"
    then show "good (Suc k) (if k = j then m else if rc c v i k < m then rc c v i k else m)"
      using assms by (auto simp: good_def less_Suc_eq)
  qed simp
  then show ?thesis by (simp add: good_def)
qed

text \<open>What the reduction keeps; the rows from \<open>k\<close> on were not reduced yet.\<close>

definition reduced :: "nat \<Rightarrow> (nat \<Rightarrow> nat \<Rightarrow> 'f::linordered_idom) \<Rightarrow> 'f \<Rightarrow> nat set \<Rightarrow> int list \<Rightarrow> int list \<Rightarrow> nat \<Rightarrow> 'f list \<Rightarrow> bool" where
  "reduced n c C free x y k v = (tight n c free x v \<and> priced n C free y v \<and>
     (\<forall>i<n. k \<le> i \<longrightarrow> i \<notin> free \<longrightarrow> rc c v i (nat (x ! i)) = 0))"

lemma reduce_row_keeps:
  assumes "reduced n c C free x y i v" "i < n" "matching n free x y" "costs_upto n c C" "free = {i. i < n \<and> x ! i < 0}"
  shows "reduced n c C free x y (Suc i) (snd (reduce_row n c x u i (fr, v)))"
proof (cases "i \<notin> free \<and> u ! i")
  case False
  then have "snd (reduce_row n c x u i (fr, v)) = v" using assms(2,5) by (auto simp: reduce_row_def)
  then show ?thesis using assms(1) by (simp add: reduced_def)
next
  case True
  let ?j = "nat (x ! i)"
  define m where "m = min_except n c v i ?j"
  let ?v = "v[?j := v ! ?j - m]"
  have t: "tight n c free x v" and p: "priced n C free y v"
    and z: "\<And>r. r < n \<Longrightarrow> i \<le> r \<Longrightarrow> r \<notin> free \<Longrightarrow> rc c v r (nat (x ! r)) = 0"
    using assms(1) by (auto simp: reduced_def)
  have lv: "length v = n" using t by (simp add: tight_def)
  have j: "?j < n" "y ! ?j = int i" using matching_row [OF assms(3,2)] True by simp_all
  have zi: "rc c v i ?j = 0" using z assms(2) True by simp
  have "0 \<le> rc c v i j2" if "j2 < n" for j2 using tightD [OF t assms(2) _ that] True zi by simp
  then have m: "0 \<le> m" "\<And>j2. j2 < n \<Longrightarrow> j2 \<noteq> ?j \<Longrightarrow> m \<le> rc c v i j2"
    using min_except_spec [where n = n and j = ?j and c = c and v = v and i = i] by (simp_all add: m_def)
  have e: "snd (reduce_row n c x u i (fr, v)) = ?v"
    using True assms(2,5) by (auto simp: reduce_row_def m_def Let_def)
  have at: "?v ! k = (if k = ?j then v ! ?j - m else v ! k)" for k using j lv by (simp add: nth_list_update)
  have other: "nat (x ! r) \<noteq> ?j" if "r < n" "r \<notin> free" "r \<noteq> i" for r
    using matching_row [OF assms(3) that(1,2)] j(2) that(3) by auto
  have "tight n c free x ?v" unfolding tight_def
  proof (intro conjI allI impI)
    fix r k assume r: "r < n" "r \<notin> free" "k < n"
    show "rc c ?v r (nat (x ! r)) \<le> rc c ?v r k"
    proof (cases "r = i")
      case True
      then show ?thesis using at zi m(2) [OF r(3)] by auto
    next
      case False
      have "rc c v r k \<le> rc c ?v r k" using at [of k] m(1) by auto
      then show ?thesis using tightD [OF t r] at other [OF r(1,2) False] by simp
    qed
  qed (use lv in simp)
  moreover have "priced n C free y ?v" unfolding priced_def
  proof (intro impI conjI allI)
    assume f: "free \<noteq> {}"
    obtain k where k: "k < n" "y ! k < 0" using free_column [OF assms(3) f] by blast
    have "k \<noteq> ?j" using k j by auto
    then have "m \<le> rc c v i k" "0 \<le> v ! k" using m(2) k p f by (auto simp: priced_def)
    moreover have "c i k \<le> C" "0 \<le> c i ?j" using assms(2,4) k(1) j(1) by (auto simp: costs_upto_def)
    ultimately have "- C \<le> v ! ?j - m" using zi by simp
    then show "- C \<le> ?v ! l" if "l < n" for l using that at p f by (auto simp: priced_def)
    show "0 \<le> ?v ! l" if "l < n" "y ! l < 0" for l using that at [of l] p f j by (auto simp: priced_def)
  qed
  moreover have "rc c ?v r (nat (x ! r)) = 0" if "r < n" "Suc i \<le> r" "r \<notin> free" for r
    using z [of r] that at other [of r] by simp
  ultimately show ?thesis unfolding e by (simp add: reduced_def)
qed

lemma ccrrt_dense_tight:
  fixes v :: "'f::linordered_idom list"
  assumes "ccrrt_dense n c = (free, x, y, v)" "0 < n" "costs_upto n c C"
  shows "tight n c (set free) x v \<and> priced n C (set free) y v"
proof -
  obtain y0 v0 where a: "column_minima n c = (y0, v0)" by fastforce
  obtain x1 y1 u1 where k: "claim_columns n y0 = (x1, y1, u1)" by (cases "claim_columns n y0") auto
  have r: "free = filter (\<lambda>i. x1 ! i < 0) [0..<n]" "x = x1" "y = y1" "v = snd (fold (reduce_row n c x1 u1) [0..<n] ([], v0))"
    using assms(1) reduce_rows_free [of n c x1 u1 "[0..<n]" "[]" v0]
    by (auto simp: ccrrt_dense_def a k split: prod.splits)
  have f: "set free = {i. i < n \<and> x ! i < 0}" by (auto simp: r)
  have m: "matching n (set free) x y" using ccrrt_dense_ok [OF assms(1,2)] by simp
  note cm = column_minima_least [OF a assms(2,3)] and co = column_minima_ok [OF a assms(2)]
  have z: "rc c v0 i (nat (x ! i)) = 0" if "i < n" "i \<notin> set free" for i
  proof -
    have x: "nat (x ! i) < n" "y ! nat (x ! i) = int i" using matching_row [OF m that] by simp_all
    then have "y0 ! nat (x ! i) = int i" using claim_columns_keeps [OF k, of "nat (x ! i)"] r(3) by simp
    then show ?thesis using cm(2) x(1) by simp
  qed
  have "0 \<le> v0 ! j" if "j < n" for j using cm(2) co that assms(3) by (auto simp: costs_upto_def)
  then have v0: "0 \<le> v0 ! j" "- C \<le> v0 ! j" if "j < n" for j using that assms(2,3) by (fastforce simp: costs_upto_def)+
  have "reduced n c C (set free) x y 0 v0"
    using z v0 cm(1) co by (auto simp: reduced_def tight_def priced_def)
  then have "reduced n c C (set free) x y n (snd (fold (reduce_row n c x1 u1) [0..<n] ([], v0)))"
  proof (intro fold_upt_inv [where P = "\<lambda>k s. reduced n c C (set free) x y k (snd s)"])
    fix k and s :: "nat list \<times> 'f list" assume "k < n" "reduced n c C (set free) x y k (snd s)"
    then show "reduced n c C (set free) x y (Suc k) (snd (reduce_row n c x1 u1 k s))"
      using reduce_row_keeps [OF _ _ m assms(3) f, where u = u1 and fr = "fst s" and v = "snd s" and i = k] r(2) by simp
  qed simp_all
  then show ?thesis using r(4) by (simp add: reduced_def)
qed

section \<open>Augmenting row reduction\<close>

lemma two_minima_spec:
  fixes v :: "'f::linordered_idom list"
  assumes "two_minima n c v i = (j1, v1, j2, v2)" "0 < n" "\<And>j. j < n \<Longrightarrow> rc c v i j < large"
  shows "j1 < n \<and> v1 = rc c v i j1 \<and> (\<forall>j<n. v1 \<le> rc c v i j) \<and> (\<forall>j<n. j \<noteq> j1 \<longrightarrow> v2 \<le> rc c v i j) \<and> v1 \<le> v2 \<and>
    (0 \<le> j2 \<longrightarrow> nat j2 < n \<and> v2 = rc c v i (nat j2))"
proof -
  define good where "good = (\<lambda>k (j1, v1 :: 'f, j2 :: int, v2). j1 < k \<and> v1 = rc c v i j1 \<and> (\<forall>j<k. v1 \<le> rc c v i j) \<and>
    (\<forall>j<k. j \<noteq> j1 \<longrightarrow> v2 \<le> rc c v i j) \<and> v1 \<le> v2 \<and> (0 \<le> j2 \<longrightarrow> nat j2 < k \<and> v2 = rc c v i (nat j2)))"
  have "good n (two_minima n c v i)" unfolding two_minima_def
  proof (rule fold_upt_inv)
    show "good 1 (0, rc c v i 0, - 1, large)" using assms(3) [OF assms(2)] by (simp add: good_def)
    show "1 \<le> n" using assms(2) by simp
  next
    fix k s assume k: "1 \<le> k" "k < n" "good k s"
    obtain j1 v1 j2 v2 where s: "s = (j1, v1, j2, v2)" using prod_cases4 by blast
    have g: "j1 < k" "v1 = rc c v i j1" "\<And>j. j < k \<Longrightarrow> v1 \<le> rc c v i j" "\<And>j. j < k \<Longrightarrow> j \<noteq> j1 \<Longrightarrow> v2 \<le> rc c v i j"
      "v1 \<le> v2" "0 \<le> j2 \<Longrightarrow> nat j2 < k \<and> v2 = rc c v i (nat j2)"
      using k(3) by (auto simp: good_def s)
    consider "\<not> rc c v i k < v2" | "rc c v i k < v2" "v1 \<le> rc c v i k" | "rc c v i k < v1"
      using g(5) by linarith
    then show "good (Suc k) (case s of (j1, v1, j2, v2) \<Rightarrow>
        let r = rc c v i k in if r < v2 then (if v1 \<le> r then (j1, v1, int k, r) else (k, r, int j1, v1)) else (j1, v1, j2, v2))"
    proof cases
      case 1
      then show ?thesis using g by (auto simp: good_def s Let_def less_Suc_eq)
    next
      case 2
      have "rc c v i k \<le> rc c v i j" if "j < k" "j \<noteq> j1" for j using g(4) [OF that] 2(1) by linarith
      then show ?thesis using g 2 by (auto simp: good_def s Let_def less_Suc_eq)
    next
      case 3
      have "rc c v i k \<le> rc c v i j" if "j < k" for j using g(3) [OF that] 3 by linarith
      then show ?thesis using g 3 by (auto simp: good_def s Let_def less_Suc_eq)
    qed
  qed
  then show ?thesis unfolding assms(1) good_def prod.case .
qed

text \<open>A row gets a column at its least reduced cost, at prices that differ at most in that column and only downwards.\<close>

lemma take_tight:
  assumes "tight n c free x v" "matching n free x y" "i \<in> free" "j < n" "length v' = n"
    "\<And>k. k < n \<Longrightarrow> k \<noteq> j \<Longrightarrow> v' ! k = v ! k" "v' ! j \<le> v ! j" "\<And>k. k < n \<Longrightarrow> rc c v' i j \<le> rc c v' i k"
  shows "tight n c (free - {i} \<union> holder y j) (x[i := int j]) v'"
  unfolding tight_def
proof (intro conjI allI impI)
  fix r k assume r: "r < n" "r \<notin> free - {i} \<union> holder y j" "k < n"
  note l = matching_lengths [OF assms(2)]
  show "rc c v' r (nat (x[i := int j] ! r)) \<le> rc c v' r k"
  proof (cases "r = i")
    case True
    then show ?thesis using assms(3,8) r l by auto
  next
    case False
    then have f: "r \<notin> free" using r(2) by simp
    note m = matching_row [OF assms(2) r(1) f]
    have "nat (x ! r) \<noteq> j" using m r(2) by (auto simp: holder_def)
    then have "rc c v' r (nat (x ! r)) = rc c v r (nat (x ! r))" using assms(6) m by simp
    moreover have "rc c v r k \<le> rc c v' r k" using assms(6,7) r(3) by (cases "k = j") auto
    ultimately show ?thesis using tightD [OF assms(1) r(1) f r(3)] False by simp
  qed
qed (use assms in simp)

lemma carr_choice_keeps:
  fixes s :: "'f::linordered_idom reduction"
  assumes "carr_choice n c s = (j, v')" "tight n c free (rowsol s) (prices s)" "priced n C free (colsol s) (prices s)"
    "matching n free (rowsol s) (colsol s)" "i = free_rows s ! current s" "i \<in> free" "costs_upto n c C"
  shows "tight n c (free - {i} \<union> holder (colsol s) j) ((rowsol s)[i := int j]) v' \<and>
    priced n C (free - {i} \<union> holder (colsol s) j) ((colsol s)[j := int i]) v'"
proof -
  let ?v = "prices s" and ?y = "colsol s"
  let ?free = "free - {i} \<union> holder ?y j"
  obtain j1 v1 j2 v2 where t: "two_minima n c ?v i = (j1, v1, j2, v2)" using prod_cases4 by blast
  have lv: "length ?v = n" using assms(2) by (simp add: tight_def)
  have i: "i < n" using assms(6) matching_lengths [OF assms(4)] by auto
  have p: "\<And>j. j < n \<Longrightarrow> - C \<le> ?v ! j" "\<And>j. j < n \<Longrightarrow> ?y ! j < 0 \<Longrightarrow> 0 \<le> ?v ! j"
    using assms(3,6) by (auto simp: priced_def)
  have b: "c i k \<le> C" "0 \<le> c i k" "C + C < large" if "k < n" for k using assms(7) i that by (auto simp: costs_upto_def)
  have "rc c ?v i k < large" if "k < n" for k using p(1) [OF that] b [OF that] by linarith
  then have m: "j1 < n" "v1 = rc c ?v i j1" "\<And>k. k < n \<Longrightarrow> v1 \<le> rc c ?v i k"
    "\<And>k. k < n \<Longrightarrow> k \<noteq> j1 \<Longrightarrow> v2 \<le> rc c ?v i k" "v1 \<le> v2" "0 \<le> j2 \<Longrightarrow> nat j2 < n \<and> v2 = rc c ?v i (nat j2)"
    using two_minima_spec [OF t] i by auto
  have same: ?thesis if jn: "j < n" and v: "v' = ?v" and le: "\<And>k. k < n \<Longrightarrow> rc c ?v i j \<le> rc c ?v i k"
  proof
    show "tight n c ?free ((rowsol s)[i := int j]) v'"
      by (rule take_tight [OF assms(2,4,6) jn]) (use v lv le in auto)
    show "priced n C ?free (?y[j := int i]) v'"
      using p assms(6) matching_lengths [OF assms(4)] jn by (auto simp: priced_def v nth_list_update split: if_splits)
  qed
  consider (lower) "v2 - v1 > 0" "j = j1" "v' = ?v[j1 := ?v ! j1 - (v2 - v1)]"
    | (keep) "j < n" "v' = ?v" "rc c ?v i j = v1"
  proof -
    define short where "short = (rr_cnt s + 1 < (current s + 1) * n)"
    have e: "(j, v') = (if short then (if ?v ! j1 - (v2 - v1) < ?v ! j1 then (j1, ?v[j1 := ?v ! j1 - (v2 - v1)])
        else (if 0 \<le> ?y ! j1 \<and> 0 \<le> j2 then nat j2 else j1, ?v)) else (j1, ?v))"
      using assms(1) by (simp add: carr_choice_def t assms(5) [symmetric] short_def)
    show ?thesis
    proof (cases "short \<and> v2 - v1 > 0")
      case True
      then show ?thesis using e by (intro that(1)) simp_all
    next
      case False
      then have e: "j = (if short \<and> 0 \<le> ?y ! j1 \<and> 0 \<le> j2 then nat j2 else j1)" "v' = ?v"
        "short \<Longrightarrow> v2 = v1" using e m(5) by (auto split: if_splits)
      show ?thesis
      proof (cases "short \<and> 0 \<le> ?y ! j1 \<and> 0 \<le> j2")
        case True
        then show ?thesis using e m(6) by (intro that(2)) simp_all
      next
        case False
        then have "j = j1" unfolding e(1) by (rule if_not_P)
        then show ?thesis using e(2) m(1,2) by (intro that(2)) simp_all
      qed
    qed
  qed
  then show ?thesis
  proof cases
    case keep
    then show ?thesis using same m(3) by simp
  next
    case lower
    have at: "v' ! k = (if k = j1 then ?v ! j1 - (v2 - v1) else ?v ! k)" for k
      using lower(3) m(1) lv by (simp add: nth_list_update)
    have rj: "rc c v' i j1 = v2" using at m(2) by simp
    show ?thesis
    proof
      have "rc c v' i j1 \<le> rc c v' i k" if "k < n" for k
        using that m(4) [OF that] at [of k] rj by (cases "k = j1") simp_all
      moreover have "v' ! j1 \<le> ?v ! j1" using at [of j1] lower(1) by simp
      ultimately show "tight n c ?free ((rowsol s)[i := int j]) v'"
        using lower(2,3) lv m(1) at by (intro take_tight [OF assms(2,4,6)]) simp_all
      show "priced n C ?free (?y[j := int i]) v'" unfolding priced_def
      proof (intro impI conjI allI)
        assume f: "?free \<noteq> {}"
        have jn: "j < n" using lower(2) m(1) by simp
        obtain k where k: "k < n" "?y[j := int i] ! k < 0"
          using free_column [OF matching_take [OF assms(4,6) jn] f] by blast
        have kj: "k \<noteq> j" using k jn matching_lengths [OF assms(4)] by auto
        then have "?y ! k < 0" using k(2) by simp
        then have "v2 \<le> C" using m(4) [OF k(1)] kj lower(2) p(2) [OF k(1)] b(1) [OF k(1)] by fastforce
        then have "- C \<le> ?v ! j1 - (v2 - v1)" using m(2) b(2) [OF m(1)] by linarith
        then show "- C \<le> v' ! l" if "l < n" for l using at [of l] p(1) [OF that] by auto
        show "0 \<le> v' ! l" if l: "l < n" "?y[j := int i] ! l < 0" for l
        proof -
          have "l \<noteq> j" using l jn matching_lengths [OF assms(4)] by auto
          then show ?thesis using at [of l] l p(2) [OF l(1)] lower(2) by simp
        qed
      qed
    qed
  qed
qed

definition carr_opt :: "nat \<Rightarrow> (nat \<Rightarrow> nat \<Rightarrow> 'f::linordered_idom) \<Rightarrow> 'f \<Rightarrow> nat \<Rightarrow> 'f reduction \<Rightarrow> bool" where
  "carr_opt n c C m s = (carr_ok n m s \<and> tight n c (set (pending m s)) (rowsol s) (prices s) \<and>
     priced n C (set (pending m s)) (colsol s) (prices s))"

lemma carr_step_opt:
  assumes "carr_opt n c C m s" "current s < m" "costs_upto n c C"
  shows "carr_opt n c C m (carr_step n c s)"
proof -
  let ?i = "free_rows s ! current s"
  have ok: "carr_ok n m s" and t: "tight n c (set (pending m s)) (rowsol s) (prices s)"
    "priced n C (set (pending m s)) (colsol s) (prices s)" using assms(1) by (simp_all add: carr_opt_def)
  have c: "counters_ok m s" and m: "matching n (set (pending m s)) (rowsol s) (colsol s)" and d: "distinct (pending m s)"
    using ok by (simp_all add: carr_ok_def)
  note p = advanced [OF c assms(2)]
  have i: "?i \<in> set (pending m s)" unfolding p by simp
  then have n: "0 < n" using matching_lengths [OF m] by auto
  obtain j v' where ch: "carr_choice n c s = (j, v')" by fastforce
  note sh = carr_step_shape [OF c assms(2) n ch]
  have "set (pending m (carr_step n c s)) = set (pending m s) - {?i} \<union> holder (colsol s) j"
    using sh d unfolding p by (auto simp: rows_of_def holder_def)
  then show ?thesis
    using carr_choice_keeps [OF ch t m refl i assms(3)] sh carr_step_ok [OF ok assms(2), of c] by (simp add: carr_opt_def)
qed

lemma carr_loop_opt:
  "carr_opt n c C m s \<Longrightarrow> costs_upto n c C \<Longrightarrow> carr_opt n c C m (carr_loop n c m s)"
proof (induction n c m s rule: carr_loop.induct)
  case (1 n c m s)
  show ?case
  proof (cases "current s < m")
    case True
    then show ?thesis using 1(1) [OF True carr_step_opt [OF 1(2) True 1(3)] 1(3)] by (subst carr_loop.simps) simp
  next
    case False
    then show ?thesis using 1(2) by (subst carr_loop.simps) simp
  qed
qed

section \<open>Shortest augmenting paths\<close>

text \<open>How much a column costs the row of another column, above what the row has.\<close>

definition slack :: "(nat \<Rightarrow> nat \<Rightarrow> 'f::linordered_idom) \<Rightarrow> 'f list \<Rightarrow> int list \<Rightarrow> nat \<Rightarrow> nat \<Rightarrow> 'f" where
  "slack c v y a k = rc c v (nat (y ! a)) k - rc c v (nat (y ! a)) a"

text \<open>The distances of Dijkstra's search: each is reached from the start or over an earlier column; none can be
  lowered from the start or over the first \<open>m\<close> columns; those below \<open>hi\<close> are at most \<open>mu\<close>, and \<open>mu\<close> if they are not
  ready; the others at least \<open>mu\<close>.\<close>

definition dists ::
    "nat \<Rightarrow> (nat \<Rightarrow> nat \<Rightarrow> 'f::linordered_idom) \<Rightarrow> 'f list \<Rightarrow> int list \<Rightarrow> nat \<Rightarrow> nat \<Rightarrow> nat \<Rightarrow> nat \<Rightarrow> nat \<Rightarrow>
     'f list \<Rightarrow> nat list \<Rightarrow> nat list \<Rightarrow> 'f \<Rightarrow> bool" where
  "dists n c v y start m q nr hi d cols pred mu =
     (linked n q cols (\<lambda>k. pred ! k = start \<and> d ! k = rc c v start k)
        (\<lambda>a k. 0 \<le> y ! a \<and> pred ! k = nat (y ! a) \<and> d ! k = d ! a + slack c v y a k) \<and>
      (\<forall>k<n. d ! k \<le> rc c v start k) \<and>
      (\<forall>p<m. \<forall>k<n. d ! k \<le> d ! (cols ! p) + slack c v y (cols ! p) k) \<and>
      (\<forall>p<hi. d ! (cols ! p) \<le> mu) \<and> (\<forall>p<hi. nr \<le> p \<longrightarrow> d ! (cols ! p) = mu) \<and>
      (\<forall>p<n. hi \<le> p \<longrightarrow> mu \<le> d ! (cols ! p)))"

lemma distsD:
  assumes "dists n c v y start m q nr hi d cols pred mu"
  shows "linked n q cols (\<lambda>k. pred ! k = start \<and> d ! k = rc c v start k)
      (\<lambda>a k. 0 \<le> y ! a \<and> pred ! k = nat (y ! a) \<and> d ! k = d ! a + slack c v y a k)"
    "\<And>k. k < n \<Longrightarrow> d ! k \<le> rc c v start k"
    "\<And>p k. p < m \<Longrightarrow> k < n \<Longrightarrow> d ! k \<le> d ! (cols ! p) + slack c v y (cols ! p) k"
    "\<And>p. p < hi \<Longrightarrow> d ! (cols ! p) \<le> mu" "\<And>p. p < hi \<Longrightarrow> nr \<le> p \<Longrightarrow> d ! (cols ! p) = mu"
    "\<And>p. p < n \<Longrightarrow> hi \<le> p \<Longrightarrow> mu \<le> d ! (cols ! p)"
  using assms by (simp_all add: dists_def)

lemma dists_lower:
  assumes s: "search_ok n y start q hi d cols pred" and di: "dists n c v y start m q nr hi d cols pred mu"
    and k: "hi \<le> k" "k < n" "0 < q" "m < q" "nr < q"
    and e: "e = mu + slack c v y (cols ! (q - 1)) (cols ! k)" "mu \<le> e" "e < d ! (cols ! k)"
    and i: "i = nat (y ! (cols ! (q - 1)))"
  shows "dists n c v y start m q nr hi (d[cols ! k := e]) cols (pred[cols ! k := i]) mu"
proof -
  let ?j = "cols ! k"
  note D = distsD [OF di]
  have so: "column_order n cols" "length d = n" "length pred = n" "q \<le> hi" "\<forall>p<hi. 0 \<le> y ! (cols ! p)" "hi \<le> n"
    using s by (simp_all add: search_ok_def)
  have j: "?j < n" by (rule column_order_nth [OF so(1) k(2)])
  have ne: "cols ! p \<noteq> ?j" if "p < n" "p \<noteq> k" for p using column_order_eq [OF so(1) that(1) k(2)] that(2) by simp
  have at: "d[?j := e] ! (cols ! p) = d ! (cols ! p)" "pred[?j := i] ! (cols ! p) = pred ! (cols ! p)" if "p < n" "p \<noteq> k" for p
    using ne [OF that] by simp_all
  have low: "d[?j := e] ! (cols ! p) = d ! (cols ! p)" if "p < hi" for p using at(1) [of p] that k(1,2) by simp
  have q1: "q - 1 < k" "q - 1 < q" "q - 1 < hi" "nr \<le> q - 1" using k so(4) by auto
  show ?thesis unfolding dists_def
  proof (intro conjI allI impI)
    show "linked n q cols (\<lambda>k. pred[?j := i] ! k = start \<and> d[?j := e] ! k = rc c v start k)
        (\<lambda>a k. 0 \<le> y ! a \<and> pred[?j := i] ! k = nat (y ! a) \<and> d[?j := e] ! k = d[?j := e] ! a + slack c v y a k)"
      unfolding linked_def
    proof (intro allI impI)
      fix p assume p: "p < n"
      show "(pred[?j := i] ! (cols ! p) = start \<and> d[?j := e] ! (cols ! p) = rc c v start (cols ! p)) \<or>
          (\<exists>m<p. m < q \<and> 0 \<le> y ! (cols ! m) \<and> pred[?j := i] ! (cols ! p) = nat (y ! (cols ! m)) \<and>
             d[?j := e] ! (cols ! p) = d[?j := e] ! (cols ! m) + slack c v y (cols ! m) (cols ! p))"
      proof (cases "p = k")
        case True
        have "d[?j := e] ! (cols ! (q - 1)) = mu" using low [OF q1(3)] D(5) [OF q1(3,4)] by simp
        then show ?thesis using True q1 so e(1) i j by (intro disjI2 exI [of _ "q - 1"]) simp
      next
        case False
        have "(pred ! (cols ! p) = start \<and> d ! (cols ! p) = rc c v start (cols ! p)) \<or>
          (\<exists>m<p. m < q \<and> 0 \<le> y ! (cols ! m) \<and> pred ! (cols ! p) = nat (y ! (cols ! m)) \<and>
             d ! (cols ! p) = d ! (cols ! m) + slack c v y (cols ! m) (cols ! p))"
          using D(1) p unfolding linked_def by blast
        moreover have "d[?j := e] ! (cols ! m) = d ! (cols ! m)" if "m < q" for m using low [of m] that so(4) by simp
        ultimately show ?thesis unfolding at [OF p False] by metis
      qed
    qed
    show "d[?j := e] ! l \<le> rc c v start l" if "l < n" for l
      using D(2) [OF that] e(3) that so(2) by (cases "l = ?j") auto
    show "d[?j := e] ! l \<le> d[?j := e] ! (cols ! p) + slack c v y (cols ! p) l" if "p < m" "l < n" for p l
      using D(3) [OF that] e(3) that low [of p] k(4) so(2,4) by (cases "l = ?j") auto
    show "d[?j := e] ! (cols ! p) \<le> mu" if "p < hi" for p using D(4) [OF that] low [OF that] by simp
    show "d[?j := e] ! (cols ! p) = mu" if "p < hi" "nr \<le> p" for p using D(5) [OF that] low [OF that(1)] by simp
    show "mu \<le> d[?j := e] ! (cols ! p)" if "p < n" "hi \<le> p" for p
      using D(6) [OF that] at(1) [OF that(1)] e(2) j so(2) by (cases "p = k") auto
  qed
qed

lemma dists_swap:
  assumes s: "search_ok n y start q hi d cols pred" and di: "dists n c v y start m q nr hi d cols pred mu"
    and k: "hi \<le> k" "k < n" "m \<le> q" "d ! (cols ! k) = mu"
  shows "dists n c v y start m q nr (Suc hi) d (cols[k := cols ! hi, hi := cols ! k]) pred mu"
proof -
  let ?cs = "cols[k := cols ! hi, hi := cols ! k]"
  note D = distsD [OF di]
  have so: "column_order n cols" "length cols = n" "q \<le> hi" using s by (simp_all add: search_ok_def column_order_def)
  have at: "?cs ! p = (if p = hi then cols ! k else if p = k then cols ! hi else cols ! p)" for p
    using nth_swap [of k cols hi p] k so(2) by simp
  show ?thesis unfolding dists_def
  proof (intro conjI allI impI)
    show "linked n q ?cs (\<lambda>k. pred ! k = start \<and> d ! k = rc c v start k)
        (\<lambda>a k. 0 \<le> y ! a \<and> pred ! k = nat (y ! a) \<and> d ! k = d ! a + slack c v y a k)"
      by (rule linked_swap [OF D(1) so(3) k(1,2) so(2)])
    show "d ! l \<le> rc c v start l" if "l < n" for l by (rule D(2) [OF that])
    show "d ! l \<le> d ! (?cs ! p) + slack c v y (?cs ! p) l" if "p < m" "l < n" for p l
      using D(3) [OF that] at [of p] that k so(3) by simp
    show "d ! (?cs ! p) \<le> mu" if "p < Suc hi" for p using D(4) [of p] at [of p] that k by (cases "p = hi") auto
    show "d ! (?cs ! p) = mu" if "p < Suc hi" "nr \<le> p" for p using D(5) [of p] at [of p] that k by (cases "p = hi") auto
    show "mu \<le> d ! (?cs ! p)" if "p < n" "Suc hi \<le> p" for p
      using D(6) [of p] D(6) [of hi] at [of p] that k by (cases "p = k") auto
  qed
qed

lemma dists_more:
  assumes "dists n c v y start m q nr hi d cols pred mu" "\<And>k. k < n \<Longrightarrow> d ! k \<le> d ! (cols ! m) + slack c v y (cols ! m) k"
  shows "dists n c v y start (Suc m) q nr hi d cols pred mu"
  using assms unfolding dists_def less_Suc_eq by blast

text \<open>The rows that have a column have it at their least reduced cost.\<close>

definition settled :: "nat \<Rightarrow> (nat \<Rightarrow> nat \<Rightarrow> 'f::linordered_idom) \<Rightarrow> 'f list \<Rightarrow> int list \<Rightarrow> bool" where
  "settled n c v y = (\<forall>a<n. 0 \<le> y ! a \<longrightarrow> (\<forall>k<n. 0 \<le> slack c v y a k))"

lemma tight_settled: "tight n c free x v \<Longrightarrow> matching n free x y \<Longrightarrow> settled n c v y"
  unfolding settled_def slack_def
proof (intro allI impI)
  fix a k assume t: "tight n c free x v" and m: "matching n free x y" and a: "a < n" "0 \<le> y ! a" "k < n"
  note r = matching_col [OF m a(1,2)]
  have "rc c v (nat (y ! a)) (nat (x ! nat (y ! a))) \<le> rc c v (nat (y ! a)) k" by (rule tightD [OF t]) (use r a in auto)
  then show "0 \<le> rc c v (nat (y ! a)) k - rc c v (nat (y ! a)) a" using r by simp
qed

lemma scan_row_dists:
  fixes d :: "'f::linordered_idom list"
  assumes "scan_row c y v i h mu [k..<n] (hi, d, cols, pred) = (f, hi', d', cols', pred')"
    "search_ok n y start q hi d cols pred" "dists n c v y start (q - 1) q nr hi d cols pred mu" "hi \<le> k" "k \<le> n"
    "0 < q" "nr < q" "i = nat (y ! (cols ! (q - 1)))" "h = rc c v i (cols ! (q - 1)) - mu" "settled n c v y"
    "\<forall>p<k. d ! (cols ! p) \<le> mu + slack c v y (cols ! (q - 1)) (cols ! p)"
  shows "case f of None \<Rightarrow> dists n c v y start q q nr hi' d' cols' pred' mu
    | Some j \<Rightarrow> dists n c v y start (q - 1) q nr hi' d' cols' pred' mu \<and> d' ! j = mu \<and> q \<le> hi'"
  using assms(1-6,8,9,11)
proof (induction "n - k" arbitrary: k hi d cols pred)
  case 0
  have e: "k = n" "f = None" "hi' = hi" "d' = d" "cols' = cols" "pred' = pred" using 0 by simp_all
  have so: "column_order n cols" "q \<le> hi" using 0(3) by (simp_all add: search_ok_def)
  note D = distsD [OF 0(4)]
  have mu: "d ! (cols ! (q - 1)) = mu" by (rule D(5)) (use so assms(6,7) in auto)
  have "d ! l \<le> d ! (cols ! (q - 1)) + slack c v y (cols ! (q - 1)) l" if l: "l < n" for l
  proof -
    obtain p where "p < n" "cols ! p = l" using column_order_pos [OF so(1) l] by blast
    then show ?thesis using 0 e(1) mu by auto
  qed
  then have "dists n c v y start (Suc (q - 1)) q nr hi d cols pred mu" by (intro dists_more [OF 0(4)]) simp
  then have "dists n c v y start q q nr hi d cols pred mu" using assms(6) by simp
  then show ?case by (simp add: e)
next
  case (Suc l)
  let ?j = "cols ! k" and ?a = "cols ! (q - 1)"
  let ?cred = "c i ?j - v ! ?j - h"
  have k: "k < n" "[k..<n] = k # [Suc k..<n]" "l = n - Suc k" using Suc.hyps(2) by (auto simp: upt_conv_Cons)
  note hk = \<open>hi \<le> k\<close> and q = assms(6) and nr = assms(7) and i = \<open>i = nat (y ! (cols ! (q - 1)))\<close>
  have so: "column_order n cols" "length d = n" "q \<le> hi" "hi \<le> n" "\<forall>p<hi. 0 \<le> y ! (cols ! p)"
    using Suc.prems(2) by (simp_all add: search_ok_def)
  have j: "?j < n" "?a < n" by (rule column_order_nth [OF so(1)], use so k q in simp)+
  have cr: "?cred = mu + slack c v y ?a ?j" using Suc.prems(7,8) by (simp add: slack_def)
  have ge: "mu \<le> ?cred" using assms(10) j so(3,5) q unfolding cr settled_def by simp
  note IH = Suc.hyps(1) [OF k(3)]
  have near: "dists n c v y start (q - 1) q nr hi (d[?j := ?cred]) cols (pred[?j := i]) mu"
    "search_ok n y start q hi (d[?j := ?cred]) cols (pred[?j := i])" if "?cred < d ! ?j"
    using dists_lower [OF Suc.prems(2,3) hk k(1) q _ nr cr ge that i] search_lower [OF Suc.prems(2) hk k(1) q i] q by auto
  have part: "d[?j := ?cred] ! (cols ! p) \<le> mu + slack c v y ?a (cols ! p)" if "p < Suc k" for p
    using that Suc.prems(9) cr so(1,2) j column_order_eq [OF so(1), of p k] k(1) by (cases "p = k") auto
  consider (far) "\<not> ?cred < d ! ?j" | (nearer) "?cred < d ! ?j" "?cred \<noteq> mu"
    | (found) "?cred < d ! ?j" "?cred = mu" "y ! ?j < 0" | (move) "?cred < d ! ?j" "?cred = mu" "\<not> y ! ?j < 0" by blast
  then show ?case
  proof cases
    case far
    have p: "\<forall>p<Suc k. d ! (cols ! p) \<le> mu + slack c v y ?a (cols ! p)" using Suc.prems(9) far cr by (auto simp: less_Suc_eq)
    have e: "scan_row c y v i h mu [Suc k..<n] (hi, d, cols, pred) = (f, hi', d', cols', pred')"
      using Suc.prems(1) far k(2) by (simp add: Let_def)
    show ?thesis by (rule IH [OF e Suc.prems(2,3) _ _ Suc.prems(6-8)]) (use hk k(1) p in simp_all)
  next
    case nearer
    have e: "scan_row c y v i h mu [Suc k..<n] (hi, d[?j := ?cred], cols, pred[?j := i]) = (f, hi', d', cols', pred')"
      using Suc.prems(1) nearer k(2) by (simp add: Let_def)
    have k': "hi \<le> Suc k" "Suc k \<le> n" using hk k(1) by simp_all
    have p: "\<forall>p<Suc k. d[?j := ?cred] ! (cols ! p) \<le> mu + slack c v y ?a (cols ! p)" using part by blast
    show ?thesis by (rule IH [OF e near(2,1) [OF nearer(1)] k' Suc.prems(6-8) p])
  next
    case found
    then have "scan_row c y v i h mu [k..<n] (hi, d, cols, pred) = (Some ?j, hi, d[?j := ?cred], cols, pred[?j := i])"
      using k(2) by (simp add: Let_def)
    then have "f = Some ?j" "hi' = hi" "d' = d[?j := ?cred]" "cols' = cols" "pred' = pred[?j := i]"
      unfolding Suc.prems(1) by simp_all
    then show ?thesis using found near so j by simp
  next
    case move
    let ?cs = "cols[k := cols ! hi, hi := ?j]"
    have s2: "search_ok n y start q (Suc hi) (d[?j := ?cred]) ?cs (pred[?j := i])"
      by (rule search_swap [OF near(2) hk k(1)]) (use move in simp_all)
    have d2: "dists n c v y start (q - 1) q nr (Suc hi) (d[?j := ?cred]) ?cs (pred[?j := i]) mu"
      by (rule dists_swap [OF near(2,1) hk k(1)]) (use move j so(2) in simp_all)
    have a: "?cs ! (q - 1) = ?a" using q so(3) by (intro swap_below [OF _ hk]) simp
    have e: "scan_row c y v i h mu [Suc k..<n] (Suc hi, d[?j := ?cred], ?cs, pred[?j := i]) = (f, hi', d', cols', pred')"
      using Suc.prems(1) move k(2) by (simp add: Let_def)
    have at: "?cs ! p = (if p = hi then cols ! k else if p = k then cols ! hi else cols ! p)" for p
      using nth_swap [of k cols hi p] hk k(1) so(1) by (simp add: column_order_def)
    have "d[?j := ?cred] ! (?cs ! p) \<le> mu + slack c v y ?a (?cs ! p)" if p: "p < Suc k" for p
    proof -
      consider "p = hi" | "p = k" "p \<noteq> hi" | "p \<noteq> k" "p \<noteq> hi" by blast
      then show ?thesis
      proof cases
        case 1 then show ?thesis unfolding at using part [of k] by simp
      next
        case 2 then show ?thesis unfolding at using part [of hi] hk by simp
      next
        case 3 then show ?thesis unfolding at using part [OF p] by simp
      qed
    qed
    then have p: "\<forall>p<Suc k. d[?j := ?cred] ! (?cs ! p) \<le> mu + slack c v y (?cs ! (q - 1)) (?cs ! p)" unfolding a by blast
    show ?thesis by (rule IH [OF e s2 d2 _ _ q]) (use hk k(1) i Suc.prems(8) a p in simp_all)
  qed
qed

lemma dists_scan_more:
  assumes "dists n c v y start m q nr hi d cols pred mu" "q \<le> q'"
  shows "dists n c v y start m q' nr hi d cols pred mu"
  using assms unfolding dists_def linked_def by (meson less_le_trans)

text \<open>What the search found: the distances when it ended at the column \<open>j\<close>.\<close>

definition path_best ::
    "nat \<Rightarrow> (nat \<Rightarrow> nat \<Rightarrow> 'f::linordered_idom) \<Rightarrow> 'f list \<Rightarrow> int list \<Rightarrow> nat \<Rightarrow> nat \<Rightarrow> nat \<Rightarrow>
     'f list \<Rightarrow> nat list \<Rightarrow> nat list \<Rightarrow> bool" where
  "path_best n c v y start j nr d cols pred = (column_order n cols \<and> length d = n \<and> length pred = n \<and>
     (\<exists>mu m q hi. dists n c v y start m q nr hi d cols pred mu \<and> nr \<le> m \<and> q \<le> hi \<and> nr < hi \<and> hi \<le> n \<and> d ! j = mu))"

lemma path_bestI:
  assumes "dists n c v y start m q nr hi d cols pred mu" "nr \<le> m" "q \<le> hi" "nr < hi" "hi \<le> n" "d ! j = mu"
    "column_order n cols" "length d = n" "length pred = n"
  shows "path_best n c v y start j nr d cols pred"
  using assms unfolding path_best_def by blast

lemma scan_dense_dists:
  fixes d :: "'f::linordered_idom list"
  assumes "scan_dense n c y v lo (hi, d, cols, pred) = Some (f, lo', hi', d', cols', pred')"
    "search_ok n y start lo hi d cols pred" "dists n c v y start lo lo nr hi d cols pred mu" "nr \<le> lo" "nr < hi"
    "settled n c v y"
  shows "case f of None \<Rightarrow> dists n c v y start lo' lo' nr hi' d' cols' pred' mu
    | Some j \<Rightarrow> path_best n c v y start j nr d' cols' pred'"
  using assms(1-5)
proof (induction "n - lo" arbitrary: lo hi d cols pred rule: less_induct)
  case less
  have so: "column_order n cols" "lo \<le> hi" "hi \<le> n" "\<forall>p<hi. 0 \<le> y ! (cols ! p)" "chained n y start lo cols pred"
    using less.prems(2) by (simp_all add: search_ok_def)
  show ?case
  proof (cases "lo = hi")
    case True
    then show ?thesis using less.prems by (auto simp: scan_dense.simps)
  next
    case False
    then have lt: "lo < hi" "lo < n" using so by simp_all
    let ?j = "cols ! lo"
    define i where "i = nat (y ! ?j)"
    define h where "h = c i ?j - v ! ?j - d ! ?j"
    note D = distsD [OF less.prems(3)]
    have mu: "d ! ?j = mu" by (rule D(5) [OF lt(1) less.prems(4)])
    obtain g hi1 d1 cols1 pred1 where
      r: "scan_row c y v i h mu [hi..<n] (hi, d, cols, pred) = (g, hi1, d1, cols1, pred1)" using prod_cases5 by blast
    have "chained n y start (Suc lo) cols pred" using so(5) unfolding chained_def by (metis less_SucI)
    then have s1: "search_ok n y start (Suc lo) hi d cols pred" using less.prems(2) lt by (simp add: search_ok_def)
    have d1: "dists n c v y start (Suc lo - 1) (Suc lo) nr hi d cols pred mu"
      using dists_scan_more [OF less.prems(3), of "Suc lo"] by simp
    have i1: "i = nat (y ! (cols ! (Suc lo - 1)))" "h = rc c v i (cols ! (Suc lo - 1)) - mu"
      by (simp_all add: i_def h_def mu)
    have "0 \<le> slack c v y ?j (cols ! p)" if "p < hi" for p
      using assms(6) so(3,4) lt column_order_nth [OF so(1)] that unfolding settled_def by simp
    then have part: "\<forall>p<hi. d ! (cols ! p) \<le> mu + slack c v y (cols ! (Suc lo - 1)) (cols ! p)"
      using D(4) by (auto intro: add_increasing2)
    have nr: "nr < Suc lo" using less.prems(4) by simp
    note rd = scan_row_dists [OF r s1 d1 order_refl so(3) zero_less_Suc nr i1 assms(6) part]
    note ro = scan_row_ok [OF r s1 order_refl so(3) zero_less_Suc i1(1)]
    show ?thesis
    proof (cases g)
      case None
      have "scan_dense n c y v lo (hi, d, cols, pred) = scan_dense n c y v (Suc lo) (hi1, d1, cols1, pred1)"
        using r None lt by (subst scan_dense.simps) (simp add: i_def h_def mu Let_def)
      then have e: "scan_dense n c y v (Suc lo) (hi1, d1, cols1, pred1) = Some (f, lo', hi', d', cols', pred')"
        using less.prems(1) by simp
      show ?thesis
        by (rule less.hyps [OF _ e]) (use ro rd None less.prems(4,5) lt(2) in simp_all)
    next
      case (Some j)
      then have "scan_dense n c y v lo (hi, d, cols, pred) = Some (Some j, Suc lo, hi1, d1, cols1, pred1)"
        using r lt by (subst scan_dense.simps) (simp add: i_def h_def mu Let_def)
      then have e: "f = Some j" "hi1 = hi'" "d1 = d'" "cols1 = cols'" "pred1 = pred'" using less.prems(1) by simp_all
      have "dists n c v y start lo (Suc lo) nr hi' d' cols' pred' mu" "d' ! j = mu" "Suc lo \<le> hi'" using rd Some e by simp_all
      moreover have "hi' \<le> n" "column_order n cols'" "length d' = n" "length pred' = n" "hi \<le> hi'" using ro Some e by simp_all
      ultimately have "path_best n c v y start j nr d' cols' pred'" using less.prems(4,5)
        by (intro path_bestI [where m = lo and q = "Suc lo"]) simp_all
      then show ?thesis using e(1) by simp
    qed
  qed
qed

lemma find_dense_least:
  fixes d :: "'f::linordered_idom list"
  assumes "find_dense n lo d cols = (hi, cols')" "length cols = n" "lo < n"
  shows "(\<forall>p<hi. lo \<le> p \<longrightarrow> d ! (cols' ! p) = d ! (cols' ! lo)) \<and> (\<forall>p<n. hi \<le> p \<longrightarrow> d ! (cols' ! lo) \<le> d ! (cols' ! p))"
proof -
  define good where "good = (\<lambda>k (hi, mind :: 'f, cs). lo < hi \<and> hi \<le> k \<and> length cs = n \<and>
    (\<forall>p<hi. lo \<le> p \<longrightarrow> d ! (cs ! p) = mind) \<and> (\<forall>p<k. hi \<le> p \<longrightarrow> mind \<le> d ! (cs ! p)))"
  define f where "f = (\<lambda>k (hi, mind, cols). let j = cols ! k
      in if d ! j \<le> mind then (let (hi, mind) = (if d ! j < mind then (lo, d ! j) else (hi, mind))
           in (Suc hi, mind, cols[k := cols ! hi, hi := j])) else (hi, mind, cols))"
  have g: "good n (fold f [Suc lo..<n] (Suc lo, d ! (cols ! lo), cols))"
  proof (rule fold_upt_inv)
    show "good (Suc lo) (Suc lo, d ! (cols ! lo), cols)" using assms(2) by (auto simp: good_def less_Suc_eq)
    show "Suc lo \<le> n" using assms(3) by simp
  next
    fix k s assume k: "Suc lo \<le> k" "k < n" "good k s"
    obtain h mind cs where s: "s = (h, mind, cs)" using prod_cases3 by blast
    have g: "lo < h" "h \<le> k" "length cs = n" and eq: "\<And>p. p < h \<Longrightarrow> lo \<le> p \<Longrightarrow> d ! (cs ! p) = mind"
      and ge: "\<And>p. p < k \<Longrightarrow> h \<le> p \<Longrightarrow> mind \<le> d ! (cs ! p)"
      using k(3) by (auto simp: good_def s)
    have at: "cs[k := cs ! t, t := cs ! k] ! p = (if p = t then cs ! k else if p = k then cs ! t else cs ! p)"
      if "t \<le> k" for t p using nth_swap [of k cs t p] k(2) g(3) that by simp
    consider (far) "\<not> d ! (cs ! k) \<le> mind" | (same) "d ! (cs ! k) = mind" | (less) "d ! (cs ! k) < mind" by fastforce
    then show "good (Suc k) (f k s)"
    proof cases
      case far
      then show ?thesis using g eq ge by (auto simp: good_def f_def s less_Suc_eq)
    next
      case same
      have e: "f k s = (Suc h, mind, cs[k := cs ! h, h := cs ! k])" using same by (simp add: f_def s Let_def)
      have "d ! (cs[k := cs ! h, h := cs ! k] ! p) = mind" if "p < Suc h" "lo \<le> p" for p
        using at [OF g(2), of p] eq [of p] same that g(2) by (cases "p = h") auto
      moreover have "mind \<le> d ! (cs[k := cs ! h, h := cs ! k] ! p)" if "p < Suc k" "Suc h \<le> p" for p
        using at [OF g(2), of p] ge [of p] ge [of h] that g(2) same by (cases "p = k") auto
      ultimately show ?thesis unfolding e good_def using g by simp
    next
      case less
      have l: "lo \<le> k" using g by simp
      have e: "f k s = (Suc lo, d ! (cs ! k), cs[k := cs ! lo, lo := cs ! k])" using less by (simp add: f_def s Let_def)
      have "d ! (cs[k := cs ! lo, lo := cs ! k] ! p) = d ! (cs ! k)" if "p < Suc lo" "lo \<le> p" for p
        using at [OF l, of p] that by simp
      moreover have "d ! (cs ! k) \<le> d ! (cs[k := cs ! lo, lo := cs ! k] ! p)" if "p < Suc k" "Suc lo \<le> p" for p
      proof (cases "p = k")
        case True
        then show ?thesis using at [OF l, of p] that eq [of lo] g(1) less by simp
      next
        case False
        then have "d ! (cs ! k) \<le> d ! (cs ! p)" using eq [of p] ge [of p] that less by (cases "p < h") auto
        then show ?thesis using at [OF l, of p] that False by simp
      qed
      ultimately show ?thesis unfolding e good_def using g k by simp
    qed
  qed
  obtain mind where m: "fold f [Suc lo..<n] (Suc lo, d ! (cols ! lo), cols) = (hi, mind, cols')"
    using assms(1) unfolding find_dense_def f_def [symmetric] by (auto split: prod.splits)
  have "lo < hi" "\<forall>p<hi. lo \<le> p \<longrightarrow> d ! (cols' ! p) = mind" "\<forall>p<n. hi \<le> p \<longrightarrow> mind \<le> d ! (cols' ! p)"
    using g unfolding m good_def by simp_all
  then show ?thesis by simp
qed

text \<open>A new round: the columns with the least distance become those to scan.\<close>

lemma find_dense_dists:
  fixes d :: "'f::linordered_idom list"
  assumes fd: "find_dense n lo d cols = (hi, cols')" and s: "search_ok n y start lo lo d cols pred" and lo: "lo < n"
    and di: "dists n c v y start lo lo nr lo d cols pred mu"
  shows "dists n c v y start lo lo lo hi d cols' pred (d ! (cols' ! lo))"
proof -
  note D = distsD [OF di]
  have so: "column_order n cols" "length cols = n" using s by (simp_all add: search_ok_def column_order_def)
  have f: "lo < hi" "hi \<le> n" "column_order n cols'" "\<And>p. p < lo \<Longrightarrow> cols' ! p = cols ! p"
    using find_dense_ok [OF fd so(1) lo] by simp_all
  note l = find_dense_least [OF fd so(2) lo]
  obtain p where p: "p < n" "cols ! p = cols' ! lo"
    using column_order_pos [OF so(1) column_order_nth [OF f(3) lo]] by blast
  have "\<not> p < lo" using f(4) [of p] p column_order_eq [OF f(3), of p lo] lo by auto
  then have mu: "mu \<le> d ! (cols' ! lo)" using D(6) [of p] p by simp
  have "d ! (cols' ! p) \<le> d ! (cols' ! lo)" if "p < hi" for p
  proof (cases "p < lo")
    case True
    then show ?thesis using order_trans [OF D(4) [OF True] mu] f(4) [OF True] by simp
  next
    case False
    then show ?thesis using conjunct1 [OF l] that by (metis not_less order_refl)
  qed
  moreover have "linked n lo cols' (\<lambda>k. pred ! k = start \<and> d ! k = rc c v start k)
      (\<lambda>a k. 0 \<le> y ! a \<and> pred ! k = nat (y ! a) \<and> d ! k = d ! a + slack c v y a k)"
    by (rule linked_prefix [OF D(1) so(1) f(3,4)]) (use lo in simp_all)
  moreover have "d ! k \<le> d ! (cols' ! p) + slack c v y (cols' ! p) k" if "p < lo" "k < n" for p k
    using D(3) [OF that] f(4) [OF that(1)] by simp
  ultimately show ?thesis unfolding dists_def using D(2) l by blast
qed

lemma find_loop_best:
  fixes d :: "'f::linordered_idom list"
  assumes "find_loop n c y v lo lo n_ready d cols pred = Some (j, lo', nr, d', cols', pred')"
    "search_ok n y start lo lo d cols pred" "\<exists>j<n. y ! j < 0" "dists n c v y start lo lo nr0 lo d cols pred mu" "settled n c v y"
  shows "lo' = nr \<and> path_best n c v y start j nr d' cols' pred'"
  using assms(1,2,4)
proof (induction "n - lo" arbitrary: lo n_ready d cols pred nr0 mu rule: less_induct)
  case less
  have so: "column_order n cols" "lo \<le> n" "\<forall>p<lo. 0 \<le> y ! (cols ! p)" "length d = n" "length pred = n"
    using less.prems(2) by (simp_all add: search_ok_def)
  obtain jf kf where f: "jf < n" "y ! jf < 0" "kf < n" "cols ! kf = jf"
    using assms(3) column_order_pos [OF so(1)] by blast
  then have "\<not> kf < lo" using so(3) by auto
  then have lo: "lo < n" using f(3) by simp
  obtain h cs where fd: "find_dense n lo d cols = (h, cs)" by fastforce
  have g: "lo < h" "h \<le> n" "column_order n cs" "\<forall>k<lo. 0 \<le> y ! (cs ! k)" "chained n y start lo cs pred"
    using find_dense_search [OF fd less.prems(2) lo] by simp_all
  note di = find_dense_dists [OF fd less.prems(2) lo less.prems(3)]
  define fin where "fin = last_free y cs [lo..<h]"
  note lf = last_free_cases [where y = y and cols = cs and ks = "[lo..<h]", folded fin_def]
  show ?case
  proof (cases fin)
    case (Some j1)
    then have "find_loop n c y v lo lo n_ready d cols pred = Some (j1, lo, lo, d, cs, pred)"
      using lo fd by (subst find_loop.simps) (simp add: Let_def fin_def [symmetric])
    then have e: "j = j1" "lo' = lo" "nr = lo" "d' = d" "cols' = cs" "pred' = pred" using less.prems(1) by simp_all
    obtain p where "lo \<le> p" "p < h" "j1 = cs ! p" using lf Some by auto
    then have "d ! j1 = d ! (cs ! lo)" using distsD(5) [OF di, of p] by blast
    with g so have "path_best n c v y start j1 lo d cs pred" by (intro path_bestI [OF di]) simp_all
    then show ?thesis using e by simp
  next
    case None
    then have "\<forall>k<h. 0 \<le> y ! (cs ! k)" using lf g(4) by (auto simp: not_less)
    then have so': "search_ok n y start lo h d cs pred" using g so by (simp add: search_ok_def)
    obtain f' lo1 hi1 d1 cols1 pred1 where
      sd: "scan_dense n c y v lo (h, d, cs, pred) = Some (f', lo1, hi1, d1, cols1, pred1)" and
      sp: "case f' of None \<Rightarrow> lo1 = hi1 \<and> h \<le> hi1 \<and> search_ok n y start lo1 hi1 d1 cols1 pred1
        | Some j \<Rightarrow> path_found n y start j cols1 pred1 \<and> length d1 = n"
      using scan_dense_ok [OF so'] by blast
    note sb = scan_dense_dists [OF sd so' di order_refl g(1) assms(5)]
    have e: "find_loop n c y v lo lo n_ready d cols pred = (case f' of
        Some j \<Rightarrow> Some (j, lo, lo, d1, cols1, pred1) | None \<Rightarrow> find_loop n c y v lo1 hi1 lo d1 cols1 pred1)"
      using lo fd None sd by (subst find_loop.simps) (simp add: Let_def fin_def [symmetric])
    show ?thesis
    proof (cases f')
      case None
      then have l: "hi1 = lo1" "n - lo1 < n - lo" "search_ok n y start lo1 lo1 d1 cols1 pred1"
        "dists n c v y start lo1 lo1 lo lo1 d1 cols1 pred1 (d ! (cs ! lo))" using sp sb g(1) lo by auto
      have "find_loop n c y v lo1 lo1 lo d1 cols1 pred1 = Some (j, lo', nr, d', cols', pred')"
        using less.prems(1) e None l(1) by simp
      from less.hyps [OF l(2) this l(3,4)] show ?thesis .
    next
      case (Some j1)
      then have "j1 = j" "lo' = lo" "nr = lo" "d' = d1" "cols' = cols1" "pred' = pred1" using less.prems(1) e by simp_all
      then show ?thesis using sb Some by simp
    qed
  qed
qed

section \<open>The new prices\<close>

lemma lowered_prices:
  assumes "column_order n cols" "length v = n" "nr \<le> n"
  shows "length (fold (\<lambda>k v. v[cols ! k := v ! (cols ! k) + (d ! (cols ! k) - mu)]) [0..<nr] v) = n \<and>
    (\<forall>p<n. fold (\<lambda>k v. v[cols ! k := v ! (cols ! k) + (d ! (cols ! k) - mu)]) [0..<nr] v ! (cols ! p) =
      (if p < nr then v ! (cols ! p) + (d ! (cols ! p) - mu) else v ! (cols ! p)))"
  using assms(3)
proof (induction nr)
  case (Suc r)
  then show ?case using assms(1,2) column_order_nth [OF assms(1)] column_order_eq [OF assms(1)]
    by (auto simp: nth_list_update less_Suc_eq)
qed (use assms in simp)

text \<open>With the new prices every row of the augmented matching has its column at its least reduced cost.\<close>

lemma augmented_tight:
  fixes v :: "'f::linordered_idom list"
  assumes t: "tight n c free x v" and m: "matching n free x y" and st: "start \<in> free" and
    di: "dists n c v y start mm q nr hi d cols pred mu" and b: "nr \<le> mm" "q \<le> hi" "nr < hi" "hi \<le> n" and
    co: "column_order n cols" and kf: "kf < n" "d ! (cols ! kf) = mu" and
    lv: "length v' = n" and
    v': "\<And>p. p < n \<Longrightarrow> v' ! (cols ! p) = (if p < nr then v ! (cols ! p) + (d ! (cols ! p) - mu) else v ! (cols ! p))" and
    x': "\<forall>i<n. x' ! i = x ! i \<or> path_row n cols pred q kf x' i" "path_row n cols pred q kf x' start"
  shows "tight n c (free - {start}) x' v'"
proof -
  note D = distsD [OF di]
  have se: "settled n c v y" by (rule tight_settled [OF t m])
  have high: "mu \<le> d ! (cols ! p)" if "p < n" "nr \<le> p" for p
    using D(5) [of p] D(6) [of p] that by (cases "p < hi") auto
  have low: "d ! (cols ! p) \<le> mu" if "p < nr" for p using D(4) [of p] that b(3) by simp
  have up: "rc c v r k \<le> rc c v' r k" if k: "k < n" for r k
  proof -
    obtain p where p: "p < n" "cols ! p = k" using column_order_pos [OF co k] by blast
    show ?thesis using v' [OF p(1)] low [of p] unfolding p(2) by simp
  qed
  text \<open>A bound that the distances give.\<close>
  have reach: "w + mu \<le> rc c v' r k" if k: "k < n" and w: "d ! k + w \<le> rc c v r k" for r k w
  proof -
    obtain p where p: "p < n" "cols ! p = k" using column_order_pos [OF co k] by blast
    show ?thesis
    proof (cases "p < nr")
      case True
      then show ?thesis using v' [OF p(1)] w unfolding p(2) by simp
    next
      case False
      then show ?thesis using v' [OF p(1)] w high [OF p(1)] unfolding p(2) by simp
    qed
  qed
  text \<open>A row that holds the column \<open>a\<close> in the old matching, at the price it is to have.\<close>
  have holds: "rc c v r a + (if pa < nr then mu - d ! a else 0) \<le> rc c v' r k"
    if a: "pa < n" "a = cols ! pa" "0 \<le> y ! a" "r = nat (y ! a)" and k: "k < n" for r a pa k
  proof (cases "pa < nr")
    case True
    have "d ! k \<le> d ! a + slack c v y a k" using D(3) [of pa k] True b(1) k a(2) by simp
    then have "d ! k + (rc c v r a - d ! a) \<le> rc c v r k" using a(4) by (simp add: slack_def)
    from reach [OF k this] show ?thesis using True by simp
  next
    case False
    have "0 \<le> slack c v y a k" using se a(1-3) column_order_nth [OF co a(1)] k unfolding settled_def by simp
    then show ?thesis using up [OF k, of r] a(4) False by (simp add: slack_def)
  qed
  show ?thesis unfolding tight_def
  proof (intro conjI allI impI)
    show "length v' = n" by (rule lv)
    fix i k assume i: "i < n" "i \<notin> free - {start}" and k: "k < n"
    show "rc c v' i (nat (x' ! i)) \<le> rc c v' i k"
    proof (cases "path_row n cols pred q kf x' i")
      case False
      then have s: "x' ! i = x ! i" "i \<notin> free" using x' i by auto
      note r = matching_row [OF m i(1) s(2)]
      obtain p where p: "p < n" "cols ! p = nat (x ! i)" using column_order_pos [OF co] r by blast
      have "rc c v' i (nat (x ! i)) = rc c v i (nat (x ! i)) + (if p < nr then mu - d ! nat (x ! i) else 0)"
        using v' [OF p(1)] unfolding p(2) by simp
      then show ?thesis using holds [OF p(1) p(2) [symmetric] _ _ k, of i] r s(1) by simp
    next
      case True
      then obtain p where p: "p < n" "p < q \<or> p = kf" "x' ! i = int (cols ! p)" "i = pred ! (cols ! p)"
        by (auto simp: path_row_def)
      let ?b = "cols ! p"
      have mu: "\<not> p < nr \<Longrightarrow> d ! ?b = mu" using p(2) kf(2) D(5) [of p] b(2) by auto
      have e: "rc c v' i (nat (x' ! i)) = rc c v i ?b - d ! ?b + mu" using v' [OF p(1)] mu p(3) by auto
      have "(pred ! ?b = start \<and> d ! ?b = rc c v start ?b) \<or> (\<exists>m<p. m < q \<and> 0 \<le> y ! (cols ! m) \<and>
          pred ! ?b = nat (y ! (cols ! m)) \<and> d ! ?b = d ! (cols ! m) + slack c v y (cols ! m) ?b)"
        using D(1) p(1) unfolding linked_def by blast
      then consider "i = start" "d ! ?b = rc c v start ?b"
        | m where "m < p" "m < q" "0 \<le> y ! (cols ! m)" "i = nat (y ! (cols ! m))"
            "d ! ?b = d ! (cols ! m) + slack c v y (cols ! m) ?b"
        unfolding p(4) [symmetric] by blast
      then show ?thesis
      proof cases
        case 1
        then show ?thesis using e reach [OF k, of 0 start] D(2) [OF k] by simp
      next
        case 2
        have "m < n" using 2(1) p(1) by simp
        note h = holds [OF this refl 2(3,4) k]
        have "\<not> m < nr \<Longrightarrow> d ! (cols ! m) = mu" using D(5) [of m] 2(2) b(2) by simp
        then have "rc c v' i (nat (x' ! i)) = rc c v i (cols ! m) + (if m < nr then mu - d ! (cols ! m) else 0)"
          using e 2(4,5) by (simp add: slack_def)
        then show ?thesis using h by simp
      qed
    qed
  qed
qed

lemma ca_dense_opt:
  fixes v :: "'f::linordered_idom list"
  assumes "ca_dense n c free x y v = Some (x', y', v')" "distinct free" "matching n (set free) x y" "tight n c (set free) x v"
  shows "tight n c {} x' v'"
  using assms
proof (induction free arbitrary: x y v)
  case (Cons start rest)
  let ?free = "set (start # rest)"
  have st: "start \<in> ?free" by simp
  let ?d = "map (\<lambda>i. c start i - v ! i) [0..<n]" and ?pred = "replicate n start"
  obtain j v1 pred lo nr d cols where p: "find_path_dense n c start y v = Some (j, v1, pred)"
    "find_loop n c y v 0 0 0 ?d [0..<n] ?pred = Some (j, lo, nr, d, cols, pred)" "path_found n y start j cols pred"
    using find_path_ok [OF Cons.prems(3) st, of c v] by blast
  have f: "\<exists>j<n. y ! j < 0" using free_column [OF Cons.prems(3)] by auto
  have so: "search_ok n y start 0 0 ?d [0..<n] ?pred"
    by (auto simp: search_ok_def chained_def column_order_def)
  have "Min (set ?d) \<le> ?d ! p" if "p < n" for p using that by (intro Min_le) auto
  then have di0: "dists n c v y start 0 0 0 0 ?d [0..<n] ?pred (Min (set ?d))"
    unfolding dists_def linked_def by auto
  have fb: "lo = nr" "path_best n c v y start j nr d cols pred"
    using find_loop_best [OF p(2) so f di0 tight_settled [OF Cons.prems(4,3)]] by simp_all
  then obtain mu mm q hi where b: "dists n c v y start mm q nr hi d cols pred mu" "nr \<le> mm" "q \<le> hi" "nr < hi" "hi \<le> n"
    "d ! j = mu" and co: "column_order n cols" "length pred = n" unfolding path_best_def by blast
  have "j < n" "y ! j < 0" using p(3) by (simp_all add: path_found_def)
  then obtain kf where kf: "kf < n" "cols ! kf = j" using column_order_pos [OF co(1)] by blast
  have h: "hole n ?free (cols ! kf) x y" unfolding kf(2) by (rule hole_start [OF Cons.prems(3)]) fact+
  have "linked n q cols (\<lambda>c. pred ! c = start) (\<lambda>a c. 0 \<le> y ! a \<and> pred ! c = nat (y ! a))"
    using distsD(1) [OF b(1)] unfolding linked_def by meson
  then have ch: "chained n y start q cols pred" by (simp add: chained_linked)
  have "\<exists>x' y'. augment start pred (cols ! kf) x y = Some (x', y') \<and> matching n (?free - {start}) x' y' \<and>
      (\<forall>i<n. x' ! i = x ! i \<or> path_row n cols pred q kf x' i) \<and> path_row n cols pred q kf x' start"
    by (rule augment_ok [OF h st co kf(1) ch]) simp_all
  then obtain x1 y1 where a: "augment start pred j x y = Some (x1, y1)" "matching n (?free - {start}) x1 y1"
    "\<forall>i<n. x1 ! i = x ! i \<or> path_row n cols pred q kf x1 i" "path_row n cols pred q kf x1 start"
    unfolding kf(2) by blast
  have mu: "d ! (cols ! lo) = mu" using distsD(5) [OF b(1), of lo] b(4) fb(1) by simp
  have v1: "v1 = fold (\<lambda>k v. v[cols ! k := v ! (cols ! k) + (d ! (cols ! k) - mu)]) [0..<nr] v"
    using p(1,2) mu by (simp add: find_path_dense_def Let_def)
  have "length v = n" using Cons.prems(4) by (simp add: tight_def)
  moreover have "nr \<le> n" using b(4,5) by simp
  ultimately have lp: "length v1 = n" "\<And>p. p < n \<Longrightarrow>
      v1 ! (cols ! p) = (if p < nr then v ! (cols ! p) + (d ! (cols ! p) - mu) else v ! (cols ! p))"
    using lowered_prices [OF co(1), where d = d and mu = mu] unfolding v1 by blast+
  have "tight n c (?free - {start}) x1 v1"
    by (rule augmented_tight [OF Cons.prems(4,3) st b(1-5) co(1) kf(1) _ lp a(3,4)]) (simp_all add: b(6) kf(2))
  moreover have "?free - {start} = set rest" using Cons.prems(2) by auto
  moreover have "ca_dense n c rest x1 y1 v1 = Some (x', y', v')" using Cons.prems(1) p(1) a(1) by simp
  ultimately show ?case using Cons.IH [of x1 y1 v1] a(2) Cons.prems(2) by simp
qed simp

section \<open>The solver\<close>

lemma carr_dense_opt:
  fixes v :: "'f::linordered_idom list"
  assumes "carr_dense n c m (free, x, y, v) = (m', free', x', y', v')" "m \<le> length free" "distinct (take m free)"
    "matching n (set (take m free)) x y" "tight n c (set (take m free)) x v" "priced n C (set (take m free)) y v"
    "costs_upto n c C"
  shows "tight n c (set (take m' free')) x' v' \<and> priced n C (set (take m' free')) y' v'"
proof -
  define s where "s = \<lparr>current = 0, new_free = 0, rr_cnt = 0, free_rows = free, rowsol = x, colsol = y, prices = v\<rparr>"
  have ok: "carr_ok n m s" using assms by (simp add: carr_ok_def counters_ok_def pending_def s_def)
  have "carr_opt n c C m s" using ok assms by (simp add: carr_opt_def pending_def s_def)
  then have k: "carr_opt n c C m (carr_loop n c m s)" by (rule carr_loop_opt [OF _ assms(7)])
  have "counters_ok m (carr_loop n c m s)" "current (carr_loop n c m s) = m"
    using carr_loop_ok [OF ok, of c] by (simp_all add: carr_ok_def)
  then have "pending m (carr_loop n c m s) = take (new_free (carr_loop n c m s)) (free_rows (carr_loop n c m s))"
    by (simp add: pending_def counters_ok_def)
  moreover have "m' = new_free (carr_loop n c m s)" "free' = free_rows (carr_loop n c m s)"
    "x' = rowsol (carr_loop n c m s)" "y' = colsol (carr_loop n c m s)" "v' = prices (carr_loop n c m s)"
    using assms(1) by (simp_all add: carr_dense_def s_def Let_def)
  ultimately show ?thesis using k by (simp add: carr_opt_def)
qed

lemma lapjv_internal_least:
  fixes c :: "nat \<Rightarrow> nat \<Rightarrow> 'f::linordered_idom"
  assumes "0 < n" "costs_upto n c C" "lapjv_internal n c = Some (x', y')"
  shows "\<exists>v. tight n c {} x' v"
proof -
  obtain free x y v where a: "ccrrt_dense n c = (free, x, y, v)" using prod_cases4 by blast
  define good where "good = (\<lambda>(m, fr, x, y, v :: 'f list). m \<le> length fr \<and> distinct (take m fr) \<and>
    matching n (set (take m fr)) x y \<and> tight n c (set (take m fr)) x v \<and> priced n C (set (take m fr)) y v)"
  have g0: "good (length free, free, x, y, v)"
    using ccrrt_dense_ok [OF a assms(1)] ccrrt_dense_tight [OF a assms(1,2)] by (simp add: good_def)
  have step: "good (if fst r > 0 then carr_dense n c (fst r) (snd r) else r)" if g: "good r" for r
  proof -
    obtain m fr x y v where r: "r = (m, fr, x, y, v)" using prod_cases5 by blast
    obtain m' fr' x' y' v' where r': "carr_dense n c m (fr, x, y, v) = (m', fr', x', y', v')" using prod_cases5 by blast
    have "good (carr_dense n c (fst r) (snd r))"
      using carr_dense_ok [OF r'] carr_dense_opt [OF r' _ _ _ _ _ assms(2)] g by (simp add: good_def r r')
    then show ?thesis using g by simp
  qed
  obtain m fr x1 y1 v1 where t: "carr_twice n c (length free, free, x, y, v) = (m, fr, x1, y1, v1)"
    using prod_cases5 by blast
  have g: "good (m, fr, x1, y1, v1)" unfolding t [symmetric] carr_twice_def Let_def by (intro step g0)
  show ?thesis
  proof (cases "m > 0")
    case True
    obtain v' where "ca_dense n c (take m fr) x1 y1 v1 = Some (x', y', v')"
      using assms(3) a t True by (auto simp: lapjv_internal_def)
    then show ?thesis using ca_dense_opt g by (fastforce simp: good_def)
  next
    case False
    then show ?thesis using assms(3) g a t by (auto simp: lapjv_internal_def good_def)
  qed
qed

text \<open>C3. In exact arithmetic, with costs from 0 up to less than half of \<open>LARGE\<close>, the matching is one of least cost
  among all assignments of the rows to the columns.\<close>

theorem lapjv_optimal:
  assumes "0 < n" "costs_upto n c C" "lapjv_internal n c = Some (x, y)" "bij_betw p {..<n} {..<n}"
  shows "(\<Sum>i<n. c i (nat (x ! i))) \<le> (\<Sum>i<n. c i (p i))"
proof -
  obtain v where "tight n c {} x v" using lapjv_internal_least [OF assms(1-3)] by blast
  moreover have "perfect n x y" using lapjv_internal_ok [OF assms(1), of c] assms(3) by auto
  ultimately show ?thesis by (rule tight_least [OF _ _ assms(4)])
qed

definition demo_cost :: "nat \<Rightarrow> nat \<Rightarrow> rat" where
  "demo_cost i j = [[1, 2, 3, 4], [1, 2, 3, 5], [1, 2, 4, 9], [1, 3, 7, 1]] ! i ! j"

lemma demo_cost_solved: "lapjv_internal 4 demo_cost = Some ([2, 0, 1, 3], [1, 2, 0, 3])"
  by code_simp

theorem lapjv_optimal_witness:
  "(\<Sum>i<4. demo_cost i (nat ([2, 0, 1, 3] ! i))) \<le> (\<Sum>i<4. demo_cost i i)"
proof -
  have "costs_upto 4 demo_cost 9"
    unfolding costs_upto_def large_eq by (simp add: demo_cost_def numeral_eq_Suc less_Suc_eq all_conj_distrib)
  from lapjv_optimal [OF _ this demo_cost_solved bij_betw_id] show ?thesis by simp
qed

end
