(* ===== verification/Lapjv_Checked.thy ===== *)
theory Lapjv_Checked
  imports Lapjv_Opt "HOL-Library.Monad_Syntax"
begin

text \<open>
  The solver of \<open>tracker/bytetrack/lapjv.cpp\<close> once more, statement by statement, over arrays: every read and every write
  checks its index and is \<open>None\<close> outside of the array, and the arrays start with whatever the allocator left in
  them. The theorem is that no access fails, that all the loops end, and that the result is the one of the
  definitions in \<open>Lapjv\<close>, which the other theorems are about.
\<close>

section \<open>Arrays\<close>

definition rd :: "'a list \<Rightarrow> nat \<Rightarrow> 'a option" where
  "rd xs k = (if k < length xs then Some (xs ! k) else None)"

definition wr :: "'a list \<Rightarrow> nat \<Rightarrow> 'a \<Rightarrow> 'a list option" where
  "wr xs k a = (if k < length xs then Some (xs[k := a]) else None)"

text \<open>The same for an index that may be negative.\<close>

definition rdi :: "'a list \<Rightarrow> int \<Rightarrow> 'a option" where
  "rdi xs k = (if 0 \<le> k then rd xs (nat k) else None)"

definition wri :: "'a list \<Rightarrow> int \<Rightarrow> 'a \<Rightarrow> 'a list option" where
  "wri xs k a = (if 0 \<le> k then wr xs (nat k) a else None)"

definition cell :: "'a list list \<Rightarrow> nat \<Rightarrow> nat \<Rightarrow> 'a option" where
  "cell cost i j = do { row \<leftarrow> rd cost i; rd row j }"

primrec foldo :: "('a \<Rightarrow> 's \<Rightarrow> 's option) \<Rightarrow> 'a list \<Rightarrow> 's \<Rightarrow> 's option" where
  "foldo f [] s = Some s"
| "foldo f (k # ks) s = do { s \<leftarrow> f k s; foldo f ks s }"

lemma rd_ok [simp]: "k < length xs \<Longrightarrow> rd xs k = Some (xs ! k)"
  by (simp add: rd_def)

lemma wr_ok [simp]: "k < length xs \<Longrightarrow> wr xs k a = Some (xs[k := a])"
  by (simp add: wr_def)

lemma rdi_ok [simp]: "0 \<le> k \<Longrightarrow> nat k < length xs \<Longrightarrow> rdi xs k = Some (xs ! nat k)"
  by (simp add: rdi_def)

lemma wri_ok [simp]: "0 \<le> k \<Longrightarrow> nat k < length xs \<Longrightarrow> wri xs k a = Some (xs[nat k := a])"
  by (simp add: wri_def)

lemma foldo_append: "foldo f (as @ bs) s = do { s \<leftarrow> foldo f as s; foldo f bs s }"
  by (induction as arbitrary: s) (simp_all add: Option.bind_assoc)

text \<open>A loop whose state before each round is known.\<close>

lemma foldo_states:
  assumes "a \<le> b" "\<And>k. a \<le> k \<Longrightarrow> k < b \<Longrightarrow> f k (st k) = Some (st (Suc k))"
  shows "foldo f [a..<b] (st a) = Some (st b)"
  using assms
proof (induction b rule: dec_induct)
  case (step m)
  then show ?case by (simp add: upt_Suc_append foldo_append)
qed simp

text \<open>A loop that agrees with an unchecked one as long as an invariant holds.\<close>

lemma foldo_fold:
  assumes "P a s" "a \<le> b" "\<And>k s. a \<le> k \<Longrightarrow> k < b \<Longrightarrow> P k s \<Longrightarrow> f k s = Some (g k s) \<and> P (Suc k) (g k s)"
  shows "foldo f [a..<b] s = Some (fold g [a..<b] s) \<and> P b (fold g [a..<b] s)"
  using assms(2,1,3)
proof (induction b rule: dec_induct)
  case (step m)
  then show ?case by (simp add: upt_Suc_append foldo_append)
qed simp

text \<open>The array while a loop fills it.\<close>

lemma fill_step:
  "k < length xs \<Longrightarrow> (map f [0..<k] @ drop k xs)[k := f k] = map f [0..<Suc k] @ drop (Suc k) xs"
  by (simp add: list_update_append Cons_nth_drop_Suc [symmetric])

definition matrix :: "nat \<Rightarrow> 'a list list \<Rightarrow> bool" where
  "matrix n cost = (length cost = n \<and> (\<forall>i<n. length (cost ! i) = n))"

abbreviation entry :: "'a list list \<Rightarrow> nat \<Rightarrow> nat \<Rightarrow> 'a" where
  "entry cost i j \<equiv> cost ! i ! j"

lemma cell_ok [simp]: "matrix n cost \<Longrightarrow> i < n \<Longrightarrow> j < n \<Longrightarrow> cell cost i j = Some (cost ! i ! j)"
  by (simp add: cell_def matrix_def)

section \<open>Column reduction\<close>

definition clear_step :: "nat \<Rightarrow> int list \<times> int list \<times> 'f::{one,plus,times} list \<Rightarrow> (int list \<times> int list \<times> 'f list) option" where
  "clear_step i = (\<lambda>(x, y, v). do {
     x \<leftarrow> wr x i (- 1);
     v \<leftarrow> wr v i large;
     y \<leftarrow> wr y i 0;
     Some (x, y, v) })"

definition lower_step :: "'f::ord list list \<Rightarrow> nat \<Rightarrow> nat \<Rightarrow> int list \<times> 'f list \<Rightarrow> (int list \<times> 'f list) option" where
  "lower_step cost i j = (\<lambda>(y, v). do {
     c \<leftarrow> cell cost i j;
     vj \<leftarrow> rd v j;
     if c < vj then do { v \<leftarrow> wr v j c; y \<leftarrow> wr y j (int i); Some (y, v) } else Some (y, v) })"

definition claim_step :: "nat \<Rightarrow> int list \<times> int list \<times> bool list \<Rightarrow> (int list \<times> int list \<times> bool list) option" where
  "claim_step j = (\<lambda>(x, y, unique). do {
     i \<leftarrow> rd y j;
     xi \<leftarrow> rdi x i;
     if xi < 0 then do { x \<leftarrow> wri x i (int j); Some (x, y, unique) }
     else do { unique \<leftarrow> wri unique i False; y \<leftarrow> wr y j (- 1); Some (x, y, unique) } })"

text \<open>The loop tests after the round, so that with no column at all it would read \<open>y[-1]\<close>.\<close>

fun claim_loop :: "nat \<Rightarrow> int list \<times> int list \<times> bool list \<Rightarrow> (int list \<times> int list \<times> bool list) option" where
  "claim_loop 0 s = None"
| "claim_loop (Suc j) s = do { s \<leftarrow> claim_step j s; if 0 < j then claim_loop j s else Some s }"

definition min_step ::
    "'f::{minus,ord} list list \<Rightarrow> 'f list \<Rightarrow> nat \<Rightarrow> int \<Rightarrow> nat \<Rightarrow> 'f \<Rightarrow> 'f option" where
  "min_step cost v i j j2 m =
     (if int j2 = j then Some m
      else do {
        cij \<leftarrow> cell cost i j2;
        vj \<leftarrow> rd v j2;
        let c = cij - vj;
        Some (if c < m then c else m) })"

definition transfer_step ::
    "nat \<Rightarrow> 'f::{one,plus,minus,times,ord} list list \<Rightarrow> int list \<Rightarrow> bool list \<Rightarrow> nat \<Rightarrow>
     nat \<times> nat list \<times> 'f list \<Rightarrow> (nat \<times> nat list \<times> 'f list) option" where
  "transfer_step n cost x unique i = (\<lambda>(n_free, free, v). do {
     j \<leftarrow> rd x i;
     if j < 0 then do { free \<leftarrow> wr free n_free i; Some (n_free + 1, free, v) }
     else do {
       u \<leftarrow> rd unique i;
       if u then do {
         m \<leftarrow> foldo (min_step cost v i j) [0..<n] large;
         vj \<leftarrow> rdi v j;
         v \<leftarrow> wri v j (vj - m);
         Some (n_free, free, v) }
       else Some (n_free, free, v) } })"

definition ccrrt_checked ::
    "nat \<Rightarrow> 'f::{one,plus,minus,times,ord} list list \<Rightarrow> nat list \<times> int list \<times> int list \<times> 'f list \<Rightarrow>
     (nat \<times> nat list \<times> int list \<times> int list \<times> 'f list) option" where
  "ccrrt_checked n cost = (\<lambda>(free, x, y, v). do {
     (x, y, v) \<leftarrow> foldo clear_step [0..<n] (x, y, v);
     (y, v) \<leftarrow> foldo (\<lambda>i. foldo (lower_step cost i) [0..<n]) [0..<n] (y, v);
     (x, y, unique) \<leftarrow> claim_loop n (x, y, replicate n True);
     (n_free, free, v) \<leftarrow> foldo (transfer_step n cost x unique) [0..<n] (0, free, v);
     Some (n_free, free, x, y, v) })"

section \<open>Augmenting row reduction\<close>

definition two_step ::
    "'f::{minus,ord} list list \<Rightarrow> 'f list \<Rightarrow> nat \<Rightarrow> nat \<Rightarrow> nat \<times> 'f \<times> int \<times> 'f \<Rightarrow> (nat \<times> 'f \<times> int \<times> 'f) option" where
  "two_step cost v i j = (\<lambda>(j1, v1, j2, v2). do {
     cij \<leftarrow> cell cost i j;
     vj \<leftarrow> rd v j;
     let c = cij - vj;
     Some (if c < v2 then (if v1 \<le> c then (j1, v1, int j, c) else (j, c, int j1, v1)) else (j1, v1, j2, v2)) })"

definition two_minima_checked ::
    "nat \<Rightarrow> 'f::{one,plus,minus,times,ord} list list \<Rightarrow> 'f list \<Rightarrow> nat \<Rightarrow> (nat \<times> 'f \<times> int \<times> 'f) option" where
  "two_minima_checked n cost v i = do {
     c \<leftarrow> cell cost i 0;
     v0 \<leftarrow> rd v 0;
     foldo (two_step cost v i) [1..<n] (0, c - v0, - 1, large) }"

definition put_back_checked :: "int \<Rightarrow> 'f reduction \<Rightarrow> 'f reduction option" where
  "put_back_checked i0 s =
     (if current s = 0 then None
      else do { free \<leftarrow> wr (free_rows s) (current s - 1) (nat i0);
                Some (s\<lparr>current := current s - 1, free_rows := free\<rparr>) })"

definition keep_free_checked :: "int \<Rightarrow> 'f reduction \<Rightarrow> 'f reduction option" where
  "keep_free_checked i0 s = do {
     free \<leftarrow> wr (free_rows s) (new_free s) (nat i0);
     Some (s\<lparr>free_rows := free, new_free := new_free s + 1\<rparr>) }"

definition assign_checked :: "nat \<Rightarrow> nat \<Rightarrow> 'f reduction \<Rightarrow> 'f reduction option" where
  "assign_checked i j s = do {
     x \<leftarrow> wr (rowsol s) i (int j);
     y \<leftarrow> wr (colsol s) j (int i);
     Some (s\<lparr>rowsol := x, colsol := y\<rparr>) }"

definition carr_step_checked ::
    "nat \<Rightarrow> 'f::{one,plus,minus,times,ord} list list \<Rightarrow> 'f reduction \<Rightarrow> 'f reduction option" where
  "carr_step_checked n cost s = do {
     free_i \<leftarrow> rd (free_rows s) (current s);
     let s = s\<lparr>rr_cnt := rr_cnt s + 1, current := current s + 1\<rparr>;
     (j1, v1, j2, v2) \<leftarrow> two_minima_checked n cost (prices s) free_i;
     i0 \<leftarrow> rd (colsol s) j1;
     p1 \<leftarrow> rd (prices s) j1;
     let v1_new = p1 - (v2 - v1);
     let v1_lowers = (v1_new < p1);
     if rr_cnt s < current s * n then do {
       (j1, i0, s) \<leftarrow>
         (if v1_lowers then do { v \<leftarrow> wr (prices s) j1 v1_new; Some (j1, i0, s\<lparr>prices := v\<rparr>) }
          else if 0 \<le> i0 \<and> 0 \<le> j2 then do { i0 \<leftarrow> rdi (colsol s) j2; Some (nat j2, i0, s) }
          else Some (j1, i0, s));
       s \<leftarrow> (if 0 \<le> i0 then (if v1_lowers then put_back_checked i0 s else keep_free_checked i0 s) else Some s);
       assign_checked free_i j1 s }
     else do {
       s \<leftarrow> (if 0 \<le> i0 then keep_free_checked i0 s else Some s);
       assign_checked free_i j1 s } }"

partial_function (option) carr_loop_checked ::
    "nat \<Rightarrow> 'f::{one,plus,minus,times,ord} list list \<Rightarrow> nat \<Rightarrow> 'f reduction \<Rightarrow> 'f reduction option" where
  "carr_loop_checked n cost n_free s =
     (if current s < n_free then do { s \<leftarrow> carr_step_checked n cost s; carr_loop_checked n cost n_free s } else Some s)"

definition carr_checked ::
    "nat \<Rightarrow> 'f::{one,plus,minus,times,ord} list list \<Rightarrow> nat \<times> nat list \<times> int list \<times> int list \<times> 'f list \<Rightarrow>
     (nat \<times> nat list \<times> int list \<times> int list \<times> 'f list) option" where
  "carr_checked n cost = (\<lambda>(n_free, free, x, y, v). do {
     s \<leftarrow> carr_loop_checked n cost n_free
       \<lparr>current = 0, new_free = 0, rr_cnt = 0, free_rows = free, rowsol = x, colsol = y, prices = v\<rparr>;
     Some (new_free s, free_rows s, rowsol s, colsol s, prices s) })"

section \<open>Shortest augmenting paths\<close>

definition find_step ::
    "nat \<Rightarrow> 'f::ord list \<Rightarrow> nat \<Rightarrow> nat \<times> 'f \<times> nat list \<Rightarrow> (nat \<times> 'f \<times> nat list) option" where
  "find_step lo d k = (\<lambda>(hi, mind, cols). do {
     j \<leftarrow> rd cols k;
     dj \<leftarrow> rd d j;
     if dj \<le> mind then do {
       let (hi, mind) = (if dj < mind then (lo, dj) else (hi, mind));
       c \<leftarrow> rd cols hi;
       cols \<leftarrow> wr cols k c;
       cols \<leftarrow> wr cols hi j;
       Some (hi + 1, mind, cols) }
     else Some (hi, mind, cols) })"

definition find_checked :: "nat \<Rightarrow> nat \<Rightarrow> 'f::ord list \<Rightarrow> nat list \<Rightarrow> (nat \<times> nat list) option" where
  "find_checked n lo d cols = do {
     j \<leftarrow> rd cols lo;
     mind \<leftarrow> rd d j;
     (hi, mind, cols) \<leftarrow> foldo (find_step lo d) [lo + 1..<n] (lo + 1, mind, cols);
     Some (hi, cols) }"

fun scan_row_checked ::
    "'f::{minus,ord} list list \<Rightarrow> int list \<Rightarrow> 'f list \<Rightarrow> nat \<Rightarrow> 'f \<Rightarrow> 'f \<Rightarrow> nat list \<Rightarrow>
     nat \<times> 'f list \<times> nat list \<times> nat list \<Rightarrow> (nat option \<times> nat \<times> 'f list \<times> nat list \<times> nat list) option" where
  "scan_row_checked cost y v i h mind [] s = Some (None, s)"
| "scan_row_checked cost y v i h mind (k # ks) (hi, d, cols, pred) = do {
     j \<leftarrow> rd cols k;
     cij \<leftarrow> cell cost i j;
     vj \<leftarrow> rd v j;
     dj \<leftarrow> rd d j;
     let cred = cij - vj - h;
     if cred < dj then do {
       d \<leftarrow> wr d j cred;
       pred \<leftarrow> wr pred j i;
       if cred = mind then do {
         yj \<leftarrow> rd y j;
         if yj < 0 then Some (Some j, hi, d, cols, pred)
         else do {
           c \<leftarrow> rd cols hi;
           cols \<leftarrow> wr cols k c;
           cols \<leftarrow> wr cols hi j;
           scan_row_checked cost y v i h mind ks (hi + 1, d, cols, pred) } }
       else scan_row_checked cost y v i h mind ks (hi, d, cols, pred) }
     else scan_row_checked cost y v i h mind ks (hi, d, cols, pred) }"

partial_function (option) scan_checked ::
    "nat \<Rightarrow> 'f::{minus,ord} list list \<Rightarrow> int list \<Rightarrow> 'f list \<Rightarrow> nat \<Rightarrow>
     nat \<times> 'f list \<times> nat list \<times> nat list \<Rightarrow> (nat option \<times> nat \<times> nat \<times> 'f list \<times> nat list \<times> nat list) option" where
  "scan_checked n cost y v lo s = (case s of (hi, d, cols, pred) \<Rightarrow>
     if lo = hi then Some (None, lo, hi, d, cols, pred)
     else do {
       j \<leftarrow> rd cols lo;
       i \<leftarrow> rd y j;
       mind \<leftarrow> rd d j;
       row \<leftarrow> rdi cost i;
       cij \<leftarrow> rd row j;
       vj \<leftarrow> rd v j;
       r \<leftarrow> scan_row_checked cost y v (nat i) (cij - vj - mind) mind [hi..<n] (hi, d, cols, pred);
       (case r of
          (Some j, hi, d, cols, pred) \<Rightarrow> Some (Some j, lo + 1, hi, d, cols, pred)
        | (None, s) \<Rightarrow> scan_checked n cost y v (lo + 1) s) })"

definition final_step :: "int list \<Rightarrow> nat list \<Rightarrow> nat \<Rightarrow> nat option \<Rightarrow> nat option option" where
  "final_step y cols k f = do { j \<leftarrow> rd cols k; yj \<leftarrow> rd y j; Some (if yj < 0 then Some j else f) }"

partial_function (option) search_checked ::
    "nat \<Rightarrow> 'f::{minus,ord} list list \<Rightarrow> int list \<Rightarrow> 'f list \<Rightarrow> nat \<Rightarrow> nat \<Rightarrow> nat \<Rightarrow>
     'f list \<Rightarrow> nat list \<Rightarrow> nat list \<Rightarrow> (nat \<times> nat \<times> nat \<times> 'f list \<times> nat list \<times> nat list) option" where
  "search_checked n cost y v lo hi n_ready d cols pred = do {
     (final, hi, n_ready, cols) \<leftarrow>
       (if lo = hi then do {
          (hi, cols) \<leftarrow> find_checked n lo d cols;
          final \<leftarrow> foldo (final_step y cols) [lo..<hi] None;
          Some (final, hi, lo, cols) }
        else Some (None, hi, n_ready, cols));
     (case final of
        Some j \<Rightarrow> Some (j, lo, n_ready, d, cols, pred)
      | None \<Rightarrow> do {
          r \<leftarrow> scan_checked n cost y v lo (hi, d, cols, pred);
          (case r of
             (Some j, _, _, d, cols, pred) \<Rightarrow> Some (j, lo, n_ready, d, cols, pred)
           | (None, lo, hi, d, cols, pred) \<Rightarrow> search_checked n cost y v lo hi n_ready d cols pred) }) }"

definition start_step ::
    "'f::minus list list \<Rightarrow> nat \<Rightarrow> 'f list \<Rightarrow> nat \<Rightarrow> nat list \<times> nat list \<times> 'f list \<Rightarrow> (nat list \<times> nat list \<times> 'f list) option" where
  "start_step cost start v i = (\<lambda>(cols, pred, d). do {
     cols \<leftarrow> wr cols i i;
     pred \<leftarrow> wr pred i start;
     c \<leftarrow> cell cost start i;
     vi \<leftarrow> rd v i;
     d \<leftarrow> wr d i (c - vi);
     Some (cols, pred, d) })"

definition price_step :: "nat list \<Rightarrow> 'f::{plus,minus} list \<Rightarrow> 'f \<Rightarrow> nat \<Rightarrow> 'f list \<Rightarrow> 'f list option" where
  "price_step cols d mind k v = do {
     j \<leftarrow> rd cols k;
     vj \<leftarrow> rd v j;
     dj \<leftarrow> rd d j;
     wr v j (vj + (dj - mind)) }"

definition find_path_checked ::
    "nat \<Rightarrow> 'f::{plus,minus,ord} list list \<Rightarrow> nat list \<times> 'f list \<Rightarrow> nat \<Rightarrow> int list \<Rightarrow> 'f list \<Rightarrow> nat list \<Rightarrow>
     (nat \<times> 'f list \<times> nat list) option" where
  "find_path_checked n cost = (\<lambda>(cols, d) start y v pred. do {
     (cols, pred, d) \<leftarrow> foldo (start_step cost start v) [0..<n] (cols, pred, d);
     (j, lo, n_ready, d, cols, pred) \<leftarrow> search_checked n cost y v 0 0 0 d cols pred;
     c \<leftarrow> rd cols lo;
     mind \<leftarrow> rd d c;
     v \<leftarrow> foldo (price_step cols d mind) [0..<n_ready] v;
     Some (j, v, pred) })"

partial_function (option) augment_checked ::
    "nat \<Rightarrow> nat list \<Rightarrow> int \<Rightarrow> int list \<Rightarrow> int list \<Rightarrow> (int list \<times> int list) option" where
  "augment_checked start pred j x y = do {
     i \<leftarrow> rdi pred j;
     y \<leftarrow> wri y j (int i);
     j' \<leftarrow> rd x i;
     x \<leftarrow> wr x i j;
     if i = start then Some (x, y) else augment_checked start pred j' x y }"

definition ca_step ::
    "nat \<Rightarrow> 'f::{plus,minus,ord} list list \<Rightarrow> nat list \<times> 'f list \<Rightarrow> nat list \<Rightarrow> nat \<Rightarrow>
     nat list \<times> int list \<times> int list \<times> 'f list \<Rightarrow> (nat list \<times> int list \<times> int list \<times> 'f list) option" where
  "ca_step n cost fresh free k = (\<lambda>(pred, x, y, v). do {
     start \<leftarrow> rd free k;
     (j, v, pred) \<leftarrow> find_path_checked n cost fresh start y v pred;
     (x, y) \<leftarrow> augment_checked start pred (int j) x y;
     Some (pred, x, y, v) })"

section \<open>The solver\<close>

text \<open>What the arrays hold that are allocated: \<open>free_rows\<close>, \<open>v\<close>, \<open>pred\<close>, and \<open>cols\<close> and \<open>d\<close> in every search.\<close>

record 'f allocated =
  fresh_free :: "nat list"
  fresh_v :: "'f list"
  fresh_pred :: "nat list"
  fresh_cols :: "nat list"
  fresh_d :: "'f list"

definition allocated_ok :: "nat \<Rightarrow> 'f allocated \<Rightarrow> bool" where
  "allocated_ok n m = (length (fresh_free m) = n \<and> length (fresh_v m) = n \<and> length (fresh_pred m) = n \<and>
     length (fresh_cols m) = n \<and> length (fresh_d m) = n)"

definition lapjv_checked ::
    "nat \<Rightarrow> 'f::{one,plus,minus,times,ord} list list \<Rightarrow> 'f allocated \<Rightarrow> int list \<Rightarrow> int list \<Rightarrow> (int list \<times> int list) option" where
  "lapjv_checked n cost m x y = do {
     r \<leftarrow> ccrrt_checked n cost (fresh_free m, x, y, fresh_v m);
     r \<leftarrow> (if 0 < fst r then carr_checked n cost r else Some r);
     (ret, free, x, y, v) \<leftarrow> (if 0 < fst r then carr_checked n cost r else Some r);
     if 0 < ret then do {
       (pred, x, y, v) \<leftarrow> foldo (ca_step n cost (fresh_cols m, fresh_d m) free) [0..<ret] (fresh_pred m, x, y, v);
       Some (x, y) }
     else Some (x, y) }"

declare carr_loop_checked.simps [code] scan_checked.simps [code] search_checked.simps [code] augment_checked.simps [code]

section \<open>No access fails: column reduction\<close>

lemma clear_ok:
  assumes "length x = n" "length y = n" "length v = n"
  shows "foldo clear_step [0..<n] (x, y, v) = Some (replicate n (- 1), replicate n 0, replicate n large)"
proof -
  define st where "st = (\<lambda>k. (map (\<lambda>_. - 1) [0..<k] @ drop k x, map (\<lambda>_. 0) [0..<k] @ drop k y, map (\<lambda>_. large) [0..<k] @ drop k v))"
  have "foldo clear_step [0..<n] (st 0) = Some (st n)"
  proof (rule foldo_states)
    fix k assume k: "k < n"
    note f = fill_step [of k x "\<lambda>_. - 1"] fill_step [of k y "\<lambda>_. 0"] fill_step [of k v "\<lambda>_. large"]
    show "clear_step k (st k) = Some (st (Suc k))"
      using k assms f by (simp add: clear_step_def st_def del: upt_Suc)
  qed simp
  then show ?thesis using assms by (simp add: st_def map_replicate_const)
qed

lemma lower_step_ok:
  assumes "start_cols n s" "matrix n cost" "i < n" "j < n"
  shows "lower_step cost i j s = Some (lower_column (entry cost) i j s)"
proof -
  obtain y v where s: "s = (y, v)" by fastforce
  show ?thesis using assms by (simp add: start_cols_def s lower_step_def lower_column_def)
qed

lemma lower_row_ok:
  assumes "start_cols n s" "matrix n cost" "i < n"
  shows "foldo (lower_step cost i) [0..<n] s = Some (fold (lower_column (entry cost) i) [0..<n] s) \<and>
    start_cols n (fold (lower_column (entry cost) i) [0..<n] s)"
  by (rule foldo_fold [where P = "\<lambda>_. start_cols n"]) (use assms lower_step_ok start_cols_step in auto)

lemma minima_ok:
  assumes "matrix n cost" "0 < n"
  shows "foldo (\<lambda>i. foldo (lower_step cost i) [0..<n]) [0..<n] (replicate n 0, replicate n large) =
    Some (column_minima n (entry cost))"
proof -
  have "start_cols n (replicate n 0, replicate n large)" using assms(2) by (simp add: start_cols_def list_all_iff)
  moreover have "foldo (lower_step cost i) [0..<n] s = Some (fold (lower_column (entry cost) i) [0..<n] s) \<and>
      start_cols n (fold (lower_column (entry cost) i) [0..<n] s)" if "i < n" "start_cols n s" for i s
    by (rule lower_row_ok [OF that(2) assms(1) that(1)])
  ultimately show ?thesis unfolding column_minima_def
    by (intro conjunct1 [OF foldo_fold [where P = "\<lambda>_. start_cols n"]]) simp_all
qed

definition below :: "nat \<Rightarrow> int list \<Rightarrow> bool" where
  "below n x = (\<forall>i<length x. x ! i < int n)"

lemma below_update: "below n x \<Longrightarrow> j < n \<Longrightarrow> below n (x[i := int j])"
  unfolding below_def by (metis length_list_update nth_list_update nth_list_update_neq of_nat_less_iff)

lemma belowD: "below n x \<Longrightarrow> i < length x \<Longrightarrow> 0 \<le> x ! i \<Longrightarrow> nat (x ! i) < n"
  by (auto simp: below_def nat_less_iff)

lemma claim_loop_ok:
  assumes "claimed n k x y" "length u = n" "below n x" "0 < k" "k \<le> n" "fold claim_column (rev [0..<k]) (x, y, u) = (x', y', u')"
  shows "claim_loop k (x, y, u) = Some (x', y', u') \<and> below n x' \<and> length u' = n \<and> length x' = n"
  using assms
proof (induction k arbitrary: x y u)
  case (Suc k)
  obtain x1 y1 u1 where c: "claim_column k (x, y, u) = (x1, y1, u1)" by (cases "claim_column k (x, y, u)") auto
  have y: "0 \<le> y ! k" "nat (y ! k) < n" and l: "length x = n" "length y = n" "k < n"
    using Suc.prems(1,5) by (auto simp: claimed_def)
  have st: "claim_step k (x, y, u) = Some (x1, y1, u1)" "below n x1" "length u1 = n"
    using c y l Suc.prems(2,3) by (auto simp: claim_step_def claim_column_def Let_def below_update split: if_splits)
  have k: "claimed n k x1 y1" by (rule claim_column_ok [OF Suc.prems(1,5) c])
  have f: "fold claim_column (rev [0..<k]) (x1, y1, u1) = (x', y', u')" using Suc.prems(6) c by simp
  show ?case
  proof (cases "0 < k")
    case True
    then show ?thesis using Suc.IH [OF k st(3,2) True _ f] l(3) st(1) by simp
  next
    case False
    then show ?thesis using st f k by (simp add: claimed_def)
  qed
qed simp

lemma min_loop_ok:
  assumes "matrix n cost" "i < n" "length v = n" "0 \<le> j"
  shows "foldo (min_step cost v i j) [0..<n] large = Some (min_except n (entry cost) v i (nat j))"
proof -
  have "foldo (min_step cost v i j) [0..<n] large = Some (fold (\<lambda>j2 m. if j2 = nat j then m
      else if cost ! i ! j2 - v ! j2 < m then cost ! i ! j2 - v ! j2 else m) [0..<n] large) \<and> True"
    by (rule foldo_fold [where P = "\<lambda>_ _. True"]) (use assms in \<open>auto simp: min_step_def Let_def nat_eq_iff2\<close>)
  then show ?thesis by (simp add: min_except_def)
qed

lemma reduce_row_length: "length (snd (fold (reduce_row n c x u) is (free, v))) = length v"
  by (induction "is" arbitrary: free v) (auto simp: reduce_row_def Let_def)

text \<open>The list of free rows as the front of the array.\<close>

definition in_front :: "nat list \<Rightarrow> nat list \<Rightarrow> nat list" where
  "in_front free a = free @ drop (length free) a"

lemma in_front_snoc: "length free < length a \<Longrightarrow> (in_front free a)[length free := i] = in_front (free @ [i]) a"
  by (simp add: in_front_def list_update_append Cons_nth_drop_Suc [symmetric])

lemma in_front_length: "length free \<le> length a \<Longrightarrow> length (in_front free a) = length a"
  by (simp add: in_front_def)

lemma transfer_step_ok:
  assumes "matrix n cost" "i < n" "length v = n" "length x = n" "length u = n" "below n x" "length free < n" "length a = n"
    "reduce_row n (entry cost) x u i (free, v) = (free', v')"
  shows "transfer_step n cost x u i (length free, in_front free a, v) = Some (length free', in_front free' a, v')"
proof (cases "x ! i < 0")
  case True
  then show ?thesis using assms
    by (auto simp: transfer_step_def reduce_row_def in_front_length in_front_snoc)
next
  case False
  then have "nat (x ! i) < n" using belowD [OF assms(6), of i] assms(2,4) by simp
  then show ?thesis using False assms min_loop_ok [OF assms(1,2,3), of "x ! i"]
    by (auto simp: transfer_step_def reduce_row_def Let_def)
qed

lemma transfer_ok:
  assumes "matrix n cost" "length v = n" "length x = n" "length u = n" "below n x" "length a = n"
    "fold (reduce_row n (entry cost) x u) [0..<n] ([], v) = (free', v')"
  shows "foldo (transfer_step n cost x u) [0..<n] (0, a, v) = Some (length free', in_front free' a, v') \<and>
    length free' \<le> n \<and> length v' = n"
proof -
  define r where "r = (\<lambda>k. fold (reduce_row n (entry cost) x u) [0..<k] ([], v))"
  define st where "st = (\<lambda>k. case r k of (free, v) \<Rightarrow> (length free, in_front free a, v))"
  have l: "length (fst (r k)) \<le> k" "length (snd (r k)) = n" for k
    using assms(2) reduce_rows_free [of n "entry cost" x u "[0..<k]" "[]" v] length_filter_le [of "\<lambda>i. x ! i < 0" "[0..<k]"]
    by (simp_all add: r_def reduce_row_length)
  have "foldo (transfer_step n cost x u) [0..<n] (st 0) = Some (st n)"
  proof (rule foldo_states)
    fix k assume k: "k < n"
    obtain f w where w: "r k = (f, w)" by fastforce
    obtain f' w' where w': "reduce_row n (entry cost) x u k (f, w) = (f', w')" by fastforce
    have s: "r (Suc k) = (f', w')" using w w' by (simp add: r_def)
    have "length f < n" "length w = n" using l [of k] w k by simp_all
    then show "transfer_step n cost x u k (st k) = Some (st (Suc k))"
      using transfer_step_ok [OF assms(1) k _ assms(3-5) _ assms(6) w'] by (simp add: st_def w s)
  qed simp
  then show ?thesis using l [of n] assms(7) by (simp add: st_def r_def in_front_def)
qed

lemma ccrrt_checked_ok:
  assumes "matrix n cost" "0 < n" "length fr = n" "length x0 = n" "length y0 = n" "length v0 = n"
    "ccrrt_dense n (entry cost) = (free, x, y, v)"
  shows "ccrrt_checked n cost (fr, x0, y0, v0) = Some (length free, in_front free fr, x, y, v) \<and>
    length free \<le> n \<and> length v = n \<and> below n x"
proof -
  obtain y1 v1 where c: "column_minima n (entry cost) = (y1, v1)" by fastforce
  note cm = column_minima_ok [OF c assms(2)]
  obtain x2 y2 u2 where k: "fold claim_column (rev [0..<n]) (replicate n (- 1), y1, replicate n True) = (x2, y2, u2)"
    using prod_cases3 by blast
  have cl: "claimed n n (replicate n (- 1)) y1" using cm by (simp add: claimed_def)
  have lp: "claim_loop n (replicate n (- 1), y1, replicate n True) = Some (x2, y2, u2) \<and> below n x2 \<and> length u2 = n \<and> length x2 = n"
    by (rule claim_loop_ok [OF cl _ _ assms(2) _ k]) (simp_all add: below_def)
  obtain f3 v3 where t: "fold (reduce_row n (entry cost) x2 u2) [0..<n] ([], v1) = (f3, v3)" by fastforce
  have e: "free = f3" "x = x2" "y = y2" "v = v3"
    using assms(7) by (simp_all add: ccrrt_dense_def c claim_columns_def k t)
  have tr: "foldo (transfer_step n cost x2 u2) [0..<n] (0, fr, v1) = Some (length f3, in_front f3 fr, v3) \<and>
    length f3 \<le> n \<and> length v3 = n"
    by (rule transfer_ok [OF assms(1) _ _ _ _ assms(3) t]) (use lp cm in simp_all)
  show ?thesis unfolding e using tr lp
    by (simp add: ccrrt_checked_def clear_ok [OF assms(4-6)] minima_ok [OF assms(1,2)] c)
qed

section \<open>No access fails: augmenting row reduction\<close>

lemma two_minima_checked_ok:
  assumes "matrix n cost" "i < n" "length v = n"
  shows "two_minima_checked n cost v i = Some (two_minima n (entry cost) v i)"
proof -
  have n: "0 < n" using assms(2) by simp
  define g where "g = (\<lambda>j (j1, v1, j2, v2). let r = cost ! i ! j - v ! j
         in if r < v2 then (if v1 \<le> r then (j1, v1, int j, r) else (j, r, int j1, v1)) else (j1, v1, j2, v2))"
  have "foldo (two_step cost v i) [1..<n] (0, cost ! i ! 0 - v ! 0, - 1, large) =
      Some (fold g [1..<n] (0, cost ! i ! 0 - v ! 0, - 1, large)) \<and> True"
    by (rule foldo_fold [where P = "\<lambda>_ _. True"]) (use assms n in \<open>auto simp: two_step_def g_def Let_def\<close>)
  then show ?thesis using assms n by (simp add: two_minima_checked_def two_minima_def g_def)
qed

lemma put_back_checked_ok:
  "0 < current s \<Longrightarrow> current s \<le> length (free_rows s) \<Longrightarrow> put_back_checked i0 s = Some (put_back i0 s)"
  by (simp add: put_back_checked_def put_back_def)

lemma keep_free_checked_ok:
  "new_free s < length (free_rows s) \<Longrightarrow> keep_free_checked i0 s = Some (keep_free i0 s)"
  by (simp add: keep_free_checked_def keep_free_def)

lemma assign_checked_ok:
  "i < length (rowsol s) \<Longrightarrow> j < length (colsol s) \<Longrightarrow> assign_checked i j s = Some (assign i j s)"
  by (simp add: assign_checked_def assign_def)

definition reduction_ok :: "nat \<Rightarrow> nat \<Rightarrow> 'f reduction \<Rightarrow> bool" where
  "reduction_ok n m s = (carr_ok n m s \<and> length (prices s) = n \<and> below n (rowsol s))"

lemma reduction_step:
  assumes "reduction_ok n m s" "current s < m"
  shows "free_rows s ! current s < n" "reduction_ok n m (carr_step n c s)"
proof -
  have k: "counters_ok m s" "matching n (set (pending m s)) (rowsol s) (colsol s)"
    using assms(1) by (simp_all add: reduction_ok_def carr_ok_def)
  have "free_rows s ! current s \<in> set (pending m s)" unfolding advanced [OF k(1) assms(2)] by simp
  then show i: "free_rows s ! current s < n" using matching_lengths [OF k(2)] by auto
  then have n: "0 < n" by simp
  obtain j v' where ch: "carr_choice n c s = (j, v')" by fastforce
  have "length v' = n" using ch assms(1) by (auto simp: carr_choice_def reduction_ok_def split: prod.splits if_splits)
  then show "reduction_ok n m (carr_step n c s)"
    using carr_step_shape [OF k(1) assms(2) n ch] carr_step_ok [of n m s c] assms by (simp add: reduction_ok_def below_update)
qed

lemma carr_step_checked_ok:
  assumes "matrix n cost" "reduction_ok n m s" "current s < m"
  shows "carr_step_checked n cost s = Some (carr_step n (entry cost) s)"
proof -
  have k: "counters_ok m s" "length (rowsol s) = n" "length (colsol s) = n" "length (prices s) = n"
    using assms(2) matching_lengths by (auto simp: reduction_ok_def carr_ok_def)
  have f: "current s < length (free_rows s)" "new_free s < length (free_rows s)" "new_free s \<le> current s"
    using k(1) assms(3) by (simp_all add: counters_ok_def)
  note i = reduction_step(1) [OF assms(2,3)]
  obtain j1 v1 j2 v2 where t: "two_minima n (entry cost) (prices s) (free_rows s ! current s) = (j1, v1, j2, v2)"
    using prod_cases4 by blast
  have j: "j1 < n" "0 \<le> j2 \<Longrightarrow> nat j2 < n" using two_minima_ok [OF t] i by auto
  note c = two_minima_checked_ok [OF assms(1) i k(4)] put_back_checked_ok keep_free_checked_ok assign_checked_ok
  let ?r = "rr_cnt s + 1 < (current s + 1) * n" and ?l = "prices s ! j1 - (v2 - v1) < prices s ! j1"
  consider "?r" "?l" | "?r" "\<not> ?l" "0 \<le> colsol s ! j1 \<and> 0 \<le> j2" | "?r" "\<not> ?l" "\<not> (0 \<le> colsol s ! j1 \<and> 0 \<le> j2)" | "\<not> ?r"
    by blast
  then show ?thesis
  proof cases
    case 1
    then show ?thesis using k f i j by (simp add: carr_step_checked_def carr_step_def t c Let_def)
  next
    case 2
    then show ?thesis using k f i j by (simp add: carr_step_checked_def carr_step_def t c Let_def)
  next
    case 3
    then show ?thesis using k f i j by (auto simp: carr_step_checked_def carr_step_def t c Let_def)
  next
    case 4
    then show ?thesis using k f i j by (simp add: carr_step_checked_def carr_step_def t c Let_def)
  qed
qed

lemma carr_loop_checked_ok:
  "matrix n cost \<Longrightarrow> reduction_ok n m s \<Longrightarrow>
   carr_loop_checked n cost m s = Some (carr_loop n (entry cost) m s) \<and> reduction_ok n m (carr_loop n (entry cost) m s)"
proof (induction n "entry cost" m s rule: carr_loop.induct)
  case (1 n m s)
  show ?case
  proof (cases "current s < m")
    case True
    then show ?thesis
      using 1 carr_step_checked_ok [OF 1(2,3) True] reduction_step(2) [OF 1(3) True, of "entry cost"]
      by (subst carr_loop_checked.simps, subst (1 2) carr_loop.simps) simp
  next
    case False
    then show ?thesis using 1(3) by (subst carr_loop_checked.simps, subst (1 2) carr_loop.simps) simp
  qed
qed

text \<open>What lies behind the free rows is never touched.\<close>

definition behind :: "nat list \<Rightarrow> 'f reduction \<Rightarrow> 'f reduction" where
  "behind a s = s\<lparr>free_rows := free_rows s @ a\<rparr>"

lemma behind_moves:
  "current s - 1 < length (free_rows s) \<Longrightarrow> put_back i0 (behind a s) = behind a (put_back i0 s)"
  "new_free s < length (free_rows s) \<Longrightarrow> keep_free i0 (behind a s) = behind a (keep_free i0 s)"
  "assign i j (behind a s) = behind a (assign i j s)"
  "(behind a s)\<lparr>prices := v\<rparr> = behind a (s\<lparr>prices := v\<rparr>)"
  "(behind a s)\<lparr>rr_cnt := r, current := k\<rparr> = behind a (s\<lparr>rr_cnt := r, current := k\<rparr>)"
  by (simp_all add: behind_def put_back_def keep_free_def assign_def list_update_append)

lemma behind_fields:
  "prices (behind a s) = prices s" "colsol (behind a s) = colsol s" "rr_cnt (behind a s) = rr_cnt s"
  "current (behind a s) = current s" "k < length (free_rows s) \<Longrightarrow> free_rows (behind a s) ! k = free_rows s ! k"
  by (simp_all add: behind_def nth_append)

lemma behind_step:
  assumes "counters_ok m s" "current s < m"
  shows "carr_step n c (behind a s) = behind a (carr_step n c s)"
proof -
  have f: "current s < length (free_rows s)" "new_free s < length (free_rows s)"
    using assms by (simp_all add: counters_ok_def)
  obtain j1 v1 j2 v2 where t: "two_minima n c (prices s) (free_rows s ! current s) = (j1, v1, j2, v2)"
    using prod_cases4 by blast
  let ?r = "rr_cnt s + 1 < (current s + 1) * n" and ?l = "prices s ! j1 - (v2 - v1) < prices s ! j1"
  consider "?r" "?l" | "?r" "\<not> ?l" "0 \<le> colsol s ! j1 \<and> 0 \<le> j2" | "?r" "\<not> ?l" "\<not> (0 \<le> colsol s ! j1 \<and> 0 \<le> j2)" | "\<not> ?r"
    by blast
  then show ?thesis
  proof cases
    case 3
    then show ?thesis using f by (auto simp: carr_step_def t behind_fields behind_moves Let_def)
  qed (use f in \<open>simp_all add: carr_step_def t behind_fields behind_moves Let_def\<close>)
qed

lemma behind_loop:
  "carr_ok n m s \<Longrightarrow> carr_loop n c m (behind a s) = behind a (carr_loop n c m s)"
proof (induction n c m s rule: carr_loop.induct)
  case (1 n c m s)
  have b: "current (behind a s) = current s" by (simp add: behind_def)
  show ?case
  proof (cases "current s < m")
    case True
    then show ?thesis
      using 1 carr_step_ok [OF 1(2) True] behind_step [of m s n c a] b
      by (subst (1 2) carr_loop.simps) (simp add: carr_ok_def)
  next
    case False
    then show ?thesis using b by (subst (1 2) carr_loop.simps) simp
  qed
qed

text \<open>What holds between the phases.\<close>

definition solving :: "nat \<Rightarrow> nat \<times> nat list \<times> int list \<times> int list \<times> 'f list \<Rightarrow> bool" where
  "solving n = (\<lambda>(m, fr, x, y, v). m \<le> length fr \<and> length fr \<le> n \<and> distinct (take m fr) \<and> matching n (set (take m fr)) x y \<and>
     length v = n \<and> below n x)"

definition with_rest :: "nat list \<Rightarrow> nat \<times> nat list \<times> int list \<times> int list \<times> 'f list \<Rightarrow>
    nat \<times> nat list \<times> int list \<times> int list \<times> 'f list" where
  "with_rest a = (\<lambda>(m, fr, r). (m, fr @ a, r))"

lemma carr_step_free_length: "length (free_rows (carr_step n c s)) = length (free_rows s)"
  by (auto simp: carr_step_def assign_def put_back_def keep_free_def Let_def split: prod.split)

lemma carr_loop_free_length: "length (free_rows (carr_loop n c m s)) = length (free_rows s)"
proof (induction n c m s rule: carr_loop.induct)
  case (1 n c m s)
  then show ?case by (subst carr_loop.simps) (simp add: carr_step_free_length)
qed

lemma carr_checked_ok:
  assumes "matrix n cost" "solving n r"
  shows "carr_checked n cost (with_rest a r) = Some (with_rest a (carr_dense n (entry cost) (fst r) (snd r))) \<and>
    solving n (carr_dense n (entry cost) (fst r) (snd r))"
proof -
  obtain m fr x y v where r: "r = (m, fr, x, y, v)" using prod_cases5 by blast
  define s where "s = \<lparr>current = 0, new_free = 0, rr_cnt = 0, free_rows = fr, rowsol = x, colsol = y, prices = v\<rparr>"
  have ok: "carr_ok n m s" "reduction_ok n m s" "reduction_ok n m (behind a s)"
    using assms(2)
    by (simp_all add: solving_def r s_def reduction_ok_def carr_ok_def counters_ok_def pending_def behind_def)
  have b: "behind a s = \<lparr>current = 0, new_free = 0, rr_cnt = 0, free_rows = fr @ a, rowsol = x, colsol = y, prices = v\<rparr>"
    by (simp add: behind_def s_def)
  let ?s = "carr_loop n (entry cost) m s"
  have e: "carr_dense n (entry cost) m (fr, x, y, v) = (new_free ?s, free_rows ?s, rowsol ?s, colsol ?s, prices ?s)"
    by (simp add: carr_dense_def s_def Let_def)
  have "carr_loop_checked n cost m (behind a s) = Some (behind a ?s)"
    using carr_loop_checked_ok [OF assms(1) ok(3)] behind_loop [OF ok(1), of "entry cost" a] by simp
  then have c: "carr_checked n cost (with_rest a r) = Some (with_rest a (carr_dense n (entry cost) m (fr, x, y, v)))"
    unfolding b by (simp add: e carr_checked_def with_rest_def r) (simp add: behind_def)
  have k: "reduction_ok n m ?s" "current ?s = m" "length (free_rows ?s) = length fr"
    using carr_loop_checked_ok [OF assms(1) ok(2)] carr_loop_ok [OF ok(1), of "entry cost"]
      carr_loop_free_length [of n "entry cost" m s] by (simp_all add: s_def)
  have "solving n (carr_dense n (entry cost) m (fr, x, y, v))"
    unfolding e using k assms(2) by (simp add: solving_def r reduction_ok_def carr_ok_def counters_ok_def pending_def)
  with c show ?thesis by (simp add: r)
qed

section \<open>No access fails: the paths\<close>

text \<open>The rows that the columns hold exist.\<close>

definition rows_within :: "nat \<Rightarrow> int list \<Rightarrow> bool" where
  "rows_within n y = (length y = n \<and> (\<forall>j<n. 0 \<le> y ! j \<longrightarrow> nat (y ! j) < n))"

lemma matching_rows_within: "matching n free x y \<Longrightarrow> rows_within n y"
  using matching_lengths matching_col by (auto simp: rows_within_def)

lemma find_checked_ok:
  assumes "column_order n cols" "length d = n" "lo < n"
  shows "find_checked n lo d cols = Some (find_dense n lo d cols)"
proof -
  define g where "g = (\<lambda>k (hi, mind, cols). let j = cols ! k
      in if d ! j \<le> mind then (let (hi, mind) = (if d ! j < mind then (lo, d ! j) else (hi, mind))
           in (Suc hi, mind, cols[k := cols ! hi, hi := j])) else (hi, mind, cols))"
  define good where "good = (\<lambda>k (hi, mind :: 'a, cs). lo < hi \<and> hi \<le> k \<and> column_order n cs)"
  have "foldo (find_step lo d) [Suc lo..<n] (Suc lo, d ! (cols ! lo), cols) =
      Some (fold g [Suc lo..<n] (Suc lo, d ! (cols ! lo), cols)) \<and> good n (fold g [Suc lo..<n] (Suc lo, d ! (cols ! lo), cols))"
  proof (rule foldo_fold)
    show "good (Suc lo) (Suc lo, d ! (cols ! lo), cols)" using assms(1) by (simp add: good_def)
    fix k s assume k: "Suc lo \<le> k" "k < n" "good k s"
    obtain h mind cs where s: "s = (h, mind, cs)" using prod_cases3 by blast
    have h: "lo < h" "h \<le> k" and c: "column_order n cs" using k(3) by (simp_all add: good_def s)
    have l: "length cs = n" using c by (simp add: column_order_def)
    have sw: "column_order n (cs[k := cs ! h', h' := cs ! k])" if "h' \<le> k" for h'
      using column_order_swap [OF c k(2)] that k(2) by simp
    show "find_step lo d k s = Some (g k s) \<and> good (Suc k) (g k s)"
      using h k(1,2) l c column_order_nth [OF c k(2)] assms(2) sw [of h] sw [of lo]
      by (auto simp: find_step_def g_def good_def s Let_def)
  qed (use assms in simp)
  moreover have "length cols = n" "cols ! lo < n"
    using assms(1) column_order_nth [OF assms(1,3)] by (simp_all add: column_order_def)
  ultimately show ?thesis using assms(2,3)
    by (simp add: find_checked_def find_dense_def g_def [symmetric] split: prod.splits)
qed

lemma scan_row_checked_ok:
  assumes "matrix n cost" "i < n" "length v = n" "length y = n" "column_order n cols" "length d = n" "length pred = n"
    "hi \<le> k" "k \<le> n"
  shows "scan_row_checked cost y v i h mind [k..<n] (hi, d, cols, pred) =
    Some (scan_row (entry cost) y v i h mind [k..<n] (hi, d, cols, pred))"
  using assms(5-9)
proof (induction "n - k" arbitrary: k hi d cols pred)
  case (Suc l)
  have k: "k < n" "[k..<n] = k # [Suc k..<n]" "l = n - Suc k" using Suc.hyps(2) by (auto simp: upt_conv_Cons)
  have l: "length cols = n" "cols ! k < n" using Suc.prems(1) column_order_nth k(1) by (auto simp: column_order_def)
  have sw: "column_order n (cols[k := cols ! hi, hi := cols ! k])"
    using column_order_swap [OF Suc.prems(1) k(1)] Suc.prems(4) k(1) by simp
  note IH = Suc.hyps(1) [OF k(3)]
  show ?case using assms(1-4) Suc.prems k(1) l sw IH unfolding k(2) by (simp add: Let_def)
qed simp

lemma scan_checked_ok:
  assumes "matrix n cost" "length v = n" "rows_within n y" "search_ok n y start lo hi d cols pred"
  shows "scan_checked n cost y v lo (hi, d, cols, pred) = scan_dense n (entry cost) y v lo (hi, d, cols, pred)"
  using assms(4)
proof (induction "n - lo" arbitrary: lo hi d cols pred rule: less_induct)
  case less
  have so: "column_order n cols" "lo \<le> hi" "hi \<le> n" "\<forall>p<hi. 0 \<le> y ! (cols ! p)" "length d = n" "length pred = n"
    "chained n y start lo cols pred" using less.prems by (simp_all add: search_ok_def)
  show ?case
  proof (cases "lo = hi")
    case True
    then show ?thesis by (subst scan_checked.simps, subst scan_dense.simps) simp
  next
    case False
    then have lt: "lo < hi" "lo < n" using so by simp_all
    let ?j = "cols ! lo"
    have j: "length cols = n" "?j < n" "0 \<le> y ! ?j"
      using so(1,4) lt column_order_nth by (auto simp: column_order_def)
    have i: "nat (y ! ?j) < n" "length y = n" using assms(3) j by (auto simp: rows_within_def)
    have c: "length cost = n" "length (cost ! nat (y ! ?j)) = n" using assms(1) i by (simp_all add: matrix_def)
    let ?r = "scan_row (entry cost) y v (nat (y ! ?j)) (cost ! nat (y ! ?j) ! ?j - v ! ?j - d ! ?j) (d ! ?j) [hi..<n] (hi, d, cols, pred)"
    have r: "scan_row_checked cost y v (nat (y ! ?j)) (cost ! nat (y ! ?j) ! ?j - v ! ?j - d ! ?j) (d ! ?j) [hi..<n]
        (hi, d, cols, pred) = Some ?r"
      by (rule scan_row_checked_ok) (use assms(1,2) i so in simp_all)
    obtain f hi' d' cols' pred' where s: "?r = (f, hi', d', cols', pred')" using prod_cases5 by blast
    have "chained n y start (Suc lo) cols pred" using so(7) unfolding chained_def by (metis less_SucI)
    then have q: "search_ok n y start (Suc lo) hi d cols pred" using less.prems lt by (simp add: search_ok_def)
    have n: "f = None \<Longrightarrow> search_ok n y start (Suc lo) hi' d' cols' pred'"
      using scan_row_ok [OF s q order_refl so(3)] by simp
    show ?thesis using False lt j i c so assms(2) r s n less.hyps [of "Suc lo" hi' d' cols' pred']
      by (subst scan_checked.simps, subst scan_dense.simps) (simp add: Let_def split: option.split)
  qed
qed

lemma last_free_checked:
  assumes "length y = n" "column_order n cols" "b \<le> n"
  shows "foldo (final_step y cols) [a..<b] None = Some (last_free y cols [a..<b])"
proof (cases "a \<le> b")
  case True
  have l: "length cols = n" using assms(2) by (simp add: column_order_def)
  have "foldo (final_step y cols) [a..<b] None = Some (fold (\<lambda>k f. if y ! (cols ! k) < 0 then Some (cols ! k) else f) [a..<b] None) \<and> True"
    by (rule foldo_fold [where P = "\<lambda>_ _. True"])
      (use assms(1,3) l True column_order_nth [OF assms(2)] in \<open>auto simp: final_step_def\<close>)
  then show ?thesis by (simp add: last_free_def)
qed (simp add: last_free_def)

text \<open>The search agrees, and its result allows the accesses of the update of the prices.\<close>

lemma search_checked_ok:
  assumes "matrix n cost" "length v = n" "rows_within n y" "\<exists>j<n. y ! j < 0" "search_ok n y start lo lo d cols pred"
  shows "\<exists>j lo' nr d' cols' pred'. search_checked n cost y v lo lo n_ready d cols pred = Some (j, lo', nr, d', cols', pred') \<and>
    find_loop n (entry cost) y v lo lo n_ready d cols pred = Some (j, lo', nr, d', cols', pred') \<and>
    lo' < n \<and> nr \<le> n \<and> length d' = n \<and> path_found n y start j cols' pred'"
  using assms(5)
proof (induction "n - lo" arbitrary: lo d cols pred n_ready rule: less_induct)
  case less
  have so: "column_order n cols" "\<forall>p<lo. 0 \<le> y ! (cols ! p)" "length d = n"
    using less.prems by (simp_all add: search_ok_def)
  obtain jf kf where f: "jf < n" "y ! jf < 0" "kf < n" "cols ! kf = jf"
    using assms(4) column_order_pos [OF so(1)] by blast
  then have "\<not> kf < lo" using so(2) by auto
  then have lo: "lo < n" using f(3) by simp
  obtain h cs where fd: "find_dense n lo d cols = (h, cs)" by fastforce
  have fc: "find_checked n lo d cols = Some (h, cs)" using find_checked_ok [OF so(1,3) lo] fd by simp
  note fs = find_dense_search [OF fd less.prems lo]
  then have g: "lo < h" "h \<le> n" "column_order n cs" "length pred = n" "\<forall>k<lo. 0 \<le> y ! (cs ! k)"
    "chained n y start lo cs pred" by simp_all
  define fin where "fin = last_free y cs [lo..<h]"
  have lc: "foldo (final_step y cs) [lo..<h] None = Some fin"
    unfolding fin_def by (rule last_free_checked [OF _ g(3,2)]) (use assms(3) in \<open>simp add: rows_within_def\<close>)
  note lf = last_free_cases [where y = y and cols = cs and ks = "[lo..<h]", folded fin_def]
  show ?case
  proof (cases fin)
    case (Some j)
    have "search_checked n cost y v lo lo n_ready d cols pred = Some (j, lo, lo, d, cs, pred)"
      using fc lc Some by (subst search_checked.simps) simp
    moreover have "find_loop n (entry cost) y v lo lo n_ready d cols pred = Some (j, lo, lo, d, cs, pred)"
      using lo fd Some by (subst find_loop.simps) (simp add: Let_def fin_def [symmetric])
    moreover have "j < n \<and> y ! j < 0" using lf Some g column_order_nth [OF g(3)] by auto
    ultimately show ?thesis using g lo so(3) by (auto simp: path_found_def)
  next
    case None
    then have "\<forall>k<h. 0 \<le> y ! (cs ! k)" using lf g(5) by (auto simp: not_less)
    then have so': "search_ok n y start lo h d cs pred" using g so(3) by (simp add: search_ok_def)
    note sc = scan_checked_ok [OF assms(1-3) so']
    obtain f' lo' hi' d' cols' pred' where
      sd: "scan_dense n (entry cost) y v lo (h, d, cs, pred) = Some (f', lo', hi', d', cols', pred')" and
      sp: "case f' of None \<Rightarrow> lo' = hi' \<and> h \<le> hi' \<and> search_ok n y start lo' hi' d' cols' pred'
        | Some j \<Rightarrow> path_found n y start j cols' pred' \<and> length d' = n"
      using scan_dense_ok [OF so'] by blast
    have e: "search_checked n cost y v lo lo n_ready d cols pred = (case f' of
        Some j \<Rightarrow> Some (j, lo, lo, d', cols', pred') | None \<Rightarrow> search_checked n cost y v lo' hi' lo d' cols' pred')"
      using fc lc None sc sd by (subst search_checked.simps) (simp split: option.split)
    have e': "find_loop n (entry cost) y v lo lo n_ready d cols pred = (case f' of
        Some j \<Rightarrow> Some (j, lo, lo, d', cols', pred') | None \<Rightarrow> find_loop n (entry cost) y v lo' hi' lo d' cols' pred')"
      using lo fd None sd by (subst find_loop.simps) (simp add: Let_def fin_def [symmetric])
    show ?thesis
    proof (cases f')
      case None
      then have "lo' = hi'" "lo < lo'" "search_ok n y start lo' lo' d' cols' pred'" using sp g(1) by auto
      then show ?thesis using less.hyps [of lo' d' cols' pred' lo] lo e e' None by simp
    next
      case (Some j)
      then show ?thesis using sp e e' lo by auto
    qed
  qed
qed

lemma start_ok:
  assumes "matrix n cost" "length v = n" "start < n" "length cols = n" "length pred = n" "length d = n"
  shows "foldo (start_step cost start v) [0..<n] (cols, pred, d) =
    Some ([0..<n], replicate n start, map (\<lambda>i. cost ! start ! i - v ! i) [0..<n])"
proof -
  define st where "st = (\<lambda>k. (map (\<lambda>i. i) [0..<k] @ drop k cols, map (\<lambda>_. start) [0..<k] @ drop k pred,
    map (\<lambda>i. cost ! start ! i - v ! i) [0..<k] @ drop k d))"
  have "foldo (start_step cost start v) [0..<n] (st 0) = Some (st n)"
  proof (rule foldo_states)
    fix k assume k: "k < n"
    note f = fill_step [of k cols "\<lambda>i. i"] fill_step [of k pred "\<lambda>_. start"] fill_step [of k d "\<lambda>i. cost ! start ! i - v ! i"]
    show "start_step cost start v k (st k) = Some (st (Suc k))"
      using k assms f by (simp add: start_step_def st_def del: upt_Suc)
  qed simp
  then show ?thesis using assms by (simp add: st_def map_replicate_const)
qed

lemma price_ok:
  assumes "column_order n cols" "length d = n" "length v = n" "nr \<le> n"
  shows "foldo (price_step cols d mind) [0..<nr] v =
      Some (fold (\<lambda>k v. v[cols ! k := v ! (cols ! k) + (d ! (cols ! k) - mind)]) [0..<nr] v) \<and>
    length (fold (\<lambda>k v. v[cols ! k := v ! (cols ! k) + (d ! (cols ! k) - mind)]) [0..<nr] v) = n"
proof -
  have "length cols = n" using assms(1) by (simp add: column_order_def)
  then show ?thesis
    by (intro foldo_fold [where P = "\<lambda>_ v. length v = n"])
      (use assms column_order_nth [OF assms(1)] in \<open>simp_all add: price_step_def\<close>)
qed

lemma find_path_checked_ok:
  assumes "matrix n cost" "length v = n" "matching n free x y" "start \<in> free" "length cols = n" "length d = n" "length pred = n"
  shows "\<exists>j v' pred' cols'. find_path_checked n cost (cols, d) start y v pred = Some (j, v', pred') \<and>
    find_path_dense n (entry cost) start y v = Some (j, v', pred') \<and> length v' = n \<and> path_found n y start j cols' pred'"
proof -
  have st: "start < n" using matching_lengths [OF assms(3)] assms(4) by auto
  have f: "\<exists>j<n. y ! j < 0" using free_column [OF assms(3)] assms(4) by blast
  let ?d = "map (\<lambda>i. cost ! start ! i - v ! i) [0..<n]"
  have "chained n y start 0 [0..<n] (replicate n start)" by (simp add: chained_def)
  moreover have "column_order n [0..<n]" by (auto simp: column_order_def)
  ultimately have "search_ok n y start 0 0 ?d [0..<n] (replicate n start)" by (simp add: search_ok_def)
  from search_checked_ok [OF assms(1,2) matching_rows_within [OF assms(3)] f this, of 0]
  obtain j lo nr d' cols' pred' where
    s: "search_checked n cost y v 0 0 0 ?d [0..<n] (replicate n start) = Some (j, lo, nr, d', cols', pred')"
      "find_loop n (entry cost) y v 0 0 0 ?d [0..<n] (replicate n start) = Some (j, lo, nr, d', cols', pred')"
    and b: "lo < n" "nr \<le> n" "length d' = n" "path_found n y start j cols' pred'" by blast
  have c: "column_order n cols'" "length cols' = n" "cols' ! lo < n"
    using b column_order_nth by (auto simp: path_found_def column_order_def)
  note p = price_ok [OF c(1) b(3) assms(2) b(2), of "d' ! (cols' ! lo)"]
  show ?thesis using p b c s
    by (simp add: find_path_checked_def find_path_dense_def start_ok [OF assms(1,2) st assms(5,7,6)] Let_def) blast
qed

lemma augment_induct [consumes 1, case_names step]:
  assumes "augment start pred j x y = Some r"
    "\<And>aug start pred j x y r. (\<And>start pred j x y r. aug start pred j x y = Some r \<Longrightarrow> P start pred j x y r) \<Longrightarrow>
       (let i = pred ! j; y = y[j := int i]; j' = x ! i; x = x[i := int j]
        in if i = start then Some (x, y) else if j' < 0 then None else aug start pred (nat j') x y) = Some r \<Longrightarrow>
       P start pred j x y r"
  shows "P start pred j x y r"
  by (rule augment.raw_induct [of P "((((start, pred), j), x), y)" r, unfolded prod.case]) (fact assms(2), fact assms(1))

lemma augment_below:
  assumes "augment start pred j x y = Some r" "below n x" "length x = n" "length y = n" "length pred = n" "j < n"
    "\<forall>k<n. pred ! k < n"
  shows "augment_checked start pred (int j) x y = Some r \<and> below n (fst r)"
  using assms
proof (induction rule: augment_induct)
  case (step augment start pred j x y r)
  note 1 = step(1) step(2) step(3) step(4) step(5) step(6) step(7) step(8)
  let ?i = "pred ! j"
  let ?x = "x[?i := int j]" and ?y = "y[j := int ?i]"
  have i: "?i < n" using 1 by simp
  have x: "below n ?x" "length ?x = n" "length ?y = n" using 1 by (simp_all add: below_update)
  have u: "augment_checked start pred (int j) x y = (if ?i = start then Some (?x, ?y) else augment_checked start pred (x ! ?i) ?x ?y)"
    using 1 i by (subst augment_checked.simps) simp
  show ?case
  proof (cases "?i = start")
    case True
    then show ?thesis using 1(2) x u by (auto simp: Let_def)
  next
    case False
    then have s: "0 \<le> x ! ?i" "augment start pred (nat (x ! ?i)) ?x ?y = Some r"
      using 1(2) by (auto simp: Let_def split: if_splits)
    have "nat (x ! ?i) < n" using belowD [OF 1(3), of ?i] i s(1) 1(4) by simp
    then show ?thesis using 1(1) [OF s(2) x 1(6)] 1(8) u False s(1) by simp
  qed
qed

lemma path_found_pred:
  assumes "path_found n y start j cols pred" "rows_within n y" "start < n"
  shows "length pred = n" "j < n" "\<forall>k<n. pred ! k < n"
proof -
  show l: "length pred = n" "j < n" using assms(1) by (simp_all add: path_found_def)
  obtain q where q: "column_order n cols" "chained n y start q cols pred" using assms(1) by (auto simp: path_found_def)
  have "pred ! (cols ! p) < n" if p: "p < n" for p
  proof -
    consider "pred ! (cols ! p) = start" | m where "m < p" "0 \<le> y ! (cols ! m)" "pred ! (cols ! p) = nat (y ! (cols ! m))"
      using q(2) p unfolding chained_def by blast
    then show ?thesis
    proof cases
      case 2
      have "cols ! m < n" using column_order_nth [OF q(1)] 2(1) p by simp
      then show ?thesis using 2 assms(2) by (simp add: rows_within_def)
    qed (use assms(3) in simp)
  qed
  then show "\<forall>k<n. pred ! k < n" using column_order_pos [OF q(1)] by blast
qed

text \<open>One free row after the other.\<close>

lemma ca_step_ok:
  assumes "matrix n cost" "length v = n" "matching n (set (start # rest)) x y" "distinct (start # rest)" "below n x"
    "length (fst fresh) = n" "length (snd fresh) = n" "length pred = n" "k < length fr" "fr ! k = start"
  shows "\<exists>pred' x' y' v'. ca_step n cost fresh fr k (pred, x, y, v) = Some (pred', x', y', v') \<and>
    ca_dense n (entry cost) (start # rest) x y v = ca_dense n (entry cost) rest x' y' v' \<and>
    matching n (set rest) x' y' \<and> length v' = n \<and> below n x' \<and> length pred' = n"
proof -
  have s: "start \<in> set (start # rest)" by simp
  obtain cs ds where fresh: "fresh = (cs, ds)" by fastforce
  obtain j v' pred' cols where p: "find_path_checked n cost fresh start y v pred = Some (j, v', pred')"
    "find_path_dense n (entry cost) start y v = Some (j, v', pred')" "length v' = n" "path_found n y start j cols pred'"
    using find_path_checked_ok [OF assms(1-3) s _ _ assms(8), of cs ds] assms(6,7) fresh by auto
  have l: "length x = n" "length y = n" "start < n" using matching_lengths [OF assms(3)] by auto
  note pp = path_found_pred [OF p(4) matching_rows_within [OF assms(3)] l(3)]
  obtain q where q: "chained n y start q cols pred'" "column_order n cols" "y ! j < 0" using p(4) by (auto simp: path_found_def)
  obtain m where m: "m < n" "cols ! m = j" using column_order_pos [OF q(2) pp(2)] by blast
  have h: "hole n (set (start # rest)) (cols ! m) x y" unfolding m(2) by (rule hole_start [OF assms(3) pp(2) q(3)])
  have "\<exists>x' y'. augment start pred' (cols ! m) x y = Some (x', y') \<and> matching n (set (start # rest) - {start}) x' y' \<and>
      (\<forall>i<n. x' ! i = x ! i \<or> path_row n cols pred' q m x' i) \<and> path_row n cols pred' q m x' start"
    by (rule augment_ok [OF h s q(2) pp(1) m(1) q(1)]) simp_all
  then obtain x' y' where a: "augment start pred' j x y = Some (x', y')" "matching n (set (start # rest) - {start}) x' y'"
    unfolding m(2) by blast
  have "set (start # rest) - {start} = set rest" using assms(4) by auto
  then show ?thesis using a p pp(1) assms(9,10) augment_below [OF a(1) assms(5) l(1,2) pp] by (simp add: ca_step_def)
qed

lemma ca_loop_ok:
  assumes "matrix n cost" "length (fst fresh) = n" "length (snd fresh) = n" "m \<le> length fr"
  shows "a \<le> m \<Longrightarrow> length pred = n \<Longrightarrow> length v = n \<Longrightarrow> below n x \<Longrightarrow> distinct (drop a (take m fr)) \<Longrightarrow>
    matching n (set (drop a (take m fr))) x y \<Longrightarrow>
    \<exists>pred' x' y' v'. foldo (ca_step n cost fresh fr) [a..<m] (pred, x, y, v) = Some (pred', x', y', v') \<and>
      ca_dense n (entry cost) (drop a (take m fr)) x y v = Some (x', y', v') \<and> matching n {} x' y'"
proof (induction "m - a" arbitrary: a pred x y v)
  case (Suc l)
  have a: "a < m" "[a..<m] = a # [Suc a..<m]" "l = m - Suc a" using Suc.hyps(2) by (auto simp: upt_conv_Cons)
  have d: "drop a (take m fr) = fr ! a # drop (Suc a) (take m fr)" using a(1) assms(4) by (simp add: Cons_nth_drop_Suc [symmetric])
  obtain pred1 x1 y1 v1 where s: "ca_step n cost fresh fr a (pred, x, y, v) = Some (pred1, x1, y1, v1)"
    "ca_dense n (entry cost) (drop a (take m fr)) x y v = ca_dense n (entry cost) (drop (Suc a) (take m fr)) x1 y1 v1"
    "matching n (set (drop (Suc a) (take m fr))) x1 y1" "length v1 = n" "below n x1" "length pred1 = n"
    using ca_step_ok [OF assms(1) Suc.prems(3) _ _ Suc.prems(4) assms(2,3) Suc.prems(2), of "fr ! a" "drop (Suc a) (take m fr)" y a fr]
      Suc.prems(5,6) a(1) assms(4) unfolding d by auto
  show ?case unfolding a(2) using Suc.hyps(1) [OF a(3) _ s(6,4,5) _ s(3)] Suc.prems(5) a(1) s(1,2) unfolding d by simp
qed simp

section \<open>The solver\<close>

text \<open>Both solvers after the reductions: what is left are the free rows in front of the array.\<close>

lemma reductions_agree:
  assumes "0 < n" "matrix n cost" "allocated_ok n m" "length x0 = n" "length y0 = n"
  obtains k fr rest x y v where "solving n (k, fr, x, y, v)"
    "lapjv_checked n cost m x0 y0 =
      (if 0 < k then do { (pred, x, y, v) \<leftarrow> foldo (ca_step n cost (fresh_cols m, fresh_d m) (fr @ rest)) [0..<k] (fresh_pred m, x, y, v);
         Some (x, y) } else Some (x, y))"
    "lapjv_internal n (entry cost) =
      (if 0 < k then map_option (\<lambda>(x, y, v). (x, y)) (ca_dense n (entry cost) (take k fr) x y v) else Some (x, y))"
proof -
  obtain free x y v where a: "ccrrt_dense n (entry cost) = (free, x, y, v)" using prod_cases4 by blast
  have al: "length (fresh_free m) = n" "length (fresh_v m) = n" using assms(3) by (simp_all add: allocated_ok_def)
  note cc = ccrrt_checked_ok [OF assms(2,1) al(1) assms(4,5) al(2) a]
  define rest where "rest = drop (length free) (fresh_free m)"
  define carr where "carr = (\<lambda>r. if 0 < fst r then carr_dense n (entry cost) (fst r) (snd r) else r)"
  define r0 where "r0 = (length free, free, x, y, v)"
  have g0: "solving n r0" using ccrrt_dense_ok [OF a assms(1)] cc by (simp add: solving_def r0_def)
  have f: "fst (with_rest rest r) = fst r" for r by (cases r) (auto simp: with_rest_def)
  have pass: "(if 0 < fst r then carr_checked n cost (with_rest rest r) else Some (with_rest rest r)) = Some (with_rest rest (carr r)) \<and>
      solving n (carr r)" if "solving n r" for r
    using carr_checked_ok [OF assms(2) that, of rest] that by (simp add: carr_def)
  obtain k fr x1 y1 v1 where t: "carr (carr r0) = (k, fr, x1, y1, v1)" using prod_cases5 by blast
  have t': "carr_twice n (entry cost) r0 = (k, fr, x1, y1, v1)" using t by (simp add: carr_twice_def carr_def Let_def)
  note p1 = pass [OF g0]
  note p2 = pass [OF conjunct2 [OF p1], unfolded t]
  have start: "ccrrt_checked n cost (fresh_free m, x0, y0, fresh_v m) = Some (with_rest rest r0)"
    using cc by (simp add: with_rest_def rest_def in_front_def r0_def)
  have w: "with_rest rest (k, fr, x1, y1, v1) = (k, fr @ rest, x1, y1, v1)" by (simp add: with_rest_def)
  have e: "lapjv_checked n cost m x0 y0 =
      (if 0 < k then do { (pred, x, y, v) \<leftarrow> foldo (ca_step n cost (fresh_cols m, fresh_d m) (fr @ rest)) [0..<k] (fresh_pred m, x1, y1, v1);
         Some (x, y) } else Some (x1, y1))"
    unfolding lapjv_checked_def start bind.bind_lunit f conjunct1 [OF p1] conjunct1 [OF p2] w by simp
  have l: "lapjv_internal n (entry cost) =
      (if 0 < k then map_option (\<lambda>(x, y, v). (x, y)) (ca_dense n (entry cost) (take k fr) x1 y1 v1) else Some (x1, y1))"
    using t' by (simp add: lapjv_internal_def a r0_def)
  show thesis by (rule that [OF conjunct2 [OF p2] e l])
qed

text \<open>C5. For any square matrix of costs (with no law of arithmetic, so also for \<open>double\<close> with its roundings), and whatever the
  arrays hold that it is given and that it allocates, the solver reads and writes only inside of its arrays, all of
  its loops end, and it leaves a perfect matching: \<open>x\<close> and \<open>y\<close> are inverse to each other.\<close>

theorem lapjv_total:
  assumes "0 < n" "matrix n cost" "allocated_ok n m" "length x0 = n" "length y0 = n"
  shows "\<exists>x y. lapjv_checked n cost m x0 y0 = Some (x, y) \<and> lapjv_internal n (\<lambda>i j. cost ! i ! j) = Some (x, y) \<and> perfect n x y"
proof -
  obtain k fr rest x1 y1 v1 where g: "solving n (k, fr, x1, y1, v1)"
    and e: "lapjv_checked n cost m x0 y0 =
      (if 0 < k then do { (pred, x, y, v) \<leftarrow> foldo (ca_step n cost (fresh_cols m, fresh_d m) (fr @ rest)) [0..<k] (fresh_pred m, x1, y1, v1);
         Some (x, y) } else Some (x1, y1))"
    and l: "lapjv_internal n (entry cost) =
      (if 0 < k then map_option (\<lambda>(x, y, v). (x, y)) (ca_dense n (entry cost) (take k fr) x1 y1 v1) else Some (x1, y1))"
    by (rule reductions_agree [OF assms])
  show ?thesis
  proof (cases "0 < k")
    case True
    have tk: "take k (fr @ rest) = take k fr" "k \<le> length (fr @ rest)" using g by (simp_all add: solving_def)
    obtain pred' x' y' v' where
      "foldo (ca_step n cost (fresh_cols m, fresh_d m) (fr @ rest)) [0..<k] (fresh_pred m, x1, y1, v1) = Some (pred', x', y', v')"
      "ca_dense n (entry cost) (take k fr) x1 y1 v1 = Some (x', y', v')" "matching n {} x' y'"
      using ca_loop_ok [OF assms(2) _ _ tk(2), of "(fresh_cols m, fresh_d m)" 0 "fresh_pred m" v1 x1 y1] assms(3) g tk(1)
      by (auto simp: solving_def allocated_ok_def)
    then show ?thesis using True matching_perfect unfolding e l by auto
  next
    case False
    then show ?thesis using g matching_perfect unfolding e l by (auto simp: solving_def)
  qed
qed

definition demo_costs :: "rat list list" where
  "demo_costs = [[1, 2, 3, 4], [1, 2, 3, 5], [1, 2, 4, 9], [1, 3, 7, 1]]"

definition demo_allocated :: "rat allocated" where
  "demo_allocated = \<lparr>fresh_free = [9, 9, 9, 9], fresh_v = [5, 5, 5, 5], fresh_pred = [8, 8, 8, 8], fresh_cols = [7, 7, 7, 7],
     fresh_d = [6, 6, 6, 6]\<rparr>"

theorem lapjv_total_witness:
  "lapjv_checked 4 demo_costs demo_allocated [3, 3, 3, 3] [2, 2, 2, 2] = Some ([2, 0, 1, 3], [1, 2, 0, 3]) \<and>
   perfect 4 [2, 0, 1, 3] [1, 2, 0, 3]"
proof -
  have m: "matrix 4 demo_costs" by (simp add: matrix_def demo_costs_def numeral_eq_Suc less_Suc_eq all_conj_distrib)
  have "allocated_ok 4 demo_allocated" by (simp add: allocated_ok_def demo_allocated_def)
  moreover have "lapjv_checked 4 demo_costs demo_allocated [3, 3, 3, 3] [2, 2, 2, 2] = Some ([2, 0, 1, 3], [1, 2, 0, 3])"
    by code_simp
  ultimately show ?thesis
    using lapjv_total [where n = 4, OF _ m, of demo_allocated "[3, 3, 3, 3]" "[2, 2, 2, 2]"] by simp
qed

end
