(* ===== verification/Assignment.thy ===== *)
theory Assignment
  imports Byte_Track_Inv Lapjv_Opt
begin

text \<open>
  The contract between the tracker's association (\<open>linear_assignment\<close> in \<open>tracker/bytetrack/utils.cpp\<close>) and the solver
  behind it, as two locales: a solver that leaves inverse permutations, and one that leaves those of least cost. What
  the association can rely on is proved inside of them; the solver of \<open>lapjv.cpp\<close> is then shown to meet both.
\<close>

section \<open>Solvers\<close>

definition inverse_to :: "nat \<Rightarrow> (nat \<Rightarrow> int) \<Rightarrow> (nat \<Rightarrow> int) \<Rightarrow> bool" where
  "inverse_to n x y = (\<forall>i<n. 0 \<le> x i \<and> nat (x i) < n \<and> y (nat (x i)) = int i)"

locale assignment_solver =
  fixes solve :: "'f::{zero,one,plus,minus,inverse,ord} solver"
  assumes succeeds: "0 < n \<Longrightarrow> fst (solve n c) = 0"
    and rows: "0 < n \<Longrightarrow> inverse_to n (fst (snd (solve n c))) (snd (snd (solve n c)))"
    and columns: "0 < n \<Longrightarrow> inverse_to n (snd (snd (solve n c))) (fst (snd (solve n c)))"
begin

text \<open>The two results of the wrapper agree: a row has a column exactly when the column has that row.\<close>

lemma lapjv_agrees:
  assumes "lapjv solve True lm cost = (rs, cs)" "cost \<noteq> []" "0 < length (cost ! 0)"
  shows "\<And>i. i < length cost \<Longrightarrow> 0 \<le> rs ! i \<Longrightarrow>
      nat (rs ! i) < length (cost ! 0) \<and> cs ! nat (rs ! i) = int i"
    "\<And>j. j < length (cost ! 0) \<Longrightarrow> 0 \<le> cs ! j \<Longrightarrow>
      nat (cs ! j) < length cost \<and> rs ! nat (cs ! j) = int j"
proof -
  let ?r = "length cost" and ?k = "length (cost ! 0)"
  let ?n = "?r + ?k"
  have n: "0 < ?n" using assms(2) by simp
  obtain code x y where s: "solve ?n (extended_cost lm cost) = (code, x, y)" using prod_cases3 by blast
  have c: "code = 0" and i1: "inverse_to ?n x y" and i2: "inverse_to ?n y x"
    using succeeds [OF n, of "extended_cost lm cost"] rows [OF n, of "extended_cost lm cost"]
      columns [OF n, of "extended_cost lm cost"] by (simp_all add: s)
  have e: "rs = map (\<lambda>i. if int ?k \<le> x i then - 1 else x i) [0..<?r]"
    "cs = map (\<lambda>j. if int ?r \<le> y j then - 1 else y j) [0..<?k]"
    using assms(1,3) s c by (auto simp: lapjv_def Let_def)
  have x: "nat (x i) < ?n \<and> 0 \<le> x i \<and> y (nat (x i)) = int i" if "i < ?n" for i
    using that i1 by (simp add: inverse_to_def)
  have y: "nat (y j) < ?n \<and> 0 \<le> y j \<and> x (nat (y j)) = int j" if "j < ?n" for j
    using that i2 by (simp add: inverse_to_def)
  show "nat (rs ! i) < ?k \<and> cs ! nat (rs ! i) = int i" if "i < ?r" "0 \<le> rs ! i" for i
  proof -
    have "rs ! i = x i" "x i < int ?k" using that by (auto simp: e split: if_splits)
    then show ?thesis using x [of i] that by (simp add: e nat_less_iff)
  qed
  show "nat (cs ! j) < ?r \<and> rs ! nat (cs ! j) = int j" if "j < ?k" "0 \<le> cs ! j" for j
  proof -
    have "cs ! j = y j" "y j < int ?r" using that by (auto simp: e split: if_splits)
    then show ?thesis using y [of j] that by (simp add: e nat_less_iff)
  qed
qed

lemma assignment_columns:
  assumes "linear_assignment solve cost na (length (cost ! 0)) t = (matches, ua, ub)" "cost \<noteq> []" "0 < length (cost ! 0)"
  shows "distinct (map snd matches @ ub)" "set (map snd matches @ ub) = {0..<length (cost ! 0)}"
proof -
  let ?k = "length (cost ! 0)"
  obtain rs cs where l: "lapjv solve True (Some t) cost = (rs, cs)" by fastforce
  note a = lapjv_agrees [OF l assms(2,3)] and sh = lapjv_shape [OF l]
  let ?hits = "filter (\<lambda>i. 0 \<le> rs ! i) [0..<length cost]"
  have m: "map snd matches = map (\<lambda>i. nat (rs ! i)) ?hits" "ub = filter (\<lambda>j. cs ! j < 0) [0..<?k]"
    using assms(1,2) l sh by (auto simp: linear_assignment_def)
  have "inj_on (\<lambda>i. nat (rs ! i)) (set ?hits)"
  proof (rule inj_onI)
    fix i l assume hits: "i \<in> set ?hits" "l \<in> set ?hits" and same: "nat (rs ! i) = nat (rs ! l)"
    have "cs ! nat (rs ! i) = int i" "cs ! nat (rs ! l) = int l" using a(1) [of i] a(1) [of l] hits by simp_all
    then show "i = l" by (metis same of_nat_eq_iff)
  qed
  then have d: "distinct (map snd matches)" by (simp add: m(1) distinct_map)
  have s: "set (map snd matches) = {j. j < ?k \<and> 0 \<le> cs ! j}"
  proof (intro set_eqI iffI)
    fix j assume "j \<in> set (map snd matches)"
    then obtain i where "i < length cost" "0 \<le> rs ! i" "j = nat (rs ! i)" by (auto simp: m(1))
    then show "j \<in> {j. j < ?k \<and> 0 \<le> cs ! j}" using a(1) by simp
  next
    fix j assume "j \<in> {j. j < ?k \<and> 0 \<le> cs ! j}"
    then have "nat (cs ! j) < length cost" "rs ! nat (cs ! j) = int j" using a(2) by simp_all
    then have "nat (cs ! j) \<in> set ?hits" "j = nat (rs ! nat (cs ! j))" by simp_all
    then show "j \<in> set (map snd matches)" unfolding m(1) set_map by (rule rev_image_eqI)
  qed
  show "distinct (map snd matches @ ub)" using d by (auto simp: s m(2) simp del: set_map)
  show "set (map snd matches @ ub) = {0..<?k}" unfolding set_append s by (auto simp: m(2))
qed

lemma assignment_match:
  assumes "linear_assignment solve cost na nb t = (matches, ua, ub)" "cost \<noteq> []" "0 < length (cost ! 0)" "(i, j) \<in> set matches"
  shows "\<exists>x y. solve (length cost + length (cost ! 0)) (extended_cost (Some t) cost) = (0, x, y) \<and>
    i < length cost \<and> j < length (cost ! 0) \<and> x i = int j"
proof -
  let ?n = "length cost + length (cost ! 0)"
  obtain rs cs where l: "lapjv solve True (Some t) cost = (rs, cs)" by fastforce
  have n: "0 < ?n" using assms(2) by simp
  obtain code x y where s: "solve ?n (extended_cost (Some t) cost) = (code, x, y)" using prod_cases3 by blast
  have c: "code = 0" using succeeds [OF n, of "extended_cost (Some t) cost"] by (simp add: s)
  have e: "rs = map (\<lambda>i. if int (length (cost ! 0)) \<le> x i then - 1 else x i) [0..<length cost]"
    using l assms(3) s c by (auto simp: lapjv_def Let_def)
  have m: "i < length cost" "0 \<le> rs ! i" "j = nat (rs ! i)"
    using assms(1,2,4) l lapjv_shape [OF l] by (auto simp: linear_assignment_def)
  then have "rs ! i = x i" "x i < int (length (cost ! 0))" by (auto simp: e split: if_splits)
  then show ?thesis using m s c by auto
qed

end

interpretation lj: assignment_solver lapjv_solver
proof
  fix n :: nat and c :: "nat \<Rightarrow> nat \<Rightarrow> 'a"
  assume "0 < n"
  then obtain x y where "lapjv_internal n c = Some (x, y)" "perfect n x y" using lapjv_internal_ok by blast
  then show "fst (lapjv_solver n c) = 0"
    "inverse_to n (fst (snd (lapjv_solver n c))) (snd (snd (lapjv_solver n c)))"
    "inverse_to n (snd (snd (lapjv_solver n c))) (fst (snd (lapjv_solver n c)))"
    by (simp_all add: lapjv_solver_def perfect_def inverse_to_def)
qed

section \<open>Solvers of least cost\<close>

text \<open>Exchanging what two rows have.\<close>

lemma lit_two: "lit 2 = (2 :: 'f::linordered_field)"
  by (simp add: numeral_eq_Suc)

lemma sum_exchange:
  fixes c :: "nat \<Rightarrow> nat \<Rightarrow> 'f::ab_group_add"
  assumes "i < n" "r < n" "i \<noteq> r" and f: "f = p(i := p r, r := p i)"
  shows "(\<Sum>a<n. c a (f a)) = (\<Sum>a<n. c a (p a)) - c i (p i) - c r (p r) + c i (p r) + c r (p i)"
proof -
  have split: "(\<Sum>a<n. g a) = g i + (g r + sum g ({..<n} - {i} - {r}))" for g :: "nat \<Rightarrow> 'f"
    using assms(1-3) by (simp add: sum.remove [of "{..<n}" i] sum.remove [of "{..<n} - {i}" r])
  have "sum (\<lambda>a. c a (f a)) ({..<n} - {i} - {r}) = sum (\<lambda>a. c a (p a)) ({..<n} - {i} - {r})"
    by (intro sum.cong) (auto simp: f)
  then show ?thesis using assms(3) by (simp add: split f)
qed

lemma exchange_bij:
  assumes "bij_betw p {..<n} {..<n}" "i < n" "r < n"
  shows "bij_betw (p(i := p r, r := p i)) {..<n} {..<(n::nat)}"
proof -
  let ?t = "id(i := r, r := i)"
  have "p(i := p r, r := p i) = p \<circ> ?t" by (auto simp: fun_eq_iff)
  moreover have "bij_betw ?t {..<n} {..<n}"
    by (rule bij_betw_byWitness [where f' = ?t]) (use assms(2,3) in auto)
  ultimately show ?thesis using assms(1) bij_betw_trans by metis
qed

text \<open>If one of the first \<open>m\<close> rows has one of the first \<open>k\<close> columns, one of the last \<open>k\<close> rows has one of the last \<open>m\<close>.\<close>

lemma dummy_pair:
  assumes inv: "inverse_to (m + k) y x" and i: "i < m" "x i = int j" "j < k"
  shows "\<exists>r. m \<le> r \<and> r < m + k \<and> int k \<le> x r"
proof (rule ccontr)
  assume none: "\<not> ?thesis"
  have y: "nat (y b) < m + k \<and> x (nat (y b)) = int b" if "b < m + k" for b using inv that by (simp add: inverse_to_def)
  have sub: "(\<lambda>b. nat (y b)) ` {k..<m + k} \<subseteq> {..<m}"
  proof
    fix a assume "a \<in> (\<lambda>b. nat (y b)) ` {k..<m + k}"
    then obtain b where "k \<le> b" "b < m + k" "a = nat (y b)" by auto
    moreover from this have "int k \<le> x a" "a < m + k" using y [of b] by simp_all
    ultimately show "a \<in> {..<m}" using none by auto
  qed
  have "inj_on (\<lambda>b. nat (y b)) {k..<m + k}"
  proof (rule inj_onI)
    fix b d assume bd: "b \<in> {k..<m + k}" "d \<in> {k..<m + k}" and same: "nat (y b) = nat (y d)"
    have "x (nat (y b)) = int b" "x (nat (y d)) = int d" using y bd by simp_all
    then show "b = d" by (metis same of_nat_eq_iff)
  qed
  then have "card ((\<lambda>b. nat (y b)) ` {k..<m + k}) = card {..<m}" by (simp add: card_image)
  then have "(\<lambda>b. nat (y b)) ` {k..<m + k} = {..<m}" by (intro card_subset_eq sub) simp_all
  then obtain b where b: "k \<le> b" "b < m + k" "i = nat (y b)"
    using i(1) by (metis (no_types, lifting) atLeastLessThan_iff image_iff lessThan_iff)
  then have "x i = int b" using y [of b] by simp
  then show False using b(1) i(2,3) by simp
qed

locale least_solver = assignment_solver solve for solve :: "'f::linordered_field solver" +
  assumes least: "0 < n \<Longrightarrow> costs_upto n c C \<Longrightarrow> bij_betw p {..<n} {..<n} \<Longrightarrow>
    (\<Sum>i<n. c i (nat (fst (snd (solve n c)) i))) \<le> (\<Sum>i<n. c i (p i))"
begin

text \<open>No matched pair costs more than the threshold: leaving both unmatched would cost half of it each.\<close>

lemma match_within:
  assumes la: "linear_assignment solve cost na nb t = (matches, ua, ub)"
    and ne: "cost \<noteq> []" "0 < length (cost ! 0)" and m: "(i, j) \<in> set matches"
    and small: "costs_upto (length cost + length (cost ! 0)) (extended_cost (Some t) cost) C"
  shows "cost ! i ! j \<le> t"
proof -
  let ?m = "length cost" and ?k = "length (cost ! 0)" and ?c = "extended_cost (Some t) cost"
  let ?n = "?m + ?k"
  obtain x y where s: "solve ?n ?c = (0, x, y)" and ij: "i < ?m" "j < ?k" "x i = int j"
    using assignment_match [OF la ne m] by blast
  have n: "0 < ?n" using ne by simp
  have xy: "inverse_to ?n x y" "inverse_to ?n y x" using rows [OF n, of ?c] columns [OF n, of ?c] by (simp_all add: s)
  obtain r where r: "?m \<le> r" "r < ?n" "int ?k \<le> x r" using dummy_pair [OF xy(2) ij(1,3,2)] by blast
  have b: "bij_betw (\<lambda>a. nat (x a)) {..<?n} {..<?n}"
    by (rule bij_betw_byWitness [where f' = "\<lambda>a. nat (y a)"]) (use xy in \<open>auto simp: inverse_to_def\<close>)
  define p where "p = (\<lambda>a. nat (x a))"
  have "(\<Sum>a<?n. ?c a (p a)) \<le> (\<Sum>a<?n. ?c a ((p(i := p r, r := p i)) a))"
    using least [OF n small exchange_bij [OF b, of i r]] ij(1) r(2) by (simp add: s p_def)
  also have "\<dots> = (\<Sum>a<?n. ?c a (p a)) - ?c i (p i) - ?c r (p r) + ?c i (p r) + ?c r (p i)"
    by (rule sum_exchange) (use ij r in auto)
  finally have "?c i (p i) + ?c r (p r) \<le> ?c i (p r) + ?c r (p i)" by simp
  moreover have far: "?k \<le> nat (x r)" using r(3) by simp
  have "?c i (p i) = cost ! i ! j" "?c r (p r) = 0" "?c i (p r) = t / 2" "?c r (p i) = t / 2"
    using ij r far by (simp_all add: extended_cost_def p_def Let_def lit_two)
  ultimately show ?thesis by simp
qed

end

interpretation least: least_solver "lapjv_solver :: 'f::linordered_field solver"
proof
  fix n :: nat and c :: "nat \<Rightarrow> nat \<Rightarrow> 'f" and C p
  assume a: "0 < n" "costs_upto n c C" "bij_betw p {..<n} {..<n}"
  obtain x y where s: "lapjv_internal n c = Some (x, y)" "perfect n x y" using lapjv_internal_ok [OF a(1)] by blast
  obtain v where "tight n c {} x v" using lapjv_internal_least [OF a(1,2) s(1)] by blast
  from tight_least [OF this s(2) a(3)]
  show "(\<Sum>i<n. c i (nat (fst (snd (lapjv_solver n c)) i))) \<le> (\<Sum>i<n. c i (p i))"
    by (simp add: lapjv_solver_def s(1))
qed

section \<open>The association of tracks and detections\<close>

lemma box_iou_range:
  fixes a b :: "'f::linordered_field list"
  shows "0 \<le> box_iou a b \<and> box_iou a b \<le> 1"
proof -
  define iw where "iw = min (a ! 2) (b ! 2) - max (a ! 0) (b ! 0) + 1"
  define ih where "ih = min (a ! 3) (b ! 3) - max (a ! 1) (b ! 1) + 1"
  define sa where "sa = (a ! 2 - a ! 0 + 1) * (a ! 3 - a ! 1 + 1)"
  define sb where "sb = (b ! 2 - b ! 0 + 1) * (b ! 3 - b ! 1 + 1)"
  have e: "box_iou a b = (if 0 < iw then if 0 < ih then iw * ih / (sa + sb - iw * ih) else 0 else 0)"
    by (simp add: box_iou_def Let_def iw_def ih_def sa_def sb_def)
  have "iw \<le> a ! 2 - a ! 0 + 1" "iw \<le> b ! 2 - b ! 0 + 1" "ih \<le> a ! 3 - a ! 1 + 1" "ih \<le> b ! 3 - b ! 1 + 1"
    by (auto simp: iw_def ih_def intro!: diff_mono)
  then have le: "iw * ih \<le> sa" "iw * ih \<le> sb" if "0 < iw" "0 < ih"
    using that by (auto simp: sa_def sb_def intro!: mult_mono)
  show ?thesis
  proof (cases "0 < iw \<and> 0 < ih")
    case True
    define q where "q = iw * ih"
    have "0 < q" "q \<le> sa" "q \<le> sb" using True le by (simp_all add: q_def)
    then have "0 \<le> q / (sa + sb - q)" "q / (sa + sb - q) \<le> 1" by simp_all
    then show ?thesis using True by (simp add: e q_def)
  qed (auto simp: e)
qed

lemma iou_distance_range:
  fixes as :: "('f::linordered_field, 'c) strack list"
  shows "r \<in> set (iou_distance as bs) \<Longrightarrow> d \<in> set r \<Longrightarrow> 0 \<le> d \<and> d \<le> 1"
  by (auto simp: iou_distance_def ious_def box_iou_range conjunct1 [OF box_iou_range] conjunct2 [OF box_iou_range] split: if_splits)

text \<open>C8. For every threshold and all boxes the association that the solver of the repository gives is a matching: every
  track is either matched to one detection or unmatched, and every detection matched to one track or unmatched.\<close>

theorem association_is_matching:
  "case linear_assignment lapjv_solver (iou_distance as bs) (length as) (length bs) t of (matches, ua, ub) \<Rightarrow>
     distinct (map fst matches @ ua) \<and> set (map fst matches @ ua) = {0..<length as} \<and>
     distinct (map snd matches @ ub) \<and> set (map snd matches @ ub) = {0..<length bs}"
proof -
  let ?c = "iou_distance as bs"
  obtain matches ua ub where la: "linear_assignment lapjv_solver ?c (length as) (length bs) t = (matches, ua, ub)"
    by (metis prod_cases3)
  have "distinct (map snd matches @ ub) \<and> set (map snd matches @ ub) = {0..<length bs}"
  proof (cases "?c = []")
    case False
    then have "length (?c ! 0) = length bs" "0 < length bs" using iou_distance_shape [of as bs]
      by (auto simp: iou_distance_def ious_def)
    then show ?thesis using lj.assignment_columns [of ?c] la False by metis
  qed (use la in \<open>auto simp: linear_assignment_def\<close>)
  then show ?thesis using linear_assignment_bounds [OF la] by (simp add: la)
qed

text \<open>C19. In exact arithmetic no track is matched to a detection farther away than the threshold.\<close>

theorem matches_within_threshold:
  fixes as :: "('f::linordered_field, 'c) strack list"
  assumes "0 \<le> t" "t \<le> 1"
    and "(i, j) \<in> set (fst (linear_assignment lapjv_solver (iou_distance as bs) (length as) (length bs) t))"
  shows "iou_distance as bs ! i ! j \<le> t"
proof -
  let ?c = "iou_distance as bs"
  obtain matches ua ub where la: "linear_assignment lapjv_solver ?c (length as) (length bs) t = (matches, ua, ub)"
    by (metis prod_cases3)
  have m: "(i, j) \<in> set matches" using assms(3) by (simp add: la)
  have ne: "?c \<noteq> []" using la m by (auto simp: linear_assignment_def)
  then have sh: "length ?c = length as" "length bs > 0" "i < length as \<Longrightarrow> length (?c ! i) = length bs" for i
    using iou_distance_shape [of as bs] by (auto simp: iou_distance_def ious_def)
  then have k: "0 < length (?c ! 0)" and k': "length (?c ! 0) = length bs" using ne by (metis length_greater_0_conv)+
  have "costs_upto (length ?c + length (?c ! 0)) (extended_cost (Some t) ?c) 1"
  proof -
    have "0 \<le> ?c ! i ! j \<and> ?c ! i ! j \<le> 1" if "i < length ?c" "j < length (?c ! 0)" for i j
      using that sh k' by (intro iou_distance_range [of "?c ! i" as bs]) (auto intro!: nth_mem)
    then show ?thesis using assms(1,2) by (auto simp: costs_upto_def large_eq extended_cost_def Let_def lit_two)
  qed
  from least.match_within [OF la ne k m this] show ?thesis .
qed

definition demo_track :: "rat \<Rightarrow> (rat, unit) strack" where
  "demo_track a = strack_new [a, 0, 9, 9] 1"

lemma demo_association:
  "linear_assignment lapjv_solver (iou_distance [demo_track 50] [demo_track 20, demo_track 51])
     (length [demo_track 50]) (length [demo_track 20, demo_track 51]) (4 / 5) = ([(0, 1)], [], [0])"
  by code_simp

theorem matches_within_threshold_witness:
  "iou_distance [demo_track 50] [demo_track 20, demo_track 51] ! 0 ! 1 \<le> 4 / 5"
  by (rule matches_within_threshold) (simp_all only: demo_association, simp_all)

end
