(* ===== verification/Engine.thy ===== *)
theory Engine
  imports Ax_Prelude "HOL-Library.Multiset"
begin

text \<open>
  The life of a model on the accelerator: \<open>Engine\<close> (\<open>models/engine.cpp\<close>) with its buffers (\<open>models/io.cpp\<close>). What the
  libraries answer is a record of functions of the number of calls made so far, so that every answer can differ; the calls
  are recorded. Log lines are left out, \<open>new\<close> does not fail.
\<close>

section \<open>The libraries\<close>

record buffer =
  phy :: int
  bsize :: nat

text \<open>What \<open>AX_ENGINE_GetIOInfo\<close> reports: the sizes of the inputs and of the outputs.\<close>

record io_info =
  in_sizes :: "nat list"
  out_sizes :: "nat list"

datatype npu_call =
  EngineInit
| EngineDeinit
| CreateHandle int
| DestroyHandle int
| MemAlloc bool buffer
| MemFree buffer
| CopyInput buffer nat
| FlushInput buffer nat
| RunSync int

record npu_lib =
  ax_engine_init :: "nat \<Rightarrow> int"
  read_model :: "nat \<Rightarrow> bool"
  create_handle :: "nat \<Rightarrow> int \<times> int"
  create_context :: "nat \<Rightarrow> int"
  get_io_info :: "nat \<Rightarrow> int \<times> io_info"
  mem_alloc :: "nat \<Rightarrow> nat \<Rightarrow> int \<times> int"
  run_sync :: "nat \<Rightarrow> int"
  destroy_handle :: "nat \<Rightarrow> int"

section \<open>Buffers\<close>

text \<open>One array of buffers: each is allocated, until one fails. The code of the failure, and the buffers there are.\<close>

fun alloc_buffers :: "npu_lib \<Rightarrow> bool \<Rightarrow> nat list \<Rightarrow> buffer list \<Rightarrow> npu_call list \<Rightarrow> int \<times> buffer list \<times> npu_call list" where
  "alloc_buffers lib cached [] bufs tr = (0, bufs, tr)"
| "alloc_buffers lib cached (n # ns) bufs tr =
     (case mem_alloc lib (length tr) n of
        (ret, addr) \<Rightarrow>
          if ret \<noteq> 0 then (ret, bufs, tr)
          else (let b = \<lparr>phy = addr, bsize = n\<rparr> in alloc_buffers lib cached ns (bufs @ [b]) (tr @ [MemAlloc cached b])))"

definition free_io_index :: "buffer list \<Rightarrow> npu_call list \<Rightarrow> npu_call list" where
  "free_io_index bufs tr = tr @ map MemFree bufs"

text \<open>Inputs with the first strategy, outputs cached; a failure gives everything back. An empty pair of arrays is what
  \<open>ResetIo\<close> leaves.\<close>

definition prepare_io ::
    "npu_lib \<Rightarrow> io_info \<Rightarrow> npu_call list \<Rightarrow> int \<times> (buffer list \<times> buffer list) \<times> npu_call list" where
  "prepare_io lib io tr =
     (case alloc_buffers lib False (in_sizes io) [] tr of
        (ret, ins, tr1) \<Rightarrow>
          if ret \<noteq> 0 then (ret, ([], []), free_io_index ins tr1)
          else
            (case alloc_buffers lib True (out_sizes io) [] tr1 of
               (ret, outs, tr2) \<Rightarrow>
                 if ret \<noteq> 0 then (ret, ([], []), free_io_index outs (free_io_index ins tr2))
                 else (0, (ins, outs), tr2)))"

definition free_io :: "buffer list \<times> buffer list \<Rightarrow> npu_call list \<Rightarrow> npu_call list" where
  "free_io io tr = free_io_index (snd io) (free_io_index (fst io) tr)"

definition push_input :: "nat \<Rightarrow> buffer list \<times> buffer list \<Rightarrow> io_info \<Rightarrow> npu_call list \<Rightarrow> int \<times> npu_call list" where
  "push_input n io nfo tr =
     (if length (in_sizes nfo) \<noteq> 1 then (- 1, tr)
      else if n \<noteq> in_sizes nfo ! 0 then (- 1, tr)
      else (0, tr @ [CopyInput (fst io ! 0) n, FlushInput (fst io ! 0) n]))"

section \<open>The engine\<close>

record engine =
  handle :: "int option"
  io_info_ptr :: "io_info option"
  io_data :: "buffer list \<times> buffer list"
  is_released :: bool
  engine_inited :: bool
  handle_valid :: bool
  calls :: "npu_call list"

definition engine_new :: engine where
  "engine_new = \<lparr>handle = None, io_info_ptr = None, io_data = ([], []), is_released = False, engine_inited = False,
     handle_valid = False, calls = []\<rparr>"

definition engine_destroy :: "npu_lib \<Rightarrow> engine \<Rightarrow> int \<times> engine" where
  "engine_destroy lib e =
     (if is_released e then (0, e)
      else
        (let e1 = e\<lparr>is_released := True, calls := free_io (io_data e) (calls e), io_data := ([], []), io_info_ptr := None\<rparr>;
             (ret, e2) = (case handle e1 of
                 Some h \<Rightarrow>
                   if handle_valid e1 then
                     (destroy_handle lib (length (calls e1)),
                      e1\<lparr>calls := calls e1 @ [DestroyHandle h], handle := None, handle_valid := False\<rparr>)
                   else (0, e1)
               | None \<Rightarrow> (0, e1));
             e3 = (if engine_inited e2 then e2\<lparr>calls := calls e2 @ [EngineDeinit], engine_inited := False\<rparr> else e2)
         in (ret, e3)))"

definition fail_init :: "npu_lib \<Rightarrow> int \<Rightarrow> engine \<Rightarrow> int \<times> engine" where
  "fail_init lib ret e = (ret, snd (engine_destroy lib e))"

definition engine_init :: "npu_lib \<Rightarrow> engine \<Rightarrow> int \<times> engine" where
  "engine_init lib e =
     (let e0 = e\<lparr>is_released := False\<rparr>; ret = ax_engine_init lib (length (calls e0))
      in if ret \<noteq> 0 then (ret, e0)
         else
           (let e1 = e0\<lparr>calls := calls e0 @ [EngineInit], engine_inited := True\<rparr>
            in if \<not> read_model lib (length (calls e1)) then fail_init lib (- 1) e1
               else
                 (case create_handle lib (length (calls e1)) of
                    (ret, h) \<Rightarrow>
                      if ret \<noteq> 0 then fail_init lib ret (e1\<lparr>handle := None, handle_valid := False\<rparr>)
                      else
                        (let e2 = e1\<lparr>calls := calls e1 @ [CreateHandle h], handle := Some h, handle_valid := True\<rparr>;
                             ret = create_context lib (length (calls e2))
                         in if ret \<noteq> 0 then fail_init lib ret e2
                            else
                              (case get_io_info lib (length (calls e2)) of
                                 (ret, nfo) \<Rightarrow>
                                   if ret \<noteq> 0 then fail_init lib ret (e2\<lparr>io_info_ptr := None\<rparr>)
                                   else
                                     (case prepare_io lib nfo (calls e2) of
                                        (ret, io, tr) \<Rightarrow>
                                          (let e3 = e2\<lparr>io_info_ptr := Some nfo, io_data := io, calls := tr\<rparr>
                                           in if ret \<noteq> 0 then fail_init lib ret e3 else (0, e3))))))))"

definition is_ready :: "engine \<Rightarrow> bool" where
  "is_ready e = (handle_valid e \<and> handle e \<noteq> None \<and> io_info_ptr e \<noteq> None \<and> \<not> is_released e)"

text \<open>Both overloads of \<open>Process\<close>: the number of bytes of the input is all that the control flow depends on.\<close>

definition engine_process :: "npu_lib \<Rightarrow> nat \<Rightarrow> engine \<Rightarrow> int \<times> engine" where
  "engine_process lib n e =
     (if \<not> is_ready e then (- 1, e)
      else
        (case push_input n (io_data e) (the (io_info_ptr e)) (calls e) of
           (ret, tr) \<Rightarrow>
             if ret \<noteq> 0 then (ret, e)
             else (run_sync lib (length tr), e\<lparr>calls := tr @ [RunSync (the (handle e))]\<rparr>)))"

text \<open>How a client uses an engine: it initialises one that is not initialised, and processes and destroys as it likes.\<close>

inductive engine_reach :: "npu_lib \<Rightarrow> engine \<Rightarrow> bool" for lib where
  reach_new: "engine_reach lib engine_new"
| reach_init: "engine_reach lib e \<Longrightarrow> \<not> engine_inited e \<Longrightarrow> engine_reach lib (snd (engine_init lib e))"
| reach_process: "engine_reach lib e \<Longrightarrow> engine_reach lib (snd (engine_process lib n e))"
| reach_destroy: "engine_reach lib e \<Longrightarrow> engine_reach lib (snd (engine_destroy lib e))"

section \<open>The accelerator's view\<close>

text \<open>What is up, open and allocated. A call that has no business there has no next state: deinitialising what is not
  up, destroying or running a handle that is not open, freeing, writing or flushing a buffer that is not allocated, and
  writing or flushing beyond its size.\<close>

record npu_state =
  inits :: nat
  open_handles :: "int multiset"
  memory :: "buffer multiset"

definition npu_start :: npu_state where
  "npu_start = \<lparr>inits = 0, open_handles = {#}, memory = {#}\<rparr>"

fun npu_step :: "npu_call \<Rightarrow> npu_state \<Rightarrow> npu_state option" where
  "npu_step EngineInit s = Some (s\<lparr>inits := inits s + 1\<rparr>)"
| "npu_step EngineDeinit s = (if inits s = 0 then None else Some (s\<lparr>inits := inits s - 1\<rparr>))"
| "npu_step (CreateHandle h) s =
     (if inits s = 0 then None else Some (s\<lparr>open_handles := add_mset h (open_handles s)\<rparr>))"
| "npu_step (DestroyHandle h) s =
     (if h \<in># open_handles s then Some (s\<lparr>open_handles := open_handles s - {#h#}\<rparr>) else None)"
| "npu_step (MemAlloc c b) s = Some (s\<lparr>memory := add_mset b (memory s)\<rparr>)"
| "npu_step (MemFree b) s = (if b \<in># memory s then Some (s\<lparr>memory := memory s - {#b#}\<rparr>) else None)"
| "npu_step (CopyInput b n) s = (if b \<in># memory s \<and> n \<le> bsize b then Some s else None)"
| "npu_step (FlushInput b n) s = (if b \<in># memory s \<and> n \<le> bsize b then Some s else None)"
| "npu_step (RunSync h) s = (if h \<in># open_handles s then Some s else None)"

fun npu_run :: "npu_call list \<Rightarrow> npu_state \<Rightarrow> npu_state option" where
  "npu_run [] s = Some s"
| "npu_run (c # cs) s = (case npu_step c s of None \<Rightarrow> None | Some s' \<Rightarrow> npu_run cs s')"

lemma npu_run_append: "npu_run (cs @ ds) s = (case npu_run cs s of None \<Rightarrow> None | Some s' \<Rightarrow> npu_run ds s')"
  by (induction cs arbitrary: s) (auto split: option.split)

lemma npu_run_free:
  "mset bufs \<subseteq># memory s \<Longrightarrow> npu_run (map MemFree bufs) s = Some (s\<lparr>memory := memory s - mset bufs\<rparr>)"
proof (induction bufs arbitrary: s)
  case (Cons b bufs)
  then have "b \<in># memory s" "mset bufs \<subseteq># memory s - {#b#}" by (auto simp: insert_subset_eq_iff)
  then show ?case using Cons.IH [of "s\<lparr>memory := memory s - {#b#}\<rparr>"] by simp
qed simp

section \<open>Buffers are balanced\<close>

lemma alloc_buffers_run:
  assumes "alloc_buffers lib cached ns bufs tr = (ret, bufs', tr')" "npu_run tr npu_start = Some s"
  shows "\<exists>new. bufs' = bufs @ new \<and> npu_run tr' npu_start = Some (s\<lparr>memory := memory s + mset new\<rparr>) \<and>
    (ret = 0 \<longrightarrow> map bsize new = ns)"
  using assms
proof (induction ns arbitrary: bufs tr s)
  case (Cons n ns)
  obtain r addr where m: "mem_alloc lib (length tr) n = (r, addr)" by fastforce
  show ?case
  proof (cases "r = 0")
    case True
    let ?b = "\<lparr>phy = addr, bsize = n\<rparr>"
    have "npu_run (tr @ [MemAlloc cached ?b]) npu_start = Some (s\<lparr>memory := add_mset ?b (memory s)\<rparr>)"
      using Cons.prems(2) by (simp add: npu_run_append)
    from Cons.IH [OF _ this, of "bufs @ [?b]"] Cons.prems(1) m True obtain new where
      "bufs' = (bufs @ [?b]) @ new" "npu_run tr' npu_start = Some (s\<lparr>memory := add_mset ?b (memory s) + mset new\<rparr>)"
      "ret = 0 \<longrightarrow> map bsize new = ns" by (auto simp: Let_def)
    then show ?thesis by (intro exI [of _ "?b # new"]) simp
  qed (use Cons.prems m in auto)
qed simp

lemma free_io_index_run:
  "npu_run tr npu_start = Some (s\<lparr>memory := m + mset bufs\<rparr>) \<Longrightarrow>
   npu_run (free_io_index bufs tr) npu_start = Some (s\<lparr>memory := m\<rparr>)"
  by (simp add: free_io_index_def npu_run_append npu_run_free)

lemma prepare_io_run:
  assumes "prepare_io lib nfo tr = (ret, io, tr')" "npu_run tr npu_start = Some s"
  shows "npu_run tr' npu_start = Some (s\<lparr>memory := memory s + mset (fst io) + mset (snd io)\<rparr>) \<and>
    (if ret = 0 then map bsize (fst io) = in_sizes nfo else io = ([], []))"
proof -
  obtain r ins tr1 where a: "alloc_buffers lib False (in_sizes nfo) [] tr = (r, ins, tr1)" using prod_cases3 by blast
  note i = alloc_buffers_run [OF a assms(2)]
  then have r1: "npu_run tr1 npu_start = Some (s\<lparr>memory := memory s + mset ins\<rparr>)" by auto
  show ?thesis
  proof (cases "r = 0")
    case True
    obtain q outs tr2 where b: "alloc_buffers lib True (out_sizes nfo) [] tr1 = (q, outs, tr2)" using prod_cases3 by blast
    from alloc_buffers_run [OF b r1]
    have r2: "npu_run tr2 npu_start = Some (s\<lparr>memory := memory s + mset ins + mset outs\<rparr>)" by auto
    then have "npu_run (free_io_index outs (free_io_index ins tr2)) npu_start = Some (s\<lparr>memory := memory s\<rparr>)"
      by (intro free_io_index_run) (simp add: union_commute union_assoc union_lcomm)
    then show ?thesis using assms(1) a b True r2 i by (cases "q = 0") (auto simp: prepare_io_def)
  next
    case False
    then show ?thesis using assms(1) a free_io_index_run [OF r1] by (auto simp: prepare_io_def)
  qed
qed

section \<open>The engine and the accelerator agree\<close>

definition engine_inv :: "engine \<Rightarrow> bool" where
  "engine_inv e =
     (npu_run (calls e) npu_start =
        Some \<lparr>inits = (if engine_inited e then 1 else 0),
              open_handles = (case handle e of None \<Rightarrow> {#} | Some h \<Rightarrow> {#h#}),
              memory = mset (fst (io_data e)) + mset (snd (io_data e))\<rparr> \<and>
      handle_valid e = (handle e \<noteq> None) \<and>
      (engine_inited e \<longrightarrow> \<not> is_released e) \<and>
      (\<not> engine_inited e \<longrightarrow> handle e = None \<and> io_data e = ([], []) \<and> io_info_ptr e = None) \<and>
      (is_ready e \<longrightarrow> map bsize (fst (io_data e)) = in_sizes (the (io_info_ptr e))))"

text \<open>Enough for \<open>Destroy\<close>, also in the middle of \<open>Init\<close>.\<close>

definition engine_partial :: "engine \<Rightarrow> bool" where
  "engine_partial e =
     (npu_run (calls e) npu_start =
        Some \<lparr>inits = (if engine_inited e then 1 else 0),
              open_handles = (case handle e of None \<Rightarrow> {#} | Some h \<Rightarrow> {#h#}),
              memory = mset (fst (io_data e)) + mset (snd (io_data e))\<rparr> \<and>
      handle_valid e = (handle e \<noteq> None) \<and> (is_released e \<longrightarrow> \<not> engine_inited e \<and> handle e = None \<and> io_data e = ([], []) \<and> io_info_ptr e = None))"

definition engine_idle :: "engine \<Rightarrow> bool" where
  "engine_idle e = (npu_run (calls e) npu_start = Some npu_start \<and> handle e = None \<and> io_data e = ([], []) \<and>
     io_info_ptr e = None \<and> \<not> engine_inited e \<and> \<not> handle_valid e \<and> is_released e)"

lemma engine_inv_partial: "engine_inv e \<Longrightarrow> engine_partial e"
  by (auto simp: engine_inv_def engine_partial_def)

lemma free_io_run:
  assumes "npu_run tr npu_start = Some s" "memory s = mset (fst io) + mset (snd io)"
  shows "npu_run (free_io io tr) npu_start = Some (s\<lparr>memory := {#}\<rparr>)"
proof -
  have "npu_run tr npu_start = Some (s\<lparr>memory := mset (snd io) + mset (fst io)\<rparr>)" using assms by (simp add: union_commute)
  from free_io_index_run [OF this] have "npu_run (free_io_index (fst io) tr) npu_start = Some (s\<lparr>memory := {#} + mset (snd io)\<rparr>)" by simp
  from free_io_index_run [OF this] show ?thesis by (simp add: free_io_def)
qed

lemma engine_destroy_idle:
  assumes "engine_partial e"
  shows "engine_idle (snd (engine_destroy lib e))"
proof (cases "is_released e")
  case True
  then show ?thesis using assms by (simp add: engine_destroy_def engine_partial_def engine_idle_def npu_start_def)
next
  case False
  define s where "s = \<lparr>inits = (if engine_inited e then 1 else 0),
      open_handles = (case handle e of None \<Rightarrow> {#} | Some h \<Rightarrow> {#h#}), memory = {#}\<rparr>"
  have "npu_run (free_io (io_data e) (calls e)) npu_start = Some s"
    using free_io_run [of "calls e" _ "io_data e"] assms by (simp add: engine_partial_def s_def)
  then show ?thesis using False assms
    by (cases "handle e"; cases "engine_inited e")
      (auto simp: engine_destroy_def engine_partial_def engine_idle_def npu_run_append s_def npu_start_def Let_def)
qed

lemma engine_idle_inv: "engine_idle e \<Longrightarrow> engine_inv e"
  by (auto simp: engine_idle_def engine_inv_def npu_start_def is_ready_def)

lemma fail_init_inv: "engine_partial e \<Longrightarrow> engine_inv (snd (fail_init lib ret e))"
  by (simp add: fail_init_def engine_destroy_idle engine_idle_inv)

lemma engine_init_inv:
  assumes "engine_inv e" "\<not> engine_inited e"
  shows "engine_inv (snd (engine_init lib e))"
proof -
  define e0 where "e0 = e\<lparr>is_released := False\<rparr>"
  define e1 where "e1 = e0\<lparr>calls := calls e0 @ [EngineInit], engine_inited := True\<rparr>"
  obtain cret h where c: "create_handle lib (length (calls e1)) = (cret, h)" by fastforce
  define e2 where "e2 = e1\<lparr>calls := calls e1 @ [CreateHandle h], handle := Some h, handle_valid := True\<rparr>"
  obtain gret nfo where g: "get_io_info lib (length (calls e2)) = (gret, nfo)" by fastforce
  obtain pret io tr where p: "prepare_io lib nfo (calls e2) = (pret, io, tr)" using prod_cases3 by blast
  define e3 where "e3 = e2\<lparr>io_info_ptr := Some nfo, io_data := io, calls := tr\<rparr>"
  have i0: "engine_inv e0" using assms by (auto simp: engine_inv_def e0_def is_ready_def)
  have r0: "npu_run (calls e0) npu_start = Some npu_start" "handle e0 = None" "io_data e0 = ([], [])" "io_info_ptr e0 = None"
    "\<not> handle_valid e0" using i0 assms(2) by (auto simp: engine_inv_def e0_def npu_start_def)
  have r1: "npu_run (calls e1) npu_start = Some (npu_start\<lparr>inits := 1\<rparr>)" using r0(1) by (simp add: e1_def npu_run_append npu_start_def)
  have p1: "engine_partial e1" "engine_partial (e1\<lparr>handle := None, handle_valid := False\<rparr>)"
    using r0 r1 by (auto simp: engine_partial_def e1_def e0_def npu_start_def)
  have r2: "npu_run (calls e2) npu_start = Some (npu_start\<lparr>inits := 1, open_handles := {#h#}\<rparr>)"
    using r1 by (simp add: e2_def npu_run_append npu_start_def)
  have p2: "engine_partial e2" "engine_partial (e2\<lparr>io_info_ptr := None\<rparr>)"
    using r0 r2 by (auto simp: engine_partial_def e2_def e1_def e0_def npu_start_def)
  note r3 = prepare_io_run [OF p r2]
  have p3: "engine_partial e3" using r3 by (auto simp: engine_partial_def e3_def e2_def e1_def e0_def npu_start_def)
  have "engine_inv e3" if "pret = 0"
    using r3 that by (auto simp: engine_inv_def e3_def e2_def e1_def e0_def npu_start_def)
  then show ?thesis
    using i0 fail_init_inv [OF p1(1)] fail_init_inv [OF p1(2)] fail_init_inv [OF p2(1)] fail_init_inv [OF p2(2)] fail_init_inv [OF p3]
    unfolding engine_init_def Let_def e0_def [symmetric] e1_def [symmetric] c prod.case e2_def [symmetric] g p e3_def [symmetric]
    by (simp split: if_splits)
qed

lemma engine_process_inv:
  assumes "engine_inv e"
  shows "engine_inv (snd (engine_process lib n e))"
proof (cases "is_ready e")
  case True
  then obtain h nfo where h: "handle e = Some h" "io_info_ptr e = Some nfo" by (auto simp: is_ready_def)
  have sz: "map bsize (fst (io_data e)) = in_sizes nfo" using assms True h by (simp add: engine_inv_def)
  show ?thesis
  proof (cases "length (in_sizes nfo) = 1 \<and> n = in_sizes nfo ! 0")
    case fits: True
    then have "length (fst (io_data e)) = 1" using arg_cong [OF sz, of length] by simp
    then obtain b where b: "fst (io_data e) = [b]" by (auto simp: length_Suc_conv)
    moreover have "bsize b = n" using sz fits b by (metis list.simps(9) nth_Cons_0)
    ultimately show ?thesis using assms True h fits
      by (simp add: engine_inv_def engine_process_def push_input_def npu_run_append is_ready_def)
  next
    case False
    then show ?thesis using assms True h by (auto simp: engine_process_def push_input_def)
  qed
qed (simp add: engine_process_def assms)

lemma engine_reach_inv: "engine_reach lib e \<Longrightarrow> engine_inv e"
proof (induction rule: engine_reach.induct)
  case reach_new
  then show ?case by (simp add: engine_inv_def engine_new_def npu_start_def is_ready_def)
qed (simp_all add: engine_init_inv engine_process_inv engine_destroy_idle engine_idle_inv engine_inv_partial)

section \<open>Property\<close>

text \<open>C14. However an engine is used (initialised, also again after a failure or a destruction, run, destroyed any number of
  times) and whatever the libraries answer, every call on the accelerator is in order: no handle and no buffer is given
  back twice or used after that, and no input is written beyond its buffer. Once destroyed, nothing is up, open or
  allocated.\<close>

theorem engine_gives_back:
  assumes "engine_reach lib e"
  shows "(\<exists>s. npu_run (calls e) npu_start = Some s \<and> (inits s = 0 \<longleftrightarrow> \<not> engine_inited e)) \<and>
    npu_run (calls (snd (engine_destroy lib e))) npu_start = Some npu_start"
proof -
  note i = engine_reach_inv [OF assms]
  have "npu_run (calls (snd (engine_destroy lib e))) npu_start = Some npu_start"
    using engine_destroy_idle [OF engine_inv_partial [OF i]] by (simp add: engine_idle_def)
  then show ?thesis using i by (auto simp: engine_inv_def)
qed

text \<open>A library whose second output buffer cannot be had.\<close>

definition demo_npu :: npu_lib where
  "demo_npu = \<lparr>ax_engine_init = (\<lambda>k. 0), read_model = (\<lambda>k. True), create_handle = (\<lambda>k. (0, 7)), create_context = (\<lambda>k. 0),
     get_io_info = (\<lambda>k. (0, \<lparr>in_sizes = [12], out_sizes = [4, 8]\<rparr>)), mem_alloc = (\<lambda>k n. (if k = 4 then 1 else 0, int (100 * k))),
     run_sync = (\<lambda>k. 0), destroy_handle = (\<lambda>k. 0)\<rparr>"

definition demo_engine :: engine where
  "demo_engine = snd (engine_process demo_npu 12 (snd (engine_init demo_npu (snd (engine_init demo_npu engine_new)))))"

lemma demo_engine_calls:
  "calls demo_engine =
     [EngineInit, CreateHandle 7, MemAlloc False \<lparr>phy = 200, bsize = 12\<rparr>, MemAlloc True \<lparr>phy = 300, bsize = 4\<rparr>,
      MemFree \<lparr>phy = 200, bsize = 12\<rparr>, MemFree \<lparr>phy = 300, bsize = 4\<rparr>, DestroyHandle 7, EngineDeinit,
      EngineInit, CreateHandle 7, MemAlloc False \<lparr>phy = 1000, bsize = 12\<rparr>, MemAlloc True \<lparr>phy = 1100, bsize = 4\<rparr>,
      MemAlloc True \<lparr>phy = 1200, bsize = 8\<rparr>, CopyInput \<lparr>phy = 1000, bsize = 12\<rparr> 12,
      FlushInput \<lparr>phy = 1000, bsize = 12\<rparr> 12, RunSync 7]"
  by code_simp

lemma demo_engine_reach: "engine_reach demo_npu demo_engine"
proof -
  have "engine_reach demo_npu (snd (engine_init demo_npu engine_new))"
    by (rule reach_init [OF reach_new]) (simp add: engine_new_def)
  moreover have "\<not> engine_inited (snd (engine_init demo_npu engine_new))" by code_simp
  ultimately show ?thesis unfolding demo_engine_def by (blast intro: reach_process reach_init)
qed

theorem engine_gives_back_witness:
  "(\<exists>s. npu_run (calls demo_engine) npu_start = Some s \<and> (inits s = 0 \<longleftrightarrow> \<not> engine_inited demo_engine)) \<and>
    npu_run (calls (snd (engine_destroy demo_npu demo_engine))) npu_start = Some npu_start"
  by (rule engine_gives_back [OF demo_engine_reach])

end
