(* ===== verification/Descent_Sort.thy ===== *)
theory Descent_Sort
  imports Ax_Prelude "HOL-Library.Multiset"
begin

text \<open>
  \<open>qsort_descent_inplace\<close> of \<open>models/detail/detection.h\<close>: quicksort with the partition of Hoare, in place, by the
  field \<open>prob\<close> of the elements, here an arbitrary key. A read outside of the array and a run that does not end are both
  \<open>None\<close>. The two recursive calls are OpenMP sections; they touch disjoint ranges and stand one after the other here.
\<close>

section \<open>The sort\<close>

function scan_up :: "('x \<Rightarrow> 'p::ord) \<Rightarrow> 'p \<Rightarrow> 'x list \<Rightarrow> int \<Rightarrow> int option" where
  "scan_up key p xs i =
     (if 0 \<le> i \<and> i < int (length xs) then
        if p < key (xs ! nat i) then scan_up key p xs (i + 1) else Some i
      else None)"
  by pat_completeness auto

termination scan_up
  by (relation "measure (\<lambda>(key, p, xs, i). nat (int (length xs) - i))") auto

function scan_down :: "('x \<Rightarrow> 'p::ord) \<Rightarrow> 'p \<Rightarrow> 'x list \<Rightarrow> int \<Rightarrow> int option" where
  "scan_down key p xs j =
     (if 0 \<le> j \<and> j < int (length xs) then
        if key (xs ! nat j) < p then scan_down key p xs (j - 1) else Some j
      else None)"
  by pat_completeness auto

termination scan_down
  by (relation "measure (\<lambda>(key, p, xs, j). nat (j + 1))") auto

declare scan_up.simps [simp del] scan_down.simps [simp del]

definition swap :: "'x list \<Rightarrow> nat \<Rightarrow> nat \<Rightarrow> 'x list" where
  "swap xs a b = xs[a := xs ! b, b := xs ! a]"

lemma scan_up_mono: "scan_up key p xs i = Some i' \<Longrightarrow> i \<le> i'"
  by (induction key p xs i rule: scan_up.induct) (subst (asm) (2) scan_up.simps, fastforce split: if_splits)

lemma scan_down_mono: "scan_down key p xs j = Some j' \<Longrightarrow> j' \<le> j"
  by (induction key p xs j rule: scan_down.induct) (subst (asm) (2) scan_down.simps, fastforce split: if_splits)

function partition_loop :: "('x \<Rightarrow> 'p::ord) \<Rightarrow> 'p \<Rightarrow> 'x list \<Rightarrow> int \<Rightarrow> int \<Rightarrow> ('x list \<times> int \<times> int) option" where
  "partition_loop key p xs i j =
     (if j < i then Some (xs, i, j)
      else case scan_up key p xs i of
        None \<Rightarrow> None
      | Some a \<Rightarrow>
          (case scan_down key p xs j of
             None \<Rightarrow> None
           | Some b \<Rightarrow>
               if a \<le> b then partition_loop key p (swap xs (nat a) (nat b)) (a + 1) (b - 1)
               else Some (xs, a, b)))"
  by pat_completeness auto

termination partition_loop
  by (relation "measure (\<lambda>(key, p, xs, i, j). nat (j - i + 1))") (auto dest!: scan_up_mono scan_down_mono)

declare partition_loop.simps [simp del]

partial_function (option) qsort_range :: "('x \<Rightarrow> 'p::ord) \<Rightarrow> 'x list \<Rightarrow> int \<Rightarrow> int \<Rightarrow> 'x list option" where
  "qsort_range key xs left right =
     Option.bind (nth_opt xs (nat (c_div (left + right) 2))) (\<lambda>m.
     Option.bind (partition_loop key (key m) xs left right) (\<lambda>(ys, i, j).
     Option.bind (if left < j then qsort_range key ys left j else Some ys) (\<lambda>zs.
     if i < right then qsort_range key zs i right else Some zs)))"

text \<open>For evaluation, so that nothing is unfolded before it is known to be needed.\<close>

lemma qsort_range_code [code]:
  "qsort_range key xs left right =
     (case nth_opt xs (nat (c_div (left + right) 2)) of
        None \<Rightarrow> None
      | Some m \<Rightarrow>
          (case partition_loop key (key m) xs left right of
             None \<Rightarrow> None
           | Some (ys, i, j) \<Rightarrow>
               (case if left < j then qsort_range key ys left j else Some ys of
                  None \<Rightarrow> None
                | Some zs \<Rightarrow> if i < right then qsort_range key zs i right else Some zs)))"
  by (subst qsort_range.simps) (simp add: Option.bind_def split: option.split)

definition qsort_descent :: "('x \<Rightarrow> 'p::ord) \<Rightarrow> 'x list \<Rightarrow> 'x list option" where
  "qsort_descent key xs = (if xs = [] then Some xs else qsort_range key xs 0 (int (length xs) - 1))"

section \<open>Rearranging a range\<close>

definition rearranged :: "int \<Rightarrow> int \<Rightarrow> 'x list \<Rightarrow> 'x list \<Rightarrow> bool" where
  "rearranged l r xs ys = (length ys = length xs \<and> mset ys = mset xs \<and>
     (\<forall>k<length xs. \<not> (l \<le> int k \<and> int k \<le> r) \<longrightarrow> ys ! k = xs ! k) \<and>
     (\<forall>k<length xs. l \<le> int k \<and> int k \<le> r \<longrightarrow> (\<exists>q<length xs. l \<le> int q \<and> int q \<le> r \<and> ys ! k = xs ! q)))"

lemma rearranged_refl: "rearranged l r xs xs"
  by (auto simp: rearranged_def)

lemma rearranged_trans: "rearranged l r xs ys \<Longrightarrow> rearranged l r ys zs \<Longrightarrow> rearranged l r xs zs"
  unfolding rearranged_def by metis

lemma rearranged_wider:
  assumes "rearranged l r xs ys" "l' \<le> l" "r \<le> r'"
  shows "rearranged l' r' xs ys"
  unfolding rearranged_def
proof (intro conjI allI impI)
  show "length ys = length xs" "mset ys = mset xs" using assms(1) by (simp_all add: rearranged_def)
  show "ys ! k = xs ! k" if "k < length xs" "\<not> (l' \<le> int k \<and> int k \<le> r')" for k
  proof -
    have "\<not> (l \<le> int k \<and> int k \<le> r)" using that(2) assms(2,3) by auto
    then show ?thesis using assms(1) that(1) by (simp add: rearranged_def)
  qed
  show "\<exists>q<length xs. l' \<le> int q \<and> int q \<le> r' \<and> ys ! k = xs ! q"
    if "k < length xs" "l' \<le> int k \<and> int k \<le> r'" for k
  proof (cases "l \<le> int k \<and> int k \<le> r")
    case True
    then obtain q where "q < length xs" "l \<le> int q" "int q \<le> r" "ys ! k = xs ! q"
      using assms(1) \<open>k < length xs\<close> by (auto simp: rearranged_def)
    then show ?thesis using assms(2,3) by (intro exI [of _ q]) simp
  next
    case False
    then show ?thesis using assms(1) that by (intro exI [of _ k]) (simp add: rearranged_def)
  qed
qed

lemma mset_swapped: "a < length xs \<Longrightarrow> b < length xs \<Longrightarrow> mset (swap xs a b) = mset xs"
  by (simp add: swap_def mset_swap)

lemma length_swap [simp]: "length (swap xs a b) = length xs"
  by (simp add: swap_def)

lemma nth_swapped: "a < length xs \<Longrightarrow> b < length xs \<Longrightarrow> k < length xs \<Longrightarrow>
   swap xs a b ! k = (if k = b then xs ! a else if k = a then xs ! b else xs ! k)"
  by (auto simp: swap_def nth_list_update)

lemma rearranged_swap:
  "a < length xs \<Longrightarrow> b < length xs \<Longrightarrow> l \<le> int a \<Longrightarrow> int a \<le> r \<Longrightarrow> l \<le> int b \<Longrightarrow> int b \<le> r \<Longrightarrow>
   rearranged l r xs (swap xs a b)"
  by (auto simp: rearranged_def mset_swapped nth_swapped)

section \<open>The partition\<close>

text \<open>Scans stop within the range when an element there stops them.\<close>

lemma scan_up_stops:
  fixes key :: "'x \<Rightarrow> 'p::linorder"
  shows "0 \<le> i \<Longrightarrow> i \<le> s \<Longrightarrow> s < int (length xs) \<Longrightarrow> key (xs ! nat s) \<le> p \<Longrightarrow>
   \<exists>a. scan_up key p xs i = Some a \<and> i \<le> a \<and> a \<le> s \<and> key (xs ! nat a) \<le> p \<and>
     (\<forall>k. i \<le> k \<and> k < a \<longrightarrow> p \<le> key (xs ! nat k))"
proof (induction key p xs i rule: scan_up.induct)
  case (1 key p xs i)
  have r: "0 \<le> i \<and> i < int (length xs)" using "1.prems" by simp
  show ?case
  proof (cases "p < key (xs ! nat i)")
    case True
    then have "i + 1 \<le> s" using "1.prems" by (cases "i = s") auto
    then obtain a where a: "scan_up key p xs (i + 1) = Some a" "i + 1 \<le> a" "a \<le> s" "key (xs ! nat a) \<le> p"
        "\<forall>k. i + 1 \<le> k \<and> k < a \<longrightarrow> p \<le> key (xs ! nat k)" using "1.IH" [OF r True] "1.prems" by auto
    have "p \<le> key (xs ! nat k)" if "i \<le> k" "k < a" for k
      using a(5) True that by (cases "k = i") auto
    then show ?thesis using a r True by (subst scan_up.simps) auto
  next
    case False
    then show ?thesis using "1.prems" r by (subst scan_up.simps) auto
  qed
qed

lemma scan_down_stops:
  fixes key :: "'x \<Rightarrow> 'p::linorder"
  shows "0 \<le> s \<Longrightarrow> s \<le> j \<Longrightarrow> j < int (length xs) \<Longrightarrow> p \<le> key (xs ! nat s) \<Longrightarrow>
   \<exists>b. scan_down key p xs j = Some b \<and> s \<le> b \<and> b \<le> j \<and> p \<le> key (xs ! nat b) \<and>
     (\<forall>k. b < k \<and> k \<le> j \<longrightarrow> key (xs ! nat k) \<le> p)"
proof (induction key p xs j rule: scan_down.induct)
  case (1 key p xs j)
  have r: "0 \<le> j \<and> j < int (length xs)" using "1.prems" by simp
  show ?case
  proof (cases "key (xs ! nat j) < p")
    case True
    then have "s \<le> j - 1" using "1.prems" by (cases "j = s") auto
    then obtain b where b: "scan_down key p xs (j - 1) = Some b" "s \<le> b" "b \<le> j - 1" "p \<le> key (xs ! nat b)"
        "\<forall>k. b < k \<and> k \<le> j - 1 \<longrightarrow> key (xs ! nat k) \<le> p" using "1.IH" [OF r True] "1.prems" by auto
    have "key (xs ! nat k) \<le> p" if "b < k" "k \<le> j" for k
      using b(5) True that by (cases "k = j") auto
    then show ?thesis using b r True by (subst scan_down.simps) auto
  next
    case False
    then show ?thesis using "1.prems" r by (subst scan_down.simps) auto
  qed
qed

text \<open>What holds between two swaps: keys left of \<open>i\<close> are at least \<open>p\<close>, those right of \<open>j\<close> at most \<open>p\<close>, and both scans
  have an element ahead that stops them.\<close>

definition parted :: "('x \<Rightarrow> 'p::ord) \<Rightarrow> 'p \<Rightarrow> int \<Rightarrow> int \<Rightarrow> 'x list \<Rightarrow> int \<Rightarrow> int \<Rightarrow> bool" where
  "parted key p l r xs i j = (l \<le> i \<and> j \<le> r \<and>
     (\<forall>k. l \<le> k \<and> k < i \<longrightarrow> p \<le> key (xs ! nat k)) \<and> (\<forall>k. j < k \<and> k \<le> r \<longrightarrow> key (xs ! nat k) \<le> p))"

definition guarded :: "('x \<Rightarrow> 'p::ord) \<Rightarrow> 'p \<Rightarrow> int \<Rightarrow> int \<Rightarrow> 'x list \<Rightarrow> int \<Rightarrow> int \<Rightarrow> bool" where
  "guarded key p l r xs i j = (i \<le> j \<longrightarrow>
     (\<exists>s. i \<le> s \<and> s \<le> r \<and> key (xs ! nat s) \<le> p) \<and> (\<exists>s. l \<le> s \<and> s \<le> j \<and> p \<le> key (xs ! nat s)))"

lemma partition_step:
  fixes key :: "'x \<Rightarrow> 'p::linorder"
  assumes "0 \<le> l" "r < int (length xs)" "parted key p l r xs i j" "guarded key p l r xs i j" "i \<le> j"
  obtains a b where "scan_up key p xs i = Some a" "scan_down key p xs j = Some b" "i \<le> a" "a \<le> r" "l \<le> b" "b \<le> j"
    "parted key p l r xs a b" "key (xs ! nat a) \<le> p" "p \<le> key (xs ! nat b)"
proof -
  have lr: "l \<le> i" "j \<le> r" using assms(3) by (simp_all add: parted_def)
  obtain s t where s: "i \<le> s" "s \<le> r" "key (xs ! nat s) \<le> p" and t: "l \<le> t" "t \<le> j" "p \<le> key (xs ! nat t)"
    using assms(4,5) by (auto simp: guarded_def)
  obtain a where a: "scan_up key p xs i = Some a" "i \<le> a" "a \<le> s" "key (xs ! nat a) \<le> p"
      "\<forall>k. i \<le> k \<and> k < a \<longrightarrow> p \<le> key (xs ! nat k)"
    using scan_up_stops [of i s xs key p] assms(1,2) lr s by auto
  obtain b where b: "scan_down key p xs j = Some b" "t \<le> b" "b \<le> j" "p \<le> key (xs ! nat b)"
      "\<forall>k. b < k \<and> k \<le> j \<longrightarrow> key (xs ! nat k) \<le> p"
    using scan_down_stops [of t j xs p key] assms(1,2) lr t by auto
  have "p \<le> key (xs ! nat k)" if "l \<le> k" "k < a" for k
    using that a(5) assms(3) by (cases "k < i") (auto simp: parted_def)
  moreover have "key (xs ! nat k) \<le> p" if "b < k" "k \<le> r" for k
    using that b(5) assms(3) by (cases "j < k") (auto simp: parted_def)
  ultimately have "parted key p l r xs a b" using lr a b by (simp add: parted_def)
  then show thesis using that a b s t by auto
qed

lemma partition_swap:
  fixes key :: "'x \<Rightarrow> 'p::linorder"
  assumes "0 \<le> l" "r < int (length xs)" "parted key p l r xs a b" "key (xs ! nat a) \<le> p" "p \<le> key (xs ! nat b)" "a \<le> b"
  defines "ys \<equiv> swap xs (nat a) (nat b)"
  shows "parted key p l r ys (a + 1) (b - 1) \<and> guarded key p l r ys (a + 1) (b - 1) \<and> rearranged l r xs ys"
proof -
  have ab: "l \<le> a" "b \<le> r" using assms(3) by (simp_all add: parted_def)
  have y: "key (ys ! nat k) = key (xs ! nat (if k = b then a else if k = a then b else k))" if "l \<le> k" "k \<le> r" for k
    unfolding ys_def using assms(1,2,6) ab that by (subst nth_swapped) auto
  have lo: "p \<le> key (ys ! nat k)" if "l \<le> k" "k < a + 1" for k
    using assms(3,5,6) ab that y [of k] by (cases "k = a") (auto simp: parted_def)
  have hi: "key (ys ! nat k) \<le> p" if "b - 1 < k" "k \<le> r" for k
    using assms(3,4,6) ab that y [of k] by (cases "k = b") (auto simp: parted_def)
  have "guarded key p l r ys (a + 1) (b - 1)"
    unfolding guarded_def
    by (intro impI conjI exI [of _ b] exI [of _ a]) (use ab hi [of b] lo [of a] in auto)
  moreover have "rearranged l r xs ys"
    unfolding ys_def by (rule rearranged_swap) (use assms(1,2,6) ab in auto)
  ultimately show ?thesis using ab lo hi by (simp add: parted_def)
qed

lemma partition_loop_ok:
  fixes key :: "'x \<Rightarrow> 'p::linorder"
  assumes "0 \<le> l" "r < int (length xs)" "parted key p l r xs i j" "guarded key p l r xs i j"
  shows "\<exists>ys a b. partition_loop key p xs i j = Some (ys, a, b) \<and> i \<le> a \<and> b \<le> j \<and> b < a \<and>
    parted key p l r ys a b \<and> rearranged l r xs ys"
  using assms
proof (induction key p xs i j rule: partition_loop.induct)
  case (1 key p xs i j)
  show ?case
  proof (cases "j < i")
    case True
    then show ?thesis using "1.prems" by (subst partition_loop.simps) (simp add: rearranged_refl)
  next
    case False
    then have ij: "i \<le> j" by simp
    obtain a b where s: "scan_up key p xs i = Some a" "scan_down key p xs j = Some b" "i \<le> a" "b \<le> j"
        "parted key p l r xs a b" "key (xs ! nat a) \<le> p" "p \<le> key (xs ! nat b)"
      using partition_step [OF "1.prems" ij] by metis
    show ?thesis
    proof (cases "a \<le> b")
      case True
      let ?ys = "swap xs (nat a) (nat b)"
      note w = partition_swap [OF "1.prems"(1,2) s(5-7) True]
      obtain zs c d where z: "partition_loop key p ?ys (a + 1) (b - 1) = Some (zs, c, d)" "a + 1 \<le> c" "d \<le> b - 1"
          "d < c" "parted key p l r zs c d" "rearranged l r ?ys zs"
        using "1.IH" [OF False s(1,2) True] w "1.prems"(1,2) by auto
      have "rearranged l r xs zs" using w z(6) rearranged_trans by blast
      moreover have "partition_loop key p xs i j = Some (zs, c, d)"
        using False s True z by (subst partition_loop.simps) simp
      ultimately show ?thesis using z s by (intro exI [of _ zs] exI [of _ c] exI [of _ d]) simp
    next
      case b: False
      have "partition_loop key p xs i j = Some (xs, a, b)" using False s b by (subst partition_loop.simps) simp
      then show ?thesis using s b by (simp add: rearranged_refl)
    qed
  qed
qed

text \<open>With the pivot in the range, the first pass swaps, so both parts are shorter than the range.\<close>

lemma partition_ok:
  fixes key :: "'x \<Rightarrow> 'p::linorder"
  assumes "0 \<le> l" "l \<le> r" "r < int (length xs)" "l \<le> m" "m \<le> r"
  defines "p \<equiv> key (xs ! nat m)"
  shows "\<exists>ys a b. partition_loop key p xs l r = Some (ys, a, b) \<and> l < a \<and> b < r \<and> b < a \<and>
    parted key p l r ys a b \<and> rearranged l r xs ys"
proof -
  have pt: "parted key p l r xs l r" unfolding parted_def by auto
  obtain a where a: "scan_up key p xs l = Some a" "l \<le> a" "a \<le> m" "key (xs ! nat a) \<le> p"
      "\<forall>k. l \<le> k \<and> k < a \<longrightarrow> p \<le> key (xs ! nat k)"
    using scan_up_stops [of l m xs key p] assms by auto
  obtain b where b: "scan_down key p xs r = Some b" "m \<le> b" "b \<le> r" "p \<le> key (xs ! nat b)"
      "\<forall>k. b < k \<and> k \<le> r \<longrightarrow> key (xs ! nat k) \<le> p"
    using scan_down_stops [of m r xs p key] assms by auto
  have ab: "a \<le> b" using a b by simp
  have "parted key p l r xs a b" using a b by (simp add: parted_def)
  note w = partition_swap [OF assms(1,3) this a(4) b(4) ab]
  have "int (length (swap xs (nat a) (nat b))) = int (length xs)" by simp
  then obtain zs c d where z: "partition_loop key p (swap xs (nat a) (nat b)) (a + 1) (b - 1) = Some (zs, c, d)" "a + 1 \<le> c"
      "d \<le> b - 1" "d < c" "parted key p l r zs c d" "rearranged l r (swap xs (nat a) (nat b)) zs"
    using partition_loop_ok [of l r "swap xs (nat a) (nat b)" key p] w assms(1,3) by metis
  have "partition_loop key p xs l r = Some (zs, c, d)"
    using assms(2) a b ab z by (subst partition_loop.simps) simp
  moreover have "rearranged l r xs zs" using w z(6) rearranged_trans by blast
  ultimately show ?thesis using a b z by (intro exI [of _ zs] exI [of _ c] exI [of _ d]) simp
qed

definition descending :: "('x \<Rightarrow> 'p::ord) \<Rightarrow> int \<Rightarrow> int \<Rightarrow> 'x list \<Rightarrow> bool" where
  "descending key l r xs = (\<forall>a b. l \<le> a \<and> a \<le> b \<and> b \<le> r \<longrightarrow> key (xs ! nat b) \<le> key (xs ! nat a))"

lemma rearranged_outside: "rearranged l r xs ys \<Longrightarrow> 0 \<le> k \<Longrightarrow> k < int (length xs) \<Longrightarrow> k < l \<or> r < k \<Longrightarrow> ys ! nat k = xs ! nat k"
  by (auto simp: rearranged_def)

lemma rearranged_inside:
  assumes "rearranged l r xs ys" "0 \<le> k" "k < int (length xs)" "l \<le> k" "k \<le> r" "\<And>q. 0 \<le> q \<Longrightarrow> l \<le> q \<Longrightarrow> q \<le> r \<Longrightarrow> P (xs ! nat q)"
  shows "P (ys ! nat k)"
proof -
  obtain q where "q < length xs" "l \<le> int q" "int q \<le> r" "ys ! nat k = xs ! q"
    using assms(1-5) unfolding rearranged_def by (metis nat_0_le nat_less_iff)
  then show ?thesis using assms(6) [of "int q"] by simp
qed

text \<open>Two sorted parts, with a middle of keys equal to the pivot.\<close>

lemma descending_join:
  fixes key :: "'x \<Rightarrow> 'p::linorder"
  assumes lr: "0 \<le> l" "r < int (length ys)" and ab: "l < a" "b < r" "b < a" and pt: "parted key p l r ys a b"
    and z: "rearranged l b ys zs" "descending key l b zs" and w: "rearranged a r zs ws" "descending key a r ws"
  shows "descending key l r ws"
proof -
  have len: "length zs = length ys" "length ws = length ys" using z(1) w(1) by (simp_all add: rearranged_def)
  have zhi: "p \<le> key (zs ! nat k)" if "l \<le> k" "k < a" "k \<le> r" for k
  proof (cases "k \<le> b")
    case True
    show ?thesis by (rule rearranged_inside [OF z(1)]) (use that True lr ab pt in \<open>auto simp: parted_def\<close>)
  next
    case False
    then show ?thesis using rearranged_outside [OF z(1)] that lr ab pt False by (auto simp: parted_def)
  qed
  have zlo: "key (zs ! nat k) \<le> p" if "b < k" "k \<le> r" "l \<le> k" for k
    using rearranged_outside [OF z(1)] that lr pt by (auto simp: parted_def)
  have left: "ws ! nat k = zs ! nat k" if "l \<le> k" "k < a" "k \<le> r" for k
    using rearranged_outside [OF w(1)] that lr len by auto
  have right: "key (ws ! nat k) \<le> p" if "a \<le> k" "k \<le> r" for k
    by (rule rearranged_inside [OF w(1)]) (use that lr len ab zlo in auto)
  show ?thesis
    unfolding descending_def
  proof (intro allI impI)
    fix c d assume cd: "l \<le> c \<and> c \<le> d \<and> d \<le> r"
    consider "a \<le> c" | "c < a" "a \<le> d" | "d \<le> b" | "c < a" "d < a" "b < d" by linarith
    then show "key (ws ! nat d) \<le> key (ws ! nat c)"
    proof cases
      case 1
      then show ?thesis using w(2) cd by (simp add: descending_def)
    next
      case 2
      then have "key (ws ! nat d) \<le> p" "p \<le> key (ws ! nat c)" using right zhi left cd by auto
      then show ?thesis by simp
    next
      case 3
      then show ?thesis using z(2) cd left ab by (auto simp: descending_def)
    next
      case 4
      then have "key (ws ! nat d) \<le> p" "p \<le> key (ws ! nat c)" using zlo [of d] zhi [of c] left cd by auto
      then show ?thesis by simp
    qed
  qed
qed

lemma descending_single:
  fixes key :: "'x \<Rightarrow> 'p::linorder"
  assumes "r \<le> l"
  shows "descending key l r xs"
proof -
  have "a = b" if "l \<le> a" "a \<le> b" "b \<le> r" for a b using that assms by linarith
  then show ?thesis unfolding descending_def by blast
qed

lemma qsort_range_ok:
  fixes key :: "'x \<Rightarrow> 'p::linorder"
  assumes "0 \<le> l" "l \<le> r" "r < int (length xs)"
  shows "\<exists>ys. qsort_range key xs l r = Some ys \<and> rearranged l r xs ys \<and> descending key l r ys"
  using assms
proof (induction "nat (r - l)" arbitrary: l r xs rule: less_induct)
  case less
  define m where "m = c_div (l + r) 2"
  have m: "l \<le> m" "m \<le> r" using less.prems by (simp_all add: m_def c_div_nonneg)
  then have pick: "nth_opt xs (nat m) = Some (xs ! nat m)" using less.prems by (simp add: nth_opt_def)
  obtain ys a b where y: "partition_loop key (key (xs ! nat m)) xs l r = Some (ys, a, b)" "l < a" "b < r" "b < a"
      "parted key (key (xs ! nat m)) l r ys a b" "rearranged l r xs ys"
    using partition_ok [OF less.prems m, of key] by auto
  have ylen: "length ys = length xs" using y(6) by (simp add: rearranged_def)
  have "\<exists>zs. (if l < b then qsort_range key ys l b else Some ys) = Some zs \<and> rearranged l b ys zs \<and> descending key l b zs"
    using less.hyps [of b l ys] y less.prems ylen by (cases "l < b") (auto simp: rearranged_refl descending_single)
  then obtain zs where z: "(if l < b then qsort_range key ys l b else Some ys) = Some zs" "rearranged l b ys zs"
      "descending key l b zs" by blast
  have zlen: "length zs = length xs" using z(2) ylen by (simp add: rearranged_def)
  have "\<exists>ws. (if a < r then qsort_range key zs a r else Some zs) = Some ws \<and> rearranged a r zs ws \<and> descending key a r ws"
    using less.hyps [of r a zs] y less.prems zlen by (cases "a < r") (auto simp: rearranged_refl descending_single)
  then obtain ws where w: "(if a < r then qsort_range key zs a r else Some zs) = Some ws" "rearranged a r zs ws"
      "descending key a r ws" by blast
  have "qsort_range key xs l r = Some ws"
    using pick y(1) z(1) w(1) by (subst qsort_range.simps) (simp add: m_def)
  moreover have "rearranged l r xs ws"
    using y(2-4,6) rearranged_wider [OF z(2), of l r] rearranged_wider [OF w(2), of l r] rearranged_trans by (metis less_imp_le order_refl)
  moreover have "descending key l r ws"
    using descending_join [OF less.prems(1) _ y(2-5) z(2,3) w(2,3)] less.prems(3) ylen by simp
  ultimately show ?case by blast
qed

theorem qsort_descent_sorts:
  fixes key :: "'x \<Rightarrow> 'p::linorder"
  shows "\<exists>ys. qsort_descent key xs = Some ys \<and> mset ys = mset xs \<and> sorted_wrt (\<lambda>a b. key b \<le> key a) ys"
proof (cases "xs = []")
  case False
  then obtain ys where y: "qsort_range key xs 0 (int (length xs) - 1) = Some ys"
      "rearranged 0 (int (length xs) - 1) xs ys" "descending key 0 (int (length xs) - 1) ys"
    using qsort_range_ok [of 0 "int (length xs) - 1" xs key] by (cases xs) auto
  have "sorted_wrt (\<lambda>a b. key b \<le> key a) ys"
    unfolding sorted_wrt_iff_nth_less
  proof (intro allI impI)
    fix i j assume "i < j" "j < length ys"
    then have "0 \<le> int i \<and> int i \<le> int j \<and> int j \<le> int (length xs) - 1" using y(2) by (simp add: rearranged_def)
    then have "key (ys ! nat (int j)) \<le> key (ys ! nat (int i))" using y(3) unfolding descending_def by blast
    then show "key (ys ! j) \<le> key (ys ! i)" by simp
  qed
  then show ?thesis using y False by (simp add: qsort_descent_def rearranged_def)
qed (simp add: qsort_descent_def)

end
