(* ===== verification/Detect_Post.thy ===== *)
theory Detect_Post
  imports Face_Align Descent_Sort "HOL-Library.Word"
begin

text \<open>
  What becomes of the tensors of a detector: the proposals of YOLOv5, their suppression and their way back to the
  picture (\<open>models/yolov5.cpp\<close> and what it uses of \<open>models/detail/detection.h\<close>), the faces of SCRFD
  (\<open>models/scrfd.cpp\<close>) and the names of labels (\<open>models/label_names.cpp\<close>). \<open>float\<close> and \<open>double\<close> are one type of numbers.
  Outside of an array, through a null pointer or with an uninitialised index the outcome is \<open>None\<close>. The field
  \<open>angle\<close>, which neither detector sets, is 0. Operations on rectangles are OpenCV's and arguments, so is the order in
  which \<open>std::sort\<close> leaves equal elements.
\<close>

section \<open>Libraries\<close>

record 'f math_lib = "'f float_lib" +
  fexp :: "'f \<Rightarrow> 'f"
  flog :: "'f \<Rightarrow> 'f"
  flt_max :: 'f

text \<open>\<open>rect_overlap\<close> is the area of the intersection, rounded to whole coordinates; none when that is empty.\<close>

record 'f cv_lib =
  rect_and :: "'f rectf \<Rightarrow> 'f rectf \<Rightarrow> 'f rectf"
  rect_area :: "'f rectf \<Rightarrow> 'f"
  rect_overlap :: "'f rectf \<Rightarrow> 'f rectf \<Rightarrow> 'f option"

text \<open>Conversion to \<open>int\<close> rounds towards zero.\<close>

definition ftrunc :: "('f::{zero,ord}, 'z) float_lib_scheme \<Rightarrow> 'f \<Rightarrow> int" where
  "ftrunc fl x = (if x < 0 then fceil fl x else ffloor fl x)"

definition sigmoid :: "('f::{zero,one,plus,uminus,inverse}, 'z) math_lib_scheme \<Rightarrow> 'f \<Rightarrow> 'f" where
  "sigmoid fl x = 1 / (1 + fexp fl (- x))"

definition new_object :: "'f::zero object" where
  "new_object = \<lparr>rect = \<lparr>rx = 0, ry = 0, rwidth = 0, rheight = 0\<rparr>, label = 0, prob = 0,
     landmark = replicate 5 \<lparr>px = 0, py = 0\<rparr>, mask_feat = [], kps_feat = [], angle = 0, model_name = [],
     label_name = [], track_id = - 1\<rparr>"

text \<open>Reading \<open>n\<close> values from a position on.\<close>

definition read_block :: "'f list \<Rightarrow> nat \<Rightarrow> nat \<Rightarrow> 'f list option" where
  "read_block xs p n = (if p + n \<le> length xs then Some (map (\<lambda>k. xs ! (p + k)) [0..<n]) else None)"

section \<open>Label names\<close>

definition label_error :: "string list \<Rightarrow> nat \<Rightarrow> 'f object \<Rightarrow> string" where
  "label_error labels i ob = ''label index '' @ to_string (label ob) @ '' at object '' @ nat_to_string i @
     '' is out of range [0, '' @ nat_to_string (length labels) @ '')''"

definition assign_label_names :: "string list \<Rightarrow> 'f object list \<Rightarrow> string + 'f object list" where
  "assign_label_names labels obs =
     (case find (\<lambda>i. label (obs ! i) < 0 \<or> length labels \<le> nat (label (obs ! i))) [0..<length obs] of
        Some i \<Rightarrow> Inl (label_error labels i (obs ! i))
      | None \<Rightarrow> Inr (map (\<lambda>ob. ob\<lparr>label_name := labels ! nat (label ob)\<rparr>) obs))"

section \<open>Suppression\<close>

definition overlaps :: "('f::{zero,one,plus,minus,inverse,ord}, 'y) cv_lib_scheme \<Rightarrow> 'f \<Rightarrow> 'f rectf \<Rightarrow> 'f rectf \<Rightarrow> bool" where
  "overlaps cv thr a b =
     (let common = rect_area cv (rect_and cv a b)
      in thr < common / (rect_area cv a + rect_area cv b - common))"

definition nms_sorted_bboxes ::
    "('f::{zero,one,plus,minus,inverse,ord}, 'y) cv_lib_scheme \<Rightarrow> 'f \<Rightarrow> 'f object list \<Rightarrow> nat list" where
  "nms_sorted_bboxes cv thr obs =
     fold (\<lambda>i picked. if list_ex (\<lambda>j. overlaps cv thr (rect (obs ! i)) (rect (obs ! j))) picked then picked
                       else picked @ [i]) [0..<length obs] []"

section \<open>Back to the picture\<close>

record 'f letterbox =
  tmp_w :: int
  tmp_h :: int
  ratio_x :: 'f
  ratio_y :: 'f

definition letterbox_of ::
    "('f::{zero,one,times,inverse,ord}, 'z) float_lib_scheme \<Rightarrow> int \<Rightarrow> int \<Rightarrow> int \<Rightarrow> int \<Rightarrow> 'f letterbox" where
  "letterbox_of fl letterbox_rows letterbox_cols src_rows src_cols =
     (let by_rows = of_i fl letterbox_rows * 1 / of_i fl src_rows;
          by_cols = of_i fl letterbox_cols * 1 / of_i fl src_cols;
          scale = (if by_rows < by_cols then by_rows else by_cols);
          resize_cols = ftrunc fl (scale * of_i fl src_cols);
          resize_rows = ftrunc fl (scale * of_i fl src_rows)
      in \<lparr>tmp_w = c_div (letterbox_cols - resize_cols) 2, tmp_h = c_div (letterbox_rows - resize_rows) 2,
          ratio_x = of_i fl src_rows / of_i fl resize_rows, ratio_y = of_i fl src_cols / of_i fl resize_cols\<rparr>)"

definition clamp_to :: "'f::{zero,ord} \<Rightarrow> 'f \<Rightarrow> 'f" where
  "clamp_to hi x = std_max (std_min x hi) 0"

definition to_picture ::
    "('f::{zero,plus,minus,times,ord}, 'z) float_lib_scheme \<Rightarrow> 'f letterbox \<Rightarrow> int \<Rightarrow> int \<Rightarrow> 'f object \<Rightarrow> 'f object" where
  "to_picture fl lb src_rows src_cols ob =
     (let r = rect ob;
          back_x = (\<lambda>x. (x - of_i fl (tmp_w lb)) * ratio_x lb);
          back_y = (\<lambda>y. (y - of_i fl (tmp_h lb)) * ratio_y lb);
          w = of_i fl (src_cols - 1); h = of_i fl (src_rows - 1);
          x0 = clamp_to w (back_x (rx r)); y0 = clamp_to h (back_y (ry r));
          x1 = clamp_to w (back_x (rx r + rwidth r)); y1 = clamp_to h (back_y (ry r + rheight r))
      in ob\<lparr>landmark := map (\<lambda>p. \<lparr>px = back_x (px p), py = back_y (py p)\<rparr>) (landmark ob),
            rect := \<lparr>rx = x0, ry = y0, rwidth = x1 - x0, rheight = y1 - y0\<rparr>\<rparr>)"

definition get_out_bbox ::
    "('f::{zero,one,plus,minus,times,inverse,ord}, 'z) float_lib_scheme \<Rightarrow> ('f, 'y) cv_lib_scheme \<Rightarrow> 'f object list \<Rightarrow>
     'f \<Rightarrow> int \<Rightarrow> int \<Rightarrow> int \<Rightarrow> int \<Rightarrow> 'f object list option" where
  "get_out_bbox fl cv proposals thr letterbox_rows letterbox_cols src_rows src_cols =
     map_option (\<lambda>ps. map (\<lambda>i. to_picture fl (letterbox_of fl letterbox_rows letterbox_cols src_rows src_cols)
                              src_rows src_cols (ps ! i)) (nms_sorted_bboxes cv thr ps))
       (qsort_descent prob proposals)"

section \<open>YOLOv5\<close>

fun anchor_group :: "int \<Rightarrow> nat option" where
  "anchor_group stride = (if stride = 32 then Some 3 else if stride = 16 then Some 2 else if stride = 8 then Some 1 else None)"

fun best_class :: "'f::ord list \<Rightarrow> nat \<Rightarrow> nat list \<Rightarrow> nat \<times> 'f \<Rightarrow> (nat \<times> 'f) option" where
  "best_class feat p [] best = Some best"
| "best_class feat p (s # ss) best =
     (case nth_opt feat (p + s + 5) of
        None \<Rightarrow> None
      | Some sc \<Rightarrow> best_class feat p ss (if snd best < sc then (s, sc) else best))"

text \<open>The box an anchor makes of the first four values of a cell.\<close>

definition anchor_box ::
    "('f::{zero,one,plus,minus,uminus,times,inverse,ord}, 'z) math_lib_scheme \<Rightarrow> int \<Rightarrow> nat \<Rightarrow> nat \<Rightarrow> 'f \<Rightarrow> 'f \<Rightarrow>
     'f \<Rightarrow> 'f \<Rightarrow> 'f \<Rightarrow> 'f \<Rightarrow> 'f rectf" where
  "anchor_box fl stride h w f0 f1 f2 f3 aw ah =
     (let pred_cx = (sigmoid fl f0 * small 2 - dec 5 10 + of_i fl (int w)) * of_i fl stride;
          pred_cy = (sigmoid fl f1 * small 2 - dec 5 10 + of_i fl (int h)) * of_i fl stride;
          dw = sigmoid fl f2; dh = sigmoid fl f3;
          pred_w = dw * dw * small 4 * aw; pred_h = dh * dh * small 4 * ah;
          x0 = pred_cx - pred_w * dec 5 10; y0 = pred_cy - pred_h * dec 5 10;
          x1 = pred_cx + pred_w * dec 5 10; y1 = pred_cy + pred_h * dec 5 10
      in \<lparr>rx = x0, ry = y0, rwidth = x1 - x0, rheight = y1 - y0\<rparr>)"

definition cell_proposal ::
    "('f::{zero,one,plus,minus,uminus,times,inverse,ord}, 'z) math_lib_scheme \<Rightarrow> int \<Rightarrow> 'f list \<Rightarrow> 'f \<Rightarrow> 'f list \<Rightarrow>
     'f \<Rightarrow> nat \<Rightarrow> nat \<Rightarrow> nat \<times> nat \<times> nat \<Rightarrow> 'f object list option" where
  "cell_proposal fl stride feat thr anchors unsig cls p = (\<lambda>(h, w, a).
     Option.bind (nth_opt feat (p + 4)) (\<lambda>box_score.
     if box_score < unsig then Some []
     else Option.bind (best_class feat p [0..<cls] (0, - flt_max fl)) (\<lambda>(class_index, class_score).
       let final_score = sigmoid fl box_score * sigmoid fl class_score
       in if thr \<le> final_score then
            Option.bind (anchor_group stride) (\<lambda>g.
            Option.bind (nth_opt feat p) (\<lambda>f0.
            Option.bind (nth_opt feat (p + 1)) (\<lambda>f1.
            Option.bind (nth_opt feat (p + 2)) (\<lambda>f2.
            Option.bind (nth_opt feat (p + 3)) (\<lambda>f3.
            Option.bind (nth_opt anchors ((g - 1) * 6 + a * 2)) (\<lambda>aw.
            Option.bind (nth_opt anchors ((g - 1) * 6 + a * 2 + 1)) (\<lambda>ah.
              Some [new_object\<lparr>rect := anchor_box fl stride h w f0 f1 f2 f3 aw ah,
                               label := int class_index, prob := final_score\<rparr>])))))))
          else Some [])))"

text \<open>The cells in the order of the loops; the pointer into the tensor advances by one cell each time.\<close>

definition cells :: "nat \<Rightarrow> nat \<Rightarrow> (nat \<times> nat \<times> nat) list" where
  "cells fh fw = concat (map (\<lambda>h. concat (map (\<lambda>w. map (\<lambda>a. (h, w, a)) [0..<3]) [0..<fw])) [0..<fh])"

fun walk_cells :: "(nat \<Rightarrow> 'c \<Rightarrow> 'o list option) \<Rightarrow> nat \<Rightarrow> nat \<Rightarrow> 'c list \<Rightarrow> 'o list option" where
  "walk_cells f step p [] = Some []"
| "walk_cells f step p (c # cs) =
     Option.bind (f p c) (\<lambda>os. map_option (\<lambda>rest. os @ rest) (walk_cells f step (p + step) cs))"

definition generate_proposals_yolov5 ::
    "('f::{zero,one,plus,minus,uminus,times,inverse,ord}, 'z) math_lib_scheme \<Rightarrow> int \<Rightarrow> 'f list \<Rightarrow> 'f \<Rightarrow> int \<Rightarrow> int \<Rightarrow>
     'f list \<Rightarrow> 'f \<Rightarrow> nat \<Rightarrow> 'f object list option" where
  "generate_proposals_yolov5 fl stride feat thr letterbox_cols letterbox_rows anchors unsig cls =
     walk_cells (cell_proposal fl stride feat thr anchors unsig cls) (cls + 5) 0
       (cells (nat (c_div letterbox_rows stride)) (nat (c_div letterbox_cols stride)))"

text \<open>An output tensor: its size in bytes and the floats behind its address, when that is not null.\<close>

record 'f tensor =
  nsize :: "32 word"
  virt :: "'f list option"

record 'f yolov5_config =
  y_inputs :: "int list"
  y_prob_threshold :: 'f
  y_nms_threshold :: 'f
  y_num_anchors :: "int list"
  y_anchors :: "'f list list"
  y_strides :: "int list"
  y_labels :: "string list"

definition count_size :: "int \<Rightarrow> int \<Rightarrow> int \<Rightarrow> nat \<Rightarrow> 64 word" where
  "count_size letterbox_cols letterbox_rows stride labels =
     word_of_int (c_div letterbox_cols stride) * word_of_int (c_div letterbox_rows stride) * (of_nat labels + 5) * 3 * 4"

fun yolov5_levels ::
    "('f::{zero,one,plus,minus,uminus,times,inverse,ord}, 'z) math_lib_scheme \<Rightarrow> 'f yolov5_config \<Rightarrow> int \<Rightarrow> int \<Rightarrow>
     'f tensor list \<Rightarrow> nat list \<Rightarrow> 'f object list \<Rightarrow> (int + 'f object list) option" where
  "yolov5_levels fl cfg rows cols outs [] acc = Some (Inr acc)"
| "yolov5_levels fl cfg rows cols outs (i # rest) acc =
     Option.bind (nth_opt outs i) (\<lambda>output.
     let stride = y_strides cfg ! i
     in if count_size cols rows stride (length (y_labels cfg)) \<noteq> ucast (nsize output) then Some (Inl (- 2))
        else Option.bind (virt output) (\<lambda>feat.
             Option.bind (generate_proposals_yolov5 fl stride feat (y_prob_threshold cfg) cols rows
                 (concat (y_anchors cfg)) (- 1 * flog fl (1 / y_prob_threshold cfg - 1)) (length (y_labels cfg)))
               (\<lambda>ps. yolov5_levels fl cfg rows cols outs rest (acc @ ps))))"

text \<open>\<open>n_outputs\<close> is the number of outputs the engine reports, when it has been initialised.\<close>

definition yolov5_postprocess ::
    "('f::{zero,one,plus,minus,uminus,times,inverse,ord}, 'z) math_lib_scheme \<Rightarrow> ('f, 'y) cv_lib_scheme \<Rightarrow>
     'f yolov5_config \<Rightarrow> nat option \<Rightarrow> 'f tensor list \<Rightarrow> int \<Rightarrow> int \<Rightarrow> 'f object list \<Rightarrow> (int \<times> 'f object list) option" where
  "yolov5_postprocess fl cv cfg n_outputs outs pic_width pic_height objects =
     Option.bind (nth_opt (y_inputs cfg) 2) (\<lambda>rows.
     Option.bind (nth_opt (y_inputs cfg) 3) (\<lambda>cols.
     (case n_outputs of
        None \<Rightarrow> None
      | Some n \<Rightarrow>
       if n \<noteq> length (y_strides cfg) then Some (- 1, objects)
       else if list_ex (\<lambda>i. (y_strides cfg ! i \<noteq> 8 \<and> y_strides cfg ! i \<noteq> 16 \<and> y_strides cfg ! i \<noteq> 32) \<or>
                            (i < length (y_num_anchors cfg) \<and> y_num_anchors cfg ! i \<noteq> 3)) [0..<n]
       then Some (- 1, objects)
       else Option.bind (yolov5_levels fl cfg rows cols outs [0..<n] []) (\<lambda>r.
         case r of
           Inl code \<Rightarrow> Some (code, objects)
         | Inr proposals \<Rightarrow>
             map_option (\<lambda>obs. case assign_label_names (y_labels cfg) obs of
                                 Inl e \<Rightarrow> (- 1, obs)
                               | Inr named \<Rightarrow> (0, named))
               (get_out_bbox fl cv proposals (y_nms_threshold cfg) rows cols pic_height pic_width)))))"

section \<open>What suppression leaves\<close>

text \<open>For any relation: the greedy pass over positions keeps those that no kept one before suppresses.\<close>

definition greedy :: "(nat \<Rightarrow> nat \<Rightarrow> bool) \<Rightarrow> nat list \<Rightarrow> nat list \<Rightarrow> bool" where
  "greedy kills seq picked = (set picked \<subseteq> set seq \<and>
     (\<forall>b<length picked. \<forall>a<b. \<not> kills (picked ! b) (picked ! a)) \<and>
     (\<forall>i \<in> set seq - set picked. \<exists>j \<in> set picked. kills i j))"

lemma nms_greedy:
  "sorted_wrt (<) (nms_sorted_bboxes cv thr obs) \<and>
   greedy (\<lambda>i j. j < i \<and> overlaps cv thr (rect (obs ! i)) (rect (obs ! j))) [0..<length obs] (nms_sorted_bboxes cv thr obs)"
proof -
  let ?o = "\<lambda>i j. overlaps cv thr (rect (obs ! i)) (rect (obs ! j))"
  let ?step = "\<lambda>i picked. if list_ex (?o i) picked then picked else picked @ [i]"
  have "sorted_wrt (<) (fold ?step [0..<n] []) \<and> greedy (\<lambda>i j. j < i \<and> ?o i j) [0..<n] (fold ?step [0..<n] [])" for n
  proof (induction n)
    case 0
    then show ?case by (simp add: greedy_def)
  next
    case (Suc n)
    let ?p = "fold ?step [0..<n] []"
    have s: "sorted_wrt (<) ?p" and g: "greedy (\<lambda>i j. j < i \<and> ?o i j) [0..<n] ?p" using Suc by simp_all
    have sub: "set ?p \<subseteq> {..<n}" using g by (auto simp: greedy_def)
    have e: "fold ?step [0..<Suc n] [] = ?step n ?p" by simp
    show ?case
    proof (cases "list_ex (?o n) ?p")
      case True
      then obtain j where "j \<in> set ?p" "?o n j" by (auto simp: list_ex_iff)
      then have "greedy (\<lambda>i j. j < i \<and> ?o i j) [0..<Suc n] ?p"
        using g sub unfolding greedy_def by (auto simp: less_Suc_eq)
      then show ?thesis using s True unfolding e by simp
    next
      case False
      then have no: "\<not> ?o n j" if "j \<in> set ?p" for j using that by (auto simp: list_ex_iff)
      have "greedy (\<lambda>i j. j < i \<and> ?o i j) [0..<Suc n] (?p @ [n])"
        unfolding greedy_def
      proof (intro conjI allI impI ballI)
        show "set (?p @ [n]) \<subseteq> set [0..<Suc n]" using sub by auto
        show "\<not> ((?p @ [n]) ! a < (?p @ [n]) ! b \<and> ?o ((?p @ [n]) ! b) ((?p @ [n]) ! a))"
          if "b < length (?p @ [n])" "a < b" for a b
          using that g no by (cases "b = length ?p") (auto simp: greedy_def nth_append)
        show "\<exists>j\<in>set (?p @ [n]). j < i \<and> ?o i j" if "i \<in> set [0..<Suc n] - set (?p @ [n])" for i
          using that g by (auto simp: greedy_def)
      qed
      moreover have "sorted_wrt (<) (?p @ [n])" using s sub by (auto simp: sorted_wrt_append)
      ultimately show ?thesis using False unfolding e by simp
    qed
  qed
  then show ?thesis by (simp add: nms_sorted_bboxes_def)
qed

end
