(* ===== verification/Detect_Post_Inv.thy ===== *)
theory Detect_Post_Inv
  imports Detect_Post
begin

text \<open>
  YOLOv5's post-processing reads within its tensors and its anchors whenever the sizes it checks are true and the
  anchors are complete, and what it reports lies in the picture, best first, without what a better proposal overlaps.
\<close>

section \<open>Walking over the tensor\<close>

lemma walk_cells_all:
  assumes "\<And>k. k < length cs \<Longrightarrow> \<exists>os. f (p + k * step) (cs ! k) = Some os \<and> (\<forall>ob \<in> set os. P ob)"
  shows "\<exists>os. walk_cells f step p cs = Some os \<and> (\<forall>ob \<in> set os. P ob)"
  using assms
proof (induction cs arbitrary: p)
  case (Cons c cs)
  obtain os where os: "f p c = Some os" "\<forall>ob \<in> set os. P ob" using Cons.prems [of 0] by auto
  have "\<exists>os. f (p + step + k * step) (cs ! k) = Some os \<and> (\<forall>ob \<in> set os. P ob)" if "k < length cs" for k
    using Cons.prems [of "Suc k"] that by (simp add: algebra_simps)
  from Cons.IH [OF this] obtain rest where "walk_cells f step (p + step) cs = Some rest" "\<forall>ob \<in> set rest. P ob" by blast
  then show ?case using os by auto
qed simp

lemma length_concat_same: "(\<And>x. x \<in> set xs \<Longrightarrow> length x = n) \<Longrightarrow> length (concat xs) = length xs * n"
  by (induction xs) auto

lemma length_cells: "length (cells fh fw) = fh * fw * 3"
proof -
  have "length (concat (map (\<lambda>w. map (\<lambda>a. (h, w, a)) [0..<3]) [0..<fw])) = fw * 3" for h :: nat
    by (subst length_concat_same [where n = 3]) auto
  then show ?thesis unfolding cells_def by (subst length_concat_same [where n = "fw * 3"]) auto
qed

lemma anchor_of_cell: "(h, w, a) \<in> set (cells fh fw) \<Longrightarrow> a < 3"
  by (auto simp: cells_def)

lemma best_class_ok:
  "\<forall>s \<in> set ss. p + s + 5 < length feat \<Longrightarrow>
   \<exists>b. best_class feat p ss best = Some b \<and> (fst b = fst best \<or> fst b \<in> set ss)"
proof (induction ss arbitrary: best)
  case (Cons s ss)
  then have "nth_opt feat (p + s + 5) = Some (feat ! (p + s + 5))" by (simp add: nth_opt_def)
  then show ?case using Cons by (cases "snd best < feat ! (p + s + 5)") fastforce+
qed simp

section \<open>Proposals\<close>

definition proposal_ok :: "'f::{zero,ord} \<Rightarrow> nat \<Rightarrow> 'f object \<Rightarrow> bool" where
  "proposal_ok thr cls ob = (0 \<le> label ob \<and> nat (label ob) < cls \<and> thr \<le> prob ob \<and>
     0 \<le> rwidth (rect ob) \<and> 0 \<le> rheight (rect ob))"

lemma anchor_box_nonneg:
  fixes fl :: "('f::linordered_field, 'z) math_lib_scheme"
  assumes "0 \<le> aw" "0 \<le> ah"
  shows "0 \<le> rwidth (anchor_box fl stride h w f0 f1 f2 f3 aw ah) \<and> 0 \<le> rheight (anchor_box fl stride h w f0 f1 f2 f3 aw ah)"
proof -
  have half: "dec 5 10 = (1 / 2 :: 'f)" by (simp add: dec_def eval_nat_numeral)
  have four: "(0::'f) \<le> small 4" by (simp add: eval_nat_numeral)
  have "0 \<le> sigmoid fl f2 * sigmoid fl f2 * small 4 * aw" "0 \<le> sigmoid fl f3 * sigmoid fl f3 * small 4 * ah"
    using assms four by (auto intro!: mult_nonneg_nonneg)
  then show ?thesis by (simp add: anchor_box_def Let_def half)
qed

lemma cell_proposal_ok:
  fixes fl :: "('f::linordered_field, 'z) math_lib_scheme"
  assumes "p + cls + 5 \<le> length feat" "18 \<le> length anchors" "\<forall>x \<in> set anchors. 0 \<le> x" "0 < cls" "a < 3"
    and "stride = 8 \<or> stride = 16 \<or> stride = 32"
  shows "\<exists>os. cell_proposal fl stride feat thr anchors unsig cls p (h, w, a) = Some os \<and> (\<forall>ob \<in> set os. proposal_ok thr cls ob)"
proof -
  have f: "nth_opt feat (p + 4) = Some (feat ! (p + 4))" "nth_opt feat p = Some (feat ! p)"
    "nth_opt feat (p + 1) = Some (feat ! (p + 1))" "nth_opt feat (p + 2) = Some (feat ! (p + 2))"
    "nth_opt feat (p + 3) = Some (feat ! (p + 3))" using assms(1) by (simp_all add: nth_opt_def)
  obtain g where g: "anchor_group stride = Some g" "g = 1 \<or> g = 2 \<or> g = 3" using assms(6) by auto
  have i: "(g - 1) * 6 + a * 2 + 1 < length anchors" using g(2) assms(2,5) by auto
  have an: "nth_opt anchors ((g - 1) * 6 + a * 2) = Some (anchors ! ((g - 1) * 6 + a * 2))"
    "nth_opt anchors ((g - 1) * 6 + a * 2 + 1) = Some (anchors ! ((g - 1) * 6 + a * 2 + 1))"
    using i by (simp_all add: nth_opt_def)
  have ge: "0 \<le> anchors ! ((g - 1) * 6 + a * 2)" "0 \<le> anchors ! ((g - 1) * 6 + a * 2 + 1)"
    using assms(3) i by auto
  obtain ci cs where b: "best_class feat p [0..<cls] (0, - flt_max fl) = Some (ci, cs)" "ci < cls"
    using best_class_ok [of "[0..<cls]" p feat "(0, - flt_max fl)"] assms(1,4) by auto
  let ?score = "sigmoid fl (feat ! (p + 4)) * sigmoid fl cs"
  consider "feat ! (p + 4) < unsig" | "\<not> feat ! (p + 4) < unsig" "\<not> thr \<le> ?score"
    | "\<not> feat ! (p + 4) < unsig" "thr \<le> ?score" by blast
  then show ?thesis
  proof cases
    case 3
    then have "\<exists>box. cell_proposal fl stride feat thr anchors unsig cls p (h, w, a) =
        Some [new_object\<lparr>rect := box, label := int ci, prob := ?score\<rparr>] \<and> 0 \<le> rwidth box \<and> 0 \<le> rheight box"
      using anchor_box_nonneg [OF ge]
      by (intro exI [of _ "anchor_box fl stride h w (feat ! p) (feat ! (p + 1)) (feat ! (p + 2)) (feat ! (p + 3))
             (anchors ! ((g - 1) * 6 + a * 2)) (anchors ! ((g - 1) * 6 + a * 2 + 1))"])
        (simp add: cell_proposal_def Let_def f g(1) an b(1) del: anchor_group.simps One_nat_def add_2_eq_Suc')
    then show ?thesis using b(2) 3(2) by (auto simp: proposal_ok_def)
  qed (simp_all add: cell_proposal_def Let_def f b(1))
qed

lemma generate_ok:
  fixes fl :: "('f::linordered_field, 'z) math_lib_scheme"
  assumes "nat (c_div rows stride) * nat (c_div cols stride) * 3 * (cls + 5) \<le> length feat" "18 \<le> length anchors"
    "\<forall>x \<in> set anchors. 0 \<le> x" "0 < cls" "stride = 8 \<or> stride = 16 \<or> stride = 32"
  shows "\<exists>os. generate_proposals_yolov5 fl stride feat thr cols rows anchors unsig cls = Some os \<and>
    (\<forall>ob \<in> set os. proposal_ok thr cls ob)"
  unfolding generate_proposals_yolov5_def
proof (rule walk_cells_all)
  let ?cs = "cells (nat (c_div rows stride)) (nat (c_div cols stride))"
  fix k assume k: "k < length ?cs"
  obtain h w a where c: "?cs ! k = (h, w, a)" using prod_cases3 by blast
  then have "a < 3" using k anchor_of_cell by (metis nth_mem)
  have "(k + 1) * (cls + 5) \<le> length ?cs * (cls + 5)" using k by (intro mult_le_mono1) simp
  also have "\<dots> \<le> length feat" using assms(1) by (simp add: length_cells)
  finally have "0 + k * (cls + 5) + cls + 5 \<le> length feat" by (simp add: algebra_simps)
  from cell_proposal_ok [OF this assms(2-4) \<open>a < 3\<close> assms(5)]
  show "\<exists>os. cell_proposal fl stride feat thr anchors unsig cls (0 + k * (cls + 5)) (?cs ! k) = Some os \<and>
      (\<forall>ob \<in> set os. proposal_ok thr cls ob)" unfolding c .
qed

text \<open>The size the code checks is the size the loops read.\<close>

lemma count_size_exact:
  assumes "0 \<le> cols" "cols \<le> 65535" "0 \<le> rows" "rows \<le> 65535" "labels \<le> 65535" "stride = 8 \<or> stride = 16 \<or> stride = 32"
    and "count_size cols rows stride labels = ucast (sz :: 32 word)"
  shows "nat (c_div rows stride) * nat (c_div cols stride) * 3 * (labels + 5) * 4 = unat sz"
proof -
  define fw fh where "fw = nat (c_div cols stride)" and "fh = nat (c_div rows stride)"
  have d: "c_div cols stride = cols div stride" "c_div rows stride = rows div stride"
    using assms by (auto simp: c_div_nonneg)
  have le: "fw \<le> 65535" "fh \<le> 65535" unfolding fw_def fh_def d using assms by auto
  have "fw * fh \<le> 65535 * 65535" using le by (intro mult_le_mono)
  from mult_le_mono [OF this, of "labels + 5" 65540] have "fw * fh * (labels + 5) \<le> 65535 * 65535 * 65540"
    using assms(5) by simp
  moreover have "q \<le> 65535 * 65535 * 65540 \<Longrightarrow> q * 12 < 2 ^ 64" for q :: nat by simp
  ultimately have lt: "fw * fh * (labels + 5) * 12 < 2 ^ 64" by blast
  have "word_of_int (c_div cols stride) = (of_nat fw :: 64 word)" "word_of_int (c_div rows stride) = (of_nat fh :: 64 word)"
    unfolding fw_def fh_def d using assms by (auto simp: of_nat_nat)
  then have "count_size cols rows stride labels = of_nat (fw * fh * (labels + 5) * 12)" by (simp add: count_size_def)
  then have "unat (ucast sz :: 64 word) = unat (of_nat (fw * fh * (labels + 5) * 12) :: 64 word)" using assms(7) by simp
  also have "\<dots> = fw * fh * (labels + 5) * 12" using lt by (subst unat_of_nat) simp
  also have "unat (ucast sz :: 64 word) = unat sz"
    using unsigned_less [of sz, where 'a = nat] by (simp add: unsigned_ucast_eq take_bit_nat_eq_self)
  finally show ?thesis by (simp add: fw_def fh_def algebra_simps)
qed

section \<open>Back to the picture\<close>

definition in_picture :: "'f::{zero,plus,ord} \<Rightarrow> 'f \<Rightarrow> 'f rectf \<Rightarrow> bool" where
  "in_picture w h r = (0 \<le> rx r \<and> 0 \<le> rwidth r \<and> rx r + rwidth r \<le> w \<and> 0 \<le> ry r \<and> 0 \<le> rheight r \<and> ry r + rheight r \<le> h)"

lemma clamp_to_range: "0 \<le> hi \<Longrightarrow> 0 \<le> clamp_to hi x \<and> clamp_to hi x \<le> hi" for hi :: "'f::linordered_idom"
  by (simp add: clamp_to_def)

lemma clamp_to_mono: "x \<le> y \<Longrightarrow> clamp_to hi x \<le> clamp_to hi y" for hi :: "'f::linordered_idom"
  by (auto simp: clamp_to_def max_def min_def)

lemma to_picture_in:
  fixes fl :: "('f::linordered_field, 'z) math_lib_scheme"
  assumes "0 \<le> ratio_x lb" "0 \<le> ratio_y lb" "0 \<le> rwidth (rect ob)" "0 \<le> rheight (rect ob)"
    and "0 \<le> of_i fl (cols - 1)" "0 \<le> of_i fl (rows - 1)"
  shows "in_picture (of_i fl (cols - 1)) (of_i fl (rows - 1)) (rect (to_picture fl lb rows cols ob))"
proof -
  have "(rx (rect ob) - of_i fl (tmp_w lb)) * ratio_x lb \<le> (rx (rect ob) + rwidth (rect ob) - of_i fl (tmp_w lb)) * ratio_x lb"
    "(ry (rect ob) - of_i fl (tmp_h lb)) * ratio_y lb \<le> (ry (rect ob) + rheight (rect ob) - of_i fl (tmp_h lb)) * ratio_y lb"
    using assms(1-4) by (auto intro!: mult_right_mono)
  from this [THEN clamp_to_mono] clamp_to_range [OF assms(5)] clamp_to_range [OF assms(6)]
  show ?thesis by (simp add: in_picture_def to_picture_def Let_def)
qed

lemma letterbox_positive:
  fixes fl :: "('f::floor_ceiling, 'z) math_lib_scheme"
  assumes "of_i fl = of_int" "ffloor fl = floor" "0 < lr" "0 < lc" "0 < sr" "0 < sc" "sc \<le> lc * sr" "sr \<le> lr * sc"
  shows "0 < ratio_x (letterbox_of fl lr lc sr sc) \<and> 0 < ratio_y (letterbox_of fl lr lc sr sc)"
proof -
  define scale :: 'f where "scale = (if of_int lr / of_int sr < (of_int lc / of_int sc :: 'f) then of_int lr / of_int sr else of_int lc / of_int sc)"
  have "(of_int sr :: 'f) \<le> of_int (lr * sc)" "(of_int sc :: 'f) \<le> of_int (lc * sr)"
    using assms(7,8) by (simp_all only: of_int_le_iff)
  then have one: "1 \<le> scale * of_int sr" "1 \<le> scale * of_int sc" using assms(3-6)
    by (auto simp: scale_def pos_le_divide_eq mult.commute)
  have "ftrunc fl x = \<lfloor>x\<rfloor>" if "1 \<le> x" for x :: 'f using that assms(2) by (simp add: ftrunc_def)
  then have "1 \<le> ftrunc fl (scale * of_int sr)" "1 \<le> ftrunc fl (scale * of_int sc)" using one by simp_all
  then show ?thesis using assms(1,5,6) by (simp add: letterbox_of_def Let_def scale_def [symmetric])
qed

section \<open>Properties\<close>

text \<open>C16. What \<open>get_out_bbox\<close> reports are proposals brought back to the picture: from the proposals sorted by falling score it
  keeps, in that order, exactly those that overlap no kept one of higher rank by more than the threshold.\<close>

theorem get_out_bbox_keeps_best:
  fixes proposals :: "'f::linordered_field object list"
  shows "\<exists>ps picked. mset ps = mset proposals \<and> sorted_wrt (\<lambda>a b. prob b \<le> prob a) ps \<and> sorted_wrt (<) picked \<and>
     greedy (\<lambda>i j. j < i \<and> overlaps cv thr (rect (ps ! i)) (rect (ps ! j))) [0..<length ps] picked \<and>
     get_out_bbox fl cv proposals thr lr lc sr sc =
       Some (map (\<lambda>i. to_picture fl (letterbox_of fl lr lc sr sc) sr sc (ps ! i)) picked)"
proof -
  obtain ps where p: "qsort_descent prob proposals = Some ps" "mset ps = mset proposals"
      "sorted_wrt (\<lambda>a b. prob b \<le> prob a) ps"
    using qsort_descent_sorts [of prob proposals] by auto
  then have "get_out_bbox fl cv proposals thr lr lc sr sc =
      Some (map (\<lambda>i. to_picture fl (letterbox_of fl lr lc sr sc) sr sc (ps ! i)) (nms_sorted_bboxes cv thr ps))"
    by (simp add: get_out_bbox_def)
  then show ?thesis using p(2,3) nms_greedy [of cv thr ps] by blast
qed

text \<open>A configuration and an engine that fit: inputs that give the size of the model, three anchors of two numbers for each of
  three groups, tensors at least as long as they say.\<close>

definition tensor_ok :: "'f tensor \<Rightarrow> bool" where
  "tensor_ok t = (case virt t of None \<Rightarrow> False | Some v \<Rightarrow> unat (nsize t) \<le> 4 * length v)"

definition yolov5_ready :: "'f::{zero,ord} yolov5_config \<Rightarrow> 'f tensor list \<Rightarrow> bool" where
  "yolov5_ready cfg outs =
     (4 \<le> length (y_inputs cfg) \<and> 0 < y_inputs cfg ! 2 \<and> y_inputs cfg ! 2 \<le> 65535 \<and>
      0 < y_inputs cfg ! 3 \<and> y_inputs cfg ! 3 \<le> 65535 \<and> y_labels cfg \<noteq> [] \<and> length (y_labels cfg) \<le> 65535 \<and>
      18 \<le> length (concat (y_anchors cfg)) \<and> list_all (\<lambda>x. 0 \<le> x) (concat (y_anchors cfg)) \<and> list_all tensor_ok outs)"

definition detection_ok :: "('f::{zero,plus,ord}, 'z) float_lib_scheme \<Rightarrow> 'f yolov5_config \<Rightarrow> int \<Rightarrow> int \<Rightarrow> 'f object \<Rightarrow> bool" where
  "detection_ok fl cfg w h ob =
     (in_picture (of_i fl (w - 1)) (of_i fl (h - 1)) (rect ob) \<and> y_prob_threshold cfg \<le> prob ob \<and>
      0 \<le> label ob \<and> nat (label ob) < length (y_labels cfg) \<and> label_name ob = y_labels cfg ! nat (label ob))"

lemma yolov5_levels_ok:
  fixes fl :: "('f::linordered_field, 'z) math_lib_scheme"
  assumes ready: "yolov5_ready cfg outs"
    and idx: "\<forall>i \<in> set ixs. i < length outs \<and> (y_strides cfg ! i = 8 \<or> y_strides cfg ! i = 16 \<or> y_strides cfg ! i = 32)"
    and acc: "\<forall>ob \<in> set acc. proposal_ok (y_prob_threshold cfg) (length (y_labels cfg)) ob"
  shows "yolov5_levels fl cfg (y_inputs cfg ! 2) (y_inputs cfg ! 3) outs ixs acc = Some (Inl (- 2)) \<or>
    (\<exists>ps. yolov5_levels fl cfg (y_inputs cfg ! 2) (y_inputs cfg ! 3) outs ixs acc = Some (Inr ps) \<and>
       (\<forall>ob \<in> set ps. proposal_ok (y_prob_threshold cfg) (length (y_labels cfg)) ob))"
  using idx acc
proof (induction ixs arbitrary: acc)
  case (Cons i rest)
  let ?rows = "y_inputs cfg ! 2" and ?cols = "y_inputs cfg ! 3" and ?n = "length (y_labels cfg)" and ?stride = "y_strides cfg ! i"
  have i: "i < length outs" and stride: "?stride = 8 \<or> ?stride = 16 \<or> ?stride = 32" using Cons.prems(1) by auto
  have "tensor_ok (outs ! i)" using ready i by (auto simp: yolov5_ready_def list_all_iff)
  then obtain v where v: "virt (outs ! i) = Some v" "unat (nsize (outs ! i)) \<le> 4 * length v"
    by (auto simp: tensor_ok_def split: option.splits)
  have o: "nth_opt outs i = Some (outs ! i)" using i by (simp add: nth_opt_def)
  show ?case
  proof (cases "count_size ?cols ?rows ?stride ?n = ucast (nsize (outs ! i))")
    case True
    have "nat (c_div ?rows ?stride) * nat (c_div ?cols ?stride) * 3 * (?n + 5) * 4 = unat (nsize (outs ! i))"
      by (rule count_size_exact [OF _ _ _ _ _ stride True]) (use ready in \<open>auto simp: yolov5_ready_def\<close>)
    then have len: "nat (c_div ?rows ?stride) * nat (c_div ?cols ?stride) * 3 * (?n + 5) \<le> length v" using v(2) by simp
    have an: "18 \<le> length (concat (y_anchors cfg))" "\<forall>x \<in> set (concat (y_anchors cfg)). 0 \<le> x" "0 < ?n"
      using ready by (auto simp: yolov5_ready_def list_all_iff)
    obtain ps where ps: "generate_proposals_yolov5 fl ?stride v (y_prob_threshold cfg) ?cols ?rows (concat (y_anchors cfg))
          (- 1 * flog fl (1 / y_prob_threshold cfg - 1)) ?n = Some ps"
        "\<forall>ob \<in> set ps. proposal_ok (y_prob_threshold cfg) ?n ob"
      using generate_ok [OF len an stride] by metis
    have "\<forall>ob \<in> set (acc @ ps). proposal_ok (y_prob_threshold cfg) ?n ob" using Cons.prems(2) ps(2) by auto
    from Cons.IH [OF _ this] show ?thesis using True Cons.prems(1) ps(1) o v(1) by simp
  qed (simp add: o Let_def)
qed simp

lemma assign_label_names_ok:
  assumes "\<forall>ob \<in> set obs. 0 \<le> label ob \<and> nat (label ob) < length labels"
  shows "assign_label_names labels obs = Inr (map (\<lambda>ob. ob\<lparr>label_name := labels ! nat (label ob)\<rparr>) obs)"
proof -
  have "find (\<lambda>i. label (obs ! i) < 0 \<or> length labels \<le> nat (label (obs ! i))) [0..<length obs] = None"
    using assms by (auto simp: find_None_iff not_le not_less)
  then show ?thesis by (simp add: assign_label_names_def)
qed

lemma sorted_wrt_picked:
  "sorted_wrt (<) is \<Longrightarrow> set is \<subseteq> {..<length xs} \<Longrightarrow> sorted_wrt R xs \<Longrightarrow> sorted_wrt R (map (\<lambda>i. xs ! i) is)"
  unfolding sorted_wrt_map
  by (rule sorted_wrt_mono_rel [where P = "(<)"]) (auto simp: sorted_wrt_iff_nth_less)

lemma yolov5_output_ok:
  fixes fl :: "('f::floor_ceiling, 'z) math_lib_scheme"
  assumes fl: "of_i fl = of_int" "ffloor fl = floor"
    and dims: "0 < lr" "0 < lc" "0 < sr" "0 < sc" "sc \<le> lc * sr" "sr \<le> lr * sc"
    and ok: "\<forall>ob \<in> set proposals. proposal_ok (y_prob_threshold cfg) (length (y_labels cfg)) ob"
  shows "\<exists>obs. get_out_bbox fl cv proposals thr lr lc sr sc = Some obs \<and>
    (\<forall>ob \<in> set obs. in_picture (of_i fl (sc - 1)) (of_i fl (sr - 1)) (rect ob) \<and> y_prob_threshold cfg \<le> prob ob \<and>
       0 \<le> label ob \<and> nat (label ob) < length (y_labels cfg)) \<and> sorted_wrt (\<lambda>a b. prob b \<le> prob a) obs"
proof -
  let ?res = "to_picture fl (letterbox_of fl lr lc sr sc) sr sc"
  obtain ps picked where p: "mset ps = mset proposals" "sorted_wrt (\<lambda>a b. prob b \<le> prob a) ps" "sorted_wrt (<) picked"
      "set picked \<subseteq> {0..<length ps}" "get_out_bbox fl cv proposals thr lr lc sr sc = Some (map (\<lambda>i. ?res (ps ! i)) picked)"
  proof -
    obtain ps where "qsort_descent prob proposals = Some ps" "mset ps = mset proposals" "sorted_wrt (\<lambda>a b. prob b \<le> prob a) ps"
      using qsort_descent_sorts [of prob proposals] by auto
    then show thesis using that [of ps "nms_sorted_bboxes cv thr ps"] nms_greedy [of cv thr ps]
      by (auto simp: get_out_bbox_def greedy_def)
  qed
  have same: "set ps = set proposals" using p(1) by (metis set_mset_mset)
  have kept: "prob (?res ob) = prob ob" "label (?res ob) = label ob" for ob by (simp_all add: to_picture_def Let_def)
  have pos: "0 \<le> of_i fl (sc - 1)" "0 \<le> of_i fl (sr - 1)" using dims fl(1) by simp_all
  have lb: "0 \<le> ratio_x (letterbox_of fl lr lc sr sc)" "0 \<le> ratio_y (letterbox_of fl lr lc sr sc)"
    using letterbox_positive [OF fl dims] by simp_all
  have "in_picture (of_i fl (sc - 1)) (of_i fl (sr - 1)) (rect (?res (ps ! i))) \<and> y_prob_threshold cfg \<le> prob (?res (ps ! i)) \<and>
      0 \<le> label (?res (ps ! i)) \<and> nat (label (?res (ps ! i))) < length (y_labels cfg)" if "i \<in> set picked" for i
  proof -
    have "proposal_ok (y_prob_threshold cfg) (length (y_labels cfg)) (ps ! i)" using that p(4) ok same nth_mem by fastforce
    then show ?thesis using to_picture_in [OF lb _ _ pos] by (simp add: proposal_ok_def kept)
  qed
  moreover have "sorted_wrt (\<lambda>a b. prob b \<le> prob a) (map (\<lambda>i. ?res (ps ! i)) picked)"
    using sorted_wrt_picked [OF p(3) _ p(2)] p(4) by (simp add: sorted_wrt_map kept lessThan_atLeast0)
  ultimately show ?thesis using p(5) by auto
qed

text \<open>C13. With a configuration and an engine that fit each other, \<open>Yolov5::Postprocess\<close> never reads outside of a tensor or of
  the anchors. It either reports an error and leaves the result alone, or it reports boxes that lie in the picture, of a score
  from the threshold on, with the name of their label, best first.\<close>

theorem yolov5_detections_ok:
  fixes fl :: "('f::floor_ceiling, 'z) math_lib_scheme"
  assumes "of_i fl = of_int" "ffloor fl = floor" "yolov5_ready cfg outs" "0 < w" "0 < h"
    "w \<le> y_inputs cfg ! 3 * h" "h \<le> y_inputs cfg ! 2 * w"
  shows "\<exists>code obs. yolov5_postprocess fl cv cfg (Some (length outs)) outs w h objects = Some (code, obs) \<and>
    (code = 0 \<and> list_all (detection_ok fl cfg w h) obs \<and> sorted_wrt (\<lambda>a b. prob b \<le> prob a) obs \<or>
     (code = - 1 \<or> code = - 2) \<and> obs = objects)"
proof -
  let ?rows = "y_inputs cfg ! 2" and ?cols = "y_inputs cfg ! 3" and ?n = "length outs"
  let ?bad = "list_ex (\<lambda>i. (y_strides cfg ! i \<noteq> 8 \<and> y_strides cfg ! i \<noteq> 16 \<and> y_strides cfg ! i \<noteq> 32) \<or>
                            (i < length (y_num_anchors cfg) \<and> y_num_anchors cfg ! i \<noteq> 3)) [0..<?n]"
  have rc: "nth_opt (y_inputs cfg) 2 = Some ?rows" "nth_opt (y_inputs cfg) 3 = Some ?cols" "0 < ?rows" "0 < ?cols"
    using assms(3) by (simp_all add: yolov5_ready_def nth_opt_def)
  show ?thesis
  proof (cases "?n \<noteq> length (y_strides cfg) \<or> ?bad")
    case True
    then show ?thesis by (auto simp: yolov5_postprocess_def rc)
  next
    case False
    then have "\<forall>i \<in> set [0..<?n]. i < ?n \<and> (y_strides cfg ! i = 8 \<or> y_strides cfg ! i = 16 \<or> y_strides cfg ! i = 32)"
      by (auto simp: list_ex_iff)
    from yolov5_levels_ok [OF assms(3) this, of "[]" fl] consider
        "yolov5_levels fl cfg ?rows ?cols outs [0..<?n] [] = Some (Inl (- 2))"
      | ps where "yolov5_levels fl cfg ?rows ?cols outs [0..<?n] [] = Some (Inr ps)"
          "\<forall>ob \<in> set ps. proposal_ok (y_prob_threshold cfg) (length (y_labels cfg)) ob" by auto
    then show ?thesis
    proof cases
      case 1
      then show ?thesis using False by (simp add: yolov5_postprocess_def rc)
    next
      case 2
      obtain obs where o: "get_out_bbox fl cv ps (y_nms_threshold cfg) ?rows ?cols h w = Some obs"
          "\<forall>ob \<in> set obs. in_picture (of_i fl (w - 1)) (of_i fl (h - 1)) (rect ob) \<and> y_prob_threshold cfg \<le> prob ob \<and>
             0 \<le> label ob \<and> nat (label ob) < length (y_labels cfg)" "sorted_wrt (\<lambda>a b. prob b \<le> prob a) obs"
        using yolov5_output_ok [OF assms(1,2) rc(3,4) assms(5,4,6,7) 2(2)] by blast
      have names: "assign_label_names (y_labels cfg) obs = Inr (map (\<lambda>ob. ob\<lparr>label_name := y_labels cfg ! nat (label ob)\<rparr>) obs)"
        by (rule assign_label_names_ok) (use o(2) in auto)
      show ?thesis using False 2(1) o
        by (simp add: yolov5_postprocess_def rc names list_all_iff detection_ok_def sorted_wrt_map)
    qed
  qed
qed

definition demo_math :: "rat math_lib" where
  "demo_math = \<lparr>fsqrt = (\<lambda>x. x), fatan2 = (\<lambda>y x. y), ffloor = floor, fceil = ceiling, of_i = of_int, float_pi = 3,
     fexp = (\<lambda>x. if x < 0 then 1 / (1 - x) else 1 + x), flog = (\<lambda>x. 0), flt_max = 1000\<rparr>"

definition demo_inter :: "rat rectf \<Rightarrow> rat rectf \<Rightarrow> rat rectf" where
  "demo_inter a b = (let x0 = max (rx a) (rx b); y0 = max (ry a) (ry b)
     in \<lparr>rx = x0, ry = y0, rwidth = min (rx a + rwidth a) (rx b + rwidth b) - x0,
         rheight = min (ry a + rheight a) (ry b + rheight b) - y0\<rparr>)"

definition demo_cv :: "rat cv_lib" where
  "demo_cv = \<lparr>rect_and = demo_inter, rect_area = (\<lambda>r. max 0 (rwidth r) * max 0 (rheight r)),
     rect_overlap = (\<lambda>a b. let r = demo_inter a b in if 0 < rwidth r \<and> 0 < rheight r then Some (rwidth r * rheight r) else None)\<rparr>"

definition demo_yolov5 :: "rat yolov5_config" where
  "demo_yolov5 = \<lparr>y_inputs = [1, 3, 8, 8], y_prob_threshold = 1 / 5, y_nms_threshold = 1 / 2, y_num_anchors = [3],
     y_anchors = [[4, 4], [5, 4], [2, 3], [1, 1], [1, 1], [1, 1], [1, 1], [1, 1], [1, 1]], y_strides = [8],
     y_labels = [''fire'', ''smoke'']\<rparr>"

definition demo_tensors :: "rat tensor list" where
  "demo_tensors = [\<lparr>nsize = 84, virt = Some ([0, 0, 0, 0, 0, 0, 1 / 2] @ [0, 0, 0, 0, 1 / 2, 1, 0] @ [0, 0, 0, 0, - 1, 0, 0])\<rparr>]"

lemma demo_yolov5_result:
  "map_option (\<lambda>r. (fst r, map label (snd r))) (yolov5_postprocess demo_math demo_cv demo_yolov5 (Some (length demo_tensors)) demo_tensors 16 12 []) =
     Some (0, [0])"
  by code_simp

theorem yolov5_detections_ok_witness:
  "\<exists>obs. yolov5_postprocess demo_math demo_cv demo_yolov5 (Some (length demo_tensors)) demo_tensors 16 12 [] = Some (0, obs) \<and>
     map label obs = [0] \<and> list_all (detection_ok demo_math demo_yolov5 16 12) obs \<and> sorted_wrt (\<lambda>a b. prob b \<le> prob a) obs"
proof -
  have "yolov5_ready demo_yolov5 demo_tensors"
    by (simp add: yolov5_ready_def demo_yolov5_def demo_tensors_def tensor_ok_def)
  then obtain code obs where
      "yolov5_postprocess demo_math demo_cv demo_yolov5 (Some (length demo_tensors)) demo_tensors 16 12 [] = Some (code, obs)"
      "code = 0 \<and> list_all (detection_ok demo_math demo_yolov5 16 12) obs \<and> sorted_wrt (\<lambda>a b. prob b \<le> prob a) obs \<or>
       (code = - 1 \<or> code = - 2) \<and> obs = []"
    using yolov5_detections_ok [where fl = demo_math and cfg = demo_yolov5 and outs = demo_tensors and w = 16 and h = 12
        and cv = demo_cv and objects = "[]"] by (auto simp: demo_math_def demo_yolov5_def)
  then show ?thesis using demo_yolov5_result by auto
qed

text \<open>A configuration with fewer than four inputs, which the factory lets pass, is read outside of its end.\<close>

lemma yolov5_short_inputs: "length (y_inputs cfg) < 4 \<Longrightarrow> yolov5_postprocess fl cv cfg n outs w h objects = None"
  by (auto simp: yolov5_postprocess_def nth_opt_def)

end
