(* ===== verification/Recognition.thy ===== *)
theory Recognition
  imports Engine Detect_Post_Inv Yaml_Lib
begin

text \<open>
  The face recognition model (\<open>models/arcface.cpp\<close>) on an engine: packing the aligned face, running, taking the feature out,
  and the batch over the faces of a frame; and how engines are made from a configuration (\<open>models/engine_factory.cpp\<close>). The
  resize and the warp are OpenCV's, the tensors after a run the accelerator's.
\<close>

section \<open>Packing\<close>

record arcface_shape =
  a_inputs :: "int list"
  feat_dim :: int
  l2_normalize :: bool

record 'f arcface_config = arcface_shape +
  expand_ratio :: 'f

definition input_height :: "'z arcface_shape_scheme \<Rightarrow> int" where
  "input_height cfg = (if 4 \<le> length (a_inputs cfg) then a_inputs cfg ! 2 else 112)"

definition input_width :: "'z arcface_shape_scheme \<Rightarrow> int" where
  "input_width cfg = (if 4 \<le> length (a_inputs cfg) then a_inputs cfg ! 3 else 112)"

text \<open>A matrix of OpenCV: its size, whether its type is \<open>CV_8UC3\<close>, its bytes.\<close>

record mat =
  mat_rows :: int
  mat_cols :: int
  is_bgr :: bool
  mat_bytes :: "8 word list"

definition size_product :: "int \<Rightarrow> int \<Rightarrow> 64 word" where
  "size_product w h = word_of_int w * word_of_int h * 3"

definition pack_aligned_face ::
    "'z arcface_shape_scheme \<Rightarrow> (mat \<Rightarrow> int \<Rightarrow> int \<Rightarrow> mat) \<Rightarrow> nat list option \<Rightarrow> mat \<Rightarrow> int \<times> 8 word list" where
  "pack_aligned_face cfg resize sizes aligned =
     (if mat_bytes aligned = [] \<or> \<not> is_bgr aligned then (- 1, [])
      else
        (let h = input_height cfg; w = input_width cfg;
             face = (if mat_rows aligned \<noteq> h \<or> mat_cols aligned \<noteq> w then resize aligned w h else aligned)
         in case sizes of
              None \<Rightarrow> (- 2, [])
            | Some [] \<Rightarrow> (- 2, [])
            | Some (expect # _) \<Rightarrow>
                if of_nat expect = size_product w h div 2 then (- 3, [])
                else if of_nat expect = size_product w h then
                  (if length (mat_bytes face) \<noteq> expect then (- 6, mat_bytes face) else (0, mat_bytes face))
                else (- 5, [])))"

section \<open>The feature\<close>

text \<open>\<open>1e-12\<close> as a product of tenths.\<close>

definition tiny :: "'f::{zero,one,plus,times,inverse}" where
  "tiny = (let t = dec 1 10; m = t * t * t * t in m * m * m)"

definition sum_sq :: "'f::{zero,plus,times} list \<Rightarrow> 'f" where
  "sum_sq f = fold (\<lambda>v s. s + v * v) f 0"

definition normalised :: "('f::{zero,one,plus,times,inverse,ord}, 'y) float_lib_scheme \<Rightarrow> 'f list \<Rightarrow> 'f list" where
  "normalised fl f =
     (let norm = fsqrt fl (sum_sq f) in if tiny < norm then map (\<lambda>v. v * (1 / norm)) f else f)"

definition feature_dim :: "'z arcface_shape_scheme \<Rightarrow> nat" where
  "feature_dim cfg = unat (word_of_int (feat_dim cfg) :: 64 word)"

definition extract_feature ::
    "('f::{zero,one,plus,times,inverse,ord}, 'y) float_lib_scheme \<Rightarrow> 'z arcface_shape_scheme \<Rightarrow> nat option \<Rightarrow>
     'f tensor list \<Rightarrow> (int \<times> 'f list) option" where
  "extract_feature fl cfg n_outputs outs =
     (if n_outputs = None \<or> n_outputs = Some 0 then Some (- 1, [])
      else
        (case nth_opt outs 0 of
           None \<Rightarrow> None
         | Some out \<Rightarrow>
             (case virt out of
                None \<Rightarrow> Some (- 2, [])
              | Some v \<Rightarrow>
                  if nsize out = 0 then Some (- 2, [])
                  else if unat (nsize out) div 4 < feature_dim cfg then Some (- 3, [])
                  else map_option (\<lambda>f. (0, if l2_normalize cfg then normalised fl f else f))
                         (read_block v 0 (feature_dim cfg)))))"

section \<open>Recognition\<close>

text \<open>What the model works with: the scaler, the warp, the resize, and the output tensors after so many calls of the
  accelerator.\<close>

record 'f arcface_env =
  env_crop :: "u16 \<Rightarrow> u16 \<Rightarrow> u16 \<Rightarrow> u16 \<Rightarrow> int"
  env_process :: "image_data \<Rightarrow> int \<times> image_data"
  env_to_mat :: "image_data \<Rightarrow> mat option"
  env_norm_crop :: "mat \<Rightarrow> 'f point2f list \<Rightarrow> int \<Rightarrow> mat option"
  env_resize :: "mat \<Rightarrow> int \<Rightarrow> int \<Rightarrow> mat"
  env_outputs :: "nat \<Rightarrow> 'f tensor list"

definition preprocess_face ::
    "'f::{zero,one,plus,minus,times,inverse,ord} float_lib \<Rightarrow> 'f arcface_env \<Rightarrow> 'f arcface_config \<Rightarrow> nat list option \<Rightarrow>
     image_data \<Rightarrow> 'f object \<Rightarrow> image_data \<Rightarrow> int \<times> 8 word list \<times> image_data" where
  "preprocess_face fl env cfg sizes frame face face_img =
     (case hw_roi_norm_crop fl (env_crop env) (env_process env) (env_to_mat env) (env_norm_crop env) frame face
             (expand_ratio cfg) (input_width cfg) of
        (aligned, cutout, regions) \<Rightarrow>
          (let face_img = (case cutout of None \<Rightarrow> face_img | Some img \<Rightarrow> img)
           in case aligned of
                None \<Rightarrow> (- 1, [], face_img)
              | Some m \<Rightarrow> (case pack_aligned_face cfg (env_resize env) sizes m of (ret, bytes) \<Rightarrow> (ret, bytes, face_img))))"

definition infer ::
    "'f::{zero,one,plus,minus,times,inverse,ord} float_lib \<Rightarrow> npu_lib \<Rightarrow> 'f arcface_env \<Rightarrow> 'f arcface_config \<Rightarrow>
     image_data \<Rightarrow> 'f object \<Rightarrow> image_data \<Rightarrow> engine \<Rightarrow> (int \<times> 'f list \<times> image_data \<times> engine) option" where
  "infer fl lib env cfg frame face face_img e =
     (case preprocess_face fl env cfg (map_option in_sizes (io_info_ptr e)) frame face face_img of
        (ret, input, face_img) \<Rightarrow>
          if ret \<noteq> 0 then Some (ret, [], face_img, e)
          else
            (case engine_process lib (length input) e of
               (ret, e) \<Rightarrow>
                 if ret \<noteq> 0 then Some (ret, [], face_img, e)
                 else map_option (\<lambda>(ret, feat). (ret, feat, face_img, e))
                        (extract_feature fl cfg (map_option (\<lambda>i. length (out_sizes i)) (io_info_ptr e))
                           (env_outputs env (length (calls e))))))"

definition no_image :: image_data where
  "no_image = \<lparr>width = 0, height = 0, img_format = OtherFormat 0, end_of_stream = False, data = None\<rparr>"

text \<open>The number of faces that succeeded, the features, the images.\<close>

fun infer_batch ::
    "'f::{zero,one,plus,minus,times,inverse,ord} float_lib \<Rightarrow> npu_lib \<Rightarrow> 'f arcface_env \<Rightarrow> 'f arcface_config \<Rightarrow>
     image_data \<Rightarrow> 'f object list \<Rightarrow> engine \<Rightarrow> (nat \<times> 'f list list \<times> image_data list \<times> engine) option" where
  "infer_batch fl lib env cfg frame [] e = Some (0, [], [], e)"
| "infer_batch fl lib env cfg frame (face # faces) e =
     (case infer fl lib env cfg frame face no_image e of
        None \<Rightarrow> None
      | Some (ret, feat, img, e) \<Rightarrow>
          (case infer_batch fl lib env cfg frame faces e of
             None \<Rightarrow> None
           | Some (ok, feats, imgs, e) \<Rightarrow>
               if ret = 0 then Some (ok + 1, feat # feats, img # imgs, e)
               else Some (ok, [] # feats, img\<lparr>width := 0, data := None\<rparr> # imgs, e)))"

section \<open>Features come in order and whole\<close>

definition outputs_ok :: "'f tensor list \<Rightarrow> bool" where
  "outputs_ok outs = (outs \<noteq> [] \<and> list_all (\<lambda>t. case virt t of None \<Rightarrow> True | Some v \<Rightarrow> unat (nsize t) \<le> 4 * length v) outs)"

lemma extract_feature_ok:
  assumes "outputs_ok outs"
  shows "\<exists>ret feat. extract_feature fl cfg n outs = Some (ret, feat) \<and> (if ret = 0 then length feat = feature_dim cfg else feat = [])"
proof (cases "n = None \<or> n = Some 0 \<or> virt (outs ! 0) = None")
  case True
  have o: "nth_opt outs 0 = Some (outs ! 0)" using assms by (auto simp: outputs_ok_def nth_opt_def)
  have "extract_feature fl cfg n outs = Some (if n = None \<or> n = Some 0 then - 1 else - 2, [])"
    using True by (auto simp: extract_feature_def o)
  then show ?thesis by auto
next
  case False
  then obtain v where v: "virt (outs ! 0) = Some v" by auto
  have o: "nth_opt outs 0 = Some (outs ! 0)" "outs ! 0 \<in> set outs" using assms by (auto simp: outputs_ok_def nth_opt_def)
  then have "case virt (outs ! 0) of None \<Rightarrow> True | Some v \<Rightarrow> unat (nsize (outs ! 0)) \<le> 4 * length v"
    using assms unfolding outputs_ok_def list_all_iff by blast
  then have "unat (nsize (outs ! 0)) \<le> 4 * length v" by (simp add: v)
  then have "\<not> unat (nsize (outs ! 0)) div 4 < feature_dim cfg \<Longrightarrow> feature_dim cfg \<le> length v" by linarith
  then show ?thesis using False o(1) v
    by (auto simp: extract_feature_def read_block_def normalised_def Let_def)
qed

definition batch_item :: "'z arcface_shape_scheme \<Rightarrow> bool \<Rightarrow> 'f list \<times> image_data \<Rightarrow> bool" where
  "batch_item cfg good = (\<lambda>(feat, img).
     if good then length feat = feature_dim cfg else feat = [] \<and> data img = None \<and> width img = 0)"

lemma batch_item_simps [simp]:
  "batch_item cfg True (feat, img) = (length feat = feature_dim cfg)"
  "batch_item cfg False (feat, img) = (feat = [] \<and> data img = None \<and> width img = 0)"
  by (simp_all add: batch_item_def)

lemma infer_ok:
  assumes "\<forall>k. outputs_ok (env_outputs env k)" "engine_reach lib e"
  shows "\<exists>ret feat img e'. infer fl lib env cfg frame face face_img e = Some (ret, feat, img, e') \<and> engine_reach lib e' \<and>
    (if ret = 0 then length feat = feature_dim cfg else feat = [])"
proof -
  obtain ret input img where p: "preprocess_face fl env cfg (map_option in_sizes (io_info_ptr e)) frame face face_img = (ret, input, img)"
    using prod_cases3 by blast
  obtain r e' where r: "engine_process lib (length input) e = (r, e')" by fastforce
  have reach: "engine_reach lib e'" using reach_process [OF assms(2), of "length input"] by (simp add: r)
  obtain q feat where q: "extract_feature fl cfg (map_option (\<lambda>i. length (out_sizes i)) (io_info_ptr e')) (env_outputs env (length (calls e'))) = Some (q, feat)"
      "if q = 0 then length feat = feature_dim cfg else feat = []"
    using extract_feature_ok assms(1) by meson
  show ?thesis
  proof (cases "ret = 0 \<and> r = 0")
    case True
    then show ?thesis using q reach by (simp add: infer_def p r)
  next
    case False
    then show ?thesis using assms(2) reach by (cases "ret = 0") (auto simp: infer_def p r)
  qed
qed

text \<open>A batch over the faces of a frame is defined for any engine a client can have and any answers of scaler and accelerator,
  as long as tensors are as long as they say. It gives one feature and one image per face, in order; a feature has the configured
  length or, where the face failed, is empty and its image cleared; the number returned counts the successes; and the
  engine can be used on.\<close>

theorem infer_batch_results:
  assumes "\<forall>k. outputs_ok (env_outputs env k)" "engine_reach lib e"
  shows "\<exists>ok feats imgs e'. infer_batch fl lib env cfg frame faces e = Some (ok, feats, imgs, e') \<and> engine_reach lib e' \<and>
    length feats = length faces \<and> length imgs = length faces \<and>
    (\<exists>good. ok = length (filter (\<lambda>g. g) good) \<and>
       list_all2 (batch_item cfg) good (zip feats imgs))"
  using assms(2)
proof (induction faces arbitrary: e)
  case (Cons face faces)
  obtain ret feat img e1 where i: "infer fl lib env cfg frame face no_image e = Some (ret, feat, img, e1)" "engine_reach lib e1"
      "if ret = 0 then length feat = feature_dim cfg else feat = []" using infer_ok [OF assms(1) Cons.prems] by meson
  obtain ok feats imgs e2 good where b: "infer_batch fl lib env cfg frame faces e1 = Some (ok, feats, imgs, e2)" "engine_reach lib e2"
      "length feats = length faces" "length imgs = length faces" "ok = length (filter (\<lambda>g. g) good)"
      "list_all2 (batch_item cfg) good (zip feats imgs)"
    using Cons.IH [OF i(2)] by blast
  show ?case
  proof (cases "ret = 0")
    case True
    then show ?thesis using i b by (auto intro!: exI [of _ "True # good"])
  next
    case False
    then show ?thesis using i b by (auto intro!: exI [of _ "False # good"])
  qed
qed simp

text \<open>With a square root as it should be, a feature that is to be normalised has length 1, unless it is all but zero.\<close>

theorem feature_unit_length:
  fixes fl :: "('f::linordered_field, 'y) float_lib_scheme"
  assumes "\<And>x. 0 \<le> x \<Longrightarrow> fsqrt fl x * fsqrt fl x = x" "extract_feature fl cfg n outs = Some (0, feat)" "l2_normalize cfg"
  shows "sum_sq feat = 1 \<or> fsqrt fl (sum_sq feat) \<le> tiny"
proof -
  have sq: "sum_sq f = sum_list (map (\<lambda>v. v * v) f)" for f :: "'f list"
  proof -
    have "fold (\<lambda>v s. s + v * v) f a = a + sum_list (map (\<lambda>v. v * v) f)" for a by (induction f arbitrary: a) (simp_all add: algebra_simps)
    then show ?thesis by (simp add: sum_sq_def)
  qed
  obtain f where f: "feat = normalised fl f"
    using assms(2,3) by (auto simp: extract_feature_def split: option.splits if_splits)
  have nn: "0 \<le> sum_sq f" by (auto simp: sq intro!: sum_list_nonneg)
  show ?thesis
  proof (cases "tiny < fsqrt fl (sum_sq f)")
    case True
    define s where "s = fsqrt fl (sum_sq f)"
    have "0 < (tiny :: 'f)" by (simp add: tiny_def Let_def dec_def eval_nat_numeral)
    then have s: "0 < s" "s * s = sum_sq f" using True assms(1) [OF nn] by (simp_all add: s_def)
    have "feat = map (\<lambda>v. v * (1 / s)) f" using True by (simp add: f normalised_def Let_def s_def)
    then have "sum_sq feat = sum_list (map (\<lambda>v. (v * v) * (1 / (s * s))) f)"
      by (simp add: sq comp_def times_divide_times_eq)
    also have "\<dots> = sum_sq f * (1 / (s * s))" unfolding sq by (rule sum_list_mult_const)
    also have "\<dots> = 1" using s by (simp add: s(2) [symmetric])
    finally show ?thesis by simp
  next
    case False
    then show ?thesis by (simp add: f normalised_def Let_def)
  qed
qed

definition demo_arcface :: "rat arcface_config" where
  "demo_arcface = \<lparr>a_inputs = [1, 3, 2, 2], feat_dim = 2, l2_normalize = False, expand_ratio = 3 / 2\<rparr>"

text \<open>The warp fails once the accelerator has been run often enough, here never.\<close>

definition demo_env :: "rat arcface_env" where
  "demo_env = \<lparr>env_crop = (\<lambda>x y w h. 0), env_process = (\<lambda>i. (0, i)),
     env_to_mat = (\<lambda>i. Some \<lparr>mat_rows = 2, mat_cols = 2, is_bgr = True, mat_bytes = replicate 12 0\<rparr>),
     env_norm_crop = (\<lambda>m lm n. Some m), env_resize = (\<lambda>m w h. m),
     env_outputs = (\<lambda>k. [\<lparr>nsize = 8, virt = Some [of_nat k, 1]\<rparr>, \<lparr>nsize = 0, virt = None\<rparr>])\<rparr>"

lemma demo_batch:
  "map_option (\<lambda>r. (fst r, fst (snd r)))
     (infer_batch demo_lib demo_npu demo_env demo_arcface demo_scene_image [demo_face, demo_face] demo_engine) =
     Some (2, [[19, 1], [22, 1]])"
  by code_simp

theorem infer_batch_results_witness:
  "\<exists>imgs e'. infer_batch demo_lib demo_npu demo_env demo_arcface demo_scene_image [demo_face, demo_face] demo_engine =
      Some (2, [[19, 1], [22, 1]], imgs, e') \<and> engine_reach demo_npu e' \<and> length imgs = 2"
proof -
  have "\<forall>k. outputs_ok (env_outputs demo_env k)" by (simp add: demo_env_def outputs_ok_def)
  from infer_batch_results [OF this demo_engine_reach, of demo_lib demo_arcface demo_scene_image "[demo_face, demo_face]"]
  show ?thesis using demo_batch by auto
qed

definition real_lib :: "real float_lib" where
  "real_lib = \<lparr>fsqrt = sqrt, fatan2 = (\<lambda>y x. 0), ffloor = floor, fceil = ceiling, of_i = of_int, float_pi = pi\<rparr>"

theorem feature_unit_length_witness:
  "\<exists>feat. extract_feature real_lib \<lparr>a_inputs = [], feat_dim = 2, l2_normalize = True\<rparr> (Some 1)
       [\<lparr>nsize = 8, virt = Some [3, 4]\<rparr>] = Some (0, feat) \<and>
     (sum_sq feat = 1 \<or> fsqrt real_lib (sum_sq feat) \<le> tiny)"
proof -
  let ?cfg = "\<lparr>a_inputs = [], feat_dim = 2, l2_normalize = True\<rparr>"
  obtain feat where f: "extract_feature real_lib ?cfg (Some 1) [\<lparr>nsize = 8, virt = Some [3, 4 :: real]\<rparr>] = Some (0, feat)"
    by (simp add: extract_feature_def nth_opt_def read_block_def feature_dim_def)
  show ?thesis using feature_unit_length [OF _ f] f by (simp add: real_lib_def)
qed

end
