(* ===== verification/Scrfd.thy ===== *)
theory Scrfd
  imports Detect_Post_Inv
begin

text \<open>
  The post-processing of the face detector (\<open>models/scrfd.cpp\<close>): three levels of anchors, their cached centres, the way
  back from the letterbox, and the suppression. \<open>std::sort\<close> is an argument, since it leaves open in which order equal
  scores come.
\<close>

section \<open>Suppression\<close>

definition scrfd_iou :: "('f::{zero,plus,minus,inverse}, 'y) cv_lib_scheme \<Rightarrow> 'f rectf \<Rightarrow> 'f rectf \<Rightarrow> 'f" where
  "scrfd_iou cv a b =
     (case rect_overlap cv a b of
        None \<Rightarrow> 0
      | Some common \<Rightarrow> common / (rect_area cv a + rect_area cv b - common))"

fun scrfd_nms_loop :: "(nat \<Rightarrow> nat \<Rightarrow> bool) \<Rightarrow> nat set \<Rightarrow> nat list \<Rightarrow> nat list" where
  "scrfd_nms_loop hit suppressed [] = []"
| "scrfd_nms_loop hit suppressed (i # order) =
     (if i \<in> suppressed then scrfd_nms_loop hit suppressed order
      else i # scrfd_nms_loop hit (suppressed \<union> set (filter (hit i) order)) order)"

definition scrfd_nms ::
    "((nat \<Rightarrow> nat \<Rightarrow> bool) \<Rightarrow> nat list \<Rightarrow> nat list) \<Rightarrow> ('f::{zero,plus,minus,inverse,ord}, 'y) cv_lib_scheme \<Rightarrow>
     'f object list \<Rightarrow> 'f \<Rightarrow> nat list" where
  "scrfd_nms srt cv dets thresh =
     scrfd_nms_loop (\<lambda>i j. thresh \<le> scrfd_iou cv (rect (dets ! i)) (rect (dets ! j))) {}
       (srt (\<lambda>a b. prob (dets ! b) < prob (dets ! a)) [0..<length dets])"

section \<open>Anchors\<close>

definition anchor_centers :: "('f::times, 'z) float_lib_scheme \<Rightarrow> int \<Rightarrow> int \<Rightarrow> int \<Rightarrow> 'f list" where
  "anchor_centers fl feat_h feat_w stride =
     concat (map (\<lambda>ay. concat (map (\<lambda>ax.
         let cx = of_i fl (int ax) * of_i fl stride; cy = of_i fl (int ay) * of_i fl stride in [cx, cy, cx, cy])
       [0..<nat feat_w])) [0..<nat feat_h])"

type_synonym 'f center_cache = "(int \<times> int \<times> int) \<rightharpoonup> 'f list"

text \<open>The lookup: what is in the cache stays as it is, the rest is computed and entered.\<close>

definition cached_centers ::
    "('f::times, 'z) float_lib_scheme \<Rightarrow> 'f center_cache \<Rightarrow> int \<Rightarrow> int \<Rightarrow> int \<Rightarrow> 'f center_cache \<times> 'f list" where
  "cached_centers fl cache feat_h feat_w stride =
     (case cache (feat_h, feat_w, stride) of
        Some centers \<Rightarrow> (cache, centers)
      | None \<Rightarrow> (let centers = anchor_centers fl feat_h feat_w stride
                 in (cache((feat_h, feat_w, stride) \<mapsto> centers), centers)))"

section \<open>Proposals\<close>

record 'f scrfd_config =
  s_inputs :: "int list"
  s_prob_threshold :: 'f
  s_nms_threshold :: 'f
  s_labels :: "string list"

record 'f det_scale =
  scale :: 'f
  pad_w :: 'f
  pad_h :: 'f

definition det_scale_of ::
    "('f::{zero,one,plus,minus,times,inverse,ord}, 'z) float_lib_scheme \<Rightarrow> int \<Rightarrow> int \<Rightarrow> int \<Rightarrow> int \<Rightarrow> 'f det_scale" where
  "det_scale_of fl input_w input_h pic_width pic_height =
     (let sc = std_min (of_i fl input_w / of_i fl pic_width) (of_i fl input_h / of_i fl pic_height)
      in \<lparr>scale = sc, pad_w = (of_i fl input_w - of_i fl pic_width * sc) * dec 5 10,
          pad_h = (of_i fl input_h - of_i fl pic_height * sc) * dec 5 10\<rparr>)"

definition face_box ::
    "('f::{zero,one,plus,minus,times,inverse,ord}, 'z) float_lib_scheme \<Rightarrow> 'f det_scale \<Rightarrow> int \<Rightarrow> 'f \<Rightarrow> 'f \<Rightarrow> 'f list \<Rightarrow> 'f rectf" where
  "face_box fl ds stride cx cy b =
     (let st = of_i fl stride;
          x1 = (cx - b ! 0 * st - pad_w ds) / scale ds; y1 = (cy - b ! 1 * st - pad_h ds) / scale ds;
          x2 = (cx + b ! 2 * st - pad_w ds) / scale ds; y2 = (cy + b ! 3 * st - pad_h ds) / scale ds
      in \<lparr>rx = of_i fl (ftrunc fl x1), ry = of_i fl (ftrunc fl y1),
          rwidth = of_i fl (ftrunc fl (x2 - x1)), rheight = of_i fl (ftrunc fl (y2 - y1))\<rparr>)"

definition face_landmarks ::
    "('f::{zero,one,plus,minus,times,inverse,ord}, 'z) float_lib_scheme \<Rightarrow> 'f det_scale \<Rightarrow> int \<Rightarrow> 'f \<Rightarrow> 'f \<Rightarrow> 'f list \<Rightarrow> 'f point2f list" where
  "face_landmarks fl ds stride cx cy k =
     map (\<lambda>i. \<lparr>px = (cx + k ! (i * 2) * of_i fl stride - pad_w ds) / scale ds,
               py = (cy + k ! (i * 2 + 1) * of_i fl stride - pad_h ds) / scale ds\<rparr>) [0..<5]"

text \<open>One anchor: nothing below the threshold, else a face. \<open>kps\<close> may be a null pointer.\<close>

definition anchor_face ::
    "('f::{zero,one,plus,minus,times,inverse,ord}, 'z) float_lib_scheme \<Rightarrow> 'f det_scale \<Rightarrow> 'f \<Rightarrow> int \<Rightarrow> 'f list \<Rightarrow>
     'f list \<Rightarrow> 'f list option \<Rightarrow> 'f list option \<Rightarrow> nat \<Rightarrow> 'f object list option" where
  "anchor_face fl ds thr stride centers scores bboxes kps i =
     (case nth_opt scores i of
        None \<Rightarrow> None
      | Some sc \<Rightarrow>
          if sc < thr then Some []
          else
            (let cx = centers ! (i * 2); cy = centers ! (i * 2 + 1)
             in case Option.bind bboxes (\<lambda>b. read_block b (i * 4) 4) of
                  None \<Rightarrow> None
                | Some b \<Rightarrow>
                    (let face = new_object\<lparr>label := 0, prob := sc, rect := face_box fl ds stride cx cy b\<rparr>
                     in case kps of
                          None \<Rightarrow> Some [face]
                        | Some ks \<Rightarrow>
                            map_option (\<lambda>k. [face\<lparr>landmark := face_landmarks fl ds stride cx cy k\<rparr>])
                              (read_block ks (i * 10) 10))))"

definition scrfd_level ::
    "('f::{zero,one,plus,minus,times,inverse,ord}, 'z) float_lib_scheme \<Rightarrow> 'f det_scale \<Rightarrow> 'f \<Rightarrow> int \<Rightarrow> 'f list \<Rightarrow>
     'f tensor \<Rightarrow> 'f tensor \<Rightarrow> 'f tensor \<Rightarrow> 'f object list option" where
  "scrfd_level fl ds thr stride centers score_out bbox_out kps_out =
     (let anchors = length centers div 2
      in if unat (nsize score_out) div 4 < anchors then Some []
         else if anchors = 0 then Some []
         else case virt score_out of
                None \<Rightarrow> None
              | Some scores \<Rightarrow>
                  walk_cells (\<lambda>p i. anchor_face fl ds thr stride centers scores (virt bbox_out) (virt kps_out) i) 0 0 [0..<anchors])"

fun scrfd_levels ::
    "('f::{zero,one,plus,minus,times,inverse,ord}, 'z) float_lib_scheme \<Rightarrow> 'f det_scale \<Rightarrow> 'f \<Rightarrow> int \<Rightarrow> int \<Rightarrow>
     'f tensor list \<Rightarrow> (nat \<times> int) list \<Rightarrow> 'f center_cache \<Rightarrow> 'f object list \<Rightarrow> ('f center_cache \<times> 'f object list) option" where
  "scrfd_levels fl ds thr input_h input_w outs [] cache acc = Some (cache, acc)"
| "scrfd_levels fl ds thr input_h input_w outs ((idx, stride) # rest) cache acc =
     (case (nth_opt outs idx, nth_opt outs (idx + 3), nth_opt outs (idx + 6)) of
        (Some score_out, Some bbox_out, Some kps_out) \<Rightarrow>
          (case cached_centers fl cache (c_div input_h stride) (c_div input_w stride) stride of
             (cache', centers) \<Rightarrow>
               (case scrfd_level fl ds thr stride centers score_out bbox_out kps_out of
                  None \<Rightarrow> None
                | Some faces \<Rightarrow> scrfd_levels fl ds thr input_h input_w outs rest cache' (acc @ faces)))
      | _ \<Rightarrow> None)"

definition scrfd_strides :: "(nat \<times> int) list" where
  "scrfd_strides = [(0, 8), (1, 16), (2, 32)]"

text \<open>The whole handler: the code, the faces, and the cache. \<open>n_outputs\<close> is none while there is no engine, \<open>outs\<close> none when
  there are no output buffers.\<close>

definition scrfd_postprocess ::
    "((nat \<Rightarrow> nat \<Rightarrow> bool) \<Rightarrow> nat list \<Rightarrow> nat list) \<Rightarrow> ('f::{zero,one,plus,minus,times,inverse,ord}, 'z) float_lib_scheme \<Rightarrow>
     ('f, 'y) cv_lib_scheme \<Rightarrow> 'f scrfd_config \<Rightarrow> nat option \<Rightarrow> 'f tensor list option \<Rightarrow> 'f center_cache \<Rightarrow> int \<Rightarrow> int \<Rightarrow>
     (int \<times> 'f object list \<times> 'f center_cache) option" where
  "scrfd_postprocess srt fl cv cfg n_outputs outs cache pic_width pic_height =
     (case (nth_opt (s_inputs cfg) 2, nth_opt (s_inputs cfg) 3) of
        (Some input_h, Some input_w) \<Rightarrow>
          if n_outputs \<noteq> Some 9 then Some (- 1, [], cache)
          else
            (case outs of
               None \<Rightarrow> Some (- 1, [], cache)
             | Some os \<Rightarrow>
                 (case scrfd_levels fl (det_scale_of fl input_w input_h pic_width pic_height) (s_prob_threshold cfg)
                         input_h input_w os scrfd_strides cache [] of
                    None \<Rightarrow> None
                  | Some (cache', proposals) \<Rightarrow>
                      if proposals = [] then Some (0, [], cache')
                      else
                        (let kept = map (\<lambda>i. proposals ! i) (scrfd_nms srt cv proposals (s_nms_threshold cfg))
                         in case assign_label_names (s_labels cfg) kept of
                              Inl e \<Rightarrow> Some (- 1, kept, cache')
                            | Inr named \<Rightarrow> Some (0, named, cache'))))
      | _ \<Rightarrow> None)"

section \<open>The cache\<close>




definition cache_ok :: "('f::times, 'z) float_lib_scheme \<Rightarrow> 'f center_cache \<Rightarrow> bool" where
  "cache_ok fl cache = (\<forall>h w s c. cache (h, w, s) = Some c \<longrightarrow> c = anchor_centers fl h w s)"

lemma cached_centers_ok:
  "cache_ok fl cache \<Longrightarrow> cached_centers fl cache h w s = (cache', centers) \<Longrightarrow>
   centers = anchor_centers fl h w s \<and> cache_ok fl cache'"
  by (auto simp: cached_centers_def cache_ok_def Let_def split: option.splits if_splits)




section \<open>The contract of the sort\<close>

text \<open>What \<open>std::sort\<close> promises for a strict weak order, and a sort that meets it.\<close>

definition weak_order :: "('x \<Rightarrow> 'x \<Rightarrow> bool) \<Rightarrow> bool" where
  "weak_order R = ((\<forall>a b. R a b \<longrightarrow> \<not> R b a) \<and> (\<forall>a b c. R a c \<longrightarrow> R a b \<or> R b c))"

definition std_sort :: "(('x \<Rightarrow> 'x \<Rightarrow> bool) \<Rightarrow> 'x list \<Rightarrow> 'x list) \<Rightarrow> bool" where
  "std_sort srt = (\<forall>R xs. weak_order R \<longrightarrow> mset (srt R xs) = mset xs \<and> sorted_wrt (\<lambda>a b. \<not> R b a) (srt R xs))"

fun put_in :: "('x \<Rightarrow> 'x \<Rightarrow> bool) \<Rightarrow> 'x \<Rightarrow> 'x list \<Rightarrow> 'x list" where
  "put_in R x [] = [x]"
| "put_in R x (y # ys) = (if R x y then x # y # ys else y # put_in R x ys)"

definition insertion_sort :: "('x \<Rightarrow> 'x \<Rightarrow> bool) \<Rightarrow> 'x list \<Rightarrow> 'x list" where
  "insertion_sort R xs = foldr (put_in R) xs []"

lemma put_in_ok:
  assumes "weak_order R"
  shows "mset (put_in R x ys) = add_mset x (mset ys) \<and>
    (sorted_wrt (\<lambda>a b. \<not> R b a) ys \<longrightarrow> sorted_wrt (\<lambda>a b. \<not> R b a) (put_in R x ys))"
proof (induction ys)
  case (Cons y ys)
  have r: "R a c \<Longrightarrow> R a b \<or> R b c" "R a b \<Longrightarrow> \<not> R b a" for a b c using assms by (auto simp: weak_order_def)
  have "set (put_in R x ys) = insert x (set ys)" using Cons.IH by (metis set_mset_add_mset_insert set_mset_mset)
  then show ?case using Cons.IH r(2) by (auto dest: r(1))
qed simp

lemma insertion_sort_std: "std_sort insertion_sort"
  unfolding std_sort_def
proof (intro allI impI)
  fix R :: "'x \<Rightarrow> 'x \<Rightarrow> bool" and xs assume "weak_order R"
  then show "mset (insertion_sort R xs) = mset xs \<and> sorted_wrt (\<lambda>a b. \<not> R b a) (insertion_sort R xs)"
    using put_in_ok [of R] by (induction xs) (auto simp: insertion_sort_def)
qed

section \<open>The faces\<close>

lemma scrfd_nms_loop_ok:
  "sorted_wrt P order \<Longrightarrow> set (scrfd_nms_loop hit S order) \<subseteq> set order - S \<and>
   sorted_wrt (\<lambda>a b. P a b \<and> \<not> hit a b) (scrfd_nms_loop hit S order) \<and>
   (\<forall>i \<in> set order - set (scrfd_nms_loop hit S order). i \<in> S \<or> (\<exists>j \<in> set (scrfd_nms_loop hit S order). P j i \<and> hit j i))"
proof (induction hit S order rule: scrfd_nms_loop.induct)
  case (2 hit S i order)
  show ?case
  proof (cases "i \<in> S")
    case True
    then show ?thesis using "2.IH"(1) [OF True] "2.prems" by auto
  next
    case False
    let ?S = "S \<union> set (filter (hit i) order)"
    let ?l = "scrfd_nms_loop hit ?S order"
    have ih: "set ?l \<subseteq> set order - ?S" "sorted_wrt (\<lambda>a b. P a b \<and> \<not> hit a b) ?l"
      "\<forall>k \<in> set order - set ?l. k \<in> ?S \<or> (\<exists>j \<in> set ?l. P j k \<and> hit j k)"
      using "2.IH"(2) [OF False] "2.prems" by simp_all
    have "P i k" if "k \<in> set order" for k using "2.prems" that by simp
    then show ?thesis using False ih by auto
  qed
qed simp

definition level_ready :: "int \<Rightarrow> int \<Rightarrow> 'f tensor list \<Rightarrow> nat \<times> int \<Rightarrow> bool" where
  "level_ready input_h input_w os = (\<lambda>(idx, stride).
     let n = nat (c_div input_h stride) * nat (c_div input_w stride) * 2
     in (case virt (os ! idx) of None \<Rightarrow> False | Some v \<Rightarrow> unat (nsize (os ! idx)) \<le> 4 * length v) \<and>
        (case virt (os ! (idx + 3)) of None \<Rightarrow> False | Some v \<Rightarrow> n * 4 \<le> length v) \<and>
        (case virt (os ! (idx + 6)) of None \<Rightarrow> True | Some v \<Rightarrow> n * 10 \<le> length v))"

definition scrfd_ready :: "'f scrfd_config \<Rightarrow> 'f tensor list \<Rightarrow> bool" where
  "scrfd_ready cfg os = (4 \<le> length (s_inputs cfg) \<and> s_labels cfg \<noteq> [] \<and> length os = 9 \<and>
     list_all (level_ready (s_inputs cfg ! 2) (s_inputs cfg ! 3) os) scrfd_strides)"

definition face_ok :: "'f::ord scrfd_config \<Rightarrow> 'f object \<Rightarrow> bool" where
  "face_ok cfg ob = (label ob = 0 \<and> s_prob_threshold cfg \<le> prob ob \<and> length (landmark ob) = 5)"

lemma length_centers: "length (anchor_centers fl feat_h feat_w stride) = nat feat_h * nat feat_w * 4"
proof -
  let ?row = "\<lambda>ay. concat (map (\<lambda>ax. let cx = of_i fl (int ax) * of_i fl stride; cy = of_i fl (int ay) * of_i fl stride
     in [cx, cy, cx, cy]) [0..<nat feat_w])"
  have "length (?row ay) = nat feat_w * 4" for ay by (subst length_concat_same [where n = 4]) (auto simp: Let_def)
  then show ?thesis unfolding anchor_centers_def by (subst length_concat_same [where n = "nat feat_w * 4"]) auto
qed

lemma anchor_face_ok:
  fixes fl :: "('f::linordered_field, 'z) float_lib_scheme"
  assumes "i < length scores" "bboxes = Some b" "i * 4 + 4 \<le> length b" "kps = None \<or> (\<exists>k. kps = Some k \<and> i * 10 + 10 \<le> length k)"
  shows "\<exists>os. anchor_face fl ds (s_prob_threshold cfg) stride centers scores bboxes kps i = Some os \<and> (\<forall>ob \<in> set os. face_ok cfg ob)"
proof (cases "scores ! i < s_prob_threshold cfg")
  case False
  show ?thesis
  proof (cases kps)
    case None
    then show ?thesis using assms False
      by (simp add: anchor_face_def nth_opt_def read_block_def Let_def face_ok_def new_object_def not_less)
  next
    case (Some k)
    then have "i * 10 + 10 \<le> length k" using assms(4) by simp
    then show ?thesis using assms Some False
      by (simp add: anchor_face_def nth_opt_def read_block_def Let_def face_ok_def face_landmarks_def new_object_def not_less)
  qed
qed (use assms in \<open>simp add: anchor_face_def nth_opt_def\<close>)

lemma scrfd_level_ok:
  fixes fl :: "('f::linordered_field, 'z) float_lib_scheme"
  assumes "level_ready hh ww os (idx, stride)"
  shows "\<exists>fs. scrfd_level fl ds (s_prob_threshold cfg) stride (anchor_centers fl (c_div hh stride) (c_div ww stride) stride)
      (os ! idx) (os ! (idx + 3)) (os ! (idx + 6)) = Some fs \<and> (\<forall>ob \<in> set fs. face_ok cfg ob)"
proof -
  let ?c = "anchor_centers fl (c_div hh stride) (c_div ww stride) stride"
  define n where "n = length ?c div 2"
  have n: "n = nat (c_div hh stride) * nat (c_div ww stride) * 2" by (simp add: n_def length_centers)
  obtain v b where v: "virt (os ! idx) = Some v" "unat (nsize (os ! idx)) \<le> 4 * length v"
      and b: "virt (os ! (idx + 3)) = Some b" "n * 4 \<le> length b"
      and k: "virt (os ! (idx + 6)) = None \<or> (\<exists>k. virt (os ! (idx + 6)) = Some k \<and> n * 10 \<le> length k)"
    using assms by (auto simp: level_ready_def Let_def n split: option.splits)
  show ?thesis
  proof (cases "unat (nsize (os ! idx)) div 4 < n \<or> n = 0")
    case False
    then have len: "n \<le> length v" using v(2) by linarith
    have "\<exists>fs. walk_cells (\<lambda>p i. anchor_face fl ds (s_prob_threshold cfg) stride ?c v (virt (os ! (idx + 3))) (virt (os ! (idx + 6))) i)
        0 0 [0..<n] = Some fs \<and> (\<forall>ob \<in> set fs. face_ok cfg ob)"
    proof (rule walk_cells_all)
      fix i assume "i < length [0..<n]"
      then have i: "i < n" by simp
      then have "i * 4 + 4 \<le> length b" "i * 10 + 10 \<le> n * 10" using b(2) by linarith+
      then show "\<exists>fs. anchor_face fl ds (s_prob_threshold cfg) stride ?c v (virt (os ! (idx + 3))) (virt (os ! (idx + 6))) ([0..<n] ! i) =
          Some fs \<and> (\<forall>ob \<in> set fs. face_ok cfg ob)"
        using anchor_face_ok [of i v "virt (os ! (idx + 3))" b "virt (os ! (idx + 6))" fl ds cfg stride ?c] i len b(1) k by auto
    qed
    then show ?thesis using False v(1) by (simp add: scrfd_level_def n_def [symmetric] Let_def)
  qed (auto simp: scrfd_level_def n_def [symmetric] Let_def)
qed

lemma scrfd_levels_ok:
  fixes fl :: "('f::linordered_field, 'z) float_lib_scheme"
  assumes "list_all (level_ready hh ww os) ls" "\<forall>(idx, stride) \<in> set ls. idx + 6 < length os" "cache_ok fl cache" "\<forall>ob \<in> set acc. face_ok cfg ob"
  shows "\<exists>c fs. scrfd_levels fl ds (s_prob_threshold cfg) hh ww os ls cache acc = Some (c, fs) \<and> cache_ok fl c \<and> (\<forall>ob \<in> set fs. face_ok cfg ob)"
  using assms
proof (induction ls arbitrary: cache acc)
  case (Cons l ls)
  obtain idx stride where l: "l = (idx, stride)" by fastforce
  obtain c k where k: "cached_centers fl cache (c_div hh stride) (c_div ww stride) stride = (c, k)" by fastforce
  have c: "k = anchor_centers fl (c_div hh stride) (c_div ww stride) stride" "cache_ok fl c"
    using cached_centers_ok [OF Cons.prems(3) k] by simp_all
  have "level_ready hh ww os (idx, stride)" using Cons.prems(1) by (simp add: l)
  then obtain fs where f: "scrfd_level fl ds (s_prob_threshold cfg) stride k (os ! idx) (os ! (idx + 3)) (os ! (idx + 6)) = Some fs"
      "\<forall>ob \<in> set fs. face_ok cfg ob" using scrfd_level_ok c(1) by blast
  have "\<forall>ob \<in> set (acc @ fs). face_ok cfg ob" using f(2) Cons.prems(4) by auto
  from Cons.IH [OF _ _ c(2) this] Cons.prems(1,2) f(1) k show ?case
    by (simp add: l nth_opt_def)
qed simp

lemma score_order: "weak_order (\<lambda>a b. prob (ps ! b) < prob (ps ! a))" for ps :: "'f::linorder object list"
  by (auto simp: weak_order_def)

lemma scrfd_nms_ok:
  fixes ps :: "'f::linordered_field object list"
  assumes "std_sort srt"
  shows "set (scrfd_nms srt cv ps thr) \<subseteq> {0..<length ps} \<and>
    sorted_wrt (\<lambda>a b. prob (ps ! b) \<le> prob (ps ! a) \<and> \<not> thr \<le> scrfd_iou cv (rect (ps ! a)) (rect (ps ! b))) (scrfd_nms srt cv ps thr) \<and>
    (\<forall>i < length ps. i \<notin> set (scrfd_nms srt cv ps thr) \<longrightarrow>
       (\<exists>j \<in> set (scrfd_nms srt cv ps thr). prob (ps ! i) \<le> prob (ps ! j) \<and> thr \<le> scrfd_iou cv (rect (ps ! j)) (rect (ps ! i))))"
proof -
  let ?order = "srt (\<lambda>a b. prob (ps ! b) < prob (ps ! a)) [0..<length ps]"
  have o: "mset ?order = mset [0..<length ps]" "sorted_wrt (\<lambda>a b. \<not> prob (ps ! a) < prob (ps ! b)) ?order"
    using assms score_order unfolding std_sort_def by blast+
  have set: "set ?order = {0..<length ps}" using arg_cong [OF o(1), of set_mset] by simp
  have "sorted_wrt (\<lambda>a b. prob (ps ! b) \<le> prob (ps ! a)) ?order" using o(2) by (simp add: not_less)
  from scrfd_nms_loop_ok [OF this, of "\<lambda>i j. thr \<le> scrfd_iou cv (rect (ps ! i)) (rect (ps ! j))" "{}"]
  show ?thesis unfolding scrfd_nms_def set by auto
qed

text \<open>C17. With tensors as long as the sizes of the model ask for, \<open>Scrfd::Postprocess\<close> reads within them and succeeds: the faces it
  reports have the first label and its name, five landmarks and a score from the threshold on, come best first, and no two of
  them overlap as much as the threshold for suppression. This holds for every sort that keeps the promise of \<open>std::sort\<close>.\<close>

theorem scrfd_faces_ok:
  fixes fl :: "('f::linordered_field, 'z) float_lib_scheme"
  assumes "std_sort srt" "scrfd_ready cfg os" "cache_ok fl cache"
  shows "\<exists>faces cache'. scrfd_postprocess srt fl cv cfg (Some 9) (Some os) cache w h = Some (0, faces, cache') \<and>
    list_all (\<lambda>f. face_ok cfg f \<and> label_name f = s_labels cfg ! 0) faces \<and>
    sorted_wrt (\<lambda>a b. prob b \<le> prob a \<and> \<not> s_nms_threshold cfg \<le> scrfd_iou cv (rect a) (rect b)) faces"
proof -
  let ?hh = "s_inputs cfg ! 2" and ?ww = "s_inputs cfg ! 3"
  have i: "nth_opt (s_inputs cfg) 2 = Some ?hh" "nth_opt (s_inputs cfg) 3 = Some ?ww"
    using assms(2) by (simp_all add: scrfd_ready_def nth_opt_def)
  have "list_all (level_ready ?hh ?ww os) scrfd_strides" "\<forall>(idx, stride) \<in> set scrfd_strides. idx + 6 < length os"
    using assms(2) by (auto simp: scrfd_ready_def scrfd_strides_def)
  from scrfd_levels_ok [OF this assms(3), of "[]" cfg "det_scale_of fl ?ww ?hh w h"]
  obtain c ps where l: "scrfd_levels fl (det_scale_of fl ?ww ?hh w h) (s_prob_threshold cfg) ?hh ?ww os scrfd_strides cache [] = Some (c, ps)"
      "\<forall>ob \<in> set ps. face_ok cfg ob" by auto
  let ?keep = "scrfd_nms srt cv ps (s_nms_threshold cfg)" and ?name = "\<lambda>ob. ob\<lparr>label_name := s_labels cfg ! nat (label ob)\<rparr>"
  note nms = scrfd_nms_ok [OF assms(1), of cv ps "s_nms_threshold cfg"]
  have kept: "face_ok cfg (ps ! k)" if "k \<in> set ?keep" for k
    using nms that l(2) nth_mem by fastforce
  have names: "assign_label_names (s_labels cfg) (map (\<lambda>i. ps ! i) ?keep) = Inr (map ?name (map (\<lambda>i. ps ! i) ?keep))"
    by (rule assign_label_names_ok) (use kept assms(2) in \<open>auto simp: face_ok_def scrfd_ready_def\<close>)
  show ?thesis
  proof (cases "ps = []")
    case False
    have "list_all (\<lambda>f. face_ok cfg f \<and> label_name f = s_labels cfg ! 0) (map ?name (map (\<lambda>i. ps ! i) ?keep))"
      using kept by (auto simp: list_all_iff face_ok_def)
    moreover have "sorted_wrt (\<lambda>a b. prob b \<le> prob a \<and> \<not> s_nms_threshold cfg \<le> scrfd_iou cv (rect a) (rect b))
        (map ?name (map (\<lambda>i. ps ! i) ?keep))"
      using nms by (simp add: sorted_wrt_map)
    ultimately show ?thesis using False l(1) names by (simp add: scrfd_postprocess_def i)
  qed (simp add: scrfd_postprocess_def i l(1))
qed

definition demo_scrfd :: "rat scrfd_config" where
  "demo_scrfd = \<lparr>s_inputs = [1, 3, 8, 8], s_prob_threshold = 4 / 5, s_nms_threshold = 2 / 5, s_labels = [''face'']\<rparr>"

definition demo_outputs :: "rat tensor list" where
  "demo_outputs = (let none = \<lparr>nsize = 0, virt = Some []\<rparr>
     in [\<lparr>nsize = 8, virt = Some [9 / 10, 7 / 10]\<rparr>, none, none, \<lparr>nsize = 32, virt = Some [0, 0, 1, 1, 0, 0, 1, 1]\<rparr>, none, none,
         \<lparr>nsize = 80, virt = Some (replicate 20 (1 / 2))\<rparr>, none, none])"

theorem scrfd_faces_ok_witness:
  "\<exists>faces cache'. scrfd_postprocess insertion_sort demo_math demo_cv demo_scrfd (Some 9) (Some demo_outputs) Map.empty 16 16 = Some (0, faces, cache') \<and>
    list_all (\<lambda>f. face_ok demo_scrfd f \<and> label_name f = s_labels demo_scrfd ! 0) faces \<and>
    sorted_wrt (\<lambda>a b. prob b \<le> prob a \<and> \<not> s_nms_threshold demo_scrfd \<le> scrfd_iou demo_cv (rect a) (rect b)) faces"
proof (rule scrfd_faces_ok [OF insertion_sort_std])
  show "scrfd_ready demo_scrfd demo_outputs"
    by (simp add: scrfd_ready_def demo_scrfd_def demo_outputs_def Let_def scrfd_strides_def level_ready_def c_div_def eval_nat_numeral)
  show "cache_ok demo_math Map.empty" by (simp add: cache_ok_def)
qed

lemma demo_faces:
  "map_option (\<lambda>r. map rect (fst (snd r))) (scrfd_postprocess insertion_sort demo_math demo_cv demo_scrfd (Some 9) (Some demo_outputs) Map.empty 16 16) =
     Some [\<lparr>rx = 0, ry = 0, rwidth = 16, rheight = 16\<rparr>]"
  by code_simp

end
