(* ===== verification/Engine_Factory.thy ===== *)
theory Engine_Factory
  imports Recognition Scrfd
begin

text \<open>
  How an engine is made from its configuration file (\<open>models/engine_factory.cpp\<close>) over an abstract yaml-cpp: defaults, what
  the file overrides, what is not checked. An exception is \<open>None\<close>; within the factory's \<open>try\<close> it becomes a null pointer.
\<close>

section \<open>Reading\<close>

definition read_optional_value :: "('n, 'f, 'z) yaml_lib_scheme \<Rightarrow> 'n \<Rightarrow> string \<Rightarrow> ('n \<Rightarrow> 'a option) \<Rightarrow> 'a \<Rightarrow> 'a option" where
  "read_optional_value y node key as_value default_value =
     (case lookup y node key of None \<Rightarrow> Some default_value | Some n \<Rightarrow> as_value n)"

definition read_vector :: "('n, 'f, 'z) yaml_lib_scheme \<Rightarrow> 'n \<Rightarrow> string \<Rightarrow> ('n \<Rightarrow> 'a option) \<Rightarrow> 'a list \<Rightarrow> 'a list option" where
  "read_vector y node key as_value default_value =
     (case lookup y node key of
        None \<Rightarrow> Some default_value
      | Some n \<Rightarrow> if is_sequence y n then those (map as_value (items y n)) else Some default_value)"

text \<open>The loop stops at the first entry that is not a pair; what has been read stays, and the caller does not look at
  the result.\<close>

fun read_pairs :: "('n, 'f, 'z) yaml_lib_scheme \<Rightarrow> 'n list \<Rightarrow> 'f list list \<Rightarrow> 'f list list option" where
  "read_pairs y [] out = Some out"
| "read_pairs y (pair # rest) out =
     (if \<not> is_sequence y pair \<or> length (items y pair) \<noteq> 2 then Some out
      else
        (case (as_float y (items y pair ! 0), as_float y (items y pair ! 1)) of
           (Some a, Some b) \<Rightarrow> read_pairs y rest (out @ [[a, b]])
         | _ \<Rightarrow> None))"

definition read_anchors :: "('n, 'f, 'z) yaml_lib_scheme \<Rightarrow> 'n \<Rightarrow> 'f list list \<Rightarrow> 'f list list option" where
  "read_anchors y node default_value =
     (case lookup y node ''anchors'' of
        None \<Rightarrow> Some default_value
      | Some n \<Rightarrow> if is_sequence y n then read_pairs y (items y n) [] else Some default_value)"

section \<open>Configurations\<close>

definition default_yolov5 :: "'f::{zero,one,plus,inverse} yolov5_config" where
  "default_yolov5 = \<lparr>y_inputs = [1, 3, 640, 640], y_prob_threshold = dec 20 100, y_nms_threshold = dec 45 100,
     y_num_anchors = [3, 3, 3],
     y_anchors = [[small 10, small 13], [small 16, small 30], [small 33, small 23], [small 30, small 61], [small 62, small 45],
       [small 59, small 119], [small 116, small 90], [small 156, small 198], [small 373, small 326]],
     y_strides = [8, 16, 32], y_labels = [''fire'', ''smoke'', ''other'', ''warning'']\<rparr>"

definition default_scrfd :: "'f::{zero,one,plus,inverse} scrfd_config" where
  "default_scrfd = \<lparr>s_inputs = [1, 3, 640, 640], s_prob_threshold = dec 8 10, s_nms_threshold = dec 4 10, s_labels = [''face'']\<rparr>"

definition default_arcface :: "'f::{zero,one,plus,inverse} arcface_config" where
  "default_arcface = \<lparr>a_inputs = [1, 3, 112, 112], feat_dim = 512, l2_normalize = False, expand_ratio = dec 15 10\<rparr>"

definition read_yolov5 :: "('n, 'f::{zero,one,plus,inverse}, 'z) yaml_lib_scheme \<Rightarrow> 'n \<Rightarrow> 'f yolov5_config option" where
  "read_yolov5 y doc =
     (let d = default_yolov5 in
      Option.bind (read_vector y doc ''inputs'' (as_int y) (y_inputs d)) (\<lambda>inputs.
      Option.bind (read_optional_value y doc ''prob_threshold'' (as_float y) (y_prob_threshold d)) (\<lambda>pt.
      Option.bind (read_optional_value y doc ''nms_threshold'' (as_float y) (y_nms_threshold d)) (\<lambda>nt.
      Option.bind (read_vector y doc ''strides'' (as_int y) (y_strides d)) (\<lambda>st.
      Option.bind (read_vector y doc ''num_anchors'' (as_int y) (y_num_anchors d)) (\<lambda>na.
      Option.bind (read_vector y doc ''labels'' (as_string y) (y_labels d)) (\<lambda>labels.
      Option.bind (read_anchors y doc (y_anchors d)) (\<lambda>an.
        Some \<lparr>y_inputs = inputs, y_prob_threshold = pt, y_nms_threshold = nt, y_num_anchors = na, y_anchors = an,
              y_strides = st, y_labels = labels\<rparr>))))))))"

text \<open>Strides and the numbers of anchors are read for SCRFD too; its post-processing uses constants.\<close>

definition read_scrfd :: "('n, 'f::{zero,one,plus,inverse}, 'z) yaml_lib_scheme \<Rightarrow> 'n \<Rightarrow> 'f scrfd_config option" where
  "read_scrfd y doc =
     (let d = default_scrfd in
      Option.bind (read_vector y doc ''inputs'' (as_int y) (s_inputs d)) (\<lambda>inputs.
      Option.bind (read_optional_value y doc ''prob_threshold'' (as_float y) (s_prob_threshold d)) (\<lambda>pt.
      Option.bind (read_optional_value y doc ''nms_threshold'' (as_float y) (s_nms_threshold d)) (\<lambda>nt.
      Option.bind (read_vector y doc ''strides'' (as_int y) [8, 16, 32]) (\<lambda>st.
      Option.bind (read_vector y doc ''num_anchors'' (as_int y) [2, 2, 2]) (\<lambda>na.
      Option.bind (read_vector y doc ''labels'' (as_string y) (s_labels d)) (\<lambda>labels.
        Some \<lparr>s_inputs = inputs, s_prob_threshold = pt, s_nms_threshold = nt, s_labels = labels\<rparr>)))))))"

definition read_arcface :: "('n, 'f::{zero,one,plus,inverse}) yaml_reader \<Rightarrow> 'n \<Rightarrow> 'f arcface_config option" where
  "read_arcface y doc =
     (let d = default_arcface in
      Option.bind (read_vector y doc ''inputs'' (as_int y) (a_inputs d)) (\<lambda>inputs.
      Option.bind (read_optional_value y doc ''feat_dim'' (as_int y) (feat_dim d)) (\<lambda>dim.
      Option.bind (read_optional_value y doc ''l2_normalize'' (as_bool y) (l2_normalize d)) (\<lambda>l2.
      Option.bind (read_optional_value y doc ''expand_ratio'' (as_float y) (expand_ratio d)) (\<lambda>er.
        Some \<lparr>a_inputs = inputs, feat_dim = dim, l2_normalize = l2, expand_ratio = er\<rparr>)))))"

section \<open>The factory\<close>

text \<open>What is made has its model file; the first conversion of the model type stands outside of the \<open>try\<close>.\<close>

datatype 'f made_engine =
  NoEngine
| ThrewOut
| MadeYolov5 string "'f yolov5_config"
| MadeScrfd string "'f scrfd_config"
| MadeArcface string "'f arcface_config"

definition made :: "(string \<Rightarrow> 'c \<Rightarrow> 'f made_engine) \<Rightarrow> string option \<Rightarrow> 'c option \<Rightarrow> 'f made_engine" where
  "made mk model_file cfg =
     (case (model_file, cfg) of (Some f, Some c) \<Rightarrow> mk f c | _ \<Rightarrow> NoEngine)"

definition create_engine :: "('n, 'f::{zero,one,plus,inverse}) yaml_reader \<Rightarrow> string \<Rightarrow> 'f made_engine" where
  "create_engine y config_path =
     (if config_path = [] then NoEngine
      else
        (case load_file y config_path of
           Inl e \<Rightarrow> NoEngine
         | Inr doc \<Rightarrow>
             if \<not> is_map y doc then NoEngine
             else
               (case (lookup y doc ''model_type'', lookup y doc ''model_file'') of
                  (Some type_node, Some file_node) \<Rightarrow>
                    (case as_string y type_node of
                       None \<Rightarrow> ThrewOut
                     | Some model_type \<Rightarrow>
                         if model_type = ''yolov5'' then made MadeYolov5 (as_string y file_node) (read_yolov5 y doc)
                         else if model_type = ''scrfd'' then made MadeScrfd (as_string y file_node) (read_scrfd y doc)
                         else if model_type = ''arcface'' then made MadeArcface (as_string y file_node) (read_arcface y doc)
                         else NoEngine)
                | _ \<Rightarrow> NoEngine)))"

section \<open>What the factory lets pass\<close>

lemma read_vector_given:
  "lookup y doc key = Some n \<Longrightarrow> is_sequence y n \<Longrightarrow> those (map as_value (items y n)) = Some vs \<Longrightarrow>
   read_vector y doc key as_value d = Some vs"
  by (simp add: read_vector_def)

text \<open>A file that gives three inputs or fewer makes an engine whose post-processing reads outside of the vector, whatever
  the tensors are.\<close>

lemma factory_passes_short_inputs:
  assumes "create_engine y path = MadeYolov5 file cfg" "load_file y path = Inr doc" "lookup y doc ''inputs'' = Some n"
    "is_sequence y n" "length (items y n) < 4"
  shows "yolov5_postprocess fl cv cfg n_outputs outs w h objects = None"
proof -
  have "read_yolov5 y doc = Some cfg" using assms(1,2)
    by (auto simp: create_engine_def made_def split: if_splits option.splits)
  then obtain inputs d where i: "read_vector y doc ''inputs'' (as_int y) d = Some inputs"
      "y_inputs cfg = inputs" by (auto simp: read_yolov5_def Let_def bind_eq_Some_conv)
  then have "those (map (as_int y) (items y n)) = Some inputs" using assms(3,4) by (simp add: read_vector_def)
  moreover have "those xs = Some vs \<Longrightarrow> length vs = length xs" for xs :: "int option list" and vs
    by (induction xs arbitrary: vs) (auto split: option.splits)
  ultimately have "length (y_inputs cfg) < 4" using assms(5) i(2) by fastforce
  then show ?thesis by (rule yolov5_short_inputs)
qed

end
