(* ===== verification/Spec2Isabelle.thy ===== *)
theory Spec2Isabelle
  imports Qdrant Pipeline_Inv Worker_Pool Rate_Limiter Hw_Ids Frames Tracker_Proc Stages Osd_Text Rules Face_Plugin_Inv Vdec Venc Ivps Jpeg Stream_In Stream_Out Files Board Similarity Lapjv_Checked Assignment Engine_Factory
begin

text \<open>
  This library models \<open>ax_core\<close>, a video analysis program for an accelerator board: it decodes a camera stream, finds
  faces, tracks them, recognises them, draws on the picture, encodes it again and reports to two servers. All paths are
  those of the repository below \<open>src/\<close>.

  \<^bold>\<open>The program and its parts.\<close> \<open>apps/main_rtsp.cpp\<close> makes four nodes and hands them to the scheduler of \<open>pipeline/\<close>, which
  gives each a thread and a bounded queue. \<open>PreProcess\<close> takes the frames of the hardware decoder, copies them and sends them on;
  \<open>InfProcess\<close> runs the face detector on a scaled copy; \<open>BusProcess\<close> hands frame and detections to the scene runtime
  of \<open>plugin/\<close>, which runs the post-processors (the tracker) and the business plugin (face recognition), and forwards the
  frame whatever happened; \<open>EncProcess\<close> gives it to the hardware encoder. The face plugin submits jobs to the host services,
  whose thread pool runs the recognition model, asks the vector store and pushes alarms over a shared pool of HTTP handles.

  \<^bold>\<open>Which theory models what.\<close> Each group of definitions follows the order of its source file; the state of a class is a
  record with the names of its members, an operation a definition or function named after the method.

  \<^item> \<open>Ax_Prelude\<close>: machine integers, result codes (\<open>pipeline/error.h\<close>), rules and lemmas that all share.
  \<^item> \<open>Thread_Queue\<close>, \<open>Pipeline\<close>, \<open>Pipeline_Inv\<close>: the queue, nodes, managers and scheduler (\<open>pipeline/\<close>); the threads interleave in
    the step relation \<open>pstep\<close>. Invariant, life cycle of a slot as a refinement, draining, accounting for dropped messages.
  \<^item> \<open>Worker_Pool\<close>: \<open>utils/thread_pool.h\<close> and the gates of \<open>plugin/host_services.cpp\<close>: what \<open>WaitQuiesce\<close> says when it returns, and that a pool
    that shuts down leaves no accepted job behind. Its queue and that of the pipeline interpret one locale, \<open>bounded_fifo\<close>.
  \<^item> \<open>Rate_Limiter\<close>: failure logs of the stages, two implementations of one contract.
  \<^item> \<open>Stages\<close>: the four stages (\<open>stages/\<close>) and the start of the host services, composed from the parts below.
  \<^item> \<open>Plugins\<close>, \<open>Scene_Config\<close>, \<open>Yaml_Lib\<close>: loading of plugins (\<open>plugin/\<close>) against a life-cycle monitor, and the reading of the scene.
  \<^item> \<open>Detection\<close>, \<open>Byte_Track\<close>, \<open>Byte_Track_Inv\<close>, \<open>Tracker_Proc\<close>: detected objects, the tracker (\<open>tracker/bytetrack/\<close>) and the
    post-processor around it (\<open>postprocessors/tracker/\<close>): ids are unique over any run, every object of a frame gets at most one.
  \<^item> \<open>Lapjv\<close>, \<open>Lapjv_Inv\<close>, \<open>Lapjv_Checked\<close>, \<open>Lapjv_Opt\<close>, \<open>Assignment\<close>: the assignment solver, that it stays within its arrays and
    returns a perfect matching without a law of arithmetic (\<open>Lapjv_Checked\<close> has it over arrays with every access checked) and a
    cheapest one on an ordered field, and the locale that states what the tracker needs of it.
  \<^item> \<open>Engine\<close>, \<open>Engine_Factory\<close>, \<open>Recognition\<close>, \<open>Scrfd\<close>, \<open>Detect_Post\<close>, \<open>Detect_Post_Inv\<close>, \<open>Descent_Sort\<close>: the models (\<open>models/\<close>): the
    buffers on the accelerator, how engines are made, face recognition, face detection, YOLOv5 and its quicksort.
  \<^item> \<open>Face_Align\<close>, \<open>Similarity\<close>: \<open>models/face_align.cpp\<close>: how frontal a face is, the region cut out, the similarity transform.
  \<^item> \<open>Face_Plugin\<close>, \<open>Face_Plugin_Inv\<close>: \<open>plugins/face_recognition/\<close>: the bookkeeping per track and the jobs.
  \<^item> \<open>Face_Server\<close>, \<open>Http\<close>, \<open>Qdrant\<close>: the clients (\<open>common/\<close>): checks of a push, the pool of handles, retries and point ids.
  \<^item> \<open>Rules\<close>: the box rules (\<open>common/rule_engine.cpp\<close>, \<open>common/box_rule.cpp\<close>, \<open>rules/\<close>).
  \<^item> \<open>Frames\<close>, \<open>Drawing\<close>, \<open>Osd_Text\<close>, \<open>Font_En16\<close>: frames and their memory, drawing and text (\<open>hal/\<close>).
  \<^item> \<open>Hw_Ids\<close>, \<open>Hal_Calls\<close>, \<open>Vdec\<close>, \<open>Venc\<close>, \<open>Ivps\<close>, \<open>Jpeg\<close>: \<open>hal/ax/\<close>: the ids shared by processes, and the wrappers of decoder,
    encoder, scaler and JPEG codec, each with a monitor over the log of its calls that says what is out at the end.
  \<^item> \<open>Stream_In\<close>: \<open>hal/ffmpeg_decoder.cpp\<close>: the reader of the camera stream over FFmpeg, in the same style, and that it ends.
  \<^item> \<open>Stream_Out\<close>: \<open>hal/ffmpeg_encoder.cpp\<close>: the writer of the output stream: packets in order, and what its release is worth.
  \<^item> \<open>Files\<close>, \<open>Board\<close>: \<open>models/file.cpp\<close> and \<open>pipeline/resource.cpp\<close>: files, and the modules of the board.

  \<^bold>\<open>What is proved.\<close> Every property carries an identifier C1 to C40 in the theory of its part. Invariants and safety are by rule
  induction over step relations; refinements relate the code to a monitor or an abstract life cycle; what can fail to return
  is a result of its own (\<open>None\<close>), and that it returns is proved or characterised. Where the code has a defect the
  theorem says exactly when it shows, and a lemma near it has a concrete run: workers marked while they start, a job
  that throws, a handle that cannot be made, the encoder's drain, the decoder's buffer before \<open>Init\<close>, a file left open.

  \<^bold>\<open>Atomicity.\<close> The body of a critical section is one step; so is a change of an atomic flag. Between them threads interleave freely.
  A send of a message is one step: the look at the list, the check of the status and the push. In the code the status can change
  before the push, which then puts a message into a queue that is not worked off any more, and while \<open>ReleaseThreads\<close> frees
  one manager after the other a worker that still runs can send to one that is being freed; the list is read without a lock.
  The steps of the model have no such race.

  \<^bold>\<open>Bounds and loops.\<close> Loops are structural or have a measure (distance to the end of a file, rows to place, columns to
  scan). Loops the code does not bound are partial functions to \<open>option\<close>: the decoder's \<open>Destory\<close>, the encoder's drain, the reader of the stream, \<open>WriteFrame\<close>,
  quicksort on keys that are not ordered. No fuel is used elsewhere. Machine integers are words where
  wrap-around can matter; each theory says where a counter is taken not to leave its bits.

  \<^bold>\<open>Parameters.\<close> What is not in the repository is an argument: the Kalman filter (Eigen code), yaml-cpp, dynamic
  libraries, \<open>std::stof\<close>, the order of unordered containers and of equal elements after \<open>std::sort\<close>, libcurl, nlohmann's JSON,
  the accelerator, codecs and memory of the board, the singular value decomposition, warps and rectangles of OpenCV, and
  \<open>exp\<close>, \<open>sqrt\<close> and the like. Hypotheses about them state what their documentation says, and each theorem that has
  one has a witness with concrete functions. Floating-point numbers are of any type with the operations; theorems that
  need laws of arithmetic are stated on ordered fields or real numbers and say so.

  \<^bold>\<open>Not modelled.\<close> \<open>hal/osd\<close>'s FreeType renderer (another
  build), the logger, \<open>tracker/bytetrack/BytekalmanFilter.cpp\<close> (matrices of Eigen; a parameter), the applications, tests
  and their fakes. \<open>bak_old/\<close>, \<open>tmp/\<close>, \<open>image_search/\<close>, \<open>models/detail/pose.h\<close> and what \<open>models/detail/detection.h\<close> holds
  besides the code of YOLOv5 are called by nothing in the build. Log lines and the texts of error codes are left out.
\<close>

end
